(* ===== verification/Ds4_Prelude.thy ===== *)
theory Ds4_Prelude
  imports Main "HOL-Library.Word"
begin

unbundle bit_operations_syntax

text \<open>
  Shared vocabulary of the development.

  The machine integers of the C code are words of their own width; a byte
  buffer is a \<open>byte list\<close>; a multi-byte integer read with \<open>memcpy\<close> on the
  (little endian) targets of the program is \<open>le_word bs\<close>.  The theory
  also holds the named collections the component proofs draw on and the
  generic list facts they share.
\<close>

type_synonym byte = "8 word"
type_synonym u16 = "16 word"
type_synonym u32 = "32 word"
type_synonym u64 = "64 word"

named_theorems cursor_defs \<open>definitions of the GGUF cursor operations\<close>
named_theorems json_defs \<open>definitions of the JSON scanner\<close>

section \<open>Text literals as bytes\<close>

definition ascii :: "string \<Rightarrow> byte list" where
  "ascii s = map of_char s"

lemma length_ascii [simp]: "length (ascii s) = length s"
  by (simp add: ascii_def)

lemma ascii_inj: "ascii a = ascii b \<longleftrightarrow> a = b"
proof -
  have "inj (of_char :: char \<Rightarrow> byte)"
  proof (rule injI)
    fix c d :: char
    have u: "unat (of_nat (of_char x) :: byte) = (of_char x :: nat)" for x :: char
      by (simp only: unat_of_nat) simp
    assume "of_char c = (of_char d :: byte)"
    then have "(of_nat (of_char c) :: byte) = of_nat (of_char d)" unfolding of_nat_of_char .
    then have "(of_char c :: nat) = of_char d" by (metis u)
    then show "c = d" by simp
  qed
  then show ?thesis by (auto simp: ascii_def inj_map_eq_map)
qed

section \<open>Little-endian integers\<close>

fun le_nat :: "byte list \<Rightarrow> nat" where
  "le_nat [] = 0"
| "le_nat (b # bs) = unat b + 256 * le_nat bs"

fun nat_le :: "nat \<Rightarrow> nat \<Rightarrow> byte list" where
  "nat_le 0 n = []"
| "nat_le (Suc k) n = of_nat n # nat_le k (n div 256)"

lemma length_nat_le [simp]: "length (nat_le k n) = k"
  by (induction k arbitrary: n) simp_all

lemma le_nat_bound: "le_nat bs < 256 ^ length bs"
proof (induction bs)
  case Nil
  then show ?case by simp
next
  case (Cons b bs)
  have "unat b < 256" using unsigned_less [of b] by simp
  with Cons show ?case by simp
qed

lemma le_nat_nat_le: "le_nat (nat_le k n) = n mod 256 ^ k"
proof (induction k arbitrary: n)
  case 0
  then show ?case by simp
next
  case (Suc k)
  have "unat (of_nat n :: byte) = n mod 256"
    by (simp add: unat_of_nat)
  with Suc show ?case
    by (simp add: mod_mult2_eq)
qed

lemma nat_le_le_nat: "length bs = k \<Longrightarrow> nat_le k (le_nat bs) = bs"
proof (induction bs arbitrary: k)
  case Nil
  then show ?case by simp
next
  case (Cons b bs)
  have b: "unat b < 256" using unsigned_less [of b] by simp
  have 1: "(of_nat (unat b + 256 * le_nat bs) :: byte) = b"
  proof -
    have "(256 :: byte) = 0" by (simp add: word_eq_iff_unsigned)
    moreover have "(of_nat (unat b + 256 * le_nat bs) :: byte) = b + 256 * of_nat (le_nat bs)"
      by simp
    ultimately show ?thesis by (simp only: mult_zero_left add_0_right)
  qed
  have 2: "(unat b + 256 * le_nat bs) div 256 = le_nat bs"
    using b by simp
  from Cons show ?case by (cases k) (simp_all only: nat_le.simps le_nat.simps 1 2, simp_all)
qed

text \<open>The machine's view: the value a \<^verbatim>\<open>memcpy\<close> of the bytes into a word gives.\<close>

fun le_word :: "byte list \<Rightarrow> 'a::len word" where
  "le_word [] = 0"
| "le_word (b # bs) = ucast b + 256 * le_word bs"

lemma le_word_nat: "le_word bs = of_nat (le_nat bs)"
  by (induction bs) simp_all

section \<open>Lists\<close>

text \<open>The half-open subslice a cursor reads.\<close>

definition subslice :: "'a list \<Rightarrow> nat \<Rightarrow> nat \<Rightarrow> 'a list" where
  "subslice xs i n = take n (drop i xs)"

lemma length_subslice: "i + n \<le> length xs \<Longrightarrow> length (subslice xs i n) = n"
  by (simp add: subslice_def)

lemma subslice_append_mid:
  "length pre = i \<Longrightarrow> length mid = n \<Longrightarrow> subslice (pre @ mid @ post) i n = mid"
  by (simp add: subslice_def)

lemma nth_subslice: "i + n \<le> length xs \<Longrightarrow> j < n \<Longrightarrow> subslice xs i n ! j = xs ! (i + j)"
  by (simp add: subslice_def)

section \<open>Words\<close>

lemma unat_sub_le: "a \<le> b \<Longrightarrow> unat (b - a) = unat b - unat (a :: 'a::len word)"
  by (rule unat_sub)

lemma unat_add_no_wrap:
  "unat a + unat b < 2 ^ LENGTH('a) \<Longrightarrow> unat (a + b :: 'a::len word) = unat a + unat b"
  by (simp add: unat_word_ariths)

lemma unat_pow2_u64: "k < 64 \<Longrightarrow> unat (2 ^ k :: 64 word) = 2 ^ k"
proof -
  assume "k < 64"
  then have "(2::nat) ^ k < 2 ^ 64" by (rule power_strict_increasing) simp
  moreover have "unat (of_nat (2 ^ k) :: 64 word) = 2 ^ k mod 2 ^ LENGTH(64)"
    by (rule unat_of_nat)
  ultimately show ?thesis by simp
qed

lemma unat_u64_bound [simp]: "unat (x :: u64) < 18446744073709551616"
  using unsigned_less [of x] by simp

lemma unat_u32_bound [simp]: "unat (x :: u32) < 4294967296"
  using unsigned_less [of x] by simp

lemma unat_byte_bound [simp]: "unat (x :: byte) < 256"
  using unsigned_less [of x] by simp

section \<open>Decimal numbers in text\<close>

text \<open>What \<^verbatim>\<open>%u\<close> and \<^verbatim>\<open>%llu\<close> print.\<close>

fun dec_string :: "nat \<Rightarrow> string" where
  "dec_string n =
     (if n < 10 then [char_of (48 + n)] else dec_string (n div 10) @ [char_of (48 + n mod 10)])"

declare dec_string.simps [simp del]

text \<open>\<^verbatim>\<open>snprintf\<close> of a format whose only directive is \<^verbatim>\<open>%u\<close>.\<close>

function format_u :: "string \<Rightarrow> nat \<Rightarrow> string" where
  "format_u [] n = []"
| "format_u (c # s) n =
     (if c = CHR ''%'' \<and> s \<noteq> [] \<and> hd s = CHR ''u'' then dec_string n @ format_u (tl s) n
      else c # format_u s n)"
  by pat_completeness auto
termination
  by (relation "measure (\<lambda>(s, n). length s)") auto

end
