(* ===== verification/Ds4_Gguf.thy ===== *)
theory Ds4_Gguf
  imports Ds4_Prelude
begin

text \<open>
  The GGUF loader, \<^verbatim>\<open>src/model/ds4_gguf.c\<close>: the read cursor over the mapping, the
  tensor dtype table, the metadata skipper, the metadata and tensor directory
  parsers and the typed accessors.

  A cursor carries the mapped bytes, the size and the position as 64-bit words
  and the first error recorded; \<open>cursor_ok\<close> is what the loader relies on (the
  size is the length of the mapping and the position lies inside it).  A read
  that fails returns \<open>None\<close> and the cursor with its error set; \<^verbatim>\<open>ds4_die\<close> (print and
  \<^verbatim>\<open>exit(1)\<close>) is the left summand of a result.
\<close>

section \<open>The sequential read cursor\<close>

record cursor =
  cbase :: "byte list"
  csize :: u64
  cpos :: u64
  cerror :: "(string \<times> u64) option"

definition cursor_ok :: "cursor \<Rightarrow> bool" where
  "cursor_ok c \<longleftrightarrow> unat (csize c) = length (cbase c) \<and> unat (cpos c) \<le> unat (csize c)"

definition cursor_error :: "cursor \<Rightarrow> string \<Rightarrow> cursor" where
  "cursor_error c msg =
     (case cerror c of None \<Rightarrow> c\<lparr>cerror := Some (msg, cpos c)\<rparr> | Some _ \<Rightarrow> c)"

definition cursor_has :: "cursor \<Rightarrow> u64 \<Rightarrow> bool \<times> cursor" where
  "cursor_has c n =
     (if n > csize c \<or> cpos c > csize c - n
      then (False, cursor_error c ''truncated GGUF file'')
      else (True, c))"

definition cursor_read :: "cursor \<Rightarrow> u64 \<Rightarrow> byte list option \<times> cursor" where
  "cursor_read c n =
     (case cursor_has c n of
        (False, c') \<Rightarrow> (None, c')
      | (True, c') \<Rightarrow>
          (Some (subslice (cbase c') (unat (cpos c')) (unat n)), c'\<lparr>cpos := cpos c' + n\<rparr>))"

definition cursor_skip :: "cursor \<Rightarrow> u64 \<Rightarrow> bool \<times> cursor" where
  "cursor_skip c n =
     (case cursor_has c n of
        (False, c') \<Rightarrow> (False, c')
      | (True, c') \<Rightarrow> (True, c'\<lparr>cpos := cpos c' + n\<rparr>))"

definition cursor_u32 :: "cursor \<Rightarrow> u32 option \<times> cursor" where
  "cursor_u32 c =
     (case cursor_read c 4 of
        (None, c') \<Rightarrow> (None, c')
      | (Some bs, c') \<Rightarrow> (Some (le_word bs), c'))"

definition cursor_u64 :: "cursor \<Rightarrow> u64 option \<times> cursor" where
  "cursor_u64 c =
     (case cursor_read c 8 of
        (None, c') \<Rightarrow> (None, c')
      | (Some bs, c') \<Rightarrow> (Some (le_word bs), c'))"

text \<open>
  A \<^verbatim>\<open>ds4_str\<close> is a pointer into the mapping and a length; the model keeps the
  bytes it designates.
\<close>

definition cursor_string :: "cursor \<Rightarrow> byte list option \<times> cursor" where
  "cursor_string c =
     (case cursor_u64 c of
        (None, c') \<Rightarrow> (None, c')
      | (Some len, c') \<Rightarrow>
          (case cursor_has c' len of
             (False, c'') \<Rightarrow> (None, c'')
           | (True, c'') \<Rightarrow>
               (Some (subslice (cbase c'') (unat (cpos c'')) (unat len)),
                c''\<lparr>cpos := cpos c'' + len\<rparr>)))"

lemmas cursor_op_defs [cursor_defs] =
  cursor_error_def cursor_has_def cursor_read_def cursor_skip_def cursor_u32_def
  cursor_u64_def cursor_string_def

definition align_up :: "u64 \<Rightarrow> u64 \<Rightarrow> u64" where
  "align_up value alignment =
     (let rem = value mod alignment
      in if rem = 0 then value else value + alignment - rem)"

section \<open>The GGUF dtype table\<close>

record gguf_type_info =
  ti_name :: string
  ti_block_elems :: u32
  ti_block_bytes :: u32

definition mk_type :: "string \<Rightarrow> u32 \<Rightarrow> u32 \<Rightarrow> gguf_type_info option" where
  "mk_type n e b = Some \<lparr>ti_name = n, ti_block_elems = e, ti_block_bytes = b\<rparr>"

definition gguf_types :: "gguf_type_info option list" where
  "gguf_types =
    [mk_type ''f32'' 1 4, mk_type ''f16'' 1 2, mk_type ''q4_0'' 32 18, mk_type ''q4_1'' 32 20,
     None, None,
     mk_type ''q5_0'' 32 22, mk_type ''q5_1'' 32 24, mk_type ''q8_0'' 32 34, mk_type ''q8_1'' 32 40,
     mk_type ''q2_k'' 256 84, mk_type ''q3_k'' 256 110, mk_type ''q4_k'' 256 144,
     mk_type ''q5_k'' 256 176, mk_type ''q6_k'' 256 210, mk_type ''q8_k'' 256 292,
     mk_type ''iq2_xxs'' 256 66, mk_type ''iq2_xs'' 256 74, mk_type ''iq3_xxs'' 256 98,
     mk_type ''iq1_s'' 256 110, mk_type ''iq4_nl'' 256 50, mk_type ''iq3_s'' 256 110,
     mk_type ''iq2_s'' 256 82, mk_type ''iq4_xs'' 256 136,
     mk_type ''i8'' 1 1, mk_type ''i16'' 1 2, mk_type ''i32'' 1 4, mk_type ''i64'' 1 8,
     mk_type ''f64'' 1 8, mk_type ''iq1_m'' 256 56, mk_type ''bf16'' 1 2]"

definition tensor_type :: "u32 \<Rightarrow> gguf_type_info option" where
  "tensor_type t = (if unat t \<ge> length gguf_types then None else gguf_types ! unat t)"

definition tensor_type_name :: "u32 \<Rightarrow> string" where
  "tensor_type_name t = (case tensor_type t of None \<Rightarrow> ''unknown'' | Some i \<Rightarrow> ti_name i)"

definition tensor_nbytes :: "u32 \<Rightarrow> u64 \<Rightarrow> u64 option" where
  "tensor_nbytes t elements =
     (case tensor_type t of
        None \<Rightarrow> None
      | Some info \<Rightarrow>
          if ti_block_elems info = 0 then None
          else
            let be = ucast (ti_block_elems info);
                bb = ucast (ti_block_bytes info);
                blocks = (elements + be - 1) div be
            in if blocks > (- 1) div bb then None else Some (blocks * bb))"

section \<open>Skipping a metadata value\<close>

abbreviation (input) GGUF_VALUE_UINT8 :: u32 where "GGUF_VALUE_UINT8 \<equiv> 0"
abbreviation (input) GGUF_VALUE_INT8 :: u32 where "GGUF_VALUE_INT8 \<equiv> 1"
abbreviation (input) GGUF_VALUE_UINT16 :: u32 where "GGUF_VALUE_UINT16 \<equiv> 2"
abbreviation (input) GGUF_VALUE_INT16 :: u32 where "GGUF_VALUE_INT16 \<equiv> 3"
abbreviation (input) GGUF_VALUE_UINT32 :: u32 where "GGUF_VALUE_UINT32 \<equiv> 4"
abbreviation (input) GGUF_VALUE_INT32 :: u32 where "GGUF_VALUE_INT32 \<equiv> 5"
abbreviation (input) GGUF_VALUE_FLOAT32 :: u32 where "GGUF_VALUE_FLOAT32 \<equiv> 6"
abbreviation (input) GGUF_VALUE_BOOL :: u32 where "GGUF_VALUE_BOOL \<equiv> 7"
abbreviation (input) GGUF_VALUE_STRING :: u32 where "GGUF_VALUE_STRING \<equiv> 8"
abbreviation (input) GGUF_VALUE_ARRAY :: u32 where "GGUF_VALUE_ARRAY \<equiv> 9"
abbreviation (input) GGUF_VALUE_UINT64 :: u32 where "GGUF_VALUE_UINT64 \<equiv> 10"
abbreviation (input) GGUF_VALUE_INT64 :: u32 where "GGUF_VALUE_INT64 \<equiv> 11"
abbreviation (input) GGUF_VALUE_FLOAT64 :: u32 where "GGUF_VALUE_FLOAT64 \<equiv> 12"

definition scalar_value_size :: "u32 \<Rightarrow> u64" where
  "scalar_value_size t =
     (if t = GGUF_VALUE_UINT8 \<or> t = GGUF_VALUE_INT8 \<or> t = GGUF_VALUE_BOOL then 1
      else if t = GGUF_VALUE_UINT16 \<or> t = GGUF_VALUE_INT16 then 2
      else if t = GGUF_VALUE_UINT32 \<or> t = GGUF_VALUE_INT32 \<or> t = GGUF_VALUE_FLOAT32 then 4
      else if t = GGUF_VALUE_UINT64 \<or> t = GGUF_VALUE_INT64 \<or> t = GGUF_VALUE_FLOAT64 then 8
      else 0)"

text \<open>
  The recursion is bounded by the nesting check: \<open>9 - depth\<close> shrinks at every
  nested array, and inside one array the item loop counts down.
\<close>

function (sequential)
  skip_value :: "cursor \<Rightarrow> u32 \<Rightarrow> nat \<Rightarrow> bool \<times> cursor" and
  skip_items :: "nat \<Rightarrow> cursor \<Rightarrow> u32 \<Rightarrow> nat \<Rightarrow> bool \<times> cursor" where
  "skip_value c t depth =
     (if depth > 8 then (False, cursor_error c ''metadata array nesting is too deep'')
      else if scalar_value_size t \<noteq> 0 then cursor_skip c (scalar_value_size t)
      else if t = GGUF_VALUE_STRING then
        (case cursor_string c of (r, c') \<Rightarrow> (r \<noteq> None, c'))
      else if t = GGUF_VALUE_ARRAY then
        (case cursor_u32 c of
           (None, c1) \<Rightarrow> (False, c1)
         | (Some item_type, c1) \<Rightarrow>
             (case cursor_u64 c1 of
                (None, c2) \<Rightarrow> (False, c2)
              | (Some len, c2) \<Rightarrow>
                  (let item_size = scalar_value_size item_type in
                   if item_size \<noteq> 0 then
                     if len > (- 1) div item_size
                     then (False, cursor_error c2 ''metadata array is too large'')
                     else cursor_skip c2 (len * item_size)
                   else skip_items (unat len) c2 item_type depth)))
      else (False, cursor_error c ''unknown GGUF metadata type''))"
| "skip_items 0 c t depth = (True, c)"
| "skip_items (Suc n) c t depth =
     (case skip_value c t (Suc depth) of
        (False, c') \<Rightarrow> (False, c')
      | (True, c') \<Rightarrow> skip_items n c' t depth)"
  by pat_completeness auto
termination
  by (relation "measures
        [\<lambda>x. case x of Inl (c, t, d) \<Rightarrow> (if d > 8 then 0 else 2 * (9 - d) + 1) | Inr (n, c, t, d) \<Rightarrow> 2 * (9 - d),
         \<lambda>x. case x of Inl _ \<Rightarrow> 0 | Inr (n, c, t, d) \<Rightarrow> n]") auto

declare skip_value.simps [simp del]

section \<open>Cursor laws\<close>

text \<open>
  \<open>advances w c c'\<close>: the cursor is still well formed over the same mapping and
  at least \<open>w\<close> bytes further on.
\<close>

definition advances :: "nat \<Rightarrow> cursor \<Rightarrow> cursor \<Rightarrow> bool" where
  "advances w c c' \<longleftrightarrow>
     cursor_ok c' \<and> cbase c' = cbase c \<and> csize c' = csize c \<and> cerror c' = cerror c \<and>
     unat (cpos c) + w \<le> unat (cpos c')"

lemma advances_refl [simp]: "advances 0 c c \<longleftrightarrow> cursor_ok c"
  by (auto simp: advances_def)

lemma advances_trans: "advances v c c1 \<Longrightarrow> advances w c1 c2 \<Longrightarrow> advances (v + w) c c2"
  by (auto simp: advances_def)

lemma advances_weaken: "advances v c c' \<Longrightarrow> w \<le> v \<Longrightarrow> advances w c c'"
  by (auto simp: advances_def)

lemma advances_ok [dest]: "advances w c c' \<Longrightarrow> cursor_ok c'"
  by (simp add: advances_def)

lemma cursor_error_set: "cerror (cursor_error c msg) \<noteq> None"
  by (simp add: cursor_error_def split: option.splits)

lemma cursor_error_recorded [simp]: "\<exists>a b. cerror (cursor_error c msg) = Some (a, b)"
  using cursor_error_set by fastforce

lemma cursor_error_frame [simp]:
  "cbase (cursor_error c msg) = cbase c" "csize (cursor_error c msg) = csize c"
  "cpos (cursor_error c msg) = cpos c"
  by (simp_all add: cursor_error_def split: option.splits)

lemma cursor_has_iff:
  assumes "cursor_ok c"
  shows "fst (cursor_has c n) \<longleftrightarrow> unat (cpos c) + unat n \<le> length (cbase c)"
proof (cases "n > csize c")
  case True
  then have "unat n > length (cbase c)"
    using assms by (simp add: cursor_ok_def word_less_nat_alt)
  with True show ?thesis by (simp add: cursor_has_def)
next
  case False
  then have le: "n \<le> csize c" by simp
  then have "unat (csize c - n) = unat (csize c) - unat n" by (rule unat_sub)
  moreover from le have "unat n \<le> unat (csize c)" by (simp add: word_le_nat_alt)
  ultimately show ?thesis using False assms
    by (auto simp: cursor_has_def cursor_ok_def word_less_nat_alt)
qed

lemma cursor_has_True:
  assumes "cursor_ok c" "cursor_has c n = (True, c')"
  shows "c' = c" "unat (cpos c) + unat n \<le> length (cbase c)"
  using assms cursor_has_iff [OF assms(1), of n]
  by (auto simp: cursor_has_def split: if_splits)

lemma cursor_has_False:
  assumes "cursor_has c n = (False, c')"
  shows "cerror c' \<noteq> None" "cbase c' = cbase c" "csize c' = csize c" "cpos c' = cpos c"
  using assms cursor_error_set [of c "''truncated GGUF file''"]
  by (auto simp: cursor_has_def split: if_splits)

lemma cursor_move:
  assumes "cursor_ok c" "unat (cpos c) + unat n \<le> length (cbase c)"
  shows "unat (cpos c + n) = unat (cpos c) + unat n" "advances (unat n) c (c\<lparr>cpos := cpos c + n\<rparr>)"
proof -
  have "unat (csize c) < 2 ^ 64" by simp
  with assms have "unat (cpos c) + unat n < 2 ^ LENGTH(64)"
    by (simp add: cursor_ok_def)
  then show 1: "unat (cpos c + n) = unat (cpos c) + unat n"
    by (rule unat_add_no_wrap)
  from assms 1 show "advances (unat n) c (c\<lparr>cpos := cpos c + n\<rparr>)"
    by (simp add: advances_def cursor_ok_def)
qed

lemma cursor_read_Some:
  assumes "cursor_ok c" "cursor_read c n = (Some bs, c')"
  shows "bs = subslice (cbase c) (unat (cpos c)) (unat n)" "length bs = unat n"
    "advances (unat n) c c'" "unat (cpos c') = unat (cpos c) + unat n"
  using assms cursor_has_True [OF assms(1), of n] cursor_move [OF assms(1), of n]
  by (auto simp: cursor_read_def length_subslice split: prod.splits bool.splits)

lemma cursor_read_None:
  "cursor_read c n = (None, c') \<Longrightarrow> cerror c' \<noteq> None"
  using cursor_has_False by (fastforce simp: cursor_read_def split: prod.splits bool.splits)

lemma cursor_skip_True:
  assumes "cursor_ok c" "cursor_skip c n = (True, c')"
  shows "advances (unat n) c c'"
  using assms cursor_has_True [OF assms(1), of n] cursor_move [OF assms(1), of n]
  by (auto simp: cursor_skip_def split: prod.splits bool.splits)

lemma cursor_u32_Some:
  assumes "cursor_ok c" "cursor_u32 c = (Some v, c')"
  shows "v = of_nat (le_nat (subslice (cbase c) (unat (cpos c)) 4))" "advances 4 c c'"
    "unat (cpos c') = unat (cpos c) + 4"
  using assms cursor_read_Some [OF assms(1), of 4]
  by (auto simp: cursor_u32_def le_word_nat split: prod.splits option.splits)

lemma cursor_u64_Some:
  assumes "cursor_ok c" "cursor_u64 c = (Some v, c')"
  shows "v = of_nat (le_nat (subslice (cbase c) (unat (cpos c)) 8))" "advances 8 c c'"
    "unat (cpos c') = unat (cpos c) + 8"
  using assms cursor_read_Some [OF assms(1), of 8]
  by (auto simp: cursor_u64_def le_word_nat split: prod.splits option.splits)

lemma cursor_string_Some:
  assumes "cursor_ok c" "cursor_string c = (Some s, c')"
  shows "advances (8 + length s) c c'" "unat (cpos c') = unat (cpos c) + 8 + length s"
    "s = subslice (cbase c) (unat (cpos c) + 8) (length s)"
proof -
  obtain len c1 where u: "cursor_u64 c = (Some len, c1)"
    using assms(2) by (auto simp: cursor_string_def split: prod.splits option.splits)
  note a1 = cursor_u64_Some [OF assms(1) u]
  then have ok1: "cursor_ok c1" by auto
  obtain c2 where h: "cursor_has c1 len = (True, c2)"
    using assms(2) u by (auto simp: cursor_string_def split: prod.splits option.splits bool.splits)
  note h' = cursor_has_True [OF ok1 h]
  have s: "s = subslice (cbase c1) (unat (cpos c1)) (unat len)" and c': "c' = c1\<lparr>cpos := cpos c1 + len\<rparr>"
    using assms(2) u h h'(1) by (auto simp: cursor_string_def)
  have len: "length s = unat len" using s h'(2) by (simp add: length_subslice)
  note m = cursor_move [OF ok1 h'(2)]
  show "advances (8 + length s) c c'"
    using advances_trans [OF a1(2) m(2)] by (simp add: c' len)
  show "unat (cpos c') = unat (cpos c) + 8 + length s"
    using a1(3) m(1) by (simp add: c' len)
  show "s = subslice (cbase c) (unat (cpos c) + 8) (length s)"
    using s len a1(2,3) by (simp add: advances_def)
qed

text \<open>A failed operation has recorded an error, so the callers' \<^verbatim>\<open>ds4_die\<close> has a message.\<close>

lemma cursor_u32_None: "cursor_u32 c = (None, c') \<Longrightarrow> cerror c' \<noteq> None"
  by (auto simp: cursor_u32_def dest!: cursor_read_None split: prod.splits option.splits)

lemma cursor_u64_None: "cursor_u64 c = (None, c') \<Longrightarrow> cerror c' \<noteq> None"
  by (auto simp: cursor_u64_def dest!: cursor_read_None split: prod.splits option.splits)

lemma cursor_string_None: "cursor_string c = (None, c') \<Longrightarrow> cerror c' \<noteq> None"
  by (auto simp: cursor_string_def dest!: cursor_u64_None cursor_has_False(1)
      split: prod.splits option.splits bool.splits)

lemma cursor_skip_False: "cursor_skip c n = (False, c') \<Longrightarrow> cerror c' \<noteq> None"
  by (auto simp: cursor_skip_def dest!: cursor_has_False(1) split: prod.splits bool.splits)

lemma scalar_value_size_le: "unat (scalar_value_size t) \<le> 8"
  by (simp add: scalar_value_size_def)

lemma div_guard_no_wrap:
  fixes x y :: u64
  assumes "\<not> x > (- 1) div y" "y \<noteq> 0"
  shows "unat (x * y) = unat x * unat y" "unat x * unat y < 2 ^ 64"
proof -
  have "unat ((- 1) div y) = (2 ^ 64 - 1) div unat y"
    by (simp add: unat_div unsigned_minus_1_eq_mask mask_eq_exp_minus_1)
  with assms have le: "unat x \<le> (2 ^ 64 - 1) div unat y"
    by (simp add: word_less_nat_alt not_less)
  have "unat x * unat y \<le> (2 ^ 64 - 1) div unat y * unat y"
    using le by (rule mult_le_mono1)
  also have "\<dots> \<le> 2 ^ 64 - 1" by (rule div_times_less_eq_dividend)
  finally show 2: "unat x * unat y < 2 ^ 64" by simp
  then show "unat (x * y) = unat x * unat y" by (simp add: unat_word_ariths)
qed

text \<open>
  Skipping a value stays inside the mapping and consumes at least one byte;
  an element of a non-scalar array (a string or an array) consumes at least
  eight.
\<close>

lemma skip_value_advances:
  "cursor_ok c \<Longrightarrow> skip_value c t d = (True, c') \<Longrightarrow>
     advances (if scalar_value_size t = 0 then 8 else 1) c c'"
  "cursor_ok c \<Longrightarrow> scalar_value_size t = 0 \<Longrightarrow> skip_items n c t d = (True, c') \<Longrightarrow>
     advances (8 * n) c c'"
proof (induction c t d and n c t d arbitrary: c' and c' rule: skip_value_skip_items.induct)
  case (1 c t d)
  from "1.prems"(2) have d: "\<not> d > 8"
    by (auto simp: skip_value.simps split: if_splits)
  show ?case
  proof (cases "scalar_value_size t = 0")
    case False
    with "1.prems"(2) d have "cursor_skip c (scalar_value_size t) = (True, c')"
      by (simp add: skip_value.simps)
    from cursor_skip_True [OF "1.prems"(1) this] have "advances (unat (scalar_value_size t)) c c'" .
    moreover have "1 \<le> unat (scalar_value_size t)"
      using False by (simp add: Suc_le_eq unat_gt_0)
    ultimately show ?thesis using False by (auto intro: advances_weaken)
  next
    case z: True
    show ?thesis
    proof (cases "t = GGUF_VALUE_STRING")
      case True
      with "1.prems"(2) d z obtain s where "cursor_string c = (Some s, c')"
        by (auto simp: skip_value.simps split: prod.splits)
      from cursor_string_Some(1) [OF "1.prems"(1) this] z show ?thesis
        by (auto intro: advances_weaken)
    next
      case ns: False
      with "1.prems"(2) d z obtain it c1 len c2 where
        t: "t = GGUF_VALUE_ARRAY" and u: "cursor_u32 c = (Some it, c1)" "cursor_u64 c1 = (Some len, c2)"
        by (auto simp: skip_value.simps [of c t d] split: if_splits prod.splits option.splits)
      from cursor_u32_Some(2) [OF "1.prems"(1) u(1)] have a1: "advances 4 c c1" .
      from cursor_u64_Some(2) [OF _ u(2)] a1 have a2: "advances 8 c1 c2" by auto
      from advances_trans [OF a1 a2] have a: "advances 12 c c2" by simp
      show ?thesis
      proof (cases "scalar_value_size it = 0")
        case True
        have sk: "skip_items (unat len) c2 it d = (True, c')"
          using "1.prems"(2) d z t u True by (simp add: skip_value.simps [of c])
        have "advances (8 * unat len) c2 c'"
          using "1.IH" [OF d _ _ t u(1) [symmetric] refl u(2) [symmetric] refl refl] z ns True sk a2 by auto
        from advances_trans [OF a this] z show ?thesis by (auto intro: advances_weaken)
      next
        case False
        have "cursor_skip c2 (len * scalar_value_size it) = (True, c')"
          using "1.prems"(2) d z t u False by (simp add: skip_value.simps [of c] Let_def split: if_splits)
        from cursor_skip_True [OF advances_ok [OF a2] this] have "advances 0 c2 c'"
          by (rule advances_weaken) simp
        from advances_trans [OF a this] z show ?thesis by (auto intro: advances_weaken)
      qed
    qed
  qed
next
  case (2 c t d)
  then show ?case by simp
next
  case (3 n c t d)
  from "3.prems"(3) obtain c1 where s: "skip_value c t (Suc d) = (True, c1)" "skip_items n c1 t d = (True, c')"
    by (auto split: prod.splits bool.splits)
  from "3.IH"(1) [OF "3.prems"(1) s(1)] "3.prems"(2) have a: "advances 8 c c1" by simp
  then have "advances (8 * n) c1 c'"
    using "3.IH"(2) [OF s(1) [symmetric] refl, of c'] "3.prems"(2) s by auto
  from advances_trans [OF a this] show ?case by simp
qed

lemma skip_value_False:
  "skip_value c t d = (False, c') \<Longrightarrow> cerror c' \<noteq> None"
  "skip_items n c t d = (False, c') \<Longrightarrow> cerror c' \<noteq> None"
proof (induction c t d and n c t d arbitrary: c' and c' rule: skip_value_skip_items.induct)
  case (1 c t d)
  from "1.prems" show ?case
    by (auto simp: skip_value.simps [of c t d] Let_def
        dest!: cursor_skip_False cursor_string_None cursor_u32_None cursor_u64_None "1.IH"
        split: if_splits prod.splits option.splits)
next
  case (2 c t d)
  then show ?case by simp
next
  case (3 n c t d)
  from "3.prems" show ?case
    by (auto dest: "3.IH"(1) "3.IH"(2) [rotated 2] split: prod.splits bool.splits)
qed


section \<open>Models and their directory\<close>

datatype die =
    Die string
  | DieCursor "(string \<times> u64) option"
  | DieArrayLength string u64 u64
  | DieArrayType string u32
  | DieArrayNegative string u64
  | DieMissing "byte list"

record kv =
  kv_key :: "byte list"
  kv_type :: u32
  kv_value_pos :: u64

record tensor =
  t_name :: "byte list"
  t_ndim :: u32
  t_dim :: "u64 list"
  t_type :: u32
  t_rel_offset :: u64
  t_abs_offset :: u64
  t_elements :: u64
  t_bytes :: u64
  t_nvfp4_scale_2 :: "u64 option"

record model =
  m_map :: "byte list"
  m_size :: u64
  m_managed :: bool
  m_version :: u32
  m_n_kv :: u64
  m_n_tensors :: u64
  m_alignment :: u64
  m_tensor_data_pos :: u64
  m_kv :: "kv list"
  m_tensors :: "tensor list"

definition DS4_MAX_DIMS :: nat where "DS4_MAX_DIMS = 8"

definition DS4_GGUF_MAGIC :: u32 where "DS4_GGUF_MAGIC = 0x46554747"

definition ds4_streq :: "byte list \<Rightarrow> string \<Rightarrow> bool" where
  "ds4_streq s z \<longleftrightarrow> length s = length z \<and> s = ascii z"

definition cursor_at :: "model \<Rightarrow> u64 \<Rightarrow> cursor" where
  "cursor_at m pos = \<lparr>cbase = m_map m, csize = m_size m, cpos = pos, cerror = None\<rparr>"

text \<open>
  A counted loop whose body reads from the cursor and may die.  The body keeps
  its own state \<open>'s\<close>; all the directory loops of the loader have this shape.
\<close>

fun cursor_for :: "('s \<Rightarrow> cursor \<Rightarrow> die + ('s \<times> cursor)) \<Rightarrow> nat \<Rightarrow> 's \<Rightarrow> cursor \<Rightarrow> die + ('s \<times> cursor)" where
  "cursor_for body 0 s c = Inr (s, c)"
| "cursor_for body (Suc n) s c =
     (case body s c of Inl e \<Rightarrow> Inl e | Inr (s', c') \<Rightarrow> cursor_for body n s' c')"

definition metadata_alignment :: "model \<Rightarrow> byte list \<Rightarrow> u32 \<Rightarrow> u64 \<Rightarrow> u64" where
  "metadata_alignment m key ty pos =
     (if ds4_streq key ''general.alignment'' \<and> ty = GGUF_VALUE_UINT32
      then (case fst (cursor_u32 (cursor_at m pos)) of
              Some a \<Rightarrow> if a \<noteq> 0 then ucast a else m_alignment m
            | None \<Rightarrow> m_alignment m)
      else m_alignment m)"

definition metadata_entry :: "model \<Rightarrow> cursor \<Rightarrow> die + (model \<times> cursor)" where
  "metadata_entry m c =
     (case cursor_string c of
        (None, c1) \<Rightarrow> Inl (DieCursor (cerror c1))
      | (Some key, c1) \<Rightarrow>
          (case cursor_u32 c1 of
             (None, c2) \<Rightarrow> Inl (DieCursor (cerror c2))
           | (Some ty, c2) \<Rightarrow>
               (let entry = \<lparr>kv_key = key, kv_type = ty, kv_value_pos = cpos c2\<rparr>;
                    align = metadata_alignment m key ty (cpos c2);
                    m' = m\<lparr>m_kv := m_kv m @ [entry], m_alignment := align\<rparr>
                in case skip_value c2 ty 0 of
                     (False, c3) \<Rightarrow> Inl (DieCursor (cerror c3))
                   | (True, c3) \<Rightarrow> Inr (m', c3))))"

text \<open>
  \<open>calloc_ok n\<close> says whether the \<^verbatim>\<open>calloc\<close> of \<open>n\<close> table entries succeeds: the
  allocator is not part of the sources.
\<close>

definition parse_metadata :: "(u64 \<Rightarrow> bool) \<Rightarrow> model \<Rightarrow> cursor \<Rightarrow> die + (model \<times> cursor)" where
  "parse_metadata calloc_ok m c =
     (if \<not> calloc_ok (m_n_kv m)
      then Inl (Die ''out of memory while allocating metadata table'')
      else cursor_for metadata_entry (unat (m_n_kv m)) (m\<lparr>m_kv := [], m_alignment := 32\<rparr>) c)"

fun tensor_dims :: "nat \<Rightarrow> nat \<Rightarrow> u64 list \<Rightarrow> u64 \<Rightarrow> cursor \<Rightarrow> die + (u64 list \<times> u64 \<times> cursor)" where
  "tensor_dims d 0 dims els c = Inr (dims, els, c)"
| "tensor_dims d (Suc n) dims els c =
     (case cursor_u64 c of
        (None, c1) \<Rightarrow> Inl (DieCursor (cerror c1))
      | (Some x, c1) \<Rightarrow>
          if x \<noteq> 0 \<and> els > (- 1) div x then Inl (Die ''tensor element count overflow'')
          else tensor_dims (Suc d) n (dims[d := x]) (els * x) c1)"

definition tensor_entry :: "model \<Rightarrow> cursor \<Rightarrow> die + (model \<times> cursor)" where
  "tensor_entry m c =
     (case cursor_string c of
        (None, c1) \<Rightarrow> Inl (DieCursor (cerror c1))
      | (Some nm, c1) \<Rightarrow>
     (case cursor_u32 c1 of
        (None, c2) \<Rightarrow> Inl (DieCursor (cerror c2))
      | (Some nd, c2) \<Rightarrow>
     if nd = 0 \<or> unat nd > DS4_MAX_DIMS
     then Inl (Die ''tensor has an unsupported number of dimensions'')
     else
     (case tensor_dims 0 (unat nd) (replicate DS4_MAX_DIMS 0) 1 c2 of
        Inl e \<Rightarrow> Inl e
      | Inr (dims, els, c3) \<Rightarrow>
     (case cursor_u32 c3 of
        (None, c4) \<Rightarrow> Inl (DieCursor (cerror c4))
      | (Some ty, c4) \<Rightarrow>
     (case cursor_u64 c4 of
        (None, c5) \<Rightarrow> Inl (DieCursor (cerror c5))
      | (Some rel, c5) \<Rightarrow>
          Inr (m\<lparr>m_tensors := m_tensors m @
                 [\<lparr>t_name = nm, t_ndim = nd, t_dim = dims, t_type = ty, t_rel_offset = rel,
                   t_abs_offset = 0, t_elements = els,
                   t_bytes = (case tensor_nbytes ty els of Some b \<Rightarrow> b | None \<Rightarrow> 0),
                   t_nvfp4_scale_2 = None\<rparr>]\<rparr>, c5))))))"

definition place_tensor :: "model \<Rightarrow> tensor \<Rightarrow> die + tensor" where
  "place_tensor m t =
     (if t_rel_offset t > (- 1) - m_tensor_data_pos m then Inl (Die ''tensor offset overflow'')
      else
        let off = m_tensor_data_pos m + t_rel_offset t
        in if t_bytes t \<noteq> 0 \<and> (off > m_size m \<or> t_bytes t > m_size m - off)
           then Inl (Die ''tensor points outside GGUF file'')
           else Inr (t\<lparr>t_abs_offset := off\<rparr>))"

fun place_tensors :: "model \<Rightarrow> tensor list \<Rightarrow> die + tensor list" where
  "place_tensors m [] = Inr []"
| "place_tensors m (t # ts) =
     (case place_tensor m t of
        Inl e \<Rightarrow> Inl e
      | Inr t' \<Rightarrow> (case place_tensors m ts of Inl e \<Rightarrow> Inl e | Inr ts' \<Rightarrow> Inr (t' # ts')))"

definition parse_tensors :: "(u64 \<Rightarrow> bool) \<Rightarrow> model \<Rightarrow> cursor \<Rightarrow> die + (model \<times> cursor)" where
  "parse_tensors calloc_ok m c =
     (if \<not> calloc_ok (m_n_tensors m)
      then Inl (Die ''out of memory while allocating tensor table'')
      else
        case cursor_for tensor_entry (unat (m_n_tensors m)) (m\<lparr>m_tensors := []\<rparr>) c of
          Inl e \<Rightarrow> Inl e
        | Inr (m1, c1) \<Rightarrow>
            let m2 = m1\<lparr>m_tensor_data_pos := align_up (cpos c1) (m_alignment m1)\<rparr>
            in case place_tensors m2 (m_tensors m2) of
                 Inl e \<Rightarrow> Inl e
               | Inr ts \<Rightarrow> Inr (m2\<lparr>m_tensors := ts\<rparr>, c1))"

text \<open>
  The part of \<^verbatim>\<open>model_open\<close> after the bytes are available (mapped or read into the
  managed buffer): the size check of the header, the magic, the version and the
  two directories.
\<close>

definition model_open :: "(u64 \<Rightarrow> bool) \<Rightarrow> (u64 \<Rightarrow> bool) \<Rightarrow> bool \<Rightarrow> byte list \<Rightarrow> die + model" where
  "model_open kv_alloc tensor_alloc managed file =
     (if length file < 32 then Inl (Die ''model file is too small to be GGUF'')
      else
        let m0 = \<lparr>m_map = file, m_size = of_nat (length file), m_managed = managed, m_version = 0,
                  m_n_kv = 0, m_n_tensors = 0, m_alignment = 0, m_tensor_data_pos = 0,
                  m_kv = [], m_tensors = []\<rparr>;
            c = cursor_at m0 0
        in case cursor_u32 c of
             (None, c1) \<Rightarrow> Inl (DieCursor (cerror c1))
           | (Some magic, c1) \<Rightarrow>
               if magic \<noteq> DS4_GGUF_MAGIC then Inl (Die ''model is not a GGUF file'')
               else
           (case cursor_u32 c1 of
             (None, c2) \<Rightarrow> Inl (DieCursor (cerror c2))
           | (Some ver, c2) \<Rightarrow>
           (case cursor_u64 c2 of
             (None, c3) \<Rightarrow> Inl (DieCursor (cerror c3))
           | (Some nt, c3) \<Rightarrow>
           (case cursor_u64 c3 of
             (None, c4) \<Rightarrow> Inl (DieCursor (cerror c4))
           | (Some nk, c4) \<Rightarrow>
               if ver \<noteq> 3 then Inl (Die ''only GGUF v3 is supported'')
               else
                 case parse_metadata kv_alloc
                        (m0\<lparr>m_version := ver, m_n_tensors := nt, m_n_kv := nk\<rparr>) c4 of
                   Inl e \<Rightarrow> Inl e
                 | Inr (m1, c5) \<Rightarrow>
                     (case parse_tensors tensor_alloc m1 c5 of
                        Inl e \<Rightarrow> Inl e
                      | Inr (m2, _) \<Rightarrow> Inr m2)))))"


section \<open>The directory loops\<close>

text \<open>
  The contract of a loop body: it keeps an invariant between the loop's state and
  the cursor, counts one item, and moves the cursor by at least \<open>w\<close> bytes.  What
  follows for the whole loop is proved once here; in particular the number of
  items is bounded by the size of the file, whatever count the header claims.
\<close>

locale cursor_body =
  fixes body :: "'s \<Rightarrow> cursor \<Rightarrow> die + ('s \<times> cursor)"
    and inv :: "cursor \<Rightarrow> 's \<Rightarrow> bool"
    and items :: "'s \<Rightarrow> nat"
    and w :: nat
  assumes body_step: "cursor_ok c \<Longrightarrow> inv c s \<Longrightarrow> body s c = Inr (s', c') \<Longrightarrow>
            advances w c c' \<and> inv c' s' \<and> items s' = Suc (items s)"
begin

lemma loop_step:
  "cursor_ok c \<Longrightarrow> inv c s \<Longrightarrow> cursor_for body n s c = Inr (s', c') \<Longrightarrow>
     advances (n * w) c c' \<and> inv c' s' \<and> items s' = items s + n"
proof (induction n arbitrary: s c)
  case 0
  then show ?case by simp
next
  case (Suc n)
  from Suc.prems(3) obtain s1 c1 where b: "body s c = Inr (s1, c1)"
    and r: "cursor_for body n s1 c1 = Inr (s', c')"
    by (auto split: sum.splits)
  from body_step [OF Suc.prems(1,2) b] have a: "advances w c c1" "inv c1 s1" "items s1 = Suc (items s)"
    by auto
  from Suc.IH [OF advances_ok [OF a(1)] a(2) r] have "advances (n * w) c1 c'" "inv c' s'"
    "items s' = items s1 + n" by auto
  with advances_trans [OF a(1), of "n * w" c'] a(3) show ?case by simp
qed

lemma loop_bounded:
  assumes "cursor_ok c" "inv c s" "cursor_for body n s c = Inr (s', c')"
  shows "unat (cpos c) + n * w \<le> length (cbase c)"
  using loop_step [OF assms] by (auto simp: advances_def cursor_ok_def)

end

definition meta_inv :: "cursor \<Rightarrow> model \<Rightarrow> bool" where
  "meta_inv c m \<longleftrightarrow>
     m_map m = cbase c \<and> m_size m = csize c \<and> cerror c = None \<and>
     0 < unat (m_alignment m) \<and> unat (m_alignment m) < 2 ^ 32 \<and>
     (\<forall>e \<in> set (m_kv m). unat (kv_value_pos e) \<le> length (m_map m) \<and>
        fst (skip_value (cursor_at m (kv_value_pos e)) (kv_type e) 0))"

lemma cursor_at_update [simp]:
  "cursor_at (m\<lparr>m_kv := x\<rparr>) = cursor_at m"
  "cursor_at (m\<lparr>m_alignment := a\<rparr>) = cursor_at m"
  "cursor_at (m\<lparr>m_tensors := ts\<rparr>) = cursor_at m"
  "cursor_at (m\<lparr>m_tensor_data_pos := p\<rparr>) = cursor_at m"
  by (simp_all add: cursor_at_def fun_eq_iff)

lemma ucast_align_bounds:
  "a \<noteq> 0 \<Longrightarrow> 0 < unat (ucast (a :: u32) :: u64)" "unat (ucast (a :: u32) :: u64) < 4294967296"
proof -
  have "unat (ucast a :: u64) = unat a"
    using unat_u32_bound [of a] by (simp add: unsigned_ucast_eq take_bit_nat_eq_self del: unat_u32_bound)
  then show "a \<noteq> 0 \<Longrightarrow> 0 < unat (ucast a :: u64)" "unat (ucast a :: u64) < 4294967296"
    by (simp_all add: unat_gt_0)
qed

lemma metadata_entry_step:
  assumes ok: "cursor_ok c" and inv: "meta_inv c m" and e: "metadata_entry m c = Inr (m', c')"
  shows "advances 13 c c' \<and> meta_inv c' m' \<and> length (m_kv m') = Suc (length (m_kv m))"
proof -
  obtain key c1 where s: "cursor_string c = (Some key, c1)"
    using e by (auto simp: metadata_entry_def split: prod.splits option.splits)
  obtain ty c2 where u: "cursor_u32 c1 = (Some ty, c2)"
    using e s by (auto simp: metadata_entry_def split: prod.splits option.splits)
  obtain c3 where k: "skip_value c2 ty 0 = (True, c3)"
    using e s u by (auto simp: metadata_entry_def Let_def split: prod.splits bool.splits)
  note a1 = cursor_string_Some(1) [OF ok s]
  note a2 = cursor_u32_Some(2) [OF advances_ok [OF a1] u]
  have a3: "advances 1 c2 c3"
    using skip_value_advances(1) [OF advances_ok [OF a2] k] by (rule advances_weaken) simp
  have a12: "advances 12 c c2"
    using advances_trans [OF a1 a2] by (rule advances_weaken) simp
  have c': "c' = c3" using e s u k by (simp add: metadata_entry_def Let_def)
  have at: "c2 = cursor_at m (cpos c2)"
    using inv a12 by (cases c2) (simp add: cursor_at_def meta_inv_def advances_def)
  have pos: "unat (cpos c2) \<le> length (m_map m)"
    using inv a12 by (auto simp: meta_inv_def advances_def cursor_ok_def)
  define al where "al = metadata_alignment m key ty (cpos c2)"
  have al: "0 < unat al" "unat al < 2 ^ 32"
    using inv by (auto simp: al_def metadata_alignment_def meta_inv_def ucast_align_bounds
        split: option.splits)
  have m': "m' = m\<lparr>m_kv := m_kv m @ [\<lparr>kv_key = key, kv_type = ty, kv_value_pos = cpos c2\<rparr>],
      m_alignment := al\<rparr>"
    using e s u k by (simp add: metadata_entry_def Let_def al_def)
  from k at have "fst (skip_value (cursor_at m (cpos c2)) ty 0)" by simp
  with inv pos al a12 a3 have "meta_inv c' m'"
    by (auto simp: m' c' meta_inv_def advances_def)
  with advances_trans [OF a12 a3] show ?thesis by (simp add: m' c')
qed

interpretation meta: cursor_body metadata_entry meta_inv "\<lambda>m. length (m_kv m)" 13
  by unfold_locales (rule metadata_entry_step)


definition dims_product :: "nat \<Rightarrow> u64 list \<Rightarrow> nat" where
  "dims_product n dims = (\<Prod>i<n. unat (dims ! i))"

lemma dims_product_Suc:
  "d < length dims \<Longrightarrow> dims_product (Suc d) (dims[d := x]) = dims_product d dims * unat x"
  by (simp add: dims_product_def)

text \<open>The element count is the product of the dimensions, with no wrap-around.\<close>

lemma tensor_dims_Inr:
  assumes "tensor_dims d n dims els c = Inr (dims', els', c')" "cursor_ok c"
    "d + n \<le> length dims" "unat els = dims_product d dims"
  shows "advances (8 * n) c c' \<and> length dims' = length dims \<and>
         unat els' = dims_product (d + n) dims'"
  using assms
proof (induction n arbitrary: d dims els c)
  case 0
  then show ?case by auto
next
  case (Suc n)
  obtain x c1 where u: "cursor_u64 c = (Some x, c1)"
    and nw: "\<not> (x \<noteq> 0 \<and> els > (- 1) div x)"
    and r: "tensor_dims (Suc d) n (dims[d := x]) (els * x) c1 = Inr (dims', els', c')"
    using Suc.prems(1) by (auto split: prod.splits option.splits if_splits)
  note a = cursor_u64_Some(2) [OF Suc.prems(2) u]
  have m: "unat (els * x) = unat els * unat x"
    using nw div_guard_no_wrap(1) [where x = els and y = x] by (cases "x = 0") (simp, blast)
  have "unat (els * x) = dims_product (Suc d) (dims[d := x])"
    using Suc.prems(3,4) m by (simp add: dims_product_Suc)
  from Suc.IH [OF r advances_ok [OF a] _ this] Suc.prems(3)
  have "advances (8 * n) c1 c'" "length dims' = length dims" "unat els' = dims_product (Suc d + n) dims'"
    by auto
  with advances_trans [OF a, of "8 * n" c'] show ?case by simp
qed

definition entry_wf :: "tensor \<Rightarrow> bool" where
  "entry_wf t \<longleftrightarrow>
     1 \<le> unat (t_ndim t) \<and> unat (t_ndim t) \<le> 8 \<and> length (t_dim t) = 8 \<and>
     unat (t_elements t) = dims_product (unat (t_ndim t)) (t_dim t) \<and>
     t_bytes t = (case tensor_nbytes (t_type t) (t_elements t) of Some b \<Rightarrow> b | None \<Rightarrow> 0)"

definition tens_inv :: "cursor \<Rightarrow> model \<Rightarrow> bool" where
  "tens_inv c m \<longleftrightarrow> meta_inv c m \<and> (\<forall>t \<in> set (m_tensors m). entry_wf t)"

lemma meta_inv_frame:
  "meta_inv c m \<Longrightarrow> advances w c c' \<Longrightarrow> meta_inv c' (m\<lparr>m_tensors := ts\<rparr>)"
  by (auto simp: meta_inv_def advances_def)

lemma tensor_entry_step:
  assumes ok: "cursor_ok c" and inv: "tens_inv c m" and e: "tensor_entry m c = Inr (m', c')"
  shows "advances 32 c c' \<and> tens_inv c' m' \<and> length (m_tensors m') = Suc (length (m_tensors m))"
proof -
  obtain nm c1 where s: "cursor_string c = (Some nm, c1)"
    using e by (auto simp: tensor_entry_def split: prod.splits option.splits)
  obtain nd c2 where u: "cursor_u32 c1 = (Some nd, c2)"
    using e s by (auto simp: tensor_entry_def split: prod.splits option.splits)
  have nd: "nd \<noteq> 0" "unat nd \<le> 8"
    using e s u by (auto simp: tensor_entry_def DS4_MAX_DIMS_def split: if_splits)
  obtain dims els c3 where d: "tensor_dims 0 (unat nd) (replicate 8 0) 1 c2 = Inr (dims, els, c3)"
    using e s u nd by (auto simp: tensor_entry_def DS4_MAX_DIMS_def split: sum.splits)
  obtain ty c4 where v: "cursor_u32 c3 = (Some ty, c4)"
    using e s u nd d by (auto simp: tensor_entry_def DS4_MAX_DIMS_def split: prod.splits option.splits)
  obtain rel where w: "cursor_u64 c4 = (Some rel, c')"
    and m': "m' = m\<lparr>m_tensors := m_tensors m @
                 [\<lparr>t_name = nm, t_ndim = nd, t_dim = dims, t_type = ty, t_rel_offset = rel,
                   t_abs_offset = 0, t_elements = els,
                   t_bytes = (case tensor_nbytes ty els of Some b \<Rightarrow> b | None \<Rightarrow> 0),
                   t_nvfp4_scale_2 = None\<rparr>]\<rparr>"
    using e s u nd d v by (auto simp: tensor_entry_def DS4_MAX_DIMS_def split: prod.splits option.splits)
  have nd1: "1 \<le> unat nd" using nd(1) by (simp add: Suc_le_eq unat_gt_0)
  note a1 = cursor_string_Some(1) [OF ok s]
  note a2 = cursor_u32_Some(2) [OF advances_ok [OF a1] u]
  have dd: "advances (8 * unat nd) c2 c3" "length dims = 8" "unat els = dims_product (unat nd) dims"
    using tensor_dims_Inr [OF d advances_ok [OF a2]] nd(2) by (auto simp: dims_product_def)
  note a4 = cursor_u32_Some(2) [OF advances_ok [OF dd(1)] v]
  note a5 = cursor_u64_Some(2) [OF advances_ok [OF a4] w]
  note a = advances_trans [OF advances_trans [OF advances_trans [OF advances_trans [OF a1 a2] dd(1)] a4] a5]
  have adv: "advances 32 c c'"
    using a by (rule advances_weaken) (use nd1 in simp)
  have "meta_inv c' m'"
    using inv unfolding m' tens_inv_def by (blast intro: meta_inv_frame [OF _ adv])
  with inv nd nd1 dd adv show ?thesis
    by (simp add: tens_inv_def m' entry_wf_def)
qed

interpretation tens: cursor_body tensor_entry tens_inv "\<lambda>m. length (m_tensors m)" 32
  by unfold_locales (rule tensor_entry_step)

section \<open>Sizes and alignment\<close>

lemma align_up_correct:
  assumes "a \<noteq> 0" "unat v + unat a \<le> 2 ^ 64"
  shows "unat v \<le> unat (align_up v a)" "unat a dvd unat (align_up v a)"
    "unat (align_up v a) < unat v + unat a"
proof -
  have a: "0 < unat a" using assms(1) by (simp add: unat_gt_0)
  have r: "unat (v mod a) = unat v mod unat a" by (rule unat_mod)
  have "unat v \<le> unat (align_up v a) \<and> unat a dvd unat (align_up v a) \<and>
        unat (align_up v a) < unat v + unat a"
  proof (cases "v mod a = 0")
    case True
    then have "unat v mod unat a = 0" using r by simp
    then show ?thesis using True a by (auto simp: align_up_def)
  next
    case False
    then have pos: "0 < unat v mod unat a" using r by (metis unat_gt_0)
    have lt: "unat v mod unat a < unat a" using a by simp
    let ?k = "unat a - unat v mod unat a"
    have "align_up v a = v + (a - v mod a)" using False by (simp add: align_up_def Let_def)
    moreover have "unat (a - v mod a) = ?k"
      using r lt by (subst unat_sub) (simp_all add: word_le_nat_alt)
    ultimately have e: "unat (align_up v a) = unat v + ?k"
      using assms(2) pos lt by (simp add: unat_add_no_wrap)
    have "unat v + ?k = unat v div unat a * unat a + unat a"
      using lt div_mult_mod_eq [of "unat v" "unat a"] by linarith
    then have "unat a dvd unat v + ?k" by simp
    with e pos lt show ?thesis by simp
  qed
  then show "unat v \<le> unat (align_up v a)" "unat a dvd unat (align_up v a)"
    "unat (align_up v a) < unat v + unat a" by auto
qed


lemma gguf_types_entries:
  "info \<in> set gguf_types \<Longrightarrow> info = Some i \<Longrightarrow>
     1 \<le> unat (ti_block_elems i) \<and> unat (ti_block_elems i) \<le> 256 \<and>
     1 \<le> unat (ti_block_bytes i) \<and> unat (ti_block_bytes i) \<le> 292"
  by (auto simp: gguf_types_def mk_type_def)

lemma tensor_type_bounds:
  assumes "tensor_type t = Some i"
  shows "1 \<le> unat (ti_block_elems i)" "unat (ti_block_elems i) \<le> 256"
    "1 \<le> unat (ti_block_bytes i)" "unat (ti_block_bytes i) \<le> 292"
proof -
  from assms have "unat t < length gguf_types" "gguf_types ! unat t = Some i"
    by (auto simp: tensor_type_def split: if_splits)
  then have "Some i \<in> set gguf_types" by (metis nth_mem)
  from gguf_types_entries [OF this refl]
  show "1 \<le> unat (ti_block_elems i)" "unat (ti_block_elems i) \<le> 256"
    "1 \<le> unat (ti_block_bytes i)" "unat (ti_block_bytes i) \<le> 292" by auto
qed

lemma unat_ucast_u32_u64 [simp]: "unat (ucast (a :: u32) :: u64) = unat a"
  using unat_u32_bound [of a] by (simp add: unsigned_ucast_eq take_bit_nat_eq_self del: unat_u32_bound)

lemma tensor_nbytes_exact:
  assumes ty: "tensor_type t = Some i" and small: "unat els + 256 < 2 ^ 64"
    and b: "tensor_nbytes t els = Some b"
  shows "unat b = (unat els + unat (ti_block_elems i) - 1) div unat (ti_block_elems i)
                   * unat (ti_block_bytes i)"
proof -
  note ib = tensor_type_bounds [OF ty]
  let ?be = "ucast (ti_block_elems i) :: u64" and ?bb = "ucast (ti_block_bytes i) :: u64"
  have add: "unat (els + ?be) = unat els + unat (ti_block_elems i)"
    using small ib(2) by (simp add: unat_add_no_wrap)
  have "1 \<le> els + ?be"
    using add ib(1) by (simp add: word_le_nat_alt)
  then have num: "unat (els + ?be - 1) = unat els + unat (ti_block_elems i) - 1"
    by (simp add: unat_sub add)
  have "ti_block_elems i \<noteq> 0" using ib(1) by auto
  then have g: "\<not> (els + ?be - 1) div ?be > (- 1) div ?bb" "b = (els + ?be - 1) div ?be * ?bb"
    using b ty by (auto simp: tensor_nbytes_def Let_def split: if_splits)
  have "?bb \<noteq> 0"
    using ib(3) by (metis not_one_le_zero unat_0 unat_ucast_u32_u64)
  from div_guard_no_wrap(1) [OF g(1) this] g(2) num show ?thesis
    by (simp add: unat_div)
qed

section \<open>Placing the tensors\<close>

definition placed :: "model \<Rightarrow> tensor \<Rightarrow> bool" where
  "placed m t \<longleftrightarrow>
     unat (t_abs_offset t) = unat (m_tensor_data_pos m) + unat (t_rel_offset t) \<and>
     (t_bytes t \<noteq> 0 \<longrightarrow> unat (t_abs_offset t) + unat (t_bytes t) \<le> unat (m_size m))"

lemma place_tensor_Inr:
  assumes "place_tensor m t = Inr t'"
  shows "placed m t'" "t' = t\<lparr>t_abs_offset := t_abs_offset t'\<rparr>"
proof -
  let ?off = "m_tensor_data_pos m + t_rel_offset t"
  have le: "t_rel_offset t \<le> (- 1) - m_tensor_data_pos m" and t': "t' = t\<lparr>t_abs_offset := ?off\<rparr>"
    using assms by (auto simp: place_tensor_def Let_def split: if_splits)
  have "unat ((- 1) - m_tensor_data_pos m) = (2 ^ 64 - 1) - unat (m_tensor_data_pos m)"
    by (subst unat_sub) (simp_all add: unsigned_minus_1_eq_mask mask_eq_exp_minus_1)
  with le have "unat (t_rel_offset t) \<le> (2 ^ 64 - 1) - unat (m_tensor_data_pos m)"
    by (simp add: word_le_nat_alt)
  moreover have "unat (m_tensor_data_pos m) < 2 ^ 64" by simp
  ultimately have "unat (m_tensor_data_pos m) + unat (t_rel_offset t) < 2 ^ LENGTH(64)"
    by (simp del: unat_u64_bound)
  then have off: "unat ?off = unat (m_tensor_data_pos m) + unat (t_rel_offset t)"
    by (rule unat_add_no_wrap)
  have "t_bytes t \<noteq> 0 \<Longrightarrow> unat ?off + unat (t_bytes t) \<le> unat (m_size m)"
  proof -
    assume nz: "t_bytes t \<noteq> 0"
    with assms have 1: "?off \<le> m_size m" and 2: "t_bytes t \<le> m_size m - ?off"
      by (auto simp: place_tensor_def Let_def split: if_splits)
    from 1 have "unat (m_size m - ?off) = unat (m_size m) - unat ?off" by (rule unat_sub)
    with 1 2 show ?thesis by (simp add: word_le_nat_alt)
  qed
  with off t' show "placed m t'" by (simp add: placed_def)
  show "t' = t\<lparr>t_abs_offset := t_abs_offset t'\<rparr>" using t' by simp
qed

lemma place_tensors_Inr:
  "place_tensors m ts = Inr ts' \<Longrightarrow>
     length ts' = length ts \<and> (\<forall>t \<in> set ts'. placed m t) \<and>
     (\<forall>t' \<in> set ts'. \<exists>t \<in> set ts. t' = t\<lparr>t_abs_offset := t_abs_offset t'\<rparr>)"
proof (induction ts arbitrary: ts')
  case Nil
  then show ?case by simp
next
  case (Cons t ts)
  from Cons.prems obtain t1 ts1 where t1: "place_tensor m t = Inr t1"
    and r: "place_tensors m ts = Inr ts1" and ts': "ts' = t1 # ts1"
    by (auto split: sum.splits)
  from Cons.IH [OF r] place_tensor_Inr [OF t1] show ?case by (auto simp: ts')
qed


section \<open>Accessors\<close>

definition model_find_kv :: "model \<Rightarrow> string \<Rightarrow> kv option" where
  "model_find_kv m key = List.find (\<lambda>e. ds4_streq (kv_key e) key) (m_kv m)"

definition model_get_string :: "model \<Rightarrow> string \<Rightarrow> byte list option" where
  "model_get_string m key =
     (case model_find_kv m key of
        None \<Rightarrow> None
      | Some e \<Rightarrow> if kv_type e \<noteq> GGUF_VALUE_STRING then None
                  else fst (cursor_string (cursor_at m (kv_value_pos e))))"

definition model_get_u32 :: "model \<Rightarrow> string \<Rightarrow> u32 option" where
  "model_get_u32 m key =
     (case model_find_kv m key of
        None \<Rightarrow> None
      | Some e \<Rightarrow> if kv_type e \<noteq> GGUF_VALUE_UINT32 then None
                  else fst (cursor_u32 (cursor_at m (kv_value_pos e))))"

definition model_get_u64 :: "model \<Rightarrow> string \<Rightarrow> u64 option" where
  "model_get_u64 m key =
     (case model_find_kv m key of
        None \<Rightarrow> None
      | Some e \<Rightarrow> if kv_type e \<noteq> GGUF_VALUE_UINT64 then None
                  else fst (cursor_u64 (cursor_at m (kv_value_pos e))))"

definition model_get_bool :: "model \<Rightarrow> string \<Rightarrow> bool option" where
  "model_get_bool m key =
     (case model_find_kv m key of
        None \<Rightarrow> None
      | Some e \<Rightarrow> if kv_type e \<noteq> GGUF_VALUE_BOOL then None
                  else (case fst (cursor_read (cursor_at m (kv_value_pos e)) 1) of
                          None \<Rightarrow> None
                        | Some bs \<Rightarrow> Some ((le_word bs :: byte) \<noteq> 0)))"

record array_ref =
  arr_type :: u32
  arr_len :: u64
  arr_data_pos :: u64

definition model_get_array :: "model \<Rightarrow> string \<Rightarrow> array_ref option" where
  "model_get_array m key =
     (case model_find_kv m key of
        None \<Rightarrow> None
      | Some e \<Rightarrow>
          if kv_type e \<noteq> GGUF_VALUE_ARRAY then None
          else (case cursor_u32 (cursor_at m (kv_value_pos e)) of
                  (None, _) \<Rightarrow> None
                | (Some ty, c1) \<Rightarrow>
                    (case cursor_u64 c1 of
                       (None, _) \<Rightarrow> None
                     | (Some len, c2) \<Rightarrow>
                         Some \<lparr>arr_type = ty, arr_len = len, arr_data_pos = cpos c2\<rparr>)))"

definition u32_array_item :: "string \<Rightarrow> array_ref \<Rightarrow> u32 list \<Rightarrow> cursor \<Rightarrow> die + (u32 list \<times> cursor)" where
  "u32_array_item key arr out c =
     (case cursor_u32 c of
        (None, c1) \<Rightarrow> Inl (DieCursor (cerror c1))
      | (Some v, c1) \<Rightarrow>
          if arr_type arr = GGUF_VALUE_UINT32 then Inr (out @ [v], c1)
          else if sint v < 0 then Inl (DieArrayNegative key (of_nat (length out)))
          else Inr (out @ [v], c1))"

text \<open>The outer option is the C return value: \<open>None\<close> is \<^verbatim>\<open>return false\<close>.\<close>

definition model_get_u32_array_exact :: "model \<Rightarrow> string \<Rightarrow> u64 \<Rightarrow> (die + u32 list) option" where
  "model_get_u32_array_exact m key expected_len =
     (case model_get_array m key of
        None \<Rightarrow> None
      | Some arr \<Rightarrow>
          Some
           (if arr_len arr \<noteq> expected_len then Inl (DieArrayLength key (arr_len arr) expected_len)
            else if arr_type arr \<noteq> GGUF_VALUE_UINT32 \<and> arr_type arr \<noteq> GGUF_VALUE_INT32
            then Inl (DieArrayType key (arr_type arr))
            else
              case cursor_for (u32_array_item key arr) (unat (arr_len arr)) []
                     (cursor_at m (arr_data_pos arr)) of
                Inl e \<Rightarrow> Inl e
              | Inr (out, _) \<Rightarrow> Inr out))"

definition model_find_tensor :: "model \<Rightarrow> string \<Rightarrow> tensor option" where
  "model_find_tensor m name =
     List.find (\<lambda>t. length (t_name t) = length name \<and> t_name t = ascii name) (m_tensors m)"

definition tensor_data :: "model \<Rightarrow> tensor \<Rightarrow> byte list" where
  "tensor_data m t = drop (unat (t_abs_offset t)) (m_map m)"

lemma model_find_kv_in:
  "model_find_kv m key = Some e \<Longrightarrow> e \<in> set (m_kv m) \<and> kv_key e = ascii key"
  by (auto simp: model_find_kv_def ds4_streq_def find_Some_iff)

section \<open>What a successful open guarantees\<close>

definition model_ok :: "model \<Rightarrow> bool" where
  "model_ok m \<longleftrightarrow>
     unat (m_size m) = length (m_map m) \<and>
     length (m_kv m) = unat (m_n_kv m) \<and> length (m_tensors m) = unat (m_n_tensors m) \<and>
     13 * unat (m_n_kv m) + 32 * unat (m_n_tensors m) + 24 \<le> length (m_map m) \<and>
     (\<forall>e \<in> set (m_kv m). unat (kv_value_pos e) \<le> length (m_map m) \<and>
        fst (skip_value (cursor_at m (kv_value_pos e)) (kv_type e) 0)) \<and>
     (\<forall>t \<in> set (m_tensors m). entry_wf t \<and> placed m t)"

lemma cursor_for_frame:
  assumes "\<And>m c m' c'. body m c = Inr (m', c') \<Longrightarrow> P m \<Longrightarrow> P m'"
    and "cursor_for body n m c = Inr (m', c')" and "P m"
  shows "P m'"
  using assms(2,3)
proof (induction n arbitrary: m c)
  case 0
  then show ?case by simp
next
  case (Suc n)
  then show ?case using assms(1) by (auto split: sum.splits)
qed

lemma metadata_entry_counts:
  "metadata_entry m c = Inr (m', c') \<Longrightarrow> m_n_kv m' = m_n_kv m \<and> m_n_tensors m' = m_n_tensors m \<and> m_tensors m' = m_tensors m"
  by (auto simp: metadata_entry_def Let_def split: prod.splits option.splits bool.splits)

lemma tensor_entry_counts:
  "tensor_entry m c = Inr (m', c') \<Longrightarrow> m_n_kv m' = m_n_kv m \<and> m_n_tensors m' = m_n_tensors m \<and> m_kv m' = m_kv m"
  by (auto simp: tensor_entry_def split: prod.splits option.splits if_splits sum.splits)

lemma parse_metadata_Inr:
  assumes "parse_metadata alloc m c = Inr (m', c')" "cursor_ok c" "m_map m = cbase c"
    "m_size m = csize c" "cerror c = None" "m_tensors m = []"
  shows "advances (13 * unat (m_n_kv m)) c c'" "meta_inv c' m'"
    "length (m_kv m') = unat (m_n_kv m)" "m_n_kv m' = m_n_kv m" "m_n_tensors m' = m_n_tensors m"
    "m_tensors m' = []"
proof -
  let ?m0 = "m\<lparr>m_kv := [], m_alignment := 32\<rparr>"
  have f: "cursor_for metadata_entry (unat (m_n_kv m)) ?m0 c = Inr (m', c')"
    using assms(1) by (auto simp: parse_metadata_def split: if_splits)
  have i: "meta_inv c ?m0" using assms by (simp add: meta_inv_def)
  from meta.loop_step [OF assms(2) i f]
  show "advances (13 * unat (m_n_kv m)) c c'" "meta_inv c' m'" "length (m_kv m') = unat (m_n_kv m)"
    by (simp_all add: mult.commute)
  from cursor_for_frame [OF _ f, of "\<lambda>x. m_n_kv x = m_n_kv m \<and> m_n_tensors x = m_n_tensors m \<and> m_tensors x = []"]
  show "m_n_kv m' = m_n_kv m" "m_n_tensors m' = m_n_tensors m" "m_tensors m' = []"
    using metadata_entry_counts assms(6) by fastforce+
qed


lemma entry_wf_abs [simp]: "entry_wf (t\<lparr>t_abs_offset := a\<rparr>) = entry_wf t"
  by (simp add: entry_wf_def)

lemma place_tensors_wf:
  "place_tensors m ts = Inr ts' \<Longrightarrow> \<forall>t \<in> set ts. entry_wf t \<Longrightarrow> \<forall>t \<in> set ts'. entry_wf t"
  using place_tensors_Inr by (metis entry_wf_abs)

lemma parse_tensors_Inr:
  assumes "parse_tensors alloc m c = Inr (m', c')" "cursor_ok c" "meta_inv c m" "m_tensors m = []"
  shows "advances (32 * unat (m_n_tensors m)) c c'" "meta_inv c' m'" "m_kv m' = m_kv m"
    "m_n_kv m' = m_n_kv m" "m_n_tensors m' = m_n_tensors m"
    "length (m_tensors m') = unat (m_n_tensors m)"
    "\<forall>t \<in> set (m_tensors m'). entry_wf t \<and> placed m' t"
    "m_tensor_data_pos m' = align_up (cpos c') (m_alignment m')"
proof -
  obtain m1 where f: "cursor_for tensor_entry (unat (m_n_tensors m)) (m\<lparr>m_tensors := []\<rparr>) c = Inr (m1, c')"
    using assms(1) by (auto simp: parse_tensors_def Let_def split: if_splits sum.splits)
  define m2 where "m2 = m1\<lparr>m_tensor_data_pos := align_up (cpos c') (m_alignment m1)\<rparr>"
  obtain ts where p: "place_tensors m2 (m_tensors m2) = Inr ts" and m': "m' = m2\<lparr>m_tensors := ts\<rparr>"
    using assms(1) f by (auto simp: parse_tensors_def Let_def m2_def split: if_splits sum.splits)
  have i: "tens_inv c (m\<lparr>m_tensors := []\<rparr>)"
    using assms(3) by (auto simp: tens_inv_def meta_inv_def)
  note l = tens.loop_step [OF assms(2) i f]
  from l show "advances (32 * unat (m_n_tensors m)) c c'" by (simp add: mult.commute)
  from l have inv: "tens_inv c' m1" and len: "length (m_tensors m1) = unat (m_n_tensors m)" by simp_all
  from inv show "meta_inv c' m'" by (auto simp: tens_inv_def meta_inv_def m' m2_def)
  from cursor_for_frame [OF _ f, of "\<lambda>x. m_n_kv x = m_n_kv m \<and> m_n_tensors x = m_n_tensors m \<and> m_kv x = m_kv m"]
  have "m_n_kv m1 = m_n_kv m \<and> m_n_tensors m1 = m_n_tensors m \<and> m_kv m1 = m_kv m"
    using tensor_entry_counts by fastforce
  then show "m_kv m' = m_kv m" "m_n_kv m' = m_n_kv m" "m_n_tensors m' = m_n_tensors m"
    by (simp_all add: m' m2_def)
  have "\<forall>t \<in> set ts. entry_wf t"
    using place_tensors_wf [OF p] inv by (simp add: m2_def tens_inv_def)
  moreover have "\<forall>t \<in> set ts. placed m2 t" "length ts = length (m_tensors m2)"
    using place_tensors_Inr [OF p] by auto
  ultimately show "\<forall>t \<in> set (m_tensors m'). entry_wf t \<and> placed m' t"
    "length (m_tensors m') = unat (m_n_tensors m)"
    using len by (auto simp: m' placed_def m2_def)
  show "m_tensor_data_pos m' = align_up (cpos c') (m_alignment m')"
    by (simp add: m' m2_def)
qed

text \<open>Every path of \<open>model_open\<close> to a model goes through these steps.\<close>

lemma model_open_steps:
  assumes "model_open ka ta mg file = Inr m"
  obtains c1 ver c2 nt c3 nk c4 m1 c5 c6 where
    "32 \<le> length file"
    "cursor_u32 \<lparr>cbase = file, csize = of_nat (length file), cpos = 0, cerror = None\<rparr>
       = (Some DS4_GGUF_MAGIC, c1)"
    "cursor_u32 c1 = (Some ver, c2)" "cursor_u64 c2 = (Some nt, c3)" "cursor_u64 c3 = (Some nk, c4)"
    "ver = 3"
    "parse_metadata ka \<lparr>m_map = file, m_size = of_nat (length file), m_managed = mg, m_version = ver,
        m_n_kv = nk, m_n_tensors = nt, m_alignment = 0, m_tensor_data_pos = 0,
        m_kv = [], m_tensors = []\<rparr> c4 = Inr (m1, c5)"
    "parse_tensors ta m1 c5 = Inr (m, c6)"
  using assms
  by (auto simp: model_open_def Let_def cursor_at_def
      split: if_splits prod.splits option.splits sum.splits)

lemma model_open_ok_aux:
  assumes "model_open ka ta mg file = Inr m" "length file < 2 ^ 64"
  shows "model_ok m \<and> m_map m = file \<and> (\<exists>c. cursor_ok c \<and> cbase c = file \<and> cerror c = None \<and>
     meta_inv c m \<and> m_tensor_data_pos m = align_up (cpos c) (m_alignment m))"
proof -
  obtain c1 ver c2 nt c3 nk c4 m1 c5 c6 where st:
    "32 \<le> length file"
    "cursor_u32 \<lparr>cbase = file, csize = of_nat (length file), cpos = 0, cerror = None\<rparr>
       = (Some DS4_GGUF_MAGIC, c1)"
    "cursor_u32 c1 = (Some ver, c2)" "cursor_u64 c2 = (Some nt, c3)" "cursor_u64 c3 = (Some nk, c4)"
    "ver = 3"
    "parse_metadata ka \<lparr>m_map = file, m_size = of_nat (length file), m_managed = mg, m_version = ver,
        m_n_kv = nk, m_n_tensors = nt, m_alignment = 0, m_tensor_data_pos = 0,
        m_kv = [], m_tensors = []\<rparr> c4 = Inr (m1, c5)"
    "parse_tensors ta m1 c5 = Inr (m, c6)"
    using model_open_steps [OF assms(1)] by metis
  let ?c = "\<lparr>cbase = file, csize = of_nat (length file), cpos = 0, cerror = None\<rparr>"
  have ok: "cursor_ok ?c" using assms(2) by (simp add: cursor_ok_def unat_of_nat)
  note a1 = cursor_u32_Some(2) [OF ok st(2)]
  note a2 = cursor_u32_Some(2) [OF advances_ok [OF a1] st(3)]
  note a3 = cursor_u64_Some(2) [OF advances_ok [OF a2] st(4)]
  note a4 = cursor_u64_Some(2) [OF advances_ok [OF a3] st(5)]
  note adv = advances_trans [OF advances_trans [OF advances_trans [OF a1 a2] a3] a4]
  have c4: "cursor_ok c4" "cbase c4 = file" "csize c4 = of_nat (length file)" "cerror c4 = None"
    using adv by (auto simp: advances_def)
  note pm = parse_metadata_Inr [OF st(7) c4(1)]
  have pm': "advances (13 * unat nk) c4 c5" "meta_inv c5 m1" "length (m_kv m1) = unat nk"
    "m_n_kv m1 = nk" "m_n_tensors m1 = nt" "m_tensors m1 = []"
    using pm c4 by simp_all
  note pt = parse_tensors_Inr [OF st(8) advances_ok [OF pm'(1)] pm'(2) pm'(6)]
  note adv' = advances_trans [OF advances_trans [OF adv pm'(1)] pt(1)]
  have c6: "cursor_ok c6" "cbase c6 = file" "cerror c6 = None" "csize c6 = of_nat (length file)"
    using adv' by (auto simp: advances_def)
  have m: "m_map m = file" "m_size m = of_nat (length file)"
    using pt(2) c6 by (simp_all add: meta_inv_def)
  have "13 * unat (m_n_kv m) + 32 * unat (m_n_tensors m) + 24 \<le> length (m_map m)"
    using adv' pm' pt(4,5) m assms(2) by (auto simp: advances_def cursor_ok_def unat_of_nat)
  with pt(2) have "model_ok m"
    using pm' pt(3-7) m assms(2) by (auto simp: model_ok_def meta_inv_def unat_of_nat)
  with m c6 pt(2,8) show ?thesis by blast
qed


section \<open>Properties of the loader\<close>

text \<open>A complete one-tensor file, used by the witnesses.\<close>

definition gguf_sample :: "byte list" where
  "gguf_sample =
     [0x47, 0x47, 0x55, 0x46, 3, 0, 0, 0, 1, 0, 0, 0, 0, 0, 0, 0, 1, 0, 0, 0, 0, 0, 0, 0,
      17, 0, 0, 0, 0, 0, 0, 0] @ ascii ''general.alignment'' @
     [4, 0, 0, 0, 32, 0, 0, 0, 1, 0, 0, 0, 0, 0, 0, 0] @ ascii ''t'' @
     [1, 0, 0, 0, 2, 0, 0, 0, 0, 0, 0, 0, 0, 0, 0, 0, 0, 0, 0, 0, 0, 0, 0, 0]
     @ replicate 6 0 @ replicate 8 7"

definition gguf_sample_model :: model where
  "gguf_sample_model = projr (model_open (\<lambda>_. True) (\<lambda>_. True) False gguf_sample)"

lemma gguf_sample_opens:
  "model_open (\<lambda>_. True) (\<lambda>_. True) False gguf_sample = Inr gguf_sample_model"
proof -
  have "isl (model_open (\<lambda>_. True) (\<lambda>_. True) False gguf_sample) = False"
    by code_simp
  then show ?thesis by (simp add: gguf_sample_model_def)
qed

lemma gguf_sample_length: "length gguf_sample = 104"
  by code_simp

lemma gguf_sample_small: "length gguf_sample < 2 ^ 64"
  by (simp add: gguf_sample_length)

text \<open>
  Claim C1. When a file opens, every tensor of the directory lies where its offset
  says without any 64-bit wrap-around, and every tensor with a known byte size lies
  inside the mapped file.
\<close>

theorem model_open_tensors_in_file:
  assumes "model_open ka ta mg file = Inr m" and "length file < 2 ^ 64" and "t \<in> set (m_tensors m)"
  shows "m_map m = file \<and>
    unat (t_abs_offset t) = unat (m_tensor_data_pos m) + unat (t_rel_offset t) \<and>
    (t_bytes t \<noteq> 0 \<longrightarrow> unat (t_abs_offset t) + unat (t_bytes t) \<le> length file)"
  using model_open_ok_aux [OF assms(1,2)] assms(3) by (auto simp: model_ok_def placed_def)

theorem model_open_tensors_in_file_witness:
  "t_abs_offset (hd (m_tensors gguf_sample_model)) = 96 \<and>
   t_bytes (hd (m_tensors gguf_sample_model)) = 8 \<and>
   unat (t_abs_offset (hd (m_tensors gguf_sample_model)))
     + unat (t_bytes (hd (m_tensors gguf_sample_model))) \<le> length gguf_sample"
proof -
  have ne: "m_tensors gguf_sample_model \<noteq> []" by code_simp
  have v: "t_abs_offset (hd (m_tensors gguf_sample_model)) = 96"
    "t_bytes (hd (m_tensors gguf_sample_model)) = 8" by code_simp+
  from model_open_tensors_in_file [OF gguf_sample_opens _ hd_in_set [OF ne]] gguf_sample_length v
  show ?thesis by simp
qed

text \<open>
  The directory loops run exactly as often as the header says, and no
  header can make them run longer than the file allows: a metadata entry takes at
  least 13 bytes and a tensor entry at least 32.
\<close>

theorem model_open_directory_bounded:
  assumes "model_open ka ta mg file = Inr m" and "length file < 2 ^ 64"
  shows "length (m_kv m) = unat (m_n_kv m) \<and> length (m_tensors m) = unat (m_n_tensors m) \<and>
    24 + 13 * length (m_kv m) + 32 * length (m_tensors m) \<le> length file"
  using model_open_ok_aux [OF assms] by (auto simp: model_ok_def)

theorem model_open_directory_bounded_witness:
  "length (m_kv gguf_sample_model) = 1 \<and> length (m_tensors gguf_sample_model) = 1 \<and>
   24 + 13 * 1 + 32 * 1 \<le> length gguf_sample"
proof -
  have n: "unat (m_n_kv gguf_sample_model) = 1" "unat (m_n_tensors gguf_sample_model) = 1"
    by code_simp+
  from model_open_directory_bounded [OF gguf_sample_opens] gguf_sample_length n
  show ?thesis by simp
qed

text \<open>
  The element count recorded for a tensor is the product of its
  dimensions over the natural numbers: the overflow check of the dimension loop is
  exact.  For a tensor of a known type whose count leaves room for the rounding
  addition, the recorded byte size is the exact number of bytes of its blocks.
\<close>

theorem model_open_tensor_sizes:
  assumes "model_open ka ta mg file = Inr m" and "length file < 2 ^ 64" and "t \<in> set (m_tensors m)"
  shows "unat (t_elements t) = (\<Prod>i<unat (t_ndim t). unat (t_dim t ! i)) \<and>
    (\<forall>info b. tensor_type (t_type t) = Some info \<longrightarrow> unat (t_elements t) + 256 < 2 ^ 64 \<longrightarrow>
       tensor_nbytes (t_type t) (t_elements t) = Some b \<longrightarrow>
       unat (t_bytes t) =
         (unat (t_elements t) + unat (ti_block_elems info) - 1) div unat (ti_block_elems info)
           * unat (ti_block_bytes info))"
proof -
  from model_open_ok_aux [OF assms(1,2)] assms(3) have "entry_wf t" by (auto simp: model_ok_def)
  then have "unat (t_elements t) = dims_product (unat (t_ndim t)) (t_dim t)"
    and "\<And>b. tensor_nbytes (t_type t) (t_elements t) = Some b \<Longrightarrow> t_bytes t = b"
    by (auto simp: entry_wf_def)
  then show ?thesis
    unfolding dims_product_def using tensor_nbytes_exact by blast
qed

theorem model_open_tensor_sizes_witness:
  "unat (t_elements (hd (m_tensors gguf_sample_model))) = 2"
proof -
  have ne: "m_tensors gguf_sample_model \<noteq> []" by code_simp
  have v: "unat (t_ndim (hd (m_tensors gguf_sample_model))) = 1"
    "t_dim (hd (m_tensors gguf_sample_model)) ! 0 = 2" by code_simp+
  note p = conjunct1 [OF model_open_tensor_sizes [OF gguf_sample_opens gguf_sample_small hd_in_set [OF ne]]]
  show ?thesis unfolding p v(1) using v(2) by simp
qed

text \<open>
  A metadata value found with the type the caller asks for can always be
  read: after a successful open the scalar accessors never meet a truncated file.
\<close>

theorem model_get_u32_total:
  assumes "model_open ka ta mg file = Inr m" and "length file < 2 ^ 64"
    and "model_find_kv m key = Some e" and "kv_type e = GGUF_VALUE_UINT32"
  shows "model_get_u32 m key = Some (le_word (subslice file (unat (kv_value_pos e)) 4))"
proof -
  from model_open_ok_aux [OF assms(1,2)] have ok: "model_ok m" and map: "m_map m = file" by auto
  from model_find_kv_in [OF assms(3)] ok have
    e: "fst (skip_value (cursor_at m (kv_value_pos e)) (kv_type e) 0)"
    "unat (kv_value_pos e) \<le> length (m_map m)" by (auto simp: model_ok_def)
  have c: "cursor_ok (cursor_at m (kv_value_pos e))"
    using ok e(2) by (simp add: cursor_ok_def cursor_at_def model_ok_def)
  from e(1) assms(4) have "fst (cursor_skip (cursor_at m (kv_value_pos e)) 4)"
    by (simp add: skip_value.simps scalar_value_size_def)
  then have h: "cursor_has (cursor_at m (kv_value_pos e)) 4 = (True, cursor_at m (kv_value_pos e))"
    by (auto simp: cursor_skip_def cursor_has_def split: if_splits)
  then show ?thesis
    using assms(3,4) map by (simp add: model_get_u32_def cursor_u32_def cursor_read_def cursor_at_def)
qed

theorem model_get_u32_total_witness:
  "model_get_u32 gguf_sample_model ''general.alignment'' = Some 32"
proof -
  define e where "e = hd (m_kv gguf_sample_model)"
  have f: "model_find_kv gguf_sample_model ''general.alignment'' = Some e"
    unfolding e_def by code_simp
  have t: "kv_type e = GGUF_VALUE_UINT32" unfolding e_def by code_simp
  have "le_word (subslice gguf_sample (unat (kv_value_pos e)) 4) = (32 :: u32)"
    unfolding e_def by code_simp
  with model_get_u32_total [OF gguf_sample_opens gguf_sample_small f t] show ?thesis by simp
qed

text \<open>
  The rounding addition of \<^verbatim>\<open>tensor_nbytes\<close> is not covered by its overflow
  check: a tensor of 2 ^ 64 - 1 elements of a 32-element block type is given size 0,
  and the placement check, which is skipped for size 0, then accepts it at any offset
  that does not overflow.
\<close>

theorem tensor_nbytes_rounding_wraps:
  "tensor_nbytes 8 (- 1) = Some 0 \<and>
   place_tensor (gguf_sample_model\<lparr>m_size := 0, m_tensor_data_pos := 96\<rparr>)
     \<lparr>t_name = ascii ''x'', t_ndim = 1, t_dim = [- 1, 0, 0, 0, 0, 0, 0, 0], t_type = 8,
      t_rel_offset = 1000, t_abs_offset = 0, t_elements = - 1, t_bytes = 0, t_nvfp4_scale_2 = None\<rparr>
   = Inr \<lparr>t_name = ascii ''x'', t_ndim = 1, t_dim = [- 1, 0, 0, 0, 0, 0, 0, 0], t_type = 8,
      t_rel_offset = 1000, t_abs_offset = 1096, t_elements = - 1, t_bytes = 0, t_nvfp4_scale_2 = None\<rparr>"
  by (simp add: tensor_nbytes_def tensor_type_def gguf_types_def mk_type_def place_tensor_def Let_def)

text \<open>
  A tensor whose type id is not in the table (the NVFP4 tensors are
  written with such an id) is recorded with size 0, so its payload is never checked
  against the end of the file: whether it is accepted depends on its offset only.
\<close>

theorem unknown_type_not_bounds_checked:
  assumes "tensor_type (t_type t) = None"
    and "t_bytes t = (case tensor_nbytes (t_type t) (t_elements t) of Some b \<Rightarrow> b | None \<Rightarrow> 0)"
  shows "(\<exists>t'. place_tensor m t = Inr t') \<longleftrightarrow>
    unat (m_tensor_data_pos m) + unat (t_rel_offset t) < 2 ^ 64"
proof -
  have "unat ((- 1) - m_tensor_data_pos m) = (2 ^ 64 - 1) - unat (m_tensor_data_pos m)"
    by (subst unat_sub) (simp_all add: unsigned_minus_1_eq_mask mask_eq_exp_minus_1)
  then have "t_rel_offset t \<le> (- 1) - m_tensor_data_pos m \<longleftrightarrow>
      unat (m_tensor_data_pos m) + unat (t_rel_offset t) < 2 ^ 64"
    using unat_u64_bound [of "m_tensor_data_pos m"]
    by (auto simp: word_le_nat_alt simp del: unat_u64_bound)
  moreover have "t_bytes t = 0"
    using assms by (simp add: tensor_nbytes_def)
  ultimately show ?thesis
    by (auto simp: place_tensor_def Let_def not_less)
qed

definition nvfp4_stray_tensor :: tensor where
  "nvfp4_stray_tensor =
     \<lparr>t_name = ascii ''w.nvfp4_weight'', t_ndim = 1, t_dim = [4096, 0, 0, 0, 0, 0, 0, 0], t_type = 40,
      t_rel_offset = 1000000, t_abs_offset = 0, t_elements = 4096, t_bytes = 0, t_nvfp4_scale_2 = None\<rparr>"

theorem unknown_type_not_bounds_checked_witness:
  "\<exists>t'. place_tensor (gguf_sample_model\<lparr>m_size := 104, m_tensor_data_pos := 96\<rparr>) nvfp4_stray_tensor = Inr t'"
proof -
  have t: "tensor_type (t_type nvfp4_stray_tensor) = None"
    by (simp add: tensor_type_def gguf_types_def nvfp4_stray_tensor_def)
  then have b: "t_bytes nvfp4_stray_tensor =
      (case tensor_nbytes (t_type nvfp4_stray_tensor) (t_elements nvfp4_stray_tensor) of
         Some b \<Rightarrow> b | None \<Rightarrow> 0)"
    by (simp add: tensor_nbytes_def nvfp4_stray_tensor_def)
  show ?thesis
    using unknown_type_not_bounds_checked [OF t b] by (simp add: nvfp4_stray_tensor_def)
qed

end
