(* ===== verification/Ds4_Strtable.thy ===== *)
theory Ds4_Strtable
  imports Ds4_Prelude
begin

text \<open>
  The open-addressed string table of the tokenizer
  (\<^verbatim>\<open>src/tokenizer/ds4_tokenizer.c\<close>) and the hash it uses
  (\<^verbatim>\<open>hash_bytes\<close> of \<^verbatim>\<open>src/util/ds4_util.c\<close>).  Probing is the C loop with the slot
  index as a 64-bit word; the loop has no exit but a free slot or the key, so a
  full table that lacks the key would make it run for ever: \<open>None\<close> stands for
  that.  The table is shown to refine a finite map and, with room left, to answer
  every call.
\<close>

section \<open>FNV-1a\<close>

definition hash_bytes :: "byte list \<Rightarrow> u64" where
  "hash_bytes bs = fold (\<lambda>b h. (h XOR ucast b) * 1099511628211) bs 1469598103934665603"

section \<open>The table\<close>

record str_i32_entry =
  e_key :: "byte list"
  e_value :: u32
  e_used :: bool

record str_i32_table =
  entry :: "str_i32_entry list"
  cap :: u64
  used :: u64

definition empty_entry :: str_i32_entry where
  "empty_entry = \<lparr>e_key = [], e_value = 0, e_used = False\<rparr>"

text \<open>
  \<^verbatim>\<open>while (p < n) p <<= 1\<close>: after 64 doublings \<open>p\<close> is 0 and the loop cannot stop,
  so 65 rounds decide.
\<close>

fun next_pow2_loop :: "nat \<Rightarrow> u64 \<Rightarrow> u64 \<Rightarrow> u64 option" where
  "next_pow2_loop 0 p n = None"
| "next_pow2_loop (Suc fuel) p n =
     (if p < n then next_pow2_loop fuel (push_bit 1 p) n else Some p)"

definition next_pow2 :: "u64 \<Rightarrow> u64 option" where
  "next_pow2 n = next_pow2_loop 65 1 n"

definition table_init :: "u64 \<Rightarrow> str_i32_table option" where
  "table_init expected =
     (case next_pow2 (expected * 2 + 16) of
        None \<Rightarrow> None
      | Some c \<Rightarrow> Some \<lparr>entry = replicate (unat c) empty_entry, cap = c, used = 0\<rparr>)"

text \<open>
  The probe both operations share: the slot where the loop stops, free or holding
  the key.
\<close>

fun probe :: "nat \<Rightarrow> str_i32_entry list \<Rightarrow> u64 \<Rightarrow> byte list \<Rightarrow> u64 \<Rightarrow> u64 option" where
  "probe 0 es msk key i = None"
| "probe (Suc fuel) es msk key i =
     (let e = es ! unat i
      in if e_used e
         then if e_key e = key then Some i else probe fuel es msk key ((i + 1) AND msk)
         else Some i)"

definition table_probe :: "str_i32_table \<Rightarrow> byte list \<Rightarrow> u64 option" where
  "table_probe t key =
     (let msk = cap t - 1
      in probe (unat (cap t)) (entry t) msk key (hash_bytes key AND msk))"

definition table_put :: "str_i32_table \<Rightarrow> byte list \<Rightarrow> u32 \<Rightarrow> str_i32_table option" where
  "table_put t key v =
     (case table_probe t key of
        None \<Rightarrow> None
      | Some i \<Rightarrow>
          (let e = entry t ! unat i
           in if e_used e
              then Some (t\<lparr>entry := (entry t)[unat i := e\<lparr>e_value := v\<rparr>]\<rparr>)
              else Some (t\<lparr>entry := (entry t)[unat i := \<lparr>e_key = key, e_value = v, e_used = True\<rparr>],
                           used := used t + 1\<rparr>)))"

definition table_get :: "str_i32_table \<Rightarrow> byte list \<Rightarrow> u32 option option" where
  "table_get t key =
     (case table_probe t key of
        None \<Rightarrow> None
      | Some i \<Rightarrow>
          (let e = entry t ! unat i
           in if e_used e then Some (Some (e_value e)) else Some None))"

section \<open>Masks of a power of two\<close>

lemma and_pow2_mask:
  fixes x c :: u64
  assumes "unat c = 2 ^ k"
  shows "unat (x AND (c - 1)) = unat x mod unat c"
proof -
  have k: "k < 64"
  proof (rule ccontr)
    assume "\<not> k < 64"
    then have "(2::nat) ^ 64 \<le> 2 ^ k" by (intro power_increasing) simp_all
    then show False using assms unat_u64_bound [of c] by (simp del: unat_u64_bound)
  qed
  have "c = 2 ^ k"
    by (rule word_unat_eq_iff [THEN iffD2]) (use k assms in \<open>simp add: unat_pow2_u64\<close>)
  then have "c - 1 = mask k" by (simp add: mask_eq_decr_exp)
  then have "x AND (c - 1) = take_bit k x" by (simp add: take_bit_eq_mask)
  then have "unat (x AND (c - 1)) = take_bit k (unat x)" by (simp add: unsigned_take_bit_eq)
  then show ?thesis by (simp add: take_bit_eq_mod assms)
qed

section \<open>The sizing loop\<close>

lemma next_pow2_loop_Some:
  "k + fuel \<le> 65 \<Longrightarrow> next_pow2_loop fuel (2 ^ k) n = Some p \<Longrightarrow> k \<le> 63 \<Longrightarrow>
     unat n \<le> 2 ^ 63 \<Longrightarrow> \<exists>j. j \<le> 63 \<and> p = 2 ^ j \<and> unat n \<le> 2 ^ j"
proof (induction fuel arbitrary: k)
  case 0
  then show ?case by simp
next
  case (Suc fuel)
  have pk: "unat (2 ^ k :: u64) = 2 ^ k" using Suc.prems(3) by (simp add: unat_pow2_u64)
  show ?case
  proof (cases "2 ^ k < n")
    case True
    then have "2 ^ k < unat n" using pk by (simp add: word_less_nat_alt)
    with Suc.prems(4) have "(2::nat) ^ k < 2 ^ 63" by linarith
    then have "k < 63" by (rule power_less_imp_less_exp [rotated]) simp
    moreover have "push_bit 1 (2 ^ k :: u64) = 2 ^ Suc k" by (simp add: push_bit_eq_mult)
    ultimately show ?thesis using Suc.IH [of "Suc k"] Suc.prems True by (simp add: mult.commute)
  next
    case False
    then have "unat n \<le> 2 ^ k" using pk by (simp add: word_less_nat_alt not_less)
    with False Suc.prems show ?thesis by auto
  qed
qed

lemma next_pow2_loop_total:
  "k + fuel = 65 \<Longrightarrow> k \<le> 63 \<Longrightarrow> unat n \<le> 2 ^ 63 \<Longrightarrow> \<exists>p. next_pow2_loop fuel (2 ^ k) n = Some p"
proof (induction fuel arbitrary: k)
  case 0
  then show ?case by simp
next
  case (Suc fuel)
  have pk: "unat (2 ^ k :: u64) = 2 ^ k" using Suc.prems(2) by (simp add: unat_pow2_u64)
  show ?case
  proof (cases "2 ^ k < n")
    case True
    then have "2 ^ k < unat n" using pk by (simp add: word_less_nat_alt)
    with Suc.prems(3) have "(2::nat) ^ k < 2 ^ 63" by linarith
    then have "k < 63" by (rule power_less_imp_less_exp [rotated]) simp
    moreover have "push_bit 1 (2 ^ k :: u64) = 2 ^ Suc k" by (simp add: push_bit_eq_mult)
    ultimately show ?thesis using Suc.IH [of "Suc k"] Suc.prems True by (simp add: mult.commute)
  qed simp
qed

lemma next_pow2_correct:
  assumes "unat n \<le> 2 ^ 63"
  obtains j where "j \<le> 63" "next_pow2 n = Some (2 ^ j)" "unat n \<le> 2 ^ j"
proof -
  obtain p where p: "next_pow2_loop 65 (2 ^ 0) n = Some p"
    using next_pow2_loop_total [of 0 65 n] assms by auto
  with next_pow2_loop_Some [of 0 65 n p] assms that show thesis
    by (auto simp: next_pow2_def)
qed


section \<open>Probing\<close>

text \<open>
  \<open>home N key\<close> is the slot the hash selects; \<open>stops es key j\<close> says the C loop
  ends at slot \<open>j\<close>.
\<close>

definition home :: "nat \<Rightarrow> byte list \<Rightarrow> nat" where
  "home N key = unat (hash_bytes key) mod N"

definition stops :: "str_i32_entry list \<Rightarrow> byte list \<Rightarrow> nat \<Rightarrow> bool" where
  "stops es key j \<longleftrightarrow> (e_used (es ! j) \<longrightarrow> e_key (es ! j) = key)"

definition first_stop :: "str_i32_entry list \<Rightarrow> byte list \<Rightarrow> nat \<Rightarrow> nat \<Rightarrow> bool" where
  "first_stop es key i d \<longleftrightarrow>
     stops es key ((i + d) mod length es) \<and>
     (\<forall>e<d. \<not> stops es key ((i + e) mod length es))"

lemma probe_first_stop:
  assumes "unat c = 2 ^ k" "k \<le> 63" "length es = 2 ^ k" "unat i < 2 ^ k"
    "first_stop es key (unat i) d" "d < fuel"
  shows "\<exists>p. probe fuel es (c - 1) key i = Some p \<and> unat p = (unat i + d) mod 2 ^ k"
  using assms(4-6)
proof (induction fuel arbitrary: i d)
  case 0
  then show ?case by simp
next
  case (Suc fuel)
  have im: "unat i mod 2 ^ k = unat i" using Suc.prems(1) by simp
  show ?case
  proof (cases d)
    case 0
    with Suc.prems(2) im assms(3) have "stops es key (unat i)" by (simp add: first_stop_def)
    then show ?thesis using 0 im by (auto simp: Let_def stops_def)
  next
    case (Suc d')
    with Suc.prems(2) have ns: "\<not> stops es key (unat i)"
      using im assms(3) by (auto simp: first_stop_def)
    let ?i = "(i + 1) AND (c - 1)"
    have "(2::nat) ^ k \<le> 2 ^ 63" using assms(2) by (intro power_increasing) simp_all
    with Suc.prems(1) have "unat (i + 1) = unat i + 1"
      by (subst unat_add_no_wrap) simp_all
    then have ui: "unat ?i = (unat i + 1) mod 2 ^ k"
      using and_pow2_mask [OF assms(1), of "i + 1"] assms(1) by simp
    have sh: "(unat ?i + e) mod 2 ^ k = (unat i + Suc e) mod 2 ^ k" for e
      by (simp add: ui mod_add_left_eq)
    have "first_stop es key (unat ?i) d'"
      unfolding first_stop_def assms(3)
    proof (intro conjI allI impI)
      show "stops es key ((unat ?i + d') mod 2 ^ k)"
        using Suc.prems(2) Suc by (simp only: sh first_stop_def assms(3))
      fix e assume "e < d'"
      then have "Suc e < Suc d'" by simp
      then show "\<not> stops es key ((unat ?i + e) mod 2 ^ k)"
        using Suc.prems(2) Suc unfolding sh first_stop_def assms(3) by blast
    qed
    moreover have "unat ?i < 2 ^ k" by (simp add: ui)
    moreover have "d' < fuel" using Suc.prems(3) Suc by simp
    ultimately obtain p where "probe fuel es (c - 1) key ?i = Some p" "unat p = (unat ?i + d') mod 2 ^ k"
      using Suc.IH by blast
    moreover have "probe (Suc fuel) es (c - 1) key i = probe fuel es (c - 1) key ?i"
      using ns by (simp add: stops_def Let_def)
    ultimately show ?thesis using sh [of d'] Suc by simp
  qed
qed

lemma first_stop_exists:
  assumes "j < length es" "stops es key j" "i < length es"
  obtains d where "d < length es" "first_stop es key i d"
proof -
  let ?N = "length es"
  let ?P = "\<lambda>d. stops es key ((i + d) mod ?N)"
  define d0 where "d0 = (if i \<le> j then j - i else j + ?N - i)"
  have "(i + d0) mod ?N = j" "d0 < ?N"
    using assms(1,3) by (auto simp: d0_def mod_if)
  then have "?P d0" using assms(2) by simp
  then have "?P (LEAST d. ?P d)" "(LEAST d. ?P d) \<le> d0"
    by (rule LeastI, rule Least_le)
  then have "first_stop es key i (LEAST d. ?P d)"
    unfolding first_stop_def by (blast dest: not_less_Least)
  then show thesis
    using that \<open>(LEAST d. ?P d) \<le> d0\<close> \<open>d0 < ?N\<close> by (meson le_less_trans)
qed

section \<open>The table invariant\<close>

definition chained :: "str_i32_entry list \<Rightarrow> bool" where
  "chained es \<longleftrightarrow>
     (\<forall>j<length es. e_used (es ! j) \<longrightarrow>
        (\<exists>d<length es. j = (home (length es) (e_key (es ! j)) + d) mod length es \<and>
           first_stop es (e_key (es ! j)) (home (length es) (e_key (es ! j))) d))"

definition n_used :: "str_i32_entry list \<Rightarrow> nat" where
  "n_used es = length (filter e_used es)"

definition tbl_ok :: "str_i32_table \<Rightarrow> bool" where
  "tbl_ok t \<longleftrightarrow>
     (\<exists>k\<le>63. unat (cap t) = 2 ^ k) \<and> length (entry t) = unat (cap t) \<and>
     unat (used t) = n_used (entry t) \<and> n_used (entry t) \<le> unat (cap t) \<and> chained (entry t)"

text \<open>Room for one more key.\<close>

definition tbl_room :: "str_i32_table \<Rightarrow> bool" where
  "tbl_room t \<longleftrightarrow> unat (used t) < unat (cap t)"

definition holds :: "str_i32_entry list \<Rightarrow> byte list \<Rightarrow> nat \<Rightarrow> bool" where
  "holds es key j \<longleftrightarrow> j < length es \<and> e_used (es ! j) \<and> e_key (es ! j) = key"

lemma free_slot:
  assumes "n_used es < length es"
  obtains j where "j < length es" "\<not> e_used (es ! j)"
proof -
  have "filter e_used es \<noteq> es"
    using assms by (auto simp: n_used_def)
  then obtain e where "e \<in> set es" "\<not> e_used e" by (auto simp: filter_id_conv)
  then show thesis using that by (metis in_set_conv_nth)
qed


lemma tbl_dims:
  assumes "tbl_ok t"
  obtains k where "unat (cap t) = 2 ^ k" "k \<le> 63" "length (entry t) = 2 ^ k"
  using assms by (auto simp: tbl_ok_def)

lemma table_probe_total:
  assumes ok: "tbl_ok t" and j: "j < length (entry t)" "stops (entry t) key j"
  shows "\<exists>p d. table_probe t key = Some p \<and> unat p < length (entry t) \<and> d < length (entry t) \<and>
     unat p = (home (length (entry t)) key + d) mod length (entry t) \<and>
     first_stop (entry t) key (home (length (entry t)) key) d"
proof -
  from tbl_dims [OF ok] obtain k where k: "unat (cap t) = 2 ^ k" "k \<le> 63" "length (entry t) = 2 ^ k" .
  let ?i = "hash_bytes key AND (cap t - 1)"
  have i: "unat ?i = home (length (entry t)) key"
    using and_pow2_mask [OF k(1), of "hash_bytes key"] k by (simp add: home_def)
  have "home (length (entry t)) key < length (entry t)" using k by (simp add: home_def)
  from first_stop_exists [OF j this] obtain d where d: "d < length (entry t)"
    "first_stop (entry t) key (home (length (entry t)) key) d" .
  have "unat ?i < 2 ^ k" using i k by (simp add: home_def)
  from probe_first_stop [OF k(1,2,3) this, of key d "2 ^ k"] d i k show ?thesis
    by (auto simp: table_probe_def Let_def)
qed

lemma first_stop_unique:
  "first_stop es key i d \<Longrightarrow> first_stop es key i d' \<Longrightarrow> d = d'"
  unfolding first_stop_def by (meson nat_neq_iff)

text \<open>Where the loop stops tells whether the key is present, and the slot is the only one holding it.\<close>

lemma probe_holds:
  assumes ok: "chained es" and d: "d < length es" "first_stop es key (home (length es) key) d"
    and p: "p = (home (length es) key + d) mod length es" and h: "holds es key j"
  shows "j = p"
proof -
  from ok h obtain d' where "d' < length es" "j = (home (length es) key + d') mod length es"
    "first_stop es key (home (length es) key) d'"
    by (auto simp: chained_def holds_def)
  with first_stop_unique [OF d(2)] p show ?thesis by auto
qed

lemma room_stops:
  assumes "tbl_ok t" "tbl_room t"
  obtains j where "j < length (entry t)" "stops (entry t) key j"
  using free_slot [of "entry t"] assms by (auto simp: tbl_ok_def tbl_room_def stops_def)

definition tmap :: "str_i32_table \<Rightarrow> byte list \<Rightarrow> u32 option" where
  "tmap t key = (case table_get t key of Some r \<Rightarrow> r | None \<Rightarrow> None)"

lemma table_get_holds:
  assumes ok: "tbl_ok t" and h: "holds (entry t) key j"
  shows "table_get t key = Some (Some (e_value (entry t ! j)))"
proof -
  have st: "stops (entry t) key j" and jl: "j < length (entry t)"
    using h by (simp_all add: holds_def stops_def)
  obtain p d where p: "table_probe t key = Some p" "d < length (entry t)"
    "unat p = (home (length (entry t)) key + d) mod length (entry t)"
    "first_stop (entry t) key (home (length (entry t)) key) d"
    using table_probe_total [OF ok jl st] by blast
  have "chained (entry t)" using ok by (simp add: tbl_ok_def)
  from probe_holds [OF this p(2,4) p(3) h] have "j = unat p" .
  with p(1) h show ?thesis by (simp add: table_get_def Let_def holds_def)
qed

lemma table_get_absent:
  assumes ok: "tbl_ok t" and room: "tbl_room t" and a: "\<And>j. \<not> holds (entry t) key j"
  shows "table_get t key = Some None"
proof -
  from room_stops [OF ok room] obtain j where j: "j < length (entry t)" "stops (entry t) key j" .
  from table_probe_total [OF ok j] obtain p d where p: "table_probe t key = Some p"
    "unat p < length (entry t)" "unat p = (home (length (entry t)) key + d) mod length (entry t)"
    "first_stop (entry t) key (home (length (entry t)) key) d" by auto
  have "\<not> e_used (entry t ! unat p)"
    using a [of "unat p"] p(2-4) by (auto simp: first_stop_def stops_def holds_def)
  with p(1) show ?thesis by (simp add: table_get_def Let_def)
qed

text \<open>Changing the value of a used slot changes neither the chains nor the count.\<close>

lemma chained_same_keys:
  assumes "length es' = length es"
    and "\<And>j. j < length es \<Longrightarrow> e_used (es' ! j) = e_used (es ! j) \<and> e_key (es' ! j) = e_key (es ! j)"
  shows "chained es' = chained es"
proof -
  have pos: "(x + y) mod length es < length es" if "0 < length es" for x y using that by simp
  have st: "stops es' key j = stops es key j" if "j < length es" for key j
    using assms(2) [OF that] by (simp add: stops_def)
  have fs: "first_stop es' key i d = first_stop es key i d" if "0 < length es" for key i d
    using st pos [OF that] assms(1) by (simp add: first_stop_def)
  show ?thesis
    unfolding chained_def assms(1) using assms(2) fs by (metis gr_implies_not0 neq0_conv)
qed

lemma n_used_update:
  "j < length es \<Longrightarrow> n_used (es[j := e]) + (if e_used (es ! j) then 1 else 0)
     = n_used es + (if e_used e then 1 else 0)"
proof (induction es arbitrary: j)
  case Nil
  then show ?case by simp
next
  case (Cons x xs)
  then show ?case by (cases j) (auto simp: n_used_def split: if_splits)
qed


lemma table_put_present:
  assumes ok: "tbl_ok t" and h: "holds (entry t) key j"
  shows "table_put t key v = Some (t\<lparr>entry := (entry t)[j := (entry t ! j)\<lparr>e_value := v\<rparr>]\<rparr>)"
proof -
  have st: "stops (entry t) key j" and jl: "j < length (entry t)"
    using h by (simp_all add: holds_def stops_def)
  obtain p d where p: "table_probe t key = Some p" "d < length (entry t)"
    "unat p = (home (length (entry t)) key + d) mod length (entry t)"
    "first_stop (entry t) key (home (length (entry t)) key) d"
    using table_probe_total [OF ok jl st] by blast
  have "chained (entry t)" using ok by (simp add: tbl_ok_def)
  from probe_holds [OF this p(2,4) p(3) h] have "j = unat p" .
  with p(1) h show ?thesis by (simp add: table_put_def Let_def holds_def)
qed

lemma table_put_absent:
  assumes ok: "tbl_ok t" and room: "tbl_room t" and a: "\<And>j. \<not> holds (entry t) key j"
  obtains p d where "p < length (entry t)" "d < length (entry t)"
    "p = (home (length (entry t)) key + d) mod length (entry t)"
    "first_stop (entry t) key (home (length (entry t)) key) d" "\<not> e_used (entry t ! p)"
    "table_put t key v = Some (t\<lparr>entry := (entry t)[p := \<lparr>e_key = key, e_value = v, e_used = True\<rparr>],
                                used := used t + 1\<rparr>)"
proof -
  from room_stops [OF ok room] obtain j where j: "j < length (entry t)" "stops (entry t) key j" .
  from table_probe_total [OF ok j] obtain p d where p: "table_probe t key = Some p"
    "unat p < length (entry t)" "d < length (entry t)"
    "unat p = (home (length (entry t)) key + d) mod length (entry t)"
    "first_stop (entry t) key (home (length (entry t)) key) d" by auto
  have nu: "\<not> e_used (entry t ! unat p)"
    using a [of "unat p"] p(2,4,5) by (auto simp: first_stop_def stops_def holds_def)
  show thesis
    by (rule that [OF p(2,3,4,5) nu]) (simp add: table_put_def p(1) nu Let_def)
qed

lemma chained_insert:
  assumes ch: "chained es" and p: "p < length es" "d < length es" "p = (home (length es) key + d) mod length es"
    and fs: "first_stop es key (home (length es) key) d" and nu: "\<not> e_used (es ! p)"
  shows "chained (es[p := \<lparr>e_key = key, e_value = v, e_used = True\<rparr>])"
proof -
  let ?es = "es[p := \<lparr>e_key = key, e_value = v, e_used = True\<rparr>]"
  have pos: "0 < length es" using p(1) by auto
  have st: "stops ?es k j = stops es k j" if "j \<noteq> p" for k j
    using that by (simp add: stops_def)
  have free: "stops es k p" for k using nu by (simp add: stops_def)
  have keep: "first_stop ?es k i e"
    if f: "first_stop es k i e" and n: "(i + e) mod length es \<noteq> p \<or> k = key" for k i e
    unfolding first_stop_def length_list_update
  proof (intro conjI allI impI)
    show "stops ?es k ((i + e) mod length es)"
      using n f p(1) by (cases "(i + e) mod length es = p") (auto simp: first_stop_def stops_def)
    fix e' assume "e' < e"
    with f have "\<not> stops es k ((i + e') mod length es)" by (simp add: first_stop_def)
    with free have "(i + e') mod length es \<noteq> p" by metis
    with st \<open>\<not> stops es k _\<close> show "\<not> stops ?es k ((i + e') mod length es)" by simp
  qed
  show ?thesis
    unfolding chained_def length_list_update
  proof (intro allI impI)
    fix j assume j: "j < length es" and u: "e_used (?es ! j)"
    show "\<exists>d<length es. j = (home (length es) (e_key (?es ! j)) + d) mod length es \<and>
           first_stop ?es (e_key (?es ! j)) (home (length es) (e_key (?es ! j))) d"
    proof (cases "j = p")
      case True
      have "first_stop ?es key (home (length es) key) d" using keep [OF fs] by blast
      with True p show ?thesis by auto
    next
      case False
      with u ch j obtain e where e: "e < length es" "j = (home (length es) (e_key (es ! j)) + e) mod length es"
        "first_stop es (e_key (es ! j)) (home (length es) (e_key (es ! j))) e"
        by (auto simp: chained_def)
      from keep [OF e(3)] e(2) False have
        "first_stop ?es (e_key (es ! j)) (home (length es) (e_key (es ! j))) e" by metis
      with e(1,2) False show ?thesis by auto
    qed
  qed
qed

lemma tmap_holds:
  assumes "tbl_ok t" "tbl_room t"
  shows "tmap t key = Some v \<longleftrightarrow> (\<exists>j. holds (entry t) key j \<and> e_value (entry t ! j) = v)"
proof (cases "\<exists>j. holds (entry t) key j")
  case True
  then obtain j where j: "holds (entry t) key j" by blast
  have g: "tmap t key = Some (e_value (entry t ! j'))" if "holds (entry t) key j'" for j'
    using table_get_holds [OF assms(1) that] by (simp add: tmap_def)
  from g [OF j] g j show ?thesis by (metis option.inject)
next
  case False
  then show ?thesis using table_get_absent [OF assms] by (simp add: tmap_def)
qed


text \<open>
  Insertion, both branches at once: the table stays well formed, counts one key
  more exactly when the key was new, and the map it denotes is updated at the key.
\<close>

lemma table_put_step:
  assumes ok: "tbl_ok t" and room: "unat (used t) + 1 < unat (cap t)"
  obtains t' where "table_put t key v = Some t'" "tbl_ok t'" "cap t' = cap t"
    "unat (used t') \<le> unat (used t) + 1" "tmap t' = (tmap t)(key \<mapsto> v)"
proof (cases "\<exists>j. holds (entry t) key j")
  case True
  then obtain j where h: "holds (entry t) key j" by blast
  define t' where "t' = t\<lparr>entry := (entry t)[j := (entry t ! j)\<lparr>e_value := v\<rparr>]\<rparr>"
  have put: "table_put t key v = Some t'"
    using table_put_present [OF ok h] by (simp add: t'_def)
  have jl: "j < length (entry t)" and ju: "e_used (entry t ! j)" "e_key (entry t ! j) = key"
    using h by (simp_all add: holds_def)
  have "chained (entry t') = chained (entry t)"
    by (rule chained_same_keys) (auto simp: t'_def nth_list_update jl)
  then have ch: "chained (entry t')" using ok by (simp add: tbl_ok_def)
  have nu: "n_used (entry t') = n_used (entry t)"
    using n_used_update [OF jl, of "(entry t ! j)\<lparr>e_value := v\<rparr>"] ju by (simp add: t'_def)
  have ok': "tbl_ok t'"
    using ok ch nu by (simp add: tbl_ok_def t'_def)
  have rt: "tbl_room t" "tbl_room t'" using room by (simp_all add: tbl_room_def t'_def)
  have one: "j' = j" if "holds (entry t) key j'" for j'
    using probe_holds ok that h jl table_probe_total [OF ok jl, of key] ju
    by (metis (full_types) stops_def tbl_ok_def)
  have hs: "holds (entry t') k jj = holds (entry t) k jj" for k jj
    using jl by (auto simp: t'_def holds_def nth_list_update)
  have vs: "e_value (entry t' ! jj) = (if jj = j then v else e_value (entry t ! jj))" for jj
    using jl by (simp add: t'_def nth_list_update)
  have "tmap t' = (tmap t)(key \<mapsto> v)"
  proof
    fix k
    have "tmap t' k = Some w \<longleftrightarrow> ((tmap t)(key \<mapsto> v)) k = Some w" for w
    proof (cases "k = key")
      case True
      have "tmap t' key = Some w \<longleftrightarrow> w = v"
        unfolding tmap_holds [OF ok' rt(2)] hs vs using one h by metis
      with True show ?thesis by (simp add: eq_commute)
    next
      case False
      then have "\<not> holds (entry t) k j" using ju by (simp add: holds_def)
      then have "tmap t' k = Some w \<longleftrightarrow> tmap t k = Some w"
        unfolding tmap_holds [OF ok' rt(2)] tmap_holds [OF ok rt(1)] hs vs by auto
      with False show ?thesis by simp
    qed
    then show "tmap t' k = ((tmap t)(key \<mapsto> v)) k" by (metis option.exhaust)
  qed
  with put ok' that show thesis by (simp add: t'_def)
next
  case False
  have rt: "tbl_room t" using room by (simp add: tbl_room_def)
  obtain p d where p: "p < length (entry t)" "d < length (entry t)"
    "p = (home (length (entry t)) key + d) mod length (entry t)"
    "first_stop (entry t) key (home (length (entry t)) key) d" "\<not> e_used (entry t ! p)"
    and put: "table_put t key v = Some (t\<lparr>entry := (entry t)[p := \<lparr>e_key = key, e_value = v, e_used = True\<rparr>],
                                used := used t + 1\<rparr>)"
    using table_put_absent [OF ok rt, of key v] False by metis
  define t' where "t' = t\<lparr>entry := (entry t)[p := \<lparr>e_key = key, e_value = v, e_used = True\<rparr>],
                                used := used t + 1\<rparr>"
  have ch: "chained (entry t')"
    using chained_insert [OF _ p, of v] ok by (simp add: t'_def tbl_ok_def)
  have nu: "n_used (entry t') = n_used (entry t) + 1"
    using n_used_update [OF p(1), of "\<lparr>e_key = key, e_value = v, e_used = True\<rparr>"] p(5)
    by (simp add: t'_def)
  have "unat (used t + 1) = unat (used t) + 1"
    using room unat_u64_bound [of "cap t"] by (subst unat_add_no_wrap) (simp_all del: unat_u64_bound)
  then have ok': "tbl_ok t'" and us: "unat (used t') = unat (used t) + 1"
    using ok ch nu room by (simp_all add: tbl_ok_def t'_def)
  have rt': "tbl_room t'" using room us by (simp add: tbl_room_def t'_def)
  have "tmap t' = (tmap t)(key \<mapsto> v)"
  proof
    fix k
    have "tmap t' k = Some w \<longleftrightarrow> ((tmap t)(key \<mapsto> v)) k = Some w" for w
      unfolding tmap_holds [OF ok' rt'] fun_upd_apply
      using tmap_holds [OF ok rt, of k w] False p(1,5)
      by (auto simp: t'_def holds_def nth_list_update)
    then show "tmap t' k = ((tmap t)(key \<mapsto> v)) k" by (metis option.exhaust)
  qed
  with put ok' us that show thesis by (simp add: t'_def)
qed

lemma tmap_get:
  assumes "tbl_ok t" "tbl_room t"
  shows "table_get t key = Some (tmap t key)"
proof (cases "\<exists>j. holds (entry t) key j")
  case True
  then show ?thesis using table_get_holds [OF assms(1)] by (auto simp: tmap_def)
next
  case False
  then show ?thesis using table_get_absent [OF assms] by (simp add: tmap_def)
qed


text \<open>A fresh table is empty, well formed and has room for every expected key.\<close>

lemma table_init_ok:
  assumes "unat expected < 2 ^ 62 - 8"
  obtains t where "table_init expected = Some t" "tbl_ok t" "tmap t = Map.empty" "used t = 0"
    "2 * unat expected + 16 \<le> unat (cap t)"
proof -
  have "unat (expected * 2 + 16) = unat expected * 2 + 16"
    using assms by (simp add: unat_word_ariths)
  moreover from this assms have "unat (expected * 2 + 16) \<le> 2 ^ 63" by simp
  ultimately obtain j where j: "j \<le> 63" "next_pow2 (expected * 2 + 16) = Some (2 ^ j)"
    "unat expected * 2 + 16 \<le> 2 ^ j"
    using next_pow2_correct by metis
  define t where "t = \<lparr>entry = replicate (unat (2 ^ j :: u64)) empty_entry, cap = 2 ^ j, used = 0\<rparr>"
  have uj: "unat (2 ^ j :: u64) = 2 ^ j" using j(1) by (simp add: unat_pow2_u64)
  have nu: "n_used (replicate n empty_entry) = 0" for n
    by (simp add: n_used_def empty_entry_def)
  have ch: "chained (replicate n empty_entry)" for n
    by (simp add: chained_def empty_entry_def)
  have ok: "tbl_ok t" using j(1) uj nu ch by (auto simp: tbl_ok_def t_def)
  have room: "tbl_room t" using j(3) uj by (simp add: tbl_room_def t_def)
  have "tmap t k = None" for k
    using tmap_holds [OF ok room, of k]
    by (cases "tmap t k") (auto simp: holds_def t_def empty_entry_def)
  then have "tmap t = Map.empty" by (simp add: fun_eq_iff)
  with j ok uj that show thesis by (simp add: table_init_def t_def)
qed

section \<open>The interface the tokenizer uses\<close>

fun put_list :: "('t \<Rightarrow> byte list \<Rightarrow> u32 \<Rightarrow> 't option) \<Rightarrow> 't \<Rightarrow> (byte list \<times> u32) list \<Rightarrow> 't option" where
  "put_list put t [] = Some t"
| "put_list put t ((k, v) # kvs) =
     (case put t k v of None \<Rightarrow> None | Some t' \<Rightarrow> put_list put t' kvs)"

locale str_map =
  fixes put :: "'t \<Rightarrow> byte list \<Rightarrow> u32 \<Rightarrow> 't option"
    and get :: "'t \<Rightarrow> byte list \<Rightarrow> u32 option option"
    and abs :: "'t \<Rightarrow> byte list \<Rightarrow> u32 option"
    and ok :: "'t \<Rightarrow> bool"
    and room :: "'t \<Rightarrow> nat"
  assumes put_law: "ok t \<Longrightarrow> 0 < room t \<Longrightarrow>
      \<exists>t'. put t k v = Some t' \<and> ok t' \<and> room t \<le> Suc (room t') \<and> abs t' = (abs t)(k \<mapsto> v)"
    and get_law: "ok t \<Longrightarrow> get t k = Some (abs t k)"
begin

lemma put_list_law:
  "ok t \<Longrightarrow> length kvs \<le> room t \<Longrightarrow>
     \<exists>t'. put_list put t kvs = Some t' \<and> ok t' \<and> room t \<le> length kvs + room t' \<and>
          abs t' = abs t ++ map_of (rev kvs)"
proof (induction kvs arbitrary: t)
  case Nil
  then show ?case by simp
next
  case (Cons kv kvs)
  obtain k v where kv: "kv = (k, v)" by fastforce
  from put_law [OF Cons.prems(1), of k v] Cons.prems(2) obtain t1 where
    t1: "put t k v = Some t1" "ok t1" "room t \<le> Suc (room t1)" "abs t1 = (abs t)(k \<mapsto> v)" by auto
  with Cons.prems(2) have "length kvs \<le> room t1" by simp
  from Cons.IH [OF t1(2) this] obtain t' where
    "put_list put t1 kvs = Some t'" "ok t'" "room t1 \<le> length kvs + room t'"
    "abs t' = abs t1 ++ map_of (rev kvs)" by auto
  with t1 kv show ?case by auto
qed

lemma get_after_puts:
  assumes "ok t" "length kvs \<le> room t" "put_list put t kvs = Some t'"
  shows "get t' k = Some ((abs t ++ map_of (rev kvs)) k)"
  using put_list_law [OF assms(1,2)] assms(3) get_law by auto

end

definition table_ready :: "str_i32_table \<Rightarrow> bool" where
  "table_ready t \<longleftrightarrow> tbl_ok t \<and> tbl_room t"

definition table_left :: "str_i32_table \<Rightarrow> nat" where
  "table_left t = unat (cap t) - unat (used t) - 1"

interpretation htab: str_map table_put table_get tmap table_ready table_left
proof unfold_locales
  fix t k v assume ok: "table_ready t" and left: "0 < table_left t"
  then have "unat (used t) + 1 < unat (cap t)" by (simp add: table_left_def)
  with ok obtain t' where "table_put t k v = Some t'" "tbl_ok t'" "cap t' = cap t"
    "unat (used t') \<le> unat (used t) + 1" "tmap t' = (tmap t)(k \<mapsto> v)"
    using table_put_step by (metis table_ready_def)
  then show "\<exists>t'. table_put t k v = Some t' \<and> table_ready t' \<and>
      table_left t \<le> Suc (table_left t') \<and> tmap t' = (tmap t)(k \<mapsto> v)"
    using \<open>unat (used t) + 1 < unat (cap t)\<close>
    by (intro exI [of _ t']) (auto simp: table_ready_def tbl_room_def table_left_def)
next
  fix t k assume "table_ready t"
  then show "table_get t k = Some (tmap t k)" by (simp add: table_ready_def tmap_get)
qed

section \<open>Properties of the table\<close>

text \<open>
  Claim C2. The hash table refines a finite map.  Filling a fresh table with at most
  the expected number of keys always returns (no probe runs for ever), and afterwards
  every lookup returns the last value stored under the key and nothing for a key
  never stored.
\<close>

theorem table_refines_map:
  assumes "unat expected < 2 ^ 62 - 8" and "length kvs \<le> unat expected"
  shows "\<exists>t t'. table_init expected = Some t \<and> put_list table_put t kvs = Some t' \<and>
     (\<forall>key. table_get t' key = Some (map_of (rev kvs) key))"
proof -
  from table_init_ok [OF assms(1)] obtain t where t: "table_init expected = Some t" "tbl_ok t"
    "tmap t = Map.empty" "used t = 0" "2 * unat expected + 16 \<le> unat (cap t)" .
  then have rdy: "table_ready t" by (simp add: table_ready_def tbl_room_def)
  have len: "length kvs \<le> table_left t" using t(4,5) assms(2) by (simp add: table_left_def)
  from htab.put_list_law [OF rdy len] obtain t' where p: "put_list table_put t kvs = Some t'" by blast
  from htab.get_after_puts [OF rdy len p] t(3) have "\<forall>key. table_get t' key = Some (map_of (rev kvs) key)"
    by simp
  with t(1) p show ?thesis by blast
qed

theorem table_refines_map_witness:
  "\<exists>t t'. table_init 2 = Some t \<and> put_list table_put t [(ascii ''a'', 7), (ascii ''a'', 9)] = Some t' \<and>
     (\<forall>key. table_get t' key = Some (map_of (rev [(ascii ''a'', 7), (ascii ''a'', 9)]) key))"
  by (rule table_refines_map) simp_all

end
