(* ===== verification/Ds4_Tokenizer.thy ===== *)
theory Ds4_Tokenizer
  imports Ds4_Strtable Ds4_Gguf "HOL-Library.Monad_Syntax"
begin

text \<open>
  The tokenizer, \<^verbatim>\<open>src/tokenizer/ds4_tokenizer.c\<close>: the GPT-2 byte alphabet, the
  byte-pair merge loop, the JoyAI pre-tokenizer, the vocabulary load, the chat
  prompt encoders and the way back from token ids to bytes.

  Text is the list of bytes before the terminating NUL.  Where the C code keeps a
  position into the text, the model keeps the remaining suffix; a step that moves
  the position by \<open>n\<close> drops \<open>n\<close> bytes.  A table probe may in principle run for
  ever (see \<open>Ds4_Strtable\<close>), so every function that looks something up returns an
  option, \<open>None\<close> meaning that the call does not return; token vectors are lists
  (their doubling storage is not modelled).
\<close>

section \<open>UTF-8 and the byte alphabet\<close>

definition utf8_put :: "u32 \<Rightarrow> byte list" where
  "utf8_put cp =
     (if cp \<le> 0x7f then [ucast cp]
      else if cp \<le> 0x7ff then
        [ucast (0xc0 OR drop_bit 6 cp), ucast (0x80 OR (cp AND 0x3f))]
      else if cp \<le> 0xffff then
        [ucast (0xe0 OR drop_bit 12 cp), ucast (0x80 OR (drop_bit 6 cp AND 0x3f)),
         ucast (0x80 OR (cp AND 0x3f))]
      else
        [ucast (0xf0 OR drop_bit 18 cp), ucast (0x80 OR (drop_bit 12 cp AND 0x3f)),
         ucast (0x80 OR (drop_bit 6 cp AND 0x3f)), ucast (0x80 OR (cp AND 0x3f))])"

definition gpt2_printable :: "u32 \<Rightarrow> bool" where
  "gpt2_printable x \<longleftrightarrow> (x \<ge> 33 \<and> x \<le> 126) \<or> (x \<ge> 161 \<and> x \<le> 172) \<or> x \<ge> 174"

text \<open>The loop over \<open>x = 0, 1, \<dots>, 255\<close> with the counter \<open>n\<close> of skipped bytes.\<close>

fun gpt2_rank_loop :: "nat \<Rightarrow> u32 \<Rightarrow> u32 \<Rightarrow> u32 \<Rightarrow> u32" where
  "gpt2_rank_loop 0 x n b = 256 + n"
| "gpt2_rank_loop (Suc k) x n b =
     (if gpt2_printable x then gpt2_rank_loop k (x + 1) n b
      else if x = b then 256 + n
      else gpt2_rank_loop k (x + 1) (n + 1) b)"

definition gpt2_byte_to_codepoint :: "byte \<Rightarrow> u32" where
  "gpt2_byte_to_codepoint b =
     (if gpt2_printable (ucast b) then ucast b else gpt2_rank_loop 256 0 0 (ucast b))"

definition byte_encode :: "byte list \<Rightarrow> byte list" where
  "byte_encode bs = concat (map (\<lambda>b. utf8_put (gpt2_byte_to_codepoint b)) bs)"

definition utf8_len_from_first_byte :: "byte \<Rightarrow> nat" where
  "utf8_len_from_first_byte c =
     (if c < 0x80 then 1
      else if c AND 0xe0 = 0xc0 then 2
      else if c AND 0xf0 = 0xe0 then 3
      else if c AND 0xf8 = 0xf0 then 4
      else 1)"

text \<open>How far \<^verbatim>\<open>next_utf8_char\<close> moves from the start of the suffix \<open>s\<close>.\<close>

definition next_utf8_char :: "byte list \<Rightarrow> nat" where
  "next_utf8_char s =
     (let n = utf8_len_from_first_byte (hd s) in if n > length s then 1 else n)"

lemma utf8_len_pos [simp]: "0 < utf8_len_from_first_byte c"
  by (simp add: utf8_len_from_first_byte_def)

lemma next_utf8_char_pos [simp]: "0 < next_utf8_char s"
  by (simp add: next_utf8_char_def Let_def)

lemma next_utf8_char_le: "s \<noteq> [] \<Longrightarrow> next_utf8_char s \<le> length s"
  by (cases s) (simp_all add: next_utf8_char_def Let_def)

section \<open>The vocabulary\<close>

record vocab =
  token :: "byte list list"
  n_vocab :: nat
  bos_id :: u32
  eos_id :: u32
  user_id :: u32
  assistant_id :: u32
  think_start_id :: u32
  think_end_id :: u32
  dsml_id :: u32
  token_to_id :: str_i32_table
  merge_rank :: str_i32_table

section \<open>Byte-pair merging\<close>

definition bpe_rank :: "vocab \<Rightarrow> byte list \<Rightarrow> byte list \<Rightarrow> u32 option" where
  "bpe_rank v a b =
     (case table_get (merge_rank v) (a @ [0x20] @ b) of
        None \<Rightarrow> None
      | Some None \<Rightarrow> Some (- 1)
      | Some (Some r) \<Rightarrow> Some r)"

function bpe_split :: "byte list \<Rightarrow> byte list list" where
  "bpe_split [] = []"
| "bpe_split (c # cs) =
     (let n = next_utf8_char (c # cs)
      in take n (c # cs) # bpe_split (drop n (c # cs)))"
  by pat_completeness auto
termination
  by (relation "measure length") (auto simp: Suc_diff_le)

text \<open>
  The scan for the best pair: \<open>i\<close> is the index of the first symbol in view,
  \<open>best_i\<close> the best position so far (\<open>None\<close> for \<open>-1\<close>) and \<open>best_rank\<close> its rank.
\<close>

fun bpe_best :: "vocab \<Rightarrow> nat \<Rightarrow> byte list list \<Rightarrow> nat option \<Rightarrow> int \<Rightarrow> nat option option" where
  "bpe_best v i (a # b # syms) best_i best_rank =
     do {
       rank \<leftarrow> bpe_rank v a b;
       if 0 \<le> sint rank \<and> sint rank < best_rank
       then bpe_best v (Suc i) (b # syms) (Some i) (sint rank)
       else bpe_best v (Suc i) (b # syms) best_i best_rank
     }"
| "bpe_best v i syms best_i best_rank = Some best_i"

definition bpe_merge_at :: "nat \<Rightarrow> byte list list \<Rightarrow> byte list list" where
  "bpe_merge_at i syms = take i syms @ [syms ! i @ syms ! Suc i] @ drop (Suc (Suc i)) syms"

lemma bpe_best_bound:
  "bpe_best v i syms bi br = Some (Some j) \<Longrightarrow> bi = Some j \<or> (i \<le> j \<and> Suc j < i + length syms)"
proof (induction v i syms bi br rule: bpe_best.induct)
  case (1 v i a b syms bi br)
  obtain rank where r: "bpe_rank v a b = Some rank"
    using "1.prems" by (cases "bpe_rank v a b") auto
  show ?case
  proof (cases "0 \<le> sint rank \<and> sint rank < br")
    case True
    with "1.prems" r have "bpe_best v (Suc i) (b # syms) (Some i) (sint rank) = Some (Some j)" by simp
    from "1.IH"(1) [OF r True this] show ?thesis by auto
  next
    case False
    with "1.prems" r have "bpe_best v (Suc i) (b # syms) bi br = Some (Some j)" by simp
    from "1.IH"(2) [OF r False this] show ?thesis by auto
  qed
qed simp_all

function bpe_merge :: "vocab \<Rightarrow> byte list list \<Rightarrow> byte list list option" where
  "bpe_merge v syms =
     (case bpe_best v 0 syms None 2147483647 of
        None \<Rightarrow> None
      | Some None \<Rightarrow> Some syms
      | Some (Some i) \<Rightarrow> bpe_merge v (bpe_merge_at i syms))"
  by pat_completeness auto
termination
proof (relation "measure (\<lambda>(v, syms). length syms)")
  fix v syms x i
  assume "bpe_best v 0 syms None 2147483647 = Some x" "x = Some i"
  then have "Suc i < length syms" using bpe_best_bound by fastforce
  then show "((v, bpe_merge_at i syms), (v, syms)) \<in> measure (\<lambda>(v, syms). length syms)"
    by (simp add: bpe_merge_at_def)
qed simp

declare bpe_merge.simps [simp del]

fun bpe_emit_bytes :: "vocab \<Rightarrow> byte list \<Rightarrow> u32 list \<Rightarrow> u32 list option" where
  "bpe_emit_bytes v [] out = Some out"
| "bpe_emit_bytes v (b # bs) out =
     do {
       r \<leftarrow> table_get (token_to_id v) [b];
       bpe_emit_bytes v bs (case r of Some t \<Rightarrow> out @ [t] | None \<Rightarrow> out)
     }"

fun bpe_emit_syms :: "vocab \<Rightarrow> byte list list \<Rightarrow> u32 list \<Rightarrow> u32 list option" where
  "bpe_emit_syms v [] out = Some out"
| "bpe_emit_syms v (s # ss) out =
     do {
       r \<leftarrow> table_get (token_to_id v) s;
       out' \<leftarrow> (case r of Some t \<Rightarrow> Some (out @ [t]) | None \<Rightarrow> bpe_emit_bytes v s out);
       bpe_emit_syms v ss out'
     }"

definition bpe_emit_piece :: "vocab \<Rightarrow> byte list \<Rightarrow> u32 list \<Rightarrow> u32 list option" where
  "bpe_emit_piece v raw out =
     do {
       syms \<leftarrow> bpe_merge v (bpe_split (byte_encode raw));
       bpe_emit_syms v syms out
     }"


section \<open>The JoyAI pre-tokenizer\<close>

definition ascii_alpha :: "byte \<Rightarrow> bool" where
  "ascii_alpha c \<longleftrightarrow> (c \<ge> 0x41 \<and> c \<le> 0x5a) \<or> (c \<ge> 0x61 \<and> c \<le> 0x7a)"

definition ascii_digit :: "byte \<Rightarrow> bool" where
  "ascii_digit c \<longleftrightarrow> c \<ge> 0x30 \<and> c \<le> 0x39"

definition ascii_space :: "byte \<Rightarrow> bool" where
  "ascii_space c \<longleftrightarrow> c = 0x20 \<or> c = 9 \<or> c = 10 \<or> c = 13 \<or> c = 11 \<or> c = 12"

definition ascii_newline :: "byte \<Rightarrow> bool" where
  "ascii_newline c \<longleftrightarrow> c = 10 \<or> c = 13"

definition joyai_ascii_punct_symbol :: "byte \<Rightarrow> bool" where
  "joyai_ascii_punct_symbol c \<longleftrightarrow>
     (c \<ge> 0x21 \<and> c \<le> 0x2f) \<or> (c \<ge> 0x3a \<and> c \<le> 0x40) \<or>
     (c \<ge> 0x5b \<and> c \<le> 0x60) \<or> (c \<ge> 0x7b \<and> c \<le> 0x7e)"

definition utf8_is_cjk_hira_kata :: "u32 \<Rightarrow> bool" where
  "utf8_is_cjk_hira_kata cp \<longleftrightarrow>
     (cp \<ge> 0x4e00 \<and> cp \<le> 0x9fa5) \<or> (cp \<ge> 0x3040 \<and> cp \<le> 0x309f) \<or>
     (cp \<ge> 0x30a0 \<and> cp \<le> 0x30ff)"

definition utf8_peek_one :: "byte list \<Rightarrow> u32" where
  "utf8_peek_one s =
     (let c0 = hd s; n = next_utf8_char s; at = (\<lambda>i. ucast (s ! i AND 0x3f))
      in if n = 1 then ucast c0
         else if n = 2 then push_bit 6 (ucast (c0 AND 0x1f)) OR at 1
         else if n = 3 then push_bit 12 (ucast (c0 AND 0x0f)) OR push_bit 6 (at 1) OR at 2
         else push_bit 18 (ucast (c0 AND 0x07)) OR push_bit 12 (at 1) OR push_bit 6 (at 2) OR at 3)"

definition joyai_letter_like_at :: "byte list \<Rightarrow> bool" where
  "joyai_letter_like_at s = (let c = hd s in if c < 128 then ascii_alpha c else True)"

function joyai_consume_letters :: "byte list \<Rightarrow> nat" where
  "joyai_consume_letters s =
     (if s \<noteq> [] \<and> joyai_letter_like_at s
      then next_utf8_char s + joyai_consume_letters (drop (next_utf8_char s) s)
      else 0)"
  by pat_completeness auto
termination
  by (relation "measure length") (auto simp: diff_less)

definition joyai_cjk_at :: "byte list \<Rightarrow> bool" where
  "joyai_cjk_at s = (if hd s < 128 then False else utf8_is_cjk_hira_kata (utf8_peek_one s))"

text \<open>The body of the do-while: the first character is taken before the condition is tested.\<close>

function joyai_consume_cjk :: "byte list \<Rightarrow> nat" where
  "joyai_consume_cjk s =
     (let n = next_utf8_char s; r = drop n s
      in if r \<noteq> [] \<and> joyai_cjk_at r then n + joyai_consume_cjk r else n)"
  by pat_completeness auto
termination
  by (relation "measure length") (auto simp: diff_less intro: diff_less)

declare joyai_consume_letters.simps [simp del] joyai_consume_cjk.simps [simp del]

text \<open>\<^verbatim>\<open>while (pos < len && p(text[pos])) pos++\<close>: how far the loop moves.\<close>

fun consume_while :: "(byte \<Rightarrow> bool) \<Rightarrow> byte list \<Rightarrow> nat" where
  "consume_while p [] = 0"
| "consume_while p (c # cs) = (if p c then Suc (consume_while p cs) else 0)"

fun consume_digits :: "nat \<Rightarrow> byte list \<Rightarrow> nat" where
  "consume_digits ndigits [] = 0"
| "consume_digits ndigits (c # cs) =
     (if ascii_digit c \<and> ndigits < 3 then Suc (consume_digits (Suc ndigits) cs) else 0)"

text \<open>
  The whitespace scan: \<open>p\<close> is the length of the run so far and \<open>nl\<close> the end of the
  last newline in it (0 for none).
\<close>

fun scan_space :: "nat \<Rightarrow> nat \<Rightarrow> byte list \<Rightarrow> nat \<times> nat" where
  "scan_space p nl [] = (p, nl)"
| "scan_space p nl (c # cs) =
     (if ascii_space c then scan_space (Suc p) (if ascii_newline c then Suc p else nl) cs
      else (p, nl))"

definition punct_run :: "byte list \<Rightarrow> nat" where
  "punct_run s =
     (let n = consume_while joyai_ascii_punct_symbol s
      in n + consume_while ascii_newline (drop n s))"

text \<open>One round of the main loop: the pieces it emits, which are what it consumes.\<close>

definition pretok_step :: "byte list \<Rightarrow> byte list list" where
  "pretok_step s =
     (let c = hd s; rest = tl s
      in if ascii_digit c then [take (consume_digits 0 s) s]
         else if joyai_cjk_at s then [take (joyai_consume_cjk s) s]
         else if joyai_ascii_punct_symbol c \<and> rest \<noteq> [] \<and> ascii_alpha (hd rest)
           then [take (Suc (consume_while ascii_alpha rest)) s]
         else if joyai_letter_like_at s then [take (joyai_consume_letters s) s]
         else if \<not> ascii_newline c \<and> \<not> joyai_ascii_punct_symbol c \<and> rest \<noteq> [] \<and> joyai_letter_like_at rest
           then [take (Suc (joyai_consume_letters rest)) s]
         else if c = 0x20 \<and> rest \<noteq> [] \<and> joyai_ascii_punct_symbol (hd rest)
           then [take (Suc (punct_run rest)) s]
         else if joyai_ascii_punct_symbol c then [take (punct_run s) s]
         else if ascii_space c then
           (case scan_space 0 0 s of
              (p, nl) \<Rightarrow>
                if nl \<noteq> 0
                then [take nl s] @ (if nl < p then [take (p - nl) (drop nl s)] else [])
                else [take p s])
         else [take 1 s])"

definition pretok_len :: "byte list \<Rightarrow> nat" where
  "pretok_len s = sum_list (map length (pretok_step s))"

text \<open>The run lengths stay inside the text.\<close>

lemma consume_while_le: "consume_while p s \<le> length s"
  by (induction p s rule: consume_while.induct) auto

lemma consume_digits_le: "consume_digits n s \<le> length s"
  by (induction n s rule: consume_digits.induct) auto

lemma joyai_consume_letters_le: "joyai_consume_letters s \<le> length s"
proof (induction s rule: joyai_consume_letters.induct)
  case (1 s)
  then show ?case
    using next_utf8_char_le [of s] by (subst joyai_consume_letters.simps) auto
qed

lemma joyai_consume_cjk_le: "s \<noteq> [] \<Longrightarrow> joyai_consume_cjk s \<le> length s"
proof (induction s rule: joyai_consume_cjk.induct)
  case (1 s)
  let ?n = "next_utf8_char s"
  have "joyai_consume_cjk (drop ?n s) \<le> length (drop ?n s)" if "drop ?n s \<noteq> []" "joyai_cjk_at (drop ?n s)"
    using "1.IH" [OF refl refl] that by simp
  then show ?case
    using next_utf8_char_le [OF "1.prems"] by (subst joyai_consume_cjk.simps) (auto simp: Let_def)
qed

lemma punct_run_le: "punct_run s \<le> length s"
  using consume_while_le [of joyai_ascii_punct_symbol s]
    consume_while_le [of ascii_newline "drop (consume_while joyai_ascii_punct_symbol s) s"]
  by (simp add: punct_run_def Let_def)

lemma scan_space_bounds:
  "scan_space p nl s = (p', nl') \<Longrightarrow> nl \<le> p \<Longrightarrow> nl' \<le> p' \<and> p \<le> p' \<and> p' \<le> p + length s"
  by (induction p nl s rule: scan_space.induct) (fastforce split: if_splits)+


text \<open>
  What one round emits is a non-empty prefix of the text, cut into non-empty pieces.
\<close>

definition splits_prefix :: "byte list list \<Rightarrow> byte list \<Rightarrow> bool" where
  "splits_prefix ps s \<longleftrightarrow> ps \<noteq> [] \<and> [] \<notin> set ps \<and> concat ps = take (sum_list (map length ps)) s"

lemma splits_prefix_take:
  "0 < n \<Longrightarrow> s \<noteq> [] \<Longrightarrow> n \<le> length s \<Longrightarrow> splits_prefix [take n s] s"
  by (simp add: splits_prefix_def)

lemma joyai_consume_letters_pos:
  "s \<noteq> [] \<Longrightarrow> joyai_letter_like_at s \<Longrightarrow> 0 < joyai_consume_letters s"
  by (subst joyai_consume_letters.simps) simp

lemma joyai_consume_cjk_pos: "0 < joyai_consume_cjk s"
  by (subst joyai_consume_cjk.simps) (simp add: Let_def)

lemma scan_space_first:
  "ascii_space c \<Longrightarrow> scan_space 0 0 (c # cs) = (p, nl) \<Longrightarrow> 0 < p \<and> nl \<le> p \<and> p \<le> Suc (length cs)"
  using scan_space_bounds [of "Suc 0" "if ascii_newline c then Suc 0 else 0" cs p nl]
  by (simp split: if_splits)

lemma pretok_step_space:
  assumes s: "s = c # cs" and sp: "ascii_space c" and sc: "scan_space 0 0 s = (p, nl)"
  shows "nl \<noteq> 0 \<Longrightarrow>
      splits_prefix ([take nl s] @ (if nl < p then [take (p - nl) (drop nl s)] else [])) s"
    "splits_prefix [take p s] s"
proof -
  from scan_space_first [OF sp, of cs p nl] sc s have b: "0 < p" "nl \<le> p" "p \<le> length s" by auto
  have "take nl s @ take (p - nl) (drop nl s) = take p s"
    using b(2) by (metis le_add_diff_inverse take_add)
  with b s show "nl \<noteq> 0 \<Longrightarrow>
      splits_prefix ([take nl s] @ (if nl < p then [take (p - nl) (drop nl s)] else [])) s"
    "splits_prefix [take p s] s" by (auto simp: splits_prefix_def)
qed

lemma splits_prefix_if:
  "(b \<Longrightarrow> splits_prefix x s) \<Longrightarrow> (\<not> b \<Longrightarrow> splits_prefix y s) \<Longrightarrow>
     splits_prefix (if b then x else y) s"
  by simp

lemma pretok_step_splits:
  assumes "s \<noteq> []"
  shows "splits_prefix (pretok_step s) s"
proof -
  obtain c cs where s: "s = c # cs" using assms by (cases s) auto
  have dig: "ascii_digit c \<Longrightarrow> 0 < consume_digits 0 s" by (simp add: s)
  have al: "Suc (consume_while ascii_alpha cs) \<le> length s"
    using consume_while_le [of ascii_alpha cs] by (simp add: s)
  have le: "Suc (joyai_consume_letters cs) \<le> length s" "Suc (punct_run cs) \<le> length s"
    using joyai_consume_letters_le [of cs] punct_run_le [of cs] by (simp_all add: s)
  have pu: "joyai_ascii_punct_symbol c \<Longrightarrow> 0 < punct_run s"
    by (simp add: s punct_run_def)
  obtain p nl where sc: "scan_space 0 0 s = (p, nl)" by fastforce
  note t = splits_prefix_take [OF _ assms]
  show ?thesis
    unfolding pretok_step_def Let_def sc prod.case
  proof (intro splits_prefix_if)
    assume "ascii_digit (hd s)"
    then show "splits_prefix [take (consume_digits 0 s) s] s"
      using t [OF dig consume_digits_le] by (simp add: s)
  next
    show "splits_prefix [take (joyai_consume_cjk s) s] s"
      by (rule t [OF joyai_consume_cjk_pos joyai_consume_cjk_le [OF assms]])
  next
    show "splits_prefix [take (Suc (consume_while ascii_alpha (tl s))) s] s"
      using t [OF zero_less_Suc al] by (simp add: s)
  next
    assume "joyai_letter_like_at s"
    then show "splits_prefix [take (joyai_consume_letters s) s] s"
      by (rule t [OF joyai_consume_letters_pos [OF assms] joyai_consume_letters_le])
  next
    show "splits_prefix [take (Suc (joyai_consume_letters (tl s))) s] s"
      using t [OF zero_less_Suc le(1)] by (simp add: s)
  next
    show "splits_prefix [take (Suc (punct_run (tl s))) s] s"
      using t [OF zero_less_Suc le(2)] by (simp add: s)
  next
    assume "joyai_ascii_punct_symbol (hd s)"
    then show "splits_prefix [take (punct_run s) s] s"
      using t [OF pu punct_run_le] by (simp add: s)
  next
    assume "ascii_space (hd s)" "nl \<noteq> 0"
    then show "splits_prefix ([take nl s] @ (if nl < p then [take (p - nl) (drop nl s)] else [])) s"
      using pretok_step_space(1) [OF s _ sc] s by simp
  next
    assume "ascii_space (hd s)"
    then show "splits_prefix [take p s] s"
      using pretok_step_space(2) [OF s _ sc] s by simp
  next
    show "splits_prefix [take 1 s] s" using t [of 1] by (simp add: s)
  qed
qed

lemma pretok_len_pos: "s \<noteq> [] \<Longrightarrow> 0 < pretok_len s"
  using pretok_step_splits [of s]
  by (cases "pretok_step s") (auto simp: splits_prefix_def pretok_len_def)

text \<open>The pieces of the whole text, in the order they are emitted.\<close>

function pretok :: "byte list \<Rightarrow> byte list list" where
  "pretok s = (if s = [] then [] else pretok_step s @ pretok (drop (pretok_len s) s))"
  by pat_completeness auto
termination
  by (relation "measure length") (auto simp: pretok_len_pos diff_less)

declare pretok.simps [simp del]

fun bpe_emit_pieces :: "vocab \<Rightarrow> byte list list \<Rightarrow> u32 list \<Rightarrow> u32 list option" where
  "bpe_emit_pieces v [] out = Some out"
| "bpe_emit_pieces v (p # ps) out =
     do { out' \<leftarrow> bpe_emit_piece v p out; bpe_emit_pieces v ps out' }"

definition bpe_tokenize_text :: "vocab \<Rightarrow> byte list \<Rightarrow> u32 list \<Rightarrow> u32 list option" where
  "bpe_tokenize_text v text out = bpe_emit_pieces v (pretok text) out"


section \<open>Loading the vocabulary\<close>

definition tok_bos :: "byte list" where
  "tok_bos = [0x3c, 0xef, 0xbd, 0x9c] @ ascii ''begin'' @ [0xe2, 0x96, 0x81] @ ascii ''of'' @
     [0xe2, 0x96, 0x81] @ ascii ''sentence'' @ [0xef, 0xbd, 0x9c, 0x3e]"

definition tok_eos :: "byte list" where
  "tok_eos = [0x3c, 0xef, 0xbd, 0x9c] @ ascii ''end'' @ [0xe2, 0x96, 0x81] @ ascii ''of'' @
     [0xe2, 0x96, 0x81] @ ascii ''sentence'' @ [0xef, 0xbd, 0x9c, 0x3e]"

definition tok_user :: "byte list" where
  "tok_user = [0x3c, 0xef, 0xbd, 0x9c] @ ascii ''User'' @ [0xef, 0xbd, 0x9c, 0x3e]"

definition tok_assistant :: "byte list" where
  "tok_assistant = [0x3c, 0xef, 0xbd, 0x9c] @ ascii ''Assistant'' @ [0xef, 0xbd, 0x9c, 0x3e]"

definition tok_think_start :: "byte list" where "tok_think_start = ascii ''<think>''"

definition tok_think_end :: "byte list" where "tok_think_end = ascii ''</think>''"

definition tok_dsml :: "byte list" where
  "tok_dsml = [0xef, 0xbd, 0x9c] @ ascii ''DSML'' @ [0xef, 0xbd, 0x9c]"

definition vocab_lookup :: "str_i32_table \<Rightarrow> byte list \<Rightarrow> (die + u32) option" where
  "vocab_lookup t text =
     (case table_get t text of
        None \<Rightarrow> None
      | Some None \<Rightarrow> Some (Inl (DieMissing text))
      | Some (Some tok) \<Rightarrow> Some (Inr tok))"

text \<open>\<open>i\<close> is the index of the next token; the strings read so far are kept in order.\<close>

fun load_tokens :: "nat \<Rightarrow> nat \<Rightarrow> cursor \<Rightarrow> byte list list \<Rightarrow> str_i32_table
    \<Rightarrow> (die + (byte list list \<times> str_i32_table)) option" where
  "load_tokens 0 i c toks t = Some (Inr (toks, t))"
| "load_tokens (Suc n) i c toks t =
     (case cursor_string c of
        (None, c') \<Rightarrow> Some (Inl (DieCursor (cerror c')))
      | (Some s, c') \<Rightarrow>
          (case table_put t s (of_nat i) of
             None \<Rightarrow> None
           | Some t' \<Rightarrow> load_tokens n (Suc i) c' (toks @ [s]) t'))"

fun load_merges :: "nat \<Rightarrow> nat \<Rightarrow> cursor \<Rightarrow> str_i32_table \<Rightarrow> (die + str_i32_table) option" where
  "load_merges 0 i c t = Some (Inr t)"
| "load_merges (Suc n) i c t =
     (case cursor_string c of
        (None, c') \<Rightarrow> Some (Inl (DieCursor (cerror c')))
      | (Some s, c') \<Rightarrow>
          (case table_put t s (of_nat i) of
             None \<Rightarrow> None
           | Some t' \<Rightarrow> load_merges n (Suc i) c' t'))"

definition lookup_specials :: "vocab \<Rightarrow> (die + vocab) option" where
  "lookup_specials v =
     (let look = (\<lambda>text set v. case v of
            None \<Rightarrow> None
          | Some (Inl e) \<Rightarrow> Some (Inl e)
          | Some (Inr v) \<Rightarrow>
              (case vocab_lookup (token_to_id v) text of
                 None \<Rightarrow> None
               | Some (Inl e) \<Rightarrow> Some (Inl e)
               | Some (Inr tok) \<Rightarrow> Some (Inr (set tok v))))
      in look tok_dsml (\<lambda>tok. dsml_id_update (\<lambda>_. tok))
        (look tok_think_end (\<lambda>tok. think_end_id_update (\<lambda>_. tok))
        (look tok_think_start (\<lambda>tok. think_start_id_update (\<lambda>_. tok))
        (look tok_assistant (\<lambda>tok. assistant_id_update (\<lambda>_. tok))
        (look tok_user (\<lambda>tok. user_id_update (\<lambda>_. tok))
        (look tok_eos (\<lambda>tok. eos_id_update (\<lambda>_. tok))
        (look tok_bos (\<lambda>tok. bos_id_update (\<lambda>_. tok)) (Some (Inr v)))))))))"

definition vocab_load :: "model \<Rightarrow> (die + vocab) option" where
  "vocab_load m =
     (case model_get_array m ''tokenizer.ggml.tokens'' of
        None \<Rightarrow> Some (Inl (Die ''GGUF tokenizer token table is missing or invalid''))
      | Some toks \<Rightarrow>
     if arr_type toks \<noteq> GGUF_VALUE_STRING \<or> arr_len toks > 2147483647
     then Some (Inl (Die ''GGUF tokenizer token table is missing or invalid''))
     else
     (case model_get_array m ''tokenizer.ggml.merges'' of
        None \<Rightarrow> Some (Inl (Die ''GGUF tokenizer merge table is missing or invalid''))
      | Some mrg \<Rightarrow>
     if arr_type mrg \<noteq> GGUF_VALUE_STRING
     then Some (Inl (Die ''GGUF tokenizer merge table is missing or invalid''))
     else
     (case table_init (arr_len toks) of
        None \<Rightarrow> None
      | Some t0 \<Rightarrow>
     (case load_tokens (unat (arr_len toks)) 0 (cursor_at m (arr_data_pos toks)) [] t0 of
        None \<Rightarrow> None
      | Some (Inl e) \<Rightarrow> Some (Inl e)
      | Some (Inr (strs, t1)) \<Rightarrow>
     (case table_init (arr_len mrg) of
        None \<Rightarrow> None
      | Some m0 \<Rightarrow>
     (case load_merges (unat (arr_len mrg)) 0 (cursor_at m (arr_data_pos mrg)) m0 of
        None \<Rightarrow> None
      | Some (Inl e) \<Rightarrow> Some (Inl e)
      | Some (Inr m1) \<Rightarrow>
          lookup_specials
            \<lparr>token = strs, n_vocab = unat (arr_len toks), bos_id = 0, eos_id = 0, user_id = 0,
             assistant_id = 0, think_start_id = 0, think_end_id = 0, dsml_id = 0,
             token_to_id = t1, merge_rank = m1\<rparr>))))))"

section \<open>Chat prompts\<close>

datatype think_mode = DS4_THINK_NONE | DS4_THINK_HIGH | DS4_THINK_MAX

definition ds4_think_mode_enabled :: "think_mode \<Rightarrow> bool" where
  "ds4_think_mode_enabled mode \<longleftrightarrow> mode = DS4_THINK_HIGH \<or> mode = DS4_THINK_MAX"

definition DS4_REASONING_EFFORT_MAX_PREFIX :: "byte list" where
  "DS4_REASONING_EFFORT_MAX_PREFIX =
     ascii ''Reasoning Effort: Absolute maximum with no shortcuts permitted.'' @ [10] @
     ascii ''You MUST be very thorough in your thinking and comprehensively decompose the problem to resolve the root cause, rigorously stress-testing your logic against all potential paths, edge cases, and adversarial scenarios.'' @ [10] @
     ascii ''Explicitly write out your entire deliberation process, documenting every intermediate step, considered alternative, and rejected hypothesis to ensure absolutely no assumption is left unchecked.'' @ [10, 10]"

definition encode_chat_prompt :: "vocab \<Rightarrow> byte list option \<Rightarrow> byte list \<Rightarrow> think_mode \<Rightarrow> u32 list \<Rightarrow> u32 list option" where
  "encode_chat_prompt v sys prompt mode out =
     do {
       out1 \<leftarrow> (if mode = DS4_THINK_MAX
                then bpe_tokenize_text v DS4_REASONING_EFFORT_MAX_PREFIX (out @ [bos_id v])
                else Some (out @ [bos_id v]));
       out2 \<leftarrow> (case sys of
                  Some s \<Rightarrow> if s \<noteq> [] then bpe_tokenize_text v s out1 else Some out1
                | None \<Rightarrow> Some out1);
       out3 \<leftarrow> bpe_tokenize_text v prompt (out2 @ [user_id v]);
       Some (out3 @ [assistant_id v] @
         [if ds4_think_mode_enabled mode then think_start_id v else think_end_id v])
     }"

definition special_tokens :: "vocab \<Rightarrow> (byte list \<times> u32) list" where
  "special_tokens v =
     [(tok_bos, bos_id v), (tok_eos, eos_id v), (tok_user, user_id v), (tok_assistant, assistant_id v),
      (tok_think_start, think_start_id v), (tok_think_end, think_end_id v), (tok_dsml, dsml_id v)]"

definition special_token_at :: "vocab \<Rightarrow> byte list \<Rightarrow> (u32 \<times> nat) option" where
  "special_token_at v p =
     (case List.find (\<lambda>(text, _). take (length text) p = text) (special_tokens v) of
        None \<Rightarrow> None
      | Some (text, tok) \<Rightarrow> Some (tok, length text))"

definition tokenize_span :: "vocab \<Rightarrow> byte list \<Rightarrow> u32 list \<Rightarrow> u32 list option" where
  "tokenize_span v s out = (if s = [] then Some out else bpe_tokenize_text v s out)"

lemma special_token_at_len:
  "special_token_at v p = Some (tok, len) \<Longrightarrow> 0 < len \<and> len \<le> length p"
proof -
  assume a: "special_token_at v p = Some (tok, len)"
  then obtain tx t where f: "List.find (\<lambda>(text, _). take (length text) p = text) (special_tokens v) = Some (tx, t)"
    and len: "len = length tx"
    by (auto simp: special_token_at_def split: option.splits)
  from f have m: "(tx, t) \<in> set (special_tokens v)" "take (length tx) p = tx"
    by (auto simp: find_Some_iff in_set_conv_nth)
  from m(1) have "tx \<noteq> []"
    by (auto simp: special_tokens_def tok_bos_def tok_eos_def tok_user_def tok_assistant_def
        tok_think_start_def tok_think_end_def tok_dsml_def ascii_def)
  with m(2) len show ?thesis by (metis length_greater_0_conv length_take min.absorb_iff2 min.commute)
qed

text \<open>\<open>span\<close> is the text since the last special token, \<open>p\<close> what is left to scan.\<close>

function tokenize_rendered_loop :: "vocab \<Rightarrow> byte list \<Rightarrow> byte list \<Rightarrow> u32 list \<Rightarrow> u32 list option" where
  "tokenize_rendered_loop v span [] out = tokenize_span v span out"
| "tokenize_rendered_loop v span (c # cs) out =
     (case special_token_at v (c # cs) of
        Some (tok, len) \<Rightarrow>
          do {
            out' \<leftarrow> tokenize_span v span out;
            tokenize_rendered_loop v [] (drop len (c # cs)) (out' @ [tok])
          }
      | None \<Rightarrow> tokenize_rendered_loop v (span @ [c]) cs out)"
  by pat_completeness auto
termination
  by (relation "measure (\<lambda>(v, span, p, out). length p)") (auto dest!: special_token_at_len)

definition tokenize_rendered_chat_vocab :: "vocab \<Rightarrow> byte list option \<Rightarrow> u32 list \<Rightarrow> u32 list option" where
  "tokenize_rendered_chat_vocab v text out =
     tokenize_rendered_loop v [] (case text of None \<Rightarrow> [] | Some s \<Rightarrow> s) out"

section \<open>From tokens back to bytes\<close>

definition utf8_decode_one :: "byte list \<Rightarrow> u32 \<times> nat" where
  "utf8_decode_one s =
     (let c = hd s; len = length s; at = (\<lambda>i. ucast (s ! i AND 0x3f))
      in if c < 0x80 \<or> 1 \<ge> len then (ucast c, 1)
         else if c AND 0xe0 = 0xc0 \<and> 1 < len then
           (push_bit 6 (ucast (c AND 0x1f)) OR at 1, 2)
         else if c AND 0xf0 = 0xe0 \<and> 2 < len then
           (push_bit 12 (ucast (c AND 0x0f)) OR push_bit 6 (at 1) OR at 2, 3)
         else if c AND 0xf8 = 0xf0 \<and> 3 < len then
           (push_bit 18 (ucast (c AND 0x07)) OR push_bit 12 (at 1) OR push_bit 6 (at 2) OR at 3, 4)
         else (ucast c, 1))"

text \<open>\<^verbatim>\<open>-1\<close> (no such byte) is \<open>None\<close>.\<close>

fun gpt2_unrank_loop :: "nat \<Rightarrow> u32 \<Rightarrow> u32 \<Rightarrow> u32 \<Rightarrow> byte option" where
  "gpt2_unrank_loop 0 b n cp = None"
| "gpt2_unrank_loop (Suc k) b n cp =
     (if gpt2_printable b then gpt2_unrank_loop k (b + 1) n cp
      else if cp = 256 + n then Some (ucast b)
      else gpt2_unrank_loop k (b + 1) (n + 1) cp)"

definition gpt2_codepoint_to_byte :: "u32 \<Rightarrow> byte option" where
  "gpt2_codepoint_to_byte cp =
     (if (cp \<ge> 33 \<and> cp \<le> 126) \<or> (cp \<ge> 161 \<and> cp \<le> 172) \<or> (cp \<ge> 174 \<and> cp \<le> 255)
      then Some (ucast cp) else gpt2_unrank_loop 256 0 0 cp)"

fun vocab_token_is_literal_special :: "byte list \<Rightarrow> bool" where
  "vocab_token_is_literal_special [] = False"
| "vocab_token_is_literal_special (c # cs) =
     (take 3 (c # cs) = [0xef, 0xbd, 0x9c] \<or> vocab_token_is_literal_special cs)"

function decode_token_bytes :: "byte list \<Rightarrow> byte list" where
  "decode_token_bytes s =
     (if s = [] then []
      else case utf8_decode_one s of
             (cp, n) \<Rightarrow>
               (case gpt2_codepoint_to_byte cp of Some b \<Rightarrow> [b] | None \<Rightarrow> []) @
               decode_token_bytes (drop n s))"
  by pat_completeness auto
termination
  by (relation "measure length") (auto simp: utf8_decode_one_def Let_def split: if_splits)

declare decode_token_bytes.simps [simp del]

text \<open>The C \<^verbatim>\<open>int\<close> argument is the signed reading of the 32-bit pattern.\<close>

definition vocab_token_text :: "vocab \<Rightarrow> u32 \<Rightarrow> byte list" where
  "vocab_token_text v tok =
     (if sint tok < 0 \<or> sint tok \<ge> int (n_vocab v) then []
      else
        let s = token v ! nat (sint tok)
        in if vocab_token_is_literal_special s then s else decode_token_bytes s)"


section \<open>The byte alphabet is invertible\<close>

text \<open>Every byte is written as one or two bytes, whose lead byte carries the length.\<close>

lemma high_bits_zero: "(cp :: u32) < 0x800 \<Longrightarrow> 11 \<le> n \<Longrightarrow> \<not> bit cp n"
proof -
  assume a: "cp < 0x800" "11 \<le> n"
  then have "unat cp < 2 ^ 11" by (simp add: word_less_nat_alt)
  then have "take_bit 11 (unat cp) = unat cp" by (simp add: take_bit_nat_eq_self)
  then have "take_bit 11 cp = cp" by (metis unsigned_take_bit_eq word_unat_eq_iff)
  with a(2) show ?thesis by (metis bit_take_bit_iff leD)
qed

lemma lt8: "(n::nat) < 8 \<longleftrightarrow> n \<in> {0,1,2,3,4,5,6,7}" by auto
lemma lt6: "(n::nat) < 6 \<longleftrightarrow> n \<in> {0,1,2,3,4,5}" by auto
lemma lt5: "(n::nat) < 5 \<longleftrightarrow> n \<in> {0,1,2,3,4}" by auto
lemma low_lits: "n < 5 \<Longrightarrow> \<not> bit (0xc0 :: u32) n" "n < 6 \<Longrightarrow> \<not> bit (0x80 :: u32) n"
  by (auto simp: lt5 lt6)
lemma mask_lits: "(0x1f :: byte) = mask 5" "(0x3f :: byte) = mask 6" "(0x3f :: u32) = mask 6"
  by (simp_all add: mask_eq_exp_minus_1)
lemma two_byte_lead:
  "(cp :: u32) < 0x800 \<Longrightarrow> (ucast (0xc0 OR drop_bit 6 cp) :: byte) AND 0xe0 = 0xc0"
  by (rule bit_word_eqI) (auto simp: bit_simps high_bits_zero lt8)
lemma two_byte_cont:
  "(ucast (0x80 OR ((cp :: u32) AND 0x3f)) :: byte) AND 0xc0 = 0x80"
  by (rule bit_word_eqI) (auto simp: bit_simps lt8)
lemma two_byte_value:
  assumes "(cp :: u32) < 0x800"
  shows "push_bit 6 (ucast ((ucast (0xc0 OR drop_bit 6 cp) :: byte) AND 0x1f)) OR
    ucast ((ucast (0x80 OR (cp AND 0x3f)) :: byte) AND 0x3f) = cp"
proof -
  have hb: "n < 5" if "bit cp (6 + n)" for n
    using high_bits_zero [OF assms, of "6 + n"] that by (cases "n < 5") auto
  have "ucast ((ucast (0xc0 OR drop_bit 6 cp) :: byte) AND 0x1f) = drop_bit 6 cp"
    unfolding mask_lits
    by (rule bit_word_eqI) (use low_lits(1) in \<open>auto simp: bit_simps not_less dest: hb\<close>)
  moreover have "(ucast ((ucast (0x80 OR (cp AND 0x3f)) :: byte) AND 0x3f) :: u32) = cp AND mask 6"
    unfolding mask_lits
    by (rule bit_word_eqI) (use low_lits(2) in \<open>auto simp: bit_simps not_less\<close>)
  moreover have "push_bit 6 (drop_bit 6 cp) OR (cp AND mask 6) = cp"
    by (rule bit_word_eqI) (auto simp: bit_simps not_less)
  ultimately show ?thesis by simp
qed

lemma unat_ucast_byte_u32: "unat (ucast (b :: byte) :: u32) = unat b"
  using unat_byte_bound [of b] by (simp add: unsigned_ucast_eq take_bit_nat_eq_self del: unat_byte_bound)

text \<open>The two alphabet loops run in lockstep on an unprintable byte.\<close>

lemma gpt2_rank_loop_inv:
  "j < k \<Longrightarrow> b = x + of_nat j \<Longrightarrow> \<not> gpt2_printable b \<Longrightarrow> unat n + k < 1000 \<Longrightarrow>
     256 + unat n \<le> unat (gpt2_rank_loop k x n b) \<and>
     unat (gpt2_rank_loop k x n b) < 256 + unat n + k \<and>
     gpt2_unrank_loop k x n (gpt2_rank_loop k x n b) = Some (ucast b)"
proof (induction k arbitrary: j x n)
  case 0
  then show ?case by simp
next
  case (Suc k)
  have un: "unat (256 + n) = 256 + unat n"
    using Suc.prems(4) by (subst unat_add_no_wrap) simp_all
  have un1: "unat (n + 1) = unat n + 1"
    using Suc.prems(4) by (subst unat_add_no_wrap) simp_all
  show ?case
  proof (cases "x = b")
    case True
    with Suc.prems(3) un Suc.prems(4) show ?thesis by simp
  next
    case False
    have "j \<noteq> 0"
    proof
      assume "j = 0"
      with Suc.prems(2) False show False by simp
    qed
    then obtain j' where j: "j = Suc j'" by (cases j) auto
    have b: "b = (x + 1) + of_nat j'" using Suc.prems(2) j by simp
    have jk: "j' < k" using Suc.prems(1) j by simp
    show ?thesis
    proof (cases "gpt2_printable x")
      case True
      from Suc.IH [OF jk b Suc.prems(3), of n] Suc.prems(4) True show ?thesis by simp
    next
      case np: False
      have "unat (n + 1) + k < 1000" using Suc.prems(4) un1 by simp
      note ih = Suc.IH [OF jk b Suc.prems(3) this]
      let ?r = "gpt2_rank_loop k (x + 1) (n + 1) b"
      have "?r \<noteq> 256 + n"
      proof
        assume "?r = 256 + n"
        then have "unat ?r = 256 + unat n" by (simp only: un)
        with ih un1 show False by simp
      qed
      with ih un1 np False show ?thesis by simp
    qed
  qed
qed

lemma printable_or_unprintable:
  "gpt2_printable (ucast b) \<or> (\<exists>j<256. ucast (b :: byte) = (0 :: u32) + of_nat j)"
  by (rule disjI2, rule exI [of _ "unat b"]) simp

lemma gpt2_codepoint_facts:
  "gpt2_codepoint_to_byte (gpt2_byte_to_codepoint b) = Some b \<and> gpt2_byte_to_codepoint b < 0x800"
proof (cases "gpt2_printable (ucast b)")
  case True
  have le: "unat (ucast b :: u32) \<le> 255"
    using unat_byte_bound [of b] by (simp add: unsigned_ucast_eq take_bit_nat_eq_self del: unat_byte_bound)
  have "(ucast (ucast b :: u32) :: byte) = b"
    by (rule bit_word_eqI) (simp add: bit_simps)
  with True le show ?thesis
    by (auto simp: gpt2_byte_to_codepoint_def gpt2_codepoint_to_byte_def gpt2_printable_def
        word_le_nat_alt word_less_nat_alt)
next
  case False
  obtain j where j: "j < 256" "ucast b = (0 :: u32) + of_nat j"
    using printable_or_unprintable [of b] False by auto
  note inv = gpt2_rank_loop_inv [OF j False, where n = 0, simplified]
  from inv have r: "256 \<le> unat (gpt2_byte_to_codepoint b)" "unat (gpt2_byte_to_codepoint b) < 512"
    using False by (simp_all add: gpt2_byte_to_codepoint_def)
  have "(ucast (ucast b :: u32) :: byte) = b"
    by (rule bit_word_eqI) (simp add: bit_simps)
  with inv False r show ?thesis
    by (auto simp: gpt2_byte_to_codepoint_def gpt2_codepoint_to_byte_def word_le_nat_alt word_less_nat_alt)
qed

definition enc_byte :: "byte \<Rightarrow> byte list" where
  "enc_byte b = utf8_put (gpt2_byte_to_codepoint b)"

lemma enc_byte_cases:
  obtains c where "enc_byte b = [c]" "c < 0x80" "ucast c = gpt2_byte_to_codepoint b"
  | c d where "enc_byte b = [c, d]" "\<not> c < 0x80" "c AND 0xe0 = 0xc0" "d AND 0xc0 = 0x80"
      "push_bit 6 (ucast (c AND 0x1f)) OR ucast (d AND 0x3f) = gpt2_byte_to_codepoint b"
proof (cases "gpt2_byte_to_codepoint b \<le> 0x7f")
  case True
  let ?cp = "gpt2_byte_to_codepoint b"
  have "unat ?cp < 2 ^ LENGTH(8)" using True by (simp add: word_le_nat_alt)
  then have u: "unat (ucast ?cp :: byte) = unat ?cp"
    unfolding unsigned_ucast_eq by (rule take_bit_nat_eq_self)
  have "(ucast (ucast ?cp :: byte) :: u32) = ?cp"
    by (simp only: word_unat_eq_iff unat_ucast_byte_u32 u)
  with True u show ?thesis
    by (intro that(1) [of "ucast ?cp"]) (simp_all add: enc_byte_def utf8_put_def word_le_nat_alt word_less_nat_alt)
next
  case False
  let ?cp = "gpt2_byte_to_codepoint b"
  let ?c = "ucast (0xc0 OR drop_bit 6 ?cp) :: byte" and ?d = "ucast (0x80 OR (?cp AND 0x3f)) :: byte"
  have cp: "?cp < 0x800" using gpt2_codepoint_facts [of b] by simp
  then have "?cp \<le> 0x7ff" by (simp add: word_le_nat_alt word_less_nat_alt)
  with False have e: "enc_byte b = [?c, ?d]"
    by (simp add: enc_byte_def utf8_put_def)
  have "\<not> ?c < 0x80"
  proof
    assume lt: "?c < 0x80"
    have "?c AND 0xe0 \<le> ?c" by (rule word_and_le2)
    with two_byte_lead [OF cp] lt show False by (simp add: word_le_nat_alt word_less_nat_alt)
  qed
  then show ?thesis
    by (rule that(2) [OF e _ two_byte_lead [OF cp] two_byte_cont two_byte_value [OF cp]])
qed

lemma enc_byte_head:
  "enc_byte b \<noteq> []" "utf8_len_from_first_byte (hd (enc_byte b)) = length (enc_byte b)"
  "0xef \<notin> set (enc_byte b)"
proof -
  have ne: "(0xef :: byte) \<noteq> c" if "c AND 0xe0 = 0xc0 \<or> c AND 0xc0 = 0x80 \<or> c < 0x80" for c :: byte
    using that by auto
  show "enc_byte b \<noteq> []" "utf8_len_from_first_byte (hd (enc_byte b)) = length (enc_byte b)"
    "0xef \<notin> set (enc_byte b)"
    by (cases rule: enc_byte_cases [of b]; use ne in \<open>force simp: utf8_len_from_first_byte_def\<close>)+
qed

lemma byte_encode_Nil [simp]: "byte_encode [] = []"
  by (simp add: byte_encode_def)

lemma byte_encode_Cons: "byte_encode (b # bs) = enc_byte b @ byte_encode bs"
  by (simp add: byte_encode_def enc_byte_def)

lemma byte_encode_append: "byte_encode (xs @ ys) = byte_encode xs @ byte_encode ys"
  by (simp add: byte_encode_def)

lemma byte_encode_no_ef: "0xef \<notin> set (byte_encode bs)"
  by (induction bs) (simp_all add: byte_encode_Cons enc_byte_head(3))

lemma literal_special_ef: "vocab_token_is_literal_special s \<Longrightarrow> 0xef \<in> set s"
proof (induction s)
  case Nil
  then show ?case by simp
next
  case (Cons c cs)
  then show ?case by (cases "c = 0xef") auto
qed

lemma utf8_decode_enc: "utf8_decode_one (enc_byte b @ rest) = (gpt2_byte_to_codepoint b, length (enc_byte b))"
  by (cases rule: enc_byte_cases [of b]) (simp_all add: utf8_decode_one_def Let_def)

lemma decode_byte_encode: "decode_token_bytes (byte_encode bs) = bs"
proof (induction bs)
  case Nil
  then show ?case by (subst decode_token_bytes.simps) simp
next
  case (Cons b bs)
  have "enc_byte b @ byte_encode bs \<noteq> []" using enc_byte_head(1) by simp
  with Cons show ?case
    unfolding byte_encode_Cons
    by (subst decode_token_bytes.simps) (simp add: utf8_decode_enc gpt2_codepoint_facts)
qed
lemma pretok_concat: "concat (pretok s) = s \<and> [] \<notin> set (pretok s)"
proof (induction s rule: pretok.induct)
  case (1 s)
  show ?case
  proof (cases "s = []")
    case True
    then show ?thesis by (subst (1 2) pretok.simps) simp
  next
    case False
    from pretok_step_splits [OF False] have
      "concat (pretok_step s) = take (pretok_len s) s" "[] \<notin> set (pretok_step s)"
      by (simp_all add: splits_prefix_def pretok_len_def)
    with "1.IH" [OF False] False show ?thesis
      by (subst (1 2) pretok.simps) simp
  qed
qed

lemma bpe_split_encode: "bpe_split (byte_encode bs) = map enc_byte bs"
proof (induction bs)
  case Nil
  then show ?case by simp
next
  case (Cons b bs)
  obtain c cs where e: "enc_byte b = c # cs" using enc_byte_head(1) [of b] by (cases "enc_byte b") auto
  have n: "next_utf8_char (c # cs @ byte_encode bs) = length (enc_byte b)"
    using enc_byte_head(2) [of b] e by (simp add: next_utf8_char_def Let_def)
  from Cons e n show ?case by (simp add: byte_encode_Cons Let_def)
qed

section \<open>Consistent vocabularies\<close>

definition vocab_consistent :: "vocab \<Rightarrow> bool" where
  "vocab_consistent v \<longleftrightarrow>
     table_ready (token_to_id v) \<and> table_ready (merge_rank v) \<and>
     length (token v) = n_vocab v \<and> n_vocab v < 2 ^ 31 \<and>
     (\<forall>s t. tmap (token_to_id v) s = Some t \<longrightarrow> 0 \<le> sint t \<and> nat (sint t) < n_vocab v \<and> token v ! nat (sint t) = s)"

definition vocab_closed :: "vocab \<Rightarrow> bool" where
  "vocab_closed v \<longleftrightarrow>
     (\<forall>b. tmap (token_to_id v) (enc_byte b) \<noteq> None) \<and>
     (\<forall>a b r. tmap (merge_rank v) (a @ [0x20] @ b) = Some r \<longrightarrow> 0 \<le> sint r \<longrightarrow>
        tmap (token_to_id v) (a @ b) \<noteq> None)"

text \<open>Symbols are encoded chunks of the piece; all of them are tokens.\<close>

definition sym_inv :: "vocab \<Rightarrow> byte list \<Rightarrow> byte list list \<Rightarrow> bool" where
  "sym_inv v raw syms \<longleftrightarrow>
     (\<exists>chunks. syms = map byte_encode chunks \<and> concat chunks = raw) \<and>
     (\<forall>s \<in> set syms. tmap (token_to_id v) s \<noteq> None)"

lemma bpe_rank_total:
  assumes "vocab_consistent v"
  shows "bpe_rank v a b = Some (case tmap (merge_rank v) (a @ [0x20] @ b) of None \<Rightarrow> - 1 | Some r \<Rightarrow> r)"
  using htab.get_law [of "merge_rank v" "a @ [0x20] @ b"] assms
  by (auto simp: bpe_rank_def vocab_consistent_def split: option.splits)

lemma bpe_best_total:
  "vocab_consistent v \<Longrightarrow> \<exists>r. bpe_best v i syms bi br = Some r"
proof (induction v i syms bi br rule: bpe_best.induct)
  case (1 v i a b syms bi br)
  then show ?case using bpe_rank_total [OF "1.prems", of a b] by (auto simp: Let_def)
qed simp_all

text \<open>The pair the scan picks has a merge rule.\<close>

lemma bpe_best_pair:
  "vocab_consistent v \<Longrightarrow> bpe_best v i syms bi br = Some (Some j) \<Longrightarrow> bi \<noteq> Some j \<or> j < i \<Longrightarrow>
   bi = Some j \<or> (\<exists>r. tmap (merge_rank v) (syms ! (j - i) @ [0x20] @ syms ! (Suc (j - i))) = Some r \<and> 0 \<le> sint r)"
proof (induction v i syms bi br rule: bpe_best.induct)
  case (1 v i a b syms bi br)
  define rank where "rank = (case tmap (merge_rank v) (a @ [0x20] @ b) of None \<Rightarrow> - 1 | Some r \<Rightarrow> r)"
  have r: "bpe_rank v a b = Some rank" using bpe_rank_total [OF "1.prems"(1)] by (simp add: rank_def)
  show ?case
  proof (cases "0 \<le> sint rank \<and> sint rank < br")
    case True
    with "1.prems" r have f: "bpe_best v (Suc i) (b # syms) (Some i) (sint rank) = Some (Some j)" by simp
    show ?thesis
    proof (cases "j = i")
      case True
      have "tmap (merge_rank v) (a @ [0x20] @ b) = Some rank"
        using \<open>0 \<le> sint rank \<and> _\<close> by (auto simp: rank_def split: option.splits)
      with True \<open>0 \<le> sint rank \<and> _\<close> show ?thesis by auto
    next
      case False
      with bpe_best_bound [OF f] have "Suc i \<le> j" by auto
      with "1.IH"(1) [OF r True "1.prems"(1) f] False show ?thesis
        by (auto simp: nth_Cons' Suc_diff_le)
    qed
  next
    case False
    with "1.prems" r have f: "bpe_best v (Suc i) (b # syms) bi br = Some (Some j)" by simp
    show ?thesis
    proof (cases "bi = Some j")
      case nb: False
      with bpe_best_bound [OF f] have "Suc i \<le> j" by auto
      with "1.IH"(2) [OF r False "1.prems"(1) f] nb show ?thesis
        by (auto simp: nth_Cons' Suc_diff_le)
    qed simp
  qed
qed simp_all

lemma merge_at_inv:
  assumes inv: "sym_inv v raw syms" and i: "Suc i < length syms"
    and t: "tmap (token_to_id v) (syms ! i @ syms ! Suc i) \<noteq> None"
  shows "sym_inv v raw (bpe_merge_at i syms)"
proof -
  from inv obtain chunks where c: "syms = map byte_encode chunks" "concat chunks = raw"
    by (auto simp: sym_inv_def)
  let ?ch = "take i chunks @ [chunks ! i @ chunks ! Suc i] @ drop (Suc (Suc i)) chunks"
  have li: "Suc i < length chunks" using i c(1) by simp
  have "bpe_merge_at i syms = map byte_encode ?ch"
    using li by (simp add: bpe_merge_at_def c(1) take_map drop_map byte_encode_append)
  moreover have "concat ?ch = concat (take i chunks @ chunks ! i # chunks ! Suc i # drop (Suc (Suc i)) chunks)"
    by simp
  moreover have "take i chunks @ chunks ! i # chunks ! Suc i # drop (Suc (Suc i)) chunks = chunks"
    using li by (metis Cons_nth_drop_Suc Suc_lessD id_take_nth_drop)
  moreover have "\<forall>s \<in> set (bpe_merge_at i syms). tmap (token_to_id v) s \<noteq> None"
    using inv t by (auto simp: sym_inv_def bpe_merge_at_def dest: in_set_takeD in_set_dropD)
  ultimately show ?thesis using c(2) unfolding sym_inv_def by metis
qed

lemma bpe_merge_inv:
  "vocab_consistent v \<Longrightarrow> vocab_closed v \<Longrightarrow> sym_inv v raw syms \<Longrightarrow>
     \<exists>out. bpe_merge v syms = Some out \<and> sym_inv v raw out"
proof (induction v syms rule: bpe_merge.induct)
  case (1 v syms)
  obtain r where r: "bpe_best v 0 syms None 2147483647 = Some r"
    using bpe_best_total [OF "1.prems"(1)] by blast
  show ?case
  proof (cases r)
    case None
    with r "1.prems"(3) show ?thesis by (subst bpe_merge.simps) simp
  next
    case (Some i)
    have i: "Suc i < length syms" using bpe_best_bound [of v 0 syms None _ i] r Some by auto
    obtain q where q: "tmap (merge_rank v) (syms ! i @ [0x20] @ syms ! Suc i) = Some q" "0 \<le> sint q"
      using bpe_best_pair [OF "1.prems"(1), of 0 syms None 2147483647 i] r Some by auto
    with "1.prems"(2) have "tmap (token_to_id v) (syms ! i @ syms ! Suc i) \<noteq> None"
      unfolding vocab_closed_def by blast
    from merge_at_inv [OF "1.prems"(3) i this] "1.IH" [OF r Some "1.prems"(1,2)]
    obtain out where "bpe_merge v (bpe_merge_at i syms) = Some out" "sym_inv v raw out" by blast
    with r Some show ?thesis by (subst bpe_merge.simps) simp
  qed
qed

text \<open>Emission: one token per symbol, whose text is the symbol's bytes.\<close>

lemma token_text_encoded:
  assumes "vocab_consistent v" "tmap (token_to_id v) (byte_encode bs) = Some t"
  shows "vocab_token_text v t = bs"
proof -
  from assms have t: "0 \<le> sint t" "nat (sint t) < n_vocab v" "token v ! nat (sint t) = byte_encode bs"
    by (auto simp: vocab_consistent_def)
  have "\<not> vocab_token_is_literal_special (byte_encode bs)"
    using literal_special_ef byte_encode_no_ef by blast
  with t show ?thesis by (auto simp: vocab_token_text_def decode_byte_encode)
qed

lemma bpe_emit_syms_lossless:
  "vocab_consistent v \<Longrightarrow> \<forall>s \<in> set (map byte_encode chunks). tmap (token_to_id v) s \<noteq> None \<Longrightarrow>
     \<exists>ids. bpe_emit_syms v (map byte_encode chunks) out = Some (out @ ids) \<and>
           concat (map (vocab_token_text v) ids) = concat chunks"
proof (induction chunks arbitrary: out)
  case Nil
  then show ?case by simp
next
  case (Cons c cs)
  from Cons.prems(2) obtain t where t: "tmap (token_to_id v) (byte_encode c) = Some t" by auto
  have g: "table_get (token_to_id v) (byte_encode c) = Some (Some t)"
    using htab.get_law Cons.prems(1) t by (simp add: vocab_consistent_def)
  from Cons.IH [OF Cons.prems(1), of "out @ [t]"] Cons.prems(2) obtain ids where
    "bpe_emit_syms v (map byte_encode cs) (out @ [t]) = Some (out @ [t] @ ids)"
    "concat (map (vocab_token_text v) ids) = concat cs" by auto
  with g token_text_encoded [OF Cons.prems(1) t] show ?case
    by (intro exI [of _ "t # ids"]) simp
qed

lemma sym_inv_initial:
  assumes "vocab_closed v"
  shows "sym_inv v raw (bpe_split (byte_encode raw))"
proof -
  have "map enc_byte raw = map byte_encode (map (\<lambda>b. [b]) raw)"
    by (simp add: byte_encode_Cons)
  moreover have "concat (map (\<lambda>b. [b]) raw) = raw" by simp
  ultimately show ?thesis
    using assms unfolding sym_inv_def bpe_split_encode vocab_closed_def by (metis (no_types, lifting) image_iff list.set_map)
qed

lemma bpe_emit_piece_lossless:
  assumes "vocab_consistent v" "vocab_closed v"
  shows "\<exists>ids. bpe_emit_piece v raw out = Some (out @ ids) \<and> concat (map (vocab_token_text v) ids) = raw"
proof -
  obtain syms where m: "bpe_merge v (bpe_split (byte_encode raw)) = Some syms" "sym_inv v raw syms"
    using bpe_merge_inv [OF assms sym_inv_initial [OF assms(2)]] by blast
  then obtain chunks where c: "syms = map byte_encode chunks" "concat chunks = raw"
    and "\<forall>s \<in> set syms. tmap (token_to_id v) s \<noteq> None" by (auto simp: sym_inv_def)
  with bpe_emit_syms_lossless [OF assms(1), of chunks out] m show ?thesis
    by (auto simp: bpe_emit_piece_def)
qed

lemma bpe_emit_pieces_lossless:
  assumes "vocab_consistent v" "vocab_closed v"
  shows "\<exists>ids. bpe_emit_pieces v ps out = Some (out @ ids) \<and> concat (map (vocab_token_text v) ids) = concat ps"
proof (induction ps arbitrary: out)
  case Nil
  show ?case by simp
next
  case (Cons p ps)
  obtain i1 where 1: "bpe_emit_piece v p out = Some (out @ i1)" "concat (map (vocab_token_text v) i1) = p"
    using bpe_emit_piece_lossless [OF assms] by blast
  obtain i2 where 2: "bpe_emit_pieces v ps (out @ i1) = Some ((out @ i1) @ i2)"
    "concat (map (vocab_token_text v) i2) = concat ps"
    using Cons.IH by blast
  from 1 2 show ?case by (intro exI [of _ "i1 @ i2"]) simp
qed

lemma bpe_tokenize_text_lossless_aux:
  assumes "vocab_consistent v" "vocab_closed v"
  shows "\<exists>ids. bpe_tokenize_text v s out = Some (out @ ids) \<and> concat (map (vocab_token_text v) ids) = s"
  using bpe_emit_pieces_lossless [OF assms, of "pretok s" out] pretok_concat [of s]
  by (simp add: bpe_tokenize_text_def)

text \<open>The special ids are the tokens of the special texts.\<close>

definition vocab_specials :: "vocab \<Rightarrow> bool" where
  "vocab_specials v \<longleftrightarrow> (\<forall>(tx, t) \<in> set (special_tokens v). tmap (token_to_id v) tx = Some t)"

lemma special_text:
  assumes v: "vocab_consistent v" "vocab_specials v" and m: "(tx, t) \<in> set (special_tokens v)"
  shows "vocab_token_text v t = tx"
proof -
  from v m have t: "tmap (token_to_id v) tx = Some t" by (auto simp: vocab_specials_def)
  then have k: "0 \<le> sint t" "nat (sint t) < n_vocab v" "token v ! nat (sint t) = tx"
    using v(1) by (auto simp: vocab_consistent_def)
  have lit: "vocab_token_is_literal_special tok_bos" "vocab_token_is_literal_special tok_eos"
    "vocab_token_is_literal_special tok_user" "vocab_token_is_literal_special tok_assistant"
    "vocab_token_is_literal_special tok_dsml"
    by (simp_all add: tok_bos_def tok_eos_def tok_user_def tok_assistant_def tok_dsml_def)
  have enc: "tok_think_start = byte_encode tok_think_start" "tok_think_end = byte_encode tok_think_end"
    by code_simp+
  show ?thesis
  proof (cases "tx \<in> {tok_think_start, tok_think_end}")
    case True
    with token_text_encoded [OF v(1)] t enc show ?thesis by (metis insert_iff singletonD)
  next
    case False
    with m have "vocab_token_is_literal_special tx" by (auto simp: special_tokens_def lit)
    moreover have "sint t < int (n_vocab v)" using k(1,2) by linarith
    ultimately show ?thesis using k by (simp add: vocab_token_text_def)
  qed
qed

lemma special_token_at_text:
  assumes "special_token_at v p = Some (t, len)"
  shows "(take len p, t) \<in> set (special_tokens v)"
  using assms by (force simp: special_token_at_def find_Some_iff in_set_conv_nth split: option.splits)

lemma tokenize_span_lossless:
  assumes "vocab_consistent v" "vocab_closed v"
  shows "\<exists>ids. tokenize_span v s out = Some (out @ ids) \<and> concat (map (vocab_token_text v) ids) = s"
  using bpe_tokenize_text_lossless_aux [OF assms] by (simp add: tokenize_span_def)

lemma tokenize_rendered_lossless_aux:
  "vocab_consistent v \<Longrightarrow> vocab_closed v \<Longrightarrow> vocab_specials v \<Longrightarrow>
     \<exists>ids. tokenize_rendered_loop v span p out = Some (out @ ids) \<and>
     concat (map (vocab_token_text v) ids) = span @ p"
proof (induction v span p out rule: tokenize_rendered_loop.induct [case_names Nil Cons])
  case (Nil v span out)
  then show ?case using tokenize_span_lossless [of v span out] by simp
next
  case (Cons v span c cs out)
  show ?case
  proof (cases "special_token_at v (c # cs)")
    case None
    from Cons.IH(1) [OF None Cons.prems] None show ?thesis by simp
  next
    case (Some tl)
    obtain t len where tl: "tl = (t, len)" by force
    obtain i1 where 1: "tokenize_span v span out = Some (out @ i1)"
      "concat (map (vocab_token_text v) i1) = span"
      using tokenize_span_lossless [OF Cons.prems(1,2)] by blast
    from Cons.IH(2) [OF Some tl [symmetric] 1(1) Cons.prems] obtain i2 where
      2: "tokenize_rendered_loop v [] (drop len (c # cs)) ((out @ i1) @ [t]) = Some (((out @ i1) @ [t]) @ i2)"
      "concat (map (vocab_token_text v) i2) = drop len (c # cs)" by auto
    have "vocab_token_text v t = take len (c # cs)"
      using special_text [OF Cons.prems(1,3)] special_token_at_text Some tl by blast
    with 1 2 Some tl show ?thesis
      by (intro exI [of _ "i1 @ t # i2"]) (simp add: append_take_drop_id)
  qed
qed
section \<open>A loaded vocabulary is consistent\<close>

text \<open>An array of strings in an opened model fits the file, eight bytes per item.\<close>

lemma string_array_bound:
  assumes ok: "model_ok m" and g: "model_get_array m key = Some a" and ty: "arr_type a = GGUF_VALUE_STRING"
  shows "8 * unat (arr_len a) \<le> length (m_map m)" "cursor_ok (cursor_at m (arr_data_pos a))"
proof -
  obtain e c1 c2 where e: "model_find_kv m key = Some e" "kv_type e = GGUF_VALUE_ARRAY"
    and u: "cursor_u32 (cursor_at m (kv_value_pos e)) = (Some (arr_type a), c1)"
      "cursor_u64 c1 = (Some (arr_len a), c2)" "arr_data_pos a = cpos c2"
    using g by (auto simp: model_get_array_def split: option.splits if_splits prod.splits)
  from model_find_kv_in [OF e(1)] ok have sk: "fst (skip_value (cursor_at m (kv_value_pos e)) (kv_type e) 0)"
    and p: "unat (kv_value_pos e) \<le> length (m_map m)" by (auto simp: model_ok_def)
  have c: "cursor_ok (cursor_at m (kv_value_pos e))"
    using ok p by (simp add: cursor_ok_def cursor_at_def model_ok_def)
  from cursor_u32_Some(2) [OF c u(1)] have a1: "advances 4 (cursor_at m (kv_value_pos e)) c1" .
  from cursor_u64_Some(2) [OF advances_ok [OF a1] u(2)] have a2: "advances 8 c1 c2" .
  note a = advances_trans [OF a1 a2]
  have "fst (skip_items (unat (arr_len a)) c2 GGUF_VALUE_STRING 0)"
    using sk e(2) u(1,2) ty by (simp add: skip_value.simps [of "cursor_at m _"] scalar_value_size_def)
  then obtain c3 where "skip_items (unat (arr_len a)) c2 GGUF_VALUE_STRING 0 = (True, c3)"
    by (metis (full_types) prod.collapse)
  from skip_value_advances(2) [OF advances_ok [OF a] _ this] have "advances (8 * unat (arr_len a)) c2 c3"
    by (simp add: scalar_value_size_def)
  with a show "8 * unat (arr_len a) \<le> length (m_map m)"
    by (auto simp: advances_def cursor_ok_def cursor_at_def)
  have "c2 = cursor_at m (cpos c2)"
    using a by (cases c2) (simp add: advances_def cursor_at_def)
  with advances_ok [OF a] show "cursor_ok (cursor_at m (arr_data_pos a))"
    by (metis u(3))
qed

definition ids_ok :: "byte list list \<Rightarrow> str_i32_table \<Rightarrow> bool" where
  "ids_ok toks t \<longleftrightarrow>
     (\<forall>s x. tmap t s = Some x \<longrightarrow> 0 \<le> sint x \<and> nat (sint x) < length toks \<and> toks ! nat (sint x) = s)"

lemma sint_of_nat_small: "i < 2 ^ 31 \<Longrightarrow> sint (of_nat i :: u32) = int i"
  by (simp add: signed_of_nat signed_take_bit_int_eq_self)

lemma ids_ok_put:
  assumes "ids_ok toks t" "length toks < 2 ^ 31" "tmap t' = (tmap t)(s \<mapsto> of_nat (length toks))"
  shows "ids_ok (toks @ [s]) t'"
  using assms by (auto simp: ids_ok_def sint_of_nat_small nth_append less_Suc_eq)

lemma load_tokens_ok:
  "table_ready t \<Longrightarrow> n \<le> table_left t \<Longrightarrow> length toks = i \<Longrightarrow> i + n \<le> 2147483647 \<Longrightarrow> ids_ok toks t \<Longrightarrow>
     \<exists>r. load_tokens n i c toks t = Some r \<and>
       (\<forall>toks' t'. r = Inr (toks', t') \<longrightarrow> table_ready t' \<and> length toks' = i + n \<and> ids_ok toks' t')"
proof (induction n arbitrary: i c toks t)
  case 0
  then show ?case by simp
next
  case (Suc n)
  obtain s c' where c: "cursor_string c = (s, c')" by fastforce
  show ?case
  proof (cases s)
    case None
    with c show ?thesis by simp
  next
    case (Some s')
    obtain t1 where t1: "table_put t s' (of_nat i) = Some t1" "table_ready t1" "n \<le> table_left t1"
      "tmap t1 = (tmap t)(s' \<mapsto> of_nat i)"
      using htab.put_law [OF Suc.prems(1), of s' "of_nat i"] Suc.prems(2) by auto
    have "ids_ok (toks @ [s']) t1"
      using ids_ok_put [OF Suc.prems(5)] Suc.prems(3,4) t1(4) by simp
    from Suc.IH [OF t1(2,3) _ _ this, of "Suc i" c'] Suc.prems(3,4) c Some t1(1) show ?thesis by simp
  qed
qed

lemma load_merges_ok:
  "table_ready t \<Longrightarrow> n \<le> table_left t \<Longrightarrow>
     \<exists>r. load_merges n i c t = Some r \<and> (\<forall>t'. r = Inr t' \<longrightarrow> table_ready t')"
proof (induction n arbitrary: i c t)
  case 0
  then show ?case by simp
next
  case (Suc n)
  obtain s c' where c: "cursor_string c = (s, c')" by fastforce
  show ?case
  proof (cases s)
    case None
    with c show ?thesis by simp
  next
    case (Some s')
    obtain t1 where t1: "table_put t s' (of_nat i) = Some t1" "table_ready t1" "n \<le> table_left t1"
      using htab.put_law [OF Suc.prems(1), of s' "of_nat i"] Suc.prems(2) by auto
    from Suc.IH [OF t1(2,3), of "Suc i" c'] c Some t1(1) show ?thesis by simp
  qed
qed

lemma vocab_lookup_total:
  assumes "table_ready t"
  shows "vocab_lookup t tx =
    Some (case tmap t tx of None \<Rightarrow> Inl (DieMissing tx) | Some tok \<Rightarrow> Inr tok)"
  using htab.get_law [OF assms, of tx] by (simp add: vocab_lookup_def split: option.splits)

lemma lookup_specials_ok:
  assumes "table_ready (token_to_id v)"
  shows "\<exists>r. lookup_specials v = Some r \<and>
    (\<forall>v'. r = Inr v' \<longrightarrow> token v' = token v \<and> n_vocab v' = n_vocab v \<and>
       token_to_id v' = token_to_id v \<and> merge_rank v' = merge_rank v \<and> vocab_specials v')"
  using assms
  by (simp add: lookup_specials_def vocab_lookup_total Let_def vocab_specials_def special_tokens_def
      split: option.splits)

lemma table_init_ready:
  assumes "unat expected < 2 ^ 62 - 8"
  shows "\<exists>t. table_init expected = Some t \<and> table_ready t \<and> tmap t = Map.empty \<and>
    unat expected \<le> table_left t"
proof -
  from table_init_ok [OF assms] obtain t where t: "table_init expected = Some t" "tbl_ok t"
    "tmap t = Map.empty" "used t = 0" "2 * unat expected + 16 \<le> unat (cap t)" .
  then show ?thesis by (auto simp: table_ready_def tbl_room_def table_left_def)
qed

lemma vocab_load_ok_aux:
  assumes ok: "model_ok m" and small: "length (m_map m) < 2 ^ 64"
  shows "\<exists>r. vocab_load m = Some r \<and> (\<forall>v. r = Inr v \<longrightarrow> vocab_consistent v \<and> vocab_specials v)"
proof (cases "model_get_array m ''tokenizer.ggml.tokens''")
  case None
  then show ?thesis by (simp add: vocab_load_def)
next
  case (Some toks)
  note T = this
  show ?thesis
  proof (cases "arr_type toks \<noteq> GGUF_VALUE_STRING \<or> arr_len toks > 2147483647")
    case True
    with T show ?thesis by (auto simp: vocab_load_def)
  next
    case False
    then have n31: "unat (arr_len toks) \<le> 2147483647" by (simp add: word_less_nat_alt not_less)
    show ?thesis
    proof (cases "model_get_array m ''tokenizer.ggml.merges''")
      case None
      with T False show ?thesis by (auto simp: vocab_load_def)
    next
      case (Some mrg)
      note M = this
      show ?thesis
      proof (cases "arr_type mrg \<noteq> GGUF_VALUE_STRING")
        case True
        with T False M show ?thesis by (auto simp: vocab_load_def)
      next
        case ms: False
        then have "unat (arr_len mrg) < 2 ^ 62 - 8"
          using string_array_bound(1) [OF ok M] small by simp
        from table_init_ready [OF this] obtain m0 where m0: "table_init (arr_len mrg) = Some m0"
          "table_ready m0" "unat (arr_len mrg) \<le> table_left m0" by blast
        obtain t0 where t0: "table_init (arr_len toks) = Some t0" "table_ready t0" "tmap t0 = Map.empty"
          "unat (arr_len toks) \<le> table_left t0"
          using table_init_ready [of "arr_len toks"] n31 by auto
        have "ids_ok [] t0" by (simp add: ids_ok_def t0(3))
        note l = load_tokens_ok [OF t0(2,4) _ _ this, of 0 "cursor_at m (arr_data_pos toks)"]
        from l n31 obtain r where
          r: "load_tokens (unat (arr_len toks)) 0 (cursor_at m (arr_data_pos toks)) [] t0 = Some r"
          "\<And>strs t1. r = Inr (strs, t1) \<Longrightarrow>
             table_ready t1 \<and> length strs = unat (arr_len toks) \<and> ids_ok strs t1"
          by auto
        from load_merges_ok [OF m0(2,3)] obtain q where
          q: "load_merges (unat (arr_len mrg)) 0 (cursor_at m (arr_data_pos mrg)) m0 = Some q"
          "\<And>m1. q = Inr m1 \<Longrightarrow> table_ready m1" by blast
        note vl = T False M ms m0(1) t0(1) r(1) q(1)
        show ?thesis
        proof (cases r)
          case (Inl e)
          then show ?thesis using vl by (simp add: vocab_load_def)
        next
          case R: (Inr st)
          obtain strs t1 where st: "st = (strs, t1)" by fastforce
          with r(2) R have t1: "table_ready t1" "length strs = unat (arr_len toks)" "ids_ok strs t1" by auto
          show ?thesis
          proof (cases q)
            case (Inl e)
            then show ?thesis using vl R st by (simp add: vocab_load_def)
          next
            case (Inr m1)
            let ?v = "\<lparr>token = strs, n_vocab = unat (arr_len toks), bos_id = 0, eos_id = 0, user_id = 0,
             assistant_id = 0, think_start_id = 0, think_end_id = 0, dsml_id = 0,
             token_to_id = t1, merge_rank = m1\<rparr>"
            have e: "vocab_load m = lookup_specials ?v"
              using vl R st Inr by (simp add: vocab_load_def)
            have "vocab_consistent v" if "token v = strs" "n_vocab v = unat (arr_len toks)"
              "token_to_id v = t1" "merge_rank v = m1" for v
              using that t1 q(2) [OF Inr] n31 by (auto simp: vocab_consistent_def ids_ok_def)
            with lookup_specials_ok [of ?v] t1(1) show ?thesis unfolding e by auto
          qed
        qed
      qed
    qed
  qed
qed
section \<open>A small concrete vocabulary\<close>

text \<open>The 256 encoded bytes and the special tokens, with no merge rule.\<close>

definition byte_vocab_texts :: "byte list list" where
  "byte_vocab_texts = map (\<lambda>i. enc_byte (of_nat i)) [0..<256] @
     [tok_bos, tok_eos, tok_user, tok_assistant, tok_think_start, tok_think_end, tok_dsml]"

definition byte_vocab_ids :: "(byte list \<times> u32) list" where
  "byte_vocab_ids = zip byte_vocab_texts (map of_nat [0..<263])"

definition byte_vocab :: vocab where
  "byte_vocab =
     \<lparr>token = byte_vocab_texts, n_vocab = 263, bos_id = 256, eos_id = 257, user_id = 258,
      assistant_id = 259, think_start_id = 260, think_end_id = 261, dsml_id = 262,
      token_to_id = the (put_list table_put (the (table_init 263)) byte_vocab_ids),
      merge_rank = the (table_init 0)\<rparr>"

lemma byte_vocab_length [simp]: "length byte_vocab_texts = 263" "length byte_vocab_ids = 263"
  by (simp_all add: byte_vocab_texts_def byte_vocab_ids_def)

lemma byte_vocab_table:
  "table_ready (token_to_id byte_vocab)" "tmap (token_to_id byte_vocab) = map_of (rev byte_vocab_ids)"
proof -
  obtain t0 where t0: "table_init 263 = Some t0" "table_ready t0" "tmap t0 = Map.empty"
    "unat (263 :: u64) \<le> table_left t0" using table_init_ready [of 263] by auto
  have "length byte_vocab_ids \<le> table_left t0" using t0(4) by simp
  from htab.put_list_law [OF t0(2) this] t0(1,3)
  show "table_ready (token_to_id byte_vocab)" "tmap (token_to_id byte_vocab) = map_of (rev byte_vocab_ids)"
    by (auto simp: byte_vocab_def)
qed

lemma byte_vocab_consistent: "vocab_consistent byte_vocab"
proof -
  have "0 \<le> sint t \<and> nat (sint t) < 263 \<and> byte_vocab_texts ! nat (sint t) = s"
    if "map_of (rev byte_vocab_ids) s = Some t" for s t
  proof -
    from map_of_SomeD [OF that] obtain i where i: "i < 263" "s = byte_vocab_texts ! i"
      "t = map of_nat [0..<263] ! i"
      by (auto simp: byte_vocab_ids_def set_zip)
    from i(1,3) have "t = of_nat i" by simp
    then have "sint t = int i" using i(1) sint_of_nat_small [of i] by simp
    with i show ?thesis by simp
  qed
  moreover have "table_ready (merge_rank byte_vocab)"
    using table_init_ready [of 0] by (auto simp: byte_vocab_def)
  ultimately show ?thesis
    using byte_vocab_table by (simp add: vocab_consistent_def) (simp add: byte_vocab_def)
qed

lemma byte_vocab_closed: "vocab_closed byte_vocab"
proof -
  have "enc_byte b \<in> set byte_vocab_texts" for b
  proof -
    have "enc_byte b \<in> (\<lambda>i. enc_byte (of_nat i)) ` {0..<256}"
      by (rule image_eqI [of _ _ "unat b"]) simp_all
    then show ?thesis by (simp add: byte_vocab_texts_def)
  qed
  moreover have "fst ` set byte_vocab_ids = set byte_vocab_texts"
    by (simp add: byte_vocab_ids_def flip: set_map)
  ultimately have "map_of (rev byte_vocab_ids) (enc_byte b) \<noteq> None" for b
    by (simp add: map_of_eq_None_iff)
  moreover have "tmap (merge_rank byte_vocab) = Map.empty"
    using table_init_ready [of 0] by (auto simp: byte_vocab_def)
  ultimately show ?thesis by (simp add: vocab_closed_def byte_vocab_table)
qed

lemma byte_vocab_specials: "vocab_specials byte_vocab"
proof -
  have "drop 256 byte_vocab_ids = zip (drop 256 byte_vocab_texts) (drop 256 (map of_nat [0..<263]))"
    by (simp add: byte_vocab_ids_def drop_zip)
  also have "\<dots> = special_tokens byte_vocab"
    by (simp add: byte_vocab_texts_def drop_map special_tokens_def byte_vocab_def)
  finally have d: "drop 256 byte_vocab_ids = special_tokens byte_vocab" .
  have "map fst (special_tokens byte_vocab) =
      [tok_bos, tok_eos, tok_user, tok_assistant, tok_think_start, tok_think_end, tok_dsml]"
    by (simp add: special_tokens_def)
  moreover have "distinct [tok_bos, tok_eos, tok_user, tok_assistant, tok_think_start, tok_think_end, tok_dsml]"
    by code_simp
  ultimately have dist: "distinct (map fst (special_tokens byte_vocab))" by simp
  have "rev byte_vocab_ids = rev (special_tokens byte_vocab) @ rev (take 256 byte_vocab_ids)"
    by (metis append_take_drop_id d rev_append)
  moreover have "map_of (rev (special_tokens byte_vocab)) tx = Some t"
    if "(tx, t) \<in> set (special_tokens byte_vocab)" for tx t
    using that dist by (intro map_of_is_SomeI) (simp_all add: rev_map [symmetric])
  ultimately show ?thesis by (auto simp: vocab_specials_def byte_vocab_table map_add_Some_iff)
qed

section \<open>Properties\<close>

text \<open>
  Claim C3. Over a consistent vocabulary that has a token for every byte and for
  every merge product, tokenizing a text appends token ids whose texts, joined, are
  the text: no byte is lost, added or moved, whatever the pre-tokenizer and the merge
  ranks decide.
\<close>

theorem tokenize_text_lossless:
  assumes "vocab_consistent v" and "vocab_closed v"
  shows "\<exists>ids. bpe_tokenize_text v s out = Some (out @ ids) \<and> concat (map (vocab_token_text v) ids) = s"
  using assms by (rule bpe_tokenize_text_lossless_aux)

theorem tokenize_text_lossless_witness:
  "\<exists>ids. bpe_tokenize_text byte_vocab (ascii ''hi 42'') [7] = Some (7 # ids) \<and>
     concat (map (vocab_token_text byte_vocab) ids) = ascii ''hi 42''"
  using tokenize_text_lossless [OF byte_vocab_consistent byte_vocab_closed, of "ascii ''hi 42''" "[7]"]
  by simp

text \<open>
  Claim C4. Tokenizing a rendered chat is lossless too: the special tokens found in
  the text become their ids, the spans between them are tokenized, and the texts of
  the ids, joined, are the rendered text.
\<close>

theorem tokenize_rendered_lossless:
  assumes "vocab_consistent v" and "vocab_closed v" and "vocab_specials v"
  shows "\<exists>ids. tokenize_rendered_chat_vocab v (Some s) out = Some (out @ ids) \<and>
     concat (map (vocab_token_text v) ids) = s"
  using tokenize_rendered_lossless_aux [OF assms, of "[]" s out]
  by (simp add: tokenize_rendered_chat_vocab_def)

theorem tokenize_rendered_lossless_witness:
  "\<exists>ids. tokenize_rendered_chat_vocab byte_vocab (Some (tok_user @ ascii ''hi'')) [] = Some ids \<and>
     concat (map (vocab_token_text byte_vocab) ids) = tok_user @ ascii ''hi''"
  using tokenize_rendered_lossless
    [OF byte_vocab_consistent byte_vocab_closed byte_vocab_specials, of "tok_user @ ascii ''hi''" "[]"]
  by simp

text \<open>
  The pre-tokenizer partitions the text: its pieces, joined, are the
  text, and none is empty (so the main loop always makes progress).
\<close>

theorem pretok_partition: "concat (pretok s) = s \<and> [] \<notin> set (pretok s)"
  by (rule pretok_concat)

text \<open>
  The GPT-2 byte alphabet is invertible: decoding the encoded bytes of
  any text gives the text back.
\<close>

theorem byte_encode_roundtrip: "decode_token_bytes (byte_encode bs) = bs"
  by (rule decode_byte_encode)

text \<open>
  On a model that opened, the vocabulary load always returns (no probe
  runs for ever, whatever the array lengths in the file), and when it does not die
  every id the token table gives is in range and designates the string it was looked
  up with, and the special ids are those of the special texts.
\<close>

theorem vocab_load_consistent:
  assumes "model_open ka ta mg file = Inr m" and "length file < 2 ^ 64"
  shows "\<exists>r. vocab_load m = Some r \<and> (\<forall>v. r = Inr v \<longrightarrow> vocab_consistent v \<and> vocab_specials v)"
  using model_open_ok_aux [OF assms] assms(2) by (intro vocab_load_ok_aux) auto

theorem vocab_load_consistent_witness:
  "\<exists>r. vocab_load gguf_sample_model = Some r"
  using vocab_load_consistent [OF gguf_sample_opens gguf_sample_small] by blast

text \<open>
  Claim C5. A chat prompt is the template: the texts of the ids the encoder
  appends are the begin marker, the reasoning prefix of the maximal mode, the system
  text, the user marker, the prompt, the assistant marker and the tag that opens or
  closes the thinking section.
\<close>

theorem encode_chat_prompt_template:
  assumes "vocab_consistent v" and "vocab_closed v" and "vocab_specials v"
  shows "\<exists>ids. encode_chat_prompt v sys prompt mode out = Some (out @ ids) \<and>
     concat (map (vocab_token_text v) ids) =
       tok_bos @ (if mode = DS4_THINK_MAX then DS4_REASONING_EFFORT_MAX_PREFIX else []) @
       (case sys of None \<Rightarrow> [] | Some s \<Rightarrow> s) @ tok_user @ prompt @ tok_assistant @
       (if mode = DS4_THINK_NONE then tok_think_end else tok_think_start)"
proof -
  note lossless = bpe_tokenize_text_lossless_aux [OF assms(1,2)]
  have sp: "vocab_token_text v (bos_id v) = tok_bos" "vocab_token_text v (user_id v) = tok_user"
    "vocab_token_text v (assistant_id v) = tok_assistant"
    "vocab_token_text v (think_start_id v) = tok_think_start"
    "vocab_token_text v (think_end_id v) = tok_think_end"
    using special_text [OF assms(1,3)] by (simp_all add: special_tokens_def)
  obtain i1 where 1: "(if mode = DS4_THINK_MAX
      then bpe_tokenize_text v DS4_REASONING_EFFORT_MAX_PREFIX (out @ [bos_id v])
      else Some (out @ [bos_id v])) = Some (out @ [bos_id v] @ i1)"
    "concat (map (vocab_token_text v) i1) =
       (if mode = DS4_THINK_MAX then DS4_REASONING_EFFORT_MAX_PREFIX else [])"
    using lossless [of DS4_REASONING_EFFORT_MAX_PREFIX "out @ [bos_id v]"]
    by (cases "mode = DS4_THINK_MAX") auto
  define sy where "sy = (case sys of None \<Rightarrow> [] | Some s \<Rightarrow> s)"
  obtain i2 where 2: "(case sys of
        Some s \<Rightarrow> if s \<noteq> [] then bpe_tokenize_text v s (out @ [bos_id v] @ i1)
                  else Some (out @ [bos_id v] @ i1)
      | None \<Rightarrow> Some (out @ [bos_id v] @ i1)) = Some (out @ [bos_id v] @ i1 @ i2)"
    "concat (map (vocab_token_text v) i2) = sy"
    using lossless [of sy "out @ [bos_id v] @ i1"]
    by (cases sys; cases "sy = []") (auto simp: sy_def)
  obtain i3 where 3: "bpe_tokenize_text v prompt ((out @ [bos_id v] @ i1 @ i2) @ [user_id v]) =
      Some (((out @ [bos_id v] @ i1 @ i2) @ [user_id v]) @ i3)"
    "concat (map (vocab_token_text v) i3) = prompt"
    using lossless by blast
  have th: "ds4_think_mode_enabled mode \<longleftrightarrow> mode \<noteq> DS4_THINK_NONE"
    by (cases mode) (simp_all add: ds4_think_mode_enabled_def)
  have "encode_chat_prompt v sys prompt mode out = Some (out @ [bos_id v] @ i1 @ i2 @ [user_id v] @ i3 @
      [assistant_id v, if ds4_think_mode_enabled mode then think_start_id v else think_end_id v])"
    unfolding encode_chat_prompt_def 1(1) bind.bind_lunit 2(1) using 3(1) by simp
  moreover have "concat (map (vocab_token_text v) ([bos_id v] @ i1 @ i2 @ [user_id v] @ i3 @
      [assistant_id v, if ds4_think_mode_enabled mode then think_start_id v else think_end_id v])) =
      tok_bos @ (if mode = DS4_THINK_MAX then DS4_REASONING_EFFORT_MAX_PREFIX else []) @ sy @
      tok_user @ prompt @ tok_assistant @ (if mode = DS4_THINK_NONE then tok_think_end else tok_think_start)"
    using 1(2) 2(2) 3(2) sp th by simp
  ultimately show ?thesis unfolding sy_def by blast
qed

theorem encode_chat_prompt_template_witness:
  "\<exists>ids. encode_chat_prompt byte_vocab None (ascii ''hi'') DS4_THINK_NONE [] = Some ids \<and>
     concat (map (vocab_token_text byte_vocab) ids) =
       tok_bos @ tok_user @ ascii ''hi'' @ tok_assistant @ tok_think_end"
  using encode_chat_prompt_template
    [OF byte_vocab_consistent byte_vocab_closed byte_vocab_specials, of None "ascii ''hi''" DS4_THINK_NONE "[]"]
  by simp

end
