(* ===== verification/Ds4_Weights.thy ===== *)
theory Ds4_Weights
  imports Ds4_Gguf
begin

text \<open>
  Weight binding and model validation, \<^verbatim>\<open>src/model/ds4_weights.c\<close>: tensor names are
  looked up in the GGUF directory and stored in fixed pointer tables, every bound
  tensor is checked against the fixed layout of the model, REAP pruning metadata is
  read, and the integer metadata is compared with the compiled-in geometry.

  A \<^verbatim>\<open>ds4_tensor *\<close> is an index into the tensor directory of the model, \<open>None\<close> for
  \<^verbatim>\<open>NULL\<close>.  Loading an NVFP4 expert writes through such a pointer, so the model is
  part of the state of the binder.  The pointer structs hold only such pointers;
  they are functions from the field names to pointers.  Every \<^verbatim>\<open>exit(1)\<close> is a value
  of \<open>bind_error\<close>.
\<close>

section \<open>Geometry\<close>

definition DS4_N_LAYER :: nat where "DS4_N_LAYER = 43"
definition DS4_N_EMBD :: u64 where "DS4_N_EMBD = 4096"
definition DS4_N_VOCAB :: u64 where "DS4_N_VOCAB = 129280"
definition DS4_N_HEAD :: u64 where "DS4_N_HEAD = 64"
definition DS4_N_HEAD_KV :: u64 where "DS4_N_HEAD_KV = 1"
definition DS4_N_HEAD_DIM :: u64 where "DS4_N_HEAD_DIM = 512"
definition DS4_N_VALUE_DIM :: u64 where "DS4_N_VALUE_DIM = 512"
definition DS4_N_ROT :: u64 where "DS4_N_ROT = 64"
definition DS4_N_OUT_GROUP :: u64 where "DS4_N_OUT_GROUP = 8"
definition DS4_N_LORA_Q :: u64 where "DS4_N_LORA_Q = 1024"
definition DS4_N_LORA_O :: u64 where "DS4_N_LORA_O = 1024"
definition DS4_N_EXPERT :: u64 where "DS4_N_EXPERT = 256"
definition DS4_N_EXPERT_USED :: u64 where "DS4_N_EXPERT_USED = 6"
definition DS4_N_EXPERT_SHARED :: u64 where "DS4_N_EXPERT_SHARED = 1"
definition DS4_N_FF_EXP :: u64 where "DS4_N_FF_EXP = 2048"
definition DS4_N_HASH_LAYER :: nat where "DS4_N_HASH_LAYER = 3"
definition DS4_N_SWA :: u64 where "DS4_N_SWA = 128"
definition DS4_N_INDEXER_HEAD :: u64 where "DS4_N_INDEXER_HEAD = 64"
definition DS4_N_INDEXER_HEAD_DIM :: u64 where "DS4_N_INDEXER_HEAD_DIM = 128"
definition DS4_N_INDEXER_TOP_K :: u64 where "DS4_N_INDEXER_TOP_K = 512"
definition DS4_N_HC :: u64 where "DS4_N_HC = 4"
definition DS4_N_HC_SINKHORN_ITER :: u64 where "DS4_N_HC_SINKHORN_ITER = 20"

lemmas geometry_defs =
  DS4_N_LAYER_def DS4_N_EMBD_def DS4_N_VOCAB_def DS4_N_HEAD_def DS4_N_HEAD_KV_def
  DS4_N_HEAD_DIM_def DS4_N_VALUE_DIM_def DS4_N_ROT_def DS4_N_OUT_GROUP_def DS4_N_LORA_Q_def
  DS4_N_LORA_O_def DS4_N_EXPERT_def DS4_N_EXPERT_USED_def DS4_N_EXPERT_SHARED_def
  DS4_N_FF_EXP_def DS4_N_HASH_LAYER_def DS4_N_SWA_def DS4_N_INDEXER_HEAD_def
  DS4_N_INDEXER_HEAD_DIM_def DS4_N_INDEXER_TOP_K_def DS4_N_HC_def DS4_N_HC_SINKHORN_ITER_def

abbreviation (input) DS4_TENSOR_F32 :: u32 where "DS4_TENSOR_F32 \<equiv> 0"
abbreviation (input) DS4_TENSOR_F16 :: u32 where "DS4_TENSOR_F16 \<equiv> 1"
abbreviation (input) DS4_TENSOR_Q8_0 :: u32 where "DS4_TENSOR_Q8_0 \<equiv> 8"
abbreviation (input) DS4_TENSOR_Q2_K :: u32 where "DS4_TENSOR_Q2_K \<equiv> 10"
abbreviation (input) DS4_TENSOR_Q4_K :: u32 where "DS4_TENSOR_Q4_K \<equiv> 12"
abbreviation (input) DS4_TENSOR_IQ2_XXS :: u32 where "DS4_TENSOR_IQ2_XXS \<equiv> 16"
abbreviation (input) DS4_TENSOR_I32 :: u32 where "DS4_TENSOR_I32 \<equiv> 26"
abbreviation (input) DS4_TENSOR_NVFP4 :: u32 where "DS4_TENSOR_NVFP4 \<equiv> 31"

abbreviation (input) DS4_REAP_POLICY_NONE :: u32 where "DS4_REAP_POLICY_NONE \<equiv> 0"
abbreviation (input) DS4_REAP_POLICY_HASH_PRESERVED :: u32 where "DS4_REAP_POLICY_HASH_PRESERVED \<equiv> 1"
abbreviation (input) DS4_REAP_POLICY_ROUTER_MASK_PRUNED :: u32 where "DS4_REAP_POLICY_ROUTER_MASK_PRUNED \<equiv> 2"
abbreviation (input) DS4_REAP_POLICY_MOE_DISABLED :: u32 where "DS4_REAP_POLICY_MOE_DISABLED \<equiv> 3"

definition ds4_layer_compress_ratio :: "u32 \<Rightarrow> die + u32" where
  "ds4_layer_compress_ratio il =
     (if unat il \<ge> DS4_N_LAYER
      then Inl (Die ''DeepSeek4 layer index is outside the fixed model layout'')
      else if il < 2 then Inr 0
      else Inr (if il AND 1 = 0 then 4 else 128))"

text \<open>The ratio at the callers, whose loops stay below the layer count.\<close>

definition layer_ratio :: "nat \<Rightarrow> u32" where
  "layer_ratio il = (case ds4_layer_compress_ratio (of_nat il) of Inr r \<Rightarrow> r | Inl _ \<Rightarrow> 0)"

section \<open>Errors and required metadata\<close>

datatype bind_error =
    BindDie string
  | ModelDie die
  | MissingKey string
  | KeyNotInteger string
  | MissingTensor string
  | MissingExpert string string
  | MissingScale string
  | TensorType "byte list" u32 u32
  | TensorNotPlain "byte list" u32
  | TensorNotRouted "byte list" u32
  | TensorNdim "byte list" u32 u32
  | TensorDim "byte list" nat u64 u64
  | GateUpTypes nat
  | ReapHashLayer nat
  | ReapPolicy u32 nat
  | ConfigU32 string u32 u32
  | ConfigU64 string u64 u64
  | ConfigBool string bool bool
  | CompressRatio nat u32 u32

definition required_u32 :: "model \<Rightarrow> string \<Rightarrow> bind_error + u32" where
  "required_u32 m key = (case model_get_u32 m key of None \<Rightarrow> Inl (MissingKey key) | Some v \<Rightarrow> Inr v)"

definition required_u64 :: "model \<Rightarrow> string \<Rightarrow> bind_error + u64" where
  "required_u64 m key =
     (case model_find_kv m key of
        None \<Rightarrow> Inl (MissingKey key)
      | Some e \<Rightarrow>
          (let c = cursor_at m (kv_value_pos e)
           in if kv_type e = GGUF_VALUE_UINT64 then
                (case cursor_u64 c of
                   (None, c') \<Rightarrow> Inl (ModelDie (DieCursor (cerror c')))
                 | (Some v, _) \<Rightarrow> Inr v)
              else if kv_type e = GGUF_VALUE_UINT32 then
                (case cursor_u32 c of
                   (None, c') \<Rightarrow> Inl (ModelDie (DieCursor (cerror c')))
                 | (Some v, _) \<Rightarrow> Inr (ucast v))
              else Inl (KeyNotInteger key)))"

definition required_bool :: "model \<Rightarrow> string \<Rightarrow> bind_error + bool" where
  "required_bool m key = (case model_get_bool m key of None \<Rightarrow> Inl (MissingKey key) | Some v \<Rightarrow> Inr v)"

section \<open>Looking tensors up\<close>

type_synonym tensor_ptr = "nat option"

fun find_tensor_from :: "nat \<Rightarrow> tensor list \<Rightarrow> string \<Rightarrow> tensor_ptr" where
  "find_tensor_from i [] name = None"
| "find_tensor_from i (t # ts) name =
     (if length (t_name t) = length name \<and> t_name t = ascii name then Some i
      else find_tensor_from (Suc i) ts name)"

definition find_tensor_ptr :: "model \<Rightarrow> string \<Rightarrow> tensor_ptr" where
  "find_tensor_ptr m name = find_tensor_from 0 (m_tensors m) name"

definition required_tensor :: "model \<Rightarrow> string \<Rightarrow> bind_error + tensor_ptr" where
  "required_tensor m name =
     (case find_tensor_ptr m name of None \<Rightarrow> Inl (MissingTensor name) | Some i \<Rightarrow> Inr (Some i))"

definition tensor_by_namef :: "model \<Rightarrow> string \<Rightarrow> nat \<Rightarrow> bind_error + tensor_ptr" where
  "tensor_by_namef m fmt layer =
     (let name = format_u fmt layer
      in if length name \<ge> 128 then Inl (BindDie ''tensor name is too long'')
         else Inr (find_tensor_ptr m name))"

definition required_tensorf :: "model \<Rightarrow> string \<Rightarrow> nat \<Rightarrow> bind_error + tensor_ptr" where
  "required_tensorf m fmt layer =
     (let name = format_u fmt layer
      in if length name \<ge> 128 then Inl (BindDie ''tensor name is too long'')
         else required_tensor m name)"

text \<open>
  The base name is printed into a 128-byte buffer whose truncation is not checked;
  the two derived names are checked against 160 bytes.
\<close>

definition ds4_load_expert_tensor :: "model \<Rightarrow> string \<Rightarrow> nat \<Rightarrow> bind_error + (model \<times> tensor_ptr)" where
  "ds4_load_expert_tensor m fmt layer =
     (let base = take 127 (if CHR ''%'' \<in> set fmt then format_u fmt layer else fmt);
          name = base @ ''.weight'';
          name4 = base @ ''.nvfp4_weight'';
          scale = base @ ''.nvfp4_scale_2''
      in if length name \<ge> 160 then Inl (BindDie ''tensor name is too long'')
         else case find_tensor_ptr m name of
           Some i \<Rightarrow> Inr (m, Some i)
         | None \<Rightarrow>
        if length name4 \<ge> 160 then Inl (BindDie ''tensor name is too long'')
        else (case find_tensor_ptr m name4 of
           None \<Rightarrow> Inl (MissingExpert base name4)
         | Some i \<Rightarrow>
        if length scale \<ge> 160 then Inl (BindDie ''tensor name is too long'')
        else (case find_tensor_ptr m scale of
           None \<Rightarrow> Inl (MissingScale name4)
         | Some j \<Rightarrow>
             Inr (m\<lparr>m_tensors := (m_tensors m)
                    [i := (m_tensors m ! i)
                       \<lparr>t_nvfp4_scale_2 := Some (t_abs_offset (m_tensors m ! j)),
                        t_type := DS4_TENSOR_NVFP4\<rparr>]\<rparr>, Some i))))"

section \<open>The pointer tables\<close>

datatype layer_field =
    hc_attn_fn | hc_attn_scale | hc_attn_base | attn_norm | attn_q_a | attn_q_a_norm | attn_q_b
  | attn_kv | attn_kv_a_norm | attn_sinks | attn_output_a | attn_output_b
  | attn_compressor_ape | attn_compressor_kv | attn_compressor_gate | attn_compressor_norm
  | indexer_attn_q_b | indexer_proj | indexer_compressor_ape | indexer_compressor_kv
  | indexer_compressor_gate | indexer_compressor_norm
  | hc_ffn_fn | hc_ffn_scale | hc_ffn_base | ffn_norm | ffn_gate_tid2eid | ffn_gate_inp
  | ffn_exp_probs_b | ffn_gate_exps | ffn_up_exps | ffn_down_exps
  | ffn_gate_shexp | ffn_up_shexp | ffn_down_shexp

record layer_weights =
  lw :: "layer_field \<Rightarrow> tensor_ptr"
  reap_policy :: u32
  reap_expert_count :: u32
  reap_keep_count :: u32
  reap_moe_disabled :: bool

datatype top_field = token_embd | output_hc_base | output_hc_fn | output_hc_scale | output_norm | output_w

record weights =
  tw :: "top_field \<Rightarrow> tensor_ptr"
  layer :: "layer_weights list"
  reap_compact_layout :: bool

datatype mtp_field = e_proj | h_proj | enorm | hnorm | mtp_norm | hc_head_base | hc_head_fn | hc_head_scale

record mtp_weights =
  mw :: "mtp_field \<Rightarrow> tensor_ptr"
  block :: layer_weights

definition zero_layer :: layer_weights where
  "zero_layer = \<lparr>lw = (\<lambda>_. None), reap_policy = 0, reap_expert_count = 0, reap_keep_count = 0,
                 reap_moe_disabled = False\<rparr>"

section \<open>Binding\<close>

text \<open>
  One assignment of a binder: \<open>Named\<close> calls \<^verbatim>\<open>required_tensor\<close>, \<open>Required\<close>
  \<^verbatim>\<open>required_tensorf\<close>, \<open>Optional\<close> \<^verbatim>\<open>tensor_by_namef\<close> and \<open>Expert\<close>
  \<^verbatim>\<open>ds4_load_expert_tensor\<close>.
\<close>

datatype 'f bind_op = Named 'f string | Required 'f string | Optional 'f string | Expert 'f string

type_synonym 'f bind_state = "model \<times> ('f \<Rightarrow> tensor_ptr)"

fun bind_step :: "nat \<Rightarrow> 'f bind_op \<Rightarrow> 'f bind_state \<Rightarrow> bind_error + 'f bind_state" where
  "bind_step il (Named f name) (m, p) =
     (case required_tensor m name of Inl e \<Rightarrow> Inl e | Inr t \<Rightarrow> Inr (m, p(f := t)))"
| "bind_step il (Required f fmt) (m, p) =
     (case required_tensorf m fmt il of Inl e \<Rightarrow> Inl e | Inr t \<Rightarrow> Inr (m, p(f := t)))"
| "bind_step il (Optional f fmt) (m, p) =
     (case tensor_by_namef m fmt il of Inl e \<Rightarrow> Inl e | Inr t \<Rightarrow> Inr (m, p(f := t)))"
| "bind_step il (Expert f fmt) (m, p) =
     (case ds4_load_expert_tensor m fmt il of
        Inl e \<Rightarrow> Inl e
      | Inr (m', t) \<Rightarrow> Inr (m', p(f := t)))"

fun bind_all :: "nat \<Rightarrow> 'f bind_op list \<Rightarrow> 'f bind_state \<Rightarrow> bind_error + 'f bind_state" where
  "bind_all il [] s = Inr s"
| "bind_all il (x # xs) s =
     (case bind_step il x s of Inl e \<Rightarrow> Inl e | Inr s' \<Rightarrow> bind_all il xs s')"

definition top_binds :: "top_field bind_op list" where
  "top_binds =
    [Named token_embd ''token_embd.weight'',
     Named output_hc_base ''output_hc_base.weight'',
     Named output_hc_fn ''output_hc_fn.weight'',
     Named output_hc_scale ''output_hc_scale.weight'',
     Named output_norm ''output_norm.weight'',
     Named output_w ''output.weight'']"

definition layer_binds :: "nat \<Rightarrow> layer_field bind_op list" where
  "layer_binds il =
    (let compress_ratio = layer_ratio il in
    [Required hc_attn_fn ''blk.%u.hc_attn_fn.weight'',
     Required hc_attn_scale ''blk.%u.hc_attn_scale.weight'',
     Required hc_attn_base ''blk.%u.hc_attn_base.weight'',
     Required attn_norm ''blk.%u.attn_norm.weight'',
     Required attn_q_a ''blk.%u.attn_q_a.weight'',
     Required attn_q_a_norm ''blk.%u.attn_q_a_norm.weight'',
     Required attn_q_b ''blk.%u.attn_q_b.weight'',
     Required attn_kv ''blk.%u.attn_kv.weight'',
     Required attn_kv_a_norm ''blk.%u.attn_kv_a_norm.weight'',
     Required attn_sinks ''blk.%u.attn_sinks.weight'',
     Required attn_output_a ''blk.%u.attn_output_a.weight'',
     Required attn_output_b ''blk.%u.attn_output_b.weight''] @
    (if compress_ratio \<noteq> 0 then
      [Required attn_compressor_ape ''blk.%u.attn_compressor_ape.weight'',
       Required attn_compressor_kv ''blk.%u.attn_compressor_kv.weight'',
       Required attn_compressor_gate ''blk.%u.attn_compressor_gate.weight'',
       Required attn_compressor_norm ''blk.%u.attn_compressor_norm.weight''] else []) @
    (if compress_ratio = 4 then
      [Required indexer_attn_q_b ''blk.%u.indexer.attn_q_b.weight'',
       Required indexer_proj ''blk.%u.indexer.proj.weight'',
       Required indexer_compressor_ape ''blk.%u.indexer_compressor_ape.weight'',
       Required indexer_compressor_kv ''blk.%u.indexer_compressor_kv.weight'',
       Required indexer_compressor_gate ''blk.%u.indexer_compressor_gate.weight'',
       Required indexer_compressor_norm ''blk.%u.indexer_compressor_norm.weight''] else []) @
    [Required hc_ffn_fn ''blk.%u.hc_ffn_fn.weight'',
     Required hc_ffn_scale ''blk.%u.hc_ffn_scale.weight'',
     Required hc_ffn_base ''blk.%u.hc_ffn_base.weight'',
     Required ffn_norm ''blk.%u.ffn_norm.weight'',
     Required ffn_gate_inp ''blk.%u.ffn_gate_inp.weight'',
     Optional ffn_exp_probs_b ''blk.%u.exp_probs_b.bias'',
     Expert ffn_gate_exps ''blk.%u.ffn_gate_exps'',
     Expert ffn_up_exps ''blk.%u.ffn_up_exps'',
     Expert ffn_down_exps ''blk.%u.ffn_down_exps'',
     Required ffn_gate_shexp ''blk.%u.ffn_gate_shexp.weight'',
     Required ffn_up_shexp ''blk.%u.ffn_up_shexp.weight'',
     Required ffn_down_shexp ''blk.%u.ffn_down_shexp.weight''] @
    (if il < DS4_N_HASH_LAYER then [Required ffn_gate_tid2eid ''blk.%u.ffn_gate_tid2eid.weight''] else []))"

text \<open>The layer loop: \<open>n\<close> layers from \<open>il\<close> on.\<close>

fun bind_layers :: "nat \<Rightarrow> nat \<Rightarrow> model \<Rightarrow> layer_weights list \<Rightarrow> bind_error + (model \<times> layer_weights list)" where
  "bind_layers il 0 m ls = Inr (m, ls)"
| "bind_layers il (Suc n) m ls =
     (case bind_all il (layer_binds il) (m, lw zero_layer) of
        Inl e \<Rightarrow> Inl e
      | Inr (m', p) \<Rightarrow> bind_layers (Suc il) n m' (ls @ [zero_layer\<lparr>lw := p\<rparr>]))"

section \<open>Layout checks\<close>

text \<open>\<open>expect_dims i n\<close> compares dimensions \<open>i .. i + n - 1\<close>.\<close>

fun expect_dims :: "tensor \<Rightarrow> nat \<Rightarrow> nat \<Rightarrow> u64 list \<Rightarrow> bind_error + unit" where
  "expect_dims t i 0 want = Inr ()"
| "expect_dims t i (Suc n) want =
     (if t_dim t ! i = want ! i then expect_dims t (Suc i) n want
      else Inl (TensorDim (t_name t) i (t_dim t ! i) (want ! i)))"

definition tensor_expect_layout ::
  "model \<Rightarrow> tensor_ptr \<Rightarrow> u32 \<Rightarrow> u32 \<Rightarrow> u64 \<Rightarrow> u64 \<Rightarrow> u64 \<Rightarrow> bind_error + unit" where
  "tensor_expect_layout m p ty ndim d0 d1 d2 =
     (case p of
        None \<Rightarrow> Inl (BindDie ''internal error: missing tensor while validating layout'')
      | Some i \<Rightarrow>
          (let t = m_tensors m ! i
           in if t_type t \<noteq> ty then Inl (TensorType (t_name t) (t_type t) ty)
              else if t_ndim t \<noteq> ndim then Inl (TensorNdim (t_name t) (t_ndim t) ndim)
              else expect_dims t 0 (unat ndim) [d0, d1, d2]))"

definition tensor_expect_optional ::
  "model \<Rightarrow> tensor_ptr \<Rightarrow> u32 \<Rightarrow> u32 \<Rightarrow> u64 \<Rightarrow> u64 \<Rightarrow> u64 \<Rightarrow> bind_error + unit" where
  "tensor_expect_optional m p ty ndim d0 d1 d2 =
     (if p = None then Inr () else tensor_expect_layout m p ty ndim d0 d1 d2)"

definition tensor_expect_plain_layout ::
  "model \<Rightarrow> tensor_ptr \<Rightarrow> u32 \<Rightarrow> u64 \<Rightarrow> u64 \<Rightarrow> u64 \<Rightarrow> bind_error + unit" where
  "tensor_expect_plain_layout m p ndim d0 d1 d2 =
     (case p of
        None \<Rightarrow> Inl (BindDie ''internal error: missing tensor while validating layout'')
      | Some i \<Rightarrow>
          (let t = m_tensors m ! i
           in if t_type t \<noteq> DS4_TENSOR_F16 \<and> t_type t \<noteq> DS4_TENSOR_F32
              then Inl (TensorNotPlain (t_name t) (t_type t))
              else tensor_expect_layout m p (t_type t) ndim d0 d1 d2))"

definition tensor_is_routed_expert_type :: "u32 \<Rightarrow> bool" where
  "tensor_is_routed_expert_type ty \<longleftrightarrow>
     ty = DS4_TENSOR_IQ2_XXS \<or> ty = DS4_TENSOR_Q2_K \<or> ty = DS4_TENSOR_Q4_K \<or> ty = DS4_TENSOR_NVFP4"

definition routed_expert_block_bytes :: "u32 \<Rightarrow> bind_error + u64" where
  "routed_expert_block_bytes ty =
     (if ty = DS4_TENSOR_IQ2_XXS then Inr 66
      else if ty = DS4_TENSOR_Q2_K then Inr 84
      else if ty = DS4_TENSOR_Q4_K then Inr 144
      else if ty = DS4_TENSOR_NVFP4 then Inr 144
      else Inl (BindDie ''unsupported routed expert tensor type''))"

definition routed_expert_row_bytes :: "tensor \<Rightarrow> bind_error + u64" where
  "routed_expert_row_bytes t =
     (if t_dim t ! 0 mod 256 \<noteq> 0 then Inl (BindDie ''routed expert row is not QK_K aligned'')
      else case routed_expert_block_bytes (t_type t) of
             Inl e \<Rightarrow> Inl e
           | Inr b \<Rightarrow> Inr (t_dim t ! 0 div 256 * b))"

text \<open>The pointer is dereferenced without a null test: the binder never leaves it null.\<close>

definition tensor_expect_routed_expert ::
  "model \<Rightarrow> tensor_ptr \<Rightarrow> u32 \<Rightarrow> u64 \<Rightarrow> u64 \<Rightarrow> u64 \<Rightarrow> bind_error + unit" where
  "tensor_expect_routed_expert m p ndim d0 d1 d2 =
     (let t = m_tensors m ! the p
      in if \<not> tensor_is_routed_expert_type (t_type t) then Inl (TensorNotRouted (t_name t) (t_type t))
         else if t_ndim t \<noteq> ndim then Inl (TensorNdim (t_name t) (t_ndim t) ndim)
         else expect_dims t 0 (unat ndim) [d0, d1, d2])"

definition layer_stored_expert_count :: "model \<Rightarrow> layer_weights \<Rightarrow> bind_error + u32" where
  "layer_stored_expert_count m l =
     (case lw l ffn_gate_inp of
        None \<Rightarrow> Inr (ucast DS4_N_EXPERT)
      | Some i \<Rightarrow>
          (let t = m_tensors m ! i
           in if t_ndim t < 2 then Inr (ucast DS4_N_EXPERT)
              else if t_dim t ! 1 > 0xffffffff then Inl (BindDie ''layer expert count exceeds u32'')
              else Inr (ucast (t_dim t ! 1))))"

definition weights_expected_layer_experts :: "weights \<Rightarrow> layer_weights \<Rightarrow> u32" where
  "weights_expected_layer_experts w l =
     (if \<not> reap_compact_layout w then ucast DS4_N_EXPERT
      else if reap_moe_disabled l then 0
      else if reap_keep_count l > 0 then reap_keep_count l
      else if reap_expert_count l > 0 then reap_expert_count l
      else ucast DS4_N_EXPERT)"


section \<open>Validating the layout\<close>

text \<open>The checks run in order and the first failure exits.\<close>

fun check_all :: "(bind_error + unit) list \<Rightarrow> bind_error + unit" where
  "check_all [] = Inr ()"
| "check_all (c # cs) = (case c of Inl e \<Rightarrow> Inl e | Inr _ \<Rightarrow> check_all cs)"

definition hc_dim :: u64 where "hc_dim = DS4_N_EMBD * DS4_N_HC"
definition hc_mix_dim :: u64 where "hc_mix_dim = 2 * DS4_N_HC + DS4_N_HC * DS4_N_HC"
definition q_dim :: u64 where "q_dim = DS4_N_HEAD * DS4_N_HEAD_DIM"
definition out_low_dim :: u64 where "out_low_dim = DS4_N_OUT_GROUP * DS4_N_LORA_O"
definition group_in_dim :: u64 where "group_in_dim = DS4_N_HEAD_DIM * (DS4_N_HEAD div DS4_N_OUT_GROUP)"

lemmas layout_dims = hc_dim_def hc_mix_dim_def q_dim_def out_low_dim_def group_in_dim_def geometry_defs

definition top_checks :: "model \<Rightarrow> weights \<Rightarrow> (bind_error + unit) list" where
  "top_checks m w =
    (let L = (\<lambda>f. tensor_expect_layout m (tw w f)) in
    [L token_embd DS4_TENSOR_F16 2 DS4_N_EMBD DS4_N_VOCAB 0,
     L output_hc_base DS4_TENSOR_F32 1 DS4_N_HC 0 0,
     L output_hc_fn DS4_TENSOR_F16 2 hc_dim DS4_N_HC 0,
     L output_hc_scale DS4_TENSOR_F32 1 1 0 0,
     L output_norm DS4_TENSOR_F32 1 DS4_N_EMBD 0 0,
     L output_w DS4_TENSOR_Q8_0 2 DS4_N_EMBD DS4_N_VOCAB 0])"

definition attn_checks :: "model \<Rightarrow> layer_weights \<Rightarrow> (bind_error + unit) list" where
  "attn_checks m l =
    (let L = (\<lambda>f. tensor_expect_layout m (lw l f)) in
    [L hc_attn_scale DS4_TENSOR_F32 1 3 0 0,
     L hc_attn_base DS4_TENSOR_F32 1 hc_mix_dim 0 0,
     L attn_norm DS4_TENSOR_F32 1 DS4_N_EMBD 0 0,
     L attn_q_a DS4_TENSOR_Q8_0 2 DS4_N_EMBD DS4_N_LORA_Q 0,
     L attn_q_a_norm DS4_TENSOR_F32 1 DS4_N_LORA_Q 0 0,
     L attn_q_b DS4_TENSOR_Q8_0 2 DS4_N_LORA_Q q_dim 0,
     L attn_kv DS4_TENSOR_Q8_0 2 DS4_N_EMBD DS4_N_HEAD_DIM 0,
     L attn_kv_a_norm DS4_TENSOR_F32 1 DS4_N_HEAD_DIM 0 0,
     L attn_sinks DS4_TENSOR_F32 1 DS4_N_HEAD 0 0,
     L attn_output_a DS4_TENSOR_Q8_0 2 group_in_dim out_low_dim 0,
     L attn_output_b DS4_TENSOR_Q8_0 2 out_low_dim DS4_N_EMBD 0])"

definition layer_checks :: "model \<Rightarrow> weights \<Rightarrow> nat \<Rightarrow> (bind_error + unit) list" where
  "layer_checks m w il =
    (let l = layer w ! il;
         L = (\<lambda>f. tensor_expect_layout m (lw l f));
         ratio = layer_ratio il;
         comp_width = (if ratio = 4 then 2 else 1) * DS4_N_HEAD_DIM;
         index_q_dim = DS4_N_INDEXER_HEAD * DS4_N_INDEXER_HEAD_DIM;
         index_width = 2 * DS4_N_INDEXER_HEAD_DIM;
         n_layer_expert = ucast (weights_expected_layer_experts w l);
         shared_out = (if reap_compact_layout w \<and> reap_moe_disabled l then 0 else DS4_N_FF_EXP);
         shared_down_out = (if reap_compact_layout w \<and> reap_moe_disabled l then 0 else DS4_N_EMBD)
     in
    [L hc_attn_fn DS4_TENSOR_F16 2 hc_dim hc_mix_dim 0] @ attn_checks m l @
    (if ratio \<noteq> 0 then
      [L attn_compressor_ape DS4_TENSOR_F16 2 comp_width (ucast ratio) 0,
       L attn_compressor_kv DS4_TENSOR_F16 2 DS4_N_EMBD comp_width 0,
       L attn_compressor_gate DS4_TENSOR_F16 2 DS4_N_EMBD comp_width 0,
       L attn_compressor_norm DS4_TENSOR_F32 1 DS4_N_HEAD_DIM 0 0] else []) @
    (if ratio = 4 then
      [L indexer_attn_q_b DS4_TENSOR_F16 2 DS4_N_LORA_Q index_q_dim 0,
       L indexer_proj DS4_TENSOR_F16 2 DS4_N_EMBD DS4_N_INDEXER_HEAD 0,
       L indexer_compressor_ape DS4_TENSOR_F16 2 index_width (ucast ratio) 0,
       L indexer_compressor_kv DS4_TENSOR_F16 2 DS4_N_EMBD index_width 0,
       L indexer_compressor_gate DS4_TENSOR_F16 2 DS4_N_EMBD index_width 0,
       L indexer_compressor_norm DS4_TENSOR_F32 1 DS4_N_INDEXER_HEAD_DIM 0 0] else []) @
    [L hc_ffn_fn DS4_TENSOR_F16 2 hc_dim hc_mix_dim 0,
     L hc_ffn_scale DS4_TENSOR_F32 1 3 0 0,
     L hc_ffn_base DS4_TENSOR_F32 1 hc_mix_dim 0 0,
     L ffn_norm DS4_TENSOR_F32 1 DS4_N_EMBD 0 0,
     L ffn_gate_inp DS4_TENSOR_F16 2 DS4_N_EMBD n_layer_expert 0,
     tensor_expect_optional m (lw l ffn_exp_probs_b) DS4_TENSOR_F32 1 n_layer_expert 0 0,
     tensor_expect_routed_expert m (lw l ffn_gate_exps) 3 DS4_N_EMBD DS4_N_FF_EXP n_layer_expert,
     tensor_expect_routed_expert m (lw l ffn_up_exps) 3 DS4_N_EMBD DS4_N_FF_EXP n_layer_expert,
     tensor_expect_routed_expert m (lw l ffn_down_exps) 3 DS4_N_FF_EXP DS4_N_EMBD n_layer_expert,
     (if t_type (m_tensors m ! the (lw l ffn_gate_exps)) \<noteq> t_type (m_tensors m ! the (lw l ffn_up_exps))
      then Inl (GateUpTypes il) else Inr ()),
     L ffn_gate_shexp DS4_TENSOR_Q8_0 2 DS4_N_EMBD shared_out 0,
     L ffn_up_shexp DS4_TENSOR_Q8_0 2 DS4_N_EMBD shared_out 0,
     L ffn_down_shexp DS4_TENSOR_Q8_0 2 DS4_N_FF_EXP shared_down_out 0] @
    (if il < DS4_N_HASH_LAYER
     then [L ffn_gate_tid2eid DS4_TENSOR_I32 2 DS4_N_EXPERT_USED DS4_N_VOCAB 0] else []))"

definition weights_validate_layout :: "model \<Rightarrow> weights \<Rightarrow> bind_error + unit" where
  "weights_validate_layout m w =
     check_all (top_checks m w @ concat (map (layer_checks m w) [0..<DS4_N_LAYER]))"

section \<open>REAP pruning metadata\<close>

definition reap_layer :: "nat \<Rightarrow> u32 \<Rightarrow> u32 \<Rightarrow> u32 \<Rightarrow> layer_weights \<Rightarrow> bind_error + layer_weights" where
  "reap_layer il policy expert_count keep_count l =
     (let l' = l\<lparr>reap_policy := policy, reap_expert_count := expert_count,
                 reap_keep_count := keep_count,
                 reap_moe_disabled := (policy = DS4_REAP_POLICY_MOE_DISABLED)\<rparr>
      in if reap_moe_disabled l' \<and> il < DS4_N_HASH_LAYER then Inl (ReapHashLayer il)
         else if policy = DS4_REAP_POLICY_NONE \<or> policy = DS4_REAP_POLICY_HASH_PRESERVED \<or>
                 policy = DS4_REAP_POLICY_ROUTER_MASK_PRUNED \<or> policy = DS4_REAP_POLICY_MOE_DISABLED
         then Inr l'
         else Inl (ReapPolicy policy il))"

text \<open>The loop over the layers, with the three metadata arrays.\<close>

fun reap_layers :: "nat \<Rightarrow> u32 list \<Rightarrow> u32 list \<Rightarrow> u32 list \<Rightarrow> layer_weights list
    \<Rightarrow> bind_error + layer_weights list" where
  "reap_layers il policy expert_count keep_count [] = Inr []"
| "reap_layers il policy expert_count keep_count (l # ls) =
     (case reap_layer il (policy ! il) (expert_count ! il) (keep_count ! il) l of
        Inl e \<Rightarrow> Inl e
      | Inr l' \<Rightarrow>
          (case reap_layers (Suc il) policy expert_count keep_count ls of
             Inl e \<Rightarrow> Inl e
           | Inr ls' \<Rightarrow> Inr (l' # ls')))"

text \<open>An array that is absent stays all zero; one with a wrong shape dies.\<close>

definition reap_array :: "model \<Rightarrow> string \<Rightarrow> bind_error + u32 list" where
  "reap_array m key =
     (case model_get_u32_array_exact m key (of_nat DS4_N_LAYER) of
        None \<Rightarrow> Inr (replicate DS4_N_LAYER 0)
      | Some (Inl e) \<Rightarrow> Inl (ModelDie e)
      | Some (Inr xs) \<Rightarrow> Inr xs)"

definition weights_apply_reap_metadata :: "model \<Rightarrow> weights \<Rightarrow> bind_error + weights" where
  "weights_apply_reap_metadata m w =
     (if model_get_bool m ''reap.enabled'' \<noteq> Some True then Inr w
      else case model_get_string m ''reap.layout'' of
        None \<Rightarrow> Inl (BindDie ''reap.enabled is true but reap.layout is missing'')
      | Some layout \<Rightarrow>
          if \<not> ds4_streq layout ''ds4-compact-v1'' \<and> \<not> ds4_streq layout ''ds4-padded-v1''
          then Inl (BindDie ''reap.enabled is true but reap.layout is neither ds4-compact-v1 nor ds4-padded-v1'')
          else
            let w' = (if ds4_streq layout ''ds4-compact-v1'' then w\<lparr>reap_compact_layout := True\<rparr> else w)
            in if model_get_array m ''reap.layer.policy'' = None
               then Inl (BindDie ''reap.enabled is true but reap.layer.policy metadata is missing'')
               else case reap_array m ''reap.layer.policy'' of
                 Inl e \<Rightarrow> Inl e
               | Inr policy \<Rightarrow>
                   (case reap_array m ''reap.layer.expert_count'' of
                      Inl e \<Rightarrow> Inl e
                    | Inr expert_count \<Rightarrow>
                        (case reap_array m ''reap.layer.keep_count'' of
                           Inl e \<Rightarrow> Inl e
                         | Inr keep_count \<Rightarrow>
                             (case reap_layers 0 policy expert_count keep_count (layer w') of
                                Inl e \<Rightarrow> Inl e
                              | Inr ls \<Rightarrow> Inr (w'\<lparr>layer := ls\<rparr>)))))"

definition weights_bind :: "model \<Rightarrow> bind_error + (model \<times> weights)" where
  "weights_bind m =
     (case bind_all 0 top_binds (m, \<lambda>_. None) of
        Inl e \<Rightarrow> Inl e
      | Inr (m1, tp) \<Rightarrow>
          (case bind_layers 0 DS4_N_LAYER m1 [] of
             Inl e \<Rightarrow> Inl e
           | Inr (m2, ls) \<Rightarrow>
               (case weights_apply_reap_metadata m2
                       \<lparr>tw = tp, layer = ls, reap_compact_layout = False\<rparr> of
                  Inl e \<Rightarrow> Inl e
                | Inr w \<Rightarrow>
                    (case weights_validate_layout m2 w of
                       Inl e \<Rightarrow> Inl e
                     | Inr _ \<Rightarrow> Inr (m2, w)))))"

section \<open>The MTP block\<close>

definition mtp_binds :: "mtp_field bind_op list" where
  "mtp_binds =
    [Named hc_head_base ''mtp.0.hc_head_base.weight'',
     Named hc_head_fn ''mtp.0.hc_head_fn.weight'',
     Named hc_head_scale ''mtp.0.hc_head_scale.weight'',
     Named e_proj ''mtp.0.e_proj.weight'',
     Named h_proj ''mtp.0.h_proj.weight'',
     Named enorm ''mtp.0.enorm.weight'',
     Named hnorm ''mtp.0.hnorm.weight'',
     Named mtp_norm ''mtp.0.norm.weight'']"

definition mtp_block_binds :: "layer_field bind_op list" where
  "mtp_block_binds =
    [Named hc_attn_fn ''mtp.0.hc_attn_fn.weight'',
     Named hc_attn_scale ''mtp.0.hc_attn_scale.weight'',
     Named hc_attn_base ''mtp.0.hc_attn_base.weight'',
     Named attn_norm ''mtp.0.attn_norm.weight'',
     Named attn_q_a ''mtp.0.attn_q_a.weight'',
     Named attn_q_a_norm ''mtp.0.attn_q_a_norm.weight'',
     Named attn_q_b ''mtp.0.attn_q_b.weight'',
     Named attn_kv ''mtp.0.attn_kv.weight'',
     Named attn_kv_a_norm ''mtp.0.attn_kv_a_norm.weight'',
     Named attn_sinks ''mtp.0.attn_sinks.weight'',
     Named attn_output_a ''mtp.0.attn_output_a.weight'',
     Named attn_output_b ''mtp.0.attn_output_b.weight'',
     Named hc_ffn_fn ''mtp.0.hc_ffn_fn.weight'',
     Named hc_ffn_scale ''mtp.0.hc_ffn_scale.weight'',
     Named hc_ffn_base ''mtp.0.hc_ffn_base.weight'',
     Named ffn_norm ''mtp.0.ffn_norm.weight'',
     Named ffn_gate_inp ''mtp.0.ffn_gate_inp.weight'',
     Named ffn_exp_probs_b ''mtp.0.exp_probs_b.bias'',
     Expert ffn_gate_exps ''mtp.0.ffn_gate_exps'',
     Expert ffn_up_exps ''mtp.0.ffn_up_exps'',
     Expert ffn_down_exps ''mtp.0.ffn_down_exps'',
     Named ffn_gate_shexp ''mtp.0.ffn_gate_shexp.weight'',
     Named ffn_up_shexp ''mtp.0.ffn_up_shexp.weight'',
     Named ffn_down_shexp ''mtp.0.ffn_down_shexp.weight'']"

definition mtp_weights_validate_layout :: "model \<Rightarrow> mtp_weights \<Rightarrow> bind_error + unit" where
  "mtp_weights_validate_layout m w =
    (let l = block w;
         M = (\<lambda>f. tensor_expect_layout m (mw w f));
         L = (\<lambda>f. tensor_expect_layout m (lw l f));
         P = (\<lambda>f. tensor_expect_plain_layout m (lw l f))
     in check_all
    ([M hc_head_base DS4_TENSOR_F32 1 DS4_N_HC 0 0,
      tensor_expect_plain_layout m (mw w hc_head_fn) 2 hc_dim DS4_N_HC 0,
      M hc_head_scale DS4_TENSOR_F32 1 1 0 0,
      M e_proj DS4_TENSOR_Q8_0 2 DS4_N_EMBD DS4_N_EMBD 0,
      M h_proj DS4_TENSOR_Q8_0 2 DS4_N_EMBD DS4_N_EMBD 0,
      M enorm DS4_TENSOR_F32 1 DS4_N_EMBD 0 0,
      M hnorm DS4_TENSOR_F32 1 DS4_N_EMBD 0 0,
      M mtp_norm DS4_TENSOR_F32 1 DS4_N_EMBD 0 0,
      P hc_attn_fn 2 hc_dim hc_mix_dim 0] @ attn_checks m l @
     [P hc_ffn_fn 2 hc_dim hc_mix_dim 0,
      L hc_ffn_scale DS4_TENSOR_F32 1 3 0 0,
      L hc_ffn_base DS4_TENSOR_F32 1 hc_mix_dim 0 0,
      L ffn_norm DS4_TENSOR_F32 1 DS4_N_EMBD 0 0,
      P ffn_gate_inp 2 DS4_N_EMBD DS4_N_EXPERT 0,
      L ffn_exp_probs_b DS4_TENSOR_F32 1 DS4_N_EXPERT 0 0,
      tensor_expect_routed_expert m (lw l ffn_gate_exps) 3 DS4_N_EMBD DS4_N_FF_EXP DS4_N_EXPERT,
      tensor_expect_routed_expert m (lw l ffn_up_exps) 3 DS4_N_EMBD DS4_N_FF_EXP DS4_N_EXPERT,
      tensor_expect_routed_expert m (lw l ffn_down_exps) 3 DS4_N_FF_EXP DS4_N_EMBD DS4_N_EXPERT,
      (if t_type (m_tensors m ! the (lw l ffn_gate_exps)) \<noteq> t_type (m_tensors m ! the (lw l ffn_up_exps))
       then Inl (BindDie ''MTP routed gate/up experts use different quant types'') else Inr ()),
      L ffn_gate_shexp DS4_TENSOR_Q8_0 2 DS4_N_EMBD DS4_N_FF_EXP 0,
      L ffn_up_shexp DS4_TENSOR_Q8_0 2 DS4_N_EMBD DS4_N_FF_EXP 0,
      L ffn_down_shexp DS4_TENSOR_Q8_0 2 DS4_N_FF_EXP DS4_N_EMBD 0]))"

definition mtp_weights_bind :: "model \<Rightarrow> bind_error + (model \<times> mtp_weights)" where
  "mtp_weights_bind m =
     (case bind_all 0 mtp_binds (m, \<lambda>_. None) of
        Inl e \<Rightarrow> Inl e
      | Inr (m1, p) \<Rightarrow>
          (case bind_all 0 mtp_block_binds (m1, \<lambda>_. None) of
             Inl e \<Rightarrow> Inl e
           | Inr (m2, q) \<Rightarrow>
               (let w = \<lparr>mw = p, block = zero_layer\<lparr>lw := q\<rparr>\<rparr>
                in case mtp_weights_validate_layout m2 w of
                     Inl e \<Rightarrow> Inl e
                   | Inr _ \<Rightarrow> Inr (m2, w))))"


section \<open>Validating the metadata\<close>

definition config_expect_u32 :: "string \<Rightarrow> u32 \<Rightarrow> u64 \<Rightarrow> bind_error + unit" where
  "config_expect_u32 name got expected =
     (if got = ucast expected then Inr () else Inl (ConfigU32 name (ucast expected) got))"

definition config_expect_bool :: "string \<Rightarrow> bool \<Rightarrow> bool \<Rightarrow> bind_error + unit" where
  "config_expect_bool name got expected =
     (if got = expected then Inr () else Inl (ConfigBool name expected got))"

text \<open>A required key read into a local, and a local compared later.\<close>

definition read_u32 :: "model \<Rightarrow> string \<Rightarrow> bind_error + unit" where
  "read_u32 m key = (case required_u32 m key of Inl e \<Rightarrow> Inl e | Inr _ \<Rightarrow> Inr ())"

definition expect_key :: "model \<Rightarrow> string \<Rightarrow> string \<Rightarrow> u64 \<Rightarrow> bind_error + unit" where
  "expect_key m key name expected =
     (case required_u32 m key of Inl e \<Rightarrow> Inl e | Inr v \<Rightarrow> config_expect_u32 name v expected)"

text \<open>A key that may be absent, in which case its local stays 0.\<close>

definition expect_optional_key :: "model \<Rightarrow> string \<Rightarrow> string \<Rightarrow> u64 \<Rightarrow> bind_error + unit" where
  "expect_optional_key m key name expected =
     config_expect_u32 name (case model_get_u32 m key of None \<Rightarrow> 0 | Some v \<Rightarrow> v) expected"

fun compress_ratio_loop :: "u32 \<Rightarrow> nat \<Rightarrow> nat \<Rightarrow> cursor \<Rightarrow> bind_error + unit" where
  "compress_ratio_loop ty il 0 c = Inr ()"
| "compress_ratio_loop ty il (Suc n) c =
     (case cursor_u32 c of
        (None, c') \<Rightarrow> Inl (ModelDie (DieCursor (cerror c')))
      | (Some got, c') \<Rightarrow>
          if ty \<noteq> GGUF_VALUE_UINT32 \<and> sint got < 0
          then Inl (BindDie ''metadata array contains a negative value'')
          else (case ds4_layer_compress_ratio (of_nat il) of
                  Inl e \<Rightarrow> Inl (ModelDie e)
                | Inr expected \<Rightarrow>
                    if got \<noteq> expected then Inl (CompressRatio il got expected)
                    else compress_ratio_loop ty (Suc il) n c'))"

definition validate_compress_ratio_metadata :: "model \<Rightarrow> bind_error + unit" where
  "validate_compress_ratio_metadata m =
     (let key = ''deepseek4.attention.compress_ratios'' in
      case model_get_array m key of
        None \<Rightarrow> Inl (MissingKey key)
      | Some arr \<Rightarrow>
          if arr_type arr \<noteq> GGUF_VALUE_UINT32 \<and> arr_type arr \<noteq> GGUF_VALUE_INT32
          then Inl (MissingKey key)
          else if arr_len arr < of_nat DS4_N_LAYER
          then Inl (BindDie ''deepseek4.attention.compress_ratios is shorter than the layer count'')
          else compress_ratio_loop (arr_type arr) 0 DS4_N_LAYER (cursor_at m (arr_data_pos arr)))"

text \<open>
  \<^verbatim>\<open>config_validate_model\<close> up to the compression ratios: the integer half of the
  checks, in the order of the source.  The float half that follows compares IEEE
  values with a tolerance and is not modelled.
\<close>

definition config_keys :: "string list" where
  "config_keys =
    [''deepseek4.block_count'', ''deepseek4.embedding_length'', ''deepseek4.vocab_size'',
     ''deepseek4.attention.head_count'', ''deepseek4.attention.head_count_kv'',
     ''deepseek4.attention.key_length'', ''deepseek4.attention.value_length'',
     ''deepseek4.rope.dimension_count'', ''deepseek4.attention.q_lora_rank'',
     ''deepseek4.attention.output_lora_rank'', ''deepseek4.attention.output_group_count'',
     ''deepseek4.expert_count'', ''deepseek4.expert_used_count'',
     ''deepseek4.expert_feed_forward_length'', ''deepseek4.expert_shared_count'',
     ''deepseek4.hash_layer_count'']"

definition config_validate_integers :: "model \<Rightarrow> bind_error + unit" where
  "config_validate_integers m = check_all
    (map (read_u32 m) config_keys @
     [expect_key m ''deepseek4.embedding_length'' ''embedding_length'' DS4_N_EMBD,
      expect_key m ''deepseek4.vocab_size'' ''vocab_size'' DS4_N_VOCAB,
      expect_key m ''deepseek4.attention.head_count'' ''attention.head_count'' DS4_N_HEAD,
      expect_key m ''deepseek4.attention.key_length'' ''attention.key_length'' DS4_N_HEAD_DIM,
      expect_key m ''deepseek4.attention.head_count_kv'' ''attention.head_count_kv'' DS4_N_HEAD_KV,
      expect_key m ''deepseek4.attention.value_length'' ''attention.value_length'' DS4_N_VALUE_DIM,
      expect_key m ''deepseek4.rope.dimension_count'' ''rope.dimension_count'' DS4_N_ROT,
      expect_key m ''deepseek4.attention.output_group_count'' ''attention.output_group_count'' DS4_N_OUT_GROUP,
      expect_key m ''deepseek4.attention.q_lora_rank'' ''attention.q_lora_rank'' DS4_N_LORA_Q,
      expect_key m ''deepseek4.attention.output_lora_rank'' ''attention.output_lora_rank'' DS4_N_LORA_O,
      expect_key m ''deepseek4.expert_count'' ''expert_count'' DS4_N_EXPERT,
      expect_key m ''deepseek4.expert_used_count'' ''expert_used_count'' DS4_N_EXPERT_USED,
      expect_key m ''deepseek4.expert_feed_forward_length'' ''expert_feed_forward_length'' DS4_N_FF_EXP,
      expect_key m ''deepseek4.expert_shared_count'' ''expert_shared_count'' DS4_N_EXPERT_SHARED,
      expect_key m ''deepseek4.hash_layer_count'' ''hash_layer_count'' (of_nat DS4_N_HASH_LAYER),
      expect_optional_key m ''deepseek4.expert_group_count'' ''expert_group_count'' 0,
      expect_optional_key m ''deepseek4.expert_group_used_count'' ''expert_group_used_count'' 0,
      expect_key m ''deepseek4.attention.sliding_window'' ''attention.sliding_window'' DS4_N_SWA,
      read_u32 m ''deepseek4.attention.indexer.head_count'',
      read_u32 m ''deepseek4.attention.indexer.key_length'',
      read_u32 m ''deepseek4.attention.indexer.top_k'',
      expect_key m ''deepseek4.attention.indexer.head_count'' ''attention.indexer.head_count'' DS4_N_INDEXER_HEAD,
      expect_key m ''deepseek4.attention.indexer.key_length'' ''attention.indexer.key_length'' DS4_N_INDEXER_HEAD_DIM,
      expect_key m ''deepseek4.attention.indexer.top_k'' ''attention.indexer.top_k'' DS4_N_INDEXER_TOP_K,
      expect_key m ''deepseek4.hyper_connection.count'' ''hyper_connection.count'' DS4_N_HC,
      expect_key m ''deepseek4.hyper_connection.sinkhorn_iterations''
        ''hyper_connection.sinkhorn_iterations'' DS4_N_HC_SINKHORN_ITER,
      expect_key m ''deepseek4.block_count'' ''block_count'' (of_nat DS4_N_LAYER),
      validate_compress_ratio_metadata m])"

section \<open>Lemmas\<close>

lemma check_all_Inr: "check_all cs = Inr u \<longleftrightarrow> (\<forall>c \<in> set cs. c = Inr ())"
  by (induction cs) (auto split: sum.splits)

lemma find_tensor_from_Some:
  "find_tensor_from i ts name = Some j \<Longrightarrow>
     i \<le> j \<and> j < i + length ts \<and> t_name (ts ! (j - i)) = ascii name \<and>
     (\<forall>k < j - i. t_name (ts ! k) \<noteq> ascii name)"
proof (induction i ts name rule: find_tensor_from.induct)
  case (1 i name)
  then show ?case by simp
next
  case (2 i t ts name)
  show ?case
  proof (cases "t_name t = ascii name")
    case True
    with "2.prems" show ?thesis by auto
  next
    case False
    with "2.prems" have "find_tensor_from (Suc i) ts name = Some j" by (auto split: if_splits)
    with "2.IH" False have ih: "Suc i \<le> j" "j < Suc i + length ts" "t_name (ts ! (j - Suc i)) = ascii name"
      "\<forall>k < j - Suc i. t_name (ts ! k) \<noteq> ascii name" by auto
    then have "j - i = Suc (j - Suc i)" by simp
    with ih False show ?thesis by (auto simp: nth_Cons split: nat.splits)
  qed
qed

lemma find_tensor_ptr_Some:
  "find_tensor_ptr m name = Some j \<Longrightarrow> j < length (m_tensors m) \<and> t_name (m_tensors m ! j) = ascii name"
  using find_tensor_from_Some [of 0 "m_tensors m" name j] by (simp add: find_tensor_ptr_def)

lemma find_tensor_from_find:
  "List.find (\<lambda>t. length (t_name t) = length name \<and> t_name t = ascii name) ts =
     map_option (\<lambda>j. ts ! (j - i)) (find_tensor_from i ts name)"
proof (induction i ts name rule: find_tensor_from.induct)
  case (1 i name)
  then show ?case by simp
next
  case (2 i t ts name)
  then show ?case
    using find_tensor_from_Some [of "Suc i" ts name]
    by (auto simp: nth_Cons' map_option_case split: option.splits)
qed

text \<open>The pointer is the position of the tensor the directory lookup finds.\<close>

lemma find_tensor_ptr_find: "model_find_tensor m name = map_option (nth (m_tensors m)) (find_tensor_ptr m name)"
  using find_tensor_from_find [of name "m_tensors m" 0]
  by (simp add: model_find_tensor_def find_tensor_ptr_def)


text \<open>What a binder may do to a tensor: nothing, or mark it as NVFP4 with its scales.\<close>

definition retyped :: "tensor \<Rightarrow> tensor \<Rightarrow> bool" where
  "retyped t t' \<longleftrightarrow>
     t' = t \<or> (\<exists>s. t' = t\<lparr>t_nvfp4_scale_2 := Some s, t_type := DS4_TENSOR_NVFP4\<rparr>)"

definition model_retyped :: "model \<Rightarrow> model \<Rightarrow> bool" where
  "model_retyped m m' \<longleftrightarrow>
     (\<exists>ts. m' = m\<lparr>m_tensors := ts\<rparr> \<and> list_all2 retyped (m_tensors m) ts)"

lemma retyped_refl [simp]: "retyped t t"
  by (simp add: retyped_def)

lemma retyped_trans: "retyped t t1 \<Longrightarrow> retyped t1 t2 \<Longrightarrow> retyped t t2"
  by (auto simp: retyped_def)

lemma model_retyped_refl [simp]: "model_retyped m m"
  unfolding model_retyped_def by (intro exI [of _ "m_tensors m"]) (simp add: list_all2_refl)

lemma model_retyped_trans: "model_retyped m m1 \<Longrightarrow> model_retyped m1 m2 \<Longrightarrow> model_retyped m m2"
  unfolding model_retyped_def
  by (fastforce intro: list_all2_trans [of retyped retyped retyped] retyped_trans)

lemma model_retyped_nth:
  "model_retyped m m' \<Longrightarrow> length (m_tensors m') = length (m_tensors m) \<and>
     (\<forall>i < length (m_tensors m). retyped (m_tensors m ! i) (m_tensors m' ! i))"
  by (auto simp: model_retyped_def list_all2_lengthD list_all2_nthD dest: list_all2_lengthD)

lemma model_retyped_same [simp]:
  "model_retyped m m' \<Longrightarrow> m_map m' = m_map m" "model_retyped m m' \<Longrightarrow> m_size m' = m_size m"
  "model_retyped m m' \<Longrightarrow> m_tensor_data_pos m' = m_tensor_data_pos m"
  by (auto simp: model_retyped_def)

definition expert_base :: "string \<Rightarrow> nat \<Rightarrow> string" where
  "expert_base fmt il = take 127 (if CHR ''%'' \<in> set fmt then format_u fmt il else fmt)"

definition expert_ok :: "model \<Rightarrow> string \<Rightarrow> nat \<Rightarrow> bool" where
  "expert_ok m base i \<longleftrightarrow>
     i < length (m_tensors m) \<and>
     (t_name (m_tensors m ! i) = ascii (base @ ''.weight'') \<or>
      t_name (m_tensors m ! i) = ascii (base @ ''.nvfp4_weight'') \<and>
      t_type (m_tensors m ! i) = DS4_TENSOR_NVFP4 \<and> t_nvfp4_scale_2 (m_tensors m ! i) \<noteq> None)"

lemma load_expert_ok:
  assumes "ds4_load_expert_tensor m fmt il = Inr (m', p)"
  shows "model_retyped m m' \<and> (\<exists>i. p = Some i \<and> expert_ok m' (expert_base fmt il) i)"
proof -
  let ?b = "expert_base fmt il"
  show ?thesis
  proof (cases "find_tensor_ptr m (?b @ ''.weight'')")
    case (Some i)
    with assms have "m' = m" "p = Some i"
      by (auto simp: ds4_load_expert_tensor_def Let_def expert_base_def split: if_splits)
    with find_tensor_ptr_Some [OF Some] show ?thesis by (simp add: expert_ok_def)
  next
    case None
    with assms obtain i j where ij: "find_tensor_ptr m (?b @ ''.nvfp4_weight'') = Some i"
      "p = Some i"
      "m' = m\<lparr>m_tensors := (m_tensors m)
                    [i := (m_tensors m ! i)
                       \<lparr>t_nvfp4_scale_2 := Some (t_abs_offset (m_tensors m ! j)),
                        t_type := DS4_TENSOR_NVFP4\<rparr>]\<rparr>"
      by (auto simp: ds4_load_expert_tensor_def Let_def expert_base_def split: if_splits option.splits)
    note f = find_tensor_ptr_Some [OF ij(1)]
    have "retyped (m_tensors m ! k) (m_tensors m' ! k)" if "k < length (m_tensors m)" for k
      using that unfolding ij(3) by (cases "k = i") (auto simp: retyped_def)
    then have "list_all2 retyped (m_tensors m) (m_tensors m')"
      unfolding ij(3) by (simp add: list_all2_conv_all_nth)
    moreover have "m' = m\<lparr>m_tensors := m_tensors m'\<rparr>" unfolding ij(3) by simp
    ultimately have "model_retyped m m'" unfolding model_retyped_def by blast
    moreover have "expert_ok m' ?b i" using f by (simp add: expert_ok_def ij(3))
    ultimately show ?thesis using ij(2) by blast
  qed
qed

definition points_to :: "model \<Rightarrow> tensor_ptr \<Rightarrow> string \<Rightarrow> bool" where
  "points_to m p name \<longleftrightarrow> (\<exists>i. p = Some i \<and> i < length (m_tensors m) \<and> t_name (m_tensors m ! i) = ascii name)"

lemma required_tensor_Inr: "required_tensor m name = Inr p \<Longrightarrow> points_to m p name"
  using find_tensor_ptr_Some [of m name]
  by (cases "find_tensor_ptr m name") (auto simp: required_tensor_def points_to_def)

lemma required_tensorf_Inr: "required_tensorf m fmt il = Inr p \<Longrightarrow> points_to m p (format_u fmt il)"
  by (auto simp: required_tensorf_def Let_def dest: required_tensor_Inr split: if_splits)

lemma tensor_by_namef_Inr:
  "tensor_by_namef m fmt il = Inr p \<Longrightarrow> p \<noteq> None \<Longrightarrow> points_to m p (format_u fmt il)"
  by (auto simp: tensor_by_namef_def Let_def points_to_def dest!: find_tensor_ptr_Some split: if_splits)

primrec op_field :: "'f bind_op \<Rightarrow> 'f" where
  "op_field (Named f name) = f"
| "op_field (Required f name) = f"
| "op_field (Optional f name) = f"
| "op_field (Expert f name) = f"

primrec op_ok :: "nat \<Rightarrow> model \<Rightarrow> ('f \<Rightarrow> tensor_ptr) \<Rightarrow> 'f bind_op \<Rightarrow> bool" where
  "op_ok il m p (Named f name) = points_to m (p f) name"
| "op_ok il m p (Required f fmt) = points_to m (p f) (format_u fmt il)"
| "op_ok il m p (Optional f fmt) = (p f \<noteq> None \<longrightarrow> points_to m (p f) (format_u fmt il))"
| "op_ok il m p (Expert f fmt) = (\<exists>i. p f = Some i \<and> expert_ok m (expert_base fmt il) i)"

lemma op_ok_mono:
  assumes "op_ok il m p x" "model_retyped m m'" "p' (op_field x) = p (op_field x)"
  shows "op_ok il m' p' x"
proof -
  have nm: "i < length (m_tensors m) \<Longrightarrow> t_name (m_tensors m' ! i) = t_name (m_tensors m ! i) \<and>
      (t_type (m_tensors m ! i) = DS4_TENSOR_NVFP4 \<and> t_nvfp4_scale_2 (m_tensors m ! i) \<noteq> None \<longrightarrow>
       t_type (m_tensors m' ! i) = DS4_TENSOR_NVFP4 \<and> t_nvfp4_scale_2 (m_tensors m' ! i) \<noteq> None)" for i
    using model_retyped_nth [OF assms(2)] by (auto simp: retyped_def)
  from model_retyped_nth [OF assms(2)] have len: "length (m_tensors m') = length (m_tensors m)" by simp
  from assms nm len show ?thesis
    by (cases x) (auto simp: points_to_def expert_ok_def)
qed

lemma bind_step_ok:
  assumes "bind_step il x (m, p) = Inr (m', p')"
  shows "model_retyped m m' \<and> op_ok il m' p' x \<and> (\<forall>g. g \<noteq> op_field x \<longrightarrow> p' g = p g)"
  using assms
  by (cases x)
     (auto dest: required_tensor_Inr required_tensorf_Inr tensor_by_namef_Inr load_expert_ok
       split: sum.splits)

lemma bind_all_ok:
  "bind_all il xs (m, p) = Inr (m', p') \<Longrightarrow> distinct (map op_field xs) \<Longrightarrow>
     model_retyped m m' \<and> (\<forall>x \<in> set xs. op_ok il m' p' x) \<and>
     (\<forall>g. g \<notin> op_field ` set xs \<longrightarrow> p' g = p g)"
proof (induction xs arbitrary: m p)
  case Nil
  then show ?case by simp
next
  case (Cons x xs)
  from Cons.prems(1) obtain m1 p1 where s: "bind_step il x (m, p) = Inr (m1, p1)"
    and r: "bind_all il xs (m1, p1) = Inr (m', p')" by (auto split: sum.splits)
  note 1 = bind_step_ok [OF s]
  from Cons.IH [OF r] Cons.prems(2) have 2: "model_retyped m1 m'" "\<forall>x \<in> set xs. op_ok il m' p' x"
    "\<forall>g. g \<notin> op_field ` set xs \<longrightarrow> p' g = p1 g" by auto
  have "op_ok il m' p' x"
    using 1 2 Cons.prems(2) by (intro op_ok_mono [of il m1 p1 x m' p']) auto
  with 1 2 show ?case using model_retyped_trans by fastforce
qed

text \<open>A layout check that passes.\<close>

lemma expect_dims_Inr:
  "expect_dims t i n want = Inr u \<longleftrightarrow> (\<forall>k < n. t_dim t ! (i + k) = want ! (i + k))"
proof (induction t i n want rule: expect_dims.induct)
  case (1 t i want)
  then show ?case by simp
next
  case (2 t i n want)
  have "(\<forall>k < Suc n. t_dim t ! (i + k) = want ! (i + k)) \<longleftrightarrow>
      t_dim t ! i = want ! i \<and> (\<forall>k < n. t_dim t ! (Suc i + k) = want ! (Suc i + k))"
    by (auto simp: All_less_Suc2)
  with 2 show ?case by auto
qed

lemma tensor_expect_layout_Inr:
  "tensor_expect_layout m p ty ndim d0 d1 d2 = Inr u \<longleftrightarrow>
     (\<exists>i. p = Some i \<and> t_type (m_tensors m ! i) = ty \<and> t_ndim (m_tensors m ! i) = ndim \<and>
       (\<forall>k < unat ndim. t_dim (m_tensors m ! i) ! k = [d0, d1, d2] ! k))"
  by (auto simp: tensor_expect_layout_def Let_def expect_dims_Inr split: option.splits)

text \<open>The bytes of a tensor of a table type.\<close>

definition type_bytes :: "u32 \<Rightarrow> nat \<Rightarrow> nat" where
  "type_bytes ty n =
     (case tensor_type ty of
        None \<Rightarrow> 0
      | Some i \<Rightarrow> (n + unat (ti_block_elems i) - 1) div unat (ti_block_elems i) * unat (ti_block_bytes i))"

lemma placed_type_bytes:
  assumes wf: "entry_wf t" and pl: "placed m t" and small: "unat (t_elements t) + 256 < 2 ^ 64"
    and nb: "tensor_nbytes (t_type t) (t_elements t) \<noteq> None"
  shows "type_bytes (t_type t) (unat (t_elements t)) = 0 \<or>
    unat (t_abs_offset t) + type_bytes (t_type t) (unat (t_elements t)) \<le> unat (m_size m)"
proof -
  obtain b where b: "tensor_nbytes (t_type t) (t_elements t) = Some b" using nb by auto
  then obtain i where i: "tensor_type (t_type t) = Some i"
    by (auto simp: tensor_nbytes_def split: option.splits)
  from tensor_nbytes_exact [OF i small b] have "unat b = type_bytes (t_type t) (unat (t_elements t))"
    by (simp add: type_bytes_def i)
  moreover have "t_bytes t = b" using wf b by (simp add: entry_wf_def)
  ultimately show ?thesis using pl by (auto simp: placed_def)
qed
lemma tensor_nbytes_small:
  assumes ty: "tensor_type ty = Some i" and small: "unat els < 2 ^ 54"
  shows "tensor_nbytes ty els \<noteq> None"
proof -
  note ib = tensor_type_bounds [OF ty]
  let ?be = "ucast (ti_block_elems i) :: u64" and ?bb = "ucast (ti_block_bytes i) :: u64"
  have add: "unat (els + ?be) = unat els + unat (ti_block_elems i)"
    using small ib(2) by (simp add: unat_add_no_wrap)
  have num: "unat (els + ?be - 1) \<le> unat els + 256"
    using add ib(1,2) by (subst unat_sub) (simp_all add: word_le_nat_alt)
  have "unat ((els + ?be - 1) div ?be) \<le> unat els + 256"
    using num by (simp add: unat_div) (meson div_le_dividend le_trans)
  moreover have "2 ^ 55 \<le> unat ((- 1) div ?bb)"
  proof -
    have "unat ((- 1) div ?bb) = (2 ^ 64 - 1) div unat (ti_block_bytes i)"
      by (simp add: unat_div unsigned_minus_1_eq_mask mask_eq_exp_minus_1)
    moreover have "(2 ^ 64 - 1) div 511 \<le> (2 ^ 64 - 1 :: nat) div unat (ti_block_bytes i)"
      using ib(3,4) by (intro div_le_mono2) simp_all
    ultimately show ?thesis by simp
  qed
  moreover have "unat els + 256 < 2 ^ 55" using small by simp
  ultimately have "\<not> (els + ?be - 1) div ?be > (- 1) div ?bb"
    by (simp add: word_less_nat_alt)
  then show ?thesis using ty ib(1) by (auto simp: tensor_nbytes_def Let_def)
qed


section \<open>What binding guarantees\<close>

text \<open>A directory as the loader leaves it.\<close>

definition directory_ok :: "model \<Rightarrow> bool" where
  "directory_ok m \<longleftrightarrow> (\<forall>t \<in> set (m_tensors m). entry_wf t \<and> placed m t)"

lemma model_open_directory:
  "model_open ka ta mg file = Inr m \<Longrightarrow> length file < 2 ^ 64 \<Longrightarrow> directory_ok m"
  using model_open_ok_aux by (auto simp: directory_ok_def model_ok_def)

text \<open>The tensors of a layer whose layout is fixed, written out as numbers.\<close>

definition layer_dense :: "nat \<Rightarrow> (layer_field \<times> string \<times> u32 \<times> u64 list) list" where
  "layer_dense il =
    [(hc_attn_fn, ''blk.%u.hc_attn_fn.weight'', 1, [16384, 24]),
     (hc_attn_scale, ''blk.%u.hc_attn_scale.weight'', 0, [3]),
     (hc_attn_base, ''blk.%u.hc_attn_base.weight'', 0, [24]),
     (attn_norm, ''blk.%u.attn_norm.weight'', 0, [4096]),
     (attn_q_a, ''blk.%u.attn_q_a.weight'', 8, [4096, 1024]),
     (attn_q_a_norm, ''blk.%u.attn_q_a_norm.weight'', 0, [1024]),
     (attn_q_b, ''blk.%u.attn_q_b.weight'', 8, [1024, 32768]),
     (attn_kv, ''blk.%u.attn_kv.weight'', 8, [4096, 512]),
     (attn_kv_a_norm, ''blk.%u.attn_kv_a_norm.weight'', 0, [512]),
     (attn_sinks, ''blk.%u.attn_sinks.weight'', 0, [64]),
     (attn_output_a, ''blk.%u.attn_output_a.weight'', 8, [4096, 8192]),
     (attn_output_b, ''blk.%u.attn_output_b.weight'', 8, [8192, 4096])] @
    (if il < 2 then []
     else if even il then
      [(attn_compressor_ape, ''blk.%u.attn_compressor_ape.weight'', 1, [1024, 4]),
       (attn_compressor_kv, ''blk.%u.attn_compressor_kv.weight'', 1, [4096, 1024]),
       (attn_compressor_gate, ''blk.%u.attn_compressor_gate.weight'', 1, [4096, 1024]),
       (attn_compressor_norm, ''blk.%u.attn_compressor_norm.weight'', 0, [512]),
       (indexer_attn_q_b, ''blk.%u.indexer.attn_q_b.weight'', 1, [1024, 8192]),
       (indexer_proj, ''blk.%u.indexer.proj.weight'', 1, [4096, 64]),
       (indexer_compressor_ape, ''blk.%u.indexer_compressor_ape.weight'', 1, [256, 4]),
       (indexer_compressor_kv, ''blk.%u.indexer_compressor_kv.weight'', 1, [4096, 256]),
       (indexer_compressor_gate, ''blk.%u.indexer_compressor_gate.weight'', 1, [4096, 256]),
       (indexer_compressor_norm, ''blk.%u.indexer_compressor_norm.weight'', 0, [128])]
     else
      [(attn_compressor_ape, ''blk.%u.attn_compressor_ape.weight'', 1, [512, 128]),
       (attn_compressor_kv, ''blk.%u.attn_compressor_kv.weight'', 1, [4096, 512]),
       (attn_compressor_gate, ''blk.%u.attn_compressor_gate.weight'', 1, [4096, 512]),
       (attn_compressor_norm, ''blk.%u.attn_compressor_norm.weight'', 0, [512])]) @
    [(hc_ffn_fn, ''blk.%u.hc_ffn_fn.weight'', 1, [16384, 24]),
     (hc_ffn_scale, ''blk.%u.hc_ffn_scale.weight'', 0, [3]),
     (hc_ffn_base, ''blk.%u.hc_ffn_base.weight'', 0, [24]),
     (ffn_norm, ''blk.%u.ffn_norm.weight'', 0, [4096])] @
    (if il < 3 then [(ffn_gate_tid2eid, ''blk.%u.ffn_gate_tid2eid.weight'', 26, [6, 129280])] else [])"

lemma layer_ratio_cases:
  assumes "il < DS4_N_LAYER"
  shows "layer_ratio il = (if il < 2 then 0 else if even il then 4 else 128)"
proof -
  have s: "il < 43" using assms by (simp add: DS4_N_LAYER_def)
  then have u: "unat (of_nat il :: u32) = il" by (simp add: unat_of_nat)
  have "(of_nat il AND 1 = (0 :: u32)) \<longleftrightarrow> even il"
    by (simp add: and_one_eq flip: even_iff_mod_2_eq_zero)
  with u s show ?thesis
    by (simp add: layer_ratio_def ds4_layer_compress_ratio_def DS4_N_LAYER_def word_less_nat_alt)
qed

lemma layer_dense_bound:
  assumes "il < DS4_N_LAYER" "(f, fmt, ty, dims) \<in> set (layer_dense il)"
  shows "Required f fmt \<in> set (layer_binds il)"
  using assms(2) unfolding layer_dense_def layer_binds_def Let_def layer_ratio_cases [OF assms(1)]
  by (simp add: DS4_N_HASH_LAYER_def split: if_splits) (elim disjE; simp)+

definition dense_check :: "model \<Rightarrow> tensor_ptr \<Rightarrow> u32 \<Rightarrow> u64 list \<Rightarrow> bind_error + unit" where
  "dense_check m p ty dims =
     tensor_expect_layout m p ty (of_nat (length dims)) (hd dims) (if length dims = 2 then dims ! 1 else 0) 0"

lemma layer_dense_checked:
  assumes "il < DS4_N_LAYER" "(f, fmt, ty, dims) \<in> set (layer_dense il)"
  shows "dense_check m (lw (layer w ! il) f) ty dims \<in> set (layer_checks m w il)"
  using assms(2) unfolding layer_dense_def layer_checks_def attn_checks_def Let_def layer_ratio_cases [OF assms(1)]
  by (simp add: layout_dims split: if_splits) (elim disjE; simp add: dense_check_def)+

lemma layer_dense_shape:
  assumes "(f, fmt, ty, dims) \<in> set (layer_dense il)"
  shows "length dims \<in> {1, 2} \<and> ty \<in> {0, 1, 8, 26} \<and> 0 < prod_list (map unat dims) \<and>
    prod_list (map unat dims) < 2 ^ 54"
  using assms unfolding layer_dense_def
  by (simp split: if_splits) (elim disjE; simp)+


lemma layer_binds_distinct: "distinct (map op_field (layer_binds il))"
  by (cases "layer_ratio il = 0"; cases "layer_ratio il = 4"; cases "il < DS4_N_HASH_LAYER";
      simp add: layer_binds_def)

lemma bind_layers_ok:
  "bind_layers il n m ls = Inr (m', ls') \<Longrightarrow>
     model_retyped m m' \<and> length ls' = length ls + n \<and> take (length ls) ls' = ls \<and>
     (\<forall>k < n. \<forall>x \<in> set (layer_binds (il + k)). op_ok (il + k) m' (lw (ls' ! (length ls + k))) x)"
proof (induction n arbitrary: il m ls)
  case 0
  then show ?case by simp
next
  case (Suc n)
  from Suc.prems obtain m1 p1 where b: "bind_all il (layer_binds il) (m, lw zero_layer) = Inr (m1, p1)"
    and r: "bind_layers (Suc il) n m1 (ls @ [zero_layer\<lparr>lw := p1\<rparr>]) = Inr (m', ls')"
    by (auto split: sum.splits)
  note 1 = bind_all_ok [OF b layer_binds_distinct]
  from Suc.IH [OF r] have 2: "model_retyped m1 m'" "length ls' = Suc (length ls) + n"
    "take (Suc (length ls)) ls' = ls @ [zero_layer\<lparr>lw := p1\<rparr>]"
    "\<forall>k < n. \<forall>x \<in> set (layer_binds (Suc il + k)).
       op_ok (Suc il + k) m' (lw (ls' ! (Suc (length ls) + k))) x" by auto
  have first: "ls' ! length ls = zero_layer\<lparr>lw := p1\<rparr>"
    using 2(3) by (metis lessI nth_append_length nth_take)
  have "take (length ls) ls' = ls"
    using arg_cong [OF 2(3), of "take (length ls)"] by simp
  moreover have "op_ok (il + k) m' (lw (ls' ! (length ls + k))) x"
    if "k < Suc n" "x \<in> set (layer_binds (il + k))" for k x
  proof (cases k)
    case 0
    with 1 that have "op_ok il m1 p1 x" by simp
    with op_ok_mono [OF this 2(1)] first 0 show ?thesis by simp
  next
    case (Suc j)
    with 2(4) that show ?thesis by auto
  qed
  ultimately show ?case using model_retyped_trans 1 2(1,2) by auto
qed

lemma reap_layers_Inr:
  "reap_layers il pol ec kc ls = Inr ls' \<Longrightarrow>
     length ls' = length ls \<and> (\<forall>k < length ls. reap_layer (il + k) (pol ! (il + k)) (ec ! (il + k)) (kc ! (il + k)) (ls ! k) = Inr (ls' ! k))"
proof (induction il pol ec kc ls arbitrary: ls' rule: reap_layers.induct)
  case (1 il pol ec kc)
  then show ?case by simp
next
  case (2 il pol ec kc l ls)
  from "2.prems" obtain l1 ls1 where l: "reap_layer il (pol ! il) (ec ! il) (kc ! il) l = Inr l1"
    and r: "reap_layers (Suc il) pol ec kc ls = Inr ls1" and ls': "ls' = l1 # ls1"
    by (auto split: sum.splits)
  from "2.IH" [OF l r] l show ?case by (auto simp: ls' nth_Cons split: nat.splits)
qed

lemma reap_layer_lw: "reap_layer il p e k l = Inr l' \<Longrightarrow> lw l' = lw l"
  by (auto simp: reap_layer_def Let_def split: if_splits)

lemma apply_reap_lw:
  assumes "weights_apply_reap_metadata m w = Inr w'"
  shows "tw w' = tw w \<and> length (layer w') = length (layer w) \<and>
    (\<forall>k < length (layer w). lw (layer w' ! k) = lw (layer w ! k))"
proof -
  show ?thesis
  proof (cases "model_get_bool m ''reap.enabled'' = Some True")
    case False
    with assms show ?thesis by (simp add: weights_apply_reap_metadata_def)
  next
    case True
    define lay where "lay = model_get_string m ''reap.layout''"
    define w1 where "w1 = (if ds4_streq (the lay) ''ds4-compact-v1'' then w\<lparr>reap_compact_layout := True\<rparr> else w)"
    have w1: "tw w1 = tw w" "layer w1 = layer w" by (simp_all add: w1_def)
    from True assms obtain pol ec kc ls where l: "reap_layers 0 pol ec kc (layer w1) = Inr ls"
      and w': "w' = w1\<lparr>layer := ls\<rparr>"
      by (auto simp: weights_apply_reap_metadata_def Let_def lay_def [symmetric] w1_def
          simp del: ds4_streq_def split: if_split_asm option.splits sum.splits)
    from reap_layers_Inr [OF l] w1 show ?thesis by (auto simp: w' intro: reap_layer_lw)
  qed
qed

lemma weights_bind_Inr:
  assumes "weights_bind m = Inr (m', w)"
  shows "model_retyped m m'" "length (layer w) = DS4_N_LAYER"
    "\<And>il x. il < DS4_N_LAYER \<Longrightarrow> x \<in> set (layer_binds il) \<Longrightarrow> op_ok il m' (lw (layer w ! il)) x"
    "\<And>il c. il < DS4_N_LAYER \<Longrightarrow> c \<in> set (layer_checks m' w il) \<Longrightarrow> c = Inr ()"
proof -
  from assms obtain m1 tp ls where b: "bind_all 0 top_binds (m, \<lambda>_. None) = Inr (m1, tp)"
    and l: "bind_layers 0 DS4_N_LAYER m1 [] = Inr (m', ls)"
    and r: "weights_apply_reap_metadata m' \<lparr>tw = tp, layer = ls, reap_compact_layout = False\<rparr> = Inr w"
    and v: "weights_validate_layout m' w = Inr ()"
    by (auto simp: weights_bind_def split: sum.splits)
  have "distinct (map op_field top_binds)" by (simp add: top_binds_def)
  from bind_all_ok [OF b this] bind_layers_ok [OF l] show "model_retyped m m'"
    using model_retyped_trans by blast
  from apply_reap_lw [OF r] bind_layers_ok [OF l]
  show "length (layer w) = DS4_N_LAYER" by simp
  show "il < DS4_N_LAYER \<Longrightarrow> x \<in> set (layer_binds il) \<Longrightarrow> op_ok il m' (lw (layer w ! il)) x" for il x
  proof -
    assume a: "il < DS4_N_LAYER" "x \<in> set (layer_binds il)"
    from bind_layers_ok [OF l] have ls: "length ls = DS4_N_LAYER"
      "\<forall>k < DS4_N_LAYER. \<forall>x \<in> set (layer_binds k). op_ok k m' (lw (ls ! k)) x" by simp_all
    with a have "op_ok il m' (lw (ls ! il)) x" by blast
    moreover have "lw (layer w ! il) = lw (ls ! il)" using apply_reap_lw [OF r] a(1) ls(1) by simp
    ultimately show ?thesis by (simp only:)
  qed
  show "il < DS4_N_LAYER \<Longrightarrow> c \<in> set (layer_checks m' w il) \<Longrightarrow> c = Inr ()" for il c
    using v by (auto simp: weights_validate_layout_def check_all_Inr)
qed

text \<open>A tensor that passes a check with a type the table knows lies in the file.\<close>

lemma retyped_dense:
  assumes dir: "directory_ok m" and re: "model_retyped m m'" and i: "i < length (m_tensors m')"
    and ty: "t_type (m_tensors m' ! i) \<noteq> DS4_TENSOR_NVFP4"
  shows "entry_wf (m_tensors m' ! i)" "placed m' (m_tensors m' ! i)"
proof -
  from model_retyped_nth [OF re] i have r: "retyped (m_tensors m ! i) (m_tensors m' ! i)" "i < length (m_tensors m)"
    by auto
  with ty have e: "m_tensors m' ! i = m_tensors m ! i" by (auto simp: retyped_def)
  with dir r(2) show "entry_wf (m_tensors m' ! i)" by (simp add: directory_ok_def)
  have "placed m (m_tensors m ! i)" using dir r(2) by (simp add: directory_ok_def)
  moreover have "m_size m' = m_size m" "m_tensor_data_pos m' = m_tensor_data_pos m" using re by simp_all
  ultimately show "placed m' (m_tensors m' ! i)" by (metis e placed_def)
qed

lemma prod_list_unat: "n \<le> length xs \<Longrightarrow> dims_product n xs = prod_list (map unat (take n xs))"
  by (simp add: dims_product_def prod.list_conv_set_nth atLeast0LessThan)

lemma dense_check_extent:
  assumes dir: "directory_ok m" and re: "model_retyped m m'" and i: "i < length (m_tensors m')"
    and c: "dense_check m' (Some i) ty dims = Inr ()"
    and sh: "length dims \<in> {1, 2} \<and> ty \<in> {0, 1, 8, 26} \<and> 0 < prod_list (map unat dims) \<and>
      prod_list (map unat dims) < 2 ^ 54"
  shows "t_type (m_tensors m' ! i) = ty \<and> take (length dims) (t_dim (m_tensors m' ! i)) = dims \<and>
    unat (t_abs_offset (m_tensors m' ! i)) + type_bytes ty (prod_list (map unat dims)) \<le> unat (m_size m')"
proof -
  let ?t = "m_tensors m' ! i"
  let ?n = "length dims"
  from sh have n: "unat (of_nat ?n :: u32) = ?n" by auto
  from c n have t: "t_type ?t = ty" "t_ndim ?t = of_nat ?n"
    "\<forall>k < ?n. t_dim ?t ! k = [hd dims, if ?n = 2 then dims ! 1 else 0, 0] ! k"
    unfolding dense_check_def tensor_expect_layout_Inr by auto
  have ty: "ty \<noteq> DS4_TENSOR_NVFP4" using sh by auto
  note wf = retyped_dense [OF dir re i, unfolded t(1), OF ty]
  from wf(1) have l8: "length (t_dim ?t) = 8" by (simp add: entry_wf_def)
  have dim: "take ?n (t_dim ?t) = dims"
  proof (rule nth_equalityI)
    show "length (take ?n (t_dim ?t)) = length dims" using l8 sh by auto
    fix k assume "k < length (take ?n (t_dim ?t))"
    then have k: "k < ?n" by simp
    then have "k = 0 \<or> k = 1 \<and> ?n = 2" using sh by auto
    with t(3) k show "take ?n (t_dim ?t) ! k = dims ! k" by (auto simp: hd_conv_nth)
  qed
  have "unat (t_elements ?t) = dims_product ?n (t_dim ?t)"
    using wf(1) t(2) n by (simp add: entry_wf_def)
  also have "\<dots> = prod_list (map unat dims)"
    using prod_list_unat [of ?n "t_dim ?t"] l8 sh dim by auto
  finally have els: "unat (t_elements ?t) = prod_list (map unat dims)" .
  have "tensor_type ty \<noteq> None" using sh by (auto simp: tensor_type_def gguf_types_def mk_type_def)
  then obtain info where info: "tensor_type ty = Some info" by auto
  have nb: "tensor_nbytes (t_type ?t) (t_elements ?t) \<noteq> None"
    using tensor_nbytes_small [OF info] els sh t(1) by simp
  have "type_bytes ty (prod_list (map unat dims)) \<noteq> 0"
    using sh by (auto simp: type_bytes_def tensor_type_def gguf_types_def mk_type_def)
  with placed_type_bytes [OF wf(1,2) _ nb] els sh t(1) dim show ?thesis by simp
qed

text \<open>The expert tensors of a validated layer agree with the router.\<close>

lemma layer_checks_experts:
  assumes c: "\<And>c. c \<in> set (layer_checks m w il) \<Longrightarrow> c = Inr ()"
  shows "\<exists>i. lw (layer w ! il) ffn_gate_inp = Some i \<and>
      t_dim (m_tensors m ! i) ! 1 = ucast (weights_expected_layer_experts w (layer w ! il)) \<and>
      t_ndim (m_tensors m ! i) = 2"
    and "f \<in> {ffn_gate_exps, ffn_up_exps, ffn_down_exps} \<Longrightarrow>
      t_dim (m_tensors m ! the (lw (layer w ! il) f)) ! 2 =
        ucast (weights_expected_layer_experts w (layer w ! il)) \<and>
      tensor_is_routed_expert_type (t_type (m_tensors m ! the (lw (layer w ! il) f)))"
proof -
  let ?n = "ucast (weights_expected_layer_experts w (layer w ! il)) :: u64"
  have "tensor_expect_layout m (lw (layer w ! il) ffn_gate_inp) DS4_TENSOR_F16 2 DS4_N_EMBD ?n 0
      \<in> set (layer_checks m w il)"
    by (simp add: layer_checks_def Let_def)
  from c [OF this] show "\<exists>i. lw (layer w ! il) ffn_gate_inp = Some i \<and>
      t_dim (m_tensors m ! i) ! 1 = ?n \<and> t_ndim (m_tensors m ! i) = 2"
    by (auto simp: tensor_expect_layout_Inr)
  assume f: "f \<in> {ffn_gate_exps, ffn_up_exps, ffn_down_exps}"
  have "\<exists>d0 d1. tensor_expect_routed_expert m (lw (layer w ! il) f) 3 d0 d1 ?n \<in> set (layer_checks m w il)"
    using f by (auto simp: layer_checks_def Let_def)
  with c obtain d0 d1 where "tensor_expect_routed_expert m (lw (layer w ! il) f) 3 d0 d1 ?n = Inr ()" by blast
  then show "t_dim (m_tensors m ! the (lw (layer w ! il) f)) ! 2 = ?n \<and>
      tensor_is_routed_expert_type (t_type (m_tensors m ! the (lw (layer w ! il) f)))"
    by (auto simp: tensor_expect_routed_expert_def Let_def expect_dims_Inr split: if_splits)
qed

lemma expected_experts_le: "ucast (weights_expected_layer_experts w l) \<le> (0xffffffff :: u64)"
  using unat_u32_bound [of "weights_expected_layer_experts w l"]
  by (simp add: word_le_nat_alt del: unat_u32_bound)

lemma stored_expert_count_validated:
  assumes "\<And>c. c \<in> set (layer_checks m w il) \<Longrightarrow> c = Inr ()"
  shows "layer_stored_expert_count m (layer w ! il) = Inr (weights_expected_layer_experts w (layer w ! il))"
proof -
  from layer_checks_experts(1) [OF assms] obtain i where i: "lw (layer w ! il) ffn_gate_inp = Some i"
    "t_dim (m_tensors m ! i) ! 1 = ucast (weights_expected_layer_experts w (layer w ! il))"
    "t_ndim (m_tensors m ! i) = 2" by blast
  have "ucast (ucast (weights_expected_layer_experts w (layer w ! il)) :: u64) =
      weights_expected_layer_experts w (layer w ! il)"
    by (rule bit_word_eqI) (simp add: bit_simps)
  with i expected_experts_le [of w "layer w ! il"] show ?thesis
    by (simp add: layer_stored_expert_count_def not_less [symmetric])
qed


section \<open>A directory that binds\<close>

text \<open>
  A model whose directory lists every tensor of the layout, used to show that the
  hypotheses of the binding properties can hold.  Names are injective in the layer
  number because decimal numbers are.
\<close>

definition dec_value :: "string \<Rightarrow> nat" where
  "dec_value s = foldl (\<lambda>a c. 10 * a + (of_char c - 48)) 0 s"

lemma dec_value_dec_string: "dec_value (dec_string n) = n"
proof (induction n rule: dec_string.induct)
  case (1 n)
  show ?case
  proof (cases "n < 10")
    case True
    then show ?thesis by (subst dec_string.simps) (simp add: dec_value_def)
  next
    case False
    have "(of_char (char_of (48 + n mod 10) :: char) :: nat) = 48 + n mod 10"
    proof -
      have "48 + n mod 10 < 256" using mod_less_divisor [of 10 n] by linarith
      then show ?thesis by simp
    qed
    with 1 [OF False] False show ?thesis
      by (subst dec_string.simps) (simp add: dec_value_def del: of_char_of)
  qed
qed

lemma dec_string_inj: "dec_string a = dec_string b \<longleftrightarrow> a = b"
  by (metis dec_value_dec_string)

lemma dec_string_digits: "c \<in> set (dec_string n) \<Longrightarrow> 48 \<le> (of_char c :: nat) \<and> (of_char c :: nat) \<le> 57"
proof (induction n rule: dec_string.induct)
  case (1 n)
  have small: "48 + k mod 10 < 256" for k :: nat using mod_less_divisor [of 10 k] by linarith
  show ?case
  proof (cases "n < 10")
    case True
    with "1.prems" show ?thesis by (subst (asm) dec_string.simps) auto
  next
    case False
    with "1.prems" have "c \<in> set (dec_string (n div 10)) \<or> c = char_of (48 + n mod 10)"
      by (subst (asm) dec_string.simps) auto
    with "1.IH" [OF False] small [of n] show ?thesis by auto
  qed
qed

lemma dec_string_short: "n < 100 \<Longrightarrow> length (dec_string n) \<le> 2"
  by (subst dec_string.simps) (auto simp: dec_string.simps [of "n div 10"])

type_synonym tensor_spec = "string \<times> u32 \<times> u64 list"

definition mk_tensor :: "tensor_spec \<Rightarrow> tensor" where
  "mk_tensor spec = (case spec of (name, ty, dims) \<Rightarrow>
     (let els = fold (*) dims 1
      in \<lparr>t_name = ascii name, t_ndim = of_nat (length dims), t_dim = dims @ replicate (8 - length dims) 0,
          t_type = ty, t_rel_offset = 0, t_abs_offset = 4096, t_elements = els,
          t_bytes = (case tensor_nbytes ty els of Some b \<Rightarrow> b | None \<Rightarrow> 0), t_nvfp4_scale_2 = None\<rparr>))"

definition directory :: "tensor_spec list \<Rightarrow> model" where
  "directory S =
     \<lparr>m_map = [], m_size = 0x10000000000, m_managed = False, m_version = 3, m_n_kv = 0,
      m_n_tensors = of_nat (length S), m_alignment = 32, m_tensor_data_pos = 4096, m_kv = [],
      m_tensors = map mk_tensor S\<rparr>"

lemma find_tensor_from_complete:
  "t \<in> set ts \<Longrightarrow> t_name t = ascii name \<Longrightarrow> find_tensor_from i ts name \<noteq> None"
  by (induction i ts name rule: find_tensor_from.induct) auto

lemma directory_find:
  assumes "(name, ty, dims) \<in> set S"
  shows "\<exists>i. find_tensor_ptr (directory S) name = Some i"
proof -
  have "mk_tensor (name, ty, dims) \<in> set (m_tensors (directory S))"
    using assms by (simp add: directory_def)
  moreover have "t_name (mk_tensor (name, ty, dims)) = ascii name"
    by (simp add: mk_tensor_def Let_def)
  ultimately show ?thesis
    using find_tensor_from_complete by (fastforce simp: find_tensor_ptr_def)
qed

text \<open>With one entry per name, a pointer to a name is a pointer to its entry.\<close>

lemma directory_points_to:
  assumes d: "distinct (map fst S)" and p: "points_to (directory S) q name" and s: "(name, spec) \<in> set S"
  shows "\<exists>i. q = Some i \<and> i < length S \<and> m_tensors (directory S) ! i = mk_tensor (name, spec)"
proof -
  from p obtain i where i: "q = Some i" "i < length S" "t_name (mk_tensor (S ! i)) = ascii name"
    by (auto simp: points_to_def directory_def)
  obtain name' spec' where e: "S ! i = (name', spec')" using surj_pair [of "S ! i"] by blast
  with i(3) have "name' = name" by (auto simp: mk_tensor_def Let_def ascii_inj split: prod.splits)
  moreover have "S ! i \<in> set S" using i(2) by simp
  ultimately have "spec' = spec" using d s e by (metis map_of_eq_Some_iff option.inject)
  with i e \<open>name' = name\<close> show ?thesis by (simp add: directory_def)
qed

text \<open>Binding succeeds, and leaves the directory as it is, when every name is listed.\<close>

primrec op_listed :: "nat \<Rightarrow> tensor_spec list \<Rightarrow> 'f bind_op \<Rightarrow> bool" where
  "op_listed il S (Named f name) = (name \<in> fst ` set S)"
| "op_listed il S (Required f fmt) = (format_u fmt il \<in> fst ` set S \<and> length (format_u fmt il) < 128)"
| "op_listed il S (Optional f fmt) = (length (format_u fmt il) < 128)"
| "op_listed il S (Expert f fmt) =
     (expert_base fmt il @ ''.weight'' \<in> fst ` set S \<and> length (expert_base fmt il) < 140)"

lemma bind_step_listed:
  assumes "op_listed il S x"
  shows "\<exists>p'. bind_step il x (directory S, p) = Inr (directory S, p')"
proof (cases x)
  case (Named f name)
  with assms obtain i where "find_tensor_ptr (directory S) name = Some i" using directory_find by fastforce
  with Named show ?thesis by (simp add: required_tensor_def)
next
  case (Required f fmt)
  with assms obtain i where "find_tensor_ptr (directory S) (format_u fmt il) = Some i"
    using directory_find by fastforce
  with Required assms show ?thesis by (simp add: required_tensorf_def required_tensor_def)
next
  case (Optional f fmt)
  with assms show ?thesis by (simp add: tensor_by_namef_def)
next
  case (Expert f fmt)
  with assms obtain i where "find_tensor_ptr (directory S) (expert_base fmt il @ ''.weight'') = Some i"
    using directory_find by fastforce
  with Expert assms show ?thesis by (simp add: ds4_load_expert_tensor_def expert_base_def Let_def)
qed

lemma bind_all_listed:
  "\<forall>x \<in> set xs. op_listed il S x \<Longrightarrow> \<exists>p'. bind_all il xs (directory S, p) = Inr (directory S, p')"
proof (induction xs arbitrary: p)
  case Nil
  then show ?case by simp
next
  case (Cons x xs)
  from bind_step_listed [of il S x p] Cons.prems obtain p1 where
    "bind_step il x (directory S, p) = Inr (directory S, p1)" by auto
  with Cons.IH [of p1] Cons.prems show ?case by simp
qed

lemma bind_layers_listed:
  "\<forall>k < n. \<forall>x \<in> set (layer_binds (il + k)). op_listed (il + k) S x \<Longrightarrow>
     \<exists>ls'. bind_layers il n (directory S) ls = Inr (directory S, ls')"
proof (induction n arbitrary: il ls)
  case 0
  then show ?case by simp
next
  case (Suc n)
  from Suc.prems have "\<forall>x \<in> set (layer_binds il). op_listed il S x" by force
  from bind_all_listed [OF this] obtain p1 where
    1: "bind_all il (layer_binds il) (directory S, lw zero_layer) = Inr (directory S, p1)" by blast
  have "\<forall>k < n. \<forall>x \<in> set (layer_binds (Suc il + k)). op_listed (Suc il + k) S x"
    using Suc.prems by (metis Suc_less_eq add_Suc_shift)
  from Suc.IH [OF this] 1 show ?case by simp
qed


definition layer_specs :: "nat \<Rightarrow> tensor_spec list" where
  "layer_specs il =
     map (\<lambda>(f, fmt, ty, dims). (fmt, ty, dims)) (layer_dense il) @
     [(''blk.%u.ffn_gate_inp.weight'', 1, [4096, 256]),
      (''blk.%u.exp_probs_b.bias'', 0, [256]),
      (''blk.%u.ffn_gate_exps.weight'', 16, [4096, 2048, 256]),
      (''blk.%u.ffn_up_exps.weight'', 16, [4096, 2048, 256]),
      (''blk.%u.ffn_down_exps.weight'', 16, [2048, 4096, 256]),
      (''blk.%u.ffn_gate_shexp.weight'', 8, [4096, 2048]),
      (''blk.%u.ffn_up_shexp.weight'', 8, [4096, 2048]),
      (''blk.%u.ffn_down_shexp.weight'', 8, [2048, 4096])]"

definition all_specs :: "tensor_spec list" where
  "all_specs =
    [(''token_embd.weight'', 1, [4096, 129280]),
     (''output_hc_base.weight'', 0, [4]),
     (''output_hc_fn.weight'', 1, [16384, 4]),
     (''output_hc_scale.weight'', 0, [1]),
     (''output_norm.weight'', 0, [4096]),
     (''output.weight'', 8, [4096, 129280])] @
    concat (map (\<lambda>il. map (\<lambda>(fmt, spec). (format_u fmt il, spec)) (layer_specs il)) [0..<DS4_N_LAYER])"

lemma format_u_plain: "CHR ''%'' \<notin> set s \<Longrightarrow> format_u s n = s"
  by (induction s) auto

lemma format_blk:
  assumes "take 7 fmt = ''blk.%u.''" "CHR ''%'' \<notin> set (drop 7 fmt)"
  shows "format_u fmt il = ''blk.'' @ dec_string il @ ''.'' @ drop 7 fmt"
proof -
  have f: "fmt = ''blk.%u.'' @ drop 7 fmt" using assms(1) by (metis append_take_drop_id)
  have "format_u (''blk.%u.'' @ r) il = ''blk.'' @ dec_string il @ ''.'' @ r" if "CHR ''%'' \<notin> set r" for r
    using that by (simp add: format_u_plain)
  from this [OF assms(2)] show ?thesis by (simp only: f [symmetric])
qed

lemma layer_specs_fmt:
  assumes "(fmt, spec) \<in> set (layer_specs il)"
  shows "take 7 fmt = ''blk.%u.'' \<and> CHR ''%'' \<notin> set (drop 7 fmt)"
  using assms unfolding layer_specs_def layer_dense_def
  by (auto split: if_splits)

lemma layer_specs_distinct: "distinct (map fst (layer_specs il))"
  unfolding layer_specs_def layer_dense_def by (simp add: comp_def)

lemma blk_layer:
  assumes "(fmt, spec) \<in> set (layer_specs il)"
  shows "takeWhile (\<lambda>c. c \<noteq> CHR ''.'') (drop 4 (format_u fmt k)) = dec_string k"
proof -
  have "\<forall>c \<in> set (dec_string k). c \<noteq> CHR ''.''" using dec_string_digits by fastforce
  then show ?thesis
    using format_blk [of fmt k] layer_specs_fmt [OF assms] by (simp add: takeWhile_append2)
qed

definition layer_names :: "nat \<Rightarrow> string list" where
  "layer_names il = map (\<lambda>fmt. format_u fmt il) (map fst (layer_specs il))"

lemma layer_names_spec:
  assumes "n \<in> set (layer_names il)"
  obtains fmt spec where "(fmt, spec) \<in> set (layer_specs il)" "n = format_u fmt il"
proof -
  from assms obtain x where "x \<in> set (layer_specs il)" "n = format_u (fst x) il"
    by (auto simp: layer_names_def)
  then show thesis by (intro that [of "fst x" "snd x"]) simp_all
qed

lemma layer_names_distinct: "distinct (layer_names il)"
proof -
  have "inj_on (\<lambda>fmt. format_u fmt il) (set (map fst (layer_specs il)))"
  proof (rule inj_onI)
    fix a b assume "a \<in> set (map fst (layer_specs il))" "b \<in> set (map fst (layer_specs il))"
      and e: "format_u a il = format_u b il"
    then have "take 7 a = ''blk.%u.'' \<and> CHR ''%'' \<notin> set (drop 7 a)"
      "take 7 b = ''blk.%u.'' \<and> CHR ''%'' \<notin> set (drop 7 b)"
      using layer_specs_fmt by force+
    with e show "a = b" using format_blk [of a il] format_blk [of b il]
      by (metis append_take_drop_id same_append_eq)
  qed
  with layer_specs_distinct [of il] show ?thesis
    unfolding layer_names_def by (simp only: distinct_map [of _ "map fst _"])
qed

lemma layer_names_disjoint: "a \<noteq> b \<Longrightarrow> set (layer_names a) \<inter> set (layer_names b) = {}"
proof (rule equals0I)
  fix n assume ab: "a \<noteq> b" and "n \<in> set (layer_names a) \<inter> set (layer_names b)"
  then have "dec_string a = dec_string b"
    using blk_layer by (metis IntE layer_names_spec)
  with ab show False by (simp add: dec_string_inj)
qed

lemma layer_names_nonempty: "layer_names il \<noteq> []"
  by (simp add: layer_names_def layer_specs_def)

lemma layer_names_blk: "n \<in> set (layer_names il) \<Longrightarrow> take 4 n = ''blk.''"
proof (elim layer_names_spec)
  fix fmt spec assume "(fmt, spec) \<in> set (layer_specs il)" "n = format_u fmt il"
  with layer_specs_fmt [of fmt spec il] format_blk [of fmt il] show ?thesis by simp
qed

lemma distinct_concat_names: "distinct (concat (map layer_names [0..<k]))"
proof (induction k)
  case 0
  show ?case by simp
next
  case (Suc k)
  have "set (concat (map layer_names [0..<k])) \<inter> set (layer_names k) = {}"
  proof (rule equals0I)
    fix n assume "n \<in> set (concat (map layer_names [0..<k])) \<inter> set (layer_names k)"
    then obtain j where "j < k" "n \<in> set (layer_names j)" "n \<in> set (layer_names k)" by auto
    with layer_names_disjoint [of j k] show False by auto
  qed
  with Suc layer_names_distinct [of k] show ?case by simp
qed

lemma all_specs_fst:
  "map fst all_specs =
    [''token_embd.weight'', ''output_hc_base.weight'', ''output_hc_fn.weight'', ''output_hc_scale.weight'',
     ''output_norm.weight'', ''output.weight''] @ concat (map layer_names [0..<DS4_N_LAYER])"
proof -
  have eq: "(\<lambda>il. map (\<lambda>x. fst (case x of (fmt, spec) \<Rightarrow> (format_u fmt il, spec))) (layer_specs il)) = layer_names"
    by (rule ext) (simp add: layer_names_def case_prod_beta)
  show ?thesis unfolding all_specs_def by (simp add: map_concat comp_def eq)
qed

lemma all_specs_distinct: "distinct (map fst all_specs)"
proof -
  have "n \<notin> set (layer_names x)" if "take 4 n \<noteq> ''blk.''" for n x
    using that layer_names_blk by blast
  with distinct_concat_names [of DS4_N_LAYER] show ?thesis unfolding all_specs_fst by simp
qed

lemma all_specs_layer:
  "il < DS4_N_LAYER \<Longrightarrow> (fmt, spec) \<in> set (layer_specs il) \<Longrightarrow> (format_u fmt il, spec) \<in> set all_specs"
  unfolding all_specs_def by force

lemma layer_name_short:
  assumes "il < DS4_N_LAYER" "(fmt, spec) \<in> set (layer_specs il)"
  shows "length (format_u fmt il) < 128"
proof -
  have "length fmt \<le> 50" using assms(2) unfolding layer_specs_def layer_dense_def by (auto split: if_splits)
  moreover have "length (dec_string il) \<le> 2" using assms(1) dec_string_short by (simp add: DS4_N_LAYER_def)
  ultimately show ?thesis using format_blk [of fmt il] layer_specs_fmt [OF assms(2)] by simp
qed

abbreviation full_model :: model where "full_model \<equiv> directory all_specs"

lemma layer_specs_dense:
  assumes "(f, fmt, ty, dims) \<in> set (layer_dense il)"
  shows "(fmt, ty, dims) \<in> set (layer_specs il)"
proof -
  have "(\<lambda>(f, fmt, ty, dims). (fmt, ty, dims)) (f, fmt, ty, dims) \<in>
      set (map (\<lambda>(f, fmt, ty, dims). (fmt, ty, dims)) (layer_dense il))"
    unfolding set_map using assms by (rule imageI)
  then show ?thesis unfolding layer_specs_def set_append by simp
qed

primrec op_fmt :: "'f bind_op \<Rightarrow> string" where
  "op_fmt (Named f name) = name"
| "op_fmt (Required f fmt) = fmt"
| "op_fmt (Optional f fmt) = fmt"
| "op_fmt (Expert f fmt) = fmt @ ''.weight''"

lemma layer_binds_fmt:
  assumes il: "il < DS4_N_LAYER" and x: "x \<in> set (layer_binds il)"
  shows "op_fmt x \<in> set (map fst (layer_specs il))"
proof -
  have sub: "set (map op_fmt (layer_binds il)) \<subseteq> set (map fst (layer_specs il))"
    unfolding layer_binds_def layer_specs_def layer_dense_def Let_def layer_ratio_cases [OF il]
    by (cases "il < 2"; cases "even il"; cases "il < 3"; simp add: DS4_N_HASH_LAYER_def)
  from x have "op_fmt x \<in> set (map op_fmt (layer_binds il))" by simp
  with sub show ?thesis by (rule subsetD)
qed

lemma layer_binds_kind:
  assumes "x \<in> set (layer_binds il)"
  shows "(\<exists>f fmt. x = Required f fmt \<or> x = Optional f fmt) \<or>
    (\<exists>f fmt. x = Expert f fmt \<and> take 7 fmt = ''blk.%u.'' \<and> length fmt \<le> 50 \<and> CHR ''%'' \<notin> set (drop 7 fmt))"
  using assms unfolding layer_binds_def Let_def by (auto split: if_splits)

lemma layer_fmt_listed:
  assumes il: "il < DS4_N_LAYER" and "fmt \<in> set (map fst (layer_specs il))"
  shows "format_u fmt il \<in> fst ` set all_specs" "length (format_u fmt il) < 128"
proof -
  from assms(2) obtain spec where s: "(fmt, spec) \<in> set (layer_specs il)" by auto
  from all_specs_layer [OF il s] show "format_u fmt il \<in> fst ` set all_specs" by (metis fst_conv image_eqI)
  show "length (format_u fmt il) < 128" by (rule layer_name_short [OF il s])
qed

lemma expert_base_blk:
  assumes il: "il < DS4_N_LAYER" and f: "take 7 fmt = ''blk.%u.''" "length fmt \<le> 50"
    "CHR ''%'' \<notin> set (drop 7 fmt)"
  shows "expert_base fmt il @ ''.weight'' = format_u (fmt @ ''.weight'') il" "length (expert_base fmt il) < 140"
proof -
  have "CHR ''%'' \<in> set fmt" using f(1) in_set_takeD [of "CHR ''%''" 7 fmt] by simp
  moreover have "length (dec_string il) \<le> 2" using il dec_string_short by (simp add: DS4_N_LAYER_def)
  then have "length (format_u fmt il) \<le> 127"
    using format_blk [OF f(1,3), of il] f(2) by simp
  ultimately have "expert_base fmt il = format_u fmt il" by (simp add: expert_base_def)
  moreover have "7 \<le> length fmt" using arg_cong [OF f(1), of length] by simp
  ultimately show "expert_base fmt il @ ''.weight'' = format_u (fmt @ ''.weight'') il"
    using format_blk [OF f(1,3), of il] format_blk [of "fmt @ ''.weight''" il] f by simp
  show "length (expert_base fmt il) < 140" by (simp add: expert_base_def)
qed

lemma layer_binds_listed:
  assumes il: "il < DS4_N_LAYER" and x: "x \<in> set (layer_binds il)"
  shows "op_listed il all_specs x"
  using layer_binds_kind [OF x]
proof (elim disjE exE conjE)
  fix f fmt assume e: "x = Required f fmt"
  with layer_fmt_listed [OF il layer_binds_fmt [OF il x]] show ?thesis by simp
next
  fix f fmt assume e: "x = Optional f fmt"
  with layer_fmt_listed [OF il layer_binds_fmt [OF il x]] show ?thesis by simp
next
  fix f fmt assume e: "x = Expert f fmt" "take 7 fmt = ''blk.%u.''" "length fmt \<le> 50"
    "CHR ''%'' \<notin> set (drop 7 fmt)"
  with layer_fmt_listed [OF il layer_binds_fmt [OF il x]] expert_base_blk [OF il e(2,3,4)]
  show ?thesis by simp
qed

lemma full_points_check:
  assumes il: "il < DS4_N_LAYER" and s: "(fmt, ty, dims) \<in> set (layer_specs il)"
    and q: "points_to full_model q (format_u fmt il)" and d: "dims = take (length dims) [d0, d1, d2]"
  shows "tensor_expect_layout full_model q ty (of_nat (length dims)) d0 d1 d2 = Inr ()"
    "\<exists>i. q = Some i \<and> t_type (m_tensors full_model ! i) = ty"
proof -
  from directory_points_to [OF all_specs_distinct q all_specs_layer [OF il s]] obtain i where
    i: "q = Some i" "m_tensors full_model ! i = mk_tensor (format_u fmt il, ty, dims)" by blast
  have len: "length dims \<le> 3" using arg_cong [OF d, of length] by simp
  then have n: "unat (of_nat (length dims) :: u32) = length dims" by (simp add: unat_of_nat)
  have "(dims @ replicate (8 - length dims) 0) ! k = [d0, d1, d2] ! k" if "k < length dims" for k
    using that d by (metis nth_append nth_take)
  then show "tensor_expect_layout full_model q ty (of_nat (length dims)) d0 d1 d2 = Inr ()"
    unfolding tensor_expect_layout_Inr using i n by (auto simp: mk_tensor_def Let_def)
  show "\<exists>i. q = Some i \<and> t_type (m_tensors full_model ! i) = ty"
    using i by (simp add: mk_tensor_def Let_def)
qed

lemma full_expert_check:
  assumes il: "il < DS4_N_LAYER" and e: "op_ok il full_model p (Expert f fmt)"
    and f: "take 7 fmt = ''blk.%u.''" "length fmt \<le> 50" "CHR ''%'' \<notin> set (drop 7 fmt)"
    and s: "(fmt @ ''.weight'', 16, [d0, d1, d2]) \<in> set (layer_specs il)"
  shows "tensor_expect_routed_expert full_model (p f) 3 d0 d1 d2 = Inr ()"
    "t_type (m_tensors full_model ! the (p f)) = 16"
proof -
  from e obtain i where i: "p f = Some i" "expert_ok full_model (expert_base fmt il) i" by auto
  have "t_nvfp4_scale_2 (m_tensors full_model ! j) = None" if "j < length (m_tensors full_model)" for j
    using that by (simp add: directory_def mk_tensor_def Let_def split: prod.splits)
  with i have "points_to full_model (p f) (format_u (fmt @ ''.weight'') il)"
    using expert_base_blk(1) [OF il f] by (auto simp: expert_ok_def points_to_def)
  from full_points_check [OF il s this, of d0 d1 d2] i(1)
  have t: "tensor_expect_layout full_model (p f) 16 3 d0 d1 d2 = Inr ()"
    "t_type (m_tensors full_model ! i) = 16" by simp_all
  then show "tensor_expect_routed_expert full_model (p f) 3 d0 d1 d2 = Inr ()"
    using i(1) by (simp add: tensor_expect_layout_def tensor_expect_routed_expert_def
        tensor_is_routed_expert_type_def Let_def split: if_splits)
  show "t_type (m_tensors full_model ! the (p f)) = 16" using t(2) i(1) by simp
qed

lemma full_layer_checks:
  assumes il: "il < DS4_N_LAYER" and ops: "\<And>x. x \<in> set (layer_binds il) \<Longrightarrow> op_ok il full_model (lw (layer w ! il)) x"
    and w: "\<not> reap_compact_layout w" and c: "c \<in> set (layer_checks full_model w il)"
  shows "c = Inr ()"
proof -
  let ?l = "layer w ! il"
  let ?L = "\<lambda>f. tensor_expect_layout full_model (lw ?l f)"
  have dense: "\<forall>(f, fmt, ty, dims) \<in> set (layer_dense il). dense_check full_model (lw ?l f) ty dims = Inr ()"
  proof (intro ballI, clarsimp)
    fix f fmt ty dims assume d: "(f, fmt, ty, dims) \<in> set (layer_dense il)"
    from ops [OF layer_dense_bound [OF il d]] have "points_to full_model (lw ?l f) (format_u fmt il)" by simp
    moreover have "dims = take (length dims) [hd dims, if length dims = 2 then dims ! 1 else 0, 0]"
      using layer_dense_shape [OF d] by (cases dims; cases "tl dims") auto
    ultimately show "dense_check full_model (lw ?l f) ty dims = Inr ()"
      unfolding dense_check_def using full_points_check(1) [OF il layer_specs_dense [OF d]] by blast
  qed
  have req: "?L f ty 2 d0 d1 0 = Inr ()"
    if "Required f fmt \<in> set (layer_binds il)" "(fmt, ty, [d0, d1]) \<in> set (layer_specs il)" for f fmt ty d0 d1
    using full_points_check(1) [OF il that(2), of "lw ?l f" d0 d1 0] ops [OF that(1)] by simp
  have plain: "?L ffn_gate_inp 1 2 4096 256 0 = Inr ()" "?L ffn_gate_shexp 8 2 4096 2048 0 = Inr ()"
    "?L ffn_up_shexp 8 2 4096 2048 0 = Inr ()" "?L ffn_down_shexp 8 2 2048 4096 0 = Inr ()"
    by (rule req, simp add: layer_binds_def Let_def, simp add: layer_specs_def)+
  have opt: "tensor_expect_optional full_model (lw ?l ffn_exp_probs_b) 0 1 256 0 0 = Inr ()"
  proof (cases "lw ?l ffn_exp_probs_b = None")
    case False
    have "Optional ffn_exp_probs_b ''blk.%u.exp_probs_b.bias'' \<in> set (layer_binds il)"
      by (simp add: layer_binds_def Let_def)
    from ops [OF this] False have "points_to full_model (lw ?l ffn_exp_probs_b) (format_u ''blk.%u.exp_probs_b.bias'' il)"
      by simp
    from full_points_check(1) [OF il _ this, of 0 "[256]" 256 0 0] show ?thesis
      by (simp add: tensor_expect_optional_def layer_specs_def)
  qed (simp add: tensor_expect_optional_def)
  have ex: "tensor_expect_routed_expert full_model (lw ?l f) 3 d0 d1 d2 = Inr () \<and>
      t_type (m_tensors full_model ! the (lw ?l f)) = 16"
    if "Expert f fmt \<in> set (layer_binds il)" "(fmt @ ''.weight'', 16, [d0, d1, d2]) \<in> set (layer_specs il)"
      "take 7 fmt = ''blk.%u.'' \<and> length fmt \<le> 50 \<and> CHR ''%'' \<notin> set (drop 7 fmt)" for f fmt d0 d1 d2
    using full_expert_check [OF il ops [OF that(1)] _ _ _ that(2)] that(3) by simp
  have ex1: "tensor_expect_routed_expert full_model (lw ?l ffn_gate_exps) 3 4096 2048 256 = Inr () \<and>
      t_type (m_tensors full_model ! the (lw ?l ffn_gate_exps)) = 16"
    by (rule ex [of _ "''blk.%u.ffn_gate_exps''"]) (simp_all add: layer_binds_def layer_specs_def Let_def)
  have ex2: "tensor_expect_routed_expert full_model (lw ?l ffn_up_exps) 3 4096 2048 256 = Inr () \<and>
      t_type (m_tensors full_model ! the (lw ?l ffn_up_exps)) = 16"
    by (rule ex [of _ "''blk.%u.ffn_up_exps''"]) (simp_all add: layer_binds_def layer_specs_def Let_def)
  have ex3: "tensor_expect_routed_expert full_model (lw ?l ffn_down_exps) 3 2048 4096 256 = Inr () \<and>
      t_type (m_tensors full_model ! the (lw ?l ffn_down_exps)) = 16"
    by (rule ex [of _ "''blk.%u.ffn_down_exps''"]) (simp_all add: layer_binds_def layer_specs_def Let_def)
  have "weights_expected_layer_experts w ?l = 256"
    using w by (simp add: weights_expected_layer_experts_def DS4_N_EXPERT_def)
  with c dense plain opt ex1 ex2 ex3 w show ?thesis
    unfolding layer_checks_def attn_checks_def layer_dense_def dense_check_def Let_def layer_ratio_cases [OF il]
    by (auto simp: layout_dims split: if_splits)
qed
definition shapes :: "(u32 \<times> u64 list) list" where
  "shapes =
    [(0, [1]), (0, [3]), (0, [4]), (0, [24]), (0, [64]), (0, [128]), (0, [256]), (0, [512]), (0, [1024]), (0, [4096]),
     (1, [1024, 4]), (1, [512, 128]), (1, [256, 4]), (1, [4096, 64]), (1, [4096, 256]), (1, [4096, 512]),
     (1, [4096, 1024]), (1, [1024, 8192]), (1, [16384, 4]), (1, [16384, 24]), (1, [4096, 129280]),
     (8, [4096, 512]), (8, [4096, 1024]), (8, [1024, 32768]), (8, [4096, 8192]), (8, [8192, 4096]),
     (8, [4096, 2048]), (8, [2048, 4096]), (8, [4096, 129280]), (26, [6, 129280]),
     (16, [4096, 2048, 256]), (16, [2048, 4096, 256])]"

lemma layer_dense_shapes: "(f, fmt, ty, dims) \<in> set (layer_dense il) \<Longrightarrow> (ty, dims) \<in> set shapes"
  unfolding layer_dense_def shapes_def
  by (simp split: if_splits) (elim disjE; simp)+

lemma layer_specs_shapes: "(fmt, ty, dims) \<in> set (layer_specs il) \<Longrightarrow> (ty, dims) \<in> set shapes"
proof -
  assume "(fmt, ty, dims) \<in> set (layer_specs il)"
  then consider f where "(f, fmt, ty, dims) \<in> set (layer_dense il)"
    | "(ty, dims) \<in> {(1, [4096, 256]), (0, [256]), (16, [4096, 2048, 256]), (16, [2048, 4096, 256]),
       (8, [4096, 2048]), (8, [2048, 4096])}"
    unfolding layer_specs_def by auto
  then show ?thesis
  proof cases
    case 1
    then show ?thesis by (rule layer_dense_shapes)
  next
    case 2
    then show ?thesis unfolding shapes_def by (simp; elim disjE; simp)
  qed
qed

lemma all_specs_shapes: "(name, ty, dims) \<in> set all_specs \<Longrightarrow> (ty, dims) \<in> set shapes"
proof -
  assume "(name, ty, dims) \<in> set all_specs"
  then consider il fmt where "(fmt, ty, dims) \<in> set (layer_specs il)"
    | "(ty, dims) \<in> {(1, [4096, 129280]), (0, [4]), (1, [16384, 4]), (0, [1]), (0, [4096]), (8, [4096, 129280])}"
    unfolding all_specs_def by auto
  then show ?thesis
  proof cases
    case 1
    then show ?thesis by (rule layer_specs_shapes)
  next
    case 2
    then show ?thesis unfolding shapes_def by (simp; elim disjE; simp)
  qed
qed

lemma shapes_small:
  "(ty, dims) \<in> set shapes \<Longrightarrow> length dims \<in> {1, 2, 3} \<and> prod_list (map unat dims) \<le> 2147483648"
  unfolding shapes_def by (simp; elim disjE; simp)

lemma unat_fold_mult:
  fixes a :: u64
  shows "unat a * prod_list (map unat dims) < 2 ^ 64 \<Longrightarrow> \<forall>d \<in> set dims. 0 < unat d \<Longrightarrow>
     unat (fold (*) dims a) = unat a * prod_list (map unat dims)"
proof (induction dims arbitrary: a)
  case Nil
  then show ?case by simp
next
  case (Cons d dims)
  have "1 \<le> prod_list (map unat dims)"
    using Cons.prems(2) by (induction dims) (auto simp: Suc_le_eq)
  then have "unat d * unat a * 1 \<le> unat d * unat a * prod_list (map unat dims)" by (rule mult_le_mono2)
  also have "\<dots> < 2 ^ 64" using Cons.prems(1) by (simp add: ac_simps)
  finally have "unat d * unat a < 2 ^ 64" by simp
  then have "unat (d * a) = unat d * unat a" by (simp add: unat_word_ariths)
  with Cons.IH [of "d * a"] Cons.prems show ?case by (simp add: ac_simps)
qed

lemma shapes_pos: "(ty, dims) \<in> set shapes \<Longrightarrow> \<forall>d \<in> set dims. 0 < unat d"
  unfolding shapes_def by (simp; elim disjE; simp)

lemma shapes_ok:
  assumes s: "(ty, dims) \<in> set shapes"
  shows "entry_wf (mk_tensor (name, ty, dims))" "placed full_model (mk_tensor (name, ty, dims))"
proof -
  let ?t = "mk_tensor (name, ty, dims)"
  note sm = shapes_small [OF s]
  have els: "unat (t_elements ?t) = prod_list (map unat dims)"
    using unat_fold_mult [of 1 dims] sm shapes_pos [OF s] by (simp add: mk_tensor_def Let_def)
  have "dims_product (length dims) (dims @ replicate (8 - length dims) 0) = prod_list (map unat dims)"
    by (subst prod_list_unat) simp_all
  moreover have "unat (of_nat (length dims) :: u32) = length dims" using sm by auto
  ultimately show wf: "entry_wf ?t"
    using els sm by (auto simp: entry_wf_def mk_tensor_def Let_def)
  have "unat (t_bytes ?t) \<le> 1000000000000"
  proof (cases "tensor_nbytes ty (t_elements ?t)")
    case None
    with wf have "t_bytes ?t = 0" by (simp add: entry_wf_def) (simp add: mk_tensor_def Let_def)
    then show ?thesis by simp
  next
    case (Some b)
    then obtain i where i: "tensor_type ty = Some i" by (auto simp: tensor_nbytes_def split: option.splits)
    note ib = tensor_type_bounds [OF i]
    have "t_bytes ?t = b" using Some by (simp add: mk_tensor_def Let_def)
    moreover have "unat b = (unat (t_elements ?t) + unat (ti_block_elems i) - 1) div unat (ti_block_elems i)
        * unat (ti_block_bytes i)"
      using tensor_nbytes_exact [OF i _ Some] els sm by simp
    moreover have "(unat (t_elements ?t) + unat (ti_block_elems i) - 1) div unat (ti_block_elems i) \<le> 2147483648 + 256"
      using els conjunct2 [OF sm] ib(2) by (intro order_trans [OF div_le_dividend]) linarith
    then have "(unat (t_elements ?t) + unat (ti_block_elems i) - 1) div unat (ti_block_elems i)
        * unat (ti_block_bytes i) \<le> (2147483648 + 256) * 292"
      using ib(4) by (rule mult_le_mono)
    ultimately show ?thesis by simp
  qed
  then show "placed full_model ?t"
    by (simp add: placed_def directory_def mk_tensor_def Let_def)
qed

lemma full_directory_ok: "directory_ok full_model"
proof -
  have "entry_wf t \<and> placed full_model t" if "t \<in> set (m_tensors full_model)" for t
  proof -
    from that obtain name ty dims where "(name, ty, dims) \<in> set all_specs" "t = mk_tensor (name, ty, dims)"
      by (auto simp: directory_def)
    with all_specs_shapes shapes_ok show ?thesis by blast
  qed
  then show ?thesis by (simp add: directory_ok_def)
qed

lemma full_model_binds: "\<exists>m' w. weights_bind full_model = Inr (m', w)"
proof -
  have "\<forall>x \<in> set top_binds. op_listed 0 all_specs x"
    by (simp add: top_binds_def all_specs_def)
  from bind_all_listed [OF this] obtain tp where
    tp: "bind_all 0 top_binds (full_model, \<lambda>_. None) = Inr (full_model, tp)" by blast
  have "distinct (map op_field top_binds)" by (simp add: top_binds_def)
  from bind_all_ok [OF tp this] have top: "\<forall>x \<in> set top_binds. op_ok 0 full_model tp x" by simp
  have "\<forall>k < DS4_N_LAYER. \<forall>x \<in> set (layer_binds (0 + k)). op_listed (0 + k) all_specs x"
    using layer_binds_listed by simp
  from bind_layers_listed [OF this] obtain ls where
    ls: "bind_layers 0 DS4_N_LAYER full_model [] = Inr (full_model, ls)" by blast
  let ?w = "\<lparr>tw = tp, layer = ls, reap_compact_layout = False\<rparr>"
  have r: "weights_apply_reap_metadata full_model ?w = Inr ?w"
    by (simp add: weights_apply_reap_metadata_def model_get_bool_def model_find_kv_def directory_def)
  have ops: "op_ok il full_model (lw (layer ?w ! il)) x" if "il < DS4_N_LAYER" "x \<in> set (layer_binds il)" for il x
    using bind_layers_ok [OF ls] that by simp
  have "tensor_expect_layout full_model (tp f) ty (of_nat (length dims)) d0 d1 d2 = Inr ()"
    if "Named f name \<in> set top_binds" "(name, ty, dims) \<in> set all_specs" "dims = take (length dims) [d0, d1, d2]"
    for f name ty dims d0 d1 d2
  proof -
    from top that(1) have "points_to full_model (tp f) name" by force
    from directory_points_to [OF all_specs_distinct this that(2)] obtain i where
      i: "tp f = Some i" "m_tensors full_model ! i = mk_tensor (name, ty, dims)" by blast
    have len: "length dims \<le> 3" using arg_cong [OF that(3), of length] by simp
    then have n: "unat (of_nat (length dims) :: u32) = length dims" by (simp add: unat_of_nat)
    have "(dims @ replicate (8 - length dims) 0) ! k = [d0, d1, d2] ! k" if "k < length dims" for k
      using that \<open>dims = take (length dims) [d0, d1, d2]\<close> by (metis nth_append nth_take)
    then show ?thesis
      unfolding tensor_expect_layout_Inr using i n by (auto simp: mk_tensor_def Let_def)
  qed
  note chk = this
  have tops: "c = Inr ()" if "c \<in> set (top_checks full_model ?w)" for c
  proof -
    have "tensor_expect_layout full_model (tp token_embd) 1 2 4096 129280 0 = Inr ()"
      "tensor_expect_layout full_model (tp output_hc_fn) 1 2 16384 4 0 = Inr ()"
      "tensor_expect_layout full_model (tp output_w) 8 2 4096 129280 0 = Inr ()"
      using chk [of token_embd _ 1 "[4096, 129280]" 4096 129280 0]
        chk [of output_hc_fn _ 1 "[16384, 4]" 16384 4 0]
        chk [of output_w _ 8 "[4096, 129280]" 4096 129280 0]
      by (simp_all add: top_binds_def all_specs_def)
    moreover have "tensor_expect_layout full_model (tp output_hc_base) 0 1 4 0 0 = Inr ()"
      "tensor_expect_layout full_model (tp output_hc_scale) 0 1 1 0 0 = Inr ()"
      "tensor_expect_layout full_model (tp output_norm) 0 1 4096 0 0 = Inr ()"
      using chk [of output_hc_base _ 0 "[4]" 4 0 0] chk [of output_hc_scale _ 0 "[1]" 1 0 0]
        chk [of output_norm _ 0 "[4096]" 4096 0 0]
      by (simp_all add: top_binds_def all_specs_def)
    ultimately show ?thesis using that by (auto simp: top_checks_def layout_dims Let_def)
  qed
  have "c = Inr ()" if "il < DS4_N_LAYER" "c \<in> set (layer_checks full_model ?w il)" for il c
    using full_layer_checks [OF that(1) ops [OF that(1)] _ that(2)] by simp
  with tops have "weights_validate_layout full_model ?w = Inr ()"
    by (auto simp: weights_validate_layout_def check_all_Inr)
  with tp ls r show ?thesis by (simp add: weights_bind_def)
qed

lemma bind_layers_reap:
  "bind_layers il n m ls = Inr (m', ls') \<Longrightarrow> \<forall>l \<in> set ls. reap_policy l = 0 \<and> \<not> reap_moe_disabled l \<Longrightarrow>
     \<forall>l \<in> set ls'. reap_policy l = 0 \<and> \<not> reap_moe_disabled l"
proof (induction n arbitrary: il m ls)
  case 0
  then show ?case by simp
next
  case (Suc n)
  from Suc.prems(1) obtain m1 p1 where r: "bind_layers (Suc il) n m1 (ls @ [zero_layer\<lparr>lw := p1\<rparr>]) = Inr (m', ls')"
    by (auto split: sum.splits)
  from Suc.IH [OF r] Suc.prems(2) show ?case by (simp add: zero_layer_def)
qed

definition reap_state_ok :: "nat \<Rightarrow> layer_weights \<Rightarrow> bool" where
  "reap_state_ok il l \<longleftrightarrow>
     reap_policy l \<in> {0, 1, 2, 3} \<and> (reap_moe_disabled l \<longleftrightarrow> reap_policy l = 3) \<and>
     (il < DS4_N_HASH_LAYER \<longrightarrow> \<not> reap_moe_disabled l)"

lemma reap_layer_ok: "reap_layer il p e k l = Inr l' \<Longrightarrow> reap_state_ok il l'"
  by (auto simp: reap_layer_def reap_state_ok_def Let_def split: if_splits)

lemma apply_reap_ok:
  assumes a: "weights_apply_reap_metadata m w = Inr w'"
    and z: "\<And>l. l \<in> set (layer w) \<Longrightarrow> reap_policy l = 0 \<and> \<not> reap_moe_disabled l"
    and il: "il < length (layer w')"
  shows "reap_state_ok il (layer w' ! il)"
proof (cases "w' = w")
  case True
  with z [of "layer w ! il"] il show ?thesis by (simp add: reap_state_ok_def)
next
  case False
  with a have "model_get_bool m ''reap.enabled'' = Some True"
    by (auto simp: weights_apply_reap_metadata_def split: if_splits)
  with a obtain pol ec kc ls where l: "reap_layers 0 pol ec kc (layer w) = Inr ls" "layer w' = ls"
    by (auto simp: weights_apply_reap_metadata_def Let_def split: if_split_asm option.splits sum.splits)
  from reap_layers_Inr [OF l(1)] il l(2) have "reap_layer il (pol ! il) (ec ! il) (kc ! il) (layer w ! il) = Inr (ls ! il)"
    by simp
  from reap_layer_ok [OF this] show ?thesis by (simp add: l(2))
qed

section \<open>Properties\<close>

text \<open>
  Claim C6. When the weights bind on a directory the loader accepted, every fixed
  tensor of every layer is the directory entry with its name, has the type and
  dimensions the kernels are compiled for, and lies inside the file with all the
  bytes those dimensions need.
\<close>

theorem weights_bind_layer_tensors:
  assumes "directory_ok m" and "weights_bind m = Inr (m', w)" and "il < DS4_N_LAYER"
    and "(f, fmt, ty, dims) \<in> set (layer_dense il)"
  shows "\<exists>i < length (m_tensors m'). lw (layer w ! il) f = Some i \<and>
    t_name (m_tensors m' ! i) = ascii (format_u fmt il) \<and>
    t_type (m_tensors m' ! i) = ty \<and> take (length dims) (t_dim (m_tensors m' ! i)) = dims \<and>
    unat (t_abs_offset (m_tensors m' ! i)) + type_bytes ty (prod_list (map unat dims)) \<le> unat (m_size m')"
proof -
  note b = weights_bind_Inr [OF assms(2)]
  from b(3) [OF assms(3) layer_dense_bound [OF assms(3,4)]] obtain i where
    i: "lw (layer w ! il) f = Some i" "i < length (m_tensors m')"
    "t_name (m_tensors m' ! i) = ascii (format_u fmt il)" by (auto simp: points_to_def)
  have "dense_check m' (Some i) ty dims = Inr ()"
    using b(4) [OF assms(3) layer_dense_checked [OF assms(3,4)]] i(1) by simp
  from dense_check_extent [OF assms(1) b(1) i(2) this layer_dense_shape [OF assms(4)]] i
  show ?thesis by blast
qed

theorem weights_bind_layer_tensors_witness:
  "\<exists>m' w i. weights_bind full_model = Inr (m', w) \<and> lw (layer w ! 2) indexer_proj = Some i \<and>
     t_name (m_tensors m' ! i) = ascii ''blk.2.indexer.proj.weight'' \<and>
     unat (t_abs_offset (m_tensors m' ! i)) + type_bytes 1 (4096 * 64) \<le> unat (m_size m')"
proof -
  obtain m' w where b: "weights_bind full_model = Inr (m', w)" using full_model_binds by blast
  have d: "(indexer_proj, ''blk.%u.indexer.proj.weight'', 1, [4096, 64]) \<in> set (layer_dense 2)"
    by (simp add: layer_dense_def)
  have n: "format_u ''blk.%u.indexer.proj.weight'' 2 = ''blk.2.indexer.proj.weight''" by code_simp
  have l: "2 < DS4_N_LAYER" by (simp add: DS4_N_LAYER_def)
  from weights_bind_layer_tensors [OF full_directory_ok b l d] b n show ?thesis by auto
qed

text \<open>
  Claim C7. After binding, the expert count the router reads off its own matrix is
  the count the REAP metadata calls for, and the three expert stacks of the layer
  hold exactly that many experts, in a quantization the kernels know.
\<close>

theorem weights_bind_expert_counts:
  assumes "weights_bind m = Inr (m', w)" and "il < DS4_N_LAYER"
  shows "layer_stored_expert_count m' (layer w ! il) =
      Inr (weights_expected_layer_experts w (layer w ! il)) \<and>
    (\<forall>f \<in> {ffn_gate_exps, ffn_up_exps, ffn_down_exps}.
      t_dim (m_tensors m' ! the (lw (layer w ! il) f)) ! 2 =
        ucast (weights_expected_layer_experts w (layer w ! il)) \<and>
      tensor_is_routed_expert_type (t_type (m_tensors m' ! the (lw (layer w ! il) f))))"
  using stored_expert_count_validated [OF weights_bind_Inr(4) [OF assms]]
    layer_checks_experts(2) [OF weights_bind_Inr(4) [OF assms]] by blast

theorem weights_bind_expert_counts_witness:
  "\<exists>m' w. weights_bind full_model = Inr (m', w) \<and>
     layer_stored_expert_count m' (layer w ! 5) = Inr (weights_expected_layer_experts w (layer w ! 5))"
proof -
  obtain m' w where b: "weights_bind full_model = Inr (m', w)" using full_model_binds by blast
  have "5 < DS4_N_LAYER" by (simp add: DS4_N_LAYER_def)
  from weights_bind_expert_counts [OF b this] b show ?thesis by blast
qed

text \<open>
  Binding leaves every layer with one of the four REAP policies, marks
  exactly the layers of the policy ``disabled'', and never disables one of the
  hash-routed layers.
\<close>

theorem weights_bind_reap_policies:
  assumes "weights_bind m = Inr (m', w)" and "il < DS4_N_LAYER"
  shows "reap_policy (layer w ! il) \<in> {0, 1, 2, 3} \<and>
    (reap_moe_disabled (layer w ! il) \<longleftrightarrow> reap_policy (layer w ! il) = 3) \<and>
    (il < 3 \<longrightarrow> \<not> reap_moe_disabled (layer w ! il))"
proof -
  from assms(1) obtain m1 tp ls where l: "bind_layers 0 DS4_N_LAYER m1 [] = Inr (m', ls)"
    and r: "weights_apply_reap_metadata m' \<lparr>tw = tp, layer = ls, reap_compact_layout = False\<rparr> = Inr w"
    by (auto simp: weights_bind_def split: sum.splits)
  from bind_layers_reap [OF l] have "\<And>l. l \<in> set ls \<Longrightarrow> reap_policy l = 0 \<and> \<not> reap_moe_disabled l" by simp
  with apply_reap_ok [OF r, of il] weights_bind_Inr(2) [OF assms(1)] assms(2)
  have "reap_state_ok il (layer w ! il)" by simp
  then show ?thesis by (auto simp: reap_state_ok_def DS4_N_HASH_LAYER_def)
qed

theorem weights_bind_reap_policies_witness:
  "\<exists>m' w. weights_bind full_model = Inr (m', w) \<and> \<not> reap_moe_disabled (layer w ! 0)"
proof -
  obtain m' w where b: "weights_bind full_model = Inr (m', w)" using full_model_binds by blast
  have "0 < DS4_N_LAYER" by (simp add: DS4_N_LAYER_def)
  from weights_bind_reap_policies [OF b this] b show ?thesis by auto
qed

end
