(* ===== verification/Ds4_Json.thy ===== *)
theory Ds4_Json
  imports Ds4_Prelude "HOL-Library.Sublist"
begin

text \<open>
  The JSON scanner of the server, \<^verbatim>\<open>src/server/ds4_server.c\<close>: \<^verbatim>\<open>json_ws\<close> to \<^verbatim>\<open>json_content\<close>
  and the escaping printers \<^verbatim>\<open>json_escape\<close>.

  A C string is the list of its bytes before the terminating NUL, and a scan
  pointer is the remaining suffix.  A \<^verbatim>\<open>bool f(const char **p, T *out)\<close> returns the
  parsed value with the new suffix, or \<open>None\<close>; every caller gives up on failure, so
  the pointer a failed call leaves behind is not modelled.  Growable output
  buffers are byte lists.

  The hand-written member loops of the parsers have one shape,
  \<^verbatim>\<open>while (**p && **p != close) { item; ws; comma?; ws }\<close>; it is \<open>json_members\<close>, with
  fuel one more than the length of the text.  The locale \<open>consumer\<close> shows that an item that
  eats at least one byte makes this fuel enough.
\<close>

section \<open>Scanner primitives\<close>

definition isspace :: "byte \<Rightarrow> bool" where
  "isspace c \<longleftrightarrow> c = 0x20 \<or> (9 \<le> c \<and> c \<le> 13)"

definition json_ws :: "byte list \<Rightarrow> byte list" where
  "json_ws s = dropWhile isspace s"

definition json_lit :: "byte list \<Rightarrow> byte list \<Rightarrow> byte list option" where
  "json_lit lit s = (if take (length lit) s = lit then Some (drop (length lit) s) else None)"

definition json_hex :: "byte \<Rightarrow> u32 option" where
  "json_hex c =
     (if c \<ge> 0x30 \<and> c \<le> 0x39 then Some (ucast c - 0x30)
      else if c \<ge> 0x61 \<and> c \<le> 0x66 then Some (10 + ucast c - 0x61)
      else if c \<ge> 0x41 \<and> c \<le> 0x46 then Some (10 + ucast c - 0x41)
      else None)"

definition json_utf8_put :: "u32 \<Rightarrow> byte list" where
  "json_utf8_put cp =
     (if cp \<le> 0x7f then [ucast cp]
      else if cp \<le> 0x7ff then
        [ucast (0xc0 OR drop_bit 6 cp), ucast (0x80 OR (cp AND 0x3f))]
      else if cp \<le> 0xffff then
        [ucast (0xe0 OR drop_bit 12 cp), ucast (0x80 OR (drop_bit 6 cp AND 0x3f)),
         ucast (0x80 OR (cp AND 0x3f))]
      else
        [ucast (0xf0 OR drop_bit 18 cp), ucast (0x80 OR (drop_bit 12 cp AND 0x3f)),
         ucast (0x80 OR (drop_bit 6 cp AND 0x3f)), ucast (0x80 OR (cp AND 0x3f))])"

text \<open>The four digits: a missing byte reads the NUL, which is no digit.\<close>

fun hex_digits :: "nat \<Rightarrow> u32 \<Rightarrow> byte list \<Rightarrow> u32 option" where
  "hex_digits 0 cp s = Some cp"
| "hex_digits (Suc n) cp [] = None"
| "hex_digits (Suc n) cp (c # cs) =
     (case json_hex c of None \<Rightarrow> None | Some h \<Rightarrow> hex_digits n (push_bit 4 cp OR h) cs)"

definition json_u16 :: "byte list \<Rightarrow> (u32 \<times> byte list) option" where
  "json_u16 s =
     (if take 2 s \<noteq> [0x5c, 0x75] then None
      else case hex_digits 4 0 (drop 2 s) of
             None \<Rightarrow> None
           | Some cp \<Rightarrow> Some (cp, drop 6 s))"

text \<open>The code point of a \<^verbatim>\<open>\u\<close> escape, after an attempt to read the low surrogate.\<close>

definition json_surrogate :: "u32 \<Rightarrow> byte list \<Rightarrow> u32 \<times> byte list" where
  "json_surrogate cp s =
     (if cp \<ge> 0xd800 \<and> cp \<le> 0xdbff
      then (case json_u16 s of
              None \<Rightarrow> (cp, s)
            | Some (lo, s') \<Rightarrow>
                if lo \<ge> 0xdc00 \<and> lo \<le> 0xdfff
                then (0x10000 + push_bit 10 (cp - 0xd800) + (lo - 0xdc00), s')
                else (cp, s'))
      else (cp, s))"

definition json_simple_escape :: "byte \<Rightarrow> byte option" where
  "json_simple_escape e =
     (if e = 0x22 then Some 0x22 else if e = 0x5c then Some 0x5c else if e = 0x2f then Some 0x2f
      else if e = 0x62 then Some 8 else if e = 0x66 then Some 12 else if e = 0x6e then Some 10
      else if e = 0x72 then Some 13 else if e = 0x74 then Some 9 else None)"

lemma json_u16_length: "json_u16 s = Some (cp, s') \<Longrightarrow> length s = length s' + 6"
proof -
  assume a: "json_u16 s = Some (cp, s')"
  have "hex_digits n acc r = Some v \<Longrightarrow> n \<le> length r" for n acc r v
    by (induction n acc r rule: hex_digits.induct) (auto split: option.splits)
  moreover from a have "hex_digits 4 0 (drop 2 s) = Some cp" "s' = drop 6 s" "take 2 s = [0x5c, 0x75]"
    by (auto simp: json_u16_def split: if_splits option.splits)
  ultimately show ?thesis
    using arg_cong [of "take 2 s" _ length] by fastforce
qed

lemma json_surrogate_length: "json_surrogate cp s = (cp', s') \<Longrightarrow> length s' \<le> length s"
  by (auto simp: json_surrogate_def dest: json_u16_length split: if_splits option.splits)

text \<open>The characters of a string after its opening quote, \<open>acc\<close> being the buffer.\<close>

function json_string_body :: "byte list \<Rightarrow> byte list \<Rightarrow> (byte list \<times> byte list) option" where
  "json_string_body acc [] = None"
| "json_string_body acc (c # cs) =
     (if c = 0x22 then Some (acc, cs)
      else if c \<noteq> 0x5c then json_string_body (acc @ [c]) cs
      else case cs of
        [] \<Rightarrow> None
      | e # es \<Rightarrow>
          (case json_simple_escape e of
             Some b \<Rightarrow> json_string_body (acc @ [b]) es
           | None \<Rightarrow>
               if e \<noteq> 0x75 then None
               else case json_u16 (c # cs) of
                 None \<Rightarrow> None
               | Some (cp, s1) \<Rightarrow>
                   (case json_surrogate cp s1 of
                      (cp', s2) \<Rightarrow> json_string_body (acc @ json_utf8_put cp') s2)))"
  by pat_completeness auto
termination
  by (relation "measure (\<lambda>(acc, s). length s)")
    (auto dest!: json_u16_length json_surrogate_length [OF sym])

text \<open>
  What the callers see of the buffer: \<^verbatim>\<open>\u0000\<close> writes a NUL, where the C string ends.
\<close>

definition cstr :: "byte list \<Rightarrow> byte list" where
  "cstr b = takeWhile (\<lambda>c. c \<noteq> 0) b"

definition json_string :: "byte list \<Rightarrow> (byte list \<times> byte list) option" where
  "json_string s =
     (case json_ws s of
        [] \<Rightarrow> None
      | c # cs \<Rightarrow>
          if c \<noteq> 0x22 then None
          else (case json_string_body [] cs of None \<Rightarrow> None | Some (b, r) \<Rightarrow> Some (cstr b, r)))"

section \<open>Numbers and booleans\<close>

text \<open>
  How far \<^verbatim>\<open>strtod\<close> reads in the C locale from a non-blank start (0 for no
  conversion): sign, then infinity, NaN, hexadecimal or decimal.  The value is not
  modelled; the scanner only skips numbers.
\<close>

definition is_digit :: "byte \<Rightarrow> bool" where "is_digit c \<longleftrightarrow> 0x30 \<le> c \<and> c \<le> 0x39"

definition is_xdigit :: "byte \<Rightarrow> bool" where "is_xdigit c \<longleftrightarrow> json_hex c \<noteq> None"

definition lower :: "byte \<Rightarrow> byte" where "lower c = (if 0x41 \<le> c \<and> c \<le> 0x5a then c + 0x20 else c)"

definition starts_ci :: "string \<Rightarrow> byte list \<Rightarrow> bool" where
  "starts_ci w s \<longleftrightarrow> map lower (take (length w) s) = ascii w"

definition run_len :: "(byte \<Rightarrow> bool) \<Rightarrow> byte list \<Rightarrow> nat" where
  "run_len p s = length (takeWhile p s)"

text \<open>Digits with an optional point: (length, number of digits).\<close>

definition mantissa_len :: "(byte \<Rightarrow> bool) \<Rightarrow> byte list \<Rightarrow> nat \<times> nat" where
  "mantissa_len p s =
     (let n = run_len p s
      in case drop n s of
           c # cs \<Rightarrow> if c = 0x2e then (let k = run_len p cs in (n + 1 + k, n + k)) else (n, n)
         | [] \<Rightarrow> (n, n))"

definition exponent_len :: "byte \<Rightarrow> byte list \<Rightarrow> nat" where
  "exponent_len mark s =
     (case s of
        [] \<Rightarrow> 0
      | c # cs \<Rightarrow>
          if lower c \<noteq> mark then 0
          else
            let sg = (if cs \<noteq> [] \<and> (hd cs = 0x2b \<or> hd cs = 0x2d) then 1 else 0);
                k = run_len is_digit (drop sg cs)
            in if k = 0 then 0 else 1 + sg + k)"

definition decimal_len :: "byte list \<Rightarrow> nat" where
  "decimal_len s =
     (case mantissa_len is_digit s of
        (n, k) \<Rightarrow> if k = 0 then 0 else n + exponent_len 0x65 (drop n s))"

definition nan_tail_len :: "byte list \<Rightarrow> nat" where
  "nan_tail_len s =
     (case s of
        [] \<Rightarrow> 0
      | c # cs \<Rightarrow>
          if c \<noteq> 0x28 then 0
          else
            let k = run_len (\<lambda>b. is_digit b \<or> (0x61 \<le> lower b \<and> lower b \<le> 0x7a) \<or> b = 0x5f) cs
            in if k < length cs \<and> cs ! k = 0x29 then k + 2 else 0)"

definition unsigned_len :: "byte list \<Rightarrow> nat" where
  "unsigned_len s =
     (if starts_ci ''infinity'' s then 8
      else if starts_ci ''inf'' s then 3
      else if starts_ci ''nan'' s then 3 + nan_tail_len (drop 3 s)
      else if starts_ci ''0x'' s then
        (case mantissa_len is_xdigit (drop 2 s) of
           (n, k) \<Rightarrow> if k = 0 then 1 else 2 + n + exponent_len 0x70 (drop (2 + n) s))
      else decimal_len s)"

definition strtod_len :: "byte list \<Rightarrow> nat" where
  "strtod_len s =
     (let sg = (if s \<noteq> [] \<and> (hd s = 0x2b \<or> hd s = 0x2d) then 1 else 0);
          n = unsigned_len (drop sg s)
      in if n = 0 then 0 else sg + n)"

text \<open>The matched text of the number and what follows it.\<close>

definition json_number :: "byte list \<Rightarrow> (byte list \<times> byte list) option" where
  "json_number s =
     (let s' = json_ws s; n = strtod_len s'
      in if n = 0 then None else Some (take n s', drop n s'))"

definition json_bool :: "byte list \<Rightarrow> (bool \<times> byte list) option" where
  "json_bool s =
     (let s' = json_ws s
      in case json_lit (ascii ''true'') s' of
           Some r \<Rightarrow> Some (True, r)
         | None \<Rightarrow> (case json_lit (ascii ''false'') s' of Some r \<Rightarrow> Some (False, r) | None \<Rightarrow> None))"

section \<open>Skipping a value\<close>

definition JSON_MAX_NESTING :: nat where "JSON_MAX_NESTING = 256"

text \<open>
  The five mutually recursive functions, with fuel; \<open>skip_elements\<close> and \<open>skip_pairs\<close>
  are the loops inside the array and object skippers.  A call that has no fuel left answers
  \<open>Out_of_fuel\<close>, which every caller passes on and which is none of the two answers of the
  code: \<open>Rejects\<close> (the code's \<^verbatim>\<open>false\<close>) and \<open>Rest\<close> with the new scan position.
\<close>

datatype skip_outcome = Out_of_fuel | Rejects | Rest (rest_of: "byte list")

fun skip_outcome_of :: "byte list option \<Rightarrow> skip_outcome" where
  "skip_outcome_of None = Rejects"
| "skip_outcome_of (Some r) = Rest r"

function (sequential) json_skip_value_depth :: "nat \<Rightarrow> nat \<Rightarrow> byte list \<Rightarrow> skip_outcome"
  and json_skip_array_depth :: "nat \<Rightarrow> nat \<Rightarrow> byte list \<Rightarrow> skip_outcome"
  and skip_elements :: "nat \<Rightarrow> nat \<Rightarrow> byte list \<Rightarrow> skip_outcome"
  and json_skip_object_depth :: "nat \<Rightarrow> nat \<Rightarrow> byte list \<Rightarrow> skip_outcome"
  and skip_pairs :: "nat \<Rightarrow> nat \<Rightarrow> byte list \<Rightarrow> skip_outcome"
where
  "json_skip_value_depth 0 depth s = Out_of_fuel"
| "json_skip_value_depth (Suc n) depth s =
     (let s' = json_ws s
      in if take 1 s' = [0x22] then skip_outcome_of (map_option snd (json_string s'))
         else if take 1 s' = [0x7b] then json_skip_object_depth n depth s'
         else if take 1 s' = [0x5b] then json_skip_array_depth n depth s'
         else case json_lit (ascii ''true'') s' of Some r \<Rightarrow> Rest r | None \<Rightarrow>
             (case json_lit (ascii ''false'') s' of Some r \<Rightarrow> Rest r | None \<Rightarrow>
             (case json_lit (ascii ''null'') s' of Some r \<Rightarrow> Rest r | None \<Rightarrow>
                skip_outcome_of (map_option snd (json_number s')))))"
| "json_skip_array_depth 0 depth s = Out_of_fuel"
| "json_skip_array_depth (Suc n) depth s =
     (if depth \<ge> JSON_MAX_NESTING then Rejects
      else case json_ws s of
        [] \<Rightarrow> Rejects
      | c # cs \<Rightarrow>
          if c \<noteq> 0x5b then Rejects
          else (let s' = json_ws cs
                in if take 1 s' = [0x5d] then Rest (tl s') else skip_elements n depth s'))"
| "skip_elements 0 depth s = Out_of_fuel"
| "skip_elements (Suc n) depth s =
     (case json_skip_value_depth n (Suc depth) s of
        Out_of_fuel \<Rightarrow> Out_of_fuel
      | Rejects \<Rightarrow> Rejects
      | Rest s1 \<Rightarrow>
          (case json_ws s1 of
             [] \<Rightarrow> Rejects
           | c # cs \<Rightarrow>
               if c = 0x5d then Rest cs
               else if c \<noteq> 0x2c then Rejects
               else skip_elements n depth cs))"
| "json_skip_object_depth 0 depth s = Out_of_fuel"
| "json_skip_object_depth (Suc n) depth s =
     (if depth \<ge> JSON_MAX_NESTING then Rejects
      else case json_ws s of
        [] \<Rightarrow> Rejects
      | c # cs \<Rightarrow>
          if c \<noteq> 0x7b then Rejects
          else (let s' = json_ws cs
                in if take 1 s' = [0x7d] then Rest (tl s') else skip_pairs n depth s'))"
| "skip_pairs 0 depth s = Out_of_fuel"
| "skip_pairs (Suc n) depth s =
     (case json_string s of
        None \<Rightarrow> Rejects
      | Some (key, s1) \<Rightarrow>
          (case json_ws s1 of
             [] \<Rightarrow> Rejects
           | c # cs \<Rightarrow>
               if c \<noteq> 0x3a then Rejects
               else case json_skip_value_depth n (Suc depth) cs of
                 Out_of_fuel \<Rightarrow> Out_of_fuel
               | Rejects \<Rightarrow> Rejects
               | Rest s2 \<Rightarrow>
                   (case json_ws s2 of
                      [] \<Rightarrow> Rejects
                    | d # ds \<Rightarrow>
                        if d = 0x7d then Rest ds
                        else if d \<noteq> 0x2c then Rejects
                        else skip_pairs n depth ds)))"
  by pat_completeness auto
termination
  by (relation "measure (case_sum (case_sum fst fst) (case_sum fst (case_sum fst fst)))") simp_all

text \<open>
  Every byte leads to at most three nested calls.  That this fuel never runs out, so that the
  \<open>Out_of_fuel\<close> branch below is never taken, is \<open>json_skip_value_terminates\<close>.
\<close>

definition skip_fuel :: "byte list \<Rightarrow> nat" where "skip_fuel s = 3 * length s + 3"

definition json_skip_value :: "byte list \<Rightarrow> byte list option" where
  "json_skip_value s =
     (case json_skip_value_depth (skip_fuel s) 0 s of
        Rest r \<Rightarrow> Some r | Rejects \<Rightarrow> None | Out_of_fuel \<Rightarrow> None)"

definition json_raw_value :: "byte list \<Rightarrow> (byte list \<times> byte list) option" where
  "json_raw_value s =
     (let start = json_ws s
      in case json_skip_value start of
           None \<Rightarrow> None
         | Some r \<Rightarrow> Some (take (length start - length r) start, r))"


text \<open>
  The copy loop of the minifier: blanks outside strings are dropped.  \<open>instr\<close> and
  \<open>esc\<close> are the two flags.
\<close>

fun minify_loop :: "bool \<Rightarrow> bool \<Rightarrow> byte list \<Rightarrow> byte list" where
  "minify_loop instr esc [] = []"
| "minify_loop instr esc (c # cs) =
     (if instr then
        c # (if esc then minify_loop True False cs
             else if c = 0x5c then minify_loop True True cs
             else if c = 0x22 then minify_loop False False cs
             else minify_loop True False cs)
      else if c = 0x22 then c # minify_loop True esc cs
      else if \<not> isspace c then c # minify_loop False esc cs
      else minify_loop False esc cs)"

definition json_minify_raw_value :: "byte list \<Rightarrow> byte list" where
  "json_minify_raw_value json =
     (let start = json_ws json
      in case json_skip_value start of
           None \<Rightarrow> json
         | Some r \<Rightarrow> minify_loop False False (take (length start - length r) start))"

section \<open>Member loops\<close>

definition after_item :: "byte list \<Rightarrow> byte list" where
  "after_item s = (let t = json_ws s in json_ws (if take 1 t = [0x2c] then tl t else t))"

fun json_members :: "nat \<Rightarrow> byte \<Rightarrow> ('a \<Rightarrow> byte list \<Rightarrow> ('a \<times> byte list) option)
    \<Rightarrow> 'a \<Rightarrow> byte list \<Rightarrow> ('a \<times> byte list) option" where
  "json_members 0 close item a s = None"
| "json_members (Suc n) close item a s =
     (case s of
        [] \<Rightarrow> None
      | c # cs \<Rightarrow>
          if c = close then Some (a, cs)
          else case item a s of
                 None \<Rightarrow> None
               | Some (a', s') \<Rightarrow> json_members n close item a' (after_item s'))"

text \<open>One member of an object: its name, a colon, and what \<open>f\<close> reads for that name.\<close>

definition json_field :: "(byte list \<Rightarrow> 'a \<Rightarrow> byte list \<Rightarrow> ('a \<times> byte list) option)
    \<Rightarrow> 'a \<Rightarrow> byte list \<Rightarrow> ('a \<times> byte list) option" where
  "json_field f a s =
     (case json_string s of
        None \<Rightarrow> None
      | Some (key, s1) \<Rightarrow>
          (case json_ws s1 of
             [] \<Rightarrow> None
           | c # cs \<Rightarrow> if c \<noteq> 0x3a then None else f key a cs))"

text \<open>The rest of an object or array after its opening bracket.\<close>

definition json_object :: "(byte list \<Rightarrow> 'a \<Rightarrow> byte list \<Rightarrow> ('a \<times> byte list) option)
    \<Rightarrow> 'a \<Rightarrow> byte list \<Rightarrow> ('a \<times> byte list) option" where
  "json_object f a s = json_members (Suc (length s)) 0x7d (json_field f) a (json_ws s)"

definition json_array :: "('a \<Rightarrow> byte list \<Rightarrow> ('a \<times> byte list) option)
    \<Rightarrow> 'a \<Rightarrow> byte list \<Rightarrow> ('a \<times> byte list) option" where
  "json_array item a s = json_members (Suc (length s)) 0x5d item a (json_ws s)"

text \<open>A member that is not interesting.\<close>

definition skip_field :: "'a \<Rightarrow> byte list \<Rightarrow> ('a \<times> byte list) option" where
  "skip_field a s = (case json_skip_value s of None \<Rightarrow> None | Some r \<Rightarrow> Some (a, r))"

text \<open>Members whose value must be a string, message content, or any value, stored by \<open>put\<close>.\<close>

definition string_into :: "(byte list \<Rightarrow> 'a) \<Rightarrow> byte list \<Rightarrow> ('a \<times> byte list) option" where
  "string_into put s = (case json_string s of None \<Rightarrow> None | Some (v, r) \<Rightarrow> Some (put v, r))"

definition raw_into :: "(byte list \<Rightarrow> 'a) \<Rightarrow> byte list \<Rightarrow> ('a \<times> byte list) option" where
  "raw_into put s = (case json_raw_value s of None \<Rightarrow> None | Some (v, r) \<Rightarrow> Some (put v, r))"

section \<open>Message content\<close>

definition content_field :: "byte list \<Rightarrow> byte list \<Rightarrow> byte list \<Rightarrow> (byte list \<times> byte list) option" where
  "content_field key b s =
     (if key = ascii ''text'' then string_into (\<lambda>v. b @ v) s else skip_field b s)"

definition content_item :: "byte list \<Rightarrow> byte list \<Rightarrow> (byte list \<times> byte list) option" where
  "content_item b s =
     (if take 1 s = [0x22] then string_into (\<lambda>v. b @ v) s
      else if take 1 s = [0x7b] then json_object content_field b (tl s)
      else skip_field b s)"

definition json_content :: "byte list \<Rightarrow> (byte list \<times> byte list) option" where
  "json_content s =
     (let s' = json_ws s
      in if take 1 s' = [0x22] then json_string s'
         else case json_lit (ascii ''null'') s' of
           Some r \<Rightarrow> Some ([], r)
         | None \<Rightarrow>
             if take 1 s' \<noteq> [0x5b]
             then (case json_skip_value s' of None \<Rightarrow> None | Some r \<Rightarrow> Some ([], r))
             else json_array content_item [] (tl s'))"

definition content_into :: "(byte list \<Rightarrow> 'a) \<Rightarrow> byte list \<Rightarrow> ('a \<times> byte list) option" where
  "content_into put s = (case json_content s of None \<Rightarrow> None | Some (v, r) \<Rightarrow> Some (put v, r))"

section \<open>Printing\<close>

definition hex_byte :: "nat \<Rightarrow> byte" where
  "hex_byte n = of_nat (if n < 10 then 0x30 + n else 0x57 + n)"

definition json_escape_char :: "byte \<Rightarrow> byte list" where
  "json_escape_char c =
     (if c = 0x22 \<or> c = 0x5c then [0x5c, c]
      else if c = 10 then [0x5c, 0x6e]
      else if c = 13 then [0x5c, 0x72]
      else if c = 9 then [0x5c, 0x74]
      else if c < 0x20 then [0x5c, 0x75, 0x30, 0x30, hex_byte (unat c div 16), hex_byte (unat c mod 16)]
      else [c])"

definition json_escape_fragment_n :: "byte list \<Rightarrow> byte list" where
  "json_escape_fragment_n s = concat (map json_escape_char s)"

definition json_escape :: "byte list \<Rightarrow> byte list" where
  "json_escape s = [0x22] @ concat (map json_escape_char s) @ [0x22]"

section \<open>Consumption\<close>

lemma json_ws_suffix: "suffix (json_ws s) s"
  by (simp add: json_ws_def suffix_dropWhile)

lemma json_ws_length: "length (json_ws s) \<le> length s"
  by (simp add: json_ws_suffix suffix_length_le)

lemma json_ws_id: "s = [] \<or> \<not> isspace (hd s) \<Longrightarrow> json_ws s = s"
  by (cases s) (auto simp: json_ws_def)

lemma json_lit_suffix: "json_lit lit s = Some r \<Longrightarrow> suffix r s \<and> length s = length lit + length r"
proof -
  assume a: "json_lit lit s = Some r"
  then have "take (length lit) s = lit" "r = drop (length lit) s" by (auto simp: json_lit_def split: if_splits)
  then have "length lit \<le> length s" by (metis length_take min.cobounded1)
  with \<open>r = _\<close> show ?thesis by (simp add: suffix_drop)
qed

lemma json_u16_suffix: "json_u16 s = Some (cp, s') \<Longrightarrow> suffix s' s"
  by (auto simp: json_u16_def suffix_drop split: if_splits option.splits)

lemma json_surrogate_suffix: "json_surrogate cp s = (cp', s') \<Longrightarrow> suffix s' s"
  by (auto simp: json_surrogate_def dest: json_u16_suffix split: if_splits option.splits)

lemma json_string_body_suffix:
  "json_string_body acc s = Some (v, s') \<Longrightarrow> suffix s' s \<and> length s' < length s"
proof (induction acc s rule: json_string_body.induct)
  case (1 acc)
  then show ?case by simp
next
  case (2 acc c cs)
  have lift: "suffix s' (c # cs) \<and> length s' < length (c # cs)"
    if "suffix r (c # cs)" "suffix s' r \<and> length s' < length r" for r
    using that suffix_order.trans suffix_length_le by fastforce
  show ?case
  proof (cases "c = 0x22 \<or> c \<noteq> 0x5c")
    case True
    with 2 show ?thesis by (auto simp: suffix_Cons split: if_splits)
  next
    case False
    then obtain e es where cs: "cs = e # es" using "2.prems" by (cases cs) auto
    show ?thesis
    proof (cases "json_simple_escape e")
      case (Some b)
      with False cs "2.prems" have "json_string_body (acc @ [b]) es = Some (v, s')" by simp
      with "2.IH"(3) [OF _ _ cs Some] False have "suffix s' es \<and> length s' < length es" by simp
      then show ?thesis by (intro lift [of es]) (simp_all add: cs suffix_Cons)
    next
      case None
      with False cs "2.prems" obtain cp s1 where u: "e = 0x75" "json_u16 (c # cs) = Some (cp, s1)"
        by (auto split: if_splits option.splits)
      obtain cp' s2 where sr: "json_surrogate cp s1 = (cp', s2)" by fastforce
      have "json_string_body (acc @ json_utf8_put cp') s2 = Some (v, s')"
        using False cs None u sr "2.prems" by simp
      with "2.IH"(2) [OF _ _ cs None _ u(2) refl sr [symmetric]] False u(1)
      have "suffix s' s2 \<and> length s' < length s2" by simp
      moreover have "suffix s2 (c # cs)"
        using json_surrogate_suffix [OF sr] json_u16_suffix [OF u(2)] by (rule suffix_order.trans)
      ultimately show ?thesis by (intro lift [of s2])
    qed
  qed
qed

lemma json_string_suffix: "json_string s = Some (v, s') \<Longrightarrow> suffix s' s \<and> length s' < length s"
proof -
  assume "json_string s = Some (v, s')"
  then obtain c cs b where "json_ws s = c # cs" "json_string_body [] cs = Some (b, s')"
    by (auto simp: json_string_def split: list.splits if_splits option.splits)
  with json_string_body_suffix json_ws_suffix [of s] show ?thesis
    by (metis less_imp_le_nat order_less_le_trans suffix_ConsI suffix_length_le suffix_order.trans length_Cons lessI suffix_length_less strict_suffix_def)
qed

declare json_skip_value_depth.simps [simp del] json_skip_array_depth.simps [simp del]
  skip_elements.simps [simp del] json_skip_object_depth.simps [simp del] skip_pairs.simps [simp del]

lemmas skip_simps = json_skip_value_depth.simps json_skip_array_depth.simps skip_elements.simps
  json_skip_object_depth.simps skip_pairs.simps

text \<open>The laws of \<open>strict_suffix\<close> the consumption proofs use.\<close>

lemma eats_Cons: "strict_suffix cs (c # cs)"
  by (simp add: strict_suffix_def suffix_Cons)

lemma eats_ws: "strict_suffix r (json_ws s) \<Longrightarrow> strict_suffix r s"
  using json_ws_suffix suffix_order.less_le_trans by blast

lemma eats_ws_Cons: "json_ws s = c # cs \<Longrightarrow> suffix r cs \<Longrightarrow> strict_suffix r s"
  by (metis eats_Cons eats_ws suffix_order.le_less_trans)

lemma eats_tl: "take 1 s = [c] \<Longrightarrow> strict_suffix (tl s) s"
  by (cases s) (simp_all add: eats_Cons)

lemmas eats_trans = suffix_order.less_trans suffix_order.less_le_trans suffix_order.le_less_trans

lemma eats_length: "strict_suffix r s \<Longrightarrow> length r < length s"
  by (metis suffix_length_less)

lemma json_string_eats: "json_string s = Some (v, s') \<Longrightarrow> strict_suffix s' s"
  using json_string_suffix by (fastforce simp: strict_suffix_def)

lemma json_lit_eats: "json_lit lit s = Some r \<Longrightarrow> lit \<noteq> [] \<Longrightarrow> strict_suffix r s"
  using json_lit_suffix [of lit s r] by (cases lit) (auto simp: strict_suffix_def)

lemma strtod_len_Nil: "strtod_len [] = 0"
  by (simp add: strtod_len_def unsigned_len_def starts_ci_def decimal_len_def mantissa_len_def run_len_def
      ascii_def)

lemma json_number_eats: "json_number s = Some (t, r) \<Longrightarrow> strict_suffix r s"
proof -
  assume a: "json_number s = Some (t, r)"
  let ?s = "json_ws s" and ?n = "strtod_len (json_ws s)"
  from a have r: "0 < ?n" "r = drop ?n ?s" by (auto simp: json_number_def Let_def split: if_splits)
  then have "?s \<noteq> []" using strtod_len_Nil by auto
  with r have "strict_suffix r ?s"
    by (auto simp: strict_suffix_def suffix_drop) (metis diff_less length_drop length_greater_0_conv less_irrefl)
  then show ?thesis by (rule eats_ws)
qed

lemma skip_outcome_of_Rest [simp]: "skip_outcome_of x = Rest r \<longleftrightarrow> x = Some r"
  by (cases x) simp_all

lemma skip_outcome_of_total [simp]: "skip_outcome_of x \<noteq> Out_of_fuel"
  by (cases x) simp_all

lemma skip_eats:
  "json_skip_value_depth n d s = Rest r \<Longrightarrow> strict_suffix r s"
  "json_skip_array_depth n d s = Rest r \<Longrightarrow> strict_suffix r s"
  "skip_elements n d s = Rest r \<Longrightarrow> strict_suffix r s"
  "json_skip_object_depth n d s = Rest r \<Longrightarrow> strict_suffix r s"
  "skip_pairs n d s = Rest r \<Longrightarrow> strict_suffix r s"
proof (induction n d s and n d s and n d s and n d s and n d s arbitrary: r and r and r and r and r
    rule: json_skip_value_depth_json_skip_array_depth_skip_elements_json_skip_object_depth_skip_pairs.induct)
  case (2 n depth s)
  have "strict_suffix r (json_ws s)"
    using "2.prems" "2.IH" [OF refl]
    by (auto simp: json_skip_value_depth.simps(2) Let_def
        dest: json_string_eats json_number_eats json_lit_eats [of "ascii _"]
        split: if_splits option.splits skip_outcome.splits) (auto dest: json_lit_eats simp: ascii_def)
  then show ?case by (rule eats_ws)
next
  case (4 n depth s)
  from "4.prems" obtain c cs where d: "\<not> depth \<ge> JSON_MAX_NESTING" and s: "json_ws s = c # cs" "c = 0x5b"
    and r: "(if take 1 (json_ws cs) = [0x5d] then Rest (tl (json_ws cs)) else skip_elements n depth (json_ws cs)) = Rest r"
    by (auto simp: json_skip_array_depth.simps(2) Let_def split: if_splits list.splits)
  have "strict_suffix r (json_ws cs)"
    using r "4.IH" [OF d s(1) _ refl] s(2) by (auto split: if_splits intro: eats_tl)
  then have "suffix r cs" using json_ws_suffix [of cs] by (meson suffix_order.less_imp_le suffix_order.trans)
  with s show ?case by (auto intro: eats_ws_Cons)
next
  case (6 n depth s)
  from "6.prems" obtain s1 c cs where v: "json_skip_value_depth n (Suc depth) s = Rest s1" and s1: "json_ws s1 = c # cs"
    and r: "(if c = 0x5d then Rest cs else if c \<noteq> 0x2c then Rejects else skip_elements n depth cs) = Rest r"
    by (auto simp: skip_elements.simps(2) split: option.splits skip_outcome.splits list.splits)
  have "suffix r cs"
    using r "6.IH"(2) [OF v s1] by (auto split: if_splits simp: suffix_order.less_imp_le)
  with s1 have "strict_suffix r s1" by (rule eats_ws_Cons)
  with "6.IH"(1) [OF v] show ?case by (blast intro: eats_trans)
next
  case (8 n depth s)
  from "8.prems" obtain c cs where d: "\<not> depth \<ge> JSON_MAX_NESTING" and s: "json_ws s = c # cs" "c = 0x7b"
    and r: "(if take 1 (json_ws cs) = [0x7d] then Rest (tl (json_ws cs)) else skip_pairs n depth (json_ws cs)) = Rest r"
    by (auto simp: json_skip_object_depth.simps(2) Let_def split: if_splits list.splits)
  have "strict_suffix r (json_ws cs)"
    using r "8.IH" [OF d s(1) _ refl] s(2) by (auto split: if_splits intro: eats_tl)
  then have "suffix r cs" using json_ws_suffix [of cs] by (meson suffix_order.less_imp_le suffix_order.trans)
  with s show ?case by (auto intro: eats_ws_Cons)
next
  case (10 n depth s)
  from "10.prems" obtain key s1 c cs s2 e es where k: "json_string s = Some (key, s1)"
    and s1: "json_ws s1 = c # cs" "c = 0x3a" and v: "json_skip_value_depth n (Suc depth) cs = Rest s2"
    and s2: "json_ws s2 = e # es"
    and r: "(if e = 0x7d then Rest es else if e \<noteq> 0x2c then Rejects else skip_pairs n depth es) = Rest r"
    by (auto simp: skip_pairs.simps(2) split: option.splits skip_outcome.splits list.splits if_split_asm)
  have "suffix r es"
    using r "10.IH"(2) [OF k refl s1(1) _ v s2] s1(2) by (auto split: if_splits simp: suffix_order.less_imp_le)
  with s2 have "strict_suffix r s2" by (rule eats_ws_Cons)
  moreover have "strict_suffix s2 cs" using "10.IH"(1) [OF k refl s1(1) _ v] s1(2) by simp
  moreover have "strict_suffix cs s1" using s1(1) by (rule eats_ws_Cons) simp
  moreover have "strict_suffix s1 s" by (rule json_string_eats [OF k])
  ultimately show ?case by (blast intro: eats_trans)
qed (simp_all add: skip_simps)

lemma json_skip_value_eats: "json_skip_value s = Some r \<Longrightarrow> strict_suffix r s"
  by (auto simp: json_skip_value_def split: skip_outcome.splits intro: skip_eats(1))

section \<open>The fuel is enough\<close>

text \<open>
  An answer, once there, does not depend on the fuel; and a fuel of three calls per byte
  always brings one, since every call that recurses on the text it was given is followed by
  one on a shorter text (\<open>skip_eats\<close>).
\<close>

lemma skip_more_fuel:
  "json_skip_value_depth n d s \<noteq> Out_of_fuel \<Longrightarrow> json_skip_value_depth (Suc n) d s = json_skip_value_depth n d s"
  "json_skip_array_depth n d s \<noteq> Out_of_fuel \<Longrightarrow> json_skip_array_depth (Suc n) d s = json_skip_array_depth n d s"
  "skip_elements n d s \<noteq> Out_of_fuel \<Longrightarrow> skip_elements (Suc n) d s = skip_elements n d s"
  "json_skip_object_depth n d s \<noteq> Out_of_fuel \<Longrightarrow> json_skip_object_depth (Suc n) d s = json_skip_object_depth n d s"
  "skip_pairs n d s \<noteq> Out_of_fuel \<Longrightarrow> skip_pairs (Suc n) d s = skip_pairs n d s"
proof (induction n d s and n d s and n d s and n d s and n d s
    rule: json_skip_value_depth_json_skip_array_depth_skip_elements_json_skip_object_depth_skip_pairs.induct)
  case (2 n d s)
  then show ?case by (auto simp: json_skip_value_depth.simps(2) Let_def)
next
  case (4 n d s)
  then show ?case by (auto simp: json_skip_array_depth.simps(2) Let_def split: list.split)
next
  case (6 n d s)
  then show ?case
    by (cases "json_skip_value_depth n (Suc d) s") (auto simp: skip_elements.simps(2) split: list.split)
next
  case (8 n d s)
  then show ?case by (auto simp: json_skip_object_depth.simps(2) Let_def split: list.split)
next
  case (10 n d s)
  show ?case
  proof (cases "json_string s")
    case (Some ks)
    then obtain key s1 where k: "json_string s = Some (key, s1)" by (cases ks) simp
    show ?thesis
    proof (cases "\<exists>cs. json_ws s1 = 0x3a # cs")
      case True
      then obtain cs where cs: "json_ws s1 = 0x3a # cs" ..
      note IH = "10.IH" [OF k refl cs]
      show ?thesis
        using "10.prems" IH
        by (cases "json_skip_value_depth n (Suc d) cs")
          (auto simp: skip_pairs.simps(2) k cs split: list.split)
    qed (auto simp: skip_pairs.simps(2) k split: list.split)
  qed (simp add: skip_pairs.simps(2))
qed (simp_all add: skip_simps)

lemma skip_has_fuel:
  "3 * length s + 3 \<le> n \<Longrightarrow> json_skip_value_depth n d s \<noteq> Out_of_fuel"
  "3 * length s + 2 \<le> n \<Longrightarrow> json_skip_array_depth n d s \<noteq> Out_of_fuel"
  "3 * length s + 4 \<le> n \<Longrightarrow> skip_elements n d s \<noteq> Out_of_fuel"
  "3 * length s + 2 \<le> n \<Longrightarrow> json_skip_object_depth n d s \<noteq> Out_of_fuel"
  "3 * length s + 4 \<le> n \<Longrightarrow> skip_pairs n d s \<noteq> Out_of_fuel"
proof (induction n d s and n d s and n d s and n d s and n d s
    rule: json_skip_value_depth_json_skip_array_depth_skip_elements_json_skip_object_depth_skip_pairs.induct)
  case (2 n d s)
  have "length (json_ws s) \<le> length s" by (rule json_ws_length)
  with 2 show ?case
    by (simp add: json_skip_value_depth.simps(2) Let_def split: option.split)
next
  case (4 n d s)
  show ?case
  proof (cases "json_ws s")
    case (Cons c cs)
    have "length (json_ws s) \<le> length s" "length (json_ws cs) \<le> length cs" by (rule json_ws_length)+
    with 4 Cons show ?thesis by (simp add: json_skip_array_depth.simps(2) Let_def)
  qed (simp add: json_skip_array_depth.simps(2))
next
  case (6 n d s)
  show ?case
  proof (cases "json_skip_value_depth n (Suc d) s")
    case (Rest s1)
    then have l: "length s1 < length s" by (intro eats_length skip_eats(1))
    show ?thesis
    proof (cases "json_ws s1")
      case (Cons c cs)
      have "length (json_ws s1) \<le> length s1" by (rule json_ws_length)
      with Cons l "6.prems" have "3 * length cs + 4 \<le> n" by simp
      then show ?thesis using "6.IH"(2) [OF Rest Cons] Cons Rest by (simp add: skip_elements.simps(2))
    qed (simp add: skip_elements.simps(2) Rest)
  qed (use 6 in \<open>simp_all add: skip_elements.simps(2)\<close>)
next
  case (8 n d s)
  show ?case
  proof (cases "json_ws s")
    case (Cons c cs)
    have "length (json_ws s) \<le> length s" "length (json_ws cs) \<le> length cs" by (rule json_ws_length)+
    with 8 Cons show ?thesis by (simp add: json_skip_object_depth.simps(2) Let_def)
  qed (simp add: json_skip_object_depth.simps(2))
next
  case (10 n d s)
  show ?case
  proof (cases "\<exists>key s1 cs. json_string s = Some (key, s1) \<and> json_ws s1 = 0x3a # cs")
    case True
    then obtain key s1 cs where k: "json_string s = Some (key, s1)" and cs: "json_ws s1 = 0x3a # cs" by blast
    note IH = "10.IH" [OF k refl cs]
    have l: "length cs < length s"
      using eats_length [OF json_string_eats [OF k]] json_ws_length [of s1] cs by simp
    show ?thesis
    proof (cases "json_skip_value_depth n (Suc d) cs")
      case Out_of_fuel
      with IH(1) l "10.prems" show ?thesis by simp
    next
      case (Rest s2)
      then have l2: "length s2 < length cs" by (intro eats_length skip_eats(1))
      show ?thesis
      proof (cases "json_ws s2")
        case (Cons e es)
        have "length (json_ws s2) \<le> length s2" by (rule json_ws_length)
        with Cons l l2 "10.prems" have "3 * length es + 4 \<le> n" by simp
        then show ?thesis using IH(2) [OF _ Rest Cons] Cons Rest by (simp add: skip_pairs.simps(2) k cs)
      qed (simp add: skip_pairs.simps(2) k cs Rest)
    qed (simp add: skip_pairs.simps(2) k cs)
  qed (auto simp: skip_pairs.simps(2) split: option.split list.split)
qed (simp_all add: skip_simps)

lemma skip_value_fuel_eq:
  assumes "skip_fuel s \<le> n"
  shows "json_skip_value_depth n d s = json_skip_value_depth (skip_fuel s) d s"
proof -
  have "json_skip_value_depth (skip_fuel s) d s \<noteq> Out_of_fuel" by (simp add: skip_has_fuel(1) skip_fuel_def)
  then have "json_skip_value_depth (skip_fuel s + j) d s = json_skip_value_depth (skip_fuel s) d s" for j
    by (induction j) (simp_all add: skip_more_fuel(1))
  from this [of "n - skip_fuel s"] assms show ?thesis by simp
qed

lemma skip_outcome_total:
  assumes "3 * length s + 3 \<le> n"
  shows "json_skip_value_depth n 0 s = skip_outcome_of (json_skip_value s)"
proof -
  have eq: "json_skip_value_depth n 0 s = json_skip_value_depth (skip_fuel s) 0 s"
    using assms by (intro skip_value_fuel_eq) (simp add: skip_fuel_def)
  have "json_skip_value_depth (skip_fuel s) 0 s \<noteq> Out_of_fuel" by (simp add: skip_has_fuel(1) skip_fuel_def)
  with eq show ?thesis
    by (cases "json_skip_value_depth (skip_fuel s) 0 s") (simp_all add: json_skip_value_def)
qed

section \<open>Readers that consume\<close>

lemma after_item_suffix: "suffix (after_item s) s"
proof -
  have "suffix (json_ws (tl (json_ws s))) (json_ws s)"
    using json_ws_suffix suffix_order.trans by (blast intro: suffix_tl)
  moreover have "suffix (json_ws (json_ws s)) (json_ws s)" by (rule json_ws_suffix)
  ultimately show ?thesis
    using json_ws_suffix [of s] suffix_order.trans by (auto simp: after_item_def Let_def)
qed

text \<open>
  The item of a loop eats at least one byte; then the loop returns a shorter text and
  its fuel (more than the length of the text) never runs out.
\<close>

locale consumer =
  fixes item :: "'a \<Rightarrow> byte list \<Rightarrow> ('a \<times> byte list) option"
  assumes item_eats: "item a s = Some (a', r) \<Longrightarrow> strict_suffix r s"
begin

lemma members_eats: "json_members n close item a s = Some (a', r) \<Longrightarrow> strict_suffix r s"
proof (induction n arbitrary: a s)
  case (Suc n)
  then obtain c cs where s: "s = c # cs" by (cases s) auto
  show ?case
  proof (cases "c = close")
    case True
    with Suc.prems s show ?thesis by (simp add: eats_Cons)
  next
    case False
    with Suc.prems s obtain a1 s1 where i: "item a s = Some (a1, s1)"
      and m: "json_members n close item a1 (after_item s1) = Some (a', r)"
      by (auto split: option.splits)
    from Suc.IH [OF m] after_item_suffix [of s1] item_eats [OF i] show ?thesis
      by (meson suffix_order.less_le_trans suffix_order.less_trans)
  qed
qed simp

lemma members_fuel: "length s < n \<Longrightarrow> json_members (Suc n) close item a s = json_members n close item a s"
proof (induction n arbitrary: a s)
  case (Suc n)
  show ?case
  proof (cases s)
    case (Cons c cs)
    have "json_members (Suc n) close item a1 (after_item s1) = json_members n close item a1 (after_item s1)"
      if "item a s = Some (a1, s1)" for a1 s1
    proof (rule Suc.IH)
      have "length s1 < length s" using item_eats [OF that] by (rule eats_length)
      moreover have "length (after_item s1) \<le> length s1" by (simp add: after_item_suffix suffix_length_le)
      ultimately show "length (after_item s1) < n" using Suc.prems by simp
    qed
    then show ?thesis
      by (cases "item a s") (auto simp: Cons simp del: json_members.simps(2) simp: json_members.simps(2) [of "Suc n"] json_members.simps(2) [of n])
  qed simp
qed simp

lemma array_eats: "json_array item a s = Some (a', r) \<Longrightarrow> suffix r s"
  unfolding json_array_def
  using members_eats json_ws_suffix [of s] by (meson suffix_order.less_imp_le suffix_order.trans)

lemma array_any_fuel: "length s < n \<Longrightarrow> json_members n 0x5d item a (json_ws s) = json_array item a s"
proof (induction n)
  case (Suc n)
  have "length (json_ws s) \<le> length s" by (rule json_ws_length)
  then show ?case
    using Suc by (cases "n = length s") (simp_all only: json_array_def, simp add: members_fuel del: json_members.simps)
qed simp

end

text \<open>A field reader must not give text back; the loop over its members is then a consumer.\<close>

locale field_reader =
  fixes f :: "byte list \<Rightarrow> 'a \<Rightarrow> byte list \<Rightarrow> ('a \<times> byte list) option"
  assumes field_suffix: "f key a s = Some (a', r) \<Longrightarrow> suffix r s"

sublocale field_reader \<subseteq> member: consumer "json_field f"
proof
  fix a s a' r
  assume "json_field f a s = Some (a', r)"
  then obtain key s1 c cs where s: "json_string s = Some (key, s1)" "json_ws s1 = c # cs" "f key a cs = Some (a', r)"
    by (auto simp: json_field_def split: option.splits list.splits if_splits)
  then have "strict_suffix r s1" using field_suffix eats_ws_Cons by blast
  with json_string_eats [OF s(1)] show "strict_suffix r s" by (rule suffix_order.less_trans [rotated])
qed

context field_reader begin

lemma object_eats: "json_object f a s = Some (a', r) \<Longrightarrow> suffix r s"
  unfolding json_object_def
  using member.members_eats json_ws_suffix [of s] by (meson suffix_order.less_imp_le suffix_order.trans)

lemma object_any_fuel:
  "length s < n \<Longrightarrow> json_members n 0x7d (json_field f) a (json_ws s) = json_object f a s"
proof (induction n)
  case (Suc n)
  have "length (json_ws s) \<le> length s" by (rule json_ws_length)
  then show ?case
    using Suc by (cases "n = length s") (simp_all only: json_object_def, simp add: member.members_fuel del: json_members.simps)
qed simp

end

lemma skip_field_eats: "skip_field a s = Some (a', r) \<Longrightarrow> strict_suffix r s"
  by (auto simp: skip_field_def json_skip_value_eats split: option.splits)

lemma string_into_eats: "string_into put s = Some (a', r) \<Longrightarrow> strict_suffix r s"
  by (auto simp: string_into_def json_string_eats split: option.splits)

lemma json_raw_value_eats: "json_raw_value s = Some (v, r) \<Longrightarrow> strict_suffix r s"
  by (rule eats_ws) (auto simp: json_raw_value_def Let_def json_skip_value_eats split: option.splits)

lemma raw_into_eats: "raw_into put s = Some (a', r) \<Longrightarrow> strict_suffix r s"
  by (auto simp: raw_into_def json_raw_value_eats split: option.splits)

lemmas into_eats = string_into_eats raw_into_eats skip_field_eats
lemmas into_suffix = into_eats [THEN suffix_order.less_imp_le]

interpretation content_fields: field_reader content_field
  by unfold_locales (simp add: content_field_def into_suffix split: if_splits)

interpretation content: consumer content_item
proof
  fix a s a' r
  assume a: "content_item a s = Some (a', r)"
  show "strict_suffix r s"
  proof (cases "take 1 s = [0x7b]")
    case True
    with a have "json_object content_field a (tl s) = Some (a', r)" by (simp add: content_item_def)
    then have "suffix r (tl s)" by (rule content_fields.object_eats)
    then show ?thesis using eats_tl [OF True] by (rule suffix_order.le_less_trans)
  next
    case False
    with a show ?thesis by (simp add: content_item_def into_eats split: if_splits)
  qed
qed

lemma json_content_eats:
  assumes "json_content s = Some (v, r)"
  shows "strict_suffix r s"
proof (rule eats_ws)
  let ?s = "json_ws s"
  consider "take 1 ?s = [0x22]" | r' where "take 1 ?s \<noteq> [0x22]" "json_lit (ascii ''null'') ?s = Some r'"
    | "take 1 ?s \<noteq> [0x22]" "json_lit (ascii ''null'') ?s = None" "take 1 ?s \<noteq> [0x5b]"
    | "json_lit (ascii ''null'') ?s = None" "take 1 ?s = [0x5b]"
    by fastforce
  then show "strict_suffix r ?s"
  proof cases
    case 1
    with assms show ?thesis by (simp add: json_content_def json_string_eats)
  next
    case (2 r')
    with assms have "r' = r" by (simp add: json_content_def)
    with 2 show ?thesis by (simp add: json_lit_eats ascii_def)
  next
    case 3
    with assms show ?thesis by (simp add: json_content_def json_skip_value_eats split: option.splits)
  next
    case 4
    with assms have "json_array content_item [] (tl ?s) = Some (v, r)" by (simp add: json_content_def)
    then have "suffix r (tl ?s)" by (rule content.array_eats)
    then show ?thesis using eats_tl [OF 4(2)] by (rule suffix_order.le_less_trans)
  qed
qed

lemma content_into_eats: "content_into put s = Some (a', r) \<Longrightarrow> strict_suffix r s"
  by (auto simp: content_into_def json_content_eats split: option.splits)

declare json_members.simps [simp del]

text \<open>An invariant the item keeps holds of the result of a loop.\<close>

lemma json_members_invariant:
  assumes keep: "\<And>a s a' r. P a \<Longrightarrow> item a s = Some (a', r) \<Longrightarrow> P a'"
  shows "P a \<Longrightarrow> json_members n close item a s = Some (a', r) \<Longrightarrow> P a'"
proof (induction n arbitrary: a s)
  case (Suc n)
  then show ?case
    by (auto simp: json_members.simps split: list.splits if_splits option.splits dest: keep)
qed (simp add: json_members.simps)

section \<open>Round trip of the string printer\<close>

lemma cstr_id: "0 \<notin> set s \<Longrightarrow> cstr s = s"
  unfolding cstr_def by (induction s) auto

lemma control_escapes:
  "list_all (\<lambda>n. json_u16 (json_escape_char (of_nat n)) = Some (of_nat n, []) \<or> n \<in> {9, 10, 13}) [0..<32]"
  by code_simp

lemma hex_digits_append: "hex_digits n cp s = Some v \<Longrightarrow> hex_digits n cp (s @ r) = Some v"
  by (induction n cp s rule: hex_digits.induct) (auto split: option.splits)

lemma json_u16_append:
  assumes "json_u16 s = Some (cp, t)"
  shows "json_u16 (s @ r) = Some (cp, t @ r)"
proof -
  have l: "length s = length t + 6" using assms by (rule json_u16_length)
  from assms have "take 2 s = [0x5c, 0x75]" "hex_digits 4 0 (drop 2 s) = Some cp" "t = drop 6 s"
    by (auto simp: json_u16_def split: if_splits option.splits)
  with l show ?thesis by (simp add: json_u16_def hex_digits_append)
qed

lemma json_string_body_escape:
  "json_string_body acc (concat (map json_escape_char s) @ 0x22 # rest) = Some (acc @ s, rest)"
proof (induction s arbitrary: acc)
  case (Cons c s)
  let ?t = "concat (map json_escape_char s) @ 0x22 # rest"
  consider "c \<in> {0x22, 0x5c, 10, 13, 9}" | "c < 0x20" "c \<notin> {10, 13, 9}" | "\<not> c < 0x20" "c \<notin> {0x22, 0x5c}"
    by fastforce
  then have "json_string_body acc (json_escape_char c @ ?t) = json_string_body (acc @ [c]) ?t"
  proof cases
    case 1
    then show ?thesis by (auto simp: json_escape_char_def json_simple_escape_def)
  next
    case 2
    then have u: "unat c < 32" by (simp add: word_less_nat_alt)
    then have "json_u16 (json_escape_char (of_nat (unat c))) = Some (of_nat (unat c), []) \<or> unat c \<in> {9, 10, 13}"
      using control_escapes unfolding list_all_iff by (metis atLeastLessThan_iff le0 set_upt)
    moreover have "unat c \<notin> {9, 10, 13}"
      using 2(2) by (auto simp: word_unat_eq_iff)
    ultimately have e: "json_u16 (json_escape_char c @ ?t) = Some (ucast c, ?t)"
      using json_u16_append [of "json_escape_char c" _ "[]" ?t] by auto
    have "c \<noteq> 0x22 \<and> c \<noteq> 0x5c" using 2(1) by auto
    with 2 have h: "json_escape_char c = 0x5c # 0x75 # 0x30 # 0x30 # [hex_byte (unat c div 16), hex_byte (unat c mod 16)]"
      by (simp add: json_escape_char_def)
    have "(ucast c :: u32) \<le> 0x7f" "\<not> (0xd800 \<le> (ucast c :: u32))"
      using u by (simp_all add: word_le_nat_alt unsigned_ucast_eq take_bit_nat_eq_self)
    moreover have "ucast (ucast c :: u32) = c"
      by (simp add: word_eq_iff_unsigned unsigned_ucast_eq take_bit_word_eq_self)
    ultimately show ?thesis using e h
      by (simp add: json_simple_escape_def json_surrogate_def json_utf8_put_def)
  next
    case 3
    then have "c \<noteq> 10 \<and> c \<noteq> 13 \<and> c \<noteq> 9" by auto
    with 3 show ?thesis by (simp add: json_escape_char_def)
  qed
  with Cons.IH [of "acc @ [c]"] show ?case by simp
qed simp

lemma json_string_escape:
  assumes "0 \<notin> set s"
  shows "json_string (json_escape s @ rest) = Some (s, rest)"
  using assms by (simp add: json_string_def json_ws_def isspace_def json_escape_def json_string_body_escape cstr_id)

section \<open>Correctness of the scanner and the printer\<close>

text \<open>Claim C8. Printing a string with \<^verbatim>\<open>json_escape\<close> and reading it back with \<^verbatim>\<open>json_string\<close>
  gives the same bytes and leaves what follows, for every text a C string can hold.\<close>

theorem json_escape_roundtrip:
  "0 \<notin> set s \<Longrightarrow> json_string (json_escape s @ rest) = Some (s, rest)"
  by (rule json_string_escape)

lemma json_escape_roundtrip_witness:
  "json_string (json_escape [0x61, 0x22, 0x0a, 0x1f, 0xc3, 0xa9] @ [0x2c]) = Some ([0x61, 0x22, 0x0a, 0x1f, 0xc3, 0xa9], [0x2c])"
  by (rule json_escape_roundtrip) simp

text \<open>Claim C9. The recursion of \<^verbatim>\<open>json_skip_value\<close> ends on every text: with a fuel of three calls per
  byte (and three more) no call of the five functions is ever left without fuel, so the outcome is
  never \<open>Out_of_fuel\<close> but the code's refusal (\<open>Rejects\<close>) or the position after the value
  (\<open>Rest\<close>), and it is the one \<^verbatim>\<open>json_skip_value\<close> returns.\<close>

theorem json_skip_value_terminates:
  "3 * length s + 3 \<le> n \<Longrightarrow>
     json_skip_value_depth n 0 s \<noteq> Out_of_fuel \<and>
     json_skip_value_depth n 0 s = (case json_skip_value s of None \<Rightarrow> Rejects | Some r \<Rightarrow> Rest r)"
  by (simp add: skip_outcome_total split: option.split)

lemma json_skip_value_terminates_witness:
  "json_skip_value_depth 100 0 (ascii ''[1,{}] x'') = Rest (ascii '' x'')"
proof -
  have "json_skip_value (ascii ''[1,{}] x'') = Some (ascii '' x'')" by code_simp
  with json_skip_value_terminates [of "ascii ''[1,{}] x''" 100] show ?thesis by (simp add: ascii_def)
qed

text \<open>\<^verbatim>\<open>json_raw_value\<close> returns exactly the bytes the skipper passed over: after
  the blanks the text is the value followed by the new scan position, the value is not
  empty, and the skipper accepts it there.\<close>

theorem json_raw_value_slice:
  "json_raw_value s = Some (v, r) \<Longrightarrow>
     json_ws s = v @ r \<and> v \<noteq> [] \<and> json_skip_value (json_ws s) = Some r"
proof -
  assume a: "json_raw_value s = Some (v, r)"
  then have k: "json_skip_value (json_ws s) = Some r"
    and v: "v = take (length (json_ws s) - length r) (json_ws s)"
    by (auto simp: json_raw_value_def Let_def split: option.splits)
  from k have "strict_suffix r (json_ws s)" by (rule json_skip_value_eats)
  then obtain u where "json_ws s = u @ r" "u \<noteq> []"
    by (auto simp: strict_suffix_def suffix_def)
  with v k show ?thesis by simp
qed

lemma json_raw_value_slice_witness:
  "json_raw_value (ascii '' [1] x'') = Some (ascii ''[1]'', ascii '' x'')
   \<and> json_ws (ascii '' [1] x'') = ascii ''[1]'' @ ascii '' x''"
proof -
  have "json_raw_value (ascii '' [1] x'') = Some (ascii ''[1]'', ascii '' x'')" by code_simp
  with json_raw_value_slice [OF this] show ?thesis by simp
qed

text \<open>A chain of brackets, one level each.\<close>

lemma bracket_level:
  "json_skip_value_depth (Suc (Suc n)) d (0x5b # s) =
     (if d \<ge> JSON_MAX_NESTING then Rejects
      else if take 1 (json_ws s) = [0x5d] then Rest (tl (json_ws s)) else skip_elements n d (json_ws s))"
  by (simp add: json_skip_value_depth.simps(2) json_skip_array_depth.simps(2) json_ws_def isspace_def Let_def)

lemma ws_bracket: "c \<in> {0x5b, 0x5d} \<Longrightarrow> json_ws (c # s) = c # s"
  by (auto simp: json_ws_def isspace_def)

lemma brackets_accepted:
  "d + Suc k \<le> JSON_MAX_NESTING \<Longrightarrow> 3 * Suc k \<le> n \<Longrightarrow>
     json_skip_value_depth n d (replicate (Suc k) 0x5b @ replicate (Suc k) 0x5d @ r) = Rest r"
proof (induction k arbitrary: d n r)
  case 0
  then obtain m where "n = Suc (Suc m)" by (cases n; cases "n - 1") auto
  with 0 show ?case by (simp add: bracket_level ws_bracket)
next
  case (Suc k)
  then have "n = Suc (Suc (Suc (n - 3)))" by simp
  then obtain m where n: "n = Suc (Suc (Suc m))" by blast
  have IH: "json_skip_value_depth m (Suc d) (replicate (Suc k) 0x5b @ replicate (Suc k) 0x5d @ 0x5d # r)
      = Rest (0x5d # r)"
    by (rule Suc.IH) (use Suc.prems n in simp_all)
  have "json_skip_value_depth n d (0x5b # replicate (Suc k) 0x5b @ replicate (Suc k) 0x5d @ 0x5d # r) = Rest r"
    using Suc.prems IH by (simp add: n bracket_level ws_bracket skip_elements.simps(2))
  then show ?case by (simp add: replicate_app_Cons_same)
qed

lemma bracket_open:
  assumes "json_skip_value_depth n d (0x5b # s) = Rest r"
  shows "d < JSON_MAX_NESTING"
proof -
  from assms obtain m where "n = Suc (Suc m)"
    by (cases n; cases "n - 1") (auto simp: skip_simps json_ws_def isspace_def)
  with assms show ?thesis by (simp add: bracket_level split: if_splits)
qed

lemma bracket_inner:
  assumes "json_skip_value_depth n d (0x5b # 0x5b # s) = Rest r"
  shows "\<exists>m r'. json_skip_value_depth m (Suc d) (0x5b # s) = Rest r'"
proof -
  from assms obtain m where n: "n = Suc (Suc m)"
    by (cases n; cases "n - 1") (auto simp: skip_simps json_ws_def isspace_def)
  with assms have "skip_elements m d (0x5b # s) = Rest r"
    by (simp add: bracket_level ws_bracket split: if_splits)
  then show ?thesis
    by (cases m) (auto simp: skip_elements.simps split: skip_outcome.splits)
qed

lemma brackets_rejected:
  "JSON_MAX_NESTING < d + Suc k \<Longrightarrow> json_skip_value_depth n d (replicate (Suc k) 0x5b @ t) \<noteq> Rest r"
proof (induction k arbitrary: d n r)
  case 0
  then show ?case using bracket_open [of n d t r] by auto
next
  case (Suc k)
  then have "json_skip_value_depth m (Suc d) (0x5b # replicate k 0x5b @ t) \<noteq> Rest r'" for m r'
    using Suc.IH [of "Suc d"] by simp
  then show ?case
    using bracket_inner [of n d "replicate k 0x5b @ t" r] by auto
qed

text \<open>The nesting ceiling: a value of \<open>k\<close> nested arrays is skipped when
  \<open>k\<close> is at most \<^verbatim>\<open>JSON_MAX_NESTING\<close>, and 257 opening brackets are refused whatever
  follows.\<close>

theorem json_nesting_limit:
  "(if k < 256 then json_skip_value (replicate (Suc k) 0x5b @ replicate (Suc k) 0x5d @ t) = Some t
    else json_skip_value (replicate (Suc k) 0x5b @ t) = None)"
proof (cases "k < 256")
  case True
  have "json_skip_value_depth (skip_fuel (replicate (Suc k) 0x5b @ replicate (Suc k) 0x5d @ t)) 0
      (replicate (Suc k) 0x5b @ replicate (Suc k) 0x5d @ t) = Rest t"
    by (rule brackets_accepted) (use True in \<open>simp_all add: JSON_MAX_NESTING_def skip_fuel_def\<close>)
  with True show ?thesis by (simp only: json_skip_value_def skip_outcome.case if_True)
next
  case False
  have "json_skip_value_depth (skip_fuel (replicate (Suc k) 0x5b @ t)) 0 (replicate (Suc k) 0x5b @ t) \<noteq> Rest r" for r
    by (rule brackets_rejected) (use False in \<open>simp add: JSON_MAX_NESTING_def\<close>)
  then have "json_skip_value (replicate (Suc k) 0x5b @ t) = None"
    unfolding json_skip_value_def by (cases "json_skip_value_depth (skip_fuel (replicate (Suc k) 0x5b @ t)) 0
      (replicate (Suc k) 0x5b @ t)") auto
  with False show ?thesis by (simp only: if_False)
qed

text \<open>A high surrogate escape whose following escape is not a low surrogate swallows
  that escape: \<^verbatim>\<open>"\ud800\u0041"\<close> reads as the three bytes of U+D800 and the \<open>A\<close> is lost.\<close>

theorem json_string_drops_escape_after_lone_surrogate:
  "json_string (ascii [CHR 0x22, CHR 0x5c] @ ascii ''ud800'' @ ascii [CHR 0x5c] @ ascii ''u0041z'' @ [0x22])
     = Some ([0xed, 0xa0, 0x80, 0x7a], [])"
  by code_simp

end
