(* ===== verification/Ds4_Stops.thy ===== *)
theory Ds4_Stops
  imports Ds4_Json
begin

text \<open>
  Stop sequences and the two limits of a streamed reply,
  \<^verbatim>\<open>src/server/ds4_server.c\<close>: \<^verbatim>\<open>stop_list_clear\<close>, \<^verbatim>\<open>stop_list_push\<close>, \<^verbatim>\<open>parse_stop\<close>,
  \<^verbatim>\<open>stop_list_find_from\<close>, \<^verbatim>\<open>stop_list_stream_safe_len\<close>, \<^verbatim>\<open>utf8_expected_len\<close>,
  \<^verbatim>\<open>utf8_stream_safe_len\<close>.  Lengths and offsets into a text are \<open>nat\<close> (a text fits in
  memory, so \<^verbatim>\<open>size_t\<close> does not wrap).

  The lemmas show that the list keeps its maximum length exact, that the search
  returns the leftmost stop, that what the streaming limit releases can never
  turn out to be part of a stop, and that the UTF-8 limit cuts between characters.
\<close>

section \<open>The list\<close>

record stop_list =
  stop_v :: "byte list list"
  stop_max_len :: nat

definition stop_list_empty :: stop_list where
  "stop_list_empty = \<lparr>stop_v = [], stop_max_len = 0\<rparr>"

definition stop_list_clear :: "stop_list \<Rightarrow> stop_list" where
  "stop_list_clear st = st\<lparr>stop_v := [], stop_max_len := 0\<rparr>"

definition stop_list_push :: "stop_list \<Rightarrow> byte list \<Rightarrow> stop_list" where
  "stop_list_push st s =
     (if s = [] then st
      else st\<lparr>stop_max_len := (if length s > stop_max_len st then length s else stop_max_len st),
              stop_v := stop_v st @ [s]\<rparr>)"

definition stop_item :: "stop_list \<Rightarrow> byte list \<Rightarrow> (stop_list \<times> byte list) option" where
  "stop_item st s =
     (if take 1 s = [0x22] then string_into (stop_list_push st) s else skip_field st s)"

definition parse_stop :: "stop_list \<Rightarrow> byte list \<Rightarrow> (stop_list \<times> byte list) option" where
  "parse_stop out s =
     (let s' = json_ws s; out' = stop_list_clear out
      in if take 1 s' = [0x22]
         then string_into (stop_list_push out') s'
         else if take 1 s' \<noteq> [0x5b] then skip_field out' s'
         else json_array stop_item out' (tl s'))"

section \<open>Search\<close>

text \<open>\<^verbatim>\<open>strstr\<close>: the offset of the first occurrence.\<close>

fun strstr :: "byte list \<Rightarrow> byte list \<Rightarrow> nat option" where
  "strstr [] needle = (if needle = [] then Some 0 else None)"
| "strstr (c # cs) needle =
     (if take (length needle) (c # cs) = needle then Some 0 else map_option Suc (strstr cs needle))"

text \<open>One round of the loop over the list; the best match so far is (position, length).\<close>

definition stop_better :: "byte list \<Rightarrow> nat \<Rightarrow> (nat \<times> nat) option \<Rightarrow> byte list \<Rightarrow> (nat \<times> nat) option" where
  "stop_better tx from best s =
     (case strstr (drop from tx) s of
        None \<Rightarrow> best
      | Some off \<Rightarrow>
          (case best of
             None \<Rightarrow> Some (from + off, length s)
           | Some (bp, bl) \<Rightarrow> if from + off < bp then Some (from + off, length s) else best))"

definition stop_list_find_from :: "stop_list \<Rightarrow> byte list \<Rightarrow> nat \<Rightarrow> (nat \<times> nat) option" where
  "stop_list_find_from st tx from = foldl (stop_better tx from) None (stop_v st)"

definition stop_list_stream_safe_len :: "stop_list \<Rightarrow> nat \<Rightarrow> nat" where
  "stop_list_stream_safe_len st text_len =
     (if stop_v st = [] \<or> stop_max_len st \<le> 1 then text_len
      else let hold = stop_max_len st - 1
           in if text_len > hold then text_len - hold else 0)"

section \<open>UTF-8 boundary\<close>

definition utf8_expected_len :: "byte \<Rightarrow> nat" where
  "utf8_expected_len c =
     (if c < 0x80 then 1
      else if c \<ge> 0xc2 \<and> c \<le> 0xdf then 2
      else if c \<ge> 0xe0 \<and> c \<le> 0xef then 3
      else if c \<ge> 0xf0 \<and> c \<le> 0xf4 then 4
      else 1)"

definition is_cont :: "byte \<Rightarrow> bool" where "is_cont c \<longleftrightarrow> c AND 0xc0 = 0x80"

text \<open>The backward scan: at most \<open>n\<close> (the code's \<open>4\<close>) continuation bytes.\<close>

fun back_over_cont :: "nat \<Rightarrow> byte list \<Rightarrow> nat \<Rightarrow> nat \<Rightarrow> nat" where
  "back_over_cont 0 s start p = p"
| "back_over_cont (Suc n) s start p =
     (if p > start \<and> is_cont (s ! (p - 1)) then back_over_cont n s start (p - 1) else p)"

definition utf8_stream_safe_len :: "byte list \<Rightarrow> nat \<Rightarrow> nat \<Rightarrow> bool \<Rightarrow> nat" where
  "utf8_stream_safe_len s start limit final =
     (if final \<or> limit \<le> start then limit
      else let p = back_over_cont 4 s start limit
           in if p = limit then (if utf8_expected_len (s ! (limit - 1)) > 1 then limit - 1 else limit)
              else if p = start \<and> is_cont (s ! p) then start
              else let lead = p - 1
                   in if limit - lead < utf8_expected_len (s ! lead) then lead else limit)"

section \<open>The list invariant\<close>

definition stops_ok :: "stop_list \<Rightarrow> bool" where
  "stops_ok st \<longleftrightarrow> [] \<notin> set (stop_v st) \<and> stop_max_len st = foldr (\<lambda>s m. max (length s) m) (stop_v st) 0"

lemma foldr_max_snoc: "foldr (\<lambda>s m. max (length s) m) (xs @ [x]) 0 = max (foldr (\<lambda>s m. max (length s) m) xs 0) (length x)"
proof -
  have "foldr (\<lambda>s m. max (length s) m) xs k = max (foldr (\<lambda>s m. max (length s) m) xs 0) k" for k :: nat
    by (induction xs) auto
  from this [of "length x"] show ?thesis by simp
qed

lemma stops_ok_clear: "stops_ok (stop_list_clear st)"
  by (simp add: stops_ok_def stop_list_clear_def)

lemma stops_ok_push: "stops_ok st \<Longrightarrow> stops_ok (stop_list_push st s)"
  by (auto simp: stops_ok_def stop_list_push_def foldr_max_snoc simp del: foldr_append)

lemma stops_ok_max: "stops_ok st \<Longrightarrow> s \<in> set (stop_v st) \<Longrightarrow> length s \<le> stop_max_len st"
proof -
  have "s \<in> set xs \<Longrightarrow> length s \<le> foldr (\<lambda>s m. max (length s) m) xs 0" for xs
    by (induction xs) auto
  then show "stops_ok st \<Longrightarrow> s \<in> set (stop_v st) \<Longrightarrow> length s \<le> stop_max_len st"
    by (simp add: stops_ok_def)
qed

lemma stops_ok_item: "stops_ok st \<Longrightarrow> stop_item st s = Some (st', r) \<Longrightarrow> stops_ok st'"
  by (auto simp: stop_item_def string_into_def skip_field_def stops_ok_push split: if_splits option.splits)

lemma stops_ok_parse: "parse_stop out s = Some (st, r) \<Longrightarrow> stops_ok st"
proof -
  assume a: "parse_stop out s = Some (st, r)"
  have "stops_ok st" if "json_array stop_item (stop_list_clear out) t = Some (st, r)" for t
    by (rule json_members_invariant [where P = stops_ok and item = stop_item])
      (use that in \<open>simp_all add: json_array_def stops_ok_clear stops_ok_item\<close>)
  with a show ?thesis
    by (auto simp: parse_stop_def Let_def string_into_def skip_field_def stops_ok_clear stops_ok_push
        split: if_splits option.splits)
qed

interpretation stop_items: consumer stop_item
  by unfold_locales (simp add: stop_item_def into_eats split: if_splits)

section \<open>Where a stop occurs\<close>

definition occurs_at :: "byte list \<Rightarrow> byte list \<Rightarrow> nat \<Rightarrow> bool" where
  "occurs_at s tx p \<longleftrightarrow> p \<le> length tx \<and> take (length s) (drop p tx) = s"

lemma strstr_Some: "strstr tx s = Some p \<longleftrightarrow> occurs_at s tx p \<and> (\<forall>q<p. \<not> occurs_at s tx q)"
proof (induction tx arbitrary: p)
  case (Cons c cs)
  have shift: "occurs_at s (c # cs) (Suc q) = occurs_at s cs q" for q by (simp add: occurs_at_def)
  have zero: "occurs_at s (c # cs) 0 \<longleftrightarrow> take (length s) (c # cs) = s" by (simp add: occurs_at_def)
  show ?case
  proof (cases p)
    case 0
    then show ?thesis using zero by auto
  next
    case (Suc q)
    have "(\<forall>j<Suc q. \<not> occurs_at s (c # cs) j) \<longleftrightarrow> \<not> occurs_at s (c # cs) 0 \<and> (\<forall>j<q. \<not> occurs_at s cs j)"
      using shift by (metis less_Suc_eq_0_disj)
    with Suc Cons [of q] shift zero show ?thesis by auto
  qed
qed (auto simp: occurs_at_def)

lemma strstr_None: "strstr tx s = None \<longleftrightarrow> (\<forall>p. \<not> occurs_at s tx p)"
proof
  assume "strstr tx s = None"
  show "\<forall>p. \<not> occurs_at s tx p"
  proof (rule ccontr)
    assume "\<not> (\<forall>p. \<not> occurs_at s tx p)"
    then obtain q where "occurs_at s tx q" "\<forall>j<q. \<not> occurs_at s tx j"
      using exists_least_iff [of "occurs_at s tx"] by blast
    then have "strstr tx s = Some q" by (simp add: strstr_Some)
    with \<open>strstr tx s = None\<close> show False by simp
  qed
next
  assume "\<forall>p. \<not> occurs_at s tx p"
  then show "strstr tx s = None" using strstr_Some [of tx s] by (cases "strstr tx s") auto
qed

lemma occurs_at_drop: "from \<le> length tx \<Longrightarrow> occurs_at s (drop from tx) p \<longleftrightarrow> occurs_at s tx (from + p)"
  by (auto simp: occurs_at_def add.commute)

definition best_match :: "byte list list \<Rightarrow> byte list \<Rightarrow> nat \<Rightarrow> (nat \<times> nat) option \<Rightarrow> bool" where
  "best_match ss tx from r \<longleftrightarrow>
     (case r of
        None \<Rightarrow> \<forall>s \<in> set ss. \<forall>q \<ge> from. \<not> occurs_at s tx q
      | Some (p, l) \<Rightarrow> from \<le> p \<and> (\<exists>s \<in> set ss. l = length s \<and> occurs_at s tx p)
          \<and> (\<forall>s \<in> set ss. \<forall>q \<ge> from. occurs_at s tx q \<longrightarrow> p \<le> q))"

lemma strstr_from:
  assumes "from \<le> length tx"
  shows "strstr (drop from tx) s = None \<Longrightarrow> from \<le> q \<Longrightarrow> \<not> occurs_at s tx q"
    "strstr (drop from tx) s = Some off \<Longrightarrow> occurs_at s tx (from + off)"
    "strstr (drop from tx) s = Some off \<Longrightarrow> from \<le> q \<Longrightarrow> occurs_at s tx q \<Longrightarrow> from + off \<le> q"
proof -
  have o: "occurs_at s (drop from tx) j = occurs_at s tx (from + j)" for j
    using assms by (rule occurs_at_drop)
  show "\<not> occurs_at s tx q" if "strstr (drop from tx) s = None" "from \<le> q"
    using that o [of "q - from"] strstr_None [of "drop from tx" s] by simp
  show "strstr (drop from tx) s = Some off \<Longrightarrow> occurs_at s tx (from + off)"
    using o [of off] by (simp add: strstr_Some)
  show "strstr (drop from tx) s = Some off \<Longrightarrow> from \<le> q \<Longrightarrow> occurs_at s tx q \<Longrightarrow> from + off \<le> q"
    using o [of "q - from"] by (force simp: strstr_Some not_less [symmetric])
qed

lemma best_match_step:
  assumes "from \<le> length tx" "best_match ss tx from r"
  shows "best_match (ss @ [s]) tx from (stop_better tx from r s)"
proof (cases "strstr (drop from tx) s")
  case None
  then have "\<not> occurs_at s tx q" if "from \<le> q" for q
    using strstr_from(1) [OF assms(1)] None that by blast
  with assms(2) None show ?thesis
    by (auto simp: best_match_def stop_better_def split: option.splits)
next
  case (Some off)
  note at = strstr_from(2) [OF assms(1) Some] and min = strstr_from(3) [OF assms(1) Some]
  show ?thesis
  proof (cases r)
    case None
    with assms(2) Some at min show ?thesis
      by (auto simp: best_match_def stop_better_def)
  next
    case (Some pl)
    obtain p l where r: "r = Some (p, l)" using Some by (cases pl) simp
    with assms(2) have b: "from \<le> p" "\<exists>s \<in> set ss. l = length s \<and> occurs_at s tx p"
      "\<And>t q. t \<in> set ss \<Longrightarrow> from \<le> q \<Longrightarrow> occurs_at t tx q \<Longrightarrow> p \<le> q"
      by (auto simp: best_match_def)
    have step: "stop_better tx from r s = (if from + off < p then Some (from + off, length s) else r)"
      by (simp add: stop_better_def r \<open>strstr (drop from tx) s = Some off\<close>)
    show ?thesis
    proof (cases "from + off < p")
      case True
      with b at min have "best_match (ss @ [s]) tx from (Some (from + off, length s))"
        by (fastforce simp: best_match_def)
      with True show ?thesis by (simp add: step)
    next
      case False
      with b at min have "best_match (ss @ [s]) tx from (Some (p, l))"
        by (fastforce simp: best_match_def)
      then show ?thesis using False by (simp add: step r [symmetric])
    qed
  qed
qed

lemma best_match_fold: "from \<le> length tx \<Longrightarrow> best_match ss tx from (foldl (stop_better tx from) None ss)"
proof (induction ss rule: rev_induct)
  case Nil
  then show ?case by (simp add: best_match_def)
qed (simp add: best_match_step)

section \<open>Correctness\<close>

text \<open>Whatever \<^verbatim>\<open>parse_stop\<close> accepts leaves a list of non-empty stops whose recorded
  maximum length is exact, also over the list it replaces; the streaming limit relies on it.\<close>

theorem parse_stop_invariant:
  "parse_stop out s = Some (st, r) \<Longrightarrow> stops_ok st \<and> suffix r s"
proof -
  assume a: "parse_stop out s = Some (st, r)"
  have "suffix r (json_ws s)"
  proof (cases "take 1 (json_ws s) = [0x5b]")
    case True
    with a have "json_array stop_item (stop_list_clear out) (tl (json_ws s)) = Some (st, r)"
      by (simp add: parse_stop_def)
    then have "suffix r (tl (json_ws s))" by (rule stop_items.array_eats)
    then show ?thesis by (metis suffix_order.trans suffix_tl)
  next
    case False
    with a show ?thesis
      by (simp add: parse_stop_def Let_def into_suffix split: if_splits)
  qed
  with json_ws_suffix [of s] have "suffix r s" by (rule suffix_order.trans [rotated])
  with stops_ok_parse [OF a] show ?thesis ..
qed

lemma parse_stop_invariant_witness:
  "\<exists>st. parse_stop stop_list_empty (ascii ''['' @ json_escape (ascii ''END'') @ ascii '']'') = Some (st, []) \<and> stops_ok st"
proof -
  have p: "parse_stop stop_list_empty (ascii ''['' @ json_escape (ascii ''END'') @ ascii '']'')
      = Some (\<lparr>stop_v = [ascii ''END''], stop_max_len = 3\<rparr>, [])" by code_simp
  show ?thesis using parse_stop_invariant [OF p] p by blast
qed

text \<open>Claim C10. \<^verbatim>\<open>stop_list_find_from\<close> returns the leftmost position at or after \<open>from\<close> where
  any stop occurs, with the length of a stop that occurs there, and fails only if none does.\<close>

theorem stop_list_find_from_leftmost:
  "from \<le> length tx \<Longrightarrow> best_match (stop_v st) tx from (stop_list_find_from st tx from)"
  unfolding stop_list_find_from_def by (rule best_match_fold)

lemma stop_list_find_from_leftmost_witness:
  "best_match [ascii ''cd'', ascii ''bc''] (ascii ''abcd'') 1
     (stop_list_find_from \<lparr>stop_v = [ascii ''cd'', ascii ''bc''], stop_max_len = 2\<rparr> (ascii ''abcd'') 1)
   \<and> stop_list_find_from \<lparr>stop_v = [ascii ''cd'', ascii ''bc''], stop_max_len = 2\<rparr> (ascii ''abcd'') 1 = Some (1, 2)"
  using stop_list_find_from_leftmost [of 1 "ascii ''abcd''" "\<lparr>stop_v = [ascii ''cd'', ascii ''bc''], stop_max_len = 2\<rparr>"]
  by (simp add: ascii_def stop_list_find_from_def stop_better_def)

text \<open>Claim C11. What the streaming limit releases is final: if no stop occurs in the text so far,
  no continuation of it has a stop starting before \<^verbatim>\<open>stop_list_stream_safe_len\<close>, so no byte
  already sent to the client belongs to a stop found later.\<close>

theorem stop_stream_never_emits_a_stop:
  assumes "stops_ok st" "s \<in> set (stop_v st)"
    and "\<forall>u \<in> set (stop_v st). \<forall>q. \<not> occurs_at u tx q"
    and "occurs_at s (tx @ cont) p"
  shows "stop_list_stream_safe_len st (length tx) \<le> p"
proof -
  have s: "0 < length s" "length s \<le> stop_max_len st"
    using assms(1,2) stops_ok_max by (auto simp: stops_ok_def)
  have "length tx < p + length s"
  proof (rule ccontr)
    assume "\<not> length tx < p + length s"
    then have "occurs_at s tx p" using assms(4) by (simp add: occurs_at_def)
    with assms(2,3) show False by blast
  qed
  moreover have "stop_v st \<noteq> []" using assms(2) by auto
  moreover have "length tx - (stop_max_len st - 1) \<le> p" using calculation(1) s by linarith
  ultimately show ?thesis using s by (simp add: stop_list_stream_safe_len_def Let_def)
qed

lemma stop_stream_never_emits_a_stop_witness:
  "stop_list_stream_safe_len \<lparr>stop_v = [ascii ''END''], stop_max_len = 3\<rparr> (length (ascii ''okEN'')) \<le> 2"
  using stop_stream_never_emits_a_stop
    [of "\<lparr>stop_v = [ascii ''END''], stop_max_len = 3\<rparr>" "ascii ''END''" "ascii ''okEN''" "ascii ''D''" 2]
  by (simp add: stops_ok_def occurs_at_def ascii_def drop_Cons split: nat.splits)

section \<open>The UTF-8 boundary\<close>

text \<open>The first \<open>j\<close> bytes of a character: a byte that starts one, then continuation bytes.\<close>

definition utf8_part :: "byte list \<Rightarrow> bool" where
  "utf8_part c \<longleftrightarrow> c \<noteq> [] \<and> \<not> is_cont (hd c) \<and> (\<forall>b \<in> set (tl c). is_cont b)
     \<and> length c \<le> utf8_expected_len (hd c)"

definition utf8_char :: "byte list \<Rightarrow> bool" where
  "utf8_char c \<longleftrightarrow> utf8_part c \<and> length c = utf8_expected_len (hd c)"

lemma utf8_expected_len_bound: "1 \<le> utf8_expected_len c" "utf8_expected_len c \<le> 4"
  by (simp_all add: utf8_expected_len_def)

lemma back_over_cont_run:
  "\<forall>b \<in> set c. is_cont b \<Longrightarrow> \<not> is_cont b0 \<Longrightarrow> length c < n \<Longrightarrow>
     back_over_cont n (pre @ b0 # c @ post) (length pre - k) (length pre + 1 + length c) = length pre + 1"
proof (induction c arbitrary: n post rule: rev_induct)
  case Nil
  then show ?case by (cases n) (auto simp: nth_append)
next
  case (snoc b c)
  then obtain m where n: "n = Suc m" by (cases n) auto
  have "back_over_cont m (pre @ b0 # c @ b # post) (length pre - k) (length pre + 1 + length c) = length pre + 1"
    using snoc n by simp
  moreover have "(pre @ b0 # c @ b # post) ! (length pre + 1 + length c) = b"
    by (simp add: nth_append)
  ultimately show ?case using snoc.prems by (simp add: n)
qed

lemma utf8_stream_safe_len_part:
  assumes "utf8_part c"
  shows "utf8_stream_safe_len (pre @ c @ post) (length pre - k) (length pre + length c) False =
    (if utf8_char c then length pre + length c else length pre)"
proof -
  obtain b0 t where c: "c = b0 # t" using assms by (cases c) (auto simp: utf8_part_def)
  have "length t < 4" using assms utf8_expected_len_bound(2) [of b0] by (auto simp: utf8_part_def c)
  then have b: "back_over_cont 4 (pre @ b0 # t @ post) (length pre - k) (length pre + 1 + length t) = length pre + 1"
    using assms by (intro back_over_cont_run) (auto simp: utf8_part_def c)
  have nth: "(pre @ b0 # t @ post) ! length pre = b0" by (simp add: nth_append)
  show ?thesis
  proof (cases t)
    case Nil
    have "(pre @ b0 # post) ! length pre = b0" by (simp add: nth_append)
    with assms b utf8_expected_len_bound(1) [of b0] Nil show ?thesis
      by (cases "utf8_expected_len b0 = 1")
        (simp_all add: utf8_stream_safe_len_def c utf8_char_def Let_def utf8_part_def)
  next
    case (Cons x xs)
    with assms b nth show ?thesis
      by (auto simp: utf8_stream_safe_len_def c utf8_char_def Let_def utf8_part_def)
  qed
qed

text \<open>Over a text of whole characters followed by the first bytes of another one, the
  UTF-8 limit of a non-final chunk is exactly the end of the last whole character: nothing
  complete is held back and no character is cut.\<close>

theorem utf8_stream_safe_len_cuts_between_characters:
  assumes "list_all utf8_char cs" "part = [] \<or> utf8_part part \<and> \<not> utf8_char part"
  shows "utf8_stream_safe_len (pre @ concat cs @ part @ post) (length pre)
           (length pre + length (concat cs @ part)) False = length pre + length (concat cs)"
proof (cases "part = []")
  case False
  with utf8_stream_safe_len_part [of part "pre @ concat cs" post "length (concat cs)"] assms
  show ?thesis by (simp add: add.assoc)
next
  case True
  show ?thesis
  proof (cases cs rule: rev_cases)
    case Nil
    with True show ?thesis by (simp add: utf8_stream_safe_len_def)
  next
    case (snoc ds d)
    with assms(1) have "utf8_char d" by simp
    with utf8_stream_safe_len_part [of d "pre @ concat ds" post "length (concat ds)"] True snoc
    show ?thesis by (simp add: add.assoc utf8_char_def)
  qed
qed

lemma utf8_stream_safe_len_cuts_between_characters_witness:
  "utf8_stream_safe_len ([0x61] @ concat [[0xc3, 0xa9]] @ [0xe2, 0x82] @ []) (length [0x61::byte])
     (length [0x61::byte] + length (concat [[0xc3, 0xa9]] @ [0xe2, 0x82 :: byte])) False
   = length [0x61::byte] + length (concat [[0xc3, 0xa9 :: byte]])"
  by (rule utf8_stream_safe_len_cuts_between_characters)
    (simp_all add: utf8_char_def utf8_part_def utf8_expected_len_def is_cont_def)

end
