(* ===== verification/Ds4_Escape.thy ===== *)
theory Ds4_Escape
  imports Ds4_Stops
begin

text \<open>
  The escaping layers of tool text, \<^verbatim>\<open>src/server/ds4_server.c\<close>:
  \<^verbatim>\<open>append_dsml_attr_escaped\<close>, \<^verbatim>\<open>append_dsml_text_escaped\<close>,
  \<^verbatim>\<open>append_dsml_parameter_text\<close>, \<^verbatim>\<open>append_dsml_json_literal\<close>,
  \<^verbatim>\<open>dsml_unescape_text\<close>, the DSML marker strings and \<^verbatim>\<open>dsml_attr\<close>.  A printer that
  appends to a buffer returns the appended bytes.

  The lemmas say which printers the decoder inverts: the attribute and text
  escapes always, the parameter text when the value contains none of the five entities.
\<close>

section \<open>Markers\<close>

definition DS4_DSML :: "byte list" where
  "DS4_DSML = [0xef, 0xbd, 0x9c] @ ascii ''DSML'' @ [0xef, 0xbd, 0x9c]"

definition DS4_DSML_SHORT :: "byte list" where
  "DS4_DSML_SHORT = ascii ''DSML'' @ [0xef, 0xbd, 0x9c]"

definition dsml_tag :: "string \<Rightarrow> byte list \<Rightarrow> string \<Rightarrow> byte list" where
  "dsml_tag pre mark post = ascii pre @ mark @ ascii post"

definition DS4_TOOL_CALLS_START :: "byte list" where
  "DS4_TOOL_CALLS_START = dsml_tag ''<'' DS4_DSML ''tool_calls>''"
definition DS4_TOOL_CALLS_END :: "byte list" where
  "DS4_TOOL_CALLS_END = dsml_tag ''</'' DS4_DSML ''tool_calls>''"
definition DS4_INVOKE_START :: "byte list" where
  "DS4_INVOKE_START = dsml_tag ''<'' DS4_DSML ''invoke''"
definition DS4_INVOKE_END :: "byte list" where
  "DS4_INVOKE_END = dsml_tag ''</'' DS4_DSML ''invoke>''"
definition DS4_PARAM_START :: "byte list" where
  "DS4_PARAM_START = dsml_tag ''<'' DS4_DSML ''parameter''"
definition DS4_PARAM_END :: "byte list" where
  "DS4_PARAM_END = dsml_tag ''</'' DS4_DSML ''parameter>''"

definition DS4_TOOL_CALLS_START_SHORT :: "byte list" where
  "DS4_TOOL_CALLS_START_SHORT = dsml_tag ''<'' DS4_DSML_SHORT ''tool_calls>''"
definition DS4_TOOL_CALLS_END_SHORT :: "byte list" where
  "DS4_TOOL_CALLS_END_SHORT = dsml_tag ''</'' DS4_DSML_SHORT ''tool_calls>''"
definition DS4_INVOKE_START_SHORT :: "byte list" where
  "DS4_INVOKE_START_SHORT = dsml_tag ''<'' DS4_DSML_SHORT ''invoke''"
definition DS4_INVOKE_END_SHORT :: "byte list" where
  "DS4_INVOKE_END_SHORT = dsml_tag ''</'' DS4_DSML_SHORT ''invoke>''"
definition DS4_PARAM_START_SHORT :: "byte list" where
  "DS4_PARAM_START_SHORT = dsml_tag ''<'' DS4_DSML_SHORT ''parameter''"
definition DS4_PARAM_END_SHORT :: "byte list" where
  "DS4_PARAM_END_SHORT = dsml_tag ''</'' DS4_DSML_SHORT ''parameter>''"

lemmas dsml_marker_defs = DS4_DSML_def DS4_DSML_SHORT_def dsml_tag_def DS4_TOOL_CALLS_START_def
  DS4_TOOL_CALLS_END_def DS4_INVOKE_START_def DS4_INVOKE_END_def DS4_PARAM_START_def DS4_PARAM_END_def
  DS4_TOOL_CALLS_START_SHORT_def DS4_TOOL_CALLS_END_SHORT_def DS4_INVOKE_START_SHORT_def
  DS4_INVOKE_END_SHORT_def DS4_PARAM_START_SHORT_def DS4_PARAM_END_SHORT_def

section \<open>Printers\<close>

definition dsml_attr_char :: "byte \<Rightarrow> byte list" where
  "dsml_attr_char c =
     (if c = 0x26 then ascii ''&amp;'' else if c = 0x3c then ascii ''&lt;''
      else if c = 0x3e then ascii ''&gt;'' else if c = 0x22 then ascii ''&quot;'' else [c])"

definition append_dsml_attr_escaped :: "byte list \<Rightarrow> byte list" where
  "append_dsml_attr_escaped s = concat (map dsml_attr_char s)"

definition dsml_text_char :: "byte \<Rightarrow> byte list" where
  "dsml_text_char c =
     (if c = 0x26 then ascii ''&amp;'' else if c = 0x3c then ascii ''&lt;''
      else if c = 0x3e then ascii ''&gt;'' else [c])"

definition append_dsml_text_escaped :: "byte list \<Rightarrow> byte list" where
  "append_dsml_text_escaped s = concat (map dsml_text_char s)"

definition starts_with :: "byte list \<Rightarrow> byte list \<Rightarrow> bool" where
  "starts_with pre s \<longleftrightarrow> take (length pre) s = pre"

lemma strstr_Cons: "strstr (c # cs) n = (if starts_with n (c # cs) then Some 0 else map_option Suc (strstr cs n))"
  by (simp add: starts_with_def)

declare strstr.simps(2) [simp del]

fun append_dsml_parameter_text :: "byte list \<Rightarrow> byte list" where
  "append_dsml_parameter_text [] = []"
| "append_dsml_parameter_text (c # cs) =
     (if starts_with DS4_PARAM_END (c # cs) then ascii ''&lt;'' else [c]) @ append_dsml_parameter_text cs"

fun append_dsml_json_literal :: "byte list \<Rightarrow> byte list" where
  "append_dsml_json_literal [] = []"
| "append_dsml_json_literal (c # cs) =
     (if starts_with DS4_PARAM_END (c # cs) then 0x5c # ascii ''u003c'' else [c]) @ append_dsml_json_literal cs"

section \<open>The decoder\<close>

function dsml_unescape_text :: "byte list \<Rightarrow> byte list" where
  "dsml_unescape_text [] = []"
| "dsml_unescape_text (c # cs) =
     (if c \<noteq> 0x26 then c # dsml_unescape_text cs
      else if starts_with (ascii ''&amp;'') (c # cs) then 0x26 # dsml_unescape_text (drop 4 cs)
      else if starts_with (ascii ''&lt;'') (c # cs) then 0x3c # dsml_unescape_text (drop 3 cs)
      else if starts_with (ascii ''&gt;'') (c # cs) then 0x3e # dsml_unescape_text (drop 3 cs)
      else if starts_with (ascii ''&quot;'') (c # cs) then 0x22 # dsml_unescape_text (drop 5 cs)
      else if starts_with (ascii ''&apos;'') (c # cs) then 0x27 # dsml_unescape_text (drop 5 cs)
      else 0x26 # dsml_unescape_text cs)"
  by pat_completeness auto
termination by (relation "measure length") auto

text \<open>The decoder undoes one printed character at a time.\<close>

lemma unescape_attr_char: "dsml_unescape_text (dsml_attr_char c @ s) = c # dsml_unescape_text s"
  by (auto simp: dsml_attr_char_def starts_with_def ascii_def)

lemma unescape_text_char: "dsml_unescape_text (dsml_text_char c @ s) = c # dsml_unescape_text s"
  by (auto simp: dsml_text_char_def starts_with_def ascii_def)

lemma unescape_attr: "dsml_unescape_text (append_dsml_attr_escaped s) = s"
  by (induction s) (simp_all add: append_dsml_attr_escaped_def unescape_attr_char)

lemma unescape_text: "dsml_unescape_text (append_dsml_text_escaped s) = s"
  by (induction s) (simp_all add: append_dsml_text_escaped_def unescape_text_char)

lemma starts_with_Cons: "starts_with (x # xs) (c # cs) \<longleftrightarrow> x = c \<and> starts_with xs cs"
  by (auto simp: starts_with_def)

lemma PARAM_END_Cons: "DS4_PARAM_END = 0x3c # ascii ''/'' @ DS4_DSML @ ascii ''parameter>''"
  by (simp add: DS4_PARAM_END_def dsml_tag_def ascii_def)

text \<open>
  The parameter text escapes nothing but closing tags, so an entity that is part of the value
  is printed as it stands and decoded by the reader.  \<open>entity_free\<close> says that none of the
  five entities of the decoder starts anywhere in a text.
\<close>

definition xml_entities :: "byte list list" where
  "xml_entities = [ascii ''&amp;'', ascii ''&lt;'', ascii ''&gt;'', ascii ''&quot;'', ascii ''&apos;'']"

fun entity_free :: "byte list \<Rightarrow> bool" where
  "entity_free [] = True"
| "entity_free (c # cs) = (\<not> list_ex (\<lambda>e. starts_with e (c # cs)) xml_entities \<and> entity_free cs)"

lemma parameter_text_starts:
  "0x3c \<notin> set t \<Longrightarrow> 0x26 \<notin> set t \<Longrightarrow> starts_with t (append_dsml_parameter_text s) \<Longrightarrow> starts_with t s"
proof (induction s arbitrary: t)
  case (Cons c s)
  show ?case
  proof (cases t)
    case t: (Cons x t')
    with Cons show ?thesis
      by (cases "starts_with DS4_PARAM_END (c # s)") (auto simp: ascii_def starts_with_Cons)
  qed (simp add: starts_with_def)
qed simp

lemma unescape_parameter_text: "entity_free s \<Longrightarrow> dsml_unescape_text (append_dsml_parameter_text s) = s"
proof (induction s)
  case (Cons c s)
  show ?case
  proof (cases "starts_with DS4_PARAM_END (c # s)")
    case True
    then have "c = 0x3c" by (simp add: PARAM_END_Cons starts_with_Cons)
    with Cons True show ?thesis by (simp add: starts_with_def ascii_def)
  next
    case False
    have "\<not> starts_with t (append_dsml_parameter_text s)"
      if "c = 0x26" "0x26 # t \<in> set xml_entities" for t
      using Cons.prems that parameter_text_starts [of t s]
      by (auto simp: xml_entities_def ascii_def starts_with_Cons)
    then have "c = 0x26 \<Longrightarrow> \<not> list_ex (\<lambda>e. starts_with e (c # append_dsml_parameter_text s)) xml_entities"
      by (auto simp: xml_entities_def ascii_def starts_with_Cons)
    with Cons False show ?thesis by (auto simp: xml_entities_def)
  qed
qed simp

section \<open>No printed value contains the closing tag\<close>

text \<open>
  Both value printers copy their text and replace the first byte of each closing
  tag; then the first closing tag after a printed value is the one the printer
  adds.
\<close>

lemma PARAM_END_tl: "0x3c \<notin> set (tl DS4_PARAM_END)" "0x26 \<notin> set (tl DS4_PARAM_END)" "0x5c \<notin> set (tl DS4_PARAM_END)"
  by (simp_all add: PARAM_END_Cons DS4_DSML_def ascii_def)

locale closing_guard =
  fixes print :: "byte list \<Rightarrow> byte list" and esc :: "byte list"
  assumes print_Nil: "print [] = []"
    and print_Cons: "print (c # cs) = (if starts_with DS4_PARAM_END (c # cs) then esc else [c]) @ print cs"
    and esc_head: "esc \<noteq> []" "hd esc \<notin> set (tl DS4_PARAM_END)"
    and esc_safe: "0x3c \<notin> set esc"
begin

lemma tail_match:
  "0x3c \<notin> set t \<Longrightarrow> hd esc \<notin> set t \<Longrightarrow> starts_with t (print s @ 0x3c # r) \<Longrightarrow> starts_with t s"
proof (induction s arbitrary: t)
  case Nil
  then show ?case by (cases t) (auto simp: print_Nil starts_with_def)
next
  case (Cons c s)
  obtain e es where e: "esc = e # es" using esc_head(1) by (cases esc) auto
  show ?case
  proof (cases t)
    case (Cons x t')
    with Cons.prems Cons.IH [of t'] e show ?thesis
      by (auto simp: print_Cons starts_with_Cons split: if_splits)
  qed (simp add: starts_with_def)
qed

lemma strstr_skip_safe: "0x3c \<notin> set u \<Longrightarrow> strstr (u @ s) DS4_PARAM_END = map_option ((+) (length u)) (strstr s DS4_PARAM_END)"
proof (induction u)
  case (Cons c u)
  then have "\<not> starts_with DS4_PARAM_END (c # u @ s)" by (auto simp: PARAM_END_Cons starts_with_Cons)
  with Cons show ?case by (simp add: strstr_Cons option.map_comp comp_def)
qed (cases "strstr s DS4_PARAM_END"; simp)

lemma closing_tag_found: "strstr (print s @ DS4_PARAM_END @ r) DS4_PARAM_END = Some (length (print s))"
proof (induction s)
  case Nil
  have "starts_with DS4_PARAM_END (DS4_PARAM_END @ r)" by (simp add: starts_with_def)
  then show ?case by (simp add: print_Nil PARAM_END_Cons strstr_Cons)
next
  case (Cons c s)
  show ?case
  proof (cases "starts_with DS4_PARAM_END (c # s)")
    case True
    with Cons esc_safe show ?thesis by (simp add: print_Cons strstr_skip_safe)
  next
    case False
    have "\<not> starts_with DS4_PARAM_END (c # print s @ DS4_PARAM_END @ r)"
    proof
      assume a: "starts_with DS4_PARAM_END (c # print s @ DS4_PARAM_END @ r)"
      then have c: "c = 0x3c" "starts_with (tl DS4_PARAM_END) (print s @ 0x3c # (tl DS4_PARAM_END @ r))"
        by (simp_all add: PARAM_END_Cons starts_with_Cons)
      then have "starts_with (tl DS4_PARAM_END) s" using tail_match PARAM_END_tl(1) esc_head(2) by blast
      with c(1) False show False by (simp add: PARAM_END_Cons starts_with_Cons)
    qed
    with Cons False show ?thesis by (simp add: print_Cons strstr_Cons)
  qed
qed

end

interpretation ptext: closing_guard append_dsml_parameter_text "ascii ''&lt;''"
  by unfold_locales (use PARAM_END_tl in \<open>auto simp: ascii_def\<close>)

interpretation jlit: closing_guard append_dsml_json_literal "0x5c # ascii ''u003c''"
  by unfold_locales (use PARAM_END_tl in \<open>auto simp: ascii_def\<close>)

section \<open>Tag attributes\<close>

definition strchr :: "byte list \<Rightarrow> byte \<Rightarrow> nat option" where
  "strchr s c = (let n = length (takeWhile (\<lambda>b. b \<noteq> c) s) in if n < length s then Some n else None)"

text \<open>\<^verbatim>\<open>snprintf\<close> cuts the pattern at 63 bytes; the names the parser asks for are short.\<close>

definition dsml_attr :: "byte list \<Rightarrow> byte list \<Rightarrow> byte list option" where
  "dsml_attr tag name =
     (let pat = take 63 (name @ [0x3d, 0x22])
      in case strstr tag pat of
           None \<Rightarrow> None
         | Some i \<Rightarrow>
             (let p = drop (i + length pat) tag
              in case strchr p 0x22 of
                   None \<Rightarrow> None
                 | Some q \<Rightarrow> Some (dsml_unescape_text (take q p))))"

end
