(* ===== verification/Ds4_Requests.thy ===== *)
theory Ds4_Requests
  imports Ds4_Escape Ds4_Tokenizer
begin

text \<open>
  The request bodies of the two chat APIs, \<^verbatim>\<open>src/server/ds4_server.c\<close>:
  \<^verbatim>\<open>think_mode_from_enabled\<close> to \<^verbatim>\<open>parse_stream_options\<close> and \<^verbatim>\<open>parse_function_call\<close> to
  \<^verbatim>\<open>parse_anthropic_system\<close>, then the member loops of \<^verbatim>\<open>parse_chat_request\<close>,
  \<^verbatim>\<open>parse_anthropic_request\<close> and \<^verbatim>\<open>parse_completion_request\<close>.

  A \<^verbatim>\<open>char *\<close> field that may be NULL is an option.  A number is kept as the bytes
  \<^verbatim>\<open>strtod\<close> matched: the conversion to \<^verbatim>\<open>double\<close> is not modelled.  Growing arrays
  are lists.

  The lemmas show that each loop consumes its text, that accepted messages
  always have a role, a content and complete tool calls, and that a plain
  conversation printed as JSON is read back.
\<close>

section \<open>Data\<close>

record tool_call =
  tc_id :: "byte list option"
  tc_name :: "byte list option"
  tc_arguments :: "byte list option"

record tool_calls =
  calls_v :: "tool_call list"
  calls_raw_dsml :: "byte list option"

record tool_schema_order =
  order_name :: "byte list option"
  order_prop :: "byte list list"

type_synonym tool_schema_orders = "tool_schema_order list"

record chat_msg =
  msg_role :: "byte list option"
  msg_content :: "byte list option"
  msg_reasoning :: "byte list option"
  msg_tool_call_id :: "byte list option"
  msg_calls :: tool_calls

definition no_call :: tool_call where
  "no_call = \<lparr>tc_id = None, tc_name = None, tc_arguments = None\<rparr>"

definition no_calls :: tool_calls where
  "no_calls = \<lparr>calls_v = [], calls_raw_dsml = None\<rparr>"

definition no_order :: tool_schema_order where
  "no_order = \<lparr>order_name = None, order_prop = []\<rparr>"

definition no_msg :: chat_msg where
  "no_msg = \<lparr>msg_role = None, msg_content = None, msg_reasoning = None, msg_tool_call_id = None,
     msg_calls = no_calls\<rparr>"

definition tool_calls_push :: "tool_calls \<Rightarrow> tool_call \<Rightarrow> tool_calls" where
  "tool_calls_push calls tc = calls\<lparr>calls_v := calls_v calls @ [tc]\<rparr>"

definition or_empty :: "byte list option \<Rightarrow> byte list" where
  "or_empty s = (case s of None \<Rightarrow> [] | Some t \<Rightarrow> t)"

section \<open>Tool schema orders\<close>

fun tool_schema_orders_find_index :: "tool_schema_orders \<Rightarrow> byte list option \<Rightarrow> nat option" where
  "tool_schema_orders_find_index orders None = None"
| "tool_schema_orders_find_index [] (Some name) = None"
| "tool_schema_orders_find_index (o1 # os) (Some name) =
     (if order_name o1 = Some name then Some 0
      else map_option Suc (tool_schema_orders_find_index os (Some name)))"

definition tool_schema_orders_push :: "tool_schema_orders \<Rightarrow> tool_schema_order \<Rightarrow> tool_schema_orders" where
  "tool_schema_orders_push orders order =
     (case tool_schema_orders_find_index orders (order_name order) of
        Some idx \<Rightarrow> orders[idx := order]
      | None \<Rightarrow> orders @ [order])"

section \<open>Thinking controls\<close>

definition think_mode_from_enabled :: "bool \<Rightarrow> think_mode \<Rightarrow> think_mode" where
  "think_mode_from_enabled enabled effort =
     (if \<not> enabled then DS4_THINK_NONE
      else if effort = DS4_THINK_MAX then DS4_THINK_MAX else DS4_THINK_HIGH)"

definition parse_reasoning_effort_name :: "byte list \<Rightarrow> think_mode option" where
  "parse_reasoning_effort_name s =
     (if s = ascii ''max'' then Some DS4_THINK_MAX
      else if s = ascii ''xhigh'' \<or> s = ascii ''high'' \<or> s = ascii ''medium'' \<or> s = ascii ''low''
      then Some DS4_THINK_HIGH
      else None)"

definition parse_reasoning_effort_value :: "think_mode \<Rightarrow> byte list \<Rightarrow> (think_mode \<times> byte list) option" where
  "parse_reasoning_effort_value effort s =
     (let s' = json_ws s
      in case json_lit (ascii ''null'') s' of
           Some r \<Rightarrow> Some (effort, r)
         | None \<Rightarrow>
             (case json_string s' of
                None \<Rightarrow> None
              | Some (name, r) \<Rightarrow>
                  (case parse_reasoning_effort_name name of None \<Rightarrow> None | Some m \<Rightarrow> Some (m, r))))"

definition thinking_field :: "byte list \<Rightarrow> bool \<Rightarrow> byte list \<Rightarrow> (bool \<times> byte list) option" where
  "thinking_field key enabled s =
     (if key = ascii ''type''
      then string_into (\<lambda>ty. if ty = ascii ''enabled'' then True
             else if ty = ascii ''disabled'' then False else enabled) s
      else skip_field enabled s)"

definition parse_thinking_control_value :: "bool \<Rightarrow> byte list \<Rightarrow> (bool \<times> byte list) option" where
  "parse_thinking_control_value enabled s =
     (let s' = json_ws s
      in case json_lit (ascii ''null'') s' of
           Some r \<Rightarrow> Some (enabled, r)
         | None \<Rightarrow>
             if take 1 s' = [0x74] \<or> take 1 s' = [0x66] then json_bool s'
             else if take 1 s' \<noteq> [0x7b] then skip_field enabled s'
             else json_object thinking_field enabled (tl s'))"

definition output_config_field :: "byte list \<Rightarrow> think_mode \<Rightarrow> byte list \<Rightarrow> (think_mode \<times> byte list) option" where
  "output_config_field key effort s =
     (if key = ascii ''effort'' then parse_reasoning_effort_value effort s else skip_field effort s)"

definition parse_output_config_effort :: "think_mode \<Rightarrow> byte list \<Rightarrow> (think_mode \<times> byte list) option" where
  "parse_output_config_effort effort s =
     (let s' = json_ws s
      in case json_lit (ascii ''null'') s' of
           Some r \<Rightarrow> Some (effort, r)
         | None \<Rightarrow>
             if take 1 s' \<noteq> [0x7b] then skip_field effort s'
             else json_object output_config_field effort (tl s'))"

definition model_alias_disables_thinking :: "byte list \<Rightarrow> bool" where
  "model_alias_disables_thinking model \<longleftrightarrow> model = ascii ''deepseek-chat''"

definition model_alias_enables_thinking :: "byte list \<Rightarrow> bool" where
  "model_alias_enables_thinking model \<longleftrightarrow> model = ascii ''deepseek-reasoner''"

definition stream_options_field :: "byte list \<Rightarrow> bool \<Rightarrow> byte list \<Rightarrow> (bool \<times> byte list) option" where
  "stream_options_field key usage s =
     (if key = ascii ''include_usage'' then json_bool s else skip_field usage s)"

definition parse_stream_options :: "bool \<Rightarrow> byte list \<Rightarrow> (bool \<times> byte list) option" where
  "parse_stream_options usage s =
     (let s' = json_ws s
      in if take 1 s' \<noteq> [0x7b] then skip_field usage s'
         else json_object stream_options_field usage (tl s'))"

section \<open>Tool calls\<close>

definition function_call_field :: "byte list \<Rightarrow> tool_call \<Rightarrow> byte list \<Rightarrow> (tool_call \<times> byte list) option" where
  "function_call_field key tc s =
     (if key = ascii ''name'' then string_into (\<lambda>v. tc\<lparr>tc_name := Some v\<rparr>) s
      else if key = ascii ''arguments'' then
        (let s' = json_ws s
         in if take 1 s' = [0x22] then string_into (\<lambda>v. tc\<lparr>tc_arguments := Some v\<rparr>) s'
            else raw_into (\<lambda>v. tc\<lparr>tc_arguments := Some v\<rparr>) s')
      else skip_field tc s)"

definition parse_function_call :: "tool_call \<Rightarrow> byte list \<Rightarrow> (tool_call \<times> byte list) option" where
  "parse_function_call tc s =
     (let s' = json_ws s
      in if take 1 s' \<noteq> [0x7b] then None else json_object function_call_field tc (tl s'))"

definition tool_call_field :: "byte list \<Rightarrow> tool_call \<Rightarrow> byte list \<Rightarrow> (tool_call \<times> byte list) option" where
  "tool_call_field key tc s =
     (if key = ascii ''id'' then string_into (\<lambda>v. tc\<lparr>tc_id := Some v\<rparr>) s
      else if key = ascii ''function'' then parse_function_call tc s
      else skip_field tc s)"

definition tool_call_item :: "tool_calls \<Rightarrow> byte list \<Rightarrow> (tool_calls \<times> byte list) option" where
  "tool_call_item calls s =
     (if take 1 s \<noteq> [0x7b] then None
      else case json_object tool_call_field no_call (tl s) of
        None \<Rightarrow> None
      | Some (tc, r) \<Rightarrow>
          Some (if tc_name tc \<noteq> None \<and> tc_arguments tc \<noteq> None then tool_calls_push calls tc else calls, r))"

definition parse_tool_calls_value :: "tool_calls \<Rightarrow> byte list \<Rightarrow> (tool_calls \<times> byte list) option" where
  "parse_tool_calls_value calls s =
     (let s' = json_ws s
      in case json_lit (ascii ''null'') s' of
           Some r \<Rightarrow> Some (calls, r)
         | None \<Rightarrow>
             if take 1 s' \<noteq> [0x5b] then None else json_array tool_call_item calls (tl s'))"

section \<open>Tool schemas\<close>

definition append_raw_json_line :: "byte list \<Rightarrow> byte list \<Rightarrow> byte list" where
  "append_raw_json_line b json =
     (if json = [] then b else b @ (if b \<noteq> [] then [10] else []) @ json)"

text \<open>The scan for the \<^verbatim>\<open>function\<close> member; it returns from inside the loop.\<close>

fun find_function_member :: "nat \<Rightarrow> byte list \<Rightarrow> byte list option" where
  "find_function_member 0 s = None"
| "find_function_member (Suc n) s =
     (if s = [] \<or> take 1 s = [0x7d] then None
      else case json_string s of
        None \<Rightarrow> None
      | Some (key, s1) \<Rightarrow>
          let s2 = json_ws s1
          in if take 1 s2 \<noteq> [0x3a] then None
             else if key = ascii ''function'' then map_option fst (json_raw_value (tl s2))
             else case json_skip_value (tl s2) of
               None \<Rightarrow> None
             | Some s3 \<Rightarrow> find_function_member n (after_item s3))"

definition openai_function_schema_from_tool :: "byte list \<Rightarrow> byte list option" where
  "openai_function_schema_from_tool raw =
     (let s = json_ws raw
      in if take 1 s \<noteq> [0x7b] then None
         else find_function_member (Suc (length raw)) (json_ws (tl s)))"

text \<open>
  The property names of a schema.  The caller ignores failure and keeps the names read
  until then, so the two loops return the order with the rest (\<open>None\<close> after a failure).
\<close>

fun properties_loop :: "nat \<Rightarrow> tool_schema_order \<Rightarrow> byte list \<Rightarrow> tool_schema_order \<times> byte list option" where
  "properties_loop 0 order s = (order, None)"
| "properties_loop (Suc n) order s =
     (if s = [] then (order, None)
      else if take 1 s = [0x7d] then (order, Some (tl s))
      else case json_string s of
        None \<Rightarrow> (order, None)
      | Some (prop, s1) \<Rightarrow>
          let s2 = json_ws s1
          in if take 1 s2 \<noteq> [0x3a] then (order, None)
             else
               let order' = order\<lparr>order_prop := order_prop order @ [prop]\<rparr>
               in case json_skip_value (tl s2) of
                    None \<Rightarrow> (order', None)
                  | Some s3 \<Rightarrow> properties_loop n order' (after_item s3))"

fun schema_loop :: "nat \<Rightarrow> tool_schema_order \<Rightarrow> byte list \<Rightarrow> bool \<times> tool_schema_order" where
  "schema_loop 0 order s = (False, order)"
| "schema_loop (Suc n) order s =
     (if s = [] then (False, order)
      else if take 1 s = [0x7d] then (True, order)
      else case json_string s of
        None \<Rightarrow> (False, order)
      | Some (key, s1) \<Rightarrow>
          let s2 = json_ws s1
          in if take 1 s2 \<noteq> [0x3a] then (False, order)
             else if key = ascii ''properties'' then
               (let s3 = json_ws (tl s2)
                in if take 1 s3 \<noteq> [0x7b] then (False, order)
                   else case properties_loop (Suc (length s3)) order (json_ws (tl s3)) of
                          (order', None) \<Rightarrow> (False, order')
                        | (order', Some s4) \<Rightarrow> schema_loop n order' (after_item s4))
             else case json_skip_value (tl s2) of
               None \<Rightarrow> (False, order)
             | Some s3 \<Rightarrow> schema_loop n order (after_item s3))"

definition parse_schema_properties :: "byte list \<Rightarrow> tool_schema_order \<Rightarrow> bool \<times> tool_schema_order" where
  "parse_schema_properties json order =
     (let s = json_ws json
      in if take 1 s \<noteq> [0x7b] then (False, order)
         else schema_loop (Suc (length json)) order (json_ws (tl s)))"

definition schema_order_field ::
    "byte list \<Rightarrow> tool_schema_order \<Rightarrow> byte list \<Rightarrow> (tool_schema_order \<times> byte list) option" where
  "schema_order_field key order s =
     (if key = ascii ''name'' then string_into (\<lambda>v. order\<lparr>order_name := Some v\<rparr>) s
      else if key = ascii ''input_schema'' \<or> key = ascii ''parameters''
      then raw_into (\<lambda>schema. snd (parse_schema_properties schema order)) s
      else skip_field order s)"

text \<open>This loop also ends at the end of the text.\<close>

fun schema_order_loop :: "nat \<Rightarrow> tool_schema_order \<Rightarrow> byte list \<Rightarrow> tool_schema_order option" where
  "schema_order_loop 0 order s = None"
| "schema_order_loop (Suc n) order s =
     (if s = [] \<or> take 1 s = [0x7d] then Some order
      else case json_field schema_order_field order s of
        None \<Rightarrow> None
      | Some (order', s') \<Rightarrow> schema_order_loop n order' (after_item s'))"

definition tool_schema_orders_add_json :: "tool_schema_orders \<Rightarrow> byte list \<Rightarrow> tool_schema_orders" where
  "tool_schema_orders_add_json orders json =
     (let s = json_ws json
      in if take 1 s \<noteq> [0x7b] then orders
         else case schema_order_loop (Suc (length json)) no_order (json_ws (tl s)) of
           None \<Rightarrow> orders
         | Some order \<Rightarrow>
             if order_name order \<noteq> None \<and> order_prop order \<noteq> []
             then tool_schema_orders_push orders order else orders)"

definition tools_item ::
    "byte list \<times> tool_schema_orders \<Rightarrow> byte list \<Rightarrow> ((byte list \<times> tool_schema_orders) \<times> byte list) option" where
  "tools_item st s =
     raw_into (\<lambda>raw.
       let schema = (case openai_function_schema_from_tool raw of Some f \<Rightarrow> f | None \<Rightarrow> raw)
       in (append_raw_json_line (fst st) schema, tool_schema_orders_add_json (snd st) schema)) s"

definition parse_tools_value ::
    "tool_schema_orders \<Rightarrow> byte list \<Rightarrow> ((byte list \<times> tool_schema_orders) \<times> byte list) option" where
  "parse_tools_value orders s =
     (let s' = json_ws s
      in case json_lit (ascii ''null'') s' of
           Some r \<Rightarrow> Some (([], orders), r)
         | None \<Rightarrow>
             if take 1 s' \<noteq> [0x5b] then None else json_array tools_item ([], orders) (tl s'))"

section \<open>OpenAI messages\<close>

definition message_field :: "byte list \<Rightarrow> chat_msg \<Rightarrow> byte list \<Rightarrow> (chat_msg \<times> byte list) option" where
  "message_field key m s =
     (if key = ascii ''role'' then string_into (\<lambda>v. m\<lparr>msg_role := Some v\<rparr>) s
      else if key = ascii ''content'' then content_into (\<lambda>v. m\<lparr>msg_content := Some v\<rparr>) s
      else if key = ascii ''reasoning_content'' then content_into (\<lambda>v. m\<lparr>msg_reasoning := Some v\<rparr>) s
      else if key = ascii ''tool_call_id'' then string_into (\<lambda>v. m\<lparr>msg_tool_call_id := Some v\<rparr>) s
      else if key = ascii ''tool_calls'' then
        (case parse_tool_calls_value no_calls s of
           None \<Rightarrow> None | Some (calls, r) \<Rightarrow> Some (m\<lparr>msg_calls := calls\<rparr>, r))
      else skip_field m s)"

text \<open>Defaults of the fields a message left out, then \<^verbatim>\<open>chat_msgs_push\<close>.\<close>

definition chat_msgs_push :: "chat_msg list \<Rightarrow> chat_msg \<Rightarrow> chat_msg list" where
  "chat_msgs_push msgs m = msgs @ [m]"

definition push_message :: "chat_msg list \<Rightarrow> chat_msg \<Rightarrow> chat_msg list" where
  "push_message msgs m =
     (let m1 = (if msg_role m = None then m\<lparr>msg_role := Some (ascii ''user'')\<rparr> else m);
          m2 = (if msg_content m1 = None then m1\<lparr>msg_content := Some []\<rparr> else m1)
      in chat_msgs_push msgs m2)"

definition message_item ::
    "(byte list \<Rightarrow> chat_msg \<Rightarrow> byte list \<Rightarrow> (chat_msg \<times> byte list) option) \<Rightarrow>
     chat_msg list \<Rightarrow> byte list \<Rightarrow> (chat_msg list \<times> byte list) option" where
  "message_item field msgs s =
     (if take 1 s \<noteq> [0x7b] then None
      else case json_object field no_msg (tl s) of
        None \<Rightarrow> None
      | Some (m, r) \<Rightarrow> Some (push_message msgs m, r))"

definition parse_messages :: "chat_msg list \<Rightarrow> byte list \<Rightarrow> (chat_msg list \<times> byte list) option" where
  "parse_messages msgs s =
     (let s' = json_ws s
      in if take 1 s' \<noteq> [0x5b] then None else json_array (message_item message_field) msgs (tl s'))"

section \<open>Anthropic messages\<close>

definition append_anthropic_block_content :: "byte list \<Rightarrow> byte list \<Rightarrow> byte list" where
  "append_anthropic_block_content dst t = (if t = [] then dst else dst @ t)"

record anthropic_block =
  blk_type :: "byte list option"
  blk_text :: "byte list option"
  blk_thinking :: "byte list option"
  blk_id :: "byte list option"
  blk_name :: "byte list option"
  blk_input :: "byte list option"
  blk_tool_result :: "byte list option"

definition no_block :: anthropic_block where
  "no_block = \<lparr>blk_type = None, blk_text = None, blk_thinking = None, blk_id = None, blk_name = None,
     blk_input = None, blk_tool_result = None\<rparr>"

definition anthropic_block_field ::
    "byte list \<Rightarrow> anthropic_block \<Rightarrow> byte list \<Rightarrow> (anthropic_block \<times> byte list) option" where
  "anthropic_block_field key b s =
     (if key = ascii ''type'' then string_into (\<lambda>v. b\<lparr>blk_type := Some v\<rparr>) s
      else if key = ascii ''text'' then content_into (\<lambda>v. b\<lparr>blk_text := Some v\<rparr>) s
      else if key = ascii ''thinking'' then content_into (\<lambda>v. b\<lparr>blk_thinking := Some v\<rparr>) s
      else if key = ascii ''id'' \<or> key = ascii ''tool_use_id'' then string_into (\<lambda>v. b\<lparr>blk_id := Some v\<rparr>) s
      else if key = ascii ''name'' then string_into (\<lambda>v. b\<lparr>blk_name := Some v\<rparr>) s
      else if key = ascii ''input'' then raw_into (\<lambda>v. b\<lparr>blk_input := Some v\<rparr>) s
      else if key = ascii ''content'' then content_into (\<lambda>v. b\<lparr>blk_tool_result := Some v\<rparr>) s
      else skip_field b s)"

definition apply_anthropic_block :: "byte list \<Rightarrow> anthropic_block \<Rightarrow> chat_msg \<Rightarrow> chat_msg" where
  "apply_anthropic_block role b m =
     (if blk_type b = Some (ascii ''tool_use'') \<and> role = ascii ''assistant'' then
        m\<lparr>msg_calls := tool_calls_push (msg_calls m)
           \<lparr>tc_id = blk_id b,
            tc_name = Some (or_empty (blk_name b)),
            tc_arguments = Some (case blk_input b of Some i \<Rightarrow> i | None \<Rightarrow> ascii ''{}'')\<rparr>\<rparr>
      else if blk_type b = Some (ascii ''tool_result'') then
        m\<lparr>msg_content := Some (or_empty (msg_content m) @ ascii ''<tool_result>''
           @ append_dsml_text_escaped (or_empty (blk_tool_result b)) @ ascii ''</tool_result>'')\<rparr>
      else
        let m1 = (case blk_text b of
                    None \<Rightarrow> m
                  | Some t \<Rightarrow> m\<lparr>msg_content := Some (append_anthropic_block_content (or_empty (msg_content m)) t)\<rparr>)
        in (case blk_thinking b of
              None \<Rightarrow> m1
            | Some t \<Rightarrow> m1\<lparr>msg_reasoning := Some (append_anthropic_block_content (or_empty (msg_reasoning m1)) t)\<rparr>))"

definition parse_anthropic_content_block :: "byte list \<Rightarrow> chat_msg \<Rightarrow> byte list \<Rightarrow> (chat_msg \<times> byte list) option" where
  "parse_anthropic_content_block role m s =
     (if take 1 s \<noteq> [0x7b] then None
      else case json_object anthropic_block_field no_block (tl s) of
        None \<Rightarrow> None
      | Some (b, r) \<Rightarrow> Some (apply_anthropic_block role b m, r))"

definition anthropic_content_item :: "chat_msg \<Rightarrow> byte list \<Rightarrow> (chat_msg \<times> byte list) option" where
  "anthropic_content_item m s =
     (if take 1 s = [0x22]
      then string_into (\<lambda>v. m\<lparr>msg_content := Some (or_empty (msg_content m) @ v)\<rparr>) s
      else if take 1 s = [0x7b] then parse_anthropic_content_block (or_empty (msg_role m)) m s
      else skip_field m s)"

definition parse_anthropic_content :: "chat_msg \<Rightarrow> byte list \<Rightarrow> (chat_msg \<times> byte list) option" where
  "parse_anthropic_content m s =
     (let s' = json_ws s
      in if take 1 s' = [0x22] then string_into (\<lambda>v. m\<lparr>msg_content := Some v\<rparr>) s'
         else case json_lit (ascii ''null'') s' of
           Some r \<Rightarrow> Some (m\<lparr>msg_content := Some []\<rparr>, r)
         | None \<Rightarrow>
             if take 1 s' \<noteq> [0x5b] then skip_field m s'
             else case json_array anthropic_content_item m (tl s') of
               None \<Rightarrow> None
             | Some (m', r) \<Rightarrow>
                 Some (if msg_content m' = None then m'\<lparr>msg_content := Some []\<rparr> else m', r))"

definition anthropic_message_field :: "byte list \<Rightarrow> chat_msg \<Rightarrow> byte list \<Rightarrow> (chat_msg \<times> byte list) option" where
  "anthropic_message_field key m s =
     (if key = ascii ''role'' then string_into (\<lambda>v. m\<lparr>msg_role := Some v\<rparr>) s
      else if key = ascii ''content'' then parse_anthropic_content (m\<lparr>msg_content := None\<rparr>) s
      else skip_field m s)"

definition parse_anthropic_messages :: "chat_msg list \<Rightarrow> byte list \<Rightarrow> (chat_msg list \<times> byte list) option" where
  "parse_anthropic_messages msgs s =
     (let s' = json_ws s
      in if take 1 s' \<noteq> [0x5b] then None
         else json_array (message_item anthropic_message_field) msgs (tl s'))"

section \<open>Anthropic system prompts\<close>

definition anthropic_system_part_is_private :: "byte list \<Rightarrow> bool" where
  "anthropic_system_part_is_private s \<longleftrightarrow> starts_with (ascii ''x-anthropic-'') s"

definition append_anthropic_system_part :: "byte list \<Rightarrow> byte list \<Rightarrow> byte list" where
  "append_anthropic_system_part b s =
     (if s = [] \<or> anthropic_system_part_is_private s then b
      else b @ (if b \<noteq> [] \<and> List.last b \<noteq> 10 then [10] else []) @ s)"

definition anthropic_system_field :: "byte list \<Rightarrow> byte list \<Rightarrow> byte list \<Rightarrow> (byte list \<times> byte list) option" where
  "anthropic_system_field key b s =
     (if key = ascii ''text'' then string_into (append_anthropic_system_part b) s else skip_field b s)"

definition parse_anthropic_system_object :: "byte list \<Rightarrow> byte list \<Rightarrow> (byte list \<times> byte list) option" where
  "parse_anthropic_system_object b s =
     (if take 1 s \<noteq> [0x7b] then None else json_object anthropic_system_field b (tl s))"

definition anthropic_system_item :: "byte list \<Rightarrow> byte list \<Rightarrow> (byte list \<times> byte list) option" where
  "anthropic_system_item b s =
     (if take 1 s = [0x22] then string_into (append_anthropic_system_part b) s
      else if take 1 s = [0x7b] then parse_anthropic_system_object b s
      else skip_field b s)"

definition parse_anthropic_system :: "byte list \<Rightarrow> (byte list \<times> byte list) option" where
  "parse_anthropic_system s =
     (let s' = json_ws s
      in if take 1 s' = [0x22] then string_into (append_anthropic_system_part []) s'
         else case json_lit (ascii ''null'') s' of
           Some r \<Rightarrow> Some ([], r)
         | None \<Rightarrow>
             if take 1 s' \<noteq> [0x5b] then skip_field [] s'
             else json_array anthropic_system_item [] (tl s'))"

section \<open>Request bodies\<close>

datatype req_kind = REQ_CHAT | REQ_COMPLETION
datatype api_style = API_OPENAI | API_ANTHROPIC

text \<open>
  The scalar fields.  A number is \<open>None\<close> for the default \<^verbatim>\<open>request_init\<close> gives it,
  \<open>Some\<close> the matched bytes otherwise; the C field is \<^verbatim>\<open>strtod\<close> of the bytes converted to the
  type of the field.
\<close>

record request =
  r_kind :: req_kind
  r_api :: api_style
  r_model :: "byte list"
  r_stops :: stop_list
  r_prompt_text :: "byte list"
  r_tool_orders :: tool_schema_orders
  r_max_tokens :: "byte list option"
  r_top_k :: "byte list option"
  r_temperature :: "byte list option"
  r_top_p :: "byte list option"
  r_min_p :: "byte list option"
  r_seed :: "byte list option"
  r_stream :: bool
  r_stream_include_usage :: bool
  r_think_mode :: think_mode
  r_has_tools :: bool
  r_prompt_preserves_reasoning :: bool

definition request_init :: "req_kind \<Rightarrow> request" where
  "request_init kind =
     \<lparr>r_kind = kind, r_api = API_OPENAI, r_model = ascii ''deepseek-v4-flash'', r_stops = stop_list_empty,
      r_prompt_text = [], r_tool_orders = [], r_max_tokens = None, r_top_k = None, r_temperature = None,
      r_top_p = None, r_min_p = None, r_seed = None, r_stream = False, r_stream_include_usage = False,
      r_think_mode = DS4_THINK_HIGH, r_has_tools = False, r_prompt_preserves_reasoning = False\<rparr>"

text \<open>The locals of the parse beside the request.\<close>

record parse_state =
  ps_req :: request
  ps_got_messages :: bool
  ps_tool_choice_none :: bool
  ps_got_thinking :: bool
  ps_thinking_enabled :: bool
  ps_effort :: think_mode
  ps_msgs :: "chat_msg list"
  ps_system :: "byte list option"
  ps_tool_schemas :: "byte list option"
  ps_prompt :: "byte list option"

definition parse_state_init :: "request \<Rightarrow> parse_state" where
  "parse_state_init r =
     \<lparr>ps_req = r, ps_got_messages = False, ps_tool_choice_none = False, ps_got_thinking = False,
      ps_thinking_enabled = True, ps_effort = DS4_THINK_HIGH, ps_msgs = [], ps_system = None,
      ps_tool_schemas = None, ps_prompt = None\<rparr>"

type_synonym 'a reader = "byte list \<Rightarrow> ('a \<times> byte list) option"

definition read_into :: "('a \<Rightarrow> 'b) \<Rightarrow> 'a reader \<Rightarrow> 'b reader" where
  "read_into put rd s = (case rd s of None \<Rightarrow> None | Some (v, r) \<Rightarrow> Some (put v, r))"

definition number_into :: "(byte list \<Rightarrow> 'b) \<Rightarrow> 'b reader" where
  "number_into put = read_into put json_number"

definition on_req :: "(request \<Rightarrow> request) \<Rightarrow> parse_state \<Rightarrow> parse_state" where
  "on_req f st = st\<lparr>ps_req := f (ps_req st)\<rparr>"

definition openai_tool_choice :: "parse_state \<Rightarrow> parse_state reader" where
  "openai_tool_choice st s =
     (let s' = json_ws s
      in if take 1 s' = [0x22] then string_into (\<lambda>v. st\<lparr>ps_tool_choice_none := (v = ascii ''none'')\<rparr>) s'
         else skip_field st s')"

definition put_stream_options :: "parse_state \<Rightarrow> parse_state reader" where
  "put_stream_options st =
     read_into (\<lambda>u. on_req (\<lambda>r. r\<lparr>r_stream_include_usage := u\<rparr>) st)
       (parse_stream_options (r_stream_include_usage (ps_req st)))"

definition put_thinking :: "bool reader \<Rightarrow> parse_state \<Rightarrow> parse_state reader" where
  "put_thinking rd st = read_into (\<lambda>e. st\<lparr>ps_thinking_enabled := e, ps_got_thinking := True\<rparr>) rd"

definition put_stop :: "parse_state \<Rightarrow> parse_state reader" where
  "put_stop st = read_into (\<lambda>l. on_req (\<lambda>r. r\<lparr>r_stops := l\<rparr>) st) (parse_stop (r_stops (ps_req st)))"

definition put_tools :: "parse_state \<Rightarrow> parse_state reader" where
  "put_tools st =
     read_into (\<lambda>(schemas, orders). on_req (\<lambda>r. r\<lparr>r_tool_orders := orders\<rparr>) (st\<lparr>ps_tool_schemas := Some schemas\<rparr>))
       (parse_tools_value (r_tool_orders (ps_req st)))"

definition chat_field :: "byte list \<Rightarrow> parse_state \<Rightarrow> parse_state reader" where
  "chat_field key st s =
     (if key = ascii ''messages'' then
        read_into (\<lambda>ms. st\<lparr>ps_msgs := ms, ps_got_messages := True\<rparr>) (parse_messages []) s
      else if key = ascii ''tools'' then put_tools st s
      else if key = ascii ''tool_choice'' then openai_tool_choice st s
      else if key = ascii ''model'' then string_into (\<lambda>v. on_req (\<lambda>r. r\<lparr>r_model := v\<rparr>) st) s
      else if key = ascii ''max_tokens'' \<or> key = ascii ''max_completion_tokens'' then
        number_into (\<lambda>v. on_req (\<lambda>r. r\<lparr>r_max_tokens := Some v\<rparr>) st) s
      else if key = ascii ''temperature'' then number_into (\<lambda>v. on_req (\<lambda>r. r\<lparr>r_temperature := Some v\<rparr>) st) s
      else if key = ascii ''top_p'' then number_into (\<lambda>v. on_req (\<lambda>r. r\<lparr>r_top_p := Some v\<rparr>) st) s
      else if key = ascii ''min_p'' then number_into (\<lambda>v. on_req (\<lambda>r. r\<lparr>r_min_p := Some v\<rparr>) st) s
      else if key = ascii ''top_k'' then number_into (\<lambda>v. on_req (\<lambda>r. r\<lparr>r_top_k := Some v\<rparr>) st) s
      else if key = ascii ''seed'' then number_into (\<lambda>v. on_req (\<lambda>r. r\<lparr>r_seed := Some v\<rparr>) st) s
      else if key = ascii ''stream'' then read_into (\<lambda>b. on_req (\<lambda>r. r\<lparr>r_stream := b\<rparr>) st) json_bool s
      else if key = ascii ''stream_options'' then put_stream_options st s
      else if key = ascii ''thinking'' then
        put_thinking (parse_thinking_control_value (ps_thinking_enabled st)) st s
      else if key = ascii ''reasoning_effort'' then
        read_into (\<lambda>e. st\<lparr>ps_effort := e\<rparr>) (parse_reasoning_effort_value (ps_effort st)) s
      else if key = ascii ''think'' then put_thinking json_bool st s
      else if key = ascii ''stop'' then put_stop st s
      else skip_field st s)"

definition anthropic_tool_choice_field :: "byte list \<Rightarrow> parse_state \<Rightarrow> parse_state reader" where
  "anthropic_tool_choice_field key st s =
     (if key = ascii ''type'' then string_into (\<lambda>v. st\<lparr>ps_tool_choice_none := (v = ascii ''none'')\<rparr>) s
      else skip_field st s)"

definition anthropic_tool_choice :: "parse_state \<Rightarrow> parse_state reader" where
  "anthropic_tool_choice st s =
     (let s' = json_ws s
      in if take 1 s' = [0x7b] then json_object anthropic_tool_choice_field st (tl s') else skip_field st s')"

definition anthropic_field :: "byte list \<Rightarrow> parse_state \<Rightarrow> parse_state reader" where
  "anthropic_field key st s =
     (if key = ascii ''messages'' then
        read_into (\<lambda>ms. st\<lparr>ps_msgs := ms, ps_got_messages := True\<rparr>) (parse_anthropic_messages []) s
      else if key = ascii ''system'' then
        read_into (\<lambda>v. st\<lparr>ps_system := Some v\<rparr>) parse_anthropic_system s
      else if key = ascii ''tools'' then put_tools st s
      else if key = ascii ''tool_choice'' then anthropic_tool_choice st s
      else if key = ascii ''model'' then string_into (\<lambda>v. on_req (\<lambda>r. r\<lparr>r_model := v\<rparr>) st) s
      else if key = ascii ''max_tokens'' then number_into (\<lambda>v. on_req (\<lambda>r. r\<lparr>r_max_tokens := Some v\<rparr>) st) s
      else if key = ascii ''temperature'' then number_into (\<lambda>v. on_req (\<lambda>r. r\<lparr>r_temperature := Some v\<rparr>) st) s
      else if key = ascii ''top_p'' then number_into (\<lambda>v. on_req (\<lambda>r. r\<lparr>r_top_p := Some v\<rparr>) st) s
      else if key = ascii ''top_k'' then number_into (\<lambda>v. on_req (\<lambda>r. r\<lparr>r_top_k := Some v\<rparr>) st) s
      else if key = ascii ''stream'' then read_into (\<lambda>b. on_req (\<lambda>r. r\<lparr>r_stream := b\<rparr>) st) json_bool s
      else if key = ascii ''stop_sequences'' then put_stop st s
      else if key = ascii ''thinking'' then
        put_thinking (parse_thinking_control_value (ps_thinking_enabled st)) st s
      else if key = ascii ''output_config'' then
        read_into (\<lambda>e. st\<lparr>ps_effort := e\<rparr>) (parse_output_config_effort (ps_effort st)) s
      else if key = ascii ''reasoning_effort'' then
        read_into (\<lambda>e. st\<lparr>ps_effort := e\<rparr>) (parse_reasoning_effort_value (ps_effort st)) s
      else skip_field st s)"

text \<open>
  \<^verbatim>\<open>parse_prompt\<close>: a string, or the first string of an array whose other elements are
  skipped; the loop reads one element per comma.
\<close>

fun prompt_rest :: "nat \<Rightarrow> byte list \<Rightarrow> byte list option" where
  "prompt_rest 0 s = None"
| "prompt_rest (Suc n) s =
     (if s = [] \<or> take 1 s = [0x5d] then Some s
      else let s' = json_ws s
           in if take 1 s' = [0x2c]
              then (case json_skip_value (tl s') of None \<Rightarrow> None | Some r \<Rightarrow> prompt_rest n r)
              else Some s')"

definition parse_prompt :: "byte list reader" where
  "parse_prompt s =
     (let s' = json_ws s
      in if take 1 s' = [0x22] then json_string s'
         else if take 1 s' \<noteq> [0x5b] then skip_field [] s'
         else
           let s1 = json_ws (tl s')
           in case (if take 1 s1 = [0x22] then json_string s1
                    else if s1 \<noteq> [] \<and> take 1 s1 \<noteq> [0x5d] then skip_field [] s1
                    else Some ([], s1)) of
                None \<Rightarrow> None
              | Some (out, s2) \<Rightarrow>
                  (case prompt_rest (Suc (length s2)) s2 of
                     None \<Rightarrow> None
                   | Some s3 \<Rightarrow> if take 1 s3 = [0x5d] then Some (out, tl s3) else None))"

definition completion_field :: "byte list \<Rightarrow> parse_state \<Rightarrow> parse_state reader" where
  "completion_field key st s =
     (if key = ascii ''prompt'' then read_into (\<lambda>v. st\<lparr>ps_prompt := Some v\<rparr>) parse_prompt s
      else if key = ascii ''model'' then string_into (\<lambda>v. on_req (\<lambda>r. r\<lparr>r_model := v\<rparr>) st) s
      else if key = ascii ''max_tokens'' then number_into (\<lambda>v. on_req (\<lambda>r. r\<lparr>r_max_tokens := Some v\<rparr>) st) s
      else if key = ascii ''temperature'' then number_into (\<lambda>v. on_req (\<lambda>r. r\<lparr>r_temperature := Some v\<rparr>) st) s
      else if key = ascii ''top_p'' then number_into (\<lambda>v. on_req (\<lambda>r. r\<lparr>r_top_p := Some v\<rparr>) st) s
      else if key = ascii ''min_p'' then number_into (\<lambda>v. on_req (\<lambda>r. r\<lparr>r_min_p := Some v\<rparr>) st) s
      else if key = ascii ''top_k'' then number_into (\<lambda>v. on_req (\<lambda>r. r\<lparr>r_top_k := Some v\<rparr>) st) s
      else if key = ascii ''seed'' then number_into (\<lambda>v. on_req (\<lambda>r. r\<lparr>r_seed := Some v\<rparr>) st) s
      else if key = ascii ''stream'' then read_into (\<lambda>b. on_req (\<lambda>r. r\<lparr>r_stream := b\<rparr>) st) json_bool s
      else if key = ascii ''stream_options'' then put_stream_options st s
      else if key = ascii ''thinking'' then
        put_thinking (parse_thinking_control_value (ps_thinking_enabled st)) st s
      else if key = ascii ''reasoning_effort'' then
        read_into (\<lambda>e. st\<lparr>ps_effort := e\<rparr>) (parse_reasoning_effort_value (ps_effort st)) s
      else if key = ascii ''think'' then put_thinking json_bool st s
      else if key = ascii ''stop'' then put_stop st s
      else skip_field st s)"

text \<open>The member loop of a body with one of the three field readers.\<close>

definition parse_body ::
    "(byte list \<Rightarrow> parse_state \<Rightarrow> parse_state reader) \<Rightarrow> request \<Rightarrow> byte list \<Rightarrow> parse_state option" where
  "parse_body field r body =
     (let s = json_ws body
      in if take 1 s \<noteq> [0x7b] then None
         else map_option fst (json_object field (parse_state_init r) (tl s)))"

section \<open>The thinking mode of a request\<close>

definition DS4_THINK_MAX_MIN_CONTEXT :: nat where "DS4_THINK_MAX_MIN_CONTEXT = 393216"

definition ds4_think_mode_for_context :: "think_mode \<Rightarrow> int \<Rightarrow> think_mode" where
  "ds4_think_mode_for_context mode ctx_size =
     (if mode = DS4_THINK_MAX \<and> nat (if ctx_size > 0 then ctx_size else 0) < DS4_THINK_MAX_MIN_CONTEXT
      then DS4_THINK_HIGH else mode)"

definition request_think_mode :: "parse_state \<Rightarrow> int \<Rightarrow> think_mode" where
  "request_think_mode st ctx_size =
     (let model = r_model (ps_req st);
          e1 = (if \<not> ps_got_thinking st \<and> model_alias_disables_thinking model then False
                else ps_thinking_enabled st);
          e2 = (if \<not> ps_got_thinking st \<and> model_alias_enables_thinking model then True else e1)
      in ds4_think_mode_for_context (think_mode_from_enabled e2 (ps_effort st)) ctx_size)"

section \<open>Every reader consumes its text\<close>

lemma opened_eats: "take 1 s = [c] \<Longrightarrow> suffix r (tl s) \<Longrightarrow> strict_suffix r s"
  by (rule suffix_order.le_less_trans [OF _ eats_tl])

lemma opened_ws_eats: "take 1 (json_ws s) = [c] \<Longrightarrow> suffix r (tl (json_ws s)) \<Longrightarrow> strict_suffix r s"
  by (rule eats_ws) (rule opened_eats)

lemma null_eats: "json_lit (ascii ''null'') (json_ws s) = Some r \<Longrightarrow> strict_suffix r s"
  by (rule eats_ws, erule json_lit_eats) (simp add: ascii_def)

lemma json_bool_eats: "json_bool s = Some (b, r) \<Longrightarrow> strict_suffix r s"
  by (rule eats_ws)
    (auto simp: json_bool_def Let_def ascii_def split: option.splits if_splits dest: json_lit_eats)

lemma read_into_eats:
  "(\<And>v r. rd s = Some (v, r) \<Longrightarrow> strict_suffix r s) \<Longrightarrow> read_into put rd s = Some (a, r) \<Longrightarrow> strict_suffix r s"
  by (auto simp: read_into_def split: option.splits)

lemma number_into_eats: "number_into put s = Some (a, r) \<Longrightarrow> strict_suffix r s"
  unfolding number_into_def by (rule read_into_eats) (rule json_number_eats)

lemma ws_into_eats:
  "string_into put1 (json_ws s) = Some (a, r) \<Longrightarrow> strict_suffix r s"
  "raw_into put2 (json_ws s) = Some (a, r) \<Longrightarrow> strict_suffix r s"
  "skip_field b (json_ws s) = Some (a, r) \<Longrightarrow> strict_suffix r s"
  by (rule eats_ws, erule into_eats)+

lemma effort_eats: "parse_reasoning_effort_value e s = Some (m, r) \<Longrightarrow> strict_suffix r s"
  by (auto simp: parse_reasoning_effort_value_def Let_def split: option.splits dest: null_eats
      dest!: json_string_eats intro: eats_ws)

interpretation thinking: field_reader thinking_field
  by unfold_locales (simp add: thinking_field_def into_suffix split: if_splits)

interpretation output_config: field_reader output_config_field
  by unfold_locales
    (auto simp: output_config_field_def into_suffix split: if_splits dest: effort_eats suffix_order.less_imp_le)

interpretation stream_options: field_reader stream_options_field
  by unfold_locales
    (auto simp: stream_options_field_def into_suffix split: if_splits dest: json_bool_eats suffix_order.less_imp_le)

interpretation function_call: field_reader function_call_field
  by unfold_locales
    (auto simp: function_call_field_def Let_def into_suffix split: if_splits
      dest: ws_into_eats suffix_order.less_imp_le)

lemma parse_function_call_eats: "parse_function_call tc s = Some (tc', r) \<Longrightarrow> strict_suffix r s"
  by (auto simp: parse_function_call_def Let_def split: if_splits
      intro: opened_ws_eats function_call.object_eats)

interpretation tool_call: field_reader tool_call_field
  by unfold_locales
    (auto simp: tool_call_field_def into_suffix split: if_splits
      dest: parse_function_call_eats suffix_order.less_imp_le)

interpretation tool_call_items: consumer tool_call_item
  by unfold_locales
    (auto simp: tool_call_item_def split: if_splits option.splits intro: opened_eats tool_call.object_eats)

lemma parse_tool_calls_eats: "parse_tool_calls_value c s = Some (c', r) \<Longrightarrow> strict_suffix r s"
  by (auto simp: parse_tool_calls_value_def Let_def split: if_splits option.splits
      dest: null_eats intro: opened_ws_eats tool_call_items.array_eats)

interpretation tools: consumer tools_item
  by unfold_locales (simp add: tools_item_def into_eats)

lemma parse_tools_eats: "parse_tools_value o1 s = Some (st, r) \<Longrightarrow> strict_suffix r s"
  by (auto simp: parse_tools_value_def Let_def split: if_splits option.splits
      dest: null_eats intro: opened_ws_eats tools.array_eats)

interpretation openai_message: field_reader message_field
  by unfold_locales
    (auto simp: message_field_def into_suffix split: if_splits option.splits
      dest: parse_tool_calls_eats content_into_eats suffix_order.less_imp_le)

lemma message_item_eats:
  assumes "\<And>m s m' r. json_object field m s = Some (m', r) \<Longrightarrow> suffix r s"
    and "message_item field ms s = Some (ms', r)"
  shows "strict_suffix r s"
  using assms by (auto simp: message_item_def split: if_splits option.splits intro: opened_eats)

interpretation openai_messages: consumer "message_item message_field"
  by unfold_locales (rule message_item_eats, rule openai_message.object_eats)

lemma parse_messages_eats: "parse_messages ms s = Some (ms', r) \<Longrightarrow> strict_suffix r s"
  by (auto simp: parse_messages_def Let_def split: if_splits
      intro: opened_ws_eats openai_messages.array_eats)

interpretation block: field_reader anthropic_block_field
  by unfold_locales
    (auto simp: anthropic_block_field_def into_suffix split: if_splits
      dest: content_into_eats suffix_order.less_imp_le)

interpretation anthropic_contents: consumer anthropic_content_item
  by unfold_locales
    (auto simp: anthropic_content_item_def parse_anthropic_content_block_def into_eats
      split: if_splits option.splits intro: opened_eats block.object_eats)

lemma parse_anthropic_content_eats: "parse_anthropic_content m s = Some (m', r) \<Longrightarrow> strict_suffix r s"
  by (auto simp: parse_anthropic_content_def Let_def split: if_splits option.splits
      dest: null_eats ws_into_eats intro: opened_ws_eats anthropic_contents.array_eats)

interpretation anthropic_message: field_reader anthropic_message_field
  by unfold_locales
    (auto simp: anthropic_message_field_def into_suffix split: if_splits
      dest: parse_anthropic_content_eats suffix_order.less_imp_le)

interpretation anthropic_messages: consumer "message_item anthropic_message_field"
  by unfold_locales (rule message_item_eats, rule anthropic_message.object_eats)

lemma parse_anthropic_messages_eats: "parse_anthropic_messages ms s = Some (ms', r) \<Longrightarrow> strict_suffix r s"
  by (auto simp: parse_anthropic_messages_def Let_def split: if_splits
      intro: opened_ws_eats anthropic_messages.array_eats)

interpretation anthropic_system_member: field_reader anthropic_system_field
  by unfold_locales (simp add: anthropic_system_field_def into_suffix split: if_splits)

interpretation anthropic_system_parts: consumer anthropic_system_item
  by unfold_locales
    (auto simp: anthropic_system_item_def parse_anthropic_system_object_def into_eats split: if_splits
      intro: opened_eats anthropic_system_member.object_eats)

lemma parse_anthropic_system_eats: "parse_anthropic_system s = Some (v, r) \<Longrightarrow> strict_suffix r s"
  by (auto simp: parse_anthropic_system_def Let_def split: if_splits option.splits
      dest: null_eats ws_into_eats intro: opened_ws_eats anthropic_system_parts.array_eats)

lemma parse_thinking_control_eats: "parse_thinking_control_value e s = Some (e', r) \<Longrightarrow> strict_suffix r s"
  by (auto simp: parse_thinking_control_value_def Let_def split: if_splits option.splits
      dest: null_eats ws_into_eats eats_ws [OF json_bool_eats]
      intro: opened_ws_eats thinking.object_eats)

lemma parse_output_config_eats: "parse_output_config_effort e s = Some (e', r) \<Longrightarrow> strict_suffix r s"
  by (auto simp: parse_output_config_effort_def Let_def split: if_splits option.splits
      dest: null_eats ws_into_eats intro: opened_ws_eats output_config.object_eats)

lemma parse_stream_options_eats: "parse_stream_options u s = Some (u', r) \<Longrightarrow> strict_suffix r s"
  by (auto simp: parse_stream_options_def Let_def split: if_splits
      dest: ws_into_eats intro: opened_ws_eats stream_options.object_eats)

lemma parse_stop_eats: "parse_stop out s = Some (st, r) \<Longrightarrow> strict_suffix r s"
  by (auto simp: parse_stop_def Let_def split: if_splits
      dest: ws_into_eats intro: opened_ws_eats stop_items.array_eats)

lemma prompt_rest_suffix: "prompt_rest n s = Some r \<Longrightarrow> suffix r s"
proof (induction n s arbitrary: r rule: prompt_rest.induct)
  case (2 n s)
  note ws = json_ws_suffix [of s]
  show ?case
  proof (cases "s = [] \<or> take 1 s = [0x5d]")
    case False
    show ?thesis
    proof (cases "take 1 (json_ws s) = [0x2c]")
      case True
      with False "2.prems" obtain t where t: "json_skip_value (tl (json_ws s)) = Some t" "prompt_rest n t = Some r"
        by (auto simp: Let_def split: option.splits)
      have "suffix r t" using "2.IH" [OF False refl True t(1) t(2)] .
      also have "suffix t (tl (json_ws s))" using t(1) by (simp add: json_skip_value_eats suffix_order.less_imp_le)
      also have "suffix (tl (json_ws s)) (json_ws s)" by (rule suffix_tl)
      also note ws
      finally show ?thesis .
    qed (use False "2.prems" ws in \<open>auto simp: Let_def\<close>)
  qed (use "2.prems" in auto)
qed simp

lemma parse_prompt_eats: "parse_prompt s = Some (v, r) \<Longrightarrow> strict_suffix r s"
proof (rule eats_ws)
  let ?s = "json_ws s"
  assume a: "parse_prompt s = Some (v, r)"
  show "strict_suffix r ?s"
  proof (cases "take 1 ?s = [0x5b]")
    case False
    with a show ?thesis by (auto simp: parse_prompt_def Let_def json_string_eats into_eats split: if_splits)
  next
    case True
    let ?s1 = "json_ws (tl ?s)"
    from a True obtain s2 s3 where 1: "(if take 1 ?s1 = [0x22] then json_string ?s1
        else if ?s1 \<noteq> [] \<and> take 1 ?s1 \<noteq> [0x5d] then skip_field [] ?s1 else Some ([], ?s1)) = Some (v, s2)"
      and 2: "prompt_rest (Suc (length s2)) s2 = Some s3" and 3: "r = tl s3"
      by (auto simp: parse_prompt_def Let_def split: option.splits if_split_asm)
    have "suffix r s3" by (simp add: 3 suffix_tl)
    also have "suffix s3 s2" using 2 by (rule prompt_rest_suffix)
    also have "suffix s2 ?s1" using 1
      by (auto split: if_splits dest!: json_string_eats into_eats(3) intro: suffix_order.less_imp_le)
    also have "suffix ?s1 (tl ?s)" by (rule json_ws_suffix)
    finally show ?thesis by (rule opened_eats [OF True])
  qed
qed

lemma read_intoD: "read_into put rd s = Some (a, r) \<Longrightarrow> \<exists>v. rd s = Some (v, r)"
  by (auto simp: read_into_def split: option.splits)

lemma put_eats:
  "put_stream_options st s = Some (st', r) \<Longrightarrow> strict_suffix r s"
  "put_stop st s = Some (st', r) \<Longrightarrow> strict_suffix r s"
  "put_tools st s = Some (st', r) \<Longrightarrow> strict_suffix r s"
  unfolding put_stream_options_def put_stop_def put_tools_def
  by (auto dest!: read_intoD intro: parse_stream_options_eats parse_stop_eats parse_tools_eats)

lemma put_thinking_eats:
  "put_thinking json_bool st s = Some (st', r) \<Longrightarrow> strict_suffix r s"
  "put_thinking (parse_thinking_control_value e) st s = Some (st', r) \<Longrightarrow> strict_suffix r s"
  unfolding put_thinking_def
  by (auto dest!: read_intoD intro: json_bool_eats parse_thinking_control_eats)

lemma openai_tool_choice_eats: "openai_tool_choice st s = Some (st', r) \<Longrightarrow> strict_suffix r s"
  by (auto simp: openai_tool_choice_def Let_def split: if_splits dest: ws_into_eats)

interpretation anthropic_choice: field_reader anthropic_tool_choice_field
  by unfold_locales (simp add: anthropic_tool_choice_field_def into_suffix split: if_splits)

lemma anthropic_tool_choice_eats: "anthropic_tool_choice st s = Some (st', r) \<Longrightarrow> strict_suffix r s"
  by (auto simp: anthropic_tool_choice_def Let_def split: if_splits
      dest: ws_into_eats intro: opened_ws_eats anthropic_choice.object_eats)

lemmas body_eats = into_eats number_into_eats put_eats put_thinking_eats openai_tool_choice_eats
  anthropic_tool_choice_eats
lemmas value_eats = json_bool_eats effort_eats parse_messages_eats parse_anthropic_messages_eats
  parse_anthropic_system_eats parse_output_config_eats parse_prompt_eats

interpretation chat_body: field_reader chat_field
  by unfold_locales
    (rule suffix_order.less_imp_le, auto simp: chat_field_def split: if_splits
      dest!: read_intoD intro: body_eats value_eats)

interpretation anthropic_body: field_reader anthropic_field
  by unfold_locales
    (rule suffix_order.less_imp_le, auto simp: anthropic_field_def split: if_splits
      dest!: read_intoD intro: body_eats value_eats)

interpretation completion_body: field_reader completion_field
  by unfold_locales
    (rule suffix_order.less_imp_le, auto simp: completion_field_def split: if_splits
      dest!: read_intoD intro: body_eats value_eats)

section \<open>What the readers keep\<close>

lemma json_object_invariant:
  assumes keep: "\<And>key a s a' r. P a \<Longrightarrow> f key a s = Some (a', r) \<Longrightarrow> P a'"
    and "P a" "json_object f a s = Some (a', r)"
  shows "P a'"
proof -
  have "P b'" if "P b" "json_field f b t = Some (b', q)" for b t b' q
    using that by (auto simp: json_field_def split: option.splits list.splits if_splits dest: keep)
  with assms(2,3) show ?thesis
    unfolding json_object_def by (blast intro: json_members_invariant)
qed

definition call_ok :: "tool_call \<Rightarrow> bool" where
  "call_ok tc \<longleftrightarrow> tc_name tc \<noteq> None \<and> tc_arguments tc \<noteq> None"

definition calls_ok :: "chat_msg \<Rightarrow> bool" where
  "calls_ok m \<longleftrightarrow> list_all call_ok (calls_v (msg_calls m)) \<and> calls_raw_dsml (msg_calls m) = None"

definition msg_ok :: "chat_msg \<Rightarrow> bool" where
  "msg_ok m \<longleftrightarrow> msg_role m \<noteq> None \<and> msg_content m \<noteq> None \<and> calls_ok m"

definition orders_ok :: "tool_schema_orders \<Rightarrow> bool" where
  "orders_ok os \<longleftrightarrow> distinct (map order_name os) \<and> None \<notin> set (map order_name os)
     \<and> [] \<notin> set (map order_prop os)"

text \<open>The table of schema orders as a map from names.\<close>

definition order_of :: "tool_schema_orders \<Rightarrow> byte list \<Rightarrow> tool_schema_order option" where
  "order_of os name = map_option ((!) os) (tool_schema_orders_find_index os (Some name))"

lemma find_index_Some:
  "tool_schema_orders_find_index os (Some name) = Some i \<Longrightarrow>
     i < length os \<and> order_name (os ! i) = Some name \<and> (\<forall>j<i. order_name (os ! j) \<noteq> Some name)"
proof (induction os arbitrary: i)
  case (Cons a os)
  show ?case
  proof (cases "order_name a = Some name")
    case False
    with Cons.prems obtain k where k: "i = Suc k" "tool_schema_orders_find_index os (Some name) = Some k" by auto
    with Cons.IH [OF k(2)] False show ?thesis by (auto simp: less_Suc_eq_0_disj)
  qed (use Cons.prems in auto)
qed simp

lemma find_index_None: "tool_schema_orders_find_index os (Some name) = None \<longleftrightarrow> Some name \<notin> order_name ` set os"
  by (induction os) auto

lemma order_of_Nil [simp]: "order_of [] name = None"
  by (simp add: order_of_def)

lemma order_of_Cons: "order_of (a # os) name = (if order_name a = Some name then Some a else order_of os name)"
  by (simp add: order_of_def option.map_comp comp_def)

lemma order_of_append: "order_of (os @ [a]) name =
    (case order_of os name of Some b \<Rightarrow> Some b | None \<Rightarrow> if order_name a = Some name then Some a else None)"
  by (induction os) (auto simp: order_of_Cons)

lemma order_of_update:
  assumes "i < length os" "order_name (os ! i) = order_name a" "distinct (map order_name os)"
  shows "order_of (os[i := a]) name = (if order_name a = Some name then Some a else order_of os name)"
  using assms
proof (induction os arbitrary: i)
  case (Cons b os)
  then show ?case
    by (cases i) (auto simp: order_of_Cons, metis list.set_map nth_map nth_mem length_map)
qed simp

lemma order_of_push:
  assumes "distinct (map order_name os)" "order_name a \<noteq> None"
  shows "order_of (tool_schema_orders_push os a) name =
    (if order_name a = Some name then Some a else order_of os name)"
proof -
  obtain n where n: "order_name a = Some n" using assms(2) by blast
  show ?thesis
  proof (cases "tool_schema_orders_find_index os (Some n)")
    case None
    then have "order_of os n = None" by (simp add: order_of_def)
    with None n show ?thesis by (auto simp: tool_schema_orders_push_def order_of_append split: option.splits)
  next
    case (Some i)
    from find_index_Some [OF Some] have "i < length os" "order_name (os ! i) = order_name a" by (simp_all add: n)
    with order_of_update [OF this assms(1)] Some n show ?thesis by (simp add: tool_schema_orders_push_def)
  qed
qed

lemma orders_ok_push:
  assumes "orders_ok os" "order_name a \<noteq> None" "order_prop a \<noteq> []"
  shows "orders_ok (tool_schema_orders_push os a)"
proof -
  obtain n where n: "order_name a = Some n" using assms(2) by blast
  show ?thesis
  proof (cases "tool_schema_orders_find_index os (Some n)")
    case None
    then have "Some n \<notin> order_name ` set os" using find_index_None by blast
    with None assms n show ?thesis by (simp add: tool_schema_orders_push_def orders_ok_def)
  next
    case (Some i)
    have i: "i < length os" "order_name (os ! i) = Some n" using find_index_Some [OF Some] by simp_all
    have "map order_name (os[i := a]) = map order_name os"
      using i n by (metis list_update_id map_update nth_map)
    moreover have "[] \<notin> set (map order_prop (os[i := a]))"
      using assms set_update_subset_insert [of "map order_prop os" i "order_prop a"]
      by (auto simp: orders_ok_def map_update)
    ultimately show ?thesis using assms Some n by (simp only: tool_schema_orders_push_def orders_ok_def option.case simp_thms)
  qed
qed

lemma orders_ok_add: "orders_ok os \<Longrightarrow> orders_ok (tool_schema_orders_add_json os json)"
  by (simp add: tool_schema_orders_add_json_def Let_def orders_ok_push split: option.split)

lemma parse_tools_ok:
  assumes "orders_ok os" "parse_tools_value os s = Some ((v, os'), r)"
  shows "orders_ok os'"
proof -
  have item: "orders_ok (snd b')" if "orders_ok (snd b)" "tools_item b t = Some (b', q)" for b t b' q
    using that by (auto simp: tools_item_def raw_into_def Let_def orders_ok_add split: option.splits)
  have "orders_ok (snd (v, os'))" if "json_array tools_item ([], os) t = Some ((v, os'), r)" for t
    by (rule json_members_invariant [where P = "\<lambda>b. orders_ok (snd b)" and item = tools_item])
      (use that assms(1) item in \<open>simp_all add: json_array_def\<close>)
  with assms show ?thesis
    by (auto simp: parse_tools_value_def Let_def split: option.splits if_splits)
qed

lemma function_call_calls: "tool_call_item c s = Some (c', r) \<Longrightarrow> list_all call_ok (calls_v c) \<Longrightarrow>
    list_all call_ok (calls_v c') \<and> calls_raw_dsml c' = calls_raw_dsml c"
  by (auto simp: tool_call_item_def tool_calls_push_def call_ok_def split: if_splits option.splits)

lemma parse_tool_calls_ok:
  assumes "parse_tool_calls_value no_calls s = Some (c, r)"
  shows "list_all call_ok (calls_v c) \<and> calls_raw_dsml c = None"
proof -
  let ?P = "\<lambda>c. list_all call_ok (calls_v c) \<and> calls_raw_dsml c = None"
  have "?P c" if "json_array tool_call_item no_calls t = Some (c, r)" for t
    by (rule json_members_invariant [where P = ?P and item = tool_call_item])
      (use that function_call_calls in \<open>auto simp: json_array_def no_calls_def\<close>)
  with assms show ?thesis
    by (auto simp: parse_tool_calls_value_def Let_def no_calls_def split: option.splits if_splits)
qed

lemma message_field_calls: "calls_ok m \<Longrightarrow> message_field key m s = Some (m', r) \<Longrightarrow> calls_ok m'"
  by (auto simp: message_field_def string_into_def content_into_def skip_field_def calls_ok_def
      split: if_splits option.splits dest: parse_tool_calls_ok)

lemma apply_block_calls: "calls_ok m \<Longrightarrow> calls_ok (apply_anthropic_block role b m)"
  by (auto simp: apply_anthropic_block_def calls_ok_def call_ok_def tool_calls_push_def Let_def split: option.splits)

lemma anthropic_item_calls: "calls_ok m \<Longrightarrow> anthropic_content_item m s = Some (m', r) \<Longrightarrow> calls_ok m'"
  by (auto simp: anthropic_content_item_def parse_anthropic_content_block_def string_into_def skip_field_def
      apply_block_calls split: if_splits option.splits) (simp_all add: calls_ok_def)

lemma parse_anthropic_content_calls:
  assumes "calls_ok m" "parse_anthropic_content m s = Some (m', r)"
  shows "calls_ok m'"
proof -
  have "calls_ok m1" if "json_array anthropic_content_item m t = Some (m1, q)" for t m1 q
    by (rule json_members_invariant [where P = calls_ok and item = anthropic_content_item])
      (use that assms(1) anthropic_item_calls in \<open>simp_all add: json_array_def\<close>)
  moreover have "calls_ok (m1\<lparr>msg_content := c\<rparr>) = calls_ok m1" for m1 c by (simp add: calls_ok_def)
  ultimately show ?thesis using assms
    by (auto simp: parse_anthropic_content_def Let_def string_into_def skip_field_def
        split: if_splits option.splits)
qed

lemma anthropic_message_field_calls: "calls_ok m \<Longrightarrow> anthropic_message_field key m s = Some (m', r) \<Longrightarrow> calls_ok m'"
  using parse_anthropic_content_calls [of "m\<lparr>msg_content := None\<rparr>"]
  by (auto simp: anthropic_message_field_def string_into_def skip_field_def calls_ok_def
      split: if_splits option.splits)

text \<open>Both dialects push only well-formed messages.\<close>

locale message_dialect = field_reader field
  for field :: "byte list \<Rightarrow> chat_msg \<Rightarrow> byte list \<Rightarrow> (chat_msg \<times> byte list) option" +
  assumes field_calls: "calls_ok m \<Longrightarrow> field key m s = Some (m', r) \<Longrightarrow> calls_ok m'"
begin

lemma item_ok: "list_all msg_ok ms \<Longrightarrow> message_item field ms s = Some (ms', r) \<Longrightarrow> list_all msg_ok ms'"
proof -
  assume ms: "list_all msg_ok ms" and "message_item field ms s = Some (ms', r)"
  then obtain m where m: "json_object field no_msg (tl s) = Some (m, r)" "ms' = push_message ms m"
    by (auto simp: message_item_def split: if_splits option.splits)
  have "calls_ok m"
    by (rule json_object_invariant [where P = calls_ok, OF field_calls _ m(1)])
      (simp_all add: calls_ok_def no_msg_def no_calls_def)
  with ms show ?thesis
    by (auto simp: m(2) push_message_def chat_msgs_push_def Let_def msg_ok_def calls_ok_def)
qed

lemma messages_ok: "json_array (message_item field) [] t = Some (ms, r) \<Longrightarrow> list_all msg_ok ms"
  unfolding json_array_def
  by (rule json_members_invariant [where P = "list_all msg_ok" and item = "message_item field"])
    (simp_all add: item_ok)

end

interpretation openai: message_dialect message_field
  by unfold_locales (rule message_field_calls)

interpretation anthropic: message_dialect anthropic_message_field
  by unfold_locales (rule anthropic_message_field_calls)

lemma parse_messages_ok: "parse_messages [] s = Some (ms, r) \<Longrightarrow> list_all msg_ok ms"
  by (auto simp: parse_messages_def Let_def split: if_splits intro: openai.messages_ok)

lemma parse_anthropic_messages_ok: "parse_anthropic_messages [] s = Some (ms, r) \<Longrightarrow> list_all msg_ok ms"
  by (auto simp: parse_anthropic_messages_def Let_def split: if_splits intro: anthropic.messages_ok)

section \<open>The parse state\<close>

definition ps_ok :: "parse_state \<Rightarrow> bool" where
  "ps_ok st \<longleftrightarrow> list_all msg_ok (ps_msgs st) \<and> stops_ok (r_stops (ps_req st))
     \<and> orders_ok (r_tool_orders (ps_req st)) \<and> ps_effort st \<noteq> DS4_THINK_NONE
     \<and> (\<not> ps_got_thinking st \<longrightarrow> ps_thinking_enabled st)"

lemma effort_not_none: "e \<noteq> DS4_THINK_NONE \<Longrightarrow> parse_reasoning_effort_value e s = Some (m, r) \<Longrightarrow> m \<noteq> DS4_THINK_NONE"
  by (auto simp: parse_reasoning_effort_value_def parse_reasoning_effort_name_def Let_def
      split: option.splits if_splits)

lemma output_config_not_none:
  assumes "e \<noteq> DS4_THINK_NONE" "parse_output_config_effort e s = Some (m, r)"
  shows "m \<noteq> DS4_THINK_NONE"
proof -
  have "m' \<noteq> DS4_THINK_NONE" if "json_object output_config_field e t = Some (m', q)" for t m' q
    by (rule json_object_invariant [where P = "\<lambda>m. m \<noteq> DS4_THINK_NONE", OF _ _ that])
      (use assms(1) effort_not_none in \<open>auto simp: output_config_field_def skip_field_def split: if_splits option.splits\<close>)
  with assms show ?thesis
    by (auto simp: parse_output_config_effort_def Let_def skip_field_def split: option.splits if_splits)
qed

lemma ps_ok_tool_choice: "ps_ok st \<Longrightarrow> ps_ok (st\<lparr>ps_tool_choice_none := b\<rparr>)"
  by (simp add: ps_ok_def)

lemma ps_ok_openai_choice: "ps_ok st \<Longrightarrow> openai_tool_choice st s = Some (st', r) \<Longrightarrow> ps_ok st'"
  by (auto simp: openai_tool_choice_def Let_def string_into_def skip_field_def ps_ok_tool_choice
      split: if_splits option.splits)

lemma ps_ok_anthropic_choice:
  assumes "ps_ok st" "anthropic_tool_choice st s = Some (st', r)"
  shows "ps_ok st'"
proof -
  have "ps_ok a'" if "ps_ok a" "anthropic_tool_choice_field key a u = Some (a', q)" for key a u a' q
    using that by (auto simp: anthropic_tool_choice_field_def string_into_def skip_field_def
        ps_ok_tool_choice split: if_splits option.splits)
  then have "ps_ok st'" if "json_object anthropic_tool_choice_field st t = Some (st', r)" for t
    using json_object_invariant [where P = ps_ok, OF _ assms(1) that] by blast
  with assms show ?thesis
    by (auto simp: anthropic_tool_choice_def Let_def skip_field_def split: if_splits option.splits)
qed

lemma ps_ok_put:
  "ps_ok st \<Longrightarrow> put_stop st s = Some (st', r) \<Longrightarrow> ps_ok st'"
  "ps_ok st \<Longrightarrow> put_tools st s = Some (st', r) \<Longrightarrow> ps_ok st'"
  "ps_ok st \<Longrightarrow> put_stream_options st s = Some (st', r) \<Longrightarrow> ps_ok st'"
  "ps_ok st \<Longrightarrow> put_thinking rd st s = Some (st', r) \<Longrightarrow> ps_ok st'"
  by (auto simp: put_stop_def put_tools_def put_stream_options_def put_thinking_def read_into_def ps_ok_def
      on_req_def stops_ok_parse parse_tools_ok split: option.splits)

lemmas ps_ok_readers = string_into_def skip_field_def number_into_def read_into_def

lemma ps_ok_scalar:
  "ps_ok st \<Longrightarrow> ps_ok (on_req (\<lambda>r. r\<lparr>r_model := v\<rparr>) st)"
  "ps_ok st \<Longrightarrow> ps_ok (on_req (\<lambda>r. r\<lparr>r_max_tokens := n\<rparr>) st)"
  "ps_ok st \<Longrightarrow> ps_ok (on_req (\<lambda>r. r\<lparr>r_temperature := n\<rparr>) st)"
  "ps_ok st \<Longrightarrow> ps_ok (on_req (\<lambda>r. r\<lparr>r_top_p := n\<rparr>) st)"
  "ps_ok st \<Longrightarrow> ps_ok (on_req (\<lambda>r. r\<lparr>r_min_p := n\<rparr>) st)"
  "ps_ok st \<Longrightarrow> ps_ok (on_req (\<lambda>r. r\<lparr>r_top_k := n\<rparr>) st)"
  "ps_ok st \<Longrightarrow> ps_ok (on_req (\<lambda>r. r\<lparr>r_seed := n\<rparr>) st)"
  "ps_ok st \<Longrightarrow> ps_ok (on_req (\<lambda>r. r\<lparr>r_stream := b\<rparr>) st)"
  "ps_ok st \<Longrightarrow> ps_ok (st\<lparr>ps_system := v'\<rparr>)"
  "ps_ok st \<Longrightarrow> ps_ok (st\<lparr>ps_prompt := v'\<rparr>)"
  "ps_ok st \<Longrightarrow> list_all msg_ok ms \<Longrightarrow> ps_ok (st\<lparr>ps_msgs := ms, ps_got_messages := g\<rparr>)"
  by (simp_all add: ps_ok_def on_req_def)

lemma ps_ok_effort:
  "ps_ok st \<Longrightarrow> parse_reasoning_effort_value (ps_effort st) s = Some (e, r) \<Longrightarrow> ps_ok (st\<lparr>ps_effort := e\<rparr>)"
  using effort_not_none [of "ps_effort st" s e r] by (simp add: ps_ok_def)

lemma ps_ok_output_config:
  "ps_ok st \<Longrightarrow> parse_output_config_effort (ps_effort st) s = Some (e, r) \<Longrightarrow> ps_ok (st\<lparr>ps_effort := e\<rparr>)"
  using output_config_not_none [of "ps_effort st" s e r] by (simp add: ps_ok_def)

lemmas ps_ok_values = parse_messages_ok parse_anthropic_messages_ok ps_ok_effort
  ps_ok_output_config

lemma chat_field_ok: "ps_ok st \<Longrightarrow> chat_field key st s = Some (st', r) \<Longrightarrow> ps_ok st'"
  by (auto simp: chat_field_def ps_ok_readers split: if_splits option.splits
      intro: ps_ok_scalar ps_ok_put ps_ok_openai_choice ps_ok_values)

lemma anthropic_field_ok: "ps_ok st \<Longrightarrow> anthropic_field key st s = Some (st', r) \<Longrightarrow> ps_ok st'"
  by (auto simp: anthropic_field_def ps_ok_readers split: if_splits option.splits
      intro: ps_ok_scalar ps_ok_put ps_ok_anthropic_choice ps_ok_values)

lemma completion_field_ok: "ps_ok st \<Longrightarrow> completion_field key st s = Some (st', r) \<Longrightarrow> ps_ok st'"
  by (auto simp: completion_field_def ps_ok_readers split: if_splits option.splits
      intro: ps_ok_scalar ps_ok_put ps_ok_values)

definition body_fields :: "(byte list \<Rightarrow> parse_state \<Rightarrow> parse_state reader) list" where
  "body_fields = [chat_field, anthropic_field, completion_field]"

lemma ps_ok_init: "stops_ok (r_stops r) \<Longrightarrow> orders_ok (r_tool_orders r) \<Longrightarrow> ps_ok (parse_state_init r)"
  by (simp add: ps_ok_def parse_state_init_def)

lemma parse_body_ok:
  assumes "field \<in> set body_fields" "parse_body field (request_init kind) body = Some st"
  shows "ps_ok st"
proof -
  obtain r where o: "json_object field (parse_state_init (request_init kind)) (tl (json_ws body)) = Some (st, r)"
    using assms(2) by (auto simp: parse_body_def Let_def split: if_splits)
  have init: "ps_ok (parse_state_init (request_init kind))"
    by (rule ps_ok_init) (simp_all add: request_init_def stop_list_empty_def stops_ok_def orders_ok_def)
  consider "field = chat_field" | "field = anthropic_field" | "field = completion_field"
    using assms(1) by (auto simp: body_fields_def)
  then show ?thesis
  proof cases
    case 1
    show ?thesis by (rule json_object_invariant [where P = ps_ok, OF chat_field_ok init o [unfolded 1]]) assumption+
  next
    case 2
    show ?thesis by (rule json_object_invariant [where P = ps_ok, OF anthropic_field_ok init o [unfolded 2]]) assumption+
  next
    case 3
    show ?thesis by (rule json_object_invariant [where P = ps_ok, OF completion_field_ok init o [unfolded 3]]) assumption+
  qed
qed

section \<open>Reading back a printed conversation\<close>

text \<open>The JSON a client sends for a list of (role, content) pairs.\<close>

definition print_message :: "byte list \<times> byte list \<Rightarrow> byte list" where
  "print_message m =
     [0x7b] @ json_escape (ascii ''role'') @ [0x3a] @ json_escape (fst m) @ [0x2c]
     @ json_escape (ascii ''content'') @ [0x3a] @ json_escape (snd m) @ [0x7d]"

fun print_messages :: "(byte list \<times> byte list) list \<Rightarrow> byte list" where
  "print_messages [] = [0x5d]"
| "print_messages [m] = print_message m @ [0x5d]"
| "print_messages (m # ms) = print_message m @ [0x2c] @ print_messages ms"

definition plain_message :: "byte list \<times> byte list \<Rightarrow> chat_msg" where
  "plain_message m = no_msg\<lparr>msg_role := Some (fst m), msg_content := Some (snd m)\<rparr>"

lemma json_members_close: "json_members (Suc n) c item a (c # s) = Some (a, s)"
  by (simp add: json_members.simps)

lemma json_members_item:
  "x \<noteq> c \<Longrightarrow> item a (x # s) = Some (a', s') \<Longrightarrow>
     json_members (Suc n) c item a (x # s) = json_members n c item a' (after_item s')"
  by (simp add: json_members.simps)

lemma after_item_comma: "after_item (0x2c # s) = json_ws s"
  by (simp add: after_item_def json_ws_def isspace_def)

lemma after_item_other: "\<not> isspace x \<Longrightarrow> x \<noteq> 0x2c \<Longrightarrow> after_item (x # s) = x # s"
  by (simp add: after_item_def json_ws_def)

lemma json_field_escape:
  "0 \<notin> set k \<Longrightarrow> json_field f a (json_escape k @ 0x3a # s) = f k a s"
  by (simp add: json_field_def json_string_escape json_ws_def isspace_def)

lemma json_escape_Cons: "json_escape s @ t = 0x22 # concat (map json_escape_char s) @ 0x22 # t"
  by (simp add: json_escape_def)

lemma json_content_escape: "0 \<notin> set s \<Longrightarrow> json_content (json_escape s @ t) = Some (s, t)"
proof -
  assume "0 \<notin> set s"
  moreover have "json_ws (json_escape s @ t) = json_escape s @ t" "take 1 (json_escape s @ t) = [0x22]"
    by (simp_all add: json_escape_Cons json_ws_def isspace_def)
  ultimately show ?thesis by (simp add: json_content_def json_string_escape del: One_nat_def)
qed

lemma message_item_print:
  assumes "0 \<notin> set (fst m)" "0 \<notin> set (snd m)"
  shows "message_item message_field ms (print_message m @ rest) = Some (ms @ [plain_message m], rest)"
proof -
  let ?c = "json_escape (ascii ''content'') @ 0x3a # json_escape (snd m) @ 0x7d # rest"
  let ?s = "json_escape (ascii ''role'') @ 0x3a # json_escape (fst m) @ 0x2c # ?c"
  let ?m1 = "no_msg\<lparr>msg_role := Some (fst m)\<rparr>"
  have role: "json_field message_field no_msg ?s = Some (?m1, 0x2c # ?c)"
    by (subst json_field_escape) (simp_all add: ascii_def message_field_def string_into_def json_string_escape assms)
  have content: "json_field message_field ?m1 ?c = Some (plain_message m, 0x7d # rest)"
    by (subst json_field_escape)
      (simp_all add: ascii_def message_field_def content_into_def json_content_escape assms plain_message_def)
  have "json_members (Suc (Suc (Suc k))) 0x7d (json_field message_field) no_msg ?s = Some (plain_message m, rest)" for k
    using role content
    by (simp add: json_members_item json_members_close after_item_comma after_item_other isspace_def
        json_ws_def json_escape_Cons)
  moreover have "json_object message_field no_msg ?s
      = json_members (Suc (Suc (Suc (length ?s)))) 0x7d (json_field message_field) no_msg (json_ws ?s)"
    by (rule openai_message.object_any_fuel [symmetric]) simp
  moreover have "json_ws ?s = ?s" by (simp add: json_escape_Cons json_ws_def isspace_def)
  ultimately have "json_object message_field no_msg ?s = Some (plain_message m, rest)" by (simp only:)
  then show ?thesis
    by (simp add: message_item_def print_message_def push_message_def chat_msgs_push_def plain_message_def)
qed

lemma print_message_Cons: "\<exists>t. print_message m = 0x7b # t"
  by (simp add: print_message_def)

lemma print_messages_ws: "json_ws (print_messages ms @ rest) = print_messages ms @ rest"
proof (cases ms rule: print_messages.cases)
  case 1
  then show ?thesis by (simp add: json_ws_def isspace_def)
qed (simp_all add: print_message_def json_ws_def isspace_def)

lemma members_print:
  assumes "\<forall>m \<in> set ms. 0 \<notin> set (fst m) \<and> 0 \<notin> set (snd m)"
  shows "json_members (Suc (length ms + k)) 0x5d (message_item message_field) acc (print_messages ms @ rest)
    = Some (acc @ map plain_message ms, rest)"
  using assms
proof (induction ms arbitrary: acc rule: print_messages.induct)
  case 1
  then show ?case by (simp add: json_members_close)
next
  case (2 m)
  obtain t where t: "print_message m = 0x7b # t" using print_message_Cons by blast
  have "message_item message_field acc (0x7b # t @ 0x5d # rest) = Some (acc @ [plain_message m], 0x5d # rest)"
    using message_item_print [of m acc "0x5d # rest"] 2 t by simp
  then show ?case
    by (simp add: t json_members_item json_members_close after_item_other isspace_def)
next
  case (3 m m' ms)
  obtain t where t: "print_message m = 0x7b # t" using print_message_Cons by blast
  let ?r = "print_messages (m' # ms) @ rest"
  have "message_item message_field acc (0x7b # t @ 0x2c # ?r) = Some (acc @ [plain_message m], 0x2c # ?r)"
    using message_item_print [of m acc "0x2c # ?r"] 3 t by simp
  moreover have "json_members (Suc (length (m' # ms) + k)) 0x5d (message_item message_field) (acc @ [plain_message m]) ?r
      = Some ((acc @ [plain_message m]) @ map plain_message (m' # ms), rest)"
    by (rule "3.IH") (use "3.prems" in auto)
  ultimately show ?case
    by (simp add: t json_members_item after_item_comma print_messages_ws)
qed

section \<open>Correctness\<close>

text \<open>Claim C12. A conversation printed as a JSON array of role and content members, with
  \<^verbatim>\<open>json_escape\<close>, is read back by \<^verbatim>\<open>parse_messages\<close> message for message, whatever follows it.\<close>

theorem parse_messages_roundtrip:
  assumes "\<forall>m \<in> set ms. 0 \<notin> set (fst m) \<and> 0 \<notin> set (snd m)"
  shows "parse_messages [] (0x5b # print_messages ms @ rest) = Some (map plain_message ms, rest)"
proof -
  let ?s = "print_messages ms @ rest"
  have "json_array (message_item message_field) [] ?s
      = json_members (Suc (length ms + length ?s)) 0x5d (message_item message_field) [] (json_ws ?s)"
    by (rule openai_messages.array_any_fuel [symmetric]) simp
  with members_print [OF assms, of "length ?s" "[]" rest] print_messages_ws [of ms rest]
  have "json_array (message_item message_field) [] ?s = Some (map plain_message ms, rest)"
    by (simp only:) simp
  then show ?thesis by (simp add: parse_messages_def json_ws_def isspace_def)
qed

lemma parse_messages_roundtrip_witness:
  "parse_messages [] (0x5b # print_messages [(ascii ''user'', ascii ''hi''), (ascii ''assistant'', [0x22, 10])] @ [0x7d])
    = Some (map plain_message [(ascii ''user'', ascii ''hi''), (ascii ''assistant'', [0x22, 10])], [0x7d])"
  by (rule parse_messages_roundtrip) (simp add: ascii_def)

text \<open>Claim C13. What the field loop of any of the three endpoints accepts is well formed: every
  message has a role and a content, every tool call a name and arguments, the stop list is
  consistent, the schema table has one named, non-empty entry per tool, and the
  thinking flags are in a legal combination.\<close>

theorem request_body_wellformed:
  "field \<in> set body_fields \<Longrightarrow> parse_body field (request_init kind) body = Some st \<Longrightarrow> ps_ok st"
  by (rule parse_body_ok)

lemma request_body_wellformed_witness:
  "\<exists>st. parse_body chat_field (request_init REQ_CHAT) (ascii ''{}'') = Some st \<and> ps_ok st"
proof -
  have p: "parse_body chat_field (request_init REQ_CHAT) (ascii ''{}'')
      = Some (parse_state_init (request_init REQ_CHAT))" by code_simp
  show ?thesis using request_body_wellformed [OF _ p] p by (auto simp: body_fields_def)
qed

text \<open>The member loops of the three request bodies end: more iterations than bytes
  never change the result, because every member eats at least one byte.\<close>

theorem request_loops_terminate:
  "length s < n \<Longrightarrow>
     json_members n 0x7d (json_field chat_field) st (json_ws s) = json_object chat_field st s
     \<and> json_members n 0x7d (json_field anthropic_field) st (json_ws s) = json_object anthropic_field st s
     \<and> json_members n 0x7d (json_field completion_field) st (json_ws s) = json_object completion_field st s"
  by (simp only: chat_body.object_any_fuel anthropic_body.object_any_fuel completion_body.object_any_fuel simp_thms)

lemma request_loops_terminate_witness:
  "json_members 50 0x7d (json_field chat_field) (parse_state_init (request_init REQ_CHAT)) (json_ws (ascii ''}''))
    = json_object chat_field (parse_state_init (request_init REQ_CHAT)) (ascii ''}'')"
  using request_loops_terminate [of "ascii ''}''" 50 "parse_state_init (request_init REQ_CHAT)"]
  by (simp add: ascii_def)

text \<open>The thinking mode of an accepted chat body: no thinking exactly when a control turned
  it off, or no control was given and the model is \<^verbatim>\<open>deepseek-chat\<close>; maximal effort needs
  the requested effort and a context of 393216 tokens; \<^verbatim>\<open>high\<close> otherwise.\<close>

theorem request_think_mode_spec:
  assumes "field \<in> set body_fields" "parse_body field (request_init kind) body = Some st"
  shows "request_think_mode st ctx =
    (if (if ps_got_thinking st then \<not> ps_thinking_enabled st else r_model (ps_req st) = ascii ''deepseek-chat'')
     then DS4_THINK_NONE
     else if ps_effort st = DS4_THINK_MAX \<and> ctx \<ge> 393216 then DS4_THINK_MAX
     else DS4_THINK_HIGH)"
proof -
  have "ps_ok st" using assms by (rule parse_body_ok)
  moreover have "ascii ''deepseek-chat'' \<noteq> ascii ''deepseek-reasoner''" by (simp add: ascii_def)
  ultimately show ?thesis
    by (auto simp: request_think_mode_def Let_def think_mode_from_enabled_def ds4_think_mode_for_context_def
        DS4_THINK_MAX_MIN_CONTEXT_def model_alias_disables_thinking_def model_alias_enables_thinking_def ps_ok_def)
qed

lemma request_think_mode_spec_witness:
  "request_think_mode (parse_state_init (request_init REQ_CHAT)) 4096 = DS4_THINK_HIGH"
proof -
  have p: "parse_body chat_field (request_init REQ_CHAT) (ascii ''{}'')
      = Some (parse_state_init (request_init REQ_CHAT))" by code_simp
  show ?thesis
    using request_think_mode_spec [OF _ p, of 4096]
    by (simp add: body_fields_def parse_state_init_def request_init_def ascii_def)
qed

text \<open>The table of tool schemas is a finite map: pushing an order replaces the entry of
  its name in place or adds it, and no other name is affected; the table stays free of
  duplicates.\<close>

theorem tool_schema_orders_push_refines_map:
  "orders_ok os \<Longrightarrow> order_name a = Some n \<Longrightarrow> order_prop a \<noteq> [] \<Longrightarrow>
     order_of (tool_schema_orders_push os a) = (order_of os)(n \<mapsto> a) \<and> orders_ok (tool_schema_orders_push os a)"
  by (auto simp: fun_eq_iff order_of_push orders_ok_push) (simp_all add: orders_ok_def order_of_push)

lemma tool_schema_orders_push_refines_map_witness:
  "order_of (tool_schema_orders_push [] \<lparr>order_name = Some [1], order_prop = [[2]]\<rparr>) [1]
    = Some \<lparr>order_name = Some [1], order_prop = [[2]]\<rparr>"
  using tool_schema_orders_push_refines_map [of "[]" "\<lparr>order_name = Some [1], order_prop = [[2]]\<rparr>" "[1]"]
  by (simp add: orders_ok_def)

end
