(* ===== verification/Ds4_Dsml.thy ===== *)
theory Ds4_Dsml
  imports Ds4_Requests
begin

text \<open>
  DSML, the tool-call markup of the model, in both directions,
  \<^verbatim>\<open>src/server/ds4_server.c\<close>: from \<^verbatim>\<open>append_tools_prompt_text\<close> to
  \<^verbatim>\<open>render_chat_prompt_text\<close> (a conversation becomes the prompt), and from
  \<^verbatim>\<open>find_any_tool_start\<close> to \<^verbatim>\<open>append_tool_calls_json\<close> (a sampled reply becomes a message with
  tool calls).

  The markers are UTF-8 byte strings.  A printer returns the bytes it appends.
  The parsers walk a suffix of the text; the loops carry fuel one more than its
  length.

  The lemmas prove that a rendered tool-call block is parsed back to the same calls, that a
  parse takes its content and its block from the text, and that the prompt of a
  conversation is the template of its turns.
\<close>

section \<open>The tool instructions\<close>

definition tools_prompt_head :: "byte list" where
  "tools_prompt_head =
     ascii ''## Tools'' @ [10, 10] @
     ascii ''You have access to a set of tools to help answer the user question. You can invoke tools by writing a '' @
     [0x22] @ ascii ''<'' @ DS4_DSML @ ascii ''tool_calls>'' @ [0x22] @
     ascii '' block like the following:'' @ [10, 10] @ ascii ''<'' @ DS4_DSML @ ascii ''tool_calls>'' @
     [10] @ ascii ''<'' @ DS4_DSML @ ascii ''invoke name='' @ [0x22] @ ascii ''$TOOL_NAME'' @ [0x22] @
     ascii ''>'' @ [10] @ ascii ''<'' @ DS4_DSML @ ascii ''parameter name='' @ [0x22] @
     ascii ''$PARAMETER_NAME'' @ [0x22] @ ascii '' string='' @ [0x22] @ ascii ''true|false'' @ [0x22] @
     ascii ''>$PARAMETER_VALUE</'' @ DS4_DSML @ ascii ''parameter>'' @ [10] @ ascii ''...'' @ [10] @
     ascii ''</'' @ DS4_DSML @ ascii ''invoke>'' @ [10] @ ascii ''<'' @ DS4_DSML @
     ascii ''invoke name='' @ [0x22] @ ascii ''$TOOL_NAME2'' @ [0x22] @ ascii ''>'' @ [10] @
     ascii ''...'' @ [10] @ ascii ''</'' @ DS4_DSML @ ascii ''invoke>'' @ [10] @ ascii ''</'' @
     DS4_DSML @ ascii ''tool_calls>'' @ [10, 10] @
     ascii ''String parameters should be specified as raw text and set `string='' @ [0x22] @
     ascii ''true'' @ [0x22] @
     ascii ''`. Preserve characters such as `>`, `&`, and `&&` exactly; never replace normal string characters with XML or HTML entity escapes. Only if a string value itself contains the exact closing parameter tag `</'' @
     DS4_DSML @ ascii ''parameter>`, write that tag as `&lt;/'' @ DS4_DSML @
     ascii ''parameter>` inside the value. For all other types (numbers, booleans, arrays, objects), pass the value in JSON format and set `string='' @
     [0x22] @ ascii ''false'' @ [0x22] @ ascii ''`.'' @ [10, 10] @
     ascii ''If thinking_mode is enabled (triggered by <think>), you MUST output your complete reasoning inside <think>...</think> BEFORE any tool calls or final response.'' @
     [10, 10] @ ascii ''Otherwise, output directly after </think> with tool calls or final response.'' @
     [10, 10] @ ascii ''### Available Tool Schemas'' @ [10, 10]"

definition tools_prompt_tail :: "byte list" where
  "tools_prompt_tail =
     [10, 10] @
     ascii ''You MUST strictly follow the above defined tool name and parameter schemas to invoke tool calls. Use the exact parameter names from the schemas.''"

definition append_tools_prompt_text :: "byte list \<Rightarrow> byte list" where
  "append_tools_prompt_text schemas =
     (if schemas = [] then [] else tools_prompt_head @ schemas @ tools_prompt_tail)"

section \<open>Arguments\<close>

record json_arg =
  arg_key :: "byte list"
  arg_value :: "byte list"
  arg_is_string :: bool
  arg_used :: bool

fun json_args_find_unused :: "json_arg list \<Rightarrow> byte list \<Rightarrow> nat option" where
  "json_args_find_unused [] key = None"
| "json_args_find_unused (a # as) key =
     (if \<not> arg_used a \<and> arg_key a = key then Some 0 else map_option Suc (json_args_find_unused as key))"

definition json_arg_member :: "byte list \<Rightarrow> json_arg list \<Rightarrow> byte list \<Rightarrow> (json_arg list \<times> byte list) option" where
  "json_arg_member key args s =
     (let s' = json_ws s;
          push = (\<lambda>v str. args @ [\<lparr>arg_key = key, arg_value = v, arg_is_string = str, arg_used = False\<rparr>])
      in if take 1 s' = [0x22] then string_into (\<lambda>v. push v True) s'
         else raw_into (\<lambda>raw. push (json_minify_raw_value raw) False) s')"

definition json_args_parse :: "byte list \<Rightarrow> json_arg list option" where
  "json_args_parse json =
     (let s = json_ws json
      in if take 1 s \<noteq> [0x7b] then None else map_option fst (json_object json_arg_member [] (tl s)))"

definition append_dsml_arg :: "json_arg \<Rightarrow> byte list" where
  "append_dsml_arg arg =
     DS4_PARAM_START @ ascii '' name='' @ [0x22] @ append_dsml_attr_escaped (arg_key arg)
     @ [0x22] @ ascii '' string='' @ [0x22] @ ascii (if arg_is_string arg then ''true'' else ''false'') @ [0x22, 0x3e]
     @ (if arg_is_string arg then append_dsml_parameter_text (arg_value arg)
        else append_dsml_json_literal (arg_value arg))
     @ DS4_PARAM_END @ [10]"

text \<open>The arguments named by a schema order come first, in its order.\<close>

fun ordered_args :: "byte list list \<Rightarrow> json_arg list \<Rightarrow> byte list \<times> json_arg list" where
  "ordered_args [] args = ([], args)"
| "ordered_args (prop # ps) args =
     (case json_args_find_unused args prop of
        None \<Rightarrow> ordered_args ps args
      | Some idx \<Rightarrow>
          (case ordered_args ps (args[idx := (args ! idx)\<lparr>arg_used := True\<rparr>]) of
             (out, args') \<Rightarrow> (append_dsml_arg (args ! idx) @ out, args')))"

definition append_dsml_arguments_from_json ::
    "byte list \<Rightarrow> tool_schema_order option \<Rightarrow> byte list option" where
  "append_dsml_arguments_from_json json order =
     (case json_args_parse json of
        None \<Rightarrow> None
      | Some args \<Rightarrow>
          (case ordered_args (case order of None \<Rightarrow> [] | Some ord \<Rightarrow> order_prop ord) args of
             (out, args') \<Rightarrow>
               Some (out @ concat (map append_dsml_arg (List.filter (\<lambda>a. \<not> arg_used a) args')))))"

definition append_json_arg_pair :: "json_arg \<Rightarrow> byte list" where
  "append_json_arg_pair arg =
     json_escape (arg_key arg) @ [0x3a] @ (if arg_is_string arg then json_escape (arg_value arg) else arg_value arg)"

fun json_arg_pairs :: "bool \<Rightarrow> json_arg list \<Rightarrow> byte list" where
  "json_arg_pairs wrote [] = []"
| "json_arg_pairs wrote (a # as) =
     (if wrote then [0x2c] else []) @ append_json_arg_pair a @ json_arg_pairs True as"

definition append_json_object_or_empty :: "byte list \<Rightarrow> byte list" where
  "append_json_object_or_empty json =
     (case json_args_parse json of
        None \<Rightarrow> ascii ''{}''
      | Some args \<Rightarrow> [0x7b] @ json_arg_pairs False args @ [0x7d])"

section \<open>Tool calls as DSML\<close>

definition append_dsml_call :: "tool_call \<Rightarrow> byte list" where
  "append_dsml_call tc =
     DS4_INVOKE_START @ ascii '' name='' @ [0x22] @ append_dsml_attr_escaped (or_empty (tc_name tc)) @ [0x22, 0x3e, 10]
     @ (case append_dsml_arguments_from_json (or_empty (tc_arguments tc)) None of
          Some t \<Rightarrow> t
        | None \<Rightarrow>
            DS4_PARAM_START @ ascii '' name='' @ [0x22] @ ascii ''arguments'' @ [0x22]
            @ ascii '' string='' @ [0x22] @ ascii ''true'' @ [0x22, 0x3e]
            @ append_dsml_parameter_text (or_empty (tc_arguments tc)) @ DS4_PARAM_END @ [10])
     @ DS4_INVOKE_END @ [10]"

definition append_dsml_tool_calls_text :: "tool_calls \<Rightarrow> byte list" where
  "append_dsml_tool_calls_text calls =
     (if calls_v calls = [] then []
      else if or_empty (calls_raw_dsml calls) \<noteq> [] then or_empty (calls_raw_dsml calls)
      else [10, 10] @ DS4_TOOL_CALLS_START @ [10] @ concat (map append_dsml_call (calls_v calls)) @ DS4_TOOL_CALLS_END)"

section \<open>The prompt of a conversation\<close>

definition role_is :: "string \<Rightarrow> chat_msg \<Rightarrow> bool" where
  "role_is r m \<longleftrightarrow> msg_role m = Some (ascii r)"

definition role_is_system :: "chat_msg \<Rightarrow> bool" where
  "role_is_system m \<longleftrightarrow> role_is ''system'' m \<or> role_is ''developer'' m"

definition role_is_user_like :: "chat_msg \<Rightarrow> bool" where
  "role_is_user_like m \<longleftrightarrow> role_is ''user'' m \<or> role_is ''tool'' m \<or> role_is ''function'' m"

definition chat_history_uses_tool_context :: "chat_msg list \<Rightarrow> byte list option \<Rightarrow> bool" where
  "chat_history_uses_tool_context msgs schemas \<longleftrightarrow>
     or_empty schemas \<noteq> [] \<or>
     list_ex (\<lambda>m. (role_is ''assistant'' m \<and> calls_v (msg_calls m) \<noteq> []) \<or> role_is ''tool'' m \<or> role_is ''function'' m) msgs"

fun join_systems :: "byte list \<Rightarrow> chat_msg list \<Rightarrow> byte list" where
  "join_systems system [] = system"
| "join_systems system (m # ms) =
     (if \<not> role_is_system m then join_systems system ms
      else join_systems (system @ (if system \<noteq> [] then [10, 10] else []) @ or_empty (msg_content m)) ms)"

fun last_user_index :: "int \<Rightarrow> int \<Rightarrow> chat_msg list \<Rightarrow> int" where
  "last_user_index best i [] = best"
| "last_user_index best i (m # ms) = last_user_index (if role_is_user_like m then i else best) (i + 1) ms"

definition system_text :: "chat_msg list \<Rightarrow> byte list option \<Rightarrow> byte list" where
  "system_text msgs schemas =
     (let system = join_systems [] msgs
      in if or_empty schemas = [] then system
         else system @ (if system \<noteq> [] then [10, 10] else []) @ append_tools_prompt_text (or_empty schemas))"

text \<open>What the loop over the messages keeps: the output and the two pending flags.\<close>

record render_state =
  rs_out :: "byte list"
  rs_pending_assistant :: bool
  rs_pending_tool_result :: bool

definition render_user :: "chat_msg \<Rightarrow> render_state \<Rightarrow> render_state" where
  "render_user m st =
     st\<lparr>rs_out := rs_out st @ tok_user @ or_empty (msg_content m),
        rs_pending_assistant := True, rs_pending_tool_result := False\<rparr>"

definition render_tool :: "chat_msg \<Rightarrow> render_state \<Rightarrow> render_state" where
  "render_tool m st =
     st\<lparr>rs_out := rs_out st @ (if rs_pending_tool_result st then [] else tok_user)
          @ ascii ''<tool_result>'' @ append_dsml_text_escaped (or_empty (msg_content m)) @ ascii ''</tool_result>'',
        rs_pending_assistant := True, rs_pending_tool_result := True\<rparr>"

definition render_assistant :: "bool \<Rightarrow> bool \<Rightarrow> chat_msg \<Rightarrow> render_state \<Rightarrow> render_state" where
  "render_assistant think keep_reasoning m st =
     st\<lparr>rs_out := rs_out st
          @ (if rs_pending_assistant st
             then tok_assistant
                  @ (if think \<and> keep_reasoning
                     then tok_think_start @ or_empty (msg_reasoning m) @ tok_think_end
                     else tok_think_end)
             else [])
          @ or_empty (msg_content m) @ append_dsml_tool_calls_text (msg_calls m) @ tok_eos,
        rs_pending_assistant := False, rs_pending_tool_result := False\<rparr>"

fun render_messages :: "bool \<Rightarrow> bool \<Rightarrow> int \<Rightarrow> int \<Rightarrow> chat_msg list \<Rightarrow> render_state \<Rightarrow> render_state" where
  "render_messages think tool_context last_user i [] st = st"
| "render_messages think tool_context last_user i (m # ms) st =
     render_messages think tool_context last_user (i + 1) ms
       (if role_is_system m then st
        else if role_is ''user'' m then render_user m st
        else if role_is ''tool'' m \<or> role_is ''function'' m then render_tool m st
        else if role_is ''assistant'' m then render_assistant think (tool_context \<or> i > last_user) m st
        else st)"

definition render_chat_prompt_text :: "chat_msg list \<Rightarrow> byte list option \<Rightarrow> think_mode \<Rightarrow> byte list" where
  "render_chat_prompt_text msgs schemas mode =
     (let think = ds4_think_mode_enabled mode;
          tool_context = chat_history_uses_tool_context msgs schemas;
          last_user = last_user_index (-1) 0 msgs;
          out = tok_bos @ (if mode = DS4_THINK_MAX then DS4_REASONING_EFFORT_MAX_PREFIX else [])
                  @ system_text msgs schemas;
          st = render_messages think tool_context last_user 0 msgs
                 \<lparr>rs_out = out, rs_pending_assistant = False, rs_pending_tool_result = False\<rparr>
      in rs_out st @ (if rs_pending_assistant st
                      then tok_assistant @ (if think then tok_think_start else tok_think_end) else []))"

text \<open>The prompt of the completion endpoint.\<close>

definition completion_prompt_text :: "byte list \<Rightarrow> think_mode \<Rightarrow> byte list" where
  "completion_prompt_text prompt mode =
     tok_bos @ (if mode = DS4_THINK_MAX then DS4_REASONING_EFFORT_MAX_PREFIX else [])
     @ ascii ''You are a helpful assistant'' @ tok_user @ prompt @ tok_assistant
     @ (if ds4_think_mode_enabled mode then tok_think_start else tok_think_end)"

section \<open>Tool markers in sampled text\<close>

definition first_of :: "byte list list \<Rightarrow> byte list \<Rightarrow> nat option" where
  "first_of needles s =
     foldl (\<lambda>best n. case strstr s n of
                        None \<Rightarrow> best
                      | Some i \<Rightarrow> (case best of None \<Rightarrow> Some i | Some b \<Rightarrow> if i < b then Some i else best))
       None needles"

definition find_any_tool_start :: "byte list \<Rightarrow> nat option" where
  "find_any_tool_start s = first_of [DS4_TOOL_CALLS_START, DS4_TOOL_CALLS_START_SHORT, ascii ''<tool_calls>''] s"

definition find_any_tool_end :: "byte list \<Rightarrow> nat option" where
  "find_any_tool_end s = first_of [DS4_TOOL_CALLS_END, DS4_TOOL_CALLS_END_SHORT, ascii ''</tool_calls>''] s"

record tool_markers =
  saw_start :: bool
  saw_end :: bool
  orphan_end :: bool

definition observe_tool_markers :: "byte list \<Rightarrow> tool_markers \<Rightarrow> tool_markers" where
  "observe_tool_markers scan st =
     (let had_start = saw_start st;
          start = find_any_tool_start scan;
          st1 = (if start \<noteq> None then st\<lparr>saw_start := True\<rparr> else st);
          end_scan = (if had_start then Some scan else map_option (\<lambda>i. drop i scan) start);
          end_pos = (case end_scan of None \<Rightarrow> None | Some t \<Rightarrow> find_any_tool_end t)
      in if end_pos \<noteq> None then st1\<lparr>saw_end := True\<rparr>
         else if \<not> had_start \<and> start = None \<and> find_any_tool_end scan \<noteq> None then st1\<lparr>orphan_end := True\<rparr>
         else st1)"

text \<open>\<^verbatim>\<open>start\<close> is 0 at its only use, so the prefix is a list.\<close>

definition trim_tool_separator_ws :: "byte list \<Rightarrow> byte list" where
  "trim_tool_separator_ws s = rev (dropWhile isspace (rev s))"

definition skip_ascii_ws :: "byte list \<Rightarrow> byte list" where
  "skip_ascii_ws s = dropWhile isspace s"

section \<open>Parameters of a sampled call\<close>

definition tool_call_json_args_add :: "byte list \<Rightarrow> byte list \<Rightarrow> byte list \<Rightarrow> byte list \<Rightarrow> byte list" where
  "tool_call_json_args_add args name value is_string =
     args @ (if args \<noteq> [] then ascii '', '' else []) @ json_escape name @ ascii '': ''
     @ (if is_string = ascii ''true'' then json_escape value
        else let m = json_minify_raw_value value in if m \<noteq> [] then m else ascii ''null'')"

text \<open>The markers of the three accepted spellings.\<close>

record dsml_style =
  sty_calls_start :: "byte list"
  sty_calls_end :: "byte list"
  sty_invoke_start :: "byte list"
  sty_invoke_end :: "byte list"
  sty_param_start :: "byte list"
  sty_param_end :: "byte list"

definition style_dsml :: dsml_style where
  "style_dsml = \<lparr>sty_calls_start = DS4_TOOL_CALLS_START, sty_calls_end = DS4_TOOL_CALLS_END,
     sty_invoke_start = DS4_INVOKE_START, sty_invoke_end = DS4_INVOKE_END,
     sty_param_start = DS4_PARAM_START, sty_param_end = DS4_PARAM_END\<rparr>"

definition style_xml :: dsml_style where
  "style_xml = \<lparr>sty_calls_start = ascii ''<tool_calls>'', sty_calls_end = ascii ''</tool_calls>'',
     sty_invoke_start = ascii ''<invoke'', sty_invoke_end = ascii ''</invoke>'',
     sty_param_start = ascii ''<parameter'', sty_param_end = ascii ''</parameter>''\<rparr>"

definition style_short :: dsml_style where
  "style_short = \<lparr>sty_calls_start = DS4_TOOL_CALLS_START_SHORT, sty_calls_end = DS4_TOOL_CALLS_END_SHORT,
     sty_invoke_start = DS4_INVOKE_START_SHORT, sty_invoke_end = DS4_INVOKE_END_SHORT,
     sty_param_start = DS4_PARAM_START_SHORT, sty_param_end = DS4_PARAM_END_SHORT\<rparr>"

text \<open>The value of a leaf parameter after its tag, added to the arguments.\<close>

definition param_value :: "byte list \<Rightarrow> byte list \<Rightarrow> byte list option \<Rightarrow> byte list \<Rightarrow> byte list
    \<Rightarrow> (byte list \<times> byte list) option" where
  "param_value param_end name is_string value_start args =
     (case strstr value_start param_end of
        None \<Rightarrow> None
      | Some n \<Rightarrow>
          let raw = take n value_start;
              ty = (case is_string of Some t \<Rightarrow> t | None \<Rightarrow> ascii ''true'');
              v = (if ty = ascii ''true'' then dsml_unescape_text raw else raw)
          in Some (tool_call_json_args_add args name v ty, drop (n + length param_end) value_start))"

definition dsml_parse_leaf_param_json ::
    "dsml_style \<Rightarrow> byte list \<Rightarrow> byte list \<Rightarrow> (byte list \<times> byte list) option" where
  "dsml_parse_leaf_param_json sty out p =
     (if \<not> starts_with (sty_param_start sty) p then None
      else case strchr p 0x3e of
        None \<Rightarrow> None
      | Some te \<Rightarrow>
          let tag = take (te + 1) p
          in case dsml_attr tag (ascii ''name'') of
               None \<Rightarrow> None
             | Some name \<Rightarrow>
                 param_value (sty_param_end sty) name (dsml_attr tag (ascii ''string'')) (drop (te + 1) p) out)"

fun nested_loop :: "nat \<Rightarrow> dsml_style \<Rightarrow> bool \<Rightarrow> byte list \<Rightarrow> byte list \<Rightarrow> (bool \<times> byte list \<times> byte list) option" where
  "nested_loop 0 sty any members p = None"
| "nested_loop (Suc n) sty any members p =
     (let p' = skip_ascii_ws p
      in if \<not> starts_with (sty_param_start sty) p' then Some (any, members, p')
         else case dsml_parse_leaf_param_json sty members p' of
           None \<Rightarrow> None
         | Some (members', r) \<Rightarrow> nested_loop n sty True members' r)"

definition dsml_parse_nested_params_object :: "dsml_style \<Rightarrow> byte list \<Rightarrow> (byte list \<times> byte list) option" where
  "dsml_parse_nested_params_object sty p =
     (case nested_loop (Suc (length p)) sty False [] p of
        None \<Rightarrow> None
      | Some (any, members, r) \<Rightarrow> if \<not> any then None else Some ([0x7b] @ members @ [0x7d], r))"

text \<open>One parameter of an invocation: nested parameters, or a leaf.\<close>

definition invoke_param :: "dsml_style \<Rightarrow> byte list \<Rightarrow> byte list \<Rightarrow> (byte list \<times> byte list) option" where
  "invoke_param sty args p =
     (if \<not> starts_with (sty_param_start sty) p then None
      else case strchr p 0x3e of
        None \<Rightarrow> None
      | Some te \<Rightarrow>
          let tag = take (te + 1) p; value_start = drop (te + 1) p;
              is_string = dsml_attr tag (ascii ''string'')
          in case dsml_attr tag (ascii ''name'') of
               None \<Rightarrow> None
             | Some name \<Rightarrow>
                 if is_string = None \<and> starts_with (sty_param_start sty) (skip_ascii_ws value_start) then
                   (case dsml_parse_nested_params_object sty value_start of
                      None \<Rightarrow> None
                    | Some (obj, np) \<Rightarrow>
                        let r = skip_ascii_ws np
                        in Some (tool_call_json_args_add args name obj (ascii ''false''),
                             if starts_with (sty_param_end sty) r then drop (length (sty_param_end sty)) r else r))
                 else param_value (sty_param_end sty) name is_string value_start args)"

fun params_loop :: "nat \<Rightarrow> dsml_style \<Rightarrow> byte list \<Rightarrow> byte list \<Rightarrow> (byte list \<times> byte list) option" where
  "params_loop 0 sty args p = None"
| "params_loop (Suc n) sty args p =
     (let p' = skip_ascii_ws p
      in if starts_with (sty_invoke_end sty) p' then Some (args, drop (length (sty_invoke_end sty)) p')
         else case invoke_param sty args p' of
           None \<Rightarrow> None
         | Some (args', r) \<Rightarrow> params_loop n sty args' r)"

section \<open>The sampled message\<close>

text \<open>The content and the reasoning of a text, cut at \<^verbatim>\<open>n\<close> by the caller.\<close>

definition split_reasoning_content :: "byte list \<Rightarrow> byte list \<times> byte list option" where
  "split_reasoning_content s =
     (let body = (if starts_with tok_think_start s then drop 7 s else s)
      in case strstr body tok_think_end of
           Some i \<Rightarrow> (drop (i + 8) body, Some (take i body))
         | None \<Rightarrow> (s, None))"

definition find_tool_block :: "byte list \<Rightarrow> (nat \<times> dsml_style) option" where
  "find_tool_block tx =
     (case strstr tx ([10, 10] @ DS4_TOOL_CALLS_START) of Some i \<Rightarrow> Some (i, style_dsml) | None \<Rightarrow>
     (case strstr tx DS4_TOOL_CALLS_START of Some i \<Rightarrow> Some (i, style_dsml) | None \<Rightarrow>
     (case strstr tx ([10, 10] @ DS4_TOOL_CALLS_START_SHORT) of Some i \<Rightarrow> Some (i, style_short) | None \<Rightarrow>
     (case strstr tx DS4_TOOL_CALLS_START_SHORT of Some i \<Rightarrow> Some (i, style_short) | None \<Rightarrow>
     (case strstr tx ([10, 10] @ ascii ''<tool_calls>'') of Some i \<Rightarrow> Some (i, style_xml) | None \<Rightarrow>
     (case strstr tx (ascii ''<tool_calls>'') of Some i \<Rightarrow> Some (i, style_xml) | None \<Rightarrow> None))))))"

text \<open>The invocations of a block, up to the closing marker; \<open>p\<close> is what is left then.\<close>

fun invokes_loop :: "nat \<Rightarrow> dsml_style \<Rightarrow> tool_calls \<Rightarrow> byte list \<Rightarrow> (tool_calls \<times> byte list) option" where
  "invokes_loop 0 sty calls p = None"
| "invokes_loop (Suc n) sty calls p =
     (let p' = skip_ascii_ws p
      in if starts_with (sty_calls_end sty) p' then Some (calls, drop (length (sty_calls_end sty)) p')
         else if \<not> starts_with (sty_invoke_start sty) p' then None
         else case strchr p' 0x3e of
           None \<Rightarrow> None
         | Some te \<Rightarrow>
             (case dsml_attr (take (te + 1) p') (ascii ''name'') of
                None \<Rightarrow> None
              | Some name \<Rightarrow>
                  (case params_loop (Suc (length p')) sty [] (drop (te + 1) p') of
                     None \<Rightarrow> None
                   | Some (args, r) \<Rightarrow>
                       invokes_loop n sty
                         (tool_calls_push calls \<lparr>tc_id = None, tc_name = Some name,
                            tc_arguments = Some ([0x7b] @ args @ [0x7d])\<rparr>) r)))"

record generated_message =
  gm_content :: "byte list"
  gm_reasoning :: "byte list option"
  gm_calls :: tool_calls

definition parse_generated_message :: "tool_calls \<Rightarrow> byte list \<Rightarrow> generated_message option" where
  "parse_generated_message calls tx =
     (case find_tool_block tx of
        None \<Rightarrow>
          (case split_reasoning_content tx of
             (c, r) \<Rightarrow> Some \<lparr>gm_content = c, gm_reasoning = r, gm_calls = calls\<rparr>)
      | Some (start, sty) \<Rightarrow>
          let block = drop start tx
          in case strstr block (sty_calls_start sty) of
               None \<Rightarrow> None
             | Some i \<Rightarrow>
                 (case invokes_loop (Suc (length block)) sty calls (drop (i + length (sty_calls_start sty)) block) of
                    None \<Rightarrow> None
                  | Some (calls', r) \<Rightarrow>
                      (case split_reasoning_content (trim_tool_separator_ws (take start tx)) of
                         (c, re) \<Rightarrow>
                           Some \<lparr>gm_content = c, gm_reasoning = re,
                             gm_calls = calls'\<lparr>calls_raw_dsml := Some (take (length block - length r) block)\<rparr>\<rparr>)))"

definition tool_parse_failure_recovery_finish :: "byte list \<Rightarrow> byte list" where
  "tool_parse_failure_recovery_finish finish = (if finish = ascii ''length'' then ascii ''length'' else ascii ''stop'')"

record response_parse =
  rp_ok :: bool
  rp_message :: generated_message
  rp_finish :: "byte list option"
  rp_error :: "byte list option"
  rp_recovered :: bool

definition parse_generated_message_for_response ::
    "byte list \<Rightarrow> bool \<Rightarrow> bool \<Rightarrow> byte list option \<Rightarrow> response_parse" where
  "parse_generated_message_for_response tx has_tools saw_tool_start finish =
     (case parse_generated_message no_calls tx of
        Some m \<Rightarrow> \<lparr>rp_ok = True, rp_message = m, rp_finish = finish, rp_error = None, rp_recovered = False\<rparr>
      | None \<Rightarrow>
          let raw = \<lparr>gm_content = tx, gm_reasoning = None, gm_calls = no_calls\<rparr>;
              f = (case finish of Some f \<Rightarrow> f | None \<Rightarrow> ascii ''stop'')
          in if has_tools \<and> saw_tool_start \<and> f \<noteq> ascii ''error''
             then \<lparr>rp_ok = False, rp_message = raw,
                   rp_finish = Some (tool_parse_failure_recovery_finish f),
                   rp_error = Some (ascii ''invalid tool call''), rp_recovered = True\<rparr>
             else \<lparr>rp_ok = False, rp_message = raw, rp_finish = finish, rp_error = None, rp_recovered = False\<rparr>)"

section \<open>Tool calls as JSON\<close>

definition append_json_object_string :: "byte list \<Rightarrow> byte list" where
  "append_json_object_string json = json_escape (append_json_object_or_empty json)"

text \<open>\<^verbatim>\<open>snprintf\<close> into \<^verbatim>\<open>char idbuf[128]\<close>.\<close>

definition default_call_id :: "byte list \<Rightarrow> nat \<Rightarrow> byte list" where
  "default_call_id id_prefix i = take 127 (id_prefix @ ascii ''_tool_'' @ ascii (dec_string i))"

definition call_json :: "byte list \<Rightarrow> byte list \<Rightarrow> nat \<Rightarrow> tool_call \<Rightarrow> byte list" where
  "call_json head id_prefix i tc =
     head
     @ json_escape (case tc_id tc of Some t \<Rightarrow> t | None \<Rightarrow> default_call_id id_prefix i)
     @ [0x2c, 0x22] @ ascii ''type'' @ [0x22, 0x3a, 0x22] @ ascii ''function'' @ [0x22, 0x2c, 0x22]
     @ ascii ''function'' @ [0x22, 0x3a, 0x7b, 0x22] @ ascii ''name'' @ [0x22, 0x3a]
     @ json_escape (or_empty (tc_name tc))
     @ [0x2c, 0x22] @ ascii ''arguments'' @ [0x22, 0x3a]
     @ append_json_object_string (or_empty (tc_arguments tc))
     @ [0x7d, 0x7d]"

fun calls_json :: "(nat \<Rightarrow> byte list) \<Rightarrow> byte list \<Rightarrow> nat \<Rightarrow> tool_call list \<Rightarrow> byte list" where
  "calls_json head id_prefix i [] = []"
| "calls_json head id_prefix i (tc # tcs) =
     (if i > 0 then [0x2c] else []) @ call_json (head i) id_prefix i tc @ calls_json head id_prefix (Suc i) tcs"

definition append_tool_calls_json :: "tool_calls \<Rightarrow> byte list \<Rightarrow> byte list" where
  "append_tool_calls_json calls id_prefix =
     [0x5b] @ calls_json (\<lambda>i. [0x7b, 0x22] @ ascii ''id'' @ [0x22, 0x3a]) id_prefix 0 (calls_v calls) @ [0x5d]"

definition append_tool_call_deltas_json :: "tool_calls \<Rightarrow> byte list \<Rightarrow> byte list" where
  "append_tool_call_deltas_json calls id_prefix =
     [0x5b] @ calls_json (\<lambda>i. [0x7b, 0x22] @ ascii ''index'' @ [0x22, 0x3a] @ ascii (dec_string i)
                            @ [0x2c, 0x22] @ ascii ''id'' @ [0x22, 0x3a]) id_prefix 0 (calls_v calls) @ [0x5d]"

section \<open>The prompt grows with the conversation\<close>

lemma join_systems_append:
  "\<forall>m \<in> set ms'. \<not> role_is_system m \<Longrightarrow> join_systems s (ms @ ms') = join_systems s ms"
proof (induction ms arbitrary: s)
  case Nil
  then show ?case by (induction ms' arbitrary: s) auto
qed auto

lemma render_messages_append:
  "render_messages think True u i (ms @ ms') st =
     render_messages think True u' (i + int (length ms)) ms' (render_messages think True u'' i ms st)"
proof (induction ms arbitrary: i st)
  case Nil
  show ?case
  proof (simp, induction ms' arbitrary: i st)
    case (Cons m ms')
    then show ?case by simp
  qed simp
next
  case (Cons m ms)
  then show ?case by (simp add: ac_simps)
qed

lemma render_messages_prefix: "prefix (rs_out st) (rs_out (render_messages think tc u i ms st))"
proof (induction ms arbitrary: i st)
  case (Cons m ms)
  let ?st = "if role_is_system m then st
        else if role_is ''user'' m then render_user m st
        else if role_is ''tool'' m \<or> role_is ''function'' m then render_tool m st
        else if role_is ''assistant'' m then render_assistant think (tc \<or> i > u) m st
        else st"
  have "prefix (rs_out st) (rs_out ?st)"
    by (simp add: render_user_def render_tool_def render_assistant_def)
  also have "prefix (rs_out ?st) (rs_out (render_messages think tc u i ms ?st))" for i by (rule Cons.IH)
  finally show ?case by simp
qed simp

lemma role_exclusive: "role_is a m \<Longrightarrow> a \<noteq> b \<Longrightarrow> \<not> role_is b m"
  by (auto simp: role_is_def ascii_inj)

text \<open>
  Appended turns continue the cached prompt: no new system text, tools in use (so
  that old reasoning is kept), and either the history ends in an assistant turn or the
  first new turn is the assistant's reply to it.
\<close>

definition continues :: "chat_msg list \<Rightarrow> byte list option \<Rightarrow> chat_msg list \<Rightarrow> bool" where
  "continues ms schemas ms' \<longleftrightarrow>
     chat_history_uses_tool_context ms schemas \<and> (\<forall>m \<in> set ms'. \<not> role_is_system m)
     \<and> (ms' = [] \<or> role_is ''assistant'' (hd ms')
        \<or> ms \<noteq> [] \<and> role_is ''assistant'' (List.last ms))"

lemma not_pending_after_assistant:
  assumes "role_is ''assistant'' m"
  shows "\<not> rs_pending_assistant (render_messages think tc u i (ms @ [m]) st)"
proof -
  have "render_messages think tc u i (ms @ [m]) st = render_assistant think (tc \<or> i + int (length ms) > u) m
      (render_messages think tc u i ms st)"
    using assms role_exclusive [OF assms]
    by (induction ms arbitrary: i st) (simp_all add: role_is_system_def ac_simps)
  then show ?thesis by (simp add: render_assistant_def)
qed

lemma render_chat_prompt_continues:
  assumes c: "continues ms schemas ms'"
  shows "prefix (render_chat_prompt_text ms schemas mode) (render_chat_prompt_text (ms @ ms') schemas mode)"
proof -
  let ?think = "ds4_think_mode_enabled mode"
  let ?tail = "\<lambda>st. if rs_pending_assistant st then tok_assistant @ (if ?think then tok_think_start else tok_think_end) else []"
  let ?out = "tok_bos @ (if mode = DS4_THINK_MAX then DS4_REASONING_EFFORT_MAX_PREFIX else []) @ system_text ms schemas"
  let ?st0 = "\<lparr>rs_out = ?out, rs_pending_assistant = False, rs_pending_tool_result = False\<rparr>"
  let ?st1 = "render_messages ?think True 0 0 ms ?st0"
  let ?st2 = "render_messages ?think True 0 (int (length ms)) ms' ?st1"
  have tc: "chat_history_uses_tool_context ms schemas" "chat_history_uses_tool_context (ms @ ms') schemas"
    using c by (auto simp: continues_def chat_history_uses_tool_context_def)
  have sys: "system_text (ms @ ms') schemas = system_text ms schemas"
    using c by (simp add: continues_def system_text_def join_systems_append)
  have any_user: "render_messages th True u i l st = render_messages th True v i l st" for th u v i l st
    by (induction l arbitrary: i st) simp_all
  have R1: "render_chat_prompt_text ms schemas mode = rs_out ?st1 @ ?tail ?st1"
    unfolding render_chat_prompt_text_def Let_def
    by (simp only: tc(1) any_user [of ?think "last_user_index (- 1) 0 ms" 0 ms _ 0])
  have R2: "render_chat_prompt_text (ms @ ms') schemas mode = rs_out ?st2 @ ?tail ?st2"
    unfolding render_chat_prompt_text_def Let_def
    by (simp only: tc(2) sys render_messages_append [where u' = 0 and u'' = 0] add_0)
  have "prefix (rs_out ?st1 @ ?tail ?st1) (rs_out ?st2 @ ?tail ?st2)"
  proof (cases "rs_pending_assistant ?st1 \<and> ms' \<noteq> []")
    case False
    show ?thesis
    proof (cases "ms' = []")
      case True
      then show ?thesis by simp
    next
      case ne: False
      with False have t: "?tail ?st1 = []" by simp
      have "prefix (rs_out ?st1) (rs_out ?st2 @ ?tail ?st2)"
        by (rule prefix_prefix) (rule render_messages_prefix)
      then show ?thesis unfolding t append_Nil2 .
    qed
  next
    case True
    have "\<not> (ms \<noteq> [] \<and> role_is ''assistant'' (List.last ms))"
      using True not_pending_after_assistant [of "List.last ms" ?think True 0 0 "butlast ms" ?st0] by auto
    with c True obtain m ms'' where m: "ms' = m # ms''" "role_is ''assistant'' m"
      by (cases ms') (auto simp: continues_def)
    have "?st2 = render_messages ?think True 0 (int (length ms) + 1) ms'' (render_assistant ?think True m ?st1)"
      using m role_exclusive [OF m(2)] by (simp add: role_is_system_def)
    then have "prefix (rs_out (render_assistant ?think True m ?st1)) (rs_out ?st2)"
      by (simp add: render_messages_prefix)
    moreover have "prefix (rs_out ?st1 @ ?tail ?st1) (rs_out (render_assistant ?think True m ?st1))"
      using True by (simp add: render_assistant_def)
    ultimately have "prefix (rs_out ?st1 @ ?tail ?st1) (rs_out ?st2)" by (rule prefix_order.trans [rotated])
    then show ?thesis by (rule prefix_prefix)
  qed
  then show ?thesis by (simp only: R1 R2)
qed

section \<open>The block is a piece of the sampled text\<close>

lemma skip_ws_suffix: "suffix (skip_ascii_ws s) s"
  by (simp add: skip_ascii_ws_def suffix_dropWhile)

lemma param_value_suffix: "param_value pe name st vs args = Some (a, r) \<Longrightarrow> suffix r vs"
  by (auto simp: param_value_def Let_def suffix_drop split: option.splits)

lemma leaf_suffix: "dsml_parse_leaf_param_json sty out p = Some (a, r) \<Longrightarrow> suffix r p"
  using suffix_order.trans [OF param_value_suffix suffix_drop]
  by (auto simp: dsml_parse_leaf_param_json_def Let_def split: option.splits if_splits)

lemma nested_suffix: "nested_loop n sty any ms p = Some (any', ms', r) \<Longrightarrow> suffix r p"
proof (induction n arbitrary: any ms p)
  case (Suc n)
  show ?case
  proof (cases "starts_with (sty_param_start sty) (skip_ascii_ws p)")
    case False
    with Suc.prems show ?thesis using skip_ws_suffix [of p] by simp
  next
    case True
    with Suc.prems obtain m1 r1 where 1: "dsml_parse_leaf_param_json sty ms (skip_ascii_ws p) = Some (m1, r1)"
      and 2: "nested_loop n sty True m1 r1 = Some (any', ms', r)"
      by (auto simp: Let_def split: option.splits)
    from Suc.IH [OF 2] leaf_suffix [OF 1] skip_ws_suffix [of p] show ?thesis
      by (meson suffix_order.trans)
  qed
qed simp

lemma nested_object_suffix: "dsml_parse_nested_params_object sty p = Some (a, r) \<Longrightarrow> suffix r p"
  by (auto simp del: nested_loop.simps simp: dsml_parse_nested_params_object_def split: option.splits if_splits dest: nested_suffix)

lemma invoke_param_suffix: "invoke_param sty args p = Some (a, r) \<Longrightarrow> suffix r p"
proof -
  assume a: "invoke_param sty args p = Some (a, r)"
  then obtain te name where te: "strchr p 0x3e = Some te"
    and name: "dsml_attr (take (te + 1) p) (ascii ''name'') = Some name"
    by (auto simp: invoke_param_def Let_def split: option.splits if_splits)
  let ?vs = "drop (te + 1) p"
  have vs: "suffix ?vs p" by (rule suffix_drop)
  show ?thesis
  proof (cases "dsml_attr (take (te + 1) p) (ascii ''string'') = None
      \<and> starts_with (sty_param_start sty) (skip_ascii_ws ?vs)")
    case True
    with a te name obtain obj np where n: "dsml_parse_nested_params_object sty ?vs = Some (obj, np)"
      and r: "r = (if starts_with (sty_param_end sty) (skip_ascii_ws np)
            then drop (length (sty_param_end sty)) (skip_ascii_ws np) else skip_ascii_ws np)"
      by (auto simp: invoke_param_def Let_def split: option.splits if_split_asm)
    have "suffix r (skip_ascii_ws np)" by (simp add: r suffix_drop)
    with skip_ws_suffix [of np] nested_object_suffix [OF n] vs show ?thesis by (meson suffix_order.trans)
  next
    case False
    with a te name have "param_value (sty_param_end sty) name (dsml_attr (take (te + 1) p) (ascii ''string'')) ?vs args
        = Some (a, r)"
      by (auto simp: invoke_param_def Let_def split: if_split_asm)
    from suffix_order.trans [OF param_value_suffix [OF this] vs] show ?thesis .
  qed
qed

lemma params_suffix: "params_loop n sty args p = Some (a, r) \<Longrightarrow> suffix r p"
proof (induction n arbitrary: args p)
  case (Suc n)
  show ?case
  proof (cases "starts_with (sty_invoke_end sty) (skip_ascii_ws p)")
    case True
    with Suc.prems have "suffix r (skip_ascii_ws p)" by (auto simp: Let_def suffix_drop)
    with skip_ws_suffix [of p] show ?thesis by (meson suffix_order.trans)
  next
    case False
    with Suc.prems obtain a1 r1 where 1: "invoke_param sty args (skip_ascii_ws p) = Some (a1, r1)"
      and 2: "params_loop n sty a1 r1 = Some (a, r)"
      by (auto simp: Let_def split: option.splits)
    from Suc.IH [OF 2] invoke_param_suffix [OF 1] skip_ws_suffix [of p] show ?thesis
      by (meson suffix_order.trans)
  qed
qed simp

lemma invokes_block:
  "invokes_loop n sty calls p = Some (calls', r) \<Longrightarrow> \<exists>u. p = u @ sty_calls_end sty @ r"
proof (induction n arbitrary: calls p)
  case (Suc n)
  let ?p = "skip_ascii_ws p"
  have sk: "\<exists>u. p = u @ ?p" using skip_ws_suffix [of p] by (auto simp: suffix_def)
  show ?case
  proof (cases "starts_with (sty_calls_end sty) ?p")
    case True
    then have "?p = sty_calls_end sty @ drop (length (sty_calls_end sty)) ?p"
      by (metis append_take_drop_id starts_with_def)
    moreover have "r = drop (length (sty_calls_end sty)) ?p" using True Suc.prems by (simp add: Let_def)
    ultimately show ?thesis using sk by metis
  next
    case False
    with Suc.prems obtain te args r1 calls1 where 1: "params_loop (Suc (length ?p)) sty [] (drop (te + 1) ?p) = Some (args, r1)"
      and 2: "invokes_loop n sty calls1 r1 = Some (calls', r)"
      by (auto simp: Let_def simp del: params_loop.simps split: option.splits if_split_asm)
    have "suffix r1 p"
      using params_suffix [OF 1] suffix_drop [of "te + 1" ?p] skip_ws_suffix [of p] by (meson suffix_order.trans)
    then obtain w where "p = w @ r1" by (auto simp: suffix_def)
    with Suc.IH [OF 2] show ?thesis by (metis append_assoc)
  qed
qed simp

section \<open>A rendered block is parsed back\<close>

lemma starts_with_Nil [simp]: "starts_with [] s"
  by (simp add: starts_with_def)

lemma starts_with_refl [simp]: "starts_with p (p @ s)"
  by (simp add: starts_with_def)

lemma strchr_append: "c \<notin> set u \<Longrightarrow> strchr (u @ c # v) c = Some (length u)"
proof -
  assume "c \<notin> set u"
  then have "takeWhile (\<lambda>b. b \<noteq> c) (u @ c # v) = u" by (induction u) auto
  then show ?thesis by (simp add: strchr_def)
qed

lemma strstr_skip_hd: "n \<noteq> [] \<Longrightarrow> hd n \<notin> set u \<Longrightarrow> strstr (u @ s) n = map_option ((+) (length u)) (strstr s n)"
proof (induction u)
  case Nil
  then show ?case by (cases "strstr s n") simp_all
next
  case (Cons c u)
  then have "\<not> starts_with n (c # u @ s)" by (cases n) (auto simp: starts_with_Cons)
  with Cons show ?case by (simp add: strstr_Cons option.map_comp comp_def)
qed

lemma strstr_here: "n \<noteq> [] \<Longrightarrow> strstr (n @ s) n = Some 0"
  by (cases n) (simp_all add: strstr_Cons starts_with_def)

lemma attr_safe: "c \<in> {0x22, 0x3c, 0x3e} \<Longrightarrow> c \<notin> set (append_dsml_attr_escaped s)"
proof -
  assume c: "c \<in> {0x22, 0x3c, 0x3e}"
  have "c \<notin> set (dsml_attr_char d)" for d
    using c by (simp add: dsml_attr_char_def ascii_def) (elim disjE; simp)
  then show ?thesis by (simp add: append_dsml_attr_escaped_def)
qed

lemma attr_suffix: "0x3b \<notin> set t \<Longrightarrow> suffix t (append_dsml_attr_escaped k) \<Longrightarrow> suffix t k"
proof (induction k arbitrary: t rule: rev_induct)
  case Nil
  then show ?case by (simp add: append_dsml_attr_escaped_def)
next
  case (snoc c k)
  show ?case
  proof (cases t rule: rev_cases)
    case (snoc t' x)
    from snoc.prems(2) have sfx: "suffix (t' @ [x]) (append_dsml_attr_escaped k @ dsml_attr_char c)"
      by (simp add: append_dsml_attr_escaped_def snoc)
    show ?thesis
    proof (cases "dsml_attr_char c = [c]")
      case True
      with sfx have "x = c" "suffix t' (append_dsml_attr_escaped k)" by simp_all
      moreover from this snoc.prems(1) snoc.IH [of t'] have "suffix t' k" by (simp add: snoc)
      ultimately show ?thesis by (simp add: snoc)
    next
      case False
      then obtain w where "dsml_attr_char c = w @ [0x3b]"
        by (auto simp: dsml_attr_char_def ascii_def split: if_splits)
      with sfx have "x = 0x3b" by (metis append_assoc snoc_suffix_snoc)
      with snoc.prems(1) snoc show ?thesis by simp
    qed
  qed simp
qed

lemma starts_with_until:
  assumes "starts_with (p @ [x]) (u @ x # t)" "x \<notin> set u" "x \<notin> set p"
  shows "u = p"
proof -
  have "u @ x # t = p @ [x] @ drop (Suc (length p)) (u @ x # t)"
    using assms(1) by (metis append_assoc append_take_drop_id length_append_singleton starts_with_def)
  moreover have "takeWhile (\<lambda>b. b \<noteq> x) (u @ x # t) = u" using assms(2) by (induction u) auto
  moreover have "takeWhile (\<lambda>b. b \<noteq> x) (p @ [x] @ s) = p" for s using assms(3) by (induction p) auto
  ultimately show ?thesis by metis
qed

lemma strstr_attr_gap:
  assumes "0x22 \<notin> set u" "\<not> suffix p u" "p = x # p'" "0x22 \<notin> set p" "x \<noteq> 0x20"
  shows "strstr (u @ 0x22 # 0x20 # (p @ [0x22]) @ s) (p @ [0x22]) = Some (length u + 2)"
  using assms(1,2)
proof (induction u)
  case Nil
  have "strstr ((p @ [0x22]) @ s) (p @ [0x22]) = Some 0" by (rule strstr_here) simp
  with assms(3-5) show ?case by (simp add: strstr_Cons starts_with_Cons)
next
  case (Cons c u)
  have "\<not> starts_with (p @ [0x22]) ((c # u) @ 0x22 # 0x20 # (p @ [0x22]) @ s)"
    using starts_with_until [of p "0x22" "c # u"] Cons.prems assms(4) by auto
  moreover have "\<not> suffix p u" using Cons.prems(2) by (auto simp: suffix_Cons)
  ultimately show ?case using Cons by (simp add: strstr_Cons)
qed

text \<open>
  The arguments a block carries unchanged.  A key must not end in \<^verbatim>\<open>string=\<close>, where the
  decoder would find its attribute; a string value must not contain one of the decoder's
  entities (\<^verbatim>\<open>&lt;\<close> and the like), which the printer does not escape; and the text of any other value
  must not contain the closing parameter tag, which is printed with a JSON escape.
\<close>

definition arg_ok :: "json_arg \<Rightarrow> bool" where
  "arg_ok a \<longleftrightarrow> \<not> suffix (ascii ''string='') (arg_key a)
     \<and> (if arg_is_string a then entity_free (arg_value a)
        else \<forall>q. \<not> occurs_at DS4_PARAM_END (arg_value a) q)"

lemma json_literal_id: "\<forall>q. \<not> occurs_at DS4_PARAM_END v q \<Longrightarrow> append_dsml_json_literal v = v"
proof (induction v)
  case (Cons c v)
  have "\<not> occurs_at DS4_PARAM_END v q" for q
    using Cons.prems [rule_format, of "Suc q"] by (simp add: occurs_at_def)
  moreover have "\<not> starts_with DS4_PARAM_END (c # v)"
    using Cons.prems [rule_format, of 0] by (simp add: occurs_at_def starts_with_def)
  ultimately show ?case using Cons.IH by simp
qed simp

definition arg_text :: "json_arg \<Rightarrow> byte list" where
  "arg_text a = (if arg_is_string a then append_dsml_parameter_text (arg_value a)
                 else append_dsml_json_literal (arg_value a))"

definition arg_kind :: "json_arg \<Rightarrow> byte list" where
  "arg_kind a = ascii (if arg_is_string a then ''true'' else ''false'')"

definition canon_pair :: "byte list \<Rightarrow> json_arg \<Rightarrow> byte list" where
  "canon_pair args a = tool_call_json_args_add args (arg_key a) (arg_value a) (arg_kind a)"

lemma param_value_arg:
  assumes "arg_ok a"
  shows "param_value DS4_PARAM_END (arg_key a) (Some (arg_kind a)) (arg_text a @ DS4_PARAM_END @ rest) args
    = Some (canon_pair args a, rest)"
proof (cases "arg_is_string a")
  case True
  with assms show ?thesis
    by (simp add: param_value_def arg_text_def ptext.closing_tag_found arg_kind_def canon_pair_def arg_ok_def
        unescape_parameter_text)
next
  case False
  with assms have v: "append_dsml_json_literal (arg_value a) = arg_value a"
    by (simp add: arg_ok_def json_literal_id)
  with jlit.closing_tag_found [of "arg_value a" rest]
  have "strstr (arg_value a @ DS4_PARAM_END @ rest) DS4_PARAM_END = Some (length (arg_value a))" by simp
  with False v show ?thesis
    by (simp add: param_value_def arg_text_def arg_kind_def canon_pair_def ascii_inj)
qed

text \<open>The opening tag of a parameter and its two attributes.\<close>

definition arg_tag :: "json_arg \<Rightarrow> byte list" where
  "arg_tag a = DS4_PARAM_START @ ascii '' name='' @ 0x22 # append_dsml_attr_escaped (arg_key a)
     @ 0x22 # 0x20 # ascii ''string='' @ 0x22 # arg_kind a @ [0x22]"

lemma append_dsml_arg_tag: "append_dsml_arg a = arg_tag a @ 0x3e # arg_text a @ DS4_PARAM_END @ [10]"
  by (simp add: append_dsml_arg_def arg_tag_def arg_text_def arg_kind_def ascii_def)

lemma arg_tag_no_gt: "0x3e \<notin> set (arg_tag a)"
  using attr_safe [of "0x3e" "arg_key a"]
  by (auto simp: arg_tag_def dsml_marker_defs arg_kind_def ascii_def)

lemma dsml_attr_at:
  assumes "take 63 (name @ [0x3d, 0x22]) = pat" "tag = u @ pat @ v @ 0x22 # post"
    "strstr tag pat = Some (length u)" "0x22 \<notin> set v"
  shows "dsml_attr tag name = Some (dsml_unescape_text v)"
proof -
  have "drop (length u + length pat) tag = v @ 0x22 # post" using assms(2) by simp
  moreover have "strchr (v @ 0x22 # post) 0x22 = Some (length v)" using assms(4) by (rule strchr_append)
  ultimately show ?thesis using assms(1,3) by (simp add: dsml_attr_def Let_def)
qed

lemma attr_pattern:
  "take 63 (ascii ''name'' @ [0x3d, 0x22]) = ascii ''name='' @ [0x22]"
  "take 63 (ascii ''string'' @ [0x3d, 0x22]) = ascii ''string='' @ [0x22]"
  by (simp_all add: ascii_def)

lemma arg_tag_name: "dsml_attr (arg_tag a @ [0x3e]) (ascii ''name'') = Some (arg_key a)"
proof -
  let ?u = "DS4_PARAM_START @ [0x20]" and ?n = "ascii ''name='' @ [0x22]"
  let ?k = "append_dsml_attr_escaped (arg_key a)"
  let ?post = "0x20 # ascii ''string='' @ 0x22 # arg_kind a @ [0x22, 0x3e]"
  have t: "arg_tag a @ [0x3e] = ?u @ ?n @ ?k @ 0x22 # ?post" by (simp add: arg_tag_def ascii_def)
  have "strstr (?u @ ?n @ ?k @ 0x22 # ?post) ?n = Some (length ?u)"
    by (subst strstr_skip_hd) (simp_all add: dsml_marker_defs ascii_def strstr_Cons starts_with_Cons)
  with t have "dsml_attr (arg_tag a @ [0x3e]) (ascii ''name'') = Some (dsml_unescape_text ?k)"
    by (intro dsml_attr_at [OF attr_pattern(1) t]) (simp_all only: attr_safe insert_iff simp_thms)
  then show ?thesis by (simp add: unescape_attr)
qed

lemma arg_tag_string:
  assumes "arg_ok a"
  shows "dsml_attr (arg_tag a @ [0x3e]) (ascii ''string'') = Some (arg_kind a)"
proof -
  let ?pre = "DS4_PARAM_START @ ascii '' name='' @ [0x22]"
  let ?k = "append_dsml_attr_escaped (arg_key a)" and ?p = "ascii ''string=''"
  let ?u = "?pre @ ?k @ [0x22, 0x20]" and ?n = "?p @ [0x22]"
  let ?tail = "?k @ 0x22 # 0x20 # (?p @ [0x22]) @ arg_kind a @ 0x22 # [0x3e]"
  have t: "arg_tag a @ [0x3e] = ?u @ ?n @ arg_kind a @ 0x22 # [0x3e]" by (simp add: arg_tag_def ascii_def)
  have p: "?p = 0x73 # ascii ''tring=''" by (simp add: ascii_def)
  have "\<not> suffix ?p ?k" using assms attr_suffix [of ?p "arg_key a"] by (auto simp: arg_ok_def ascii_def)
  moreover have "0x22 \<notin> set ?k" by (rule attr_safe) simp
  ultimately have "strstr ?tail ?n = Some (length ?k + 2)"
    by (intro strstr_attr_gap [OF _ _ p]) (simp_all add: ascii_def)
  moreover have "strstr (?pre @ ?tail) ?n = map_option ((+) (length ?pre)) (strstr ?tail ?n)"
    by (rule strstr_skip_hd) (simp_all add: ascii_def dsml_marker_defs)
  moreover have "arg_tag a @ [0x3e] = ?pre @ ?tail" by (simp add: arg_tag_def ascii_def)
  ultimately have "strstr (arg_tag a @ [0x3e]) ?n = Some (length ?u)" by (simp only: option.map length_append) simp
  moreover have "0x22 \<notin> set (arg_kind a)" by (simp add: arg_kind_def ascii_def)
  ultimately have "dsml_attr (arg_tag a @ [0x3e]) (ascii ''string'') = Some (dsml_unescape_text (arg_kind a))"
    by (intro dsml_attr_at [OF attr_pattern(2) t])
  moreover have "dsml_unescape_text (arg_kind a) = arg_kind a" by (simp add: arg_kind_def ascii_def)
  ultimately show ?thesis by simp
qed

text \<open>The markers start with \<^verbatim>\<open><\<close>, so blanks before them are skipped and nothing else.\<close>

lemma skip_ws_marker: "skip_ascii_ws (10 # 0x3c # s) = 0x3c # s" "skip_ascii_ws (0x3c # s) = 0x3c # s"
  by (simp_all add: skip_ascii_ws_def isspace_def)

lemma marker_heads:
  "DS4_PARAM_START = 0x3c # DS4_DSML @ ascii ''parameter''"
  "DS4_INVOKE_START = 0x3c # DS4_DSML @ ascii ''invoke''"
  "DS4_INVOKE_END = 0x3c # 0x2f # DS4_DSML @ ascii ''invoke>''"
  "DS4_TOOL_CALLS_START = 0x3c # DS4_DSML @ ascii ''tool_calls>''"
  "DS4_TOOL_CALLS_END = 0x3c # 0x2f # DS4_DSML @ ascii ''tool_calls>''"
  by (simp_all add: dsml_marker_defs ascii_def)

lemma markers_differ:
  "\<not> starts_with DS4_INVOKE_END (DS4_PARAM_START @ s)"
  "\<not> starts_with DS4_TOOL_CALLS_END (DS4_INVOKE_START @ s)"
  by (simp_all add: dsml_marker_defs ascii_def starts_with_Cons)

lemma invoke_param_arg:
  assumes "arg_ok a"
  shows "invoke_param style_dsml args (append_dsml_arg a @ rest) = Some (canon_pair args a, 10 # rest)"
proof -
  let ?v = "arg_text a @ DS4_PARAM_END @ 10 # rest"
  have p: "append_dsml_arg a @ rest = arg_tag a @ 0x3e # ?v" by (simp add: append_dsml_arg_tag)
  have c: "strchr (arg_tag a @ 0x3e # ?v) 0x3e = Some (length (arg_tag a))"
    by (rule strchr_append) (rule arg_tag_no_gt)
  have t: "take (length (arg_tag a) + 1) (arg_tag a @ 0x3e # ?v) = arg_tag a @ [0x3e]"
    "drop (length (arg_tag a) + 1) (arg_tag a @ 0x3e # ?v) = ?v" by simp_all
  have s: "starts_with (sty_param_start style_dsml) (arg_tag a @ 0x3e # ?v)"
    by (simp add: style_dsml_def arg_tag_def)
  have e: "sty_param_end style_dsml = DS4_PARAM_END" by (simp add: style_dsml_def)
  show ?thesis
    unfolding invoke_param_def Let_def p c t using s
    by (simp only: option.case t arg_tag_name arg_tag_string [OF assms] option.distinct simp_thms if_False if_True
        param_value_arg [OF assms] e)
qed

lemma append_dsml_arg_head: "\<exists>t. append_dsml_arg a = DS4_PARAM_START @ t"
  by (simp add: append_dsml_arg_def)

lemma params_loop_args:
  "\<forall>a \<in> set as. arg_ok a \<Longrightarrow> length as < n \<Longrightarrow>
     params_loop n style_dsml args (10 # concat (map append_dsml_arg as) @ DS4_INVOKE_END @ rest)
       = Some (foldl canon_pair args as, rest)"
proof (induction as arbitrary: n args)
  case Nil
  then obtain m where n: "n = Suc m" by (cases n) auto
  have "skip_ascii_ws (10 # DS4_INVOKE_END @ rest) = DS4_INVOKE_END @ rest"
    by (simp add: marker_heads skip_ws_marker)
  then show ?case by (simp add: n style_dsml_def)
next
  case (Cons a as)
  then obtain m where n: "n = Suc m" "length as < m" by (cases n) auto
  let ?r = "concat (map append_dsml_arg as) @ DS4_INVOKE_END @ rest"
  obtain t where t: "append_dsml_arg a = DS4_PARAM_START @ t" using append_dsml_arg_head by blast
  have sk: "skip_ascii_ws (10 # append_dsml_arg a @ ?r) = append_dsml_arg a @ ?r"
    by (simp add: t marker_heads skip_ws_marker)
  have ne: "\<not> starts_with (sty_invoke_end style_dsml) (append_dsml_arg a @ ?r)"
    by (simp add: t style_dsml_def markers_differ)
  have i: "invoke_param style_dsml args (append_dsml_arg a @ ?r) = Some (canon_pair args a, 10 # ?r)"
    using Cons.prems by (intro invoke_param_arg) simp
  have "params_loop m style_dsml (canon_pair args a) (10 # ?r) = Some (foldl canon_pair (canon_pair args a) as, rest)"
    by (rule Cons.IH) (use Cons.prems n in simp_all)
  with sk ne i show ?case by (simp add: n)
qed

section \<open>Calls\<close>

definition args_of :: "tool_call \<Rightarrow> json_arg list" where
  "args_of tc =
     (case json_args_parse (or_empty (tc_arguments tc)) of
        Some args \<Rightarrow> args
      | None \<Rightarrow> [\<lparr>arg_key = ascii ''arguments'', arg_value = or_empty (tc_arguments tc),
                   arg_is_string = True, arg_used = False\<rparr>])"

definition canon_call :: "tool_call \<Rightarrow> tool_call" where
  "canon_call tc =
     \<lparr>tc_id = None, tc_name = Some (or_empty (tc_name tc)),
      tc_arguments = Some ([0x7b] @ foldl canon_pair [] (args_of tc) @ [0x7d])\<rparr>"

lemma json_args_unused:
  assumes "json_args_parse json = Some args"
  shows "list_all (\<lambda>a. \<not> arg_used a) args"
proof -
  obtain r where "json_object json_arg_member [] (tl (json_ws json)) = Some (args, r)"
    using assms by (auto simp: json_args_parse_def Let_def split: if_splits)
  then show ?thesis
    by (rule json_object_invariant [where P = "list_all (\<lambda>a. \<not> arg_used a)", rotated 2])
      (auto simp: json_arg_member_def Let_def string_into_def raw_into_def split: if_splits option.splits)
qed

lemma append_dsml_call_args:
  "append_dsml_call tc =
     DS4_INVOKE_START @ ascii '' name='' @ [0x22] @ append_dsml_attr_escaped (or_empty (tc_name tc)) @ [0x22, 0x3e, 10]
     @ concat (map append_dsml_arg (args_of tc)) @ DS4_INVOKE_END @ [10]"
proof (cases "json_args_parse (or_empty (tc_arguments tc))")
  case None
  have "append_dsml_attr_escaped (ascii ''arguments'') = ascii ''arguments''"
    by (simp add: append_dsml_attr_escaped_def dsml_attr_char_def ascii_def)
  with None show ?thesis
    by (simp add: append_dsml_call_def append_dsml_arguments_from_json_def args_of_def append_dsml_arg_def)
next
  case (Some args)
  from json_args_unused [OF Some] have "List.filter (\<lambda>a. \<not> arg_used a) args = args"
    by (simp add: list_all_iff)
  with Some show ?thesis
    by (simp add: append_dsml_call_def append_dsml_arguments_from_json_def args_of_def)
qed

text \<open>The opening tag of an invocation.\<close>

definition invoke_tag :: "byte list \<Rightarrow> byte list" where
  "invoke_tag name = DS4_INVOKE_START @ ascii '' name='' @ 0x22 # append_dsml_attr_escaped name @ [0x22]"

lemma invoke_tag_no_gt: "0x3e \<notin> set (invoke_tag name)"
  using attr_safe [of "0x3e" name] by (auto simp: invoke_tag_def dsml_marker_defs ascii_def)

lemma invoke_tag_name: "dsml_attr (invoke_tag name @ [0x3e]) (ascii ''name'') = Some name"
proof -
  let ?u = "DS4_INVOKE_START @ [0x20]" and ?n = "ascii ''name='' @ [0x22]"
  let ?k = "append_dsml_attr_escaped name"
  have t: "invoke_tag name @ [0x3e] = ?u @ ?n @ ?k @ 0x22 # [0x3e]" by (simp add: invoke_tag_def ascii_def)
  have "strstr (?u @ ?n @ ?k @ 0x22 # [0x3e]) ?n = Some (length ?u)"
    by (simp add: dsml_marker_defs ascii_def strstr_Cons starts_with_Cons)
  with t have "dsml_attr (invoke_tag name @ [0x3e]) (ascii ''name'') = Some (dsml_unescape_text ?k)"
    by (intro dsml_attr_at [OF attr_pattern(1) t]) (simp_all only: attr_safe insert_iff simp_thms)
  then show ?thesis by (simp add: unescape_attr)
qed

lemma invokes_loop_calls:
  "\<forall>tc \<in> set tcs. \<forall>a \<in> set (args_of tc). arg_ok a \<Longrightarrow> length tcs < n \<Longrightarrow>
     invokes_loop n style_dsml calls (10 # concat (map append_dsml_call tcs) @ DS4_TOOL_CALLS_END @ rest)
       = Some (calls\<lparr>calls_v := calls_v calls @ map canon_call tcs\<rparr>, rest)"
proof (induction tcs arbitrary: n calls)
  case Nil
  then obtain m where n: "n = Suc m" by (cases n) auto
  have "skip_ascii_ws (10 # DS4_TOOL_CALLS_END @ rest) = DS4_TOOL_CALLS_END @ rest"
    by (simp add: marker_heads skip_ws_marker)
  then show ?case by (simp add: n style_dsml_def)
next
  case (Cons tc tcs)
  then obtain m where n: "n = Suc m" "length tcs < m" by (cases n) auto
  let ?r = "concat (map append_dsml_call tcs) @ DS4_TOOL_CALLS_END @ rest"
  let ?name = "or_empty (tc_name tc)"
  let ?body = "10 # concat (map append_dsml_arg (args_of tc)) @ DS4_INVOKE_END @ 10 # ?r"
  let ?p = "invoke_tag ?name @ 0x3e # ?body"
  have p: "append_dsml_call tc @ ?r = ?p" by (simp add: append_dsml_call_args invoke_tag_def)
  have sk: "skip_ascii_ws (10 # append_dsml_call tc @ ?r) = ?p"
    unfolding p by (simp add: invoke_tag_def marker_heads skip_ws_marker)
  have s: "\<not> starts_with (sty_calls_end style_dsml) ?p" "starts_with (sty_invoke_start style_dsml) ?p"
    by (simp_all add: invoke_tag_def style_dsml_def markers_differ)
  have c: "strchr ?p 0x3e = Some (length (invoke_tag ?name))"
    by (rule strchr_append) (rule invoke_tag_no_gt)
  have t: "take (length (invoke_tag ?name) + 1) ?p = invoke_tag ?name @ [0x3e]"
    "drop (length (invoke_tag ?name) + 1) ?p = ?body" by simp_all
  have len: "length (args_of tc) < Suc (length ?p)"
  proof -
    have "length as \<le> length (concat (map append_dsml_arg as))" for as
      by (induction as) (simp_all add: append_dsml_arg_def)
    from this [of "args_of tc"] show ?thesis by simp
  qed
  have a: "params_loop (Suc (length ?p)) style_dsml [] ?body = Some (foldl canon_pair [] (args_of tc), 10 # ?r)"
    by (rule params_loop_args) (use Cons.prems len in simp_all)
  have IH: "invokes_loop m style_dsml (tool_calls_push calls (canon_call tc)) (10 # ?r)
      = Some ((tool_calls_push calls (canon_call tc))\<lparr>calls_v := calls_v (tool_calls_push calls (canon_call tc))
          @ map canon_call tcs\<rparr>, rest)"
    by (rule Cons.IH) (use Cons.prems n in simp_all)
  show ?case
    using IH unfolding n invokes_loop.simps Let_def concat.simps list.map append_assoc sk c
    by (simp only: s t a invoke_tag_name option.case prod.case if_False if_True not_True_eq_False not_False_eq_True
        canon_call_def) (simp add: tool_calls_push_def canon_call_def)
qed

lemma marker_after_content:
  assumes "\<forall>q. \<not> occurs_at n c q" "10 \<notin> set n" "n \<noteq> []"
  shows "strstr (c @ [10, 10] @ n @ s) ([10, 10] @ n) = Some (length c)"
proof -
  let ?w = "c @ [10, 10] @ n @ s"
  have "\<not> occurs_at ([10, 10] @ n) ?w q" if q: "q < length c" for q
  proof
    assume o: "occurs_at ([10, 10] @ n) ?w q"
    then have "take (2 + length n) (drop q ?w) = [10, 10] @ n" by (simp add: occurs_at_def)
    then have "drop 2 (take (2 + length n) (drop q ?w)) = n" by simp
    then have t: "take (length n) (drop (q + 2) ?w) = n" by (simp only: drop_take drop_drop add.commute) simp
    show False
    proof (cases "q + 2 + length n \<le> length c")
      case True
      with t have "occurs_at n c (q + 2)" by (simp add: occurs_at_def)
      with assms(1) show False by blast
    next
      case False
      let ?i = "max (length c) (q + 2)"
      have i: "?i - (q + 2) < length n" "?w ! ?i = 10" "q + 2 \<le> ?i" "?i < length ?w"
        using False q assms(3) by (auto simp: nth_append max_def nth_Cons split: nat.splits)
      have "n ! (?i - (q + 2)) = take (length n) (drop (q + 2) ?w) ! (?i - (q + 2))" by (simp only: t)
      also have "\<dots> = ?w ! ?i"
      proof -
        have "take k (drop a w) ! j = w ! (a + j)" if "j < k" "a + j < length w" for k a j and w :: "byte list"
          using that by simp
        from this [of "?i - (q + 2)" "length n" "q + 2" ?w] i show ?thesis by (simp only: le_add_diff_inverse)
      qed
      finally have "10 \<in> set n" using i(1,2) by (metis nth_mem)
      with assms(2) show False by contradiction
    qed
  qed
  moreover have "occurs_at ([10, 10] @ n) ?w (length c)" by (simp add: occurs_at_def)
  ultimately show ?thesis by (simp only: strstr_Some) blast
qed

lemma parse_rendered_calls:
  assumes "calls_v calls \<noteq> []" "or_empty (calls_raw_dsml calls) = []"
    and ok: "\<forall>tc \<in> set (calls_v calls). \<forall>a \<in> set (args_of tc). arg_ok a"
    and no: "\<forall>q. \<not> occurs_at DS4_TOOL_CALLS_START content q"
  shows "parse_generated_message no_calls (content @ append_dsml_tool_calls_text calls @ rest) =
    Some \<lparr>gm_content = fst (split_reasoning_content (trim_tool_separator_ws content)),
          gm_reasoning = snd (split_reasoning_content (trim_tool_separator_ws content)),
          gm_calls = \<lparr>calls_v = map canon_call (calls_v calls),
                      calls_raw_dsml = Some (append_dsml_tool_calls_text calls)\<rparr>\<rparr>"
proof -
  let ?S = DS4_TOOL_CALLS_START
  let ?body = "10 # concat (map append_dsml_call (calls_v calls)) @ DS4_TOOL_CALLS_END @ rest"
  let ?block = "[10, 10] @ ?S @ ?body"
  let ?text = "content @ ?block"
  have tx: "content @ append_dsml_tool_calls_text calls @ rest = ?text"
    using assms(1,2) by (simp add: append_dsml_tool_calls_text_def)
  have find: "find_tool_block ?text = Some (length content, style_dsml)"
    using marker_after_content [OF no, of ?body] by (simp add: find_tool_block_def dsml_marker_defs ascii_def)
  have blk: "strstr ?block ?S = Some 2"
  proof -
    have "hd ?S \<notin> set [10, 10]" "?S \<noteq> []" by (simp_all add: marker_heads)
    with strstr_skip_hd [of ?S "[10, 10]" "?S @ ?body"] strstr_here [of ?S ?body] show ?thesis by simp
  qed
  have len: "length (calls_v calls) < Suc (length ?block)"
  proof -
    have "length tcs \<le> length (concat (map append_dsml_call tcs))" for tcs
      by (induction tcs) (simp_all add: append_dsml_call_def)
    from this [of "calls_v calls"] show ?thesis by simp
  qed
  have inv: "invokes_loop (Suc (length ?block)) style_dsml no_calls ?body
      = Some (no_calls\<lparr>calls_v := calls_v no_calls @ map canon_call (calls_v calls)\<rparr>, rest)"
    by (rule invokes_loop_calls [OF ok len])
  have drop: "drop (length content) ?text = ?block" "drop (2 + length ?S) ?block = ?body"
    "take (length content) ?text = content" by simp_all
  have b: "?block = append_dsml_tool_calls_text calls @ rest"
    using assms(1,2) by (simp add: append_dsml_tool_calls_text_def)
  have raw: "take (length ?block - length rest) ?block = append_dsml_tool_calls_text calls"
    unfolding b by simp
  have sty: "sty_calls_start style_dsml = ?S" by (simp add: style_dsml_def)
  show ?thesis
    unfolding tx parse_generated_message_def find Let_def
    by (simp only: option.case prod.case drop blk sty inv raw) (simp add: no_calls_def split: prod.split)
qed

section \<open>Stability of the cache key\<close>

definition plain_arg :: "json_arg \<Rightarrow> bool" where
  "plain_arg a \<longleftrightarrow> arg_is_string a \<and> \<not> arg_used a \<and> 0 \<notin> set (arg_key a) \<and> 0 \<notin> set (arg_value a)"

definition pair_text :: "json_arg \<Rightarrow> byte list" where
  "pair_text a = json_escape (arg_key a) @ [0x3a, 0x20] @ json_escape (arg_value a)"

lemma canon_pair_plain:
  "plain_arg a \<Longrightarrow> canon_pair args a = args @ (if args \<noteq> [] then [0x2c, 0x20] else []) @ pair_text a"
  by (simp add: canon_pair_def tool_call_json_args_add_def plain_arg_def arg_kind_def pair_text_def ascii_def)

lemma foldl_canon_pair:
  "list_all plain_arg as \<Longrightarrow> args \<noteq> [] \<Longrightarrow>
     foldl canon_pair args as = args @ concat (map (\<lambda>a. [0x2c, 0x20] @ pair_text a) as)"
  by (induction as arbitrary: args) (simp_all add: canon_pair_plain)

lemma pair_member:
  "plain_arg a \<Longrightarrow> json_field json_arg_member args (pair_text a @ rest) = Some (args @ [a], rest)"
proof -
  assume a: "plain_arg a"
  have ws: "json_ws (0x20 # json_escape v @ t) = json_escape v @ t" "take 1 (json_escape v @ t) = [0x22]" for v t
    by (simp_all add: json_ws_def isspace_def json_escape_Cons)
  show ?thesis
    using a unfolding pair_text_def append_assoc append.simps
    by (subst json_field_escape)
      (simp_all add: plain_arg_def json_arg_member_def Let_def ws string_into_def json_string_escape del: One_nat_def take_append)
qed

lemma pair_text_head: "\<exists>t. pair_text a = 0x22 # t"
  by (simp add: pair_text_def json_escape_def)

definition more_pairs :: "json_arg list \<Rightarrow> byte list" where
  "more_pairs as = concat (map (\<lambda>a. [0x2c, 0x20] @ pair_text a) as)"

lemma members_pairs:
  "list_all plain_arg (a # as) \<Longrightarrow>
     json_members (Suc (Suc (length as + k))) 0x7d (json_field json_arg_member) args
       (pair_text a @ more_pairs as @ [0x7d]) = Some (args @ a # as, [])"
proof (induction as arbitrary: a args)
  case Nil
  obtain t where t: "pair_text a = 0x22 # t" using pair_text_head by blast
  with pair_member [of a args "[0x7d]"] Nil show ?case
    by (simp add: more_pairs_def json_members_item json_members_close after_item_other isspace_def)
next
  case (Cons b as)
  let ?r = "pair_text b @ more_pairs as @ [0x7d]"
  obtain t u where t: "pair_text a = 0x22 # t" and u: "pair_text b = 0x22 # u" using pair_text_head by blast
  have "json_field json_arg_member args (pair_text a @ 0x2c # 0x20 # ?r) = Some (args @ [a], 0x2c # 0x20 # ?r)"
    using Cons.prems by (intro pair_member) simp
  moreover have "after_item (0x2c # 0x20 # ?r) = ?r"
    by (simp add: after_item_comma u json_ws_def isspace_def)
  moreover have "json_members (Suc (Suc (length as + k))) 0x7d (json_field json_arg_member) (args @ [a]) ?r
      = Some ((args @ [a]) @ b # as, [])"
    by (rule Cons.IH) (use Cons.prems in simp)
  ultimately show ?case
    by (simp add: t json_members_item more_pairs_def)
qed

interpretation arg_members: field_reader json_arg_member
  by unfold_locales
    (auto simp: json_arg_member_def Let_def split: if_splits dest: ws_into_eats suffix_order.less_imp_le)

lemma json_args_parse_canon:
  assumes "list_all plain_arg as"
  shows "json_args_parse ([0x7b] @ foldl canon_pair [] as @ [0x7d]) = Some as"
proof (cases as)
  case Nil
  then show ?thesis
    by (simp add: json_args_parse_def json_ws_def isspace_def json_object_def json_members_close)
next
  case (Cons a bs)
  let ?s = "pair_text a @ more_pairs bs @ [0x7d]"
  have f: "foldl canon_pair [] as @ [0x7d] = ?s"
    using assms pair_text_head [of a] by (auto simp: Cons canon_pair_plain foldl_canon_pair more_pairs_def)
  have ws: "json_ws ?s = ?s" using pair_text_head [of a] by (auto simp: json_ws_def isspace_def)
  have "json_object json_arg_member [] ?s
      = json_members (Suc (Suc (length bs + length ?s))) 0x7d (json_field json_arg_member) [] (json_ws ?s)"
    by (rule arg_members.object_any_fuel [symmetric]) simp
  also have "\<dots> = Some ([] @ a # bs, [])"
    unfolding ws by (rule members_pairs) (use assms Cons in simp)
  finally have o: "json_object json_arg_member [] ?s = Some (as, [])" by (simp add: Cons)
  have "json_args_parse (0x7b # ?s) = Some as"
    using o by (simp add: json_args_parse_def Let_def json_ws_def isspace_def)
  then show ?thesis using f by simp
qed

lemma args_of_canon_call: "list_all plain_arg (args_of tc) \<Longrightarrow> args_of (canon_call tc) = args_of tc"
  using json_args_parse_canon [of "args_of tc"] unfolding args_of_def [of "canon_call tc"]
  by (simp add: canon_call_def or_empty_def)

lemma render_canon_call:
  "list_all plain_arg (args_of tc) \<Longrightarrow> append_dsml_call (canon_call tc) = append_dsml_call tc"
  by (simp add: append_dsml_call_args args_of_canon_call) (simp add: canon_call_def or_empty_def)

section \<open>Correctness\<close>

text \<open>Claim C14. A rendered tool-call block is parsed back.  The sampled text is any content
  without a block marker, the block \<^verbatim>\<open>append_dsml_tool_calls_text\<close> renders from the calls, and
  anything after it; the arguments of the calls satisfy \<open>arg_ok\<close> (no key ends in
  \<^verbatim>\<open>string=\<close>, no string value contains an entity such as \<^verbatim>\<open>&lt;\<close>, no other value contains a closing
  parameter tag).  The parser returns the content with its trailing blanks removed and its
  reasoning split off, the block itself as the raw text kept for replay, and one call per
  call: \<open>canon_call\<close>, which has no id, the same name, and every argument in its order under
  the same key with the same value, printed as one JSON object (\<open>args_of\<close>: arguments that are not
  a JSON object count, as in the renderer, as one string argument named \<^verbatim>\<open>arguments\<close>).\<close>

theorem dsml_tool_calls_roundtrip:
  assumes "calls_v calls \<noteq> []" "or_empty (calls_raw_dsml calls) = []"
    and "\<forall>tc \<in> set (calls_v calls). \<forall>a \<in> set (args_of tc). arg_ok a"
    and "\<forall>q. \<not> occurs_at DS4_TOOL_CALLS_START content q"
  shows "parse_generated_message no_calls (content @ append_dsml_tool_calls_text calls @ rest) =
    Some \<lparr>gm_content = fst (split_reasoning_content (trim_tool_separator_ws content)),
          gm_reasoning = snd (split_reasoning_content (trim_tool_separator_ws content)),
          gm_calls = \<lparr>calls_v = map canon_call (calls_v calls),
                      calls_raw_dsml = Some (append_dsml_tool_calls_text calls)\<rparr>\<rparr>"
  using assms by (rule parse_rendered_calls)

definition sample_call :: tool_call where
  "sample_call = \<lparr>tc_id = None, tc_name = Some (ascii ''sh''),
     tc_arguments = Some ([0x7b] @ pair_text \<lparr>arg_key = ascii ''a'', arg_value = ascii ''x>y'',
        arg_is_string = True, arg_used = False\<rparr> @ [0x7d])\<rparr>"

lemma sample_call_args:
  "args_of sample_call = [\<lparr>arg_key = ascii ''a'', arg_value = ascii ''x>y'', arg_is_string = True, arg_used = False\<rparr>]"
proof -
  let ?a = "\<lparr>arg_key = ascii ''a'', arg_value = ascii ''x>y'', arg_is_string = True, arg_used = False\<rparr>"
  have p: "plain_arg ?a" by (simp add: plain_arg_def ascii_def)
  then have "json_args_parse ([0x7b] @ pair_text ?a @ [0x7d]) = Some [?a]"
    using json_args_parse_canon [of "[?a]"] by (simp add: canon_pair_plain)
  then show ?thesis by (simp add: args_of_def sample_call_def or_empty_def)
qed

definition sample_calls :: tool_calls where
  "sample_calls = \<lparr>calls_v = [sample_call], calls_raw_dsml = None\<rparr>"

lemma sample_calls_ok:
  "calls_v sample_calls \<noteq> []" "or_empty (calls_raw_dsml sample_calls) = []"
  "tc \<in> set (calls_v sample_calls) \<Longrightarrow> a \<in> set (args_of tc) \<Longrightarrow> arg_ok a \<and> plain_arg a"
  "\<not> occurs_at DS4_TOOL_CALLS_START (ascii ''ok'') q"
proof -
  show "\<not> occurs_at DS4_TOOL_CALLS_START (ascii ''ok'') q"
    by (auto simp: occurs_at_def marker_heads ascii_def dest!: arg_cong [of _ _ length])
  show "arg_ok a \<and> plain_arg a" if "tc \<in> set (calls_v sample_calls)" "a \<in> set (args_of tc)"
    using that by (auto simp: sample_calls_def sample_call_args arg_ok_def plain_arg_def)
      (auto simp: ascii_def suffix_def xml_entities_def starts_with_Cons)
qed (simp_all add: sample_calls_def or_empty_def)

lemma dsml_tool_calls_roundtrip_witness:
  "parse_generated_message no_calls (ascii ''ok'' @ append_dsml_tool_calls_text sample_calls @ []) =
    Some \<lparr>gm_content = fst (split_reasoning_content (trim_tool_separator_ws (ascii ''ok''))),
          gm_reasoning = snd (split_reasoning_content (trim_tool_separator_ws (ascii ''ok''))),
          gm_calls = \<lparr>calls_v = map canon_call (calls_v sample_calls),
                      calls_raw_dsml = Some (append_dsml_tool_calls_text sample_calls)\<rparr>\<rparr>"
  by (rule dsml_tool_calls_roundtrip) (use sample_calls_ok in auto)

text \<open>Claim C15. Parsing a rendered block and rendering what the parser returned gives the same
  bytes, which is what lets a rendered history match the cached tokens: for calls whose
  arguments are strings without NUL bytes and satisfy \<open>arg_ok\<close> (no key ends in
  \<^verbatim>\<open>string=\<close>, no value contains an entity such as \<^verbatim>\<open>&lt;\<close>), the parser accepts the text, the
  calls it returns have the names and the argument lists of the calls rendered, and rendering
  them again, without the raw block, reproduces the block byte for byte.\<close>

theorem dsml_render_stable:
  assumes "calls_v calls \<noteq> []" "or_empty (calls_raw_dsml calls) = []"
    and "\<forall>tc \<in> set (calls_v calls). \<forall>a \<in> set (args_of tc). arg_ok a \<and> plain_arg a"
    and "\<forall>q. \<not> occurs_at DS4_TOOL_CALLS_START content q"
  shows "\<exists>m. parse_generated_message no_calls (content @ append_dsml_tool_calls_text calls @ rest) = Some m
    \<and> map (\<lambda>tc. or_empty (tc_name tc)) (calls_v (gm_calls m)) = map (\<lambda>tc. or_empty (tc_name tc)) (calls_v calls)
    \<and> map args_of (calls_v (gm_calls m)) = map args_of (calls_v calls)
    \<and> append_dsml_tool_calls_text ((gm_calls m)\<lparr>calls_raw_dsml := None\<rparr>) = append_dsml_tool_calls_text calls"
proof -
  let ?c = "\<lparr>calls_v = map canon_call (calls_v calls), calls_raw_dsml = Some (append_dsml_tool_calls_text calls)\<rparr>"
  let ?m = "\<lparr>gm_content = fst (split_reasoning_content (trim_tool_separator_ws content)),
          gm_reasoning = snd (split_reasoning_content (trim_tool_separator_ws content)), gm_calls = ?c\<rparr>"
  have p: "list_all plain_arg (args_of tc)" if "tc \<in> set (calls_v calls)" for tc
    using assms(3) that by (simp add: list_all_iff)
  have "parse_generated_message no_calls (content @ append_dsml_tool_calls_text calls @ rest) = Some ?m"
    by (rule parse_rendered_calls) (use assms in simp_all)
  moreover have "map (\<lambda>tc. or_empty (tc_name tc)) (calls_v ?c) = map (\<lambda>tc. or_empty (tc_name tc)) (calls_v calls)"
    by (simp add: canon_call_def or_empty_def)
  moreover have "map args_of (calls_v ?c) = map args_of (calls_v calls)" using p by (simp add: args_of_canon_call)
  moreover have "map append_dsml_call (calls_v ?c) = map append_dsml_call (calls_v calls)"
    using p by (simp add: render_canon_call)
  then have "append_dsml_tool_calls_text (?c\<lparr>calls_raw_dsml := None\<rparr>) = append_dsml_tool_calls_text calls"
    using assms(2) by (simp add: append_dsml_tool_calls_text_def or_empty_def del: map_map)
  ultimately show ?thesis by (intro exI [of _ ?m]) simp
qed

lemma dsml_render_stable_witness:
  "\<exists>m. parse_generated_message no_calls (ascii ''ok'' @ append_dsml_tool_calls_text sample_calls @ []) = Some m
    \<and> map (\<lambda>tc. or_empty (tc_name tc)) (calls_v (gm_calls m)) = map (\<lambda>tc. or_empty (tc_name tc)) (calls_v sample_calls)
    \<and> map args_of (calls_v (gm_calls m)) = map args_of (calls_v sample_calls)
    \<and> append_dsml_tool_calls_text ((gm_calls m)\<lparr>calls_raw_dsml := None\<rparr>) = append_dsml_tool_calls_text sample_calls"
  by (rule dsml_render_stable) (simp_all add: sample_calls_ok)

text \<open>Claim C16. The raw block a successful parse keeps is literally a piece of the sampled text,
  from the start of its marker to the end of the closing marker.\<close>

theorem parsed_block_is_sampled_text:
  assumes "parse_generated_message calls tx = Some m" "find_tool_block tx = Some (start, sty)"
  shows "\<exists>raw rest. calls_raw_dsml (gm_calls m) = Some raw \<and> tx = take start tx @ raw @ rest
    \<and> suffix (sty_calls_end sty) raw"
proof -
  let ?block = "drop start tx"
  from assms obtain i calls' r where i: "strstr ?block (sty_calls_start sty) = Some i"
    and l: "invokes_loop (Suc (length ?block)) sty calls (drop (i + length (sty_calls_start sty)) ?block) = Some (calls', r)"
    and m: "calls_raw_dsml (gm_calls m) = Some (take (length ?block - length r) ?block)"
    by (auto simp: parse_generated_message_def Let_def simp del: invokes_loop.simps
        split: option.splits prod.splits)
  from invokes_block [OF l] obtain u where "drop (i + length (sty_calls_start sty)) ?block = u @ sty_calls_end sty @ r"
    by blast
  then obtain w where w: "?block = w @ sty_calls_end sty @ r"
    by (metis append_assoc append_take_drop_id)
  then have raw: "take (length ?block - length r) ?block = w @ sty_calls_end sty" by simp
  have "tx = take start tx @ (w @ sty_calls_end sty) @ r"
    using w by (metis append_assoc append_take_drop_id)
  with m raw show ?thesis by (metis suffixI)
qed

lemma parsed_block_is_sampled_text_witness:
  "\<exists>raw rest. calls_raw_dsml (gm_calls \<lparr>gm_content = [], gm_reasoning = None,
       gm_calls = \<lparr>calls_v = [], calls_raw_dsml = Some (ascii ''<tool_calls></tool_calls>'')\<rparr>\<rparr>) = Some raw
     \<and> ascii ''<tool_calls></tool_calls>'' = take 0 (ascii ''<tool_calls></tool_calls>'') @ raw @ rest
     \<and> suffix (sty_calls_end style_xml) raw"
  by (rule parsed_block_is_sampled_text [of no_calls]; code_simp)

text \<open>Appending turns to a conversation that uses tools extends its rendered prompt: the old
  prompt, with its open assistant turn, is a prefix of the new one, so the cached
  tokens of the old prompt remain valid.\<close>

theorem render_prompt_monotone:
  "continues ms schemas ms' \<Longrightarrow>
     prefix (render_chat_prompt_text ms schemas mode) (render_chat_prompt_text (ms @ ms') schemas mode)"
  by (rule render_chat_prompt_continues)

lemma render_prompt_monotone_witness:
  "prefix (render_chat_prompt_text [plain_message (ascii ''user'', ascii ''hi'')] (Some (ascii ''{}'')) DS4_THINK_HIGH)
     (render_chat_prompt_text ([plain_message (ascii ''user'', ascii ''hi'')] @ [plain_message (ascii ''assistant'', ascii ''yo'')])
        (Some (ascii ''{}'')) DS4_THINK_HIGH)"
  by (rule render_prompt_monotone)
    (simp add: continues_def chat_history_uses_tool_context_def or_empty_def role_is_system_def role_is_def
      plain_message_def ascii_inj no_msg_def ascii_def [of "''{}''"])

text \<open>The decoder undoes the attribute and the text escapes for every byte string.\<close>

theorem dsml_escapes_inverted:
  "dsml_unescape_text (append_dsml_attr_escaped s) = s \<and> dsml_unescape_text (append_dsml_text_escaped s) = s"
  by (simp add: unescape_attr unescape_text)

text \<open>It does not undo the parameter text of every value: an argument that holds the characters
  \<^verbatim>\<open>&lt;\<close> is printed unchanged and read back as a different argument.\<close>

theorem dsml_parameter_entities_lost:
  "dsml_unescape_text (append_dsml_parameter_text (ascii ''a &lt; b'')) = ascii ''a < b''
   \<and> append_dsml_parameter_text (ascii ''a &lt; b'') = ascii ''a &lt; b''"
  by (simp add: ascii_def PARAM_END_Cons starts_with_Cons)

end
