(* ===== verification/Ds4_Track.thy ===== *)
theory Ds4_Track
  imports Ds4_Dsml
begin

text \<open>
  The recognizer that follows a reply while it is being sampled,
  \<^verbatim>\<open>src/server/ds4_server.c\<close>: \<^verbatim>\<open>raw_full_lit\<close> to \<^verbatim>\<open>dsml_find_tool_start_from\<close>,
  \<^verbatim>\<open>dsml_decode_tracker_update\<close> and \<^verbatim>\<open>dsml_entity_stream_safe_len\<close>.  The decoder samples
  payload and protocol bytes differently, so the recognizer is called after every token
  on the whole text so far and must resume where it stopped.

  The endless loop of the update is a step function that either returns (\<open>Inl\<close>)
  or goes round again (\<open>Inr\<close>); every round moves the position forward, so the
  length of the text bounds the rounds.  The lemmas show that cutting the text into
  tokens does not change the result, as long as no token ends right after a \<^verbatim>\<open><\<close>, and
  that it does in that case.
\<close>

section \<open>Literals\<close>

definition raw_full_lit :: "byte list \<Rightarrow> nat \<Rightarrow> byte list \<Rightarrow> bool" where
  "raw_full_lit raw pos lit \<longleftrightarrow>
     pos \<le> length raw \<and> length raw - pos \<ge> length lit \<and> take (length lit) (drop pos raw) = lit"

definition raw_partial_lit :: "byte list \<Rightarrow> nat \<Rightarrow> byte list \<Rightarrow> bool" where
  "raw_partial_lit raw pos lit \<longleftrightarrow>
     \<not> (pos > length raw \<or> length raw - pos \<ge> length lit) \<and> drop pos raw = take (length raw - pos) lit"

definition raw_partial_lit_min :: "byte list \<Rightarrow> nat \<Rightarrow> byte list \<Rightarrow> nat \<Rightarrow> bool" where
  "raw_partial_lit_min raw pos lit min_len \<longleftrightarrow>
     \<not> (pos > length raw \<or> length raw - pos \<ge> length lit) \<and>
     (let avail = length raw - pos in avail \<ge> min_len \<and> drop pos raw = take avail lit)"

definition find_lit_bounded :: "byte list \<Rightarrow> byte list \<Rightarrow> nat option" where
  "find_lit_bounded s lit = strstr s lit"

section \<open>The start of a tool block\<close>

definition dsml_syntaxes :: "dsml_style list" where
  "dsml_syntaxes = [style_dsml, style_short, style_xml]"

definition dsml_max_tool_start_len :: nat where
  "dsml_max_tool_start_len =
     foldl (\<lambda>m sty. if length (sty_calls_start sty) > m then length (sty_calls_start sty) else m) 0 dsml_syntaxes"

definition dsml_find_tool_start :: "byte list \<Rightarrow> (nat \<times> dsml_style) option" where
  "dsml_find_tool_start raw =
     (case foldl (\<lambda>best sty.
             case find_lit_bounded raw (sty_calls_start sty) of
               None \<Rightarrow> best
             | Some p \<Rightarrow> (case best of None \<Rightarrow> Some (p, sty)
                          | Some (b, bs) \<Rightarrow> if p < b then Some (p, sty) else best)) None dsml_syntaxes of
        None \<Rightarrow> None
      | Some (p, sty) \<Rightarrow> Some (p + length (sty_calls_start sty), sty))"

definition dsml_find_tool_start_from :: "byte list \<Rightarrow> nat \<Rightarrow> (nat \<times> dsml_style) option" where
  "dsml_find_tool_start_from raw start =
     (if start > length raw then None
      else case dsml_find_tool_start (drop start raw) of
        None \<Rightarrow> None
      | Some (rel, sty) \<Rightarrow> Some (start + rel, sty))"

definition dsml_attr_is_string_true :: "byte list \<Rightarrow> nat \<Rightarrow> nat \<Rightarrow> bool" where
  "dsml_attr_is_string_true raw tag_start tag_end \<longleftrightarrow>
     \<not> (tag_end \<le> tag_start \<or> tag_end > length raw) \<and>
     dsml_attr (cstr (take (tag_end - tag_start) (drop tag_start raw))) (ascii ''string'') = Some (ascii ''true'')"

section \<open>The tracker\<close>

datatype dsml_decode_state =
  DSML_DECODE_OUTSIDE | DSML_DECODE_STRUCTURAL | DSML_DECODE_STRING_BODY
  | DSML_DECODE_JSON_STRUCTURAL | DSML_DECODE_JSON_STRING

datatype dsml_track_mode =
  DSML_TRACK_SEARCH | DSML_TRACK_STRUCTURAL | DSML_TRACK_STRING_BODY | DSML_TRACK_JSON_PARAM | DSML_TRACK_DONE

definition dsml_decode_state_is_tool :: "dsml_decode_state \<Rightarrow> bool" where
  "dsml_decode_state_is_tool st \<longleftrightarrow> st \<noteq> DSML_DECODE_OUTSIDE"

definition dsml_decode_state_uses_payload_sampling :: "dsml_decode_state \<Rightarrow> bool" where
  "dsml_decode_state_uses_payload_sampling st \<longleftrightarrow> st = DSML_DECODE_STRING_BODY \<or> st = DSML_DECODE_JSON_STRING"

text \<open>The syntax pointer is NULL, and not read, while searching.\<close>

record dsml_decode_tracker =
  dt_mode :: dsml_track_mode
  dt_decode :: dsml_decode_state
  dt_syn :: dsml_style
  dt_pos :: nat
  dt_json_in_string :: bool
  dt_json_escaped :: bool

definition dsml_decode_tracker_init :: dsml_decode_tracker where
  "dsml_decode_tracker_init =
     \<lparr>dt_mode = DSML_TRACK_SEARCH, dt_decode = DSML_DECODE_OUTSIDE, dt_syn = style_dsml, dt_pos = 0,
      dt_json_in_string = False, dt_json_escaped = False\<rparr>"

text \<open>What follows a closing parameter tag.\<close>

definition close_param :: "dsml_decode_tracker \<Rightarrow> dsml_decode_tracker" where
  "close_param dt =
     dt\<lparr>dt_pos := dt_pos dt + length (sty_param_end (dt_syn dt)),
        dt_mode := DSML_TRACK_STRUCTURAL, dt_decode := DSML_DECODE_STRUCTURAL\<rparr>"

definition step_search :: "byte list \<Rightarrow> dsml_decode_tracker \<Rightarrow> dsml_decode_tracker + dsml_decode_tracker" where
  "step_search raw dt =
     (case dsml_find_tool_start_from raw (dt_pos dt) of
        None \<Rightarrow>
          Inl (dt\<lparr>dt_pos := (if length raw > dsml_max_tool_start_len
                             then length raw - dsml_max_tool_start_len else 0),
                  dt_decode := DSML_DECODE_OUTSIDE\<rparr>)
      | Some (pos, syn) \<Rightarrow>
          Inr (dt\<lparr>dt_syn := syn, dt_pos := pos, dt_mode := DSML_TRACK_STRUCTURAL,
                  dt_decode := DSML_DECODE_STRUCTURAL\<rparr>))"

definition step_string_body :: "byte list \<Rightarrow> dsml_decode_tracker \<Rightarrow> dsml_decode_tracker + dsml_decode_tracker" where
  "step_string_body raw dt =
     (if dt_pos dt < length raw then
        if raw_full_lit raw (dt_pos dt) (sty_param_end (dt_syn dt)) then Inr (close_param dt)
        else if raw_partial_lit_min raw (dt_pos dt) (sty_param_end (dt_syn dt)) 2
        then Inl (dt\<lparr>dt_decode := DSML_DECODE_STRUCTURAL\<rparr>)
        else Inr (dt\<lparr>dt_pos := dt_pos dt + 1\<rparr>)
      else Inl (dt\<lparr>dt_decode := DSML_DECODE_STRING_BODY\<rparr>))"

definition json_char :: "byte \<Rightarrow> dsml_decode_tracker \<Rightarrow> dsml_decode_tracker" where
  "json_char c dt =
     (if dt_json_in_string dt then
        if dt_json_escaped dt then dt\<lparr>dt_json_escaped := False\<rparr>
        else if c = 0x5c then dt\<lparr>dt_json_escaped := True\<rparr>
        else if c = 0x22 then dt\<lparr>dt_json_in_string := False\<rparr>
        else dt
      else if c = 0x22 then dt\<lparr>dt_json_in_string := True\<rparr>
      else dt)"

definition step_json_param :: "byte list \<Rightarrow> dsml_decode_tracker \<Rightarrow> dsml_decode_tracker + dsml_decode_tracker" where
  "step_json_param raw dt =
     (if dt_pos dt < length raw then
        if \<not> dt_json_in_string dt \<and> raw_full_lit raw (dt_pos dt) (sty_param_end (dt_syn dt))
        then Inr (close_param dt)
        else if \<not> dt_json_in_string dt \<and> raw_partial_lit_min raw (dt_pos dt) (sty_param_end (dt_syn dt)) 2
        then Inl (dt\<lparr>dt_decode := DSML_DECODE_STRUCTURAL\<rparr>)
        else Inr ((json_char (raw ! dt_pos dt) dt)\<lparr>dt_pos := dt_pos dt + 1\<rparr>)
      else Inl (dt\<lparr>dt_decode := (if dt_json_in_string dt then DSML_DECODE_JSON_STRING
                                 else DSML_DECODE_JSON_STRUCTURAL)\<rparr>))"

definition skip_space_from :: "byte list \<Rightarrow> nat \<Rightarrow> nat" where
  "skip_space_from raw pos = pos + length (takeWhile isspace (drop pos raw))"

definition step_structural :: "byte list \<Rightarrow> dsml_decode_tracker \<Rightarrow> dsml_decode_tracker + dsml_decode_tracker" where
  "step_structural raw dt0 =
     (let dt = dt0\<lparr>dt_pos := skip_space_from raw (dt_pos dt0)\<rparr>;
          pos = dt_pos dt; syn = dt_syn dt;
          waiting = Inl (dt\<lparr>dt_decode := DSML_DECODE_STRUCTURAL\<rparr>)
      in if pos \<ge> length raw then waiting
         else if raw_full_lit raw pos (sty_calls_end syn) then
           Inl (dt\<lparr>dt_mode := DSML_TRACK_DONE, dt_pos := pos + length (sty_calls_end syn),
                   dt_decode := DSML_DECODE_OUTSIDE\<rparr>)
         else if raw_full_lit raw pos (sty_invoke_end syn) then
           Inr (dt\<lparr>dt_pos := pos + length (sty_invoke_end syn)\<rparr>)
         else if raw_full_lit raw pos (sty_invoke_start syn) then
           (case strchr (drop pos raw) 0x3e of
              None \<Rightarrow> waiting
            | Some te \<Rightarrow> Inr (dt\<lparr>dt_pos := pos + te + 1\<rparr>))
         else if raw_full_lit raw pos (sty_param_start syn) then
           (case strchr (drop pos raw) 0x3e of
              None \<Rightarrow> waiting
            | Some te \<Rightarrow>
                let tag_after = pos + te + 1;
                    dt1 = dt\<lparr>dt_pos := tag_after\<rparr>
                in Inr (if dsml_attr_is_string_true raw pos tag_after
                        then dt1\<lparr>dt_mode := DSML_TRACK_STRING_BODY, dt_decode := DSML_DECODE_STRING_BODY\<rparr>
                        else dt1\<lparr>dt_mode := DSML_TRACK_JSON_PARAM, dt_json_in_string := False,
                                 dt_json_escaped := False, dt_decode := DSML_DECODE_JSON_STRUCTURAL\<rparr>))
         else if list_ex (raw_partial_lit raw pos)
                [sty_calls_end syn, sty_invoke_start syn, sty_invoke_end syn, sty_param_start syn, sty_param_end syn]
         then waiting
         else waiting)"

definition track_step :: "byte list \<Rightarrow> dsml_decode_tracker \<Rightarrow> dsml_decode_tracker + dsml_decode_tracker" where
  "track_step raw dt =
     (case dt_mode dt of
        DSML_TRACK_DONE \<Rightarrow> Inl (dt\<lparr>dt_decode := DSML_DECODE_OUTSIDE\<rparr>)
      | DSML_TRACK_SEARCH \<Rightarrow> step_search raw dt
      | DSML_TRACK_STRING_BODY \<Rightarrow> step_string_body raw dt
      | DSML_TRACK_JSON_PARAM \<Rightarrow> step_json_param raw dt
      | DSML_TRACK_STRUCTURAL \<Rightarrow> step_structural raw dt)"

fun track_loop :: "nat \<Rightarrow> byte list \<Rightarrow> dsml_decode_tracker \<Rightarrow> dsml_decode_tracker option" where
  "track_loop 0 raw dt = None"
| "track_loop (Suc n) raw dt =
     (case track_step raw dt of Inl r \<Rightarrow> Some r | Inr dt' \<Rightarrow> track_loop n raw dt')"

definition dsml_decode_tracker_update :: "dsml_decode_tracker \<Rightarrow> byte list \<Rightarrow> dsml_decode_tracker option" where
  "dsml_decode_tracker_update dt raw = track_loop (Suc (length raw)) raw dt"

section \<open>Entities at the end of a chunk\<close>

definition dsml_entities :: "byte list list" where
  "dsml_entities = [ascii ''&amp;'', ascii ''&lt;'', ascii ''&gt;'', ascii ''&quot;'', ascii ''&apos;'']"

text \<open>The scan from \<open>limit\<close> down to \<open>scan\<close>; only the last ampersand counts.\<close>

fun entity_scan :: "byte list \<Rightarrow> nat \<Rightarrow> nat \<Rightarrow> nat \<Rightarrow> nat" where
  "entity_scan raw limit scan 0 = limit"
| "entity_scan raw limit scan (Suc i) =
     (if Suc i \<le> scan then limit
      else if raw ! i \<noteq> 0x26 then entity_scan raw limit scan i
      else if list_ex (\<lambda>e. limit - i < length e \<and> take (limit - i) (drop i raw) = take (limit - i) e) dsml_entities
      then i
      else limit)"

definition dsml_entity_stream_safe_len :: "byte list \<Rightarrow> nat \<Rightarrow> nat \<Rightarrow> nat" where
  "dsml_entity_stream_safe_len raw start limit =
     (let scan = (if limit > start + 6 then limit - 6 else start) in entity_scan raw limit scan limit)"

text \<open>The backward scan for a partial closing tag; only the last \<^verbatim>\<open><\<close> counts.\<close>

fun marker_scan :: "byte list \<Rightarrow> nat \<Rightarrow> byte list \<Rightarrow> nat \<Rightarrow> nat \<Rightarrow> nat" where
  "marker_scan raw raw_len param_end scan 0 = raw_len"
| "marker_scan raw raw_len param_end scan (Suc i) =
     (if Suc i \<le> scan then raw_len
      else if raw ! i \<noteq> 0x3c then marker_scan raw raw_len param_end scan i
      else if raw_len - i < length param_end
              \<and> take (raw_len - i) (drop i raw) = take (raw_len - i) param_end then i
      else raw_len)"

definition tool_param_value_stream_safe_len ::
    "byte list \<Rightarrow> nat \<Rightarrow> nat \<Rightarrow> byte list \<Rightarrow> bool \<Rightarrow> nat" where
  "tool_param_value_stream_safe_len raw start raw_len param_end is_string =
     (let end_len = length param_end;
          scan = (if raw_len > start + end_len then raw_len - end_len else start);
          limit = marker_scan raw raw_len param_end scan raw_len;
          limit' = (if is_string then dsml_entity_stream_safe_len raw start limit else limit)
      in utf8_stream_safe_len raw start limit' False)"

section \<open>Rounds move forward\<close>

lemma style_cases: "sty \<in> set dsml_syntaxes \<longleftrightarrow> sty = style_dsml \<or> sty = style_short \<or> sty = style_xml"
  by (auto simp: dsml_syntaxes_def)

lemmas style_defs = style_dsml_def style_short_def style_xml_def

text \<open>What the proofs need of a syntax: each literal starts with \<^verbatim>\<open><\<close>, has no other one, and no
  literal is a prefix of another.\<close>

definition lit_ok :: "byte list \<Rightarrow> bool" where
  "lit_ok l \<longleftrightarrow> 1 < length l \<and> hd l = 0x3c \<and> 0x3c \<notin> set (tl l)"

definition syntax_lits :: "dsml_style \<Rightarrow> byte list list" where
  "syntax_lits s = [sty_calls_end s, sty_invoke_end s, sty_invoke_start s, sty_param_start s]"

definition syntax_ok :: "dsml_style \<Rightarrow> bool" where
  "syntax_ok s \<longleftrightarrow> list_all lit_ok (sty_calls_start s # sty_param_end s # syntax_lits s)
     \<and> (\<forall>i < 4. \<forall>j < 4. i \<noteq> j \<longrightarrow> \<not> prefix (syntax_lits s ! i) (syntax_lits s ! j))
     \<and> length (sty_calls_start s) \<le> dsml_max_tool_start_len"

lemma syntaxes_ok: "sty \<in> set dsml_syntaxes \<Longrightarrow> syntax_ok sty"
proof -
  have "list_all syntax_ok dsml_syntaxes" by code_simp
  then show "sty \<in> set dsml_syntaxes \<Longrightarrow> syntax_ok sty" by (auto simp: list_all_iff)
qed

text \<open>The earliest of several searches.\<close>

definition first_by :: "('b \<Rightarrow> nat option) \<Rightarrow> (nat \<times> 'b) option \<Rightarrow> 'b \<Rightarrow> (nat \<times> 'b) option" where
  "first_by f best x =
     (case f x of
        None \<Rightarrow> best
      | Some p \<Rightarrow> (case best of None \<Rightarrow> Some (p, x) | Some (b, bx) \<Rightarrow> if p < b then Some (p, x) else best))"

lemma first_by_simps:
  "f y = None \<Longrightarrow> first_by f best y = best"
  "f y = Some q \<Longrightarrow> first_by f None y = Some (q, y)"
  "f y = Some q \<Longrightarrow> first_by f (Some (b, x)) y = (if q < b then Some (q, y) else Some (b, x))"
  by (simp_all add: first_by_def)

definition is_first :: "('b \<Rightarrow> nat option) \<Rightarrow> 'b list \<Rightarrow> (nat \<times> 'b) option \<Rightarrow> bool" where
  "is_first f xs r =
     (case r of
        None \<Rightarrow> \<forall>x \<in> set xs. f x = None
      | Some (p, x) \<Rightarrow> x \<in> set xs \<and> f x = Some p \<and> (\<forall>y \<in> set xs. \<forall>q. f y = Some q \<longrightarrow> p \<le> q))"

lemma first_by_fold: "is_first f xs (foldl (first_by f) None xs)"
proof (induction xs rule: rev_induct)
  case Nil
  show ?case by (simp add: is_first_def)
next
  case (snoc y ys)
  let ?r = "foldl (first_by f) None ys"
  have "is_first f (ys @ [y]) (first_by f ?r y)"
  proof (cases "f y")
    case None
    with snoc show ?thesis by (auto simp: is_first_def first_by_simps split: option.splits)
  next
    case (Some q)
    show ?thesis
    proof (cases ?r)
      case None
      with snoc Some show ?thesis by (simp add: is_first_def first_by_simps)
    next
      case (Some bx)
      obtain b x where "bx = (b, x)" by (cases bx) auto
      with snoc Some \<open>f y = Some q\<close> show ?thesis
        by (force simp: is_first_def first_by_simps)
    qed
  qed
  then show ?case by simp
qed

lemma find_start_first_by:
  "dsml_find_tool_start raw =
     (case foldl (first_by (\<lambda>sty. strstr raw (sty_calls_start sty))) None dsml_syntaxes of
        None \<Rightarrow> None | Some (p, sty) \<Rightarrow> Some (p + length (sty_calls_start sty), sty))"
  by (simp add: dsml_find_tool_start_def first_by_def [abs_def] find_lit_bounded_def)

text \<open>Where the tool block starts: the earliest start marker of any syntax.\<close>

definition starts_at :: "byte list \<Rightarrow> dsml_style \<Rightarrow> nat \<Rightarrow> bool" where
  "starts_at raw sty p \<longleftrightarrow> sty \<in> set dsml_syntaxes \<and> occurs_at (sty_calls_start sty) raw p"

lemma find_start_None: "dsml_find_tool_start raw = None \<longleftrightarrow> (\<forall>sty p. \<not> starts_at raw sty p)"
proof (cases "foldl (first_by (\<lambda>sty. strstr raw (sty_calls_start sty))) None dsml_syntaxes")
  case None
  with first_by_fold [of "\<lambda>sty. strstr raw (sty_calls_start sty)" dsml_syntaxes]
  show ?thesis by (auto simp: find_start_first_by is_first_def starts_at_def strstr_None)
next
  case (Some ps)
  with first_by_fold [of "\<lambda>sty. strstr raw (sty_calls_start sty)" dsml_syntaxes]
  show ?thesis
    by (auto simp: find_start_first_by is_first_def starts_at_def strstr_Some split: prod.splits)
qed

lemma start_markers_apart:
  assumes "sty \<in> set dsml_syntaxes" "sty' \<in> set dsml_syntaxes" "prefix (sty_calls_start sty) (sty_calls_start sty')"
  shows "sty = sty'"
proof -
  have "\<forall>sty \<in> set dsml_syntaxes. \<forall>sty' \<in> set dsml_syntaxes.
      prefix (sty_calls_start sty) (sty_calls_start sty') \<longrightarrow> sty = sty'"
    by (simp add: dsml_syntaxes_def style_defs dsml_marker_defs ascii_def)
  with assms show ?thesis by blast
qed

lemma occurs_prefix:
  assumes "occurs_at a s p" "occurs_at b s p" "length a \<le> length b"
  shows "prefix a b"
proof -
  have "a = take (length a) (drop p s)" "b = take (length b) (drop p s)"
    using assms(1,2) by (simp_all add: occurs_at_def)
  then have "a = take (length a) b" using assms(3) by (metis min.absorb1 take_take)
  then show ?thesis by (metis take_is_prefix)
qed

lemma starts_at_unique: "starts_at raw sty p \<Longrightarrow> starts_at raw sty' p \<Longrightarrow> sty = sty'"
  using occurs_prefix start_markers_apart unfolding starts_at_def by (metis nat_le_linear)

lemma find_start_Some:
  "dsml_find_tool_start raw = Some (e, sty) \<longleftrightarrow>
     (\<exists>p. e = p + length (sty_calls_start sty) \<and> starts_at raw sty p
        \<and> (\<forall>sty' q. starts_at raw sty' q \<longrightarrow> p \<le> q))"
proof -
  let ?f = "\<lambda>sty. strstr raw (sty_calls_start sty)"
  note fold = first_by_fold [of ?f dsml_syntaxes]
  have least: "p \<le> q" if "?f s = Some p" "occurs_at (sty_calls_start s) raw q" for s p q
    using that strstr_Some [of raw "sty_calls_start s" p] by (meson not_less)
  show ?thesis
  proof (cases "foldl (first_by ?f) None dsml_syntaxes")
    case None
    then have "dsml_find_tool_start raw = None" by (simp add: find_start_first_by)
    with find_start_None [of raw] show ?thesis by auto
  next
    case (Some ps)
    obtain p s where ps: "ps = (p, s)" by (cases ps) auto
    have s: "s \<in> set dsml_syntaxes" "?f s = Some p"
      and m: "\<And>y q. y \<in> set dsml_syntaxes \<Longrightarrow> ?f y = Some q \<Longrightarrow> p \<le> q"
      using fold Some ps by (auto simp: is_first_def)
    have at: "starts_at raw s p" using s by (simp add: starts_at_def strstr_Some)
    have min: "p \<le> q" if "starts_at raw s' q" for s' q
    proof -
      have "?f s' \<noteq> None" using that by (auto simp: starts_at_def strstr_None)
      then obtain j where j: "?f s' = Some j" by blast
      with m that least [OF j] show ?thesis by (force simp: starts_at_def)
    qed
    have "dsml_find_tool_start raw = Some (p + length (sty_calls_start s), s)"
      using Some ps by (simp add: find_start_first_by)
    moreover have "q = p \<and> s' = s"
      if "starts_at raw s' q" "\<forall>sty' r. starts_at raw sty' r \<longrightarrow> q \<le> r" for q s'
    proof -
      from that at min have "q = p" by (meson le_antisym)
      with that at starts_at_unique show ?thesis by blast
    qed
    ultimately show ?thesis using at min
      by (metis (no_types, lifting) Pair_inject option.inject)
  qed
qed

section \<open>Every round moves forward\<close>

lemma syntax_lits_ok:
  assumes "sty \<in> set dsml_syntaxes"
  shows "lit_ok (sty_calls_start sty)" "lit_ok (sty_param_end sty)" "list_all lit_ok (syntax_lits sty)"
    "lit_ok (sty_invoke_end sty)"
  using syntaxes_ok [OF assms] by (auto simp: syntax_ok_def syntax_lits_def)

lemma lit_ok_nonempty: "lit_ok l \<Longrightarrow> l \<noteq> []"
  by (auto simp: lit_ok_def)

definition dt_ok :: "byte list \<Rightarrow> dsml_decode_tracker \<Rightarrow> bool" where
  "dt_ok raw dt \<longleftrightarrow> dt_pos dt \<le> length raw
     \<and> (dt_mode dt = DSML_TRACK_SEARCH \<longrightarrow> dt_pos dt \<le> length raw - dsml_max_tool_start_len)
     \<and> (dt_mode dt \<noteq> DSML_TRACK_SEARCH \<longrightarrow> dt_syn dt \<in> set dsml_syntaxes)"

lemma dt_ok_init: "dt_ok raw dsml_decode_tracker_init"
  by (simp add: dt_ok_def dsml_decode_tracker_init_def)

lemma dt_ok_append: "dt_ok raw dt \<Longrightarrow> dt_ok (raw @ more') dt"
  by (auto simp: dt_ok_def)

lemma full_lit_bound: "raw_full_lit raw pos lit \<Longrightarrow> pos + length lit \<le> length raw"
  by (auto simp: raw_full_lit_def)

lemma skip_space_bounds: "pos \<le> length raw \<Longrightarrow> pos \<le> skip_space_from raw pos \<and> skip_space_from raw pos \<le> length raw"
  using length_takeWhile_le [of isspace "drop pos raw"] by (simp add: skip_space_from_def)

lemma strchr_bound: "strchr s c = Some k \<Longrightarrow> k < length s"
  by (auto simp: strchr_def Let_def split: if_splits)

definition track_advances :: "byte list \<Rightarrow> dsml_decode_tracker \<Rightarrow> dsml_decode_tracker \<Rightarrow> bool" where
  "track_advances raw dt dt' \<longleftrightarrow> dt_pos dt < dt_pos dt' \<and> dt_pos dt' \<le> length raw
     \<and> dt_syn dt' \<in> set dsml_syntaxes \<and> dt_mode dt' \<noteq> DSML_TRACK_SEARCH"

lemma track_advances_ok: "track_advances raw dt dt' \<Longrightarrow> dt_ok raw dt'"
  by (simp add: track_advances_def dt_ok_def)

lemma occurs_at_bound: "occurs_at s tx p \<Longrightarrow> p + length s \<le> length tx"
  by (cases "length tx - p < length s") (auto simp: occurs_at_def dest: arg_cong [where f = length])

lemma find_start_from_Some:
  assumes "dsml_find_tool_start_from raw start = Some (e, sty)"
  obtains p where "start \<le> p" "e = p + length (sty_calls_start sty)" "starts_at raw sty p"
    "\<And>sty' q. start \<le> q \<Longrightarrow> starts_at raw sty' q \<Longrightarrow> p \<le> q"
proof -
  have start: "start \<le> length raw" using assms by (auto simp: dsml_find_tool_start_from_def split: if_splits)
  have shift: "starts_at (drop start raw) s q \<longleftrightarrow> starts_at raw s (start + q)" for s q
    using start by (simp add: starts_at_def occurs_at_drop)
  from assms obtain r where r: "dsml_find_tool_start (drop start raw) = Some (r, sty)" "e = start + r"
    by (auto simp: dsml_find_tool_start_from_def split: if_splits option.splits prod.splits)
  from r(1) obtain p where p: "r = p + length (sty_calls_start sty)" "starts_at (drop start raw) sty p"
    "\<forall>sty' q. starts_at (drop start raw) sty' q \<longrightarrow> p \<le> q" unfolding find_start_Some by blast
  show ?thesis
  proof (rule that [of "start + p"])
    fix sty' q assume "start \<le> q" "starts_at raw sty' q"
    then show "start + p \<le> q" using p(3) shift [of sty' "q - start"] by fastforce
  qed (use p r(2) shift in auto)
qed

lemma find_start_fromI:
  assumes "start \<le> p" "starts_at raw sty p"
    and "\<And>sty' q. start \<le> q \<Longrightarrow> starts_at raw sty' q \<Longrightarrow> p \<le> q"
  shows "dsml_find_tool_start_from raw start = Some (p + length (sty_calls_start sty), sty)"
proof -
  have start: "start \<le> length raw" using assms(1,2) by (simp add: starts_at_def occurs_at_def)
  have shift: "starts_at (drop start raw) s q \<longleftrightarrow> starts_at raw s (start + q)" for s q
    using start by (simp add: starts_at_def occurs_at_drop)
  have "p - start \<le> q" if "starts_at raw sty' (start + q)" for sty' q
    using assms(3) [of "start + q" sty'] that by simp
  then have "dsml_find_tool_start (drop start raw) = Some ((p - start) + length (sty_calls_start sty), sty)"
    unfolding find_start_Some shift using assms by (intro exI [of _ "p - start"]) auto
  with start assms(1) show ?thesis by (simp add: dsml_find_tool_start_from_def)
qed

lemma find_start_from_None:
  "start \<le> length raw \<Longrightarrow>
   dsml_find_tool_start_from raw start = None \<longleftrightarrow> (\<forall>sty q. start \<le> q \<longrightarrow> \<not> starts_at raw sty q)"
  (is "_ \<Longrightarrow> ?l \<longleftrightarrow> ?r")
proof -
  assume start: "start \<le> length raw"
  have shift: "starts_at (drop start raw) s q \<longleftrightarrow> starts_at raw s (start + q)" for s q
    using start by (simp add: starts_at_def occurs_at_drop)
  have "?l \<longleftrightarrow> dsml_find_tool_start (drop start raw) = None"
    using start by (simp add: dsml_find_tool_start_from_def split: option.splits prod.splits)
  also have "\<dots> \<longleftrightarrow> ?r" unfolding find_start_None shift by (metis le_add1 le_add_diff_inverse)
  finally show ?thesis .
qed

lemma close_param_advances:
  assumes "raw_full_lit raw (dt_pos dt) (sty_param_end (dt_syn dt))" "dt_syn dt \<in> set dsml_syntaxes"
  shows "track_advances raw dt (close_param dt)"
  using assms full_lit_bound [OF assms(1)] lit_ok_nonempty [OF syntax_lits_ok(2) [OF assms(2)]]
  by (simp add: track_advances_def close_param_def)

lemma json_char_kept [simp]:
  "dt_pos (json_char c dt) = dt_pos dt" "dt_mode (json_char c dt) = dt_mode dt"
  "dt_syn (json_char c dt) = dt_syn dt" "dt_decode (json_char c dt) = dt_decode dt"
  by (simp_all add: json_char_def)

lemma step_structural_advances:
  assumes "dt_syn dt \<in> set dsml_syntaxes" "dt_pos dt \<le> length raw" "dt_mode dt \<noteq> DSML_TRACK_SEARCH"
    and step: "step_structural raw dt = Inr dt'"
  shows "track_advances raw dt dt'"
proof -
  let ?p = "skip_space_from raw (dt_pos dt)"
  have p: "dt_pos dt \<le> ?p" "?p \<le> length raw" using skip_space_bounds [OF assms(2)] by auto
  have len: "0 < length (sty_invoke_end (dt_syn dt))"
    using lit_ok_nonempty [OF syntax_lits_ok(4) [OF assms(1)]] by simp
  then have end_moves: "dt_pos dt < ?p + length (sty_invoke_end (dt_syn dt))" using p(1) by linarith
  have bound: "?p + te + 1 \<le> length raw" if "strchr (drop ?p raw) 0x3e = Some te" for te
    using strchr_bound [OF that] p(2) by simp
  from step p end_moves assms(1,3) show ?thesis
    by (auto simp: step_structural_def Let_def track_advances_def
        dest: full_lit_bound bound split: if_splits option.splits)
qed

lemma track_step_advances:
  assumes ok: "dt_ok raw dt" and step: "track_step raw dt = Inr dt'"
  shows "track_advances raw dt dt'"
proof (cases "dt_mode dt")
  case DSML_TRACK_SEARCH
  with step obtain e sty where e: "dsml_find_tool_start_from raw (dt_pos dt) = Some (e, sty)"
    and dt': "dt' = dt\<lparr>dt_syn := sty, dt_pos := e, dt_mode := DSML_TRACK_STRUCTURAL, dt_decode := DSML_DECODE_STRUCTURAL\<rparr>"
    by (auto simp: track_step_def step_search_def split: option.splits)
  from e obtain p where p: "dt_pos dt \<le> p" "e = p + length (sty_calls_start sty)" "starts_at raw sty p"
    by (rule find_start_from_Some)
  then have "lit_ok (sty_calls_start sty)" using syntax_lits_ok(1) by (simp add: starts_at_def)
  moreover have "e \<le> length raw" using p(2,3) occurs_at_bound by (auto simp: starts_at_def)
  ultimately show ?thesis using p dt' by (auto simp: track_advances_def starts_at_def lit_ok_def)
next
  case DSML_TRACK_STRUCTURAL
  with ok step show ?thesis
    by (intro step_structural_advances) (auto simp: track_step_def dt_ok_def)
next
  case DSML_TRACK_STRING_BODY
  with ok step show ?thesis
    by (auto simp: track_step_def dt_ok_def step_string_body_def track_advances_def split: if_splits
        dest: close_param_advances)
next
  case DSML_TRACK_JSON_PARAM
  with ok step show ?thesis
    by (auto simp: track_step_def dt_ok_def step_json_param_def track_advances_def split: if_splits
        dest: close_param_advances)
next
  case DSML_TRACK_DONE
  with step show ?thesis by (simp add: track_step_def)
qed

text \<open>So the fuel of the update is enough, and more changes nothing.\<close>

lemma track_loop_fuel:
  "dt_ok raw dt \<Longrightarrow> length raw - dt_pos dt < n \<Longrightarrow>
   track_loop n raw dt = track_loop (Suc (length raw)) raw dt \<and> track_loop n raw dt \<noteq> None"
proof (induction "length raw - dt_pos dt" arbitrary: n dt rule: less_induct)
  case less
  obtain m where n: "n = Suc m" using less.prems(2) by (cases n) auto
  show ?case
  proof (cases "track_step raw dt")
    case (Inl r)
    then show ?thesis by (simp add: n)
  next
    case (Inr dt')
    have adv: "track_advances raw dt dt'" using less.prems(1) Inr by (rule track_step_advances)
    then have smaller: "length raw - dt_pos dt' < length raw - dt_pos dt" "length raw - dt_pos dt' < m"
      "length raw - dt_pos dt' < length raw"
      using less.prems(2) n by (auto simp: track_advances_def)
    have "track_loop m raw dt' = track_loop (Suc (length raw)) raw dt' \<and> track_loop m raw dt' \<noteq> None"
      "track_loop (length raw) raw dt' = track_loop (Suc (length raw)) raw dt'"
      using less.hyps smaller track_advances_ok [OF adv] by blast+
    then show ?thesis
      unfolding n track_loop.simps(2) [of m raw dt] track_loop.simps(2) [of "length raw" raw dt] Inr sum.case
      by metis
  qed
qed

lemma update_step:
  assumes "dt_ok raw dt"
  shows "dsml_decode_tracker_update dt raw =
     (case track_step raw dt of Inl r \<Rightarrow> Some r | Inr dt' \<Rightarrow> dsml_decode_tracker_update dt' raw)"
proof (cases "track_step raw dt")
  case (Inr dt')
  have adv: "track_advances raw dt dt'" using assms Inr by (rule track_step_advances)
  then have "length raw - dt_pos dt' < length raw" by (auto simp: track_advances_def)
  from track_loop_fuel [OF track_advances_ok [OF adv] this] Inr show ?thesis
    by (simp add: dsml_decode_tracker_update_def del: track_loop.simps
        add: track_loop.simps(2) [of "length raw" raw dt])
qed (simp add: dsml_decode_tracker_update_def)

section \<open>A longer text\<close>

text \<open>The texts after which a token may end without harm.\<close>

definition calm :: "byte list \<Rightarrow> bool" where
  "calm raw \<longleftrightarrow> raw = [] \<or> last raw \<noteq> 0x3c"

lemma full_lit_append: "raw_full_lit raw pos lit \<Longrightarrow> raw_full_lit (raw @ ext) pos lit"
  by (auto simp: raw_full_lit_def)

lemma new_full_lit:
  assumes "raw_full_lit (raw @ ext) pos lit" "\<not> raw_full_lit raw pos lit" "pos < length raw" "calm raw" "lit_ok lit"
  shows "raw_partial_lit_min raw pos lit 2"
proof -
  have at: "take (length lit) (drop pos raw @ ext) = lit" using assms(1,3) by (simp add: raw_full_lit_def)
  have short: "length raw - pos < length lit"
  proof (rule ccontr)
    assume "\<not> ?thesis"
    then have "raw_full_lit raw pos lit" using at assms(3) by (simp add: raw_full_lit_def)
    with assms(2) show False by simp
  qed
  then have pre: "drop pos raw = take (length raw - pos) lit"
    using arg_cong [OF at, of "take (length raw - pos)"] by simp
  have "length raw - pos \<noteq> 1"
  proof
    assume one: "length raw - pos = 1"
    have split: "butlast raw @ [last raw] = raw" using assms(3) by (intro append_butlast_last_id) auto
    have "pos = length (butlast raw)" using one assms(3) by simp
    with split have "drop pos raw = [last raw]" unfolding append_eq_conv_conj by metis
    moreover have "take 1 lit = [hd lit]" using assms(5) by (cases lit) (auto simp: lit_ok_def)
    ultimately have "last raw = hd lit" using pre one by simp
    then have "last raw = 0x3c" using assms(5) by (simp add: lit_ok_def)
    with assms(3,4) show False by (auto simp: calm_def)
  qed
  with short pre assms(3) show ?thesis by (auto simp: raw_partial_lit_min_def Let_def)
qed

lemma partial_lit_shrink:
  assumes "raw_partial_lit_min (raw @ ext) pos lit 2" "pos < length raw" "calm raw" "lit_ok lit"
  shows "raw_partial_lit_min raw pos lit 2"
proof -
  from assms(1,2) have all: "length raw + length ext - pos < length lit"
    "drop pos raw @ ext = take (length raw + length ext - pos) lit"
    by (auto simp: raw_partial_lit_min_def Let_def)
  from arg_cong [OF all(2), of "take (length raw - pos)"] assms(2)
  have pre: "drop pos raw = take (length raw - pos) lit" by (simp add: min.absorb1)
  then have "raw_full_lit (raw @ drop (length raw - pos) lit) pos lit"
    using assms(2) all(1) by (simp add: raw_full_lit_def)
  moreover have "\<not> raw_full_lit raw pos lit" using all(1) by (auto simp: raw_full_lit_def)
  ultimately show ?thesis using assms(2-4) by (rule new_full_lit)
qed

lemma starts_at_append: "starts_at raw sty p \<Longrightarrow> starts_at (raw @ ext) sty p"
  using occurs_at_bound [of "sty_calls_start sty" raw p] by (auto simp: starts_at_def occurs_at_def)

lemma starts_at_shrink:
  "starts_at (raw @ ext) sty p \<Longrightarrow> p + length (sty_calls_start sty) \<le> length raw \<Longrightarrow> starts_at raw sty p"
  by (simp add: starts_at_def occurs_at_def)

text \<open>Two start markers never overlap, so the text after the first one cannot move it.\<close>

lemma starts_at_apart:
  assumes "starts_at raw sty p" "starts_at raw sty' q" "q < p"
  shows "q + length (sty_calls_start sty') \<le> p"
proof (rule ccontr)
  assume "\<not> ?thesis"
  then have inside: "p - q < length (sty_calls_start sty')" using assms(3) by linarith
  from assms(1,2) syntax_lits_ok(1) have ok: "lit_ok (sty_calls_start sty)" "lit_ok (sty_calls_start sty')"
    by (simp_all add: starts_at_def)
  have "0 < length (sty_calls_start sty)" using lit_ok_nonempty [OF ok(1)] by simp
  moreover have "p + length (sty_calls_start sty) \<le> length raw"
    using assms(1) by (intro occurs_at_bound) (simp add: starts_at_def)
  ultimately have "p < length raw" by linarith
  then have "raw ! p = hd (take (length (sty_calls_start sty)) (drop p raw))"
    using lit_ok_nonempty [OF ok(1)] by (simp add: hd_drop_conv_nth)
  then have "raw ! p = hd (sty_calls_start sty)" using assms(1) by (simp add: starts_at_def occurs_at_def)
  then have "raw ! p = 0x3c" using ok(1) by (simp add: lit_ok_def)
  moreover have "raw ! p = sty_calls_start sty' ! (p - q)"
  proof -
    have "sty_calls_start sty' ! (p - q) = take (length (sty_calls_start sty')) (drop q raw) ! (p - q)"
      using assms(2) by (simp add: starts_at_def occurs_at_def)
    also have "\<dots> = drop q raw ! (p - q)" using inside by (rule nth_take)
    also have "\<dots> = raw ! p" using assms(2,3) by (simp add: starts_at_def occurs_at_def)
    finally show ?thesis ..
  qed
  moreover have "sty_calls_start sty' ! (p - q) \<in> set (tl (sty_calls_start sty'))"
    using inside assms(3) by (cases "sty_calls_start sty'") (auto simp: nth_Cons' )
  ultimately show False using ok(2) by (simp add: lit_ok_def)
qed

lemma find_start_append:
  assumes "dsml_find_tool_start_from raw start = Some (e, sty)"
  shows "dsml_find_tool_start_from (raw @ ext) start = Some (e, sty)"
proof -
  from assms obtain p where p: "start \<le> p" "e = p + length (sty_calls_start sty)" "starts_at raw sty p"
    and min: "\<And>sty' q. start \<le> q \<Longrightarrow> starts_at raw sty' q \<Longrightarrow> p \<le> q"
    by (rule find_start_from_Some) blast
  have "dsml_find_tool_start_from (raw @ ext) start = Some (p + length (sty_calls_start sty), sty)"
  proof (rule find_start_fromI)
    fix sty' q assume q: "start \<le> q" "starts_at (raw @ ext) sty' q"
    show "p \<le> q"
    proof (rule ccontr)
      assume "\<not> p \<le> q"
      then have "q + length (sty_calls_start sty') \<le> p"
        using starts_at_apart [OF starts_at_append [OF p(3)] q(2)] by simp
      moreover have "p \<le> length raw" using p(3) by (simp add: starts_at_def occurs_at_def)
      ultimately have "starts_at raw sty' q" using q(2) starts_at_shrink by simp
      with min q(1) \<open>\<not> p \<le> q\<close> show False by blast
    qed
  qed (use p starts_at_append in auto)
  with p(2) show ?thesis by simp
qed

lemma takeWhile_append_short: "length (takeWhile P s) < length s \<Longrightarrow> takeWhile P (s @ ext) = takeWhile P s"
  by (induction s) auto

lemma takeWhile_drop_length: "takeWhile P (drop (length (takeWhile P xs)) xs) = []"
  by (induction xs) auto

lemma skip_space_append:
  "skip_space_from raw pos < length raw \<Longrightarrow> pos \<le> length raw \<Longrightarrow>
   skip_space_from (raw @ ext) pos = skip_space_from raw pos"
  using takeWhile_append_short [of isspace "drop pos raw" ext] by (simp add: skip_space_from_def less_diff_conv2)

lemma skip_space_resume:
  "pos \<le> length raw \<Longrightarrow> skip_space_from (raw @ ext) (skip_space_from raw pos) = skip_space_from (raw @ ext) pos"
proof -
  assume pos: "pos \<le> length raw"
  show ?thesis
  proof (cases "skip_space_from raw pos < length raw")
    case True
    have "drop (skip_space_from raw pos) raw = drop (length (takeWhile isspace (drop pos raw))) (drop pos raw)"
      by (simp add: skip_space_from_def add.commute)
    then have "takeWhile isspace (drop (skip_space_from raw pos) raw) = []"
      using takeWhile_drop_length by metis
    with True show ?thesis using skip_space_append [OF True pos] skip_space_append [of raw "skip_space_from raw pos" ext]
      by (simp add: skip_space_from_def)
  next
    case False
    then have whole: "skip_space_from raw pos = length raw" using skip_space_bounds [OF pos] by simp
    then have "length (takeWhile isspace (drop pos raw)) = length (drop pos raw)"
      using pos by (simp add: skip_space_from_def)
    then have "takeWhile isspace (drop pos raw) = drop pos raw"
      by (metis takeWhile_eq_take take_all order_refl)
    then have "\<forall>x \<in> set (drop pos raw). isspace x" by (metis takeWhile_eq_all_conv)
    with whole pos show ?thesis by (simp add: skip_space_from_def)
  qed
qed

lemma strchr_extend: "strchr s c = Some k \<Longrightarrow> strchr (s @ ext) c = Some k"
  by (auto simp: strchr_def Let_def takeWhile_append_short split: if_splits)

lemma attr_append: "te \<le> length raw \<Longrightarrow> dsml_attr_is_string_true (raw @ ext) p te = dsml_attr_is_string_true raw p te"
  by (auto simp: dsml_attr_is_string_true_def)

lemma full_lits_apart:
  assumes "sty \<in> set dsml_syntaxes" "i < 4" "j < 4" "i \<noteq> j"
    and "raw_full_lit raw pos (syntax_lits sty ! i)"
  shows "\<not> raw_full_lit (raw @ ext) pos (syntax_lits sty ! j)"
proof
  assume "raw_full_lit (raw @ ext) pos (syntax_lits sty ! j)"
  moreover have "raw_full_lit (raw @ ext) pos (syntax_lits sty ! i)" using assms(5) by (rule full_lit_append)
  ultimately have "occurs_at (syntax_lits sty ! i) (raw @ ext) pos" "occurs_at (syntax_lits sty ! j) (raw @ ext) pos"
    by (simp_all add: raw_full_lit_def occurs_at_def)
  then have "prefix (syntax_lits sty ! i) (syntax_lits sty ! j) \<or> prefix (syntax_lits sty ! j) (syntax_lits sty ! i)"
    using occurs_prefix nat_le_linear by metis
  with syntaxes_ok [OF assms(1)] assms(2-4) show False by (auto simp: syntax_ok_def)
qed

lemma step_structural_append:
  assumes "dt_syn dt \<in> set dsml_syntaxes" "dt_pos dt \<le> length raw" and step: "step_structural raw dt = Inr dt'"
  shows "step_structural (raw @ ext) dt = Inr dt'"
proof -
  define p where "p = skip_space_from raw (dt_pos dt)"
  let ?s = "dt_syn dt"
  have p: "p < length raw" using step by (auto simp: step_structural_def Let_def p_def split: if_splits)
  have skip: "skip_space_from (raw @ ext) (dt_pos dt) = p" "drop p (raw @ ext) = drop p raw @ ext"
    using skip_space_append assms(2) p by (simp_all add: p_def)
  note apart = full_lits_apart [OF assms(1), of _ _ raw p ext, unfolded syntax_lits_def]
  consider "raw_full_lit raw p (sty_invoke_end ?s)" | "raw_full_lit raw p (sty_invoke_start ?s)"
    | "raw_full_lit raw p (sty_param_start ?s)"
    using step p by (auto simp: step_structural_def Let_def p_def [symmetric] split: if_splits)
  then show ?thesis
  proof cases
    case 1
    then have "\<not> raw_full_lit (raw @ ext) p (sty_calls_end ?s)" using apart [of 1 0] by simp
    with step 1 p skip show ?thesis
      by (auto simp: step_structural_def Let_def p_def [symmetric] full_lit_append split: if_splits)
  next
    case 2
    then have "\<not> raw_full_lit (raw @ ext) p (sty_calls_end ?s)" "\<not> raw_full_lit (raw @ ext) p (sty_invoke_end ?s)"
      using apart [of 2 0] apart [of 2 1] by (simp_all add: numeral_2_eq_2)
    with step 2 p skip show ?thesis
      by (auto simp: step_structural_def Let_def p_def [symmetric] full_lit_append strchr_extend
          split: if_splits option.splits)
  next
    case 3
    then have new: "\<not> raw_full_lit (raw @ ext) p (sty_calls_end ?s)" "\<not> raw_full_lit (raw @ ext) p (sty_invoke_end ?s)"
      "\<not> raw_full_lit (raw @ ext) p (sty_invoke_start ?s)"
      using apart [of 3 0] apart [of 3 1] apart [of 3 2] by (simp_all add: numeral_2_eq_2 numeral_3_eq_3)
    have old: "\<not> raw_full_lit raw p (sty_calls_end ?s)" "\<not> raw_full_lit raw p (sty_invoke_end ?s)"
      "\<not> raw_full_lit raw p (sty_invoke_start ?s)" using new full_lit_append by blast+
    from step 3 p old obtain te where te: "strchr (drop p raw) 0x3e = Some te"
      by (auto simp: step_structural_def Let_def p_def [symmetric] split: option.splits)
    have "p + te + 1 \<le> length raw" using strchr_bound [OF te] p by simp
    with step 3 p skip old new te strchr_extend [OF te, of ext] full_lit_append [OF 3, of ext] show ?thesis
      by (simp add: step_structural_def Let_def p_def [symmetric] attr_append)
  qed
qed

lemma track_step_append:
  assumes ok: "dt_ok raw dt" and "calm raw" and step: "track_step raw dt = Inr dt'"
  shows "track_step (raw @ ext) dt = Inr dt'"
proof (cases "dt_mode dt")
  case DSML_TRACK_SEARCH
  with step show ?thesis
    by (auto simp: track_step_def step_search_def find_start_append split: option.splits prod.splits)
next
  case DSML_TRACK_STRUCTURAL
  with ok step show ?thesis by (simp add: track_step_def dt_ok_def step_structural_append)
next
  case DSML_TRACK_STRING_BODY
  with ok have lit: "lit_ok (sty_param_end (dt_syn dt))" by (simp add: dt_ok_def syntax_lits_ok)
  have "dt_pos dt < length raw" using DSML_TRACK_STRING_BODY step by (auto simp: track_step_def step_string_body_def split: if_splits)
  with DSML_TRACK_STRING_BODY step show ?thesis
    using new_full_lit [OF _ _ _ \<open>calm raw\<close> lit] partial_lit_shrink [OF _ _ \<open>calm raw\<close> lit]
    by (auto simp: track_step_def step_string_body_def full_lit_append split: if_splits)
next
  case DSML_TRACK_JSON_PARAM
  with ok have lit: "lit_ok (sty_param_end (dt_syn dt))" by (simp add: dt_ok_def syntax_lits_ok)
  have "dt_pos dt < length raw" using DSML_TRACK_JSON_PARAM step by (auto simp: track_step_def step_json_param_def split: if_splits)
  with DSML_TRACK_JSON_PARAM step show ?thesis
    using new_full_lit [OF _ _ _ \<open>calm raw\<close> lit] partial_lit_shrink [OF _ _ \<open>calm raw\<close> lit]
    by (auto simp: track_step_def step_json_param_def full_lit_append nth_append split: if_splits)
next
  case DSML_TRACK_DONE
  with step show ?thesis by (simp add: track_step_def)
qed

section \<open>Going on where the last token stopped\<close>

text \<open>The last decision is an output; no step reads it.\<close>

lemma step_decode:
  "\<exists>d'. track_step raw (dt\<lparr>dt_decode := d\<rparr>) = map_sum id (\<lambda>t. t\<lparr>dt_decode := d'\<rparr>) (track_step raw dt)"
proof (cases "dt_mode dt")
  case DSML_TRACK_STRUCTURAL
  have same: "(step_structural raw dt = Inl r \<longrightarrow> step_structural raw (dt\<lparr>dt_decode := d\<rparr>) = Inl r)
     \<and> (step_structural raw dt = Inr t \<longrightarrow> (\<exists>d'. step_structural raw (dt\<lparr>dt_decode := d\<rparr>) = Inr (t\<lparr>dt_decode := d'\<rparr>)))" for r t
    by (cases dt) (auto simp: step_structural_def Let_def split: if_splits option.splits)
  show ?thesis
  proof (cases "step_structural raw dt")
    case (Inl r)
    with same [of r] DSML_TRACK_STRUCTURAL show ?thesis by (simp add: track_step_def)
  next
    case (Inr t)
    with same [of _ t] DSML_TRACK_STRUCTURAL show ?thesis by (auto simp: track_step_def)
  qed
next
  case DSML_TRACK_SEARCH
  then show ?thesis
    by (cases dt) (auto simp: track_step_def step_search_def split: option.splits)
next
  case DSML_TRACK_STRING_BODY
  then show ?thesis
    by (cases dt) (auto simp: track_step_def step_string_body_def close_param_def)
next
  case DSML_TRACK_JSON_PARAM
  then show ?thesis
    by (cases dt) (auto simp: track_step_def step_json_param_def close_param_def json_char_def)
next
  case DSML_TRACK_DONE
  then show ?thesis by (cases dt) (simp add: track_step_def)
qed

lemma loop_decode: "track_loop n raw (dt\<lparr>dt_decode := d\<rparr>) = track_loop n raw dt"
proof (induction n arbitrary: dt d)
  case (Suc n)
  obtain d' where d': "track_step raw (dt\<lparr>dt_decode := d\<rparr>) = map_sum id (\<lambda>t. t\<lparr>dt_decode := d'\<rparr>) (track_step raw dt)"
    using step_decode by blast
  show ?case using Suc by (cases "track_step raw dt") (simp_all add: d')
qed simp

text \<open>A tracker that returned behaves on a longer text as the one it came from.\<close>

lemma search_resume:
  assumes ok: "dt_ok raw dt" and mode: "dt_mode dt = DSML_TRACK_SEARCH" and none: "track_step raw dt = Inl r"
  shows "track_step (raw @ ext) r = track_step (raw @ ext) dt"
proof -
  let ?hold = "length raw - dsml_max_tool_start_len"
  from none mode have no: "dsml_find_tool_start_from raw (dt_pos dt) = None"
    and r: "r = dt\<lparr>dt_pos := ?hold, dt_decode := DSML_DECODE_OUTSIDE\<rparr>"
    by (auto simp: track_step_def step_search_def split: option.splits prod.splits if_splits)
  from ok mode have pos: "dt_pos dt \<le> ?hold" "dt_pos dt \<le> length raw" by (auto simp: dt_ok_def)
  have late: "?hold \<le> q" if "starts_at (raw @ ext) sty q" "dt_pos dt \<le> q" for sty q
  proof (rule ccontr)
    assume "\<not> ?hold \<le> q"
    moreover have "length (sty_calls_start sty) \<le> dsml_max_tool_start_len"
      using that(1) syntaxes_ok by (auto simp: starts_at_def syntax_ok_def)
    ultimately have "starts_at raw sty q" using that(1) starts_at_shrink by simp
    with no that(2) pos(2) show False using find_start_from_None by blast
  qed
  have "dsml_find_tool_start_from (raw @ ext) ?hold = dsml_find_tool_start_from (raw @ ext) (dt_pos dt)"
  proof (cases "dsml_find_tool_start_from (raw @ ext) (dt_pos dt)")
    case None
    with pos have "dsml_find_tool_start_from (raw @ ext) ?hold = None"
      by (simp add: find_start_from_None)
    with None show ?thesis by simp
  next
    case (Some es)
    obtain e sty where es: "es = (e, sty)" by (cases es)
    from Some [unfolded es] obtain p where p: "dt_pos dt \<le> p" "e = p + length (sty_calls_start sty)"
      "starts_at (raw @ ext) sty p" "\<And>sty' q. dt_pos dt \<le> q \<Longrightarrow> starts_at (raw @ ext) sty' q \<Longrightarrow> p \<le> q"
      by (rule find_start_from_Some) blast
    have "dsml_find_tool_start_from (raw @ ext) ?hold = Some (p + length (sty_calls_start sty), sty)"
      using late p pos(1) by (intro find_start_fromI) auto
    with Some es p(2) show ?thesis by simp
  qed
  with mode r show ?thesis by (cases dt) (simp add: track_step_def step_search_def split: option.split)
qed

lemma structural_resume:
  assumes "dt_pos dt \<le> length raw" "step_structural raw dt = Inl r" "dt_mode dt = DSML_TRACK_STRUCTURAL"
  shows "r = dt\<lparr>dt_pos := skip_space_from raw (dt_pos dt), dt_decode := DSML_DECODE_STRUCTURAL\<rparr>
    \<or> dt_mode r = DSML_TRACK_DONE \<and> dt_decode r = DSML_DECODE_OUTSIDE \<and> step_structural (raw @ ext) dt = Inl r"
proof -
  let ?p = "skip_space_from raw (dt_pos dt)"
  show ?thesis
  proof (cases "?p < length raw \<and> raw_full_lit raw ?p (sty_calls_end (dt_syn dt))")
    case True
    then have "skip_space_from (raw @ ext) (dt_pos dt) = ?p" using assms(1) by (simp add: skip_space_append)
    with True assms(2) show ?thesis
      by (auto simp: step_structural_def Let_def full_lit_append split: if_splits)
  next
    case False
    with assms(2) show ?thesis
      by (auto simp: step_structural_def Let_def split: if_splits option.splits)
  qed
qed

lemma track_resume:
  assumes ok: "dt_ok raw dt" and ret: "track_step raw dt = Inl r"
  shows "dsml_decode_tracker_update r (raw @ ext) = dsml_decode_tracker_update dt (raw @ ext)"
proof (cases "dt_mode dt")
  case DSML_TRACK_SEARCH
  with search_resume [OF ok _ ret, of ext] show ?thesis by (simp add: dsml_decode_tracker_update_def)
next
  case DSML_TRACK_DONE
  with ret show ?thesis by (auto simp: track_step_def dsml_decode_tracker_update_def loop_decode simp del: track_loop.simps)
next
  case DSML_TRACK_STRING_BODY
  with ret have "r = dt\<lparr>dt_decode := dt_decode r\<rparr>"
    by (auto simp: track_step_def step_string_body_def split: if_splits)
  then show ?thesis unfolding dsml_decode_tracker_update_def by (metis loop_decode)
next
  case DSML_TRACK_JSON_PARAM
  with ret have "r = dt\<lparr>dt_decode := dt_decode r\<rparr>"
    by (auto simp: track_step_def step_json_param_def split: if_splits)
  then show ?thesis unfolding dsml_decode_tracker_update_def by (metis loop_decode)
next
  case DSML_TRACK_STRUCTURAL
  from ok have pos: "dt_pos dt \<le> length raw" by (simp add: dt_ok_def)
  from ret DSML_TRACK_STRUCTURAL have "step_structural raw dt = Inl r" by (simp add: track_step_def)
  from structural_resume [OF pos this DSML_TRACK_STRUCTURAL, of ext] show ?thesis
  proof
    assume r: "r = dt\<lparr>dt_pos := skip_space_from raw (dt_pos dt), dt_decode := DSML_DECODE_STRUCTURAL\<rparr>"
    have "step_structural (raw @ ext) (dt\<lparr>dt_pos := skip_space_from raw (dt_pos dt)\<rparr>) = step_structural (raw @ ext) dt"
      by (simp add: step_structural_def skip_space_resume [OF pos])
    with DSML_TRACK_STRUCTURAL have "dsml_decode_tracker_update (dt\<lparr>dt_pos := skip_space_from raw (dt_pos dt)\<rparr>) (raw @ ext)
      = dsml_decode_tracker_update dt (raw @ ext)"
      by (simp add: dsml_decode_tracker_update_def track_step_def)
    then show ?thesis unfolding r by (simp add: dsml_decode_tracker_update_def loop_decode del: track_loop.simps)
  next
    assume r: "dt_mode r = DSML_TRACK_DONE \<and> dt_decode r = DSML_DECODE_OUTSIDE \<and> step_structural (raw @ ext) dt = Inl r"
    then have "r\<lparr>dt_decode := DSML_DECODE_OUTSIDE\<rparr> = r" by (cases r) simp
    with r DSML_TRACK_STRUCTURAL show ?thesis by (simp add: dsml_decode_tracker_update_def track_step_def)
  qed
qed

section \<open>Token by token\<close>

lemma update_ok_loop:
  "dt_ok raw dt \<Longrightarrow> track_loop n raw dt = Some r \<Longrightarrow> dt_ok raw r"
proof (induction n arbitrary: dt)
  case (Suc n)
  show ?case
  proof (cases "track_step raw dt")
    case (Inr dt')
    with Suc show ?thesis using track_advances_ok track_step_advances by fastforce
  next
    case (Inl t)
    with Suc.prems have r: "track_step raw dt = Inl r" by simp
    have pos: "dt_pos dt \<le> length raw" using Suc.prems by (simp add: dt_ok_def)
    show ?thesis
    proof (cases "dt_mode dt")
      case DSML_TRACK_STRUCTURAL
      with r Suc.prems(1) skip_space_bounds [OF pos] show ?thesis
        by (auto simp: track_step_def step_structural_def Let_def dt_ok_def dest: full_lit_bound
            split: if_splits option.splits)
    qed (use r Suc.prems(1) in \<open>auto simp: track_step_def step_search_def step_string_body_def step_json_param_def
        dt_ok_def split: if_splits option.splits\<close>)
  qed
qed simp

lemma update_ok:
  assumes "dt_ok raw dt"
  obtains r where "dsml_decode_tracker_update dt raw = Some r" "dt_ok raw r"
proof -
  have "track_loop (Suc (length raw)) raw dt \<noteq> None" using track_loop_fuel [OF assms, of "Suc (length raw)"] by simp
  then obtain r where "track_loop (Suc (length raw)) raw dt = Some r" by blast
  with that update_ok_loop [OF assms this] show thesis by (simp add: dsml_decode_tracker_update_def del: track_loop.simps)
qed

lemma loop_resume:
  "track_loop n raw dt = Some r \<Longrightarrow> dt_ok raw dt \<Longrightarrow> calm raw \<Longrightarrow>
   dsml_decode_tracker_update r (raw @ ext) = dsml_decode_tracker_update dt (raw @ ext)"
proof (induction n arbitrary: dt)
  case (Suc n)
  show ?case
  proof (cases "track_step raw dt")
    case (Inl t)
    with Suc.prems show ?thesis by (simp add: track_resume)
  next
    case (Inr dt')
    with Suc have "dsml_decode_tracker_update r (raw @ ext) = dsml_decode_tracker_update dt' (raw @ ext)"
      using track_advances_ok track_step_advances by (metis sum.simps(6) track_loop.simps(2))
    also have "\<dots> = dsml_decode_tracker_update dt (raw @ ext)"
      using update_step [OF dt_ok_append [OF Suc.prems(2)], of ext] track_step_append [OF Suc.prems(2,3) Inr, of ext]
      by simp
    finally show ?thesis .
  qed
qed simp

lemma update_resume:
  "dsml_decode_tracker_update dt raw = Some r \<Longrightarrow> dt_ok raw dt \<Longrightarrow> calm raw \<Longrightarrow>
   dsml_decode_tracker_update r (raw @ ext) = dsml_decode_tracker_update dt (raw @ ext)"
  unfolding dsml_decode_tracker_update_def [of dt raw] by (rule loop_resume)

text \<open>The sampling loop: after each token the tracker sees the text so far.\<close>

fun track_tokens :: "dsml_decode_tracker \<Rightarrow> byte list \<Rightarrow> byte list list \<Rightarrow> dsml_decode_tracker option" where
  "track_tokens dt raw [] = Some dt"
| "track_tokens dt raw (piece # pieces) =
     (case dsml_decode_tracker_update dt (raw @ piece) of
        None \<Rightarrow> None
      | Some dt' \<Rightarrow> track_tokens dt' (raw @ piece) pieces)"

lemma track_tokens_resume:
  assumes "dt_ok raw dt" "pieces \<noteq> []"
    and "\<forall>i. 0 < i \<longrightarrow> i < length pieces \<longrightarrow> calm (raw @ concat (take i pieces))"
  shows "track_tokens dt raw pieces = dsml_decode_tracker_update dt (raw @ concat pieces)"
  using assms
proof (induction pieces arbitrary: dt raw)
  case (Cons piece pieces)
  have ok: "dt_ok (raw @ piece) dt" using Cons.prems(1) by (rule dt_ok_append)
  then obtain r where r: "dsml_decode_tracker_update dt (raw @ piece) = Some r" "dt_ok (raw @ piece) r"
    by (rule update_ok)
  show ?case
  proof (cases "pieces = []")
    case False
    then have calm: "calm (raw @ piece)" using Cons.prems(3) [rule_format, of 1] by (cases pieces) simp_all
    have later: "\<forall>i. 0 < i \<longrightarrow> i < length pieces \<longrightarrow> calm ((raw @ piece) @ concat (take i pieces))"
    proof (intro allI impI)
      fix i assume "i < length pieces"
      then show "calm ((raw @ piece) @ concat (take i pieces))" using Cons.prems(3) [rule_format, of "Suc i"] by simp
    qed
    have "track_tokens dt raw (piece # pieces) = dsml_decode_tracker_update r ((raw @ piece) @ concat pieces)"
      using Cons.IH [OF r(2) False later] r(1) by simp
    also have "\<dots> = dsml_decode_tracker_update dt ((raw @ piece) @ concat pieces)"
      using update_resume [OF r(1) ok calm] .
    finally show ?thesis by simp
  qed (simp add: r(1))
qed simp

section \<open>A closing tag cut after its first byte\<close>

text \<open>
  While no closing tag is in sight the walk over a string parameter stays in it, and it takes
  every byte unless the text ends in at least two bytes of a closing tag.
\<close>

lemma string_body_stays:
  assumes "dt_mode dt = DSML_TRACK_STRING_BODY" "dt_syn dt \<in> set dsml_syntaxes" "dt_pos dt \<le> length raw"
    and "\<forall>q. dt_pos dt \<le> q \<longrightarrow> \<not> raw_full_lit raw q (sty_param_end (dt_syn dt))"
  shows "\<exists>r. dsml_decode_tracker_update dt raw = Some r \<and> dt_mode r = DSML_TRACK_STRING_BODY
    \<and> dt_syn r = dt_syn dt \<and> dt_pos dt \<le> dt_pos r \<and> dt_pos r \<le> length raw
    \<and> dsml_decode_state_is_tool (dt_decode r)
    \<and> ((\<forall>q. dt_pos dt \<le> q \<longrightarrow> \<not> raw_partial_lit_min raw q (sty_param_end (dt_syn dt)) 2) \<longrightarrow> dt_pos r = length raw)"
  using assms
proof (induction "length raw - dt_pos dt" arbitrary: dt rule: less_induct)
  case less
  let ?l = "sty_param_end (dt_syn dt)"
  have ok: "dt_ok raw dt" using less.prems by (simp add: dt_ok_def)
  note step = update_step [OF ok] and body = less.prems(1)
  consider "dt_pos dt = length raw"
    | "dt_pos dt < length raw" "raw_partial_lit_min raw (dt_pos dt) ?l 2"
    | "dt_pos dt < length raw" "\<not> raw_partial_lit_min raw (dt_pos dt) ?l 2"
    using less.prems(3) by linarith
  then show ?case
  proof cases
    case 3
    let ?dt = "dt\<lparr>dt_pos := dt_pos dt + 1\<rparr>"
    have "track_step raw dt = Inr ?dt"
      using 3 less.prems(4) body by (simp add: track_step_def step_string_body_def)
    with step have eq: "dsml_decode_tracker_update dt raw = dsml_decode_tracker_update ?dt raw" by simp
    have "length raw - dt_pos ?dt < length raw - dt_pos dt" using 3 by simp
    from less.hyps [OF this] less.prems 3 show ?thesis unfolding eq by (auto dest: Suc_leD)
  qed (use step less.prems in \<open>auto simp: track_step_def step_string_body_def dsml_decode_state_is_tool_def\<close>)
qed

lemma tokens_stay_in_body:
  assumes "dt_mode dt = DSML_TRACK_STRING_BODY" "dt_syn dt \<in> set dsml_syntaxes" "dt_pos dt \<le> length raw"
    and "\<forall>q. dt_pos dt \<le> q \<longrightarrow> \<not> raw_full_lit (raw @ concat pieces) q (sty_param_end (dt_syn dt))" "pieces \<noteq> []"
  shows "\<exists>r. track_tokens dt raw pieces = Some r \<and> dt_mode r = DSML_TRACK_STRING_BODY
    \<and> dsml_decode_state_is_tool (dt_decode r)"
  using assms
proof (induction pieces arbitrary: dt raw)
  case (Cons piece pieces)
  have "\<forall>q. dt_pos dt \<le> q \<longrightarrow> \<not> raw_full_lit (raw @ piece) q (sty_param_end (dt_syn dt))"
    using Cons.prems(4) full_lit_append [of "raw @ piece" _ _ "concat pieces"] by auto
  with string_body_stays [of dt "raw @ piece"] Cons.prems(1-3) obtain r
    where r: "dsml_decode_tracker_update dt (raw @ piece) = Some r" "dt_mode r = DSML_TRACK_STRING_BODY"
      "dt_syn r = dt_syn dt" "dt_pos dt \<le> dt_pos r" "dt_pos r \<le> length (raw @ piece)"
      "dsml_decode_state_is_tool (dt_decode r)" by auto
  show ?case
  proof (cases "pieces = []")
    case False
    have "\<forall>q. dt_pos r \<le> q \<longrightarrow> \<not> raw_full_lit ((raw @ piece) @ concat pieces) q (sty_param_end (dt_syn r))"
      using Cons.prems(4) r(3,4) by auto
    with Cons.IH [of r "raw @ piece"] r Cons.prems(2) False show ?thesis by simp
  qed (use r in simp)
qed simp

text \<open>In a literal the byte \<^verbatim>\<open><\<close> stands only at the front, so two literals never overlap.\<close>

lemma nth_tl_mem: "0 < k \<Longrightarrow> k < length l \<Longrightarrow> l ! k \<in> set (tl l)"
  by (cases l; cases k) simp_all

lemma full_lit_occurs: "raw_full_lit raw q lit \<Longrightarrow> occurs_at lit raw q"
  by (simp add: raw_full_lit_def occurs_at_def)

lemma full_lit_nth: "raw_full_lit raw q lit \<Longrightarrow> k < length lit \<Longrightarrow> raw ! (q + k) = lit ! k"
  by (metis (no_types, lifting) raw_full_lit_def nth_take nth_drop)

lemma lit_ok_nth: "lit_ok l \<Longrightarrow> k < length l \<Longrightarrow> l ! k = 0x3c \<longleftrightarrow> k = 0"
  using nth_tl_mem [of k l] by (cases "k = 0") (auto simp: lit_ok_def hd_conv_nth)

lemma full_lit_before:
  assumes "raw_full_lit (u @ 0x3c # v) q lit" "lit_ok lit" "q < length u"
  shows "raw_full_lit u q lit"
proof -
  have "q + length lit \<le> length u"
  proof (rule ccontr)
    assume n: "\<not> ?thesis"
    then have "(u @ 0x3c # v) ! (q + (length u - q)) = lit ! (length u - q)"
      using assms(3) by (intro full_lit_nth [OF assms(1)]) simp
    with lit_ok_nth [OF assms(2), of "length u - q"] n assms(3) show False by (simp add: nth_append)
  qed
  with assms(1,3) show ?thesis by (simp add: raw_full_lit_def)
qed

lemma full_lit_after:
  assumes "raw_full_lit (u @ l @ v) q lit" "lit_ok lit" "lit_ok l" "length u < q"
  shows "length u + length l \<le> q"
proof (rule ccontr)
  assume n: "\<not> ?thesis"
  have "0 < length lit" using assms(2) by (auto simp: lit_ok_def)
  from full_lit_nth [OF assms(1) this] have "(u @ l @ v) ! q = lit ! 0" by simp
  with lit_ok_nth [OF assms(2) \<open>0 < length lit\<close>] have "(u @ l @ v) ! q = 0x3c" by simp
  moreover have "q - length u < length l" using n assms(4) by simp
  then have "(u @ l @ v) ! q = l ! (q - length u)" using assms(4) by (simp only: nth_append) simp
  ultimately show False using lit_ok_nth [OF assms(3), of "q - length u"] n assms(4) by simp
qed

lemma full_lit_not_here:
  assumes "raw_full_lit (u @ l @ v) q lit" "lit_ok lit" "lit_ok l" "\<not> prefix lit l" "\<not> prefix l lit" "length u \<le> q"
  shows "length u + length l \<le> q"
proof (cases "q = length u")
  case True
  have "occurs_at lit (u @ l @ v) q" using assms(1) by (rule full_lit_occurs)
  moreover have "occurs_at l (u @ l @ v) q" using True by (simp add: occurs_at_def)
  ultimately show ?thesis using assms(4,5) occurs_prefix nat_le_linear by metis
qed (use assms full_lit_after in auto)

lemma partial_lit_not_bracket: "lit_ok lit \<Longrightarrow> \<not> raw_partial_lit_min (raw @ [0x3c]) q lit 2"
proof
  assume l: "lit_ok lit" and p: "raw_partial_lit_min (raw @ [0x3c]) q lit 2"
  let ?k = "length raw - q"
  from p have q: "q < length raw" "Suc ?k < length lit" "drop q (raw @ [0x3c]) = take (Suc ?k) lit"
    by (auto simp: raw_partial_lit_min_def Let_def Suc_diff_le)
  have "drop q (raw @ [0x3c]) ! ?k = 0x3c" using q(1) by (simp add: nth_append)
  with q have "lit ! ?k = 0x3c" by simp
  with lit_ok_nth [OF l, of ?k] q(1,2) show False by simp
qed

text \<open>The closing literals that can follow a parameter are no prefixes of each other.\<close>

lemma closers_apart:
  assumes "sty \<in> set dsml_syntaxes"
  shows "\<not> prefix (sty_param_end sty) (sty_invoke_end sty)" "\<not> prefix (sty_invoke_end sty) (sty_param_end sty)"
    "\<not> prefix (sty_param_end sty) (sty_calls_end sty)" "\<not> prefix (sty_calls_end sty) (sty_param_end sty)"
    "lit_ok (sty_calls_end sty)"
  using assms by (auto simp: style_cases style_defs dsml_marker_defs ascii_def lit_ok_def)

lemma block_end_has_no_param_end:
  assumes "sty \<in> set dsml_syntaxes" "\<forall>q. \<not> occurs_at (sty_param_end sty) rest q" "length u < q"
  shows "\<not> raw_full_lit (u @ sty_param_end sty @ sty_invoke_end sty @ sty_calls_end sty @ rest) q (sty_param_end sty)"
proof
  let ?p = "sty_param_end sty" and ?i = "sty_invoke_end sty" and ?c = "sty_calls_end sty"
  note ok = syntax_lits_ok(2,4) [OF assms(1)] closers_apart [OF assms(1)]
  assume a: "raw_full_lit (u @ ?p @ ?i @ ?c @ rest) q ?p"
  have "length u + length ?p \<le> q" by (rule full_lit_after [OF a ok(1) ok(1) assms(3)])
  moreover have a1: "raw_full_lit ((u @ ?p) @ ?i @ ?c @ rest) q ?p" using a by simp
  ultimately have "length (u @ ?p) + length ?i \<le> q" using full_lit_not_here [OF a1 ok(1,2,3,4)] by simp
  moreover have a2: "raw_full_lit ((u @ ?p @ ?i) @ ?c @ rest) q ?p" using a by simp
  ultimately have "length (u @ ?p @ ?i) + length ?c \<le> q" using full_lit_not_here [OF a2 ok(1,7,5,6)] by simp
  then obtain j where "q = length (u @ ?p @ ?i @ ?c) + j" by (metis add.assoc length_append nat_le_iff_add)
  moreover have "occurs_at ?p ((u @ ?p @ ?i @ ?c) @ rest) q" using full_lit_occurs [OF a] by simp
  ultimately have "occurs_at ?p rest j" by (simp add: occurs_at_def del: append_assoc)
  with assms(2) show False by blast
qed

lemma first_token_takes_bracket:
  assumes "dt_mode dt = DSML_TRACK_STRING_BODY" "dt_syn dt \<in> set dsml_syntaxes" "dt_pos dt \<le> length raw"
    and "\<forall>q. dt_pos dt \<le> q \<longrightarrow> \<not> occurs_at (sty_param_end (dt_syn dt)) raw q"
  shows "\<exists>r. dsml_decode_tracker_update dt (raw @ [0x3c]) = Some r \<and> dt_mode r = DSML_TRACK_STRING_BODY
    \<and> dt_syn r = dt_syn dt \<and> dt_pos r = length raw + 1"
proof -
  note ok = syntax_lits_ok(2) [OF assms(2)]
  have "\<not> raw_full_lit (raw @ [0x3c]) q (sty_param_end (dt_syn dt))" if "dt_pos dt \<le> q" for q
  proof
    assume a: "raw_full_lit (raw @ [0x3c]) q (sty_param_end (dt_syn dt))"
    have "q < length raw" using full_lit_bound [OF a] ok by (simp add: lit_ok_def)
    from full_lit_occurs [OF full_lit_before [OF a ok this]] assms(4) that show False by blast
  qed
  with string_body_stays [OF assms(1,2), of "raw @ [0x3c]"] assms(3) partial_lit_not_bracket [OF ok]
  show ?thesis by auto
qed

text \<open>One look walks over the value up to its closing tag.\<close>

lemma walk_to:
  assumes "dt_mode dt = DSML_TRACK_STRING_BODY" "dt_syn dt \<in> set dsml_syntaxes" "dt_pos dt \<le> p" "p \<le> length raw"
    and "\<forall>q. dt_pos dt \<le> q \<longrightarrow> q < p \<longrightarrow> \<not> raw_full_lit raw q (sty_param_end (dt_syn dt))
        \<and> \<not> raw_partial_lit_min raw q (sty_param_end (dt_syn dt)) 2"
  shows "dsml_decode_tracker_update dt raw = dsml_decode_tracker_update (dt\<lparr>dt_pos := p\<rparr>) raw"
  using assms
proof (induction "p - dt_pos dt" arbitrary: dt)
  case 0
  then have "dt\<lparr>dt_pos := p\<rparr> = dt" by simp
  then show ?case by simp
next
  case (Suc k)
  let ?dt = "dt\<lparr>dt_pos := dt_pos dt + 1\<rparr>"
  have lt: "dt_pos dt < p" using Suc.hyps(2) by simp
  have ok: "dt_ok raw dt" using Suc.prems by (simp add: dt_ok_def)
  have "track_step raw dt = Inr ?dt"
    using Suc.prems lt by (simp add: track_step_def step_string_body_def)
  then have "dsml_decode_tracker_update dt raw = dsml_decode_tracker_update ?dt raw" using update_step [OF ok] by simp
  also have "\<dots> = dsml_decode_tracker_update (?dt\<lparr>dt_pos := p\<rparr>) raw"
    by (rule Suc.hyps(1)) (use Suc.prems Suc.hyps(2) lt in auto)
  finally show ?case by simp
qed

lemma full_lit_at: "raw_full_lit (u @ s) (length u) lit \<longleftrightarrow> starts_with lit s"
  by (auto simp: raw_full_lit_def starts_with_def dest: arg_cong [where f = length])

lemma skip_space_none: "\<not> isspace c \<Longrightarrow> skip_space_from (u @ c # s) (length u) = length u"
  by (simp add: skip_space_from_def)

lemma structural_after_param:
  assumes "sty \<in> set dsml_syntaxes" "dt_syn dt = sty" "dt_pos dt = length u"
  shows "step_structural (u @ sty_invoke_end sty @ s) dt = Inr (dt\<lparr>dt_pos := length u + length (sty_invoke_end sty)\<rparr>)"
    "step_structural (u @ sty_calls_end sty @ s) dt =
       Inl (dt\<lparr>dt_mode := DSML_TRACK_DONE, dt_pos := length u + length (sty_calls_end sty), dt_decode := DSML_DECODE_OUTSIDE\<rparr>)"
proof -
  have heads: "\<exists>t. sty_invoke_end sty = 0x3c # t" "\<exists>t. sty_calls_end sty = 0x3c # t"
    "\<not> starts_with (sty_calls_end sty) (sty_invoke_end sty @ s)"
    using assms(1) by (auto simp: style_cases style_defs dsml_marker_defs ascii_def starts_with_Cons)
  then have skip: "skip_space_from (u @ sty_invoke_end sty @ s) (length u) = length u"
    "skip_space_from (u @ sty_calls_end sty @ s) (length u) = length u"
    by (auto simp: skip_space_none isspace_def)
  show "step_structural (u @ sty_invoke_end sty @ s) dt = Inr (dt\<lparr>dt_pos := length u + length (sty_invoke_end sty)\<rparr>)"
    using heads assms(2,3) by (auto simp: step_structural_def Let_def skip full_lit_at)
  show "step_structural (u @ sty_calls_end sty @ s) dt =
       Inl (dt\<lparr>dt_mode := DSML_TRACK_DONE, dt_pos := length u + length (sty_calls_end sty), dt_decode := DSML_DECODE_OUTSIDE\<rparr>)"
    using heads assms(2,3) by (auto simp: step_structural_def Let_def skip full_lit_at)
qed

lemma whole_block_closes:
  assumes "dt_mode dt = DSML_TRACK_STRING_BODY" "dt_syn dt \<in> set dsml_syntaxes" "dt_pos dt \<le> length raw"
    and "\<forall>q. dt_pos dt \<le> q \<longrightarrow> \<not> occurs_at (sty_param_end (dt_syn dt)) raw q"
  shows "\<exists>whole. dsml_decode_tracker_update dt
        (raw @ sty_param_end (dt_syn dt) @ sty_invoke_end (dt_syn dt) @ sty_calls_end (dt_syn dt) @ rest) = Some whole
      \<and> dt_mode whole = DSML_TRACK_DONE \<and> dt_decode whole = DSML_DECODE_OUTSIDE"
proof -
  let ?p = "sty_param_end (dt_syn dt)" and ?i = "sty_invoke_end (dt_syn dt)" and ?c = "sty_calls_end (dt_syn dt)"
  let ?W = "raw @ ?p @ ?i @ ?c @ rest"
  note ok = syntax_lits_ok(2) [OF assms(2)]
  obtain t where lit: "?p = 0x3c # t" using ok by (cases ?p) (auto simp: lit_ok_def)
  have none: "\<not> raw_full_lit ?W q ?p \<and> \<not> raw_partial_lit_min ?W q ?p 2" if "dt_pos dt \<le> q" "q < length raw" for q
  proof
    show "\<not> raw_full_lit ?W q ?p"
    proof
      assume a: "raw_full_lit ?W q ?p"
      then have "raw_full_lit (raw @ 0x3c # (t @ ?i @ ?c @ rest)) q ?p" by (simp add: lit)
      from full_lit_occurs [OF full_lit_before [OF this ok that(2)]] assms(4) that(1) show False by blast
    qed
    have "length ?p \<le> length ?W - q" using that(2) by simp
    then show "\<not> raw_partial_lit_min ?W q ?p 2" unfolding raw_partial_lit_min_def by blast
  qed
  let ?d0 = "dt\<lparr>dt_pos := length raw\<rparr>"
  have "dsml_decode_tracker_update dt ?W = dsml_decode_tracker_update ?d0 ?W"
    by (rule walk_to) (use assms none in simp_all)
  moreover have "track_step ?W ?d0 = Inr (close_param ?d0)"
  proof -
    have "raw_full_lit ?W (length raw) ?p" by (simp add: full_lit_at)
    moreover have "?p \<noteq> []" using lit by simp
    ultimately show ?thesis using assms(1) by (simp add: track_step_def step_string_body_def)
  qed
  moreover have "dt_ok ?W ?d0" using assms(1,2) by (simp add: dt_ok_def)
  ultimately have e1: "dsml_decode_tracker_update dt ?W = dsml_decode_tracker_update (close_param ?d0) ?W"
    using update_step by simp
  let ?d1 = "close_param ?d0"
  let ?d2 = "?d1\<lparr>dt_pos := length (raw @ ?p) + length ?i\<rparr>"
  have d1: "dt_syn ?d1 = dt_syn dt" "dt_mode ?d1 = DSML_TRACK_STRUCTURAL" "dt_pos ?d1 = length (raw @ ?p)"
    by (simp_all add: close_param_def)
  have "track_step ((raw @ ?p) @ ?i @ ?c @ rest) ?d1 = Inr ?d2"
    using structural_after_param(1) [OF assms(2) d1(1,3)] d1(2) by (simp add: track_step_def del: append_assoc)
  then have s1: "track_step ?W ?d1 = Inr ?d2" by simp
  have ok1: "dt_ok ?W ?d1" "dt_ok ?W ?d2" using assms(2) d1 by (simp_all add: dt_ok_def)
  have d2: "dt_syn ?d2 = dt_syn dt" "dt_mode ?d2 = DSML_TRACK_STRUCTURAL" "dt_pos ?d2 = length (raw @ ?p @ ?i)"
    using d1 by simp_all
  have "\<exists>w. track_step ((raw @ ?p @ ?i) @ ?c @ rest) ?d2 = Inl w \<and> dt_mode w = DSML_TRACK_DONE \<and> dt_decode w = DSML_DECODE_OUTSIDE"
    using structural_after_param(2) [OF assms(2) d2(1,3)] d2(2) by (simp add: track_step_def del: append_assoc)
  then have s2: "\<exists>w. track_step ?W ?d2 = Inl w \<and> dt_mode w = DSML_TRACK_DONE \<and> dt_decode w = DSML_DECODE_OUTSIDE"
    by simp
  show ?thesis using e1 update_step [OF ok1(1)] update_step [OF ok1(2)] s1 s2 by auto
qed

section \<open>Properties\<close>

text \<open>The recognizer that runs after every token always returns: started as the server
  starts it and fed any text in any pieces, its endless loop ends, with a position inside the text.\<close>

theorem tracker_total:
  "\<exists>dt. track_tokens dsml_decode_tracker_init [] pieces = Some dt \<and> dt_ok (concat pieces) dt"
proof -
  have "\<exists>dt'. track_tokens dt raw pieces = Some dt' \<and> dt_ok (raw @ concat pieces) dt'" if "dt_ok raw dt" for dt raw
    using that
  proof (induction pieces arbitrary: dt raw)
    case (Cons piece pieces)
    from update_ok [OF dt_ok_append [OF Cons.prems, of piece]] obtain r
      where r: "dsml_decode_tracker_update dt (raw @ piece) = Some r" "dt_ok (raw @ piece) r" by blast
    with Cons.IH [OF r(2)] show ?case by simp
  qed simp
  from this [OF dt_ok_init, of "[]"] show ?thesis by simp
qed

text \<open>Claim C17.  Where the tokens are cut does not matter: as long as no token but the last ends right
  after a \<^verbatim>\<open><\<close>, following the reply token by token leaves the tracker, the sampling decision
  included, as one look at the whole reply does.\<close>

theorem tracker_token_independent:
  assumes "pieces \<noteq> []" "\<forall>i. 0 < i \<longrightarrow> i < length pieces \<longrightarrow> calm (concat (take i pieces))"
  shows "track_tokens dsml_decode_tracker_init [] pieces
    = dsml_decode_tracker_update dsml_decode_tracker_init (concat pieces)"
  using track_tokens_resume [OF dt_ok_init [of "[]"] assms(1)] assms(2) by simp

definition sample_block :: "byte list" where
  "sample_block = ascii ''<tool_calls><invoke name=\"f\"><parameter name=\"a\" string=\"true\">x''"

theorem tracker_token_independent_witness:
  "track_tokens dsml_decode_tracker_init [] [sample_block, ascii ''</par'', ascii ''ameter>'']
    = dsml_decode_tracker_update dsml_decode_tracker_init (concat [sample_block, ascii ''</par'', ascii ''ameter>''])"
proof (rule tracker_token_independent)
  have "calm sample_block" "calm (sample_block @ ascii ''</par'')" by code_simp+
  moreover have "i = 1 \<or> i = 2" if "0 < i" "i < length [sample_block, ascii ''</par'', ascii ''ameter>'']" for i
    using that by auto
  moreover have "concat (take 1 [sample_block, x, y]) = sample_block"
    "concat (take 2 [sample_block, x, y]) = sample_block @ x" for x y
    by (simp_all add: numeral_2_eq_2)
  ultimately show "\<forall>i. 0 < i \<longrightarrow> i < length [sample_block, ascii ''</par'', ascii ''ameter>''] \<longrightarrow>
      calm (concat (take i [sample_block, ascii ''</par'', ascii ''ameter>'']))" by metis
qed simp

text \<open>Claim C18.  It does matter when a token ends right after the \<^verbatim>\<open><\<close> of a closing parameter tag.
  Take any state of the tracker inside a string parameter, in any of the three syntaxes, and
  a text that goes on with a value \<open>raw\<close> without a closing tag, the closing tags of the parameter, the
  invocation and the block, and a rest without a closing parameter tag.  When one token ends right after
  the \<^verbatim>\<open><\<close> of the parameter's closing tag, then however the bytes after it are cut into tokens the
  tracker steps over that byte, never sees the tag, and still reports the inside of the parameter at
  the end, where one look at the same text reports that the block is closed.\<close>

theorem tracker_misses_split_close:
  assumes "dt_mode dt = DSML_TRACK_STRING_BODY" "dt_syn dt \<in> set dsml_syntaxes" "dt_pos dt \<le> length raw"
    and "\<forall>q. dt_pos dt \<le> q \<longrightarrow> \<not> occurs_at (sty_param_end (dt_syn dt)) raw q"
    and "seen @ piece = raw @ [0x3c]"
    and "concat pieces = tl (sty_param_end (dt_syn dt)) @ sty_invoke_end (dt_syn dt) @ sty_calls_end (dt_syn dt) @ rest"
    and "\<forall>q. \<not> occurs_at (sty_param_end (dt_syn dt)) rest q"
  shows "\<exists>missed whole. track_tokens dt seen (piece # pieces) = Some missed
      \<and> dsml_decode_tracker_update dt (seen @ concat (piece # pieces)) = Some whole
      \<and> dt_mode missed = DSML_TRACK_STRING_BODY \<and> dsml_decode_state_is_tool (dt_decode missed)
      \<and> dt_mode whole = DSML_TRACK_DONE \<and> \<not> dsml_decode_state_is_tool (dt_decode whole)"
proof -
  let ?p = "sty_param_end (dt_syn dt)"
  note ok = syntax_lits_ok(2) [OF assms(2)]
  have lit: "?p = 0x3c # tl ?p" using ok by (cases ?p) (auto simp: lit_ok_def)
  then have tx: "seen @ concat (piece # pieces) = raw @ ?p @ sty_invoke_end (dt_syn dt) @ sty_calls_end (dt_syn dt) @ rest"
    using assms(5,6) by (metis append.assoc append_Cons append_Nil concat.simps(2))
  obtain r where r: "dsml_decode_tracker_update dt (seen @ piece) = Some r" "dt_mode r = DSML_TRACK_STRING_BODY"
    "dt_syn r = dt_syn dt" "dt_pos r = length raw + 1"
    using first_token_takes_bracket [OF assms(1-4)] assms(5) by auto
  have "\<exists>missed. track_tokens r (seen @ piece) pieces = Some missed \<and> dt_mode missed = DSML_TRACK_STRING_BODY
      \<and> dsml_decode_state_is_tool (dt_decode missed)"
  proof (rule tokens_stay_in_body)
    show "\<forall>q. dt_pos r \<le> q \<longrightarrow> \<not> raw_full_lit ((seen @ piece) @ concat pieces) q (sty_param_end (dt_syn r))"
      using block_end_has_no_param_end [OF assms(2,7)] tx r(3,4) by simp
    show "pieces \<noteq> []" using assms(6) ok by (cases "tl ?p") (auto simp: lit_ok_def tl_Nil)
  qed (use r assms(2,5) in \<open>simp_all\<close>)
  moreover have "\<exists>whole. dsml_decode_tracker_update dt (seen @ concat (piece # pieces)) = Some whole
      \<and> dt_mode whole = DSML_TRACK_DONE \<and> dt_decode whole = DSML_DECODE_OUTSIDE"
    unfolding tx by (rule whole_block_closes [OF assms(1-4)])
  ultimately show ?thesis using r(1) by (auto simp: dsml_decode_state_is_tool_def)
qed

lemma tracker_misses_split_close_witness:
  "\<exists>dt missed whole. track_tokens dt sample_block ([0x3c] # [ascii ''/par'', ascii ''ameter></invoke></tool_calls>'']) = Some missed
      \<and> dsml_decode_tracker_update dt (sample_block @ concat ([0x3c] # [ascii ''/par'', ascii ''ameter></invoke></tool_calls>''])) = Some whole
      \<and> dt_mode missed = DSML_TRACK_STRING_BODY \<and> dsml_decode_state_is_tool (dt_decode missed)
      \<and> dt_mode whole = DSML_TRACK_DONE \<and> \<not> dsml_decode_state_is_tool (dt_decode whole)"
proof -
  let ?dt = "\<lparr>dt_mode = DSML_TRACK_STRING_BODY, dt_decode = DSML_DECODE_STRING_BODY, dt_syn = style_xml,
     dt_pos = length sample_block - 1, dt_json_in_string = False, dt_json_escaped = False\<rparr>"
  have "strstr (drop (length sample_block - 1) sample_block) (sty_param_end style_xml) = None" by code_simp
  then have "\<not> occurs_at (sty_param_end style_xml) sample_block q" if "length sample_block - 1 \<le> q" for q
    using that unfolding strstr_None occurs_at_drop
    by (metis occurs_at_drop le_add_diff_inverse diff_le_self)
  moreover have "\<not> occurs_at (sty_param_end style_xml) [] q" for q
    by (simp add: occurs_at_def style_xml_def ascii_def)
  moreover have "concat [ascii ''/par'', ascii ''ameter></invoke></tool_calls>'']
      = tl (sty_param_end style_xml) @ sty_invoke_end style_xml @ sty_calls_end style_xml @ []" by code_simp
  ultimately show ?thesis
    by (intro exI [of _ ?dt] tracker_misses_split_close [where raw = sample_block and rest = "[]"])
      (simp_all add: style_cases)
qed

end
