(* ===== verification/Ds4_ToolMem.thy ===== *)
theory Ds4_ToolMem
  imports Ds4_Track "HOL-Library.Monad_Syntax" "HOL-Library.Multiset"
begin

text \<open>
  The memory of sampled tool calls, \<^verbatim>\<open>src/server/ds4_server.c\<close>: \<^verbatim>\<open>tool_memory_init_locked\<close> to
  \<^verbatim>\<open>apply_openai_stream_tool_ids\<close>.  Every call id maps to the markup block the model sampled;
  entries are kept in a doubly linked list with the most recently used one at the head, the
  entries of one block in a singly linked list, and blocks are reference counted.

  The heap is explicit: an entry and a block are records at an address, \<^verbatim>\<open>malloc\<close> hands out a
  fresh address and \<^verbatim>\<open>free\<close> removes it, and an operation that follows a dangling pointer, or
  whose loop does not end, is \<open>None\<close>.  The two radix trees are finite maps; a tree that does not
  exist yet is the empty map.  Counters and byte totals are \<open>nat\<close>: they count live memory.

  The lemmas show that the pointers always form the two lists they stand for, that no
  operation touches freed memory, and that the whole structure is a list of (id, block, source)
  triples in order of use, cut at its end to the two limits.
\<close>

section \<open>Data\<close>

type_synonym addr = nat

datatype tool_memory_source = TOOL_MEMORY_RAM | TOOL_MEMORY_DISK

record tm_block =
  tb_dsml :: "byte list"
  tb_len :: nat
  tb_bytes :: nat
  tb_refs :: int
  tb_seen :: u64
  tb_entries :: "addr option"

record tm_entry =
  te_id :: "byte list"
  te_block :: addr
  te_bytes :: nat
  te_stamp :: u64
  te_source :: tool_memory_source
  te_prev :: "addr option"
  te_next :: "addr option"
  te_block_next :: "addr option"

text \<open>The last three fields are the process: live entries, live blocks, the next fresh address.\<close>

record tool_memory =
  tm_by_id :: "byte list \<Rightarrow> addr option"
  tm_by_block :: "byte list \<Rightarrow> addr option"
  tm_head :: "addr option"
  tm_tail :: "addr option"
  tm_entries :: nat
  tm_max_entries :: int
  tm_bytes :: nat
  tm_max_bytes :: nat
  tm_clock :: u64
  tm_scan_clock :: u64
  tm_heap :: "addr \<Rightarrow> tm_entry option"
  tm_blocks :: "addr \<Rightarrow> tm_block option"
  tm_fresh :: addr

definition DS4_TOOL_MEMORY_DEFAULT_MAX_IDS :: int where "DS4_TOOL_MEMORY_DEFAULT_MAX_IDS = 100000"
definition DS4_TOOL_MEMORY_MAX_BYTES :: nat where "DS4_TOOL_MEMORY_MAX_BYTES = 512 * 1024 * 1024"

text \<open>\<^verbatim>\<open>sizeof\<close> of the two structures on the 64-bit targets.\<close>

definition sizeof_block :: nat where "sizeof_block = 48"
definition sizeof_entry :: nat where "sizeof_entry = 64"

definition tool_memory_max_entries :: "tool_memory \<Rightarrow> int" where
  "tool_memory_max_entries m = (if tm_max_entries m > 0 then tm_max_entries m else DS4_TOOL_MEMORY_DEFAULT_MAX_IDS)"

definition tool_memory_max_bytes :: "tool_memory \<Rightarrow> nat" where
  "tool_memory_max_bytes m = (if tm_max_bytes m > 0 then tm_max_bytes m else DS4_TOOL_MEMORY_MAX_BYTES)"

text \<open>Writing a field through a pointer; \<open>None\<close> when nothing lives there.\<close>

definition set_entry :: "addr \<Rightarrow> (tm_entry \<Rightarrow> tm_entry) \<Rightarrow> tool_memory \<Rightarrow> tool_memory option" where
  "set_entry a f m =
     (case tm_heap m a of None \<Rightarrow> None | Some e \<Rightarrow> Some (m\<lparr>tm_heap := (tm_heap m)(a \<mapsto> f e)\<rparr>))"

definition set_block :: "addr \<Rightarrow> (tm_block \<Rightarrow> tm_block) \<Rightarrow> tool_memory \<Rightarrow> tool_memory option" where
  "set_block b f m =
     (case tm_blocks m b of None \<Rightarrow> None | Some k \<Rightarrow> Some (m\<lparr>tm_blocks := (tm_blocks m)(b \<mapsto> f k)\<rparr>))"

section \<open>The list of entries\<close>

definition tool_memory_link_head :: "addr \<Rightarrow> tool_memory \<Rightarrow> tool_memory option" where
  "tool_memory_link_head e m = do {
     m \<leftarrow> set_entry e (\<lambda>x. x\<lparr>te_prev := None, te_next := tm_head m\<rparr>) m;
     m \<leftarrow> (case tm_head m of
            Some h \<Rightarrow> set_entry h (\<lambda>x. x\<lparr>te_prev := Some e\<rparr>) m
          | None \<Rightarrow> Some (m\<lparr>tm_tail := Some e\<rparr>));
     Some (m\<lparr>tm_head := Some e\<rparr>)
   }"

definition tool_memory_unlink :: "addr \<Rightarrow> tool_memory \<Rightarrow> tool_memory option" where
  "tool_memory_unlink a m = do {
     e \<leftarrow> tm_heap m a;
     m \<leftarrow> (case te_prev e of
            Some p \<Rightarrow> set_entry p (\<lambda>x. x\<lparr>te_next := te_next e\<rparr>) m
          | None \<Rightarrow> Some (m\<lparr>tm_head := te_next e\<rparr>));
     e \<leftarrow> tm_heap m a;
     m \<leftarrow> (case te_next e of
            Some n \<Rightarrow> set_entry n (\<lambda>x. x\<lparr>te_prev := te_prev e\<rparr>) m
          | None \<Rightarrow> Some (m\<lparr>tm_tail := te_prev e\<rparr>));
     set_entry a (\<lambda>x. x\<lparr>te_prev := None, te_next := None\<rparr>) m
   }"

definition tool_memory_touch :: "addr \<Rightarrow> tool_memory \<Rightarrow> tool_memory option" where
  "tool_memory_touch a m = do {
     m \<leftarrow> Some (m\<lparr>tm_clock := tm_clock m + 1\<rparr>);
     m \<leftarrow> set_entry a (\<lambda>x. x\<lparr>te_stamp := tm_clock m\<rparr>) m;
     if tm_head m = Some a then Some m
     else do { m \<leftarrow> tool_memory_unlink a m; tool_memory_link_head a m }
   }"

section \<open>The entries of a block\<close>

text \<open>The walk of the pointer to a pointer: \<open>prev\<close> is the entry that holds it, \<open>None\<close> the block.\<close>

partial_function (option) block_walk :: "(addr \<Rightarrow> tm_entry option) \<Rightarrow> addr option \<Rightarrow> addr option \<Rightarrow> addr
    \<Rightarrow> (addr option) option option" where
  "block_walk h prev p a =
     (case p of
        None \<Rightarrow> Some None
      | Some x \<Rightarrow>
          if x = a then Some (Some prev)
          else Option.bind (h x) (\<lambda>e. block_walk h (Some x) (te_block_next e) a))"

definition tool_block_unlink_entry :: "addr \<Rightarrow> addr \<Rightarrow> tool_memory \<Rightarrow> tool_memory option" where
  "tool_block_unlink_entry b a m = do {
     blk \<leftarrow> tm_blocks m b;
     found \<leftarrow> block_walk (tm_heap m) None (tb_entries blk) a;
     (case found of
        None \<Rightarrow> Some m
      | Some prev \<Rightarrow> do {
          e \<leftarrow> tm_heap m a;
          m \<leftarrow> (case prev of
                 None \<Rightarrow> set_block b (\<lambda>k. k\<lparr>tb_entries := te_block_next e\<rparr>) m
               | Some p \<Rightarrow> set_entry p (\<lambda>x. x\<lparr>te_block_next := te_block_next e\<rparr>) m);
          set_entry a (\<lambda>x. x\<lparr>te_block_next := None\<rparr>) m
        })
   }"

definition tool_memory_find_block_locked :: "tool_memory \<Rightarrow> byte list \<Rightarrow> addr option" where
  "tool_memory_find_block_locked m dsml = (if dsml = [] then None else tm_by_block m dsml)"

text \<open>\<^verbatim>\<open>raxInsert\<close> returns 0 when the key was there already, and the program dies.\<close>

definition tool_memory_get_block_locked :: "byte list \<Rightarrow> tool_memory \<Rightarrow> (addr \<times> tool_memory) option" where
  "tool_memory_get_block_locked dsml m =
     (case tool_memory_find_block_locked m dsml of
        Some b \<Rightarrow> Some (b, m)
      | None \<Rightarrow>
          let b = tm_fresh m;
              k = \<lparr>tb_dsml = dsml, tb_len = length dsml, tb_bytes = length dsml + 1 + sizeof_block, tb_refs = 0,
                   tb_seen = 0, tb_entries = None\<rparr>
          in if tm_by_block m dsml \<noteq> None then None
             else Some (b, m\<lparr>tm_fresh := b + 1, tm_blocks := (tm_blocks m)(b \<mapsto> k),
                             tm_by_block := (tm_by_block m)(dsml \<mapsto> b), tm_bytes := tm_bytes m + tb_bytes k\<rparr>))"

definition tool_memory_release_block_locked :: "addr \<Rightarrow> tool_memory \<Rightarrow> tool_memory option" where
  "tool_memory_release_block_locked b m = do {
     m \<leftarrow> set_block b (\<lambda>k. k\<lparr>tb_refs := tb_refs k - 1\<rparr>) m;
     k \<leftarrow> tm_blocks m b;
     if tb_refs k > 0 then Some m
     else Some (m\<lparr>tm_by_block := (tm_by_block m)(tb_dsml k := None),
                  tm_bytes := tm_bytes m - tb_bytes k,
                  tm_blocks := (tm_blocks m)(b := None)\<rparr>)
   }"

section \<open>Operations\<close>

definition tool_memory_remove_entry_locked :: "addr \<Rightarrow> tool_memory \<Rightarrow> tool_memory option" where
  "tool_memory_remove_entry_locked a m = do {
     e \<leftarrow> tm_heap m a;
     m \<leftarrow> Some (m\<lparr>tm_by_id := (tm_by_id m)(te_id e := None)\<rparr>);
     m \<leftarrow> tool_memory_unlink a m;
     m \<leftarrow> tool_block_unlink_entry (te_block e) a m;
     m \<leftarrow> Some (m\<lparr>tm_bytes := tm_bytes m - te_bytes e, tm_entries := tm_entries m - 1\<rparr>);
     m \<leftarrow> tool_memory_release_block_locked (te_block e) m;
     Some (m\<lparr>tm_heap := (tm_heap m)(a := None)\<rparr>)
   }"

definition over_limit :: "tool_memory \<Rightarrow> bool" where
  "over_limit m \<longleftrightarrow> int (tm_entries m) > tool_memory_max_entries m \<or> tm_bytes m > tool_memory_max_bytes m"

partial_function (option) tool_memory_prune_locked :: "tool_memory \<Rightarrow> tool_memory option" where
  "tool_memory_prune_locked m =
     (case tm_tail m of
        None \<Rightarrow> Some m
      | Some a \<Rightarrow>
          if over_limit m
          then Option.bind (tool_memory_remove_entry_locked a m) tool_memory_prune_locked
          else Some m)"

definition tool_memory_find_entry_locked :: "tool_memory \<Rightarrow> byte list \<Rightarrow> addr option" where
  "tool_memory_find_entry_locked m ident = (if ident = [] then None else tm_by_id m ident)"

text \<open>The new entry of an id that has none.\<close>

definition insert_new_entry :: "byte list \<Rightarrow> byte list \<Rightarrow> tool_memory_source \<Rightarrow> tool_memory \<Rightarrow> tool_memory option" where
  "insert_new_entry ident dsml source m = do {
     (b, m) \<leftarrow> tool_memory_get_block_locked dsml m;
     k \<leftarrow> tm_blocks m b;
     let a = tm_fresh m;
     let clk = tm_clock m + 1;
     let e = \<lparr>te_id = ident, te_block = b, te_bytes = length ident + 1 + sizeof_entry, te_stamp = clk,
              te_source = source, te_prev = None, te_next = None, te_block_next = tb_entries k\<rparr>;
     m \<leftarrow> Some (m\<lparr>tm_fresh := a + 1, tm_clock := clk, tm_heap := (tm_heap m)(a \<mapsto> e)\<rparr>);
     m \<leftarrow> set_block b (\<lambda>k. k\<lparr>tb_entries := Some a, tb_refs := tb_refs k + 1\<rparr>) m;
     if tm_by_id m ident \<noteq> None then None
     else do {
       m \<leftarrow> Some (m\<lparr>tm_by_id := (tm_by_id m)(ident \<mapsto> a)\<rparr>);
       m \<leftarrow> tool_memory_link_head a m;
       Some (m\<lparr>tm_entries := tm_entries m + 1, tm_bytes := tm_bytes m + te_bytes e\<rparr>)
     }
   }"

definition tool_memory_put_locked ::
    "byte list \<Rightarrow> byte list \<Rightarrow> tool_memory_source \<Rightarrow> tool_memory \<Rightarrow> tool_memory option" where
  "tool_memory_put_locked ident dsml source m =
     (if ident = [] \<or> dsml = [] then Some m
      else
        case tool_memory_find_entry_locked m ident of
          None \<Rightarrow> Option.bind (insert_new_entry ident dsml source m) tool_memory_prune_locked
        | Some old \<Rightarrow> do {
            e \<leftarrow> tm_heap m old;
            k \<leftarrow> tm_blocks m (te_block e);
            if tb_len k = length dsml \<and> take (length dsml) (tb_dsml k) = dsml
            then do {
              m \<leftarrow> (if source = TOOL_MEMORY_RAM then set_entry old (\<lambda>x. x\<lparr>te_source := TOOL_MEMORY_RAM\<rparr>) m
                   else Some m);
              m \<leftarrow> tool_memory_touch old m;
              tool_memory_prune_locked m
            }
            else do {
              m \<leftarrow> tool_memory_remove_entry_locked old m;
              m \<leftarrow> insert_new_entry ident dsml source m;
              tool_memory_prune_locked m
            }
          })"

definition tool_memory_lookup_locked ::
    "byte list \<Rightarrow> tool_memory \<Rightarrow> ((byte list \<times> tool_memory_source \<times> addr) option \<times> tool_memory) option" where
  "tool_memory_lookup_locked ident m =
     (case tool_memory_find_entry_locked m ident of
        None \<Rightarrow> Some (None, m)
      | Some a \<Rightarrow> do {
          m \<leftarrow> tool_memory_touch a m;
          e \<leftarrow> tm_heap m a;
          k \<leftarrow> tm_blocks m (te_block e);
          Some (Some (tb_dsml k, te_source e, te_block e), m)
        })"

partial_function (option) tool_memory_free :: "tool_memory \<Rightarrow> tool_memory option" where
  "tool_memory_free m =
     (case tm_tail m of
        None \<Rightarrow> Some (m\<lparr>tm_by_id := Map.empty, tm_by_block := Map.empty, tm_head := None, tm_tail := None,
                        tm_entries := 0, tm_max_entries := 0, tm_bytes := 0, tm_max_bytes := 0,
                        tm_clock := 0, tm_scan_clock := 0\<rparr>)
      | Some a \<Rightarrow> Option.bind (tool_memory_remove_entry_locked a m) tool_memory_free)"

definition tool_memory_zero :: tool_memory where
  "tool_memory_zero =
     \<lparr>tm_by_id = Map.empty, tm_by_block = Map.empty, tm_head = None, tm_tail = None, tm_entries = 0,
      tm_max_entries = 0, tm_bytes = 0, tm_max_bytes = 0, tm_clock = 0, tm_scan_clock = 0,
      tm_heap = Map.empty, tm_blocks = Map.empty, tm_fresh = 0\<rparr>"

section \<open>Two views of the heap\<close>

text \<open>The links of the use order, and everything the rest of the structure reads.\<close>

definition links :: "(addr \<Rightarrow> tm_entry option) \<Rightarrow> addr \<Rightarrow> (addr option \<times> addr option) option" where
  "links h a = map_option (\<lambda>e. (te_prev e, te_next e)) (h a)"

definition core :: "tm_entry \<Rightarrow> byte list \<times> addr \<times> nat \<times> addr option" where
  "core e = (te_id e, te_block e, te_bytes e, te_block_next e)"

definition cores :: "(addr \<Rightarrow> tm_entry option) \<Rightarrow> addr \<Rightarrow> (byte list \<times> addr \<times> nat \<times> addr option) option" where
  "cores h a = map_option core (h a)"

definition sources :: "(addr \<Rightarrow> tm_entry option) \<Rightarrow> addr \<Rightarrow> tool_memory_source option" where
  "sources h a = map_option te_source (h a)"

lemma links_upd [simp]: "links (h(a \<mapsto> e)) = (links h)(a \<mapsto> (te_prev e, te_next e))"
  by (auto simp: links_def)

lemma cores_upd [simp]: "cores (h(a \<mapsto> e)) = (cores h)(a \<mapsto> core e)"
  by (auto simp: cores_def)

lemma sources_upd [simp]: "sources (h(a \<mapsto> e)) = (sources h)(a \<mapsto> te_source e)"
  by (auto simp: sources_def)

lemma links_free [simp]: "links (h(a := None)) = (links h)(a := None)"
  by (auto simp: links_def)

lemma cores_free [simp]: "cores (h(a := None)) = (cores h)(a := None)"
  by (auto simp: cores_def)

lemma sources_free [simp]: "sources (h(a := None)) = (sources h)(a := None)"
  by (auto simp: sources_def)

lemma view_same:
  "h a = Some e \<Longrightarrow> core e' = core e \<Longrightarrow> (cores h)(a \<mapsto> core e') = cores h"
  "h a = Some e \<Longrightarrow> te_source e' = te_source e \<Longrightarrow> (sources h)(a \<mapsto> te_source e') = sources h"
  "h a = Some e \<Longrightarrow> te_prev e' = te_prev e \<Longrightarrow> te_next e' = te_next e
     \<Longrightarrow> (links h)(a \<mapsto> (te_prev e', te_next e')) = links h"
  by (auto simp: cores_def sources_def links_def)

lemma core_links [simp]:
  "core (e\<lparr>te_prev := p, te_next := n\<rparr>) = core e" "core (e\<lparr>te_prev := p\<rparr>) = core e"
  "core (e\<lparr>te_next := n\<rparr>) = core e" "core (e\<lparr>te_stamp := s\<rparr>) = core e" "core (e\<lparr>te_source := src\<rparr>) = core e"
  by (simp_all add: core_def)

lemma set_entry_Some:
  "tm_heap m a = Some e \<Longrightarrow> set_entry a f m = Some (m\<lparr>tm_heap := (tm_heap m)(a \<mapsto> f e)\<rparr>)"
  by (simp add: set_entry_def)

lemma set_block_Some:
  "tm_blocks m b = Some k \<Longrightarrow> set_block b f m = Some (m\<lparr>tm_blocks := (tm_blocks m)(b \<mapsto> f k)\<rparr>)"
  by (simp add: set_block_def)

section \<open>The doubly linked list\<close>

text \<open>From \<open>first\<close>, whose predecessor is \<open>p\<close>, through \<open>as\<close> to \<open>last\<close>, whose successor is \<open>n\<close>.\<close>

fun dll :: "(addr \<Rightarrow> (addr option \<times> addr option) option) \<Rightarrow> addr option \<Rightarrow> addr option \<Rightarrow> addr list
    \<Rightarrow> addr option \<Rightarrow> addr option \<Rightarrow> bool" where
  "dll g p f [] l n \<longleftrightarrow> f = n \<and> l = p"
| "dll g p f (a # as) l n \<longleftrightarrow> f = Some a \<and> (\<exists>q. g a = Some (p, q) \<and> dll g (Some a) q as l n)"

lemma dll_append: "dll g p f (as @ bs) l n \<longleftrightarrow> (\<exists>q r. dll g p f as q r \<and> dll g q r bs l n)"
  by (induction as arbitrary: p f) auto

lemma dll_off [simp]: "a \<notin> set as \<Longrightarrow> dll (g(a := x)) p f as l n = dll g p f as l n"
  by (induction as arbitrary: p f) auto

lemma dll_alive: "dll g p f as l n \<Longrightarrow> a \<in> set as \<Longrightarrow> g a \<noteq> None"
  by (induction as arbitrary: p f) auto

lemma dll_ends:
  "dll g p f as l n \<Longrightarrow> as \<noteq> [] \<Longrightarrow> f = Some (hd as) \<and> l = Some (last as)"
proof (induction as arbitrary: p f)
  case (Cons a as)
  then show ?case by (cases as) auto
qed simp

lemma dll_snoc: "dll g p f (as @ [a]) l n \<longleftrightarrow> l = Some a \<and> (\<exists>q. g a = Some (q, n) \<and> dll g p f as q (Some a))"
  by (auto simp: dll_append)

lemma links_Some: "links h a = Some (p, n) \<longleftrightarrow> (\<exists>e. h a = Some e \<and> te_prev e = p \<and> te_next e = n)"
  by (auto simp: links_def)

text \<open>What an operation on the list leaves as it was.\<close>

definition relinked :: "tool_memory \<Rightarrow> tool_memory \<Rightarrow> bool" where
  "relinked m m' \<longleftrightarrow>
     m' = m\<lparr>tm_heap := tm_heap m', tm_head := tm_head m', tm_tail := tm_tail m'\<rparr>
     \<and> cores (tm_heap m') = cores (tm_heap m) \<and> sources (tm_heap m') = sources (tm_heap m)"

lemma relinked_trans: "relinked m m' \<Longrightarrow> relinked m' m'' \<Longrightarrow> relinked m m''"
  by (cases m; cases m'; cases m'') (simp add: relinked_def)

lemma link_head_dll:
  assumes "dll (links (tm_heap m)) None (tm_head m) xs (tm_tail m) None"
    and a: "tm_heap m a = Some e" "a \<notin> set xs" and xs: "distinct xs"
  obtains m' where "tool_memory_link_head a m = Some m'" "relinked m m'"
    "dll (links (tm_heap m')) None (tm_head m') (a # xs) (tm_tail m') None"
proof (cases xs)
  case Nil
  with assms have "tm_head m = None" "tm_tail m = None" by auto
  with a Nil that show thesis
    by (simp add: tool_memory_link_head_def set_entry_Some relinked_def view_same)
next
  case (Cons x ys)
  with assms(1) obtain n where x: "tm_head m = Some x" "links (tm_heap m) x = Some (None, n)"
    "dll (links (tm_heap m)) (Some x) n ys (tm_tail m) None" by auto
  from x(2) obtain ex where ex: "tm_heap m x = Some ex" "te_prev ex = None" "te_next ex = n"
    by (auto simp: links_Some)
  have ne: "x \<noteq> a" "a \<notin> set ys" "x \<notin> set ys" using Cons a(2) xs by auto
  show thesis
  proof (rule that)
    show "tool_memory_link_head a m =
      Some (m\<lparr>tm_heap := (tm_heap m)(a \<mapsto> e\<lparr>te_prev := None, te_next := Some x\<rparr>, x \<mapsto> ex\<lparr>te_prev := Some a\<rparr>),
              tm_head := Some a\<rparr>)"
      using a x(1) ex ne by (simp add: tool_memory_link_head_def set_entry_Some)
  qed (use a x ex ne Cons in \<open>auto simp: relinked_def view_same fun_upd_twist [of a x]\<close>)
qed

text \<open>The two halves of unlinking: the predecessor, or the head, skips the entry; then the successor, or the tail.\<close>

lemma skip_forward:
  assumes as: "dll (links (tm_heap m)) None (tm_head m) as p (Some a)" and "a \<notin> set as" "distinct as"
    and bs: "dll (links (tm_heap m)) (Some a) n bs (tm_tail m) None" "set as \<inter> set bs = {}"
  obtains m' where
    "(case p of Some p \<Rightarrow> set_entry p (\<lambda>x. x\<lparr>te_next := n\<rparr>) m | None \<Rightarrow> Some (m\<lparr>tm_head := n\<rparr>)) = Some m'"
    "relinked m m'" "tm_heap m' a = tm_heap m a" "tm_tail m' = tm_tail m"
    "dll (links (tm_heap m')) None (tm_head m') as p n" "dll (links (tm_heap m')) (Some a) n bs (tm_tail m') None"
proof (cases as rule: rev_cases)
  case Nil
  with as bs show thesis by (intro that [of "m\<lparr>tm_head := n\<rparr>"]) (auto simp: relinked_def)
next
  case (snoc cs x)
  with as obtain q ex where p: "p = Some x" and x: "tm_heap m x = Some ex" "te_prev ex = q" "te_next ex = Some a"
    and cs: "dll (links (tm_heap m)) None (tm_head m) cs q (Some x)" by (auto simp: dll_snoc links_Some)
  have fresh: "x \<noteq> a" "x \<notin> set cs" "x \<notin> set bs" using snoc assms by auto
  show thesis
    by (rule that [of "m\<lparr>tm_heap := (tm_heap m)(x \<mapsto> ex\<lparr>te_next := n\<rparr>)\<rparr>"])
      (use p x cs bs fresh snoc in \<open>auto simp: set_entry_Some relinked_def view_same dll_snoc\<close>)
qed

lemma skip_backward:
  assumes as: "dll (links (tm_heap m)) None (tm_head m) as p n"
    and bs: "dll (links (tm_heap m)) (Some a) n bs (tm_tail m) None" "a \<notin> set bs" "distinct bs" "set as \<inter> set bs = {}"
  obtains m' where
    "(case n of Some n \<Rightarrow> set_entry n (\<lambda>x. x\<lparr>te_prev := p\<rparr>) m | None \<Rightarrow> Some (m\<lparr>tm_tail := p\<rparr>)) = Some m'"
    "relinked m m'" "tm_heap m' a = tm_heap m a"
    "dll (links (tm_heap m')) None (tm_head m') (as @ bs) (tm_tail m') None"
proof (cases bs)
  case Nil
  with as bs show thesis by (intro that [of "m\<lparr>tm_tail := p\<rparr>"]) (auto simp: relinked_def)
next
  case (Cons y ys)
  with bs obtain q ey where n: "n = Some y" and y: "tm_heap m y = Some ey" "te_prev ey = Some a" "te_next ey = q"
    and ys: "dll (links (tm_heap m)) (Some y) q ys (tm_tail m) None" by (auto simp: links_Some)
  have fresh: "y \<noteq> a" "y \<notin> set as" "y \<notin> set ys" using Cons bs by auto
  show thesis
    by (rule that [of "m\<lparr>tm_heap := (tm_heap m)(y \<mapsto> ey\<lparr>te_prev := p\<rparr>)\<rparr>"])
      (use n y as ys fresh Cons in \<open>auto simp: set_entry_Some relinked_def view_same dll_append\<close>)
qed

lemma unlink_dll:
  assumes d: "dll (links (tm_heap m)) None (tm_head m) (as @ a # bs) (tm_tail m) None" "distinct (as @ a # bs)"
  obtains m' where "tool_memory_unlink a m = Some m'" "relinked m m'"
    "dll (links (tm_heap m')) None (tm_head m') (as @ bs) (tm_tail m') None"
proof -
  from d(1) obtain p n where as: "dll (links (tm_heap m)) None (tm_head m) as p (Some a)"
    and a: "links (tm_heap m) a = Some (p, n)" and bs: "dll (links (tm_heap m)) (Some a) n bs (tm_tail m) None"
    by (auto simp: dll_append)
  from a obtain e where e: "tm_heap m a = Some e" "te_prev e = p" "te_next e = n" by (auto simp: links_Some)
  have fresh: "a \<notin> set as" "a \<notin> set bs" "set as \<inter> set bs = {}" "distinct as" "distinct bs" using d(2) by auto
  obtain m1 where m1:
    "(case p of Some p \<Rightarrow> set_entry p (\<lambda>x. x\<lparr>te_next := n\<rparr>) m | None \<Rightarrow> Some (m\<lparr>tm_head := n\<rparr>)) = Some m1"
    "relinked m m1" "tm_heap m1 a = tm_heap m a"
    "dll (links (tm_heap m1)) None (tm_head m1) as p n" "dll (links (tm_heap m1)) (Some a) n bs (tm_tail m1) None"
    using skip_forward [OF as fresh(1,4) bs fresh(3)] by metis
  obtain m2 where m2:
    "(case n of Some n \<Rightarrow> set_entry n (\<lambda>x. x\<lparr>te_prev := p\<rparr>) m1 | None \<Rightarrow> Some (m1\<lparr>tm_tail := p\<rparr>)) = Some m2"
    "relinked m1 m2" "tm_heap m2 a = tm_heap m1 a"
    "dll (links (tm_heap m2)) None (tm_head m2) (as @ bs) (tm_tail m2) None"
    using skip_backward [OF m1(4,5) fresh(2,5,3)] by metis
  define m' where "m' = m2\<lparr>tm_heap := (tm_heap m2)(a \<mapsto> e\<lparr>te_prev := None, te_next := None\<rparr>)\<rparr>"
  have e2: "tm_heap m2 a = Some e" using e m1(3) m2(3) by simp
  show thesis
  proof (rule that [of m'])
    show "tool_memory_unlink a m = Some m'"
      using e(1) m1(1,3) m2(1) e2 unfolding e(2,3) [symmetric]
      by (simp add: tool_memory_unlink_def set_entry_Some m'_def)
    have "relinked m2 m'" using e2 by (simp add: relinked_def m'_def view_same)
    with m1(2) m2(2) show "relinked m m'" by (blast intro: relinked_trans)
    show "dll (links (tm_heap m')) None (tm_head m') (as @ bs) (tm_tail m') None"
      using m2(4) fresh by (simp add: m'_def)
  qed
qed

lemma relinked_simps:
  assumes "relinked m m'"
  shows "tm_by_id m' = tm_by_id m" "tm_by_block m' = tm_by_block m" "tm_entries m' = tm_entries m"
    "tm_max_entries m' = tm_max_entries m" "tm_bytes m' = tm_bytes m" "tm_max_bytes m' = tm_max_bytes m"
    "tm_clock m' = tm_clock m" "tm_scan_clock m' = tm_scan_clock m" "tm_blocks m' = tm_blocks m" "tm_fresh m' = tm_fresh m"
    "cores (tm_heap m') = cores (tm_heap m)" "sources (tm_heap m') = sources (tm_heap m)"
  using assms by (cases m'; simp add: relinked_def)+

section \<open>The entries of a block\<close>

text \<open>From \<open>p\<close> through \<open>as\<close> to the end.\<close>

fun chain :: "(addr \<Rightarrow> (byte list \<times> addr \<times> nat \<times> addr option) option) \<Rightarrow> addr option \<Rightarrow> addr list \<Rightarrow> bool" where
  "chain g p [] \<longleftrightarrow> p = None"
| "chain g p (a # as) \<longleftrightarrow> p = Some a \<and> (\<exists>i b n q. g a = Some (i, b, n, q) \<and> chain g q as)"

lemma chain_off [simp]: "a \<notin> set as \<Longrightarrow> chain (g(a := x)) p as = chain g p as"
  by (induction as arbitrary: p) auto

lemma chain_redirect:
  "chain g p (cs @ x # a # bs) \<Longrightarrow> g x = Some (i, b, n, q) \<Longrightarrow> g a = Some (i', b', n', r)
   \<Longrightarrow> distinct (cs @ x # a # bs) \<Longrightarrow> chain (g(x \<mapsto> (i, b, n, r))) p (cs @ x # bs)"
  by (induction cs arbitrary: p) auto

lemma chain_at: "chain g p (as @ a # bs) \<Longrightarrow> \<exists>i b n q. g a = Some (i, b, n, q) \<and> chain g q bs"
  by (induction as arbitrary: p) auto

lemma cores_Some:
  "cores h a = Some (i, b, n, q) \<longleftrightarrow>
   (\<exists>e. h a = Some e \<and> te_id e = i \<and> te_block e = b \<and> te_bytes e = n \<and> te_block_next e = q)"
  by (auto simp: cores_def core_def)

lemma block_walk_finds:
  "chain (cores h) p (as @ a # bs) \<Longrightarrow> a \<notin> set as \<Longrightarrow>
   block_walk h prev p a = Some (Some (if as = [] then prev else Some (last as)))"
proof (induction as arbitrary: p prev)
  case Nil
  then show ?case by (simp add: block_walk.simps)
next
  case (Cons x as)
  from Cons.prems obtain e where "p = Some x" "h x = Some e" "chain (cores h) (te_block_next e) (as @ a # bs)"
    by (auto simp: cores_Some)
  with Cons show ?case by (simp add: block_walk.simps [of h prev])
qed

text \<open>What holds of one block; \<open>fresh\<close> says that it may have no entry yet.\<close>

definition block_ok :: "(addr \<Rightarrow> (byte list \<times> addr \<times> nat \<times> addr option) option) \<Rightarrow> bool \<Rightarrow> addr \<Rightarrow> tm_block \<Rightarrow> bool" where
  "block_ok g fresh b k \<longleftrightarrow>
     tb_len k = length (tb_dsml k) \<and> tb_bytes k = length (tb_dsml k) + 1 + sizeof_block \<and> tb_dsml k \<noteq> []
     \<and> (\<exists>es. chain g (tb_entries k) es \<and> distinct es \<and> (\<forall>a. a \<in> set es \<longleftrightarrow> (\<exists>i n q. g a = Some (i, b, n, q)))
          \<and> tb_refs k = int (length es) \<and> (es \<noteq> [] \<or> fresh))"

definition block_bytes :: "(addr \<Rightarrow> tm_block option) \<Rightarrow> nat" where
  "block_bytes bm = (\<Sum>b \<in> dom bm. tb_bytes (the (bm b)))"

definition entry_bytes :: "(addr \<Rightarrow> (byte list \<times> addr \<times> nat \<times> addr option) option) \<Rightarrow> addr list \<Rightarrow> nat" where
  "entry_bytes g xs = (\<Sum>a\<leftarrow>xs. fst (snd (snd (the (g a)))))"

text \<open>The memory with its entries \<open>xs\<close> from the most to the least recently used: the part the
  order of use plays no role in, and the list.\<close>

definition store_ok :: "tool_memory \<Rightarrow> addr option \<Rightarrow> addr list \<Rightarrow> bool" where
  "store_ok m fresh xs \<longleftrightarrow>
     (let g = cores (tm_heap m) in
        distinct xs \<and> dom g = set xs \<and> tm_entries m = length xs
        \<and> tm_bytes m = entry_bytes g xs + block_bytes (tm_blocks m)
        \<and> (\<forall>a i b n q. g a = Some (i, b, n, q) \<longrightarrow>
              i \<noteq> [] \<and> n = length i + 1 + sizeof_entry \<and> tm_blocks m b \<noteq> None \<and> tm_by_id m i = Some a)
        \<and> (\<forall>i a. tm_by_id m i = Some a \<longrightarrow> (\<exists>b n q. g a = Some (i, b, n, q)))
        \<and> (\<forall>b k. tm_blocks m b = Some k \<longrightarrow> block_ok g (fresh = Some b) b k \<and> tm_by_block m (tb_dsml k) = Some b)
        \<and> (\<forall>d b. tm_by_block m d = Some b \<longrightarrow> (\<exists>k. tm_blocks m b = Some k \<and> tb_dsml k = d))
        \<and> finite (dom (tm_blocks m)) \<and> (\<forall>a \<in> dom g \<union> dom (tm_blocks m). a < tm_fresh m))"

definition order_ok :: "tool_memory \<Rightarrow> addr list \<Rightarrow> bool" where
  "order_ok m xs \<longleftrightarrow> dll (links (tm_heap m)) None (tm_head m) xs (tm_tail m) None"

definition memory_ok :: "tool_memory \<Rightarrow> addr list \<Rightarrow> bool" where
  "memory_ok m xs \<longleftrightarrow> order_ok m xs \<and> store_ok m None xs"

lemma store_ok_relinked: "relinked m m' \<Longrightarrow> store_ok m fresh xs \<Longrightarrow> store_ok m' fresh xs"
proof -
  assume rel: "relinked m m'"
  show "store_ok m fresh xs \<Longrightarrow> store_ok m' fresh xs"
    unfolding store_ok_def Let_def relinked_simps [OF rel] .
qed

lemma entry_bytes_perm: "mset xs = mset ys \<Longrightarrow> entry_bytes g xs = entry_bytes g ys"
proof -
  have sum: "sum_list (map f zs) = sum_mset (image_mset f (mset zs))" for f :: "addr \<Rightarrow> nat" and zs
    by (simp add: sum_mset_sum_list flip: mset_map)
  assume "mset xs = mset ys"
  then show ?thesis by (simp add: entry_bytes_def sum)
qed

lemma store_ok_perm: "store_ok m fresh xs \<Longrightarrow> mset xs = mset ys \<Longrightarrow> store_ok m fresh ys"
  using entry_bytes_perm [of xs ys] mset_eq_setD [of xs ys] mset_eq_length [of xs ys] mset_eq_imp_distinct_iff [of xs ys]
  by (simp add: store_ok_def Let_def)

lemma store_ok_alive: "store_ok m fresh xs \<Longrightarrow> a \<in> set xs \<Longrightarrow> \<exists>e. tm_heap m a = Some e"
proof -
  assume "store_ok m fresh xs" "a \<in> set xs"
  then have "a \<in> dom (cores (tm_heap m))" by (simp add: store_ok_def Let_def)
  then show ?thesis by (cases "tm_heap m a") (auto simp: cores_def)
qed

text \<open>Using an entry moves it to the front and changes nothing else.\<close>

lemma touch_ok:
  assumes ok: "memory_ok m xs" and a: "a \<in> set xs"
  obtains m' where "tool_memory_touch a m = Some m'" "memory_ok m' (a # remove1 a xs)"
    "relinked (m\<lparr>tm_clock := tm_clock m + 1\<rparr>) m'"
proof -
  from ok have "store_ok m None xs" by (simp add: memory_ok_def)
  then obtain e where e: "tm_heap m a = Some e" using store_ok_alive a by blast
  from a obtain as bs where xs: "xs = as @ a # bs" by (meson split_list)
  have dist: "distinct xs" using ok by (simp add: memory_ok_def store_ok_def Let_def)
  define m1 where "m1 = m\<lparr>tm_clock := tm_clock m + 1, tm_heap := (tm_heap m)(a \<mapsto> e\<lparr>te_stamp := tm_clock m + 1\<rparr>)\<rparr>"
  have rel1: "relinked (m\<lparr>tm_clock := tm_clock m + 1\<rparr>) m1" using e by (simp add: relinked_def m1_def view_same)
  have links1: "links (tm_heap m1) = links (tm_heap m)" using e by (simp add: m1_def view_same)
  have st1: "store_ok m1 None xs"
    using ok store_ok_relinked [OF rel1, of None xs] by (simp add: memory_ok_def store_ok_def Let_def)
  have ord1: "dll (links (tm_heap m1)) None (tm_head m1) xs (tm_tail m1) None"
    using ok links1 by (simp add: memory_ok_def order_ok_def m1_def)
  show thesis
  proof (cases "tm_head m = Some a")
    case True
    then have "as = []" using ok dist by (cases as) (auto simp: memory_ok_def order_ok_def xs)
    then have "memory_ok m1 (a # remove1 a xs)" using st1 ord1 by (simp add: xs memory_ok_def order_ok_def)
    with True rel1 e show thesis by (intro that [of m1]) (simp_all add: tool_memory_touch_def set_entry_Some m1_def)
  next
    case False
    obtain m2 where m2: "tool_memory_unlink a m1 = Some m2" "relinked m1 m2"
      "dll (links (tm_heap m2)) None (tm_head m2) (as @ bs) (tm_tail m2) None"
      using unlink_dll [OF ord1 [unfolded xs]] dist by (auto simp: xs)
    have st2: "store_ok m2 None xs" using m2(2) st1 by (rule store_ok_relinked)
    then obtain e2 where e2: "tm_heap m2 a = Some e2" using store_ok_alive a by blast
    obtain m3 where m3: "tool_memory_link_head a m2 = Some m3" "relinked m2 m3"
      "dll (links (tm_heap m3)) None (tm_head m3) (a # as @ bs) (tm_tail m3) None"
      using link_head_dll [OF m2(3) e2] dist by (auto simp: xs)
    have front: "a # remove1 a xs = a # as @ bs" using dist by (simp add: xs remove1_append)
    have "store_ok m3 None (a # remove1 a xs)"
      using store_ok_perm [OF store_ok_relinked [OF m3(2) st2], of "a # remove1 a xs"] a by simp
    then have "memory_ok m3 (a # remove1 a xs)" using m3(3) by (simp add: memory_ok_def order_ok_def front)
    moreover have "relinked (m\<lparr>tm_clock := tm_clock m + 1\<rparr>) m3" using rel1 m2(2) m3(2) by (blast intro: relinked_trans)
    moreover have "tool_memory_touch a m = Some m3"
      using False e m2(1) m3(1) by (simp add: tool_memory_touch_def set_entry_Some m1_def)
    ultimately show thesis using that by blast
  qed
qed

section \<open>Removing an entry\<close>

lemma chain_cong: "(\<And>x. x \<in> set as \<Longrightarrow> g' x = g x) \<Longrightarrow> chain g' p as = chain g p as"
  by (induction as arbitrary: p) auto

lemma chain_skip:
  "chain g p (cs @ x # a # bs) \<Longrightarrow> distinct (cs @ x # a # bs) \<Longrightarrow> g a = Some (i', b', n', r) \<Longrightarrow>
   \<exists>i b n. g x = Some (i, b, n, Some a) \<and> chain (g(x \<mapsto> (i, b, n, r))) p (cs @ x # bs)"
  by (induction cs arbitrary: p) auto

text \<open>An entry without its place among the entries of its block.\<close>

definition kind :: "(addr \<Rightarrow> (byte list \<times> addr \<times> nat \<times> addr option) option) \<Rightarrow> addr \<Rightarrow> (byte list \<times> addr \<times> nat) option" where
  "kind g x = map_option (\<lambda>(i, b, n, q). (i, b, n)) (g x)"

lemma kind_Some: "kind g x = Some (i, b, n) \<longleftrightarrow> (\<exists>q. g x = Some (i, b, n, q))"
  by (auto simp: kind_def)

lemma block_unlink_ok:
  assumes k: "tm_blocks m b = Some k" and es: "chain (cores (tm_heap m)) (tb_entries k) (cs @ a # ds)"
    and dist: "distinct (cs @ a # ds)"
  obtains m' p where "tool_block_unlink_entry b a m = Some m'"
    "m' = m\<lparr>tm_heap := tm_heap m', tm_blocks := (tm_blocks m)(b \<mapsto> k\<lparr>tb_entries := p\<rparr>)\<rparr>"
    "links (tm_heap m') = links (tm_heap m)" "sources (tm_heap m') = sources (tm_heap m)"
    "kind (cores (tm_heap m')) = kind (cores (tm_heap m))"
    "\<And>x. x \<notin> set cs \<Longrightarrow> x \<noteq> a \<Longrightarrow> cores (tm_heap m') x = cores (tm_heap m) x"
    "chain (cores (tm_heap m')) p (cs @ ds)"
proof -
  from chain_at [OF es] obtain e where e: "tm_heap m a = Some e" "chain (cores (tm_heap m)) (te_block_next e) ds"
    by (auto simp: cores_Some)
  have walk: "block_walk (tm_heap m) None (tb_entries k) a = Some (Some (if cs = [] then None else Some (last cs)))"
    using block_walk_finds [OF es] dist by simp
  let ?e' = "e\<lparr>te_block_next := None\<rparr>"
  show thesis
  proof (cases cs rule: rev_cases)
    case Nil
    let ?m' = "m\<lparr>tm_heap := (tm_heap m)(a \<mapsto> ?e'), tm_blocks := (tm_blocks m)(b \<mapsto> k\<lparr>tb_entries := te_block_next e\<rparr>)\<rparr>"
    show thesis
    proof (rule that [of ?m' "te_block_next e"])
      show "tool_block_unlink_entry b a m = Some ?m'"
        using Nil walk k e by (simp add: tool_block_unlink_entry_def set_block_Some set_entry_Some)
    qed (use Nil e dist in \<open>auto simp: view_same kind_def cores_def core_def\<close>)
  next
    case (snoc cs' x)
    have "chain (cores (tm_heap m)) (tb_entries k) (cs' @ x # a # ds)" "distinct (cs' @ x # a # ds)"
      using es dist snoc by simp_all
    from chain_skip [OF this, of "te_id e" "te_block e" "te_bytes e" "te_block_next e"] e(1)
    obtain ex where x: "tm_heap m x = Some ex"
      and chain': "chain ((cores (tm_heap m))(x \<mapsto> (te_id ex, te_block ex, te_bytes ex, te_block_next e))) (tb_entries k) (cs' @ x # ds)"
      by (auto simp: cores_Some)
    have ne: "x \<noteq> a" "a \<notin> set (cs' @ x # ds)" using dist snoc by auto
    let ?x' = "ex\<lparr>te_block_next := te_block_next e\<rparr>"
    let ?m' = "m\<lparr>tm_heap := (tm_heap m)(x \<mapsto> ?x', a \<mapsto> ?e')\<rparr>"
    have kk: "(tm_blocks m)(b \<mapsto> k\<lparr>tb_entries := tb_entries k\<rparr>) = tm_blocks m" using k by auto
    show thesis
    proof (rule that [of ?m' "tb_entries k"])
      show "tool_block_unlink_entry b a m = Some ?m'"
        using snoc walk k e x ne by (simp add: tool_block_unlink_entry_def set_entry_Some)
      show "chain (cores (tm_heap ?m')) (tb_entries k) (cs @ ds)"
        using chain' ne snoc by (simp add: core_def)
      show "links (tm_heap ?m') = links (tm_heap m)" "sources (tm_heap ?m') = sources (tm_heap m)"
        using e x ne by (auto simp: links_def sources_def)
      show "kind (cores (tm_heap ?m')) = kind (cores (tm_heap m))"
        using e x ne by (auto simp: kind_def cores_def core_def)
    qed (use snoc ne kk in auto)
  qed
qed

lemma entry_bytes_kind:
  "kind g' = kind g \<Longrightarrow> set xs \<subseteq> dom g \<Longrightarrow> entry_bytes g' xs = entry_bytes g xs"
proof (induction xs)
  case (Cons x xs)
  from Cons.prems(2) obtain i b n q where x: "g x = Some (i, b, n, q)" by auto
  with fun_cong [OF Cons.prems(1), of x] obtain q' where "g' x = Some (i, b, n, q')" by (auto simp: kind_def)
  with x Cons show ?case by (simp add: entry_bytes_def)
qed (simp add: entry_bytes_def)

lemma entry_bytes_append: "entry_bytes g (xs @ ys) = entry_bytes g xs + entry_bytes g ys"
  by (simp add: entry_bytes_def)

lemma entry_bytes_off: "a \<notin> set xs \<Longrightarrow> entry_bytes (g(a := z)) xs = entry_bytes g xs"
  by (induction xs) (auto simp: entry_bytes_def)

lemma block_bytes_remove:
  "finite (dom bm) \<Longrightarrow> bm b = Some k \<Longrightarrow> block_bytes bm = tb_bytes k + block_bytes (bm(b := None))"
proof -
  assume fin: "finite (dom bm)" and k: "bm b = Some k"
  have "(\<Sum>x \<in> dom bm - {b}. tb_bytes (the ((bm(b := None)) x))) = (\<Sum>x \<in> dom bm - {b}. tb_bytes (the (bm x)))"
    by (rule sum.cong) auto
  moreover have "dom (bm(b := None)) = dom bm - {b}" by simp
  ultimately show ?thesis using sum.remove [OF fin, of b "\<lambda>b. tb_bytes (the (bm b))"] k by (auto simp: block_bytes_def)
qed

lemma block_bytes_upd:
  "finite (dom bm) \<Longrightarrow> bm b = Some k \<Longrightarrow> tb_bytes k' = tb_bytes k \<Longrightarrow> block_bytes (bm(b \<mapsto> k')) = block_bytes bm"
  using block_bytes_remove [of bm b k] block_bytes_remove [of "bm(b \<mapsto> k')" b k'] by simp

lemma block_bytes_insert:
  "finite (dom bm) \<Longrightarrow> bm b = None \<Longrightarrow> block_bytes (bm(b \<mapsto> k)) = tb_bytes k + block_bytes bm"
  using block_bytes_remove [of "bm(b \<mapsto> k)" b k] by (simp add: fun_upd_idem)

text \<open>What an entry says: its id, the markup of its block, where it came from.\<close>

definition content :: "tool_memory \<Rightarrow> addr \<Rightarrow> (byte list \<times> byte list \<times> tool_memory_source) option" where
  "content m a =
     (case (cores (tm_heap m) a, sources (tm_heap m) a) of
        (Some (i, b, n, q), Some src) \<Rightarrow> map_option (\<lambda>k. (i, tb_dsml k, src)) (tm_blocks m b)
      | _ \<Rightarrow> None)"

definition same_config :: "tool_memory \<Rightarrow> tool_memory \<Rightarrow> bool" where
  "same_config m m' \<longleftrightarrow> tm_max_entries m' = tm_max_entries m \<and> tm_max_bytes m' = tm_max_bytes m
     \<and> tm_scan_clock m' = tm_scan_clock m"

lemma store_okD:
  assumes "store_ok m fresh xs"
  shows "distinct xs" "dom (cores (tm_heap m)) = set xs" "tm_entries m = length xs"
    "tm_bytes m = entry_bytes (cores (tm_heap m)) xs + block_bytes (tm_blocks m)"
    "cores (tm_heap m) a = Some (i, b, n, q) \<Longrightarrow> i \<noteq> []"
    "cores (tm_heap m) a = Some (i, b, n, q) \<Longrightarrow> n = length i + 1 + sizeof_entry"
    "cores (tm_heap m) a = Some (i, b, n, q) \<Longrightarrow> \<exists>k. tm_blocks m b = Some k"
    "cores (tm_heap m) a = Some (i, b, n, q) \<Longrightarrow> tm_by_id m i = Some a"
    "tm_by_id m i = Some a \<Longrightarrow> \<exists>b n q. cores (tm_heap m) a = Some (i, b, n, q)"
    "tm_blocks m b = Some k \<Longrightarrow> block_ok (cores (tm_heap m)) (fresh = Some b) b k"
    "tm_blocks m b = Some k \<Longrightarrow> tm_by_block m (tb_dsml k) = Some b"
    "tm_by_block m d = Some b \<Longrightarrow> \<exists>k. tm_blocks m b = Some k \<and> tb_dsml k = d"
    "finite (dom (tm_blocks m))" "x \<in> dom (cores (tm_heap m)) \<union> dom (tm_blocks m) \<Longrightarrow> x < tm_fresh m"
  using assms unfolding store_ok_def Let_def by blast+

lemma block_ok_other:
  assumes ok: "block_ok g fr b' k" and "b' \<noteq> b"
    and same: "\<And>x i n q. g x = Some (i, b', n, q) \<Longrightarrow> g' x = g x"
    and kinds: "\<And>x i n q. g' x = Some (i, b', n, q) \<Longrightarrow> \<exists>q. g x = Some (i, b', n, q)"
  shows "block_ok g' fr b' k"
proof -
  from ok obtain es where es: "chain g (tb_entries k) es" "distinct es"
    "\<forall>a. a \<in> set es \<longleftrightarrow> (\<exists>i n q. g a = Some (i, b', n, q))" "tb_refs k = int (length es)" "es \<noteq> [] \<or> fr"
    by (auto simp: block_ok_def)
  have eq: "g' x = g x" if "x \<in> set es" for x using that es(3) same by blast
  have "\<forall>a. a \<in> set es \<longleftrightarrow> (\<exists>i n q. g' a = Some (i, b', n, q))" using es(3) eq kinds by metis
  moreover have "chain g' (tb_entries k) es" using es(1) chain_cong [of es g' g] eq by blast
  ultimately show ?thesis using ok es unfolding block_ok_def by blast
qed

text \<open>Dropping entry \<open>a\<close> of block \<open>b\<close>, in terms of the views: \<open>bm\<close> are the blocks afterwards.\<close>

lemma drop_entry:
  assumes ok: "store_ok m None xs" and a: "cores (tm_heap m) a = Some (i, b, n, q)" and k: "tm_blocks m b = Some k"
    and es: "distinct (cs @ a # ds)" "\<forall>x. x \<in> set (cs @ a # ds) \<longleftrightarrow> (\<exists>i n q. cores (tm_heap m) x = Some (i, b, n, q))"
      "tb_refs k = int (length (cs @ a # ds))"
    and g: "kind g = kind (cores (tm_heap m))" "\<And>x. x \<notin> set cs \<Longrightarrow> x \<noteq> a \<Longrightarrow> g x = cores (tm_heap m) x"
      "chain g p (cs @ ds)"
    and m': "tm_by_id m' = (tm_by_id m)(i := None)" "cores (tm_heap m') = g(a := None)" "tm_entries m' = tm_entries m - 1"
      "tm_fresh m' = tm_fresh m"
    and b': "if cs @ ds = [] then tm_blocks m' = (tm_blocks m)(b := None)
          \<and> tm_by_block m' = (tm_by_block m)(tb_dsml k := None) \<and> tm_bytes m' = tm_bytes m - n - tb_bytes k
        else tm_blocks m' = (tm_blocks m)(b \<mapsto> k\<lparr>tb_entries := p, tb_refs := tb_refs k - 1\<rparr>)
          \<and> tm_by_block m' = tm_by_block m \<and> tm_bytes m' = tm_bytes m - n"
  shows "store_ok m' None (remove1 a xs)"
proof -
  let ?g = "cores (tm_heap m)"
  note D = store_okD [OF ok]
  have in_xs: "a \<in> set xs" using D(2) a by auto
  have kinds: "(\<exists>q. g x = Some (i', b', n', q)) \<longleftrightarrow> (\<exists>q. ?g x = Some (i', b', n', q))" for x i' b' n'
    using g(1) by (metis kind_Some)
  have fin: "finite (dom (tm_blocks m'))" using D(13) b' by (auto split: if_splits)
  have doms: "dom g = dom ?g"
  proof -
    have "g x = None \<longleftrightarrow> ?g x = None" for x using fun_cong [OF g(1), of x] by (auto simp: kind_def)
    then show ?thesis by (simp add: dom_def)
  qed
  have eb: "entry_bytes g xs = n + entry_bytes (g(a := None)) (remove1 a xs)"
  proof -
    from in_xs obtain us vs where xs: "xs = us @ a # vs" "a \<notin> set us" by (meson split_list_first)
    from a kinds [of a i b n] obtain q' where "g a = Some (i, b, n, q')" by blast
    moreover have "a \<notin> set vs" using D(1) xs by simp
    ultimately show ?thesis using xs by (simp add: remove1_append entry_bytes_append entry_bytes_off) (simp add: entry_bytes_def)
  qed
  have bytes: "tm_bytes m = n + entry_bytes (g(a := None)) (remove1 a xs) + block_bytes (tm_blocks m)"
    using D(4) entry_bytes_kind [OF g(1), of xs] D(2) eb by simp
  have bb: "tm_bytes m' = entry_bytes (g(a := None)) (remove1 a xs) + block_bytes (tm_blocks m')"
  proof (cases "cs @ ds = []")
    case True
    with b' bytes block_bytes_remove [OF D(13) k] show ?thesis by simp
  next
    case False
    with b' bytes block_bytes_upd [OF D(13) k, of "k\<lparr>tb_entries := p, tb_refs := tb_refs k - 1\<rparr>"] show ?thesis by simp
  qed
  have alone: "\<exists>k'. tm_blocks m' b' = Some k'" if "g x = Some (i', b', n', q')" "x \<noteq> a" for x i' b' n' q'
  proof -
    from that kinds [of x i' b' n'] obtain q'' where x: "?g x = Some (i', b', n', q'')" by blast
    from D(7) [OF x] show ?thesis
    proof (cases "b' = b")
      case True
      with es(2) x that(2) have "cs @ ds \<noteq> []" by (auto 4 4)
      with b' True show ?thesis by simp
    qed (use b' in \<open>auto split: if_splits\<close>)
  qed
  have ids: "tm_by_id m' i' = Some x" if "g x = Some (i', b', n', q')" "x \<noteq> a" for x i' b' n' q'
  proof -
    from that kinds [of x i' b' n'] obtain q'' where x: "?g x = Some (i', b', n', q'')" by blast
    with D(8) [OF x] D(8) [OF a] that(2) show ?thesis by (auto simp: m'(1))
  qed
  have other: "block_ok (g(a := None)) False b' k'" if "tm_blocks m b' = Some k'" "b' \<noteq> b" for b' k'
  proof (rule block_ok_other [of ?g _ _ _ b])
    show "block_ok ?g False b' k'" using D(10) [OF that(1)] by simp
    fix x i' n' q'
    assume x: "?g x = Some (i', b', n', q')"
    then have "x \<notin> set (cs @ a # ds)" using es(2) that(2) by auto
    then show "(g(a := None)) x = ?g x" using g(2) by simp
  next
    fix x i' n' q'
    assume "(g(a := None)) x = Some (i', b', n', q')"
    then show "\<exists>q. ?g x = Some (i', b', n', q)" using kinds by (metis fun_upd_apply option.distinct(1))
  qed (rule that)
  have own: "block_ok (g(a := None)) False b (k\<lparr>tb_entries := p, tb_refs := tb_refs k - 1\<rparr>)" if ne: "cs @ ds \<noteq> []"
  proof -
    have "chain (g(a := None)) p (cs @ ds)" using g(3) es(1) by simp
    moreover have "x \<in> set (cs @ ds) \<longleftrightarrow> (\<exists>i' n' q'. (g(a := None)) x = Some (i', b, n', q'))" for x
    proof (cases "x = a")
      case True
      with es(1) show ?thesis by simp
    next
      case False
      then have "x \<in> set (cs @ ds) \<longleftrightarrow> (\<exists>i' n' q'. ?g x = Some (i', b, n', q'))"
        using es(2) [rule_format, of x] by simp
      with False kinds [of x _ b] show ?thesis by simp
    qed
    ultimately show ?thesis using D(10) [OF k] ne es(1,3) unfolding block_ok_def
      by (intro conjI exI [of _ "cs @ ds"]) auto
  qed
  have blocks: "block_ok (g(a := None)) False b' k' \<and> tm_by_block m' (tb_dsml k') = Some b'" if "tm_blocks m' b' = Some k'" for b' k'
  proof (cases "b' = b")
    case True
    with that b' have ne: "cs @ ds \<noteq> []" by (auto split: if_splits)
    with that b' True own D(11) [OF k] show ?thesis by (auto split: if_splits)
  next
    case False
    with that b' have old: "tm_blocks m b' = Some k'" by (auto split: if_splits)
    with False D(11) [OF k] D(11) [OF old] have "tb_dsml k' \<noteq> tb_dsml k" by auto
    with other [OF old False] D(11) [OF old] b' show ?thesis by (auto split: if_splits)
  qed
  have by_block: "\<exists>k'. tm_blocks m' b' = Some k' \<and> tb_dsml k' = d" if "tm_by_block m' d = Some b'" for b' d
  proof (cases "b' = b")
    case True
    with that b' D(12) [of d b'] k show ?thesis by (auto split: if_splits)
  next
    case False
    with that b' have "tm_by_block m d = Some b'" by (auto split: if_splits)
    from D(12) [OF this] False b' show ?thesis by (auto split: if_splits)
  qed
  have by_id: "\<exists>b n q. (g(a := None)) x = Some (i', b, n, q)" if "tm_by_id m' i' = Some x" for i' x
  proof -
    from that have "i' \<noteq> i" "tm_by_id m i' = Some x" by (auto simp: m'(1) split: if_splits)
    moreover from D(9) [OF this(2)] obtain b' n' q' where x: "?g x = Some (i', b', n', q')" by blast
    ultimately have "x \<noteq> a" using a by auto
    with x kinds [of x i' b' n'] show ?thesis by auto
  qed
  have fresh: "x < tm_fresh m'" if "x \<in> dom (g(a := None)) \<union> dom (tm_blocks m')" for x
  proof -
    have "x \<in> dom ?g \<union> dom (tm_blocks m)" using that doms b' k by (auto split: if_splits)
    then show ?thesis using D(14) m'(4) by simp
  qed
  have facts: "i' \<noteq> [] \<and> n' = length i' + 1 + sizeof_entry" if x: "g x = Some (i', b', n', q')" for x i' b' n' q'
    using kinds [of x i' b' n'] x D(5,6) by blast
  have entries: "i' \<noteq> [] \<and> n' = length i' + 1 + sizeof_entry \<and> tm_blocks m' b' \<noteq> None \<and> tm_by_id m' i' = Some x"
    if "(g(a := None)) x = Some (i', b', n', q')" for x i' b' n' q'
  proof -
    from that have "g x = Some (i', b', n', q')" "x \<noteq> a" by (auto split: if_splits)
    with facts alone ids show ?thesis by blast
  qed
  have lists: "distinct (remove1 a xs)" "dom (g(a := None)) = set (remove1 a xs)" "tm_entries m' = length (remove1 a xs)"
    using D(1,2,3) doms in_xs m'(3) by (auto simp: set_remove1_eq length_remove1)
  have none: "(None = Some b') = False" for b' :: addr by simp
  show ?thesis
    unfolding store_ok_def Let_def m'(2) none using bb lists entries blocks by_block by_id fin fresh by blast
qed

lemma remove_ok:
  assumes ok: "memory_ok m xs" and a: "a \<in> set xs" and e: "tm_heap m a = Some e"
  obtains m' where "tool_memory_remove_entry_locked a m = Some m'" "memory_ok m' (remove1 a xs)"
    "same_config m m'" "tm_by_id m' = (tm_by_id m)(te_id e := None)" "tm_clock m' = tm_clock m"
    "\<And>x. x \<in> set (remove1 a xs) \<Longrightarrow> content m' x = content m x"
proof -
  let ?g = "cores (tm_heap m)" and ?b = "te_block e"
  have st: "store_ok m None xs" and ord: "order_ok m xs" using ok by (simp_all add: memory_ok_def)
  note D = store_okD [OF st]
  from e have ga: "?g a = Some (te_id e, ?b, te_bytes e, te_block_next e)" by (simp add: cores_def core_def)
  from D(7) [OF ga] obtain k where k: "tm_blocks m ?b = Some k" ..
  from D(10) [OF k] obtain es where es: "chain ?g (tb_entries k) es" "distinct es"
    "\<forall>x. x \<in> set es \<longleftrightarrow> (\<exists>i n q. ?g x = Some (i, ?b, n, q))" "tb_refs k = int (length es)"
    by (auto simp: block_ok_def)
  from es(3) ga have "a \<in> set es" by blast
  then obtain cs ds where split: "es = cs @ a # ds" by (meson split_list)
  from a obtain us vs where xs: "xs = us @ a # vs" by (meson split_list)
  define m1 where "m1 = m\<lparr>tm_by_id := (tm_by_id m)(te_id e := None)\<rparr>"
  have "dll (links (tm_heap m1)) None (tm_head m1) (us @ a # vs) (tm_tail m1) None"
    using ord by (simp add: m1_def order_ok_def xs)
  from unlink_dll [OF this] D(1) obtain m2 where m2: "tool_memory_unlink a m1 = Some m2" "relinked m1 m2"
    "dll (links (tm_heap m2)) None (tm_head m2) (us @ vs) (tm_tail m2) None" by (auto simp: xs)
  note R = relinked_simps [OF m2(2)]
  have k2: "tm_blocks m2 ?b = Some k" "chain (cores (tm_heap m2)) (tb_entries k) (cs @ a # ds)"
    using R k es(1) split by (simp_all add: m1_def)
  obtain m3 p where m3: "tool_block_unlink_entry ?b a m2 = Some m3"
    "m3 = m2\<lparr>tm_heap := tm_heap m3, tm_blocks := (tm_blocks m2)(?b \<mapsto> k\<lparr>tb_entries := p\<rparr>)\<rparr>"
    "links (tm_heap m3) = links (tm_heap m2)" "sources (tm_heap m3) = sources (tm_heap m2)"
    "kind (cores (tm_heap m3)) = kind (cores (tm_heap m2))"
    "\<And>x. x \<notin> set cs \<Longrightarrow> x \<noteq> a \<Longrightarrow> cores (tm_heap m3) x = cores (tm_heap m2) x"
    "chain (cores (tm_heap m3)) p (cs @ ds)"
    using block_unlink_ok [OF k2] es(2) split by metis
  define m4 where "m4 = m3\<lparr>tm_bytes := tm_bytes m3 - te_bytes e, tm_entries := tm_entries m3 - 1\<rparr>"
  have same3: "tm_bytes m3 = tm_bytes m" "tm_entries m3 = tm_entries m" "tm_by_id m3 = (tm_by_id m)(te_id e := None)"
    "tm_by_block m3 = tm_by_block m" "tm_fresh m3 = tm_fresh m" "tm_head m3 = tm_head m2" "tm_tail m3 = tm_tail m2"
    "tm_max_entries m3 = tm_max_entries m" "tm_max_bytes m3 = tm_max_bytes m" "tm_scan_clock m3 = tm_scan_clock m"
    "tm_clock m3 = tm_clock m"
    "tm_blocks m3 = (tm_blocks m)(?b \<mapsto> k\<lparr>tb_entries := p\<rparr>)"
    using R m3(2) by (cases m3; simp add: m1_def)+
  define kd where "kd = k\<lparr>tb_entries := p, tb_refs := tb_refs k - 1\<rparr>"
  define m5 where "m5 = (if cs @ ds = []
     then m4\<lparr>tm_by_block := (tm_by_block m)(tb_dsml k := None), tm_bytes := tm_bytes m4 - tb_bytes k,
             tm_blocks := (tm_blocks m)(?b := None)\<rparr>
     else m4\<lparr>tm_blocks := (tm_blocks m)(?b \<mapsto> kd)\<rparr>)"
  define m' where "m' = m5\<lparr>tm_heap := (tm_heap m3)(a := None)\<rparr>"
  have heap5: "tm_heap m5 = tm_heap m3" by (simp add: m5_def m4_def)
  have rel: "tool_memory_release_block_locked ?b m4 = Some m5"
  proof -
    have "tb_refs k - 1 = int (length (cs @ ds))" using split es(4) by simp
    then have "tb_refs k - 1 > 0 \<longleftrightarrow> cs @ ds \<noteq> []" by (simp only: of_nat_0_less_iff length_greater_0_conv)
    with same3 show ?thesis
      by (simp add: tool_memory_release_block_locked_def set_block_Some m4_def m5_def kd_def)
  qed
  have g3: "kind (cores (tm_heap m3)) = kind ?g" "\<And>x. x \<notin> set cs \<Longrightarrow> x \<noteq> a \<Longrightarrow> cores (tm_heap m3) x = ?g x"
    using m3(5,6) R by (simp_all add: m1_def)
  have st': "store_ok m' None (remove1 a xs)"
    by (rule drop_entry [OF st ga k _ _ _ g3 m3(7)])
      (use es split same3 in \<open>auto simp: m'_def m5_def m4_def kd_def\<close>)
  have a_out: "a \<notin> set (us @ vs)" using D(1) by (simp add: xs)
  have ord': "order_ok m' (remove1 a xs)"
    using m2(3) m3(3) same3 a_out by (simp add: order_ok_def m'_def m5_def m4_def xs remove1_append)
  have content: "content m' x = content m x" if "x \<in> set (remove1 a xs)" for x
  proof -
    from that have x: "x \<noteq> a" "x \<in> set xs" using D(1) by auto
    then obtain i b n q where gx: "?g x = Some (i, b, n, q)" using D(2) by (metis domD prod_cases4)
    then obtain q' where g'x: "cores (tm_heap m') x = Some (i, b, n, q')"
      using fun_cong [OF g3(1), of x] x(1) by (auto simp: kind_def m'_def heap5)
    have src: "sources (tm_heap m') x = sources (tm_heap m) x" using R m3(4) x(1) by (simp add: m'_def heap5 m1_def)
    obtain kx where kx: "tm_blocks m b = Some kx" using D(7) [OF gx] ..
    obtain kx' where kx': "tm_blocks m' b = Some kx'" using store_okD(7) [OF st' g'x] ..
    have "tb_dsml kx' = tb_dsml kx"
      using kx kx' k same3 by (auto simp: m'_def m5_def m4_def kd_def split: if_splits)
    with gx g'x src kx kx' show ?thesis by (simp add: content_def split: option.split)
  qed
  show thesis
  proof (rule that [of m'])
    show "tool_memory_remove_entry_locked a m = Some m'"
      using e m2(1) m3(1) rel [unfolded m4_def]
      by (simp add: tool_memory_remove_entry_locked_def m1_def [symmetric] m'_def heap5)
  qed (use st' ord' same3 content in \<open>auto simp: memory_ok_def same_config_def m'_def m5_def m4_def\<close>)
qed

section \<open>Adding an entry\<close>

lemma get_block_ok:
  assumes ok: "store_ok m None xs" and d: "dsml \<noteq> []"
  obtains b m' k where "tool_memory_get_block_locked dsml m = Some (b, m')" "store_ok m' (Some b) xs"
    "tm_blocks m' b = Some k" "tb_dsml k = dsml"
    "m' = m\<lparr>tm_fresh := tm_fresh m', tm_blocks := tm_blocks m', tm_by_block := tm_by_block m', tm_bytes := tm_bytes m'\<rparr>"
    "\<And>b' k'. tm_blocks m b' = Some k' \<Longrightarrow> tm_blocks m' b' = Some k'"
proof (cases "tm_by_block m dsml")
  case (Some b)
  from store_okD(12) [OF ok Some] obtain k where k: "tm_blocks m b = Some k" "tb_dsml k = dsml" by blast
  have weak: "block_ok g False b' k' \<Longrightarrow> block_ok g fr b' k'" for g fr b' k' by (auto simp: block_ok_def)
  have "store_ok m (Some b) xs" using ok weak unfolding store_ok_def Let_def by (auto split: if_splits)
  with k Some d show thesis
    by (intro that [of b m k]) (auto simp: tool_memory_get_block_locked_def tool_memory_find_block_locked_def)
next
  case None
  note D = store_okD [OF ok]
  let ?b = "tm_fresh m"
  let ?k = "\<lparr>tb_dsml = dsml, tb_len = length dsml, tb_bytes = length dsml + 1 + sizeof_block, tb_refs = 0,
              tb_seen = 0, tb_entries = None\<rparr>"
  let ?m' = "m\<lparr>tm_fresh := ?b + 1, tm_blocks := (tm_blocks m)(?b \<mapsto> ?k), tm_by_block := (tm_by_block m)(dsml \<mapsto> ?b),
              tm_bytes := tm_bytes m + tb_bytes ?k\<rparr>"
  have new: "tm_blocks m ?b = None"
  proof (rule ccontr)
    assume "tm_blocks m ?b \<noteq> None"
    then have "?b \<in> dom (tm_blocks m)" by auto
    with D(14) [of ?b] show False by simp
  qed
  have unused: "cores (tm_heap m) x \<noteq> Some (i, ?b, n, q)" for x i n q
    using D(7) [of x i ?b n q] new by auto
  have own: "block_ok (cores (tm_heap m)) True ?b ?k"
    using d unused unfolding block_ok_def by (intro conjI exI [of _ "[]"]) auto
  have dsml: "tb_dsml k \<noteq> dsml" if "tm_blocks m b = Some k" for b k using D(11) [OF that] None by auto
  have blocks: "block_ok (cores (tm_heap m)) (Some ?b = Some b) b k \<and> tm_by_block ?m' (tb_dsml k) = Some b"
    if "tm_blocks ?m' b = Some k" for b k
  proof (cases "b = ?b")
    case False
    with that have old: "tm_blocks m b = Some k" by simp
    with False D(10) [OF old] D(11) [OF old] dsml [OF old] show ?thesis by simp
  qed (use that own in auto)
  have by_block: "\<exists>k. tm_blocks ?m' b = Some k \<and> tb_dsml k = d'" if "tm_by_block ?m' d' = Some b" for b d'
  proof (cases "d' = dsml")
    case False
    with that have "tm_by_block m d' = Some b" by simp
    from D(12) [OF this] new show ?thesis by auto
  qed (use that in auto)
  have entries: "i \<noteq> [] \<and> n = length i + 1 + sizeof_entry \<and> tm_blocks ?m' b \<noteq> None \<and> tm_by_id ?m' i = Some x"
    if x: "cores (tm_heap ?m') x = Some (i, b, n, q)" for x i b n q
    using D(5,6,7,8) [of x i b n q] x by auto
  have simps: "tm_heap ?m' = tm_heap m" "tm_by_id ?m' = tm_by_id m" "tm_entries ?m' = tm_entries m" by simp_all
  have bytes: "tm_bytes ?m' = entry_bytes (cores (tm_heap m)) xs + block_bytes (tm_blocks ?m')"
    using D(4) block_bytes_insert [OF D(13) new] by simp
  have fin: "finite (dom (tm_blocks ?m'))" using D(13) by simp
  have fresh: "x < tm_fresh ?m'" if "x \<in> dom (cores (tm_heap m)) \<union> dom (tm_blocks ?m')" for x
    using that D(14) [of x] by (cases "x = ?b") auto
  have "store_ok ?m' (Some ?b) xs"
    unfolding store_ok_def Let_def simps(1)
    using D(1,2,3) D(9) bytes entries blocks by_block fin fresh unfolding simps by blast
  with new None d show thesis
    by (intro that [of ?b ?m' ?k]) (auto simp: tool_memory_get_block_locked_def tool_memory_find_block_locked_def Let_def)
qed

lemma add_entry:
  assumes ok: "store_ok m (Some b) xs" and k: "tm_blocks m b = Some k" and i: "ident \<noteq> []" "tm_by_id m ident = None"
    and n: "n = length ident + 1 + sizeof_entry"
    and m': "cores (tm_heap m') = (cores (tm_heap m))(tm_fresh m \<mapsto> (ident, b, n, tb_entries k))"
      "tm_blocks m' = (tm_blocks m)(b \<mapsto> k\<lparr>tb_entries := Some (tm_fresh m), tb_refs := tb_refs k + 1\<rparr>)"
      "tm_by_id m' = (tm_by_id m)(ident \<mapsto> tm_fresh m)" "tm_by_block m' = tm_by_block m"
      "tm_entries m' = tm_entries m + 1" "tm_bytes m' = tm_bytes m + n" "tm_fresh m' = tm_fresh m + 1"
  shows "store_ok m' None (tm_fresh m # xs)"
proof -
  let ?g = "cores (tm_heap m)" and ?a = "tm_fresh m"
  let ?g' = "?g(?a \<mapsto> (ident, b, n, tb_entries k))"
  note D = store_okD [OF ok]
  have new: "?g ?a = None"
  proof (rule ccontr)
    assume "?g ?a \<noteq> None"
    then have "?a \<in> dom ?g" by blast
    with D(14) [of ?a] show False by simp
  qed
  then have a: "?a \<notin> set xs" using D(2) by auto
  from D(10) [OF k] obtain es where es: "chain ?g (tb_entries k) es" "distinct es"
    "\<forall>x. x \<in> set es \<longleftrightarrow> (\<exists>i n q. ?g x = Some (i, b, n, q))" "tb_refs k = int (length es)"
    by (auto simp: block_ok_def)
  have a_es: "?a \<notin> set es" using es(3) new by auto
  have own: "block_ok ?g' False b (k\<lparr>tb_entries := Some ?a, tb_refs := tb_refs k + 1\<rparr>)"
    using D(10) [OF k] es a_es unfolding block_ok_def by (intro conjI exI [of _ "?a # es"]) auto
  have other: "block_ok ?g' False b' k'" if "tm_blocks m b' = Some k'" "b' \<noteq> b" for b' k'
    by (rule block_ok_other [of ?g _ _ _ b]) (use D(10) [OF that(1)] that new in \<open>auto split: if_splits\<close>)
  have blocks: "block_ok ?g' False b' k' \<and> tm_by_block m' (tb_dsml k') = Some b'" if "tm_blocks m' b' = Some k'" for b' k'
  proof (cases "b' = b")
    case True
    with that own D(11) [OF k] show ?thesis by (auto simp: m'(2,4))
  next
    case False
    with that have "tm_blocks m b' = Some k'" by (simp add: m'(2))
    with False other D(11) show ?thesis by (simp add: m'(4))
  qed
  have by_block: "\<exists>k'. tm_blocks m' b' = Some k' \<and> tb_dsml k' = d" if "tm_by_block m' d = Some b'" for b' d
    using D(12) [of d b'] that k by (auto simp: m'(2,4))
  have entries: "i' \<noteq> [] \<and> n' = length i' + 1 + sizeof_entry \<and> tm_blocks m' b' \<noteq> None \<and> tm_by_id m' i' = Some x"
    if "?g' x = Some (i', b', n', q')" for x i' b' n' q'
  proof (cases "x = ?a")
    case True
    with that i n show ?thesis by (auto simp: m'(2,3))
  next
    case False
    with that have x: "?g x = Some (i', b', n', q')" by simp
    with D(5,6) D(7) [OF x] D(8) [OF x] i(2) show ?thesis by (auto simp: m'(2,3))
  qed
  have by_id: "\<exists>b n q. ?g' x = Some (i', b, n, q)" if "tm_by_id m' i' = Some x" for i' x
    using D(9) [of i' x] that new by (cases "i' = ident") (auto simp: m'(3) split: if_splits)
  have lists: "distinct (?a # xs)" "dom ?g' = set (?a # xs)" "tm_entries m' = length (?a # xs)"
    using D(1,2,3) a m'(5) by auto
  have bytes: "tm_bytes m' = entry_bytes ?g' (?a # xs) + block_bytes (tm_blocks m')"
    using D(4) block_bytes_upd [OF D(13) k] entry_bytes_off [OF a] by (simp add: m'(2,6) entry_bytes_def)
  have fin: "finite (dom (tm_blocks m'))" using D(13) by (simp add: m'(2))
  have fresh: "x < tm_fresh m'" if "x \<in> dom ?g' \<union> dom (tm_blocks m')" for x
  proof (cases "x = ?a")
    case False
    then have "x \<in> dom ?g \<union> dom (tm_blocks m)" using that k by (auto simp: m'(2) split: if_splits)
    from D(14) [OF this] show ?thesis by (simp add: m'(7))
  qed (simp add: m'(7))
  have none: "(None = Some b') = False" for b' :: addr by simp
  show ?thesis
    unfolding store_ok_def Let_def m'(1) none using bytes lists entries blocks by_block by_id fin fresh by blast
qed

lemma insert_ok:
  assumes ok: "memory_ok m xs" and i: "ident \<noteq> []" "tm_by_id m ident = None" and d: "dsml \<noteq> []"
  obtains m' a where "insert_new_entry ident dsml source m = Some m'" "memory_ok m' (a # xs)" "same_config m m'"
    "tm_by_id m' = (tm_by_id m)(ident \<mapsto> a)" "content m' a = Some (ident, dsml, source)"
    "\<And>x. x \<in> set xs \<Longrightarrow> content m' x = content m x"
proof -
  have st: "store_ok m None xs" and ord: "order_ok m xs" using ok by (simp_all add: memory_ok_def)
  obtain b m1 k where m1: "tool_memory_get_block_locked dsml m = Some (b, m1)" "store_ok m1 (Some b) xs"
    "tm_blocks m1 b = Some k" "tb_dsml k = dsml"
    "m1 = m\<lparr>tm_fresh := tm_fresh m1, tm_blocks := tm_blocks m1, tm_by_block := tm_by_block m1, tm_bytes := tm_bytes m1\<rparr>"
    "\<And>b' k'. tm_blocks m b' = Some k' \<Longrightarrow> tm_blocks m1 b' = Some k'"
    by (rule get_block_ok [OF st d]) (rule that)
  have kept: "tm_heap m1 = tm_heap m" "tm_by_id m1 = tm_by_id m" "tm_head m1 = tm_head m" "tm_tail m1 = tm_tail m"
    "tm_entries m1 = tm_entries m" "tm_max_entries m1 = tm_max_entries m" "tm_max_bytes m1 = tm_max_bytes m"
    "tm_clock m1 = tm_clock m" "tm_scan_clock m1 = tm_scan_clock m"
    using arg_cong [OF m1(5), of tm_heap] arg_cong [OF m1(5), of tm_by_id] arg_cong [OF m1(5), of tm_head] arg_cong [OF m1(5), of tm_tail]
      arg_cong [OF m1(5), of tm_entries] arg_cong [OF m1(5), of tm_max_entries] arg_cong [OF m1(5), of tm_max_bytes] arg_cong [OF m1(5), of tm_clock] arg_cong [OF m1(5), of tm_scan_clock]
    by simp_all
  note D = store_okD [OF m1(2)]
  let ?a = "tm_fresh m1"
  have new: "?a \<notin> set xs" using D(2) D(14) [of ?a] by auto
  define e where "e = \<lparr>te_id = ident, te_block = b, te_bytes = length ident + 1 + sizeof_entry, te_stamp = tm_clock m + 1,
              te_source = source, te_prev = None, te_next = None, te_block_next = tb_entries k\<rparr>"
  define m2 where "m2 = m1\<lparr>tm_fresh := ?a + 1, tm_clock := tm_clock m + 1, tm_heap := (tm_heap m)(?a \<mapsto> e),
     tm_blocks := (tm_blocks m1)(b \<mapsto> k\<lparr>tb_entries := Some ?a, tb_refs := tb_refs k + 1\<rparr>),
     tm_by_id := (tm_by_id m)(ident \<mapsto> ?a)\<rparr>"
  have "dll (links (tm_heap m2)) None (tm_head m2) xs (tm_tail m2) None" "tm_heap m2 ?a = Some e"
    using ord new kept by (simp_all add: order_ok_def m2_def)
  from link_head_dll [OF this new D(1)] obtain m3 where m3: "tool_memory_link_head ?a m2 = Some m3" "relinked m2 m3"
    "dll (links (tm_heap m3)) None (tm_head m3) (?a # xs) (tm_tail m3) None" by blast
  note R = relinked_simps [OF m3(2)]
  define m' where "m' = m3\<lparr>tm_entries := tm_entries m3 + 1, tm_bytes := tm_bytes m3 + te_bytes e\<rparr>"
  have cores': "cores (tm_heap m') = (cores (tm_heap m1))(?a \<mapsto> (ident, b, length ident + 1 + sizeof_entry, tb_entries k))"
    using R kept by (simp add: m'_def m2_def e_def core_def)
  have blocks': "tm_blocks m' = (tm_blocks m1)(b \<mapsto> k\<lparr>tb_entries := Some ?a, tb_refs := tb_refs k + 1\<rparr>)"
    using R by (simp add: m'_def m2_def)
  have "store_ok m' None (?a # xs)"
    by (rule add_entry [OF m1(2,3) i(1) _ refl cores' blocks'])
      (use i(2) kept R in \<open>simp_all add: m'_def m2_def e_def\<close>)
  then have "memory_ok m' (?a # xs)" using m3(3) by (simp add: memory_ok_def order_ok_def m'_def)
  moreover have "insert_new_entry ident dsml source m = Some m'"
  proof -
    have "\<lparr>te_id = ident, te_block = b, te_bytes = Suc (length ident + sizeof_entry), te_stamp = tm_clock m + 1,
              te_source = source, te_prev = None, te_next = None, te_block_next = tb_entries k\<rparr> = e"
      by (simp add: e_def)
    moreover have "te_bytes e = Suc (length ident + sizeof_entry)" by (simp add: e_def)
    ultimately show ?thesis using m1(1,3) i(2) m3(1) [unfolded m2_def]
      by (simp add: insert_new_entry_def set_block_Some kept m'_def Let_def)
  qed
  moreover have "content m' ?a = Some (ident, dsml, source)"
    using m1(4) R unfolding content_def cores' blocks' by (simp add: m'_def m2_def e_def)
  moreover have "content m' x = content m x" if "x \<in> set xs" for x
  proof -
    have x: "x \<noteq> ?a" using that new by auto
    have src: "sources (tm_heap m') x = sources (tm_heap m) x" using R x kept by (simp add: m'_def m2_def)
    show ?thesis
    proof (cases "cores (tm_heap m) x")
      case (Some c)
      obtain i' b' n' q' where c: "cores (tm_heap m) x = Some (i', b', n', q')" using Some by (cases c) auto
      from store_okD(7) [OF st c] obtain k' where "tm_blocks m b' = Some k'" ..
      with c x src m1(3) m1(6) [OF this] show ?thesis
        unfolding content_def cores' blocks' by (auto simp: kept split: option.split)
    qed (use x src kept in \<open>simp add: content_def cores'\<close>)
  qed
  ultimately show thesis using R kept by (intro that [of m' ?a]) (auto simp: same_config_def m'_def m2_def)
qed

section \<open>The memory as a list\<close>

definition recent :: "tool_memory \<Rightarrow> addr list \<Rightarrow> (byte list \<times> byte list \<times> tool_memory_source) list" where
  "recent m xs = map (\<lambda>a. the (content m a)) xs"

lemma recent_cong: "(\<And>x. x \<in> set xs \<Longrightarrow> content m' x = content m x) \<Longrightarrow> recent m' xs = recent m xs"
  by (simp add: recent_def)

lemma memory_ok_distinct: "memory_ok m xs \<Longrightarrow> distinct xs"
  by (simp add: memory_ok_def store_ok_def Let_def)

lemma content_Some:
  assumes "memory_ok m xs" "a \<in> set xs"
  obtains i d s where "content m a = Some (i, d, s)" "tm_by_id m i = Some a" "i \<noteq> []"
proof -
  have st: "store_ok m None xs" using assms(1) by (simp add: memory_ok_def)
  from store_ok_alive [OF st assms(2)] obtain e where e: "tm_heap m a = Some e" ..
  then have c: "cores (tm_heap m) a = Some (te_id e, te_block e, te_bytes e, te_block_next e)"
    by (simp add: cores_def core_def)
  from store_okD(7) [OF st c] obtain k where "tm_blocks m (te_block e) = Some k" ..
  with c e store_okD(5,8) [OF st c] show thesis
    by (intro that [of "te_id e" "tb_dsml k" "te_source e"]) (simp_all add: content_def sources_def)
qed

text \<open>The specification: a list of (id, markup, source), the most recent first, one entry per id,
  cut from its end to the limits.  A markup that several entries share is counted once.\<close>

type_synonym lru = "(byte list \<times> byte list \<times> tool_memory_source) list"

definition lru_bytes :: "lru \<Rightarrow> nat" where
  "lru_bytes l = (\<Sum>(i, d, s)\<leftarrow>l. length i + 1 + sizeof_entry)
     + (\<Sum>d \<in> (fst \<circ> snd) ` set l. length d + 1 + sizeof_block)"

definition lru_over :: "int \<Rightarrow> nat \<Rightarrow> lru \<Rightarrow> bool" where
  "lru_over maxn maxb l \<longleftrightarrow> int (length l) > maxn \<or> lru_bytes l > maxb"

fun lru_prune :: "int \<Rightarrow> nat \<Rightarrow> lru \<Rightarrow> lru" where
  "lru_prune maxn maxb [] = []"
| "lru_prune maxn maxb (x # l) =
     (if lru_over maxn maxb (x # l) then lru_prune maxn maxb (butlast (x # l)) else x # l)"

declare lru_prune.simps [simp del]

definition lru_find :: "byte list \<Rightarrow> lru \<Rightarrow> (byte list \<times> tool_memory_source) option" where
  "lru_find i l = map_option snd (find (\<lambda>x. fst x = i) l)"

definition lru_without :: "byte list \<Rightarrow> lru \<Rightarrow> lru" where
  "lru_without i l = filter (\<lambda>x. fst x \<noteq> i) l"

definition lru_put :: "int \<Rightarrow> nat \<Rightarrow> byte list \<Rightarrow> byte list \<Rightarrow> tool_memory_source \<Rightarrow> lru \<Rightarrow> lru" where
  "lru_put maxn maxb i d s l =
     (if i = [] \<or> d = [] then l
      else lru_prune maxn maxb
        ((i, d, case lru_find i l of
                  Some (d', s') \<Rightarrow> if d' = d \<and> s \<noteq> TOOL_MEMORY_RAM then s' else s
                | None \<Rightarrow> s) # lru_without i l))"

definition lru_lookup :: "byte list \<Rightarrow> lru \<Rightarrow> (byte list \<times> tool_memory_source) option \<times> lru" where
  "lru_lookup i l =
     (case lru_find i l of
        None \<Rightarrow> (None, l)
      | Some (d, s) \<Rightarrow> (Some (d, s), (i, d, s) # lru_without i l))"

section \<open>The memory is that list\<close>

lemma recent_ids_distinct: "memory_ok m xs \<Longrightarrow> distinct (map fst (recent m xs))"
proof -
  assume ok: "memory_ok m xs"
  have "inj_on (\<lambda>a. fst (the (content m a))) (set xs)"
  proof (rule inj_onI)
    fix a b assume "a \<in> set xs" "b \<in> set xs" and eq: "fst (the (content m a)) = fst (the (content m b))"
    from content_Some [OF ok \<open>a \<in> set xs\<close>] obtain i d s where a: "content m a = Some (i, d, s)" "tm_by_id m i = Some a" .
    from content_Some [OF ok \<open>b \<in> set xs\<close>] obtain j d' s' where b: "content m b = Some (j, d', s')" "tm_by_id m j = Some b" .
    from a b eq show "a = b" by simp
  qed
  then show ?thesis using memory_ok_distinct [OF ok] by (simp add: recent_def distinct_map comp_def)
qed

lemma recent_remove:
  assumes ok: "memory_ok m xs" and a: "a \<in> set xs" "content m a = Some (i, d, s)"
  shows "recent m (remove1 a xs) = lru_without i (recent m xs)"
proof -
  have "fst (the (content m x)) \<noteq> i \<longleftrightarrow> x \<noteq> a" if "x \<in> set xs" for x
  proof -
    from content_Some [OF ok that] obtain j d' s' where x: "content m x = Some (j, d', s')" "tm_by_id m j = Some x" .
    from content_Some [OF ok a(1)] obtain j' d'' s'' where "content m a = Some (j', d'', s'')" "tm_by_id m j' = Some a" .
    with a(2) have "tm_by_id m i = Some a" by simp
    with x a(2) show ?thesis by auto
  qed
  then have "filter (\<lambda>x. fst (the (content m x)) \<noteq> i) xs = filter (\<lambda>x. x \<noteq> a) xs" by (intro filter_cong) auto
  then show ?thesis
    using memory_ok_distinct [OF ok] by (simp add: recent_def lru_without_def filter_map comp_def distinct_remove1_removeAll
        removeAll_filter_not_eq neq_commute)
qed

lemma find_in: "find P l = Some y \<Longrightarrow> y \<in> set l \<and> P y"
  by (induction l) (auto split: if_splits)

lemma find_by_id:
  assumes ok: "memory_ok m xs" and i: "i \<noteq> []"
  shows "tool_memory_find_entry_locked m i = Some a \<Longrightarrow>
      a \<in> set xs \<and> (\<exists>d s. content m a = Some (i, d, s) \<and> lru_find i (recent m xs) = Some (d, s))"
    and "tool_memory_find_entry_locked m i = None \<Longrightarrow> lru_find i (recent m xs) = None"
proof -
  have st: "store_ok m None xs" using ok by (simp add: memory_ok_def)
  have at: "lru_find i (recent m xs) = Some (d, s)" if "a \<in> set xs" "content m a = Some (i, d, s)" for a d s
  proof -
    have "find (\<lambda>x. fst x = i) (recent m xs) = Some (i, d, s)"
    proof -
      have mem: "(i, d, s) \<in> set (recent m xs)" using that by (force simp: recent_def)
      then obtain y where y: "find (\<lambda>x. fst x = i) (recent m xs) = Some y"
        by (cases "find (\<lambda>x. fst x = i) (recent m xs)") (force simp: find_None_iff)+
      then have "y \<in> set (recent m xs)" "fst y = i" using find_in [OF y] by simp_all
      moreover have "inj_on fst (set (recent m xs))" using recent_ids_distinct [OF ok] by (simp add: distinct_map)
      ultimately have "y = (i, d, s)" using mem inj_onD [of fst "set (recent m xs)" y "(i, d, s)"] by simp
      with y show ?thesis by simp
    qed
    then show ?thesis by (simp add: lru_find_def)
  qed
  {
    assume "tool_memory_find_entry_locked m i = Some a"
    then have "tm_by_id m i = Some a" using i by (simp add: tool_memory_find_entry_locked_def)
    with store_okD(9) [OF st this] have "a \<in> set xs" using store_okD(2) [OF st] by auto
    moreover from content_Some [OF ok this] obtain j d s where c: "content m a = Some (j, d, s)" "tm_by_id m j = Some a" .
    moreover have "j = i"
      using store_okD(9) [OF st \<open>tm_by_id m i = Some a\<close>] c(1) by (auto simp: content_def split: option.splits)
    ultimately show "a \<in> set xs \<and> (\<exists>d s. content m a = Some (i, d, s) \<and> lru_find i (recent m xs) = Some (d, s))"
      using at by blast
  }
  assume none: "tool_memory_find_entry_locked m i = None"
  show "lru_find i (recent m xs) = None"
  proof (rule ccontr)
    assume "lru_find i (recent m xs) \<noteq> None"
    then obtain y where "find (\<lambda>x. fst x = i) (recent m xs) = Some y" by (auto simp: lru_find_def)
    from find_in [OF this] have "y \<in> set (recent m xs)" "fst y = i" by simp_all
    then obtain x where x: "x \<in> set xs" "fst (the (content m x)) = i" by (auto simp: recent_def)
    from content_Some [OF ok x(1)] obtain j d s where "content m x = Some (j, d, s)" "tm_by_id m j = Some x" .
    with x(2) have "tm_by_id m i = Some x" by simp
    with none i show False by (simp add: tool_memory_find_entry_locked_def)
  qed
qed

lemma memory_bytes:
  assumes ok: "memory_ok m xs"
  shows "tm_bytes m = lru_bytes (recent m xs)" "tm_entries m = length (recent m xs)"
proof -
  have st: "store_ok m None xs" using ok by (simp add: memory_ok_def)
  note D = store_okD [OF st]
  let ?g = "cores (tm_heap m)"
  have entries: "fst (snd (snd (the (?g a)))) = length (fst (the (content m a))) + 1 + sizeof_entry" if "a \<in> set xs" for a
  proof -
    from store_ok_alive [OF st that] obtain e where e: "tm_heap m a = Some e" ..
    then have c: "?g a = Some (te_id e, te_block e, te_bytes e, te_block_next e)" by (simp add: cores_def core_def)
    from D(7) [OF c] obtain k where "tm_blocks m (te_block e) = Some k" ..
    with c e D(6) [OF c] show ?thesis by (simp add: content_def sources_def)
  qed
  have 1: "entry_bytes ?g xs = (\<Sum>(i, d, s)\<leftarrow>recent m xs. length i + 1 + sizeof_entry)"
    unfolding entry_bytes_def recent_def by (simp add: comp_def split_def entries cong: map_cong)
  have inj: "inj_on (\<lambda>b. tb_dsml (the (tm_blocks m b))) (dom (tm_blocks m))"
  proof (rule inj_onI)
    fix b b' assume "b \<in> dom (tm_blocks m)" "b' \<in> dom (tm_blocks m)"
      and eq: "tb_dsml (the (tm_blocks m b)) = tb_dsml (the (tm_blocks m b'))"
    then obtain k k' where k: "tm_blocks m b = Some k" "tm_blocks m b' = Some k'" by auto
    with eq D(11) [OF k(1)] D(11) [OF k(2)] show "b = b'" by simp
  qed
  have img: "(\<lambda>b. tb_dsml (the (tm_blocks m b))) ` dom (tm_blocks m) = (fst \<circ> snd) ` set (recent m xs)"
  proof (intro set_eqI iffI)
    fix d assume "d \<in> (\<lambda>b. tb_dsml (the (tm_blocks m b))) ` dom (tm_blocks m)"
    then obtain b k where k: "tm_blocks m b = Some k" "d = tb_dsml k" by auto
    from D(10) [OF k(1)] obtain es where es: "es \<noteq> []" "\<forall>a. a \<in> set es \<longleftrightarrow> (\<exists>i n q. ?g a = Some (i, b, n, q))"
      by (auto simp: block_ok_def)
    then obtain a i n q where a: "?g a = Some (i, b, n, q)" by (metis list.set_sel(1))
    then have a_in: "a \<in> set xs" using D(2) by auto
    from content_Some [OF ok a_in] obtain i' d' s where c: "content m a = Some (i', d', s)" .
    with a k have "d' = d" by (auto simp: content_def split: option.splits)
    then have "(i', d, s) \<in> set (recent m xs)" using a_in c by (force simp: recent_def)
    then show "d \<in> (fst \<circ> snd) ` set (recent m xs)" by force
  next
    fix d assume "d \<in> (fst \<circ> snd) ` set (recent m xs)"
    then obtain a where a: "a \<in> set xs" "d = fst (snd (the (content m a)))" by (auto simp: recent_def)
    from content_Some [OF ok a(1)] obtain i' d' s where c: "content m a = Some (i', d', s)" .
    with a(2) have "content m a = Some (i', d, s)" by simp
    then obtain b k where "tm_blocks m b = Some k" "tb_dsml k = d" by (auto simp: content_def split: option.splits)
    then show "d \<in> (\<lambda>b. tb_dsml (the (tm_blocks m b))) ` dom (tm_blocks m)" by force
  qed
  have "block_bytes (tm_blocks m) = (\<Sum>b \<in> dom (tm_blocks m). length (tb_dsml (the (tm_blocks m b))) + 1 + sizeof_block)"
    unfolding block_bytes_def
  proof (rule sum.cong)
    fix b assume "b \<in> dom (tm_blocks m)"
    then obtain k where k: "tm_blocks m b = Some k" by auto
    with D(10) [OF k] show "tb_bytes (the (tm_blocks m b)) = length (tb_dsml (the (tm_blocks m b))) + 1 + sizeof_block"
      by (simp add: block_ok_def)
  qed simp
  also have "\<dots> = (\<Sum>d \<in> (\<lambda>b. tb_dsml (the (tm_blocks m b))) ` dom (tm_blocks m). length d + 1 + sizeof_block)"
    using sum.reindex [OF inj, of "\<lambda>d. length d + 1 + sizeof_block"] by simp
  finally have 2: "block_bytes (tm_blocks m) = (\<Sum>d \<in> (fst \<circ> snd) ` set (recent m xs). length d + 1 + sizeof_block)"
    by (simp only: img)
  show "tm_bytes m = lru_bytes (recent m xs)" using D(4) 1 2 by (simp add: lru_bytes_def)
  show "tm_entries m = length (recent m xs)" using D(3) by (simp add: recent_def)
qed

lemma over_limit_lru:
  "memory_ok m xs \<Longrightarrow>
   over_limit m \<longleftrightarrow> lru_over (tool_memory_max_entries m) (tool_memory_max_bytes m) (recent m xs)"
  using memory_bytes [of m xs] by (simp add: over_limit_def lru_over_def)

lemma same_config_limits:
  "same_config m m' \<Longrightarrow> tool_memory_max_entries m' = tool_memory_max_entries m \<and> tool_memory_max_bytes m' = tool_memory_max_bytes m"
  by (simp add: same_config_def tool_memory_max_entries_def tool_memory_max_bytes_def)

lemma same_config_trans: "same_config m m' \<Longrightarrow> same_config m' m'' \<Longrightarrow> same_config m m''"
  by (simp add: same_config_def)

lemma memory_tail: "memory_ok m xs \<Longrightarrow> tm_tail m = (if xs = [] then None else Some (last xs))"
  using dll_ends [of "links (tm_heap m)" None "tm_head m" xs "tm_tail m" None]
  by (auto simp: memory_ok_def order_ok_def)

text \<open>The pruning loop ends, frees only what it owns, and is the cut of the specification.\<close>

lemma prune_ok:
  "memory_ok m xs \<Longrightarrow>
   \<exists>m' ys. tool_memory_prune_locked m = Some m' \<and> memory_ok m' ys \<and> same_config m m'
     \<and> recent m' ys = lru_prune (tool_memory_max_entries m) (tool_memory_max_bytes m) (recent m xs)"
proof (induction xs arbitrary: m rule: rev_induct)
  case Nil
  then show ?case
    by (intro exI [of _ m] exI [of _ "[]"])
      (simp add: tool_memory_prune_locked.simps [of m] memory_tail recent_def lru_prune.simps same_config_def)
next
  case (snoc a zs)
  let ?p = "lru_prune (tool_memory_max_entries m) (tool_memory_max_bytes m)"
  have tail: "tm_tail m = Some a" using memory_tail [OF snoc.prems] by simp
  have ne: "recent m (zs @ [a]) \<noteq> []" by (simp add: recent_def)
  have cut: "?p (recent m (zs @ [a])) = (if over_limit m then ?p (recent m zs) else recent m (zs @ [a]))"
  proof -
    obtain x l where xl: "recent m (zs @ [a]) = x # l" using ne by (cases "recent m (zs @ [a])") auto
    have "butlast (x # l) = recent m zs" unfolding xl [symmetric] by (simp add: recent_def)
    then show ?thesis using over_limit_lru [OF snoc.prems] by (simp add: xl lru_prune.simps(2) [of _ _ x l] del: butlast.simps)
  qed
  show ?case
  proof (cases "over_limit m")
    case False
    then show ?thesis using snoc.prems tail cut
      by (intro exI [of _ m] exI [of _ "zs @ [a]"]) (simp add: tool_memory_prune_locked.simps [of m] same_config_def)
  next
    case True
    have st: "store_ok m None (zs @ [a])" using snoc.prems by (simp add: memory_ok_def)
    then obtain e where e: "tm_heap m a = Some e" using store_ok_alive by fastforce
    have rest: "remove1 a (zs @ [a]) = zs" using memory_ok_distinct [OF snoc.prems] by (simp add: remove1_append)
    obtain m1 where m1: "tool_memory_remove_entry_locked a m = Some m1" "memory_ok m1 zs" "same_config m m1"
      "\<And>x. x \<in> set zs \<Longrightarrow> content m1 x = content m x"
      using remove_ok [OF snoc.prems _ e] rest by auto
    have same: "recent m1 zs = recent m zs" using m1(4) by (rule recent_cong)
    from snoc.IH [OF m1(2)] obtain m' ys where "tool_memory_prune_locked m1 = Some m'" "memory_ok m' ys" "same_config m1 m'"
      "recent m' ys = ?p (recent m zs)" using same same_config_limits [OF m1(3)] by auto
    with True tail m1 cut show ?thesis
      by (intro exI [of _ m'] exI [of _ ys]) (auto simp: tool_memory_prune_locked.simps [of m] intro: same_config_trans)
  qed
qed

lemma touch_recent:
  assumes ok: "memory_ok m xs" and a: "a \<in> set xs" "content m a = Some (i, d, s)"
  obtains m' where "tool_memory_touch a m = Some m'" "memory_ok m' (a # remove1 a xs)" "same_config m m'"
    "recent m' (a # remove1 a xs) = (i, d, s) # lru_without i (recent m xs)" "content m' = content m"
proof -
  from touch_ok [OF ok a(1)] obtain m' where m': "tool_memory_touch a m = Some m'" "memory_ok m' (a # remove1 a xs)"
    "relinked (m\<lparr>tm_clock := tm_clock m + 1\<rparr>) m'" .
  note R = relinked_simps [OF m'(3)]
  have c: "content m' = content m"
  proof (rule ext)
    have same: "tm_blocks m' = tm_blocks m" "cores (tm_heap m') = cores (tm_heap m)" "sources (tm_heap m') = sources (tm_heap m)"
      using R by simp_all
    show "content m' x = content m x" for x unfolding content_def same by (rule refl)
  qed
  moreover have "recent m' (a # remove1 a xs) = (i, d, s) # lru_without i (recent m xs)"
    using a(2) recent_remove [OF ok a] by (simp add: recent_def c)
  moreover have "same_config m m'" using R by (simp add: same_config_def)
  ultimately show thesis using m'(1,2) that by blast
qed

text \<open>An operation of the memory implements a function on lists when it returns, keeps the
  structure and the limits, and leaves the list the function gives.\<close>

definition implements :: "(tool_memory \<Rightarrow> tool_memory option) \<Rightarrow> (int \<Rightarrow> nat \<Rightarrow> lru \<Rightarrow> lru) \<Rightarrow> bool" where
  "implements f g \<longleftrightarrow>
     (\<forall>m xs. memory_ok m xs \<longrightarrow>
        (\<exists>m' ys. f m = Some m' \<and> memory_ok m' ys \<and> same_config m m'
           \<and> recent m' ys = g (tool_memory_max_entries m) (tool_memory_max_bytes m) (recent m xs)))"

lemma implementsD:
  assumes "implements f g" "memory_ok m xs"
  obtains m' ys where "f m = Some m'" "memory_ok m' ys" "same_config m m'"
    "recent m' ys = g (tool_memory_max_entries m) (tool_memory_max_bytes m) (recent m xs)"
  using assms unfolding implements_def by metis

lemma implements_bind:
  assumes f: "implements f g" and f': "implements f' g'"
  shows "implements (\<lambda>m. Option.bind (f m) f') (\<lambda>n b l. g' n b (g n b l))"
  unfolding implements_def
proof (intro allI impI)
  fix m xs assume ok: "memory_ok m xs"
  from implementsD [OF f ok] obtain m1 ys where 1: "f m = Some m1" "memory_ok m1 ys" "same_config m m1"
    "recent m1 ys = g (tool_memory_max_entries m) (tool_memory_max_bytes m) (recent m xs)" .
  from implementsD [OF f' 1(2)] obtain m2 zs where 2: "f' m1 = Some m2" "memory_ok m2 zs" "same_config m1 m2"
    "recent m2 zs = g' (tool_memory_max_entries m1) (tool_memory_max_bytes m1) (recent m1 ys)" .
  show "\<exists>m' ys. Option.bind (f m) f' = Some m' \<and> memory_ok m' ys \<and> same_config m m' \<and> recent m' ys =
      g' (tool_memory_max_entries m) (tool_memory_max_bytes m) (g (tool_memory_max_entries m) (tool_memory_max_bytes m) (recent m xs))"
    using 1 2 same_config_limits [OF 1(3)] same_config_trans [OF 1(3) 2(3)] by (intro exI [of _ m2] exI [of _ zs]) simp
qed

lemma implements_skip: "implements Some (\<lambda>n b l. l)"
  by (auto simp: implements_def same_config_def)

lemma prune_implements: "implements tool_memory_prune_locked lru_prune"
  unfolding implements_def using prune_ok by blast

lemma set_source_ok:
  assumes ok: "memory_ok m xs" and a: "a \<in> set xs" "content m a = Some (i, d, s)"
  obtains m' where "set_entry a (\<lambda>x. x\<lparr>te_source := src\<rparr>) m = Some m'" "memory_ok m' xs" "same_config m m'"
    "content m' = (content m)(a \<mapsto> (i, d, src))"
proof -
  have st: "store_ok m None xs" using ok by (simp add: memory_ok_def)
  from store_ok_alive [OF st a(1)] obtain e where e: "tm_heap m a = Some e" ..
  define m' where "m' = m\<lparr>tm_heap := (tm_heap m)(a \<mapsto> e\<lparr>te_source := src\<rparr>)\<rparr>"
  have c: "cores (tm_heap m') = cores (tm_heap m)" "links (tm_heap m') = links (tm_heap m)"
    using e by (auto simp: m'_def view_same links_def)
  have "memory_ok m' xs" using ok unfolding memory_ok_def order_ok_def store_ok_def Let_def c by (simp add: m'_def)
  moreover have "content m' x = ((content m)(a \<mapsto> (i, d, src))) x" for x
  proof (cases "x = a")
    case True
    with a(2) show ?thesis unfolding content_def c by (auto simp: m'_def split: option.splits)
  next
    case False
    then have "sources (tm_heap m') x = sources (tm_heap m) x" by (simp add: m'_def)
    moreover have "tm_blocks m' = tm_blocks m" by (simp add: m'_def)
    ultimately show ?thesis using False unfolding content_def c by (simp only: fun_upd_apply if_False)
  qed
  ultimately show thesis using e
    by (intro that [of m']) (auto simp: set_entry_Some m'_def same_config_def)
qed

lemma recent_upd_without:
  assumes ok: "memory_ok m xs" and ok': "memory_ok m' xs" and a: "a \<in> set xs" "content m a = Some (i, d, s)"
    and upd: "content m' = (content m)(a \<mapsto> (i, d, s'))"
  shows "lru_without i (recent m' xs) = lru_without i (recent m xs)"
proof -
  have a': "content m' a = Some (i, d, s')" by (simp add: upd)
  have "recent m' (remove1 a xs) = recent m (remove1 a xs)"
    using memory_ok_distinct [OF ok] by (intro recent_cong) (auto simp: upd)
  then show ?thesis using recent_remove [OF ok a] recent_remove [OF ok' a(1) a'] by simp
qed

lemma same_block_text:
  assumes ok: "memory_ok m xs" and "a \<in> set xs" and e: "tm_heap m a = Some e" and c: "content m a = Some (i, d, s)"
  obtains k where "tm_blocks m (te_block e) = Some k" "tb_dsml k = d" "tb_len k = length d" "te_id e = i" "te_source e = s"
    "tm_by_block m d = Some (te_block e)"
proof -
  have st: "store_ok m None xs" using ok by (simp add: memory_ok_def)
  have g: "cores (tm_heap m) a = Some (te_id e, te_block e, te_bytes e, te_block_next e)" using e by (simp add: cores_def core_def)
  from store_okD(7) [OF st g] obtain k where k: "tm_blocks m (te_block e) = Some k" ..
  with g e c have "tb_dsml k = d" "te_id e = i" "te_source e = s" by (auto simp: content_def sources_def)
  with k store_okD(10,11) [OF st k] show thesis by (intro that [of k]) (auto simp: block_ok_def)
qed

text \<open>The three outcomes of a put: a known id with the same markup, with another one, and a new id.\<close>

lemma put_same:
  assumes ok: "memory_ok m xs" and a: "a \<in> set xs" "content m a = Some (i, d, s)"
  obtains m' ys where
    "Option.bind (if src = TOOL_MEMORY_RAM then set_entry a (\<lambda>x. x\<lparr>te_source := TOOL_MEMORY_RAM\<rparr>) m else Some m)
       (tool_memory_touch a) = Some m'" "memory_ok m' ys" "same_config m m'"
    "recent m' ys = (i, d, if src \<noteq> TOOL_MEMORY_RAM then s else src) # lru_without i (recent m xs)"
proof (cases "src = TOOL_MEMORY_RAM")
  case True
  from set_source_ok [OF ok a, of TOOL_MEMORY_RAM] obtain m1 where m1:
    "set_entry a (\<lambda>x. x\<lparr>te_source := TOOL_MEMORY_RAM\<rparr>) m = Some m1" "memory_ok m1 xs" "same_config m m1"
    "content m1 = (content m)(a \<mapsto> (i, d, TOOL_MEMORY_RAM))" .
  have c1: "content m1 a = Some (i, d, TOOL_MEMORY_RAM)" by (simp add: m1(4))
  from touch_recent [OF m1(2) a(1) c1] obtain m2 where m2: "tool_memory_touch a m1 = Some m2"
    "memory_ok m2 (a # remove1 a xs)" "same_config m1 m2"
    "recent m2 (a # remove1 a xs) = (i, d, TOOL_MEMORY_RAM) # lru_without i (recent m1 xs)" .
  show thesis
    using that [of m2 "a # remove1 a xs"] True m1 m2 same_config_trans [OF m1(3) m2(3)]
      recent_upd_without [OF ok m1(2) a m1(4)] by simp
next
  case False
  from touch_recent [OF ok a] obtain m2 where "tool_memory_touch a m = Some m2"
    "memory_ok m2 (a # remove1 a xs)" "same_config m m2"
    "recent m2 (a # remove1 a xs) = (i, d, s) # lru_without i (recent m xs)" .
  with False show thesis using that [of m2 "a # remove1 a xs"] by simp
qed

lemma insert_recent:
  assumes ok: "memory_ok m xs" and i: "i \<noteq> []" "tm_by_id m i = None" and d: "d \<noteq> []"
  obtains m' ys where "insert_new_entry i d src m = Some m'" "memory_ok m' ys" "same_config m m'"
    "recent m' ys = (i, d, src) # recent m xs"
proof -
  from insert_ok [OF ok i d] obtain m' a where m': "insert_new_entry i d src m = Some m'" "memory_ok m' (a # xs)"
    "same_config m m'" "content m' a = Some (i, d, src)" "\<And>x. x \<in> set xs \<Longrightarrow> content m' x = content m x"
    by metis
  have "recent m' (a # xs) = (i, d, src) # recent m xs" using m'(4) recent_cong [OF m'(5)] by (simp add: recent_def)
  with m' that show thesis by blast
qed

lemma put_implements: "implements (tool_memory_put_locked i d src) (\<lambda>n b. lru_put n b i d src)"
proof (cases "i = [] \<or> d = []")
  case True
  then have "tool_memory_put_locked i d src = Some" "(\<lambda>n b. lru_put n b i d src) = (\<lambda>n b l. l)"
    by (auto simp: tool_memory_put_locked_def lru_put_def fun_eq_iff)
  then show ?thesis using implements_skip by simp
next
  case False
  then have ne: "i \<noteq> []" "d \<noteq> []" by auto
  show ?thesis
    unfolding implements_def
  proof (intro allI impI)
    fix m xs assume ok: "memory_ok m xs"
    let ?n = "tool_memory_max_entries m" and ?b = "tool_memory_max_bytes m" and ?l = "recent m xs"
    have fin: "\<exists>m' ys. tool_memory_put_locked i d src m = Some m' \<and> memory_ok m' ys \<and> same_config m m'
        \<and> recent m' ys = lru_put ?n ?b i d src ?l"
      if put: "tool_memory_put_locked i d src m = Option.bind (f m) tool_memory_prune_locked"
        and f: "f m = Some m1" "memory_ok m1 zs" "same_config m m1"
        and l: "lru_put ?n ?b i d src ?l = lru_prune ?n ?b (recent m1 zs)" for f m1 zs
      using prune_ok [OF f(2)] put f(1) l same_config_limits [OF f(3)] same_config_trans [OF f(3)] by auto
    show "\<exists>m' ys. tool_memory_put_locked i d src m = Some m' \<and> memory_ok m' ys \<and> same_config m m'
        \<and> recent m' ys = lru_put ?n ?b i d src ?l"
    proof (cases "tool_memory_find_entry_locked m i")
      case None
      then have new: "tm_by_id m i = None" using ne by (simp add: tool_memory_find_entry_locked_def)
      have nf: "lru_find i ?l = None" using find_by_id(2) [OF ok ne(1) None] .
      then have "lru_without i ?l = ?l" by (force simp: lru_find_def lru_without_def find_None_iff filter_id_conv)
      moreover from insert_recent [OF ok ne(1) new ne(2), of src] obtain m1 zs where
        "insert_new_entry i d src m = Some m1" "memory_ok m1 zs" "same_config m m1" "recent m1 zs = (i, d, src) # ?l" .
      ultimately show ?thesis using None ne nf
        by (intro fin [of "insert_new_entry i d src" m1 zs]) (simp_all add: tool_memory_put_locked_def lru_put_def)
    next
      case (Some a)
      from find_by_id(1) [OF ok ne(1) Some] obtain d' s' where a: "a \<in> set xs" "content m a = Some (i, d', s')"
        and found: "lru_find i ?l = Some (d', s')" by blast
      have "store_ok m None xs" using ok by (simp add: memory_ok_def)
      then obtain e where e: "tm_heap m a = Some e" using store_ok_alive a(1) by blast
      from same_block_text [OF ok a(1) e a(2)] obtain k where k: "tm_blocks m (te_block e) = Some k" "tb_dsml k = d'"
        "tb_len k = length d'" "te_id e = i" .
      show ?thesis
      proof (cases "d' = d")
        case True
        from put_same [OF ok a, of src] obtain m1 zs where
          "Option.bind (if src = TOOL_MEMORY_RAM then set_entry a (\<lambda>x. x\<lparr>te_source := TOOL_MEMORY_RAM\<rparr>) m else Some m)
             (tool_memory_touch a) = Some m1" "memory_ok m1 zs" "same_config m m1"
          "recent m1 zs = (i, d', if src \<noteq> TOOL_MEMORY_RAM then s' else src) # lru_without i ?l" .
        with True Some e k ne found show ?thesis
          by (intro fin [of "\<lambda>m. Option.bind (if src = TOOL_MEMORY_RAM then set_entry a (\<lambda>x. x\<lparr>te_source := TOOL_MEMORY_RAM\<rparr>) m else Some m)
             (tool_memory_touch a)" m1 zs]; cases "src = TOOL_MEMORY_RAM";
              auto simp: tool_memory_put_locked_def lru_put_def bind_eq_Some_conv)
      next
        case False
        from remove_ok [OF ok a(1) e] obtain m0 where m0: "tool_memory_remove_entry_locked a m = Some m0"
          "memory_ok m0 (remove1 a xs)" "same_config m m0" "tm_by_id m0 = (tm_by_id m)(te_id e := None)"
          "\<And>x. x \<in> set (remove1 a xs) \<Longrightarrow> content m0 x = content m x" by metis
        have gone: "tm_by_id m0 i = None" using m0(4) k(4) by simp
        from insert_recent [OF m0(2) ne(1) gone ne(2), of src] obtain m1 zs where m1:
          "insert_new_entry i d src m0 = Some m1" "memory_ok m1 zs" "same_config m0 m1"
          "recent m1 zs = (i, d, src) # recent m0 (remove1 a xs)" .
        have "recent m0 (remove1 a xs) = lru_without i ?l"
          using recent_cong [OF m0(5)] recent_remove [OF ok a] by simp
        moreover have differ: "(length d' = length d \<and> take (length d) d' = d) = False" using False by auto
        ultimately show ?thesis using Some e k ne found False m0 m1 same_config_trans [OF m0(3) m1(3)]
          by (intro fin [of "\<lambda>m. Option.bind (tool_memory_remove_entry_locked a m) (insert_new_entry i d src)" m1 zs])
            (simp_all add: tool_memory_put_locked_def lru_put_def differ del: take_eq_Nil)
      qed
    qed
  qed
qed

lemma lookup_recent:
  assumes ok: "memory_ok m xs"
  obtains r m' ys where "tool_memory_lookup_locked i m = Some (r, m')" "memory_ok m' ys" "same_config m m'"
    "recent m' ys = snd (lru_lookup i (recent m xs))" "map_option (\<lambda>(d, s, b). (d, s)) r = fst (lru_lookup i (recent m xs))"
    "\<And>d s b. r = Some (d, s, b) \<Longrightarrow> tm_by_block m d = Some b"
    "tm_by_block m' = tm_by_block m" "tm_blocks m' = tm_blocks m"
proof (cases "tool_memory_find_entry_locked m i")
  case None
  have "lru_find i (recent m xs) = None"
  proof (cases "i = []")
    case True
    have "y \<noteq> []" if "y \<in> fst ` set (recent m xs)" for y
    proof -
      from that obtain a where a: "a \<in> set xs" "y = fst (the (content m a))" by (auto simp: recent_def)
      from content_Some [OF ok a(1)] obtain i' d' s' where "content m a = Some (i', d', s')" "i' \<noteq> []" .
      with a(2) show ?thesis by simp
    qed
    with True show ?thesis by (force simp: lru_find_def find_None_iff)
  qed (use find_by_id(2) [OF ok _ None] in blast)
  with None ok show thesis
    by (intro that [of None m xs]) (simp_all add: tool_memory_lookup_locked_def lru_lookup_def same_config_def)
next
  case (Some a)
  then have i: "i \<noteq> []" by (auto simp: tool_memory_find_entry_locked_def split: if_splits)
  from find_by_id(1) [OF ok i Some] obtain d s where a: "a \<in> set xs" "content m a = Some (i, d, s)"
    and found: "lru_find i (recent m xs) = Some (d, s)" by blast
  from touch_ok [OF ok a(1)] obtain m' where t: "tool_memory_touch a m = Some m'" "memory_ok m' (a # remove1 a xs)"
    "relinked (m\<lparr>tm_clock := tm_clock m + 1\<rparr>) m'" .
  note R = relinked_simps [OF t(3)]
  from touch_recent [OF ok a] t(1) have m': "same_config m m'" "content m' = content m"
    "recent m' (a # remove1 a xs) = (i, d, s) # lru_without i (recent m xs)" by auto
  have in': "a \<in> set (a # remove1 a xs)" by simp
  have "store_ok m' None (a # remove1 a xs)" using t(2) by (simp add: memory_ok_def)
  from store_ok_alive [OF this in'] obtain e where e: "tm_heap m' a = Some e" ..
  have c': "content m' a = Some (i, d, s)" using a(2) m'(2) by simp
  from same_block_text [OF t(2) in' e c'] obtain k where k: "tm_blocks m' (te_block e) = Some k" "tb_dsml k = d"
    "te_source e = s" "tm_by_block m' d = Some (te_block e)" .
  have blocks: "tm_by_block m' = tm_by_block m" "tm_blocks m' = tm_blocks m" using R by simp_all
  show thesis
    by (rule that [of "Some (d, s, te_block e)" m' "a # remove1 a xs"])
      (use Some t m' e k found blocks in \<open>simp_all add: tool_memory_lookup_locked_def lru_lookup_def\<close>)
qed

section \<open>Replaying a conversation\<close>

record tool_replay_stats =
  stat_mem :: int
  stat_disk :: int
  stat_canonical :: int
  stat_missing_ids :: int

definition tool_memory_has_id :: "bool \<Rightarrow> byte list \<Rightarrow> tool_memory \<Rightarrow> bool" where
  "tool_memory_has_id disabled ident m \<longleftrightarrow> \<not> disabled \<and> ident \<noteq> [] \<and> tool_memory_find_entry_locked m ident \<noteq> None"

definition tool_memory_put_source ::
    "bool \<Rightarrow> byte list \<Rightarrow> byte list \<Rightarrow> tool_memory_source \<Rightarrow> tool_memory \<Rightarrow> tool_memory option" where
  "tool_memory_put_source disabled ident dsml source m =
     (if disabled \<or> ident = [] \<or> dsml = [] then Some m else tool_memory_put_locked ident dsml source m)"

fun remember_calls :: "tool_call list \<Rightarrow> byte list \<Rightarrow> tool_memory \<Rightarrow> tool_memory option" where
  "remember_calls [] dsml m = Some m"
| "remember_calls (c # cs) dsml m =
     Option.bind (tool_memory_put_locked (or_empty (tc_id c)) dsml TOOL_MEMORY_RAM m) (remember_calls cs dsml)"

definition tool_memory_remember :: "bool \<Rightarrow> tool_calls \<Rightarrow> tool_memory \<Rightarrow> tool_memory option" where
  "tool_memory_remember disabled calls m =
     (if disabled \<or> or_empty (calls_raw_dsml calls) = [] then Some m
      else remember_calls (calls_v calls) (or_empty (calls_raw_dsml calls)) m)"

record attach_state =
  at_matched :: "(addr \<times> byte list) option"
  at_source :: tool_memory_source
  at_exact :: bool
  at_missing :: int

definition attach_call ::
    "tool_call \<Rightarrow> attach_state \<times> tool_memory \<Rightarrow> (attach_state \<times> tool_memory) option" where
  "attach_call c sm = (case sm of (st, m) \<Rightarrow>
     (case tool_memory_lookup_locked (or_empty (tc_id c)) m of
        None \<Rightarrow> None
      | Some (None, m') \<Rightarrow> Some (st\<lparr>at_exact := False, at_missing := at_missing st + 1\<rparr>, m')
      | Some (Some (dsml, source, block), m') \<Rightarrow>
          let st1 = (case at_matched st of
                       None \<Rightarrow> st\<lparr>at_matched := Some (block, dsml), at_source := source\<rparr>
                     | Some (b, _) \<Rightarrow> if b \<noteq> block then st\<lparr>at_exact := False\<rparr> else st)
          in Some (if source = TOOL_MEMORY_RAM then st1\<lparr>at_source := TOOL_MEMORY_RAM\<rparr> else st1, m')))"

fun attach_calls ::
    "tool_call list \<Rightarrow> attach_state \<times> tool_memory \<Rightarrow> (attach_state \<times> tool_memory) option" where
  "attach_calls [] sm = Some sm"
| "attach_calls (c # cs) sm = Option.bind (attach_call c sm) (attach_calls cs)"

definition attach_message ::
    "chat_msg \<Rightarrow> tool_replay_stats \<Rightarrow> tool_memory \<Rightarrow> (chat_msg \<times> tool_replay_stats \<times> tool_memory) option" where
  "attach_message msg stats m =
     (let calls = msg_calls msg in
      if calls_v calls = [] \<or> calls_raw_dsml calls \<noteq> None then Some (msg, stats, m)
      else
        case attach_calls (calls_v calls)
               (\<lparr>at_matched = None, at_source = TOOL_MEMORY_DISK, at_exact = True, at_missing = 0\<rparr>, m) of
          None \<Rightarrow> None
        | Some (st, m') \<Rightarrow>
            (case at_matched st of
               Some (b, dsml) \<Rightarrow>
                 if at_exact st
                 then Some (msg\<lparr>msg_calls := calls\<lparr>calls_raw_dsml := Some dsml\<rparr>\<rparr>,
                            if at_source st = TOOL_MEMORY_RAM then stats\<lparr>stat_mem := stat_mem stats + 1\<rparr>
                            else stats\<lparr>stat_disk := stat_disk stats + 1\<rparr>, m')
                 else Some (msg, stats\<lparr>stat_canonical := stat_canonical stats + 1,
                                       stat_missing_ids := stat_missing_ids stats + at_missing st\<rparr>, m')
             | None \<Rightarrow> Some (msg, stats\<lparr>stat_canonical := stat_canonical stats + 1,
                                       stat_missing_ids := stat_missing_ids stats + at_missing st\<rparr>, m')))"

fun attach_messages ::
    "chat_msg list \<Rightarrow> tool_replay_stats \<Rightarrow> tool_memory \<Rightarrow> (chat_msg list \<times> tool_replay_stats \<times> tool_memory) option" where
  "attach_messages [] stats m = Some ([], stats, m)"
| "attach_messages (msg # msgs) stats m =
     (case attach_message msg stats m of
        None \<Rightarrow> None
      | Some (msg', stats', m') \<Rightarrow>
          (case attach_messages msgs stats' m' of
             None \<Rightarrow> None
           | Some (msgs', r) \<Rightarrow> Some (msg' # msgs', r)))"

definition count_canonical :: "chat_msg \<Rightarrow> tool_replay_stats \<Rightarrow> tool_replay_stats" where
  "count_canonical msg stats =
     (let calls = msg_calls msg in
      if calls_v calls = [] \<or> calls_raw_dsml calls \<noteq> None then stats
      else stats\<lparr>stat_canonical := stat_canonical stats + 1,
                 stat_missing_ids := stat_missing_ids stats + int (length (calls_v calls))\<rparr>)"

definition tool_memory_attach_to_messages :: "bool \<Rightarrow> chat_msg list \<Rightarrow> tool_replay_stats \<Rightarrow> tool_memory
    \<Rightarrow> (chat_msg list \<times> tool_replay_stats \<times> tool_memory) option" where
  "tool_memory_attach_to_messages disabled msgs stats m =
     (if disabled then Some (msgs, fold count_canonical msgs stats, m)
      else attach_messages msgs stats m)"

text \<open>The ids a reply gets: each call without one takes the first candidate that is neither the id of
  an earlier call of the reply nor remembered.  \<open>cands\<close> are the random candidates, in order.\<close>

definition tool_calls_contains_id :: "tool_call list \<Rightarrow> byte list \<Rightarrow> nat \<Rightarrow> bool" where
  "tool_calls_contains_id cs ident bound \<longleftrightarrow> ident \<noteq> [] \<and> (\<exists>c \<in> set (take bound cs). tc_id c = Some ident)"

fun pick_id :: "bool \<Rightarrow> tool_memory \<Rightarrow> tool_call list \<Rightarrow> nat \<Rightarrow> byte list list \<Rightarrow> (byte list \<times> byte list list) option" where
  "pick_id disabled m cs i [] = None"
| "pick_id disabled m cs i (ident # cands) =
     (if \<not> tool_calls_contains_id cs ident i \<and> \<not> tool_memory_has_id disabled ident m then Some (ident, cands)
      else pick_id disabled m cs i cands)"

fun assign_ids_from :: "bool \<Rightarrow> tool_memory \<Rightarrow> nat \<Rightarrow> nat \<Rightarrow> tool_call list \<Rightarrow> byte list list \<Rightarrow> tool_call list option" where
  "assign_ids_from disabled m 0 i cs cands = Some cs"
| "assign_ids_from disabled m (Suc n) i cs cands =
     (if or_empty (tc_id (cs ! i)) \<noteq> [] then assign_ids_from disabled m n (i + 1) cs cands
      else
        case pick_id disabled m cs i cands of
          None \<Rightarrow> None
        | Some (ident, cands') \<Rightarrow>
            assign_ids_from disabled m n (i + 1) (cs[i := (cs ! i)\<lparr>tc_id := Some ident\<rparr>]) cands')"

definition assign_tool_call_ids :: "bool \<Rightarrow> tool_memory \<Rightarrow> tool_call list \<Rightarrow> byte list list \<Rightarrow> tool_call list option" where
  "assign_tool_call_ids disabled m cs cands = assign_ids_from disabled m (length cs) 0 cs cands"

section \<open>Facts about the list\<close>

lemma lru_find_without: "lru_find j (lru_without i l) = (if j = i then None else lru_find j l)"
  by (induction l) (auto simp: lru_find_def lru_without_def)

lemma lru_find_Cons: "lru_find j ((i, d, s) # l) = (if j = i then Some (d, s) else lru_find j l)"
  by (simp add: lru_find_def)

lemma lru_lookup_keeps: "lru_find j (snd (lru_lookup i l)) = lru_find j l"
  by (auto simp: lru_lookup_def lru_find_Cons lru_find_without split: option.split)

lemma lru_lookup_fst: "fst (lru_lookup i l) = lru_find i l"
  by (auto simp: lru_lookup_def split: option.split)

lemma lru_prune_within: "maxn \<ge> 0 \<Longrightarrow> \<not> lru_over maxn maxb (lru_prune maxn maxb l)"
proof (induction maxn maxb l rule: lru_prune.induct)
  case (1 maxn maxb)
  then show ?case by (simp add: lru_prune.simps lru_over_def lru_bytes_def)
next
  case (2 maxn maxb x l)
  then show ?case by (auto simp: lru_prune.simps(2) simp del: butlast.simps)
qed

lemma lru_prune_id: "\<not> lru_over maxn maxb l \<Longrightarrow> lru_prune maxn maxb l = l"
  by (cases l) (simp_all add: lru_prune.simps)

text \<open>A lookup permutes the list, so it stays within the limits.\<close>

lemma lru_without_mset:
  "lru_find i l = Some (d, s) \<Longrightarrow> distinct (map fst l) \<Longrightarrow> add_mset (i, d, s) (mset (lru_without i l)) = mset l"
proof (induction l)
  case Nil
  then show ?case by (simp add: lru_find_def)
next
  case (Cons x l)
  obtain j dj sj where x: "x = (j, dj, sj)" by (cases x)
  have out: "j \<notin> fst ` set l" "distinct (map fst l)" using Cons.prems(2) by (simp_all add: x)
  show ?case
  proof (cases "j = i")
    case True
    have "fst y \<noteq> i" if "y \<in> set l" for y using that out(1) True by (metis imageI)
    then have "lru_without i l = l" unfolding lru_without_def filter_id_conv by blast
    then show ?thesis using True Cons.prems(1) by (simp add: x lru_find_Cons) (simp add: lru_without_def)
  next
    case False
    then have "lru_without i (x # l) = x # lru_without i l" by (simp add: lru_without_def x)
    with False Cons.prems(1) Cons.IH out(2) show ?thesis by (simp add: x lru_find_Cons add_mset_commute)
  qed
qed

lemma lru_lookup_mset: "distinct (map fst l) \<Longrightarrow> mset (snd (lru_lookup i l)) = mset l"
  by (auto simp: lru_lookup_def lru_without_mset split: option.split)

lemma lru_over_mset: "mset l = mset l' \<Longrightarrow> lru_over n b l = lru_over n b l'"
proof -
  assume eq: "mset l = mset l'"
  have sum: "sum_list (map f zs) = sum_mset (image_mset f (mset zs))" for f :: "byte list \<times> byte list \<times> tool_memory_source \<Rightarrow> nat" and zs
    by (simp add: sum_mset_sum_list flip: mset_map)
  show ?thesis using eq mset_eq_setD [OF eq] mset_eq_length [OF eq]
    by (simp add: lru_over_def lru_bytes_def sum)
qed

section \<open>Histories\<close>

datatype memory_op = Op_put "byte list" "byte list" tool_memory_source | Op_lookup "byte list"

fun run_op :: "memory_op \<Rightarrow> tool_memory \<Rightarrow> tool_memory option" where
  "run_op (Op_put i d s) m = tool_memory_put_locked i d s m"
| "run_op (Op_lookup i) m = map_option snd (tool_memory_lookup_locked i m)"

fun run_ops :: "memory_op list \<Rightarrow> tool_memory \<Rightarrow> tool_memory option" where
  "run_ops [] m = Some m"
| "run_ops (oper # opers) m = Option.bind (run_op oper m) (run_ops opers)"

fun lru_op :: "int \<Rightarrow> nat \<Rightarrow> memory_op \<Rightarrow> lru \<Rightarrow> lru" where
  "lru_op n b (Op_put i d s) l = lru_put n b i d s l"
| "lru_op n b (Op_lookup i) l = snd (lru_lookup i l)"

definition lru_ops :: "int \<Rightarrow> nat \<Rightarrow> memory_op list \<Rightarrow> lru \<Rightarrow> lru" where
  "lru_ops n b opers l = fold (lru_op n b) opers l"

lemma lookup_implements: "implements (run_op (Op_lookup i)) (\<lambda>n b l. snd (lru_lookup i l))"
  unfolding implements_def
proof (intro allI impI)
  fix m xs assume "memory_ok m xs"
  from lookup_recent [OF this, of i] obtain r m' ys where "tool_memory_lookup_locked i m = Some (r, m')" "memory_ok m' ys"
    "same_config m m'" "recent m' ys = snd (lru_lookup i (recent m xs))" by metis
  then show "\<exists>m' ys. run_op (Op_lookup i) m = Some m' \<and> memory_ok m' ys \<and> same_config m m' \<and>
      recent m' ys = snd (lru_lookup i (recent m xs))" by auto
qed

lemma run_op_implements: "implements (run_op oper) (\<lambda>n b. lru_op n b oper)"
proof (cases oper)
  case (Op_put i d s)
  have "run_op (Op_put i d s) = tool_memory_put_locked i d s"
    "(\<lambda>n b. lru_op n b (Op_put i d s)) = (\<lambda>n b. lru_put n b i d s)" by (simp_all add: fun_eq_iff)
  then show ?thesis using put_implements by (simp add: Op_put)
next
  case (Op_lookup i)
  have "(\<lambda>n b. lru_op n b (Op_lookup i)) = (\<lambda>n b l. snd (lru_lookup i l))" by (simp add: fun_eq_iff)
  then show ?thesis using lookup_implements by (simp add: Op_lookup)
qed

lemma run_ops_implements: "implements (run_ops opers) (\<lambda>n b. lru_ops n b opers)"
proof (induction opers)
  case Nil
  have "run_ops [] = Some" "(\<lambda>n b. lru_ops n b []) = (\<lambda>n b l. l)" by (auto simp: lru_ops_def fun_eq_iff)
  then show ?case using implements_skip by simp
next
  case (Cons oper opers)
  have "run_ops (oper # opers) = (\<lambda>m. Option.bind (run_op oper m) (run_ops opers))"
    "(\<lambda>n b. lru_ops n b (oper # opers)) = (\<lambda>n b l. lru_ops n b opers (lru_op n b oper l))"
    by (auto simp: lru_ops_def fun_eq_iff)
  then show ?case using implements_bind [OF run_op_implements Cons.IH] by simp
qed

definition memory_start :: "int \<Rightarrow> nat \<Rightarrow> tool_memory" where
  "memory_start maxn maxb = tool_memory_zero\<lparr>tm_max_entries := maxn, tm_max_bytes := maxb\<rparr>"

lemma cores_empty [simp]: "cores (\<lambda>x. None) = (\<lambda>x. None)"
  by (rule ext) (simp add: cores_def)

lemma memory_start_ok: "memory_ok (memory_start maxn maxb) []"
  by (simp add: memory_ok_def order_ok_def store_ok_def Let_def memory_start_def tool_memory_zero_def
      entry_bytes_def block_bytes_def)

lemma recent_start: "recent m [] = []"
  by (simp add: recent_def)

lemma lru_ops_within:
  assumes "n \<ge> 0" "distinct (map fst l)" "\<not> lru_over n b l"
    and ids: "\<And>oper l. distinct (map fst l) \<Longrightarrow> distinct (map fst (lru_op n b oper l))"
  shows "\<not> lru_over n b (lru_ops n b opers l)"
  using assms(2,3)
proof (induction opers arbitrary: l)
  case (Cons oper opers)
  have "\<not> lru_over n b (lru_op n b oper l)"
  proof (cases oper)
    case (Op_put i d s)
    then show ?thesis using Cons.prems lru_prune_within [OF assms(1)] by (simp add: lru_put_def)
  next
    case (Op_lookup i)
    then show ?thesis using Cons.prems lru_over_mset [OF lru_lookup_mset [OF Cons.prems(1)]] by simp
  qed
  with Cons ids show ?case by (simp add: lru_ops_def)
qed (simp add: lru_ops_def)

lemma lru_prune_prefix: "\<exists>k. lru_prune n b l = take k l"
proof (induction n b l rule: lru_prune.induct)
  case (2 maxn maxb x l)
  show ?case
  proof (cases "lru_over maxn maxb (x # l)")
    case True
    with 2 obtain k where "lru_prune maxn maxb (butlast (x # l)) = take k (butlast (x # l))" by blast
    then have "lru_prune maxn maxb (x # l) = take k (take (length l) (x # l))"
      using True by (simp add: lru_prune.simps(2) butlast_conv_take del: butlast.simps)
    then show ?thesis by (metis take_take)
  next
    case False
    then show ?thesis by (intro exI [of _ "length (x # l)"]) (simp add: lru_prune.simps(2))
  qed
qed (simp add: lru_prune.simps)

lemma lru_op_ids: "distinct (map fst l) \<Longrightarrow> distinct (map fst (lru_op n b oper l))"
proof (cases oper)
  case (Op_put i d s)
  assume l: "distinct (map fst l)"
  have "distinct (map fst ((i, x) # lru_without i l))" for x
    using l by (auto simp: lru_without_def distinct_map_filter)
  moreover have "distinct (map fst (lru_prune n b l'))" if "distinct (map fst l')" for l'
    using lru_prune_prefix [of n b l'] that by (metis distinct_take take_map)
  ultimately show ?thesis using l by (simp add: Op_put lru_put_def)
next
  case (Op_lookup i)
  assume l: "distinct (map fst l)"
  then show ?thesis using l by (auto simp: Op_lookup lru_lookup_def lru_without_def distinct_map_filter split: option.split)
qed

section \<open>Attaching the sampled text\<close>

text \<open>What a message is given: the text all of its ids stand for, when they all stand for the same.\<close>

definition call_id :: "tool_call \<Rightarrow> byte list" where
  "call_id c = or_empty (tc_id c)"

definition replay_text :: "lru \<Rightarrow> tool_call list \<Rightarrow> byte list option" where
  "replay_text l cs =
     (case cs of
        [] \<Rightarrow> None
      | c # _ \<Rightarrow>
          (case lru_find (call_id c) l of
             None \<Rightarrow> None
           | Some (d, s) \<Rightarrow>
               if \<forall>c' \<in> set cs. map_option fst (lru_find (call_id c') l) = Some d then Some d else None))"

definition replay_message :: "lru \<Rightarrow> chat_msg \<Rightarrow> chat_msg" where
  "replay_message l msg =
     (let calls = msg_calls msg in
      if calls_v calls = [] \<or> calls_raw_dsml calls \<noteq> None then msg
      else case replay_text l (calls_v calls) of
             None \<Rightarrow> msg
           | Some d \<Rightarrow> msg\<lparr>msg_calls := calls\<lparr>calls_raw_dsml := Some d\<rparr>\<rparr>)"

definition same_finds :: "lru \<Rightarrow> lru \<Rightarrow> bool" where
  "same_finds l l' \<longleftrightarrow> (\<forall>j. lru_find j l' = lru_find j l)"

text \<open>The scan so far: the first known text, and whether every id was known and agreed with it.\<close>

definition scanned :: "tool_memory \<Rightarrow> lru \<Rightarrow> byte list list \<Rightarrow> attach_state \<Rightarrow> bool" where
  "scanned m l ids st \<longleftrightarrow>
     (case at_matched st of
        None \<Rightarrow> (\<forall>i \<in> set ids. lru_find i l = None) \<and> at_exact st = (ids = [])
      | Some (b, d) \<Rightarrow> tm_by_block m d = Some b \<and> (\<exists>i \<in> set ids. map_option fst (lru_find i l) = Some d)
          \<and> at_exact st = (\<forall>i \<in> set ids. map_option fst (lru_find i l) = Some d))"

lemma attach_call_ok:
  assumes ok: "memory_ok m xs" and sc: "scanned m l ids st" and l: "same_finds l (recent m xs)"
  obtains st' m' ys where "attach_call c (st, m) = Some (st', m')" "memory_ok m' ys" "same_config m m'"
    "scanned m' l (ids @ [call_id c]) st'" "same_finds l (recent m' ys)"
proof -
  from lookup_recent [OF ok, of "call_id c"] obtain r m' ys where m': "tool_memory_lookup_locked (call_id c) m = Some (r, m')"
    "memory_ok m' ys" "same_config m m'" "recent m' ys = snd (lru_lookup (call_id c) (recent m xs))"
    "map_option (\<lambda>(d, s, b). (d, s)) r = fst (lru_lookup (call_id c) (recent m xs))"
    "\<And>d s b. r = Some (d, s, b) \<Longrightarrow> tm_by_block m d = Some b" "tm_by_block m' = tm_by_block m" by metis
  have finds: "same_finds l (recent m' ys)" using l m'(4) by (simp add: same_finds_def lru_lookup_keeps)
  have r: "map_option (\<lambda>(d, s, b). (d, s)) r = lru_find (call_id c) l" using m'(5) l by (simp add: lru_lookup_fst same_finds_def)
  show thesis
  proof (cases r)
    case None
    then have nf: "lru_find (call_id c) l = None" using r by simp
    have "scanned m' l (ids @ [call_id c]) (st\<lparr>at_exact := False, at_missing := at_missing st + 1\<rparr>)"
      using sc nf m'(7) by (auto simp: scanned_def split: option.splits)
    with None m'(1,2,3) finds that show thesis by (auto simp: attach_call_def call_id_def)
  next
    case (Some dsb)
    obtain d s b where dsb: "dsb = (d, s, b)" by (cases dsb)
    then have f: "lru_find (call_id c) l = Some (d, s)" "tm_by_block m d = Some b" using r Some m'(6) by auto
    define st1 where "st1 = (case at_matched st of
                       None \<Rightarrow> st\<lparr>at_matched := Some (b, d), at_source := s\<rparr>
                     | Some (b', _) \<Rightarrow> if b' \<noteq> b then st\<lparr>at_exact := False\<rparr> else st)"
    define st2 where "st2 = (if s = TOOL_MEMORY_RAM then st1\<lparr>at_source := TOOL_MEMORY_RAM\<rparr> else st1)"
    have "scanned m' l (ids @ [call_id c]) st1"
    proof (cases "at_matched st")
      case None
      with sc have "\<forall>i \<in> set ids. lru_find i l = None" "at_exact st = (ids = [])" by (auto simp: scanned_def)
      with None f m'(7) show ?thesis by (cases ids) (auto simp: scanned_def st1_def)
    next
      case matched: (Some bd)
      obtain b' d' where bd: "bd = (b', d')" by (cases bd)
      with sc matched have old: "tm_by_block m d' = Some b'" "\<exists>i \<in> set ids. map_option fst (lru_find i l) = Some d'"
        "at_exact st = (\<forall>i \<in> set ids. map_option fst (lru_find i l) = Some d')" by (auto simp: scanned_def)
      have "b' = b \<longleftrightarrow> d' = d"
      proof
        have st: "store_ok m None xs" using ok by (simp add: memory_ok_def)
        assume "b' = b"
        with store_okD(12) [OF st old(1)] store_okD(12) [OF st f(2)] show "d' = d" by auto
      qed (use old(1) f(2) in auto)
      with matched bd old f m'(7) show ?thesis by (auto simp: scanned_def st1_def)
    qed
    then have "scanned m' l (ids @ [call_id c]) st2" by (cases "at_matched st1") (auto simp: st2_def scanned_def)
    moreover have "attach_call c (st, m) = Some (st2, m')"
      using Some dsb m'(1) by (simp add: attach_call_def call_id_def st2_def st1_def Let_def)
    ultimately show thesis using m'(2,3) finds that by blast
  qed
qed

lemma attach_calls_ok:
  assumes "memory_ok m xs" "scanned m l ids st" "same_finds l (recent m xs)"
  shows "\<exists>st' m' ys. attach_calls cs (st, m) = Some (st', m') \<and> memory_ok m' ys \<and> same_config m m'
     \<and> scanned m' l (ids @ map call_id cs) st' \<and> same_finds l (recent m' ys)"
  using assms
proof (induction cs arbitrary: st m xs ids)
  case Nil
  then show ?case by (auto simp: same_config_def)
next
  case (Cons c cs)
  from attach_call_ok [OF Cons.prems, of c] obtain st1 m1 ys where 1: "attach_call c (st, m) = Some (st1, m1)"
    "memory_ok m1 ys" "same_config m m1" "scanned m1 l (ids @ [call_id c]) st1" "same_finds l (recent m1 ys)" .
  from Cons.IH [OF 1(2,4,5)] obtain st' m' zs where 2: "attach_calls cs (st1, m1) = Some (st', m')" "memory_ok m' zs"
    "same_config m1 m'" "scanned m' l ((ids @ [call_id c]) @ map call_id cs) st'" "same_finds l (recent m' zs)" by blast
  show ?case
    by (intro exI [of _ st'] exI [of _ m'] exI [of _ zs]) (use 1 2 same_config_trans in auto)
qed

lemma attach_message_ok:
  assumes ok: "memory_ok m xs" and l: "same_finds l (recent m xs)"
  obtains stats' m' ys where "attach_message msg stats m = Some (replay_message l msg, stats', m')" "memory_ok m' ys"
    "same_config m m'" "same_finds l (recent m' ys)"
proof (cases "calls_v (msg_calls msg) = [] \<or> calls_raw_dsml (msg_calls msg) \<noteq> None")
  case True
  then have "attach_message msg stats m = Some (replay_message l msg, stats, m)"
    by (auto simp: attach_message_def replay_message_def Let_def)
  with ok l that show thesis by (auto simp: same_config_def)
next
  case False
  let ?cs = "calls_v (msg_calls msg)"
  let ?st = "\<lparr>at_matched = None, at_source = TOOL_MEMORY_DISK, at_exact = True, at_missing = 0\<rparr>"
  have "scanned m l [] ?st" by (simp add: scanned_def)
  from attach_calls_ok [OF ok this l, of ?cs] obtain st' m' ys where r: "attach_calls ?cs (?st, m) = Some (st', m')"
    "memory_ok m' ys" "same_config m m'" "scanned m' l (map call_id ?cs) st'" "same_finds l (recent m' ys)" by auto
  obtain c rest where cs: "?cs = c # rest" using False by (cases ?cs) auto
  have replayed: "replay_text l ?cs = (case at_matched st' of None \<Rightarrow> None
     | Some (b, d) \<Rightarrow> if at_exact st' then Some d else None)"
  proof (cases "at_matched st'")
    case None
    with r(4) have "lru_find (call_id c) l = None" by (simp add: scanned_def cs)
    with None show ?thesis by (simp add: replay_text_def cs)
  next
    case (Some bd)
    obtain b d where bd: "bd = (b, d)" by (cases bd)
    with Some r(4) have ex: "\<exists>c' \<in> set ?cs. map_option fst (lru_find (call_id c') l) = Some d"
      "at_exact st' = (\<forall>c' \<in> set ?cs. map_option fst (lru_find (call_id c') l) = Some d)" by (auto simp: scanned_def)
    have "replay_text l ?cs = (if \<forall>c' \<in> set ?cs. map_option fst (lru_find (call_id c') l) = Some d then Some d else None)"
    proof (cases "lru_find (call_id c) l")
      case None
      then show ?thesis by (simp add: replay_text_def cs)
    next
      case found: (Some ds)
      obtain d' s' where ds: "ds = (d', s')" by (cases ds)
      let ?all = "\<lambda>d. \<forall>c' \<in> set ?cs. map_option fst (lru_find (call_id c') l) = Some d"
      have answer: "replay_text l ?cs = (if ?all d' then Some d' else None)"
        by (simp only: replay_text_def cs list.case found ds option.case prod.case)
      have "map_option fst (lru_find (call_id c) l) = Some d'" "c \<in> set ?cs" using found ds cs by simp_all
      then have all_d: "?all d \<Longrightarrow> d' = d" by fastforce
      obtain c1 where "c1 \<in> set ?cs" "map_option fst (lru_find (call_id c1) l) = Some d" using ex(1) by blast
      then have "?all d' \<Longrightarrow> d' = d" by fastforce
      with all_d have "?all d' \<and> d' = d \<or> \<not> ?all d' \<and> \<not> ?all d" by blast
      then show ?thesis unfolding answer by (elim disjE conjE) (simp_all only: if_True if_False simp_thms)
    qed
    with Some bd ex(2) show ?thesis by simp
  qed
  show thesis
  proof (cases "at_matched st'")
    case None
    with replayed r(1) False have "attach_message msg stats m = Some (replay_message l msg, stats\<lparr>stat_canonical := stat_canonical stats + 1,
        stat_missing_ids := stat_missing_ids stats + at_missing st'\<rparr>, m')"
      by (simp add: attach_message_def replay_message_def Let_def)
    with r that show thesis by blast
  next
    case (Some bd)
    with replayed r(1) False have "\<exists>stats'. attach_message msg stats m = Some (replay_message l msg, stats', m')"
      by (cases bd) (auto simp: attach_message_def replay_message_def Let_def)
    with r that show thesis by blast
  qed
qed

lemma attach_messages_ok:
  assumes "memory_ok m xs" "same_finds l (recent m xs)"
  shows "\<exists>stats' m' ys. attach_messages msgs stats m = Some (map (replay_message l) msgs, stats', m')
     \<and> memory_ok m' ys \<and> same_config m m' \<and> same_finds l (recent m' ys)"
  using assms
proof (induction msgs arbitrary: m xs stats)
  case Nil
  then show ?case by (auto simp: same_config_def)
next
  case (Cons msg msgs)
  from attach_message_ok [OF Cons.prems] obtain st1 m1 ys where 1:
    "attach_message msg stats m = Some (replay_message l msg, st1, m1)" "memory_ok m1 ys" "same_config m m1"
    "same_finds l (recent m1 ys)" .
  from Cons.IH [OF 1(2,4), of st1] obtain st2 m2 zs where
    "attach_messages msgs st1 m1 = Some (map (replay_message l) msgs, st2, m2)" "memory_ok m2 zs" "same_config m1 m2"
    "same_finds l (recent m2 zs)" by blast
  with 1 show ?case using same_config_trans by (intro exI [of _ st2] exI [of _ m2] exI [of _ zs]) auto
qed

section \<open>Remembering a reply\<close>

text \<open>The size of the list once the text \<open>d\<close> is counted.\<close>

definition bytes_with :: "byte list \<Rightarrow> lru \<Rightarrow> nat" where
  "bytes_with d l = (\<Sum>(i, d, s)\<leftarrow>l. length i + 1 + sizeof_entry)
     + (\<Sum>d \<in> insert d ((fst \<circ> snd) ` set l). length d + 1 + sizeof_block)"

lemma bytes_with_bounds:
  "lru_bytes l \<le> bytes_with d l" "bytes_with d l \<le> lru_bytes l + (length d + 1 + sizeof_block)"
  by (auto simp: lru_bytes_def bytes_with_def sum.insert_if intro!: sum_mono2)

lemma lru_without_sum: "(\<Sum>(i, d, s)\<leftarrow>lru_without j l. length i + 1 + sizeof_entry) \<le> (\<Sum>(i, d, s)\<leftarrow>l. length i + 1 + sizeof_entry)"
  by (induction l) (auto simp: lru_without_def)

lemma bytes_with_put: "bytes_with d ((i, d, s) # lru_without i l) \<le> bytes_with d l + (length i + 1 + sizeof_entry)"
proof -
  have "(\<Sum>x \<in> insert d ((fst \<circ> snd) ` set (lru_without i l)). length x + 1 + sizeof_block)
      \<le> (\<Sum>x \<in> insert d ((fst \<circ> snd) ` set l). length x + 1 + sizeof_block)"
    by (rule sum_mono2) (auto simp: lru_without_def)
  with lru_without_sum [of i l] show ?thesis by (simp add: bytes_with_def)
qed

definition remembers :: "lru \<Rightarrow> byte list \<Rightarrow> byte list list \<Rightarrow> bool" where
  "remembers l d ids \<longleftrightarrow> (\<forall>i \<in> set ids. map_option fst (lru_find i l) = Some d)"

text \<open>Putting every id of a reply, when nothing has to be dropped for it.\<close>

lemma puts_remember:
  assumes "int (length l) + int (length ids) \<le> n" "bytes_with d l + (\<Sum>i\<leftarrow>ids. length i + 1 + sizeof_entry) \<le> b"
    and "d \<noteq> []" "\<forall>i \<in> set ids. i \<noteq> []" "remembers l d done_ids"
  shows "remembers (lru_ops n b (map (\<lambda>i. Op_put i d TOOL_MEMORY_RAM) ids) l) d (done_ids @ ids)"
  using assms
proof (induction ids arbitrary: l done_ids)
  case Nil
  then show ?case by (simp add: lru_ops_def)
next
  case (Cons i ids)
  have i: "i \<noteq> []" using Cons.prems(4) by simp
  define l0 where "l0 = (i, d, TOOL_MEMORY_RAM) # lru_without i l"
  have len: "length l0 \<le> Suc (length l)" by (simp add: l0_def lru_without_def)
  have bytes: "bytes_with d l0 \<le> bytes_with d l + (length i + 1 + sizeof_entry)" unfolding l0_def by (rule bytes_with_put)
  have "\<not> lru_over n b l0" using len bytes Cons.prems(1,2) bytes_with_bounds(1) [of l0 d] by (simp add: lru_over_def)
  moreover have "lru_put n b i d TOOL_MEMORY_RAM l = lru_prune n b l0"
    using i Cons.prems(3) by (auto simp: lru_put_def l0_def split: option.split)
  ultimately have put: "lru_put n b i d TOOL_MEMORY_RAM l = l0" by (simp add: lru_prune_id)
  have "remembers l0 d (done_ids @ [i])"
    using Cons.prems(5) by (auto simp: remembers_def l0_def lru_find_Cons lru_find_without)
  from Cons.IH [OF _ _ Cons.prems(3) _ this] len bytes Cons.prems(1,2,4) show ?case
    by (simp add: lru_ops_def put)
qed

lemma remember_calls_ops:
  "remember_calls cs d m = run_ops (map (\<lambda>i. Op_put i d TOOL_MEMORY_RAM) (map call_id cs)) m"
proof (induction cs arbitrary: m)
  case (Cons c cs)
  have "remember_calls cs d = run_ops (map (\<lambda>i. Op_put i d TOOL_MEMORY_RAM) (map call_id cs))"
    by (rule ext) (rule Cons.IH)
  then show ?case by (simp add: call_id_def [of c])
qed simp

lemma replay_text_all:
  assumes "cs \<noteq> []" and all: "\<forall>c \<in> set cs. map_option fst (lru_find (call_id c) l) = Some d"
  shows "replay_text l cs = Some d"
proof -
  obtain c rest where cs: "cs = c # rest" using assms(1) by (cases cs) auto
  with all obtain s where "lru_find (call_id c) l = Some (d, s)" by auto
  then show ?thesis unfolding replay_text_def by (simp only: cs list.case option.case prod.case if_P [OF all [unfolded cs]])
qed

section \<open>Properties\<close>

text \<open>Claim C19.  Memory safety and refinement.  Whatever calls are put and looked up, in whatever
  order and with whatever limits, no operation follows a dangling pointer, frees twice or loops, the
  links keep forming one doubly linked list over exactly the live entries, and that list is the
  specification's: most recently used first, one entry per id, cut from its end.\<close>

theorem tool_memory_refines_lru:
  "\<exists>m xs. run_ops opers (memory_start maxn maxb) = Some m \<and> memory_ok m xs
     \<and> recent m xs = lru_ops (tool_memory_max_entries (memory_start maxn maxb))
         (tool_memory_max_bytes (memory_start maxn maxb)) opers []"
  using implementsD [OF run_ops_implements memory_start_ok [of maxn maxb], of opers] by (metis recent_start)

text \<open>After any history the memory is within its limits: the counter of entries and the
  byte total, which are exactly those of the live entries and blocks.\<close>

theorem tool_memory_within_limits:
  "\<exists>m. run_ops opers (memory_start maxn maxb) = Some m
     \<and> int (tm_entries m) \<le> tool_memory_max_entries m \<and> tm_bytes m \<le> tool_memory_max_bytes m
     \<and> tm_entries m = card (dom (tm_heap m))"
proof -
  let ?m0 = "memory_start maxn maxb"
  from implementsD [OF run_ops_implements memory_start_ok [of maxn maxb], of opers] obtain m xs where
    xs: "run_ops opers ?m0 = Some m" "memory_ok m xs" "same_config ?m0 m"
    "recent m xs = lru_ops (tool_memory_max_entries ?m0) (tool_memory_max_bytes ?m0) opers []"
    by (metis recent_start)
  have n: "tool_memory_max_entries ?m0 \<ge> 0" by (simp add: tool_memory_max_entries_def DS4_TOOL_MEMORY_DEFAULT_MAX_IDS_def)
  have "\<not> lru_over (tool_memory_max_entries ?m0) (tool_memory_max_bytes ?m0) (recent m xs)"
    unfolding xs(4) by (rule lru_ops_within [OF n _ _ lru_op_ids]) (use n in \<open>simp_all add: lru_over_def lru_bytes_def\<close>)
  then have "\<not> over_limit m" using over_limit_lru [OF xs(2)] same_config_limits [OF xs(3)] by simp
  moreover have "tm_entries m = card (dom (tm_heap m))"
  proof -
    have st: "store_ok m None xs" using xs(2) by (simp add: memory_ok_def)
    have "dom (tm_heap m) = dom (cores (tm_heap m))" by (auto simp: cores_def)
    with store_okD(1,2,3) [OF st] show ?thesis by (simp add: distinct_card)
  qed
  ultimately show ?thesis using xs(1) by (auto simp: over_limit_def)
qed

text \<open>Claim C20.  A message of a conversation is given back the sampled text exactly when all of its
  call ids are remembered and stand for one and the same text; nothing else of any message changes, and
  the scan leaves the memory with the same knowledge.\<close>

theorem attach_replays_exactly:
  "\<exists>m xs stats' m' ys. run_ops opers (memory_start maxn maxb) = Some m \<and> memory_ok m xs
    \<and> tool_memory_attach_to_messages False msgs stats m = Some (map (replay_message (recent m xs)) msgs, stats', m')
    \<and> memory_ok m' ys \<and> same_finds (recent m xs) (recent m' ys)"
proof -
  from implementsD [OF run_ops_implements memory_start_ok [of maxn maxb], of opers] obtain m xs where
    xs: "run_ops opers (memory_start maxn maxb) = Some m" "memory_ok m xs" by metis
  have "same_finds (recent m xs) (recent m xs)" by (simp add: same_finds_def)
  from attach_messages_ok [OF xs(2) this, of msgs stats] obtain stats' m' ys where
    "attach_messages msgs stats m = Some (map (replay_message (recent m xs)) msgs, stats', m')" "memory_ok m' ys"
    "same_finds (recent m xs) (recent m' ys)" by blast
  then show ?thesis using xs
    by (intro exI [of _ m] exI [of _ xs] exI [of _ stats'] exI [of _ m'] exI [of _ ys])
      (simp add: tool_memory_attach_to_messages_def)
qed

text \<open>Claim C21.  The purpose of the memory: after a reply is remembered, a client that sends its call
  ids back, whatever it made of names and arguments, gets the sampled markup attached, byte for byte, as
  long as the reply fits beside what is already remembered.\<close>

theorem remembered_reply_is_replayed:
  assumes ok: "memory_ok m xs"
    and calls: "calls_v calls \<noteq> []" "\<forall>c \<in> set (calls_v calls). call_id c \<noteq> []" "calls_raw_dsml calls = Some d" "d \<noteq> []"
    and fits: "int (tm_entries m) + int (length (calls_v calls)) \<le> tool_memory_max_entries m"
      "tm_bytes m + (length d + 1 + sizeof_block) + (\<Sum>c\<leftarrow>calls_v calls. length (call_id c) + 1 + sizeof_entry)
         \<le> tool_memory_max_bytes m"
    and msg: "map call_id (calls_v (msg_calls msg)) = map call_id (calls_v calls)" "calls_raw_dsml (msg_calls msg) = None"
  shows "\<exists>m' stats' m''. tool_memory_remember False calls m = Some m'
    \<and> tool_memory_attach_to_messages False [msg] stats m'
        = Some ([msg\<lparr>msg_calls := (msg_calls msg)\<lparr>calls_raw_dsml := Some d\<rparr>\<rparr>], stats', m'')"
proof -
  let ?n = "tool_memory_max_entries m" and ?b = "tool_memory_max_bytes m"
  let ?ids = "map call_id (calls_v calls)"
  let ?ops = "map (\<lambda>i. Op_put i d TOOL_MEMORY_RAM) ?ids"
  from implementsD [OF run_ops_implements ok, of ?ops] obtain m' ys where m': "run_ops ?ops m = Some m'" "memory_ok m' ys"
    "recent m' ys = lru_ops ?n ?b ?ops (recent m xs)" by metis
  have rem: "tool_memory_remember False calls m = Some m'"
    using m'(1) calls(3,4) remember_calls_ops [of "calls_v calls" d m] by (simp add: tool_memory_remember_def or_empty_def)
  have "remembers (recent m' ys) d ([] @ ?ids)"
    unfolding m'(3)
  proof (rule puts_remember)
    show "int (length (recent m xs)) + int (length ?ids) \<le> ?n" using fits(1) memory_bytes(2) [OF ok] by simp
    show "bytes_with d (recent m xs) + (\<Sum>i\<leftarrow>?ids. length i + 1 + sizeof_entry) \<le> ?b"
      using fits(2) memory_bytes(1) [OF ok] bytes_with_bounds(2) [of d "recent m xs"] by (simp add: comp_def)
  qed (use calls in \<open>auto simp: remembers_def\<close>)
  then have known: "\<forall>i \<in> set ?ids. map_option fst (lru_find i (recent m' ys)) = Some d" by (simp add: remembers_def)
  have ne: "calls_v (msg_calls msg) \<noteq> []" using msg(1) calls(1) by auto
  have ids: "call_id ` set (calls_v (msg_calls msg)) = call_id ` set (calls_v calls)" using arg_cong [OF msg(1), of set] by simp
  then have all: "\<forall>c \<in> set (calls_v (msg_calls msg)). map_option fst (lru_find (call_id c) (recent m' ys)) = Some d"
    using known by (metis imageI image_set)
  have "replay_text (recent m' ys) (calls_v (msg_calls msg)) = Some d"
    using ne all by (rule replay_text_all)
  then have "replay_message (recent m' ys) msg = msg\<lparr>msg_calls := (msg_calls msg)\<lparr>calls_raw_dsml := Some d\<rparr>\<rparr>"
    using ne msg(2) by (simp add: replay_message_def)
  moreover have "same_finds (recent m' ys) (recent m' ys)" by (simp add: same_finds_def)
  ultimately show ?thesis using attach_messages_ok [OF m'(2), of "recent m' ys" "[msg]" stats] rem
    by (auto simp: tool_memory_attach_to_messages_def)
qed

definition replay_call :: "byte list \<Rightarrow> tool_call" where
  "replay_call ident = \<lparr>tc_id = Some ident, tc_name = None, tc_arguments = None\<rparr>"

definition replay_msg :: "byte list \<Rightarrow> chat_msg" where
  "replay_msg ident = \<lparr>msg_role = None, msg_content = None, msg_reasoning = None, msg_tool_call_id = None,
     msg_calls = \<lparr>calls_v = [replay_call ident], calls_raw_dsml = None\<rparr>\<rparr>"

definition no_stats :: tool_replay_stats where
  "no_stats = \<lparr>stat_mem = 0, stat_disk = 0, stat_canonical = 0, stat_missing_ids = 0\<rparr>"

theorem remembered_reply_is_replayed_witness:
  "\<exists>m' stats' m''. tool_memory_remember False \<lparr>calls_v = [replay_call [0x61]], calls_raw_dsml = Some [0x78]\<rparr> (memory_start 1 1000)
        = Some m'
    \<and> tool_memory_attach_to_messages False [replay_msg [0x61]] no_stats m'
        = Some ([(replay_msg [0x61])\<lparr>msg_calls := (msg_calls (replay_msg [0x61]))\<lparr>calls_raw_dsml := Some [0x78]\<rparr>\<rparr>], stats', m'')"
proof (rule remembered_reply_is_replayed)
  show "memory_ok (memory_start 1 1000) []" by (rule memory_start_ok)
qed (simp_all add: replay_call_def replay_msg_def call_id_def or_empty_def memory_start_def tool_memory_zero_def
    tool_memory_max_entries_def tool_memory_max_bytes_def sizeof_block_def sizeof_entry_def)


end
