(* ===== verification/Ds4_Sha1.thy ===== *)
theory Ds4_Sha1
  imports Ds4_Prelude
begin

text \<open>
  The hash that names the files of the disk cache, \<^verbatim>\<open>src/server/ds4_server.c\<close>: \<^verbatim>\<open>sha1_ctx\<close> to
  \<^verbatim>\<open>sha1_bytes_hex\<close>.  The context buffers 64 bytes and compresses each full block; the two loops
  are partial functions, \<open>None\<close> when they do not end.  The lemmas show that they end and
  that, however the input is cut into calls, the digest is the one of the standard's padded
  message.
\<close>

section \<open>Compression\<close>

definition rol32 :: "u32 \<Rightarrow> nat \<Rightarrow> u32" where
  "rol32 v n = (push_bit n v OR drop_bit (32 - n) v)"

definition sha1_words :: "byte list \<Rightarrow> u32 list" where
  "sha1_words block =
     map (\<lambda>i. push_bit 24 (ucast (block ! (i * 4))) OR push_bit 16 (ucast (block ! (i * 4 + 1)))
              OR push_bit 8 (ucast (block ! (i * 4 + 2))) OR ucast (block ! (i * 4 + 3))) [0..<16]"

definition sha1_next_word :: "u32 list \<Rightarrow> u32" where
  "sha1_next_word w =
     (let i = length w in rol32 (w ! (i - 3) XOR w ! (i - 8) XOR w ! (i - 14) XOR w ! (i - 16)) 1)"

fun sha1_schedule :: "nat \<Rightarrow> u32 list \<Rightarrow> u32 list" where
  "sha1_schedule 0 w = w"
| "sha1_schedule (Suc n) w = sha1_schedule n (w @ [sha1_next_word w])"

definition sha1_f :: "nat \<Rightarrow> u32 \<Rightarrow> u32 \<Rightarrow> u32 \<Rightarrow> u32" where
  "sha1_f i b cc d =
     (if i < 20 then (b AND cc) OR (NOT b AND d)
      else if i < 40 then b XOR cc XOR d
      else if i < 60 then (b AND cc) OR (b AND d) OR (cc AND d)
      else b XOR cc XOR d)"

definition sha1_k :: "nat \<Rightarrow> u32" where
  "sha1_k i =
     (if i < 20 then 0x5a827999 else if i < 40 then 0x6ed9eba1 else if i < 60 then 0x8f1bbcdc else 0xca62c1d6)"

type_synonym sha1_state = "u32 \<times> u32 \<times> u32 \<times> u32 \<times> u32"

fun sha1_round :: "nat \<Rightarrow> u32 \<Rightarrow> sha1_state \<Rightarrow> sha1_state" where
  "sha1_round i wi (a, b, cc, d, e) =
     (let tmp = rol32 a 5 + sha1_f i b cc d + e + sha1_k i + wi in (tmp, a, rol32 b 30, cc, d))"

fun sha1_rounds :: "nat \<Rightarrow> u32 list \<Rightarrow> sha1_state \<Rightarrow> sha1_state" where
  "sha1_rounds i [] st = st"
| "sha1_rounds i (wi # w) st = sha1_rounds (Suc i) w (sha1_round i wi st)"

definition sha1_transform :: "sha1_state \<Rightarrow> byte list \<Rightarrow> sha1_state" where
  "sha1_transform h block =
     (case (h, sha1_rounds 0 (sha1_schedule 64 (sha1_words block)) h) of
        ((h0, h1, h2, h3, h4), (a, b, cc, d, e)) \<Rightarrow> (h0 + a, h1 + b, h2 + cc, h3 + d, h4 + e))"

section \<open>The context\<close>

record sha1_ctx =
  sh_h :: sha1_state
  sh_bytes :: u64
  sh_block :: "byte list"
  sh_used :: nat

definition sha1_iv :: sha1_state where
  "sha1_iv = (0x67452301, 0xefcdab89, 0x98badcfe, 0x10325476, 0xc3d2e1f0)"

text \<open>The block is not initialized: \<open>junk\<close> is what lies on the stack.\<close>

definition sha1_init :: "byte list \<Rightarrow> sha1_ctx" where
  "sha1_init junk = \<lparr>sh_h = sha1_iv, sh_bytes = 0, sh_block = junk, sh_used = 0\<rparr>"

definition sha1_take :: "sha1_ctx \<Rightarrow> byte list \<Rightarrow> sha1_ctx \<times> byte list" where
  "sha1_take c p =
     (let n = min (64 - sh_used c) (length p);
          block = take (sh_used c) (sh_block c) @ take n p @ drop (sh_used c + n) (sh_block c);
          used = sh_used c + n
      in (if used = 64 then c\<lparr>sh_h := sha1_transform (sh_h c) block, sh_block := block, sh_used := 0\<rparr>
          else c\<lparr>sh_block := block, sh_used := used\<rparr>, drop n p))"

partial_function (option) sha1_feed :: "sha1_ctx \<Rightarrow> byte list \<Rightarrow> sha1_ctx option" where
  "sha1_feed c p = (if p = [] then Some c else case sha1_take c p of (c', p') \<Rightarrow> sha1_feed c' p')"

definition sha1_update :: "sha1_ctx \<Rightarrow> byte list \<Rightarrow> sha1_ctx option" where
  "sha1_update c p = sha1_feed (c\<lparr>sh_bytes := sh_bytes c + of_nat (length p)\<rparr>) p"

partial_function (option) sha1_pad :: "sha1_ctx \<Rightarrow> sha1_ctx option" where
  "sha1_pad c = (if sh_used c = 56 then Some c else Option.bind (sha1_update c [0]) sha1_pad)"

definition be_bytes :: "nat \<Rightarrow> 'a::len word \<Rightarrow> byte list" where
  "be_bytes n v = map (\<lambda>i. ucast (drop_bit (8 * (n - 1 - i)) v)) [0..<n]"

definition sha1_digest :: "sha1_state \<Rightarrow> byte list" where
  "sha1_digest h =
     (case h of (h0, h1, h2, h3, h4) \<Rightarrow>
        be_bytes 4 h0 @ be_bytes 4 h1 @ be_bytes 4 h2 @ be_bytes 4 h3 @ be_bytes 4 h4)"

definition sha1_final :: "sha1_ctx \<Rightarrow> byte list option" where
  "sha1_final c =
     Option.bind (sha1_update c [0x80]) (\<lambda>c1.
     Option.bind (sha1_pad c1) (\<lambda>c2.
     map_option (\<lambda>c3. sha1_digest (sh_h c3)) (sha1_update c2 (be_bytes 8 (sh_bytes c * 8)))))"

definition hex_chars :: "byte list" where
  "hex_chars = ascii ''0123456789abcdef''"

definition hex20 :: "byte list \<Rightarrow> byte list" where
  "hex20 bs = concat (map (\<lambda>b. [hex_chars ! unat (drop_bit 4 b), hex_chars ! unat (b AND 15)]) bs)"

definition sha1_bytes_hex :: "byte list \<Rightarrow> byte list \<Rightarrow> byte list option" where
  "sha1_bytes_hex junk bs =
     Option.bind (sha1_update (sha1_init junk) bs) (\<lambda>c. map_option hex20 (sha1_final c))"

section \<open>The standard's definition\<close>

fun blocks64 :: "byte list \<Rightarrow> byte list list" where
  "blocks64 m = (if length m < 64 then [] else take 64 m # blocks64 (drop 64 m))"

declare blocks64.simps [simp del]

definition sha1_padded :: "byte list \<Rightarrow> byte list" where
  "sha1_padded m = m @ [0x80] @ replicate ((119 - length m mod 64) mod 64) 0 @ be_bytes 8 (of_nat (8 * length m) :: u64)"

definition sha1_spec :: "byte list \<Rightarrow> byte list" where
  "sha1_spec m = sha1_digest (foldl sha1_transform sha1_iv (blocks64 (sha1_padded m)))"

section \<open>The buffer\<close>

definition rest64 :: "byte list \<Rightarrow> byte list" where
  "rest64 m = drop (64 * (length m div 64)) m"

text \<open>The context after the bytes \<open>m\<close>.\<close>

definition hashed :: "sha1_ctx \<Rightarrow> byte list \<Rightarrow> bool" where
  "hashed c m \<longleftrightarrow> length (sh_block c) = 64 \<and> sh_used c = length m mod 64
     \<and> take (length m mod 64) (sh_block c) = rest64 m \<and> sh_h c = foldl sha1_transform sha1_iv (blocks64 m)"

lemma length_rest64: "length (rest64 m) = length m mod 64"
  by (simp add: rest64_def minus_mult_div_eq_mod)

lemma rest64_drop: "64 \<le> length m \<Longrightarrow> rest64 (drop 64 m) = rest64 m"
proof -
  assume "64 \<le> length m"
  then have "length m div 64 = Suc ((length m - 64) div 64)" by (simp add: le_div_geq)
  then show ?thesis by (simp add: rest64_def add.commute)
qed

lemma blocks64_append:
  "length (rest64 m) + length p \<le> 64 \<Longrightarrow>
   blocks64 (m @ p) = blocks64 m @ blocks64 (rest64 m @ p) \<and> rest64 (m @ p) = rest64 (rest64 m @ p)"
proof (induction m rule: blocks64.induct)
  case (1 m)
  show ?case
  proof (cases "length m < 64")
    case True
    then show ?thesis by (simp add: blocks64.simps [of m] rest64_def)
  next
    case False
    then have "rest64 (drop 64 m) = rest64 m" "rest64 (m @ p) = rest64 (drop 64 m @ p)"
      using rest64_drop [of m] rest64_drop [of "m @ p"] by simp_all
    with 1 False show ?thesis by (simp add: blocks64.simps [of m] blocks64.simps [of "m @ p"])
  qed
qed

lemma blocks64_append_short:
  "length (rest64 m) + length p < 64 \<Longrightarrow> blocks64 (m @ p) = blocks64 m \<and> rest64 (m @ p) = rest64 m @ p"
  using blocks64_append [of m p] by (simp add: blocks64.simps [of "rest64 m @ p"] rest64_def [of "rest64 m @ p"])

lemma blocks64_append_full:
  "length (rest64 m) + length p = 64 \<Longrightarrow> blocks64 (m @ p) = blocks64 m @ [rest64 m @ p] \<and> rest64 (m @ p) = []"
  using blocks64_append [of m p] blocks64.simps [of "[]"]
  by (simp add: blocks64.simps [of "rest64 m @ p"] rest64_def [of "rest64 m @ p"])

lemma hashed_init: "length junk = 64 \<Longrightarrow> hashed (sha1_init junk) []"
  by (simp add: hashed_def sha1_init_def rest64_def blocks64.simps)

lemma take_hashed:
  assumes c: "hashed c m" and p: "p \<noteq> []" "sha1_take c p = (c', p')"
  obtains q where "p = q @ p'" "q \<noteq> []" "hashed c' (m @ q)" "sh_bytes c' = sh_bytes c"
proof -
  define n where "n = min (64 - sh_used c) (length p)"
  define q where "q = take n p"
  define r where "r = rest64 m"
  have used: "sh_used c = length r" "length r < 64" using c by (simp_all add: hashed_def length_rest64 r_def)
  have len: "length (sh_block c) = 64" and pre: "take (length r) (sh_block c) = r"
    using c by (simp_all add: hashed_def length_rest64 r_def)
  have n: "0 < n" "n \<le> length p" "length r + n \<le> 64" using used p(1) by (auto simp: n_def)
  have step: "sha1_take c p = (if length r + n = 64
      then c\<lparr>sh_h := sha1_transform (sh_h c) (r @ q @ drop (length r + n) (sh_block c)),
              sh_block := r @ q @ drop (length r + n) (sh_block c), sh_used := 0\<rparr>
      else c\<lparr>sh_block := r @ q @ drop (length r + n) (sh_block c), sh_used := length r + n\<rparr>, drop n p)"
    using used(1) pre n_def by (simp add: sha1_take_def Let_def q_def)
  have q: "p = q @ p'" "q \<noteq> []" "length q = n" using p(2) n step by (auto simp: q_def)
  have h: "sh_h c = foldl sha1_transform sha1_iv (blocks64 m)" using c by (simp add: hashed_def)
  show thesis
  proof (cases "length r + n = 64")
    case True
    then have full: "blocks64 (m @ q) = blocks64 m @ [r @ q]" "rest64 (m @ q) = []"
      using blocks64_append_full [of m q] q(3) by (simp_all add: r_def)
    have c': "c' = c\<lparr>sh_h := sha1_transform (sh_h c) (r @ q), sh_block := r @ q, sh_used := 0\<rparr>"
      using p(2) step True len by simp
    have "length (m @ q) mod 64 = 0" using length_rest64 [of "m @ q"] unfolding full(2) by simp
    then have "hashed c' (m @ q)" using True q(3) unfolding hashed_def c' full by (simp add: h)
    with q c' that show thesis by simp
  next
    case False
    then have short: "blocks64 (m @ q) = blocks64 m" "rest64 (m @ q) = r @ q"
      using blocks64_append_short [of m q] n q(3) by (simp_all add: r_def)
    have c': "c' = c\<lparr>sh_block := r @ q @ drop (length r + n) (sh_block c), sh_used := length r + n\<rparr>"
      using p(2) step False by simp
    have "length (m @ q) mod 64 = length r + n" using length_rest64 [of "m @ q"] q(3) unfolding short(2) by simp
    then have "hashed c' (m @ q)" using len n q(3) unfolding hashed_def c' short by (simp add: h)
    with q c' that show thesis by simp
  qed
qed

text \<open>Both loops end.\<close>

lemma feed_hashed:
  "hashed c m \<Longrightarrow> \<exists>c'. sha1_feed c p = Some c' \<and> hashed c' (m @ p) \<and> sh_bytes c' = sh_bytes c"
proof (induction "length p" arbitrary: c m p rule: less_induct)
  case less
  show ?case
  proof (cases "p = []")
    case True
    with less show ?thesis by (simp add: sha1_feed.simps)
  next
    case False
    obtain c1 p' where t: "sha1_take c p = (c1, p')" by (cases "sha1_take c p")
    obtain q where q: "p = q @ p'" "q \<noteq> []" "hashed c1 (m @ q)" "sh_bytes c1 = sh_bytes c"
      using less.prems False t by (rule take_hashed)
    have "length p' < length p" using q by simp
    from less.hyps [OF this q(3)] obtain c' where "sha1_feed c1 p' = Some c'" "hashed c' ((m @ q) @ p')" "sh_bytes c' = sh_bytes c1"
      by blast
    moreover have "sha1_feed c p = sha1_feed c1 p'" by (subst sha1_feed.simps) (simp add: False t)
    ultimately show ?thesis using q(1,4) by simp
  qed
qed

lemma update_hashed:
  assumes "hashed c m" "sh_bytes c = of_nat (length m)"
  obtains c' where "sha1_update c p = Some c'" "hashed c' (m @ p)" "sh_bytes c' = of_nat (length (m @ p))"
proof -
  have "hashed (c\<lparr>sh_bytes := sh_bytes c + of_nat (length p)\<rparr>) m" using assms(1) by (simp add: hashed_def)
  from feed_hashed [OF this, of p] assms(2) that show thesis by (auto simp: sha1_update_def)
qed

lemma length_snoc_mod: "length (m @ [b]) mod 64 = (if length m mod 64 = 63 then 0 else Suc (length m mod 64))"
  by (simp add: mod_Suc)

lemma pad_mod: "r < (64 :: nat) \<Longrightarrow> (120 - r) mod 64 = (if r \<le> 56 then 56 - r else 120 - r)"
proof (cases "r \<le> 56")
  case True
  then have "120 - r = 64 + (56 - r)" by simp
  then show ?thesis using True by (simp only: mod_add_self1) simp
qed simp

lemma pad_next: "r < (64 :: nat) \<Longrightarrow> (120 - (if r = 63 then 0 else Suc r)) mod 64 = (119 - r) mod 64"
  by (cases "r = 63") simp_all

lemma pad_pred:
  assumes "r < (64 :: nat)" "Suc k = (120 - r) mod 64" "r \<noteq> 56"
  shows "k = (119 - r) mod 64"
proof (cases "r < 56")
  case True
  then have "119 - r = 64 + (55 - r)" by simp
  then have "(119 - r) mod 64 = 55 - r" using True by (simp only: mod_add_self1) simp
  with assms True pad_mod [of r] show ?thesis by simp
next
  case False
  with assms pad_mod [of r] show ?thesis by simp
qed

lemma pad_count: "(120 - length (m @ [b]) mod 64) mod 64 = (119 - length m mod 64) mod 64"
  unfolding length_snoc_mod by (rule pad_next) simp

lemma pad_step:
  "Suc k = (120 - length m mod 64) mod 64 \<Longrightarrow> length m mod 64 \<noteq> 56 \<Longrightarrow> k = (120 - length (m @ [b]) mod 64) mod 64"
  unfolding pad_count by (rule pad_pred) simp_all

lemma pad_hashed:
  "hashed c m \<Longrightarrow> sh_bytes c = of_nat (length m) \<Longrightarrow>
   \<exists>c'. sha1_pad c = Some c' \<and> hashed c' (m @ replicate ((120 - length m mod 64) mod 64) 0)
      \<and> sh_bytes c' = of_nat (length m + (120 - length m mod 64) mod 64)"
proof (induction "(120 - length m mod 64) mod 64" arbitrary: c m)
  case 0
  have "length m mod 64 = 56" using 0(1) pad_mod [of "length m mod 64"] mod_less_divisor [of 64 "length m"]
    by (simp split: if_splits)
  with 0 show ?case by (simp add: sha1_pad.simps [of c] hashed_def)
next
  case (Suc k)
  have used: "sh_used c = length m mod 64" using Suc.prems by (simp add: hashed_def)
  have ne: "length m mod 64 \<noteq> 56" using Suc(2) by auto
  from Suc.prems obtain c1 where c1: "sha1_update c [0] = Some c1" "hashed c1 (m @ [0])" "sh_bytes c1 = of_nat (length (m @ [0]))"
    by (rule update_hashed)
  have k: "k = (120 - length (m @ [0::byte]) mod 64) mod 64"
    by (rule pad_step) (use Suc(2) ne in simp_all)
  from Suc.hyps(1) [OF k c1(2,3)] obtain c' where c': "sha1_pad c1 = Some c'" "hashed c' ((m @ [0]) @ replicate k 0)"
    "sh_bytes c' = of_nat (length (m @ [0::byte]) + k)" unfolding k [symmetric] by blast
  have "sha1_pad c = sha1_pad c1" using c1(1) ne used by (subst sha1_pad.simps) simp
  with c' show ?case unfolding Suc(2) [symmetric] by (simp add: algebra_simps)
qed

lemma final_hashed:
  assumes "hashed c m" "sh_bytes c = of_nat (length m)"
  shows "sha1_final c = Some (sha1_spec m)"
proof -
  let ?k = "(119 - length m mod 64) mod 64"
  obtain c1 where c1: "sha1_update c [0x80] = Some c1" "hashed c1 (m @ [0x80])" "sh_bytes c1 = of_nat (length (m @ [0x80]))"
    using assms by (rule update_hashed)
  have k: "(120 - length (m @ [0x80::byte]) mod 64) mod 64 = ?k"
    by (rule pad_count)
  from pad_hashed [OF c1(2,3)] obtain c2 where c2: "sha1_pad c1 = Some c2" "hashed c2 ((m @ [0x80]) @ replicate ?k 0)"
    and "sh_bytes c2 = of_nat (length (m @ [0x80 :: byte]) + ?k)" unfolding k by blast
  then have c2b: "sh_bytes c2 = of_nat (length ((m @ [0x80]) @ replicate ?k (0 :: byte)))"
    by (simp only: length_append length_replicate)
  from c2(2) c2b obtain c3 where c3: "sha1_update c2 (be_bytes 8 (sh_bytes c * 8)) = Some c3"
    "hashed c3 (((m @ [0x80]) @ replicate ?k 0) @ be_bytes 8 (sh_bytes c * 8))" by (rule update_hashed)
  have "sh_bytes c * 8 = of_nat (8 * length m)" using assms(2) by simp
  with c1(1) c2(1) c3 show ?thesis
    by (simp add: sha1_final_def sha1_spec_def sha1_padded_def hashed_def)
qed

section \<open>Properties\<close>

fun sha1_updates :: "sha1_ctx \<Rightarrow> byte list list \<Rightarrow> sha1_ctx option" where
  "sha1_updates c [] = Some c"
| "sha1_updates c (p # ps) = Option.bind (sha1_update c p) (\<lambda>c. sha1_updates c ps)"

lemma updates_hashed:
  "hashed c m \<Longrightarrow> sh_bytes c = of_nat (length m) \<Longrightarrow>
   \<exists>c'. sha1_updates c ps = Some c' \<and> hashed c' (m @ concat ps) \<and> sh_bytes c' = of_nat (length (m @ concat ps))"
proof (induction ps arbitrary: c m)
  case (Cons p ps)
  from Cons.prems obtain c1 where "sha1_update c p = Some c1" "hashed c1 (m @ p)" "sh_bytes c1 = of_nat (length (m @ p))"
    by (rule update_hashed)
  with Cons.IH [of c1 "m @ p"] show ?case by simp
qed simp

text \<open>Claim C22.  The incremental hash is the standard's: whatever the buffer held and however the
  input is cut, the loops of the update and of the padding end and the digest is that of the padded
  message.\<close>

theorem sha1_incremental_is_spec:
  assumes "length junk = 64"
  shows "\<exists>c. sha1_updates (sha1_init junk) pieces = Some c \<and> sha1_final c = Some (sha1_spec (concat pieces))
    \<and> sha1_bytes_hex junk (concat pieces) = Some (hex20 (sha1_spec (concat pieces)))"
proof -
  have start: "hashed (sha1_init junk) []" "sh_bytes (sha1_init junk) = of_nat (length ([] :: byte list))"
    using hashed_init [OF assms] by (simp_all add: sha1_init_def)
  from updates_hashed [OF start, of pieces] obtain c where "sha1_updates (sha1_init junk) pieces = Some c"
    "hashed c (concat pieces)" "sh_bytes c = of_nat (length (concat pieces))" by auto
  moreover obtain c' where "sha1_update (sha1_init junk) (concat pieces) = Some c'" "hashed c' ([] @ concat pieces)"
    "sh_bytes c' = of_nat (length ([] @ concat pieces))"
    using start by (rule update_hashed)
  ultimately show ?thesis using final_hashed by (simp add: sha1_bytes_hex_def)
qed

theorem sha1_incremental_is_spec_witness:
  "\<exists>c. sha1_updates (sha1_init (replicate 64 7)) [[0x61], [], [0x62, 0x63]] = Some c
    \<and> sha1_final c = Some (sha1_spec (concat [[0x61], [], [0x62, 0x63]]))
    \<and> sha1_bytes_hex (replicate 64 7) (concat [[0x61], [], [0x62, 0x63]])
        = Some (hex20 (sha1_spec (concat [[0x61], [], [0x62, 0x63]])))"
  by (rule sha1_incremental_is_spec) simp

end
