(* ===== verification/Ds4_KvFile.thy ===== *)
theory Ds4_KvFile
  imports Ds4_ToolMem
begin

text \<open>
  The file format of the disk cache, \<^verbatim>\<open>src/server/ds4_server.c\<close>: the \<^verbatim>\<open>KV_*\<close> constants,
  \<^verbatim>\<open>kv_reason_code\<close>, \<^verbatim>\<open>le_put32\<close> to \<^verbatim>\<open>le_get64\<close>, \<^verbatim>\<open>id_list_contains\<close> to \<^verbatim>\<open>kv_path_for_sha\<close>,
  \<^verbatim>\<open>find_next_dsml_tool_block\<close> to \<^verbatim>\<open>kv_read_entry_file\<close>.

  A file open for reading is the list of the bytes from its position on; \<^verbatim>\<open>fread\<close> takes from its
  front.  A file open for writing is what was written so far and the number of bytes the device
  still takes, so every \<^verbatim>\<open>fwrite\<close> can come up short.  A C string handed to \<^verbatim>\<open>strstr\<close> ends at its
  first zero byte.

  The lemmas show that headers and tool maps are read back as written, on any device that has room, and
  that the map holds exactly the remembered ids whose markup is in the text.
\<close>

section \<open>Constants and integers\<close>

definition KV_CACHE_MAGIC :: "byte list" where "KV_CACHE_MAGIC = ascii ''KVC''"
definition KV_CACHE_VERSION :: byte where "KV_CACHE_VERSION = 1"
definition KV_CACHE_FIXED_HEADER :: nat where "KV_CACHE_FIXED_HEADER = 48"
definition KV_EXT_TOOL_MAP :: byte where "KV_EXT_TOOL_MAP = 1"
definition KV_TOOL_MAP_MAGIC :: "byte list" where "KV_TOOL_MAP_MAGIC = ascii ''KTM''"
definition KV_TOOL_MAP_VERSION :: byte where "KV_TOOL_MAP_VERSION = 1"
definition KV_TOOL_MAP_HEADER :: nat where "KV_TOOL_MAP_HEADER = 8"

definition KV_REASON_UNKNOWN :: byte where "KV_REASON_UNKNOWN = 0"
definition KV_REASON_COLD :: byte where "KV_REASON_COLD = 1"
definition KV_REASON_CONTINUED :: byte where "KV_REASON_CONTINUED = 2"
definition KV_REASON_EVICT :: byte where "KV_REASON_EVICT = 3"
definition KV_REASON_SHUTDOWN :: byte where "KV_REASON_SHUTDOWN = 4"

lemmas kv_constants = KV_CACHE_MAGIC_def KV_CACHE_VERSION_def KV_CACHE_FIXED_HEADER_def KV_EXT_TOOL_MAP_def
  KV_TOOL_MAP_MAGIC_def KV_TOOL_MAP_VERSION_def KV_TOOL_MAP_HEADER_def KV_REASON_UNKNOWN_def KV_REASON_COLD_def
  KV_REASON_CONTINUED_def KV_REASON_EVICT_def KV_REASON_SHUTDOWN_def

definition kv_reason_code :: "byte list \<Rightarrow> byte" where
  "kv_reason_code reason =
     (if reason = ascii ''cold'' then KV_REASON_COLD
      else if reason = ascii ''continued'' then KV_REASON_CONTINUED
      else if reason = ascii ''evict'' then KV_REASON_EVICT
      else if reason = ascii ''shutdown'' then KV_REASON_SHUTDOWN
      else KV_REASON_UNKNOWN)"

definition le_put32 :: "u32 \<Rightarrow> byte list" where
  "le_put32 v = [ucast v, ucast (drop_bit 8 v), ucast (drop_bit 16 v), ucast (drop_bit 24 v)]"

definition le_put64 :: "u64 \<Rightarrow> byte list" where
  "le_put64 v = map (\<lambda>i. ucast (drop_bit (8 * i) v)) [0..<8]"

definition le_get32 :: "byte list \<Rightarrow> u32" where
  "le_get32 p = ucast (p ! 0) OR push_bit 8 (ucast (p ! 1)) OR push_bit 16 (ucast (p ! 2)) OR push_bit 24 (ucast (p ! 3))"

definition le_get64 :: "byte list \<Rightarrow> u64" where
  "le_get64 p = foldl (\<lambda>v b. push_bit 8 v OR ucast b) 0 (rev (take 8 p))"

section \<open>Ids and names\<close>

definition id_list_contains :: "stop_list \<Rightarrow> byte list \<Rightarrow> bool" where
  "id_list_contains ids ident \<longleftrightarrow> ident \<noteq> [] \<and> ident \<in> set (stop_v ids)"

definition id_list_push_unique :: "stop_list \<Rightarrow> byte list \<Rightarrow> stop_list" where
  "id_list_push_unique ids ident =
     (if ident = [] \<or> id_list_contains ids ident then ids else stop_list_push ids ident)"

definition collect_tool_call_ids :: "chat_msg list \<Rightarrow> stop_list \<Rightarrow> stop_list" where
  "collect_tool_call_ids msgs ids =
     fold (\<lambda>msg ids. fold (\<lambda>c ids. id_list_push_unique ids (or_empty (tc_id c))) (calls_v (msg_calls msg)) ids) msgs ids"

definition ascii_lower :: "byte \<Rightarrow> byte" where
  "ascii_lower c = (if 65 \<le> c \<and> c \<le> 90 then c + 32 else c)"

definition sha_hex_name :: "byte list \<Rightarrow> byte list option" where
  "sha_hex_name name =
     (if length name \<noteq> 43 \<or> drop 40 name \<noteq> ascii ''.kv'' then None
      else if list_all is_xdigit (take 40 name) then Some (map ascii_lower (take 40 name)) else None)"

definition path_join :: "byte list \<Rightarrow> byte list \<Rightarrow> byte list" where
  "path_join dir name = (dir @ (if dir = [] \<or> last dir \<noteq> 0x2f then [0x2f] else [])) @ name"

definition kv_path_for_sha :: "byte list \<Rightarrow> byte list \<Rightarrow> byte list" where
  "kv_path_for_sha dir sha = path_join dir (take 40 sha @ ascii ''.kv'')"

section \<open>Writing\<close>

text \<open>The bytes written and the room left.\<close>

type_synonym out_file = "byte list \<times> nat"

definition fwrite :: "byte list \<Rightarrow> out_file \<Rightarrow> bool \<times> out_file" where
  "fwrite bs fp =
     (case fp of (done, room) \<Rightarrow> (length bs \<le> room, done @ take room bs, room - length bs))"

text \<open>Calls joined by \<open>&&\<close>: after the first short one nothing more is written.\<close>

fun fwrites :: "byte list list \<Rightarrow> out_file \<Rightarrow> bool \<times> out_file" where
  "fwrites [] fp = (True, fp)"
| "fwrites (bs # bss) fp = (case fwrite bs fp of (ok, fp') \<Rightarrow> if ok then fwrites bss fp' else (False, fp'))"

section \<open>Tool blocks of a text\<close>

definition block_forms :: "(byte list \<times> byte list) list" where
  "block_forms =
     [([10, 10] @ DS4_TOOL_CALLS_START, DS4_TOOL_CALLS_END),
      (DS4_TOOL_CALLS_START, DS4_TOOL_CALLS_END),
      ([10, 10] @ DS4_TOOL_CALLS_START_SHORT, DS4_TOOL_CALLS_END_SHORT),
      (DS4_TOOL_CALLS_START_SHORT, DS4_TOOL_CALLS_END_SHORT),
      ([10, 10] @ ascii ''<tool_calls>'', ascii ''</tool_calls>''),
      (ascii ''<tool_calls>'', ascii ''</tool_calls>'')]"

text \<open>The best start so far and the end of its block, as offsets.\<close>

definition better_block :: "byte list \<Rightarrow> (nat \<times> nat) option \<Rightarrow> byte list \<times> byte list \<Rightarrow> (nat \<times> nat) option" where
  "better_block p best form =
     (case strstr p (fst form) of
        None \<Rightarrow> best
      | Some s \<Rightarrow>
          if best \<noteq> None \<and> s \<ge> fst (the best) then best
          else (case strstr (drop s p) (snd form) of
                  None \<Rightarrow> best
                | Some e \<Rightarrow> Some (s, s + e + length (snd form))))"

definition find_next_dsml_tool_block :: "byte list \<Rightarrow> (nat \<times> nat) option" where
  "find_next_dsml_tool_block p = foldl (better_block p) None block_forms"

lemma block_forms_nonempty: "form \<in> set block_forms \<Longrightarrow> fst form \<noteq> [] \<and> snd form \<noteq> []"
  by (auto simp: block_forms_def dsml_marker_defs ascii_def)

lemma strstr_nonempty: "strstr p n = Some i \<Longrightarrow> n \<noteq> [] \<Longrightarrow> p \<noteq> []"
  by (cases p) auto

lemma find_next_block_some:
  assumes "find_next_dsml_tool_block p = Some (s, e)"
  shows "s < e \<and> p \<noteq> []"
proof -
  have "set forms \<subseteq> set block_forms \<Longrightarrow> (\<And>s e. best = Some (s, e) \<Longrightarrow> s < e \<and> p \<noteq> []) \<Longrightarrow>
      foldl (better_block p) best forms = Some (s, e) \<Longrightarrow> s < e \<and> p \<noteq> []" for forms best
  proof (induction forms arbitrary: best)
    case (Cons f forms)
    from Cons.prems(1) block_forms_nonempty [of f] have f: "fst f \<noteq> []" "snd f \<noteq> []" by simp_all
    have "s' < e' \<and> p \<noteq> []" if "better_block p best f = Some (s', e')" for s' e'
      using that Cons.prems(2) f by (auto simp: better_block_def dest: strstr_nonempty split: option.splits if_splits)
    with Cons.IH [of "better_block p best f"] Cons.prems(1,3) show ?case by simp
  qed simp
  from this [of block_forms None] assms show ?thesis by (simp add: find_next_dsml_tool_block_def)
qed

text \<open>A match lies inside the text.\<close>

lemma strstr_inside: "strstr p n = Some i \<Longrightarrow> i + length n \<le> length p"
proof (induction p arbitrary: i)
  case (Cons c cs)
  show ?case
  proof (cases "take (length n) (c # cs) = n")
    case True
    then have "length n \<le> length (c # cs)" by (metis length_take min.absorb_iff2 min.commute)
    moreover have "i = 0" using Cons.prems by (simp only: strstr.simps if_P [OF True] option.inject)
    ultimately show ?thesis by simp
  next
    case False
    then have "map_option Suc (strstr cs n) = Some i" using Cons.prems by (simp only: strstr.simps if_False)
    then obtain j where "strstr cs n = Some j" "i = Suc j" by auto
    with Cons.IH show ?thesis by simp
  qed
qed (auto split: if_splits)

lemma find_next_block_bounds:
  assumes "find_next_dsml_tool_block p = Some (s, e)"
  shows "s < e \<and> e \<le> length p"
proof -
  have "(\<And>s e. best = Some (s, e) \<Longrightarrow> e \<le> length p) \<Longrightarrow>
      foldl (better_block p) best forms = Some (s, e) \<Longrightarrow> e \<le> length p" for forms best
  proof (induction forms arbitrary: best)
    case (Cons f forms)
    have "e' \<le> length p" if "better_block p best f = Some (s', e')" for s' e'
      using that Cons.prems(1) by (auto simp: better_block_def dest!: strstr_inside split: option.splits if_splits)
    with Cons.IH [of "better_block p best f"] Cons.prems(2) show ?case by simp
  qed simp
  from this [of None block_forms] assms find_next_block_some [OF assms] show ?thesis
    by (simp add: find_next_dsml_tool_block_def)
qed

text \<open>The scan every user of a text's blocks makes: one block after the other, from its end on.\<close>

function dsml_blocks :: "byte list \<Rightarrow> byte list list" where
  "dsml_blocks p =
     (case find_next_dsml_tool_block p of
        None \<Rightarrow> []
      | Some (s, e) \<Rightarrow> take (e - s) (drop s p) # dsml_blocks (drop e p))"
  by pat_completeness auto
termination
proof (relation "measure length")
  fix p x s e
  assume "find_next_dsml_tool_block p = Some x" "(s, e) = x"
  then have "s < e" "p \<noteq> []" using find_next_block_some [of p s e] by auto
  then show "(drop e p, p) \<in> measure length" by simp
qed simp

declare dsml_blocks.simps [simp del]

definition tool_memory_count_dsml_in_text :: "bool \<Rightarrow> tool_memory \<Rightarrow> byte list \<Rightarrow> int option" where
  "tool_memory_count_dsml_in_text disabled m tx =
     (if disabled \<or> cstr tx = [] then Some 0
      else foldl (\<lambda>acc blk. Option.bind acc (\<lambda>n.
             case tool_memory_find_block_locked m blk of
               None \<Rightarrow> Some n
             | Some b \<Rightarrow> map_option (\<lambda>k. n + tb_refs k) (tm_blocks m b))) (Some 0) (dsml_blocks (cstr tx)))"

section \<open>The tool map\<close>

text \<open>The ids of a block, along the chain of its entries.\<close>

partial_function (option) block_ids :: "(addr \<Rightarrow> tm_entry option) \<Rightarrow> addr option \<Rightarrow> byte list list option" where
  "block_ids h p =
     (case p of
        None \<Rightarrow> Some []
      | Some a \<Rightarrow> Option.bind (h a) (\<lambda>e. Option.bind (block_ids h (te_block_next e)) (\<lambda>ids. Some (te_id e # ids))))"

definition map_record_fits :: "byte list \<Rightarrow> nat \<Rightarrow> bool" where
  "map_record_fits ident dsml_len \<longleftrightarrow> \<not> (length ident > 4294967295 \<or> dsml_len > 4294967295)"

text \<open>A block the scan comes upon: its records when it was not seen yet in this scan.\<close>

definition visit_block :: "u64 \<Rightarrow> byte list \<Rightarrow> tool_memory \<Rightarrow> ((byte list \<times> tm_block) list \<times> tool_memory) option" where
  "visit_block scan blk m =
     (case tool_memory_find_block_locked m blk of
        None \<Rightarrow> Some ([], m)
      | Some b \<Rightarrow> do {
          k \<leftarrow> tm_blocks m b;
          if tb_seen k = scan then Some ([], m)
          else do {
            m \<leftarrow> set_block b (\<lambda>k. k\<lparr>tb_seen := scan\<rparr>) m;
            ids \<leftarrow> block_ids (tm_heap m) (tb_entries k);
            Some (map (\<lambda>i. (i, k)) (filter (\<lambda>i. map_record_fits i (tb_len k)) ids), m)
          }
        })"

fun count_records :: "u64 \<Rightarrow> byte list list \<Rightarrow> u32 \<times> u64 \<Rightarrow> tool_memory \<Rightarrow> ((u32 \<times> u64) \<times> tool_memory) option" where
  "count_records scan [] acc m = Some (acc, m)"
| "count_records scan (blk # blks) acc m =
     Option.bind (visit_block scan blk m) (\<lambda>(recs, m').
       count_records scan blks
         (fold (\<lambda>(i, k) (count, bytes). (count + 1, bytes + (8 + of_nat (length i) + of_nat (tb_len k)))) recs acc) m')"

fun write_records :: "(byte list \<times> tm_block) list \<Rightarrow> out_file \<Rightarrow> bool \<times> out_file" where
  "write_records [] fp = (True, fp)"
| "write_records ((i, k) # recs) fp =
     (case fwrites [le_put32 (of_nat (length i)) @ le_put32 (of_nat (tb_len k)), i, take (tb_len k) (tb_dsml k)] fp of
        (ok, fp') \<Rightarrow> if ok then write_records recs fp' else (False, fp'))"

fun write_blocks :: "u64 \<Rightarrow> byte list list \<Rightarrow> bool \<Rightarrow> out_file \<Rightarrow> tool_memory \<Rightarrow> (bool \<times> out_file \<times> tool_memory) option" where
  "write_blocks scan [] ok fp m = Some (ok, fp, m)"
| "write_blocks scan (blk # blks) ok fp m =
     (if \<not> ok then Some (ok, fp, m)
      else Option.bind (visit_block scan blk m) (\<lambda>(recs, m').
             case write_records recs fp of (ok', fp') \<Rightarrow> write_blocks scan blks ok' fp' m'))"

text \<open>The result is the success, the bytes reported, the file and the memory, whose scan clock advanced.\<close>

definition kv_tool_map_write ::
    "bool \<Rightarrow> byte list \<Rightarrow> out_file \<Rightarrow> tool_memory \<Rightarrow> (bool \<times> u64 \<times> out_file \<times> tool_memory) option" where
  "kv_tool_map_write disabled tx fp m =
     (if disabled \<or> cstr tx = [] then Some (True, 0, fp, m)
      else do {
        let blks = dsml_blocks (cstr tx);
        m \<leftarrow> Some (m\<lparr>tm_scan_clock := tm_scan_clock m + 1\<rparr>);
        ((count, bytes), m) \<leftarrow> count_records (tm_scan_clock m) blks (0, of_nat KV_TOOL_MAP_HEADER) m;
        if count = 0 then Some (True, 0, fp, m)
        else do {
          let (ok, fp) = fwrite (KV_TOOL_MAP_MAGIC @ [KV_TOOL_MAP_VERSION] @ le_put32 count) fp;
          m \<leftarrow> Some (m\<lparr>tm_scan_clock := tm_scan_clock m + 1\<rparr>);
          (ok, fp, m) \<leftarrow> write_blocks (tm_scan_clock m) blks ok fp m;
          Some (ok, if ok then bytes else 0, fp, m)
        }
      })"

text \<open>Reading: the records that are left, the memory and the number of entries put so far.\<close>

fun load_records :: "nat \<Rightarrow> stop_list option \<Rightarrow> byte list \<Rightarrow> int \<Rightarrow> tool_memory \<Rightarrow> (int \<times> tool_memory) option" where
  "load_records 0 wanted s loaded m = Some (loaded, m)"
| "load_records (Suc n) wanted s loaded m =
     (if length s < 8 then Some (loaded, m)
      else
        let id_len = unat (le_get32 s);
            dsml_len = unat (le_get32 (drop 4 s));
            s1 = drop 8 s
        in if id_len = 0 \<or> id_len > 256 \<or> dsml_len = 0 \<or> dsml_len > DS4_TOOL_MEMORY_MAX_BYTES then Some (loaded, m)
           else if length s1 < id_len \<or> length (drop id_len s1) < dsml_len then Some (loaded, m)
           else
             let ident = cstr (take id_len s1);
                 dsml = cstr (take dsml_len (drop id_len s1));
                 rest = drop dsml_len (drop id_len s1)
             in if wanted = None \<or> id_list_contains (the wanted) ident
                then Option.bind (tool_memory_put_source False ident dsml TOOL_MEMORY_DISK m)
                       (load_records n wanted rest (loaded + 1))
                else load_records n wanted rest loaded m)"

definition kv_tool_map_load_from_pos ::
    "bool \<Rightarrow> stop_list option \<Rightarrow> byte list \<Rightarrow> tool_memory \<Rightarrow> (int \<times> tool_memory) option" where
  "kv_tool_map_load_from_pos disabled wanted s m =
     (if disabled \<or> length s < KV_TOOL_MAP_HEADER
         \<or> take 4 s \<noteq> KV_TOOL_MAP_MAGIC @ [KV_TOOL_MAP_VERSION] then Some (0, m)
      else
        let count = unat (le_get32 (drop 4 s))
        in if int count > tool_memory_max_entries m * 4 then Some (0, m)
           else load_records count wanted (drop KV_TOOL_MAP_HEADER s) 0 m)"

section \<open>The file\<close>

record kv_entry =
  kve_sha :: "byte list"
  kve_path :: "byte list"
  kve_quant_bits :: byte
  kve_reason :: byte
  kve_tokens :: u32
  kve_hits :: u32
  kve_ctx_size :: u32
  kve_ext_flags :: byte
  kve_created_at :: u64
  kve_last_used :: u64
  kve_payload_bytes :: u64
  kve_text_bytes :: u64
  kve_file_size :: u64

definition kv_entry_zero :: kv_entry where
  "kv_entry_zero = \<lparr>kve_sha = [], kve_path = [], kve_quant_bits = 0, kve_reason = 0, kve_tokens = 0, kve_hits = 0,
     kve_ctx_size = 0, kve_ext_flags = 0, kve_created_at = 0, kve_last_used = 0, kve_payload_bytes = 0,
     kve_text_bytes = 0, kve_file_size = 0\<rparr>"

definition kv_fill_header ::
    "byte \<Rightarrow> byte \<Rightarrow> byte \<Rightarrow> u32 \<Rightarrow> u32 \<Rightarrow> u32 \<Rightarrow> u64 \<Rightarrow> u64 \<Rightarrow> u64 \<Rightarrow> byte list" where
  "kv_fill_header quant_bits reason ext_flags tokens hits ctx_size created_at last_used payload_bytes =
     KV_CACHE_MAGIC @ [KV_CACHE_VERSION, quant_bits, reason, ext_flags, 0]
     @ le_put32 tokens @ le_put32 hits @ le_put32 ctx_size @ [0, 0, 0, 0]
     @ le_put64 created_at @ le_put64 last_used @ le_put64 payload_bytes"

text \<open>The entry, the length of the text, and the file after the header; \<open>None\<close> is the result \<open>false\<close>.\<close>

definition kv_read_header :: "byte list \<Rightarrow> (kv_entry \<times> u32 \<times> byte list) option" where
  "kv_read_header s =
     (let h = take KV_CACHE_FIXED_HEADER s; s1 = drop KV_CACHE_FIXED_HEADER s
      in if length h < KV_CACHE_FIXED_HEADER then None
         else if take 4 h \<noteq> KV_CACHE_MAGIC @ [KV_CACHE_VERSION] then None
         else if length s1 < 4 then None
         else
           let e = kv_entry_zero\<lparr>
                     kve_quant_bits := h ! 4,
                     kve_reason := (if h ! 5 \<le> KV_REASON_SHUTDOWN then h ! 5 else KV_REASON_UNKNOWN),
                     kve_ext_flags := h ! 6,
                     kve_tokens := le_get32 (drop 8 h),
                     kve_hits := le_get32 (drop 12 h),
                     kve_ctx_size := le_get32 (drop 16 h),
                     kve_created_at := le_get64 (drop 24 h),
                     kve_last_used := le_get64 (drop 32 h),
                     kve_payload_bytes := le_get64 (drop 40 h),
                     kve_text_bytes := ucast (le_get32 s1)\<rparr>
           in if kve_tokens e \<noteq> 0 \<and> (kve_quant_bits e = 2 \<or> kve_quant_bits e = 4)
              then Some (e, le_get32 s1, drop 4 s1) else None)"

text \<open>The file at the path as \<^verbatim>\<open>stat\<close> and \<^verbatim>\<open>fopen\<close> see it: its bytes, or none.\<close>

definition kv_read_entry_file :: "byte list option \<Rightarrow> byte list \<Rightarrow> byte list \<Rightarrow> kv_entry option" where
  "kv_read_entry_file file path sha =
     (case file of
        None \<Rightarrow> None
      | Some s \<Rightarrow>
          if length s < KV_CACHE_FIXED_HEADER + 4 then None
          else
            (case kv_read_header s of
               None \<Rightarrow> None
             | Some (e, text_bytes, _) \<Rightarrow>
                 let fixed = of_nat KV_CACHE_FIXED_HEADER + 4 :: u64;
                     text64 = ucast text_bytes :: u64;
                     st_size = of_nat (length s) :: u64
                 in if - 1 - fixed < text64 \<or> - 1 - fixed - text64 < kve_payload_bytes e then None
                    else if st_size < fixed + text64 + kve_payload_bytes e then None
                    else Some (e\<lparr>kve_sha := sha, kve_path := path, kve_file_size := st_size\<rparr>)))"

section \<open>Integers read back\<close>

lemma le_put32_length [simp]: "length (le_put32 v) = 4"
  by (simp add: le_put32_def)

lemma le_put64_length [simp]: "length (le_put64 v) = 8"
  by (simp add: le_put64_def)

lemma le_get32_put [simp]: "le_get32 (le_put32 v @ s) = v"
proof (rule bit_word_eqI)
  fix n assume "n < LENGTH(32)"
  then consider "n < 8" | "8 \<le> n" "n < 16" | "16 \<le> n" "n < 24" | "24 \<le> n" "n < 32" by fastforce
  then show "bit (le_get32 (le_put32 v @ s)) n = bit v n"
    by cases (auto simp: le_get32_def le_put32_def bit_simps)
qed

lemma foldl_le_get:
  "foldl (\<lambda>v b. push_bit 8 v OR ucast b) v (rev (map (\<lambda>i. ucast (drop_bit (8 * i) w :: u64) :: byte) [0..<n]))
     = push_bit (8 * n) v OR take_bit (8 * n) w"
proof (induction n arbitrary: v)
  case (Suc n)
  have "push_bit (8 * n) (push_bit 8 v OR ucast (ucast (drop_bit (8 * n) w) :: byte)) OR take_bit (8 * n) w
      = push_bit (8 * Suc n) v OR take_bit (8 * Suc n) w"
    by (rule bit_word_eqI) (auto simp: bit_simps not_le not_less algebra_simps)
  with Suc show ?case by simp
qed simp

lemma le_get64_put [simp]: "le_get64 (le_put64 v @ s) = v"
proof -
  have "take_bit 64 v = v" by (rule bit_word_eqI) (simp add: bit_simps)
  then show ?thesis using foldl_le_get [of 0 v 8] by (simp add: le_get64_def le_put64_def del: upt_Suc upt_rec_numeral)
qed

section \<open>Headers read back\<close>

lemma kv_fill_header_length [simp]:
  "length (kv_fill_header quant reason ext tokens hits ctx created lastu payload) = KV_CACHE_FIXED_HEADER"
  by (simp add: kv_fill_header_def kv_constants)

lemma drop_fill_header:
  assumes h: "h = kv_fill_header quant reason ext tokens hits ctx created lastu payload"
  shows "take 4 h = KV_CACHE_MAGIC @ [KV_CACHE_VERSION]" "h ! 4 = quant" "h ! 5 = reason" "h ! 6 = ext"
    "le_get32 (drop 8 h) = tokens" "le_get32 (drop 12 h) = hits" "le_get32 (drop 16 h) = ctx"
    "le_get64 (drop 24 h) = created" "le_get64 (drop 32 h) = lastu" "le_get64 (drop 40 h) = payload"
proof -
  have split: "drop (length a) (a @ b) = b" for a b :: "byte list" by simp
  have eq: "h = (KV_CACHE_MAGIC @ [KV_CACHE_VERSION, quant, reason, ext, 0]) @ (le_put32 tokens @ le_put32 hits @ le_put32 ctx
      @ [0, 0, 0, 0] @ le_put64 created @ le_put64 lastu @ le_put64 payload)" by (simp add: h kv_fill_header_def)
  show "take 4 h = KV_CACHE_MAGIC @ [KV_CACHE_VERSION]" "h ! 4 = quant" "h ! 5 = reason" "h ! 6 = ext"
    by (simp_all add: eq kv_constants ascii_def)
  have *: "le_get64 (le_put64 payload) = payload" using le_get64_put [of payload "[]"] by simp
  show "le_get32 (drop 8 h) = tokens" "le_get32 (drop 12 h) = hits" "le_get32 (drop 16 h) = ctx"
    "le_get64 (drop 24 h) = created" "le_get64 (drop 32 h) = lastu" "le_get64 (drop 40 h) = payload"
    by (simp_all add: eq kv_constants ascii_def drop_append *)
qed

lemma kv_read_fill_header:
  assumes "tokens \<noteq> 0" "quant = 2 \<or> quant = 4" "reason \<le> KV_REASON_SHUTDOWN"
  shows "kv_read_header (kv_fill_header quant reason ext tokens hits ctx created lastu payload @ le_put32 tb @ s)
    = Some (kv_entry_zero\<lparr>kve_quant_bits := quant, kve_reason := reason, kve_ext_flags := ext, kve_tokens := tokens,
        kve_hits := hits, kve_ctx_size := ctx, kve_created_at := created, kve_last_used := lastu,
        kve_payload_bytes := payload, kve_text_bytes := ucast tb\<rparr>, tb, s)"
proof -
  let ?h = "kv_fill_header quant reason ext tokens hits ctx created lastu payload"
  have "take KV_CACHE_FIXED_HEADER (?h @ le_put32 tb @ s) = ?h" "drop KV_CACHE_FIXED_HEADER (?h @ le_put32 tb @ s) = le_put32 tb @ s"
    by simp_all
  with assms show ?thesis unfolding kv_read_header_def Let_def by (simp only:) (simp add: drop_fill_header [OF refl])
qed

section \<open>Writing calls\<close>

lemma fwrites_result:
  "fwrites bss (d, room) = (ok, fp) \<Longrightarrow>
   ok = (length (concat bss) \<le> room) \<and> (ok \<longrightarrow> fp = (d @ concat bss, room - length (concat bss)))"
proof (induction bss arbitrary: d room)
  case (Cons bs bss)
  then show ?case by (cases "length bs \<le> room") (fastforce simp: fwrite_def)+
qed simp

definition map_record :: "byte list \<times> byte list \<Rightarrow> byte list" where
  "map_record r = (case r of (i, d) \<Rightarrow> le_put32 (of_nat (length i)) @ le_put32 (of_nat (length d)) @ i @ d)"

definition map_records :: "(byte list \<times> byte list) list \<Rightarrow> byte list" where
  "map_records rs = concat (map map_record rs)"

lemma map_records_simps [simp]:
  "map_records [] = []" "map_records (r # rs) = map_record r @ map_records rs"
  "map_records (rs @ rs') = map_records rs @ map_records rs'"
  by (simp_all add: map_records_def)

text \<open>What a visited block stands for, when its length field is right.\<close>

definition plain :: "byte list \<times> tm_block \<Rightarrow> byte list \<times> byte list" where
  "plain r = (fst r, tb_dsml (snd r))"

definition lens_ok :: "(byte list \<times> tm_block) list \<Rightarrow> bool" where
  "lens_ok recs \<longleftrightarrow> (\<forall>r \<in> set recs. tb_len (snd r) = length (tb_dsml (snd r)))"

lemma write_records_result:
  "write_records recs (d, room) = (ok, fp) \<Longrightarrow> lens_ok recs \<Longrightarrow>
   ok = (length (map_records (map plain recs)) \<le> room)
   \<and> (ok \<longrightarrow> fp = (d @ map_records (map plain recs), room - length (map_records (map plain recs))))"
proof (induction recs arbitrary: d room)
  case (Cons r recs)
  obtain i k where r: "r = (i, k)" by (cases r)
  have len: "tb_len k = length (tb_dsml k)" "lens_ok recs" using Cons.prems(2) by (simp_all add: r lens_ok_def)
  let ?bss = "[le_put32 (of_nat (length i)) @ le_put32 (of_nat (tb_len k)), i, take (tb_len k) (tb_dsml k)]"
  have bss: "concat ?bss = map_record (plain r)" by (simp add: r plain_def map_record_def len)
  obtain ok1 fp1 where w: "fwrites ?bss (d, room) = (ok1, fp1)" by (cases "fwrites ?bss (d, room)")
  note w' = fwrites_result [OF w, unfolded bss]
  show ?case
  proof (cases ok1)
    case True
    then have "write_records recs (d @ map_record (plain r), room - length (map_record (plain r))) = (ok, fp)"
      using Cons.prems(1) w w' by (simp add: r del: fwrites.simps)
    from Cons.IH [OF this len(2)] True w' show ?thesis by auto
  next
    case False
    then have "\<not> ok" using Cons.prems(1) w by (simp add: r del: fwrites.simps)
    with False w' show ?thesis by auto
  qed
qed (simp add: lens_ok_def)

lemma count_fold:
  "lens_ok recs \<Longrightarrow>
   fold (\<lambda>(i, k) (count, bytes). (count + 1, bytes + (8 + of_nat (length i) + of_nat (tb_len k)))) recs (c, b)
     = (c + of_nat (length recs) :: u32, b + of_nat (length (map_records (map plain recs))) :: u64)"
proof (induction recs arbitrary: c b)
  case (Cons r recs)
  obtain i k where "r = (i, k)" by (cases r)
  with Cons show ?case by (simp add: lens_ok_def plain_def map_record_def algebra_simps)
qed simp

definition same_limits :: "tool_memory \<Rightarrow> tool_memory \<Rightarrow> bool" where
  "same_limits m m' \<longleftrightarrow> tm_max_entries m' = tm_max_entries m \<and> tm_max_bytes m' = tm_max_bytes m"

section \<open>The marks of a scan\<close>

text \<open>The memory up to its marks and its scan clock.\<close>

definition unseen :: "tm_block \<Rightarrow> tm_block" where
  "unseen k = k\<lparr>tb_seen := 0\<rparr>"

lemma unseen_eq:
  "unseen k' = unseen k \<Longrightarrow> tb_dsml k' = tb_dsml k \<and> tb_len k' = tb_len k \<and> tb_bytes k' = tb_bytes k
     \<and> tb_refs k' = tb_refs k \<and> tb_entries k' = tb_entries k"
  by (cases k, cases k') (simp add: unseen_def)

definition seen_only :: "tool_memory \<Rightarrow> tool_memory \<Rightarrow> bool" where
  "seen_only m m' \<longleftrightarrow> m' = m\<lparr>tm_blocks := tm_blocks m', tm_scan_clock := tm_scan_clock m'\<rparr>
     \<and> (\<forall>b. map_option unseen (tm_blocks m' b) = map_option unseen (tm_blocks m b))"

lemma seen_only_refl [simp]: "seen_only m m"
  by (simp add: seen_only_def)

lemma seen_only_fields:
  assumes "seen_only m m'"
  shows "tm_heap m' = tm_heap m" "tm_by_id m' = tm_by_id m" "tm_by_block m' = tm_by_block m" "tm_head m' = tm_head m"
    "tm_tail m' = tm_tail m" "tm_entries m' = tm_entries m" "tm_bytes m' = tm_bytes m" "tm_fresh m' = tm_fresh m"
    "tm_max_entries m' = tm_max_entries m" "tm_max_bytes m' = tm_max_bytes m" "tm_clock m' = tm_clock m"
proof -
  from assms have eq: "m' = m\<lparr>tm_blocks := tm_blocks m', tm_scan_clock := tm_scan_clock m'\<rparr>" by (simp add: seen_only_def)
  show "tm_heap m' = tm_heap m" using arg_cong [OF eq, of tm_heap] by simp
  show "tm_by_id m' = tm_by_id m" using arg_cong [OF eq, of tm_by_id] by simp
  show "tm_by_block m' = tm_by_block m" using arg_cong [OF eq, of tm_by_block] by simp
  show "tm_head m' = tm_head m" using arg_cong [OF eq, of tm_head] by simp
  show "tm_tail m' = tm_tail m" using arg_cong [OF eq, of tm_tail] by simp
  show "tm_entries m' = tm_entries m" using arg_cong [OF eq, of tm_entries] by simp
  show "tm_bytes m' = tm_bytes m" using arg_cong [OF eq, of tm_bytes] by simp
  show "tm_fresh m' = tm_fresh m" using arg_cong [OF eq, of tm_fresh] by simp
  show "tm_max_entries m' = tm_max_entries m" using arg_cong [OF eq, of tm_max_entries] by simp
  show "tm_max_bytes m' = tm_max_bytes m" using arg_cong [OF eq, of tm_max_bytes] by simp
  show "tm_clock m' = tm_clock m" using arg_cong [OF eq, of tm_clock] by simp
qed

lemma seen_only_blocks:
  assumes "seen_only m m'"
  shows "tm_blocks m' b = Some k' \<Longrightarrow> \<exists>k. tm_blocks m b = Some k \<and> unseen k' = unseen k"
    "tm_blocks m b = Some k \<Longrightarrow> \<exists>k'. tm_blocks m' b = Some k' \<and> unseen k' = unseen k"
proof -
  from assms have "map_option unseen (tm_blocks m' b) = map_option unseen (tm_blocks m b)" by (simp add: seen_only_def)
  then show "tm_blocks m' b = Some k' \<Longrightarrow> \<exists>k. tm_blocks m b = Some k \<and> unseen k' = unseen k"
    "tm_blocks m b = Some k \<Longrightarrow> \<exists>k'. tm_blocks m' b = Some k' \<and> unseen k' = unseen k"
    by (cases "tm_blocks m b"; cases "tm_blocks m' b"; simp)+
qed

lemma seen_only_trans: "seen_only m m' \<Longrightarrow> seen_only m' m'' \<Longrightarrow> seen_only m m''"
proof -
  assume a: "seen_only m m'" "seen_only m' m''"
  then have "\<forall>b. map_option unseen (tm_blocks m'' b) = map_option unseen (tm_blocks m b)" by (simp add: seen_only_def)
  moreover have "m'' = m\<lparr>tm_blocks := tm_blocks m'', tm_scan_clock := tm_scan_clock m''\<rparr>"
  proof -
    from a(1) have e1: "m' = m\<lparr>tm_blocks := tm_blocks m', tm_scan_clock := tm_scan_clock m'\<rparr>" by (simp add: seen_only_def)
    have e3: "m'\<lparr>tm_blocks := X, tm_scan_clock := Y\<rparr> = m\<lparr>tm_blocks := X, tm_scan_clock := Y\<rparr>" for X Y
      using arg_cong [OF e1, of "\<lambda>z. z\<lparr>tm_blocks := X, tm_scan_clock := Y\<rparr>"] by simp
    from a(2) have e2: "m'' = m'\<lparr>tm_blocks := tm_blocks m'', tm_scan_clock := tm_scan_clock m''\<rparr>"
      by (simp add: seen_only_def)
    show ?thesis by (rule trans [OF e2 e3])
  qed
  ultimately show ?thesis by (simp add: seen_only_def)
qed

lemma seen_only_clock [simp]: "seen_only m (m\<lparr>tm_scan_clock := c\<rparr>)"
  by (simp add: seen_only_def)

lemma seen_only_mark:
  "tm_blocks m b = Some k \<Longrightarrow> seen_only m (m\<lparr>tm_blocks := (tm_blocks m)(b \<mapsto> k\<lparr>tb_seen := scan\<rparr>)\<rparr>)"
  by (simp add: seen_only_def unseen_def)

lemma block_ok_unseen: "unseen k' = unseen k \<Longrightarrow> block_ok g fr b k' = block_ok g fr b k"
  using unseen_eq [of k' k] by (simp add: block_ok_def)

lemma seen_only_ok:
  assumes seen: "seen_only m m'" and ok: "memory_ok m xs"
  shows "memory_ok m' xs" "recent m' xs = recent m xs"
proof -
  note f = seen_only_fields [OF seen]
  note old = seen_only_blocks(1) [OF seen]
  note new = seen_only_blocks(2) [OF seen]
  have st: "store_ok m None xs" using ok by (simp add: memory_ok_def)
  note D = store_okD [OF st]
  have dom: "dom (tm_blocks m') = dom (tm_blocks m)" using old new by (auto simp: dom_def) blast+
  have "tb_bytes (the (tm_blocks m' b)) = tb_bytes (the (tm_blocks m b))" if "b \<in> dom (tm_blocks m)" for b
  proof -
    from that obtain k where k: "tm_blocks m b = Some k" by blast
    from new [OF k] obtain k' where k': "tm_blocks m' b = Some k'" "unseen k' = unseen k" by blast
    from k k' unseen_eq [OF k'(2)] show ?thesis by simp
  qed
  then have bytes: "block_bytes (tm_blocks m') = block_bytes (tm_blocks m)" by (simp add: block_bytes_def dom)
  have blk: "block_ok (cores (tm_heap m)) False b k' \<and> tm_by_block m (tb_dsml k') = Some b" if b: "tm_blocks m' b = Some k'" for b k'
  proof -
    from old [OF b] obtain k where k: "tm_blocks m b = Some k" "unseen k' = unseen k" by blast
    with D(10,11) [OF k(1)] unseen_eq [OF k(2)] block_ok_unseen [OF k(2)] show ?thesis by simp
  qed
  have by_blk: "\<exists>k'. tm_blocks m' b = Some k' \<and> tb_dsml k' = d" if "tm_by_block m d = Some b" for b d
  proof -
    from D(12) [OF that] obtain k where k: "tm_blocks m b = Some k" "tb_dsml k = d" by blast
    from new [OF k(1)] obtain k' where k': "tm_blocks m' b = Some k'" "unseen k' = unseen k" by blast
    from k k' unseen_eq [OF k'(2)] show ?thesis by simp
  qed
  have ent: "i \<noteq> [] \<and> n = length i + 1 + sizeof_entry \<and> tm_blocks m' b \<noteq> None \<and> tm_by_id m i = Some a"
    if "cores (tm_heap m) a = Some (i, b, n, q)" for a i b n q
  proof -
    from D(7) [OF that] obtain k where k: "tm_blocks m b = Some k" by blast
    from new [OF k] obtain k' where "tm_blocks m' b = Some k'" by blast
    with D(5,6,8) [OF that] show ?thesis by simp
  qed
  have "store_ok m' None xs"
    using D(1-4,9,13,14) ent blk by_blk unfolding store_ok_def Let_def f dom bytes by simp
  then show "memory_ok m' xs" using ok by (simp add: memory_ok_def order_ok_def f)
  have "content m' a = content m a" for a
  proof -
    have "map_option (\<lambda>k. (i, tb_dsml k, src)) (tm_blocks m' b) = map_option (\<lambda>k. (i, tb_dsml k, src)) (tm_blocks m b)" for i :: "byte list" and src :: tool_memory_source and b
    proof (cases "tm_blocks m b")
      case None
      then have "tm_blocks m' b = None" using dom by (metis domIff)
      with None show ?thesis by simp
    next
      case (Some k)
      from new [OF this] obtain k' where k': "tm_blocks m' b = Some k'" "unseen k' = unseen k" by blast
      with Some unseen_eq [OF k'(2)] show ?thesis by simp
    qed
    then show ?thesis by (simp add: content_def f split: option.split)
  qed
  then show "recent m' xs = recent m xs" by (simp add: recent_def)
qed

section \<open>What a scan finds\<close>

lemma block_ids_chain:
  "chain (cores h) p es \<Longrightarrow> block_ids h p = Some (map (\<lambda>a. te_id (the (h a))) es)"
proof (induction es arbitrary: p)
  case Nil
  then show ?case by (simp add: block_ids.simps)
next
  case (Cons a es)
  from Cons.prems obtain e where "p = Some a" "h a = Some e" "chain (cores h) (te_block_next e) es"
    by (auto simp: cores_Some)
  with Cons.IH show ?case by (simp add: block_ids.simps [of h "Some a"])
qed

definition records_of :: "tool_memory \<Rightarrow> byte list \<Rightarrow> (byte list \<times> byte list) list" where
  "records_of m blk =
     (case tool_memory_find_block_locked m blk of
        None \<Rightarrow> []
      | Some b \<Rightarrow>
          (case block_ids (tm_heap m) (tb_entries (the (tm_blocks m b))) of
             None \<Rightarrow> []
           | Some ids \<Rightarrow> map (\<lambda>i. (i, blk)) ids))"

lemma find_block_ok:
  assumes ok: "memory_ok m xs" and "tool_memory_find_block_locked m blk = Some b"
  obtains k es where "tm_blocks m b = Some k" "tb_dsml k = blk" "tb_len k = length blk" "blk \<noteq> []"
    "block_ids (tm_heap m) (tb_entries k) = Some (map (\<lambda>a. te_id (the (tm_heap m a))) es)" "distinct es"
    "\<forall>a. a \<in> set es \<longleftrightarrow> (\<exists>i n q. cores (tm_heap m) a = Some (i, b, n, q))"
    "tb_refs k = int (length es)"
proof -
  have st: "store_ok m None xs" using ok by (simp add: memory_ok_def)
  from assms(2) have b: "blk \<noteq> []" "tm_by_block m blk = Some b"
    by (simp_all add: tool_memory_find_block_locked_def split: if_splits)
  from store_okD(12) [OF st b(2)] obtain k where k: "tm_blocks m b = Some k" "tb_dsml k = blk" by blast
  from store_okD(10) [OF st k(1)] obtain es where es: "chain (cores (tm_heap m)) (tb_entries k) es" "distinct es"
    "\<forall>a. a \<in> set es \<longleftrightarrow> (\<exists>i n q. cores (tm_heap m) a = Some (i, b, n, q))" "tb_refs k = int (length es)"
    by (auto simp: block_ok_def)
  have "tb_len k = length blk" using store_okD(10) [OF st k(1)] k(2) by (simp add: block_ok_def)
  then show thesis using that k b(1) es(2-4) block_ids_chain [OF es(1)] by blast
qed

lemma content_core:
  assumes "memory_ok m xs" "cores (tm_heap m) a = Some (i, b, n, q)" "tm_blocks m b = Some k"
  shows "te_id (the (tm_heap m a)) = i \<and> a \<in> set xs \<and> (\<exists>s. content m a = Some (i, tb_dsml k, s))"
proof -
  have st: "store_ok m None xs" using assms(1) by (simp add: memory_ok_def)
  from assms(2) obtain e where e: "tm_heap m a = Some e" "te_id e = i" by (auto simp: cores_Some)
  have "a \<in> dom (cores (tm_heap m))" using assms(2) by blast
  then have "a \<in> set xs" using store_okD(2) [OF st] by simp
  moreover have "content m a = Some (i, tb_dsml k, te_source e)"
    using assms(2,3) e by (simp add: content_def sources_def)
  ultimately show ?thesis using e by simp
qed

lemma records_of_set:
  assumes ok: "memory_ok m xs" and blk: "blk \<noteq> []"
  shows "set (records_of m blk) = {(i, d). d = blk \<and> (\<exists>s. (i, d, s) \<in> set (recent m xs))}"
proof (cases "tool_memory_find_block_locked m blk")
  case None
  have "False" if "(i, blk, s) \<in> set (recent m xs)" for i s
  proof -
    from that obtain a where a: "a \<in> set xs" "the (content m a) = (i, blk, s)" by (auto simp: recent_def)
    have st: "store_ok m None xs" using ok by (simp add: memory_ok_def)
    from store_ok_alive [OF st a(1)] obtain e where "tm_heap m a = Some e" ..
    then have c: "cores (tm_heap m) a = Some (te_id e, te_block e, te_bytes e, te_block_next e)" by (simp add: cores_def core_def)
    from store_okD(7) [OF st c] obtain k where k: "tm_blocks m (te_block e) = Some k" ..
    from content_core [OF ok c k] a(2) have "tb_dsml k = blk" by auto
    with store_okD(11) [OF st k] None blk show False by (simp add: tool_memory_find_block_locked_def)
  qed
  with None show ?thesis by (auto simp: records_of_def)
next
  case (Some b)
  obtain k es where k: "tm_blocks m b = Some k" "tb_dsml k = blk"
    "block_ids (tm_heap m) (tb_entries k) = Some (map (\<lambda>a. te_id (the (tm_heap m a))) es)"
    "\<forall>a. a \<in> set es \<longleftrightarrow> (\<exists>i n q. cores (tm_heap m) a = Some (i, b, n, q))"
    using find_block_ok [OF ok Some] by metis
  have rec: "records_of m blk = map (\<lambda>a. (te_id (the (tm_heap m a)), blk)) es"
    using Some k(1,3) by (simp add: records_of_def)
  have st: "store_ok m None xs" using ok by (simp add: memory_ok_def)
  show ?thesis
  proof (intro equalityI subsetI)
    fix r assume "r \<in> set (records_of m blk)"
    then obtain a where a: "a \<in> set es" "r = (te_id (the (tm_heap m a)), blk)" by (auto simp: rec)
    from a(1) k(4) obtain i n q where c: "cores (tm_heap m) a = Some (i, b, n, q)" by blast
    from content_core [OF ok c k(1)] obtain s where "te_id (the (tm_heap m a)) = i" "a \<in> set xs" "content m a = Some (i, blk, s)"
      using k(2) by blast
    then have "(i, blk, s) \<in> set (recent m xs)" by (force simp: recent_def)
    then show "r \<in> {(i, d). d = blk \<and> (\<exists>s. (i, d, s) \<in> set (recent m xs))}"
      using a(2) \<open>te_id (the (tm_heap m a)) = i\<close> by blast
  next
    fix r assume "r \<in> {(i, d). d = blk \<and> (\<exists>s. (i, d, s) \<in> set (recent m xs))}"
    then obtain i s where r: "r = (i, blk)" "(i, blk, s) \<in> set (recent m xs)" by blast
    then obtain a where a: "a \<in> set xs" "the (content m a) = (i, blk, s)" by (auto simp: recent_def)
    from store_ok_alive [OF st a(1)] obtain e where "tm_heap m a = Some e" ..
    then have c: "cores (tm_heap m) a = Some (te_id e, te_block e, te_bytes e, te_block_next e)" by (simp add: cores_def core_def)
    from store_okD(7) [OF st c] obtain k' where k': "tm_blocks m (te_block e) = Some k'" ..
    from content_core [OF ok c k'] a(2) have d: "tb_dsml k' = blk" "te_id (the (tm_heap m a)) = i" by auto
    have "te_block e = b" using store_okD(11) [OF st k'] store_okD(11) [OF st k(1)] d(1) k(2) by simp
    then have "a \<in> set es" using c k(4) by blast
    then show "r \<in> set (records_of m blk)" using r(1) d(2) by (force simp: rec)
  qed
qed

lemma records_of_ids:
  assumes ok: "memory_ok m xs"
  shows "distinct (map fst (records_of m blk))"
proof (cases "tool_memory_find_block_locked m blk")
  case None
  then show ?thesis by (simp add: records_of_def)
next
  case (Some b)
  obtain k es where k: "tm_blocks m b = Some k"
    "block_ids (tm_heap m) (tb_entries k) = Some (map (\<lambda>a. te_id (the (tm_heap m a))) es)" "distinct es"
    "\<forall>a. a \<in> set es \<longleftrightarrow> (\<exists>i n q. cores (tm_heap m) a = Some (i, b, n, q))"
    using find_block_ok [OF ok Some] by metis
  have st: "store_ok m None xs" using ok by (simp add: memory_ok_def)
  have id: "tm_by_id m (te_id (the (tm_heap m a))) = Some a" if a: "a \<in> set es" for a
  proof -
    from a k(4) obtain i n q where c: "cores (tm_heap m) a = Some (i, b, n, q)" by blast
    with store_okD(8) [OF st c] content_core [OF ok c k(1)] show ?thesis by simp
  qed
  have "inj_on (\<lambda>a. te_id (the (tm_heap m a))) (set es)"
    by (rule inj_onI) (metis id option.inject)
  then show ?thesis using Some k(1-3) by (simp add: records_of_def distinct_map comp_def)
qed

text \<open>Two memories that differ in their marks only have the same records.\<close>

lemma records_of_seen:
  assumes "seen_only m m'" "memory_ok m xs"
  shows "records_of m' blk = records_of m blk"
proof -
  have find: "tool_memory_find_block_locked m' blk = tool_memory_find_block_locked m blk"
    using seen_only_fields [OF assms(1)] by (simp add: tool_memory_find_block_locked_def)
  show ?thesis
  proof (cases "tool_memory_find_block_locked m blk")
    case None
    with find show ?thesis by (simp add: records_of_def)
  next
    case (Some b)
    obtain k where k: "tm_blocks m b = Some k" using find_block_ok [OF assms(2) Some] by metis
    from seen_only_blocks(2) [OF assms(1) k] obtain k' where k': "tm_blocks m' b = Some k'" "unseen k' = unseen k" by blast
    with find Some k unseen_eq [OF k'(2)] seen_only_fields(1) [OF assms(1)] show ?thesis by (simp add: records_of_def)
  qed
qed

definition fits32 :: "lru \<Rightarrow> bool" where
  "fits32 l \<longleftrightarrow> (\<forall>(i, d, s) \<in> set l. length i \<le> 4294967295 \<and> length d \<le> 4294967295)"

definition marks :: "tool_memory \<Rightarrow> u64 \<Rightarrow> byte list set \<Rightarrow> bool" where
  "marks m scan V \<longleftrightarrow> (\<forall>b k. tm_blocks m b = Some k \<longrightarrow> tb_seen k = scan \<longleftrightarrow> tb_dsml k \<in> V)"

definition seen_le :: "tool_memory \<Rightarrow> nat \<Rightarrow> bool" where
  "seen_le m n \<longleftrightarrow> (\<forall>b k. tm_blocks m b = Some k \<longrightarrow> unat (tb_seen k) \<le> n)"

lemma visit_block_ok:
  assumes ok: "memory_ok m xs" and fits: "fits32 (recent m xs)" and marks: "marks m scan V" and le: "seen_le m (unat scan)"
  obtains recs m' where "visit_block scan blk m = Some (recs, m')"
    "map plain recs = (if blk \<in> V then [] else records_of m blk)" "lens_ok recs" "seen_only m m'"
    "marks m' scan (insert blk V)" "seen_le m' (unat scan)" "tm_scan_clock m' = tm_scan_clock m"
proof (cases "tool_memory_find_block_locked m blk")
  case None
  have st: "store_ok m None xs" using ok by (simp add: memory_ok_def)
  have "tb_dsml k \<noteq> blk" if "tm_blocks m b = Some k" for b k
    using None store_okD(10,11) [OF st that] by (auto simp: tool_memory_find_block_locked_def block_ok_def split: if_splits)
  with marks have "marks m scan (insert blk V)" by (auto simp: marks_def)
  with None le show thesis by (intro that [of "[]" m]) (simp_all add: visit_block_def records_of_def lens_ok_def)
next
  case (Some b)
  obtain k es where k: "tm_blocks m b = Some k" "tb_dsml k = blk" "tb_len k = length blk" "blk \<noteq> []"
    "block_ids (tm_heap m) (tb_entries k) = Some (map (\<lambda>a. te_id (the (tm_heap m a))) es)"
    using find_block_ok [OF ok Some] by metis
  show thesis
  proof (cases "blk \<in> V")
    case True
    then have "tb_seen k = scan" "marks m scan (insert blk V)" using marks k(1,2) by (auto simp: marks_def insert_absorb)
    with Some True k le show thesis by (intro that [of "[]" m]) (simp_all add: visit_block_def lens_ok_def)
  next
    case False
    then have new: "tb_seen k \<noteq> scan" using marks k(1,2) by (auto simp: marks_def)
    define m' where "m' = m\<lparr>tm_blocks := (tm_blocks m)(b \<mapsto> k\<lparr>tb_seen := scan\<rparr>)\<rparr>"
    define ids where "ids = map (\<lambda>a. te_id (the (tm_heap m a))) es"
    have rec: "records_of m blk = map (\<lambda>i. (i, blk)) ids" using Some k by (simp add: records_of_def ids_def)
    have "length i \<le> 4294967295 \<and> length blk \<le> 4294967295" if "i \<in> set ids" for i
    proof -
      from that have "(i, blk) \<in> set (records_of m blk)" by (simp add: rec)
      then obtain s where "(i, blk, s) \<in> set (recent m xs)" unfolding records_of_set [OF ok k(4)] by blast
      with fits show ?thesis by (auto simp: fits32_def)
    qed
    then have all: "filter (\<lambda>i. map_record_fits i (tb_len k)) ids = ids"
      by (intro filter_True) (simp add: map_record_fits_def k(3) not_less)
    have st: "store_ok m None xs" using ok by (simp add: memory_ok_def)
    have "b' = b" if "tm_blocks m b' = Some k'" "tb_dsml k' = blk" for b' k'
      using store_okD(11) [OF st that(1)] store_okD(11) [OF st k(1)] that(2) k(2) by simp
    then have "marks m' scan (insert blk V)" using marks k(2) by (auto simp: marks_def m'_def)
    moreover have "seen_le m' (unat scan)" using le by (simp add: seen_le_def m'_def)
    moreover have "seen_only m m'" unfolding m'_def by (rule seen_only_mark [OF k(1)])
    moreover have "visit_block scan blk m = Some (map (\<lambda>i. (i, k)) ids, m')"
      using Some k new all by (simp add: visit_block_def set_block_Some m'_def ids_def)
    moreover have "map plain (map (\<lambda>i. (i, k)) ids) = records_of m blk" by (simp add: rec plain_def k(2))
    ultimately show thesis using False k(2,3) by (intro that [of "map (\<lambda>i. (i, k)) ids" m']) (simp_all add: lens_ok_def m'_def)
  qed
qed

text \<open>The blocks of a scan that are new, in order.\<close>

fun first_visits :: "byte list set \<Rightarrow> byte list list \<Rightarrow> byte list list" where
  "first_visits V [] = []"
| "first_visits V (blk # blks) = (if blk \<in> V then [] else [blk]) @ first_visits (insert blk V) blks"

lemma first_visits_set: "set (first_visits V blks) = set blks - V \<and> distinct (first_visits V blks)"
  by (induction blks arbitrary: V) auto

definition scan_records :: "tool_memory \<Rightarrow> byte list set \<Rightarrow> byte list list \<Rightarrow> (byte list \<times> byte list) list" where
  "scan_records m V blks = concat (map (records_of m) (first_visits V blks))"

lemma scan_records_seen: "seen_only m m' \<Longrightarrow> memory_ok m xs \<Longrightarrow> scan_records m' V blks = scan_records m V blks"
proof -
  assume "seen_only m m'" "memory_ok m xs"
  then have "records_of m' = records_of m" using records_of_seen by blast
  then show ?thesis by (simp add: scan_records_def)
qed

lemma scan_records_Cons:
  "scan_records m V (blk # blks) = (if blk \<in> V then [] else records_of m blk) @ scan_records m (insert blk V) blks"
  by (simp add: scan_records_def)

lemma count_records_ok:
  assumes "memory_ok m xs" "fits32 (recent m xs)" "marks m scan V" "seen_le m (unat scan)"
  obtains m' where "count_records scan blks (c, b) m
      = Some ((c + of_nat (length (scan_records m V blks)), b + of_nat (length (map_records (scan_records m V blks)))), m')"
    "seen_only m m'" "seen_le m' (unat scan)" "tm_scan_clock m' = tm_scan_clock m"
  using assms
proof (induction blks arbitrary: thesis m V c b)
  case Nil
  then show ?case by (simp add: scan_records_def)
next
  case (Cons blk blks)
  obtain recs m1 where v: "visit_block scan blk m = Some (recs, m1)"
    "map plain recs = (if blk \<in> V then [] else records_of m blk)" "lens_ok recs" "seen_only m m1"
    "marks m1 scan (insert blk V)" "seen_le m1 (unat scan)" "tm_scan_clock m1 = tm_scan_clock m"
    using visit_block_ok [OF Cons.prems(2-5)] by metis
  note 1 = seen_only_ok [OF v(4) Cons.prems(2)]
  have fits: "fits32 (recent m1 xs)" using Cons.prems(3) 1(2) by simp
  have len: "length recs = length (map plain recs)" by simp
  obtain m2 where m2: "count_records scan blks (c + of_nat (length recs), b + of_nat (length (map_records (map plain recs)))) m1
      = Some ((c + of_nat (length recs) + of_nat (length (scan_records m1 (insert blk V) blks)),
          b + of_nat (length (map_records (map plain recs))) + of_nat (length (map_records (scan_records m1 (insert blk V) blks)))), m2)"
    "seen_only m1 m2" "seen_le m2 (unat scan)" "tm_scan_clock m2 = tm_scan_clock m1"
    using Cons.IH [OF _ 1(1) fits v(5,6)] by metis
  have same: "scan_records m V (blk # blks) = map plain recs @ scan_records m1 (insert blk V) blks"
    unfolding scan_records_Cons v(2) scan_records_seen [OF v(4) Cons.prems(2)] ..
  have "count_records scan (blk # blks) (c, b) m
      = Some ((c + of_nat (length (scan_records m V (blk # blks))), b + of_nat (length (map_records (scan_records m V (blk # blks))))), m2)"
    using m2(1) [unfolded add.assoc] v(1) unfolding same by (simp add: count_fold [OF v(3)])
  then show ?case by (rule Cons.prems(1)) (use m2 v(7) seen_only_trans [OF v(4) m2(2)] in simp_all)
qed

lemma write_blocks_ok:
  assumes "memory_ok m xs" "fits32 (recent m xs)" "marks m scan V" "seen_le m (unat scan)"
  obtains ok fp m' where "write_blocks scan blks True (d, room) m = Some (ok, fp, m')"
    "ok = (length (map_records (scan_records m V blks)) \<le> room)"
    "ok \<Longrightarrow> fp = (d @ map_records (scan_records m V blks), room - length (map_records (scan_records m V blks)))"
    "seen_only m m'" "seen_le m' (unat scan)" "tm_scan_clock m' = tm_scan_clock m"
  using assms
proof (induction blks arbitrary: thesis m V d room)
  case Nil
  then show ?case by (simp add: scan_records_def)
next
  case (Cons blk blks)
  obtain recs m1 where v: "visit_block scan blk m = Some (recs, m1)"
    "map plain recs = (if blk \<in> V then [] else records_of m blk)" "lens_ok recs" "seen_only m m1"
    "marks m1 scan (insert blk V)" "seen_le m1 (unat scan)" "tm_scan_clock m1 = tm_scan_clock m"
    using visit_block_ok [OF Cons.prems(2-5)] by metis
  note 1 = seen_only_ok [OF v(4) Cons.prems(2)]
  have fits: "fits32 (recent m1 xs)" using Cons.prems(3) 1(2) by simp
  define R where "R = map_records (map plain recs)"
  define R1 where "R1 = map_records (scan_records m1 (insert blk V) blks)"
  have same: "map_records (scan_records m V (blk # blks)) = R @ R1"
    unfolding scan_records_Cons v(2) scan_records_seen [OF v(4) Cons.prems(2)] R_def R1_def by simp
  obtain ok1 fp1 where w: "write_records recs (d, room) = (ok1, fp1)" by (cases "write_records recs (d, room)")
  note w' = write_records_result [OF w v(3), folded R_def]
  show ?case
  proof (cases ok1)
    case True
    then have fp1: "fp1 = (d @ R, room - length R)" "length R \<le> room" using w' by simp_all
    obtain ok2 fp2 m2 where m2: "write_blocks scan blks True (d @ R, room - length R) m1 = Some (ok2, fp2, m2)"
      "ok2 = (length R1 \<le> room - length R)" "ok2 \<Longrightarrow> fp2 = ((d @ R) @ R1, room - length R - length R1)"
      "seen_only m1 m2" "seen_le m2 (unat scan)" "tm_scan_clock m2 = tm_scan_clock m1"
      using Cons.IH [OF _ 1(1) fits v(5,6), of "d @ R" "room - length R"] unfolding R1_def by metis
    have "write_blocks scan (blk # blks) True (d, room) m = Some (ok2, fp2, m2)" using v(1) w True fp1(1) m2(1) by simp
    then show ?thesis
      by (rule Cons.prems(1)) (use m2 fp1 v same seen_only_trans [OF v(4) m2(4)] in auto)
  next
    case False
    then have "write_blocks scan (blk # blks) True (d, room) m = Some (False, fp1, m1)"
      using v(1) w by (cases blks) simp_all
    then show ?thesis by (rule Cons.prems(1)) (use False w' v same in auto)
  qed
qed

lemma scan_records_set:
  assumes ok: "memory_ok m xs" and ne: "[] \<notin> set blks"
  shows "set (scan_records m {} blks) = {(i, d). d \<in> set blks \<and> (\<exists>s. (i, d, s) \<in> set (recent m xs))}"
proof -
  have rec: "set (records_of m blk) = {(i, d). d = blk \<and> (\<exists>s. (i, d, s) \<in> set (recent m xs))}" if "blk \<in> set blks" for blk
  proof -
    from that ne have "blk \<noteq> []" by auto
    then show ?thesis by (rule records_of_set [OF ok])
  qed
  have "set (scan_records m {} blks) = (\<Union>blk \<in> set blks. set (records_of m blk))"
    using first_visits_set [of "{}" blks] by (simp add: scan_records_def)
  also have "\<dots> = (\<Union>blk \<in> set blks. {(i, d). d = blk \<and> (\<exists>s. (i, d, s) \<in> set (recent m xs))})"
    by (rule SUP_cong [OF refl rec])
  finally show ?thesis by blast
qed

lemma scan_records_ids:
  assumes ok: "memory_ok m xs" and ne: "[] \<notin> set blks"
  shows "distinct (map fst (scan_records m V blks))"
  using ne
proof (induction blks arbitrary: V)
  case Nil
  then show ?case by (simp add: scan_records_def)
next
  case (Cons blk blks)
  have one: "d = d'" if "(i, d, s) \<in> set (recent m xs)" "(i, d', s') \<in> set (recent m xs)" for i d d' s s'
    using eq_key_imp_eq_value [OF recent_ids_distinct [OF ok] that] by simp
  have in_rec: "\<exists>s. (fst r, b, s) \<in> set (recent m xs)" if "r \<in> set (records_of m b)" "b \<noteq> []" for r b
    using that records_of_set [OF ok that(2)] by auto
  have "fst ` set (records_of m blk) \<inter> fst ` set (scan_records m (insert blk V) blks) = {}"
  proof -
    have False if "r \<in> set (records_of m blk)" "r' \<in> set (records_of m b)" "b \<in> set (first_visits (insert blk V) blks)"
      "fst r = fst r'" for r r' b
    proof -
      from that(3) first_visits_set [of "insert blk V" blks] have b: "b \<noteq> blk" "b \<in> set blks" by auto
      with Cons.prems have "b \<noteq> []" "blk \<noteq> []" by auto
      with in_rec [OF that(1)] in_rec [OF that(2)] that(4) one b(1) show False by metis
    qed
    then show ?thesis unfolding scan_records_def by fastforce
  qed
  with Cons records_of_ids [OF ok, of blk] show ?case by (simp add: scan_records_Cons)
qed

lemma dsml_blocks_bytes: "blk \<in> set (dsml_blocks p) \<Longrightarrow> set blk \<subseteq> set p"
proof (induction p rule: dsml_blocks.induct)
  case (1 p)
  show ?case
  proof (cases "find_next_dsml_tool_block p")
    case None
    with 1 show ?thesis by (simp add: dsml_blocks.simps [of p])
  next
    case (Some se)
    obtain s e where se: "se = (s, e)" by (cases se)
    from 1(2) Some se consider "blk = take (e - s) (drop s p)" | "blk \<in> set (dsml_blocks (drop e p))"
      by (auto simp: dsml_blocks.simps [of p])
    then show ?thesis
    proof cases
      case 1
      then show ?thesis by (meson order_trans set_drop_subset set_take_subset)
    next
      case 2
      with 1(1) [OF Some se [symmetric]] show ?thesis by (meson order_trans set_drop_subset)
    qed
  qed
qed

lemma dsml_blocks_nonempty: "[] \<notin> set (dsml_blocks p)"
proof (induction p rule: dsml_blocks.induct)
  case (1 p)
  show ?case
  proof (cases "find_next_dsml_tool_block p")
    case (Some se)
    obtain s e where se: "se = (s, e)" by (cases se)
    have "take (e - s) (drop s p) \<noteq> []" using find_next_block_bounds [of p s e] Some se by simp
    with 1 [OF Some] Some se show ?thesis by (simp add: dsml_blocks.simps [of p])
  qed (simp add: dsml_blocks.simps [of p])
qed

lemma cstr_no_zero [simp]: "0 \<notin> set (cstr s)"
  by (auto simp: cstr_def dest: set_takeWhileD)

section \<open>Writing and reading the map\<close>

definition saved_records :: "tool_memory \<Rightarrow> byte list \<Rightarrow> (byte list \<times> byte list) list" where
  "saved_records m tx = scan_records m {} (dsml_blocks (cstr tx))"

definition map_section :: "(byte list \<times> byte list) list \<Rightarrow> byte list" where
  "map_section recs =
     (if recs = [] then []
      else KV_TOOL_MAP_MAGIC @ [KV_TOOL_MAP_VERSION] @ le_put32 (of_nat (length recs)) @ map_records recs)"

text \<open>The clock can advance twice more without coming back to an old mark.\<close>

definition clock_ok :: "tool_memory \<Rightarrow> bool" where
  "clock_ok m \<longleftrightarrow> seen_le m (unat (tm_scan_clock m)) \<and> unat (tm_scan_clock m) + 2 < 2 ^ 64"

lemma dsml_blocks_Nil [simp]: "dsml_blocks [] = []"
  using find_next_block_bounds [of "[]"] by (subst dsml_blocks.simps) (auto split: option.split)

lemma unat_succ64: "unat c + 1 < 2 ^ 64 \<Longrightarrow> unat (c + 1 :: u64) = unat c + 1"
  using unat_add_no_wrap [of c 1] by simp

lemma marks_fresh: "seen_le m n \<Longrightarrow> n < unat scan \<Longrightarrow> marks m scan {}"
  unfolding marks_def seen_le_def by (metis empty_iff leD)

lemma saved_records_bound: "memory_ok m xs \<Longrightarrow> length (saved_records m tx) \<le> length xs"
proof -
  assume ok: "memory_ok m xs"
  note ne = dsml_blocks_nonempty [of "cstr tx"]
  have "fst ` set (saved_records m tx) \<subseteq> set (map fst (recent m xs))"
  proof
    fix i assume "i \<in> fst ` set (saved_records m tx)"
    then obtain d s where "(i, d, s) \<in> set (recent m xs)"
      unfolding saved_records_def scan_records_set [OF ok ne] by auto
    then have "fst (i, d, s) \<in> set (map fst (recent m xs))" by (metis image_eqI set_map)
    then show "i \<in> set (map fst (recent m xs))" by simp
  qed
  then have "card (fst ` set (saved_records m tx)) \<le> card (set (map fst (recent m xs)))" by (intro card_mono) simp_all
  also have "\<dots> \<le> length (map fst (recent m xs))" by (rule card_length)
  finally show ?thesis using distinct_card [OF scan_records_ids [OF ok ne, of "{}"]] by (simp add: saved_records_def recent_def)
qed

lemma kv_tool_map_write_ok:
  assumes ok: "memory_ok m xs" and fits: "fits32 (recent m xs)" and clock: "clock_ok m" and len: "length xs < 2 ^ 32"
  obtains okw fp m' where "kv_tool_map_write False tx (d, room) m
      = Some (okw, if okw then of_nat (length (map_section (saved_records m tx))) else 0, fp, m')"
    "okw = (length (map_section (saved_records m tx)) \<le> room)"
    "okw \<Longrightarrow> fp = (d @ map_section (saved_records m tx), room - length (map_section (saved_records m tx)))"
    "memory_ok m' xs" "recent m' xs = recent m xs" "seen_le m' (unat (tm_scan_clock m'))"
    "unat (tm_scan_clock m') \<le> unat (tm_scan_clock m) + 2" "same_limits m m'"
proof (cases "cstr tx = []")
  case True
  then have "saved_records m tx = []" by (simp add: saved_records_def scan_records_def)
  with True ok clock show thesis
    by (intro that [of True "(d, room)" m]) (simp_all add: kv_tool_map_write_def map_section_def clock_ok_def same_limits_def)
next
  case False
  define blks where "blks = dsml_blocks (cstr tx)"
  define recs where "recs = saved_records m tx"
  define scan where "scan = tm_scan_clock m + 1"
  define m0 where "m0 = m\<lparr>tm_scan_clock := scan\<rparr>"
  have u: "unat scan = unat (tm_scan_clock m) + 1" "unat (scan + 1) = unat (tm_scan_clock m) + 2"
    using clock unat_succ64 [of "tm_scan_clock m"] unat_succ64 [of scan] by (simp_all add: clock_ok_def scan_def)
  have s0: "seen_only m m0" by (simp add: m0_def)
  note ok0 = seen_only_ok [OF s0 ok]
  have le0: "seen_le m0 (unat scan)" "seen_le m (unat (tm_scan_clock m))" "marks m0 scan {}"
  proof -
    show 1: "seen_le m (unat (tm_scan_clock m))" using clock by (simp add: clock_ok_def)
    then have 2: "seen_le m0 (unat (tm_scan_clock m))" by (simp add: m0_def seen_le_def)
    then show "marks m0 scan {}" by (rule marks_fresh) (simp add: u)
    from 2 show "seen_le m0 (unat scan)" by (auto simp: seen_le_def u le_Suc_eq)
  qed
  have fits0: "fits32 (recent m0 xs)" using fits ok0(2) by simp
  have rec0: "scan_records m0 {} blks = recs" using scan_records_seen [OF s0 ok] by (simp add: recs_def saved_records_def blks_def)
  have clk0: "tm_scan_clock m0 = scan" by (simp add: m0_def)
  obtain m1 where c: "count_records scan blks (0, of_nat KV_TOOL_MAP_HEADER) m0
      = Some ((0 + of_nat (length recs), of_nat KV_TOOL_MAP_HEADER + of_nat (length (map_records recs))), m1)"
    "seen_only m0 m1" "seen_le m1 (unat scan)" "tm_scan_clock m1 = scan"
    using count_records_ok [OF ok0(1) fits0 le0(3,1), of blks 0 "of_nat KV_TOOL_MAP_HEADER"] unfolding rec0 clk0 by metis
  have s1: "seen_only m m1" using seen_only_trans [OF s0 c(2)] .
  note ok1 = seen_only_ok [OF s1 ok]
  have small: "length recs < 2 ^ 32" using saved_records_bound [OF ok, of tx] len by (simp add: recs_def)
  have zero: "(of_nat (length recs) :: u32) = 0 \<longleftrightarrow> recs = []"
  proof -
    have "unat (of_nat (length recs) :: u32) = length recs" using small by (simp add: unat_of_nat)
    then show ?thesis by (metis length_0_conv unat_eq_zero)
  qed
  have head: "kv_tool_map_write False tx (d, room) m =
     (if recs = [] then Some (True, 0, (d, room), m1)
      else Option.bind (case fwrite (KV_TOOL_MAP_MAGIC @ [KV_TOOL_MAP_VERSION] @ le_put32 (of_nat (length recs))) (d, room) of
          (okw, fp) \<Rightarrow> write_blocks (scan + 1) blks okw fp (m1\<lparr>tm_scan_clock := scan + 1\<rparr>))
        (\<lambda>(okw, fp, m). Some (okw, if okw then 8 + of_nat (length (map_records recs)) else 0, fp, m)))"
    using False c(1,4) zero clk0
    by (simp add: kv_tool_map_write_def KV_TOOL_MAP_HEADER_def fwrite_def flip: blks_def scan_def m0_def)
  show thesis
  proof (cases "recs = []")
    case True
    then show thesis using head ok1 c(3,4) u seen_only_fields(9,10) [OF s1]
      by (intro that [of True "(d, room)" m1]) (simp_all add: map_section_def same_limits_def flip: recs_def)
  next
    case False
    define H where "H = KV_TOOL_MAP_MAGIC @ [KV_TOOL_MAP_VERSION] @ le_put32 (of_nat (length recs))"
    have H: "length H = 8" by (simp add: H_def kv_constants)
    have sec: "map_section recs = H @ map_records recs" using False by (simp add: map_section_def H_def)
    define m2 where "m2 = m1\<lparr>tm_scan_clock := scan + 1\<rparr>"
    have s2: "seen_only m m2" using seen_only_trans [OF s1, of m2] by (simp add: m2_def)
    note ok2 = seen_only_ok [OF s2 ok]
    have fits2: "fits32 (recent m2 xs)" using fits ok2(2) by simp
    have le2: "seen_le m2 (unat scan)" using c(3) by (simp add: m2_def seen_le_def)
    then have marks2: "marks m2 (scan + 1) {}" by (rule marks_fresh) (simp add: u)
    have le2': "seen_le m2 (unat (scan + 1))" using le2 by (auto simp: seen_le_def u le_Suc_eq)
    have rec2: "scan_records m2 {} blks = recs" using scan_records_seen [OF s2 ok] by (simp add: recs_def saved_records_def blks_def)
    show thesis
    proof (cases "length H \<le> room")
      case True
      obtain okw fp m3 where w: "write_blocks (scan + 1) blks True (d @ H, room - length H) m2 = Some (okw, fp, m3)"
        "okw = (length (map_records recs) \<le> room - length H)"
        "okw \<Longrightarrow> fp = ((d @ H) @ map_records recs, room - length H - length (map_records recs))"
        "seen_only m2 m3" "seen_le m3 (unat (scan + 1))" "tm_scan_clock m3 = tm_scan_clock m2"
        using write_blocks_ok [OF ok2(1) fits2 marks2 le2', of blks "d @ H" "room - length H"] unfolding rec2 by metis
      have s3: "seen_only m m3" using seen_only_trans [OF s2 w(4)] .
      note ok3 = seen_only_ok [OF s3 ok]
      have clk3: "tm_scan_clock m3 = scan + 1" using w(6) by (simp add: m2_def)
      have "kv_tool_map_write False tx (d, room) m = Some (okw, if okw then 8 + of_nat (length (map_records recs)) else 0, fp, m3)"
        using head [folded H_def m2_def] False True w(1) by (simp add: fwrite_def)
      moreover have "(8 :: u64) + of_nat (length (map_records recs)) = of_nat (length (map_section recs))" by (simp add: sec H)
      ultimately have "kv_tool_map_write False tx (d, room) m = Some (okw, if okw then of_nat (length (map_section recs)) else 0, fp, m3)"
        by simp
      then show thesis
        by (rule that [folded recs_def]) (use w(2,3,5) True sec ok3 clk3 u seen_only_fields(9,10) [OF s3] in \<open>auto simp: same_limits_def\<close>)
    next
      case small: False
      obtain b0 bs where blks: "blks = b0 # bs" using False rec0 by (cases blks) (simp_all add: scan_records_def)
      have "kv_tool_map_write False tx (d, room) m = Some (False, if False then of_nat (length (map_section recs)) else 0, (d @ take room H, 0), m2)"
        using head [folded H_def m2_def] False small by (simp add: fwrite_def blks)
      then show thesis
        by (rule that [folded recs_def]) (use small sec ok2 le2' u seen_only_fields(9,10) [OF s2] in \<open>auto simp: same_limits_def m2_def\<close>)
    qed
  qed
qed

text \<open>A record the reader takes, and what it does with it.\<close>

definition record_ok :: "byte list \<times> byte list \<Rightarrow> bool" where
  "record_ok r \<longleftrightarrow> (case r of (i, d) \<Rightarrow> i \<noteq> [] \<and> length i \<le> 256 \<and> 0 \<notin> set i
     \<and> d \<noteq> [] \<and> length d \<le> DS4_TOOL_MEMORY_MAX_BYTES \<and> 0 \<notin> set d)"

definition put_record :: "byte list \<times> byte list \<Rightarrow> memory_op" where
  "put_record r = Op_put (fst r) (snd r) TOOL_MEMORY_DISK"

definition wanted_records :: "stop_list option \<Rightarrow> (byte list \<times> byte list) list \<Rightarrow> (byte list \<times> byte list) list" where
  "wanted_records wanted recs = filter (\<lambda>r. wanted = None \<or> id_list_contains (the wanted) (fst r)) recs"

lemma load_records_map:
  assumes "\<forall>r \<in> set recs. record_ok r"
  shows "load_records (length recs) wanted (map_records recs @ rest) loaded m
    = map_option (\<lambda>m. (loaded + int (length (wanted_records wanted recs)), m)) (run_ops (map put_record (wanted_records wanted recs)) m)"
  using assms
proof (induction recs arbitrary: loaded m)
  case Nil
  then show ?case by (simp add: wanted_records_def)
next
  case (Cons r recs)
  obtain i d where r: "r = (i, d)" by (cases r)
  have ok: "i \<noteq> []" "length i \<le> 256" "0 \<notin> set i" "d \<noteq> []" "length d \<le> 512 * 1024 * 1024" "0 \<notin> set d"
    using Cons.prems by (simp_all add: r record_ok_def DS4_TOOL_MEMORY_MAX_BYTES_def)
  define S where "S = map_records (r # recs) @ rest"
  have s: "S = le_put32 (of_nat (length i)) @ le_put32 (of_nat (length d)) @ i @ d @ map_records recs @ rest"
    by (simp add: S_def r map_record_def)
  have lens: "unat (le_get32 S) = length i" "unat (le_get32 (drop 4 S)) = length d"
    "drop 8 S = i @ d @ map_records recs @ rest" "\<not> length S < 8"
    using ok(2,5) unfolding s by (simp_all add: unat_of_nat)
  have step: "load_records (Suc (length recs)) wanted S loaded m =
      (if wanted = None \<or> id_list_contains (the wanted) i
       then Option.bind (tool_memory_put_source False i d TOOL_MEMORY_DISK m)
              (load_records (length recs) wanted (map_records recs @ rest) (loaded + 1))
       else load_records (length recs) wanted (map_records recs @ rest) loaded m)"
    using ok unfolding load_records.simps(2) Let_def lens
    by (simp add: cstr_id DS4_TOOL_MEMORY_MAX_BYTES_def lens(4))
  have put: "tool_memory_put_source False i d TOOL_MEMORY_DISK m = run_op (put_record r) m"
    using ok by (simp add: tool_memory_put_source_def put_record_def r)
  show ?case
  proof (cases "wanted = None \<or> id_list_contains (the wanted) i")
    case True
    then have w: "wanted_records wanted (r # recs) = r # wanted_records wanted recs" by (simp add: wanted_records_def r)
    have "load_records (length (r # recs)) wanted S loaded m = Option.bind (run_op (put_record r) m)
        (load_records (length recs) wanted (map_records recs @ rest) (loaded + 1))"
      using step True by (simp add: put)
    also have "\<dots> = map_option (\<lambda>m. (loaded + int (length (r # wanted_records wanted recs)), m))
        (Option.bind (run_op (put_record r) m) (run_ops (map put_record (wanted_records wanted recs))))"
      using Cons by (cases "run_op (put_record r) m") (simp_all add: algebra_simps)
    finally show ?thesis unfolding w S_def [symmetric] by simp
  next
    case False
    then have "wanted_records wanted (r # recs) = wanted_records wanted recs" by (simp add: wanted_records_def r)
    with step False Cons show ?thesis unfolding S_def [symmetric] by simp
  qed
qed

lemma kv_tool_map_load_section:
  assumes recs: "\<forall>r \<in> set recs. record_ok r" and count: "int (length recs) \<le> tool_memory_max_entries m * 4" "length recs < 2 ^ 32"
  shows "kv_tool_map_load_from_pos False wanted (map_section recs) m
    = map_option (\<lambda>m. (int (length (wanted_records wanted recs)), m)) (run_ops (map put_record (wanted_records wanted recs)) m)"
proof (cases "recs = []")
  case True
  then show ?thesis by (simp add: map_section_def kv_tool_map_load_from_pos_def wanted_records_def kv_constants)
next
  case False
  let ?s = "map_section recs"
  have s: "?s = (KV_TOOL_MAP_MAGIC @ [KV_TOOL_MAP_VERSION]) @ le_put32 (of_nat (length recs)) @ map_records recs"
    using False by (simp add: map_section_def)
  have len: "length (KV_TOOL_MAP_MAGIC @ [KV_TOOL_MAP_VERSION]) = 4" by (simp add: kv_constants)
  have parts: "take 4 ?s = KV_TOOL_MAP_MAGIC @ [KV_TOOL_MAP_VERSION]" "drop 4 ?s = le_put32 (of_nat (length recs)) @ map_records recs"
    "drop 8 ?s = map_records recs" "\<not> length ?s < 8"
    unfolding s using len by (simp_all add: kv_constants)
  have n: "unat (of_nat (length recs) :: u32) = length recs" using count(2) by (simp add: unat_of_nat)
  have "kv_tool_map_load_from_pos False wanted ?s m = load_records (length recs) wanted (map_records recs @ []) 0 m"
    using count(1) parts n by (simp add: kv_tool_map_load_from_pos_def KV_TOOL_MAP_HEADER_def)
  then show ?thesis unfolding load_records_map [OF recs] by simp
qed

section \<open>Marks survive the operations\<close>

lemma seen_le_same [simp]:
  "seen_le (m\<lparr>tm_heap := h\<rparr>) n = seen_le m n" "seen_le (m\<lparr>tm_by_id := bi\<rparr>) n = seen_le m n"
  "seen_le (m\<lparr>tm_head := p\<rparr>) n = seen_le m n" "seen_le (m\<lparr>tm_tail := p\<rparr>) n = seen_le m n"
  "seen_le (m\<lparr>tm_entries := e\<rparr>) n = seen_le m n" "seen_le (m\<lparr>tm_bytes := b\<rparr>) n = seen_le m n"
  "seen_le (m\<lparr>tm_clock := c\<rparr>) n = seen_le m n" "seen_le (m\<lparr>tm_fresh := a\<rparr>) n = seen_le m n"
  "seen_le (m\<lparr>tm_by_block := bb\<rparr>) n = seen_le m n"
  by (simp_all add: seen_le_def)

lemma keeps_set_entry: "set_entry a f m = Some m' \<Longrightarrow> seen_le m n \<Longrightarrow> seen_le m' n"
  by (auto simp: set_entry_def split: option.splits)

lemma keeps_set_block:
  "set_block b f m = Some m' \<Longrightarrow> (\<And>k. tb_seen (f k) = tb_seen k) \<Longrightarrow> seen_le m n \<Longrightarrow> seen_le m' n"
  by (auto simp: set_block_def seen_le_def split: option.splits if_splits)

lemma keeps_link_head: "tool_memory_link_head a m = Some m' \<Longrightarrow> seen_le m n \<Longrightarrow> seen_le m' n"
  by (auto simp: tool_memory_link_head_def bind_eq_Some_conv dest!: keeps_set_entry [of _ _ _ _ n] split: option.splits if_splits)

lemma keeps_unlink: "tool_memory_unlink a m = Some m' \<Longrightarrow> seen_le m n \<Longrightarrow> seen_le m' n"
  by (auto simp: tool_memory_unlink_def bind_eq_Some_conv dest!: keeps_set_entry [of _ _ _ _ n] split: option.splits if_splits)

lemma keeps_touch: "tool_memory_touch a m = Some m' \<Longrightarrow> seen_le m n \<Longrightarrow> seen_le m' n"
  by (auto simp: tool_memory_touch_def bind_eq_Some_conv split: if_splits
      dest!: keeps_set_entry [of _ _ _ _ n] keeps_unlink [of _ _ _ n] keeps_link_head [of _ _ _ n])

lemma keeps_block_unlink: "tool_block_unlink_entry b a m = Some m' \<Longrightarrow> seen_le m n \<Longrightarrow> seen_le m' n"
  by (auto simp: tool_block_unlink_entry_def bind_eq_Some_conv split: option.splits
      dest!: keeps_set_entry [of _ _ _ _ n] keeps_set_block [of _ _ _ _ n])

lemma keeps_release: "tool_memory_release_block_locked b m = Some m' \<Longrightarrow> seen_le m n \<Longrightarrow> seen_le m' n"
proof -
  assume r: "tool_memory_release_block_locked b m = Some m'" and le: "seen_le m n"
  from r obtain m1 k where 1: "set_block b (\<lambda>k. k\<lparr>tb_refs := tb_refs k - 1\<rparr>) m = Some m1" "tm_blocks m1 b = Some k"
    "m' = m1 \<or> m' = m1\<lparr>tm_by_block := (tm_by_block m1)(tb_dsml k := None), tm_bytes := tm_bytes m1 - tb_bytes k,
        tm_blocks := (tm_blocks m1)(b := None)\<rparr>"
    by (auto simp: tool_memory_release_block_locked_def bind_eq_Some_conv split: if_splits)
  have "seen_le m1 n" using keeps_set_block [OF 1(1) _ le] by simp
  with 1(3) show ?thesis by (auto simp: seen_le_def split: if_splits)
qed

lemma keeps_remove: "tool_memory_remove_entry_locked a m = Some m' \<Longrightarrow> seen_le m n \<Longrightarrow> seen_le m' n"
  by (auto simp: tool_memory_remove_entry_locked_def bind_eq_Some_conv
      dest!: keeps_unlink [of _ _ _ n] keeps_block_unlink [of _ _ _ _ n] keeps_release [of _ _ _ n])

lemma keeps_prune:
  assumes "tool_memory_prune_locked m = Some m'"
  shows "seen_le m n \<longrightarrow> seen_le m' n"
proof (rule tool_memory_prune_locked.raw_induct [OF _ assms, of "\<lambda>m m'. seen_le m n \<longrightarrow> seen_le m' n"], intro impI)
  fix prune m m'
  assume IH: "\<And>m m'. prune m = Some m' \<Longrightarrow> seen_le m n \<longrightarrow> seen_le m' n" and le: "seen_le m n"
    and body: "(case tm_tail m of None \<Rightarrow> Some m
      | Some a \<Rightarrow> if over_limit m then Option.bind (tool_memory_remove_entry_locked a m) prune else Some m) = Some m'"
  show "seen_le m' n"
  proof (cases "tm_tail m = None \<or> \<not> over_limit m")
    case True
    with body le show ?thesis by (auto split: option.splits)
  next
    case False
    with body obtain a m1 where "tool_memory_remove_entry_locked a m = Some m1" "prune m1 = Some m'"
      by (auto simp: bind_eq_Some_conv split: option.splits)
    with IH keeps_remove le show ?thesis by blast
  qed
qed

lemma keeps_insert: "insert_new_entry i d s m = Some m' \<Longrightarrow> seen_le m n \<Longrightarrow> seen_le m' n"
proof -
  assume r: "insert_new_entry i d s m = Some m'" and le: "seen_le m n"
  have get: "seen_le m1 n" if "tool_memory_get_block_locked d m = Some (b, m1)" for b m1
    using that le by (auto simp: tool_memory_get_block_locked_def Let_def seen_le_def split: option.splits if_splits)
  from r obtain b m1 where "tool_memory_get_block_locked d m = Some (b, m1)"
    by (auto simp: insert_new_entry_def bind_eq_Some_conv)
  with r get [OF this] show ?thesis
    by (auto simp: insert_new_entry_def bind_eq_Some_conv Let_def split: if_splits
        dest!: keeps_set_block [of _ _ _ _ n] keeps_link_head [of _ _ _ n])
qed

lemma keeps_put: "tool_memory_put_locked i d s m = Some m' \<Longrightarrow> seen_le m n \<Longrightarrow> seen_le m' n"
proof -
  assume r: "tool_memory_put_locked i d s m = Some m'" and le: "seen_le m n"
  have prune: "tool_memory_prune_locked m1 = Some m' \<Longrightarrow> seen_le m1 n \<Longrightarrow> seen_le m' n" for m1 using keeps_prune by blast
  show ?thesis
    using r le unfolding tool_memory_put_locked_def
    by (auto simp: bind_eq_Some_conv split: if_splits option.splits
        dest!: keeps_insert [of _ _ _ _ _ n] keeps_touch [of _ _ _ n] keeps_remove [of _ _ _ n] keeps_set_entry [of _ _ _ _ n]
        dest: prune)
qed

lemma keeps_run_ops: "run_ops opers m = Some m' \<Longrightarrow> seen_le m n \<Longrightarrow> seen_le m' n"
proof (induction opers arbitrary: m)
  case (Cons oper opers)
  from Cons.prems(1) obtain m1 where m1: "run_op oper m = Some m1" "run_ops opers m1 = Some m'" by (auto simp: bind_eq_Some_conv)
  have "seen_le m1 n"
  proof (cases oper)
    case (Op_put i d s)
    with m1(1) Cons.prems(2) keeps_put show ?thesis by simp
  next
    case (Op_lookup i)
    with m1(1) Cons.prems(2) show ?thesis
      by (auto simp: tool_memory_lookup_locked_def bind_eq_Some_conv split: option.splits dest!: keeps_touch [of _ _ _ n])
  qed
  with Cons.IH [OF m1(2)] show ?case .
qed simp

lemma history_clock_ok:
  assumes "run_ops opers (memory_start maxn maxb) = Some m"
  shows "clock_ok m \<and> (\<exists>xs. memory_ok m xs \<and> recent m xs = lru_ops (tool_memory_max_entries (memory_start maxn maxb))
      (tool_memory_max_bytes (memory_start maxn maxb)) opers [])"
proof -
  let ?m0 = "memory_start maxn maxb"
  have "seen_le ?m0 0" "tm_scan_clock ?m0 = 0" by (simp_all add: seen_le_def memory_start_def tool_memory_zero_def)
  moreover from implementsD [OF run_ops_implements memory_start_ok [of maxn maxb], of opers] obtain xs where
    "memory_ok m xs" "same_config ?m0 m" "recent m xs = lru_ops (tool_memory_max_entries ?m0) (tool_memory_max_bytes ?m0) opers []"
    using assms by (metis option.inject recent_start)
  ultimately show ?thesis using keeps_run_ops [OF assms, of 0] by (auto simp: clock_ok_def same_config_def)
qed

section \<open>Properties\<close>

text \<open>What the memory must look like for its ids to survive the reader's limits.\<close>

definition ids_short :: "lru \<Rightarrow> bool" where
  "ids_short l \<longleftrightarrow> (\<forall>(i, d, s) \<in> set l. i \<noteq> [] \<and> length i \<le> 256 \<and> 0 \<notin> set i \<and> length d \<le> DS4_TOOL_MEMORY_MAX_BYTES)"

lemma saved_records_read:
  assumes ok: "memory_ok m xs" and ids: "ids_short (recent m xs)" and r: "r \<in> set (saved_records m tx)"
  shows "record_ok r"
proof -
  obtain i d where id: "r = (i, d)" by (cases r)
  from r obtain s where d: "d \<in> set (dsml_blocks (cstr tx))" "(i, d, s) \<in> set (recent m xs)"
    unfolding saved_records_def scan_records_set [OF ok dsml_blocks_nonempty] id by blast
  have "0 \<notin> set d" using dsml_blocks_bytes [OF d(1)] cstr_no_zero [of tx] by blast
  moreover have "d \<noteq> []" using d(1) dsml_blocks_nonempty by metis
  ultimately show ?thesis using ids d(2) by (auto simp: ids_short_def record_ok_def id)
qed

lemma ids_short_fits: "ids_short l \<Longrightarrow> fits32 l"
  by (force simp: ids_short_def fits32_def DS4_TOOL_MEMORY_MAX_BYTES_def)

text \<open>Claim C23.  The tool map of a cache file: writing it for a text reports success exactly when the
  device has room, leaves the memory as it was, and what it wrote, read by another server, puts there
  every remembered id whose markup the text holds, with its markup, and nothing else.\<close>

theorem tool_map_roundtrip:
  assumes ok: "memory_ok m xs" "clock_ok m" "ids_short (recent m xs)" "length xs < 2 ^ 32"
    and other: "memory_ok m0 ys" "int (length xs) \<le> tool_memory_max_entries m0 * 4"
  shows "\<exists>recs section okw n fp m' m0' zs.
      kv_tool_map_write False tx (d, room) m = Some (okw, n, fp, m') \<and> memory_ok m' xs \<and> recent m' xs = recent m xs
    \<and> okw = (length section \<le> room) \<and> (okw \<longrightarrow> fst fp = d @ section)
    \<and> distinct (map fst recs)
    \<and> set recs = {(i, blk). blk \<in> set (dsml_blocks (cstr tx)) \<and> (\<exists>s. (i, blk, s) \<in> set (recent m xs))}
    \<and> kv_tool_map_load_from_pos False None section m0 = Some (int (length recs), m0') \<and> memory_ok m0' zs
    \<and> recent m0' zs = lru_ops (tool_memory_max_entries m0) (tool_memory_max_bytes m0)
          (map (\<lambda>(i, blk). Op_put i blk TOOL_MEMORY_DISK) recs) (recent m0 ys)"
proof -
  let ?recs = "saved_records m tx"
  note ne = dsml_blocks_nonempty [of "cstr tx"]
  obtain okw n fp m' where w: "kv_tool_map_write False tx (d, room) m = Some (okw, n, fp, m')"
    "okw = (length (map_section ?recs) \<le> room)" "okw \<Longrightarrow> fst fp = d @ map_section ?recs"
    "memory_ok m' xs" "recent m' xs = recent m xs"
    using kv_tool_map_write_ok [OF ok(1) ids_short_fits [OF ok(3)] ok(2,4), of tx d room] by (metis fst_conv)
  have n: "length ?recs \<le> length xs" using ok(1) by (rule saved_records_bound)
  have all: "wanted_records None ?recs = ?recs" by (simp add: wanted_records_def)
  from implementsD [OF run_ops_implements other(1)] obtain m0' zs where l: "run_ops (map put_record ?recs) m0 = Some m0'"
    "memory_ok m0' zs" "recent m0' zs = lru_ops (tool_memory_max_entries m0) (tool_memory_max_bytes m0)
        (map put_record ?recs) (recent m0 ys)" .
  have "kv_tool_map_load_from_pos False None (map_section ?recs) m0 = Some (int (length ?recs), m0')"
    using kv_tool_map_load_section [of ?recs m0 None] saved_records_read [OF ok(1,3)] n ok(4) other(2) l(1) by (simp add: all)
  moreover have put: "put_record = (\<lambda>(i, blk). Op_put i blk TOOL_MEMORY_DISK)" by (rule ext) (simp add: put_record_def split: prod.split)
  ultimately show ?thesis
    using w l(2,3) [unfolded put] scan_records_ids [OF ok(1) ne, of "{}"] scan_records_set [OF ok(1) ne]
    by (intro exI [of _ ?recs] exI [of _ "map_section ?recs"] exI [of _ okw] exI [of _ n] exI [of _ fp] exI [of _ m']
        exI [of _ m0'] exI [of _ zs]) (simp add: saved_records_def)
qed

definition replay_text_sample :: "byte list" where
  "replay_text_sample = ascii ''x<tool_calls>y</tool_calls>z''"

theorem tool_map_roundtrip_witness:
  "\<exists>m xs. run_ops [Op_put (ascii ''a'') (ascii ''<tool_calls>y</tool_calls>'') TOOL_MEMORY_RAM] (memory_start 0 0) = Some m
    \<and> (\<exists>recs section okw n fp m' m0' zs.
      kv_tool_map_write False replay_text_sample ([], 100) m = Some (okw, n, fp, m') \<and> memory_ok m' xs \<and> recent m' xs = recent m xs
    \<and> okw = (length section \<le> 100) \<and> (okw \<longrightarrow> fst fp = [] @ section)
    \<and> distinct (map fst recs)
    \<and> set recs = {(i, blk). blk \<in> set (dsml_blocks (cstr replay_text_sample)) \<and> (\<exists>s. (i, blk, s) \<in> set (recent m xs))}
    \<and> kv_tool_map_load_from_pos False None section (memory_start 0 0) = Some (int (length recs), m0') \<and> memory_ok m0' zs
    \<and> recent m0' zs = lru_ops (tool_memory_max_entries (memory_start 0 0)) (tool_memory_max_bytes (memory_start 0 0))
          (map (\<lambda>(i, blk). Op_put i blk TOOL_MEMORY_DISK) recs) (recent (memory_start 0 0) []))"
proof -
  let ?ops = "[Op_put (ascii ''a'') (ascii ''<tool_calls>y</tool_calls>'') TOOL_MEMORY_RAM]"
  have lim: "tool_memory_max_entries (memory_start 0 0) = 100000" "tool_memory_max_bytes (memory_start 0 0) = 512 * 1024 * 1024"
    by (simp_all add: memory_start_def tool_memory_zero_def tool_memory_max_entries_def tool_memory_max_bytes_def
        DS4_TOOL_MEMORY_DEFAULT_MAX_IDS_def DS4_TOOL_MEMORY_MAX_BYTES_def)
  have run: "lru_ops 100000 (512 * 1024 * 1024) ?ops [] = [(ascii ''a'', ascii ''<tool_calls>y</tool_calls>'', TOOL_MEMORY_RAM)]"
    by (simp add: lru_ops_def lru_put_def lru_find_def lru_without_def lru_prune.simps lru_over_def lru_bytes_def
        sizeof_entry_def sizeof_block_def ascii_def)
  from implementsD [OF run_ops_implements memory_start_ok [of 0 0], of ?ops] obtain m where m: "run_ops ?ops (memory_start 0 0) = Some m" .
  from history_clock_ok [OF m] obtain xs where xs: "clock_ok m" "memory_ok m xs"
    "recent m xs = [(ascii ''a'', ascii ''<tool_calls>y</tool_calls>'', TOOL_MEMORY_RAM)]" unfolding lim run by blast
  have "length xs = 1" using arg_cong [OF xs(3), of length] by (simp add: recent_def)
  moreover have "ids_short (recent m xs)" unfolding xs(3) by (simp add: ids_short_def ascii_def DS4_TOOL_MEMORY_MAX_BYTES_def)
  moreover have "memory_ok (memory_start 0 0) []" by (rule memory_start_ok)
  ultimately show ?thesis
    by (intro exI [of _ m] exI [of _ xs] conjI m tool_map_roundtrip xs(1,2)) (simp_all add: lim)
qed

text \<open>Claim C24.  No wrap-around: an entry the scan of the directory accepts lies inside its file.  Its header,
  text and payload, added as naturals, are within the bytes that are there, whatever lengths the header claims.\<close>

theorem kv_entry_inside_file:
  assumes "length s < 2 ^ 64" "kv_read_entry_file (Some s) path sha = Some e"
  shows "KV_CACHE_FIXED_HEADER + 4 + unat (kve_text_bytes e) + unat (kve_payload_bytes e) \<le> length s
    \<and> unat (kve_file_size e) = length s \<and> kve_tokens e \<noteq> 0 \<and> (kve_quant_bits e = 2 \<or> kve_quant_bits e = 4)
    \<and> kve_reason e \<le> KV_REASON_SHUTDOWN \<and> kve_sha e = sha \<and> kve_path e = path"
proof -
  from assms(2) obtain h tb rest where h: "kv_read_header s = Some (h, tb, rest)"
    and fit: "\<not> (- 1 - 52 < (ucast tb :: u64) \<or> - 1 - 52 - ucast tb < kve_payload_bytes h)"
      "\<not> (of_nat (length s) :: u64) < 52 + ucast tb + kve_payload_bytes h"
    and e: "e = h\<lparr>kve_sha := sha, kve_path := path, kve_file_size := of_nat (length s)\<rparr>"
    by (auto simp: kv_read_entry_file_def KV_CACHE_FIXED_HEADER_def Let_def split: option.splits if_splits)
  have tb: "kve_text_bytes h = ucast tb" "kve_tokens h \<noteq> 0" "kve_quant_bits h = 2 \<or> kve_quant_bits h = 4"
    "kve_reason h \<le> KV_REASON_SHUTDOWN"
    using h by (auto simp: kv_read_header_def Let_def kv_constants split: if_splits)
  have len: "unat (of_nat (length s) :: u64) = length s" using assms(1) by (simp add: unat_of_nat)
  have m1: "unat (- 1 - 52 :: u64) = 2 ^ 64 - 1 - 52" by simp
  have t: "unat (ucast tb :: u64) \<le> 2 ^ 64 - 1 - 52" using fit(1) m1 by (simp add: word_less_nat_alt)
  have s1: "unat (52 + ucast tb :: u64) = 52 + unat (ucast tb :: u64)"
    using unat_add_no_wrap [of "52 :: u64" "ucast tb"] t by simp
  have "unat (- 1 - 52 - ucast tb :: u64) = 2 ^ 64 - 1 - 52 - unat (ucast tb :: u64)"
    using unat_sub_le [of "ucast tb" "- 1 - 52 :: u64"] t m1 by (simp add: word_le_nat_alt)
  then have p: "unat (kve_payload_bytes h) \<le> 2 ^ 64 - 1 - 52 - unat (ucast tb :: u64)" using fit(1) by (simp add: word_less_nat_alt)
  have "unat (52 + ucast tb + kve_payload_bytes h) = 52 + unat (ucast tb :: u64) + unat (kve_payload_bytes h)"
    using unat_add_no_wrap [of "52 + ucast tb" "kve_payload_bytes h"] p t s1 by simp
  then have "52 + unat (ucast tb :: u64) + unat (kve_payload_bytes h) \<le> length s" using fit(2) len by (simp add: word_less_nat_alt)
  then show ?thesis using tb len by (simp add: e KV_CACHE_FIXED_HEADER_def)
qed

definition entry_file_sample :: "byte list" where
  "entry_file_sample = kv_fill_header 2 KV_REASON_COLD 0 600 0 4096 1 1 3 @ le_put32 2 @ ascii ''hi'' @ [1, 2, 3]"

theorem kv_entry_inside_file_witness:
  "\<exists>e. kv_read_entry_file (Some entry_file_sample) [] [] = Some e
     \<and> KV_CACHE_FIXED_HEADER + 4 + unat (kve_text_bytes e) + unat (kve_payload_bytes e) \<le> length entry_file_sample
     \<and> unat (kve_file_size e) = length entry_file_sample \<and> kve_tokens e \<noteq> 0 \<and> (kve_quant_bits e = 2 \<or> kve_quant_bits e = 4)
     \<and> kve_reason e \<le> KV_REASON_SHUTDOWN \<and> kve_sha e = [] \<and> kve_path e = []"
proof -
  have len: "length entry_file_sample = 57" by (simp add: entry_file_sample_def KV_CACHE_FIXED_HEADER_def)
  have "\<exists>e. kv_read_entry_file (Some entry_file_sample) [] [] = Some e"
    unfolding kv_read_entry_file_def entry_file_sample_def
    by (simp add: kv_read_fill_header kv_constants)
  then obtain e where e: "kv_read_entry_file (Some entry_file_sample) [] [] = Some e" ..
  with kv_entry_inside_file [OF _ e] len show ?thesis by auto
qed

end
