(* ===== verification/Ds4_Payload.thy ===== *)
theory Ds4_Payload
  imports Ds4_KvFile Ds4_Weights
begin

text \<open>
  The checkpoint of a session, \<^verbatim>\<open>src/core/ds4_session.inc\<close>: \<^verbatim>\<open>payload_put_u32\<close> to
  \<^verbatim>\<open>ds4_session_load_payload\<close>, with the cache records and \<^verbatim>\<open>kv_cache_init\<close> of
  \<^verbatim>\<open>src/core/ds4_cpu.inc\<close> and the row accessors of \<^verbatim>\<open>src/core/ds4_gpu.inc\<close>.

  A float array and a device tensor are the list of their bytes.  A write past the end of a host
  buffer is the outcome \<open>Overflow\<close>; a device copy outside its tensor is refused by the code and fails.
  Device copies within bounds and the synchronisation before a save succeed.  The two kernels that pack and unpack compressed rows are
  the parameter \<open>turbo_kernels\<close>: they turn rows of floats into packed bytes and back.

  The lemmas show that a saved checkpoint has exactly the announced size and is restored into any
  session of the same layout, whatever the size of its ring, plain or packed (a packed target must reproduce the rows
  it is handed, \<open>keeps_rows\<close>), exactly when a save fails, and where the two backends differ when a load fails.
\<close>

section \<open>State\<close>

definition f32_size :: nat where "f32_size = 4"
definition head_bytes :: nat where "head_bytes = unat DS4_N_HEAD_DIM * f32_size"
definition index_bytes :: nat where "index_bytes = unat DS4_N_INDEXER_HEAD_DIM * f32_size"
definition logits_bytes :: nat where "logits_bytes = unat DS4_N_VOCAB * f32_size"

record ds4_layer_cache =
  lc_raw_kv :: "byte list"
  lc_n_raw :: u32
  lc_cap_raw :: u32
  lc_compress_ratio :: u32
  lc_comp_cap :: u32
  lc_n_comp :: u32
  lc_attn_comp_kv :: "byte list"
  lc_attn_state_kv :: "byte list"
  lc_attn_state_score :: "byte list"
  lc_n_index_comp :: u32
  lc_index_comp_kv :: "byte list"
  lc_index_state_kv :: "byte list"
  lc_index_state_score :: "byte list"

record gpu_layer =
  gl_n_comp :: u32
  gl_n_index_comp :: u32
  gl_comp_cap :: u32
  gl_raw_cache :: "byte list"
  gl_attn_comp_cache :: "byte list"
  gl_attn_comp_tq_cache :: "byte list"
  gl_attn_state_kv :: "byte list"
  gl_attn_state_score :: "byte list"
  gl_index_comp_cache :: "byte list"
  gl_index_comp_tq_cache :: "byte list"
  gl_index_state_kv :: "byte list"
  gl_index_state_score :: "byte list"

record ds4_gpu_graph =
  gg_raw_cap :: u32
  gg_raw_window :: u32
  gg_comp_cap :: u32
  gg_mtp_n_raw :: u32
  gg_turbo_packv4 :: bool
  gg_attn_comp_unpack_cache :: "byte list"
  gg_index_comp_unpack_cache :: "byte list"
  gg_layer :: "gpu_layer list"

record ds4_session =
  se_cpu :: bool
  se_graph :: ds4_gpu_graph
  se_cpu_cache :: "ds4_layer_cache list"
  se_checkpoint :: "u32 list"
  se_logits :: "byte list"
  se_prefill_cap :: u32
  se_ctx_size :: u32
  se_checkpoint_valid :: bool
  se_mtp_draft_valid :: bool

text \<open>The kernels: the head dimension in bytes, then the rows; the packed rows or a failed launch.  For unpacking
  the number of rows and the packed cache.\<close>

record turbo_kernels =
  tk_pack :: "nat \<Rightarrow> byte list \<Rightarrow> byte list option"
  tk_unpack :: "nat \<Rightarrow> nat \<Rightarrow> byte list \<Rightarrow> byte list option"

definition ds4_default_raw_cap :: "u32 \<Rightarrow> u32" where
  "ds4_default_raw_cap ctx_size =
     (let raw_cap = ucast DS4_N_SWA;
          raw_cap = (if raw_cap > ctx_size then ctx_size else raw_cap)
      in if raw_cap = 0 then 1 else raw_cap)"

definition coff :: "u32 \<Rightarrow> u64" where
  "coff ratio = (if ratio = 4 then 2 else 1)"

definition layer_attn_state_bytes :: "u32 \<Rightarrow> nat" where
  "layer_attn_state_bytes ratio = unat (coff ratio * DS4_N_HEAD_DIM * coff ratio * ucast ratio * 4)"

definition layer_index_state_bytes :: "u32 \<Rightarrow> nat" where
  "layer_index_state_bytes ratio = unat (coff ratio * DS4_N_INDEXER_HEAD_DIM * coff ratio * ucast ratio * 4)"

text \<open>The bytes of \<open>-1.0e30f\<close>.\<close>

definition ds4_neg_inf :: "byte list" where
  "ds4_neg_inf = [0xca, 0xf2, 0x49, 0xf1]"

definition neg_inf_floats :: "nat \<Rightarrow> byte list" where
  "neg_inf_floats bytes = concat (replicate (bytes div f32_size) ds4_neg_inf)"

definition layer_cache_init :: "u32 \<Rightarrow> u32 \<Rightarrow> u32 \<Rightarrow> ds4_layer_cache" where
  "layer_cache_init ctx_size raw_cap ratio =
     (let comp_cap = ctx_size div ratio + 2
      in \<lparr>lc_raw_kv = replicate (unat raw_cap * head_bytes) 0, lc_n_raw = 0, lc_cap_raw = raw_cap, lc_compress_ratio = ratio,
          lc_comp_cap = (if ratio \<noteq> 0 then comp_cap else 0), lc_n_comp = 0,
          lc_attn_comp_kv = (if ratio \<noteq> 0 then replicate (unat comp_cap * head_bytes) 0 else []),
          lc_attn_state_kv = (if ratio \<noteq> 0 then replicate (layer_attn_state_bytes ratio) 0 else []),
          lc_attn_state_score = (if ratio \<noteq> 0 then neg_inf_floats (layer_attn_state_bytes ratio) else []),
          lc_n_index_comp = 0,
          lc_index_comp_kv = (if ratio = 4 then replicate (unat comp_cap * index_bytes) 0 else []),
          lc_index_state_kv = (if ratio = 4 then replicate (layer_index_state_bytes ratio) 0 else []),
          lc_index_state_score = (if ratio = 4 then neg_inf_floats (layer_index_state_bytes ratio) else [])\<rparr>)"

definition kv_cache_init :: "u32 \<Rightarrow> u32 \<Rightarrow> ds4_layer_cache list" where
  "kv_cache_init ctx_size raw_cap =
     (let raw_cap = (if raw_cap = 0 then ds4_default_raw_cap ctx_size else raw_cap);
          raw_cap = (if raw_cap > ctx_size then ctx_size else raw_cap);
          raw_cap = (if raw_cap = 0 then 1 else raw_cap)
      in map (\<lambda>il. layer_cache_init ctx_size raw_cap (layer_ratio il)) [0..<DS4_N_LAYER])"

section \<open>Writing\<close>

text \<open>A run of writes: the chunks in order, and whether it got to its end.\<close>

type_synonym writes = "byte list list \<times> bool"

definition payload_put_u32 :: "u32 \<Rightarrow> byte list" where
  "payload_put_u32 v = [ucast v, ucast (drop_bit 8 v), ucast (drop_bit 16 v), ucast (drop_bit 24 v)]"

definition write_bytes :: "byte list \<Rightarrow> nat \<Rightarrow> writes" where
  "write_bytes p bytes = (if bytes = 0 then [] else [take bytes p], True)"

definition write_u32s :: "u32 list \<Rightarrow> writes" where
  "write_u32s vs = (map payload_put_u32 vs, True)"

fun then_writes :: "writes \<Rightarrow> writes \<Rightarrow> writes" where
  "then_writes (a, ok) w = (if ok then (a @ fst w, snd w) else (a, False))"

definition all_writes :: "writes list \<Rightarrow> writes" where
  "all_writes ws = foldr then_writes ws ([], True)"

definition DS4_SESSION_IO_CHUNK :: nat where "DS4_SESSION_IO_CHUNK = 8 * 1024 * 1024"

text \<open>The copy loop of a span: \<open>bytes\<close> are left, from \<open>offset\<close> on.\<close>

function span_chunks :: "byte list \<Rightarrow> nat \<Rightarrow> nat \<Rightarrow> byte list list" where
  "span_chunks tensor offset bytes =
     (if bytes = 0 then []
      else let n = (if bytes > DS4_SESSION_IO_CHUNK then DS4_SESSION_IO_CHUNK else bytes)
           in take n (drop offset tensor) # span_chunks tensor (offset + n) (bytes - n))"
  by pat_completeness auto
termination by (relation "measure (\<lambda>(t, off, b). b)") (auto simp: DS4_SESSION_IO_CHUNK_def)

declare span_chunks.simps [simp del]

definition payload_write_tensor_span :: "byte list option \<Rightarrow> nat \<Rightarrow> nat \<Rightarrow> writes" where
  "payload_write_tensor_span tensor offset bytes =
     (case tensor of
        None \<Rightarrow> ([], False)
      | Some t \<Rightarrow> if offset > length t \<or> bytes > length t - offset then ([], False) else (span_chunks t offset bytes, True))"

definition session_raw_live_rows :: "ds4_gpu_graph \<Rightarrow> u32 \<Rightarrow> u32" where
  "session_raw_live_rows g checkpoint_len =
     (let rows = (if gg_raw_window g \<noteq> 0 then gg_raw_window g else ucast DS4_N_SWA);
          rows = (if rows > gg_raw_cap g then gg_raw_cap g else rows)
      in if rows > checkpoint_len then checkpoint_len else rows)"

definition session_cpu_raw_live_rows :: "ds4_session \<Rightarrow> u32" where
  "session_cpu_raw_live_rows s =
     (if \<not> se_checkpoint_valid s then 0
      else let rows = ds4_default_raw_cap (se_ctx_size s); n = of_nat (length (se_checkpoint s))
           in if rows > n then n else rows)"

definition session_cpu_comp_cap :: "ds4_session \<Rightarrow> u32" where
  "session_cpu_comp_cap s =
     (case find (\<lambda>l. lc_compress_ratio l = 4) (se_cpu_cache s) of
        Some l \<Rightarrow> lc_comp_cap l
      | None \<Rightarrow>
          (case find (\<lambda>l. lc_compress_ratio l \<noteq> 0) (se_cpu_cache s) of
             Some l \<Rightarrow> lc_comp_cap l
           | None \<Rightarrow> se_ctx_size s))"

definition gpu_graph_attn_comp_cache_for_read :: "turbo_kernels \<Rightarrow> ds4_gpu_graph \<Rightarrow> nat \<Rightarrow> u32 \<Rightarrow> byte list option" where
  "gpu_graph_attn_comp_cache_for_read k g il n_comp =
     (if il \<ge> DS4_N_LAYER \<or> n_comp = 0 then None
      else let l = gg_layer g ! il in
        if \<not> gg_turbo_packv4 g then Some (gl_attn_comp_cache l)
        else if n_comp > gl_comp_cap l \<or> n_comp > gg_comp_cap g then None
        else map_option (\<lambda>rows. rows @ drop (length rows) (gg_attn_comp_unpack_cache g))
               (tk_unpack k head_bytes (unat n_comp) (gl_attn_comp_tq_cache l)))"

definition gpu_graph_index_comp_cache_for_read :: "turbo_kernels \<Rightarrow> ds4_gpu_graph \<Rightarrow> nat \<Rightarrow> u32 \<Rightarrow> byte list option" where
  "gpu_graph_index_comp_cache_for_read k g il n_comp =
     (if il \<ge> DS4_N_LAYER \<or> n_comp = 0 then None
      else let l = gg_layer g ! il in
        if \<not> gg_turbo_packv4 g then Some (gl_index_comp_cache l)
        else if n_comp > gl_comp_cap l \<or> n_comp > gg_comp_cap g then None
        else map_option (\<lambda>rows. rows @ drop (length rows) (gg_index_comp_unpack_cache g))
               (tk_unpack k index_bytes (unat n_comp) (gl_index_comp_tq_cache l)))"

definition DS4_SESSION_PAYLOAD_MAGIC :: u32 where "DS4_SESSION_PAYLOAD_MAGIC = 0x34565344"
definition DS4_SESSION_PAYLOAD_VERSION :: u32 where "DS4_SESSION_PAYLOAD_VERSION = 1"
definition DS4_SESSION_PAYLOAD_U32_FIELDS :: nat where "DS4_SESSION_PAYLOAD_U32_FIELDS = 13"

definition cpu_header :: "ds4_session \<Rightarrow> u32 list" where
  "cpu_header s =
     (let raw_cap = ds4_default_raw_cap (se_ctx_size s)
      in [DS4_SESSION_PAYLOAD_MAGIC, DS4_SESSION_PAYLOAD_VERSION, se_ctx_size s, se_prefill_cap s, raw_cap, raw_cap,
          session_cpu_comp_cap s, of_nat (length (se_checkpoint s)), of_nat DS4_N_LAYER, ucast DS4_N_HEAD_DIM,
          ucast DS4_N_INDEXER_HEAD_DIM, ucast DS4_N_VOCAB, session_cpu_raw_live_rows s])"

definition gpu_header :: "ds4_session \<Rightarrow> u32 list" where
  "gpu_header s =
     (let g = se_graph s; n = of_nat (length (se_checkpoint s))
      in [DS4_SESSION_PAYLOAD_MAGIC, DS4_SESSION_PAYLOAD_VERSION, se_ctx_size s, se_prefill_cap s, gg_raw_cap g, gg_raw_window g,
          gg_comp_cap g, n, of_nat DS4_N_LAYER, ucast DS4_N_HEAD_DIM,
          ucast DS4_N_INDEXER_HEAD_DIM, ucast DS4_N_VOCAB, session_raw_live_rows g n])"

definition save_layer_cpu :: "u32 \<Rightarrow> ds4_layer_cache \<Rightarrow> writes" where
  "save_layer_cpu raw_live l =
     (let ratio = lc_compress_ratio l in
      if raw_live > lc_n_raw l then ([], False)
      else all_writes (
        [write_bytes (drop (unat (lc_n_raw l - raw_live) * head_bytes) (lc_raw_kv l)) (unat raw_live * head_bytes)]
        @ (if ratio = 0 then []
           else [write_bytes (lc_attn_comp_kv l) (unat (lc_n_comp l) * head_bytes),
                 write_bytes (lc_attn_state_kv l) (layer_attn_state_bytes ratio),
                 write_bytes (lc_attn_state_score l) (layer_attn_state_bytes ratio)]
              @ (if ratio = 4
                 then [write_bytes (lc_index_comp_kv l) (unat (lc_n_index_comp l) * index_bytes),
                       write_bytes (lc_index_state_kv l) (layer_index_state_bytes ratio),
                       write_bytes (lc_index_state_score l) (layer_index_state_bytes ratio)]
                 else []))))"

definition save_payload_cpu :: "ds4_session \<Rightarrow> writes" where
  "save_payload_cpu s =
     all_writes ([write_u32s (cpu_header s), write_u32s (se_checkpoint s), write_bytes (se_logits s) logits_bytes,
        write_u32s (map lc_n_comp (se_cpu_cache s)), write_u32s (map lc_n_index_comp (se_cpu_cache s))]
      @ map (save_layer_cpu (session_cpu_raw_live_rows s)) (se_cpu_cache s))"

text \<open>The raw rows in the order of their positions, wherever the ring holds them.\<close>

definition save_raw_row :: "ds4_gpu_graph \<Rightarrow> nat \<Rightarrow> u32 \<Rightarrow> u32 \<Rightarrow> writes" where
  "save_raw_row g il raw_first r =
     payload_write_tensor_span (Some (gl_raw_cache (gg_layer g ! il))) (unat ((raw_first + r) mod gg_raw_cap g) * head_bytes) head_bytes"

definition save_layer_gpu :: "turbo_kernels \<Rightarrow> ds4_gpu_graph \<Rightarrow> u32 \<Rightarrow> u32 \<Rightarrow> nat \<Rightarrow> writes" where
  "save_layer_gpu k g n raw_live il =
     (let ratio = layer_ratio il; l = gg_layer g ! il
      in all_writes (
        map (\<lambda>r. save_raw_row g il (n - raw_live) (of_nat r)) [0..<unat raw_live]
        @ (if ratio = 0 then []
           else (let attn_comp_bytes = unat (gl_n_comp l) * head_bytes in
                 if attn_comp_bytes = 0 then []
                 else [payload_write_tensor_span (gpu_graph_attn_comp_cache_for_read k g il (gl_n_comp l)) 0 attn_comp_bytes])
              @ [payload_write_tensor_span (Some (gl_attn_state_kv l)) 0 (layer_attn_state_bytes ratio),
                 payload_write_tensor_span (Some (gl_attn_state_score l)) 0 (layer_attn_state_bytes ratio)]
              @ (if ratio = 4
                 then [payload_write_tensor_span (gpu_graph_index_comp_cache_for_read k g il (gl_n_index_comp l)) 0
                         (unat (gl_n_index_comp l) * index_bytes),
                       payload_write_tensor_span (Some (gl_index_state_kv l)) 0 (layer_index_state_bytes ratio),
                       payload_write_tensor_span (Some (gl_index_state_score l)) 0 (layer_index_state_bytes ratio)]
                 else []))))"

definition save_payload_gpu :: "turbo_kernels \<Rightarrow> ds4_session \<Rightarrow> writes" where
  "save_payload_gpu k s =
     (let g = se_graph s; n = of_nat (length (se_checkpoint s)); raw_live = session_raw_live_rows g n
      in all_writes ([write_u32s (gpu_header s), write_u32s (se_checkpoint s), write_bytes (se_logits s) logits_bytes,
           write_u32s (map gl_n_comp (gg_layer g)), write_u32s (map gl_n_index_comp (gg_layer g))]
         @ map (save_layer_gpu k g n raw_live) [0..<DS4_N_LAYER]))"

definition save_payload :: "turbo_kernels \<Rightarrow> ds4_session \<Rightarrow> writes" where
  "save_payload k s =
     (if \<not> se_checkpoint_valid s then ([], False)
      else if se_cpu s then save_payload_cpu s else save_payload_gpu k s)"

text \<open>Success, and the file.\<close>

definition ds4_session_save_payload :: "turbo_kernels \<Rightarrow> ds4_session \<Rightarrow> out_file \<Rightarrow> bool \<times> out_file" where
  "ds4_session_save_payload k s fp =
     (case save_payload k s of (chunks, complete) \<Rightarrow>
        (case fwrites chunks fp of (ok, fp') \<Rightarrow> (ok \<and> complete, fp')))"

text \<open>The announced size.\<close>

definition layer_payload_bytes :: "u32 \<Rightarrow> u32 \<Rightarrow> u32 \<Rightarrow> u32 \<Rightarrow> u64" where
  "layer_payload_bytes raw_live ratio n_comp n_index_comp =
     ucast raw_live * DS4_N_HEAD_DIM * 4
     + (if ratio = 0 then 0
        else ucast n_comp * DS4_N_HEAD_DIM * 4 + of_nat (layer_attn_state_bytes ratio) + of_nat (layer_attn_state_bytes ratio)
          + (if ratio = 4
             then ucast n_index_comp * DS4_N_INDEXER_HEAD_DIM * 4 + of_nat (layer_index_state_bytes ratio)
               + of_nat (layer_index_state_bytes ratio)
             else 0))"

definition session_payload_live_tensor_bytes :: "ds4_gpu_graph \<Rightarrow> u32 \<Rightarrow> u64" where
  "session_payload_live_tensor_bytes g n =
     (\<Sum>il\<leftarrow>[0..<DS4_N_LAYER]. layer_payload_bytes (session_raw_live_rows g n) (layer_ratio il)
        (gl_n_comp (gg_layer g ! il)) (gl_n_index_comp (gg_layer g ! il)))"

definition session_cpu_payload_live_tensor_bytes :: "ds4_session \<Rightarrow> u64" where
  "session_cpu_payload_live_tensor_bytes s =
     (\<Sum>l\<leftarrow>se_cpu_cache s. layer_payload_bytes (session_cpu_raw_live_rows s) (lc_compress_ratio l) (lc_n_comp l) (lc_n_index_comp l))"

definition ds4_session_payload_bytes :: "ds4_session \<Rightarrow> u64" where
  "ds4_session_payload_bytes s =
     (if \<not> se_checkpoint_valid s then 0
      else of_nat DS4_SESSION_PAYLOAD_U32_FIELDS * 4 + of_nat (length (se_checkpoint s)) * 4 + DS4_N_VOCAB * 4
         + of_nat DS4_N_LAYER * 4 + of_nat DS4_N_LAYER * 4
         + (if se_cpu s then session_cpu_payload_live_tensor_bytes s
            else session_payload_live_tensor_bytes (se_graph s) (of_nat (length (se_checkpoint s)))))"

section \<open>Reading\<close>

text \<open>The file from its position on, and the bytes of the payload that are left.\<close>

record payload_in =
  pi_file :: "byte list"
  pi_remaining :: nat

text \<open>Success and what was read; a short file still delivers what it has.\<close>

definition payload_read_bytes :: "nat \<Rightarrow> payload_in \<Rightarrow> bool \<times> byte list \<times> payload_in" where
  "payload_read_bytes bytes p =
     (if pi_remaining p < bytes then (False, [], p)
      else if length (pi_file p) < bytes then (False, pi_file p, p\<lparr>pi_file := []\<rparr>)
      else (True, take bytes (pi_file p), p\<lparr>pi_file := drop bytes (pi_file p), pi_remaining := pi_remaining p - bytes\<rparr>))"

definition payload_get_u32 :: "byte list \<Rightarrow> u32" where
  "payload_get_u32 b = ucast (b ! 0) OR push_bit 8 (ucast (b ! 1)) OR push_bit 16 (ucast (b ! 2)) OR push_bit 24 (ucast (b ! 3))"

definition payload_read_u32 :: "payload_in \<Rightarrow> u32 option \<times> payload_in" where
  "payload_read_u32 p =
     (case payload_read_bytes 4 p of (ok, b, p') \<Rightarrow> (if ok then Some (payload_get_u32 b) else None, p'))"

fun read_u32s :: "nat \<Rightarrow> payload_in \<Rightarrow> u32 list option \<times> payload_in" where
  "read_u32s 0 p = (Some [], p)"
| "read_u32s (Suc n) p =
     (case payload_read_u32 p of
        (None, p') \<Rightarrow> (None, p')
      | (Some v, p') \<Rightarrow> (case read_u32s n p' of (r, p'') \<Rightarrow> (map_option ((#) v) r, p'')))"

text \<open>The row counts, each checked against the saved capacity and the capacity \<open>most\<close> of its layer.\<close>

fun read_counts :: "u32 \<Rightarrow> u32 list \<Rightarrow> payload_in \<Rightarrow> u32 list option \<times> payload_in" where
  "read_counts saved_cap [] p = (Some [], p)"
| "read_counts saved_cap (most # mosts) p =
     (case payload_read_u32 p of
        (None, p') \<Rightarrow> (None, p')
      | (Some v, p') \<Rightarrow>
          if v > saved_cap \<or> v > most then (None, p')
          else (case read_counts saved_cap mosts p' of (r, p'') \<Rightarrow> (map_option ((#) v) r, p'')))"

text \<open>\<^verbatim>\<open>fread\<close> into a host buffer; \<open>None\<close> when it writes past the end of the buffer.\<close>

definition host_read :: "nat \<Rightarrow> byte list \<Rightarrow> payload_in \<Rightarrow> (bool \<times> byte list \<times> payload_in) option" where
  "host_read bytes buf p =
     (case payload_read_bytes bytes p of (ok, d, p') \<Rightarrow>
        if length d > length buf then None else Some (ok, d @ drop (length d) buf, p'))"

type_synonym layer_read = "bool \<times> ds4_layer_cache \<times> payload_in"

definition into :: "nat \<Rightarrow> (ds4_layer_cache \<Rightarrow> byte list) \<Rightarrow> (byte list \<Rightarrow> ds4_layer_cache \<Rightarrow> ds4_layer_cache)
    \<Rightarrow> layer_read \<Rightarrow> layer_read option" where
  "into bytes get put x =
     (case x of (ok, l, p) \<Rightarrow>
        if \<not> ok then Some x
        else map_option (\<lambda>(ok', buf, p'). (ok', put buf l, p')) (host_read bytes (get l) p))"

definition on_layer :: "(ds4_layer_cache \<Rightarrow> ds4_layer_cache) \<Rightarrow> layer_read \<Rightarrow> layer_read" where
  "on_layer f x = (case x of (ok, l, p) \<Rightarrow> if ok then (ok, f l, p) else x)"

definition load_layer_cpu :: "u32 \<Rightarrow> u32 \<Rightarrow> u32 \<Rightarrow> ds4_layer_cache \<Rightarrow> payload_in \<Rightarrow> layer_read option" where
  "load_layer_cpu raw_live n_comp n_index_comp l p = do {
     let ratio = lc_compress_ratio l;
     x \<leftarrow> into (unat raw_live * head_bytes) lc_raw_kv (\<lambda>b. lc_raw_kv_update (\<lambda>_. b)) (True, l, p);
     let x = on_layer (lc_n_raw_update (\<lambda>_. raw_live)) x;
     if ratio = 0 then Some x
     else do {
       let x = on_layer (lc_n_index_comp_update (\<lambda>_. n_index_comp) \<circ> lc_n_comp_update (\<lambda>_. n_comp)) x;
       x \<leftarrow> into (unat n_comp * head_bytes) lc_attn_comp_kv (\<lambda>b. lc_attn_comp_kv_update (\<lambda>_. b)) x;
       x \<leftarrow> into (layer_attn_state_bytes ratio) lc_attn_state_kv (\<lambda>b. lc_attn_state_kv_update (\<lambda>_. b)) x;
       x \<leftarrow> into (layer_attn_state_bytes ratio) lc_attn_state_score (\<lambda>b. lc_attn_state_score_update (\<lambda>_. b)) x;
       if ratio \<noteq> 4 then Some x
       else do {
         x \<leftarrow> into (unat n_index_comp * index_bytes) lc_index_comp_kv (\<lambda>b. lc_index_comp_kv_update (\<lambda>_. b)) x;
         x \<leftarrow> into (layer_index_state_bytes ratio) lc_index_state_kv (\<lambda>b. lc_index_state_kv_update (\<lambda>_. b)) x;
         into (layer_index_state_bytes ratio) lc_index_state_score (\<lambda>b. lc_index_state_score_update (\<lambda>_. b)) x
       }
     }
   }"

fun load_layers_cpu :: "u32 \<Rightarrow> (u32 \<times> u32) list \<Rightarrow> ds4_layer_cache list \<Rightarrow> payload_in
    \<Rightarrow> (bool \<times> ds4_layer_cache list \<times> payload_in) option" where
  "load_layers_cpu raw_live ((nc, nic) # counts) (l # ls) p =
     (case load_layer_cpu raw_live nc nic l p of
        None \<Rightarrow> None
      | Some (ok, l', p') \<Rightarrow>
          if \<not> ok then Some (False, l' # ls, p')
          else map_option (\<lambda>(ok', ls', p''). (ok', l' # ls', p'')) (load_layers_cpu raw_live counts ls p'))"
| "load_layers_cpu raw_live counts ls p = Some (True, ls, p)"

datatype load_outcome = Loaded ds4_session "byte list" | Failed ds4_session "byte list" | Overflow

text \<open>What the header must say; \<open>h\<close> are its fields.\<close>

definition layout_ok :: "u32 list \<Rightarrow> ds4_session \<Rightarrow> u32 \<Rightarrow> u32 \<Rightarrow> u32 \<Rightarrow> bool" where
  "layout_ok h s raw_window raw_cap comp_cap \<longleftrightarrow>
     (let saved_raw_window = h ! 5; saved_tokens = h ! 7; saved_raw_live = h ! 12;
          expected_raw_live = (if saved_tokens < saved_raw_window then saved_tokens else saved_raw_window)
      in \<not> (h ! 2 > se_ctx_size s \<or> saved_tokens \<ge> se_ctx_size s)
         \<and> \<not> (h ! 8 \<noteq> of_nat DS4_N_LAYER \<or> h ! 9 \<noteq> ucast DS4_N_HEAD_DIM \<or> h ! 10 \<noteq> ucast DS4_N_INDEXER_HEAD_DIM
              \<or> h ! 11 \<noteq> ucast DS4_N_VOCAB)
         \<and> \<not> (h ! 3 \<noteq> se_prefill_cap s \<or> saved_raw_window \<noteq> raw_window)
         \<and> \<not> (h ! 4 = 0 \<or> saved_raw_live \<noteq> expected_raw_live \<or> saved_raw_live > h ! 4 \<or> saved_raw_live > raw_cap)
         \<and> \<not> h ! 6 > comp_cap)"

definition load_payload_cpu :: "u32 list \<Rightarrow> ds4_session \<Rightarrow> payload_in \<Rightarrow> load_outcome" where
  "load_payload_cpu h s p =
     (let cpu_raw_cap = ds4_default_raw_cap (se_ctx_size s); cpu_comp_cap = session_cpu_comp_cap s;
          caps = replicate DS4_N_LAYER cpu_comp_cap
      in if \<not> layout_ok h s cpu_raw_cap cpu_raw_cap cpu_comp_cap then Failed s (pi_file p)
         else case read_u32s (unat (h ! 7)) p of
           (None, p) \<Rightarrow> Failed s (pi_file p)
         | (Some toks, p) \<Rightarrow>
         (case host_read logits_bytes (se_logits s) p of
            None \<Rightarrow> Overflow
          | Some (ok, logits, p) \<Rightarrow>
         (let s = s\<lparr>se_logits := logits\<rparr> in
          if \<not> ok then Failed s (pi_file p)
          else case read_counts (h ! 6) caps p of
            (None, p) \<Rightarrow> Failed s (pi_file p)
          | (Some n_comp, p) \<Rightarrow>
         (case read_counts (h ! 6) caps p of
            (None, p) \<Rightarrow> Failed s (pi_file p)
          | (Some n_index_comp, p) \<Rightarrow>
         (let s = s\<lparr>se_checkpoint_valid := False, se_mtp_draft_valid := False, se_cpu_cache := kv_cache_init (se_ctx_size s) 0\<rparr> in
          case load_layers_cpu (h ! 12) (zip n_comp n_index_comp) (se_cpu_cache s) p of
            None \<Rightarrow> Overflow
          | Some (ok, layers, p) \<Rightarrow>
             (let s = s\<lparr>se_cpu_cache := layers\<rparr> in
              if \<not> ok \<or> pi_remaining p \<noteq> 0 then Failed s (pi_file p)
              else Loaded (s\<lparr>se_checkpoint := toks, se_checkpoint_valid := True, se_mtp_draft_valid := False\<rparr>) (pi_file p)))))))"

text \<open>Device tensors: the copy loop of a span, success and the tensor.\<close>

definition put_at :: "byte list \<Rightarrow> nat \<Rightarrow> byte list \<Rightarrow> byte list" where
  "put_at t off d = take off t @ d @ drop (off + length d) t"

function read_span :: "byte list \<Rightarrow> nat \<Rightarrow> nat \<Rightarrow> payload_in \<Rightarrow> bool \<times> byte list \<times> payload_in" where
  "read_span t offset bytes p =
     (if bytes = 0 then (True, t, p)
      else let n = (if bytes > DS4_SESSION_IO_CHUNK then DS4_SESSION_IO_CHUNK else bytes)
           in case payload_read_bytes n p of (ok, d, p') \<Rightarrow>
                if \<not> ok then (False, t, p') else read_span (put_at t offset d) (offset + n) (bytes - n) p')"
  by pat_completeness auto
termination by (relation "measure (\<lambda>(t, off, b, p). b)") (auto simp: DS4_SESSION_IO_CHUNK_def)

declare read_span.simps [simp del]

definition payload_read_tensor_span :: "byte list \<Rightarrow> nat \<Rightarrow> nat \<Rightarrow> payload_in \<Rightarrow> bool \<times> byte list \<times> payload_in" where
  "payload_read_tensor_span t offset bytes p =
     (if offset > length t \<or> bytes > length t - offset then (False, t, p) else read_span t offset bytes p)"

type_synonym graph_read = "bool \<times> ds4_gpu_graph \<times> payload_in"

definition on_gpu_layer :: "nat \<Rightarrow> (gpu_layer \<Rightarrow> gpu_layer) \<Rightarrow> ds4_gpu_graph \<Rightarrow> ds4_gpu_graph" where
  "on_gpu_layer il f g = g\<lparr>gg_layer := (gg_layer g)[il := f (gg_layer g ! il)]\<rparr>"

definition into_gpu :: "nat \<Rightarrow> nat \<Rightarrow> (ds4_gpu_graph \<Rightarrow> byte list) \<Rightarrow> (byte list \<Rightarrow> ds4_gpu_graph \<Rightarrow> ds4_gpu_graph)
    \<Rightarrow> graph_read \<Rightarrow> graph_read" where
  "into_gpu offset bytes get put x =
     (case x of (ok, g, p) \<Rightarrow>
        if \<not> ok then x
        else (case payload_read_tensor_span (get g) offset bytes p of (ok', t, p') \<Rightarrow> (ok', put t g, p')))"

text \<open>One layer's tensor.\<close>

definition into_layer :: "nat \<Rightarrow> nat \<Rightarrow> nat \<Rightarrow> (gpu_layer \<Rightarrow> byte list) \<Rightarrow> (byte list \<Rightarrow> gpu_layer \<Rightarrow> gpu_layer)
    \<Rightarrow> graph_read \<Rightarrow> graph_read" where
  "into_layer il offset bytes get put =
     into_gpu offset bytes (\<lambda>g. get (gg_layer g ! il)) (\<lambda>t. on_gpu_layer il (put t))"

definition attn_comp_cache_for_write :: "nat \<Rightarrow> ds4_gpu_graph \<Rightarrow> byte list" where
  "attn_comp_cache_for_write il g =
     (if gg_turbo_packv4 g then gg_attn_comp_unpack_cache g else gl_attn_comp_cache (gg_layer g ! il))"

definition put_attn_comp_cache :: "nat \<Rightarrow> byte list \<Rightarrow> ds4_gpu_graph \<Rightarrow> ds4_gpu_graph" where
  "put_attn_comp_cache il t g =
     (if gg_turbo_packv4 g then g\<lparr>gg_attn_comp_unpack_cache := t\<rparr>
      else on_gpu_layer il (gl_attn_comp_cache_update (\<lambda>_. t)) g)"

definition index_comp_cache_for_write :: "nat \<Rightarrow> ds4_gpu_graph \<Rightarrow> byte list" where
  "index_comp_cache_for_write il g =
     (if gg_turbo_packv4 g then gg_index_comp_unpack_cache g else gl_index_comp_cache (gg_layer g ! il))"

definition put_index_comp_cache :: "nat \<Rightarrow> byte list \<Rightarrow> ds4_gpu_graph \<Rightarrow> ds4_gpu_graph" where
  "put_index_comp_cache il t g =
     (if gg_turbo_packv4 g then g\<lparr>gg_index_comp_unpack_cache := t\<rparr>
      else on_gpu_layer il (gl_index_comp_cache_update (\<lambda>_. t)) g)"

definition gpu_graph_pack_attn_comp_rows :: "turbo_kernels \<Rightarrow> nat \<Rightarrow> u32 \<Rightarrow> graph_read \<Rightarrow> graph_read" where
  "gpu_graph_pack_attn_comp_rows k il n_rows x =
     (case x of (ok, g, p) \<Rightarrow>
        if \<not> ok \<or> \<not> gg_turbo_packv4 g \<or> n_rows = 0 then x
        else if il \<ge> DS4_N_LAYER \<or> unat n_rows > unat (gl_comp_cap (gg_layer g ! il)) then (False, g, p)
        else (case tk_pack k head_bytes (take (unat n_rows * head_bytes) (attn_comp_cache_for_write il g)) of
                None \<Rightarrow> (False, g, p)
              | Some packed \<Rightarrow>
                  (True, on_gpu_layer il (gl_attn_comp_tq_cache_update (\<lambda>t. put_at t 0 packed)) g, p)))"

definition gpu_graph_pack_index_comp_rows :: "turbo_kernels \<Rightarrow> nat \<Rightarrow> u32 \<Rightarrow> graph_read \<Rightarrow> graph_read" where
  "gpu_graph_pack_index_comp_rows k il n_rows x =
     (case x of (ok, g, p) \<Rightarrow>
        if \<not> ok \<or> \<not> gg_turbo_packv4 g \<or> n_rows = 0 then x
        else if il \<ge> DS4_N_LAYER \<or> unat n_rows > unat (gl_comp_cap (gg_layer g ! il)) then (False, g, p)
        else (case tk_pack k index_bytes (take (unat n_rows * index_bytes) (index_comp_cache_for_write il g)) of
                None \<Rightarrow> (False, g, p)
              | Some packed \<Rightarrow>
                  (True, on_gpu_layer il (gl_index_comp_tq_cache_update (\<lambda>t. put_at t 0 packed)) g, p)))"

definition load_raw_row :: "nat \<Rightarrow> u32 \<Rightarrow> u32 \<Rightarrow> graph_read \<Rightarrow> graph_read" where
  "load_raw_row il raw_first r x =
     into_layer il (unat ((raw_first + r) mod gg_raw_cap (fst (snd x))) * head_bytes) head_bytes
       gl_raw_cache (\<lambda>t. gl_raw_cache_update (\<lambda>_. t)) x"

definition load_layer_gpu :: "turbo_kernels \<Rightarrow> u32 \<Rightarrow> u32 \<Rightarrow> u32 list \<Rightarrow> u32 list \<Rightarrow> nat \<Rightarrow> graph_read \<Rightarrow> graph_read" where
  "load_layer_gpu k saved_tokens saved_raw_live n_comp n_index_comp il x =
     (let ratio = layer_ratio il; nc = n_comp ! il; nic = n_index_comp ! il;
          attn_comp_bytes = unat nc * head_bytes;
          x = fold (\<lambda>r. load_raw_row il (saved_tokens - saved_raw_live) (of_nat r)) [0..<unat saved_raw_live] x
      in if \<not> fst x \<or> ratio = 0 then x
         else let
           x = (if attn_comp_bytes = 0 then x
                else into_gpu 0 attn_comp_bytes (attn_comp_cache_for_write il) (put_attn_comp_cache il) x);
           x = gpu_graph_pack_attn_comp_rows k il nc x;
           x = into_layer il 0 (layer_attn_state_bytes ratio) gl_attn_state_kv (\<lambda>t. gl_attn_state_kv_update (\<lambda>_. t)) x;
           x = into_layer il 0 (layer_attn_state_bytes ratio) gl_attn_state_score (\<lambda>t. gl_attn_state_score_update (\<lambda>_. t)) x
         in if ratio \<noteq> 4 then x
            else let
              x = into_gpu 0 (unat nic * index_bytes) (index_comp_cache_for_write il) (put_index_comp_cache il) x;
              x = gpu_graph_pack_index_comp_rows k il nic x;
              x = into_layer il 0 (layer_index_state_bytes ratio) gl_index_state_kv (\<lambda>t. gl_index_state_kv_update (\<lambda>_. t)) x
            in into_layer il 0 (layer_index_state_bytes ratio) gl_index_state_score (\<lambda>t. gl_index_state_score_update (\<lambda>_. t)) x)"

definition load_layers_gpu :: "turbo_kernels \<Rightarrow> u32 \<Rightarrow> u32 \<Rightarrow> u32 list \<Rightarrow> u32 list \<Rightarrow> graph_read \<Rightarrow> graph_read" where
  "load_layers_gpu k saved_tokens saved_raw_live n_comp n_index_comp x =
     fold (\<lambda>il x. if fst x then load_layer_gpu k saved_tokens saved_raw_live n_comp n_index_comp il x else x) [0..<DS4_N_LAYER] x"

definition load_payload_gpu :: "turbo_kernels \<Rightarrow> u32 list \<Rightarrow> ds4_session \<Rightarrow> payload_in \<Rightarrow> load_outcome" where
  "load_payload_gpu k h s p =
     (let g = se_graph s; caps = map gl_comp_cap (gg_layer g)
      in if \<not> layout_ok h s (gg_raw_window g) (gg_raw_cap g) (gg_comp_cap g) then Failed s (pi_file p)
         else case read_u32s (unat (h ! 7)) p of
           (None, p) \<Rightarrow> Failed s (pi_file p)
         | (Some toks, p) \<Rightarrow>
         (case host_read logits_bytes (se_logits s) p of
            None \<Rightarrow> Overflow
          | Some (ok, logits, p) \<Rightarrow>
         (let s = s\<lparr>se_logits := logits\<rparr> in
          if \<not> ok then Failed s (pi_file p)
          else case read_counts (h ! 6) caps p of
            (None, p) \<Rightarrow> Failed s (pi_file p)
          | (Some n_comp, p) \<Rightarrow>
         (case read_counts (h ! 6) caps p of
            (None, p) \<Rightarrow> Failed s (pi_file p)
          | (Some n_index_comp, p) \<Rightarrow>
         (case load_layers_gpu k (h ! 7) (h ! 12) n_comp n_index_comp (True, g, p) of (ok, g, p) \<Rightarrow>
            if \<not> ok \<or> pi_remaining p \<noteq> 0 then Failed (s\<lparr>se_graph := g\<rparr>) (pi_file p)
            else
              let layers = map (\<lambda>(l, nc, nic). l\<lparr>gl_n_comp := nc, gl_n_index_comp := nic\<rparr>)
                             (zip (gg_layer g) (zip n_comp n_index_comp))
              in Loaded (s\<lparr>se_graph := g\<lparr>gg_layer := layers, gg_mtp_n_raw := 0\<rparr>, se_checkpoint := toks,
                   se_checkpoint_valid := True, se_mtp_draft_valid := False\<rparr>) (pi_file p))))))"

definition ds4_session_load_payload :: "turbo_kernels \<Rightarrow> ds4_session \<Rightarrow> byte list \<Rightarrow> u64 \<Rightarrow> load_outcome" where
  "ds4_session_load_payload k s file payload_bytes =
     (case read_u32s DS4_SESSION_PAYLOAD_U32_FIELDS \<lparr>pi_file = file, pi_remaining = unat payload_bytes\<rparr> of
        (None, p) \<Rightarrow> Failed s (pi_file p)
      | (Some h, p) \<Rightarrow>
          if h ! 0 \<noteq> DS4_SESSION_PAYLOAD_MAGIC \<or> h ! 1 \<noteq> DS4_SESSION_PAYLOAD_VERSION then Failed s (pi_file p)
          else if se_cpu s then load_payload_cpu h s p else load_payload_gpu k h s p)"

section \<open>What was written\<close>

text \<open>The bytes of a run of writes that got to its end.\<close>

definition written :: "writes \<Rightarrow> byte list option" where
  "written w = (if snd w then Some (concat (fst w)) else None)"

lemma payload_put_u32_eq: "payload_put_u32 = le_put32"
  by (rule ext) (simp add: payload_put_u32_def le_put32_def)

lemma payload_get_u32_eq: "payload_get_u32 = le_get32"
  by (rule ext) (simp add: payload_get_u32_def le_get32_def)

lemma all_writes_simps [simp]:
  "all_writes [] = ([], True)" "all_writes (w # ws) = then_writes w (all_writes ws)"
  by (simp_all add: all_writes_def)

lemma written_then:
  "written (then_writes w w') = (case written w of None \<Rightarrow> None | Some a \<Rightarrow> map_option ((@) a) (written w'))"
  by (cases w; cases w') (simp add: written_def)

lemma written_all_Cons: "written (all_writes (w # ws)) = (case written w of None \<Rightarrow> None | Some a \<Rightarrow> map_option ((@) a) (written (all_writes ws)))"
  by (simp add: written_then)

lemma written_nothing [simp]: "written ([], True) = Some []" "written ([], False) = None"
  by (simp_all add: written_def)

lemma written_all_append:
  "written (all_writes (ws @ ws')) = (case written (all_writes ws) of None \<Rightarrow> None | Some a \<Rightarrow> map_option ((@) a) (written (all_writes ws')))"
proof (cases "written (all_writes ws')")
  case None
  then show ?thesis by (induction ws) (auto simp: written_then split: option.split)
next
  case (Some b)
  then show ?thesis by (induction ws) (auto simp: written_then split: option.split)
qed

lemma written_bytes [simp]: "written (write_bytes p n) = Some (take n p)"
  by (simp add: write_bytes_def written_def)

lemma written_u32s [simp]: "written (write_u32s vs) = Some (concat (map le_put32 vs))"
  by (simp add: write_u32s_def written_def payload_put_u32_eq)

lemma span_chunks_concat: "concat (span_chunks t off n) = take n (drop off t)"
proof (induction t off n rule: span_chunks.induct)
  case (1 t off n)
  show ?case
  proof (cases "n = 0")
    case True
    then show ?thesis by (simp add: span_chunks.simps)
  next
    case False
    define c where "c = (if n > DS4_SESSION_IO_CHUNK then DS4_SESSION_IO_CHUNK else n)"
    have c: "c \<le> n" by (simp add: c_def)
    have "concat (span_chunks t off n) = take c (drop off t) @ concat (span_chunks t (off + c) (n - c))"
      using False by (subst span_chunks.simps) (simp add: c_def Let_def)
    also have "\<dots> = take c (drop off t) @ take (n - c) (drop (off + c) t)" using 1 [OF False c_def] by simp
    also have "\<dots> = take n (drop off t)" using take_add [of c "n - c" "drop off t"] c by (simp add: add.commute)
    finally show ?thesis .
  qed
qed

lemma written_span:
  "written (payload_write_tensor_span t off n)
     = (case t of None \<Rightarrow> None | Some t \<Rightarrow> if off + n \<le> length t then Some (subslice t off n) else None)"
proof -
  have "\<not> (off > l \<or> n > l - off) \<longleftrightarrow> off + n \<le> l" for l by auto
  then show ?thesis
    by (auto simp: payload_write_tensor_span_def written_def span_chunks_concat subslice_def split: option.split)
qed

section \<open>What is read back\<close>

text \<open>A payload whose next bytes are \<open>bs\<close>.\<close>

definition pin :: "byte list \<Rightarrow> byte list \<Rightarrow> nat \<Rightarrow> payload_in" where
  "pin bs rest k = \<lparr>pi_file = bs @ rest, pi_remaining = length bs + k\<rparr>"

lemma pin_append: "pin (bs @ bs') rest k = pin bs (bs' @ rest) (length bs' + k)"
  by (simp add: pin_def)

lemma pin_fields [simp]: "pi_file (pin [] rest k) = rest" "pi_remaining (pin [] rest k) = k"
  by (simp_all add: pin_def)

lemma pin_empty: "pin [] (bs @ rest) (length bs + k) = pin bs rest k"
  by (simp add: pin_def)

lemma read_bytes_pin: "length bs = n \<Longrightarrow> payload_read_bytes n (pin bs rest k) = (True, bs, pin [] rest k)"
  by (auto simp: payload_read_bytes_def pin_def)

lemma read_u32_pin: "payload_read_u32 (pin (le_put32 v) rest k) = (Some v, pin [] rest k)"
  using le_get32_put [of v "[]"] by (simp add: payload_read_u32_def read_bytes_pin payload_get_u32_eq)

lemma read_u32s_pin:
  "read_u32s (length vs) (pin (concat (map le_put32 vs)) rest k) = (Some vs, pin [] rest k)"
proof (induction vs)
  case (Cons v vs)
  have "pin (concat (map le_put32 (v # vs))) rest k
      = pin (le_put32 v) (concat (map le_put32 vs) @ rest) (length (concat (map le_put32 vs)) + k)"
    by (simp add: pin_append)
  with Cons show ?case by (simp add: read_u32_pin pin_empty)
qed simp

lemma read_counts_pin:
  "length mosts = length vs \<Longrightarrow> (\<And>i. i < length vs \<Longrightarrow> vs ! i \<le> saved_cap \<and> vs ! i \<le> mosts ! i) \<Longrightarrow>
   read_counts saved_cap mosts (pin (concat (map le_put32 vs)) rest k) = (Some vs, pin [] rest k)"
proof (induction vs arbitrary: mosts)
  case (Cons v vs)
  obtain m ms where m: "mosts = m # ms" using Cons.prems(1) by (cases mosts) simp_all
  have "vs ! i \<le> saved_cap \<and> vs ! i \<le> ms ! i" if "i < length vs" for i
    using Cons.prems(2) [of "Suc i"] that by (simp add: m)
  then have IH: "read_counts saved_cap ms (pin (concat (map le_put32 vs)) rest k) = (Some vs, pin [] rest k)"
    using Cons.IH [of ms] Cons.prems(1) by (simp add: m)
  have v: "\<not> (v > saved_cap \<or> v > m)" using Cons.prems(2) [of 0] by (simp add: m not_less)
  have "pin (concat (map le_put32 (v # vs))) rest k
      = pin (le_put32 v) (concat (map le_put32 vs) @ rest) (length (concat (map le_put32 vs)) + k)"
    by (simp add: pin_append)
  with IH v show ?case by (simp add: m read_u32_pin pin_empty)
qed simp

lemma host_read_pin:
  "length bs = n \<Longrightarrow> n \<le> length buf \<Longrightarrow> host_read n buf (pin bs rest k) = Some (True, bs @ drop n buf, pin [] rest k)"
  by (simp add: host_read_def read_bytes_pin)

lemma put_at_length [simp]: "off + length d \<le> length t \<Longrightarrow> length (put_at t off d) = length t"
  by (simp add: put_at_def)

lemma put_at_slice: "off + length d \<le> length t \<Longrightarrow> subslice (put_at t off d) off (length d) = d"
  by (simp add: put_at_def subslice_def)

lemma put_at_apart:
  assumes "off + length d \<le> length t" "i + n \<le> off \<or> off + length d \<le> i"
  shows "subslice (put_at t off d) i n = subslice t i n"
  using assms by (auto simp: put_at_def subslice_def min_def drop_take)

lemma put_at_split: "put_at (put_at t off a) (off + length a) b = put_at t off (a @ b)" if "off + length a + length b \<le> length t"
  using that by (simp add: put_at_def ac_simps)

lemma read_span_pin:
  "length bs = n \<Longrightarrow> off + n \<le> length t \<Longrightarrow> read_span t off n (pin bs rest k) = (True, put_at t off bs, pin [] rest k)"
proof (induction n arbitrary: t off bs rest k rule: less_induct)
  case (less n)
  show ?case
  proof (cases "n = 0")
    case True
    with less.prems show ?thesis by (simp add: read_span.simps put_at_def)
  next
    case False
    define c where "c = (if n > DS4_SESSION_IO_CHUNK then DS4_SESSION_IO_CHUNK else n)"
    have c: "c \<le> n" "0 < c" using False by (simp_all add: c_def DS4_SESSION_IO_CHUNK_def)
    define a where "a = take c bs"
    define b where "b = drop c bs"
    have ab: "bs = a @ b" "length a = c" "length b = n - c" using less.prems(1) c by (simp_all add: a_def b_def)
    have p: "pin bs rest k = pin a (b @ rest) (length b + k)" by (simp add: ab(1) pin_append)
    have "read_span t off n (pin bs rest k) = read_span (put_at t off a) (off + c) (n - c) (pin b rest k)"
      using False ab(2) by (subst read_span.simps) (simp add: c_def [symmetric] Let_def p read_bytes_pin pin_empty)
    also have "\<dots> = (True, put_at (put_at t off a) (off + c) b, pin [] rest k)"
      by (rule less.IH) (use c ab less.prems in simp_all)
    also have "put_at (put_at t off a) (off + c) b = put_at t off bs"
      using put_at_split [of off a b t] ab less.prems c by simp
    finally show ?thesis .
  qed
qed

lemma read_tensor_pin:
  "length bs = n \<Longrightarrow> off + n \<le> length t \<Longrightarrow>
   payload_read_tensor_span t off n (pin bs rest k) = (True, put_at t off bs, pin [] rest k)"
  by (simp add: payload_read_tensor_span_def read_span_pin)

section \<open>The ring of raw rows\<close>

text \<open>The row of a position, wherever the ring holds it.\<close>

definition ring_row :: "ds4_gpu_graph \<Rightarrow> nat \<Rightarrow> nat \<Rightarrow> byte list" where
  "ring_row g il pos = subslice (gl_raw_cache (gg_layer g ! il)) ((pos mod unat (gg_raw_cap g)) * head_bytes) head_bytes"

lemma head_bytes_pos: "0 < head_bytes" "0 < index_bytes"
  by (simp_all add: head_bytes_def index_bytes_def f32_size_def DS4_N_HEAD_DIM_def DS4_N_INDEXER_HEAD_DIM_def)

lemma ring_slot: "q < c \<Longrightarrow> length t = c * head_bytes \<Longrightarrow> q * head_bytes + head_bytes \<le> length t"
  using mult_le_mono1 [of "Suc q" c head_bytes] by simp

lemma unat_slot:
  assumes "unat first + r < 2 ^ 32" "c \<noteq> 0"
  shows "unat ((first + of_nat r) mod c :: u32) = (unat first + r) mod unat c"
proof -
  have r: "unat (of_nat r :: u32) = r" using assms(1) by (simp add: unat_of_nat)
  then have "unat (first + of_nat r) = unat first + r" using unat_add_no_wrap [of first "of_nat r"] assms(1) by simp
  then show ?thesis by (simp add: unat_mod)
qed

lemma slots_apart:
  assumes "r < m" "m - r < c" "(a + r) mod c = (a + m) mod (c :: nat)"
  shows False
proof -
  have "c dvd (a + m) - (a + r)" using assms by (metis add_le_mono1 add.commute less_imp_le mod_eq_dvd_iff_nat)
  then show False using assms(1,2) by (simp add: nat_dvd_not_less)
qed

lemma into_layer_pin:
  assumes "length bs = n" "off + n \<le> length (get (gg_layer g ! il))"
  shows "into_layer il off n get put (True, g, pin bs rest k)
    = (True, on_gpu_layer il (put (put_at (get (gg_layer g ! il)) off bs)) g, pin [] rest k)"
  using assms by (simp add: into_layer_def into_gpu_def read_tensor_pin)

lemma on_gpu_layer_simps:
  assumes "il < length (gg_layer g)"
  shows "gg_layer (on_gpu_layer il f g) ! il = f (gg_layer g ! il)" "length (gg_layer (on_gpu_layer il f g)) = length (gg_layer g)"
    "gg_raw_cap (on_gpu_layer il f g) = gg_raw_cap g" "gg_turbo_packv4 (on_gpu_layer il f g) = gg_turbo_packv4 g"
    "on_gpu_layer il f (on_gpu_layer il h g) = on_gpu_layer il (f \<circ> h) g"
  using assms by (simp_all add: on_gpu_layer_def)

lemma load_raw_rows:
  assumes il: "il < length (gg_layer g)" and rows: "\<forall>r < m. length (row r) = head_bytes"
    and room: "unat first + m < 2 ^ 32" "m \<le> unat (gg_raw_cap g)"
    and len: "length (gl_raw_cache (gg_layer g ! il)) = unat (gg_raw_cap g) * head_bytes"
  obtains t where "fold (\<lambda>r. load_raw_row il first (of_nat r)) [0..<m] (True, g, pin (concat (map row [0..<m])) rest k)
      = (True, on_gpu_layer il (gl_raw_cache_update (\<lambda>_. t)) g, pin [] rest k)"
    "length t = unat (gg_raw_cap g) * head_bytes"
    "\<And>r. r < m \<Longrightarrow> subslice t (((unat first + r) mod unat (gg_raw_cap g)) * head_bytes) head_bytes = row r"
  using rows room
proof (induction m arbitrary: thesis rest k)
  case 0
  have "on_gpu_layer il (gl_raw_cache_update (\<lambda>_. gl_raw_cache (gg_layer g ! il))) g = g"
    by (simp add: on_gpu_layer_def)
  with 0(1) [of "gl_raw_cache (gg_layer g ! il)"] len show ?case by simp
next
  case (Suc m)
  let ?c = "unat (gg_raw_cap g)"
  have c0: "gg_raw_cap g \<noteq> 0" using Suc.prems(4) by (metis le_zero_eq nat.simps(3) unat_0)
  define off where "off = ((unat first + m) mod ?c) * head_bytes"
  obtain t where t: "fold (\<lambda>r. load_raw_row il first (of_nat r)) [0..<m]
        (True, g, pin (concat (map row [0..<m])) (row m @ rest) (length (row m) + k))
      = (True, on_gpu_layer il (gl_raw_cache_update (\<lambda>_. t)) g, pin [] (row m @ rest) (length (row m) + k))"
    "length t = ?c * head_bytes" "\<And>r. r < m \<Longrightarrow> subslice t (((unat first + r) mod ?c) * head_bytes) head_bytes = row r"
    using Suc.IH [of "row m @ rest" "length (row m) + k"] Suc.prems(2-4) by auto
  have pos: "unat ((first + of_nat m) mod gg_raw_cap g) * head_bytes = off"
    using unat_slot [of first m "gg_raw_cap g"] Suc.prems(3) c0 by (simp add: off_def)
  have lt: "(unat first + m) mod ?c < ?c" using c0 by (simp add: unat_gt_0)
  have fit: "off + length (row m) \<le> length t" using ring_slot [OF lt t(2)] Suc.prems(2) by (simp add: off_def)
  have last: "load_raw_row il first (of_nat m) (True, on_gpu_layer il (gl_raw_cache_update (\<lambda>_. t)) g, pin (row m) rest k)
      = (True, on_gpu_layer il (gl_raw_cache_update (\<lambda>_. put_at t off (row m))) g, pin [] rest k)"
    using fit Suc.prems(2) il
    by (simp add: load_raw_row_def into_layer_pin on_gpu_layer_simps pos comp_def)
  have all: "fold (\<lambda>r. load_raw_row il first (of_nat r)) [0..<Suc m] (True, g, pin (concat (map row [0..<Suc m])) rest k)
      = (True, on_gpu_layer il (gl_raw_cache_update (\<lambda>_. put_at t off (row m))) g, pin [] rest k)"
    using t(1) last by (simp add: pin_append pin_empty)
  have each: "subslice (put_at t off (row m)) (((unat first + r) mod ?c) * head_bytes) head_bytes = row r" if r: "r < Suc m" for r
  proof (cases "r = m")
    case True
    then show ?thesis using put_at_slice [OF fit] Suc.prems(2) by (simp add: off_def)
  next
    case False
    then have r': "r < m" using r by simp
    have "(unat first + r) mod ?c \<noteq> (unat first + m) mod ?c"
      using slots_apart [OF r', of ?c "unat first"] Suc.prems(4) by (metis less_le_trans diff_le_self le_neq_implies_less less_Suc_eq_le not_less_eq_eq)
    then consider "Suc ((unat first + r) mod ?c) \<le> (unat first + m) mod ?c" | "Suc ((unat first + m) mod ?c) \<le> (unat first + r) mod ?c"
      by linarith
    then have "((unat first + r) mod ?c) * head_bytes + head_bytes \<le> off \<or> off + length (row m) \<le> ((unat first + r) mod ?c) * head_bytes"
    proof cases
      case 1
      from mult_le_mono1 [OF this, of head_bytes] show ?thesis by (simp add: off_def)
    next
      case 2
      from mult_le_mono1 [OF this, of head_bytes] show ?thesis using Suc.prems(2) by (simp add: off_def)
    qed
    then show ?thesis using put_at_apart [OF fit] t(3) [OF r'] by simp
  qed
  have "length (put_at t off (row m)) = ?c * head_bytes" using fit t(2) by simp
  from Suc.prems(1) [OF all this each] show ?case .
qed

section \<open>A layer of the device graph\<close>

text \<open>The live compressed rows as the code reads them, unpacked if need be.\<close>

definition comp_rows :: "turbo_kernels \<Rightarrow> ds4_gpu_graph \<Rightarrow> nat \<Rightarrow> byte list" where
  "comp_rows k g il =
     (let n = gl_n_comp (gg_layer g ! il) in
      if n = 0 then [] else take (unat n * head_bytes) (the (gpu_graph_attn_comp_cache_for_read k g il n)))"

definition index_rows :: "turbo_kernels \<Rightarrow> ds4_gpu_graph \<Rightarrow> nat \<Rightarrow> byte list" where
  "index_rows k g il =
     (let n = gl_n_index_comp (gg_layer g ! il) in
      if n = 0 then [] else take (unat n * index_bytes) (the (gpu_graph_index_comp_cache_for_read k g il n)))"

text \<open>Everything of a layer that the next token depends on: the rows at the positions \<open>ps\<close>, the compressed rows
  and the partial windows.\<close>

definition layer_content :: "turbo_kernels \<Rightarrow> ds4_gpu_graph \<Rightarrow> nat list \<Rightarrow> nat \<Rightarrow> byte list list" where
  "layer_content k g ps il =
     (let l = gg_layer g ! il in
      map (ring_row g il) ps
      @ (if layer_ratio il = 0 then [] else [comp_rows k g il, gl_attn_state_kv l, gl_attn_state_score l])
      @ (if layer_ratio il = 4 then [index_rows k g il, gl_index_state_kv l, gl_index_state_score l] else []))"

definition layer_ok :: "ds4_gpu_graph \<Rightarrow> nat \<Rightarrow> bool" where
  "layer_ok g il \<longleftrightarrow>
     (let l = gg_layer g ! il; ratio = layer_ratio il in
      length (gl_raw_cache l) = unat (gg_raw_cap g) * head_bytes
      \<and> gl_n_comp l \<le> gl_comp_cap l \<and> gl_n_index_comp l \<le> gl_comp_cap l \<and> gl_comp_cap l \<le> gg_comp_cap g
      \<and> (ratio \<noteq> 0 \<longrightarrow> length (gl_attn_comp_cache l) = (if gg_turbo_packv4 g then 0 else unat (gl_comp_cap l) * head_bytes)
           \<and> length (gl_attn_state_kv l) = layer_attn_state_bytes ratio \<and> length (gl_attn_state_score l) = layer_attn_state_bytes ratio)
      \<and> (ratio = 4 \<longrightarrow> length (gl_index_comp_cache l) = (if gg_turbo_packv4 g then 0 else unat (gl_comp_cap l) * index_bytes)
           \<and> length (gl_index_state_kv l) = layer_index_state_bytes ratio \<and> length (gl_index_state_score l) = layer_index_state_bytes ratio))"

definition graph_ok :: "ds4_gpu_graph \<Rightarrow> bool" where
  "graph_ok g \<longleftrightarrow> length (gg_layer g) = DS4_N_LAYER \<and> gg_raw_window g \<noteq> 0 \<and> gg_raw_window g \<le> gg_raw_cap g
     \<and> (\<forall>il < DS4_N_LAYER. layer_ok g il)
     \<and> (gg_turbo_packv4 g \<longrightarrow> length (gg_attn_comp_unpack_cache g) = unat (gg_comp_cap g) * head_bytes
          \<and> length (gg_index_comp_unpack_cache g) = unat (gg_comp_cap g) * index_bytes)"

text \<open>The kernels give back these rows when they pack them, wherever the rest of the packed cache is.\<close>

definition reproduces :: "turbo_kernels \<Rightarrow> nat \<Rightarrow> nat \<Rightarrow> byte list \<Rightarrow> bool" where
  "reproduces k hb n rows \<longleftrightarrow> (\<exists>p. tk_pack k hb rows = Some p \<and> (\<forall>t. tk_unpack k hb n (put_at t 0 p) = Some rows))"

text \<open>What the device reads of a layer's rows is \<open>a\<close>: from the packed cache, or from the plain one.\<close>

definition rows_held :: "turbo_kernels \<Rightarrow> bool \<Rightarrow> nat \<Rightarrow> u32 \<Rightarrow> byte list \<Rightarrow> byte list \<Rightarrow> byte list \<Rightarrow> bool" where
  "rows_held k packs hb n cache tq a \<longleftrightarrow>
     (if packs then n \<noteq> 0 \<longrightarrow> tk_unpack k hb (unat n) tq = Some a else a = take (unat n * hb) cache)"

text \<open>Where rows to be read in must fit: the plain cache, or the unpacked copy, from which they are packed.\<close>

definition rows_fit :: "turbo_kernels \<Rightarrow> bool \<Rightarrow> nat \<Rightarrow> u32 \<Rightarrow> nat \<Rightarrow> nat \<Rightarrow> byte list \<Rightarrow> bool" where
  "rows_fit k packs hb n plain_size unpack_size a \<longleftrightarrow>
     length a = unat n * hb
     \<and> (if packs then unat n * hb \<le> unpack_size \<and> (n \<noteq> 0 \<longrightarrow> reproduces k hb (unat n) a) else unat n * hb \<le> plain_size)"

lemma map_shift: "map (\<lambda>r. f (a + r)) [0..<n] = map f [a..<a + n]"
  by (induction n) simp_all

lemma written_all_concat:
  "(\<And>i. i \<in> set is \<Longrightarrow> written (f i) = Some (c i)) \<Longrightarrow> written (all_writes (map f is)) = Some (concat (map c is))"
  by (induction "is") (simp_all add: written_then)

lemma save_rows_written:
  assumes ok: "layer_ok g il" and cap: "gg_raw_cap g \<noteq> 0" and room: "unat first + m < 2 ^ 32"
  shows "written (all_writes (map (\<lambda>r. save_raw_row g il first (of_nat r)) [0..<m]))
    = Some (concat (map (ring_row g il) [unat first..<unat first + m]))"
proof -
  have "written (save_raw_row g il first (of_nat r)) = Some (ring_row g il (unat first + r))" if r: "r \<in> set [0..<m]" for r
  proof -
    have slot: "unat ((first + of_nat r) mod gg_raw_cap g) = (unat first + r) mod unat (gg_raw_cap g)"
      using unat_slot [of first r "gg_raw_cap g"] r room cap by simp
    have "(unat first + r) mod unat (gg_raw_cap g) < unat (gg_raw_cap g)" using cap by (simp add: unat_gt_0)
    then have "(unat first + r) mod unat (gg_raw_cap g) * head_bytes + head_bytes \<le> length (gl_raw_cache (gg_layer g ! il))"
      using ok by (intro ring_slot [of _ "unat (gg_raw_cap g)"]) (simp_all add: layer_ok_def Let_def)
    then show ?thesis by (simp add: save_raw_row_def written_span slot ring_row_def)
  qed
  then have "written (all_writes (map (\<lambda>r. save_raw_row g il first (of_nat r)) [0..<m]))
      = Some (concat (map (\<lambda>r. ring_row g il (unat first + r)) [0..<m]))" by (rule written_all_concat)
  also have "map (\<lambda>r. ring_row g il (unat first + r)) [0..<m] = map (ring_row g il) [unat first..<unat first + m]"
    by (rule map_shift)
  finally show ?thesis .
qed

lemma ring_row_length: "layer_ok g il \<Longrightarrow> gg_raw_cap g \<noteq> 0 \<Longrightarrow> length (ring_row g il pos) = head_bytes"
proof -
  assume ok: "layer_ok g il" "gg_raw_cap g \<noteq> 0"
  then have "pos mod unat (gg_raw_cap g) < unat (gg_raw_cap g)" by (simp add: unat_gt_0)
  then have "pos mod unat (gg_raw_cap g) * head_bytes + head_bytes \<le> length (gl_raw_cache (gg_layer g ! il))"
    using ok(1) by (intro ring_slot [of _ "unat (gg_raw_cap g)"]) (simp_all add: layer_ok_def Let_def)
  then show ?thesis by (simp add: ring_row_def length_subslice)
qed

text \<open>What a complete save of a layer consists of.\<close>

lemma save_layer_written:
  assumes ok: "layer_ok g il" and cap: "gg_raw_cap g \<noteq> 0" and len: "unat (n - raw_live) + unat raw_live < 2 ^ 32"
    and w: "written (save_layer_gpu k g n raw_live il) = Some img"
  shows "img = concat (layer_content k g [unat (n - raw_live)..<unat (n - raw_live) + unat raw_live] il)
    \<and> (layer_ratio il \<noteq> 0 \<longrightarrow> length (comp_rows k g il) = unat (gl_n_comp (gg_layer g ! il)) * head_bytes)
    \<and> (layer_ratio il = 4 \<longrightarrow> length (index_rows k g il) = unat (gl_n_index_comp (gg_layer g ! il)) * index_bytes)"
proof -
  define l where "l = gg_layer g ! il"
  define rows where "rows = concat (map (ring_row g il) [unat (n - raw_live)..<unat (n - raw_live) + unat raw_live])"
  have raw: "written (all_writes (map (\<lambda>r. save_raw_row g il (n - raw_live) (of_nat r)) [0..<unat raw_live])) = Some rows"
    unfolding rows_def by (rule save_rows_written [OF ok cap len])
  have st: "written (payload_write_tensor_span (Some (gl_attn_state_kv l)) 0 (layer_attn_state_bytes (layer_ratio il))) = Some (gl_attn_state_kv l)"
    "written (payload_write_tensor_span (Some (gl_attn_state_score l)) 0 (layer_attn_state_bytes (layer_ratio il))) = Some (gl_attn_state_score l)"
    if "layer_ratio il \<noteq> 0"
    using ok that by (simp_all add: written_span subslice_def layer_ok_def Let_def l_def)
  have ist: "written (payload_write_tensor_span (Some (gl_index_state_kv l)) 0 (layer_index_state_bytes (layer_ratio il))) = Some (gl_index_state_kv l)"
    "written (payload_write_tensor_span (Some (gl_index_state_score l)) 0 (layer_index_state_bytes (layer_ratio il))) = Some (gl_index_state_score l)"
    if "layer_ratio il = 4"
    using ok that by (simp_all add: written_span subslice_def layer_ok_def Let_def l_def)
  have comp: "c = comp_rows k g il \<and> length c = unat (gl_n_comp l) * head_bytes"
    if "written (all_writes (if unat (gl_n_comp l) * head_bytes = 0 then []
      else [payload_write_tensor_span (gpu_graph_attn_comp_cache_for_read k g il (gl_n_comp l)) 0 (unat (gl_n_comp l) * head_bytes)])) = Some c" for c
    using that head_bytes_pos
    by (auto simp: comp_rows_def written_then written_span subslice_def l_def Let_def unat_eq_zero split: option.splits if_splits)
  have icomp: "c = index_rows k g il \<and> length c = unat (gl_n_index_comp l) * index_bytes"
    if "written (payload_write_tensor_span (gpu_graph_index_comp_cache_for_read k g il (gl_n_index_comp l)) 0 (unat (gl_n_index_comp l) * index_bytes)) = Some c" for c
    using that
    by (auto simp: index_rows_def written_span subslice_def l_def Let_def gpu_graph_index_comp_cache_for_read_def split: option.splits if_splits)
  define CW where "CW = (if unat (gl_n_comp l) * head_bytes = 0 then []
      else [payload_write_tensor_span (gpu_graph_attn_comp_cache_for_read k g il (gl_n_comp l)) 0 (unat (gl_n_comp l) * head_bytes)])"
  define IW where "IW = payload_write_tensor_span (gpu_graph_index_comp_cache_for_read k g il (gl_n_index_comp l)) 0 (unat (gl_n_index_comp l) * index_bytes)"
  note comp' = comp [folded CW_def] and icomp' = icomp [folded IW_def]
  note w' = w [unfolded save_layer_gpu_def Let_def l_def [symmetric], folded CW_def IW_def]
  show ?thesis
  proof (cases "layer_ratio il = 0")
    case True
    with w' raw show ?thesis by (simp add: written_all_append layer_content_def rows_def)
  next
    case False
    from w' False raw obtain c where c: "written (all_writes CW) = Some c"
      by (auto simp: written_all_append split: option.splits)
    show ?thesis
    proof (cases "layer_ratio il = 4")
      case True
      with w' raw c st [OF False] obtain d where "written IW = Some d"
        by (auto simp: written_all_append written_then split: option.splits)
      with w' True False raw c st [OF False] ist [OF True] comp' [OF c] icomp' show ?thesis
        by (auto simp: written_all_append written_then Let_def layer_content_def rows_def simp flip: l_def)
    next
      case no4: False
      with w' False raw c st [OF False] comp' [OF c] show ?thesis
        by (auto simp: written_all_append written_then Let_def layer_content_def rows_def simp flip: l_def)
    qed
  qed
qed

text \<open>Reading into the layer \<open>il\<close>, which is \<open>l\<close> so far, of a graph that does not pack its rows.\<close>

definition with_layer :: "ds4_gpu_graph \<Rightarrow> nat \<Rightarrow> gpu_layer \<Rightarrow> ds4_gpu_graph" where
  "with_layer g il l = on_gpu_layer il (\<lambda>_. l) g"

lemma with_layer_id: "il < length (gg_layer g) \<Longrightarrow> on_gpu_layer il f g = with_layer g il (f (gg_layer g ! il))"
  by (simp add: with_layer_def on_gpu_layer_def)

lemma with_layer_simps:
  assumes "il < length (gg_layer g)"
  shows "gg_layer (with_layer g il l) ! il = l" "length (gg_layer (with_layer g il l)) = length (gg_layer g)"
    "gg_raw_cap (with_layer g il l) = gg_raw_cap g" "gg_turbo_packv4 (with_layer g il l) = gg_turbo_packv4 g"
    "on_gpu_layer il f (with_layer g il l) = with_layer g il (f l)"
  using assms by (simp_all add: with_layer_def on_gpu_layer_def)

lemma into_layer_step:
  assumes "il < length (gg_layer g)" "length bs = n" "n \<le> length (get l)"
  shows "into_layer il 0 n get put (True, with_layer g il l, pin bs rest k)
    = (True, with_layer g il (put (bs @ drop n (get l)) l), pin [] rest k)"
  using assms by (simp add: into_layer_pin with_layer_simps put_at_def)

lemma into_layer_full:
  assumes "il < length (gg_layer g)" "length bs = n" "length (get l) = n"
  shows "into_layer il 0 n get put (True, with_layer g il l, pin (bs @ tl0) rest k)
    = (True, with_layer g il (put bs l), pin tl0 rest k)"
  using into_layer_step [of il g bs n get l put "tl0 @ rest" "length tl0 + k"] assms
  unfolding pin_append [of bs] pin_empty by simp

text \<open>Reading the rows of a layer and packing them, in either mode.\<close>

lemma load_attn_rows:
  assumes il: "il < length (gg_layer g)" "il < DS4_N_LAYER" and n: "n \<le> gl_comp_cap l"
    and fit: "rows_fit k (gg_turbo_packv4 g) head_bytes n (length (gl_attn_comp_cache l)) (length (gg_attn_comp_unpack_cache g)) a"
  obtains u c t where
    "gpu_graph_pack_attn_comp_rows k il n
       (if unat n * head_bytes = 0 then (True, with_layer g il l, pin (a @ more') rest m)
        else into_gpu 0 (unat n * head_bytes) (attn_comp_cache_for_write il) (put_attn_comp_cache il)
               (True, with_layer g il l, pin (a @ more') rest m))
      = (True, with_layer (g\<lparr>gg_attn_comp_unpack_cache := u\<rparr>) il (l\<lparr>gl_attn_comp_cache := c, gl_attn_comp_tq_cache := t\<rparr>), pin more' rest m)"
    "length u = length (gg_attn_comp_unpack_cache g)" "rows_held k (gg_turbo_packv4 g) head_bytes n c t a"
proof (cases "n = 0")
  case True
  with fit have "a = []" by (simp add: rows_fit_def)
  then show thesis
    by (intro that [of "gg_attn_comp_unpack_cache g" "gl_attn_comp_tq_cache l" "gl_attn_comp_cache l"])
      (auto simp: True gpu_graph_pack_attn_comp_rows_def rows_held_def)
next
  case False
  then have nz: "unat n * head_bytes \<noteq> 0" using head_bytes_pos by (simp add: unat_eq_zero)
  have len: "length a = unat n * head_bytes" using fit by (simp add: rows_fit_def)
  have split: "pin (a @ more') rest m = pin a (more' @ rest) (length more' + m)" by (rule pin_append)
  show thesis
  proof (cases "gg_turbo_packv4 g")
    case packs: True
    let ?u = "a @ drop (length a) (gg_attn_comp_unpack_cache g)"
    from fit packs False obtain p where p: "tk_pack k head_bytes a = Some p"
      "\<And>t. tk_unpack k head_bytes (unat n) (put_at t 0 p) = Some a" "length a \<le> length (gg_attn_comp_unpack_cache g)"
      by (auto simp: rows_fit_def reproduces_def)
    let ?l = "l\<lparr>gl_attn_comp_cache := gl_attn_comp_cache l, gl_attn_comp_tq_cache := put_at (gl_attn_comp_tq_cache l) 0 p\<rparr>"
    have 1: "into_gpu 0 (unat n * head_bytes) (attn_comp_cache_for_write il) (put_attn_comp_cache il) (True, with_layer g il l, pin (a @ more') rest m)
      = (True, with_layer (g\<lparr>gg_attn_comp_unpack_cache := ?u\<rparr>) il l, pin more' rest m)"
      unfolding split using packs len p(3) il(1)
      by (simp add: into_gpu_def attn_comp_cache_for_write_def put_attn_comp_cache_def with_layer_def on_gpu_layer_def
          read_tensor_pin put_at_def pin_empty)
    have 2: "gpu_graph_pack_attn_comp_rows k il n (True, with_layer (g\<lparr>gg_attn_comp_unpack_cache := ?u\<rparr>) il l, pin more' rest m)
      = (True, with_layer (g\<lparr>gg_attn_comp_unpack_cache := ?u\<rparr>) il ?l, pin more' rest m)"
      using packs len p(1) il n False
      by (cases l) (simp add: gpu_graph_pack_attn_comp_rows_def attn_comp_cache_for_write_def with_layer_def on_gpu_layer_def word_le_nat_alt)
    show thesis
      by (rule that [of ?u "put_at (gl_attn_comp_tq_cache l) 0 p" "gl_attn_comp_cache l"])
        (use nz 1 2 p packs in \<open>simp_all add: rows_held_def\<close>)
  next
    case plain: False
    let ?c = "a @ drop (length a) (gl_attn_comp_cache l)"
    have 1: "into_gpu 0 (unat n * head_bytes) (attn_comp_cache_for_write il) (put_attn_comp_cache il) (True, with_layer g il l, pin (a @ more') rest m)
      = (True, with_layer g il (l\<lparr>gl_attn_comp_cache := ?c\<rparr>), pin more' rest m)"
      unfolding split using plain len fit il(1)
      by (simp add: into_gpu_def attn_comp_cache_for_write_def put_attn_comp_cache_def with_layer_simps rows_fit_def
          read_tensor_pin put_at_def pin_empty)
    show thesis
      by (rule that [of "gg_attn_comp_unpack_cache g" "gl_attn_comp_tq_cache l" ?c])
        (use nz 1 plain il(1) len in \<open>simp_all add: rows_held_def gpu_graph_pack_attn_comp_rows_def with_layer_simps\<close>)
  qed
qed

lemma load_index_rows:
  assumes il: "il < length (gg_layer g)" "il < DS4_N_LAYER" and n: "n \<le> gl_comp_cap l"
    and fit: "rows_fit k (gg_turbo_packv4 g) index_bytes n (length (gl_index_comp_cache l)) (length (gg_index_comp_unpack_cache g)) d"
  obtains v c t where
    "gpu_graph_pack_index_comp_rows k il n
       (into_gpu 0 (unat n * index_bytes) (index_comp_cache_for_write il) (put_index_comp_cache il)
               (True, with_layer g il l, pin (d @ more') rest m))
      = (True, with_layer (g\<lparr>gg_index_comp_unpack_cache := v\<rparr>) il (l\<lparr>gl_index_comp_cache := c, gl_index_comp_tq_cache := t\<rparr>), pin more' rest m)"
    "length v = length (gg_index_comp_unpack_cache g)" "rows_held k (gg_turbo_packv4 g) index_bytes n c t d"
proof -
  have len: "length d = unat n * index_bytes" using fit by (simp add: rows_fit_def)
  have split: "pin (d @ more') rest m = pin d (more' @ rest) (length more' + m)" by (rule pin_append)
  show thesis
  proof (cases "gg_turbo_packv4 g")
    case packs: True
    let ?v = "d @ drop (length d) (gg_index_comp_unpack_cache g)"
    have 1: "into_gpu 0 (unat n * index_bytes) (index_comp_cache_for_write il) (put_index_comp_cache il) (True, with_layer g il l, pin (d @ more') rest m)
      = (True, with_layer (g\<lparr>gg_index_comp_unpack_cache := ?v\<rparr>) il l, pin more' rest m)"
      unfolding split using packs len fit il(1)
      by (simp add: into_gpu_def index_comp_cache_for_write_def put_index_comp_cache_def with_layer_def on_gpu_layer_def
          read_tensor_pin put_at_def pin_empty rows_fit_def)
    have lv: "length ?v = length (gg_index_comp_unpack_cache g)" using fit packs by (simp add: rows_fit_def)
    show thesis
    proof (cases "n = 0")
      case True
      show thesis
        by (rule that [of ?v "gl_index_comp_tq_cache l" "gl_index_comp_cache l"])
          (use 1 lv packs in \<open>simp_all add: True gpu_graph_pack_index_comp_rows_def rows_held_def\<close>)
    next
      case False
      with fit packs obtain p where p: "tk_pack k index_bytes d = Some p"
        "\<And>t. tk_unpack k index_bytes (unat n) (put_at t 0 p) = Some d" by (auto simp: rows_fit_def reproduces_def)
      let ?l = "l\<lparr>gl_index_comp_cache := gl_index_comp_cache l, gl_index_comp_tq_cache := put_at (gl_index_comp_tq_cache l) 0 p\<rparr>"
      have 2: "gpu_graph_pack_index_comp_rows k il n (True, with_layer (g\<lparr>gg_index_comp_unpack_cache := ?v\<rparr>) il l, pin more' rest m)
        = (True, with_layer (g\<lparr>gg_index_comp_unpack_cache := ?v\<rparr>) il ?l, pin more' rest m)"
        using packs len p(1) il n False
        by (cases l) (simp add: gpu_graph_pack_index_comp_rows_def index_comp_cache_for_write_def with_layer_def on_gpu_layer_def word_le_nat_alt)
      show thesis
        by (rule that [of ?v "put_at (gl_index_comp_tq_cache l) 0 p" "gl_index_comp_cache l"])
          (use 1 2 p packs lv in \<open>simp_all add: rows_held_def\<close>)
    qed
  next
    case plain: False
    let ?c = "d @ drop (length d) (gl_index_comp_cache l)"
    have 1: "into_gpu 0 (unat n * index_bytes) (index_comp_cache_for_write il) (put_index_comp_cache il) (True, with_layer g il l, pin (d @ more') rest m)
      = (True, with_layer g il (l\<lparr>gl_index_comp_cache := ?c\<rparr>), pin more' rest m)"
      unfolding split using plain len fit il(1)
      by (simp add: into_gpu_def index_comp_cache_for_write_def put_index_comp_cache_def with_layer_simps rows_fit_def
          read_tensor_pin put_at_def pin_empty)
    show thesis
      by (rule that [of "gg_index_comp_unpack_cache g" "gl_index_comp_tq_cache l" ?c])
        (use 1 plain il(1) len in \<open>simp_all add: rows_held_def gpu_graph_pack_index_comp_rows_def with_layer_simps\<close>)
  qed
qed

text \<open>What a layer is after its image was read.\<close>

definition restored :: "turbo_kernels \<Rightarrow> bool \<Rightarrow> nat \<Rightarrow> nat \<Rightarrow> nat \<Rightarrow> nat \<Rightarrow> (nat \<Rightarrow> byte list) \<Rightarrow> u32 \<Rightarrow> u32
    \<Rightarrow> byte list list \<Rightarrow> byte list list \<Rightarrow> gpu_layer \<Rightarrow> gpu_layer \<Rightarrow> bool" where
  "restored k packs il c live first row nc nic attn index l l' \<longleftrightarrow>
     gl_n_comp l' = gl_n_comp l \<and> gl_n_index_comp l' = gl_n_index_comp l \<and> gl_comp_cap l' = gl_comp_cap l
     \<and> length (gl_raw_cache l') = length (gl_raw_cache l)
     \<and> (\<forall>r < live. subslice (gl_raw_cache l') (((first + r) mod c) * head_bytes) head_bytes = row r)
     \<and> (layer_ratio il \<noteq> 0 \<longrightarrow> (\<exists>a. attn = [a, gl_attn_state_kv l', gl_attn_state_score l']
          \<and> rows_held k packs head_bytes nc (gl_attn_comp_cache l') (gl_attn_comp_tq_cache l') a))
     \<and> (layer_ratio il = 4 \<longrightarrow> (\<exists>d. index = [d, gl_index_state_kv l', gl_index_state_score l']
          \<and> rows_held k packs index_bytes nic (gl_index_comp_cache l') (gl_index_comp_tq_cache l') d))"

definition with_scratch :: "ds4_gpu_graph \<Rightarrow> byte list \<Rightarrow> byte list \<Rightarrow> ds4_gpu_graph" where
  "with_scratch g u v = g\<lparr>gg_attn_comp_unpack_cache := u, gg_index_comp_unpack_cache := v\<rparr>"

lemma with_scratch_simps [simp]:
  "gg_layer (with_scratch g u v) = gg_layer g" "gg_raw_cap (with_scratch g u v) = gg_raw_cap g"
  "gg_turbo_packv4 (with_scratch g u v) = gg_turbo_packv4 g" "gg_comp_cap (with_scratch g u v) = gg_comp_cap g"
  "gg_attn_comp_unpack_cache (with_scratch g u v) = u" "gg_index_comp_unpack_cache (with_scratch g u v) = v"
  "with_scratch g (gg_attn_comp_unpack_cache g) (gg_index_comp_unpack_cache g) = g"
  by (simp_all add: with_scratch_def)

text \<open>The image fits the layer of the graph.\<close>

definition attn_image_fits :: "turbo_kernels \<Rightarrow> ds4_gpu_graph \<Rightarrow> nat \<Rightarrow> u32 \<Rightarrow> byte list list \<Rightarrow> bool" where
  "attn_image_fits k g il nc attn \<longleftrightarrow>
     (\<exists>a a1 a2. attn = [a, a1, a2] \<and> nc \<le> gl_comp_cap (gg_layer g ! il)
        \<and> rows_fit k (gg_turbo_packv4 g) head_bytes nc (length (gl_attn_comp_cache (gg_layer g ! il))) (length (gg_attn_comp_unpack_cache g)) a
        \<and> length a1 = layer_attn_state_bytes (layer_ratio il) \<and> length a2 = layer_attn_state_bytes (layer_ratio il))"

definition index_image_fits :: "turbo_kernels \<Rightarrow> ds4_gpu_graph \<Rightarrow> nat \<Rightarrow> u32 \<Rightarrow> byte list list \<Rightarrow> bool" where
  "index_image_fits k g il nic index \<longleftrightarrow>
     (\<exists>d d1 d2. index = [d, d1, d2] \<and> nic \<le> gl_comp_cap (gg_layer g ! il)
        \<and> rows_fit k (gg_turbo_packv4 g) index_bytes nic (length (gl_index_comp_cache (gg_layer g ! il))) (length (gg_index_comp_unpack_cache g)) d
        \<and> length d1 = layer_index_state_bytes (layer_ratio il) \<and> length d2 = layer_index_state_bytes (layer_ratio il))"

lemma load_layer_gpu_ok:
  assumes il: "il < length (gg_layer g)" "il < DS4_N_LAYER" and ok: "layer_ok g il"
    and room: "unat (n - live) + unat live < 2 ^ 32" "unat live \<le> unat (gg_raw_cap g)"
    and rows: "\<forall>r < unat live. length (row r) = head_bytes"
    and attn: "layer_ratio il \<noteq> 0 \<Longrightarrow> attn_image_fits k g il (ncs ! il) attn"
    and index: "layer_ratio il = 4 \<Longrightarrow> index_image_fits k g il (nics ! il) index"
  obtains l' u v where "load_layer_gpu k n live ncs nics il (True, g, pin (concat (map row [0..<unat live]
        @ (if layer_ratio il = 0 then [] else attn) @ (if layer_ratio il = 4 then index else []))) rest m)
      = (True, with_layer (with_scratch g u v) il l', pin [] rest m)"
    "length u = length (gg_attn_comp_unpack_cache g)" "length v = length (gg_index_comp_unpack_cache g)"
    "restored k (gg_turbo_packv4 g) il (unat (gg_raw_cap g)) (unat live) (unat (n - live)) row (ncs ! il) (nics ! il) attn index (gg_layer g ! il) l'"
proof -
  define l where "l = gg_layer g ! il"
  define more where "more = concat ((if layer_ratio il = 0 then [] else attn) @ (if layer_ratio il = 4 then index else []))"
  have L: "length (gl_raw_cache l) = unat (gg_raw_cap g) * head_bytes"
    "layer_ratio il \<noteq> 0 \<Longrightarrow> length (gl_attn_state_kv l) = layer_attn_state_bytes (layer_ratio il)
       \<and> length (gl_attn_state_score l) = layer_attn_state_bytes (layer_ratio il)"
    "layer_ratio il = 4 \<Longrightarrow> length (gl_index_state_kv l) = layer_index_state_bytes (layer_ratio il)
       \<and> length (gl_index_state_score l) = layer_index_state_bytes (layer_ratio il)"
    using ok by (simp_all add: layer_ok_def Let_def l_def)
  obtain t where t: "fold (\<lambda>r. load_raw_row il (n - live) (of_nat r)) [0..<unat live]
      (True, g, pin (concat (map row [0..<unat live])) (more @ rest) (length more + m))
      = (True, on_gpu_layer il (gl_raw_cache_update (\<lambda>_. t)) g, pin [] (more @ rest) (length more + m))"
    "length t = unat (gg_raw_cap g) * head_bytes"
    "\<And>r. r < unat live \<Longrightarrow> subslice t (((unat (n - live) + r) mod unat (gg_raw_cap g)) * head_bytes) head_bytes = row r"
    using load_raw_rows [OF il(1) rows room L(1) [unfolded l_def], of "more @ rest" "length more + m"] by metis
  define l1 where "l1 = l\<lparr>gl_raw_cache := t\<rparr>"
  define content where "content = concat (map row [0..<unat live]
      @ (if layer_ratio il = 0 then [] else attn) @ (if layer_ratio il = 4 then index else []))"
  have content: "pin content rest m = pin (concat (map row [0..<unat live])) (more @ rest) (length more + m)"
    unfolding content_def more_def concat_append [of "map row [0..<unat live]"] by (rule pin_append)
  have raw: "fold (\<lambda>r. load_raw_row il (n - live) (of_nat r)) [0..<unat live] (True, g, pin content rest m)
      = (True, with_layer g il l1, pin more rest m)"
    unfolding content t(1) using il by (simp add: pin_empty with_layer_id l1_def l_def)
  note that' = that [folded content_def l_def]
  have eq0: "length t = length (gl_raw_cache l)" using t(2) L(1) by simp
  show thesis
  proof (cases "layer_ratio il = 0")
    case True
    then have "load_layer_gpu k n live ncs nics il (True, g, pin content rest m) = (True, with_layer g il l1, pin [] rest m)"
      using raw by (simp add: load_layer_gpu_def more_def)
    then show thesis
      by (intro that' [of "gg_attn_comp_unpack_cache g" "gg_index_comp_unpack_cache g" l1])
        (use True t eq0 in \<open>simp_all add: restored_def l1_def\<close>)
  next
    case False
    from attn [OF False] obtain a a1 a2 where a: "attn = [a, a1, a2]" "ncs ! il \<le> gl_comp_cap l1"
      "rows_fit k (gg_turbo_packv4 g) head_bytes (ncs ! il) (length (gl_attn_comp_cache l1)) (length (gg_attn_comp_unpack_cache g)) a"
      "length a1 = layer_attn_state_bytes (layer_ratio il)" "length a2 = layer_attn_state_bytes (layer_ratio il)"
      by (auto simp: attn_image_fits_def l1_def l_def)
    define idx where "idx = concat (if layer_ratio il = 4 then index else [])"
    have more: "more = a @ (a1 @ a2 @ idx)" using False by (simp add: more_def a(1) idx_def)
    obtain u c tq where u: "gpu_graph_pack_attn_comp_rows k il (ncs ! il)
       (if unat (ncs ! il) * head_bytes = 0 then (True, with_layer g il l1, pin more rest m)
        else into_gpu 0 (unat (ncs ! il) * head_bytes) (attn_comp_cache_for_write il) (put_attn_comp_cache il) (True, with_layer g il l1, pin more rest m))
      = (True, with_layer (g\<lparr>gg_attn_comp_unpack_cache := u\<rparr>) il (l1\<lparr>gl_attn_comp_cache := c, gl_attn_comp_tq_cache := tq\<rparr>), pin (a1 @ a2 @ idx) rest m)"
      "length u = length (gg_attn_comp_unpack_cache g)" "rows_held k (gg_turbo_packv4 g) head_bytes (ncs ! il) c tq a"
      unfolding more by (rule load_attn_rows [OF il a(2,3)])
    define g1 where "g1 = g\<lparr>gg_attn_comp_unpack_cache := u\<rparr>"
    define l2 where "l2 = l1\<lparr>gl_attn_comp_cache := c, gl_attn_comp_tq_cache := tq\<rparr>"
    define l4 where "l4 = l2\<lparr>gl_attn_state_kv := a1, gl_attn_state_score := a2\<rparr>"
    have g1: "il < length (gg_layer g1)" "gg_turbo_packv4 g1 = gg_turbo_packv4 g"
      "gg_index_comp_unpack_cache g1 = gg_index_comp_unpack_cache g" using il by (simp_all add: g1_def)
    have s2: "into_layer il 0 (layer_attn_state_bytes (layer_ratio il)) gl_attn_state_kv (\<lambda>t. gl_attn_state_kv_update (\<lambda>_. t))
        (True, with_layer g1 il l2, pin (a1 @ a2 @ idx) rest m)
      = (True, with_layer g1 il (l2\<lparr>gl_attn_state_kv := a1\<rparr>), pin (a2 @ idx) rest m)"
      using into_layer_full [OF g1(1) a(4), of gl_attn_state_kv l2] L(2) [OF False] by (simp add: l2_def l1_def)
    have s3: "into_layer il 0 (layer_attn_state_bytes (layer_ratio il)) gl_attn_state_score (\<lambda>t. gl_attn_state_score_update (\<lambda>_. t))
        (True, with_layer g1 il (l2\<lparr>gl_attn_state_kv := a1\<rparr>), pin (a2 @ idx) rest m)
      = (True, with_layer g1 il l4, pin idx rest m)"
      using into_layer_full [OF g1(1) a(5), of gl_attn_state_score "l2\<lparr>gl_attn_state_kv := a1\<rparr>"] L(2) [OF False]
      by (simp add: l4_def l2_def l1_def)
    note s1 = u(1) [folded g1_def l2_def]
    show thesis
    proof (cases "layer_ratio il = 4")
      case no4: False
      then have "load_layer_gpu k n live ncs nics il (True, g, pin content rest m) = (True, with_layer g1 il l4, pin [] rest m)"
        unfolding load_layer_gpu_def Let_def raw using s1 s2 s3 False by (simp add: idx_def)
      moreover have "g1 = with_scratch g u (gg_index_comp_unpack_cache g)" by (simp add: g1_def with_scratch_def)
      moreover have "restored k (gg_turbo_packv4 g) il (unat (gg_raw_cap g)) (unat live) (unat (n - live)) row (ncs ! il) (nics ! il) attn index l l4"
        using no4 t(3) eq0 u(3) a(1) by (simp add: restored_def l4_def l2_def l1_def)
      ultimately show thesis by (intro that' [of u "gg_index_comp_unpack_cache g" l4]) (simp_all add: u(2))
    next
      case True
      from index [OF True] obtain d d1 d2 where d: "index = [d, d1, d2]" "nics ! il \<le> gl_comp_cap l4"
        "rows_fit k (gg_turbo_packv4 g1) index_bytes (nics ! il) (length (gl_index_comp_cache l4)) (length (gg_index_comp_unpack_cache g1)) d"
        "length d1 = layer_index_state_bytes (layer_ratio il)" "length d2 = layer_index_state_bytes (layer_ratio il)"
        by (auto simp: index_image_fits_def l4_def l2_def l1_def l_def g1_def)
      have idx: "idx = d @ (d1 @ d2)" using True by (simp add: idx_def d(1))
      obtain v ic it where v: "gpu_graph_pack_index_comp_rows k il (nics ! il)
         (into_gpu 0 (unat (nics ! il) * index_bytes) (index_comp_cache_for_write il) (put_index_comp_cache il) (True, with_layer g1 il l4, pin idx rest m))
        = (True, with_layer (g1\<lparr>gg_index_comp_unpack_cache := v\<rparr>) il (l4\<lparr>gl_index_comp_cache := ic, gl_index_comp_tq_cache := it\<rparr>), pin (d1 @ d2) rest m)"
        "length v = length (gg_index_comp_unpack_cache g1)" "rows_held k (gg_turbo_packv4 g1) index_bytes (nics ! il) ic it d"
        unfolding idx by (rule load_index_rows [OF g1(1) il(2) d(2,3)])
      have g2: "g1\<lparr>gg_index_comp_unpack_cache := v\<rparr> = with_scratch g u v" by (simp add: g1_def with_scratch_def)
      define l5 where "l5 = l4\<lparr>gl_index_comp_cache := ic, gl_index_comp_tq_cache := it\<rparr>"
      define l7 where "l7 = l5\<lparr>gl_index_state_kv := d1, gl_index_state_score := d2\<rparr>"
      have il2: "il < length (gg_layer (with_scratch g u v))" using il by simp
      have s5: "into_layer il 0 (layer_index_state_bytes (layer_ratio il)) gl_index_state_kv (\<lambda>t. gl_index_state_kv_update (\<lambda>_. t))
          (True, with_layer (with_scratch g u v) il l5, pin (d1 @ d2) rest m)
        = (True, with_layer (with_scratch g u v) il (l5\<lparr>gl_index_state_kv := d1\<rparr>), pin d2 rest m)"
        using into_layer_full [OF il2 d(4), of gl_index_state_kv l5] L(3) [OF True] by (simp add: l5_def l4_def l2_def l1_def)
      have s6: "into_layer il 0 (layer_index_state_bytes (layer_ratio il)) gl_index_state_score (\<lambda>t. gl_index_state_score_update (\<lambda>_. t))
          (True, with_layer (with_scratch g u v) il (l5\<lparr>gl_index_state_kv := d1\<rparr>), pin d2 rest m)
        = (True, with_layer (with_scratch g u v) il l7, pin [] rest m)"
        using into_layer_full [OF il2 d(5), of gl_index_state_score "l5\<lparr>gl_index_state_kv := d1\<rparr>" _ "[]"] L(3) [OF True]
        by (simp add: l7_def l5_def l4_def l2_def l1_def)
      have "load_layer_gpu k n live ncs nics il (True, g, pin content rest m) = (True, with_layer (with_scratch g u v) il l7, pin [] rest m)"
        unfolding load_layer_gpu_def Let_def raw using s1 s2 s3 v(1) [folded l5_def, unfolded g2] s5 s6 False True by simp
      moreover have "restored k (gg_turbo_packv4 g) il (unat (gg_raw_cap g)) (unat live) (unat (n - live)) row (ncs ! il) (nics ! il) attn index l l7"
        using t(3) eq0 u(3) v(3) a(1) d(1) by (simp add: restored_def l7_def l5_def l4_def l2_def l1_def g1(2))
      ultimately show thesis by (intro that' [of u v l7]) (simp_all add: u(2) v(2) g1(3))
    qed
  qed
qed

section \<open>All layers\<close>

text \<open>The parts of a layer's image: rows, attention part, indexer part.\<close>

definition image_of :: "nat \<Rightarrow> nat \<Rightarrow> (nat \<Rightarrow> nat \<Rightarrow> byte list) \<Rightarrow> (nat \<Rightarrow> byte list list) \<Rightarrow> (nat \<Rightarrow> byte list list) \<Rightarrow> byte list" where
  "image_of il live row attn index = concat (map (row il) [0..<live]
     @ (if layer_ratio il = 0 then [] else attn il) @ (if layer_ratio il = 4 then index il else []))"

definition image_fits :: "turbo_kernels \<Rightarrow> ds4_gpu_graph \<Rightarrow> nat \<Rightarrow> nat \<Rightarrow> (nat \<Rightarrow> nat \<Rightarrow> byte list) \<Rightarrow> u32 \<Rightarrow> u32
    \<Rightarrow> (nat \<Rightarrow> byte list list) \<Rightarrow> (nat \<Rightarrow> byte list list) \<Rightarrow> bool" where
  "image_fits k g il live row nc nic attn index \<longleftrightarrow>
     (\<forall>r < live. length (row il r) = head_bytes)
     \<and> (layer_ratio il \<noteq> 0 \<longrightarrow> attn_image_fits k g il nc (attn il))
     \<and> (layer_ratio il = 4 \<longrightarrow> index_image_fits k g il nic (index il))"

lemma image_fits_cong:
  "gg_layer g1 ! il = gg_layer g ! il \<Longrightarrow> gg_turbo_packv4 g1 = gg_turbo_packv4 g
   \<Longrightarrow> length (gg_attn_comp_unpack_cache g1) = length (gg_attn_comp_unpack_cache g)
   \<Longrightarrow> length (gg_index_comp_unpack_cache g1) = length (gg_index_comp_unpack_cache g)
   \<Longrightarrow> image_fits k g1 il live row nc nic attn index = image_fits k g il live row nc nic attn index"
  by (simp add: image_fits_def attn_image_fits_def index_image_fits_def)

lemma load_layers_prefix:
  assumes len: "length (gg_layer g) = DS4_N_LAYER" and ok: "\<forall>il < DS4_N_LAYER. layer_ok g il"
    and room: "unat (n - live) + unat live < 2 ^ 32" "unat live \<le> unat (gg_raw_cap g)"
    and fits: "\<forall>il < DS4_N_LAYER. image_fits k g il (unat live) row (ncs ! il) (nics ! il) attn index"
    and j: "j \<le> DS4_N_LAYER"
  obtains ls u v where "fold (\<lambda>il x. if fst x then load_layer_gpu k n live ncs nics il x else x) [0..<j]
      (True, g, pin (concat (map (\<lambda>il. image_of il (unat live) row attn index) [0..<j])) rest m)
      = (True, (with_scratch g u v)\<lparr>gg_layer := ls\<rparr>, pin [] rest m)"
    "length u = length (gg_attn_comp_unpack_cache g)" "length v = length (gg_index_comp_unpack_cache g)"
    "length ls = DS4_N_LAYER" "\<And>il. j \<le> il \<Longrightarrow> ls ! il = gg_layer g ! il"
    "\<And>il. il < j \<Longrightarrow> restored k (gg_turbo_packv4 g) il (unat (gg_raw_cap g)) (unat live) (unat (n - live)) (row il) (ncs ! il) (nics ! il) (attn il) (index il) (gg_layer g ! il) (ls ! il)"
  using j
proof (induction j arbitrary: thesis rest m)
  case 0
  show ?case
    by (rule 0(1) [of "gg_layer g" "gg_attn_comp_unpack_cache g" "gg_index_comp_unpack_cache g"]) (simp_all add: len)
next
  case (Suc j)
  let ?img = "\<lambda>il. image_of il (unat live) row attn index"
  from Suc.prems(2) have j: "j < DS4_N_LAYER" by simp
  obtain ls u v where ls: "fold (\<lambda>il x. if fst x then load_layer_gpu k n live ncs nics il x else x) [0..<j]
      (True, g, pin (concat (map ?img [0..<j])) (?img j @ rest) (length (?img j) + m))
      = (True, (with_scratch g u v)\<lparr>gg_layer := ls\<rparr>, pin [] (?img j @ rest) (length (?img j) + m))"
    "length u = length (gg_attn_comp_unpack_cache g)" "length v = length (gg_index_comp_unpack_cache g)"
    "length ls = DS4_N_LAYER" "\<And>il. j \<le> il \<Longrightarrow> ls ! il = gg_layer g ! il"
    "\<And>il. il < j \<Longrightarrow> restored k (gg_turbo_packv4 g) il (unat (gg_raw_cap g)) (unat live) (unat (n - live)) (row il) (ncs ! il) (nics ! il) (attn il) (index il) (gg_layer g ! il) (ls ! il)"
    by (rule Suc.IH [OF _ less_imp_le [OF j], of "?img j @ rest" "length (?img j) + m"]) (rule that)
  define g1 where "g1 = (with_scratch g u v)\<lparr>gg_layer := ls\<rparr>"
  have same: "gg_layer g1 ! j = gg_layer g ! j" "gg_turbo_packv4 g1 = gg_turbo_packv4 g" "gg_raw_cap g1 = gg_raw_cap g"
    "length (gg_attn_comp_unpack_cache g1) = length (gg_attn_comp_unpack_cache g)"
    "length (gg_index_comp_unpack_cache g1) = length (gg_index_comp_unpack_cache g)"
    using ls(2,3,5) by (simp_all add: g1_def)
  have fit: "image_fits k g1 j (unat live) row (ncs ! j) (nics ! j) attn index"
    using fits j by (simp add: image_fits_cong [OF same(1,2,4,5)])
  have ok1: "layer_ok g1 j" using ok j ls(5) [of j] by (simp add: layer_ok_def g1_def)
  have rows: "\<forall>r < unat live. length (row j r) = head_bytes"
    and at: "layer_ratio j \<noteq> 0 \<Longrightarrow> attn_image_fits k g1 j (ncs ! j) (attn j)"
    and ix: "layer_ratio j = 4 \<Longrightarrow> index_image_fits k g1 j (nics ! j) (index j)"
    using fit unfolding image_fits_def by blast+
  have g1: "j < length (gg_layer g1)" "unat live \<le> unat (gg_raw_cap g1)"
    using j ls(4) room same(3) by (simp_all add: g1_def)
  obtain l' u' v' where l': "load_layer_gpu k n live ncs nics j (True, g1, pin (?img j) rest m) = (True, with_layer (with_scratch g1 u' v') j l', pin [] rest m)"
    "length u' = length (gg_attn_comp_unpack_cache g1)" "length v' = length (gg_index_comp_unpack_cache g1)"
    "restored k (gg_turbo_packv4 g1) j (unat (gg_raw_cap g1)) (unat live) (unat (n - live)) (row j) (ncs ! j) (nics ! j) (attn j) (index j) (gg_layer g1 ! j) l'"
    unfolding image_of_def by (rule load_layer_gpu_ok [OF g1(1) j ok1 room(1) g1(2) rows at ix])
  have "with_layer (with_scratch g1 u' v') j l' = (with_scratch g u' v')\<lparr>gg_layer := ls[j := l']\<rparr>"
    by (simp add: with_layer_def on_gpu_layer_def g1_def with_scratch_def)
  then have "fold (\<lambda>il x. if fst x then load_layer_gpu k n live ncs nics il x else x) [0..<Suc j]
      (True, g, pin (concat (map ?img [0..<Suc j])) rest m) = (True, (with_scratch g u' v')\<lparr>gg_layer := ls[j := l']\<rparr>, pin [] rest m)"
    using ls(1) l'(1) by (simp add: pin_append pin_empty g1_def)
  moreover have "restored k (gg_turbo_packv4 g) il (unat (gg_raw_cap g)) (unat live) (unat (n - live)) (row il) (ncs ! il) (nics ! il) (attn il) (index il) (gg_layer g ! il) (ls[j := l'] ! il)"
    if "il < Suc j" for il
    using that ls(4,6) l'(4) j unfolding same by (cases "il = j") simp_all
  moreover have "ls[j := l'] ! il = gg_layer g ! il" if "Suc j \<le> il" for il using that ls(5) by simp
  ultimately show ?case using ls(4) l'(2,3) same(4,5) by (intro Suc.prems(1) [of "ls[j := l']" u' v']) simp_all
qed

section \<open>The device session\<close>

definition gpu_session_ok :: "ds4_session \<Rightarrow> bool" where
  "gpu_session_ok s \<longleftrightarrow> \<not> se_cpu s \<and> graph_ok (se_graph s) \<and> length (se_logits s) = logits_bytes"

text \<open>A session that can take over a checkpoint of another.\<close>

definition gpu_compatible :: "ds4_session \<Rightarrow> ds4_session \<Rightarrow> bool" where
  "gpu_compatible s s' \<longleftrightarrow>
     (let g = se_graph s; g' = se_graph s' in
      se_ctx_size s \<le> se_ctx_size s' \<and> length (se_checkpoint s) < unat (se_ctx_size s') \<and> se_prefill_cap s = se_prefill_cap s'
      \<and> gg_raw_window g = gg_raw_window g' \<and> gg_comp_cap g \<le> gg_comp_cap g'
      \<and> (\<forall>il < DS4_N_LAYER. gl_comp_cap (gg_layer g ! il) \<le> gl_comp_cap (gg_layer g' ! il)))"

text \<open>The positions whose raw rows are saved.\<close>

definition live_positions :: "ds4_session \<Rightarrow> nat list" where
  "live_positions s =
     (let n = of_nat (length (se_checkpoint s)); live = session_raw_live_rows (se_graph s) n
      in [unat (n - live)..<unat (n - live) + unat live])"

lemma written_all_map:
  "written (all_writes (map f is)) = Some c \<Longrightarrow> c = concat (map (\<lambda>i. the (written (f i))) is) \<and> (\<forall>i \<in> set is. written (f i) \<noteq> None)"
  by (induction "is" arbitrary: c) (auto simp: written_then split: option.splits)

lemma raw_live_bounds:
  assumes "graph_ok g"
  shows "session_raw_live_rows g n \<le> n" "session_raw_live_rows g n \<le> gg_raw_cap g"
    "session_raw_live_rows g n = (if n < gg_raw_window g then n else gg_raw_window g)" "gg_raw_cap g \<noteq> 0"
proof -
  from assms have w: "gg_raw_window g \<noteq> 0" "gg_raw_window g \<le> gg_raw_cap g" by (simp_all add: graph_ok_def)
  show 0: "session_raw_live_rows g n = (if n < gg_raw_window g then n else gg_raw_window g)"
    using w by (auto simp: session_raw_live_rows_def Let_def not_less)
  show "session_raw_live_rows g n \<le> n" by (auto simp: 0 not_less)
  show "session_raw_live_rows g n \<le> gg_raw_cap g" using w by (auto simp: 0 intro: order_trans less_imp_le)
  show "gg_raw_cap g \<noteq> 0" using w by auto
qed

lemma image_of_content:
  "image_of il live (\<lambda>il r. ring_row g il (first + r))
      (\<lambda>il. [comp_rows k g il, gl_attn_state_kv (gg_layer g ! il), gl_attn_state_score (gg_layer g ! il)])
      (\<lambda>il. [index_rows k g il, gl_index_state_kv (gg_layer g ! il), gl_index_state_score (gg_layer g ! il)])
    = concat (layer_content k g [first..<first + live] il)"
proof -
  have "map (\<lambda>r. ring_row g il (first + r)) [0..<live] = map (ring_row g il) [first..<first + live]"
    by (rule map_shift)
  then show ?thesis by (simp add: image_of_def layer_content_def Let_def)
qed

lemma held_attn_rows:
  assumes "rows_held k (gg_turbo_packv4 g) head_bytes (gl_n_comp l) (gl_attn_comp_cache l) (gl_attn_comp_tq_cache l) a"
    and "length a = unat (gl_n_comp l) * head_bytes" "gg_layer g ! il = l" "il < DS4_N_LAYER"
    and "gl_n_comp l \<le> gl_comp_cap l" "gl_n_comp l \<le> gg_comp_cap g"
  shows "comp_rows k g il = a"
proof (cases "gl_n_comp l = 0")
  case True
  then show ?thesis using assms(2,3) by (simp add: comp_rows_def)
next
  case False
  then show ?thesis
    using assms by (auto simp: comp_rows_def gpu_graph_attn_comp_cache_for_read_def rows_held_def not_less Let_def)
qed

lemma held_index_rows:
  assumes "rows_held k (gg_turbo_packv4 g) index_bytes (gl_n_index_comp l) (gl_index_comp_cache l) (gl_index_comp_tq_cache l) d"
    and "length d = unat (gl_n_index_comp l) * index_bytes" "gg_layer g ! il = l" "il < DS4_N_LAYER"
    and "gl_n_index_comp l \<le> gl_comp_cap l" "gl_n_index_comp l \<le> gg_comp_cap g"
  shows "index_rows k g il = d"
proof (cases "gl_n_index_comp l = 0")
  case True
  then show ?thesis using assms(2,3) by (simp add: index_rows_def)
next
  case False
  then show ?thesis
    using assms by (auto simp: index_rows_def gpu_graph_index_comp_cache_for_read_def rows_held_def not_less Let_def)
qed

lemma restored_content:
  assumes il: "il < DS4_N_LAYER"
    and l: "gg_layer g2 ! il = l'\<lparr>gl_n_comp := gl_n_comp (gg_layer g ! il), gl_n_index_comp := gl_n_index_comp (gg_layer g ! il)\<rparr>"
    and r: "restored k' (gg_turbo_packv4 g2) il (unat (gg_raw_cap g2)) live first (\<lambda>r. ring_row g il (first + r))
        (gl_n_comp (gg_layer g ! il)) (gl_n_index_comp (gg_layer g ! il))
        [comp_rows k g il, gl_attn_state_kv (gg_layer g ! il), gl_attn_state_score (gg_layer g ! il)]
        [index_rows k g il, gl_index_state_kv (gg_layer g ! il), gl_index_state_score (gg_layer g ! il)] l0 l'"
    and d: "layer_ratio il \<noteq> 0 \<longrightarrow> length (comp_rows k g il) = unat (gl_n_comp (gg_layer g ! il)) * head_bytes"
      "layer_ratio il = 4 \<longrightarrow> length (index_rows k g il) = unat (gl_n_index_comp (gg_layer g ! il)) * index_bytes"
    and caps: "gl_n_comp (gg_layer g ! il) \<le> gl_comp_cap l0" "gl_n_index_comp (gg_layer g ! il) \<le> gl_comp_cap l0" "gl_comp_cap l0 \<le> gg_comp_cap g2"
  shows "layer_content k' g2 [first..<first + live] il = layer_content k g [first..<first + live] il"
proof -
  have rows: "map (ring_row g2 il) [first..<first + live] = map (ring_row g il) [first..<first + live]"
  proof (rule map_cong [OF refl])
    fix p assume "p \<in> set [first..<first + live]"
    then have p: "p - first < live" "first + (p - first) = p" by auto
    have "ring_row g2 il p = subslice (gl_raw_cache l') (((first + (p - first)) mod unat (gg_raw_cap g2)) * head_bytes) head_bytes"
      by (simp add: ring_row_def l p(2))
    also have "\<dots> = ring_row g il (first + (p - first))" using r p(1) unfolding restored_def by blast
    finally show "ring_row g2 il p = ring_row g il p" unfolding p(2) .
  qed
  have cap: "gl_comp_cap l' = gl_comp_cap l0" using r by (simp add: restored_def)
  have le: "gl_n_comp (gg_layer g ! il) \<le> gg_comp_cap g2" "gl_n_index_comp (gg_layer g ! il) \<le> gg_comp_cap g2"
    using caps by (blast intro: order_trans)+
  have attn: "comp_rows k' g2 il = comp_rows k g il" "gl_attn_state_kv (gg_layer g2 ! il) = gl_attn_state_kv (gg_layer g ! il)"
    "gl_attn_state_score (gg_layer g2 ! il) = gl_attn_state_score (gg_layer g ! il)" if "layer_ratio il \<noteq> 0"
  proof -
    from r that have 1: "rows_held k' (gg_turbo_packv4 g2) head_bytes (gl_n_comp (gg_layer g ! il)) (gl_attn_comp_cache l') (gl_attn_comp_tq_cache l') (comp_rows k g il)"
      "gl_attn_state_kv l' = gl_attn_state_kv (gg_layer g ! il)" "gl_attn_state_score l' = gl_attn_state_score (gg_layer g ! il)"
      by (simp_all add: restored_def)
    then show "gl_attn_state_kv (gg_layer g2 ! il) = gl_attn_state_kv (gg_layer g ! il)"
      "gl_attn_state_score (gg_layer g2 ! il) = gl_attn_state_score (gg_layer g ! il)" by (simp_all add: l)
    show "comp_rows k' g2 il = comp_rows k g il"
      by (rule held_attn_rows [OF _ _ l il]) (use 1(1) d(1) that caps le cap in simp_all)
  qed
  have index: "index_rows k' g2 il = index_rows k g il" "gl_index_state_kv (gg_layer g2 ! il) = gl_index_state_kv (gg_layer g ! il)"
    "gl_index_state_score (gg_layer g2 ! il) = gl_index_state_score (gg_layer g ! il)" if "layer_ratio il = 4"
  proof -
    from r that have 1: "rows_held k' (gg_turbo_packv4 g2) index_bytes (gl_n_index_comp (gg_layer g ! il)) (gl_index_comp_cache l') (gl_index_comp_tq_cache l') (index_rows k g il)"
      "gl_index_state_kv l' = gl_index_state_kv (gg_layer g ! il)" "gl_index_state_score l' = gl_index_state_score (gg_layer g ! il)"
      by (simp_all add: restored_def)
    then show "gl_index_state_kv (gg_layer g2 ! il) = gl_index_state_kv (gg_layer g ! il)"
      "gl_index_state_score (gg_layer g2 ! il) = gl_index_state_score (gg_layer g ! il)" by (simp_all add: l)
    show "index_rows k' g2 il = index_rows k g il"
      by (rule held_index_rows [OF _ _ l il]) (use 1(1) d(2) that caps le cap in simp_all)
  qed
  show ?thesis using rows attn index by (simp add: layer_content_def Let_def)
qed

lemma u32_fields_small [simp]: "unat DS4_N_HEAD_DIM = 512" "unat DS4_N_INDEXER_HEAD_DIM = 128" "unat DS4_N_VOCAB = 129280"
  by (simp_all add: DS4_N_HEAD_DIM_def DS4_N_INDEXER_HEAD_DIM_def DS4_N_VOCAB_def)

text \<open>The bytes of a complete save, section by section.\<close>

lemma save_gpu_sections:
  assumes ok: "gpu_session_ok s" and n: "length (se_checkpoint s) < 2 ^ 32" and w: "written (save_payload_gpu k s) = Some bytes"
  defines "g \<equiv> se_graph s" and "ps \<equiv> live_positions s"
  shows "bytes = concat (map le_put32 (gpu_header s)) @ concat (map le_put32 (se_checkpoint s)) @ se_logits s
      @ concat (map le_put32 (map gl_n_comp (gg_layer g))) @ concat (map le_put32 (map gl_n_index_comp (gg_layer g)))
      @ concat (map (\<lambda>il. concat (layer_content k g ps il)) [0..<DS4_N_LAYER])"
    "il < DS4_N_LAYER \<Longrightarrow> layer_ratio il \<noteq> 0 \<Longrightarrow> length (comp_rows k g il) = unat (gl_n_comp (gg_layer g ! il)) * head_bytes"
    "il < DS4_N_LAYER \<Longrightarrow> layer_ratio il = 4 \<Longrightarrow> length (index_rows k g il) = unat (gl_n_index_comp (gg_layer g ! il)) * index_bytes"
proof -
  define N where "N = (of_nat (length (se_checkpoint s)) :: u32)"
  define live where "live = session_raw_live_rows g N"
  have gok: "graph_ok g" using ok by (simp add: gpu_session_ok_def g_def)
  note b = raw_live_bounds(1,2,3) [OF gok, of N, folded live_def] raw_live_bounds(4) [OF gok]
  have sum: "unat (N - live) + unat live < 2 ^ 32"
    using unat_sub_le [OF b(1)] b(1) unat_u32_bound [of N] by (simp add: word_le_nat_alt)
  have ps: "ps = [unat (N - live)..<unat (N - live) + unat live]"
    by (simp add: ps_def live_positions_def Let_def N_def live_def g_def)
  define W where "W = (\<lambda>il. save_layer_gpu k g N live il)"
  have w': "written (all_writes ([write_u32s (gpu_header s), write_u32s (se_checkpoint s), write_bytes (se_logits s) logits_bytes,
        write_u32s (map gl_n_comp (gg_layer g)), write_u32s (map gl_n_index_comp (gg_layer g))] @ map W [0..<DS4_N_LAYER])) = Some bytes"
    using w by (simp only: save_payload_gpu_def Let_def g_def [symmetric] N_def [symmetric] live_def [symmetric] W_def)
  then obtain c where c: "written (all_writes (map W [0..<DS4_N_LAYER])) = Some c"
    unfolding written_all_append by (auto split: option.splits)
  note parts = written_all_map [OF c]
  have img: "the (written (W il)) = concat (layer_content k g ps il)"
    and lens: "layer_ratio il \<noteq> 0 \<longrightarrow> length (comp_rows k g il) = unat (gl_n_comp (gg_layer g ! il)) * head_bytes"
      "layer_ratio il = 4 \<longrightarrow> length (index_rows k g il) = unat (gl_n_index_comp (gg_layer g ! il)) * index_bytes"
    if "il < DS4_N_LAYER" for il
  proof -
    have "il \<in> set [0..<DS4_N_LAYER]" using that by simp
    with parts have "\<exists>x. written (W il) = Some x" by blast
    then obtain x where x: "written (save_layer_gpu k g N live il) = Some x" unfolding W_def by blast
    have "layer_ok g il" using gok that by (simp add: graph_ok_def)
    from save_layer_written [OF this b(4) sum x]
    show "the (written (W il)) = concat (layer_content k g ps il)"
      "layer_ratio il \<noteq> 0 \<longrightarrow> length (comp_rows k g il) = unat (gl_n_comp (gg_layer g ! il)) * head_bytes"
      "layer_ratio il = 4 \<longrightarrow> length (index_rows k g il) = unat (gl_n_index_comp (gg_layer g ! il)) * index_bytes"
      using x by (simp_all add: W_def ps)
  qed
  have cc: "c = concat (map (\<lambda>il. concat (layer_content k g ps il)) [0..<DS4_N_LAYER])"
  proof -
    have "map (\<lambda>il. the (written (W il))) [0..<DS4_N_LAYER] = map (\<lambda>il. concat (layer_content k g ps il)) [0..<DS4_N_LAYER]"
      by (rule map_cong) (simp_all add: img)
    then show ?thesis using conjunct1 [OF parts] by (simp only:)
  qed
  have "take logits_bytes (se_logits s) = se_logits s" using ok by (simp add: gpu_session_ok_def)
  then show "bytes = concat (map le_put32 (gpu_header s)) @ concat (map le_put32 (se_checkpoint s)) @ se_logits s
      @ concat (map le_put32 (map gl_n_comp (gg_layer g))) @ concat (map le_put32 (map gl_n_index_comp (gg_layer g)))
      @ concat (map (\<lambda>il. concat (layer_content k g ps il)) [0..<DS4_N_LAYER])"
    using w' c unfolding written_all_append cc by (simp add: written_then)
  show "il < DS4_N_LAYER \<Longrightarrow> layer_ratio il \<noteq> 0 \<Longrightarrow> length (comp_rows k g il) = unat (gl_n_comp (gg_layer g ! il)) * head_bytes"
    "il < DS4_N_LAYER \<Longrightarrow> layer_ratio il = 4 \<Longrightarrow> length (index_rows k g il) = unat (gl_n_index_comp (gg_layer g ! il)) * index_bytes"
    using lens by blast+
qed

lemma u32_as_nat: "(ucast (x :: u32) :: u64) = of_nat (unat x)"
proof -
  have "of_nat (unat (ucast x :: u64)) = (ucast x :: u64)" by simp
  then show ?thesis unfolding unat_ucast_u32_u64 by (rule sym)
qed

lemma layer_content_size:
  assumes ok: "layer_ok g il" and cap: "gg_raw_cap g \<noteq> 0"
    and comp: "layer_ratio il \<noteq> 0 \<Longrightarrow> length (comp_rows k g il) = unat (gl_n_comp (gg_layer g ! il)) * head_bytes"
    and index: "layer_ratio il = 4 \<Longrightarrow> length (index_rows k g il) = unat (gl_n_index_comp (gg_layer g ! il)) * index_bytes"
    and ps: "length ps = unat live"
  shows "length (concat (layer_content k g ps il)) = unat live * head_bytes
      + (if layer_ratio il = 0 then 0
         else unat (gl_n_comp (gg_layer g ! il)) * head_bytes + layer_attn_state_bytes (layer_ratio il) + layer_attn_state_bytes (layer_ratio il)
           + (if layer_ratio il = 4
              then unat (gl_n_index_comp (gg_layer g ! il)) * index_bytes + layer_index_state_bytes (layer_ratio il)
                + layer_index_state_bytes (layer_ratio il) else 0))"
proof -
  let ?l = "gg_layer g ! il"
  have rows: "length (concat (map (ring_row g il) ps)) = unat live * head_bytes"
    by (simp add: length_concat sum_list_triv ps o_def ring_row_length [OF ok cap])
  have attn: "length (gl_attn_state_kv ?l) = layer_attn_state_bytes (layer_ratio il)"
    "length (gl_attn_state_score ?l) = layer_attn_state_bytes (layer_ratio il)" if "layer_ratio il \<noteq> 0"
    using ok that by (simp_all add: layer_ok_def Let_def)
  have idx: "length (gl_index_state_kv ?l) = layer_index_state_bytes (layer_ratio il)"
    "length (gl_index_state_score ?l) = layer_index_state_bytes (layer_ratio il)" if "layer_ratio il = 4"
    using ok that by (simp_all add: layer_ok_def Let_def)
  show ?thesis using comp index attn idx by (simp add: layer_content_def Let_def rows)
qed

lemma layer_content_length:
  assumes ok: "layer_ok g il" and cap: "gg_raw_cap g \<noteq> 0"
    and comp: "layer_ratio il \<noteq> 0 \<Longrightarrow> length (comp_rows k g il) = unat (gl_n_comp (gg_layer g ! il)) * head_bytes"
    and index: "layer_ratio il = 4 \<Longrightarrow> length (index_rows k g il) = unat (gl_n_index_comp (gg_layer g ! il)) * index_bytes"
    and ps: "length ps = unat live"
  shows "of_nat (length (concat (layer_content k g ps il)))
    = layer_payload_bytes live (layer_ratio il) (gl_n_comp (gg_layer g ! il)) (gl_n_index_comp (gg_layer g ! il))"
proof -
  have hb: "(of_nat head_bytes :: u64) = DS4_N_HEAD_DIM * 4" "(of_nat index_bytes :: u64) = DS4_N_INDEXER_HEAD_DIM * 4"
    by (simp_all add: head_bytes_def index_bytes_def f32_size_def DS4_N_HEAD_DIM_def DS4_N_INDEXER_HEAD_DIM_def)
  have w: "(of_nat (unat (x :: u32) * head_bytes) :: u64) = ucast x * DS4_N_HEAD_DIM * 4"
    "(of_nat (unat x * index_bytes) :: u64) = ucast x * DS4_N_INDEXER_HEAD_DIM * 4" for x
    by (simp_all only: of_nat_mult hb u32_as_nat mult.assoc)
  have "length (concat (layer_content k g ps il)) = unat live * head_bytes
      + (if layer_ratio il = 0 then 0
         else unat (gl_n_comp (gg_layer g ! il)) * head_bytes + layer_attn_state_bytes (layer_ratio il) + layer_attn_state_bytes (layer_ratio il)
           + (if layer_ratio il = 4
              then unat (gl_n_index_comp (gg_layer g ! il)) * index_bytes + layer_index_state_bytes (layer_ratio il)
                + layer_index_state_bytes (layer_ratio il) else 0))"
    by (rule layer_content_size [OF ok cap comp index ps])
  then show ?thesis by (simp only: layer_payload_bytes_def of_nat_add w if_distrib [of of_nat] semiring_1_class.of_nat_0 cong: if_cong)
qed

lemma u32s_length: "length (concat (map le_put32 vs)) = 4 * length vs"
  by (induction vs) simp_all

lemma save_payload_cases:
  assumes "gpu_session_ok s" "written (save_payload k s) = Some bytes"
  shows "se_checkpoint_valid s" "written (save_payload_gpu k s) = Some bytes"
  using assms by (simp_all add: save_payload_def gpu_session_ok_def split: if_splits)

lemma of_nat_sum_list: "of_nat (sum_list (map f xs)) = sum_list (map (\<lambda>x. of_nat (f x)) xs)"
  by (induction xs) simp_all

lemma saved_size:
  assumes ok: "gpu_session_ok s" and n: "length (se_checkpoint s) < 2 ^ 32" and w: "written (save_payload k s) = Some bytes"
  shows "length bytes = 4 * DS4_SESSION_PAYLOAD_U32_FIELDS + 4 * length (se_checkpoint s) + logits_bytes
      + 4 * DS4_N_LAYER + 4 * DS4_N_LAYER
      + (\<Sum>il\<leftarrow>[0..<DS4_N_LAYER]. length (concat (layer_content k (se_graph s) (live_positions s) il)))"
proof -
  have "length (gg_layer (se_graph s)) = DS4_N_LAYER" using ok by (simp add: gpu_session_ok_def graph_ok_def)
  then show ?thesis
    using ok unfolding save_gpu_sections(1) [OF ok n save_payload_cases(2) [OF ok w]] length_append u32s_length length_map
    by (simp add: gpu_header_def Let_def DS4_SESSION_PAYLOAD_U32_FIELDS_def gpu_session_ok_def
        length_concat [of "map _ [0..<_]"] o_def)
qed

lemma saved_layer_size:
  assumes ok: "gpu_session_ok s" and n: "length (se_checkpoint s) < 2 ^ 32" and w: "written (save_payload k s) = Some bytes"
    and il: "il < DS4_N_LAYER"
  shows "length (concat (layer_content k (se_graph s) (live_positions s) il)) < 2 ^ 46"
proof -
  define g where "g = se_graph s"
  define live where "live = session_raw_live_rows g (of_nat (length (se_checkpoint s)))"
  have gok: "graph_ok g" using ok by (simp add: gpu_session_ok_def g_def)
  have lp: "length (live_positions s) = unat live" by (simp add: live_positions_def Let_def live_def g_def)
  have lo: "layer_ok g il" using gok il by (simp add: graph_ok_def)
  note sec = save_gpu_sections(2,3) [OF ok n save_payload_cases(2) [OF ok w], folded g_def]
  have r: "layer_attn_state_bytes (layer_ratio il) \<le> 2 ^ 20" "layer_index_state_bytes (layer_ratio il) \<le> 2 ^ 20"
    using layer_ratio_cases [OF il]
    by (auto simp: layer_attn_state_bytes_def layer_index_state_bytes_def coff_def f32_size_def DS4_N_HEAD_DIM_def DS4_N_INDEXER_HEAD_DIM_def)
  have u: "unat x * head_bytes < 2 ^ 43" "unat x * index_bytes < 2 ^ 43" for x :: u32
    using unat_u32_bound [of x] by (simp_all add: head_bytes_def index_bytes_def f32_size_def del: unat_u32_bound)
  have size: "length (concat (layer_content k g (live_positions s) il)) = unat live * head_bytes
      + (if layer_ratio il = 0 then 0
         else unat (gl_n_comp (gg_layer g ! il)) * head_bytes + layer_attn_state_bytes (layer_ratio il) + layer_attn_state_bytes (layer_ratio il)
           + (if layer_ratio il = 4
              then unat (gl_n_index_comp (gg_layer g ! il)) * index_bytes + layer_index_state_bytes (layer_ratio il)
                + layer_index_state_bytes (layer_ratio il) else 0))"
    by (rule layer_content_size [OF lo raw_live_bounds(4) [OF gok] sec(1) [OF il] sec(2) [OF il] lp])
  show ?thesis
    unfolding g_def [symmetric] size
    using r u(1) [of live] u(1) [of "gl_n_comp (gg_layer g ! il)"] u(2) [of "gl_n_index_comp (gg_layer g ! il)"]
    by auto
qed

lemma saved_payload_small:
  assumes ok: "gpu_session_ok s" and n: "length (se_checkpoint s) < 2 ^ 32" and w: "written (save_payload k s) = Some bytes"
  shows "length bytes < 2 ^ 62"
proof -
  have "(\<Sum>il\<leftarrow>[0..<DS4_N_LAYER]. length (concat (layer_content k (se_graph s) (live_positions s) il)))
      \<le> (\<Sum>il\<leftarrow>[0..<DS4_N_LAYER]. 2 ^ 46)"
    by (rule sum_list_mono, rule less_imp_le, rule saved_layer_size [OF ok n w]) simp
  then show ?thesis using n unfolding saved_size [OF ok n w]
    by (simp add: sum_list_triv DS4_N_LAYER_def DS4_SESSION_PAYLOAD_U32_FIELDS_def logits_bytes_def f32_size_def)
qed

lemma saved_size_bound:
  assumes ok: "gpu_session_ok s" and n: "length (se_checkpoint s) < 2 ^ 32" and w: "written (save_payload k s) = Some bytes"
  shows "length bytes < 2 ^ 64"
  using saved_payload_small [OF ok n w] by simp

text \<open>The size that \<^verbatim>\<open>ds4_session_payload_bytes\<close> announces before a device session is saved, computed
  in 64-bit words from the counters alone, is the exact number of bytes a complete save writes.\<close>

theorem session_payload_bytes_exact:
  assumes ok: "gpu_session_ok s" and n: "length (se_checkpoint s) < 2 ^ 32" and w: "written (save_payload k s) = Some bytes"
  shows "ds4_session_payload_bytes s = of_nat (length bytes)"
proof -
  define g where "g = se_graph s"
  define N where "N = (of_nat (length (se_checkpoint s)) :: u32)"
  define live where "live = session_raw_live_rows g N"
  note v = save_payload_cases [OF ok w]
  note sec = save_gpu_sections [OF ok n v(2), folded g_def]
  have gok: "graph_ok g" using ok by (simp add: gpu_session_ok_def g_def)
  have lp: "length (live_positions s) = unat live" by (simp add: live_positions_def Let_def live_def N_def g_def)
  note len = saved_size [OF ok n w, folded g_def]
  have layers: "(of_nat (\<Sum>il\<leftarrow>[0..<DS4_N_LAYER]. length (concat (layer_content k g (live_positions s) il))) :: u64)
      = session_payload_live_tensor_bytes g N"
    unfolding of_nat_sum_list session_payload_live_tensor_bytes_def live_def [symmetric]
  proof (rule arg_cong [of _ _ sum_list], rule map_cong [OF refl])
    fix il assume "il \<in> set [0..<DS4_N_LAYER]"
    then have il: "il < DS4_N_LAYER" by simp
    then have "layer_ok g il" using gok by (simp add: graph_ok_def)
    then show "of_nat (length (concat (layer_content k g (live_positions s) il)))
      = layer_payload_bytes live (layer_ratio il) (gl_n_comp (gg_layer g ! il)) (gl_n_index_comp (gg_layer g ! il))"
      by (rule layer_content_length [OF _ raw_live_bounds(4) [OF gok] sec(2) [OF il] sec(3) [OF il] lp])
  qed
  have gpu: "\<not> se_cpu s" using ok by (simp add: gpu_session_ok_def)
  have lb: "(of_nat logits_bytes :: u64) = DS4_N_VOCAB * 4" by (simp add: logits_bytes_def f32_size_def DS4_N_VOCAB_def)
  show ?thesis unfolding len of_nat_add layers
    by (simp only: ds4_session_payload_bytes_def v(1) gpu not_True_eq_False if_False g_def [symmetric] N_def [symmetric]
        of_nat_mult lb of_nat_numeral) (simp add: ac_simps)
qed

lemma read_u32s_step:
  "length vs = n \<Longrightarrow> read_u32s n (pin (concat (map le_put32 vs) @ bs) rest m) = (Some vs, pin bs rest m)"
  by (metis pin_append pin_empty read_u32s_pin)

lemma host_read_step:
  "length b = n \<Longrightarrow> length buf = n \<Longrightarrow> host_read n buf (pin (b @ bs) rest m) = Some (True, b, pin bs rest m)"
  by (simp add: pin_append host_read_pin pin_empty)

lemma read_counts_step:
  assumes "length mosts = length vs" "\<And>i. i < length vs \<Longrightarrow> vs ! i \<le> saved_cap \<and> vs ! i \<le> mosts ! i"
  shows "read_counts saved_cap mosts (pin (concat (map le_put32 vs) @ bs) rest m) = (Some vs, pin bs rest m)"
  by (simp only: pin_append pin_empty read_counts_pin [OF assms])

text \<open>Whatever session loads what another one saved, and whatever it makes of the tensors: the tokens are those that were saved.\<close>

lemma read_u32s_front:
  "read_u32s (length vs) \<lparr>pi_file = concat (map le_put32 vs) @ rest, pi_remaining = r\<rparr> = (Some ws, p) \<Longrightarrow> ws = vs \<and> pi_file p = rest"
proof (induction vs arbitrary: r ws)
  case (Cons v vs)
  have "payload_get_u32 (le_put32 v) = v" using le_get32_put [of v "[]"] by (simp add: payload_get_u32_eq)
  then have "payload_read_u32 \<lparr>pi_file = concat (map le_put32 (v # vs)) @ rest, pi_remaining = r\<rparr>
      = (if r < 4 then (None, \<lparr>pi_file = concat (map le_put32 (v # vs)) @ rest, pi_remaining = r\<rparr>)
         else (Some v, \<lparr>pi_file = concat (map le_put32 vs) @ rest, pi_remaining = r - 4\<rparr>))"
    by (simp add: payload_read_u32_def payload_read_bytes_def)
  then show ?case using Cons.prems Cons.IH [of "r - 4"] by (auto split: if_splits prod.splits)
qed auto

lemma saved_front:
  assumes "written (save_payload k s) = Some bytes"
  shows "\<exists>h rest. length h = DS4_SESSION_PAYLOAD_U32_FIELDS \<and> h ! 7 = of_nat (length (se_checkpoint s))
    \<and> bytes = concat (map le_put32 h) @ concat (map le_put32 (se_checkpoint s)) @ rest"
proof -
  have "\<exists>rest. bytes = concat (map le_put32 (cpu_header s)) @ concat (map le_put32 (se_checkpoint s)) @ rest"
    if "written (save_payload_cpu s) = Some bytes"
    using that by (auto simp: save_payload_cpu_def written_then split: option.splits)
  moreover have "\<exists>rest. bytes = concat (map le_put32 (gpu_header s)) @ concat (map le_put32 (se_checkpoint s)) @ rest"
    if "written (save_payload_gpu k s) = Some bytes"
    using that by (auto simp: save_payload_gpu_def Let_def written_then split: option.splits)
  moreover have "length (cpu_header s) = DS4_SESSION_PAYLOAD_U32_FIELDS" "cpu_header s ! 7 = of_nat (length (se_checkpoint s))"
    "length (gpu_header s) = DS4_SESSION_PAYLOAD_U32_FIELDS" "gpu_header s ! 7 = of_nat (length (se_checkpoint s))"
    by (simp_all add: cpu_header_def gpu_header_def Let_def DS4_SESSION_PAYLOAD_U32_FIELDS_def)
  ultimately show ?thesis using assms by (auto simp: save_payload_def split: if_splits)
qed

lemma loaded_tokens:
  assumes saved: "written (save_payload k s) = Some bytes" and n: "length (se_checkpoint s) < 2 ^ 32"
    and load: "ds4_session_load_payload k' s' (bytes @ extra) announced = Loaded s2 left"
  shows "se_checkpoint s2 = se_checkpoint s"
proof -
  define c where "c = se_checkpoint s"
  obtain h rest where h: "length h = DS4_SESSION_PAYLOAD_U32_FIELDS" "h ! 7 = of_nat (length c)"
    "bytes = concat (map le_put32 h) @ concat (map le_put32 c) @ rest"
    using saved_front [OF saved] by (auto simp: c_def)
  have c: "unat (h ! 7) = length c" using n by (simp add: h(2) c_def unat_of_nat take_bit_nat_eq_self)
  note eq = load [unfolded ds4_session_load_payload_def]
  from eq obtain h' p where r: "read_u32s DS4_SESSION_PAYLOAD_U32_FIELDS \<lparr>pi_file = bytes @ extra, pi_remaining = unat announced\<rparr> = (Some h', p)"
    by (cases "read_u32s DS4_SESSION_PAYLOAD_U32_FIELDS \<lparr>pi_file = bytes @ extra, pi_remaining = unat announced\<rparr>")
      (auto split: option.splits)
  have p: "h' = h" "pi_file p = concat (map le_put32 c) @ rest @ extra"
    using read_u32s_front [of h "concat (map le_put32 c) @ rest @ extra" "unat announced" h' p] r h by simp_all
  have toks: "ws = c" if "read_u32s (unat (h ! 7)) p = (Some ws, q)" for ws q
    using read_u32s_front [of c "rest @ extra" "pi_remaining p" ws q] that p(2) c by (cases p) simp
  note eq = eq [unfolded r prod.case option.case p(1)]
  show ?thesis
  proof (cases "se_cpu s'")
    case True
    then have "load_payload_cpu h s' p = Loaded s2 left" using eq by (auto split: if_splits)
    then show ?thesis
      by (auto simp: load_payload_cpu_def Let_def c_def [symmetric] dest: toks split: if_splits prod.splits option.splits)
  next
    case False
    then have "load_payload_gpu k' h s' p = Loaded s2 left" using eq by (auto split: if_splits)
    then show ?thesis
      by (auto simp: load_payload_gpu_def Let_def c_def [symmetric] dest: toks split: if_splits prod.splits option.splits)
  qed
qed

text \<open>A header that this session wrote is accepted by a compatible one.\<close>

lemma header_accepted:
  assumes "gpu_session_ok s" "gpu_session_ok s'" "gpu_compatible s s'" "length (se_checkpoint s) < 2 ^ 32"
  shows "layout_ok (gpu_header s) s' (gg_raw_window (se_graph s')) (gg_raw_cap (se_graph s')) (gg_comp_cap (se_graph s'))"
proof -
  define g where "g = se_graph s"
  define g' where "g' = se_graph s'"
  define N where "N = (of_nat (length (se_checkpoint s)) :: u32)"
  have ok: "graph_ok g" "graph_ok g'" using assms by (simp_all add: gpu_session_ok_def g_def g'_def)
  have c: "se_ctx_size s \<le> se_ctx_size s'" "length (se_checkpoint s) < unat (se_ctx_size s')" "se_prefill_cap s = se_prefill_cap s'"
    "gg_raw_window g = gg_raw_window g'" "gg_comp_cap g \<le> gg_comp_cap g'"
    using assms(3) by (simp_all add: gpu_compatible_def Let_def g_def g'_def)
  have N: "unat N = length (se_checkpoint s)" using assms(4) by (simp add: N_def unat_of_nat take_bit_nat_eq_self)
  have n: "\<not> N \<ge> se_ctx_size s'" using c(2) N by (simp add: word_le_nat_alt)
  note r = raw_live_bounds(1,2,3) [OF ok(1), of N] raw_live_bounds(4) [OF ok(1)]
  note r' = raw_live_bounds(2,3) [OF ok(2), of N]
  have "session_raw_live_rows g N = session_raw_live_rows g' N" by (simp only: r(3) r'(2) c(4))
  with r'(1) have "session_raw_live_rows g N \<le> gg_raw_cap g'" by simp
  then show ?thesis
    using c r n
    by (auto simp: layout_ok_def gpu_header_def Let_def g_def [symmetric] g'_def [symmetric] N_def [symmetric] not_less
        split: if_splits)
qed

text \<open>What a reader of the restored session sees: the counts and the content of every layer.\<close>

definition same_content :: "turbo_kernels \<Rightarrow> turbo_kernels \<Rightarrow> ds4_session \<Rightarrow> ds4_session \<Rightarrow> bool" where
  "same_content k k' s s2 \<longleftrightarrow>
     (let g = se_graph s; g2 = se_graph s2 in
      map gl_n_comp (gg_layer g2) = map gl_n_comp (gg_layer g)
      \<and> map gl_n_index_comp (gg_layer g2) = map gl_n_index_comp (gg_layer g)
      \<and> (\<forall>il < DS4_N_LAYER. layer_content k' g2 (live_positions s) il = layer_content k g (live_positions s) il))"

text \<open>
  The rows of \<open>s\<close> survive in \<open>s'\<close>: always, unless \<open>s'\<close> packs its rows; then its kernels must give back
  the rows they are handed.
\<close>

definition keeps_rows :: "turbo_kernels \<Rightarrow> turbo_kernels \<Rightarrow> ds4_session \<Rightarrow> ds4_session \<Rightarrow> bool" where
  "keeps_rows k k' s s' \<longleftrightarrow>
     (gg_turbo_packv4 (se_graph s') \<longrightarrow>
       (\<forall>il < DS4_N_LAYER. let l = gg_layer (se_graph s) ! il in
          (layer_ratio il \<noteq> 0 \<and> gl_n_comp l \<noteq> 0 \<longrightarrow> reproduces k' head_bytes (unat (gl_n_comp l)) (comp_rows k (se_graph s) il))
          \<and> (layer_ratio il = 4 \<and> gl_n_index_comp l \<noteq> 0 \<longrightarrow> reproduces k' index_bytes (unat (gl_n_index_comp l)) (index_rows k (se_graph s) il))))"

lemma plain_keeps_rows: "\<not> gg_turbo_packv4 (se_graph s') \<Longrightarrow> keeps_rows k k' s s'"
  by (simp add: keeps_rows_def)

lemma load_layers_of_save:
  assumes ok: "gpu_session_ok s" and ok': "gpu_session_ok s'" and compat: "gpu_compatible s s'"
    and keeps: "keeps_rows k k' s s'" and small: "length (se_checkpoint s) < 2 ^ 32"
    and w: "written (save_payload_gpu k s) = Some bytes"
  defines "g \<equiv> se_graph s" and "N \<equiv> (of_nat (length (se_checkpoint s)) :: u32)"
  defines "live \<equiv> session_raw_live_rows g N" and "ncs \<equiv> map gl_n_comp (gg_layer g)" and "nics \<equiv> map gl_n_index_comp (gg_layer g)"
  obtains ls u v where
    "load_layers_gpu k' N live ncs nics (True, se_graph s', pin (concat (map (\<lambda>il. concat (layer_content k g (live_positions s) il)) [0..<DS4_N_LAYER])) rest m)
      = (True, (with_scratch (se_graph s') u v)\<lparr>gg_layer := ls\<rparr>, pin [] rest m)"
    "length ls = DS4_N_LAYER"
    "\<And>g2 il. il < DS4_N_LAYER \<Longrightarrow> gg_turbo_packv4 g2 = gg_turbo_packv4 (se_graph s') \<Longrightarrow> gg_raw_cap g2 = gg_raw_cap (se_graph s')
       \<Longrightarrow> gg_comp_cap g2 = gg_comp_cap (se_graph s')
       \<Longrightarrow> gg_layer g2 ! il = (ls ! il)\<lparr>gl_n_comp := ncs ! il, gl_n_index_comp := nics ! il\<rparr>
       \<Longrightarrow> layer_content k' g2 (live_positions s) il = layer_content k g (live_positions s) il"
proof -
  define g' where "g' = se_graph s'"
  define first where "first = unat (N - live)"
  define row where "row = (\<lambda>il r. ring_row g il (first + r))"
  define attn where "attn = (\<lambda>il. [comp_rows k g il, gl_attn_state_kv (gg_layer g ! il), gl_attn_state_score (gg_layer g ! il)])"
  define index where "index = (\<lambda>il. [index_rows k g il, gl_index_state_kv (gg_layer g ! il), gl_index_state_score (gg_layer g ! il)])"
  have gok: "graph_ok g" "graph_ok g'" using ok ok' by (simp_all add: gpu_session_ok_def g_def g'_def)
  have g': "length (gg_layer g') = DS4_N_LAYER" "\<forall>il < DS4_N_LAYER. layer_ok g' il"
    and g: "length (gg_layer g) = DS4_N_LAYER" "\<And>il. il < DS4_N_LAYER \<Longrightarrow> layer_ok g il"
    and scratch: "gg_turbo_packv4 g' \<Longrightarrow> length (gg_attn_comp_unpack_cache g') = unat (gg_comp_cap g') * head_bytes
        \<and> length (gg_index_comp_unpack_cache g') = unat (gg_comp_cap g') * index_bytes"
    using gok by (simp_all add: graph_ok_def)
  note b = raw_live_bounds(1,2,3) [OF gok(1), of N, folded live_def] raw_live_bounds(4) [OF gok(1)]
  have win: "gg_raw_window g = gg_raw_window g'" using compat by (simp add: gpu_compatible_def Let_def g_def g'_def)
  have "live = session_raw_live_rows g' N" by (simp only: b(3) raw_live_bounds(3) [OF gok(2)] win)
  then have room2: "unat live \<le> unat (gg_raw_cap g')" using raw_live_bounds(2) [OF gok(2), of N] by (simp add: word_le_nat_alt)
  have room1: "unat (N - live) + unat live < 2 ^ 32"
    using unat_sub_le [OF b(1)] b(1) unat_u32_bound [of N] by (simp add: word_le_nat_alt)
  have ps: "live_positions s = [first..<first + unat live]"
    by (simp add: live_positions_def Let_def first_def N_def live_def g_def)
  note sec = save_gpu_sections(2,3) [OF ok small w, folded g_def]
  have le: "ncs ! il \<le> gl_comp_cap (gg_layer g' ! il)" "nics ! il \<le> gl_comp_cap (gg_layer g' ! il)"
    "gl_comp_cap (gg_layer g' ! il) \<le> gg_comp_cap g'" if il: "il < DS4_N_LAYER" for il
  proof -
    have "gl_comp_cap (gg_layer g ! il) \<le> gl_comp_cap (gg_layer g' ! il)"
      using compat il by (simp add: gpu_compatible_def Let_def g_def g'_def)
    then show "ncs ! il \<le> gl_comp_cap (gg_layer g' ! il)" "nics ! il \<le> gl_comp_cap (gg_layer g' ! il)"
      using g(2) [OF il] il g(1) by (auto simp: layer_ok_def Let_def ncs_def nics_def intro: order_trans)
    show "gl_comp_cap (gg_layer g' ! il) \<le> gg_comp_cap g'" using g'(2) il by (simp add: layer_ok_def Let_def)
  qed
  have fits: "\<forall>il < DS4_N_LAYER. image_fits k' g' il (unat live) row (ncs ! il) (nics ! il) attn index"
  proof (intro allI impI)
    fix il assume il: "il < DS4_N_LAYER"
    have lo: "layer_ok g il" "layer_ok g' il" using g(2) g'(2) il by blast+
    note le = le [OF il]
    have nth: "ncs ! il = gl_n_comp (gg_layer g ! il)" "nics ! il = gl_n_index_comp (gg_layer g ! il)"
      using il g(1) by (simp_all add: ncs_def nics_def)
    have "attn_image_fits k' g' il (ncs ! il) (attn il)" if r: "layer_ratio il \<noteq> 0"
    proof -
      have "rows_fit k' (gg_turbo_packv4 g') head_bytes (ncs ! il) (length (gl_attn_comp_cache (gg_layer g' ! il)))
          (length (gg_attn_comp_unpack_cache g')) (comp_rows k g il)"
        using sec(1) [OF il r] keeps scratch lo(2) le r il
        by (auto simp: rows_fit_def nth keeps_rows_def Let_def g_def [symmetric] g'_def [symmetric] layer_ok_def word_le_nat_alt)
      then show ?thesis using lo(1) le r by (simp add: attn_image_fits_def attn_def layer_ok_def Let_def)
    qed
    moreover have "index_image_fits k' g' il (nics ! il) (index il)" if r: "layer_ratio il = 4"
    proof -
      have "rows_fit k' (gg_turbo_packv4 g') index_bytes (nics ! il) (length (gl_index_comp_cache (gg_layer g' ! il)))
          (length (gg_index_comp_unpack_cache g')) (index_rows k g il)"
        using sec(2) [OF il r] keeps scratch lo(2) le r il
        by (auto simp: rows_fit_def nth keeps_rows_def Let_def g_def [symmetric] g'_def [symmetric] layer_ok_def word_le_nat_alt)
      then show ?thesis using lo(1) le r by (simp add: index_image_fits_def index_def layer_ok_def Let_def)
    qed
    ultimately show "image_fits k' g' il (unat live) row (ncs ! il) (nics ! il) attn index"
      using ring_row_length [OF lo(1) b(4)] by (simp add: image_fits_def row_def)
  qed
  obtain ls u v where ls: "fold (\<lambda>il x. if fst x then load_layer_gpu k' N live ncs nics il x else x) [0..<DS4_N_LAYER]
      (True, g', pin (concat (map (\<lambda>il. image_of il (unat live) row attn index) [0..<DS4_N_LAYER])) rest m)
      = (True, (with_scratch g' u v)\<lparr>gg_layer := ls\<rparr>, pin [] rest m)"
    "length ls = DS4_N_LAYER"
    "\<And>il. il < DS4_N_LAYER \<Longrightarrow> restored k' (gg_turbo_packv4 g') il (unat (gg_raw_cap g')) (unat live) (unat (N - live)) (row il) (ncs ! il) (nics ! il) (attn il) (index il) (gg_layer g' ! il) (ls ! il)"
    by (rule load_layers_prefix [OF g' room1 room2 fits order_refl]) (rule that)
  have img: "image_of il (unat live) row attn index = concat (layer_content k g (live_positions s) il)" for il
    unfolding row_def attn_def index_def ps by (rule image_of_content)
  show thesis
  proof (rule that [of ls u v])
    show "load_layers_gpu k' N live ncs nics (True, se_graph s', pin (concat (map (\<lambda>il. concat (layer_content k g (live_positions s) il)) [0..<DS4_N_LAYER])) rest m)
      = (True, (with_scratch (se_graph s') u v)\<lparr>gg_layer := ls\<rparr>, pin [] rest m)"
      using ls(1) unfolding load_layers_gpu_def img g'_def .
    show "length ls = DS4_N_LAYER" by (rule ls(2))
    fix g2 :: ds4_gpu_graph and il assume il: "il < DS4_N_LAYER" and p2: "gg_turbo_packv4 g2 = gg_turbo_packv4 (se_graph s')"
      and c2: "gg_raw_cap g2 = gg_raw_cap (se_graph s')" and cc2: "gg_comp_cap g2 = gg_comp_cap (se_graph s')"
      and l2: "gg_layer g2 ! il = (ls ! il)\<lparr>gl_n_comp := ncs ! il, gl_n_index_comp := nics ! il\<rparr>"
    have nth: "ncs ! il = gl_n_comp (gg_layer g ! il)" "nics ! il = gl_n_index_comp (gg_layer g ! il)"
      using il g(1) by (simp_all add: ncs_def nics_def)
    have r: "restored k' (gg_turbo_packv4 g2) il (unat (gg_raw_cap g2)) (unat live) first (\<lambda>r. ring_row g il (first + r))
        (gl_n_comp (gg_layer g ! il)) (gl_n_index_comp (gg_layer g ! il)) (attn il) (index il) (gg_layer g' ! il) (ls ! il)"
      using ls(3) [OF il] unfolding c2 p2 g'_def first_def row_def nth .
    show "layer_content k' g2 (live_positions s) il = layer_content k g (live_positions s) il"
      unfolding ps
      by (rule restored_content [OF il l2 [unfolded nth] r [unfolded attn_def index_def]])
        (use sec [OF il] le [OF il] in \<open>simp_all add: nth cc2 g'_def\<close>)
  qed
qed

lemma session_payload_loads:
  assumes ok: "gpu_session_ok s" and ok': "gpu_session_ok s'" and compat: "gpu_compatible s s'"
    and keeps: "keeps_rows k k' s s'" and small: "length (se_checkpoint s) < 2 ^ 32"
    and w: "written (save_payload k s) = Some bytes"
  shows "\<exists>s2. ds4_session_load_payload k' s' (bytes @ rest) (ds4_session_payload_bytes s) = Loaded s2 rest
    \<and> se_checkpoint_valid s2 \<and> se_checkpoint s2 = se_checkpoint s \<and> se_logits s2 = se_logits s \<and> same_content k k' s s2
    \<and> live_positions s2 = live_positions s \<and> se_cpu s2 = se_cpu s'"
proof -
  define g where "g = se_graph s"
  define N where "N = (of_nat (length (se_checkpoint s)) :: u32)"
  define live where "live = session_raw_live_rows g N"
  define ncs where "ncs = map gl_n_comp (gg_layer g)"
  define nics where "nics = map gl_n_index_comp (gg_layer g)"
  define C where "C = concat (map (\<lambda>il. concat (layer_content k g (live_positions s) il)) [0..<DS4_N_LAYER])"
  note v = save_payload_cases [OF ok w]
  have gok: "graph_ok g" "graph_ok (se_graph s')" and logits: "length (se_logits s) = logits_bytes" "length (se_logits s') = logits_bytes"
    and gpu: "\<not> se_cpu s'" using ok ok' by (simp_all add: gpu_session_ok_def g_def)
  have lens: "length (gg_layer g) = DS4_N_LAYER" "length (gg_layer (se_graph s')) = DS4_N_LAYER" using gok by (simp_all add: graph_ok_def)
  have N: "unat N = length (se_checkpoint s)" using small by (simp add: N_def unat_of_nat take_bit_nat_eq_self)
  have bytes: "bytes = concat (map le_put32 (gpu_header s)) @ concat (map le_put32 (se_checkpoint s)) @ se_logits s
      @ concat (map le_put32 ncs) @ concat (map le_put32 nics) @ C"
    using save_gpu_sections(1) [OF ok small v(2)] by (simp only: g_def [symmetric] ncs_def [symmetric] nics_def [symmetric] C_def [symmetric])
  have h: "gpu_header s ! 0 = DS4_SESSION_PAYLOAD_MAGIC" "gpu_header s ! 1 = DS4_SESSION_PAYLOAD_VERSION" "gpu_header s ! 6 = gg_comp_cap g"
    "gpu_header s ! 7 = N" "gpu_header s ! 12 = live" "length (gpu_header s) = DS4_SESSION_PAYLOAD_U32_FIELDS"
    by (simp_all add: gpu_header_def Let_def g_def N_def live_def DS4_SESSION_PAYLOAD_U32_FIELDS_def)
  have start: "\<lparr>pi_file = bytes @ rest, pi_remaining = unat (ds4_session_payload_bytes s)\<rparr> = pin bytes rest 0"
    using session_payload_bytes_exact [OF ok small w] saved_size_bound [OF ok small w] by (simp add: pin_def unat_of_nat take_bit_nat_eq_self)
  have counts: "x ! i \<le> gg_comp_cap g \<and> x ! i \<le> map gl_comp_cap (gg_layer (se_graph s')) ! i"
    if "i < length x" "x = ncs \<or> x = nics" for x i
  proof -
    have i: "i < DS4_N_LAYER" using that lens by (auto simp: ncs_def nics_def)
    then have "layer_ok g i" using gok by (simp add: graph_ok_def)
    moreover have "gl_comp_cap (gg_layer g ! i) \<le> gl_comp_cap (gg_layer (se_graph s') ! i)"
      using compat i by (simp add: gpu_compatible_def Let_def g_def)
    ultimately show ?thesis using that i lens
      by (auto simp: layer_ok_def Let_def ncs_def nics_def intro: order_trans)
  qed
  obtain ls u v where ls: "load_layers_gpu k' N live ncs nics (True, se_graph s', pin C rest 0)
      = (True, (with_scratch (se_graph s') u v)\<lparr>gg_layer := ls\<rparr>, pin [] rest 0)"
    "length ls = DS4_N_LAYER"
    and content: "\<And>g2 il. il < DS4_N_LAYER \<Longrightarrow> gg_turbo_packv4 g2 = gg_turbo_packv4 (se_graph s') \<Longrightarrow> gg_raw_cap g2 = gg_raw_cap (se_graph s')
       \<Longrightarrow> gg_comp_cap g2 = gg_comp_cap (se_graph s')
       \<Longrightarrow> gg_layer g2 ! il = (ls ! il)\<lparr>gl_n_comp := ncs ! il, gl_n_index_comp := nics ! il\<rparr>
       \<Longrightarrow> layer_content k' g2 (live_positions s) il = layer_content k g (live_positions s) il"
    by (rule load_layers_of_save [OF ok ok' compat keeps small v(2), folded g_def N_def, folded live_def ncs_def nics_def C_def]) (rule that)
  define layers where "layers = map (\<lambda>(l, nc, nic). l\<lparr>gl_n_comp := nc, gl_n_index_comp := nic\<rparr>) (zip ls (zip ncs nics))"
  define g2 where "g2 = (with_scratch (se_graph s') u v)\<lparr>gg_layer := layers, gg_mtp_n_raw := 0\<rparr>"
  define s2 where "s2 = s'\<lparr>se_logits := se_logits s, se_graph := g2, se_checkpoint := se_checkpoint s,
     se_checkpoint_valid := True, se_mtp_draft_valid := False\<rparr>"
  have nl: "length ncs = DS4_N_LAYER" "length nics = DS4_N_LAYER" using lens by (simp_all add: ncs_def nics_def)
  have nth: "gg_layer g2 ! il = (ls ! il)\<lparr>gl_n_comp := ncs ! il, gl_n_index_comp := nics ! il\<rparr>" if "il < DS4_N_LAYER" for il
    using that nl ls(2) by (simp add: g2_def layers_def)
  have rc: "read_counts (gg_comp_cap g) (map gl_comp_cap (gg_layer (se_graph s'))) (pin (concat (map le_put32 x) @ bs) rest m) = (Some x, pin bs rest m)"
    if "x = ncs \<or> x = nics" for x bs m
    by (rule read_counts_step) (use that nl lens counts in auto)
  have "load_payload_gpu k' (gpu_header s) s' (pin (concat (map le_put32 (se_checkpoint s)) @ se_logits s
      @ concat (map le_put32 ncs) @ concat (map le_put32 nics) @ C) rest 0) = Loaded s2 rest"
    using header_accepted [OF ok ok' compat small] ls
    by (simp add: load_payload_gpu_def Let_def h N read_u32s_step host_read_step logits rc
        s2_def g2_def layers_def del: map_map)
  then have "ds4_session_load_payload k' s' (bytes @ rest) (ds4_session_payload_bytes s) = Loaded s2 rest"
    unfolding ds4_session_load_payload_def start unfolding bytes
    by (simp add: read_u32s_step h gpu del: One_nat_def)
  moreover have "same_content k k' s s2"
  proof -
    have "map gl_n_comp (gg_layer g2) = ncs" "map gl_n_index_comp (gg_layer g2) = nics"
      using nth nl ls(2) by (simp_all add: list_eq_iff_nth_eq g2_def layers_def)
    moreover have "layer_content k' g2 (live_positions s) il = layer_content k g (live_positions s) il" if "il < DS4_N_LAYER" for il
      by (rule content [OF that _ _ _ nth [OF that]]) (simp_all add: g2_def)
    ultimately show ?thesis by (simp add: same_content_def Let_def s2_def g_def [symmetric] ncs_def nics_def)
  qed
  moreover have "live_positions s2 = live_positions s"
  proof -
    have "session_raw_live_rows g2 N = session_raw_live_rows (se_graph s') N"
      unfolding session_raw_live_rows_def Let_def by (simp add: g2_def with_scratch_def)
    also have "\<dots> = session_raw_live_rows g N"
      using compat unfolding raw_live_bounds(3) [OF gok(1)] raw_live_bounds(3) [OF gok(2)]
      by (simp add: gpu_compatible_def Let_def g_def)
    finally show ?thesis by (simp add: live_positions_def s2_def g_def [symmetric] N_def [symmetric])
  qed
  ultimately show ?thesis by (intro exI [of _ s2]) (simp add: s2_def)
qed

text \<open>Claim C25. A saved device session can be taken over by another session with the same prefill chunk and raw
  window and at least as much room (\<open>gpu_compatible\<close>), whatever the size of its ring: loading the written
  bytes succeeds, consumes exactly them, and the live raw rows at their positions, the compressed rows, the partial
  windows, the counts, the tokens and the logits are those of the saved session.  The session that saves may keep its
  compressed rows plain or packed (\<^verbatim>\<open>DS4_KV_TURBO\<close>), and so may the one that loads; one that packs them must have
  kernels that give back the rows they are handed (\<open>keeps_rows\<close>).  Packing is lossy, so this is a condition:
  it holds between packed sessions whose kernels reproduce rows that came out of them (\<open>packed_keeps_rows\<close>),
  and not in general for a plain session loaded into a packed one.\<close>

theorem session_payload_roundtrip:
  assumes ok: "gpu_session_ok s" and ok': "gpu_session_ok s'" and compat: "gpu_compatible s s'"
    and keeps: "keeps_rows k k' s s'" and small: "length (se_checkpoint s) < 2 ^ 32"
    and w: "written (save_payload k s) = Some bytes"
  shows "\<exists>s2. ds4_session_load_payload k' s' (bytes @ rest) (ds4_session_payload_bytes s) = Loaded s2 rest
    \<and> se_checkpoint_valid s2 \<and> se_checkpoint s2 = se_checkpoint s \<and> se_logits s2 = se_logits s \<and> same_content k k' s s2"
  using session_payload_loads [OF ok ok' compat keeps small w, of rest] by blast

section \<open>When a save fails\<close>

definition fails :: "writes \<Rightarrow> bool" where "fails w \<longleftrightarrow> written w = None"

lemma written_all_None: "written (all_writes ws) = None \<longleftrightarrow> (\<exists>w \<in> set ws. fails w)"
  by (induction ws) (auto simp: written_then fails_def split: option.split)

text \<open>A packed layer whose rows cannot be unpacked: a launch fails.\<close>

definition unpack_fails :: "turbo_kernels \<Rightarrow> ds4_gpu_graph \<Rightarrow> nat \<Rightarrow> bool" where
  "unpack_fails k g il \<longleftrightarrow>
     (let l = gg_layer g ! il in gg_turbo_packv4 g
      \<and> (layer_ratio il \<noteq> 0 \<and> gl_n_comp l \<noteq> 0 \<and> tk_unpack k head_bytes (unat (gl_n_comp l)) (gl_attn_comp_tq_cache l) = None
         \<or> layer_ratio il = 4 \<and> gl_n_index_comp l \<noteq> 0
             \<and> tk_unpack k index_bytes (unat (gl_n_index_comp l)) (gl_index_comp_tq_cache l) = None))"

lemma attn_span_fails:
  assumes "gl_n_comp l \<noteq> 0" "gl_n_comp l \<le> gl_comp_cap l" "gl_comp_cap l \<le> gg_comp_cap g" "l = gg_layer g ! il" "il < DS4_N_LAYER"
    and "\<not> gg_turbo_packv4 g \<Longrightarrow> length (gl_attn_comp_cache l) = unat (gl_comp_cap l) * head_bytes"
    and "gg_turbo_packv4 g \<Longrightarrow> length (gg_attn_comp_unpack_cache g) = unat (gg_comp_cap g) * head_bytes"
  shows "fails (payload_write_tensor_span (gpu_graph_attn_comp_cache_for_read k g il (gl_n_comp l)) 0 (unat (gl_n_comp l) * head_bytes))
    \<longleftrightarrow> gg_turbo_packv4 g \<and> tk_unpack k head_bytes (unat (gl_n_comp l)) (gl_attn_comp_tq_cache l) = None"
proof -
  have le: "unat (gl_n_comp l) \<le> unat (gl_comp_cap l)" "unat (gl_comp_cap l) \<le> unat (gg_comp_cap g)"
    using assms(2,3) by (simp_all add: word_le_nat_alt)
  have fill: "unat (gl_n_comp l) * head_bytes \<le> x + (unat (gg_comp_cap g) * head_bytes - x)" for x
  proof -
    have "unat (gl_n_comp l) * head_bytes \<le> unat (gg_comp_cap g) * head_bytes" using le by (intro mult_le_mono1) simp
    then show ?thesis by linarith
  qed
  have "\<not> gl_comp_cap l < gl_n_comp l" "\<not> gg_comp_cap g < gl_n_comp l" using assms(2,3) by auto
  with le fill show ?thesis
    using assms
    by (cases "tk_unpack k head_bytes (unat (gl_n_comp l)) (gl_attn_comp_tq_cache l)")
      (auto simp: fails_def written_span gpu_graph_attn_comp_cache_for_read_def Let_def)
qed

lemma index_span_fails:
  assumes "gl_n_index_comp l \<le> gl_comp_cap l" "gl_comp_cap l \<le> gg_comp_cap g" "l = gg_layer g ! il" "il < DS4_N_LAYER"
    and "\<not> gg_turbo_packv4 g \<Longrightarrow> length (gl_index_comp_cache l) = unat (gl_comp_cap l) * index_bytes"
    and "gg_turbo_packv4 g \<Longrightarrow> length (gg_index_comp_unpack_cache g) = unat (gg_comp_cap g) * index_bytes"
  shows "fails (payload_write_tensor_span (gpu_graph_index_comp_cache_for_read k g il (gl_n_index_comp l)) 0 (unat (gl_n_index_comp l) * index_bytes))
    \<longleftrightarrow> gl_n_index_comp l = 0 \<or> gg_turbo_packv4 g \<and> tk_unpack k index_bytes (unat (gl_n_index_comp l)) (gl_index_comp_tq_cache l) = None"
proof -
  have le: "unat (gl_n_index_comp l) \<le> unat (gl_comp_cap l)" "unat (gl_comp_cap l) \<le> unat (gg_comp_cap g)"
    using assms(1,2) by (simp_all add: word_le_nat_alt)
  have fill: "unat (gl_n_index_comp l) * index_bytes \<le> x + (unat (gg_comp_cap g) * index_bytes - x)" for x
  proof -
    have "unat (gl_n_index_comp l) * index_bytes \<le> unat (gg_comp_cap g) * index_bytes" using le by (intro mult_le_mono1) simp
    then show ?thesis by linarith
  qed
  have "\<not> gl_comp_cap l < gl_n_index_comp l" "\<not> gg_comp_cap g < gl_n_index_comp l" using assms(1,2) by auto
  with le fill show ?thesis
    using assms
    by (cases "tk_unpack k index_bytes (unat (gl_n_index_comp l)) (gl_index_comp_tq_cache l)")
      (auto simp: fails_def written_span gpu_graph_index_comp_cache_for_read_def Let_def)
qed

lemma save_layer_fails:
  assumes gok: "graph_ok g" and il: "il < DS4_N_LAYER" and cap: "gg_raw_cap g \<noteq> 0"
    and len: "unat (n - raw_live) + unat raw_live < 2 ^ 32"
  shows "written (save_layer_gpu k g n raw_live il) = None
    \<longleftrightarrow> layer_ratio il = 4 \<and> gl_n_index_comp (gg_layer g ! il) = 0 \<or> unpack_fails k g il"
proof -
  define l where "l = gg_layer g ! il"
  have ok: "layer_ok g il" using gok il by (simp add: graph_ok_def)
  have raw: "written (all_writes (map (\<lambda>r. save_raw_row g il (n - raw_live) (of_nat r)) [0..<unat raw_live])) \<noteq> None"
    using save_rows_written [OF ok cap len] by simp
  then have rows: "\<not> fails (save_raw_row g il (n - raw_live) (of_nat r))" if "r < unat raw_live" for r
    using that unfolding written_all_None by auto
  have L: "gl_n_comp l \<le> gl_comp_cap l" "gl_n_index_comp l \<le> gl_comp_cap l" "gl_comp_cap l \<le> gg_comp_cap g"
    "layer_ratio il \<noteq> 0 \<Longrightarrow> length (gl_attn_state_kv l) = layer_attn_state_bytes (layer_ratio il)
       \<and> length (gl_attn_state_score l) = layer_attn_state_bytes (layer_ratio il)"
    "layer_ratio il = 4 \<Longrightarrow> length (gl_index_state_kv l) = layer_index_state_bytes (layer_ratio il)
       \<and> length (gl_index_state_score l) = layer_index_state_bytes (layer_ratio il)"
    using ok by (simp_all add: layer_ok_def Let_def l_def)
  have comp: "fails (payload_write_tensor_span (gpu_graph_attn_comp_cache_for_read k g il (gl_n_comp l)) 0 (unat (gl_n_comp l) * head_bytes))
      \<longleftrightarrow> gg_turbo_packv4 g \<and> tk_unpack k head_bytes (unat (gl_n_comp l)) (gl_attn_comp_tq_cache l) = None"
    if "layer_ratio il \<noteq> 0" "gl_n_comp l \<noteq> 0"
    by (rule attn_span_fails [OF that(2) L(1,3) l_def il])
      (use ok gok that in \<open>simp_all add: layer_ok_def graph_ok_def Let_def l_def\<close>)
  have icomp: "fails (payload_write_tensor_span (gpu_graph_index_comp_cache_for_read k g il (gl_n_index_comp l)) 0 (unat (gl_n_index_comp l) * index_bytes))
      \<longleftrightarrow> gl_n_index_comp l = 0 \<or> gg_turbo_packv4 g \<and> tk_unpack k index_bytes (unat (gl_n_index_comp l)) (gl_index_comp_tq_cache l) = None"
    if "layer_ratio il = 4"
    by (rule index_span_fails [OF L(2,3) l_def il])
      (use ok gok that in \<open>simp_all add: layer_ok_def graph_ok_def Let_def l_def\<close>)
  have zero: "unat (gl_n_comp l) * head_bytes = 0 \<longleftrightarrow> gl_n_comp l = 0" using head_bytes_pos by (simp add: unat_eq_zero)
  define AC where "AC = payload_write_tensor_span (gpu_graph_attn_comp_cache_for_read k g il (gl_n_comp l)) 0 (unat (gl_n_comp l) * head_bytes)"
  define IC where "IC = payload_write_tensor_span (gpu_graph_index_comp_cache_for_read k g il (gl_n_index_comp l)) 0 (unat (gl_n_index_comp l) * index_bytes)"
  note comp' = comp [folded AC_def] and icomp' = icomp [folded IC_def]
  have st: "\<not> fails (payload_write_tensor_span (Some (gl_attn_state_kv l)) 0 (layer_attn_state_bytes (layer_ratio il)))"
    "\<not> fails (payload_write_tensor_span (Some (gl_attn_state_score l)) 0 (layer_attn_state_bytes (layer_ratio il)))"
    if "layer_ratio il \<noteq> 0"
    using L(4) [OF that] by (simp_all add: fails_def written_span)
  have ist: "\<not> fails (payload_write_tensor_span (Some (gl_index_state_kv l)) 0 (layer_index_state_bytes (layer_ratio il)))"
    "\<not> fails (payload_write_tensor_span (Some (gl_index_state_score l)) 0 (layer_index_state_bytes (layer_ratio il)))"
    if "layer_ratio il = 4"
    using L(5) [OF that] by (simp_all add: fails_def written_span)
  have "written (save_layer_gpu k g n raw_live il) = None
      \<longleftrightarrow> layer_ratio il \<noteq> 0 \<and> gl_n_comp l \<noteq> 0 \<and> fails AC \<or> layer_ratio il = 4 \<and> fails IC"
    unfolding save_layer_gpu_def Let_def l_def [symmetric] AC_def [symmetric] IC_def [symmetric] written_all_None zero
    using rows st ist by auto
  then show ?thesis
    using comp' icomp' unfolding unpack_fails_def Let_def l_def [symmetric] by auto
qed

lemma save_fails_iff:
  assumes ok: "gpu_session_ok s"
  shows "written (save_payload k s) = None
    \<longleftrightarrow> \<not> se_checkpoint_valid s
      \<or> (\<exists>il < DS4_N_LAYER. layer_ratio il = 4 \<and> gl_n_index_comp (gg_layer (se_graph s) ! il) = 0 \<or> unpack_fails k (se_graph s) il)"
proof -
  define g where "g = se_graph s"
  define N where "N = (of_nat (length (se_checkpoint s)) :: u32)"
  define live where "live = session_raw_live_rows g N"
  have gok: "graph_ok g" and gpu: "\<not> se_cpu s" using ok by (simp_all add: gpu_session_ok_def g_def)
  note b = raw_live_bounds(1,2,3) [OF gok, of N, folded live_def] raw_live_bounds(4) [OF gok]
  have sum: "unat (N - live) + unat live < 2 ^ 32"
    using unat_sub_le [OF b(1)] b(1) unat_u32_bound [of N] by (simp add: word_le_nat_alt)
  have layer: "written (save_layer_gpu k g N live il) = None
      \<longleftrightarrow> layer_ratio il = 4 \<and> gl_n_index_comp (gg_layer g ! il) = 0 \<or> unpack_fails k g il" if "il < DS4_N_LAYER" for il
    by (rule save_layer_fails [OF gok that b(4) sum])
  have "written (save_payload_gpu k s) = None \<longleftrightarrow> (\<exists>il < DS4_N_LAYER. written (save_layer_gpu k g N live il) = None)"
    unfolding save_payload_gpu_def Let_def written_all_None g_def [symmetric] N_def [symmetric] live_def [symmetric]
    by (auto simp: fails_def)
  also have "\<dots> \<longleftrightarrow> (\<exists>il < DS4_N_LAYER. layer_ratio il = 4 \<and> gl_n_index_comp (gg_layer g ! il) = 0 \<or> unpack_fails k g il)"
    using layer by blast
  finally show ?thesis using gpu by (simp add: save_payload_def g_def)
qed

text \<open>
  The packed sessions: the rows they read come out of their kernels, so kernels that reproduce what came out of them
  keep the rows of any packed session that was saved.
\<close>

definition requantizes :: "turbo_kernels \<Rightarrow> bool" where
  "requantizes k \<longleftrightarrow> (\<forall>hb n tq rows. tk_unpack k hb n tq = Some rows \<longrightarrow> length rows = n * hb \<and> reproduces k hb n rows)"

lemma packed_rows:
  assumes "gg_turbo_packv4 g" "requantizes k" "il < DS4_N_LAYER" "l = gg_layer g ! il" "gl_comp_cap l \<le> gg_comp_cap g"
  shows "gl_n_comp l \<noteq> 0 \<Longrightarrow> gl_n_comp l \<le> gl_comp_cap l
      \<Longrightarrow> tk_unpack k head_bytes (unat (gl_n_comp l)) (gl_attn_comp_tq_cache l) = Some rows \<Longrightarrow> comp_rows k g il = rows"
    "gl_n_index_comp l \<noteq> 0 \<Longrightarrow> gl_n_index_comp l \<le> gl_comp_cap l
      \<Longrightarrow> tk_unpack k index_bytes (unat (gl_n_index_comp l)) (gl_index_comp_tq_cache l) = Some rows \<Longrightarrow> index_rows k g il = rows"
proof -
  have len: "tk_unpack k hb n tq = Some rows \<Longrightarrow> length rows = n * hb" for hb n tq
    using assms(2) by (simp add: requantizes_def)
  have le: "\<not> gg_comp_cap g < n" "\<not> gl_comp_cap l < n" if "n \<le> gl_comp_cap l" for n
    using that assms(5) by auto
  show "gl_n_comp l \<noteq> 0 \<Longrightarrow> gl_n_comp l \<le> gl_comp_cap l
      \<Longrightarrow> tk_unpack k head_bytes (unat (gl_n_comp l)) (gl_attn_comp_tq_cache l) = Some rows \<Longrightarrow> comp_rows k g il = rows"
    using assms(1,3) le len
    by (simp add: comp_rows_def gpu_graph_attn_comp_cache_for_read_def Let_def assms(4) [symmetric])
  show "gl_n_index_comp l \<noteq> 0 \<Longrightarrow> gl_n_index_comp l \<le> gl_comp_cap l
      \<Longrightarrow> tk_unpack k index_bytes (unat (gl_n_index_comp l)) (gl_index_comp_tq_cache l) = Some rows \<Longrightarrow> index_rows k g il = rows"
    using assms(1,3) le len
    by (simp add: index_rows_def gpu_graph_index_comp_cache_for_read_def Let_def assms(4) [symmetric])
qed

lemma packed_keeps_rows:
  assumes k: "requantizes k" and packs: "gg_turbo_packv4 (se_graph s)" and ok: "gpu_session_ok s"
    and w: "written (save_payload k s) = Some bytes"
  shows "keeps_rows k k s s'"
  unfolding keeps_rows_def Let_def
proof (intro impI allI)
  fix il assume il: "il < DS4_N_LAYER"
  define g where "g = se_graph s"
  define l where "l = gg_layer g ! il"
  have "layer_ok g il" using ok il by (simp add: gpu_session_ok_def graph_ok_def g_def)
  then have L: "gl_n_comp l \<le> gl_comp_cap l" "gl_n_index_comp l \<le> gl_comp_cap l" "gl_comp_cap l \<le> gg_comp_cap g"
    by (simp_all add: layer_ok_def Let_def l_def)
  note rows = packed_rows [OF packs [folded g_def] k il l_def L(3)]
  have "\<not> unpack_fails k g il" using save_fails_iff [OF ok, of k] w il by (auto simp: g_def)
  then have "(layer_ratio il \<noteq> 0 \<and> gl_n_comp l \<noteq> 0 \<longrightarrow> reproduces k head_bytes (unat (gl_n_comp l)) (comp_rows k g il))
      \<and> (layer_ratio il = 4 \<and> gl_n_index_comp l \<noteq> 0 \<longrightarrow> reproduces k index_bytes (unat (gl_n_index_comp l)) (index_rows k g il))"
    using rows L k packs by (auto simp: unpack_fails_def Let_def l_def [symmetric] g_def [symmetric] requantizes_def)
  then show "(layer_ratio il \<noteq> 0 \<and> gl_n_comp (gg_layer (se_graph s) ! il) \<noteq> 0
        \<longrightarrow> reproduces k head_bytes (unat (gl_n_comp (gg_layer (se_graph s) ! il))) (comp_rows k (se_graph s) il))
      \<and> (layer_ratio il = 4 \<and> gl_n_index_comp (gg_layer (se_graph s) ! il) \<noteq> 0
        \<longrightarrow> reproduces k index_bytes (unat (gl_n_index_comp (gg_layer (se_graph s) ! il))) (index_rows k (se_graph s) il))"
    by (simp only: l_def g_def)
qed

text \<open>Claim C26. When saving a session of the device backend that is in order fails, in the plain and in the packed mode
  (\<^verbatim>\<open>DS4_KV_TURBO\<close>), apart from the file: exactly when the session has no valid checkpoint, or an indexed layer has no
  compressed row yet (the accessor returns no tensor for zero rows, and only the attention rows are guarded), or a layer is packed and
  the launch that unpacks its rows fails.\<close>

theorem session_save_fails_iff:
  assumes ok: "gpu_session_ok s"
  shows "written (save_payload k s) = None
    \<longleftrightarrow> \<not> se_checkpoint_valid s
      \<or> (\<exists>il < DS4_N_LAYER. layer_ratio il = 4 \<and> gl_n_index_comp (gg_layer (se_graph s) ! il) = 0 \<or> unpack_fails k (se_graph s) il)"
  using assms by (rule save_fails_iff)

section \<open>Samples\<close>

text \<open>A session of the device backend with a ring of \<open>c\<close> rows, every byte \<open>b\<close>.\<close>

definition sample_layer :: "u32 \<Rightarrow> byte \<Rightarrow> u32 \<Rightarrow> nat \<Rightarrow> gpu_layer" where
  "sample_layer c b n il =
     \<lparr>gl_n_comp = n, gl_n_index_comp = n, gl_comp_cap = c, gl_raw_cache = replicate (unat c * head_bytes) b,
      gl_attn_comp_cache = replicate (unat c * head_bytes) b, gl_attn_comp_tq_cache = [],
      gl_attn_state_kv = replicate (layer_attn_state_bytes (layer_ratio il)) b,
      gl_attn_state_score = replicate (layer_attn_state_bytes (layer_ratio il)) b,
      gl_index_comp_cache = replicate (unat c * index_bytes) b, gl_index_comp_tq_cache = [],
      gl_index_state_kv = replicate (layer_index_state_bytes (layer_ratio il)) b,
      gl_index_state_score = replicate (layer_index_state_bytes (layer_ratio il)) b\<rparr>"

definition sample_session :: "u32 \<Rightarrow> u32 \<Rightarrow> byte \<Rightarrow> u32 \<Rightarrow> u32 list \<Rightarrow> ds4_session" where
  "sample_session c ctx b n toks =
     \<lparr>se_cpu = False,
      se_graph = \<lparr>gg_raw_cap = c, gg_raw_window = 1, gg_comp_cap = c, gg_mtp_n_raw = 0, gg_turbo_packv4 = False,
        gg_attn_comp_unpack_cache = [], gg_index_comp_unpack_cache = [], gg_layer = map (sample_layer c b n) [0..<DS4_N_LAYER]\<rparr>,
      se_cpu_cache = [], se_checkpoint = toks, se_logits = replicate logits_bytes b, se_prefill_cap = 8, se_ctx_size = ctx,
      se_checkpoint_valid = True, se_mtp_draft_valid = False\<rparr>"

definition no_kernels :: turbo_kernels where
  "no_kernels = \<lparr>tk_pack = (\<lambda>_ _. None), tk_unpack = (\<lambda>_ _ _. None)\<rparr>"

lemma sample_session_ok: "1 \<le> c \<Longrightarrow> n \<le> c \<Longrightarrow> gpu_session_ok (sample_session c ctx b n toks)"
  by (simp add: gpu_session_ok_def sample_session_def graph_ok_def layer_ok_def Let_def sample_layer_def)

lemma sample_session_plain: "\<not> gg_turbo_packv4 (se_graph (sample_session c ctx b n toks))"
  by (simp add: sample_session_def)

lemma sample_session_compatible:
  "c \<le> c' \<Longrightarrow> ctx \<le> ctx' \<Longrightarrow> length toks < unat ctx' \<Longrightarrow>
   gpu_compatible (sample_session c ctx b n toks) (sample_session c' ctx' b' n' toks')"
  by (simp add: gpu_compatible_def sample_session_def Let_def sample_layer_def)

lemma sample_session_saved:
  obtains bytes where "written (save_payload k (sample_session 1 ctx b 1 toks)) = Some bytes"
proof -
  have "gpu_session_ok (sample_session 1 ctx b 1 toks)" by (rule sample_session_ok) simp_all
  then have "written (save_payload k (sample_session 1 ctx b 1 toks)) \<noteq> None"
    by (subst save_fails_iff) (simp_all add: unpack_fails_def sample_session_def sample_layer_def)
  then show thesis using that by blast
qed

lemma sample_counts: "gl_n_index_comp (gg_layer (se_graph (sample_session c ctx b n toks)) ! il) = n" if "il < DS4_N_LAYER"
  using that by (simp add: sample_session_def sample_layer_def)

lemma sample_valid: "se_checkpoint_valid (sample_session c ctx b n toks)"
  by (simp add: sample_session_def)

theorem session_payload_bytes_exact_witness:
  "\<exists>bytes. written (save_payload no_kernels (sample_session 1 16 5 1 [7, 9])) = Some bytes
     \<and> ds4_session_payload_bytes (sample_session 1 16 5 1 [7, 9]) = of_nat (length bytes)"
proof -
  obtain bytes where w: "written (save_payload no_kernels (sample_session 1 16 5 1 [7, 9])) = Some bytes"
    by (rule sample_session_saved)
  have ok: "gpu_session_ok (sample_session 1 16 5 1 [7, 9])" by (rule sample_session_ok) simp_all
  have "ds4_session_payload_bytes (sample_session 1 16 5 1 [7, 9]) = of_nat (length bytes)"
    by (rule session_payload_bytes_exact [OF ok _ w]) (simp add: sample_session_def)
  with w show ?thesis by blast
qed

text \<open>The same session with its compressed rows packed, by kernels that copy.\<close>

definition copy_kernels :: turbo_kernels where
  "copy_kernels = \<lparr>tk_pack = (\<lambda>_ rows. Some rows),
     tk_unpack = (\<lambda>hb n tq. if n * hb \<le> length tq then Some (take (n * hb) tq) else None)\<rparr>"

lemma copy_requantizes: "requantizes copy_kernels"
  by (auto simp: requantizes_def reproduces_def copy_kernels_def put_at_def split: if_splits)

definition packed_layer :: "u32 \<Rightarrow> byte \<Rightarrow> gpu_layer \<Rightarrow> gpu_layer" where
  "packed_layer c b l = l\<lparr>gl_attn_comp_cache := [], gl_attn_comp_tq_cache := replicate (unat c * head_bytes) b,
     gl_index_comp_cache := [], gl_index_comp_tq_cache := replicate (unat c * index_bytes) b\<rparr>"

definition packed_session :: "u32 \<Rightarrow> u32 \<Rightarrow> byte \<Rightarrow> u32 \<Rightarrow> u32 list \<Rightarrow> ds4_session" where
  "packed_session c ctx b n toks =
     (let s = sample_session c ctx b n toks
      in s\<lparr>se_graph := (se_graph s)\<lparr>gg_turbo_packv4 := True,
             gg_attn_comp_unpack_cache := replicate (unat c * head_bytes) 0,
             gg_index_comp_unpack_cache := replicate (unat c * index_bytes) 0,
             gg_layer := map (packed_layer c b) (gg_layer (se_graph s))\<rparr>\<rparr>)"

lemma packed_session_ok: "1 \<le> c \<Longrightarrow> n \<le> c \<Longrightarrow> gpu_session_ok (packed_session c ctx b n toks)"
  by (simp add: gpu_session_ok_def packed_session_def sample_session_def graph_ok_def layer_ok_def Let_def
      sample_layer_def packed_layer_def)

lemma packed_session_compatible:
  "c \<le> c' \<Longrightarrow> ctx \<le> ctx' \<Longrightarrow> length toks < unat ctx' \<Longrightarrow>
   gpu_compatible (packed_session c ctx b n toks) (packed_session c' ctx' b' n' toks')"
  by (simp add: gpu_compatible_def packed_session_def sample_session_def Let_def sample_layer_def packed_layer_def)

lemma packed_session_saved:
  obtains bytes where "written (save_payload copy_kernels (packed_session 1 ctx b 1 toks)) = Some bytes"
proof -
  have "gpu_session_ok (packed_session 1 ctx b 1 toks)" by (rule packed_session_ok) simp_all
  then have "written (save_payload copy_kernels (packed_session 1 ctx b 1 toks)) \<noteq> None"
    by (subst save_fails_iff)
      (simp_all add: unpack_fails_def packed_session_def sample_session_def sample_layer_def packed_layer_def copy_kernels_def Let_def)
  then show thesis using that by blast
qed

theorem session_payload_roundtrip_witness:
  "\<exists>bytes s2. written (save_payload copy_kernels (packed_session 1 16 5 1 [7, 9])) = Some bytes
     \<and> ds4_session_load_payload copy_kernels (packed_session 3 32 0 0 []) (bytes @ [1])
         (ds4_session_payload_bytes (packed_session 1 16 5 1 [7, 9])) = Loaded s2 [1]
     \<and> se_checkpoint s2 = [7, 9] \<and> se_logits s2 = replicate logits_bytes 5
     \<and> same_content copy_kernels copy_kernels (packed_session 1 16 5 1 [7, 9]) s2"
proof -
  obtain bytes where w: "written (save_payload copy_kernels (packed_session 1 16 5 1 [7, 9])) = Some bytes"
    by (rule packed_session_saved)
  have ok: "gpu_session_ok (packed_session 1 16 5 1 [7, 9])" "gpu_session_ok (packed_session 3 32 0 0 [])"
    by (rule packed_session_ok; simp)+
  have c: "gpu_compatible (packed_session 1 16 5 1 [7, 9]) (packed_session 3 32 0 0 [])"
    by (rule packed_session_compatible) simp_all
  have f: "se_checkpoint (packed_session 1 16 5 1 [7, 9]) = [7, 9]" "gg_turbo_packv4 (se_graph (packed_session 1 16 5 1 [7, 9]))"
    "se_logits (packed_session 1 16 5 1 [7, 9]) = replicate logits_bytes 5"
    by (simp_all add: packed_session_def sample_session_def Let_def)
  have keeps: "keeps_rows copy_kernels copy_kernels (packed_session 1 16 5 1 [7, 9]) (packed_session 3 32 0 0 [])"
    by (rule packed_keeps_rows [OF copy_requantizes f(2) ok(1) w])
  from session_payload_roundtrip [OF ok c keeps _ w, of "[1]"] w show ?thesis by (auto simp: f)
qed

theorem session_save_fails_iff_witness:
  "written (save_payload no_kernels (sample_session 1 16 5 0 [7, 9])) = None
   \<and> written (save_payload no_kernels (sample_session 1 16 5 1 [7, 9])) \<noteq> None
   \<and> written (save_payload no_kernels (packed_session 1 16 5 1 [7, 9])) = None"
proof -
  have ok: "gpu_session_ok (sample_session 1 16 5 0 [7, 9])" "gpu_session_ok (sample_session 1 16 5 1 [7, 9])"
    "gpu_session_ok (packed_session 1 16 5 1 [7, 9])"
    by (rule sample_session_ok packed_session_ok; simp)+
  have ratio: "(2 :: nat) < DS4_N_LAYER" "layer_ratio 2 = 4" by (simp_all add: DS4_N_LAYER_def layer_ratio_cases)
  have plain: "\<not> unpack_fails no_kernels (se_graph (sample_session c ctx b n toks)) il" for c ctx b n toks il
    by (simp add: unpack_fails_def sample_session_def Let_def)
  have packed: "unpack_fails no_kernels (se_graph (packed_session 1 16 5 1 [7, 9])) 2"
    using ratio by (simp add: unpack_fails_def packed_session_def sample_session_def sample_layer_def packed_layer_def no_kernels_def Let_def)
  show ?thesis
    unfolding session_save_fails_iff [OF ok(1)] session_save_fails_iff [OF ok(2)] session_save_fails_iff [OF ok(3)]
    using ratio plain packed by (auto simp: sample_counts sample_valid intro!: exI [of _ 2])
qed

section \<open>A payload that writes past a host buffer\<close>

lemma into_step:
  "length d = n \<Longrightarrow> n \<le> length (get l) \<Longrightarrow> into n get put (True, l, pin (d @ bs) rest m) = Some (True, put (d @ drop n (get l)) l, pin bs rest m)"
  by (simp add: into_def pin_append host_read_pin pin_empty)

lemma into_overflows:
  "length d = n \<Longrightarrow> length (get l) < n \<Longrightarrow> into n get put (True, l, pin (d @ bs) rest m) = None"
  by (simp add: into_def host_read_def pin_append read_bytes_pin)

text \<open>A header without tokens, and the row counts: only layer 3, which keeps one row for 128 tokens, has rows.\<close>

definition crafted_payload :: "ds4_session \<Rightarrow> byte list" where
  "crafted_payload s =
     (let raw_cap = ds4_default_raw_cap (se_ctx_size s); n = session_cpu_comp_cap s in
      concat (map le_put32 [DS4_SESSION_PAYLOAD_MAGIC, DS4_SESSION_PAYLOAD_VERSION, se_ctx_size s, se_prefill_cap s, raw_cap, raw_cap,
        n, 0, of_nat DS4_N_LAYER, ucast DS4_N_HEAD_DIM, ucast DS4_N_INDEXER_HEAD_DIM, ucast DS4_N_VOCAB, 0])
      @ replicate logits_bytes 0
      @ concat (map le_put32 (0 # 0 # 0 # n # replicate 39 0)) @ concat (map le_put32 (0 # 0 # 0 # 0 # replicate 39 0))
      @ replicate (layer_attn_state_bytes 4) 0 @ replicate (layer_attn_state_bytes 4) 0
      @ replicate (layer_index_state_bytes 4) 0 @ replicate (layer_index_state_bytes 4) 0
      @ replicate (unat n * head_bytes) 0)"

lemma first_layers: "[0..<DS4_N_LAYER] = 0 # 1 # 2 # 3 # [4..<DS4_N_LAYER]"
  by (simp add: DS4_N_LAYER_def upt_conv_Cons)

lemma first_ratios: "layer_ratio 0 = 0" "layer_ratio (Suc 0) = 0" "layer_ratio 2 = 4" "layer_ratio 3 = 128"
  by (simp_all add: layer_ratio_cases DS4_N_LAYER_def)

lemma cpu_comp_cap:
  "se_cpu_cache s = kv_cache_init ctx 0 \<Longrightarrow> session_cpu_comp_cap s = ctx div 4 + 2"
  by (simp add: session_cpu_comp_cap_def kv_cache_init_def first_layers first_ratios layer_cache_init_def Let_def)

lemma rows_of_ratio: "4 \<le> ctx \<Longrightarrow> unat (ctx div 128 + 2 :: u32) < unat (ctx div 4 + 2)"
proof -
  assume c: "4 \<le> ctx"
  have d: "unat (ctx div 4) = unat ctx div 4" "unat (ctx div 128) = unat ctx div 128" by (simp_all add: unat_div)
  have b: "unat ctx div 128 < 4294967294" "unat ctx div 4 < 4294967294"
    using unat_u32_bound [of ctx] by linarith+
  have "4 \<le> unat ctx" using c by (simp add: word_le_nat_alt)
  then have "unat ctx div 128 < unat ctx div 4" by simp
  moreover have "unat (ctx div 128 + 2) = unat ctx div 128 + 2"
    using b d(2) by (subst unat_add_no_wrap) simp_all
  moreover have "unat (ctx div 4 + 2) = unat ctx div 4 + 2"
    using b d(1) by (subst unat_add_no_wrap) simp_all
  ultimately show ?thesis by simp
qed

lemma neg_inf_length: "4 dvd n \<Longrightarrow> length (neg_inf_floats n) = n"
  by (auto simp: neg_inf_floats_def ds4_neg_inf_def f32_size_def length_concat sum_list_replicate)

lemma crafted_size: "length (crafted_payload s) < 2 ^ 64"
proof -
  have "unat (session_cpu_comp_cap s) * head_bytes < 2 ^ 43"
    using unat_u32_bound [of "session_cpu_comp_cap s"] by (simp add: head_bytes_def f32_size_def del: unat_u32_bound)
  moreover have "layer_attn_state_bytes 4 < 2 ^ 20" "layer_index_state_bytes 4 < 2 ^ 20"
    by (simp_all add: layer_attn_state_bytes_def layer_index_state_bytes_def coff_def DS4_N_HEAD_DIM_def DS4_N_INDEXER_HEAD_DIM_def)
  moreover have "logits_bytes < 2 ^ 20" by (simp add: logits_bytes_def f32_size_def)
  ultimately show ?thesis unfolding crafted_payload_def Let_def length_append u32s_length by simp
qed

lemma replicate_43: "replicate DS4_N_LAYER x = x # x # x # x # replicate 39 x"
  by (simp add: DS4_N_LAYER_def numeral_eq_Suc)

lemma crafted_layers_overflow:
  assumes "4 \<le> ctx" and n: "n = ctx div 4 + 2"
  shows "load_layers_cpu 0 (zip (0 # 0 # 0 # n # replicate 39 0) (0 # 0 # 0 # 0 # replicate 39 0)) (kv_cache_init ctx 0)
     (pin (replicate (layer_attn_state_bytes 4) 0 @ replicate (layer_attn_state_bytes 4) 0
      @ replicate (layer_index_state_bytes 4) 0 @ replicate (layer_index_state_bytes 4) 0
      @ replicate (unat n * head_bytes) 0) rest m) = None"
proof -
  define cap where "cap = (let r = ds4_default_raw_cap ctx; r = (if r > ctx then ctx else r) in if r = 0 then 1 else r)"
  have init: "kv_cache_init ctx 0 = layer_cache_init ctx cap 0 # layer_cache_init ctx cap 0 # layer_cache_init ctx cap 4
      # layer_cache_init ctx cap 128 # map (\<lambda>il. layer_cache_init ctx cap (layer_ratio il)) [4..<DS4_N_LAYER]"
    unfolding kv_cache_init_def first_layers by (simp add: first_ratios cap_def Let_def)
  have empty: "into 0 get put (True, l, pin bs r m) = Some (True, put (get l) l, pin bs r m)" for get put l bs r m
    using into_step [of "[]" 0 get l put bs r m] by simp
  have dense: "load_layer_cpu 0 0 0 (layer_cache_init ctx cap 0) (pin bs r m) = Some (True, layer_cache_init ctx cap 0, pin bs r m)" for bs r m
    by (simp add: load_layer_cpu_def empty on_layer_def layer_cache_init_def Let_def)
  have dv: "4 dvd layer_attn_state_bytes 4" "4 dvd layer_index_state_bytes 4"
    by (simp_all add: layer_attn_state_bytes_def layer_index_state_bytes_def coff_def DS4_N_HEAD_DIM_def DS4_N_INDEXER_HEAD_DIM_def)
  have indexed: "\<exists>l. load_layer_cpu 0 0 0 (layer_cache_init ctx cap 4) (pin (replicate (layer_attn_state_bytes 4) 0 @ replicate (layer_attn_state_bytes 4) 0
      @ replicate (layer_index_state_bytes 4) 0 @ replicate (layer_index_state_bytes 4) 0 @ bs) r m) = Some (True, l, pin bs r m)" for bs r m
    by (simp add: load_layer_cpu_def empty on_layer_def layer_cache_init_def Let_def into_step neg_inf_length dv)
  have over: "load_layer_cpu 0 n 0 (layer_cache_init ctx cap 128) (pin (replicate (unat n * head_bytes) 0) r m) = None" for r m
  proof -
    have "unat (ctx div 128 + 2) * head_bytes < unat n * head_bytes"
      using rows_of_ratio [OF assms(1)] head_bytes_pos by (simp add: n)
    with into_overflows [of "replicate (unat n * head_bytes) 0" "unat n * head_bytes" _ _ _ "[]"]
    show ?thesis by (simp add: load_layer_cpu_def empty on_layer_def layer_cache_init_def Let_def)
  qed
  obtain l where "load_layer_cpu 0 0 0 (layer_cache_init ctx cap 4) (pin (replicate (layer_attn_state_bytes 4) 0 @ replicate (layer_attn_state_bytes 4) 0
      @ replicate (layer_index_state_bytes 4) 0 @ replicate (layer_index_state_bytes 4) 0 @ replicate (unat n * head_bytes) 0) rest m)
      = Some (True, l, pin (replicate (unat n * head_bytes) 0) rest m)" using indexed by blast
  then show ?thesis unfolding init zip_Cons_Cons load_layers_cpu.simps by (simp add: dense over)
qed

text \<open>Claim C27. The CPU loader checks the row count of every layer against the capacity of the layers with ratio 4
  only. For every context of at least four tokens there is a payload with an acceptable header whose row count for layer 3
  (ratio 128) makes the loader read past the end of that layer's buffer.\<close>

theorem cpu_load_writes_past_buffer:
  assumes cpu: "se_cpu s" and cache: "se_cpu_cache s = kv_cache_init (se_ctx_size s) 0" and ctx: "4 \<le> se_ctx_size s"
    and logits: "length (se_logits s) = logits_bytes"
  shows "ds4_session_load_payload k s (crafted_payload s) (of_nat (length (crafted_payload s))) = Overflow"
proof -
  define raw_cap where "raw_cap = ds4_default_raw_cap (se_ctx_size s)"
  define n where "n = session_cpu_comp_cap s"
  define h where "h = [DS4_SESSION_PAYLOAD_MAGIC, DS4_SESSION_PAYLOAD_VERSION, se_ctx_size s, se_prefill_cap s, raw_cap, raw_cap,
        n, 0, of_nat DS4_N_LAYER, ucast DS4_N_HEAD_DIM, ucast DS4_N_INDEXER_HEAD_DIM, ucast DS4_N_VOCAB, 0]"
  define R where "R = replicate (layer_attn_state_bytes 4) 0 @ replicate (layer_attn_state_bytes 4) 0
      @ replicate (layer_index_state_bytes 4) 0 @ replicate (layer_index_state_bytes 4) 0 @ replicate (unat n * head_bytes) (0 :: byte)"
  define ncs where "ncs = 0 # 0 # 0 # n # replicate 39 0"
  define nics where "nics = 0 # 0 # 0 # 0 # replicate 39 (0 :: u32)"
  have payload: "crafted_payload s = concat (map le_put32 h) @ replicate logits_bytes 0 @ concat (map le_put32 ncs) @ concat (map le_put32 nics) @ R"
    by (simp only: crafted_payload_def Let_def raw_cap_def n_def h_def R_def ncs_def nics_def)
  have cap0: "raw_cap \<noteq> 0" by (simp add: raw_cap_def ds4_default_raw_cap_def Let_def)
  have start: "\<lparr>pi_file = crafted_payload s, pi_remaining = unat (of_nat (length (crafted_payload s)) :: u64)\<rparr> = pin (crafted_payload s) [] 0"
    using crafted_size [of s] by (simp add: pin_def unat_of_nat take_bit_nat_eq_self)
  have lay: "layout_ok h s raw_cap raw_cap n"
    using cap0 ctx by (simp add: layout_ok_def h_def Let_def not_le word_gt_0) (auto simp: word_le_nat_alt)
  have rc: "read_counts n (replicate DS4_N_LAYER n) (pin (concat (map le_put32 x) @ bs) rest m) = (Some x, pin bs rest m)"
    if "x = ncs \<or> x = nics" for x bs rest m
  proof (rule read_counts_step)
    show "length (replicate DS4_N_LAYER n) = length x" using that by (auto simp: ncs_def nics_def DS4_N_LAYER_def)
    fix i assume i: "i < length x"
    then have "x ! i \<in> set x" "i < DS4_N_LAYER" using that by (auto simp: ncs_def nics_def DS4_N_LAYER_def)
    then show "x ! i \<le> n \<and> x ! i \<le> replicate DS4_N_LAYER n ! i" using that by (auto simp: ncs_def nics_def)
  qed
  have over: "load_layers_cpu 0 (zip ncs nics) (kv_cache_init (se_ctx_size s) 0) (pin R [] 0) = None"
    unfolding ncs_def nics_def R_def by (rule crafted_layers_overflow [OF ctx]) (simp add: n_def cpu_comp_cap [OF cache])
  have h: "h ! 0 = DS4_SESSION_PAYLOAD_MAGIC" "h ! 1 = DS4_SESSION_PAYLOAD_VERSION" "h ! 6 = n" "h ! 7 = 0" "h ! 12 = 0"
    "length h = DS4_SESSION_PAYLOAD_U32_FIELDS"
    by (simp_all add: h_def DS4_SESSION_PAYLOAD_U32_FIELDS_def)
  have "load_payload_cpu h s (pin (replicate logits_bytes 0 @ concat (map le_put32 ncs) @ concat (map le_put32 nics) @ R) [] 0) = Overflow"
    using lay over
    by (simp add: load_payload_cpu_def Let_def h raw_cap_def [symmetric] n_def [symmetric] host_read_step logits rc)
  then show ?thesis
    unfolding ds4_session_load_payload_def start unfolding payload
    by (simp add: read_u32s_step h cpu del: One_nat_def)
qed

text \<open>A CPU session over \<open>ctx\<close> tokens right after it was made.\<close>

definition sample_cpu_session :: "u32 \<Rightarrow> ds4_session" where
  "sample_cpu_session ctx =
     \<lparr>se_cpu = True,
      se_graph = \<lparr>gg_raw_cap = 0, gg_raw_window = 0, gg_comp_cap = 0, gg_mtp_n_raw = 0, gg_turbo_packv4 = False,
        gg_attn_comp_unpack_cache = [], gg_index_comp_unpack_cache = [], gg_layer = []\<rparr>,
      se_cpu_cache = kv_cache_init ctx 0, se_checkpoint = [], se_logits = replicate logits_bytes 0, se_prefill_cap = 8, se_ctx_size = ctx,
      se_checkpoint_valid = False, se_mtp_draft_valid = False\<rparr>"

theorem cpu_load_writes_past_buffer_witness:
  "ds4_session_load_payload no_kernels (sample_cpu_session 4096) (crafted_payload (sample_cpu_session 4096))
     (of_nat (length (crafted_payload (sample_cpu_session 4096)))) = Overflow"
  by (rule cpu_load_writes_past_buffer) (simp_all add: sample_cpu_session_def)

end
