(* ===== verification/Ds4_Sched.thy ===== *)
theory Ds4_Sched
  imports Ds4_Prelude
begin

text \<open>
  The threads of the server, \<^verbatim>\<open>src/server/ds4_server.c\<close>: the accept loop of \<^verbatim>\<open>main\<close> with its shutdown,
  one \<^verbatim>\<open>client_main\<close> for every connection, and \<^verbatim>\<open>worker_main\<close>, which takes the jobs one at a time
  (\<^verbatim>\<open>enqueue\<close>, \<^verbatim>\<open>dequeue\<close>, \<^verbatim>\<open>client_done\<close>).

  A job is a variable of its client's stack frame: it exists while the client is between making and
  leaving it, and touching it at any other time sets \<open>sy_fault\<close>.  The queue is threaded through the jobs.  Every
  call of the thread library and every access between two of them is one step, in any interleaving.  Waiting on a condition
  variable releases the mutex and blocks; a signal makes the waiter ready, which then has to get the
  mutex back; a waiter may also wake without one.  \<^verbatim>\<open>generate_job\<close> is one step of the worker.  Two fields only
  record history: the jobs accepted into the queue and the jobs generated, each in order.

  The lemmas show that no step touches a job whose frame is gone, that jobs are generated exactly once
  in the order of acceptance, and that the threads always get to the point where everything accepted is
  answered, and after a stop request to the end of \<^verbatim>\<open>main\<close>.
\<close>

section \<open>State\<close>

datatype thread = Main | Worker | Client nat

datatype client_pc = CNone | CRequest | CLockJob | CLockQueue | CEnqueue | CRefuse | CRefuseJob | CUnlockQueue
  | CTest | CBlocked | CWoken | CUnlockJob | CLeave | CLockDone | CCount | CUnlockDone | CGone

datatype worker_pc = WLock | WTest | WBlocked | WWoken | WExitUnlock | WExit | WPopped nat | WClear nat
  | WGenerate nat | WLockJob nat | WFinish nat | WUnlockJob nat

datatype main_pc = MAccept | MLockCount | MCount | MUnlockCount | MCreate | MLockUncount | MUncount | MUnlockUncount
  | MStopLock | MStop | MStopUnlock | MJoin | MDrainLock | MDrainTest | MBlocked | MWoken | MDrainUnlock | MFinal

record job =
  jb_next :: "nat option"
  jb_done :: bool
  jb_mu :: "thread option"

record sync =
  sy_mu :: "thread option"
  sy_head :: "nat option"
  sy_tail :: "nat option"
  sy_stopping :: bool
  sy_clients :: nat
  sy_job :: "nat \<Rightarrow> job option"
  sy_client :: "nat \<Rightarrow> client_pc"
  sy_worker :: worker_pc
  sy_main :: main_pc
  sy_created :: nat
  sy_fault :: bool
  sy_accepted :: "nat list"
  sy_generated :: "nat list"

definition sync_init :: sync where
  "sync_init = \<lparr>sy_mu = None, sy_head = None, sy_tail = None, sy_stopping = False, sy_clients = 0, sy_job = (\<lambda>_. None),
     sy_client = (\<lambda>_. CNone), sy_worker = WLock, sy_main = MAccept, sy_created = 0, sy_fault = False,
     sy_accepted = [], sy_generated = []\<rparr>"

definition client_at :: "nat \<Rightarrow> client_pc \<Rightarrow> sync \<Rightarrow> sync" where
  "client_at i pc s = s\<lparr>sy_client := (sy_client s)(i := pc)\<rparr>"

text \<open>An access to the job of client \<open>i\<close>.\<close>

definition touch :: "nat \<Rightarrow> (job \<Rightarrow> job) \<Rightarrow> sync \<Rightarrow> sync" where
  "touch i f s =
     (case sy_job s i of None \<Rightarrow> s\<lparr>sy_fault := True\<rparr> | Some j \<Rightarrow> s\<lparr>sy_job := (sy_job s)(i \<mapsto> f j)\<rparr>)"

section \<open>Condition variables\<close>

definition signal_worker :: "sync \<Rightarrow> sync" where
  "signal_worker s = (if sy_worker s = WBlocked then s\<lparr>sy_worker := WWoken\<rparr> else s)"

definition signal_client :: "nat \<Rightarrow> sync \<Rightarrow> sync" where
  "signal_client i s = (if sy_client s i = CBlocked then client_at i CWoken s else s)"

definition signal_main :: "sync \<Rightarrow> sync" where
  "signal_main s = (if sy_main s = MBlocked then s\<lparr>sy_main := MWoken\<rparr> else s)"

section \<open>The queue\<close>

text \<open>Both run with the queue's mutex held.\<close>

definition enqueue :: "nat \<Rightarrow> sync \<Rightarrow> bool \<times> sync" where
  "enqueue i s =
     (if sy_stopping s then (False, s)
      else let s = (case sy_tail s of Some t \<Rightarrow> touch t (jb_next_update (\<lambda>_. Some i)) s | None \<Rightarrow> s\<lparr>sy_head := Some i\<rparr>);
               s = s\<lparr>sy_tail := Some i, sy_accepted := sy_accepted s @ [i]\<rparr>
           in (True, signal_worker s))"

definition pop :: "nat \<Rightarrow> sync \<Rightarrow> sync" where
  "pop j s =
     (case sy_job s j of
        None \<Rightarrow> s\<lparr>sy_fault := True\<rparr>
      | Some jb \<Rightarrow> s\<lparr>sy_head := jb_next jb, sy_tail := (if jb_next jb = None then None else sy_tail s)\<rparr>)"

section \<open>The steps\<close>

definition new_job :: job where
  "new_job = \<lparr>jb_next = None, jb_done = False, jb_mu = None\<rparr>"

definition job_mutex :: "nat \<Rightarrow> sync \<Rightarrow> thread option" where
  "job_mutex i s = (case sy_job s i of None \<Rightarrow> None | Some j \<Rightarrow> jb_mu j)"

definition job_done :: "nat \<Rightarrow> sync \<Rightarrow> bool" where
  "job_done i s \<longleftrightarrow> (case sy_job s i of None \<Rightarrow> False | Some j \<Rightarrow> jb_done j)"

text \<open>\<open>client_main\<close>; the argument says whether the request becomes a job.  \<open>None\<close>: the thread has to wait.\<close>

definition client_step :: "bool \<Rightarrow> nat \<Rightarrow> sync \<Rightarrow> sync option" where
  "client_step accepted i s =
     (case sy_client s i of
        CRequest \<Rightarrow> Some (if accepted then client_at i CLockJob (s\<lparr>sy_job := (sy_job s)(i \<mapsto> new_job)\<rparr>) else client_at i CLockDone s)
      | CLockJob \<Rightarrow> if job_mutex i s = None then Some (client_at i CLockQueue (touch i (jb_mu_update (\<lambda>_. Some (Client i))) s)) else None
      | CLockQueue \<Rightarrow> if sy_mu s = None then Some (client_at i CEnqueue (s\<lparr>sy_mu := Some (Client i)\<rparr>)) else None
      | CEnqueue \<Rightarrow> (case enqueue i s of (ok, s) \<Rightarrow> Some (client_at i (if ok then CUnlockQueue else CRefuse) s))
      | CRefuse \<Rightarrow> Some (client_at i CRefuseJob (s\<lparr>sy_mu := None\<rparr>))
      | CRefuseJob \<Rightarrow> Some (client_at i CLeave (touch i (jb_mu_update (\<lambda>_. None)) s))
      | CUnlockQueue \<Rightarrow> Some (client_at i CTest (s\<lparr>sy_mu := None\<rparr>))
      | CTest \<Rightarrow> Some (if job_done i s then client_at i CUnlockJob s else client_at i CBlocked (touch i (jb_mu_update (\<lambda>_. None)) s))
      | CWoken \<Rightarrow> if job_mutex i s = None then Some (client_at i CTest (touch i (jb_mu_update (\<lambda>_. Some (Client i))) s)) else None
      | CUnlockJob \<Rightarrow> Some (client_at i CLeave (touch i (jb_mu_update (\<lambda>_. None)) s))
      | CLeave \<Rightarrow> Some (client_at i CLockDone (s\<lparr>sy_job := (sy_job s)(i := None)\<rparr>))
      | CLockDone \<Rightarrow> if sy_mu s = None then Some (client_at i CCount (s\<lparr>sy_mu := Some (Client i)\<rparr>)) else None
      | CCount \<Rightarrow> Some (client_at i CUnlockDone (signal_main (if sy_clients s > 0 then s\<lparr>sy_clients := sy_clients s - 1\<rparr> else s)))
      | CUnlockDone \<Rightarrow> Some (client_at i CGone (s\<lparr>sy_mu := None\<rparr>))
      | _ \<Rightarrow> None)"

definition worker_step :: "sync \<Rightarrow> sync option" where
  "worker_step s =
     (case sy_worker s of
        WLock \<Rightarrow> if sy_mu s = None then Some (s\<lparr>sy_mu := Some Worker, sy_worker := WTest\<rparr>) else None
      | WTest \<Rightarrow> (case sy_head s of
            None \<Rightarrow> Some (if sy_stopping s then s\<lparr>sy_worker := WExitUnlock\<rparr> else s\<lparr>sy_mu := None, sy_worker := WBlocked\<rparr>)
          | Some j \<Rightarrow> Some ((pop j s)\<lparr>sy_worker := WPopped j\<rparr>))
      | WWoken \<Rightarrow> if sy_mu s = None then Some (s\<lparr>sy_mu := Some Worker, sy_worker := WTest\<rparr>) else None
      | WExitUnlock \<Rightarrow> Some (s\<lparr>sy_mu := None, sy_worker := WExit\<rparr>)
      | WPopped j \<Rightarrow> Some (s\<lparr>sy_mu := None, sy_worker := WClear j\<rparr>)
      | WClear j \<Rightarrow> Some ((touch j (jb_next_update (\<lambda>_. None)) s)\<lparr>sy_worker := WGenerate j\<rparr>)
      | WGenerate j \<Rightarrow> Some ((touch j id s)\<lparr>sy_generated := sy_generated s @ [j], sy_worker := WLockJob j\<rparr>)
      | WLockJob j \<Rightarrow> if job_mutex j s = None
          then Some ((touch j (jb_mu_update (\<lambda>_. Some Worker)) s)\<lparr>sy_worker := WFinish j\<rparr>) else None
      | WFinish j \<Rightarrow> Some ((signal_client j (touch j (jb_done_update (\<lambda>_. True)) s))\<lparr>sy_worker := WUnlockJob j\<rparr>)
      | WUnlockJob j \<Rightarrow> Some ((touch j (jb_mu_update (\<lambda>_. None)) s)\<lparr>sy_worker := WLock\<rparr>)
      | _ \<Rightarrow> None)"

text \<open>\<open>main\<close> past the accept; the argument says whether the client's thread can be made.\<close>

definition main_step :: "bool \<Rightarrow> sync \<Rightarrow> sync option" where
  "main_step created s =
     (case sy_main s of
        MLockCount \<Rightarrow> if sy_mu s = None then Some (s\<lparr>sy_mu := Some Main, sy_main := MCount\<rparr>) else None
      | MCount \<Rightarrow> Some (s\<lparr>sy_clients := sy_clients s + 1, sy_main := MUnlockCount\<rparr>)
      | MUnlockCount \<Rightarrow> Some (s\<lparr>sy_mu := None, sy_main := MCreate\<rparr>)
      | MCreate \<Rightarrow> Some (if created
          then client_at (sy_created s) CRequest (s\<lparr>sy_created := sy_created s + 1, sy_main := MAccept\<rparr>)
          else s\<lparr>sy_main := MLockUncount\<rparr>)
      | MLockUncount \<Rightarrow> if sy_mu s = None then Some (s\<lparr>sy_mu := Some Main, sy_main := MUncount\<rparr>) else None
      | MUncount \<Rightarrow> Some (s\<lparr>sy_clients := sy_clients s - 1, sy_main := MUnlockUncount\<rparr>)
      | MUnlockUncount \<Rightarrow> Some (s\<lparr>sy_mu := None, sy_main := MAccept\<rparr>)
      | MStopLock \<Rightarrow> if sy_mu s = None then Some (s\<lparr>sy_mu := Some Main, sy_main := MStop\<rparr>) else None
      | MStop \<Rightarrow> Some ((signal_worker (s\<lparr>sy_stopping := True\<rparr>))\<lparr>sy_main := MStopUnlock\<rparr>)
      | MStopUnlock \<Rightarrow> Some (s\<lparr>sy_mu := None, sy_main := MJoin\<rparr>)
      | MJoin \<Rightarrow> if sy_worker s = WExit then Some (s\<lparr>sy_main := MDrainLock\<rparr>) else None
      | MDrainLock \<Rightarrow> if sy_mu s = None then Some (s\<lparr>sy_mu := Some Main, sy_main := MDrainTest\<rparr>) else None
      | MDrainTest \<Rightarrow> Some (if sy_clients s > 0 then s\<lparr>sy_mu := None, sy_main := MBlocked\<rparr> else s\<lparr>sy_main := MDrainUnlock\<rparr>)
      | MWoken \<Rightarrow> if sy_mu s = None then Some (s\<lparr>sy_mu := Some Main, sy_main := MDrainTest\<rparr>) else None
      | MDrainUnlock \<Rightarrow> Some (s\<lparr>sy_mu := None, sy_main := MFinal\<rparr>)
      | _ \<Rightarrow> None)"

text \<open>The steps of the program, and what comes from outside: connections, the stop request, and wake-ups
  without a signal.\<close>

inductive program_step :: "sync \<Rightarrow> sync \<Rightarrow> bool" where
  client: "client_step b i s = Some s' \<Longrightarrow> program_step s s'"
| worker: "worker_step s = Some s' \<Longrightarrow> program_step s s'"
| main: "main_step b s = Some s' \<Longrightarrow> program_step s s'"

inductive outside_step :: "sync \<Rightarrow> sync \<Rightarrow> bool" where
  connection: "sy_main s = MAccept \<Longrightarrow> outside_step s (s\<lparr>sy_main := MLockCount\<rparr>)"
| stop: "sy_main s = MAccept \<Longrightarrow> outside_step s (s\<lparr>sy_main := MStopLock\<rparr>)"
| wake_worker: "outside_step s (signal_worker s)"
| wake_client: "outside_step s (signal_client i s)"
| wake_main: "outside_step s (signal_main s)"

inductive reachable :: "sync \<Rightarrow> bool" where
  start: "reachable sync_init"
| program: "reachable s \<Longrightarrow> program_step s s' \<Longrightarrow> reachable s'"
| outside: "reachable s \<Longrightarrow> outside_step s s' \<Longrightarrow> reachable s'"

section \<open>The invariant\<close>

fun has_frame :: "client_pc \<Rightarrow> bool" where
  "has_frame CNone = False" | "has_frame CRequest = False" | "has_frame CLockDone = False" | "has_frame CCount = False"
| "has_frame CUnlockDone = False" | "has_frame CGone = False" | "has_frame _ = True"

definition holds_job :: "client_pc \<Rightarrow> bool" where
  "holds_job pc \<longleftrightarrow> pc \<in> {CLockQueue, CEnqueue, CRefuse, CRefuseJob, CUnlockQueue, CTest, CUnlockJob}"

definition client_holds :: "client_pc \<Rightarrow> bool" where
  "client_holds pc \<longleftrightarrow> pc \<in> {CEnqueue, CRefuse, CUnlockQueue, CCount, CUnlockDone}"

definition worker_holds :: "worker_pc \<Rightarrow> bool" where
  "worker_holds pc \<longleftrightarrow> (case pc of WTest \<Rightarrow> True | WExitUnlock \<Rightarrow> True | WPopped _ \<Rightarrow> True | _ \<Rightarrow> False)"

definition main_holds :: "main_pc \<Rightarrow> bool" where
  "main_holds pc \<longleftrightarrow> pc \<in> {MCount, MUnlockCount, MUncount, MUnlockUncount, MStop, MStopUnlock, MDrainTest, MDrainUnlock}"

text \<open>Accepted, and not yet told that the job is done.\<close>

definition waits :: "client_pc \<Rightarrow> bool" where
  "waits pc \<longleftrightarrow> pc \<in> {CUnlockQueue, CTest, CBlocked, CWoken}"

definition not_accepted :: "client_pc \<Rightarrow> bool" where
  "not_accepted pc \<longleftrightarrow> pc \<in> {CNone, CRequest, CLockJob, CLockQueue, CEnqueue, CRefuse, CRefuseJob}"

text \<open>The job the worker still has to generate, to finish, or to unlock.\<close>

fun to_generate :: "worker_pc \<Rightarrow> nat option" where
  "to_generate (WPopped j) = Some j" | "to_generate (WClear j) = Some j" | "to_generate (WGenerate j) = Some j" | "to_generate _ = None"

fun to_finish :: "worker_pc \<Rightarrow> nat option" where
  "to_finish (WPopped j) = Some j" | "to_finish (WClear j) = Some j" | "to_finish (WGenerate j) = Some j"
| "to_finish (WLockJob j) = Some j" | "to_finish (WFinish j) = Some j" | "to_finish _ = None"

definition worker_has :: "nat \<Rightarrow> worker_pc \<Rightarrow> bool" where
  "worker_has i pc \<longleftrightarrow> pc = WFinish i \<or> pc = WUnlockJob i"

text \<open>The jobs from \<open>p\<close> on are \<open>q\<close>.\<close>

fun linked :: "(nat \<Rightarrow> job option) \<Rightarrow> nat option \<Rightarrow> nat list \<Rightarrow> bool" where
  "linked h p [] \<longleftrightarrow> p = None"
| "linked h p (i # q) \<longleftrightarrow> p = Some i \<and> (\<exists>j. h i = Some j \<and> linked h (jb_next j) q)"

definition mutex_ok :: "sync \<Rightarrow> bool" where
  "mutex_ok s \<longleftrightarrow> (main_holds (sy_main s) \<longleftrightarrow> sy_mu s = Some Main) \<and> (worker_holds (sy_worker s) \<longleftrightarrow> sy_mu s = Some Worker)
     \<and> (\<forall>i. client_holds (sy_client s i) \<longleftrightarrow> sy_mu s = Some (Client i))"

definition frames_ok :: "sync \<Rightarrow> bool" where
  "frames_ok s \<longleftrightarrow> (\<forall>i. sy_job s i \<noteq> None \<longleftrightarrow> has_frame (sy_client s i))
     \<and> (\<forall>i. sy_client s i = CNone \<longleftrightarrow> sy_created s \<le> i)
     \<and> (\<forall>i j. sy_job s i = Some j \<longrightarrow> not_accepted (sy_client s i) \<longrightarrow> jb_next j = None)"

definition job_mutexes_ok :: "sync \<Rightarrow> bool" where
  "job_mutexes_ok s \<longleftrightarrow> (\<forall>i j. sy_job s i = Some j \<longrightarrow>
      (holds_job (sy_client s i) \<longleftrightarrow> jb_mu j = Some (Client i)) \<and> (worker_has i (sy_worker s) \<longleftrightarrow> jb_mu j = Some Worker)
      \<and> (jb_mu j = None \<or> jb_mu j = Some (Client i) \<or> jb_mu j = Some Worker))"

definition queue_ok :: "sync \<Rightarrow> nat list \<Rightarrow> bool" where
  "queue_ok s q \<longleftrightarrow> linked (sy_job s) (sy_head s) q \<and> sy_tail s = (if q = [] then None else Some (last q)) \<and> distinct q"

definition pending_ok :: "sync \<Rightarrow> nat list \<Rightarrow> bool" where
  "pending_ok s q \<longleftrightarrow>
     (\<forall>i. i \<in> set q \<or> to_finish (sy_worker s) = Some i \<longleftrightarrow> waits (sy_client s i) \<and> \<not> job_done i s)
     \<and> (\<forall>i. to_finish (sy_worker s) = Some i \<longrightarrow> i \<notin> set q)
     \<and> (\<forall>i. job_done i s \<longrightarrow> sy_client s i \<in> {CTest, CWoken, CUnlockJob, CLeave})
     \<and> (\<forall>i. sy_worker s = WUnlockJob i \<longrightarrow> sy_client s i = CWoken \<and> job_done i s)"

definition stop_ok :: "sync \<Rightarrow> nat list \<Rightarrow> bool" where
  "stop_ok s q \<longleftrightarrow> (sy_worker s = WBlocked \<longrightarrow> q = [] \<and> \<not> sy_stopping s)
     \<and> (sy_worker s \<in> {WExitUnlock, WExit} \<longrightarrow> q = [] \<and> sy_stopping s)
     \<and> (sy_stopping s \<longleftrightarrow> sy_main s \<in> {MStopUnlock, MJoin, MDrainLock, MDrainTest, MBlocked, MWoken, MDrainUnlock, MFinal})
     \<and> (sy_main s \<in> {MDrainLock, MDrainTest, MBlocked, MWoken, MDrainUnlock, MFinal} \<longrightarrow> sy_worker s = WExit)"

definition history_ok :: "sync \<Rightarrow> nat list \<Rightarrow> bool" where
  "history_ok s q \<longleftrightarrow>
     sy_accepted s = sy_generated s @ (case to_generate (sy_worker s) of None \<Rightarrow> [] | Some i \<Rightarrow> [i]) @ q
     \<and> distinct (sy_accepted s) \<and> (\<forall>i \<in> set (sy_accepted s). \<not> not_accepted (sy_client s i))"

definition sync_ok :: "sync \<Rightarrow> nat list \<Rightarrow> bool" where
  "sync_ok s q \<longleftrightarrow> \<not> sy_fault s \<and> mutex_ok s \<and> frames_ok s \<and> job_mutexes_ok s \<and> queue_ok s q \<and> pending_ok s q \<and> stop_ok s q
     \<and> history_ok s q"

lemmas sync_defs = mutex_ok_def frames_ok_def job_mutexes_ok_def queue_ok_def pending_ok_def stop_ok_def history_ok_def
lemmas pc_defs = holds_job_def client_holds_def worker_holds_def main_holds_def waits_def not_accepted_def worker_has_def
lemmas op_defs = client_at_def signal_worker_def signal_client_def signal_main_def

lemma sync_init_ok: "sync_ok sync_init []"
  by (simp add: sync_ok_def sync_defs pc_defs sync_init_def job_done_def)

lemma linked_cong: "(\<And>i. i \<in> set q \<Longrightarrow> map_option jb_next (h i) = map_option jb_next (h' i)) \<Longrightarrow> linked h p q \<longleftrightarrow> linked h' p q"
proof (induction q arbitrary: p)
  case (Cons i q)
  have "map_option jb_next (h i) = map_option jb_next (h' i)" by (rule Cons.prems) simp
  moreover have "linked h p q \<longleftrightarrow> linked h' p q" for p using Cons by simp
  ultimately show ?case by (auto simp: map_option_case split: option.splits)
qed simp

lemma linked_frame: "linked h p q \<Longrightarrow> i \<in> set q \<Longrightarrow> h i \<noteq> None"
  by (induction q arbitrary: p) auto

lemma linked_off: "i \<notin> set q \<Longrightarrow> linked (h(i := x)) p q \<longleftrightarrow> linked h p q"
  by (rule linked_cong) auto

lemma linked_append:
  "linked h p q \<Longrightarrow> q \<noteq> [] \<Longrightarrow> distinct q \<Longrightarrow> n \<notin> set q \<Longrightarrow> h (last q) = Some j \<Longrightarrow> h n = Some jn \<Longrightarrow> jb_next jn = None
   \<Longrightarrow> linked (h(last q \<mapsto> j\<lparr>jb_next := Some n\<rparr>)) p (q @ [n])"
proof (induction q arbitrary: p)
  case (Cons i q)
  then show ?case
  proof (cases "q = []")
    case False
    define H where "H = h(last q \<mapsto> j\<lparr>jb_next := Some n\<rparr>)"
    have l: "last (i # q) = last q" using False by simp
    from Cons.prems(1) obtain ji where ji: "p = Some i" "h i = Some ji" "linked h (jb_next ji) q" by auto
    have "linked H (jb_next ji) (q @ [n])"
      unfolding H_def using Cons.prems False by (intro Cons.IH [OF ji(3)]) simp_all
    moreover have "H i = Some ji" using Cons.prems(3) False ji(2) by (auto simp: H_def)
    ultimately show ?thesis unfolding l H_def [symmetric] using ji(1) by simp
  qed auto
qed simp

section \<open>Every step keeps it\<close>

lemma touch_alive: "sy_job s i = Some j \<Longrightarrow> touch i f s = s\<lparr>sy_job := (sy_job s)(i \<mapsto> f j)\<rparr>"
  by (simp add: touch_def)

text \<open>Steps that change neither the jobs' links nor the ends of the queue.\<close>

lemma queue_ok_frame:
  assumes "queue_ok s q" "sy_head s' = sy_head s" "sy_tail s' = sy_tail s"
    and "\<And>i. i \<in> set q \<Longrightarrow> map_option jb_next (sy_job s i) = map_option jb_next (sy_job s' i)"
  shows "queue_ok s' q"
  using assms linked_cong [of q "sy_job s" "sy_job s'" "sy_head s"] by (simp add: queue_ok_def)

definition frame_done :: "job option \<Rightarrow> bool" where
  "frame_done x \<longleftrightarrow> (case x of None \<Rightarrow> False | Some j \<Rightarrow> jb_done j)"

lemma job_done_frame: "job_done i s \<longleftrightarrow> frame_done (sy_job s i)"
  by (simp add: job_done_def frame_done_def)

text \<open>A client moves from one point to the next: only its own place, its own frame and the mutex it takes or gives
  back change.\<close>

lemma client_move_ok:
  assumes ok: "sync_ok s q"
    and s': "s' = s\<lparr>sy_mu := m, sy_job := (sy_job s)(i := J), sy_client := (sy_client s)(i := pc)\<rparr>"
    and mu: "m = sy_mu s \<or> sy_mu s = None \<and> m = Some (Client i) \<or> sy_mu s = Some (Client i) \<and> m = None"
    and holds: "client_holds pc \<longleftrightarrow> m = Some (Client i)"
    and frame: "J \<noteq> None \<longleftrightarrow> has_frame pc" "sy_client s i \<noteq> CNone" "pc \<noteq> CNone"
      "\<And>j. J = Some j \<Longrightarrow> not_accepted pc \<Longrightarrow> jb_next j = None"
    and jm: "\<And>j. J = Some j \<Longrightarrow> (holds_job pc \<longleftrightarrow> jb_mu j = Some (Client i)) \<and> (worker_has i (sy_worker s) \<longleftrightarrow> jb_mu j = Some Worker)
        \<and> (jb_mu j = None \<or> jb_mu j = Some (Client i) \<or> jb_mu j = Some Worker)"
    and links: "i \<in> set q \<Longrightarrow> map_option jb_next (sy_job s i) = map_option jb_next J"
    and pend: "waits pc \<and> \<not> frame_done J \<longleftrightarrow> waits (sy_client s i) \<and> \<not> frame_done (sy_job s i)"
      "frame_done J \<Longrightarrow> pc \<in> {CTest, CWoken, CUnlockJob, CLeave}"
      "sy_worker s = WUnlockJob i \<Longrightarrow> pc = CWoken \<and> frame_done J"
    and hist: "not_accepted pc \<Longrightarrow> not_accepted (sy_client s i)"
  shows "sync_ok s' q"
proof -
  have "mutex_ok s'" using ok mu holds by (auto simp: sync_ok_def mutex_ok_def s')
  moreover have "frames_ok s'" using ok frame unfolding sync_ok_def frames_ok_def s' by simp
  moreover have "job_mutexes_ok s'" using ok jm unfolding sync_ok_def job_mutexes_ok_def s' by simp
  moreover have "queue_ok s' q"
  proof (rule queue_ok_frame)
    show "queue_ok s q" using ok by (simp add: sync_ok_def)
  qed (use links in \<open>auto simp: s'\<close>)
  moreover have "pending_ok s' q"
  proof -
    have p: "pending_ok s q" using ok by (simp add: sync_ok_def)
    show ?thesis unfolding pending_ok_def
    proof (intro conjI allI)
      fix k
      show "(k \<in> set q \<or> to_finish (sy_worker s') = Some k) = (waits (sy_client s' k) \<and> \<not> job_done k s')"
        using p pend(1) by (cases "k = i") (simp_all add: s' pending_ok_def job_done_frame)
      show "to_finish (sy_worker s') = Some k \<longrightarrow> k \<notin> set q" using p by (simp add: s' pending_ok_def)
      show "job_done k s' \<longrightarrow> sy_client s' k \<in> {CTest, CWoken, CUnlockJob, CLeave}"
        using p pend(2) by (cases "k = i") (simp_all add: s' pending_ok_def job_done_frame)
      show "sy_worker s' = WUnlockJob k \<longrightarrow> sy_client s' k = CWoken \<and> job_done k s'"
        using p pend(3) by (cases "k = i") (simp_all add: s' pending_ok_def job_done_frame)
    qed
  qed
  moreover have "stop_ok s' q \<longleftrightarrow> stop_ok s q" by (simp add: stop_ok_def s')
  moreover have "history_ok s' q" using ok hist by (auto simp: sync_ok_def history_ok_def s')
  ultimately show ?thesis using ok by (simp add: sync_ok_def s')
qed

lemma main_frame:
  "frames_ok (s\<lparr>sy_main := m\<rparr>) = frames_ok s" "job_mutexes_ok (s\<lparr>sy_main := m\<rparr>) = job_mutexes_ok s"
  "queue_ok (s\<lparr>sy_main := m\<rparr>) q = queue_ok s q" "pending_ok (s\<lparr>sy_main := m\<rparr>) q = pending_ok s q"
  "history_ok (s\<lparr>sy_main := m\<rparr>) q = history_ok s q"
  by (simp_all add: sync_defs job_done_def)

lemma main_move_ok:
  assumes "sync_ok s q" "main_holds m \<longleftrightarrow> main_holds (sy_main s)" "stop_ok (s\<lparr>sy_main := m\<rparr>) q"
  shows "sync_ok (s\<lparr>sy_main := m\<rparr>) q"
  using assms by (simp add: sync_ok_def main_frame) (simp add: mutex_ok_def)

definition history :: "sync \<Rightarrow> nat list \<Rightarrow> nat list" where
  "history s q = sy_generated s @ (case to_generate (sy_worker s) of None \<Rightarrow> [] | Some i \<Rightarrow> [i]) @ q"

lemma history_move:
  assumes h: "history_ok s q" and a: "sy_accepted s' = sy_accepted s" and g: "history s' q' = history s q"
    and n: "\<And>i. not_accepted (sy_client s' i) \<Longrightarrow> not_accepted (sy_client s i)"
  shows "history_ok s' q'"
proof -
  have "sy_accepted s = history s q" "distinct (sy_accepted s)" "\<forall>i \<in> set (sy_accepted s). \<not> not_accepted (sy_client s i)"
    using h unfolding history_ok_def history_def by blast+
  with n show ?thesis unfolding history_ok_def history_def [symmetric] a g by blast
qed

lemma signal_main_ok:
  assumes "sync_ok s q"
  shows "sync_ok (signal_main s) q"
proof (cases "sy_main s = MBlocked")
  case True
  have "stop_ok s q" using assms by (simp add: sync_ok_def)
  then have "stop_ok (s\<lparr>sy_main := MWoken\<rparr>) q" using True by (simp add: stop_ok_def)
  with assms True show ?thesis by (simp add: signal_main_def main_move_ok main_holds_def)
qed (use assms in \<open>simp add: signal_main_def\<close>)

lemma clients_ok: "sync_ok (s\<lparr>sy_clients := n\<rparr>) q \<longleftrightarrow> sync_ok s q"
  by (simp add: sync_ok_def sync_defs job_done_def)

lemma client_frame: "sync_ok s q \<Longrightarrow> has_frame (sy_client s i) \<Longrightarrow> \<exists>j. sy_job s i = Some j"
  by (auto simp: sync_ok_def frames_ok_def)

lemma client_framed: "sync_ok s q \<Longrightarrow> sy_job s i = Some j \<Longrightarrow> has_frame (sy_client s i)"
  unfolding sync_ok_def frames_ok_def by blast

lemma client_unlinked: "sync_ok s q \<Longrightarrow> sy_job s i = Some j \<Longrightarrow> not_accepted (sy_client s i) \<Longrightarrow> jb_next j = None"
  unfolding sync_ok_def frames_ok_def by blast

lemma client_mutex:
  "sync_ok s q \<Longrightarrow> sy_job s i = Some j \<Longrightarrow>
     (holds_job (sy_client s i) \<longleftrightarrow> jb_mu j = Some (Client i)) \<and> (worker_has i (sy_worker s) \<longleftrightarrow> jb_mu j = Some Worker)
     \<and> (jb_mu j = None \<or> jb_mu j = Some (Client i) \<or> jb_mu j = Some Worker)"
  by (simp add: sync_ok_def job_mutexes_ok_def)

lemma client_not_done:
  "sync_ok s q \<Longrightarrow> sy_job s i = Some j \<Longrightarrow> sy_client s i \<notin> {CTest, CWoken, CUnlockJob, CLeave} \<Longrightarrow> \<not> jb_done j"
  by (auto simp: sync_ok_def pending_ok_def job_done_def split: option.splits)

lemma client_unlocking:
  "sync_ok s q \<Longrightarrow> sy_worker s = WUnlockJob i \<Longrightarrow> sy_client s i = CWoken"
  by (simp add: sync_ok_def pending_ok_def)

lemma client_queued: "sync_ok s q \<Longrightarrow> i \<in> set q \<Longrightarrow> waits (sy_client s i) \<and> \<not> frame_done (sy_job s i)"
  unfolding sync_ok_def pending_ok_def job_done_frame by blast

lemma worker_client: "sync_ok s q \<Longrightarrow> to_finish (sy_worker s) = Some i \<Longrightarrow> waits (sy_client s i) \<and> \<not> frame_done (sy_job s i) \<and> i \<notin> set q"
  unfolding sync_ok_def pending_ok_def job_done_frame by blast

lemma client_mu: "sync_ok s q \<Longrightarrow> client_holds (sy_client s i) \<longleftrightarrow> sy_mu s = Some (Client i)"
  by (simp add: sync_ok_def mutex_ok_def)

text \<open>What the invariant says of a client with a frame, and the conditions of a move from there.\<close>

lemma framed_move_ok:
  assumes ok: "sync_ok s q" and j: "sy_job s i = Some j"
    and "m = sy_mu s \<or> sy_mu s = None \<and> m = Some (Client i) \<or> sy_mu s = Some (Client i) \<and> m = None"
      "client_holds p \<longleftrightarrow> m = Some (Client i)" "J \<noteq> None \<longleftrightarrow> has_frame p" "p \<noteq> CNone"
      "\<And>jj. J = Some jj \<Longrightarrow> not_accepted p \<Longrightarrow> jb_next jj = None"
      "\<And>jj. J = Some jj \<Longrightarrow> (holds_job p \<longleftrightarrow> jb_mu jj = Some (Client i)) \<and> (worker_has i (sy_worker s) \<longleftrightarrow> jb_mu jj = Some Worker)
        \<and> (jb_mu jj = None \<or> jb_mu jj = Some (Client i) \<or> jb_mu jj = Some Worker)"
      "i \<in> set q \<Longrightarrow> Some (jb_next j) = map_option jb_next J"
      "waits p \<and> \<not> frame_done J \<longleftrightarrow> waits (sy_client s i) \<and> \<not> jb_done j"
      "frame_done J \<Longrightarrow> p \<in> {CTest, CWoken, CUnlockJob, CLeave}"
      "sy_worker s = WUnlockJob i \<Longrightarrow> p = CWoken \<and> frame_done J"
      "not_accepted p \<Longrightarrow> not_accepted (sy_client s i)"
  shows "sync_ok (s\<lparr>sy_mu := m, sy_job := (sy_job s)(i := J), sy_client := (sy_client s)(i := p)\<rparr>) q"
proof -
  have "sy_client s i \<noteq> CNone" using client_framed [OF ok j] by auto
  then show ?thesis using assms(3-) j by (intro client_move_ok [OF ok refl]) (simp_all add: frame_done_def)
qed

lemmas client_simps = client_step_def job_mutex_def touch_alive client_at_def job_done_def fun_upd_idem
lemmas client_facts = client_mutex client_not_done client_unlocking client_mu client_queued

lemma client_step_ok:
  assumes ok: "sync_ok s q" and st: "client_step b i s = Some s'" and pc: "sy_client s i \<noteq> CEnqueue" and j: "sy_job s i = Some j"
  shows "sync_ok s' q"
proof -
  note facts = client_mutex [OF ok j] client_not_done [OF ok j] client_unlocking [OF ok, of i] client_mu [OF ok, of i]
    client_queued [OF ok, of i] client_unlinked [OF ok j]
  note fr = client_framed [OF ok j]
  show ?thesis
  proof (cases "sy_client s i")
    case CLockJob
    with st j have s': "s' = s\<lparr>sy_mu := sy_mu s, sy_job := (sy_job s)(i := Some (j\<lparr>jb_mu := Some (Client i)\<rparr>)), sy_client := (sy_client s)(i := CLockQueue)\<rparr> \<and> jb_mu j = None"
      by (auto simp: client_simps split: if_splits)
    show ?thesis unfolding conjunct1 [OF s'] by (rule framed_move_ok [OF ok j]) (use CLockJob facts s' in \<open>auto simp: pc_defs frame_done_def\<close>)
  next
    case CLockQueue
    with st j have s': "s' = s\<lparr>sy_mu := Some (Client i), sy_job := (sy_job s)(i := Some j), sy_client := (sy_client s)(i := CEnqueue)\<rparr> \<and> sy_mu s = None"
      by (auto simp: client_simps split: if_splits)
    show ?thesis unfolding conjunct1 [OF s'] by (rule framed_move_ok [OF ok j]) (use CLockQueue facts s' in \<open>auto simp: pc_defs frame_done_def\<close>)
  next
    case CRefuse
    with st j have s': "s' = s\<lparr>sy_mu := None, sy_job := (sy_job s)(i := Some j), sy_client := (sy_client s)(i := CRefuseJob)\<rparr>"
      by (simp add: client_simps)
    show ?thesis unfolding s' by (rule framed_move_ok [OF ok j]) (use CRefuse facts in \<open>auto simp: pc_defs frame_done_def\<close>)
  next
    case CRefuseJob
    with st j have s': "s' = s\<lparr>sy_mu := sy_mu s, sy_job := (sy_job s)(i := Some (j\<lparr>jb_mu := None\<rparr>)), sy_client := (sy_client s)(i := CLeave)\<rparr>"
      by (simp add: client_simps)
    show ?thesis unfolding s' by (rule framed_move_ok [OF ok j]) (use CRefuseJob facts in \<open>auto simp: pc_defs frame_done_def\<close>)
  next
    case CUnlockQueue
    with st j have s': "s' = s\<lparr>sy_mu := None, sy_job := (sy_job s)(i := Some j), sy_client := (sy_client s)(i := CTest)\<rparr>"
      by (simp add: client_simps)
    show ?thesis unfolding s' by (rule framed_move_ok [OF ok j]) (use CUnlockQueue facts in \<open>auto simp: pc_defs frame_done_def\<close>)
  next
    case CTest
    show ?thesis
    proof (cases "jb_done j")
      case True
      with st j CTest have s': "s' = s\<lparr>sy_mu := sy_mu s, sy_job := (sy_job s)(i := Some j), sy_client := (sy_client s)(i := CUnlockJob)\<rparr>"
        by (simp add: client_simps)
      show ?thesis unfolding s' by (rule framed_move_ok [OF ok j]) (use CTest True facts in \<open>auto simp: pc_defs frame_done_def\<close>)
    next
      case False
      with st j CTest have s': "s' = s\<lparr>sy_mu := sy_mu s, sy_job := (sy_job s)(i := Some (j\<lparr>jb_mu := None\<rparr>)), sy_client := (sy_client s)(i := CBlocked)\<rparr>"
        by (simp add: client_simps)
      show ?thesis unfolding s' by (rule framed_move_ok [OF ok j]) (use CTest False facts in \<open>auto simp: pc_defs frame_done_def\<close>)
    qed
  next
    case CWoken
    with st j have s': "s' = s\<lparr>sy_mu := sy_mu s, sy_job := (sy_job s)(i := Some (j\<lparr>jb_mu := Some (Client i)\<rparr>)), sy_client := (sy_client s)(i := CTest)\<rparr> \<and> jb_mu j = None"
      by (auto simp: client_simps split: if_splits)
    show ?thesis unfolding conjunct1 [OF s'] by (rule framed_move_ok [OF ok j]) (use CWoken facts s' in \<open>auto simp: pc_defs frame_done_def\<close>)
  next
    case CUnlockJob
    with st j have s': "s' = s\<lparr>sy_mu := sy_mu s, sy_job := (sy_job s)(i := Some (j\<lparr>jb_mu := None\<rparr>)), sy_client := (sy_client s)(i := CLeave)\<rparr>"
      by (simp add: client_simps)
    show ?thesis unfolding s' by (rule framed_move_ok [OF ok j]) (use CUnlockJob facts in \<open>auto simp: pc_defs frame_done_def\<close>)
  next
    case CLeave
    with st j have s': "s' = s\<lparr>sy_mu := sy_mu s, sy_job := (sy_job s)(i := None), sy_client := (sy_client s)(i := CLockDone)\<rparr>"
      by (simp add: client_simps)
    show ?thesis unfolding s' by (rule framed_move_ok [OF ok j]) (use CLeave facts in \<open>auto simp: pc_defs frame_done_def\<close>)
  qed (use st pc fr in \<open>simp_all add: client_step_def\<close>)
qed

lemma unframed_step_ok:
  assumes ok: "sync_ok s q" and st: "client_step b i s = Some s'" and j: "sy_job s i = None"
  shows "sync_ok s' q"
proof -
  have fr: "\<not> has_frame (sy_client s i)" using ok j unfolding sync_ok_def frames_ok_def by blast
  note facts = client_unlocking [OF ok, of i] client_mu [OF ok, of i] client_queued [OF ok, of i]
  have noworker: "\<not> worker_has i (sy_worker s)" if "sy_client s i = CRequest"
    using worker_client [OF ok, of i] facts(1) that by (auto simp: worker_has_def pc_defs)
  show ?thesis
  proof (cases "sy_client s i")
    case CRequest
    have s': "s' = s\<lparr>sy_mu := sy_mu s, sy_job := (sy_job s)(i := if b then Some new_job else None),
        sy_client := (sy_client s)(i := if b then CLockJob else CLockDone)\<rparr>"
      using st j CRequest by (auto simp: client_simps)
    show ?thesis unfolding s' by (rule client_move_ok [OF ok refl])
      (use CRequest j facts noworker in \<open>auto simp: pc_defs frame_done_def new_job_def split: if_splits\<close>)
  next
    case CLockDone
    with st j have s': "s' = s\<lparr>sy_mu := Some (Client i), sy_job := (sy_job s)(i := None), sy_client := (sy_client s)(i := CCount)\<rparr> \<and> sy_mu s = None"
      by (auto simp: client_simps split: if_splits)
    show ?thesis unfolding conjunct1 [OF s'] by (rule client_move_ok [OF ok refl])
      (use CLockDone j facts s' in \<open>auto simp: pc_defs frame_done_def\<close>)
  next
    case CCount
    define s1 where "s1 = s\<lparr>sy_mu := sy_mu s, sy_job := (sy_job s)(i := None), sy_client := (sy_client s)(i := CUnlockDone)\<rparr>"
    have "sync_ok s1 q" unfolding s1_def by (rule client_move_ok [OF ok refl])
      (use CCount j facts in \<open>auto simp: pc_defs frame_done_def\<close>)
    then have "sync_ok (signal_main (s1\<lparr>sy_clients := n\<rparr>)) q" for n by (intro signal_main_ok) (simp add: clients_ok)
    moreover have "s' = signal_main (s1\<lparr>sy_clients := sy_clients s - 1\<rparr>)"
      using st j CCount by (auto simp: client_simps s1_def signal_main_def)
    ultimately show ?thesis by simp
  next
    case CUnlockDone
    with st j have s': "s' = s\<lparr>sy_mu := None, sy_job := (sy_job s)(i := None), sy_client := (sy_client s)(i := CGone)\<rparr>"
      by (simp add: client_simps)
    show ?thesis unfolding s' by (rule client_move_ok [OF ok refl])
      (use CUnlockDone j facts in \<open>auto simp: pc_defs frame_done_def\<close>)
  qed (use st fr in \<open>simp_all add: client_step_def\<close>)
qed

text \<open>The worker moves on without touching the queue.\<close>

lemma signal_worker_ok:
  assumes "sync_ok s q"
  shows "sync_ok (signal_worker s) q"
proof (cases "sy_worker s = WBlocked")
  case True
  have "frames_ok (s\<lparr>sy_worker := WWoken\<rparr>) = frames_ok s" "queue_ok (s\<lparr>sy_worker := WWoken\<rparr>) q = queue_ok s q"
    by (simp_all add: frames_ok_def queue_ok_def)
  moreover have "mutex_ok (s\<lparr>sy_worker := WWoken\<rparr>) = mutex_ok s" "job_mutexes_ok (s\<lparr>sy_worker := WWoken\<rparr>) = job_mutexes_ok s"
    "pending_ok (s\<lparr>sy_worker := WWoken\<rparr>) q = pending_ok s q" "history_ok (s\<lparr>sy_worker := WWoken\<rparr>) q = history_ok s q"
    using True by (simp_all add: sync_defs pc_defs job_done_def)
  moreover have "stop_ok (s\<lparr>sy_worker := WWoken\<rparr>) q" if "stop_ok s q" using that True by (auto simp: stop_ok_def)
  ultimately show ?thesis using assms True by (simp add: sync_ok_def signal_worker_def)
qed (use assms in \<open>simp add: signal_worker_def\<close>)

lemma enqueue_ok:
  assumes ok: "sync_ok s q" and pc: "sy_client s i = CEnqueue" and run: "\<not> sy_stopping s"
    and w: "sy_worker s \<noteq> WBlocked"
  shows "sync_ok (client_at i CUnlockQueue (snd (enqueue i s))) (q @ [i])"
proof -
  obtain j where j: "sy_job s i = Some j" using client_frame [OF ok, of i] pc by auto
  have nx: "jb_next j = None" using client_unlinked [OF ok j] pc by (simp add: pc_defs)
  have q: "linked (sy_job s) (sy_head s) q" "sy_tail s = (if q = [] then None else Some (last q))" "distinct q"
    using ok by (simp_all add: sync_ok_def queue_ok_def)
  have i: "i \<notin> set q" using client_queued [OF ok, of i] pc by (auto simp: pc_defs)
  define h where "h = (if q = [] then sy_job s else (sy_job s)(last q := map_option (jb_next_update (\<lambda>_. Some i)) (sy_job s (last q))))"
  define s1 where "s1 = s\<lparr>sy_job := h, sy_head := (if q = [] then Some i else sy_head s), sy_tail := Some i,
      sy_accepted := sy_accepted s @ [i], sy_client := (sy_client s)(i := CUnlockQueue)\<rparr>"
  have l: "\<exists>jl. sy_job s (last q) = Some jl" if "q \<noteq> []" using linked_frame [OF q(1), of "last q"] that by simp
  have s1: "client_at i CUnlockQueue (snd (enqueue i s)) = s1"
  proof (cases "q = []")
    case True
    then show ?thesis using run w q by (simp add: enqueue_def signal_worker_def client_at_def s1_def h_def)
  next
    case False
    with l show ?thesis using run w q by (auto simp: enqueue_def signal_worker_def client_at_def s1_def h_def touch_def)
  qed
  have same: "map_option jb_mu (h k) = map_option jb_mu (sy_job s k)" "map_option jb_done (h k) = map_option jb_done (sy_job s k)"
    "h k = None \<longleftrightarrow> sy_job s k = None" "k = last q \<longrightarrow> q = [] \<Longrightarrow> h k = sy_job s k" for k
    by (auto simp: h_def option.map_comp o_def)
  have dn: "job_done k s1 = job_done k s" for k
    using same(2) [of k] by (auto simp: job_done_def s1_def split: option.splits)
  have hi: "h i = Some j" using same(4) [of i] i j last_in_set [of q] by metis
  have "mutex_ok s1" using ok pc by (auto simp: sync_ok_def mutex_ok_def s1_def pc_defs)
  moreover have "frames_ok s1"
  proof -
    have f: "frames_ok s" using ok by (simp add: sync_ok_def)
    have "jb_next jj = None" if "h k = Some jj" "not_accepted (if k = i then CUnlockQueue else sy_client s k)" for k jj
    proof -
      have "k \<noteq> i" "not_accepted (sy_client s k)" using that(2) by (auto simp: pc_defs split: if_splits)
      then have "k \<notin> set q" using client_queued [OF ok, of k] by (auto simp: pc_defs)
      then have "k = last q \<longrightarrow> q = []" using last_in_set by blast
      then show ?thesis using same(4) that(1) f \<open>not_accepted (sy_client s k)\<close> by (simp add: frames_ok_def)
    qed
    moreover have "sy_client s i = CNone \<longleftrightarrow> sy_created s \<le> i" using f unfolding frames_ok_def by blast
    ultimately show ?thesis using f same(3) pc unfolding frames_ok_def s1_def by (auto simp del: not_None_eq)
  qed
  moreover have "job_mutexes_ok s1"
  proof -
    show ?thesis unfolding job_mutexes_ok_def
    proof (intro allI impI)
      fix k jj assume "sy_job s1 k = Some jj"
      then have h: "h k = Some jj" by (simp add: s1_def)
      then obtain jo where jo: "sy_job s k = Some jo" using same(3) [of k] by auto
      then have e1: "jb_mu jj = jb_mu jo" using same(1) [of k] h by simp
      have e2: "holds_job (sy_client s1 k) = holds_job (sy_client s k)" "sy_worker s1 = sy_worker s"
        using pc by (auto simp: s1_def pc_defs)
      show "(holds_job (sy_client s1 k) \<longleftrightarrow> jb_mu jj = Some (Client k)) \<and> (worker_has k (sy_worker s1) \<longleftrightarrow> jb_mu jj = Some Worker)
        \<and> (jb_mu jj = None \<or> jb_mu jj = Some (Client k) \<or> jb_mu jj = Some Worker)"
        unfolding e1 e2 by (rule client_mutex [OF ok jo])
    qed
  qed
  moreover have "queue_ok s1 (q @ [i])"
  proof (cases "q = []")
    case True
    then show ?thesis using j nx by (simp add: queue_ok_def s1_def h_def)
  next
    case False
    then obtain jl where jl: "sy_job s (last q) = Some jl" using l by blast
    from linked_append [OF q(1) False q(3) i jl j nx]
    show ?thesis using False q(3) i jl by (simp add: queue_ok_def s1_def h_def)
  qed
  moreover have "pending_ok s1 (q @ [i])"
  proof -
    have p: "pending_ok s q" using ok by (simp add: sync_ok_def)
    have ni: "\<not> waits (sy_client s i)" "\<not> job_done i s" "waits CUnlockQueue" using pc client_not_done [OF ok j] j
      by (auto simp: pc_defs job_done_def)
    then have ti: "to_finish (sy_worker s) \<noteq> Some i" "sy_worker s \<noteq> WUnlockJob i"
      using worker_client [OF ok, of i] client_unlocking [OF ok, of i] pc by auto
    show ?thesis unfolding pending_ok_def dn
    proof (intro conjI allI)
      fix k
      show "(k \<in> set (q @ [i]) \<or> to_finish (sy_worker s1) = Some k) = (waits (sy_client s1 k) \<and> \<not> job_done k s)"
        using p ni by (cases "k = i") (simp_all add: s1_def pending_ok_def)
      show "to_finish (sy_worker s1) = Some k \<longrightarrow> k \<notin> set (q @ [i])" using p ti by (auto simp: s1_def pending_ok_def)
      show "job_done k s \<longrightarrow> sy_client s1 k \<in> {CTest, CWoken, CUnlockJob, CLeave}"
        using p ni by (cases "k = i") (simp_all add: s1_def pending_ok_def)
      show "sy_worker s1 = WUnlockJob k \<longrightarrow> sy_client s1 k = CWoken \<and> job_done k s"
        using p ti by (cases "k = i") (simp_all add: s1_def pending_ok_def)
    qed
  qed
  moreover have "stop_ok s1 (q @ [i])" using ok run w by (auto simp: sync_ok_def stop_ok_def s1_def)
  moreover have "history_ok s1 (q @ [i])"
  proof -
    have h: "history_ok s q" using ok by (simp add: sync_ok_def)
    moreover have "i \<notin> set (sy_accepted s)" using h pc by (auto simp: history_ok_def pc_defs)
    moreover have "\<not> not_accepted CUnlockQueue" by (simp add: pc_defs)
    ultimately show ?thesis by (auto simp: history_ok_def s1_def)
  qed
  ultimately show ?thesis using ok unfolding s1 by (simp add: sync_ok_def) (simp add: s1_def)
qed

text \<open>The worker moves without changing the queue.\<close>

lemma worker_move_ok:
  assumes ok: "sync_ok s q"
    and s': "s' = s\<lparr>sy_mu := m, sy_job := (sy_job s)(k := J), sy_worker := w, sy_generated := g\<rparr>"
    and mu: "m = sy_mu s \<or> sy_mu s = None \<and> m = Some Worker \<or> sy_mu s = Some Worker \<and> m = None"
    and holds: "worker_holds w \<longleftrightarrow> m = Some Worker"
    and frame: "J = None \<longleftrightarrow> sy_job s k = None" "frame_done J = frame_done (sy_job s k)"
      "\<And>j. J = Some j \<Longrightarrow> not_accepted (sy_client s k) \<Longrightarrow> jb_next j = None"
    and jm: "\<And>j. J = Some j \<Longrightarrow> (holds_job (sy_client s k) \<longleftrightarrow> jb_mu j = Some (Client k)) \<and> (worker_has k w \<longleftrightarrow> jb_mu j = Some Worker)
        \<and> (jb_mu j = None \<or> jb_mu j = Some (Client k) \<or> jb_mu j = Some Worker)"
    and others: "\<And>i. i \<noteq> k \<Longrightarrow> worker_has i w \<longleftrightarrow> worker_has i (sy_worker s)"
    and links: "k \<in> set q \<Longrightarrow> map_option jb_next (sy_job s k) = map_option jb_next J"
    and fin: "to_finish w = to_finish (sy_worker s)" "\<And>i. w \<noteq> WUnlockJob i"
    and stop: "w = WBlocked \<Longrightarrow> q = [] \<and> \<not> sy_stopping s" "w = WExitUnlock \<or> w = WExit \<Longrightarrow> q = [] \<and> sy_stopping s"
      "sy_worker s \<noteq> WExit"
    and hist: "g @ (case to_generate w of None \<Rightarrow> [] | Some i \<Rightarrow> [i])
       = sy_generated s @ (case to_generate (sy_worker s) of None \<Rightarrow> [] | Some i \<Rightarrow> [i])"
  shows "sync_ok s' q"
proof -
  have dn: "job_done i s' = job_done i s" for i using frame(2) by (simp add: job_done_frame s')
  have "mutex_ok s'" using ok mu holds by (auto simp: sync_ok_def mutex_ok_def s')
  moreover have "frames_ok s'"
  proof -
    have "(sy_job s' i = None) = (sy_job s i = None)" for i using frame(1) by (simp add: s')
    moreover have "jb_next j = None" if "sy_job s' i = Some j" "not_accepted (sy_client s i)" for i j
      using that frame(3) client_unlinked [OF ok, of i j] by (cases "i = k") (simp_all add: s')
    ultimately show ?thesis using ok unfolding sync_ok_def frames_ok_def by (simp add: s')
  qed
  moreover have "job_mutexes_ok s'" unfolding job_mutexes_ok_def
  proof (intro allI impI)
    fix i j assume j: "sy_job s' i = Some j"
    show "(holds_job (sy_client s' i) \<longleftrightarrow> jb_mu j = Some (Client i)) \<and> (worker_has i (sy_worker s') \<longleftrightarrow> jb_mu j = Some Worker)
        \<and> (jb_mu j = None \<or> jb_mu j = Some (Client i) \<or> jb_mu j = Some Worker)"
    proof (cases "i = k")
      case True
      with j jm show ?thesis by (simp add: s')
    next
      case False
      then have e: "sy_client s' i = sy_client s i" "worker_has i (sy_worker s') = worker_has i (sy_worker s)" and j': "sy_job s i = Some j"
        using j others by (simp_all add: s')
      show ?thesis unfolding e by (rule client_mutex [OF ok j'])
    qed
  qed
  moreover have "queue_ok s' q"
  proof (rule queue_ok_frame)
    show "queue_ok s q" using ok by (simp add: sync_ok_def)
  qed (use links in \<open>auto simp: s'\<close>)
  moreover have "pending_ok s' q"
    using ok fin unfolding sync_ok_def pending_ok_def dn by (simp add: s')
  moreover have "stop_ok s' q"
  proof -
    have "sy_main s \<notin> {MDrainLock, MDrainTest, MBlocked, MWoken, MDrainUnlock, MFinal}"
      "sy_stopping s \<longleftrightarrow> sy_main s \<in> {MStopUnlock, MJoin, MDrainLock, MDrainTest, MBlocked, MWoken, MDrainUnlock, MFinal}"
      using ok stop(3) unfolding sync_ok_def stop_ok_def by blast+
    then show ?thesis using stop(1,2) unfolding stop_ok_def s' by simp
  qed
  moreover have "history_ok s' q"
    by (rule history_move [of s q]) (use ok hist in \<open>simp_all add: sync_ok_def history_def s' flip: append_assoc\<close>)
  ultimately show ?thesis using ok by (simp add: sync_ok_def s')
qed

lemma pop_ok:
  assumes ok: "sync_ok s q" and w: "sy_worker s = WTest" and h: "sy_head s = Some j"
  shows "sync_ok ((pop j s)\<lparr>sy_worker := WPopped j\<rparr>) (tl q)"
proof -
  have qk: "linked (sy_job s) (sy_head s) q" "sy_tail s = (if q = [] then None else Some (last q))" "distinct q"
    using ok by (simp_all add: sync_ok_def queue_ok_def)
  obtain q' where q: "q = j # q'" using qk(1) h by (cases q) auto
  obtain jb where jb: "sy_job s j = Some jb" "linked (sy_job s) (jb_next jb) q'" using qk(1) q by auto
  have last: "jb_next jb = None \<longleftrightarrow> q' = []" using jb(2) by (cases q') auto
  define s' where "s' = s\<lparr>sy_head := jb_next jb, sy_tail := (if jb_next jb = None then None else sy_tail s), sy_worker := WPopped j\<rparr>"
  have s': "(pop j s)\<lparr>sy_worker := WPopped j\<rparr> = s'" by (simp add: pop_def jb s'_def)
  have nostop: "sy_main s \<notin> {MDrainLock, MDrainTest, MBlocked, MWoken, MDrainUnlock, MFinal}"
    "sy_stopping s \<longleftrightarrow> sy_main s \<in> {MStopUnlock, MJoin, MDrainLock, MDrainTest, MBlocked, MWoken, MDrainUnlock, MFinal}"
    using ok w unfolding sync_ok_def stop_ok_def by auto
  have "mutex_ok s' = mutex_ok s" "frames_ok s' = frames_ok s" "job_mutexes_ok s' = job_mutexes_ok s"
    using w by (simp_all add: mutex_ok_def frames_ok_def job_mutexes_ok_def s'_def pc_defs)
  moreover have "queue_ok s' q'" using qk q jb last by (auto simp: queue_ok_def s'_def)
  moreover have "pending_ok s' q'"
    using ok w q qk(3) unfolding sync_ok_def pending_ok_def by (auto simp: s'_def job_done_def)
  moreover have "stop_ok s' q'" using nostop unfolding stop_ok_def s'_def by simp
  moreover have "history_ok s' q'"
    by (rule history_move [of s q]) (use ok w q in \<open>simp_all add: sync_ok_def history_def s'_def\<close>)
  ultimately show ?thesis unfolding s' using ok q by (simp add: sync_ok_def) (simp add: s'_def)
qed

lemma finish_ok:
  assumes ok: "sync_ok s q" and w: "sy_worker s = WFinish k"
  shows "sync_ok ((signal_client k (touch k (jb_done_update (\<lambda>_. True)) s))\<lparr>sy_worker := WUnlockJob k\<rparr>) q"
proof -
  have cl: "waits (sy_client s k)" "\<not> frame_done (sy_job s k)" "k \<notin> set q" using worker_client [OF ok, of k] w by auto
  then obtain j where j: "sy_job s k = Some j" using client_frame [OF ok, of k] by (auto simp: pc_defs)
  have mu: "jb_mu j = Some Worker" using client_mutex [OF ok j] w by (simp add: pc_defs)
  then have pc: "sy_client s k = CBlocked \<or> sy_client s k = CWoken" using client_mutex [OF ok j] cl(1) by (auto simp: pc_defs)
  define s' where "s' = s\<lparr>sy_job := (sy_job s)(k \<mapsto> j\<lparr>jb_done := True\<rparr>), sy_client := (sy_client s)(k := CWoken), sy_worker := WUnlockJob k\<rparr>"
  have s': "(signal_client k (touch k (jb_done_update (\<lambda>_. True)) s))\<lparr>sy_worker := WUnlockJob k\<rparr> = s'"
    using pc j by (auto simp: signal_client_def touch_alive client_at_def s'_def fun_upd_idem)
  have nostop: "sy_main s \<notin> {MDrainLock, MDrainTest, MBlocked, MWoken, MDrainUnlock, MFinal}"
    "sy_stopping s \<longleftrightarrow> sy_main s \<in> {MStopUnlock, MJoin, MDrainLock, MDrainTest, MBlocked, MWoken, MDrainUnlock, MFinal}"
    using ok w unfolding sync_ok_def stop_ok_def by auto
  have held: "client_holds (sy_client s' i) = client_holds (sy_client s i)" "holds_job (sy_client s' i) = holds_job (sy_client s i)"
    "has_frame (sy_client s' i) = has_frame (sy_client s i)" "not_accepted (sy_client s' i) = not_accepted (sy_client s i)"
    "waits (sy_client s' i) = waits (sy_client s i)" "(sy_client s' i = CNone) = (sy_client s i = CNone)" for i
    using pc by (auto simp: s'_def pc_defs)
  have "mutex_ok s'" using ok w unfolding sync_ok_def mutex_ok_def held by (simp add: s'_def pc_defs)
  moreover have "frames_ok s'" using ok j unfolding sync_ok_def frames_ok_def held by (auto simp: s'_def split: if_splits)
  moreover have "job_mutexes_ok s'" unfolding job_mutexes_ok_def
  proof (intro allI impI)
    fix i jj assume "sy_job s' i = Some jj"
    then obtain jo where jo: "sy_job s i = Some jo" "jb_mu jj = jb_mu jo" using j by (auto simp: s'_def split: if_splits)
    have "worker_has i (sy_worker s') = worker_has i (sy_worker s)" using w by (simp add: s'_def pc_defs)
    then show "(holds_job (sy_client s' i) \<longleftrightarrow> jb_mu jj = Some (Client i)) \<and> (worker_has i (sy_worker s') \<longleftrightarrow> jb_mu jj = Some Worker)
        \<and> (jb_mu jj = None \<or> jb_mu jj = Some (Client i) \<or> jb_mu jj = Some Worker)"
      unfolding held jo(2) by (simp only: client_mutex [OF ok jo(1)])
  qed
  moreover have "queue_ok s' q"
  proof (rule queue_ok_frame)
    show "queue_ok s q" using ok by (simp add: sync_ok_def)
  qed (use cl in \<open>auto simp: s'_def\<close>)
  moreover have "pending_ok s' q" unfolding pending_ok_def held
  proof (intro conjI allI)
    fix i
    have p: "pending_ok s q" using ok by (simp add: sync_ok_def)
    have dn: "job_done i s' = (i = k \<or> job_done i s)" by (simp add: job_done_def s'_def)
    show "(i \<in> set q \<or> to_finish (sy_worker s') = Some i) = (waits (sy_client s i) \<and> \<not> job_done i s')"
      unfolding dn using p cl w by (cases "i = k") (auto simp: pending_ok_def s'_def)
    show "to_finish (sy_worker s') = Some i \<longrightarrow> i \<notin> set q" by (simp add: s'_def)
    show "job_done i s' \<longrightarrow> sy_client s' i \<in> {CTest, CWoken, CUnlockJob, CLeave}"
      unfolding dn using p by (cases "i = k") (simp_all add: pending_ok_def s'_def)
    show "sy_worker s' = WUnlockJob i \<longrightarrow> sy_client s' i = CWoken \<and> job_done i s'" unfolding dn by (simp add: s'_def)
  qed
  moreover have "stop_ok s' q" using nostop unfolding stop_ok_def s'_def by simp
  moreover have "history_ok s' q"
    by (rule history_move [of s q]) (use ok w held in \<open>simp_all add: sync_ok_def history_def s'_def\<close>)
  ultimately show ?thesis unfolding s' using ok by (simp add: sync_ok_def) (simp add: s'_def)
qed

lemma worker_step_ok:
  assumes ok: "sync_ok s q" and st: "worker_step s = Some s'"
  shows "\<exists>q'. sync_ok s' q'"
proof -
  have job: "\<exists>j. sy_job s k = Some j \<and> \<not> not_accepted (sy_client s k) \<and> k \<notin> set q" if "to_finish (sy_worker s) = Some k" for k
    using worker_client [OF ok that] client_frame [OF ok, of k] by (auto simp: pc_defs)
  have mu: "worker_holds (sy_worker s) \<longleftrightarrow> sy_mu s = Some Worker" using ok by (simp add: sync_ok_def mutex_ok_def)
  have stopped: "sy_worker s = WExitUnlock \<Longrightarrow> q = [] \<and> sy_stopping s" using ok unfolding sync_ok_def stop_ok_def by blast
  have q0: "sy_head s = None \<Longrightarrow> q = []" using ok by (cases q) (auto simp: sync_ok_def queue_ok_def)
  have plain: "sync_ok (s\<lparr>sy_mu := m, sy_worker := w\<rparr>) q"
    if "m = sy_mu s \<or> sy_mu s = None \<and> m = Some Worker \<or> sy_mu s = Some Worker \<and> m = None" "worker_holds w \<longleftrightarrow> m = Some Worker"
      "\<And>i. worker_has i w \<longleftrightarrow> worker_has i (sy_worker s)" "to_finish w = to_finish (sy_worker s)" "\<And>i. w \<noteq> WUnlockJob i"
      "w = WBlocked \<Longrightarrow> q = [] \<and> \<not> sy_stopping s" "w = WExitUnlock \<or> w = WExit \<Longrightarrow> q = [] \<and> sy_stopping s"
      "sy_worker s \<noteq> WExit" "to_generate w = to_generate (sy_worker s)" for m w
  proof -
    have "s\<lparr>sy_mu := m, sy_worker := w\<rparr> = s\<lparr>sy_mu := m, sy_job := (sy_job s)(0 := sy_job s 0), sy_worker := w, sy_generated := sy_generated s\<rparr>"
      by simp
    then show ?thesis
      by (rule worker_move_ok [OF ok])
        (use that client_unlinked [OF ok, of 0] client_mutex [OF ok, of 0] in \<open>simp_all\<close>)
  qed
  have held: "sync_ok (s\<lparr>sy_job := (sy_job s)(k \<mapsto> jj), sy_worker := w, sy_generated := g\<rparr>) q"
    if "sy_job s k = Some j" "jb_done jj = jb_done j" "\<not> not_accepted (sy_client s k)" "k \<notin> set q"
      "(holds_job (sy_client s k) \<longleftrightarrow> jb_mu jj = Some (Client k)) \<and> (worker_has k w \<longleftrightarrow> jb_mu jj = Some Worker)
        \<and> (jb_mu jj = None \<or> jb_mu jj = Some (Client k) \<or> jb_mu jj = Some Worker)"
      "\<And>i. i \<noteq> k \<Longrightarrow> worker_has i w \<longleftrightarrow> worker_has i (sy_worker s)" "to_finish w = to_finish (sy_worker s)"
      "\<And>i. w \<noteq> WUnlockJob i" "w \<noteq> WBlocked" "w \<noteq> WExitUnlock" "w \<noteq> WExit" "sy_worker s \<noteq> WExit"
      "worker_holds w \<longleftrightarrow> worker_holds (sy_worker s)"
      "g @ (case to_generate w of None \<Rightarrow> [] | Some i \<Rightarrow> [i])
         = sy_generated s @ (case to_generate (sy_worker s) of None \<Rightarrow> [] | Some i \<Rightarrow> [i])" for k j jj w g
  proof -
    have "s\<lparr>sy_job := (sy_job s)(k \<mapsto> jj), sy_worker := w, sy_generated := g\<rparr>
        = s\<lparr>sy_mu := sy_mu s, sy_job := (sy_job s)(k := Some jj), sy_worker := w, sy_generated := g\<rparr>" by simp
    then show ?thesis
      by (rule worker_move_ok [OF ok]) (use that mu in \<open>simp_all add: frame_done_def\<close>)
  qed
  show ?thesis
  proof (cases "sy_worker s")
    case WLock
    with st have "s' = s\<lparr>sy_mu := Some Worker, sy_worker := WTest\<rparr> \<and> sy_mu s = None" by (auto simp: worker_step_def split: if_splits)
    with WLock plain [of "Some Worker" WTest] show ?thesis by (auto simp: pc_defs)
  next
    case WWoken
    with st have "s' = s\<lparr>sy_mu := Some Worker, sy_worker := WTest\<rparr> \<and> sy_mu s = None" by (auto simp: worker_step_def split: if_splits)
    with WWoken plain [of "Some Worker" WTest] show ?thesis by (auto simp: pc_defs)
  next
    case WTest
    then have m: "sy_mu s = Some Worker" using mu by (simp add: pc_defs)
    show ?thesis
    proof (cases "sy_head s")
      case None
      with st WTest have "s' = (if sy_stopping s then s\<lparr>sy_mu := sy_mu s, sy_worker := WExitUnlock\<rparr> else s\<lparr>sy_mu := None, sy_worker := WBlocked\<rparr>)"
        by (auto simp: worker_step_def)
      with WTest m q0 [OF None] plain [of "sy_mu s" WExitUnlock] plain [of None WBlocked] show ?thesis by (auto simp: pc_defs)
    next
      case (Some j)
      with st WTest pop_ok [OF ok WTest Some] show ?thesis by (auto simp: worker_step_def)
    qed
  next
    case WExitUnlock
    with st have "s' = s\<lparr>sy_mu := None, sy_worker := WExit\<rparr>" by (simp add: worker_step_def)
    with WExitUnlock stopped mu plain [of None WExit] show ?thesis by (auto simp: pc_defs)
  next
    case (WPopped k)
    with st have "s' = s\<lparr>sy_mu := None, sy_worker := WClear k\<rparr>" by (simp add: worker_step_def)
    with WPopped mu plain [of None "WClear k"] show ?thesis by (auto simp: pc_defs)
  next
    case (WClear k)
    with job obtain j where j: "sy_job s k = Some j" "\<not> not_accepted (sy_client s k)" "k \<notin> set q" by auto
    with st WClear have s': "s' = s\<lparr>sy_job := (sy_job s)(k \<mapsto> j\<lparr>jb_next := None\<rparr>), sy_worker := WGenerate k, sy_generated := sy_generated s\<rparr>"
      by (auto simp: worker_step_def touch_alive)
    have "sync_ok s' q" unfolding s'
      by (rule held [OF j(1)]) (use WClear j client_mutex [OF ok j(1)] in \<open>auto simp: worker_holds_def worker_has_def\<close>)
    then show ?thesis ..
  next
    case (WGenerate k)
    with job obtain j where j: "sy_job s k = Some j" "\<not> not_accepted (sy_client s k)" "k \<notin> set q" by auto
    with st WGenerate have s': "s' = s\<lparr>sy_job := (sy_job s)(k \<mapsto> j), sy_worker := WLockJob k, sy_generated := sy_generated s @ [k]\<rparr>"
      by (auto simp: worker_step_def touch_alive fun_upd_idem)
    have "sync_ok s' q" unfolding s'
      by (rule held [OF j(1)]) (use WGenerate j client_mutex [OF ok j(1)] in \<open>auto simp: worker_holds_def worker_has_def\<close>)
    then show ?thesis ..
  next
    case (WLockJob k)
    with job obtain j where j: "sy_job s k = Some j" "\<not> not_accepted (sy_client s k)" "k \<notin> set q" by auto
    with st WLockJob have s': "s' = s\<lparr>sy_job := (sy_job s)(k \<mapsto> j\<lparr>jb_mu := Some Worker\<rparr>), sy_worker := WFinish k, sy_generated := sy_generated s\<rparr> \<and> jb_mu j = None"
      by (auto simp: worker_step_def touch_alive job_mutex_def split: if_splits)
    have "sync_ok s' q" unfolding conjunct1 [OF s']
      by (rule held [OF j(1)]) (use WLockJob j s' client_mutex [OF ok j(1)] in \<open>auto simp: worker_holds_def worker_has_def\<close>)
    then show ?thesis ..
  next
    case (WFinish k)
    with st finish_ok [OF ok WFinish] show ?thesis by (auto simp: worker_step_def)
  next
    case (WUnlockJob k)
    have pc: "sy_client s k = CWoken" by (rule client_unlocking [OF ok WUnlockJob])
    then obtain j where j: "sy_job s k = Some j" using client_frame [OF ok, of k] by auto
    have kq: "k \<notin> set q" "frame_done (sy_job s k)"
      using ok WUnlockJob client_queued [OF ok, of k] unfolding sync_ok_def pending_ok_def job_done_frame by blast+
    with st WUnlockJob j have s': "s' = s\<lparr>sy_job := (sy_job s)(k \<mapsto> j\<lparr>jb_mu := None\<rparr>), sy_worker := WLock, sy_generated := sy_generated s\<rparr>"
      by (auto simp: worker_step_def touch_alive)
    have "sync_ok s' q" unfolding s'
      by (rule held [OF j]) (use WUnlockJob j kq pc client_mutex [OF ok j] in \<open>auto simp: pc_defs\<close>)
    then show ?thesis ..
  qed (use st in \<open>simp_all add: worker_step_def\<close>)
qed

lemma main_plain:
  assumes ok: "sync_ok s q"
    and mu: "m = sy_mu s \<or> sy_mu s = None \<and> m = Some Main \<or> sy_mu s = Some Main \<and> m = None" "main_holds p \<longleftrightarrow> m = Some Main"
    and stop: "sy_stopping s \<longleftrightarrow> p \<in> {MStopUnlock, MJoin, MDrainLock, MDrainTest, MBlocked, MWoken, MDrainUnlock, MFinal}"
      "p \<in> {MDrainLock, MDrainTest, MBlocked, MWoken, MDrainUnlock, MFinal} \<Longrightarrow> sy_worker s = WExit"
  shows "sync_ok (s\<lparr>sy_mu := m, sy_clients := c, sy_main := p\<rparr>) q"
proof -
  define s' where "s' = s\<lparr>sy_mu := m, sy_clients := c, sy_main := p\<rparr>"
  have "frames_ok s' = frames_ok s" "job_mutexes_ok s' = job_mutexes_ok s" "queue_ok s' q = queue_ok s q"
    "pending_ok s' q = pending_ok s q" "history_ok s' q = history_ok s q"
    by (simp_all add: s'_def sync_defs job_done_def)
  moreover have "mutex_ok s'" using ok mu by (auto simp: sync_ok_def mutex_ok_def s'_def)
  moreover have "stop_ok s' q"
  proof -
    have "sy_worker s = WBlocked \<longrightarrow> q = [] \<and> \<not> sy_stopping s" "sy_worker s \<in> {WExitUnlock, WExit} \<longrightarrow> q = [] \<and> sy_stopping s"
      using ok unfolding sync_ok_def stop_ok_def by blast+
    moreover have "sy_worker s' = sy_worker s" "sy_stopping s' = sy_stopping s" "sy_main s' = p" by (simp_all add: s'_def)
    ultimately show ?thesis using stop unfolding stop_ok_def by metis
  qed
  ultimately show ?thesis using ok unfolding s'_def [symmetric] by (simp add: sync_ok_def) (simp add: s'_def)
qed

lemma stop_request_ok:
  assumes ok: "sync_ok s q" and m: "sy_main s = MStop" and w: "sy_worker s \<noteq> WBlocked"
  shows "sync_ok (s\<lparr>sy_stopping := True, sy_main := MStopUnlock\<rparr>) q"
proof -
  define s' where "s' = s\<lparr>sy_stopping := True, sy_main := MStopUnlock\<rparr>"
  have "frames_ok s' = frames_ok s" "job_mutexes_ok s' = job_mutexes_ok s" "queue_ok s' q = queue_ok s q" "mutex_ok s' = mutex_ok s"
    "pending_ok s' q = pending_ok s q" "history_ok s' q = history_ok s q"
    using m by (simp_all add: s'_def sync_defs job_done_def main_holds_def)
  moreover have "stop_ok s' q" using ok m w unfolding sync_ok_def stop_ok_def s'_def by auto
  ultimately show ?thesis using ok unfolding s'_def [symmetric] by (simp add: sync_ok_def) (simp add: s'_def)
qed

lemma new_client_ok:
  assumes ok: "sync_ok s q" and m: "sy_main s = MCreate"
  shows "sync_ok (client_at (sy_created s) CRequest (s\<lparr>sy_created := sy_created s + 1, sy_main := MAccept\<rparr>)) q"
proof -
  define n where "n = sy_created s"
  define s' where "s' = client_at n CRequest (s\<lparr>sy_created := n + 1, sy_main := MAccept\<rparr>)"
  have pc: "sy_client s n = CNone" using ok unfolding sync_ok_def frames_ok_def n_def by blast
  have j: "sy_job s n = None" using ok pc by (metis client_framed has_frame.simps(1) not_None_eq)
  have held: "client_holds (sy_client s' i) = client_holds (sy_client s i)" "holds_job (sy_client s' i) = holds_job (sy_client s i)"
    "has_frame (sy_client s' i) = has_frame (sy_client s i)" "not_accepted (sy_client s' i) = not_accepted (sy_client s i)"
    "waits (sy_client s' i) = waits (sy_client s i)" "job_done i s' = job_done i s" for i
    using pc by (auto simp: s'_def pc_defs client_at_def job_done_def)
  have "mutex_ok s'" using ok m unfolding sync_ok_def mutex_ok_def held by (simp add: s'_def pc_defs client_at_def)
  moreover have "frames_ok s'" unfolding frames_ok_def held
  proof (intro conjI allI impI)
    have f: "frames_ok s" using ok by (simp add: sync_ok_def)
    fix i
    show "(sy_job s' i \<noteq> None) = has_frame (sy_client s i)" using f by (simp add: frames_ok_def s'_def client_at_def)
    have "(sy_client s i = CNone) = (n \<le> i)" using f unfolding frames_ok_def n_def by blast
    then show "(sy_client s' i = CNone) = (sy_created s' \<le> i)" by (auto simp: s'_def client_at_def)
    show "jb_next j = None" if "sy_job s' i = Some j" "not_accepted (sy_client s i)" for j
      using client_unlinked [OF ok] that by (simp add: s'_def client_at_def)
  qed
  moreover have "job_mutexes_ok s'"
    using ok unfolding sync_ok_def job_mutexes_ok_def held by (simp add: s'_def client_at_def)
  moreover have "queue_ok s' q" using ok by (simp add: sync_ok_def queue_ok_def s'_def client_at_def)
  moreover have "pending_ok s' q"
  proof -
    have "\<not> job_done n s" using j by (simp add: job_done_def)
    moreover have "sy_worker s \<noteq> WUnlockJob n" using client_unlocking [OF ok, of n] pc by auto
    ultimately show ?thesis
      using ok unfolding sync_ok_def pending_ok_def held by (auto simp: s'_def client_at_def)
  qed
  moreover have "stop_ok s' q" using ok m unfolding sync_ok_def stop_ok_def by (auto simp: s'_def client_at_def)
  moreover have "history_ok s' q"
    by (rule history_move [of s q]) (use ok held in \<open>simp_all add: sync_ok_def history_def s'_def client_at_def\<close>)
  ultimately show ?thesis using ok unfolding s'_def [symmetric] n_def [symmetric] by (simp add: sync_ok_def) (simp add: s'_def client_at_def)
qed

lemma main_step_ok:
  assumes ok: "sync_ok s q" and st: "main_step b s = Some s'"
  shows "sync_ok s' q"
proof -
  have mu: "main_holds (sy_main s) \<longleftrightarrow> sy_mu s = Some Main" using ok by (simp add: sync_ok_def mutex_ok_def)
  have stop: "sy_stopping s \<longleftrightarrow> sy_main s \<in> {MStopUnlock, MJoin, MDrainLock, MDrainTest, MBlocked, MWoken, MDrainUnlock, MFinal}"
    "sy_main s \<in> {MDrainLock, MDrainTest, MBlocked, MWoken, MDrainUnlock, MFinal} \<longrightarrow> sy_worker s = WExit"
    using ok unfolding sync_ok_def stop_ok_def by blast+
  have moved: "sync_ok s' q" if "s' = s\<lparr>sy_mu := m, sy_clients := c, sy_main := p\<rparr>"
    "m = sy_mu s \<or> sy_mu s = None \<and> m = Some Main \<or> sy_mu s = Some Main \<and> m = None" "main_holds p \<longleftrightarrow> m = Some Main"
    "sy_stopping s \<longleftrightarrow> p \<in> {MStopUnlock, MJoin, MDrainLock, MDrainTest, MBlocked, MWoken, MDrainUnlock, MFinal}"
    "p \<in> {MDrainLock, MDrainTest, MBlocked, MWoken, MDrainUnlock, MFinal} \<longrightarrow> sy_worker s = WExit" for m c p
    unfolding that(1) by (rule main_plain [OF ok]) (use that in blast)+
  define c where "c = sy_clients s"
  show ?thesis
  proof (cases "sy_main s")
    case MLockCount
    with st mu have "s' = s\<lparr>sy_mu := Some Main, sy_clients := c, sy_main := MCount\<rparr> \<and> sy_mu s = None"
      by (auto simp: main_step_def c_def split: if_splits)
    with MLockCount stop show ?thesis by (intro moved [where m = "Some Main" and c = c and p = MCount]) (auto simp: main_holds_def)
  next
    case MCount
    with st have "s' = s\<lparr>sy_mu := sy_mu s, sy_clients := c + 1, sy_main := MUnlockCount\<rparr>" by (simp add: main_step_def c_def)
    with MCount stop mu show ?thesis by (intro moved [where m = "sy_mu s" and c = "c + 1" and p = MUnlockCount]) (auto simp: main_holds_def)
  next
    case MUnlockCount
    with st have "s' = s\<lparr>sy_mu := None, sy_clients := c, sy_main := MCreate\<rparr>" by (simp add: main_step_def c_def)
    with MUnlockCount stop mu show ?thesis by (intro moved [where m = None and c = c and p = MCreate]) (auto simp: main_holds_def)
  next
    case MCreate
    show ?thesis
    proof (cases b)
      case True
      with st MCreate new_client_ok [OF ok MCreate] show ?thesis by (simp add: main_step_def)
    next
      case False
      with st MCreate have "s' = s\<lparr>sy_mu := sy_mu s, sy_clients := c, sy_main := MLockUncount\<rparr>" by (simp add: main_step_def c_def)
      with MCreate stop mu show ?thesis by (intro moved [where m = "sy_mu s" and c = c and p = MLockUncount]) (auto simp: main_holds_def)
    qed
  next
    case MLockUncount
    with st mu have "s' = s\<lparr>sy_mu := Some Main, sy_clients := c, sy_main := MUncount\<rparr> \<and> sy_mu s = None"
      by (auto simp: main_step_def c_def split: if_splits)
    with MLockUncount stop show ?thesis by (intro moved [where m = "Some Main" and c = c and p = MUncount]) (auto simp: main_holds_def)
  next
    case MUncount
    with st have "s' = s\<lparr>sy_mu := sy_mu s, sy_clients := c - 1, sy_main := MUnlockUncount\<rparr>" by (simp add: main_step_def c_def)
    with MUncount stop mu show ?thesis by (intro moved [where m = "sy_mu s" and c = "c - 1" and p = MUnlockUncount]) (auto simp: main_holds_def)
  next
    case MUnlockUncount
    with st have "s' = s\<lparr>sy_mu := None, sy_clients := c, sy_main := MAccept\<rparr>" by (simp add: main_step_def c_def)
    with MUnlockUncount stop mu show ?thesis by (intro moved [where m = None and c = c and p = MAccept]) (auto simp: main_holds_def)
  next
    case MStopLock
    with st mu have "s' = s\<lparr>sy_mu := Some Main, sy_clients := c, sy_main := MStop\<rparr> \<and> sy_mu s = None"
      by (auto simp: main_step_def c_def split: if_splits)
    with MStopLock stop show ?thesis by (intro moved [where m = "Some Main" and c = c and p = MStop]) (auto simp: main_holds_def)
  next
    case MStop
    define s1 where "s1 = signal_worker s"
    have s1: "sync_ok s1 q" "sy_main s1 = MStop" "sy_worker s1 \<noteq> WBlocked"
      using signal_worker_ok [OF ok] MStop by (auto simp: s1_def signal_worker_def)
    have "s' = s1\<lparr>sy_stopping := True, sy_main := MStopUnlock\<rparr>"
      using st MStop by (auto simp: main_step_def s1_def signal_worker_def)
    with stop_request_ok [OF s1] show ?thesis by simp
  next
    case MStopUnlock
    with st have "s' = s\<lparr>sy_mu := None, sy_clients := c, sy_main := MJoin\<rparr>" by (simp add: main_step_def c_def)
    with MStopUnlock stop mu show ?thesis by (intro moved [where m = None and c = c and p = MJoin]) (auto simp: main_holds_def)
  next
    case MJoin
    with st have "s' = s\<lparr>sy_mu := sy_mu s, sy_clients := c, sy_main := MDrainLock\<rparr> \<and> sy_worker s = WExit"
      by (auto simp: main_step_def c_def split: if_splits)
    with MJoin stop mu show ?thesis by (intro moved [where m = "sy_mu s" and c = c and p = MDrainLock]) (auto simp: main_holds_def)
  next
    case MDrainLock
    with st mu have "s' = s\<lparr>sy_mu := Some Main, sy_clients := c, sy_main := MDrainTest\<rparr> \<and> sy_mu s = None"
      by (auto simp: main_step_def c_def split: if_splits)
    with MDrainLock stop show ?thesis by (intro moved [where m = "Some Main" and c = c and p = MDrainTest]) (auto simp: main_holds_def)
  next
    case MDrainTest
    with st have "s' = (if sy_clients s > 0 then s\<lparr>sy_mu := None, sy_clients := c, sy_main := MBlocked\<rparr>
        else s\<lparr>sy_mu := sy_mu s, sy_clients := c, sy_main := MDrainUnlock\<rparr>)" by (auto simp: main_step_def c_def)
    with MDrainTest stop mu moved [where m = None and c = c and p = MBlocked] moved [where m = "sy_mu s" and c = c and p = MDrainUnlock] show ?thesis
      by (auto simp: main_holds_def split: if_splits)
  next
    case MWoken
    with st mu have "s' = s\<lparr>sy_mu := Some Main, sy_clients := c, sy_main := MDrainTest\<rparr> \<and> sy_mu s = None"
      by (auto simp: main_step_def c_def split: if_splits)
    with MWoken stop show ?thesis by (intro moved [where m = "Some Main" and c = c and p = MDrainTest]) (auto simp: main_holds_def)
  next
    case MDrainUnlock
    with st have "s' = s\<lparr>sy_mu := None, sy_clients := c, sy_main := MFinal\<rparr>" by (simp add: main_step_def c_def)
    with MDrainUnlock stop mu show ?thesis by (intro moved [where m = None and c = c and p = MFinal]) (auto simp: main_holds_def)
  qed (use st in \<open>simp_all add: main_step_def\<close>)
qed

lemma enqueue_signals:
  assumes "\<not> sy_stopping s"
  shows "client_at i p (snd (enqueue i s)) = client_at i p (snd (enqueue i (signal_worker s)))"
  using assms by (auto simp: enqueue_def signal_worker_def client_at_def touch_def Let_def split: option.splits)

lemma enqueue_step_ok:
  assumes ok: "sync_ok s q" and st: "client_step b i s = Some s'" and pc: "sy_client s i = CEnqueue"
  shows "\<exists>q'. sync_ok s' q'"
proof (cases "sy_stopping s")
  case True
  obtain j where j: "sy_job s i = Some j" using client_frame [OF ok, of i] pc by auto
  from st pc True j have s': "s' = s\<lparr>sy_mu := sy_mu s, sy_job := (sy_job s)(i := Some j), sy_client := (sy_client s)(i := CRefuse)\<rparr>"
    by (auto simp: client_simps enqueue_def)
  have "sync_ok s' q" unfolding s'
    by (rule framed_move_ok [OF ok j])
      (use pc client_mutex [OF ok j] client_not_done [OF ok j] client_unlocking [OF ok, of i] client_mu [OF ok, of i]
        client_queued [OF ok, of i] client_unlinked [OF ok j] in \<open>auto simp: pc_defs frame_done_def\<close>)
  then show ?thesis ..
next
  case False
  define s0 where "s0 = signal_worker s"
  have s0: "sync_ok s0 q" "sy_client s0 i = CEnqueue" "\<not> sy_stopping s0" "sy_worker s0 \<noteq> WBlocked"
    using signal_worker_ok [OF ok] pc False by (auto simp: s0_def signal_worker_def)
  have "fst (enqueue i s)" using False by (simp add: enqueue_def Let_def)
  then have "s' = client_at i CUnlockQueue (snd (enqueue i s))"
    using st pc by (simp add: client_step_def split: prod.splits)
  also have "\<dots> = client_at i CUnlockQueue (snd (enqueue i s0))" unfolding s0_def by (rule enqueue_signals [OF False])
  finally show ?thesis using enqueue_ok [OF s0] by blast
qed

lemma program_step_ok: "program_step s s' \<Longrightarrow> sync_ok s q \<Longrightarrow> \<exists>q'. sync_ok s' q'"
proof (induction rule: program_step.induct)
  case (client b i s s')
  then show ?case
    using enqueue_step_ok client_step_ok unframed_step_ok by (cases "sy_client s i = CEnqueue"; cases "sy_job s i") blast+
next
  case (worker s s')
  then show ?case by (rule worker_step_ok [rotated])
next
  case (main b s s')
  then show ?case using main_step_ok by blast
qed

lemma signal_client_ok:
  assumes ok: "sync_ok s q"
  shows "sync_ok (signal_client i s) q"
proof (cases "sy_client s i = CBlocked")
  case True
  then obtain j where j: "sy_job s i = Some j" using client_frame [OF ok, of i] by auto
  have "signal_client i s = s\<lparr>sy_mu := sy_mu s, sy_job := (sy_job s)(i := Some j), sy_client := (sy_client s)(i := CWoken)\<rparr>"
    using True j by (simp add: signal_client_def client_at_def fun_upd_idem)
  moreover have "sync_ok \<dots> q"
    by (rule framed_move_ok [OF ok j])
      (use True client_mutex [OF ok j] client_not_done [OF ok j] client_unlocking [OF ok, of i] client_mu [OF ok, of i]
        client_queued [OF ok, of i] client_unlinked [OF ok j] in \<open>auto simp: pc_defs frame_done_def\<close>)
  ultimately show ?thesis by simp
qed (use ok in \<open>simp add: signal_client_def\<close>)

lemma outside_step_ok: "outside_step s s' \<Longrightarrow> sync_ok s q \<Longrightarrow> sync_ok s' q"
proof (induction rule: outside_step.induct)
  case (connection s)
  then have "stop_ok s q" by (simp add: sync_ok_def)
  with connection show ?case by (intro main_move_ok) (auto simp: main_holds_def stop_ok_def)
next
  case (stop s)
  then have "stop_ok s q" by (simp add: sync_ok_def)
  with stop show ?case by (intro main_move_ok) (auto simp: main_holds_def stop_ok_def)
qed (auto intro: signal_worker_ok signal_client_ok signal_main_ok)

lemma reachable_ok: "reachable s \<Longrightarrow> \<exists>q. sync_ok s q"
proof (induction rule: reachable.induct)
  case start
  show ?case using sync_init_ok by blast
next
  case (program s s')
  then show ?case using program_step_ok by blast
next
  case (outside s s')
  then show ?case using outside_step_ok by blast
qed

section \<open>The number of connections\<close>

fun counted :: "client_pc \<Rightarrow> bool" where
  "counted CNone = False" | "counted CUnlockDone = False" | "counted CGone = False" | "counted _ = True"

definition count_ok :: "sync \<Rightarrow> bool" where
  "count_ok s \<longleftrightarrow> finite {i. counted (sy_client s i)}
     \<and> sy_clients s = card {i. counted (sy_client s i)} + (if sy_main s \<in> {MUnlockCount, MCreate, MLockUncount, MUncount} then 1 else 0)
     \<and> (sy_main s = MBlocked \<longrightarrow> sy_clients s > 0)"

lemma count_ok_frame:
  assumes "count_ok s" "\<And>i. counted (sy_client s' i) = counted (sy_client s i)" "sy_clients s' = sy_clients s" "sy_main s' = sy_main s"
  shows "count_ok s'"
  using assms(1) unfolding count_ok_def assms(2-4) .

lemma touch_frame [simp]: "sy_client (touch i f s) = sy_client s" "sy_clients (touch i f s) = sy_clients s" "sy_main (touch i f s) = sy_main s"
  "sy_worker (touch i f s) = sy_worker s" "sy_created (touch i f s) = sy_created s"
  by (simp_all add: touch_def split: option.split)

lemma enqueue_frame: "enqueue i s = (ok, s') \<Longrightarrow> sy_client s' = sy_client s \<and> sy_clients s' = sy_clients s \<and> sy_main s' = sy_main s \<and> sy_created s' = sy_created s"
  by (auto simp: enqueue_def Let_def signal_worker_def split: if_splits option.splits)

lemma client_step_count:
  assumes c: "count_ok s" and st: "client_step b i s = Some s'"
  shows "count_ok s'"
proof (cases "sy_client s i = CCount")
  case True
  let ?A = "{k. counted (sy_client s k)}"
  have i: "i \<in> ?A" "finite ?A" using True c by (simp_all add: count_ok_def)
  then have card: "card ?A > 0" by (auto simp: card_gt_0_iff)
  have A: "{k. counted (sy_client s' k)} = ?A - {i}"
    using st True by (auto simp: client_step_def client_at_def signal_main_def split: if_splits)
  have "sy_clients s' = sy_clients s - 1" "sy_main s' = (if sy_main s = MBlocked then MWoken else sy_main s)"
    using st True by (auto simp: client_step_def client_at_def signal_main_def)
  then show ?thesis using c card i A by (auto simp: count_ok_def card_Diff_singleton)
next
  case False
  have fr: "sy_client s' = (sy_client s)(i := sy_client s' i) \<and> sy_clients s' = sy_clients s \<and> sy_main s' = sy_main s
      \<and> counted (sy_client s' i) = counted (sy_client s i)"
  proof (cases "sy_client s i = CEnqueue")
    case True
    with st enqueue_frame [of i s] show ?thesis
      by (cases "enqueue i s") (auto simp: client_step_def client_at_def split: if_split)
  next
    case F: False
    show ?thesis
      using st False F
      by (cases "sy_client s i")
        (auto simp: client_step_def client_at_def fun_upd_def split: if_splits)
  qed
  show ?thesis
  proof (rule count_ok_frame [OF c])
    show "counted (sy_client s' k) = counted (sy_client s k)" for k
      using fr by (cases "k = i") (metis fun_upd_other)+
  qed (use fr in simp_all)
qed

lemma worker_step_count:
  assumes c: "count_ok s" and st: "worker_step s = Some s'"
  shows "count_ok s'"
proof (rule count_ok_frame [OF c])
  show "counted (sy_client s' k) = counted (sy_client s k)" for k
    using st by (auto simp: worker_step_def pop_def signal_client_def client_at_def split: worker_pc.splits option.splits if_splits)
  show "sy_clients s' = sy_clients s" "sy_main s' = sy_main s"
    using st by (auto simp: worker_step_def pop_def signal_client_def client_at_def split: worker_pc.splits option.splits if_splits)
qed

lemma main_step_count:
  assumes c: "count_ok s" and ok: "sync_ok s q" and st: "main_step b s = Some s'"
  shows "count_ok s'"
proof (cases "sy_main s = MCreate \<and> b")
  case True
  let ?A = "{k. counted (sy_client s k)}"
  have "sy_client s (sy_created s) = CNone" using ok unfolding sync_ok_def frames_ok_def by blast
  then have n: "sy_created s \<notin> ?A" by simp
  have A: "{k. counted (sy_client s' k)} = insert (sy_created s) ?A"
    using st True by (auto simp: main_step_def client_at_def split: if_splits)
  show ?thesis using st True c n unfolding count_ok_def A by (auto simp: main_step_def client_at_def)
next
  case False
  have "{k. counted (sy_client s' k)} = {k. counted (sy_client s k)}"
    using st False by (auto simp: main_step_def signal_worker_def split: main_pc.splits if_splits)
  then show ?thesis
    using st False c by (auto simp: count_ok_def main_step_def signal_worker_def split: main_pc.splits if_splits)
qed

lemma program_step_count: "program_step s s' \<Longrightarrow> sync_ok s q \<Longrightarrow> count_ok s \<Longrightarrow> count_ok s'"
  by (induction rule: program_step.induct) (blast intro: client_step_count worker_step_count main_step_count)+

lemma outside_step_count: "outside_step s s' \<Longrightarrow> count_ok s \<Longrightarrow> count_ok s'"
proof (induction rule: outside_step.induct)
  case (wake_client s i)
  have "counted (sy_client (signal_client i s) k) = counted (sy_client s k)" for k by (simp add: signal_client_def client_at_def)
  with wake_client show ?case by (rule count_ok_frame) (simp_all add: signal_client_def client_at_def)
qed (auto simp: count_ok_def signal_worker_def signal_main_def)

lemma reachable_count: "reachable s \<Longrightarrow> count_ok s"
proof (induction rule: reachable.induct)
  case start
  show ?case by (simp add: count_ok_def sync_init_def)
next
  case (program s s')
  then show ?case using program_step_count reachable_ok by blast
next
  case (outside s s')
  then show ?case using outside_step_count by blast
qed

section \<open>Progress\<close>

text \<open>Nothing is left to do: every connection is closed, everything accepted was generated, and \<open>main\<close> waits for
  a connection or has returned.\<close>

definition idle :: "sync \<Rightarrow> bool" where
  "idle s \<longleftrightarrow> (\<forall>i. sy_client s i = CNone \<or> sy_client s i = CGone) \<and> sy_generated s = sy_accepted s
     \<and> (sy_main s = MAccept \<and> sy_worker s = WBlocked \<and> \<not> sy_stopping s \<or> sy_main s = MFinal \<and> sy_worker s = WExit)"

lemma stuck_idle:
  assumes ok: "sync_ok s q" and c: "count_ok s" and stuck: "\<And>s'. \<not> program_step s s'"
  shows "idle s"
proof -
  have cs: "client_step b i s = None" and ws: "worker_step s = None" and ms: "main_step b s = None" for b i
    using stuck program_step.intros by (metis not_None_eq)+
  have mo: "mutex_ok s" using ok by (simp add: sync_ok_def)
  have nm: "sy_mu s \<noteq> Some Main"
  proof
    assume "sy_mu s = Some Main"
    then have "main_holds (sy_main s)" using mo by (simp add: mutex_ok_def)
    then show False using ms by (auto simp: main_holds_def main_step_def)
  qed
  have nw: "sy_mu s \<noteq> Some Worker"
  proof
    assume "sy_mu s = Some Worker"
    then have "worker_holds (sy_worker s)" using mo by (simp add: mutex_ok_def)
    then show False using ws by (auto simp: worker_holds_def worker_step_def split: worker_pc.splits option.splits)
  qed
  have nc: "sy_mu s \<noteq> Some (Client i)" for i
  proof
    assume "sy_mu s = Some (Client i)"
    then have "client_holds (sy_client s i)" using mo by (simp add: mutex_ok_def)
    then show False using cs [of True i] by (auto simp: client_holds_def client_step_def split: prod.splits)
  qed
  have mu: "sy_mu s = None" using nm nw nc by (metis not_None_eq thread.exhaust)
  have noworker: "\<not> worker_has i (sy_worker s)" for i using ws by (auto simp: worker_has_def worker_step_def)
  have noclient: "\<not> holds_job (sy_client s i)" for i
    using cs [of True i] mu by (auto simp: holds_job_def client_step_def split: prod.splits if_splits)
  have free: "job_mutex i s = None" for i
    using client_mutex [OF ok, of i] noworker noclient by (auto simp: job_mutex_def split: option.splits)
  have w: "sy_worker s = WBlocked \<or> sy_worker s = WExit"
    using ws mu free by (auto simp: worker_step_def split: worker_pc.splits option.splits)
  have q: "q = []" using w ok unfolding sync_ok_def stop_ok_def by blast
  have tf: "to_finish (sy_worker s) = None" "to_generate (sy_worker s) = None" using w by auto
  have cl: "sy_client s i = CNone \<or> sy_client s i = CGone" for i
  proof -
    have "\<not> waits (sy_client s i) \<or> job_done i s" "job_done i s \<longrightarrow> sy_client s i \<in> {CTest, CWoken, CUnlockJob, CLeave}"
      using ok q tf unfolding sync_ok_def pending_ok_def by auto
    then have "sy_client s i \<noteq> CBlocked" by (auto simp: waits_def)
    then show ?thesis
      using cs [of True i] mu free [of i] by (cases "sy_client s i") (auto simp: client_step_def split: prod.splits if_splits)
  qed
  have acc: "sy_generated s = sy_accepted s" using ok q tf unfolding sync_ok_def history_ok_def by simp
  have "{i. counted (sy_client s i)} = {}" using cl by (metis (mono_tags, lifting) Collect_empty_eq counted.simps(1) counted.simps(3))
  then have count: "sy_main s = MBlocked \<longrightarrow> sy_main s \<in> {MUnlockCount, MCreate, MLockUncount, MUncount}"
    using c unfolding count_ok_def by (metis add.right_neutral card.empty less_numeral_extra(3))
  have stop: "sy_worker s = WBlocked \<longrightarrow> \<not> sy_stopping s" "sy_worker s = WExit \<longrightarrow> sy_stopping s"
    "sy_stopping s \<longleftrightarrow> sy_main s \<in> {MStopUnlock, MJoin, MDrainLock, MDrainTest, MBlocked, MWoken, MDrainUnlock, MFinal}"
    using ok unfolding sync_ok_def stop_ok_def by blast+
  have "sy_main s \<in> {MAccept, MFinal, MBlocked, MJoin}"
    using ms [of True] mu by (cases "sy_main s") (auto simp: main_step_def)
  moreover have "sy_main s \<noteq> MBlocked" using count by auto
  moreover have "sy_main s \<noteq> MJoin" using ms [of True] w stop by (auto simp: main_step_def)
  ultimately show ?thesis using cl acc w stop by (auto simp: idle_def)
qed

text \<open>How many steps a thread can still take at most, counting what it may set off in others.\<close>

fun client_work :: "client_pc \<Rightarrow> bool \<Rightarrow> nat" where
  "client_work CRequest _ = 60" | "client_work CLockJob _ = 50" | "client_work CLockQueue _ = 49" | "client_work CEnqueue _ = 48"
| "client_work CUnlockQueue _ = 40" | "client_work CRefuse _ = 22" | "client_work CRefuseJob _ = 21"
| "client_work CWoken d = (if d then 20 else 36)" | "client_work CTest d = (if d then 19 else 35)" | "client_work CBlocked _ = 34"
| "client_work CUnlockJob _ = 18" | "client_work CLeave _ = 17" | "client_work CLockDone _ = 16" | "client_work CCount _ = 15"
| "client_work CUnlockDone _ = 10" | "client_work CGone _ = 0" | "client_work CNone _ = 0"

fun worker_work :: "worker_pc \<Rightarrow> nat" where
  "worker_work WLock = 13" | "worker_work WWoken = 13" | "worker_work WTest = 12" | "worker_work WBlocked = 11"
| "worker_work (WPopped _) = 10" | "worker_work (WClear _) = 9" | "worker_work (WGenerate _) = 8" | "worker_work (WLockJob _) = 7"
| "worker_work (WFinish _) = 6" | "worker_work (WUnlockJob _) = 14" | "worker_work WExitUnlock = 5" | "worker_work WExit = 0"

fun main_work :: "main_pc \<Rightarrow> nat" where
  "main_work MLockCount = 80" | "main_work MCount = 79" | "main_work MUnlockCount = 78" | "main_work MCreate = 77"
| "main_work MLockUncount = 76" | "main_work MUncount = 75" | "main_work MUnlockUncount = 74" | "main_work MAccept = 0"
| "main_work MStopLock = 30" | "main_work MStop = 29" | "main_work MStopUnlock = 20" | "main_work MJoin = 19" | "main_work MDrainLock = 18"
| "main_work MWoken = 13" | "main_work MDrainTest = 12" | "main_work MBlocked = 11" | "main_work MDrainUnlock = 5" | "main_work MFinal = 0"

definition work :: "sync \<Rightarrow> nat" where
  "work s = (\<Sum>i\<in>{..<sy_created s}. client_work (sy_client s i) (job_done i s)) + worker_work (sy_worker s) + main_work (sy_main s)"

lemma sum_one_changes:
  fixes f g :: "nat \<Rightarrow> nat"
  assumes "k < n" "\<And>i. i \<noteq> k \<Longrightarrow> g i = f i"
  shows "(\<Sum>i\<in>{..<n}. g i) + f k = (\<Sum>i\<in>{..<n}. f i) + g k"
proof -
  have k: "k \<in> {..<n}" using assms(1) by simp
  have "(\<Sum>i\<in>{..<n} - {k}. g i) = (\<Sum>i\<in>{..<n} - {k}. f i)" by (rule sum.cong) (use assms(2) in auto)
  then show ?thesis using sum.remove [OF _ k, of g] sum.remove [OF _ k, of f] by simp
qed

lemma work_drops:
  assumes k: "k < sy_created s" "sy_created s' = sy_created s"
    and others: "\<And>i. i \<noteq> k \<Longrightarrow> client_work (sy_client s' i) (job_done i s') = client_work (sy_client s i) (job_done i s)"
    and less: "client_work (sy_client s' k) (job_done k s') + worker_work (sy_worker s') + main_work (sy_main s')
      < client_work (sy_client s k) (job_done k s) + worker_work (sy_worker s) + main_work (sy_main s)"
  shows "work s' < work s"
  using sum_one_changes [OF k(1), of "\<lambda>i. client_work (sy_client s' i) (job_done i s')" "\<lambda>i. client_work (sy_client s i) (job_done i s)"]
    others less k(2) by (simp add: work_def)

lemma job_done_touch: "(\<And>j. jb_done (f j) = jb_done j) \<Longrightarrow> job_done k (touch i f s) = job_done k s"
  by (auto simp: job_done_def touch_def split: option.splits)

lemma job_done_frame_eq: "sy_job s' k = sy_job s k \<Longrightarrow> job_done k s' = job_done k s"
  by (simp add: job_done_def)

lemma client_created: "sync_ok s q \<Longrightarrow> sy_client s i \<noteq> CNone \<Longrightarrow> i < sy_created s"
  unfolding sync_ok_def frames_ok_def by (metis not_le)

lemma enqueue_work:
  assumes "enqueue i s = (ok, s')"
  shows "job_done k s' = job_done k s" "sy_main s' = sy_main s" "sy_client s' = sy_client s" "sy_created s' = sy_created s"
    "worker_work (sy_worker s') \<le> worker_work (sy_worker s) + 2"
  using assms enqueue_frame [OF assms]
  by (auto simp: enqueue_def Let_def signal_worker_def job_done_def touch_def split: if_splits option.splits)

lemma client_step_works:
  assumes ok: "sync_ok s q" and st: "client_step b i s = Some s'"
  shows "work s' < work s"
proof -
  have "sy_client s i \<noteq> CNone" using st by (auto simp: client_step_def)
  note created = client_created [OF ok this]
  show ?thesis
  proof (cases "sy_client s i = CEnqueue")
    case True
    obtain a s1 where e: "enqueue i s = (a, s1)" by (cases "enqueue i s")
    note w = enqueue_work [OF e]
    have s': "s' = client_at i (if a then CUnlockQueue else CRefuse) s1" using st True e by (simp add: client_step_def)
    have d: "job_done k s' = job_done k s" for k using w(1) [of k] by (simp add: s' client_at_def job_done_def)
    show ?thesis
    proof (rule work_drops [OF created])
      show "sy_created s' = sy_created s" by (simp add: s' client_at_def w)
      show "client_work (sy_client s' k) (job_done k s') = client_work (sy_client s k) (job_done k s)" if "k \<noteq> i" for k
        unfolding d using that by (simp add: s' client_at_def w)
      show "client_work (sy_client s' i) (job_done i s') + worker_work (sy_worker s') + main_work (sy_main s')
        < client_work (sy_client s i) (job_done i s) + worker_work (sy_worker s) + main_work (sy_main s)"
        using w(2,5) True by (simp add: s' client_at_def)
    qed
  next
    case False
    note d = client_step_def client_at_def signal_main_def job_done_def touch_def new_job_def
    show ?thesis
    proof (rule work_drops [OF created])
      show "sy_created s' = sy_created s"
        using st False by (auto simp: d split: client_pc.splits if_splits option.splits)
      show "client_work (sy_client s' k) (job_done k s') = client_work (sy_client s k) (job_done k s)" if "k \<noteq> i" for k
      proof -
        have "sy_client s' k = sy_client s k" "sy_job s' k = sy_job s k"
          using st that False by (auto simp: d split: client_pc.splits if_splits option.splits)
        then show ?thesis by (simp add: job_done_def)
      qed
      show "client_work (sy_client s' i) (job_done i s') + worker_work (sy_worker s') + main_work (sy_main s')
        < client_work (sy_client s i) (job_done i s) + worker_work (sy_worker s) + main_work (sy_main s)"
        using st False by (cases "sy_client s i") (auto simp: d split: if_splits option.splits)
    qed
  qed
qed

lemma no_client_works:
  assumes "sy_created s' = sy_created s" "\<And>i. sy_client s' i = sy_client s i" "\<And>i. job_done i s' = job_done i s"
    "worker_work (sy_worker s') + main_work (sy_main s') < worker_work (sy_worker s) + main_work (sy_main s)"
  shows "work s' < work s"
  using assms by (simp add: work_def)

lemma worker_step_works:
  assumes ok: "sync_ok s q" and st: "worker_step s = Some s'"
  shows "work s' < work s"
proof (cases "\<exists>k. sy_worker s = WFinish k")
  case True
  then obtain k where w: "sy_worker s = WFinish k" by blast
  have cl: "waits (sy_client s k)" "\<not> frame_done (sy_job s k)" using worker_client [OF ok, of k] w by auto
  then obtain j where j: "sy_job s k = Some j" using client_frame [OF ok, of k] by (auto simp: pc_defs)
  have "jb_mu j = Some Worker" using client_mutex [OF ok j] w by (simp add: pc_defs)
  then have pc: "sy_client s k = CBlocked \<or> sy_client s k = CWoken" using client_mutex [OF ok j] cl(1) by (auto simp: pc_defs)
  have nd: "\<not> job_done k s" using cl(2) by (simp add: job_done_frame)
  have s': "s' = (signal_client k (touch k (jb_done_update (\<lambda>_. True)) s))\<lparr>sy_worker := WUnlockJob k\<rparr>"
    using st w by (simp add: worker_step_def)
  have after: "sy_client s' k = CWoken" "job_done k s'"
    using pc j by (auto simp: s' signal_client_def client_at_def touch_def job_done_def)
  have "k < sy_created s" by (rule client_created [OF ok]) (use pc in auto)
  then show ?thesis
  proof (rule work_drops)
    show "sy_created s' = sy_created s" by (simp add: s' signal_client_def client_at_def)
    show "client_work (sy_client s' i) (job_done i s') = client_work (sy_client s i) (job_done i s)" if "i \<noteq> k" for i
      using that by (simp add: s' signal_client_def client_at_def touch_def job_done_def split: option.splits)
    show "client_work (sy_client s' k) (job_done k s') + worker_work (sy_worker s') + main_work (sy_main s')
      < client_work (sy_client s k) (job_done k s) + worker_work (sy_worker s) + main_work (sy_main s)"
      using after pc nd w by (auto simp: s' signal_client_def client_at_def)
  qed
next
  case False
  show ?thesis
  proof (rule no_client_works)
    show "sy_created s' = sy_created s" "sy_client s' i = sy_client s i" "job_done i s' = job_done i s" for i
      using st False
      by (auto simp: worker_step_def pop_def job_done_def touch_def split: worker_pc.splits if_splits option.splits)
    show "worker_work (sy_worker s') + main_work (sy_main s') < worker_work (sy_worker s) + main_work (sy_main s)"
      using st False by (auto simp: worker_step_def pop_def split: worker_pc.splits if_splits option.splits)
  qed
qed

lemma main_step_works:
  assumes ok: "sync_ok s q" and st: "main_step b s = Some s'"
  shows "work s' < work s"
proof (cases "sy_main s = MCreate \<and> b")
  case True
  let ?n = "sy_created s"
  have s': "s' = client_at ?n CRequest (s\<lparr>sy_created := ?n + 1, sy_main := MAccept\<rparr>)" using st True by (simp add: main_step_def)
  have "(\<Sum>i\<in>{..<?n}. client_work (sy_client s' i) (job_done i s')) = (\<Sum>i\<in>{..<?n}. client_work (sy_client s i) (job_done i s))"
    by (rule sum.cong) (auto simp: s' client_at_def job_done_def)
  then show ?thesis using True by (simp add: work_def s' client_at_def lessThan_Suc)
next
  case False
  show ?thesis
  proof (rule no_client_works)
    show "sy_created s' = sy_created s" "sy_client s' i = sy_client s i" "job_done i s' = job_done i s" for i
      using st False by (auto simp: main_step_def signal_worker_def job_done_def split: main_pc.splits if_splits)
    show "worker_work (sy_worker s') + main_work (sy_main s') < worker_work (sy_worker s) + main_work (sy_main s)"
      using st False by (auto simp: main_step_def signal_worker_def split: main_pc.splits if_splits)
  qed
qed

lemma program_step_works: "program_step s s' \<Longrightarrow> sync_ok s q \<Longrightarrow> work s' < work s"
  by (induction rule: program_step.induct) (blast intro: client_step_works worker_step_works main_step_works)+

section \<open>Two more invariants\<close>

text \<open>Once \<open>main\<close> is past its wait no client thread is left, so freeing the server's state is safe.\<close>

definition drained_ok :: "sync \<Rightarrow> bool" where
  "drained_ok s \<longleftrightarrow> (sy_main s \<in> {MDrainUnlock, MFinal} \<longrightarrow> (\<forall>i. sy_client s i = CNone \<or> sy_client s i = CGone))"

text \<open>A job is marked done only after it was generated.\<close>

definition served_ok :: "sync \<Rightarrow> bool" where
  "served_ok s \<longleftrightarrow> (\<forall>i. job_done i s \<or> sy_worker s = WLockJob i \<or> sy_worker s = WFinish i \<or> sy_client s i = CUnlockJob
     \<longrightarrow> i \<in> set (sy_generated s))"

lemma drained_step:
  assumes ok: "sync_ok s q" and c: "count_ok s" and d: "drained_ok s" and st: "program_step s s'"
  shows "drained_ok s'"
  using st
proof (cases rule: program_step.cases)
  case (client b i)
  have "sy_main s \<notin> {MDrainUnlock, MFinal}"
  proof
    assume "sy_main s \<in> {MDrainUnlock, MFinal}"
    then have "sy_client s i = CNone \<or> sy_client s i = CGone" using d unfolding drained_ok_def by blast
    then show False using client by (auto simp: client_step_def)
  qed
  then show ?thesis
    using client enqueue_work(2) [of i s]
    by (auto simp: drained_ok_def client_step_def client_at_def signal_main_def touch_def split: client_pc.splits if_splits prod.splits option.splits)
next
  case worker
  have "sy_worker s \<noteq> WExit" using worker by (auto simp: worker_step_def)
  then have "sy_main s \<notin> {MDrainUnlock, MFinal}" using ok unfolding sync_ok_def stop_ok_def by blast
  then show ?thesis
    using worker by (auto simp: drained_ok_def worker_step_def pop_def signal_client_def client_at_def touch_def
        split: worker_pc.splits if_splits option.splits)
next
  case (main b)
  show ?thesis
  proof (cases "sy_main s = MDrainTest \<and> sy_clients s = 0")
    case True
    then have "sy_mu s = Some Main" using ok by (simp add: sync_ok_def mutex_ok_def main_holds_def)
    then have "\<not> client_holds (sy_client s i)" for i using client_mu [OF ok, of i] by simp
    moreover have "\<not> counted (sy_client s i)" for i using c True by (auto simp: count_ok_def)
    ultimately have "sy_client s i = CNone \<or> sy_client s i = CGone" for i
      by (metis client_holds_def counted.elims(3) insertCI)
    moreover have "sy_client s' = sy_client s" using main True by (auto simp: main_step_def)
    ultimately show ?thesis unfolding drained_ok_def by metis
  next
    case False
    then show ?thesis
      using main d by (auto simp: drained_ok_def main_step_def client_at_def signal_worker_def split: main_pc.splits if_splits)
  qed
qed

lemma served_step:
  assumes ok: "sync_ok s q" and d: "served_ok s" and st: "program_step s s'"
  shows "served_ok s'"
  using st
proof (cases rule: program_step.cases)
  case (client b i)
  show ?thesis
  proof (cases "sy_client s i = CEnqueue")
    case True
    obtain a s1 where e: "enqueue i s = (a, s1)" by (cases "enqueue i s")
    have s': "s' = client_at i (if a then CUnlockQueue else CRefuse) s1" using client True e by (simp add: client_step_def)
    have "sy_generated s1 = sy_generated s" "sy_worker s1 = sy_worker s \<or> sy_worker s1 = WWoken"
      using e by (auto simp: enqueue_def Let_def signal_worker_def touch_def split: if_splits option.splits)
    moreover have "job_done k s' = job_done k s" for k using enqueue_work(1) [OF e] by (simp add: s' client_at_def job_done_def)
    ultimately show ?thesis using d enqueue_work(3) [OF e] by (auto simp: served_ok_def s' client_at_def)
  next
    case False
    have "job_done k s' \<longrightarrow> job_done k s" for k
      using client False by (auto simp: client_step_def client_at_def signal_main_def job_done_def touch_def new_job_def
          split: client_pc.splits if_splits option.splits)
    moreover have "sy_generated s' = sy_generated s" "sy_worker s' = sy_worker s"
      "sy_client s' k = CUnlockJob \<longrightarrow> sy_client s k = CUnlockJob \<or> job_done k s" for k
      using client False by (auto simp: client_step_def client_at_def signal_main_def touch_def split: client_pc.splits if_splits option.splits)
    ultimately show ?thesis using d unfolding served_ok_def by metis
  qed
next
  case worker
  have "i \<in> set (sy_generated s')"
    if i: "job_done i s' \<or> sy_worker s' = WLockJob i \<or> sy_worker s' = WFinish i \<or> sy_client s' i = CUnlockJob" for i
  proof -
    have "job_done i s \<or> sy_worker s = WLockJob i \<or> sy_worker s = WFinish i \<or> sy_client s i = CUnlockJob \<or> sy_worker s = WGenerate i"
      using i worker by (auto simp: worker_step_def pop_def signal_client_def client_at_def job_done_def touch_def
          split: worker_pc.splits if_splits option.splits)
    then show ?thesis
    proof (elim disjE)
      assume "sy_worker s = WGenerate i"
      then show ?thesis using worker by (auto simp: worker_step_def)
    qed (use d worker in \<open>auto simp: served_ok_def worker_step_def pop_def signal_client_def client_at_def touch_def
          split: worker_pc.splits if_splits option.splits\<close>)
  qed
  then show ?thesis by (simp add: served_ok_def)
next
  case (main b)
  have "job_done k s' = job_done k s" "sy_generated s' = sy_generated s" "sy_client s' k = CUnlockJob \<longrightarrow> sy_client s k = CUnlockJob"
    "sy_worker s' = sy_worker s \<or> sy_worker s' = WWoken" for k
    using main by (auto simp: main_step_def client_at_def signal_worker_def job_done_def split: main_pc.splits if_splits)
  then show ?thesis using d unfolding served_ok_def by (metis worker_pc.distinct)
qed

lemma reachable_more: "reachable s \<Longrightarrow> drained_ok s \<and> served_ok s"
proof (induction rule: reachable.induct)
  case start
  show ?case by (simp add: drained_ok_def served_ok_def sync_init_def job_done_def)
next
  case (program s s')
  then show ?case using drained_step served_step reachable_ok reachable_count by blast
next
  case (outside s s')
  from outside(2) have "sy_main s' \<in> {MDrainUnlock, MFinal} \<longrightarrow> sy_main s \<in> {MDrainUnlock, MFinal}"
    "sy_client s k \<noteq> CBlocked \<longrightarrow> sy_client s' k = sy_client s k" "sy_client s' k = CUnlockJob \<longrightarrow> sy_client s k = CUnlockJob"
    "job_done k s' = job_done k s" "sy_generated s' = sy_generated s" "sy_worker s' = sy_worker s \<or> sy_worker s' = WWoken" for k
    by (cases rule: outside_step.cases;
      auto simp: signal_worker_def signal_client_def signal_main_def client_at_def job_done_def)+
  with outside(3) show ?case unfolding drained_ok_def served_ok_def
    by (metis client_pc.distinct worker_pc.distinct)
qed

lemma program_run_ok: "program_step\<^sup>*\<^sup>* s t \<Longrightarrow> reachable s \<Longrightarrow> reachable t"
  by (induction rule: rtranclp_induct) (auto intro: reachable.program)

lemma program_run_bound: "(program_step ^^ n) s t \<Longrightarrow> reachable s \<Longrightarrow> n + work t \<le> work s"
proof (induction n arbitrary: t)
  case (Suc n)
  then obtain u where u: "(program_step ^^ n) s u" "program_step u t" by auto
  then have "reachable u" using program_run_ok relpowp_imp_rtranclp Suc.prems(2) by metis
  then have "work t < work u" using program_step_works [OF u(2)] reachable_ok by blast
  with Suc.IH [OF u(1) Suc.prems(2)] show ?case by simp
qed simp

section \<open>A sample run\<close>

datatype move = Connection | StopRequest | MainMoves bool | WorkerMoves | ClientMoves bool nat

fun do_move :: "move \<Rightarrow> sync \<Rightarrow> sync option" where
  "do_move Connection s = (if sy_main s = MAccept then Some (s\<lparr>sy_main := MLockCount\<rparr>) else None)"
| "do_move StopRequest s = (if sy_main s = MAccept then Some (s\<lparr>sy_main := MStopLock\<rparr>) else None)"
| "do_move (MainMoves b) s = main_step b s"
| "do_move WorkerMoves s = worker_step s"
| "do_move (ClientMoves b i) s = client_step b i s"

fun moves :: "move list \<Rightarrow> sync \<Rightarrow> sync option" where
  "moves [] s = Some s"
| "moves (m # ms) s = Option.bind (do_move m s) (moves ms)"

lemma move_reachable: "do_move m s = Some s' \<Longrightarrow> reachable s \<Longrightarrow> reachable s'"
  by (cases m) (auto intro: reachable.intros program_step.intros outside_step.intros split: if_splits)

lemma moves_reachable: "moves ms s = Some s' \<Longrightarrow> reachable s \<Longrightarrow> reachable s'"
  by (induction ms arbitrary: s) (auto simp: bind_eq_Some_conv intro: move_reachable)

text \<open>A connection whose request is a job is accepted; its thread waits while the worker has the job, and a stop
  is requested.\<close>

definition sample_moves :: "move list" where
  "sample_moves = [Connection] @ replicate 4 (MainMoves True) @ [WorkerMoves, WorkerMoves] @ replicate 6 (ClientMoves True 0)
     @ replicate 3 WorkerMoves @ [StopRequest, MainMoves True]"

definition sample_state :: sync where
  "sample_state = the (moves sample_moves sync_init)"

lemma sample_runs: "moves sample_moves sync_init = Some sample_state"
proof -
  have "\<not> Option.is_none (moves sample_moves sync_init)" by code_simp
  then show ?thesis by (auto simp: sample_state_def Option.is_none_def)
qed

lemma sample_reachable: "reachable sample_state"
  by (rule moves_reachable [OF sample_runs reachable.start])

section \<open>What the threads guarantee\<close>

text \<open>Claim C30. In every reachable state, under any interleaving and with wake-ups that nobody signalled, no thread has touched
  a job whose frame is gone, the queue's mutex admits one thread at a time, and once \<open>main\<close> is past its wait for the
  clients (so that it may free the server) the worker has returned and no client is left.\<close>

theorem threads_safe:
  assumes "reachable s"
  shows "\<not> sy_fault s
    \<and> (main_holds (sy_main s) \<longleftrightarrow> sy_mu s = Some Main) \<and> (worker_holds (sy_worker s) \<longleftrightarrow> sy_mu s = Some Worker)
    \<and> (\<forall>i. client_holds (sy_client s i) \<longleftrightarrow> sy_mu s = Some (Client i))
    \<and> (sy_main s \<in> {MDrainUnlock, MFinal} \<longrightarrow> sy_worker s = WExit \<and> (\<forall>i. sy_client s i = CNone \<or> sy_client s i = CGone))"
proof -
  obtain q where ok: "sync_ok s q" using reachable_ok assms by blast
  have "sy_main s \<in> {MDrainUnlock, MFinal} \<longrightarrow> sy_worker s = WExit" using ok unfolding sync_ok_def stop_ok_def by blast
  then show ?thesis using ok reachable_more [OF assms] unfolding sync_ok_def mutex_ok_def drained_ok_def by blast
qed

theorem threads_safe_witness:
  "reachable sample_state \<and> sy_main sample_state = MStop \<and> sy_mu sample_state = Some Main \<and> \<not> sy_fault sample_state"
proof -
  have "sy_main sample_state = MStop" "sy_mu sample_state = Some Main" by code_simp+
  with threads_safe [OF sample_reachable] sample_reachable show ?thesis by blast
qed

text \<open>Claim C29. The queue, threaded through the frames of the waiting clients, is first in, first out: in every
  reachable state the accepted jobs are the generated ones followed by the one the worker took and the linked
  jobs from head to tail, no job is accepted or generated twice, and a client leaves its wait only after its
  job was generated.\<close>

theorem jobs_generated_in_order:
  assumes "reachable s"
  shows "\<exists>q. linked (sy_job s) (sy_head s) q \<and> sy_tail s = (if q = [] then None else Some (last q))
    \<and> sy_accepted s = sy_generated s @ (case to_generate (sy_worker s) of None \<Rightarrow> [] | Some i \<Rightarrow> [i]) @ q
    \<and> distinct (sy_accepted s) \<and> (\<forall>i. sy_client s i = CUnlockJob \<longrightarrow> i \<in> set (sy_generated s))"
proof -
  obtain q where "sync_ok s q" using reachable_ok assms by blast
  then show ?thesis using reachable_more [OF assms]
    unfolding sync_ok_def queue_ok_def history_ok_def served_ok_def by (intro exI [of _ q]) blast
qed

theorem jobs_generated_in_order_witness:
  "reachable sample_state \<and> to_generate (sy_worker sample_state) = Some 0 \<and> sy_accepted sample_state = [0] \<and> sy_head sample_state = None"
proof -
  have "to_generate (sy_worker sample_state) = Some 0" "sy_generated sample_state = []" "sy_head sample_state = None" by code_simp+
  moreover from jobs_generated_in_order [OF sample_reachable] obtain q where
    "linked (sy_job sample_state) (sy_head sample_state) q"
    "sy_accepted sample_state = sy_generated sample_state @ (case to_generate (sy_worker sample_state) of None \<Rightarrow> [] | Some i \<Rightarrow> [i]) @ q"
    by blast
  ultimately show ?thesis using sample_reachable by (cases q) auto
qed

text \<open>Claim C28. From every reachable state, whatever the order of the threads' steps, at most \<open>work s\<close> steps are taken
  until a new connection, a stop request or an unsignalled wake-up, and as long as a connection is open, an accepted job
  is not generated, or a requested stop is not complete, some thread can take a step.  So every accepted
  request is answered, and after a stop request \<open>main\<close> returns; no interleaving deadlocks or loops.\<close>

theorem requests_get_served:
  assumes "reachable s"
  shows "(\<forall>n t. (program_step ^^ n) s t \<longrightarrow> n \<le> work s)
    \<and> (\<forall>t. program_step\<^sup>*\<^sup>* s t \<longrightarrow> idle t \<or> (\<exists>u. program_step t u))"
proof (intro conjI allI impI)
  show "n \<le> work s" if "(program_step ^^ n) s t" for n t using program_run_bound [OF that assms] by simp
  show "idle t \<or> (\<exists>u. program_step t u)" if "program_step\<^sup>*\<^sup>* s t" for t
  proof -
    have r: "reachable t" by (rule program_run_ok [OF that assms])
    then obtain q where "sync_ok t q" using reachable_ok by blast
    then show ?thesis using stuck_idle reachable_count [OF r] by blast
  qed
qed

theorem requests_get_served_witness:
  "reachable sample_state \<and> \<not> idle sample_state \<and> (\<exists>u. program_step sample_state u)
     \<and> \<not> (\<exists>t. (program_step ^^ 73) sample_state t)"
proof -
  have "sy_generated sample_state = []" "sy_accepted sample_state = [0]" "work sample_state = 72" by code_simp+
  then have i: "\<not> idle sample_state" "work sample_state = 72" by (simp_all add: idle_def)
  from requests_get_served [OF sample_reachable]
  have "\<exists>u. program_step sample_state u" "\<forall>n t. (program_step ^^ n) sample_state t \<longrightarrow> n \<le> work sample_state"
    using i(1) by blast+
  then show ?thesis using i sample_reachable by fastforce
qed

end
