(* ===== verification/Ds4_Session.thy ===== *)
theory Ds4_Session
  imports Ds4_Payload
begin

text \<open>
  The live session, \<^verbatim>\<open>src/core/ds4_session.inc\<close>: \<^verbatim>\<open>ds4_session_sync\<close>, which brings the backend to a token
  prefix, with its chunked prefill (\<^verbatim>\<open>gpu_graph_prefill_chunked_range\<close> and its callers in
  \<^verbatim>\<open>src/core/ds4_gpu.inc\<close>), \<^verbatim>\<open>ds4_session_eval\<close>, the rewrite of a live suffix, and the small
  operations on the checkpoint.

  The record of the checkpoint payload is extended by the work buffers of the backend and the fields of the draft
  model.  What the transformer computes is a parameter, \<open>forward\<close>: one field per call of the drivers, each of
  which may fail and leaves the device changed.  The predicate \<open>forward_sound\<close> says what these calls promise, in
  terms of what the device holds for a token list.  A call of the progress function is recorded with the
  session it sees.  Diagnostic environment variables are unset.

  The lemmas show that after every operation a checkpoint that claims to be valid describes the backend, that a
  successful sync ends exactly at the prompt, and that a resumed prefill cuts the prompt at the places where a cold
  one does.
\<close>

section \<open>The calls into the transformer\<close>

type_synonym tokens = "u32 list"
type_synonym 'w device = "ds4_gpu_graph \<times> 'w"
type_synonym 'w host = "ds4_layer_cache list \<times> 'w"

record 'w forward =
  fw_warmup :: "'w device \<Rightarrow> u32 \<Rightarrow> bool \<times> 'w device"
  fw_upload_tokens :: "'w device \<Rightarrow> tokens \<Rightarrow> u32 \<Rightarrow> u32 \<Rightarrow> bool \<times> 'w device"
  fw_upload_embeddings :: "'w device \<Rightarrow> tokens \<Rightarrow> u32 \<Rightarrow> u32 \<Rightarrow> bool \<times> 'w device"
  fw_layer_batch :: "'w device \<Rightarrow> nat \<Rightarrow> u32 \<Rightarrow> u32 \<Rightarrow> bool \<times> 'w device"
  fw_output_row :: "'w device \<Rightarrow> u32 \<Rightarrow> byte list option \<times> 'w device"
  fw_eval_token :: "'w device \<Rightarrow> u32 \<Rightarrow> u32 \<Rightarrow> byte list option \<times> 'w device"
  fw_mtp_draft :: "'w device \<Rightarrow> u32 \<Rightarrow> u32 \<Rightarrow> bool \<Rightarrow> (int \<times> byte list option) option \<times> 'w device"
  fw_argmax :: "byte list \<Rightarrow> u32"
  fw_cpu_decode :: "'w host \<Rightarrow> u32 \<Rightarrow> u32 \<Rightarrow> byte list \<times> 'w host"
  fw_cpu_prefill :: "'w host \<Rightarrow> tokens \<Rightarrow> byte list \<times> 'w host"

record 'w live_session = ds4_session +
  lv_work :: 'w
  lv_progress :: bool
  lv_mtp_logits :: "byte list option"
  lv_mtp_draft_token :: u32
  lv_mtp_probe_total :: u64
  lv_mtp_probe_hit :: u64

text \<open>The engine's flags and the two environment variables of the draft model.\<close>

record mtp_config =
  mc_ready :: bool
  mc_draft_tokens :: int
  mc_probe_log :: bool
  mc_full_logits :: bool

datatype sync_error = ExceedsContext | ResumedPrefillFailed | DecodeFailedExtending | PrefillFailed | DecodeFailed
  | NoValidCheckpoint | InvalidPrefix | PrefixMismatch | NeedsRebuild | UnexpectedState

type_synonym 'w call = "nat \<times> 'w live_session"

definition device :: "'w live_session \<Rightarrow> 'w device" where
  "device s = (se_graph s, lv_work s)"

definition set_device :: "'w device \<Rightarrow> 'w live_session \<Rightarrow> 'w live_session" where
  "set_device d s = s\<lparr>se_graph := fst d, lv_work := snd d\<rparr>"

definition host :: "'w live_session \<Rightarrow> 'w host" where
  "host s = (se_cpu_cache s, lv_work s)"

definition set_host :: "'w host \<Rightarrow> 'w live_session \<Rightarrow> 'w live_session" where
  "set_host h s = s\<lparr>se_cpu_cache := fst h, lv_work := snd h\<rparr>"

section \<open>Sizes\<close>

text \<open>A number read by \<^verbatim>\<open>strtol\<close> from an environment variable, if there is one.\<close>

definition ds4_default_prefill_cap_for_prompt :: "int option \<Rightarrow> int \<Rightarrow> u32" where
  "ds4_default_prefill_cap_for_prompt env prompt_len =
     (if prompt_len \<le> 0 then 1
      else let len = word_of_int prompt_len in
      case env of
        Some v \<Rightarrow> if v \<le> 0 then len
                  else let size = word_of_int v; size = (if size = 0 then 1 else size) in (if size > len then len else size)
      | None \<Rightarrow> let size = (if prompt_len > 2048 then 2048 else len); size = (if size = 0 then 1 else size)
                in if size > len then len else size)"

definition gpu_graph_raw_cap_for_context :: "int option \<Rightarrow> u32 \<Rightarrow> u32 \<Rightarrow> u32" where
  "gpu_graph_raw_cap_for_context env ctx_size prefill_cap =
     (let raw_window = ucast DS4_N_SWA;
          raw_window = (if raw_window > ctx_size then ctx_size else raw_window);
          raw_window = (if raw_window = 0 then 1 else raw_window);
          wanted = (ucast raw_window :: u64) + ucast prefill_cap;
          wanted = (if wanted > ucast ctx_size then ucast ctx_size else wanted);
          wanted = (if wanted = 0 then 1 else wanted);
          wanted = align_up wanted 256;
          wanted = (if wanted > 8192 then 8192 else wanted);
          raw_cap = (ucast wanted :: u32);
          raw_cap = (if raw_cap < raw_window then raw_window else raw_cap)
      in case env of
           Some v \<Rightarrow>
             (if v > 0
              then let raw_cap = word_of_int v;
                       raw_cap = (if raw_cap > ctx_size then ctx_size else raw_cap);
                       raw_cap = (if raw_cap > 8192 then 8192 else raw_cap)
                   in (if raw_cap < raw_window then raw_window else raw_cap)
              else raw_cap)
         | None \<Rightarrow> raw_cap)"

definition gpu_graph_resume_prefill_min_tokens :: "int option \<Rightarrow> u32" where
  "gpu_graph_resume_prefill_min_tokens env =
     (case env of Some v \<Rightarrow> (if v \<le> 0 then 0xFFFFFFFF else word_of_int v) | None \<Rightarrow> 32)"

section \<open>Prefill\<close>

definition note_prefill_progress :: "tokens \<Rightarrow> nat \<Rightarrow> 'w live_session \<Rightarrow> 'w live_session" where
  "note_prefill_progress prompt current s =
     (if current > 0 \<and> current \<le> length prompt
      then s\<lparr>se_checkpoint := take current prompt, se_checkpoint_valid := True, se_mtp_draft_valid := False\<rparr>
      else s)"

text \<open>The upload of a range and all layers over it: the drivers stop at the first failure.\<close>

definition run_layers :: "'w forward \<Rightarrow> u32 \<Rightarrow> u32 \<Rightarrow> bool \<times> 'w device \<Rightarrow> bool \<times> 'w device" where
  "run_layers F pos0 n x = fold (\<lambda>il x. if fst x then fw_layer_batch F (snd x) il pos0 n else x) [0..<DS4_N_LAYER] x"

definition run_chunk :: "'w forward \<Rightarrow> tokens \<Rightarrow> u32 \<Rightarrow> u32 \<Rightarrow> 'w device \<Rightarrow> bool \<times> 'w device" where
  "run_chunk F prompt pos0 n d =
     (let x = fw_upload_tokens F d prompt pos0 n;
          x = (if fst x then fw_upload_embeddings F (snd x) prompt pos0 n else x)
      in run_layers F pos0 n x)"

definition gpu_graph_prefill_layer_major :: "'w forward \<Rightarrow> tokens \<Rightarrow> nat \<Rightarrow> 'w live_session \<Rightarrow> bool \<times> 'w live_session" where
  "gpu_graph_prefill_layer_major F prompt n s =
     (if n = 0 \<or> n > length prompt \<or> of_nat n > se_prefill_cap s then (False, s)
      else let x = fw_upload_tokens F (device s) prompt 0 (of_nat n) in
        if \<not> fst x then (False, set_device (snd x) s)
        else let x = fw_warmup F (snd x) (of_nat n) in
        if \<not> fst x then (False, set_device (snd x) s)
        else let x = run_layers F 0 (of_nat n) (fw_upload_embeddings F (snd x) prompt 0 (of_nat n)) in
        if \<not> fst x then (False, set_device (snd x) s)
        else case fw_output_row F (snd x) (of_nat n - 1) of
            (None, d) \<Rightarrow> (False, set_device d s)
          | (Some l, d) \<Rightarrow> (True, (set_device d s)\<lparr>se_logits := l\<rparr>))"

definition gpu_graph_prefill_raw_swa :: "'w forward \<Rightarrow> tokens \<Rightarrow> nat \<Rightarrow> 'w live_session \<Rightarrow> bool \<times> 'w live_session" where
  "gpu_graph_prefill_raw_swa F prompt n s =
     (if n = 0 \<or> n > length prompt then (False, s)
      else if of_nat n > se_prefill_cap s then (False, s)
      else gpu_graph_prefill_layer_major F prompt n s)"

text \<open>How many tokens the chunk at \<open>pos0\<close> takes: a resumed prefill stops at the multiples of the prefill size.\<close>

definition range_chunk_cap :: "u32 \<Rightarrow> u32 \<Rightarrow> u32 \<Rightarrow> u32" where
  "range_chunk_cap prefill_cap raw_cap start = (if start \<noteq> 0 \<and> prefill_cap > raw_cap then raw_cap else prefill_cap)"

definition to_boundary :: "u32 \<Rightarrow> u32 \<Rightarrow> u32 \<Rightarrow> u32 \<Rightarrow> u32" where
  "to_boundary prefill_cap start pos most =
     (if start \<noteq> 0 \<and> prefill_cap \<noteq> 0 \<and> pos mod prefill_cap \<noteq> 0 \<and> prefill_cap - pos mod prefill_cap < most
      then prefill_cap - pos mod prefill_cap else most)"

definition next_chunk :: "u32 \<Rightarrow> u32 \<Rightarrow> u32 \<Rightarrow> u32 \<Rightarrow> u32 \<Rightarrow> u32" where
  "next_chunk prefill_cap chunk_cap start stop pos0 =
     (let remaining = stop - pos0;
          local_cap = to_boundary prefill_cap start pos0 chunk_cap
      in if remaining < local_cap then remaining else local_cap)"

text \<open>The loop over the chunks; every chunk takes at least one token, so the length of the prompt is enough fuel.\<close>

primrec prefill_chunks :: "nat \<Rightarrow> 'w forward \<Rightarrow> tokens \<Rightarrow> u32 \<Rightarrow> u32 \<Rightarrow> u32 \<Rightarrow> u32 \<Rightarrow> u32 \<Rightarrow> 'w live_session \<Rightarrow> 'w call list
    \<Rightarrow> bool \<times> u32 \<times> 'w live_session \<times> 'w call list" where
  "prefill_chunks 0 F prompt chunk_cap start stop pos0 final s calls = (False, final, s, calls)"
| "prefill_chunks (Suc k) F prompt chunk_cap start stop pos0 final s calls =
     (if \<not> pos0 < stop then (True, final, s, calls)
      else let n = next_chunk (se_prefill_cap s) chunk_cap start stop pos0;
               x = run_chunk F prompt pos0 n (device s);
               s = set_device (snd x) s in
        if \<not> fst x then (False, n, s, calls)
        else if lv_progress s
        then case fw_output_row F (device s) (n - 1) of
               (None, d) \<Rightarrow> (False, n, set_device d s, calls)
             | (Some l, d) \<Rightarrow>
                 let s = note_prefill_progress prompt (unat (pos0 + n)) ((set_device d s)\<lparr>se_logits := l\<rparr>)
                 in prefill_chunks k F prompt chunk_cap start stop (pos0 + n) n s (calls @ [(unat (pos0 + n), s)])
        else prefill_chunks k F prompt chunk_cap start stop (pos0 + n) n s calls)"

definition gpu_graph_prefill_chunked_range :: "'w forward \<Rightarrow> tokens \<Rightarrow> u32 \<Rightarrow> u32 \<Rightarrow> 'w live_session
    \<Rightarrow> bool \<times> 'w live_session \<times> 'w call list" where
  "gpu_graph_prefill_chunked_range F prompt start n s =
     (if n = 0 \<or> se_prefill_cap s = 0 then (False, s, [])
      else if start > of_nat (length prompt) then (False, s, [])
      else if n > of_nat (length prompt) - start then (False, s, [])
      else let chunk_cap = range_chunk_cap (se_prefill_cap s) (gg_raw_cap (se_graph s)) start in
        if chunk_cap = 0 then (False, s, [])
        else let first_chunk = to_boundary (se_prefill_cap s) start start (if n < chunk_cap then n else chunk_cap);
                 x = fw_warmup F (device s) first_chunk;
                 s = set_device (snd x) s in
        if \<not> fst x then (False, s, [])
        else let s = (if lv_progress s then note_prefill_progress prompt (unat start) s else s);
                 calls = (if lv_progress s then [(unat start, s)] else []) in
        case prefill_chunks (Suc (unat n)) F prompt chunk_cap start (start + n) start 0 s calls of
          (ok, final, s, calls) \<Rightarrow>
            (if \<not> ok then (False, s, calls)
             else if final = 0 then (False, s, calls)
             else case fw_output_row F (device s) (final - 1) of
                    (None, d) \<Rightarrow> (False, set_device d s, calls)
                  | (Some l, d) \<Rightarrow> (True, (set_device d s)\<lparr>se_logits := l\<rparr>, calls)))"

definition gpu_graph_prefill_chunked :: "'w forward \<Rightarrow> tokens \<Rightarrow> nat \<Rightarrow> 'w live_session \<Rightarrow> bool \<times> 'w live_session \<times> 'w call list" where
  "gpu_graph_prefill_chunked F prompt n s =
     (if n = 0 then (False, s, []) else gpu_graph_prefill_chunked_range F prompt 0 (of_nat n) s)"

section \<open>Sync, eval and the operations on the checkpoint\<close>

primrec cpu_extend :: "'w forward \<Rightarrow> tokens \<Rightarrow> 'w live_session \<Rightarrow> 'w call list \<Rightarrow> 'w live_session \<times> 'w call list" where
  "cpu_extend F [] s calls = (s, calls)"
| "cpu_extend F (t # ts) s calls =
     (let x = fw_cpu_decode F (host s) t (of_nat (length (se_checkpoint s)));
          s = (set_host (snd x) s)\<lparr>se_logits := fst x, se_checkpoint := se_checkpoint s @ [t]\<rparr>
      in cpu_extend F ts s (if lv_progress s then calls @ [(length (se_checkpoint s), s)] else calls))"

primrec gpu_extend :: "'w forward \<Rightarrow> tokens \<Rightarrow> 'w live_session \<Rightarrow> bool \<times> 'w live_session" where
  "gpu_extend F [] s = (True, s)"
| "gpu_extend F (t # ts) s =
     (case fw_eval_token F (device s) t (of_nat (length (se_checkpoint s))) of
        (None, d) \<Rightarrow> (False, (set_device d s)\<lparr>se_checkpoint_valid := False\<rparr>)
      | (Some l, d) \<Rightarrow> gpu_extend F ts ((set_device d s)\<lparr>se_logits := l, se_checkpoint := se_checkpoint s @ [t]\<rparr>))"

definition extends :: "'w live_session \<Rightarrow> tokens \<Rightarrow> bool" where
  "extends s prompt \<longleftrightarrow> se_checkpoint_valid s \<and> length prompt \<ge> length (se_checkpoint s)
     \<and> take (length (se_checkpoint s)) prompt = se_checkpoint s"

definition session_cpu_reset_cache :: "'w live_session \<Rightarrow> 'w live_session" where
  "session_cpu_reset_cache s = s\<lparr>se_cpu_cache := kv_cache_init (se_ctx_size s) 0\<rparr>"

definition sync_cpu :: "'w forward \<Rightarrow> tokens \<Rightarrow> 'w live_session \<Rightarrow> sync_error option \<times> 'w live_session \<times> 'w call list" where
  "sync_cpu F prompt s =
     (if extends s prompt
      then (case cpu_extend F (drop (length (se_checkpoint s)) prompt) (s\<lparr>se_mtp_draft_valid := False\<rparr>) [] of
              (s, calls) \<Rightarrow> (None, s\<lparr>se_checkpoint_valid := True\<rparr>, calls))
      else let s = session_cpu_reset_cache s;
               x = fw_cpu_prefill F (host s) prompt;
               s = (set_host (snd x) s)\<lparr>se_logits := fst x, se_checkpoint := prompt, se_checkpoint_valid := True, se_mtp_draft_valid := False\<rparr>
           in (None, s, if lv_progress s then [(length prompt, s)] else []))"

definition sync_resume :: "'w forward \<Rightarrow> int option \<Rightarrow> tokens \<Rightarrow> 'w live_session \<Rightarrow> sync_error option \<times> 'w live_session \<times> 'w call list" where
  "sync_resume F env prompt s =
     (let s = s\<lparr>se_mtp_draft_valid := False\<rparr>;
          suffix = length prompt - length (se_checkpoint s) in
      if suffix > 0 \<and> (of_nat suffix :: u32) \<ge> gpu_graph_resume_prefill_min_tokens env
      then case gpu_graph_prefill_chunked_range F prompt (of_nat (length (se_checkpoint s))) (of_nat suffix) s of
             (ok, s, calls) \<Rightarrow>
               (if \<not> ok then (Some ResumedPrefillFailed, s\<lparr>se_checkpoint_valid := False\<rparr>, calls)
                else (None, s\<lparr>se_checkpoint := prompt, se_checkpoint_valid := True\<rparr>, calls))
      else case gpu_extend F (drop (length (se_checkpoint s)) prompt) s of
             (ok, s) \<Rightarrow> (if \<not> ok then (Some DecodeFailedExtending, s, []) else (None, s, [])))"

definition sync_cold :: "'w forward \<Rightarrow> tokens \<Rightarrow> 'w live_session \<Rightarrow> sync_error option \<times> 'w live_session \<times> 'w call list" where
  "sync_cold F prompt s =
     (let x = (if se_prefill_cap s < of_nat (length prompt)
               then gpu_graph_prefill_chunked F prompt (length prompt) s
               else case gpu_graph_prefill_raw_swa F prompt (length prompt) s of (ok, s) \<Rightarrow> (ok, s, []))
      in case x of (ok, s, calls) \<Rightarrow>
           (if \<not> ok then (Some PrefillFailed, s\<lparr>se_checkpoint_valid := False\<rparr>, calls)
            else (None, s\<lparr>se_checkpoint := prompt, se_checkpoint_valid := True, se_mtp_draft_valid := False,
                          se_graph := (se_graph s)\<lparr>gg_mtp_n_raw := 0\<rparr>\<rparr>, calls)))"

definition ds4_session_sync :: "'w forward \<Rightarrow> int option \<Rightarrow> tokens \<Rightarrow> 'w live_session
    \<Rightarrow> sync_error option \<times> 'w live_session \<times> 'w call list" where
  "ds4_session_sync F env prompt s =
     (if prompt = [] \<or> int (length prompt) \<ge> sint (se_ctx_size s) then (Some ExceedsContext, s, [])
      else if se_cpu s then sync_cpu F prompt s
      else if extends s prompt then sync_resume F env prompt s
      else sync_cold F prompt s)"

definition ds4_session_eval_internal :: "'w forward \<Rightarrow> mtp_config \<Rightarrow> bool \<Rightarrow> u32 \<Rightarrow> 'w live_session \<Rightarrow> sync_error option \<times> 'w live_session" where
  "ds4_session_eval_internal F mc probe_mtp tok s =
     (if se_cpu s
      then let x = fw_cpu_decode F (host s) tok (of_nat (length (se_checkpoint s)))
           in (None, (set_host (snd x) s)\<lparr>se_logits := fst x, se_checkpoint := se_checkpoint s @ [tok],
                       se_checkpoint_valid := True, se_mtp_draft_valid := False\<rparr>)
      else let should_draft = (probe_mtp \<and> mc_ready mc \<and> lv_mtp_logits s \<noteq> None \<and> (mc_draft_tokens mc > 1 \<or> mc_probe_log mc));
               s = (if probe_mtp \<and> se_mtp_draft_valid s
                    then (if mc_probe_log mc
                          then s\<lparr>lv_mtp_probe_total := lv_mtp_probe_total s + 1,
                                 lv_mtp_probe_hit := (if lv_mtp_draft_token s = tok then lv_mtp_probe_hit s + 1 else lv_mtp_probe_hit s)\<rparr>
                          else s)\<lparr>se_mtp_draft_valid := False\<rparr>
                    else s) in
        case fw_eval_token F (device s) tok (of_nat (length (se_checkpoint s))) of
          (None, d) \<Rightarrow> (Some DecodeFailed, (set_device d s)\<lparr>se_checkpoint_valid := False\<rparr>)
        | (Some l, d) \<Rightarrow>
            let s = (set_device d s)\<lparr>se_logits := l, se_checkpoint := se_checkpoint s @ [tok]\<rparr> in
            if \<not> should_draft then (None, s)
            else case fw_mtp_draft F (device s) tok (of_nat (length (se_checkpoint s) - 1)) (mc_full_logits mc) of
                (None, d) \<Rightarrow> (None, set_device d s)
              | (Some (pick, full), d) \<Rightarrow>
                  let s = (set_device d s)\<lparr>lv_mtp_logits := (case full of None \<Rightarrow> lv_mtp_logits s | Some m \<Rightarrow> Some m)\<rparr>
                  in (None, s\<lparr>lv_mtp_draft_token := (if pick \<ge> 0 then word_of_int pick else fw_argmax F (the (lv_mtp_logits s))),
                              se_mtp_draft_valid := True\<rparr>))"

definition ds4_session_eval :: "'w forward \<Rightarrow> mtp_config \<Rightarrow> u32 \<Rightarrow> 'w live_session \<Rightarrow> sync_error option \<times> 'w live_session" where
  "ds4_session_eval F mc tok s = ds4_session_eval_internal F mc True tok s"

definition ds4_session_rewrite_requires_rebuild :: "int \<Rightarrow> int \<Rightarrow> int \<Rightarrow> bool" where
  "ds4_session_rewrite_requires_rebuild live_len canonical_len common =
     (if live_len < 0 \<or> canonical_len < 0 \<or> common < 0 then True
      else if common > live_len \<or> common > canonical_len then True
      else common < live_len)"

datatype rewrite_result = RewriteOk | RewriteRebuildNeeded | RewriteError sync_error

definition ds4_session_rewrite_from_common :: "'w forward \<Rightarrow> int option \<Rightarrow> tokens \<Rightarrow> int \<Rightarrow> 'w live_session
    \<Rightarrow> rewrite_result \<times> 'w live_session \<times> 'w call list" where
  "ds4_session_rewrite_from_common F env prompt common s =
     (if prompt = [] \<or> int (length prompt) \<ge> sint (se_ctx_size s) then (RewriteError ExceedsContext, s, [])
      else if \<not> se_checkpoint_valid s then (RewriteError NoValidCheckpoint, s, [])
      else if common < 0 \<or> common > int (length (se_checkpoint s)) \<or> common > int (length prompt) then (RewriteError InvalidPrefix, s, [])
      else if \<exists>i < nat common. se_checkpoint s ! i \<noteq> prompt ! i then (RewriteError PrefixMismatch, s, [])
      else if common = int (length (se_checkpoint s))
      then (case ds4_session_sync F env prompt s of
              (None, s, calls) \<Rightarrow> (RewriteOk, s, calls) | (Some e, s, calls) \<Rightarrow> (RewriteError e, s, calls))
      else if ds4_session_rewrite_requires_rebuild (int (length (se_checkpoint s))) (int (length prompt)) common
      then (RewriteRebuildNeeded, s, [])
      else (RewriteError UnexpectedState, s, []))"

fun common_from :: "tokens \<Rightarrow> tokens \<Rightarrow> nat" where
  "common_from (x # xs) (y # ys) = (if x = y then Suc (common_from xs ys) else 0)"
| "common_from _ _ = 0"

definition ds4_session_common_prefix :: "'w live_session \<Rightarrow> tokens \<Rightarrow> nat" where
  "ds4_session_common_prefix s prompt = (if \<not> se_checkpoint_valid s then 0 else common_from (se_checkpoint s) prompt)"

definition ds4_session_invalidate :: "'w live_session \<Rightarrow> 'w live_session" where
  "ds4_session_invalidate s = s\<lparr>se_checkpoint_valid := False, se_checkpoint := [], se_mtp_draft_valid := False\<rparr>"

definition ds4_session_rewind :: "int \<Rightarrow> 'w live_session \<Rightarrow> 'w live_session" where
  "ds4_session_rewind pos s =
     (let pos = (if pos < 0 then 0 else pos);
          pos = (if pos > int (length (se_checkpoint s)) then int (length (se_checkpoint s)) else pos)
      in s\<lparr>se_checkpoint := take (nat pos) (se_checkpoint s), se_mtp_draft_valid := False\<rparr>)"

text \<open>A payload is loaded into the live session through its checkpoint part.\<close>

definition live_load :: "turbo_kernels \<Rightarrow> 'w live_session \<Rightarrow> byte list \<Rightarrow> u64 \<Rightarrow> 'w live_session option" where
  "live_load k s file n =
     (case ds4_session_load_payload k (ds4_session.truncate s) file n of
        Loaded s2 rest \<Rightarrow> Some (ds4_session.extend s2 (ds4_session.more s))
      | _ \<Rightarrow> None)"

section \<open>What the calls promise\<close>

text \<open>What the device holds: the state after a token list (\<open>mn_rep\<close>), the uploaded tokens of a range, the activations of a
  range after some layers, the activations of the final rows of a token list; what a logits row belongs to; what
  the caches of the CPU backend hold.\<close>

record 'w meaning =
  mn_rep :: "'w device \<Rightarrow> tokens \<Rightarrow> bool"
  mn_tokens :: "'w device \<Rightarrow> tokens \<Rightarrow> nat \<Rightarrow> nat \<Rightarrow> bool"
  mn_layers :: "'w device \<Rightarrow> tokens \<Rightarrow> nat \<Rightarrow> nat \<Rightarrow> nat \<Rightarrow> bool"
  mn_rows :: "'w device \<Rightarrow> tokens \<Rightarrow> nat \<Rightarrow> bool"
  mn_logits :: "byte list \<Rightarrow> tokens \<Rightarrow> bool"
  mn_host :: "'w host \<Rightarrow> tokens \<Rightarrow> bool"

definition based :: "'w meaning \<Rightarrow> 'w device \<Rightarrow> tokens \<Rightarrow> nat \<Rightarrow> bool" where
  "based M d p pos \<longleftrightarrow> pos = 0 \<or> mn_rep M d (take pos p)"

definition uploads_sound :: "'w forward \<Rightarrow> 'w meaning \<Rightarrow> bool" where
  "uploads_sound F M \<longleftrightarrow>
     (\<forall>d n t. mn_rep M d t \<longrightarrow> mn_rep M (snd (fw_warmup F d n)) t)
     \<and> (\<forall>d n p pos m. mn_tokens M d p pos m \<longrightarrow> mn_tokens M (snd (fw_warmup F d n)) p pos m)
     \<and> (\<forall>d p pos n t. mn_rep M d t \<longrightarrow> mn_rep M (snd (fw_upload_tokens F d p pos n)) t)
     \<and> (\<forall>d p pos n. fst (fw_upload_tokens F d p pos n) \<longrightarrow> mn_tokens M (snd (fw_upload_tokens F d p pos n)) p (unat pos) (unat n))"

definition layers_sound :: "'w forward \<Rightarrow> 'w meaning \<Rightarrow> bool" where
  "layers_sound F M \<longleftrightarrow>
     (\<forall>d p pos n. based M d p (unat pos) \<longrightarrow> mn_tokens M d p (unat pos) (unat n) \<longrightarrow> fst (fw_upload_embeddings F d p pos n)
        \<longrightarrow> mn_layers M (snd (fw_upload_embeddings F d p pos n)) p (unat pos) (unat n) 0)
     \<and> (\<forall>d p pos n il. il < DS4_N_LAYER \<longrightarrow> mn_layers M d p (unat pos) (unat n) il \<longrightarrow> fst (fw_layer_batch F d il pos n)
        \<longrightarrow> mn_layers M (snd (fw_layer_batch F d il pos n)) p (unat pos) (unat n) (Suc il))
     \<and> (\<forall>d p pos n. 0 < n \<longrightarrow> pos + n \<le> length p \<longrightarrow> mn_layers M d p pos n DS4_N_LAYER
        \<longrightarrow> mn_rep M d (take (pos + n) p) \<and> mn_rows M d (take (pos + n) p) (n - 1))"

definition decode_sound :: "'w forward \<Rightarrow> 'w meaning \<Rightarrow> bool" where
  "decode_sound F M \<longleftrightarrow>
     (\<forall>d t r l d'. mn_rep M d t \<longrightarrow> mn_rows M d t (unat r) \<longrightarrow> fw_output_row F d r = (Some l, d')
        \<longrightarrow> mn_logits M l t \<and> mn_rep M d' t \<and> mn_rows M d' t (unat r))
     \<and> (\<forall>d t tok l d'. length t < 2 ^ 31 \<longrightarrow> mn_rep M d t \<longrightarrow> fw_eval_token F d tok (of_nat (length t)) = (Some l, d')
        \<longrightarrow> mn_logits M l (t @ [tok]) \<and> mn_rep M d' (t @ [tok]))
     \<and> (\<forall>d t tok pos full. mn_rep M d t \<longrightarrow> mn_rep M (snd (fw_mtp_draft F d tok pos full)) t)
     \<and> (\<forall>g w n t. mn_rep M (g, w) t \<longrightarrow> mn_rep M (g\<lparr>gg_mtp_n_raw := n\<rparr>, w) t)"

definition host_sound :: "'w forward \<Rightarrow> 'w meaning \<Rightarrow> bool" where
  "host_sound F M \<longleftrightarrow>
     (\<forall>h t tok. length t < 2 ^ 31 \<longrightarrow> mn_host M h t \<longrightarrow>
        mn_logits M (fst (fw_cpu_decode F h tok (of_nat (length t)))) (t @ [tok])
        \<and> mn_host M (snd (fw_cpu_decode F h tok (of_nat (length t)))) (t @ [tok]))
     \<and> (\<forall>ctx w p. p \<noteq> [] \<longrightarrow>
        mn_logits M (fst (fw_cpu_prefill F (kv_cache_init ctx 0, w) p)) p \<and> mn_host M (snd (fw_cpu_prefill F (kv_cache_init ctx 0, w) p)) p)"

definition forward_sound :: "'w forward \<Rightarrow> 'w meaning \<Rightarrow> bool" where
  "forward_sound F M \<longleftrightarrow> uploads_sound F M \<and> layers_sound F M \<and> decode_sound F M \<and> host_sound F M"

text \<open>The checkpoint describes the backend.\<close>

definition described_by :: "'w meaning \<Rightarrow> 'w live_session \<Rightarrow> bool" where
  "described_by M s \<longleftrightarrow> mn_logits M (se_logits s) (se_checkpoint s)
     \<and> (if se_cpu s then mn_host M (host s) (se_checkpoint s) else mn_rep M (device s) (se_checkpoint s))"

definition backed :: "'w meaning \<Rightarrow> 'w live_session \<Rightarrow> bool" where
  "backed M s \<longleftrightarrow> (se_checkpoint_valid s \<longrightarrow> described_by M s)"

definition settings :: "'w live_session \<Rightarrow> bool \<times> u32 \<times> u32 \<times> bool" where
  "settings s = (se_cpu s, se_prefill_cap s, se_ctx_size s, lv_progress s)"

text \<open>What the progress function sees.\<close>

definition progress_ok :: "'w meaning \<Rightarrow> tokens \<Rightarrow> 'w call \<Rightarrow> bool" where
  "progress_ok M p c \<longleftrightarrow> fst c \<le> length p \<and> backed M (snd c)
     \<and> (0 < fst c \<longrightarrow> se_checkpoint_valid (snd c) \<and> se_checkpoint (snd c) = take (fst c) p)"

lemma uploads_soundD:
  assumes "forward_sound F M"
  shows warmup_rep: "mn_rep M d t \<Longrightarrow> mn_rep M (snd (fw_warmup F d n)) t"
    and warmup_tokens: "mn_tokens M d p k m \<Longrightarrow> mn_tokens M (snd (fw_warmup F d n)) p k m"
    and upload_rep: "mn_rep M d t \<Longrightarrow> mn_rep M (snd (fw_upload_tokens F d p pos n)) t"
    and upload_tokens: "fst (fw_upload_tokens F d p pos n) \<Longrightarrow> mn_tokens M (snd (fw_upload_tokens F d p pos n)) p (unat pos) (unat n)"
proof -
  have u: "uploads_sound F M" using assms by (simp add: forward_sound_def)
  show "mn_rep M d t \<Longrightarrow> mn_rep M (snd (fw_warmup F d n)) t" using u unfolding uploads_sound_def by (elim conjE) meson
  show "mn_tokens M d p k m \<Longrightarrow> mn_tokens M (snd (fw_warmup F d n)) p k m" using u unfolding uploads_sound_def by (elim conjE) meson
  show "mn_rep M d t \<Longrightarrow> mn_rep M (snd (fw_upload_tokens F d p pos n)) t" using u unfolding uploads_sound_def by (elim conjE) meson
  show "fst (fw_upload_tokens F d p pos n) \<Longrightarrow> mn_tokens M (snd (fw_upload_tokens F d p pos n)) p (unat pos) (unat n)"
    using u unfolding uploads_sound_def by (elim conjE) meson
qed

lemma layers_soundD:
  assumes "forward_sound F M"
  shows embed_layers: "based M d p (unat pos) \<Longrightarrow> mn_tokens M d p (unat pos) (unat n) \<Longrightarrow> fst (fw_upload_embeddings F d p pos n)
        \<Longrightarrow> mn_layers M (snd (fw_upload_embeddings F d p pos n)) p (unat pos) (unat n) 0"
    and layer_step: "il < DS4_N_LAYER \<Longrightarrow> mn_layers M d p (unat pos) (unat n) il \<Longrightarrow> fst (fw_layer_batch F d il pos n)
        \<Longrightarrow> mn_layers M (snd (fw_layer_batch F d il pos n)) p (unat pos) (unat n) (Suc il)"
    and layers_rep: "0 < m \<Longrightarrow> k + m \<le> length p \<Longrightarrow> mn_layers M d p k m DS4_N_LAYER
        \<Longrightarrow> mn_rep M d (take (k + m) p) \<and> mn_rows M d (take (k + m) p) (m - 1)"
proof -
  have u: "layers_sound F M" using assms by (simp add: forward_sound_def)
  show "based M d p (unat pos) \<Longrightarrow> mn_tokens M d p (unat pos) (unat n) \<Longrightarrow> fst (fw_upload_embeddings F d p pos n)
        \<Longrightarrow> mn_layers M (snd (fw_upload_embeddings F d p pos n)) p (unat pos) (unat n) 0"
    using u unfolding layers_sound_def by (elim conjE) meson
  show "il < DS4_N_LAYER \<Longrightarrow> mn_layers M d p (unat pos) (unat n) il \<Longrightarrow> fst (fw_layer_batch F d il pos n)
        \<Longrightarrow> mn_layers M (snd (fw_layer_batch F d il pos n)) p (unat pos) (unat n) (Suc il)"
    using u unfolding layers_sound_def by (elim conjE) meson
  show "0 < m \<Longrightarrow> k + m \<le> length p \<Longrightarrow> mn_layers M d p k m DS4_N_LAYER
        \<Longrightarrow> mn_rep M d (take (k + m) p) \<and> mn_rows M d (take (k + m) p) (m - 1)"
    using u unfolding layers_sound_def by (elim conjE) meson
qed

lemma decode_soundD:
  assumes "forward_sound F M"
  shows output_row: "mn_rep M d t \<Longrightarrow> mn_rows M d t (unat r) \<Longrightarrow> fw_output_row F d r = (Some l, d')
        \<Longrightarrow> mn_logits M l t \<and> mn_rep M d' t \<and> mn_rows M d' t (unat r)"
    and eval_token: "length t < 2 ^ 31 \<Longrightarrow> mn_rep M d t \<Longrightarrow> fw_eval_token F d tok (of_nat (length t)) = (Some l, d')
        \<Longrightarrow> mn_logits M l (t @ [tok]) \<and> mn_rep M d' (t @ [tok])"
    and draft_rep: "mn_rep M d t \<Longrightarrow> mn_rep M (snd (fw_mtp_draft F d tok pos full)) t"
    and reset_rep: "mn_rep M (g, w) t \<Longrightarrow> mn_rep M (g\<lparr>gg_mtp_n_raw := n\<rparr>, w) t"
proof -
  have u: "decode_sound F M" using assms by (simp add: forward_sound_def)
  show "mn_rep M d t \<Longrightarrow> mn_rows M d t (unat r) \<Longrightarrow> fw_output_row F d r = (Some l, d')
        \<Longrightarrow> mn_logits M l t \<and> mn_rep M d' t \<and> mn_rows M d' t (unat r)" using u unfolding decode_sound_def by (elim conjE) meson
  show "length t < 2 ^ 31 \<Longrightarrow> mn_rep M d t \<Longrightarrow> fw_eval_token F d tok (of_nat (length t)) = (Some l, d')
        \<Longrightarrow> mn_logits M l (t @ [tok]) \<and> mn_rep M d' (t @ [tok])" using u unfolding decode_sound_def by (elim conjE) meson
  show "mn_rep M d t \<Longrightarrow> mn_rep M (snd (fw_mtp_draft F d tok pos full)) t" using u unfolding decode_sound_def by (elim conjE) meson
  show "mn_rep M (g, w) t \<Longrightarrow> mn_rep M (g\<lparr>gg_mtp_n_raw := n\<rparr>, w) t" using u unfolding decode_sound_def by (elim conjE) meson
qed

lemma host_soundD:
  assumes "forward_sound F M"
  shows cpu_decode: "length t < 2 ^ 31 \<Longrightarrow> mn_host M h t
        \<Longrightarrow> mn_logits M (fst (fw_cpu_decode F h tok (of_nat (length t)))) (t @ [tok])
          \<and> mn_host M (snd (fw_cpu_decode F h tok (of_nat (length t)))) (t @ [tok])"
    and cpu_prefill: "p \<noteq> [] \<Longrightarrow> mn_logits M (fst (fw_cpu_prefill F (kv_cache_init ctx 0, w) p)) p
          \<and> mn_host M (snd (fw_cpu_prefill F (kv_cache_init ctx 0, w) p)) p"
proof -
  have u: "host_sound F M" using assms by (simp add: forward_sound_def)
  show "length t < 2 ^ 31 \<Longrightarrow> mn_host M h t
        \<Longrightarrow> mn_logits M (fst (fw_cpu_decode F h tok (of_nat (length t)))) (t @ [tok])
          \<and> mn_host M (snd (fw_cpu_decode F h tok (of_nat (length t)))) (t @ [tok])" using u unfolding host_sound_def by (elim conjE) meson
  show "p \<noteq> [] \<Longrightarrow> mn_logits M (fst (fw_cpu_prefill F (kv_cache_init ctx 0, w) p)) p
          \<and> mn_host M (snd (fw_cpu_prefill F (kv_cache_init ctx 0, w) p)) p" using u unfolding host_sound_def by (elim conjE) meson
qed

lemma set_device_simps [simp]:
  "se_checkpoint (set_device d s) = se_checkpoint s" "se_checkpoint_valid (set_device d s) = se_checkpoint_valid s"
  "se_logits (set_device d s) = se_logits s" "se_cpu (set_device d s) = se_cpu s" "se_prefill_cap (set_device d s) = se_prefill_cap s"
  "lv_progress (set_device d s) = lv_progress s" "device (set_device d s) = d" "settings (set_device d s) = settings s"
  "se_ctx_size (set_device d s) = se_ctx_size s" "host (set_device d s) = (se_cpu_cache s, snd d)"
  by (simp_all add: set_device_def device_def settings_def host_def)

lemma set_host_simps [simp]:
  "se_checkpoint (set_host h s) = se_checkpoint s" "se_checkpoint_valid (set_host h s) = se_checkpoint_valid s"
  "se_logits (set_host h s) = se_logits s" "se_cpu (set_host h s) = se_cpu s" "lv_progress (set_host h s) = lv_progress s"
  "host (set_host h s) = h" "settings (set_host h s) = settings s" "se_ctx_size (set_host h s) = se_ctx_size s"
  by (simp_all add: set_host_def host_def settings_def)

lemma device_update [simp]:
  "device (s\<lparr>se_logits := l\<rparr>) = device s" "device (s\<lparr>se_checkpoint := t\<rparr>) = device s" "device (s\<lparr>se_checkpoint_valid := b\<rparr>) = device s"
  "device (s\<lparr>se_mtp_draft_valid := b\<rparr>) = device s" "device (s\<lparr>lv_mtp_logits := m\<rparr>) = device s"
  "device (s\<lparr>lv_mtp_draft_token := t1\<rparr>) = device s" "device (s\<lparr>lv_mtp_probe_total := n1\<rparr>) = device s" "device (s\<lparr>lv_mtp_probe_hit := n2\<rparr>) = device s"
  by (simp_all add: device_def)

lemma host_update [simp]:
  "host (s\<lparr>se_logits := l\<rparr>) = host s" "host (s\<lparr>se_checkpoint := t\<rparr>) = host s" "host (s\<lparr>se_checkpoint_valid := b\<rparr>) = host s"
  "host (s\<lparr>se_mtp_draft_valid := b\<rparr>) = host s"
  by (simp_all add: host_def)

lemma settings_update [simp]:
  "settings (s\<lparr>se_logits := l\<rparr>) = settings s" "settings (s\<lparr>se_checkpoint := t\<rparr>) = settings s"
  "settings (s\<lparr>se_checkpoint_valid := b\<rparr>) = settings s" "settings (s\<lparr>se_mtp_draft_valid := b\<rparr>) = settings s"
  "settings (s\<lparr>se_graph := g\<rparr>) = settings s" "settings (s\<lparr>se_cpu_cache := c\<rparr>) = settings s"
  by (simp_all add: settings_def)

lemma note_prefill_progress_simps [simp]:
  "device (note_prefill_progress p c s) = device s" "se_logits (note_prefill_progress p c s) = se_logits s"
  "settings (note_prefill_progress p c s) = settings s" "se_cpu (note_prefill_progress p c s) = se_cpu s"
  "lv_progress (note_prefill_progress p c s) = lv_progress s" "se_prefill_cap (note_prefill_progress p c s) = se_prefill_cap s"
  by (simp_all add: note_prefill_progress_def settings_def)

subsection \<open>One chunk\<close>

lemma run_layers_sound:
  assumes F: "forward_sound F M" and start: "mn_layers M d p (unat pos) (unat n) 0"
    and ok: "fst (run_layers F pos n (True, d))"
  shows "mn_layers M (snd (run_layers F pos n (True, d))) p (unat pos) (unat n) DS4_N_LAYER"
proof -
  let ?run = "\<lambda>k. fold (\<lambda>il x. if fst x then fw_layer_batch F (snd x) il pos n else x) [0..<k] (True, d)"
  have "k \<le> DS4_N_LAYER \<Longrightarrow> fst (?run k) \<Longrightarrow> mn_layers M (snd (?run k)) p (unat pos) (unat n) k" for k
  proof (induction k)
    case 0
    then show ?case using start by simp
  next
    case (Suc k)
    then have "fst (?run k)" by (auto split: if_splits)
    with Suc layer_step [OF F, of k "snd (?run k)" p pos n] show ?case by simp
  qed
  then show ?thesis using ok by (simp add: run_layers_def)
qed

lemma run_layers_failed: "\<not> fst x \<Longrightarrow> run_layers F pos n x = x"
proof -
  assume "\<not> fst x"
  then have "fold (\<lambda>il x. if fst x then fw_layer_batch F (snd x) il pos n else x) ls x = x" for ls
    by (induction ls) auto
  then show ?thesis by (simp add: run_layers_def)
qed

lemma layers_give_rows:
  assumes F: "forward_sound F M" and "0 < unat n" "unat pos + unat n \<le> length p"
    and b: "based M d p (unat pos)" "mn_tokens M d p (unat pos) (unat n)"
    and ok: "fst (run_layers F pos n (fw_upload_embeddings F d p pos n))"
  defines "d' \<equiv> snd (run_layers F pos n (fw_upload_embeddings F d p pos n))"
  shows "mn_rep M d' (take (unat pos + unat n) p)" "mn_rows M d' (take (unat pos + unat n) p) (unat n - 1)"
proof -
  let ?e = "fw_upload_embeddings F d p pos n"
  have t: "fst ?e" by (rule ccontr) (use ok run_layers_failed [of ?e F pos n] in simp)
  then have e: "?e = (True, snd ?e)" by (metis surjective_pairing)
  have "mn_layers M d' p (unat pos) (unat n) DS4_N_LAYER"
    unfolding d'_def by (subst e, rule run_layers_sound [OF F embed_layers [OF F b t]]) (use ok e in metis)
  from layers_rep [OF F assms(2,3) this]
  show "mn_rep M d' (take (unat pos + unat n) p)" "mn_rows M d' (take (unat pos + unat n) p) (unat n - 1)" by blast+
qed

lemma run_chunk_sound:
  assumes F: "forward_sound F M" and "0 < unat n" "unat pos + unat n \<le> length p" "based M d p (unat pos)"
    and ok: "fst (run_chunk F p pos n d)"
  shows "mn_rep M (snd (run_chunk F p pos n d)) (take (unat pos + unat n) p)"
    "mn_rows M (snd (run_chunk F p pos n d)) (take (unat pos + unat n) p) (unat n - 1)"
proof -
  let ?u = "fw_upload_tokens F d p pos n"
  have u: "fst ?u" using ok run_layers_failed [of ?u F pos n] by (auto simp: run_chunk_def Let_def split: if_splits)
  then have r: "run_chunk F p pos n d = run_layers F pos n (fw_upload_embeddings F (snd ?u) p pos n)"
    by (simp add: run_chunk_def Let_def)
  have "based M (snd ?u) p (unat pos)" using upload_rep [OF F] assms(4) unfolding based_def by blast
  from layers_give_rows [OF F assms(2,3) this upload_tokens [OF F u]] ok
  show "mn_rep M (snd (run_chunk F p pos n d)) (take (unat pos + unat n) p)"
    "mn_rows M (snd (run_chunk F p pos n d)) (take (unat pos + unat n) p) (unat n - 1)"
    unfolding r by blast+
qed

subsection \<open>The chunk sizes\<close>

lemma to_boundary_bounds:
  assumes "most \<noteq> 0"
  shows "0 < unat (to_boundary pc start pos most)" "unat (to_boundary pc start pos most) \<le> unat most"
proof -
  have "unat (pc - pos mod pc) \<noteq> 0" if "pc \<noteq> 0"
  proof -
    have "pos mod pc < pc" using that by (simp add: word_mod_less_divisor word_greater_zero_iff)
    then have "pc - pos mod pc \<noteq> 0" by auto
    then show ?thesis by (simp add: unat_eq_0)
  qed
  then show "0 < unat (to_boundary pc start pos most)" "unat (to_boundary pc start pos most) \<le> unat most"
    using assms by (auto simp: to_boundary_def word_less_nat_alt unat_gt_0)
qed

lemma next_chunk_bounds:
  assumes "pos < stop" "cc \<noteq> 0"
  shows "0 < unat (next_chunk pc cc start stop pos)" "unat pos + unat (next_chunk pc cc start stop pos) \<le> unat stop"
    "unat (pos + next_chunk pc cc start stop pos) = unat pos + unat (next_chunk pc cc start stop pos)"
proof -
  let ?n = "next_chunk pc cc start stop pos"
  have rem: "unat (stop - pos) = unat stop - unat pos" "unat pos < unat stop"
    using assms(1) by (simp_all add: unat_sub word_less_nat_alt order.strict_implies_order)
  note b = to_boundary_bounds [OF assms(2), of pc start pos]
  show n: "0 < unat ?n" "unat pos + unat ?n \<le> unat stop"
    using b rem by (auto simp: next_chunk_def Let_def word_less_nat_alt)
  then have "unat pos + unat ?n < 2 ^ 32" using unat_u32_bound [of stop] by (simp del: unat_u32_bound)
  then show "unat (pos + ?n) = unat pos + unat ?n" by (simp add: unat_word_ariths(1))
qed

subsection \<open>The loop over the chunks\<close>

lemma backed_noted:
  assumes "0 < c" "c \<le> length p" "\<not> se_cpu s" "mn_logits M (se_logits s) (take c p)" "mn_rep M (device s) (take c p)"
  shows "backed M (note_prefill_progress p c s)" "se_checkpoint_valid (note_prefill_progress p c s)"
    "se_checkpoint (note_prefill_progress p c s) = take c p"
  using assms by (simp_all add: note_prefill_progress_def backed_def described_by_def)

lemma settings_cpu: "settings s = settings s' \<Longrightarrow> se_cpu s = se_cpu s'"
  "settings s = settings s' \<Longrightarrow> se_prefill_cap s = se_prefill_cap s'" "settings s = settings s' \<Longrightarrow> lv_progress s = lv_progress s'"
  by (simp_all add: settings_def)

definition processed :: "'w meaning \<Rightarrow> tokens \<Rightarrow> nat \<Rightarrow> u32 \<Rightarrow> 'w live_session \<Rightarrow> bool" where
  "processed M p pos final s \<longleftrightarrow> final \<noteq> 0 \<and> mn_rep M (device s) (take pos p) \<and> mn_rows M (device s) (take pos p) (unat (final - 1))"

lemma unat_minus_one: "(n :: u32) \<noteq> 0 \<Longrightarrow> unat (n - 1) = unat n - 1"
  by (simp add: unat_minus_one)

lemma output_row_sound:
  "forward_sound F M \<Longrightarrow> processed M p pos final s \<Longrightarrow> fw_output_row F (device s) (final - 1) = (Some l, d)
   \<Longrightarrow> mn_logits M l (take pos p) \<and> processed M p pos final (set_device d s)"
  using output_row [of F M "device s" "take pos p" "final - 1" l d] by (simp add: processed_def)

lemma prefill_chunks_sound:
  assumes F: "forward_sound F M" and cc: "cc \<noteq> 0" and stop: "unat stop \<le> length p"
  shows "prefill_chunks k F p cc start stop pos final s calls = (ok, final', s', calls')
    \<Longrightarrow> \<not> se_cpu s \<Longrightarrow> unat stop - unat pos < k \<Longrightarrow> pos \<le> stop
    \<Longrightarrow> (if final = 0 then based M (device s) p (unat pos) else processed M p (unat pos) final s)
    \<Longrightarrow> \<forall>c \<in> set calls. progress_ok M p c
    \<Longrightarrow> settings s' = settings s \<and> (\<forall>c \<in> set calls'. progress_ok M p c)
      \<and> (ok \<longrightarrow> final' \<noteq> 0 \<longrightarrow> processed M p (unat stop) final' s')"
proof (induction k arbitrary: pos final s calls)
  case 0
  then show ?case by simp
next
  case (Suc k)
  show ?case
  proof (cases "pos < stop")
    case False
    then have "pos = stop" using Suc.prems(4) by simp
    with Suc.prems False show ?thesis by auto
  next
    case True
    define n where "n = next_chunk (se_prefill_cap s) cc start stop pos"
    note nb = next_chunk_bounds [OF True cc, of "se_prefill_cap s" start, folded n_def]
    obtain b d where x: "run_chunk F p pos n (device s) = (b, d)" by (metis surj_pair)
    define s1 where "s1 = set_device d s"
    have frame: "settings s1 = settings s" "\<not> se_cpu s1" "lv_progress s1 = lv_progress s" using Suc.prems(2) by (simp_all add: s1_def)
    have n0: "n \<noteq> 0" using nb(1) by auto
    have base: "based M (device s) p (unat pos)" using Suc.prems(5) by (auto simp: processed_def based_def split: if_splits)
    have small: "unat stop - unat (pos + n) < k" "pos + n \<le> stop"
      using Suc.prems(3) nb True by (simp_all add: word_le_nat_alt word_less_nat_alt)
    note eq = Suc.prems(1) [unfolded prefill_chunks.simps Let_def, folded n_def, unfolded x fst_conv snd_conv, folded s1_def]
    show ?thesis
    proof (cases b)
      case False
      then show ?thesis using eq True frame Suc.prems(6) by auto
    next
      case b: True
      have "mn_rep M d (take (unat pos + unat n) p)" "mn_rows M d (take (unat pos + unat n) p) (unat n - 1)"
        using run_chunk_sound [OF F nb(1) _ base] x b nb(2) stop by auto
      then have dn: "processed M p (unat (pos + n)) n s1"
        using n0 by (simp add: processed_def s1_def nb(3) unat_minus_one)
      show ?thesis
      proof (cases "lv_progress s")
        case False
        have "settings s' = settings s1 \<and> (\<forall>c \<in> set calls'. progress_ok M p c) \<and> (ok \<longrightarrow> final' \<noteq> 0 \<longrightarrow> processed M p (unat stop) final' s')"
          by (rule Suc.IH [OF _ frame(2) small, of n calls]) (use eq True b False frame dn n0 Suc.prems(6) in auto)
        then show ?thesis using frame by simp
      next
        case pr: True
        obtain o1 d1 where Pair: "fw_output_row F (device s1) (n - 1) = (o1, d1)" by (metis surj_pair)
        show ?thesis
        proof -
          show ?thesis
          proof (cases o1)
            case None
            then show ?thesis using eq True b pr frame Pair Suc.prems(6) by auto
          next
            case (Some l)
            define s2 where "s2 = note_prefill_progress p (unat (pos + n)) ((set_device d1 s1)\<lparr>se_logits := l\<rparr>)"
            have lg: "mn_logits M l (take (unat (pos + n)) p)" "processed M p (unat (pos + n)) n (set_device d1 s1)"
              using output_row_sound [OF F dn] Pair Some by auto
            have c: "0 < unat (pos + n)" "unat (pos + n) \<le> length p" using nb stop by auto
            have s2: "backed M s2" "se_checkpoint_valid s2" "se_checkpoint s2 = take (unat (pos + n)) p"
              unfolding s2_def using backed_noted [OF c, of "(set_device d1 s1)\<lparr>se_logits := l\<rparr>" M] lg frame(2) by (auto simp: processed_def)
            have f2: "settings s2 = settings s" "\<not> se_cpu s2" using frame by (simp_all add: s2_def)
            have "settings s' = settings s2 \<and> (\<forall>c \<in> set calls'. progress_ok M p c) \<and> (ok \<longrightarrow> final' \<noteq> 0 \<longrightarrow> processed M p (unat stop) final' s')"
            proof (rule Suc.IH [OF _ f2(2) small, of n "calls @ [(unat (pos + n), s2)]"])
              show "prefill_chunks k F p cc start stop (pos + n) n s2 (calls @ [(unat (pos + n), s2)]) = (ok, final', s', calls')"
                using eq True b pr frame Pair Some by (simp add: s2_def)
              show "if n = 0 then based M (device s2) p (unat (pos + n)) else processed M p (unat (pos + n)) n s2"
                using lg(2) n0 by (simp add: processed_def s2_def)
              show "\<forall>c \<in> set (calls @ [(unat (pos + n), s2)]). progress_ok M p c"
                using Suc.prems(6) s2 c by (auto simp: progress_ok_def)
            qed
            then show ?thesis using f2 by simp
          qed
        qed
      qed
    qed
  qed
qed

text \<open>A chunked prefill of a range whose start the device holds.\<close>

lemma prefill_range_refused:
  "n = 0 \<or> se_prefill_cap s = 0 \<or> start > of_nat (length p) \<or> n > of_nat (length p) - start
      \<or> range_chunk_cap (se_prefill_cap s) (gg_raw_cap (se_graph s)) start = 0
   \<Longrightarrow> gpu_graph_prefill_chunked_range F p start n s = (False, s, [])"
  unfolding gpu_graph_prefill_chunked_range_def Let_def by (elim disjE) simp_all

lemma prefill_range_sound:
  assumes F: "forward_sound F M" and small: "length p < 2 ^ 31"
    and res: "gpu_graph_prefill_chunked_range F p start n s = (ok, s', calls)"
    and gpu: "\<not> se_cpu s" and bk: "backed M s"
    and base: "start = 0 \<or> se_checkpoint_valid s \<and> se_checkpoint s = take (unat start) p"
  shows "settings s' = settings s" "\<forall>c \<in> set calls. progress_ok M p c"
    "ok \<Longrightarrow> mn_logits M (se_logits s') (take (unat start + unat n) p)"
    "ok \<Longrightarrow> mn_rep M (device s') (take (unat start + unat n) p)"
proof -
  have goal: "settings s' = settings s \<and> (\<forall>c \<in> set calls. progress_ok M p c)
    \<and> (ok \<longrightarrow> mn_logits M (se_logits s') (take (unat start + unat n) p) \<and> mn_rep M (device s') (take (unat start + unat n) p))"
  proof (cases "n = 0 \<or> se_prefill_cap s = 0 \<or> start > of_nat (length p) \<or> n > of_nat (length p) - start
      \<or> range_chunk_cap (se_prefill_cap s) (gg_raw_cap (se_graph s)) start = 0")
    case True
    then show ?thesis using res prefill_range_refused [OF True, of F] by simp
  next
    case False
    define cc where "cc = range_chunk_cap (se_prefill_cap s) (gg_raw_cap (se_graph s)) start"
    have u: "unat (of_nat (length p) :: u32) = length p" using small by (simp add: unat_of_nat take_bit_nat_eq_self)
    then have le: "unat start \<le> length p" "unat (of_nat (length p) - start) = length p - unat start"
      using False by (simp_all add: word_less_nat_alt unat_sub word_le_nat_alt)
    then have n: "unat n \<le> length p - unat start" using False by (simp add: word_less_nat_alt)
    have stop: "unat (start + n) = unat start + unat n"
      using n le small by (simp add: unat_word_ariths(1))
    obtain b d where x: "fw_warmup F (device s) (to_boundary (se_prefill_cap s) start start (if n < cc then n else cc)) = (b, d)" by (metis surj_pair)
    define s1 where "s1 = set_device d s"
    note eq = res [unfolded gpu_graph_prefill_chunked_range_def Let_def, folded cc_def, unfolded x fst_conv snd_conv, folded s1_def]
    have keep: "mn_rep M (device s) t \<Longrightarrow> mn_rep M d t" for t
      using warmup_rep [OF F] x by (metis snd_conv)
    have bk1: "backed M s1" using bk gpu keep by (simp add: backed_def described_by_def s1_def)
    show ?thesis
    proof (cases b)
      case b: False
      then show ?thesis using eq False by (auto simp: s1_def cc_def)
    next
      case b: True
      define s2 where "s2 = (if lv_progress s1 then note_prefill_progress p (unat start) s1 else s1)"
      have frame: "settings s2 = settings s" "\<not> se_cpu s2" "device s2 = d"
        using gpu by (simp_all add: s2_def s1_def)
      have noted: "unat start \<noteq> 0 \<Longrightarrow> se_checkpoint_valid s \<and> se_checkpoint s = take (unat start) p"
        using base by auto
      have bk2: "backed M s2" "0 < unat start \<Longrightarrow> se_checkpoint_valid s2 \<and> se_checkpoint s2 = take (unat start) p"
        using bk1 noted le by (auto simp: s2_def backed_def described_by_def note_prefill_progress_def s1_def)
      have based2: "based M (device s2) p (unat start)"
      proof (cases "unat start = 0")
        case False
        then have "mn_rep M (device s) (take (unat start) p)" using bk noted gpu by (simp add: backed_def described_by_def)
        then show ?thesis using keep by (simp add: based_def frame)
      qed (simp add: based_def)
      define calls0 where "calls0 = (if lv_progress s2 then [(unat start, s2)] else [])"
      have calls0: "\<forall>c \<in> set calls0. progress_ok M p c"
        using bk2 le by (auto simp: progress_ok_def calls0_def)
      obtain ok1 final s3 calls3 where c: "prefill_chunks (Suc (unat n)) F p cc start (start + n) start 0 s2 calls0
          = (ok1, final, s3, calls3)" by (metis prod_cases4)
      have r: "settings s3 = settings s2 \<and> (\<forall>c \<in> set calls3. progress_ok M p c)
        \<and> (ok1 \<longrightarrow> final \<noteq> 0 \<longrightarrow> processed M p (unat (start + n)) final s3)"
        by (rule prefill_chunks_sound [OF F _ _ c])
          (use False n le stop frame based2 calls0 in \<open>auto simp: cc_def word_le_nat_alt\<close>)
      have eq2: "(ok, s', calls) = (if \<not> ok1 then (False, s3, calls3) else if final = 0 then (False, s3, calls3)
          else case fw_output_row F (device s3) (final - 1) of (None, d) \<Rightarrow> (False, set_device d s3, calls3)
            | (Some l, d) \<Rightarrow> (True, (set_device d s3)\<lparr>se_logits := l\<rparr>, calls3))"
        using eq [folded s2_def, folded calls0_def] False b by (simp add: cc_def [symmetric] c del: prefill_chunks.simps)
      show ?thesis
      proof (cases "ok1 \<and> final \<noteq> 0")
        case False
        then show ?thesis using eq2 r frame by (auto split: if_splits)
      next
        case True
        then have dn: "processed M p (unat (start + n)) final s3" using r by blast
        obtain o1 d1 where Pair: "fw_output_row F (device s3) (final - 1) = (o1, d1)" by (metis surj_pair)
        show ?thesis
        proof -
          show ?thesis using eq2 True r frame Pair output_row_sound [OF F dn]
            by (cases o1) (auto simp: stop processed_def)
        qed
      qed
    qed
  qed
  then show "settings s' = settings s" "\<forall>c \<in> set calls. progress_ok M p c"
    "ok \<Longrightarrow> mn_logits M (se_logits s') (take (unat start + unat n) p)"
    "ok \<Longrightarrow> mn_rep M (device s') (take (unat start + unat n) p)" by blast+
qed

lemma prefill_raw_sound:
  assumes F: "forward_sound F M" and small: "length p < 2 ^ 31" and gpu: "\<not> se_cpu s"
    and res: "gpu_graph_prefill_raw_swa F p (length p) s = (ok, s')"
  shows "settings s' = settings s" "ok \<Longrightarrow> mn_logits M (se_logits s') p" "ok \<Longrightarrow> mn_rep M (device s') p"
proof -
  have u: "unat (of_nat (length p) :: u32) = length p" using small by (simp add: unat_of_nat take_bit_nat_eq_self)
  define n where "n = (of_nat (length p) :: u32)"
  have goal: "settings s' = settings s \<and> (ok \<longrightarrow> mn_logits M (se_logits s') p \<and> mn_rep M (device s') p)"
  proof (cases "length p = 0 \<or> n > se_prefill_cap s")
    case True
    then have "gpu_graph_prefill_raw_swa F p (length p) s = (False, s)"
      by (simp add: gpu_graph_prefill_raw_swa_def n_def) (auto simp: gpu_graph_prefill_layer_major_def)
    then show ?thesis using res by simp
  next
    case False
    obtain b1 d1 where x1: "fw_upload_tokens F (device s) p 0 n = (b1, d1)" by (metis surj_pair)
    obtain b2 d2 where x2: "fw_warmup F d1 n = (b2, d2)" by (metis surj_pair)
    obtain b3 d3 where x3: "run_layers F 0 n (fw_upload_embeddings F d2 p 0 n) = (b3, d3)" by (metis surj_pair)
    obtain o4 d4 where x4: "fw_output_row F d3 (n - 1) = (o4, d4)" by (metis surj_pair)
    have n0: "n \<noteq> 0" "unat n = length p" using False u by (auto simp: n_def)
    note eq = res [unfolded gpu_graph_prefill_raw_swa_def gpu_graph_prefill_layer_major_def Let_def, folded n_def,
      unfolded x1 fst_conv snd_conv x2 x3 x4]
    have "mn_rep M d3 p \<and> mn_rows M d3 p (unat (n - 1))" if "b1" "b2" "b3"
    proof -
      have "mn_tokens M d1 p 0 (unat n)" using upload_tokens [OF F, of "device s" p 0 n] x1 that(1) by simp
      then have "mn_tokens M d2 p 0 (unat n)" using warmup_tokens [OF F] x2 by (metis snd_conv)
      then show ?thesis
        using layers_give_rows [OF F, of n 0 p d2] x3 that(3) n0 False by (simp add: based_def unat_minus_one)
    qed
    moreover have "mn_logits M l p \<and> mn_rep M d4 p" if "o4 = Some l" "mn_rep M d3 p \<and> mn_rows M d3 p (unat (n - 1))" for l
      using output_row [OF F, of d3 p "n - 1" l d4] that x4 by simp
    ultimately show ?thesis using eq False by (cases o4) (auto split: if_splits)
  qed
  then show "settings s' = settings s" "ok \<Longrightarrow> mn_logits M (se_logits s') p" "ok \<Longrightarrow> mn_rep M (device s') p" by blast+
qed

lemma cpu_extend_sound:
  assumes F: "forward_sound F M"
  shows "cpu_extend F ts s calls = (s', calls') \<Longrightarrow> se_cpu s \<Longrightarrow> se_checkpoint_valid s \<Longrightarrow> described_by M s
    \<Longrightarrow> se_checkpoint s @ ts = p \<Longrightarrow> length p < 2 ^ 31 \<Longrightarrow> \<forall>c \<in> set calls. progress_ok M p c
    \<Longrightarrow> settings s' = settings s \<and> described_by M s' \<and> se_checkpoint s' = p \<and> (\<forall>c \<in> set calls'. progress_ok M p c)"
proof (induction ts arbitrary: s calls)
  case Nil
  then show ?case by auto
next
  case (Cons t ts)
  define x where "x = fw_cpu_decode F (host s) t (of_nat (length (se_checkpoint s)))"
  define s1 where "s1 = (set_host (snd x) s)\<lparr>se_logits := fst x, se_checkpoint := se_checkpoint s @ [t]\<rparr>"
  have len: "length (se_checkpoint s) < 2 ^ 31" using Cons.prems(5,6) by auto
  have h: "mn_logits M (fst x) (se_checkpoint s @ [t]) \<and> mn_host M (snd x) (se_checkpoint s @ [t])"
    unfolding x_def by (rule cpu_decode [OF F len]) (use Cons.prems(2,4) in \<open>simp add: described_by_def\<close>)
  have s1: "se_cpu s1" "se_checkpoint_valid s1" "described_by M s1" "se_checkpoint s1 @ ts = p" "settings s1 = settings s"
    "lv_progress s1 = lv_progress s"
    using Cons.prems h by (auto simp: s1_def described_by_def)
  have ck: "length (se_checkpoint s1) \<le> length p" "se_checkpoint s1 = take (length (se_checkpoint s1)) p" using s1(4) by auto
  have c1: "progress_ok M p (length (se_checkpoint s1), s1)" using s1 ck by (auto simp: progress_ok_def backed_def)
  have "settings s' = settings s1 \<and> described_by M s' \<and> se_checkpoint s' = p \<and> (\<forall>c \<in> set calls'. progress_ok M p c)"
  proof (rule Cons.IH [OF _ s1(1-4) Cons.prems(6)])
    show "cpu_extend F ts s1 (if lv_progress s1 then calls @ [(length (se_checkpoint s1), s1)] else calls) = (s', calls')"
      using Cons.prems(1) by (simp only: cpu_extend.simps Let_def x_def [symmetric] s1_def [symmetric])
    show "\<forall>c \<in> set (if lv_progress s1 then calls @ [(length (se_checkpoint s1), s1)] else calls). progress_ok M p c"
      using Cons.prems(7) c1 by auto
  qed
  then show ?case using s1(5) by simp
qed

lemma gpu_extend_sound:
  assumes F: "forward_sound F M"
  shows "gpu_extend F ts s = (ok, s') \<Longrightarrow> \<not> se_cpu s \<Longrightarrow> se_checkpoint_valid s \<Longrightarrow> described_by M s
    \<Longrightarrow> se_checkpoint s @ ts = p \<Longrightarrow> length p < 2 ^ 31
    \<Longrightarrow> settings s' = settings s \<and> (if ok then se_checkpoint_valid s' \<and> described_by M s' \<and> se_checkpoint s' = p else \<not> se_checkpoint_valid s')"
proof (induction ts arbitrary: s)
  case Nil
  then show ?case by auto
next
  case (Cons t ts)
  obtain o1 d where x: "fw_eval_token F (device s) t (of_nat (length (se_checkpoint s))) = (o1, d)" by (metis surj_pair)
  have len: "length (se_checkpoint s) < 2 ^ 31" using Cons.prems(5,6) by auto
  show ?case
  proof (cases o1)
    case None
    then show ?thesis using Cons.prems(1) x by auto
  next
    case (Some l)
    define s1 where "s1 = (set_device d s)\<lparr>se_logits := l, se_checkpoint := se_checkpoint s @ [t]\<rparr>"
    have h: "mn_logits M l (se_checkpoint s @ [t]) \<and> mn_rep M d (se_checkpoint s @ [t])"
      by (rule eval_token [OF F len _ x [unfolded Some]]) (use Cons.prems(2,4) in \<open>simp add: described_by_def\<close>)
    have s1: "\<not> se_cpu s1" "se_checkpoint_valid s1" "described_by M s1" "se_checkpoint s1 @ ts = p" "settings s1 = settings s"
      using Cons.prems h by (auto simp: s1_def described_by_def)
    have "gpu_extend F ts s1 = (ok, s')" using Cons.prems(1) x Some by (simp add: s1_def)
    from Cons.IH [OF this s1(1-4) Cons.prems(6)] show ?thesis using s1(5) by simp
  qed
qed

subsection \<open>Sync\<close>

lemma sync_cold_sound:
  assumes F: "forward_sound F M" and small: "length p < 2 ^ 31" and gpu: "\<not> se_cpu s" and bk: "backed M s" and p: "p \<noteq> []"
    and res: "sync_cold F p s = (r, s', calls)"
  shows "settings s' = settings s \<and> (\<forall>c \<in> set calls. progress_ok M p c)
    \<and> (if r = None then se_checkpoint_valid s' \<and> se_checkpoint s' = p \<and> described_by M s' else \<not> se_checkpoint_valid s')"
proof -
  obtain ok s1 calls1 where x: "(if se_prefill_cap s < of_nat (length p) then gpu_graph_prefill_chunked F p (length p) s
      else case gpu_graph_prefill_raw_swa F p (length p) s of (ok, s) \<Rightarrow> (ok, s, [])) = (ok, s1, calls1)" by (metis prod_cases3)
  have u: "unat (of_nat (length p) :: u32) = length p" using small by (simp add: unat_of_nat take_bit_nat_eq_self)
  have r: "settings s1 = settings s \<and> (\<forall>c \<in> set calls1. progress_ok M p c)
    \<and> (ok \<longrightarrow> mn_logits M (se_logits s1) p \<and> mn_rep M (device s1) p)"
  proof (cases "se_prefill_cap s < of_nat (length p)")
    case True
    then have "gpu_graph_prefill_chunked_range F p 0 (of_nat (length p)) s = (ok, s1, calls1)"
      using x p by (simp add: gpu_graph_prefill_chunked_def)
    from prefill_range_sound [OF F small this gpu bk] show ?thesis by (simp add: u)
  next
    case False
    then have "gpu_graph_prefill_raw_swa F p (length p) s = (ok, s1)" "calls1 = []"
      using x by (auto split: prod.splits)
    from prefill_raw_sound [OF F small gpu this(1)] this(2) show ?thesis by simp
  qed
  have gpu1: "\<not> se_cpu s1" using r gpu settings_cpu(1) by metis
  have mtp: "mn_rep M (device s1) p \<Longrightarrow> mn_rep M ((se_graph s1)\<lparr>gg_mtp_n_raw := 0\<rparr>, lv_work s1) p"
    using reset_rep [OF F] by (simp add: device_def)
  have eq: "(r, s', calls) = (if \<not> ok then (Some PrefillFailed, s1\<lparr>se_checkpoint_valid := False\<rparr>, calls1)
      else (None, s1\<lparr>se_checkpoint := p, se_checkpoint_valid := True, se_mtp_draft_valid := False,
                          se_graph := (se_graph s1)\<lparr>gg_mtp_n_raw := 0\<rparr>\<rparr>, calls1))"
    using res unfolding sync_cold_def Let_def x by simp
  then show ?thesis using r gpu1 mtp by (cases ok) (auto simp: described_by_def device_def)
qed

lemma sync_resume_sound:
  assumes F: "forward_sound F M" and small: "length p < 2 ^ 31" and gpu: "\<not> se_cpu s" and bk: "backed M s"
    and ext: "extends s p" and res: "sync_resume F env p s = (r, s', calls)"
  shows "settings s' = settings s \<and> (\<forall>c \<in> set calls. progress_ok M p c)
    \<and> (if r = None then se_checkpoint_valid s' \<and> se_checkpoint s' = p \<and> described_by M s' else \<not> se_checkpoint_valid s')"
proof -
  define s1 where "s1 = s\<lparr>se_mtp_draft_valid := False\<rparr>"
  define c where "c = length (se_checkpoint s)"
  have e: "se_checkpoint_valid s" "c \<le> length p" "take c p = se_checkpoint s" using ext by (simp_all add: extends_def c_def)
  have s1: "\<not> se_cpu s1" "backed M s1" "settings s1 = settings s" "se_checkpoint_valid s1 = se_checkpoint_valid s" "se_checkpoint s1 = se_checkpoint s"
    using gpu bk by (simp_all add: s1_def backed_def described_by_def)
  have uc: "unat (of_nat m :: u32) = m" if "m \<le> length p" for m
    using that small by (simp add: unat_of_nat take_bit_nat_eq_self)
  note eq = res [unfolded sync_resume_def Let_def, folded s1_def, folded c_def]
  have c1: "length (se_checkpoint s1) = c" by (simp add: s1 c_def)
  show ?thesis
  proof (cases "length p - c > 0 \<and> (of_nat (length p - c) :: u32) \<ge> gpu_graph_resume_prefill_min_tokens env")
    case True
    obtain ok s2 calls2 where x: "gpu_graph_prefill_chunked_range F p (of_nat c) (of_nat (length p - c)) s1 = (ok, s2, calls2)" by (metis prod_cases3)
    have r: "settings s2 = settings s" "\<forall>c \<in> set calls2. progress_ok M p c"
      "ok \<Longrightarrow> mn_logits M (se_logits s2) p" "ok \<Longrightarrow> mn_rep M (device s2) p"
      using prefill_range_sound [OF F small x s1(1,2)] s1 e uc [of c] uc [of "length p - c"] by (simp_all del: of_nat_diff)
    have gpu2: "\<not> se_cpu s2" using r(1) gpu settings_cpu(1) by metis
    show ?thesis using eq True r gpu2 by (cases ok) (auto simp: c1 x described_by_def simp del: of_nat_diff)
  next
    case False
    obtain ok s2 where x: "gpu_extend F (drop c p) s1 = (ok, s2)" by (metis surj_pair)
    have h: "described_by M s1" "se_checkpoint s1 @ drop c p = p"
      using s1 e(1) append_take_drop_id [of c p] unfolding e(3) backed_def by simp_all
    have "settings s2 = settings s1 \<and> (if ok then se_checkpoint_valid s2 \<and> described_by M s2 \<and> se_checkpoint s2 = p else \<not> se_checkpoint_valid s2)"
      by (rule gpu_extend_sound [OF F x s1(1) _ h small]) (use s1(4) e(1) in simp)
    then show ?thesis using eq [unfolded c1 if_not_P [OF False] x prod.case] s1(3) by (cases ok) auto
  qed
qed

lemma sync_cpu_sound:
  assumes F: "forward_sound F M" and small: "length p < 2 ^ 31" and cpu: "se_cpu s" and bk: "backed M s" and p: "p \<noteq> []"
    and res: "sync_cpu F p s = (r, s', calls)"
  shows "settings s' = settings s \<and> (\<forall>c \<in> set calls. progress_ok M p c)
    \<and> r = None \<and> se_checkpoint_valid s' \<and> se_checkpoint s' = p \<and> described_by M s'"
proof (cases "extends s p")
  case True
  define s1 where "s1 = s\<lparr>se_mtp_draft_valid := False\<rparr>"
  define c where "c = length (se_checkpoint s)"
  have e: "se_checkpoint_valid s" "c \<le> length p" "take c p = se_checkpoint s" using True by (simp_all add: extends_def c_def)
  obtain s2 calls2 where x: "cpu_extend F (drop c p) s1 [] = (s2, calls2)" by (metis surj_pair)
  have h: "se_cpu s1" "se_checkpoint_valid s1" "described_by M s1" "se_checkpoint s1 @ drop c p = p"
    using e(1) cpu bk append_take_drop_id [of c p] unfolding e(3) by (simp_all add: s1_def backed_def described_by_def)
  have "settings s2 = settings s1 \<and> described_by M s2 \<and> se_checkpoint s2 = p \<and> (\<forall>c \<in> set calls2. progress_ok M p c)"
    by (rule cpu_extend_sound [OF F x h small]) simp
  then show ?thesis using res True x by (auto simp: sync_cpu_def s1_def c_def described_by_def)
next
  case False
  define s0 where "s0 = session_cpu_reset_cache s"
  define x where "x = fw_cpu_prefill F (host s0) p"
  define s1 where "s1 = (set_host (snd x) s0)\<lparr>se_logits := fst x, se_checkpoint := p, se_checkpoint_valid := True, se_mtp_draft_valid := False\<rparr>"
  have "mn_logits M (fst x) p \<and> mn_host M (snd x) p"
    using cpu_prefill [OF F p] by (simp add: x_def s0_def session_cpu_reset_cache_def host_def)
  then have s1: "se_checkpoint_valid s1" "se_checkpoint s1 = p" "described_by M s1" "settings s1 = settings s"
    using cpu by (simp_all add: s1_def s0_def described_by_def session_cpu_reset_cache_def)
  moreover have "sync_cpu F p s = (None, s1, if lv_progress s1 then [(length p, s1)] else [])"
    using False unfolding sync_cpu_def s1_def x_def s0_def Let_def by (simp only: if_False)
  then have "r = None" "s' = s1" "calls = (if lv_progress s1 then [(length p, s1)] else [])" using res by simp_all
  ultimately show ?thesis by (auto simp: progress_ok_def backed_def)
qed

lemma session_sync_result:
  assumes F: "forward_sound F M" and bk: "backed M s" and res: "ds4_session_sync F env p s = (r, s', calls)"
  shows "settings s' = settings s \<and> (\<forall>c \<in> set calls. progress_ok M p c)
    \<and> (if r = None then se_checkpoint_valid s' \<and> se_checkpoint s' = p \<and> described_by M s'
       else if r = Some ExceedsContext then s' = s \<and> calls = [] else \<not> se_checkpoint_valid s')"
proof (cases "p = [] \<or> int (length p) \<ge> sint (se_ctx_size s)")
  case True
  then show ?thesis using res by (auto simp: ds4_session_sync_def)
next
  case False
  have "sint (se_ctx_size s) < 2 ^ 31" using sint_lt [of "se_ctx_size s"] by simp
  then have small: "length p < 2 ^ 31" using False by simp
  consider (cpu) "se_cpu s" | (resume) "\<not> se_cpu s" "extends s p" | (cold) "\<not> se_cpu s" "\<not> extends s p" by blast
  then show ?thesis
  proof cases
    case cpu
    from sync_cpu_sound [OF F small cpu bk, of r s' calls] False res cpu show ?thesis by (simp add: ds4_session_sync_def)
  next
    case resume
    then have x: "sync_resume F env p s = (r, s', calls)" using res False by (simp add: ds4_session_sync_def)
    then have "r \<noteq> Some ExceedsContext" by (auto simp: sync_resume_def Let_def split: if_splits prod.splits)
    with sync_resume_sound [OF F small resume(1) bk resume(2) x] show ?thesis by (simp split: if_splits)
  next
    case cold
    then have x: "sync_cold F p s = (r, s', calls)" using res False by (simp add: ds4_session_sync_def)
    then have "r \<noteq> Some ExceedsContext" by (auto simp: sync_cold_def Let_def split: if_splits prod.splits)
    with sync_cold_sound [OF F small cold(1) bk _ x] False show ?thesis by (simp split: if_splits)
  qed
qed

lemma sync_error_kind:
  assumes "ds4_session_sync F env p s = (r, s', calls)"
  shows "r \<noteq> Some UnexpectedState"
  using assms
  by (auto simp: ds4_session_sync_def sync_cpu_def sync_resume_def sync_cold_def Let_def split: if_splits prod.splits)

text \<open>Claim C31. Syncing a session whose checkpoint, if valid, describes the backend: on success the checkpoint is
  valid and exactly the prompt, and the backend state and the logits are those of the prompt, whichever of the five paths was taken; on a failure
  after the size check the checkpoint is no longer valid, and a refused prompt changes nothing.  Every call of the progress
  function sees a session that can be saved: its checkpoint is the announced prefix of the prompt and describes the backend at
  that moment.\<close>

theorem session_sync_sound:
  assumes F: "forward_sound F M" and bk: "backed M s" and res: "ds4_session_sync F env p s = (r, s', calls)"
  shows "(if r = None then se_checkpoint_valid s' \<and> se_checkpoint s' = p \<and> described_by M s'
       else if r = Some ExceedsContext then s' = s \<and> calls = [] else \<not> se_checkpoint_valid s')
    \<and> (\<forall>(current, seen) \<in> set calls. current \<le> length p \<and> backed M seen
         \<and> (current = 0 \<or> se_checkpoint_valid seen \<and> se_checkpoint seen = take current p))"
  using session_sync_result [OF F bk res] by (auto simp: progress_ok_def)

subsection \<open>Where a prefill cuts\<close>

lemma next_chunk_cut:
  assumes "pos < stop" "pc \<noteq> 0" and aligned: "start \<noteq> 0 \<or> unat pc dvd unat pos"
  defines "c \<equiv> unat pos + unat (next_chunk pc pc start stop pos)"
  shows "unat pc dvd c \<or> c = unat stop" "unat pos < d \<Longrightarrow> d < c \<Longrightarrow> \<not> unat pc dvd d"
proof -
  define m where "m = unat pos mod unat pc"
  have pc: "0 < unat pc" using assms(2) by (simp add: unat_gt_0)
  have m: "m < unat pc" using pc by (simp add: m_def)
  have "unat (to_boundary pc start pos pc) = unat pc - m"
  proof (cases "pos mod pc = 0")
    case True
    then have "m = 0" by (metis m_def unat_0 unat_mod)
    then show ?thesis using True by (simp add: to_boundary_def)
  next
    case False
    then have "m \<noteq> 0" by (metis m_def unat_mod unat_eq_0)
    then have s: "start \<noteq> 0" using aligned by (auto simp: m_def dvd_eq_mod_eq_0)
    have le: "pos mod pc \<le> pc" using m by (simp add: word_le_nat_alt unat_mod m_def)
    have u: "unat (pc - pos mod pc) = unat pc - m" using unat_sub [OF le] by (simp add: unat_mod m_def)
    then have "pc - pos mod pc < pc" using \<open>m \<noteq> 0\<close> pc by (simp add: word_less_nat_alt)
    then show ?thesis using s False assms(2) u by (simp add: to_boundary_def)
  qed
  moreover have "unat (stop - pos) = unat stop - unat pos" "unat pos < unat stop"
    using assms(1) by (simp_all add: unat_sub word_less_nat_alt order.strict_implies_order)
  ultimately have c: "c = unat pos + min (unat stop - unat pos) (unat pc - m)" "unat pos < unat stop"
    by (auto simp: c_def next_chunk_def Let_def word_less_nat_alt)
  have e: "unat pos + (unat pc - m) = (unat pos div unat pc + 1) * unat pc"
    using m div_mult_mod_eq [of "unat pos" "unat pc", folded m_def] by (simp add: add_mult_distrib)
  show "unat pc dvd c \<or> c = unat stop"
  proof (cases "unat stop - unat pos \<le> unat pc - m")
    case True
    then show ?thesis using c by (simp add: min_def)
  next
    case False
    then have "c = (unat pos div unat pc + 1) * unat pc" using c(1) e by (simp add: min_def)
    then show ?thesis by simp
  qed
  show "\<not> unat pc dvd d" if "unat pos < d" "d < c"
  proof
    assume "unat pc dvd d"
    then obtain j where j: "d = j * unat pc" by (metis dvd_def mult.commute)
    have "d < (unat pos div unat pc + 1) * unat pc" using that(2) c(1) e by linarith
    then have "j < unat pos div unat pc + 1" using j mult_less_cancel2 by metis
    then have "j * unat pc \<le> unat pos div unat pc * unat pc" by simp
    then show False using that(1) j by (meson div_times_less_eq_dividend leD order_trans)
  qed
qed

lemma filter_first:
  assumes "pos < c" "c \<le> (stop :: nat)" "P c" "\<And>d. pos < d \<Longrightarrow> d < c \<Longrightarrow> \<not> P d"
  shows "filter P [pos + 1..<stop + 1] = c # filter P [c + 1..<stop + 1]"
proof -
  have "[pos + 1..<stop + 1] = [pos + 1..<c] @ c # [c + 1..<stop + 1]"
    using assms(1,2) upt_add_eq_append [of "pos + 1" c "stop + 1 - c"] upt_conv_Cons [of c "stop + 1"] by simp
  moreover have "filter P [pos + 1..<c] = []" using assms(4) by (simp add: filter_empty_conv)
  ultimately show ?thesis using assms(3) by simp
qed

lemma prefill_chunks_cuts:
  assumes pc: "pc \<noteq> 0"
  shows "prefill_chunks k F p pc start stop pos final s calls = (True, final', s', calls')
    \<Longrightarrow> se_prefill_cap s = pc \<Longrightarrow> lv_progress s \<Longrightarrow> pos \<le> stop \<Longrightarrow> start \<noteq> 0 \<or> unat pc dvd unat pos
    \<Longrightarrow> map fst calls' = map fst calls @ filter (\<lambda>c. unat pc dvd c \<or> c = unat stop) [unat pos + 1..<unat stop + 1]"
proof (induction k arbitrary: pos final s calls)
  case 0
  then show ?case by simp
next
  case (Suc k)
  show ?case
  proof (cases "pos < stop")
    case False
    then have "pos = stop" using Suc.prems(4) by simp
    with Suc.prems show ?thesis by simp
  next
    case True
    define n where "n = next_chunk pc pc start stop pos"
    note nb = next_chunk_bounds [OF True pc, of pc start, folded n_def]
    note cut = next_chunk_cut [OF True pc Suc.prems(5), folded n_def]
    obtain b d where x: "run_chunk F p pos n (device s) = (b, d)" by (metis surj_pair)
    note eq = Suc.prems(1) [unfolded prefill_chunks.simps Let_def Suc.prems(2), folded n_def, unfolded x fst_conv snd_conv]
    have b: "b" using eq True by (cases b) auto
    obtain o1 d1 where out: "fw_output_row F d (n - 1) = (o1, d1)" by (metis surj_pair)
    obtain l where o1: "o1 = Some l" using eq True b Suc.prems(3) out by (cases o1) auto
    define s2 where "s2 = note_prefill_progress p (unat (pos + n)) ((set_device d1 (set_device d s))\<lparr>se_logits := l\<rparr>)"
    have rest: "prefill_chunks k F p pc start stop (pos + n) n s2 (calls @ [(unat (pos + n), s2)]) = (True, final', s', calls')"
      using eq True b Suc.prems(3) out o1 by (simp add: s2_def)
    have f: "se_prefill_cap s2 = pc" "lv_progress s2" using Suc.prems(2,3) by (simp_all add: s2_def)
    show ?thesis
    proof (cases "start \<noteq> 0 \<or> unat pc dvd unat pos + unat n")
      case al: True
      have "map fst calls' = map fst (calls @ [(unat (pos + n), s2)]) @ filter (\<lambda>c. unat pc dvd c \<or> c = unat stop) [unat (pos + n) + 1..<unat stop + 1]"
        by (rule Suc.IH [OF rest f]) (use al nb in \<open>auto simp: word_le_nat_alt\<close>)
      then show ?thesis
        using filter_first [of "unat pos" "unat pos + unat n" "unat stop" "\<lambda>c. unat pc dvd c \<or> c = unat stop"] cut nb by (simp add: nb(3))
    next
      case False
      then have "pos + n = stop" using cut(1) nb(3) by (simp add: word_unat_eq_iff)
      then have "calls' = calls @ [(unat stop, s2)]" using rest by (cases k) auto
      then show ?thesis
        using filter_first [of "unat pos" "unat pos + unat n" "unat stop" "\<lambda>c. unat pc dvd c \<or> c = unat stop"] cut nb \<open>pos + n = stop\<close> by simp
    qed
  qed
qed

text \<open>Claim C32. A chunked prefill that succeeds reports its start, then every multiple of the prefill size inside the range, then
  its end.  So a resumed prefill cuts the rest of the prompt exactly where a cold prefill of the whole prompt
  does, wherever the checkpoint ended, as long as the raw ring is not smaller than a chunk.\<close>

theorem prefill_cut_points:
  assumes res: "gpu_graph_prefill_chunked_range F p start n s = (True, s', calls)" and small: "length p < 2 ^ 31"
    and pr: "lv_progress s" and ring: "start = 0 \<or> se_prefill_cap s \<le> gg_raw_cap (se_graph s)"
  shows "map fst calls = unat start # filter (\<lambda>c. unat (se_prefill_cap s) dvd c \<or> c = unat start + unat n)
    [unat start + 1..<unat start + unat n + 1]"
proof -
  define pc where "pc = se_prefill_cap s"
  have refused: "\<not> (n = 0 \<or> se_prefill_cap s = 0 \<or> start > of_nat (length p) \<or> n > of_nat (length p) - start
      \<or> range_chunk_cap (se_prefill_cap s) (gg_raw_cap (se_graph s)) start = 0)"
    using prefill_range_refused [of n s p start F] res by auto
  have cc: "range_chunk_cap pc (gg_raw_cap (se_graph s)) start = pc" "pc \<noteq> 0"
    using ring refused by (auto simp: range_chunk_cap_def pc_def)
  have u: "unat (of_nat (length p) :: u32) = length p" using small by (simp add: unat_of_nat take_bit_nat_eq_self)
  then have le: "unat start \<le> length p" "unat (of_nat (length p) - start) = length p - unat start"
    using refused by (simp_all add: word_less_nat_alt unat_sub word_le_nat_alt)
  then have "unat n \<le> length p - unat start" using refused by (simp add: word_less_nat_alt)
  then have stop: "unat (start + n) = unat start + unat n"
    using le small by (simp add: unat_word_ariths(1))
  obtain b d where x: "fw_warmup F (device s) (to_boundary pc start start (if n < pc then n else pc)) = (b, d)" by (metis surj_pair)
  define s2 where "s2 = note_prefill_progress p (unat start) (set_device d s)"
  obtain ok final s3 calls3 where c: "prefill_chunks (Suc (unat n)) F p pc start (start + n) start 0 s2 [(unat start, s2)] = (ok, final, s3, calls3)"
    by (metis prod_cases4)
  have b: "b" using res refused x unfolding gpu_graph_prefill_chunked_range_def Let_def pc_def [symmetric] cc(1) by (cases b) auto
  have "ok \<and> calls3 = calls"
    using res refused b pr c unfolding gpu_graph_prefill_chunked_range_def Let_def pc_def [symmetric] cc(1) x
    by (auto simp: s2_def split: if_splits option.splits prod.splits)
  moreover have "start \<noteq> 0 \<or> unat pc dvd unat start" "start \<le> start + n" using stop by (auto simp: word_le_nat_alt)
  ultimately have "map fst calls = map fst [(unat start, s2)] @ filter (\<lambda>c. unat pc dvd c \<or> c = unat (start + n)) [unat start + 1..<unat (start + n) + 1]"
    using prefill_chunks_cuts [OF cc(2), where calls = "[(unat start, s2)]" and s = s2] c pr
    by (simp add: s2_def pc_def del: prefill_chunks.simps)
  then show ?thesis by (simp add: stop pc_def)
qed

text \<open>The sizes of a new session with chunks of at most 8192 tokens satisfy this: the ring holds a whole chunk.\<close>

lemma ring_holds_chunk:
  assumes ctx: "0 < ctx" "ctx < 2 ^ 31" and chunk: "ds4_default_prefill_cap_for_prompt env ctx \<le> 8192"
  shows "ds4_default_prefill_cap_for_prompt env ctx \<le> gpu_graph_raw_cap_for_context None (word_of_int ctx) (ds4_default_prefill_cap_for_prompt env ctx)"
proof -
  define c where "c = (word_of_int ctx :: u32)"
  define pc where "pc = ds4_default_prefill_cap_for_prompt env ctx"
  have pc: "pc \<le> c" "pc \<le> 8192"
    using ctx chunk by (auto simp: pc_def c_def ds4_default_prefill_cap_for_prompt_def Let_def not_less split: option.splits if_splits)
  define w where "w = (let raw_window = ucast DS4_N_SWA;
          raw_window = (if raw_window > c then c else raw_window);
          raw_window = (if raw_window = 0 then 1 else raw_window) in raw_window :: u32)"
  define a where "a = (let wanted = (ucast w :: u64) + ucast pc;
          wanted = (if wanted > ucast c then ucast c else wanted) in (if wanted = 0 then 1 else wanted))"
  have uc: "unat (ucast x :: u64) = unat x" for x :: u32
    using unat_u32_bound [of x] by (simp add: unsigned_ucast_eq take_bit_nat_eq_self del: unat_u32_bound)
  have "unat (ucast w + ucast pc :: u64) = unat w + unat pc"
    using unat_u32_bound [of w] unat_u32_bound [of pc] by (simp add: unat_word_ariths(1) uc del: unat_u32_bound)
  then have "unat a = (if min (unat w + unat pc) (unat c) = 0 then 1 else min (unat w + unat pc) (unat c))"
    by (simp add: a_def Let_def word_less_nat_alt uc min_def word_unat_eq_iff [of _ "0 :: u64"])
  then have a: "unat pc \<le> unat a" "unat a \<le> 2 ^ 33"
    using pc(1) unat_u32_bound [of c] by (auto simp: word_le_nat_alt simp del: unat_u32_bound)
  have al: "unat a \<le> unat (align_up a 256)" by (rule align_up_correct) (use a in simp_all)
  have "ucast (if align_up a 256 > 8192 then 8192 else align_up a 256) \<ge> pc"
  proof (cases "align_up a 256 > 8192")
    case False
    then have "unat (align_up a 256) \<le> 8192" by (simp add: not_less word_le_nat_alt)
    then have "unat (ucast (align_up a 256) :: u32) = unat (align_up a 256)" by (simp add: unsigned_ucast_eq take_bit_nat_eq_self)
    then show ?thesis using False al a by (simp add: word_le_nat_alt)
  qed (use pc in simp)
  then show ?thesis
    unfolding pc_def [symmetric] c_def [symmetric] gpu_graph_raw_cap_for_context_def option.case
      Let_def w_def [unfolded Let_def, symmetric] a_def [unfolded Let_def, symmetric]
    using pc(2) by (cases "align_up a 256 > 8192") (auto dest: order.strict_implies_order intro: order_trans)
qed

subsection \<open>Eval, rewriting and rewinding\<close>

text \<open>Claim C33. Evaluating one token on a session with a described checkpoint: on success the checkpoint is longer by exactly that
  token and still describes the backend, whether or not a draft was made; on a failure it is no longer valid.\<close>

theorem session_eval_sound:
  assumes F: "forward_sound F M" and bk: "backed M s" and v: "se_checkpoint_valid s" and len: "length (se_checkpoint s) < 2 ^ 31"
    and res: "ds4_session_eval F mc tok s = (r, s')"
  shows "case r of None \<Rightarrow> se_checkpoint_valid s' \<and> se_checkpoint s' = se_checkpoint s @ [tok] \<and> described_by M s' | Some e \<Rightarrow> \<not> se_checkpoint_valid s'"
proof (cases "se_cpu s")
  case True
  then show ?thesis
    using res cpu_decode [OF F len, of "host s" tok] bk v
    by (auto simp: ds4_session_eval_def ds4_session_eval_internal_def Let_def described_by_def backed_def)
next
  case gpu: False
  define s1 where "s1 = (if se_mtp_draft_valid s
      then (if mc_probe_log mc
            then s\<lparr>lv_mtp_probe_total := lv_mtp_probe_total s + 1,
                   lv_mtp_probe_hit := (if lv_mtp_draft_token s = tok then lv_mtp_probe_hit s + 1 else lv_mtp_probe_hit s)\<rparr>
            else s)\<lparr>se_mtp_draft_valid := False\<rparr>
      else s)"
  have s1: "device s1 = device s" "se_checkpoint s1 = se_checkpoint s" "\<not> se_cpu s1" "se_checkpoint_valid s1"
    using gpu v by (simp_all add: s1_def device_def)
  obtain o1 d where x: "fw_eval_token F (device s) tok (of_nat (length (se_checkpoint s))) = (o1, d)" by (metis surj_pair)
  define should where "should = (mc_ready mc \<and> lv_mtp_logits s \<noteq> None \<and> (mc_draft_tokens mc > 1 \<or> mc_probe_log mc))"
  note eq = res [unfolded ds4_session_eval_def ds4_session_eval_internal_def Let_def if_not_P [OF gpu] simp_thms,
    folded s1_def, folded should_def, unfolded s1 x prod.case]
  show ?thesis
  proof (cases o1)
    case None
    then show ?thesis using eq by auto
  next
    case (Some l)
    define s2 where "s2 = (set_device d s1)\<lparr>se_logits := l, se_checkpoint := se_checkpoint s @ [tok]\<rparr>"
    have h: "mn_logits M l (se_checkpoint s @ [tok]) \<and> mn_rep M d (se_checkpoint s @ [tok])"
      by (rule eval_token [OF F len _ x [unfolded Some]]) (use bk v gpu in \<open>simp add: backed_def described_by_def\<close>)
    have s2: "described_by M s2" "se_checkpoint s2 = se_checkpoint s @ [tok]" "se_checkpoint_valid s2" "\<not> se_cpu s2"
      using h s1 by (simp_all add: s2_def described_by_def)
    define y where "y = fw_mtp_draft F (device s2) tok (of_nat (length (se_checkpoint s2) - 1)) (mc_full_logits mc)"
    have y: "mn_rep M (snd y) (se_checkpoint s @ [tok])"
      unfolding y_def by (rule draft_rep [OF F]) (use s2 in \<open>simp add: described_by_def\<close>)
    obtain o2 d2 where y2: "y = (o2, d2)" by (metis surj_pair)
    show ?thesis
    proof (cases should)
      case False
      then show ?thesis using eq Some s2 by (auto simp: s2_def)
    next
      case True
      then show ?thesis
        using eq [unfolded Some option.case, folded s2_def, folded y_def, unfolded y2] s2 y y2
        by (cases o2) (auto simp: described_by_def)
    qed
  qed
qed

lemma rebuild_iff:
  "ds4_session_rewrite_requires_rebuild live canonical common \<longleftrightarrow> \<not> (0 \<le> live \<and> common = live \<and> live \<le> canonical)"
  by (auto simp: ds4_session_rewrite_requires_rebuild_def)

text \<open>A canonical prompt is taken over in place exactly when the shared prefix is the whole live checkpoint; a shorter
  prefix leaves the session untouched and asks for a rebuild, and the last branch of the code is never reached.\<close>

theorem session_rewrite_outcome:
  assumes F: "forward_sound F M" and bk: "backed M s" and res: "ds4_session_rewrite_from_common F env p common s = (r, s', calls)"
  shows "r = RewriteOk \<Longrightarrow> common = int (length (se_checkpoint s)) \<and> extends s p \<and> se_checkpoint_valid s' \<and> se_checkpoint s' = p \<and> described_by M s'"
    "r = RewriteRebuildNeeded \<Longrightarrow> s' = s \<and> 0 \<le> common \<and> common < int (length (se_checkpoint s)) \<and> take (nat common) p = take (nat common) (se_checkpoint s)"
    "r \<noteq> RewriteError UnexpectedState"
    "backed M s'"
proof -
  have eqp: "take k p = take k (se_checkpoint s)" if "\<not> (\<exists>i < k. se_checkpoint s ! i \<noteq> p ! i)" "k \<le> length p" "k \<le> length (se_checkpoint s)" for k
    using that by (auto intro!: nth_equalityI)
  obtain r1 s1 c1 where y: "ds4_session_sync F env p s = (r1, s1, c1)" by (metis prod_cases3)
  note y1 = session_sync_result [OF F bk y]
  note eq = res [unfolded ds4_session_rewrite_from_common_def y prod.case]
  show "r = RewriteOk \<Longrightarrow> common = int (length (se_checkpoint s)) \<and> extends s p \<and> se_checkpoint_valid s' \<and> se_checkpoint s' = p \<and> described_by M s'"
    using eq y1 eqp [of "length (se_checkpoint s)"] by (auto simp: extends_def split: if_splits option.splits)
  show "r = RewriteRebuildNeeded \<Longrightarrow> s' = s \<and> 0 \<le> common \<and> common < int (length (se_checkpoint s)) \<and> take (nat common) p = take (nat common) (se_checkpoint s)"
    using eq eqp [of "nat common"] by (auto simp: rebuild_iff split: if_splits option.splits)
  show "r \<noteq> RewriteError UnexpectedState"
    using eq sync_error_kind [OF y] by (auto simp: rebuild_iff split: if_splits option.splits)
  show "backed M s'" using eq y1 bk by (auto simp: backed_def split: if_splits option.splits)
qed

text \<open>Claim C34. Rewinding only shortens the token list.  On the device backend the state still covers the dropped tokens: if a state can
  belong to one token list only, then rewinding a described checkpoint leaves a checkpoint that claims to be valid and
  describes nothing, which the next sync would extend.\<close>

theorem session_rewind_stale:
  assumes one: "\<And>d t t'. mn_rep M d t \<Longrightarrow> mn_rep M d t' \<Longrightarrow> t = t'"
    and gpu: "\<not> se_cpu s" and v: "se_checkpoint_valid s" and bk: "backed M s" and pos: "pos < int (length (se_checkpoint s))" "se_checkpoint s \<noteq> []"
  shows "se_checkpoint_valid (ds4_session_rewind pos s) \<and> \<not> backed M (ds4_session_rewind pos s)"
proof -
  define t where "t = take (nat (if pos < 0 then 0 else pos)) (se_checkpoint s)"
  have r: "ds4_session_rewind pos s = s\<lparr>se_checkpoint := t, se_mtp_draft_valid := False\<rparr>"
    using pos by (auto simp: ds4_session_rewind_def Let_def t_def)
  have "length t < length (se_checkpoint s)" using pos by (auto simp: t_def)
  then have "t \<noteq> se_checkpoint s" by auto
  moreover have "mn_rep M (device s) (se_checkpoint s)" using bk v gpu by (simp add: backed_def described_by_def)
  ultimately have "\<not> mn_rep M (device s) t" using one by blast
  then show "se_checkpoint_valid (ds4_session_rewind pos s) \<and> \<not> backed M (ds4_session_rewind pos s)"
    using v gpu by (simp add: r backed_def described_by_def)
qed

lemma invalidate_backed [simp]: "backed M (ds4_session_invalidate s)"
  by (simp add: ds4_session_invalidate_def backed_def)

lemma common_from_take: "take (common_from xs ys) ys = take (common_from xs ys) xs" "common_from xs ys \<le> length xs" "common_from xs ys \<le> length ys"
  by (induction xs ys rule: common_from.induct) auto

lemma common_from_maximal: "common_from xs ys < length xs \<Longrightarrow> common_from xs ys < length ys \<Longrightarrow> xs ! common_from xs ys \<noteq> ys ! common_from xs ys"
  by (induction xs ys rule: common_from.induct) auto

lemma extends_iff_common: "extends s p \<longleftrightarrow> se_checkpoint_valid s \<and> ds4_session_common_prefix s p = length (se_checkpoint s)"
proof -
  let ?c = "common_from (se_checkpoint s) p"
  have "?c = length (se_checkpoint s)" if "length (se_checkpoint s) \<le> length p" "take (length (se_checkpoint s)) p = se_checkpoint s"
  proof (rule ccontr)
    assume "?c \<noteq> length (se_checkpoint s)"
    then have c: "?c < length (se_checkpoint s)" using common_from_take(2) [of "se_checkpoint s" p] by simp
    have "se_checkpoint s ! ?c = p ! ?c" using c arg_cong [OF that(2), of "\<lambda>x. x ! ?c"] by simp
    then show False using common_from_maximal [OF c] c that(1) by simp
  qed
  then show ?thesis
    using common_from_take [of "se_checkpoint s" p] by (auto simp: extends_def ds4_session_common_prefix_def)
qed

section \<open>Restoring a saved checkpoint\<close>

text \<open>What the device holds for a token list: the counts, the live rows at their positions, the compressed rows and the
  partial windows of every layer.\<close>

definition live_range :: "ds4_gpu_graph \<Rightarrow> tokens \<Rightarrow> nat list" where
  "live_range g t =
     (let n = of_nat (length t); live = session_raw_live_rows g n
      in [unat (n - live)..<unat (n - live) + unat live])"

definition device_content :: "turbo_kernels \<Rightarrow> ds4_gpu_graph \<Rightarrow> tokens \<Rightarrow> u32 list \<times> u32 list \<times> byte list list list" where
  "device_content k g t =
     (map gl_n_comp (gg_layer g), map gl_n_index_comp (gg_layer g), map (layer_content k g (live_range g t)) [0..<DS4_N_LAYER])"

lemma live_positions_range: "live_positions s = live_range (se_graph s) (se_checkpoint s)"
  by (simp add: live_positions_def live_range_def)

lemma same_device_content:
  assumes "same_content k k' s s2" "live_positions s2 = live_positions s" "se_checkpoint s2 = se_checkpoint s"
  shows "device_content k' (se_graph s2) (se_checkpoint s) = device_content k (se_graph s) (se_checkpoint s)"
proof -
  have r: "live_range (se_graph s2) (se_checkpoint s) = live_positions s"
    using assms(2,3) by (simp add: live_positions_range)
  have "map (layer_content k' (se_graph s2) (live_positions s)) [0..<DS4_N_LAYER]
      = map (layer_content k (se_graph s) (live_positions s)) [0..<DS4_N_LAYER]"
    using assms(1) by (intro map_cong) (simp_all add: same_content_def Let_def)
  then show ?thesis
    using assms(1) r by (simp add: device_content_def live_positions_range [of s] same_content_def Let_def)
qed

text \<open>The device state means a token list through this content alone: not through the size of the ring, the
  place of a row in it, or the scratch tensors.\<close>

definition content_matters :: "'w meaning \<Rightarrow> turbo_kernels \<Rightarrow> turbo_kernels \<Rightarrow> bool" where
  "content_matters M k k' \<longleftrightarrow>
     (\<forall>g g2 w w2 t. device_content k' g2 t = device_content k g t \<longrightarrow> mn_rep M (g, w) t \<longrightarrow> mn_rep M (g2, w2) t)"

lemma truncate_fields [simp]:
  "se_checkpoint (ds4_session.truncate s) = se_checkpoint s" "se_checkpoint_valid (ds4_session.truncate s) = se_checkpoint_valid s"
  "se_graph (ds4_session.truncate s) = se_graph s" "se_logits (ds4_session.truncate s) = se_logits s" "se_cpu (ds4_session.truncate s) = se_cpu s"
  by (simp_all add: ds4_session.truncate_def)

lemma extend_fields [simp]:
  "se_checkpoint (ds4_session.extend s2 m) = se_checkpoint s2" "se_checkpoint_valid (ds4_session.extend s2 m) = se_checkpoint_valid s2"
  "se_graph (ds4_session.extend s2 m) = se_graph s2" "se_logits (ds4_session.extend s2 m) = se_logits s2" "se_cpu (ds4_session.extend s2 m) = se_cpu s2"
  "se_ctx_size (ds4_session.extend s2 m) = se_ctx_size s2"
  by (simp_all add: ds4_session.extend_def)

text \<open>Claim C35. What one session saved can be continued by another: the payload of a device session, loaded into a device session
  with the same prefill chunk and raw window and at least as much room (\<open>gpu_compatible\<close>) that keeps the rows it is
  handed (\<open>keeps_rows\<close>: it does not pack them, or its kernels reproduce them), gives a session whose valid checkpoint is
  the saved token list, with the saved logits and the saved content of the device.  So under every meaning of the
  device state that rests on this content alone (\<open>content_matters\<close>) the loaded session is described by its checkpoint
  when the saved one was; and a sync with a longer prompt takes the resume path, never a cold prefill.\<close>

theorem restored_session_resumes:
  assumes ok: "gpu_session_ok (ds4_session.truncate s)" and ok': "gpu_session_ok (ds4_session.truncate s')"
    and compat: "gpu_compatible (ds4_session.truncate s) (ds4_session.truncate s')"
    and keeps: "keeps_rows k k' (ds4_session.truncate s) (ds4_session.truncate s')"
    and small: "length (se_checkpoint s) < 2 ^ 32" and saved: "written (save_payload k (ds4_session.truncate s)) = Some bytes"
  shows "\<exists>s2. live_load k' s' (bytes @ rest) (ds4_session_payload_bytes (ds4_session.truncate s)) = Some s2
    \<and> se_checkpoint_valid s2 \<and> se_checkpoint s2 = se_checkpoint s \<and> se_logits s2 = se_logits s
    \<and> device_content k' (se_graph s2) (se_checkpoint s) = device_content k (se_graph s) (se_checkpoint s)
    \<and> (\<forall>M. content_matters M k k' \<longrightarrow> backed M s \<longrightarrow> backed M s2)
    \<and> (\<forall>more_tokens. int (length (se_checkpoint s @ more_tokens)) < sint (se_ctx_size s2) \<and> se_checkpoint s @ more_tokens \<noteq> []
         \<longrightarrow> ds4_session_sync F env (se_checkpoint s @ more_tokens) s2 = sync_resume F env (se_checkpoint s @ more_tokens) s2)"
proof -
  have gpu: "\<not> se_cpu s" "\<not> se_cpu s'" using ok ok' by (simp_all add: gpu_session_ok_def)
  have v: "se_checkpoint_valid s" using save_payload_cases(1) [OF ok saved] by simp
  obtain t2 where t2: "ds4_session_load_payload k' (ds4_session.truncate s') (bytes @ rest) (ds4_session_payload_bytes (ds4_session.truncate s)) = Loaded t2 rest"
    "se_checkpoint_valid t2" "se_checkpoint t2 = se_checkpoint s" "se_logits t2 = se_logits s" "same_content k k' (ds4_session.truncate s) t2"
    and pos: "live_positions t2 = live_positions (ds4_session.truncate s)" and cpu2: "\<not> se_cpu t2"
    using session_payload_loads [OF ok ok' compat keeps _ saved, of rest] small gpu by auto
  define s2 where "s2 = ds4_session.extend t2 (ds4_session.more s')"
  have s2: "se_checkpoint_valid s2" "se_checkpoint s2 = se_checkpoint s" "\<not> se_cpu s2" "se_logits s2 = se_logits s" "se_graph s2 = se_graph t2"
    using t2 cpu2 by (simp_all add: s2_def)
  have content: "device_content k' (se_graph s2) (se_checkpoint s) = device_content k (se_graph s) (se_checkpoint s)"
    using same_device_content [OF t2(5) pos] t2(3) s2(5) by simp
  have described: "backed M s2" if "content_matters M k k'" "backed M s" for M
  proof -
    have "mn_rep M (se_graph s, lv_work s) (se_checkpoint s)" "mn_logits M (se_logits s) (se_checkpoint s)"
      using that(2) v gpu by (simp_all add: backed_def described_by_def device_def)
    moreover from this have "mn_rep M (se_graph s2, lv_work s2) (se_checkpoint s)"
      using that(1) content unfolding content_matters_def by blast
    ultimately show ?thesis using s2 by (simp add: backed_def described_by_def device_def)
  qed
  have "extends s2 (se_checkpoint s @ more_tokens)" for more_tokens using s2 by (simp add: extends_def)
  then show ?thesis using t2(1) s2 content described
    by (intro exI [of _ s2]) (auto simp: live_load_def s2_def [symmetric] ds4_session_sync_def)
qed

section \<open>Samples\<close>

text \<open>A backend that keeps the tokens themselves: those evaluated, and those of the range being uploaded.\<close>

definition echo_forward :: "(tokens \<times> tokens) forward" where
  "echo_forward =
     \<lparr>fw_warmup = (\<lambda>d n. (True, d)),
      fw_upload_tokens = (\<lambda>d p pos n. (True, (fst d, (fst (snd d), take (unat n) (drop (unat pos) p))))),
      fw_upload_embeddings = (\<lambda>d p pos n. (True, d)),
      fw_layer_batch = (\<lambda>d il pos n. (True, if Suc il = DS4_N_LAYER then (fst d, (take (unat pos) (fst (snd d)) @ snd (snd d), snd (snd d))) else d)),
      fw_output_row = (\<lambda>d r. (Some (map ucast (fst (snd d))), d)),
      fw_eval_token = (\<lambda>d t pos. (Some (map ucast (fst (snd d) @ [t])), (fst d, (fst (snd d) @ [t], snd (snd d))))),
      fw_mtp_draft = (\<lambda>d t pos full. (None, d)),
      fw_argmax = (\<lambda>l. 0),
      fw_cpu_decode = (\<lambda>h t pos. (map ucast (fst (snd h) @ [t]), (fst h, (fst (snd h) @ [t], snd (snd h))))),
      fw_cpu_prefill = (\<lambda>h p. (map ucast p, (fst h, (p, snd (snd h)))))\<rparr>"

definition echo_meaning :: "(tokens \<times> tokens) meaning" where
  "echo_meaning =
     \<lparr>mn_rep = (\<lambda>d t. fst (snd d) = t),
      mn_tokens = (\<lambda>d p pos n. snd (snd d) = take n (drop pos p)),
      mn_layers = (\<lambda>d p pos n il. snd (snd d) = take n (drop pos p)
        \<and> (if il = DS4_N_LAYER then fst (snd d) = take (pos + n) p else pos = 0 \<or> fst (snd d) = take pos p)),
      mn_rows = (\<lambda>d t r. fst (snd d) = t),
      mn_logits = (\<lambda>l t. l = map ucast t),
      mn_host = (\<lambda>h t. fst (snd h) = t)\<rparr>"

lemma echo_sound: "forward_sound echo_forward echo_meaning"
proof -
  have "uploads_sound echo_forward echo_meaning" by (simp add: uploads_sound_def echo_forward_def echo_meaning_def)
  moreover have "layers_sound echo_forward echo_meaning"
    unfolding layers_sound_def
  proof (intro conjI allI impI)
    fix d p and pos n :: u32 and il
    assume "il < DS4_N_LAYER" "mn_layers echo_meaning d p (unat pos) (unat n) il"
    then show "mn_layers echo_meaning (snd (fw_layer_batch echo_forward d il pos n)) p (unat pos) (unat n) (Suc il)"
      by (auto simp: echo_forward_def echo_meaning_def take_add)
  qed (auto simp: echo_forward_def echo_meaning_def based_def DS4_N_LAYER_def)
  moreover have "decode_sound echo_forward echo_meaning" by (auto simp: decode_sound_def echo_forward_def echo_meaning_def)
  moreover have "host_sound echo_forward echo_meaning" by (auto simp: host_sound_def echo_forward_def echo_meaning_def)
  ultimately show ?thesis by (simp add: forward_sound_def)
qed

definition echo_session :: "tokens \<Rightarrow> (tokens \<times> tokens) live_session" where
  "echo_session t =
     \<lparr>se_cpu = False,
      se_graph = \<lparr>gg_raw_cap = 4, gg_raw_window = 1, gg_comp_cap = 4, gg_mtp_n_raw = 0, gg_turbo_packv4 = False,
        gg_attn_comp_unpack_cache = [], gg_index_comp_unpack_cache = [], gg_layer = []\<rparr>,
      se_cpu_cache = [], se_checkpoint = t, se_logits = map ucast t, se_prefill_cap = 4, se_ctx_size = 16,
      se_checkpoint_valid = True, se_mtp_draft_valid = False,
      lv_work = (t, []), lv_progress = True, lv_mtp_logits = None, lv_mtp_draft_token = 0, lv_mtp_probe_total = 0, lv_mtp_probe_hit = 0\<rparr>"

lemma echo_backed: "backed echo_meaning (echo_session t)" "se_checkpoint_valid (echo_session t)" "se_checkpoint (echo_session t) = t"
  "\<not> se_cpu (echo_session t)" "lv_progress (echo_session t)"
  by (simp_all add: backed_def described_by_def echo_meaning_def echo_session_def device_def)

theorem session_sync_sound_witness:
  "\<exists>s' calls. ds4_session_sync echo_forward (Some 2) [7, 9, 3, 4, 5] (echo_session [7, 9]) = (None, s', calls)
     \<and> se_checkpoint s' = [7, 9, 3, 4, 5] \<and> described_by echo_meaning s' \<and> map fst calls = [2, 4, 5]"
proof -
  obtain r s' calls where y: "ds4_session_sync echo_forward (Some 2) [7, 9, 3, 4, 5] (echo_session [7, 9]) = (r, s', calls)" by (metis prod_cases3)
  have "fst (ds4_session_sync echo_forward (Some 2) [7, 9, 3, 4, 5] (echo_session [7, 9])) = None"
    "map fst (snd (snd (ds4_session_sync echo_forward (Some 2) [7, 9, 3, 4, 5] (echo_session [7, 9])))) = [2, 4, 5]" by code_simp+
  then have "r = None" "map fst calls = [2, 4, 5]" using y by simp_all
  with session_sync_sound [OF echo_sound echo_backed(1) y] y show ?thesis by simp
qed

theorem prefill_cut_points_witness:
  "\<exists>s' calls. gpu_graph_prefill_chunked_range echo_forward [7, 9, 3, 4, 5] 2 3 (echo_session [7, 9]) = (True, s', calls)
     \<and> map fst calls = 2 # filter (\<lambda>c. 4 dvd c \<or> c = 5) [3..<6]"
proof -
  obtain r s' calls where y: "gpu_graph_prefill_chunked_range echo_forward [7, 9, 3, 4, 5] 2 3 (echo_session [7, 9]) = (r, s', calls)" by (metis prod_cases3)
  have "fst (gpu_graph_prefill_chunked_range echo_forward [7, 9, 3, 4, 5] 2 3 (echo_session [7, 9])) = True" by code_simp
  then have r: "r = True" using y by simp
  from prefill_cut_points [OF y [unfolded r]] r y show ?thesis by (simp add: echo_session_def)
qed

theorem session_eval_sound_witness:
  "\<exists>s'. ds4_session_eval echo_forward \<lparr>mc_ready = False, mc_draft_tokens = 0, mc_probe_log = False, mc_full_logits = False\<rparr> 3 (echo_session [7, 9]) = (None, s')
     \<and> se_checkpoint s' = [7, 9, 3] \<and> described_by echo_meaning s'"
proof -
  let ?e = "ds4_session_eval echo_forward \<lparr>mc_ready = False, mc_draft_tokens = 0, mc_probe_log = False, mc_full_logits = False\<rparr> 3 (echo_session [7, 9])"
  obtain r s' where y: "?e = (r, s')" by (metis surj_pair)
  have "fst ?e = None" by code_simp
  then have r: "r = None" using y by simp
  from session_eval_sound [OF echo_sound echo_backed(1,2) _ y] r y show ?thesis by (simp add: echo_backed)
qed

theorem session_rewrite_outcome_witness:
  "fst (ds4_session_rewrite_from_common echo_forward None [7, 9, 3] 2 (echo_session [7, 9])) = RewriteOk
   \<and> ds4_session_rewrite_from_common echo_forward None [7, 8, 3] 1 (echo_session [7, 9]) = (RewriteRebuildNeeded, echo_session [7, 9], [])
   \<and> backed echo_meaning (fst (snd (ds4_session_rewrite_from_common echo_forward None [7, 9, 3] 2 (echo_session [7, 9]))))"
proof -
  obtain r s' calls where y: "ds4_session_rewrite_from_common echo_forward None [7, 9, 3] 2 (echo_session [7, 9]) = (r, s', calls)" by (metis prod_cases3)
  have "fst (ds4_session_rewrite_from_common echo_forward None [7, 9, 3] 2 (echo_session [7, 9])) = RewriteOk" by code_simp
  moreover have "ds4_session_rewrite_from_common echo_forward None [7, 8, 3] 1 (echo_session [7, 9]) = (RewriteRebuildNeeded, echo_session [7, 9], [])"
    by (simp add: ds4_session_rewrite_from_common_def echo_session_def ds4_session_rewrite_requires_rebuild_def)
  ultimately show ?thesis using session_rewrite_outcome(4) [OF echo_sound echo_backed(1) y] y by simp
qed

theorem session_rewind_stale_witness:
  "backed echo_meaning (echo_session [7, 9]) \<and> se_checkpoint_valid (ds4_session_rewind 1 (echo_session [7, 9]))
   \<and> \<not> backed echo_meaning (ds4_session_rewind 1 (echo_session [7, 9]))"
  using session_rewind_stale [of echo_meaning "echo_session [7, 9]" 1] echo_backed [of "[7, 9]"]
  by (simp add: echo_meaning_def)

text \<open>A meaning that prescribes the content of the device for every token list.\<close>

definition content_meaning :: "turbo_kernels \<Rightarrow> (tokens \<Rightarrow> u32 list \<times> u32 list \<times> byte list list list) \<Rightarrow> unit meaning" where
  "content_meaning k E =
     \<lparr>mn_rep = (\<lambda>d t. device_content k (fst d) t = E t), mn_tokens = (\<lambda>_ _ _ _. True), mn_layers = (\<lambda>_ _ _ _ _. True),
      mn_rows = (\<lambda>_ _ _. True), mn_logits = (\<lambda>_ _. True), mn_host = (\<lambda>_ _. True)\<rparr>"

lemma content_meaning_matters: "content_matters (content_meaning k E) k k"
  by (auto simp: content_matters_def content_meaning_def)

definition sample_live :: "u32 \<Rightarrow> u32 \<Rightarrow> u32 \<Rightarrow> tokens \<Rightarrow> unit live_session" where
  "sample_live c ctx n toks = ds4_session.extend (sample_session c ctx 5 n toks)
     \<lparr>lv_work = (), lv_progress = False, lv_mtp_logits = None, lv_mtp_draft_token = 0, lv_mtp_probe_total = 0, lv_mtp_probe_hit = 0\<rparr>"

lemma sample_live_truncate: "ds4_session.truncate (sample_live c ctx n toks) = sample_session c ctx 5 n toks"
  by (simp add: sample_live_def ds4_session.truncate_def ds4_session.extend_def sample_session_def)

theorem restored_session_resumes_witness:
  "\<exists>bytes s2. written (save_payload no_kernels (sample_session 1 16 5 1 [7, 9])) = Some bytes
     \<and> live_load no_kernels (sample_live 3 32 0 []) (bytes @ [1]) (ds4_session_payload_bytes (sample_session 1 16 5 1 [7, 9])) = Some s2
     \<and> se_checkpoint s2 = [7, 9]
     \<and> backed (content_meaning no_kernels (\<lambda>t. device_content no_kernels (se_graph (sample_session 1 16 5 1 [7, 9])) t)) s2"
proof -
  obtain bytes where w: "written (save_payload no_kernels (sample_session 1 16 5 1 [7, 9])) = Some bytes"
    by (rule sample_session_saved)
  let ?M = "content_meaning no_kernels (\<lambda>t. device_content no_kernels (se_graph (sample_session 1 16 5 1 [7, 9])) t)"
  have ok: "gpu_session_ok (ds4_session.truncate (sample_live 1 16 1 [7, 9]))" "gpu_session_ok (ds4_session.truncate (sample_live 3 32 0 []))"
    unfolding sample_live_truncate by (rule sample_session_ok; simp)+
  have c: "gpu_compatible (ds4_session.truncate (sample_live 1 16 1 [7, 9])) (ds4_session.truncate (sample_live 3 32 0 []))"
    unfolding sample_live_truncate by (rule sample_session_compatible) simp_all
  have keeps: "keeps_rows no_kernels no_kernels (ds4_session.truncate (sample_live 1 16 1 [7, 9])) (ds4_session.truncate (sample_live 3 32 0 []))"
    unfolding sample_live_truncate by (rule plain_keeps_rows) (rule sample_session_plain)
  have g: "se_graph (sample_live 1 16 1 [7, 9]) = se_graph (sample_session 1 16 5 1 [7, 9])"
    by (simp add: sample_live_def)
  have bk: "backed ?M (sample_live 1 16 1 [7, 9])"
    by (simp add: backed_def described_by_def content_meaning_def device_def g sample_live_def)
  have n: "length (se_checkpoint (sample_live 1 16 1 [7, 9])) < 2 ^ 32" by (simp add: sample_live_def sample_session_def)
  have ck: "se_checkpoint (sample_live 1 16 1 [7, 9]) = [7, 9]" by (simp add: sample_live_def sample_session_def)
  note resumed = restored_session_resumes [OF ok c keeps n, unfolded sample_live_truncate ck, OF w, of "[1]"]
  show ?thesis using resumed w content_meaning_matters bk by blast
qed

end
