(* ===== verification/Ds4_KvCache.thy ===== *)
theory Ds4_KvCache
  imports Ds4_Session Ds4_Sha1 Ds4_Tokenizer "HOL-Library.Signed_Division" Complex_Main
begin

text \<open>
  The disk cache of checkpoints, \<^verbatim>\<open>src/server/ds4_server.c\<close>: \<^verbatim>\<open>kv_cache_refresh\<close> to \<^verbatim>\<open>live_text_prefix_prompt\<close>,
  over the file format of \<open>Ds4_KvFile\<close>, the hash of \<open>Ds4_Sha1\<close>, the checkpoint payload and the live session.

  The files are a map from paths to bytes.  What the operating system decides is the parameter \<open>os\<close>: the names a
  directory lists, which calls succeed, how many bytes a write gets out, the time.  It does not change
  during one operation.  The server record holds what these functions read and write.  \<open>None\<close> stands for the
  outcomes that do not return to the caller (a write past a buffer, a fault of the tool memory, an \<^verbatim>\<open>exit\<close> of the tokenizer).

  The lemmas show when eviction gets within its budget, and that a loaded or live checkpoint is used only
  for a prompt that starts with its text, so that the prompt handed to \<^verbatim>\<open>ds4_session_sync\<close> spells the request.
\<close>

section \<open>State\<close>

type_synonym files = "byte list \<Rightarrow> byte list option"

record os =
  os_list :: "files \<Rightarrow> byte list \<Rightarrow> byte list list option"
  os_mkdir :: "byte list \<Rightarrow> bool"
  os_read :: "byte list \<Rightarrow> bool"
  os_update :: "byte list \<Rightarrow> bool"
  os_create :: "byte list \<Rightarrow> bool"
  os_truncate :: "byte list \<Rightarrow> bool"
  os_unlink :: "byte list \<Rightarrow> bool"
  os_rename :: "byte list \<Rightarrow> bool"
  os_close :: "byte list \<Rightarrow> bool"
  os_room :: nat
  os_now :: u64
  os_pid :: "byte list"
  os_junk :: "byte list"

record kv_cache_options =
  ko_min_tokens :: int
  ko_cold_max_tokens :: int
  ko_continued_interval_tokens :: int
  ko_boundary_trim_tokens :: int
  ko_boundary_align_tokens :: int

record kv_disk_cache =
  kc_enabled :: bool
  kc_dir :: "byte list"
  kc_budget_bytes :: u64
  kc_reject_different_quant :: bool
  kc_opt :: kv_cache_options
  kc_continued_last_store_tokens :: int
  kc_entry :: "kv_entry list"

definition kv_cache_default_options :: kv_cache_options where
  "kv_cache_default_options =
     \<lparr>ko_min_tokens = 512, ko_cold_max_tokens = 30000, ko_continued_interval_tokens = 10000,
      ko_boundary_trim_tokens = 32, ko_boundary_align_tokens = 2048\<rparr>"

record 'w server =
  sv_kv :: kv_disk_cache
  sv_session :: "'w live_session"
  sv_mem :: tool_memory
  sv_disable_replay :: bool
  sv_quant_bits :: int
  sv_vocab :: vocab
  sv_kernels :: turbo_kernels
  sv_last_evicted :: tokens
  sv_files :: files

section \<open>The directory\<close>

definition read_file :: "os \<Rightarrow> files \<Rightarrow> byte list \<Rightarrow> byte list option" where
  "read_file os fs path = (if os_read os path then fs path else None)"

definition kv_cache_refresh :: "os \<Rightarrow> files \<Rightarrow> kv_disk_cache \<Rightarrow> kv_disk_cache" where
  "kv_cache_refresh os fs kc =
     (if \<not> kc_enabled kc then kc
      else case os_list os fs (kc_dir kc) of
          None \<Rightarrow> kc\<lparr>kc_entry := []\<rparr>
        | Some names \<Rightarrow>
            kc\<lparr>kc_entry := List.map_filter (\<lambda>name.
              case sha_hex_name name of
                None \<Rightarrow> None
              | Some sha \<Rightarrow> let path = path_join (kc_dir kc) name in kv_read_entry_file (read_file os fs path) path sha) names\<rparr>)"

text \<open>Bytes written over the start of a file.\<close>

definition overwrite :: "os \<Rightarrow> byte list \<Rightarrow> byte list \<Rightarrow> byte list" where
  "overwrite os h old = take (os_room os) h @ drop (min (os_room os) (length h)) old"

definition kv_cache_touch_file :: "os \<Rightarrow> byte list \<Rightarrow> u32 \<Rightarrow> files \<Rightarrow> bool \<times> files" where
  "kv_cache_touch_file os path hits fs =
     (case (if os_update os path then fs path else None) of
        None \<Rightarrow> (False, fs)
      | Some s \<Rightarrow>
          (case kv_read_header s of
             None \<Rightarrow> (False, fs)
           | Some (e, text_bytes, rest) \<Rightarrow>
               let h = kv_fill_header (kve_quant_bits e) (kve_reason e) (kve_ext_flags e) (kve_tokens e) hits (kve_ctx_size e)
                         (kve_created_at e) (os_now os) (kve_payload_bytes e)
               in (length h \<le> os_room os, fs(path \<mapsto> overwrite os h s))))"

definition restore_from_file :: "os \<Rightarrow> 'w server \<Rightarrow> stop_list \<Rightarrow> byte list \<Rightarrow> tool_memory \<Rightarrow> tool_memory option" where
  "restore_from_file os sv wanted name m =
     (if sha_hex_name name = None then Some m
      else case read_file os (sv_files sv) (path_join (kc_dir (sv_kv sv)) name) of
          None \<Rightarrow> Some m
        | Some s \<Rightarrow>
            (case kv_read_header s of
               None \<Rightarrow> Some m
             | Some (hdr, text_bytes, rest) \<Rightarrow>
                 let skip = (ucast text_bytes :: u64) + kve_payload_bytes hdr in
                 if kve_ext_flags hdr AND KV_EXT_TOOL_MAP \<noteq> 0 \<and> skip \<le> 0x7FFFFFFFFFFFFFFF
                 then map_option snd (kv_tool_map_load_from_pos (sv_disable_replay sv) (Some wanted) (drop (unat skip) rest) m)
                 else Some m))"

definition kv_cache_restore_tool_memory_for_messages :: "os \<Rightarrow> chat_msg list \<Rightarrow> 'w server \<Rightarrow> 'w server option" where
  "kv_cache_restore_tool_memory_for_messages os msgs sv =
     (if sv_disable_replay sv \<or> \<not> kc_enabled (sv_kv sv) then Some sv
      else let wanted = collect_tool_call_ids msgs stop_list_empty in
        if stop_v wanted = [] then Some sv
        else case os_list os (sv_files sv) (kc_dir (sv_kv sv)) of
            None \<Rightarrow> Some sv
          | Some names \<Rightarrow>
              map_option (\<lambda>m. sv\<lparr>sv_mem := m\<rparr>)
                (foldl (\<lambda>acc name. Option.bind acc (restore_from_file os sv wanted name)) (Some (sv_mem sv)) names))"

section \<open>Eviction\<close>

text \<open>Every operation on doubles rounds the exact result; the rounding is a parameter.\<close>

definition kv_entry_eviction_score :: "(rat \<Rightarrow> rat) \<Rightarrow> kv_entry \<Rightarrow> rat" where
  "kv_entry_eviction_score rnd e =
     (if kve_file_size e = 0 then 0
      else rnd (rnd (rnd (of_nat (unat (kve_hits e)) + 1) * of_nat (unat (kve_tokens e))) / rnd (of_nat (unat (kve_file_size e)))))"

definition pick_victim :: "(rat \<Rightarrow> rat) \<Rightarrow> kv_entry list \<Rightarrow> nat" where
  "pick_victim rnd es =
     foldl (\<lambda>victim i.
       let score = kv_entry_eviction_score rnd (es ! i); victim_score = kv_entry_eviction_score rnd (es ! victim) in
       if score < victim_score \<or> (score = victim_score \<and> kve_last_used (es ! i) < kve_last_used (es ! victim)) then i else victim)
       0 [1..<length es]"

definition remove_at :: "nat \<Rightarrow> 'a list \<Rightarrow> 'a list" where
  "remove_at i xs = take i xs @ drop (i + 1) xs"

text \<open>One entry leaves the list in every round.\<close>

primrec evict_loop :: "nat \<Rightarrow> os \<Rightarrow> (rat \<Rightarrow> rat) \<Rightarrow> u64 \<Rightarrow> u64 \<Rightarrow> kv_entry list \<Rightarrow> files \<Rightarrow> kv_entry list \<times> files" where
  "evict_loop 0 os rnd budget tot es fs = (es, fs)"
| "evict_loop (Suc k) os rnd budget tot es fs =
     (if \<not> (tot > budget \<and> length es > 0) then (es, fs)
      else let victim = pick_victim rnd es; e = es ! victim;
               (tot, fs) = (if os_unlink os (kve_path e)
                              then (if tot \<ge> kve_file_size e then tot - kve_file_size e else 0, fs(kve_path e := None))
                              else (0, fs))
           in evict_loop k os rnd budget tot (remove_at victim es) fs)"

definition kv_cache_evict :: "os \<Rightarrow> (rat \<Rightarrow> rat) \<Rightarrow> kv_disk_cache \<Rightarrow> files \<Rightarrow> kv_disk_cache \<times> files" where
  "kv_cache_evict os rnd kc fs =
     (if \<not> kc_enabled kc \<or> kc_budget_bytes kc = 0 then (kc, fs)
      else let kc = kv_cache_refresh os fs kc;
               tot = sum_list (map kve_file_size (kc_entry kc));
               (es, fs) = evict_loop (length (kc_entry kc)) os rnd (kc_budget_bytes kc) tot (kc_entry kc) fs
           in (kc\<lparr>kc_entry := es\<rparr>, fs))"

definition kv_cache_zero :: kv_disk_cache where
  "kv_cache_zero = \<lparr>kc_enabled = False, kc_dir = [], kc_budget_bytes = 0, kc_reject_different_quant = False,
     kc_opt = \<lparr>ko_min_tokens = 0, ko_cold_max_tokens = 0, ko_continued_interval_tokens = 0, ko_boundary_trim_tokens = 0, ko_boundary_align_tokens = 0\<rparr>,
     kc_continued_last_store_tokens = 0, kc_entry = []\<rparr>"

definition kv_cache_open :: "os \<Rightarrow> (rat \<Rightarrow> rat) \<Rightarrow> byte list option \<Rightarrow> u64 \<Rightarrow> bool \<Rightarrow> kv_cache_options \<Rightarrow> files
    \<Rightarrow> bool \<times> kv_disk_cache \<times> files" where
  "kv_cache_open os rnd dir budget_mb reject_different_quant opt fs =
     (case dir of
        None \<Rightarrow> (False, kv_cache_zero, fs)
      | Some dir \<Rightarrow>
          if \<not> os_mkdir os dir then (False, kv_cache_zero, fs)
          else let mb = (if budget_mb = 0 then 4096 else budget_mb);
                   kc = kv_cache_zero\<lparr>kc_enabled := True, kc_dir := dir, kc_budget_bytes := mb * 1024 * 1024,
                          kc_reject_different_quant := reject_different_quant, kc_opt := opt\<rparr>;
                   (kc, fs) = kv_cache_evict os rnd kc fs
               in (True, kc, fs))"

section \<open>Texts and prompts\<close>

definition render_tokens_text :: "vocab \<Rightarrow> tokens \<Rightarrow> byte list" where
  "render_tokens_text v ts = concat (map (vocab_token_text v) ts)"

definition byte_prefix_match :: "byte list \<Rightarrow> byte list \<Rightarrow> bool" where
  "byte_prefix_match s p \<longleftrightarrow> length p \<le> length s \<and> take (length p) s = p"

definition tokens_copy_prefix :: "tokens \<Rightarrow> int \<Rightarrow> tokens" where
  "tokens_copy_prefix src n = take (nat n) src"

definition build_prompt_from_exact_prefix_and_text_suffix :: "vocab \<Rightarrow> tokens \<Rightarrow> byte list \<Rightarrow> tokens option" where
  "build_prompt_from_exact_prefix_and_text_suffix v exact_prefix suffix_text =
     map_option (\<lambda>suffix. exact_prefix @ suffix) (tokenize_rendered_chat_vocab v (Some suffix_text) [])"

definition kv_cache_store_len :: "kv_disk_cache \<Rightarrow> int \<Rightarrow> int" where
  "kv_cache_store_len kc tokens =
     (let trim = ko_boundary_trim_tokens (kc_opt kc); align = ko_boundary_align_tokens (kc_opt kc) in
      if tokens > ko_min_tokens (kc_opt kc) + trim
      then let stable = tokens - trim; stable = (if align > 0 then stable - stable smod align else stable)
           in if stable \<ge> ko_min_tokens (kc_opt kc) then stable else tokens
      else tokens)"

definition kv_cache_continued_step :: "kv_disk_cache \<Rightarrow> int" where
  "kv_cache_continued_step kc =
     (if \<not> kc_enabled kc \<or> ko_continued_interval_tokens (kc_opt kc) \<le> 0 then 0
      else let step = ko_continued_interval_tokens (kc_opt kc); align = ko_boundary_align_tokens (kc_opt kc) in
        if align > 0
        then let step = ((step + align - 1) sdiv align) * align in (if step \<le> 0 then align else step)
        else step)"

definition kv_cache_continued_store_target :: "kv_disk_cache \<Rightarrow> int \<Rightarrow> int" where
  "kv_cache_continued_store_target kc live_tokens =
     (let step = kv_cache_continued_step kc in
      if step \<le> 0 then 0
      else if live_tokens < ko_min_tokens (kc_opt kc) then 0
      else if live_tokens smod step \<noteq> 0 then 0
      else if live_tokens \<le> kc_continued_last_store_tokens kc then 0
      else live_tokens)"

section \<open>Storing\<close>

definition kv_cache_file_text_matches :: "os \<Rightarrow> files \<Rightarrow> byte list \<Rightarrow> byte list \<Rightarrow> byte list \<Rightarrow> bool option" where
  "kv_cache_file_text_matches os fs path sha tx =
     (if length tx > 4294967295 then Some False
      else case read_file os fs path of
          None \<Rightarrow> Some False
        | Some s \<Rightarrow>
            (case kv_read_header s of
               None \<Rightarrow> Some False
             | Some (hdr, text_bytes, rest) \<Rightarrow>
                 if text_bytes \<noteq> of_nat (length tx) then Some False
                 else if length rest < unat text_bytes then Some False
                 else let stored = take (unat text_bytes) rest
                      in map_option (\<lambda>stored_sha. stored_sha = sha \<and> stored = tx) (sha1_bytes_hex (os_junk os) stored)))"

definition kv_cache_existing_compatible :: "os \<Rightarrow> kv_disk_cache \<Rightarrow> files \<Rightarrow> byte list \<Rightarrow> byte list \<Rightarrow> byte list \<Rightarrow> int \<Rightarrow> int
    \<Rightarrow> (bool \<times> files) option" where
  "kv_cache_existing_compatible os kc fs path sha tx quant_bits ctx_size =
     (if fs path = None then Some (False, fs)
      else case kv_read_entry_file (read_file os fs path) path sha of
          None \<Rightarrow> Some (False, fs)
        | Some e \<Rightarrow> do {
            compatible \<leftarrow>
              (if (\<not> kc_reject_different_quant kc \<or> kve_quant_bits e = word_of_int quant_bits) \<and> kve_ctx_size e \<le> word_of_int ctx_size
               then kv_cache_file_text_matches os fs path sha tx else Some False);
            Some (if \<not> compatible then (False, if os_unlink os path then fs(path := None) else fs) else (True, fs))
          })"

definition resize_file :: "nat \<Rightarrow> byte list \<Rightarrow> byte list" where
  "resize_file n s = take n s @ replicate (n - length s) 0"

definition kv_cache_rewrite_tool_map :: "os \<Rightarrow> byte list \<Rightarrow> byte list \<Rightarrow> 'w server \<Rightarrow> 'w server option" where
  "kv_cache_rewrite_tool_map os path tx sv = do {
     count \<leftarrow> tool_memory_count_dsml_in_text (sv_disable_replay sv) (sv_mem sv) tx;
     if count = 0 then Some sv
     else case (if os_update os path then sv_files sv path else None) of
         None \<Rightarrow> Some sv
       | Some s \<Rightarrow>
           (case kv_read_header s of
              None \<Rightarrow> Some sv
            | Some (hdr, text_bytes, rest) \<Rightarrow>
                let stop = of_nat KV_CACHE_FIXED_HEADER + 4 + ucast text_bytes + kve_payload_bytes hdr :: u64 in
                if \<not> (stop \<le> 0x7FFFFFFFFFFFFFFF \<and> os_truncate os path) then Some sv
                else do {
                  (ok, ignored, fp, m) \<leftarrow> kv_tool_map_write (sv_disable_replay sv) tx (resize_file (unat stop) s, os_room os) (sv_mem sv);
                  let s = fst fp;
                  let h = kv_fill_header (kve_quant_bits hdr) (kve_reason hdr) (kve_ext_flags hdr OR KV_EXT_TOOL_MAP) (kve_tokens hdr)
                            (kve_hits hdr) (kve_ctx_size hdr) (kve_created_at hdr) (os_now os) (kve_payload_bytes hdr);
                  let s = (if ok \<and> ignored > 0 then take (snd fp) h @ drop (min (snd fp) (length h)) s else s);
                  Some (sv\<lparr>sv_mem := m, sv_files := (sv_files sv)(path \<mapsto> s)\<rparr>)
                })
   }"

definition live_tokens :: "'w server \<Rightarrow> tokens" where
  "live_tokens sv = se_checkpoint (sv_session sv)"

definition session_ctx :: "'w server \<Rightarrow> int" where
  "session_ctx sv = sint (se_ctx_size (sv_session sv))"

definition write_store_file :: "os \<Rightarrow> 'w server \<Rightarrow> byte list \<Rightarrow> nat \<Rightarrow> byte \<Rightarrow> byte \<Rightarrow> (bool \<times> byte list \<times> tool_memory) option" where
  "write_store_file os sv tx n_tokens reason ext_flags =
     (let s = ds4_session.truncate (sv_session sv);
          h = kv_fill_header (word_of_int (sv_quant_bits sv)) reason ext_flags (of_nat n_tokens) 0 (word_of_int (session_ctx sv))
                (os_now os) (os_now os) (ds4_session_payload_bytes s);
          (ok, fp) = fwrites [h, le_put32 (of_nat (length tx)), tx] ([], os_room os) in
      if \<not> ok then Some (False, fst fp, sv_mem sv)
      else let (ok, fp) = ds4_session_save_payload (sv_kernels sv) s fp in
      if \<not> ok then Some (False, fst fp, sv_mem sv)
      else do {
        (ok, bytes, fp, m) \<leftarrow> kv_tool_map_write (sv_disable_replay sv) tx fp (sv_mem sv);
        Some (ok, fst fp, m)
      })"

definition kv_cache_store_live_prefix :: "os \<Rightarrow> (rat \<Rightarrow> rat) \<Rightarrow> tokens \<Rightarrow> int \<Rightarrow> byte list \<Rightarrow> 'w server \<Rightarrow> (bool \<times> 'w server) option" where
  "kv_cache_store_live_prefix os rnd tokens store_len reason sv =
     (if \<not> kc_enabled (sv_kv sv) then Some (False, sv)
      else if store_len < ko_min_tokens (kc_opt (sv_kv sv)) then Some (False, sv)
      else let store_tokens = tokens_copy_prefix tokens store_len in
      if sv_quant_bits sv \<noteq> 2 \<and> sv_quant_bits sv \<noteq> 4 then Some (False, sv)
      else if length (live_tokens sv) \<noteq> length store_tokens \<or> take (length store_tokens) (live_tokens sv) \<noteq> store_tokens then Some (False, sv)
      else let payload_bytes = ds4_session_payload_bytes (ds4_session.truncate (sv_session sv)) in
      if payload_bytes = 0 then Some (False, sv)
      else let tx = render_tokens_text (sv_vocab sv) store_tokens in
      if length tx > 4294967295 then Some (False, sv)
      else do {
        sha \<leftarrow> sha1_bytes_hex (os_junk os) tx;
        let path = kv_path_for_sha (kc_dir (sv_kv sv)) sha;
        (present, fs) \<leftarrow> kv_cache_existing_compatible os (sv_kv sv) (sv_files sv) path sha tx (sv_quant_bits sv) (session_ctx sv);
        let sv = sv\<lparr>sv_files := fs\<rparr>;
        if present then map_option (\<lambda>sv. (True, sv)) (kv_cache_rewrite_tool_map os path tx sv)
        else
          let tmp = path @ ascii ''.tmp.'' @ os_pid os in
          if \<not> os_create os tmp then Some (False, sv)
          else do {
            count \<leftarrow> tool_memory_count_dsml_in_text (sv_disable_replay sv) (sv_mem sv) tx;
            (ok, content, m) \<leftarrow> write_store_file os sv tx (length store_tokens) (kv_reason_code reason)
                                  (if count > 0 then KV_EXT_TOOL_MAP else 0);
            let ok = (ok \<and> os_close os tmp);
            let fs = (sv_files sv)(tmp \<mapsto> content);
            let (ok, fs) = (if ok \<and> os_rename os tmp then (True, fs(tmp := None, path \<mapsto> content)) else (False, fs));
            let sv = sv\<lparr>sv_mem := m\<rparr>;
            Some (if \<not> ok then (False, sv\<lparr>sv_files := if os_unlink os tmp then fs(tmp := None) else fs\<rparr>)
                  else let (kc, fs) = kv_cache_evict os rnd (sv_kv sv) fs in (True, sv\<lparr>sv_kv := kc, sv_files := fs\<rparr>))
          }
      })"

definition kv_cache_store_current :: "os \<Rightarrow> (rat \<Rightarrow> rat) \<Rightarrow> byte list \<Rightarrow> 'w server \<Rightarrow> 'w server option" where
  "kv_cache_store_current os rnd reason sv =
     map_option (\<lambda>(stored, sv'). if reason = ascii ''evict'' then sv'\<lparr>sv_last_evicted := live_tokens sv'\<rparr> else sv')
       (kv_cache_store_live_prefix os rnd (live_tokens sv) (int (length (live_tokens sv))) reason sv)"

definition kv_cache_note_store :: "int \<Rightarrow> kv_disk_cache \<Rightarrow> kv_disk_cache" where
  "kv_cache_note_store tokens kc =
     (if tokens > kc_continued_last_store_tokens kc then kc\<lparr>kc_continued_last_store_tokens := tokens\<rparr> else kc)"

definition kv_cache_maybe_store_continued :: "os \<Rightarrow> (rat \<Rightarrow> rat) \<Rightarrow> 'w server \<Rightarrow> 'w server option" where
  "kv_cache_maybe_store_continued os rnd sv =
     (let target = kv_cache_continued_store_target (sv_kv sv) (int (length (live_tokens sv))) in
      if target = 0 then Some sv
      else map_option (\<lambda>(stored, sv'). if stored then sv'\<lparr>sv_kv := kv_cache_note_store target (sv_kv sv')\<rparr> else sv')
             (kv_cache_store_live_prefix os rnd (live_tokens sv) target (ascii ''continued'') sv))"

section \<open>Loading\<close>

definition better_prefix :: "os \<Rightarrow> kv_disk_cache \<Rightarrow> byte list \<Rightarrow> int \<Rightarrow> int \<Rightarrow> nat option \<Rightarrow> nat \<Rightarrow> nat option option" where
  "better_prefix os kc prompt_text quant_bits ctx_size best i =
     (let e = kc_entry kc ! i in
      if unat (kve_text_bytes e) > length prompt_text then Some best
      else if sint (kve_tokens e) < ko_min_tokens (kc_opt kc) then Some best
      else if (word_of_int ctx_size :: u32) < kve_ctx_size e then Some best
      else if kc_reject_different_quant kc \<and> kve_quant_bits e \<noteq> word_of_int quant_bits then Some best
      else if (case best of
                 None \<Rightarrow> False
               | Some b \<Rightarrow> let b = kc_entry kc ! b in
                   kve_text_bytes e < kve_text_bytes b \<or> (kve_text_bytes e = kve_text_bytes b \<and> kve_tokens e \<le> kve_tokens b)) then Some best
      else map_option (\<lambda>sha. if sha = kve_sha e then Some i else best)
             (sha1_bytes_hex (os_junk os) (take (unat (kve_text_bytes e)) prompt_text)))"

definition kv_cache_find_text_prefix :: "os \<Rightarrow> files \<Rightarrow> byte list \<Rightarrow> int \<Rightarrow> int \<Rightarrow> kv_disk_cache \<Rightarrow> (nat option \<times> kv_disk_cache) option" where
  "kv_cache_find_text_prefix os fs prompt_text quant_bits ctx_size kc =
     (let kc = kv_cache_refresh os fs kc in
      map_option (\<lambda>best. (best, kc))
        (foldl (\<lambda>acc i. Option.bind acc (\<lambda>best. better_prefix os kc prompt_text quant_bits ctx_size best i))
           (Some None) [0..<length (kc_entry kc)]))"

text \<open>The cached text of an open entry when it is the front of the prompt: the header, the text and the file after it.\<close>

definition read_cached_text :: "os \<Rightarrow> byte list \<Rightarrow> byte list \<Rightarrow> byte list \<Rightarrow> (kv_entry \<times> byte list \<times> byte list) option option" where
  "read_cached_text os s sha prompt_text =
     (case kv_read_header s of
        None \<Rightarrow> Some None
      | Some (hdr, text_bytes, rest) \<Rightarrow>
          if unat text_bytes > length prompt_text then Some None
          else let cached_text = take (unat text_bytes) rest in
          if length cached_text < unat text_bytes then Some None
          else map_option (\<lambda>text_sha.
                 if text_sha \<noteq> sha then None
                 else if \<not> byte_prefix_match prompt_text cached_text then None
                 else Some (hdr, cached_text, drop (unat text_bytes) rest))
               (sha1_bytes_hex (os_junk os) cached_text))"

definition set_session :: "ds4_session \<Rightarrow> 'w server \<Rightarrow> 'w server" where
  "set_session s2 sv = sv\<lparr>sv_session := ds4_session.extend s2 (ds4_session.more (sv_session sv))\<rparr>"

definition invalidate :: "'w server \<Rightarrow> 'w server" where
  "invalidate sv = sv\<lparr>sv_session := ds4_session_invalidate (sv_session sv)\<rparr>"

text \<open>The result: the number of tokens loaded (zero for none), the prompt for the session, and the path of the file used.\<close>

definition kv_cache_try_load_text :: "os \<Rightarrow> byte list \<Rightarrow> 'w server \<Rightarrow> (int \<times> tokens \<times> byte list option \<times> 'w server) option" where
  "kv_cache_try_load_text os prompt_text sv =
     (if \<not> kc_enabled (sv_kv sv) then Some (0, [], None, sv)
      else if sv_quant_bits sv \<noteq> 2 \<and> sv_quant_bits sv \<noteq> 4 then Some (0, [], None, sv)
      else do {
        (idx, kc) \<leftarrow> kv_cache_find_text_prefix os (sv_files sv) prompt_text (sv_quant_bits sv) (session_ctx sv) (sv_kv sv);
        let sv = sv\<lparr>sv_kv := kc\<rparr>;
        case idx of
          None \<Rightarrow> Some (0, [], None, sv)
        | Some idx \<Rightarrow>
            let e = kc_entry kc ! idx; path = kve_path e in
            (case read_file os (sv_files sv) path of
               None \<Rightarrow> Some (0, [], None, sv)
             | Some s \<Rightarrow> do {
                 header \<leftarrow> read_cached_text os s (kve_sha e) prompt_text;
                 case header of
                   None \<Rightarrow> Some (0, [], None, sv)
                 | Some (hdr, cached_text, rest) \<Rightarrow>
                     (case ds4_session_load_payload (sv_kernels sv) (ds4_session.truncate (sv_session sv)) rest (kve_payload_bytes hdr) of
                        Overflow \<Rightarrow> None
                      | Failed s2 rest \<Rightarrow> Some (0, [], None, invalidate (set_session s2 sv))
                      | Loaded s2 rest \<Rightarrow>
                          let sv = set_session s2 sv in
                          if int (length (live_tokens sv)) \<noteq> sint (kve_tokens hdr)
                          then Some (0, [], None, (invalidate sv)\<lparr>sv_files := if os_unlink os path then (sv_files sv)(path := None) else sv_files sv\<rparr>)
                          else do {
                            let loaded = sint (kve_tokens hdr);
                            effective \<leftarrow> build_prompt_from_exact_prefix_and_text_suffix (sv_vocab sv) (live_tokens sv)
                                           (drop (length cached_text) prompt_text);
                            m \<leftarrow> (if kve_ext_flags hdr AND KV_EXT_TOOL_MAP \<noteq> 0
                                  then map_option snd (kv_tool_map_load_from_pos (sv_disable_replay sv) None rest (sv_mem sv))
                                  else Some (sv_mem sv));
                            let sv = sv\<lparr>sv_mem := m\<rparr>;
                            Some (if loaded > 0
                                  then let kc = (sv_kv sv)\<lparr>kc_continued_last_store_tokens := loaded\<rparr>;
                                           cold = ko_cold_max_tokens (kc_opt kc);
                                           fs = (if cold > 0 \<and> loaded > cold
                                                 then (if os_unlink os path then (sv_files sv)(path := None) else sv_files sv)
                                                 else snd (kv_cache_touch_file os path (kve_hits hdr + 1) (sv_files sv)))
                                       in (loaded, effective, Some path, sv\<lparr>sv_kv := kc, sv_files := fs\<rparr>)
                                  else (loaded, effective, None, sv))
                          })
               })
      })"

text \<open>A prompt that starts with the text of the live checkpoint: its tokens are kept, and only the rest is tokenized.\<close>

definition live_text_prefix_prompt :: "byte list \<Rightarrow> 'w server \<Rightarrow> (int \<times> tokens) option" where
  "live_text_prefix_prompt prompt_text sv =
     (if length (live_tokens sv) = 0 then Some (0, [])
      else let live_text = render_tokens_text (sv_vocab sv) (live_tokens sv) in
        if \<not> byte_prefix_match prompt_text live_text then Some (0, [])
        else map_option (\<lambda>effective. (int (length (live_tokens sv)), effective))
               (build_prompt_from_exact_prefix_and_text_suffix (sv_vocab sv) (live_tokens sv) (drop (length live_text) prompt_text)))"

section \<open>Hash and tokenizer\<close>

lemma sha1_bytes_hex_eq:
  assumes "length junk = 64"
  shows "sha1_bytes_hex junk bs = Some (hex20 (sha1_spec bs))"
proof -
  have "hashed (sha1_init junk) []" "sh_bytes (sha1_init junk) = of_nat (length ([] :: byte list))"
    using hashed_init [OF assms] by (simp_all add: sha1_init_def)
  then obtain c where "sha1_update (sha1_init junk) bs = Some c" "hashed c ([] @ bs)" "sh_bytes c = of_nat (length ([] @ bs))"
    by (rule update_hashed)
  then show ?thesis using final_hashed by (simp add: sha1_bytes_hex_def)
qed

lemma hex20_length: "length (hex20 bs) = 2 * length bs"
  by (induction bs) (simp_all add: hex20_def)

lemma sha1_spec_length: "length (sha1_spec m) = 20"
proof -
  obtain a b c d e where "foldl sha1_transform sha1_iv (blocks64 (sha1_padded m)) = (a, b, c, d, e)" by (metis prod_cases5)
  then show ?thesis by (simp add: sha1_spec_def sha1_digest_def be_bytes_def)
qed

lemma hex_name_length [simp]: "length (hex20 (sha1_spec m)) = 40"
  by (simp add: hex20_length sha1_spec_length)

definition lossless_vocab :: "vocab \<Rightarrow> bool" where
  "lossless_vocab v \<longleftrightarrow> vocab_consistent v \<and> vocab_closed v \<and> vocab_specials v"

lemma suffix_prompt:
  assumes "lossless_vocab v"
  obtains sfx where "build_prompt_from_exact_prefix_and_text_suffix v ts s = Some (ts @ sfx)" "render_tokens_text v sfx = s"
  using tokenize_rendered_lossless_aux [of v "[]" s "[]"] assms
  by (auto simp: lossless_vocab_def build_prompt_from_exact_prefix_and_text_suffix_def tokenize_rendered_chat_vocab_def render_tokens_text_def)

lemma render_append [simp]: "render_tokens_text v (ts @ us) = render_tokens_text v ts @ render_tokens_text v us"
  by (simp add: render_tokens_text_def)

lemma byte_prefix_rest: "byte_prefix_match s p \<Longrightarrow> p @ drop (length p) s = s"
  using append_take_drop_id [of "length p" s] by (simp add: byte_prefix_match_def)

section \<open>Which entry is found\<close>

definition eligible :: "kv_disk_cache \<Rightarrow> byte list \<Rightarrow> int \<Rightarrow> int \<Rightarrow> kv_entry \<Rightarrow> bool" where
  "eligible kc prompt_text quant_bits ctx_size e \<longleftrightarrow>
     unat (kve_text_bytes e) \<le> length prompt_text \<and> ko_min_tokens (kc_opt kc) \<le> sint (kve_tokens e)
     \<and> kve_ctx_size e \<le> word_of_int ctx_size \<and> (kc_reject_different_quant kc \<longrightarrow> kve_quant_bits e = word_of_int quant_bits)
     \<and> kve_sha e = hex20 (sha1_spec (take (unat (kve_text_bytes e)) prompt_text))"

text \<open>Longer text first, then more tokens.\<close>

definition covers :: "kv_entry \<Rightarrow> kv_entry \<Rightarrow> bool" where
  "covers b e \<longleftrightarrow> kve_text_bytes e < kve_text_bytes b \<or> (kve_text_bytes e = kve_text_bytes b \<and> kve_tokens e \<le> kve_tokens b)"

lemma covers_refl [simp]: "covers b b" by (simp add: covers_def)

lemma covers_trans: "covers c b \<Longrightarrow> covers b e \<Longrightarrow> covers c e" by (auto simp: covers_def)

lemma covers_total: "\<not> covers b e \<Longrightarrow> covers e b" by (auto simp: covers_def)

definition best_of :: "kv_disk_cache \<Rightarrow> (kv_entry \<Rightarrow> bool) \<Rightarrow> nat \<Rightarrow> nat option \<Rightarrow> bool" where
  "best_of kc P n best \<longleftrightarrow>
     (case best of None \<Rightarrow> \<forall>j < n. \<not> P (kc_entry kc ! j)
      | Some b \<Rightarrow> b < n \<and> P (kc_entry kc ! b) \<and> (\<forall>j < n. P (kc_entry kc ! j) \<longrightarrow> covers (kc_entry kc ! b) (kc_entry kc ! j)))"

lemma better_prefix_step:
  assumes junk: "length (os_junk os) = 64" and best: "best_of kc (eligible kc prompt_text q c) n best"
  shows "\<exists>best'. better_prefix os kc prompt_text q c best n = Some best' \<and> best_of kc (eligible kc prompt_text q c) (Suc n) best'"
proof -
  define e where "e = kc_entry kc ! n"
  define P where "P = eligible kc prompt_text q c"
  have keep: "best_of kc P (Suc n) best" if "P e \<Longrightarrow> \<exists>b. best = Some b \<and> covers (kc_entry kc ! b) e"
    using best that unfolding best_of_def P_def [symmetric] e_def
    by (auto simp: less_Suc_eq split: option.splits)
  have new: "best_of kc P (Suc n) (Some n)" if "P e" "\<And>b. best = Some b \<Longrightarrow> covers e (kc_entry kc ! b)"
    using best that unfolding best_of_def P_def [symmetric] e_def
    by (auto simp: less_Suc_eq split: option.splits intro: covers_trans)
  define skip where "skip = (unat (kve_text_bytes e) > length prompt_text \<or> sint (kve_tokens e) < ko_min_tokens (kc_opt kc)
     \<or> (word_of_int c :: u32) < kve_ctx_size e \<or> kc_reject_different_quant kc \<and> kve_quant_bits e \<noteq> word_of_int q)"
  define worse where "worse = (case best of None \<Rightarrow> False | Some b \<Rightarrow> covers (kc_entry kc ! b) e)"
  have skip: "skip \<Longrightarrow> \<not> P e" by (auto simp: skip_def P_def eligible_def)
  have P: "\<not> skip \<Longrightarrow> P e \<longleftrightarrow> hex20 (sha1_spec (take (unat (kve_text_bytes e)) prompt_text)) = kve_sha e"
    by (auto simp: skip_def P_def eligible_def)
  have eq: "better_prefix os kc prompt_text q c best n = (if skip then Some best else if worse then Some best
      else Some (if hex20 (sha1_spec (take (unat (kve_text_bytes e)) prompt_text)) = kve_sha e then Some n else best))"
    unfolding better_prefix_def Let_def e_def [symmetric] sha1_bytes_hex_eq [OF junk] skip_def worse_def
    by (auto simp: covers_def split: option.splits)
  show ?thesis
  proof (cases "skip \<or> worse")
    case True
    then have "best_of kc P (Suc n) best" using skip by (intro keep) (auto simp: worse_def split: option.splits)
    then show ?thesis using True eq by (auto simp: P_def)
  next
    case False
    then have "best_of kc P (Suc n) (if P e then Some n else best)"
      by (auto intro!: keep new dest: covers_total simp: worse_def)
    then show ?thesis using False eq P by (auto simp: P_def)
  qed
qed

lemma find_fold:
  assumes junk: "length (os_junk os) = 64"
  shows "\<exists>best. foldl (\<lambda>acc i. Option.bind acc (\<lambda>best. better_prefix os kc prompt_text q c best i)) (Some None) [0..<n] = Some best
    \<and> best_of kc (eligible kc prompt_text q c) n best"
proof (induction n)
  case 0
  then show ?case by (simp add: best_of_def)
next
  case (Suc n)
  then obtain best where "foldl (\<lambda>acc i. Option.bind acc (\<lambda>best. better_prefix os kc prompt_text q c best i)) (Some None) [0..<n] = Some best"
    "best_of kc (eligible kc prompt_text q c) n best" by blast
  then show ?case using better_prefix_step [OF junk] by simp
qed

text \<open>The lookup returns an entry whenever the directory holds an eligible one: one for this context size and quantization
  with enough tokens whose name is the hash of a front of the prompt; and it returns one with the longest text,
  and among these one with the most tokens.\<close>

lemma longest_prefix_found:
  assumes "length (os_junk os) = 64"
  shows "\<exists>best. kv_cache_find_text_prefix os fs prompt_text q c kc = Some (best, kv_cache_refresh os fs kc)
    \<and> (case best of
         None \<Rightarrow> \<forall>e \<in> set (kc_entry (kv_cache_refresh os fs kc)). \<not> eligible (kv_cache_refresh os fs kc) prompt_text q c e
       | Some i \<Rightarrow> i < length (kc_entry (kv_cache_refresh os fs kc))
           \<and> eligible (kv_cache_refresh os fs kc) prompt_text q c (kc_entry (kv_cache_refresh os fs kc) ! i)
           \<and> (\<forall>e \<in> set (kc_entry (kv_cache_refresh os fs kc)). eligible (kv_cache_refresh os fs kc) prompt_text q c e
                \<longrightarrow> covers (kc_entry (kv_cache_refresh os fs kc) ! i) e))"
proof -
  let ?kc = "kv_cache_refresh os fs kc"
  obtain best where "foldl (\<lambda>acc i. Option.bind acc (\<lambda>best. better_prefix os ?kc prompt_text q c best i)) (Some None) [0..<length (kc_entry ?kc)] = Some best"
    "best_of ?kc (eligible ?kc prompt_text q c) (length (kc_entry ?kc)) best"
    using find_fold [OF assms] by blast
  then show ?thesis
    by (intro exI [of _ best]) (auto simp: kv_cache_find_text_prefix_def Let_def best_of_def in_set_conv_nth split: option.splits)
qed

section \<open>The prompt spells the request\<close>

text \<open>A prompt that starts with the text of the live checkpoint is turned into the live tokens followed by a tokenization
  of the rest: it spells exactly the requested text, and a session with these tokens is extended and never prefilled again.\<close>

theorem live_prompt_spells_request:
  assumes v: "lossless_vocab (sv_vocab sv)" and live: "live_tokens sv \<noteq> []"
    and start: "byte_prefix_match prompt_text (render_tokens_text (sv_vocab sv) (live_tokens sv))"
  shows "\<exists>effective. live_text_prefix_prompt prompt_text sv = Some (int (length (live_tokens sv)), effective)
    \<and> render_tokens_text (sv_vocab sv) effective = prompt_text
    \<and> (se_checkpoint_valid (sv_session sv) \<longrightarrow> extends (sv_session sv) effective)"
proof -
  let ?v = "sv_vocab sv" and ?t = "render_tokens_text (sv_vocab sv) (live_tokens sv)"
  obtain sfx where "build_prompt_from_exact_prefix_and_text_suffix ?v (live_tokens sv) (drop (length ?t) prompt_text) = Some (live_tokens sv @ sfx)"
    "render_tokens_text ?v sfx = drop (length ?t) prompt_text"
    by (rule suffix_prompt [OF v])
  then show ?thesis using live start byte_prefix_rest [OF start]
    by (intro exI [of _ "live_tokens sv @ sfx"]) (simp add: live_text_prefix_prompt_def extends_def live_tokens_def)
qed

section \<open>Eviction\<close>

definition less_valuable :: "(rat \<Rightarrow> rat) \<Rightarrow> kv_entry \<Rightarrow> kv_entry \<Rightarrow> bool" where
  "less_valuable rnd a b \<longleftrightarrow> kv_entry_eviction_score rnd a < kv_entry_eviction_score rnd b
     \<or> (kv_entry_eviction_score rnd a = kv_entry_eviction_score rnd b \<and> kve_last_used a < kve_last_used b)"

lemma less_valuable_trans: "less_valuable rnd a b \<Longrightarrow> less_valuable rnd b c \<Longrightarrow> less_valuable rnd a c"
  by (auto simp: less_valuable_def)

lemma pick_victim_least:
  assumes "es \<noteq> []"
  shows "pick_victim rnd es < length es" "e \<in> set es \<Longrightarrow> \<not> less_valuable rnd e (es ! pick_victim rnd es)"
proof -
  let ?f = "\<lambda>victim i. if less_valuable rnd (es ! i) (es ! victim) then i else victim"
  have step: "foldl ?f 0 [1..<Suc n] < Suc n \<and> (\<forall>i < Suc n. \<not> less_valuable rnd (es ! i) (es ! foldl ?f 0 [1..<Suc n]))" for n
  proof (induction n)
    case 0
    then show ?case by (simp add: less_valuable_def)
  next
    case (Suc n)
    define v where "v = foldl ?f 0 [1..<Suc n]"
    have v: "v < Suc n" "\<And>i. i < Suc n \<Longrightarrow> \<not> less_valuable rnd (es ! i) (es ! v)" using Suc by (auto simp: v_def)
    have f: "foldl ?f 0 [1..<Suc (Suc n)] = ?f v (Suc n)" by (simp add: v_def)
    show ?case
    proof (cases "less_valuable rnd (es ! Suc n) (es ! v)")
      case True
      have "\<not> less_valuable rnd (es ! i) (es ! Suc n)" if "i < Suc (Suc n)" for i
      proof
        assume l: "less_valuable rnd (es ! i) (es ! Suc n)"
        then have "i \<noteq> Suc n" by (auto simp: less_valuable_def)
        then show False using v(2) [of i] less_valuable_trans [OF l True] that by linarith
      qed
      then show ?thesis unfolding f using True by simp
    next
      case False
      then show ?thesis unfolding f using v by (auto simp: less_Suc_eq)
    qed
  qed
  from step [of "length es - 1"] have r: "foldl ?f 0 [1..<length es] < length es"
    "\<forall>i < length es. \<not> less_valuable rnd (es ! i) (es ! foldl ?f 0 [1..<length es])" using assms by simp_all
  have "pick_victim rnd es = foldl ?f 0 [1..<length es]"
    by (simp add: pick_victim_def Let_def less_valuable_def)
  then show "pick_victim rnd es < length es" "e \<in> set es \<Longrightarrow> \<not> less_valuable rnd e (es ! pick_victim rnd es)"
    using r by (auto simp: in_set_conv_nth)
qed

definition entries_size :: "kv_entry list \<Rightarrow> nat" where
  "entries_size es = sum_list (map (\<lambda>e. unat (kve_file_size e)) es)"

lemma remove_at_facts:
  assumes "i < length es"
  shows "set (remove_at i es) \<subseteq> set es" "length (remove_at i es) = length es - 1"
    "entries_size es = unat (kve_file_size (es ! i)) + entries_size (remove_at i es)"
    "set es = insert (es ! i) (set (remove_at i es))"
    "distinct (map kve_path es) \<Longrightarrow> distinct (map kve_path (remove_at i es))"
    "distinct (map kve_path es) \<Longrightarrow> kve_path (es ! i) \<notin> kve_path ` set (remove_at i es)"
proof -
  have e: "es = take i es @ es ! i # drop (Suc i) es" using assms by (rule id_take_nth_drop)
  show "set (remove_at i es) \<subseteq> set es" by (auto simp: remove_at_def dest: in_set_takeD in_set_dropD)
  show "length (remove_at i es) = length es - 1" using assms by (simp add: remove_at_def)
  show "entries_size es = unat (kve_file_size (es ! i)) + entries_size (remove_at i es)"
    by (subst e) (simp add: entries_size_def remove_at_def)
  show "set es = insert (es ! i) (set (remove_at i es))"
    by (subst e) (auto simp: remove_at_def)
  have m: "map kve_path es = map kve_path (take i es) @ kve_path (es ! i) # map kve_path (drop (Suc i) es)"
    by (subst e) simp
  show "distinct (map kve_path (remove_at i es))" if "distinct (map kve_path es)"
    using that unfolding m by (simp add: remove_at_def)
  show "kve_path (es ! i) \<notin> kve_path ` set (remove_at i es)" if "distinct (map kve_path es)"
    using that unfolding m by (simp add: remove_at_def image_Un)
qed

lemma evict_loop_result:
  assumes un: "\<And>p. os_unlink os p"
  shows "evict_loop k os rnd budget tot es fs = (es', fs') \<Longrightarrow> length es \<le> k \<Longrightarrow> unat tot = entries_size es
    \<Longrightarrow> distinct (map kve_path es)
    \<Longrightarrow> entries_size es' \<le> unat budget \<and> set es' \<subseteq> set es \<and> distinct (map kve_path es')
      \<and> fs' = (\<lambda>p. if p \<in> kve_path ` (set es - set es') then None else fs p)
      \<and> (\<forall>e \<in> set es - set es'. \<forall>e' \<in> set es'. \<not> less_valuable rnd e' e)
      \<and> (tot \<le> budget \<longrightarrow> es' = es)"
proof (induction k arbitrary: tot es fs)
  case 0
  then show ?case by (auto simp: entries_size_def fun_eq_iff)
next
  case (Suc k)
  show ?case
  proof (cases "tot > budget \<and> length es > 0")
    case False
    then show ?thesis using Suc.prems by (auto simp: entries_size_def fun_eq_iff not_less word_le_nat_alt)
  next
    case True
    define v where "v = pick_victim rnd es"
    define e where "e = es ! v"
    note v = pick_victim_least [where es = es and rnd = rnd, folded v_def e_def]
    have vl: "v < length es" using v(1) True by simp
    note r = remove_at_facts [OF vl, folded e_def]
    have size: "kve_file_size e \<le> tot" using r(3) Suc.prems(3) by (simp add: word_le_nat_alt)
    have rest: "evict_loop k os rnd budget (tot - kve_file_size e) (remove_at v es) (fs(kve_path e := None)) = (es', fs')"
      using Suc.prems(1) True size un by (simp add: v_def [symmetric] e_def [symmetric])
    have "unat (tot - kve_file_size e) = entries_size (remove_at v es)"
      using size r(3) Suc.prems(3) by (simp add: unat_sub)
    from Suc.IH [OF rest _ this r(5) [OF Suc.prems(4)]] Suc.prems(2) r(2) vl
    have ih: "entries_size es' \<le> unat budget" "set es' \<subseteq> set (remove_at v es)" "distinct (map kve_path es')"
      "fs' = (\<lambda>p. if p \<in> kve_path ` (set (remove_at v es) - set es') then None else (fs(kve_path e := None)) p)"
      "\<forall>e \<in> set (remove_at v es) - set es'. \<forall>e' \<in> set es'. \<not> less_valuable rnd e' e" by auto
    have out: "e \<notin> set es'" using r(6) [OF Suc.prems(4)] ih(2) by blast
    then have diff: "set es - set es' = insert e (set (remove_at v es) - set es')" using r(4) by blast
    moreover have "\<not> less_valuable rnd e' e" if "e' \<in> set es'" for e' using v(2) [of e'] that ih(2) r(1) True by auto
    ultimately show ?thesis using ih r(1) True by (auto simp: fun_eq_iff)
  qed
qed

definition entry_of_name :: "os \<Rightarrow> files \<Rightarrow> byte list \<Rightarrow> byte list \<Rightarrow> kv_entry option" where
  "entry_of_name os fs dir name =
     (case sha_hex_name name of None \<Rightarrow> None
      | Some sha \<Rightarrow> kv_read_entry_file (read_file os fs (path_join dir name)) (path_join dir name) sha)"

lemma refresh_entries:
  "kc_enabled kc \<Longrightarrow> os_list os fs (kc_dir kc) = Some names
   \<Longrightarrow> kc_entry (kv_cache_refresh os fs kc) = List.map_filter (entry_of_name os fs (kc_dir kc)) names"
  unfolding kv_cache_refresh_def entry_of_name_def [abs_def] Let_def by simp

lemma refresh_fields [simp]:
  "kc_enabled (kv_cache_refresh os fs kc) = kc_enabled kc" "kc_budget_bytes (kv_cache_refresh os fs kc) = kc_budget_bytes kc"
  "kc_dir (kv_cache_refresh os fs kc) = kc_dir kc" "kc_opt (kv_cache_refresh os fs kc) = kc_opt kc"
  "kc_reject_different_quant (kv_cache_refresh os fs kc) = kc_reject_different_quant kc"
  by (simp_all add: kv_cache_refresh_def split: option.split)

lemma entry_of_name_path: "entry_of_name os fs dir name = Some e \<Longrightarrow> kve_path e = path_join dir name"
  by (auto simp: entry_of_name_def kv_read_entry_file_def Let_def split: option.splits if_splits)

lemma path_join_inj: "path_join dir a = path_join dir b \<longleftrightarrow> a = b"
  by (simp add: path_join_def)

lemma in_filtered: "e \<in> set (List.map_filter f names) \<longleftrightarrow> (\<exists>n \<in> set names. f n = Some e)"
  by (force simp: map_filter_def)

lemma filtered_paths: "distinct names \<Longrightarrow> distinct (map kve_path (List.map_filter (entry_of_name os fs dir) names))"
proof (induction names)
  case (Cons n ns)
  have "path_join dir n \<notin> kve_path ` set (List.map_filter (entry_of_name os fs dir) ns)"
  proof
    assume "path_join dir n \<in> kve_path ` set (List.map_filter (entry_of_name os fs dir) ns)"
    then obtain e k where "k \<in> set ns" "entry_of_name os fs dir k = Some e" "kve_path e = path_join dir n"
      by (auto simp: in_filtered)
    then show False using Cons.prems entry_of_name_path path_join_inj by fastforce
  qed
  then show ?case using Cons entry_of_name_path
    by (auto simp: map_filter_simps split: option.split)
qed (simp add: map_filter_simps)

lemma entries_size_mono:
  assumes "distinct es" "set es \<subseteq> set es'"
  shows "entries_size es \<le> entries_size es'"
proof -
  have "entries_size es = sum (\<lambda>e. unat (kve_file_size e)) (set es)"
    using assms(1) by (simp add: entries_size_def sum_list_distinct_conv_sum_set)
  also have "\<dots> \<le> sum (\<lambda>e. unat (kve_file_size e)) (set es')" using assms(2) by (intro sum_mono2) auto
  also have "\<dots> \<le> entries_size es'"
    unfolding entries_size_def by (induction es') (auto simp: sum.insert_if intro: le_trans [OF _ add_left_mono])
  finally show ?thesis .
qed

lemma unat_sum: "(\<Sum>e\<leftarrow>es. unat (f e)) < 2 ^ 64 \<Longrightarrow> unat (\<Sum>e\<leftarrow>es. (f e :: u64)) = (\<Sum>e\<leftarrow>es. unat (f e))"
  by (induction es) (simp_all add: unat_word_ariths(1))

lemma eviction_effects:
  assumes on: "kc_enabled kc" "kc_budget_bytes kc \<noteq> 0" and un: "\<And>p. os_unlink os p"
    and names: "os_list os fs (kc_dir kc) = Some names" "distinct names"
    and fits: "entries_size (kc_entry (kv_cache_refresh os fs kc)) < 2 ^ 64"
    and res: "kv_cache_evict os rnd kc fs = (kc', fs')"
  shows "\<forall>names'. os_list os fs' (kc_dir kc) = Some names' \<and> distinct names' \<and> set names' \<subseteq> set names
      \<longrightarrow> entries_size (kc_entry (kv_cache_refresh os fs' kc)) \<le> unat (kc_budget_bytes kc)"
    "\<exists>gone \<subseteq> set (kc_entry (kv_cache_refresh os fs kc)).
       fs' = (\<lambda>p. if p \<in> kve_path ` gone then None else fs p)
       \<and> (\<forall>e \<in> gone. \<forall>e' \<in> set (kc_entry kc'). \<not> less_valuable rnd e' e)
       \<and> (entries_size (kc_entry (kv_cache_refresh os fs kc)) \<le> unat (kc_budget_bytes kc) \<longrightarrow> gone = {})"
proof -
  define es where "es = kc_entry (kv_cache_refresh os fs kc)"
  have es: "es = List.map_filter (entry_of_name os fs (kc_dir kc)) names" "distinct (map kve_path es)"
    using refresh_entries [OF on(1) names(1)] filtered_paths [OF names(2)] by (simp_all add: es_def)
  define tot where "tot = sum_list (map kve_file_size es)"
  have tot: "unat tot = entries_size es" using fits unat_sum [of kve_file_size es] by (simp add: tot_def entries_size_def es_def)
  obtain es' where r: "evict_loop (length es) os rnd (kc_budget_bytes kc) tot es fs = (es', fs')"
    and kc': "kc' = (kv_cache_refresh os fs kc)\<lparr>kc_entry := es'\<rparr>"
    using res on by (auto simp: kv_cache_evict_def Let_def es_def tot_def split: prod.splits)
  note l = evict_loop_result [OF un r order_refl tot es(2)]
  show "\<forall>names'. os_list os fs' (kc_dir kc) = Some names' \<and> distinct names' \<and> set names' \<subseteq> set names
      \<longrightarrow> entries_size (kc_entry (kv_cache_refresh os fs' kc)) \<le> unat (kc_budget_bytes kc)"
  proof (intro allI impI)
    fix names' assume n': "os_list os fs' (kc_dir kc) = Some names' \<and> distinct names' \<and> set names' \<subseteq> set names"
    define fresh where "fresh = List.map_filter (entry_of_name os fs' (kc_dir kc)) names'"
    have "kc_entry (kv_cache_refresh os fs' kc) = fresh" using refresh_entries [OF on(1)] n' by (simp add: fresh_def)
    moreover have "distinct fresh" using filtered_paths [of names'] n' by (auto simp: fresh_def distinct_map)
    moreover have "set fresh \<subseteq> set es'"
    proof
      fix e assume "e \<in> set fresh"
      then obtain n where n: "n \<in> set names'" "entry_of_name os fs' (kc_dir kc) n = Some e" by (auto simp: fresh_def in_filtered)
      then have there: "fs' (path_join (kc_dir kc) n) \<noteq> None"
        by (auto simp: entry_of_name_def read_file_def kv_read_entry_file_def split: option.splits if_splits)
      then have same: "fs' (path_join (kc_dir kc) n) = fs (path_join (kc_dir kc) n)" "path_join (kc_dir kc) n \<notin> kve_path ` (set es - set es')"
        using l by (auto split: if_splits)
      then have "read_file os fs (path_join (kc_dir kc) n) = read_file os fs' (path_join (kc_dir kc) n)" by (simp add: read_file_def)
      then have "entry_of_name os fs (kc_dir kc) n = Some e" using n(2) unfolding entry_of_name_def by metis
      then have "e \<in> set es" "kve_path e = path_join (kc_dir kc) n" using n(1) n' entry_of_name_path by (auto simp: es(1) in_filtered)
      then show "e \<in> set es'" using same(2) by force
    qed
    ultimately show "entries_size (kc_entry (kv_cache_refresh os fs' kc)) \<le> unat (kc_budget_bytes kc)"
      using entries_size_mono l le_trans by metis
  qed
  show "\<exists>gone \<subseteq> set (kc_entry (kv_cache_refresh os fs kc)).
       fs' = (\<lambda>p. if p \<in> kve_path ` gone then None else fs p)
       \<and> (\<forall>e \<in> gone. \<forall>e' \<in> set (kc_entry kc'). \<not> less_valuable rnd e' e)
       \<and> (entries_size (kc_entry (kv_cache_refresh os fs kc)) \<le> unat (kc_budget_bytes kc) \<longrightarrow> gone = {})"
    using l tot by (intro exI [of _ "set es - set es'"]) (auto simp: es_def [symmetric] kc' word_le_nat_alt)
qed

text \<open>Claim C37. When files can be removed, eviction leaves a directory whose cache entries fit the budget: a new scan sums up to at
  most the budget.  It removes only cache entries, never one that is worth more than one it keeps (score, then time
  of use), and nothing while the directory fits.\<close>

theorem eviction_within_budget:
  assumes on: "kc_enabled kc" "kc_budget_bytes kc \<noteq> 0" and un: "\<And>p. os_unlink os p"
    and names: "os_list os fs (kc_dir kc) = Some names" "distinct names"
    and fits: "entries_size (kc_entry (kv_cache_refresh os fs kc)) < 2 ^ 64"
    and res: "kv_cache_evict os rnd kc fs = (kc', fs')"
  shows "(\<forall>names'. os_list os fs' (kc_dir kc) = Some names' \<and> distinct names' \<and> set names' \<subseteq> set names
      \<longrightarrow> entries_size (kc_entry (kv_cache_refresh os fs' kc)) \<le> unat (kc_budget_bytes kc))
    \<and> (\<exists>gone \<subseteq> set (kc_entry (kv_cache_refresh os fs kc)).
       fs' = (\<lambda>p. if p \<in> kve_path ` gone then None else fs p)
       \<and> (\<forall>e \<in> gone. \<forall>e' \<in> set (kc_entry kc'). \<not> less_valuable rnd e' e)
       \<and> (entries_size (kc_entry (kv_cache_refresh os fs kc)) \<le> unat (kc_budget_bytes kc) \<longrightarrow> gone = {}))"
  using eviction_effects [OF assms] by (rule conjI)

section \<open>Boundaries\<close>

lemma smod_pos: "0 \<le> a \<Longrightarrow> 0 < b \<Longrightarrow> (a :: int) smod b = a mod b"
  by (cases "a = 0") (simp_all add: signed_modulo_int_def)

lemma store_len_bounds:
  assumes "0 \<le> ko_boundary_trim_tokens (kc_opt kc)" "0 \<le> ko_min_tokens (kc_opt kc)"
  shows "kv_cache_store_len kc n \<le> n" "ko_min_tokens (kc_opt kc) \<le> n \<Longrightarrow> ko_min_tokens (kc_opt kc) \<le> kv_cache_store_len kc n"
    "kv_cache_store_len kc n \<noteq> n \<Longrightarrow> 0 < ko_boundary_align_tokens (kc_opt kc) \<Longrightarrow> ko_boundary_align_tokens (kc_opt kc) dvd kv_cache_store_len kc n"
proof -
  define m where "m = ko_min_tokens (kc_opt kc)"
  define a where "a = ko_boundary_align_tokens (kc_opt kc)"
  define st where "st = n - ko_boundary_trim_tokens (kc_opt kc)"
  define al where "al = (if a > 0 then st - st smod a else st)"
  have eq: "kv_cache_store_len kc n = (if n > m + ko_boundary_trim_tokens (kc_opt kc) \<and> al \<ge> m then al else n)"
    by (simp add: kv_cache_store_len_def Let_def m_def a_def st_def al_def)
  have al: "al \<le> n" "0 < a \<Longrightarrow> a dvd al" if "n > m + ko_boundary_trim_tokens (kc_opt kc)"
  proof -
    have st: "0 \<le> st" "st \<le> n" using that assms by (simp_all add: st_def m_def)
    have r: "0 < a \<Longrightarrow> st smod a = st mod a" by (rule smod_pos [OF st(1)])
    show "al \<le> n"
    proof (cases "0 < a")
      case True
      then have "al = st - st mod a" "0 \<le> st mod a" using r by (simp_all add: al_def)
      then show ?thesis using st by linarith
    qed (use st in \<open>simp add: al_def\<close>)
    show "0 < a \<Longrightarrow> a dvd al" using r by (simp add: al_def minus_mod_eq_mult_div)
  qed
  show "kv_cache_store_len kc n \<le> n" using al(1) by (simp add: eq)
  show "ko_min_tokens (kc_opt kc) \<le> n \<Longrightarrow> ko_min_tokens (kc_opt kc) \<le> kv_cache_store_len kc n"
    by (simp add: eq m_def [symmetric])
  show "kv_cache_store_len kc n \<noteq> n \<Longrightarrow> 0 < ko_boundary_align_tokens (kc_opt kc) \<Longrightarrow> ko_boundary_align_tokens (kc_opt kc) dvd kv_cache_store_len kc n"
    using al(2) by (auto simp: eq a_def [symmetric] split: if_splits)
qed

section \<open>A stored checkpoint is loaded\<close>

definition appends :: "out_file \<Rightarrow> out_file \<Rightarrow> bool" where
  "appends fp fp' \<longleftrightarrow> (\<exists>x. fst fp' = fst fp @ x)"

lemma appends_refl [simp]: "appends fp fp" by (simp add: appends_def)

lemma appends_trans: "appends a b \<Longrightarrow> appends b c \<Longrightarrow> appends a c" by (auto simp: appends_def)

lemma fwrite_appends: "appends fp (snd (fwrite bs fp))"
  by (cases fp) (simp add: fwrite_def appends_def)

lemma fwrites_appends: "appends fp (snd (fwrites bss fp))"
proof (induction bss arbitrary: fp)
  case (Cons bs bss)
  show ?case using fwrite_appends [of fp bs] Cons [of "snd (fwrite bs fp)"]
    by (auto split: prod.split intro: appends_trans)
qed simp

lemma write_records_appends: "appends fp (snd (write_records recs fp))"
proof (induction recs fp rule: write_records.induct)
  case (2 i k recs fp)
  let ?w = "fwrites [le_put32 (of_nat (length i)) @ le_put32 (of_nat (tb_len k)), i, take (tb_len k) (tb_dsml k)] fp"
  have "appends fp (snd ?w)" by (rule fwrites_appends)
  then show ?case using 2 [of True "snd ?w"] by (cases ?w) (auto intro: appends_trans)
qed simp

lemma write_blocks_appends: "write_blocks scan blks ok fp m = Some (ok', fp', m') \<Longrightarrow> appends fp fp'"
proof (induction blks arbitrary: ok fp m)
  case Nil
  then show ?case by simp
next
  case (Cons blk blks)
  show ?case
  proof (cases ok)
    case True
    obtain recs m1 where v: "visit_block scan blk m = Some (recs, m1)"
      using Cons.prems True by (cases "visit_block scan blk m") auto
    obtain ok1 fp1 where w: "write_records recs fp = (ok1, fp1)" by (metis surj_pair)
    have "appends fp fp1" using write_records_appends [of fp recs] w by simp
    moreover have "appends fp1 fp'" by (rule Cons.IH) (use Cons.prems True v w in simp)
    ultimately show ?thesis by (rule appends_trans)
  qed (use Cons.prems in simp)
qed

lemma tool_map_write_appends:
  assumes "kv_tool_map_write disabled tx fp m = Some (ok, n, fp', m')"
  shows "appends fp fp'"
proof (cases "disabled \<or> cstr tx = []")
  case True
  then show ?thesis using assms by (simp add: kv_tool_map_write_def)
next
  case False
  obtain count bytes m1 where c: "count_records (tm_scan_clock m + 1) (dsml_blocks (cstr tx)) (0, of_nat KV_TOOL_MAP_HEADER)
      (m\<lparr>tm_scan_clock := tm_scan_clock m + 1\<rparr>) = Some ((count, bytes), m1)"
    using assms False by (auto simp: kv_tool_map_write_def Let_def split: bind_splits)
  show ?thesis
  proof (cases "count = 0")
    case True
    then show ?thesis using assms False c by (simp add: kv_tool_map_write_def Let_def)
  next
    case nz: False
    obtain ok1 fp1 where w: "fwrite (KV_TOOL_MAP_MAGIC @ [KV_TOOL_MAP_VERSION] @ le_put32 count) fp = (ok1, fp1)" by (metis surj_pair)
    have a: "appends fp fp1" using fwrite_appends [of fp "KV_TOOL_MAP_MAGIC @ [KV_TOOL_MAP_VERSION] @ le_put32 count"] w by simp
    have "\<exists>sc bl m2 ok2 m3. write_blocks sc bl ok1 fp1 m2 = Some (ok2, fp', m3)"
      using assms False c nz w by (auto simp: kv_tool_map_write_def Let_def split: bind_splits) blast
    then show ?thesis using a write_blocks_appends appends_trans by blast
  qed
qed

text \<open>What a store writes.\<close>

lemma write_store_file_content:
  assumes "write_store_file os sv tx n reason flags = Some (True, out, m)"
  obtains payload extra where "written (save_payload (sv_kernels sv) (ds4_session.truncate (sv_session sv))) = Some payload"
    "out = kv_fill_header (word_of_int (sv_quant_bits sv)) reason flags (of_nat n) 0 (word_of_int (session_ctx sv)) (os_now os) (os_now os)
        (ds4_session_payload_bytes (ds4_session.truncate (sv_session sv)))
      @ le_put32 (of_nat (length tx)) @ tx @ payload @ extra"
proof -
  define s where "s = ds4_session.truncate (sv_session sv)"
  define h where "h = kv_fill_header (word_of_int (sv_quant_bits sv)) reason flags (of_nat n) 0 (word_of_int (session_ctx sv)) (os_now os) (os_now os)
        (ds4_session_payload_bytes s)"
  obtain ok1 fp1 where w1: "fwrites [h, le_put32 (of_nat (length tx)), tx] ([], os_room os) = (ok1, fp1)" by (metis surj_pair)
  obtain ok2 fp2 where w2: "ds4_session_save_payload (sv_kernels sv) s fp1 = (ok2, fp2)" by (metis surj_pair)
  note eq = assms [unfolded write_store_file_def Let_def, folded s_def, folded h_def, unfolded w1 prod.case w2]
  have ok1: "ok1" using eq by (cases ok1) auto
  have ok2: "ok2" using eq ok1 by (cases ok2) auto
  obtain bytes fp3 where w3: "kv_tool_map_write (sv_disable_replay sv) tx fp2 (sv_mem sv) = Some (True, bytes, fp3, m)" and c: "out = fst fp3"
    using eq ok1 ok2 by (auto split: bind_splits)
  have 1: "fst fp1 = h @ le_put32 (of_nat (length tx)) @ tx" using fwrites_result [OF w1] ok1 by simp
  obtain chunks complete where ch: "save_payload (sv_kernels sv) s = (chunks, complete)" by (metis surj_pair)
  obtain ok4 fp4 where w4: "fwrites chunks fp1 = (ok4, fp4)" by (metis surj_pair)
  have 2: "ok4" "complete" "fp2 = fp4" using w2 ok2 ch w4 by (auto simp: ds4_session_save_payload_def)
  then have "fst fp2 = fst fp1 @ concat chunks" using fwrites_result [of chunks "fst fp1" "snd fp1" ok4 fp4] w4 by simp
  moreover obtain extra where "fst fp3 = fst fp2 @ extra" using tool_map_write_appends [OF w3] by (auto simp: appends_def)
  moreover have "written (save_payload (sv_kernels sv) s) = Some (concat chunks)" using ch 2 by (simp add: written_def)
  ultimately show thesis using that [of "concat chunks" extra] 1 c by (simp add: s_def h_def)
qed

lemma put_source_total: "memory_ok m xs \<Longrightarrow> \<exists>m' ys. tool_memory_put_source d i t src m = Some m' \<and> memory_ok m' ys"
proof (cases "tool_memory_put_source d i t src m = Some m")
  case False
  assume ok: "memory_ok m xs"
  have "tool_memory_put_source d i t src m = tool_memory_put_locked i t src m"
    using False by (auto simp: tool_memory_put_source_def split: if_splits)
  moreover from implementsD [OF put_implements ok] obtain m' ys where "tool_memory_put_locked i t src m = Some m'" "memory_ok m' ys" .
  ultimately show ?thesis by auto
qed auto

lemma load_records_total: "memory_ok m xs \<Longrightarrow> load_records n wanted s loaded m \<noteq> None"
proof (induction n wanted s loaded m arbitrary: xs rule: load_records.induct)
  case (2 n wanted s loaded m)
  show ?case
    using "2.IH" "2.prems" put_source_total [OF "2.prems", of False]
    by (simp add: Let_def del: not_None_eq) (metis bind.bind_lunit)
qed simp

lemma tool_map_load_total: "memory_ok m xs \<Longrightarrow> kv_tool_map_load_from_pos d wanted s m \<noteq> None"
  using load_records_total by (auto simp: kv_tool_map_load_from_pos_def Let_def)

lemma truncate_set_session [simp]: "sv_vocab (set_session s2 sv) = sv_vocab sv" "sv_files (set_session s2 sv) = sv_files sv"
  "sv_kv (set_session s2 sv) = sv_kv sv" "sv_mem (set_session s2 sv) = sv_mem sv" "sv_disable_replay (set_session s2 sv) = sv_disable_replay sv"
  "live_tokens (set_session s2 sv) = se_checkpoint s2" "se_checkpoint_valid (sv_session (set_session s2 sv)) = se_checkpoint_valid s2"
  by (simp_all add: set_session_def live_tokens_def)

text \<open>A file that a store wrote, opened for a prompt that starts with its text.\<close>

lemma read_cached_text_stored:
  assumes junk: "length (os_junk os) = 64" and tx: "length tx \<le> 4294967295" and tok: "tokens \<noteq> 0" and q: "quant = 2 \<or> quant = 4"
    and reason: "reason \<le> KV_REASON_SHUTDOWN" and sha: "sha = hex20 (sha1_spec tx)" and start: "byte_prefix_match prompt_text tx"
  shows "\<exists>hdr. read_cached_text os (kv_fill_header quant reason flags tokens hits ctx t1 t2 payload_bytes @ le_put32 (of_nat (length tx)) @ tx @ rest) sha prompt_text
      = Some (Some (hdr, tx, rest)) \<and> kve_tokens hdr = tokens \<and> kve_payload_bytes hdr = payload_bytes \<and> kve_ext_flags hdr = flags"
proof -
  have n: "unat (of_nat (length tx) :: u32) = length tx" using tx by (simp add: unat_of_nat take_bit_nat_eq_self)
  have le: "length tx \<le> length prompt_text" using start by (simp add: byte_prefix_match_def)
  have h: "kv_read_header (kv_fill_header quant reason flags tokens hits ctx t1 t2 payload_bytes @ le_put32 (of_nat (length tx)) @ tx @ rest)
    = Some (kv_entry_zero\<lparr>kve_quant_bits := quant, kve_reason := reason, kve_ext_flags := flags, kve_tokens := tokens,
        kve_hits := hits, kve_ctx_size := ctx, kve_created_at := t1, kve_last_used := t2,
        kve_payload_bytes := payload_bytes, kve_text_bytes := ucast (of_nat (length tx) :: u32)\<rparr>, of_nat (length tx), tx @ rest)"
    by (rule kv_read_fill_header [OF tok q reason])
  show ?thesis unfolding read_cached_text_def h
    using le start by (simp add: n Let_def sha1_bytes_hex_eq [OF junk] sha)
qed

lemma kv_reason_code_le [simp]: "kv_reason_code r \<le> KV_REASON_SHUTDOWN"
  by (simp add: kv_reason_code_def kv_constants)

text \<open>A checkpoint file is honest for a vocabulary and a backend when its tokens, wherever they load, spell the text the file is
  named after.  Every file a completed store writes is, for its own vocabulary and any backend; so is a file whose payload does not load.\<close>

definition honest_file :: "turbo_kernels \<Rightarrow> vocab \<Rightarrow> byte list \<Rightarrow> bool" where
  "honest_file k v file \<longleftrightarrow>
     (\<forall>hdr text_bytes rest s s2 left. kv_read_header file = Some (hdr, text_bytes, rest)
        \<longrightarrow> ds4_session_load_payload k s (drop (unat text_bytes) rest) (kve_payload_bytes hdr) = Loaded s2 left
        \<longrightarrow> render_tokens_text v (se_checkpoint s2) = take (unat text_bytes) rest)"

definition honest_files :: "'w server \<Rightarrow> bool" where
  "honest_files sv \<longleftrightarrow> (\<forall>path file. sv_files sv path = Some file \<longrightarrow> honest_file (sv_kernels sv) (sv_vocab sv) file)"

lemma stored_file_honest:
  assumes stored: "write_store_file os sv tx (length (live_tokens sv)) (kv_reason_code reason) flags = Some (True, out, m)"
    and tx: "tx = render_tokens_text (sv_vocab sv) (live_tokens sv)" "length tx \<le> 4294967295"
    and tokens: "0 < length (live_tokens sv)" "length (live_tokens sv) < 2 ^ 31" and quant: "sv_quant_bits sv = 2 \<or> sv_quant_bits sv = 4"
  shows "honest_file k (sv_vocab sv) out"
proof -
  define n where "n = length (live_tokens sv)"
  obtain payload extra where pay: "written (save_payload (sv_kernels sv) (ds4_session.truncate (sv_session sv))) = Some payload"
    and out: "out = kv_fill_header (word_of_int (sv_quant_bits sv)) (kv_reason_code reason) flags (of_nat n) 0 (word_of_int (session_ctx sv)) (os_now os) (os_now os)
        (ds4_session_payload_bytes (ds4_session.truncate (sv_session sv))) @ le_put32 (of_nat (length tx)) @ tx @ payload @ extra"
    using write_store_file_content [OF stored, folded n_def] by blast
  have w: "unat (of_nat n :: u32) = n" using tokens(2) by (simp add: n_def unat_of_nat take_bit_nat_eq_self)
  have tok: "(of_nat n :: u32) \<noteq> 0" using tokens(1) w unat_0 by (metis n_def less_irrefl)
  have q: "(word_of_int (sv_quant_bits sv) :: byte) = 2 \<or> (word_of_int (sv_quant_bits sv) :: byte) = 4" using quant by auto
  have t: "unat (of_nat (length tx) :: u32) = length tx" using tx(2) by (simp add: unat_of_nat take_bit_nat_eq_self)
  have ck: "se_checkpoint (ds4_session.truncate (sv_session sv)) = live_tokens sv" by (simp add: live_tokens_def)
  show ?thesis unfolding honest_file_def out kv_read_fill_header [OF tok q kv_reason_code_le]
  proof (intro allI impI)
    fix hdr text_bytes rest s s2 left
    assume "Some (kv_entry_zero\<lparr>kve_quant_bits := word_of_int (sv_quant_bits sv), kve_reason := kv_reason_code reason, kve_ext_flags := flags, kve_tokens := of_nat n,
        kve_hits := 0, kve_ctx_size := word_of_int (session_ctx sv), kve_created_at := os_now os, kve_last_used := os_now os,
        kve_payload_bytes := ds4_session_payload_bytes (ds4_session.truncate (sv_session sv)), kve_text_bytes := ucast (of_nat (length tx) :: u32)\<rparr>,
        of_nat (length tx) :: u32, tx @ payload @ extra) = Some (hdr, text_bytes, rest)"
      and load: "ds4_session_load_payload k s (drop (unat text_bytes) rest) (kve_payload_bytes hdr) = Loaded s2 left"
    then have r: "text_bytes = of_nat (length tx)" "rest = tx @ payload @ extra" by simp_all
    have "se_checkpoint s2 = live_tokens sv"
      using loaded_tokens [OF pay _ load [unfolded r t, simplified]] tokens(2) by (simp add: live_tokens_def)
    then show "render_tokens_text (sv_vocab sv) (se_checkpoint s2) = take (unat text_bytes) rest" by (simp add: r t tx(1) [symmetric])
  qed
qed

text \<open>Claim C36. The whole way of a checkpoint through the disk, from one server to another (or to the same one later).  The two
  have the same vocabulary, and the session that loads has the prefill chunk and raw window of the session that saved and
  at least as much room (\<open>gpu_compatible\<close>; another chunk or window makes the load fail with a layout mismatch), and it keeps the rows
  it is handed (\<open>keeps_rows\<close>: it does not pack them, or its kernels reproduce them).  Then a file written by a store of the whole
  checkpoint, found by the lookup for a prompt that starts with the stored text, loads; the session then holds exactly the stored tokens, and the
  prompt handed to it starts with them and spells the requested text, so that the following sync only evaluates what is new.\<close>

theorem stored_checkpoint_continues:
  assumes stored: "write_store_file os sv tx (length (live_tokens sv)) (kv_reason_code reason) flags = Some (True, out, m)"
    and tx: "tx = render_tokens_text (sv_vocab sv) (live_tokens sv)" "length tx \<le> 4294967295"
    and tokens: "0 < length (live_tokens sv)" "length (live_tokens sv) < 2 ^ 31" and quant: "sv_quant_bits sv = 2 \<or> sv_quant_bits sv = 4"
    and found: "kv_cache_find_text_prefix os' (sv_files sv') prompt_text (sv_quant_bits sv') (session_ctx sv') (sv_kv sv') = Some (Some i, kc)"
    and fl: "read_file os' (sv_files sv') (kve_path (kc_entry kc ! i)) = Some out" "kve_sha (kc_entry kc ! i) = hex20 (sha1_spec tx)"
    and start: "byte_prefix_match prompt_text tx"
    and server: "kc_enabled (sv_kv sv')" "sv_quant_bits sv' = 2 \<or> sv_quant_bits sv' = 4" "length (os_junk os') = 64"
      "sv_vocab sv' = sv_vocab sv" "lossless_vocab (sv_vocab sv)" "memory_ok (sv_mem sv') xs"
    and ok: "gpu_session_ok (ds4_session.truncate (sv_session sv))" and ok': "gpu_session_ok (ds4_session.truncate (sv_session sv'))"
    and compat: "gpu_compatible (ds4_session.truncate (sv_session sv)) (ds4_session.truncate (sv_session sv'))"
      "keeps_rows (sv_kernels sv) (sv_kernels sv') (ds4_session.truncate (sv_session sv)) (ds4_session.truncate (sv_session sv'))"
  shows "\<exists>effective sv2. kv_cache_try_load_text os' prompt_text sv'
        = Some (int (length (live_tokens sv)), effective, Some (kve_path (kc_entry kc ! i)), sv2)
      \<and> live_tokens sv2 = live_tokens sv \<and> render_tokens_text (sv_vocab sv) effective = prompt_text
      \<and> extends (sv_session sv2) effective"
proof -
  define s where "s = ds4_session.truncate (sv_session sv)"
  define n where "n = length (live_tokens sv)"
  obtain payload extra where pay: "written (save_payload (sv_kernels sv) s) = Some payload"
    and out: "out = kv_fill_header (word_of_int (sv_quant_bits sv)) (kv_reason_code reason) flags (of_nat n) 0 (word_of_int (session_ctx sv)) (os_now os) (os_now os)
        (ds4_session_payload_bytes s) @ le_put32 (of_nat (length tx)) @ tx @ payload @ extra"
    using write_store_file_content [OF stored, folded s_def n_def] by blast
  have w: "unat (of_nat n :: u32) = n" using tokens(2) by (simp add: n_def unat_of_nat take_bit_nat_eq_self)
  have sn: "sint (of_nat n :: u32) = int n" using tokens(2) by (simp add: n_def sint_of_nat_small)
  have tok: "(of_nat n :: u32) \<noteq> 0" using tokens(1) w unat_0 by (metis n_def less_irrefl)
  have q: "(word_of_int (sv_quant_bits sv) :: byte) = 2 \<or> (word_of_int (sv_quant_bits sv) :: byte) = 4" using quant by auto
  obtain hdr where hdr: "read_cached_text os' out (kve_sha (kc_entry kc ! i)) prompt_text = Some (Some (hdr, tx, payload @ extra))"
    "kve_tokens hdr = of_nat n" "kve_payload_bytes hdr = ds4_session_payload_bytes s" "kve_ext_flags hdr = flags"
    using read_cached_text_stored [OF server(3) tx(2) tok q kv_reason_code_le fl(2) start] unfolding out by blast
  have ck: "se_checkpoint s = live_tokens sv" by (simp add: s_def live_tokens_def)
  obtain s2 where s2: "ds4_session_load_payload (sv_kernels sv') (ds4_session.truncate (sv_session sv')) (payload @ extra) (ds4_session_payload_bytes s) = Loaded s2 extra"
    "se_checkpoint_valid s2" "se_checkpoint s2 = live_tokens sv"
    using session_payload_loads [OF ok ok' compat _ pay [unfolded s_def], of extra] tokens(2)
    by (auto simp: ck s_def [symmetric] live_tokens_def)
  define svl where "svl = set_session s2 (sv'\<lparr>sv_kv := kc\<rparr>)"
  have svl: "live_tokens svl = live_tokens sv" "se_checkpoint_valid (sv_session svl)" "sv_vocab svl = sv_vocab sv" "sv_mem svl = sv_mem sv'"
    "sv_kv svl = kc"
    using s2 server(4) by (simp_all add: svl_def)
  obtain sfx where sfx: "build_prompt_from_exact_prefix_and_text_suffix (sv_vocab sv) (live_tokens sv) (drop (length tx) prompt_text) = Some (live_tokens sv @ sfx)"
    "render_tokens_text (sv_vocab sv) sfx = drop (length tx) prompt_text"
    by (rule suffix_prompt [OF server(5)])
  obtain m2 where m2: "map_option snd (kv_tool_map_load_from_pos (sv_disable_replay svl) None extra (sv_mem sv')) = Some m2"
    using tool_map_load_total [OF server(6), of "sv_disable_replay svl" None extra] by auto
  have q': "\<not> (sv_quant_bits sv' \<noteq> 2 \<and> sv_quant_bits sv' \<noteq> 4)" using server(2) by auto
  have load: "\<exists>sv2. kv_cache_try_load_text os' prompt_text sv' = Some (int n, live_tokens sv @ sfx, Some (kve_path (kc_entry kc ! i)), sv2)
      \<and> sv_session sv2 = sv_session svl"
    unfolding kv_cache_try_load_text_def if_not_P [OF q'] found Let_def
    using server(1) tokens(1)
    by (simp add: fl(1) hdr s2(1) svl_def [symmetric] svl sn sfx(1) n_def [symmetric] del: not_None_eq)
      (auto simp: m2)
  then obtain sv2 where sv2: "kv_cache_try_load_text os' prompt_text sv' = Some (int n, live_tokens sv @ sfx, Some (kve_path (kc_entry kc ! i)), sv2)"
    "sv_session sv2 = sv_session svl" by blast
  have "live_tokens sv2 = live_tokens sv" "se_checkpoint_valid (sv_session sv2)" using sv2(2) svl by (simp_all add: live_tokens_def)
  then show ?thesis
    using sv2(1) sfx(2) byte_prefix_rest [OF start] tx(1)
    by (intro exI [of _ "live_tokens sv @ sfx"] exI [of _ sv2]) (simp add: n_def extends_def live_tokens_def)
qed

text \<open>A store that fails changes no cache entry: every file with the name of an entry is as before, or it was removed
  because it could not be used.  Whatever was written so far is under another name.\<close>

theorem failed_store_keeps_entries:
  assumes res: "kv_cache_store_live_prefix os rnd tokens n reason sv = Some (False, sv')"
    and name: "sha_hex_name name \<noteq> None" and junk: "length (os_junk os) = 64"
  shows "sv_files sv' (path_join (kc_dir (sv_kv sv)) name) \<in> {sv_files sv (path_join (kc_dir (sv_kv sv)) name), None}"
proof -
  define p where "p = path_join (kc_dir (sv_kv sv)) name"
  define tx where "tx = render_tokens_text (sv_vocab sv) (tokens_copy_prefix tokens n)"
  define path where "path = kv_path_for_sha (kc_dir (sv_kv sv)) (hex20 (sha1_spec tx))"
  have tmp: "p \<noteq> path @ ascii ''.tmp.'' @ os_pid os"
  proof
    assume "p = path @ ascii ''.tmp.'' @ os_pid os"
    then have "length p = length path + 5 + length (os_pid os)" by (simp add: ascii_def)
    moreover have "length name = 43" using name by (auto simp: sha_hex_name_def split: if_splits)
    moreover have "length path = length (kc_dir (sv_kv sv) @ (if kc_dir (sv_kv sv) = [] \<or> last (kc_dir (sv_kv sv)) \<noteq> 0x2f then [0x2f] else [])) + 43"
      by (simp add: path_def kv_path_for_sha_def path_join_def ascii_def)
    ultimately show False by (simp add: p_def path_join_def split: if_splits)
  qed
  show ?thesis
  proof (cases "kc_enabled (sv_kv sv) \<and> \<not> n < ko_min_tokens (kc_opt (sv_kv sv)) \<and> \<not> (sv_quant_bits sv \<noteq> 2 \<and> sv_quant_bits sv \<noteq> 4)
      \<and> \<not> (length (live_tokens sv) \<noteq> length (tokens_copy_prefix tokens n) \<or> take (length (tokens_copy_prefix tokens n)) (live_tokens sv) \<noteq> tokens_copy_prefix tokens n)
      \<and> ds4_session_payload_bytes (ds4_session.truncate (sv_session sv)) \<noteq> 0 \<and> \<not> length tx > 4294967295")
    case False
    then have "sv' = sv"
      using res unfolding kv_cache_store_live_prefix_def Let_def tx_def [symmetric] by (auto split: if_splits)
    then show ?thesis by simp
  next
    case True
    obtain present fs where ex: "kv_cache_existing_compatible os (sv_kv sv) (sv_files sv) path (hex20 (sha1_spec tx)) tx (sv_quant_bits sv) (session_ctx sv) = Some (present, fs)"
      using res True unfolding kv_cache_store_live_prefix_def Let_def tx_def [symmetric] sha1_bytes_hex_eq [OF junk] path_def
      by (auto split: bind_splits)
    have fs: "fs q \<in> {sv_files sv q, None}" for q
      using ex by (auto simp: kv_cache_existing_compatible_def split: option.splits if_splits bind_splits)
    note eq = res [unfolded kv_cache_store_live_prefix_def Let_def, folded tx_def, unfolded sha1_bytes_hex_eq [OF junk] bind.bind_lunit, folded path_def, unfolded ex bind.bind_lunit prod.case]
    have "sv_files sv' p \<in> {fs p, None}"
      using eq True tmp by (auto split: if_splits bind_splits option.splits prod.splits)
    then show ?thesis using fs [of p] by (auto simp: p_def)
  qed
qed

section \<open>What a store leaves behind is an entry\<close>

lemma stored_file_is_entry:
  assumes s: "s = kv_fill_header quant reason flags tokens hits ctx t1 t2 (of_nat (length payload)) @ le_put32 (of_nat (length tx)) @ tx @ payload @ extra"
    and len: "length s < 2 ^ 63" "length tx \<le> 4294967295" and tok: "tokens \<noteq> 0" and q: "quant = 2 \<or> quant = 4" and reason: "reason \<le> KV_REASON_SHUTDOWN"
  shows "\<exists>e. kv_read_entry_file (Some s) path sha = Some e \<and> kve_path e = path \<and> kve_sha e = sha \<and> unat (kve_text_bytes e) = length tx
    \<and> kve_tokens e = tokens \<and> kve_ctx_size e = ctx \<and> kve_quant_bits e = quant"
proof -
  have u32: "unat (of_nat (length tx) :: u32) = length tx" using len(2) by (simp add: unat_of_nat take_bit_nat_eq_self)
  have all: "length s = 52 + length tx + length payload + length extra" by (simp add: s KV_CACHE_FIXED_HEADER_def)
  have u: "unat (of_nat m :: u64) = m" if "m < 2 ^ 63" for m using that by (simp add: unat_of_nat take_bit_nat_eq_self)
  have t: "(ucast (of_nat (length tx) :: u32) :: u64) = of_nat (length tx)" by (simp add: u32_as_nat u32)
  have n: "length tx < 2 ^ 63" "length payload < 2 ^ 63" "52 + length tx + length payload < 2 ^ 63" using all len(1) by simp_all
  have c1: "\<not> (- 1 - 52 < (of_nat (length tx) :: u64))" using u [OF n(1)] len(2) by (simp add: word_less_nat_alt)
  then have "unat (- 1 - 52 - of_nat (length tx) :: u64) = 2 ^ 64 - 53 - length tx"
    using unat_sub_le [of "of_nat (length tx)" "- 1 - 52 :: u64"] u [OF n(1)] by (simp add: not_less)
  then have c2: "\<not> (- 1 - 52 - of_nat (length tx) < (of_nat (length payload) :: u64))"
    using u [OF n(2)] n by (simp add: word_less_nat_alt)
  have "(52 + of_nat (length tx) + of_nat (length payload) :: u64) = of_nat (52 + length tx + length payload)" by simp
  then have c3: "\<not> (of_nat (length s) :: u64) < 52 + of_nat (length tx) + of_nat (length payload)"
    using u [OF n(3)] u [OF len(1)] all by (simp add: word_less_nat_alt del: of_nat_add)
  have h: "kv_read_header s = Some (kv_entry_zero\<lparr>kve_quant_bits := quant, kve_reason := reason, kve_ext_flags := flags, kve_tokens := tokens,
        kve_hits := hits, kve_ctx_size := ctx, kve_created_at := t1, kve_last_used := t2,
        kve_payload_bytes := of_nat (length payload), kve_text_bytes := ucast (of_nat (length tx) :: u32)\<rparr>, of_nat (length tx), tx @ payload @ extra)"
    unfolding s by (rule kv_read_fill_header [OF tok q reason])
  show ?thesis
    using all c1 c2 c3 u [OF n(1)]
    by (simp add: kv_read_entry_file_def h Let_def KV_CACHE_FIXED_HEADER_def t)
qed

lemma fwrites_room: "length (concat bss) \<le> room \<Longrightarrow> fwrites bss (d, room) = (True, (d @ concat bss, room - length (concat bss)))"
  using fwrites_result [of bss d room] by (cases "fwrites bss (d, room)") auto

lemma write_store_succeeds:
  assumes w: "written (save_payload (sv_kernels sv) (ds4_session.truncate (sv_session sv))) = Some payload"
    and room: "52 + length tx + length payload \<le> os_room os" and off: "sv_disable_replay sv"
  shows "write_store_file os sv tx n reason flags = Some (True, kv_fill_header (word_of_int (sv_quant_bits sv)) reason flags (of_nat n) 0 (word_of_int (session_ctx sv)) (os_now os) (os_now os)
        (ds4_session_payload_bytes (ds4_session.truncate (sv_session sv))) @ le_put32 (of_nat (length tx)) @ tx @ payload, sv_mem sv)"
proof -
  obtain chunks complete where ch: "save_payload (sv_kernels sv) (ds4_session.truncate (sv_session sv)) = (chunks, complete)" by (metis surj_pair)
  then have c: "complete" "concat chunks = payload" using w by (simp_all add: written_def split: if_splits)
  show ?thesis
    using room off c(1)
    by (simp add: write_store_file_def Let_def fwrites_room KV_CACHE_FIXED_HEADER_def ds4_session_save_payload_def ch c(2) kv_tool_map_write_def
        del: fwrites.simps)
qed

lemma unat_byte: "unat (b :: byte) < 256"
  by (rule order.strict_trans2 [OF unsigned_less]) simp

lemma hex_digit_name: "list_all is_xdigit (hex20 bs)" "map ascii_lower (hex20 bs) = hex20 bs"
proof -
  have d: "is_xdigit (hex_chars ! unat (d :: byte)) \<and> ascii_lower (hex_chars ! unat d) = hex_chars ! unat d" if "unat d < 16" for d
  proof -
    have "\<forall>i < 16. is_xdigit (hex_chars ! i) \<and> ascii_lower (hex_chars ! i) = hex_chars ! i" by code_simp
    then show ?thesis using that by blast
  qed
  have n: "unat (drop_bit 4 b) < 16" "unat (b AND 15) < 16" for b :: byte
  proof -
    have "b AND 15 \<le> 15" by (rule word_and_le1)
    then show "unat (b AND 15) < 16" by (simp add: word_le_nat_alt)
    have "unat b div 16 < 16" by (rule less_mult_imp_div_less) (use unat_byte [of b] in simp)
    then show "unat (drop_bit 4 b) < 16" by (simp add: unat_drop_bit_eq drop_bit_eq_div unat_div)
  qed
  show "list_all is_xdigit (hex20 bs)" "map ascii_lower (hex20 bs) = hex20 bs"
    by (induction bs) (simp_all add: hex20_def d n)
qed

lemma entry_name: "sha_hex_name (hex20 (sha1_spec m) @ ascii ''.kv'') = Some (hex20 (sha1_spec m))"
  by (simp add: sha_hex_name_def hex_digit_name ascii_def)

section \<open>Samples\<close>

definition plain_os :: "byte list list \<Rightarrow> nat \<Rightarrow> os" where
  "plain_os names room =
     \<lparr>os_list = (\<lambda>fs dir. Some (filter (\<lambda>n. fs (path_join dir n) \<noteq> None) names)), os_mkdir = (\<lambda>_. True), os_read = (\<lambda>_. True), os_update = (\<lambda>_. True),
      os_create = (\<lambda>_. True), os_truncate = (\<lambda>_. True), os_unlink = (\<lambda>_. True), os_rename = (\<lambda>_. True), os_close = (\<lambda>_. True),
      os_room = room, os_now = 7, os_pid = ascii ''9'', os_junk = replicate 64 0\<rparr>"

definition sample_kv :: "u64 \<Rightarrow> kv_disk_cache" where
  "sample_kv budget = kv_cache_zero\<lparr>kc_enabled := True, kc_dir := ascii ''d'', kc_budget_bytes := budget\<rparr>"

definition sample_server :: "unit live_session \<Rightarrow> files \<Rightarrow> unit server" where
  "sample_server s fs =
     \<lparr>sv_kv = sample_kv 0, sv_session = s, sv_mem = memory_start 0 0, sv_disable_replay = True, sv_quant_bits = 2, sv_vocab = byte_vocab,
      sv_kernels = no_kernels, sv_last_evicted = [], sv_files = fs\<rparr>"

lemma byte_vocab_lossless: "lossless_vocab byte_vocab"
  using byte_vocab_consistent byte_vocab_closed byte_vocab_specials by (simp add: lossless_vocab_def)

lemma sample_live_fields [simp]:
  "se_checkpoint (sample_live c ctx n toks) = toks" "se_checkpoint_valid (sample_live c ctx n toks)" "se_ctx_size (sample_live c ctx n toks) = ctx"
  "\<not> gg_turbo_packv4 (se_graph (sample_live c ctx n toks))" "se_cpu (sample_live c ctx n toks) = False"
  by (simp_all add: sample_live_def ds4_session.extend_def sample_session_def)

lemma byte_vocab_text: "render_tokens_text byte_vocab [7, 9] = [7, 9]"
proof -
  have "token byte_vocab ! 7 = enc_byte 7" "token byte_vocab ! 9 = enc_byte 9"
    by (simp_all add: byte_vocab_def byte_vocab_texts_def nth_append)
  moreover have "(let t = enc_byte 7 in if vocab_token_is_literal_special t then t else decode_token_bytes t) = [7]"
    "(let t = enc_byte 9 in if vocab_token_is_literal_special t then t else decode_token_bytes t) = [9]" by code_simp+
  ultimately show ?thesis by (simp add: render_tokens_text_def vocab_token_text_def byte_vocab_def Let_def)
qed

theorem live_prompt_spells_request_witness:
  "\<exists>effective. live_text_prefix_prompt (render_tokens_text byte_vocab [7, 9] @ ascii ''hi'') (sample_server (sample_live 1 16 1 [7, 9]) (\<lambda>_. None)) = Some (2, effective)
    \<and> render_tokens_text byte_vocab effective = render_tokens_text byte_vocab [7, 9] @ ascii ''hi''
    \<and> extends (sample_live 1 16 1 [7, 9]) effective"
  using live_prompt_spells_request [of "sample_server (sample_live 1 16 1 [7, 9]) (\<lambda>_. None)" "render_tokens_text byte_vocab [7, 9] @ ascii ''hi''"]
  by (simp add: sample_server_def live_tokens_def byte_vocab_lossless byte_prefix_match_def)

definition two_names :: "byte list list" where
  "two_names = [replicate 40 0x61 @ ascii ''.kv'', replicate 40 0x62 @ ascii ''.kv'']"

definition two_files :: files where
  "two_files = (\<lambda>p. if p \<in> set (map (path_join (ascii ''d'')) two_names) then Some entry_file_sample else None)"

lemma sample_entry_size: "kv_read_entry_file (Some entry_file_sample) path sha = Some e \<Longrightarrow> unat (kve_file_size e) = 57"
proof -
  have len: "length entry_file_sample = 57" by (simp add: entry_file_sample_def KV_CACHE_FIXED_HEADER_def)
  show "kv_read_entry_file (Some entry_file_sample) path sha = Some e \<Longrightarrow> unat (kve_file_size e) = 57"
    by (auto simp: kv_read_entry_file_def Let_def len split: option.splits if_splits)
qed

lemma entry_of_name_size: "entry_of_name (plain_os names room) two_files dir n = Some e \<Longrightarrow> unat (kve_file_size e) = 57"
  by (auto simp: entry_of_name_def read_file_def plain_os_def two_files_def kv_read_entry_file_def [of None]
      split: option.splits if_splits dest: sample_entry_size)

theorem eviction_within_budget_witness:
  "\<exists>kc' fs'. kv_cache_evict (plain_os two_names 0) id (sample_kv 60) two_files = (kc', fs')
     \<and> entries_size (kc_entry (kv_cache_refresh (plain_os two_names 0) fs' (sample_kv 60))) \<le> 60"
proof -
  obtain kc' fs' where r: "kv_cache_evict (plain_os two_names 0) id (sample_kv 60) two_files = (kc', fs')" by (metis surj_pair)
  have on: "kc_enabled (sample_kv 60)" "kc_budget_bytes (sample_kv 60) = 60" by (simp_all add: sample_kv_def)
  have d: "distinct two_names" by (simp add: two_names_def ascii_def)
  have l: "os_list (plain_os two_names 0) fs (kc_dir (sample_kv 60)) = Some (filter (\<lambda>n. fs (path_join (kc_dir (sample_kv 60)) n) \<noteq> None) two_names)" for fs
    by (simp add: plain_os_def)
  have l0: "os_list (plain_os two_names 0) two_files (kc_dir (sample_kv 60)) = Some two_names"
    by (simp add: plain_os_def two_files_def sample_kv_def two_names_def)
  define es where "es = List.map_filter (entry_of_name (plain_os two_names 0) two_files (kc_dir (sample_kv 60))) two_names"
  have "length es \<le> length two_names" by (simp add: es_def map_filter_def two_names_def)
  moreover have "entries_size es = sum_list (map (\<lambda>_. 57) es)"
    unfolding entries_size_def by (rule arg_cong [of _ _ sum_list], rule map_cong [OF refl]) (auto simp: es_def in_filtered dest: entry_of_name_size)
  ultimately have fits: "entries_size es < 2 ^ 64" by (simp add: sum_list_triv two_names_def)
  have un: "os_unlink (plain_os two_names 0) p" for p by (simp add: plain_os_def)
  have "entries_size (kc_entry (kv_cache_refresh (plain_os two_names 0) fs' (sample_kv 60))) \<le> unat (60 :: u64)"
    using eviction_within_budget [OF on(1) _ un l0 d _ r, THEN conjunct1] fits d on(2) l [of fs'] by (simp add: refresh_entries [OF on(1) l0] es_def)
  then show ?thesis by (intro exI [of _ kc'] exI [of _ fs'] conjI r) simp
qed

theorem failed_store_keeps_entries_witness:
  "\<exists>sv'. kv_cache_store_live_prefix ((plain_os [] 10)\<lparr>os_read := \<lambda>_. False\<rparr>) id [7, 9] 2 (ascii ''cold'') (sample_server (sample_live 1 16 1 [7, 9]) two_files) = Some (False, sv')
     \<and> sv_files sv' (path_join (ascii ''d'') (hd two_names)) \<in> {Some entry_file_sample, None}"
proof -
  define os where "os = (plain_os [] 10)\<lparr>os_read := \<lambda>_. False\<rparr>"
  define sv where "sv = sample_server (sample_live 1 16 1 [7, 9]) two_files"
  have junk: "length (os_junk os) = 64" by (simp add: os_def plain_os_def)
  have name: "sha_hex_name (hd two_names) \<noteq> None" by (simp add: two_names_def sha_hex_name_def ascii_def) code_simp
  obtain bytes where w: "written (save_payload no_kernels (sample_session 1 16 5 1 [7, 9])) = Some bytes"
    by (rule sample_session_saved)
  have ok: "gpu_session_ok (sample_session 1 16 5 1 [7, 9])" by (rule sample_session_ok) simp_all
  have n: "length (se_checkpoint (sample_session 1 16 5 1 [7, 9])) < 2 ^ 32" by (simp add: sample_session_def)
  have "ds4_session_payload_bytes (sample_session 1 16 5 1 [7, 9]) = of_nat (length bytes)" "0 < length bytes" "length bytes < 2 ^ 62"
    using session_payload_bytes_exact [OF ok n w] saved_size [OF ok n w] saved_payload_small [OF ok n w]
    by (simp_all add: DS4_N_LAYER_def)
  then have pay: "ds4_session_payload_bytes (ds4_session.truncate (sv_session sv)) \<noteq> 0"
    by (simp add: sv_def sample_server_def sample_live_truncate unat_of_nat take_bit_nat_eq_self word_unat_eq_iff [of _ "0 :: u64"])
  have tx: "length (render_tokens_text byte_vocab [7, 9]) \<le> 2" by (simp add: byte_vocab_text)
  have f: "sv_kv sv = sample_kv 0" "sv_quant_bits sv = 2" "sv_vocab sv = byte_vocab" "sv_files sv = two_files" "sv_disable_replay sv"
    "kc_enabled (sample_kv 0)" "ko_min_tokens (kc_opt (sample_kv 0)) = 0" "live_tokens sv = [7, 9]" "tokens_copy_prefix [7, 9] 2 = [7, 9]"
    by (simp_all add: sv_def sample_server_def sample_kv_def kv_cache_zero_def live_tokens_def tokens_copy_prefix_def)
  have o: "os_create os p" "os_room os = 10" "read_file os fs p = None" for p fs by (simp_all add: os_def plain_os_def read_file_def)
  have ex: "kv_cache_existing_compatible os kc fs p h tx q c = Some (False, fs)" for kc fs p h tx q c
    by (simp add: kv_cache_existing_compatible_def o kv_read_entry_file_def)
  have ws: "\<exists>c m. write_store_file os (sv\<lparr>sv_files := two_files\<rparr>) tx n r flags = Some (False, c, m)" for tx n r flags
    by (simp add: write_store_file_def Let_def fwrite_def o KV_CACHE_FIXED_HEADER_def)
  have "\<exists>sv'. kv_cache_store_live_prefix os id [7, 9] 2 (ascii ''cold'') sv = Some (False, sv')"
    using pay tx ws [of "render_tokens_text byte_vocab [7, 9]" "Suc (Suc 0)" "kv_reason_code (ascii ''cold'')" 0]
    by (auto simp: kv_cache_store_live_prefix_def Let_def sha1_bytes_hex_eq [OF junk] ex f o tool_memory_count_dsml_in_text_def
        split: prod.split)
  then obtain sv' where r: "kv_cache_store_live_prefix os id [7, 9] 2 (ascii ''cold'') sv = Some (False, sv')" by blast
  from failed_store_keeps_entries [OF r name junk] r show ?thesis
    by (intro exI [of _ sv']) (simp add: os_def sv_def sample_server_def sample_kv_def two_files_def two_names_def)
qed

theorem stored_checkpoint_continues_witness:
  "\<exists>os (sv :: unit server) os' (sv' :: unit server) out i kc effective sv2. write_store_file os sv [7, 9] 2 KV_REASON_COLD 0 = Some (True, out, sv_mem sv) \<and> live_tokens sv = [7, 9]
     \<and> kv_cache_find_text_prefix os' (sv_files sv') ([7, 9] @ ascii ''hi'') 2 32 (sv_kv sv') = Some (Some i, kc)
     \<and> sv_files sv' (kve_path (kc_entry kc ! i)) = Some out
     \<and> kv_cache_try_load_text os' ([7, 9] @ ascii ''hi'') sv' = Some (2, effective, Some (kve_path (kc_entry kc ! i)), sv2)
     \<and> live_tokens sv2 = [7, 9] \<and> render_tokens_text byte_vocab effective = [7, 9] @ ascii ''hi'' \<and> extends (sv_session sv2) effective"
proof -
  obtain bytes where w: "written (save_payload no_kernels (sample_session 1 16 5 1 [7, 9])) = Some bytes"
    by (rule sample_session_saved)
  have ok: "gpu_session_ok (sample_session 1 16 5 1 [7, 9])" "gpu_session_ok (sample_session 3 32 5 0 [])"
    by (rule sample_session_ok; simp)+
  have n: "length (se_checkpoint (sample_session 1 16 5 1 [7, 9])) < 2 ^ 32" by (simp add: sample_session_def)
  have size: "ds4_session_payload_bytes (sample_session 1 16 5 1 [7, 9]) = of_nat (length bytes)" "length bytes < 2 ^ 62"
    using session_payload_bytes_exact [OF ok(1) n w] saved_payload_small [OF ok(1) n w] by simp_all
  define os where "os = plain_os [] (54 + length bytes)"
  define sv where "sv = sample_server (sample_live 1 16 1 [7, 9]) (\<lambda>_. None)"
  have f: "sv_kernels sv = no_kernels" "ds4_session.truncate (sv_session sv) = sample_session 1 16 5 1 [7, 9]" "sv_disable_replay sv"
    "sv_quant_bits sv = 2" "sv_vocab sv = byte_vocab" "live_tokens sv = [7, 9]" "session_ctx sv = 16"
    by (simp_all add: sv_def sample_server_def sample_live_truncate live_tokens_def session_ctx_def)
  define out where "out = kv_fill_header 2 KV_REASON_COLD 0 2 0 16 7 7 (of_nat (length bytes)) @ le_put32 (of_nat (length [7, 9 :: byte])) @ [7, 9] @ bytes @ []"
  have stored: "write_store_file os sv [7, 9] 2 KV_REASON_COLD 0 = Some (True, out, sv_mem sv)"
    using write_store_succeeds [of sv bytes "[7, 9]" os 2 KV_REASON_COLD 0] w
    by (simp add: f size(1) out_def os_def plain_os_def)
  define sha where "sha = hex20 (sha1_spec [7, 9])"
  define path where "path = path_join (ascii ''d'') (sha @ ascii ''.kv'')"
  define os' where "os' = plain_os [sha @ ascii ''.kv''] 0"
  define sv' where "sv' = sample_server (sample_live 3 32 0 []) (\<lambda>p. if p = path then Some out else None)"
  have f': "sv_kv sv' = sample_kv 0" "sv_quant_bits sv' = 2" "sv_vocab sv' = byte_vocab" "session_ctx sv' = 32"
    "ds4_session.truncate (sv_session sv') = sample_session 3 32 5 0 []" "kc_enabled (sample_kv 0)" "kc_dir (sample_kv 0) = ascii ''d''"
    "sv_mem sv' = memory_start 0 0" "sv_files sv' path = Some out" "\<not> gg_turbo_packv4 (se_graph (sv_session sv'))"
    by (simp_all add: sv'_def sample_server_def sample_live_truncate session_ctx_def sample_kv_def)
  have junk: "length (os_junk os') = 64" by (simp add: os'_def plain_os_def)
  have "length out < 2 ^ 63" using size(2) by (simp add: out_def KV_CACHE_FIXED_HEADER_def)
  then obtain e where e: "kv_read_entry_file (Some out) path sha = Some e" "kve_path e = path" "kve_sha e = sha" "unat (kve_text_bytes e) = 2"
    "kve_tokens e = 2" "kve_ctx_size e = 16" "kve_quant_bits e = 2"
    using stored_file_is_entry [OF out_def, of path sha] by (auto simp: kv_constants)
  define kc where "kc = kv_cache_refresh os' (sv_files sv') (sv_kv sv')"
  have names: "os_list os' (sv_files sv') (kc_dir (sample_kv 0)) = Some [sha @ ascii ''.kv'']"
    using f'(9) by (simp add: os'_def plain_os_def f'(7) path_def)
  have "sha_hex_name (sha @ ascii ''.kv'') = Some sha" by (simp add: sha_def entry_name)
  moreover have "read_file os' (sv_files sv') (path_join (ascii ''d'') (sha @ ascii ''.kv'')) = Some out"
    using f'(9) by (simp add: read_file_def os'_def plain_os_def path_def)
  ultimately have "entry_of_name os' (sv_files sv') (ascii ''d'') (sha @ ascii ''.kv'') = Some e"
    using e(1) by (simp add: entry_of_name_def path_def)
  then have ents: "kc_entry kc = [e]"
    using refresh_entries [OF f'(6) names] by (simp add: kc_def f'(1,7) map_filter_simps)
  have el: "eligible kc ([7, 9] @ ascii ''hi'') 2 32 e"
    by (simp add: eligible_def e sha_def kc_def f' sample_kv_def kv_cache_zero_def)
  obtain best where best: "kv_cache_find_text_prefix os' (sv_files sv') ([7, 9] @ ascii ''hi'') 2 32 (sv_kv sv') = Some (best, kc)"
    "best_of kc (eligible kc ([7, 9] @ ascii ''hi'') 2 32) (length (kc_entry kc)) best"
    using find_fold [OF junk, of kc "[7, 9] @ ascii ''hi''" 2 32 "length (kc_entry kc)"]
    by (auto simp: kv_cache_find_text_prefix_def Let_def kc_def [symmetric])
  then have "best = Some 0" using el ents by (auto simp: best_of_def split: option.splits)
  then have found: "kv_cache_find_text_prefix os' (sv_files sv') ([7, 9] @ ascii ''hi'') (sv_quant_bits sv') (session_ctx sv') (sv_kv sv') = Some (Some 0, kc)"
    using best(1) by (simp add: f')
  have p0: "kve_path (kc_entry kc ! 0) = path" "kve_sha (kc_entry kc ! 0) = sha" by (simp_all add: ents e)
  have rd: "read_file os' (sv_files sv') (kve_path (kc_entry kc ! 0)) = Some out" by (simp add: read_file_def p0 f' os'_def plain_os_def)
  have st: "write_store_file os sv [7, 9] (length (live_tokens sv)) (kv_reason_code (ascii ''cold'')) 0 = Some (True, out, sv_mem sv)"
    using stored by (simp add: f kv_reason_code_def numeral_2_eq_2)
  have mem: "memory_ok (sv_mem sv') []" unfolding f'(8) by (rule memory_start_ok)
  have "\<exists>effective sv2. kv_cache_try_load_text os' ([7, 9] @ ascii ''hi'') sv'
        = Some (int (length (live_tokens sv)), effective, Some (kve_path (kc_entry kc ! 0)), sv2)
      \<and> live_tokens sv2 = live_tokens sv \<and> render_tokens_text (sv_vocab sv) effective = [7, 9] @ ascii ''hi''
      \<and> extends (sv_session sv2) effective"
    by (rule stored_checkpoint_continues [OF st _ _ _ _ _ found rd _ _ _ _ junk _ _ mem])
      (use ok sample_session_compatible [of 1 3 16 32 "[7, 9]" 5 1 5 0 "[]"] in \<open>simp_all add: f f' byte_vocab_text byte_vocab_lossless p0 sha_def byte_prefix_match_def
        plain_keeps_rows sample_session_plain\<close>)
  then show ?thesis using stored found f f' p0 by (intro exI [of _ os] exI [of _ sv] exI [of _ os'] exI [of _ sv'] exI [of _ out] exI [of _ 0] exI [of _ kc]) auto
qed

end
