(* ===== verification/Ds4_Worker.thy ===== *)
theory Ds4_Worker
  imports Ds4_KvCache Ds4_Dsml
begin

text \<open>
  What the worker does to the session around one request, \<^verbatim>\<open>src/server/ds4_server.c\<close>: the choice of a checkpoint and
  the prefill at the start of \<^verbatim>\<open>generate_job\<close>, the tracking of thinking tags, and the rewriting of the finished turn
  to what the next request renders (\<^verbatim>\<open>canonicalize_tool_checkpoint\<close>, \<^verbatim>\<open>canonicalize_thinking_checkpoint\<close>).

  The operating system is a script \<open>oss\<close> here: each file operation of a request has its own \<open>os\<close>.  A progress call
  of a sync sees the session of that moment; it stores files and never changes the session, so the calls
  that \<open>ds4_session_sync\<close> records are run one after the other.

  The lemmas show that a served prompt is the request's own, or spells it from where the checkpoint ends, and that a
  turn whose checkpoint was right, rewritten, or rebuilt (from an honest checkpoint file or from the start) makes the next
  request of the conversation continue the live session.
\<close>

section \<open>Serving a prompt\<close>

definition server_progress_cb :: "os \<Rightarrow> (rat \<Rightarrow> rat) \<Rightarrow> int \<Rightarrow> int \<Rightarrow> 'w server \<Rightarrow> 'w server option" where
  "server_progress_cb os rnd cached_tokens current sv =
     (if current > cached_tokens then kv_cache_maybe_store_continued os rnd sv else Some sv)"

primrec progress_calls :: "(nat \<Rightarrow> os) \<Rightarrow> (rat \<Rightarrow> rat) \<Rightarrow> int \<Rightarrow> nat \<Rightarrow> 'w call list \<Rightarrow> 'w server \<Rightarrow> 'w server option" where
  "progress_calls oss rnd cached_tokens k [] sv = Some sv"
| "progress_calls oss rnd cached_tokens k (c # cs) sv =
     do { sv \<leftarrow> server_progress_cb (oss k) rnd cached_tokens (int (fst c)) (sv\<lparr>sv_session := snd c\<rparr>);
          progress_calls oss rnd cached_tokens (k + 1) cs sv }"

definition sync_server :: "'w forward \<Rightarrow> int option \<Rightarrow> (nat \<Rightarrow> os) \<Rightarrow> (rat \<Rightarrow> rat) \<Rightarrow> int \<Rightarrow> tokens \<Rightarrow> 'w server
    \<Rightarrow> (sync_error option \<times> 'w server) option" where
  "sync_server F env oss rnd cached_tokens prompt sv =
     (case ds4_session_sync F env prompt (sv_session sv) of
        (r, s, calls) \<Rightarrow> map_option (\<lambda>sv. (r, sv\<lparr>sv_session := s\<rparr>)) (progress_calls oss rnd cached_tokens 0 calls sv))"

text \<open>The checkpoint that was live before the last eviction, found by its tokens.\<close>

definition kv_cache_try_load_evicted :: "os \<Rightarrow> tokens \<Rightarrow> 'w server \<Rightarrow> (int \<times> 'w server) option" where
  "kv_cache_try_load_evicted os prompt sv =
     (let n = length (sv_last_evicted sv) in
      if n = 0 then Some (0, sv)
      else if length prompt < n \<or> take n prompt \<noteq> sv_last_evicted sv then Some (0, sv)
      else let tx = render_tokens_text (sv_vocab sv) (sv_last_evicted sv) in
      if tx = [] then Some (0, sv)
      else do {
        sha \<leftarrow> sha1_bytes_hex (os_junk os) tx;
        (case read_file os (sv_files sv) (kv_path_for_sha (kc_dir (sv_kv sv)) sha) of
           None \<Rightarrow> Some (0, sv)
         | Some s \<Rightarrow>
             (case kv_read_header s of
                None \<Rightarrow> Some (0, sv)
              | Some (hdr, text_bytes, rest) \<Rightarrow>
                  if kve_quant_bits hdr \<noteq> word_of_int (sv_quant_bits sv) \<or> kve_tokens hdr \<noteq> of_nat n then Some (0, sv)
                  else (case ds4_session_load_payload (sv_kernels sv) (ds4_session.truncate (sv_session sv))
                               (drop (unat text_bytes) rest) (kve_payload_bytes hdr) of
                          Overflow \<Rightarrow> None
                        | Failed s2 rest \<Rightarrow> Some (0, invalidate (set_session s2 sv))
                        | Loaded s2 rest \<Rightarrow>
                            let sv = set_session s2 sv; loaded = sint (kve_tokens hdr) in
                            Some (if int (length (live_tokens sv)) = loaded then (if loaded > 0 then (loaded, sv) else (0, sv))
                                  else (0, invalidate sv)))))
      })"

datatype cache_source = NoCache | MemoryToken | MemoryText | DiskText | DiskEvicted

text \<open>What is taken as the cached part: its length, where it comes from, and the prompt for the session.\<close>

definition find_cached :: "(nat \<Rightarrow> os) \<Rightarrow> (rat \<Rightarrow> rat) \<Rightarrow> tokens \<Rightarrow> byte list \<Rightarrow> 'w server \<Rightarrow> (int \<times> cache_source \<times> tokens \<times> 'w server) option" where
  "find_cached oss rnd prompt prompt_text sv =
     (let old_pos = length (live_tokens sv);
          common = ds4_session_common_prefix (sv_session sv) prompt;
          cached = (if common = old_pos \<and> length prompt \<ge> old_pos then common else 0) in
      if cached > 0 then Some (int cached, MemoryToken, prompt, sv)
      else do {
        (text_cached, effective) \<leftarrow> live_text_prefix_prompt prompt_text sv;
        if text_cached > 0 then Some (text_cached, MemoryText, effective, sv)
        else do {
          let sv = sv\<lparr>sv_kv := (sv_kv sv)\<lparr>kc_continued_last_store_tokens := 0\<rparr>\<rparr>;
          sv \<leftarrow> (if kc_enabled (sv_kv sv) \<and> int old_pos \<ge> ko_min_tokens (kc_opt (sv_kv sv))
                then kv_cache_store_current (oss 0) rnd (ascii ''evict'') sv else Some sv);
          (disk_cached, effective, path, sv) \<leftarrow> kv_cache_try_load_text (oss 1) prompt_text sv;
          if disk_cached > 0 then Some (disk_cached, DiskText, effective, sv)
          else do {
            (evicted_cached, sv) \<leftarrow> (if length (sv_last_evicted sv) > 0 then kv_cache_try_load_evicted (oss 2) prompt sv else Some (0, sv));
            Some (if evicted_cached > 0 then (evicted_cached, DiskEvicted, prompt, sv) else (0, NoCache, prompt, sv))
          }
        }
      })"

definition set_progress :: "bool \<Rightarrow> 'w server \<Rightarrow> 'w server" where
  "set_progress on sv = sv\<lparr>sv_session := (sv_session sv)\<lparr>lv_progress := on\<rparr>\<rparr>"

definition cold_store :: "os \<Rightarrow> (rat \<Rightarrow> rat) \<Rightarrow> tokens \<Rightarrow> int \<Rightarrow> 'w server \<Rightarrow> 'w server option" where
  "cold_store os rnd prompt cold_store_len sv =
     map_option (\<lambda>(stored, sv). if stored then sv\<lparr>sv_kv := kv_cache_note_store cold_store_len (sv_kv sv)\<rparr> else sv)
       (kv_cache_store_live_prefix os rnd prompt cold_store_len (ascii ''cold'') sv)"

definition cold_length :: "int \<Rightarrow> int \<Rightarrow> kv_disk_cache \<Rightarrow> int" where
  "cold_length cached n kc =
     (if cached = 0 \<and> kc_enabled kc \<and> n \<ge> ko_min_tokens (kc_opt kc) \<and> ko_cold_max_tokens (kc_opt kc) > 0
         \<and> n \<le> ko_cold_max_tokens (kc_opt kc)
      then kv_cache_store_len kc n else 0)"

record 'w served =
  sd_error :: "sync_error option"
  sd_cached :: int
  sd_source :: cache_source
  sd_prompt :: tokens
  sd_server :: "'w server"

definition serve_prompt :: "'w forward \<Rightarrow> int option \<Rightarrow> (nat \<Rightarrow> os) \<Rightarrow> (rat \<Rightarrow> rat) \<Rightarrow> tokens \<Rightarrow> byte list \<Rightarrow> 'w server \<Rightarrow> 'w served option" where
  "serve_prompt F env oss rnd prompt prompt_text sv = do {
     (cached, source, p, sv) \<leftarrow> find_cached oss rnd prompt prompt_text sv;
     let sv = set_progress True sv;
     let cold = cold_length cached (int (length p)) (sv_kv sv);
     (r, sv) \<leftarrow>
       (if kc_enabled (sv_kv sv) \<and> cold \<ge> ko_min_tokens (kc_opt (sv_kv sv)) \<and> cold < int (length p)
        then do {
          (r, sv) \<leftarrow> sync_server F env (\<lambda>k. oss (4 + 2 * k)) rnd cached (tokens_copy_prefix p cold) sv;
          if r \<noteq> None then Some (r, sv) else map_option (\<lambda>sv. (None, sv)) (cold_store (oss 3) rnd p cold sv)
        }
        else Some (None, sv));
     if r \<noteq> None then Some \<lparr>sd_error = r, sd_cached = cached, sd_source = source, sd_prompt = p, sd_server = set_progress False sv\<rparr>
     else do {
       (r, sv) \<leftarrow> sync_server F env (\<lambda>k. oss (5 + 2 * k)) rnd cached p sv;
       let sv = set_progress False sv;
       sv \<leftarrow> (if r = None \<and> cold = int (length p) then cold_store (oss 3) rnd p cold sv else Some sv);
       Some \<lparr>sd_error = r, sd_cached = cached, sd_source = source, sd_prompt = p, sd_server = sv\<rparr>
     }
   }"

section \<open>Thinking tags\<close>

text \<open>Sampled text is followed through its last eight bytes, the length of the closing tag.\<close>

record thinking_state =
  ts_inside :: bool
  ts_tail :: "byte list"

definition thinking_tail_ends_with :: "thinking_state \<Rightarrow> byte list \<Rightarrow> bool" where
  "thinking_tail_ends_with st s \<longleftrightarrow>
     length (ts_tail st) \<ge> length s \<and> drop (length (ts_tail st) - length s) (ts_tail st) = s"

definition thinking_byte :: "byte \<Rightarrow> thinking_state \<Rightarrow> thinking_state" where
  "thinking_byte c st =
     (let st = (if length (ts_tail st) = 8 then st\<lparr>ts_tail := tl (ts_tail st)\<rparr> else st);
          st = st\<lparr>ts_tail := ts_tail st @ [c]\<rparr> in
      if thinking_tail_ends_with st tok_think_start then st\<lparr>ts_inside := True\<rparr>
      else if thinking_tail_ends_with st tok_think_end then st\<lparr>ts_inside := False\<rparr>
      else st)"

definition thinking_state_feed :: "byte list \<Rightarrow> thinking_state \<Rightarrow> thinking_state" where
  "thinking_state_feed p st = fold thinking_byte p st"

definition thinking_state_zero :: thinking_state where
  "thinking_state_zero = \<lparr>ts_inside = False, ts_tail = []\<rparr>"

definition thinking_state_from_prompt :: "request \<Rightarrow> thinking_state" where
  "thinking_state_from_prompt r = thinking_state_feed (r_prompt_text r) thinking_state_zero"

section \<open>Rewriting the finished turn\<close>

definition should_canonicalize_thinking_checkpoint :: "request \<Rightarrow> thinking_state \<Rightarrow> byte list \<Rightarrow> bool" where
  "should_canonicalize_thinking_checkpoint r thinking finish \<longleftrightarrow>
     r_kind r = REQ_CHAT \<and> \<not> r_has_tools r \<and> \<not> r_prompt_preserves_reasoning r \<and> ds4_think_mode_enabled (r_think_mode r)
     \<and> \<not> (finish = ascii ''error'' \<or> finish = ascii ''length'') \<and> \<not> ts_inside thinking"

definition build_tool_checkpoint_suffix :: "request \<Rightarrow> byte list option \<Rightarrow> byte list option \<Rightarrow> tool_calls \<Rightarrow> byte list" where
  "build_tool_checkpoint_suffix r visible reasoning calls =
     (if ds4_think_mode_enabled (r_think_mode r) then or_empty reasoning @ tok_think_end else [])
     @ or_empty visible @ append_dsml_tool_calls_text calls @ tok_eos"

datatype canon_result = AlreadySame | Skipped | Rewritten | Rebuilt int | CanonFailed

text \<open>The rewrite in place, and when it needs a rebuild: an older checkpoint file, or a prefill from the start.\<close>

definition rewrite_live :: "'w forward \<Rightarrow> int option \<Rightarrow> os \<Rightarrow> tokens \<Rightarrow> nat \<Rightarrow> byte list \<Rightarrow> 'w server \<Rightarrow> (canon_result \<times> 'w server) option" where
  "rewrite_live F env os canonical common rendered sv =
     (case ds4_session_rewrite_from_common F env canonical (int common) (sv_session sv) of
        (rr, s, calls) \<Rightarrow>
          let sv = sv\<lparr>sv_session := s\<rparr> in
          (case rr of
             RewriteOk \<Rightarrow> Some (Rewritten, sv)
           | RewriteRebuildNeeded \<Rightarrow> do {
               (loaded, effective, path, sv) \<leftarrow> kv_cache_try_load_text os rendered sv;
               let sv = (if loaded = 0 then invalidate sv else sv);
               (case ds4_session_sync F env (if loaded > 0 then effective else canonical) (sv_session sv) of
                  (r, s, calls) \<Rightarrow> Some (if r = None then Rebuilt loaded else CanonFailed, sv\<lparr>sv_session := s\<rparr>))
             }
           | RewriteError e \<Rightarrow> Some (CanonFailed, sv)))"

definition canonicalize_tool_checkpoint :: "'w forward \<Rightarrow> int option \<Rightarrow> os \<Rightarrow> request \<Rightarrow> tokens \<Rightarrow> byte list option \<Rightarrow> byte list option \<Rightarrow> tool_calls
    \<Rightarrow> 'w server \<Rightarrow> (canon_result \<times> 'w server) option" where
  "canonicalize_tool_checkpoint F env os r prompt visible reasoning calls sv =
     (if calls_v calls = [] then Some (Skipped, sv)
      else do {
        let rendered = r_prompt_text r @ build_tool_checkpoint_suffix r visible reasoning calls;
        canonical \<leftarrow> tokenize_rendered_chat_vocab (sv_vocab sv) (Some rendered) [];
        let live_len = length (live_tokens sv);
        let common = ds4_session_common_prefix (sv_session sv) canonical;
        if common = live_len \<and> length canonical = live_len then Some (AlreadySame, sv)
        else if render_tokens_text (sv_vocab sv) (live_tokens sv) = rendered then Some (AlreadySame, sv)
        else if common < length prompt then Some (Skipped, sv)
        else rewrite_live F env os canonical common rendered sv
      })"

definition canonicalize_thinking_checkpoint :: "'w forward \<Rightarrow> int option \<Rightarrow> os \<Rightarrow> request \<Rightarrow> byte list option
    \<Rightarrow> 'w server \<Rightarrow> (canon_result \<times> 'w server) option" where
  "canonicalize_thinking_checkpoint F env os r visible sv =
     (if \<not> ds4_think_mode_enabled (r_think_mode r) then Some (Skipped, sv)
      else let pt_len = length (r_prompt_text r); tag_len = length tok_think_start in
      if pt_len < tag_len \<or> drop (pt_len - tag_len) (r_prompt_text r) \<noteq> tok_think_start then Some (Skipped, sv)
      else do {
        let stable_prefix = take (pt_len - tag_len) (r_prompt_text r);
        let rendered = stable_prefix @ tok_think_end @ or_empty visible @ tok_eos;
        stable \<leftarrow> tokenize_rendered_chat_vocab (sv_vocab sv) (Some stable_prefix) [];
        canonical \<leftarrow> tokenize_rendered_chat_vocab (sv_vocab sv) (Some rendered) [];
        let live_len = length (live_tokens sv);
        let common = ds4_session_common_prefix (sv_session sv) canonical;
        if common = live_len \<and> length canonical = live_len then Some (AlreadySame, sv)
        else if common < length stable then Some (Skipped, sv)
        else rewrite_live F env os canonical common rendered sv
      })"

section \<open>What the steps leave alone\<close>

text \<open>With a meaning that accepts everything, the soundness of a sync is about tokens only and needs nothing of the transformer.\<close>

definition any_meaning :: "'w meaning" where
  "any_meaning = \<lparr>mn_rep = (\<lambda>_ _. True), mn_tokens = (\<lambda>_ _ _ _. True), mn_layers = (\<lambda>_ _ _ _ _. True), mn_rows = (\<lambda>_ _ _. True),
     mn_logits = (\<lambda>_ _. True), mn_host = (\<lambda>_ _. True)\<rparr>"

lemma any_meaning_sound [simp]: "forward_sound F any_meaning"
  by (simp add: forward_sound_def uploads_sound_def layers_sound_def decode_sound_def host_sound_def any_meaning_def)

lemma any_meaning_backed [simp]: "backed any_meaning s" "described_by any_meaning s"
  by (simp_all add: backed_def described_by_def any_meaning_def)

lemma sync_tokens:
  assumes "ds4_session_sync F env p s = (r, s', calls)"
  shows "if r = None then se_checkpoint_valid s' \<and> se_checkpoint s' = p
         else if r = Some ExceedsContext then s' = s else \<not> se_checkpoint_valid s'"
  using session_sync_result [OF any_meaning_sound any_meaning_backed(1) assms] by (simp split: if_splits)

text \<open>The part of the server record that storing and loading never change.\<close>

definition fixed :: "'w server \<Rightarrow> vocab \<times> bool \<times> kv_cache_options" where
  "fixed sv = (sv_vocab sv, kc_enabled (sv_kv sv), kc_opt (sv_kv sv))"

lemma fixed_session [simp]: "fixed (sv\<lparr>sv_session := s\<rparr>) = fixed sv" "fixed (set_progress b sv) = fixed sv" "fixed (invalidate sv) = fixed sv"
    "fixed (set_session s2 sv) = fixed sv"
  by (simp_all add: fixed_def set_progress_def invalidate_def set_session_def)

lemma rewrite_tool_map_fixed:
  "kv_cache_rewrite_tool_map os path tx sv = Some sv' \<Longrightarrow> fixed sv' = fixed sv \<and> sv_session sv' = sv_session sv"
  by (auto simp: kv_cache_rewrite_tool_map_def Let_def fixed_def split: bind_splits option.splits if_splits prod.splits)

lemma evict_fixed: "kv_cache_evict os rnd kc fs = (kc', fs') \<Longrightarrow> kc_enabled kc' = kc_enabled kc \<and> kc_opt kc' = kc_opt kc"
  by (auto simp: kv_cache_evict_def Let_def split: if_splits prod.splits)

lemma store_fixed:
  assumes res: "kv_cache_store_live_prefix os rnd tokens n reason sv = Some (b, sv')"
  shows "fixed sv' = fixed sv \<and> sv_session sv' = sv_session sv"
proof (cases "sv' = sv")
  case False
  define tx where "tx = render_tokens_text (sv_vocab sv) (tokens_copy_prefix tokens n)"
  have "kc_enabled (sv_kv sv) \<and> \<not> n < ko_min_tokens (kc_opt (sv_kv sv)) \<and> \<not> (sv_quant_bits sv \<noteq> 2 \<and> sv_quant_bits sv \<noteq> 4)
      \<and> \<not> (length (live_tokens sv) \<noteq> length (tokens_copy_prefix tokens n) \<or> take (length (tokens_copy_prefix tokens n)) (live_tokens sv) \<noteq> tokens_copy_prefix tokens n)
      \<and> ds4_session_payload_bytes (ds4_session.truncate (sv_session sv)) \<noteq> 0 \<and> \<not> length tx > 4294967295"
    using res False unfolding kv_cache_store_live_prefix_def Let_def tx_def [symmetric] by (auto split: if_splits)
  note cond = this [THEN conjunct1] this [THEN conjunct2, THEN conjunct1] this [THEN conjunct2, THEN conjunct2, THEN conjunct1]
    this [THEN conjunct2, THEN conjunct2, THEN conjunct2, THEN conjunct1]
    this [THEN conjunct2, THEN conjunct2, THEN conjunct2, THEN conjunct2, THEN conjunct1]
    this [THEN conjunct2, THEN conjunct2, THEN conjunct2, THEN conjunct2, THEN conjunct2]
  note eq = res [unfolded kv_cache_store_live_prefix_def Let_def, folded tx_def, simplified cond if_False if_True not_True_eq_False]
  from eq obtain sha where sha: "sha1_bytes_hex (os_junk os) tx = Some sha" by (cases "sha1_bytes_hex (os_junk os) tx") simp_all
  define path where "path = kv_path_for_sha (kc_dir (sv_kv sv)) sha"
  define tmp where "tmp = path @ ascii ''.tmp.'' @ os_pid os"
  note eq = eq [unfolded sha bind.bind_lunit, folded path_def, folded tmp_def]
  from eq obtain present fs where ex: "kv_cache_existing_compatible os (sv_kv sv) (sv_files sv) path sha tx (sv_quant_bits sv) (session_ctx sv) = Some (present, fs)"
    by (cases "kv_cache_existing_compatible os (sv_kv sv) (sv_files sv) path sha tx (sv_quant_bits sv) (session_ctx sv)") auto
  note eq = eq [unfolded ex bind.bind_lunit prod.case]
  show ?thesis
  proof (cases present)
    case True
    then show ?thesis using eq by (auto dest!: rewrite_tool_map_fixed simp: fixed_def)
  next
    case False
    then show ?thesis using eq
      by (auto simp: fixed_def dest!: evict_fixed split: if_splits bind_splits prod.splits)
  qed
qed simp

lemma store_current_fixed:
  assumes "kv_cache_store_current os rnd reason sv = Some sv'"
  shows "fixed sv' = fixed sv \<and> sv_session sv' = sv_session sv"
proof -
  obtain b sv1 where "kv_cache_store_live_prefix os rnd (live_tokens sv) (int (length (live_tokens sv))) reason sv = Some (b, sv1)"
    and "sv' = sv1 \<or> sv' = sv1\<lparr>sv_last_evicted := live_tokens sv1\<rparr>"
    using assms by (auto simp: kv_cache_store_current_def split: if_splits)
  then show ?thesis using store_fixed [of os rnd _ _ reason sv b sv1] by (auto simp: fixed_def)
qed

lemma maybe_store_fixed:
  "kv_cache_maybe_store_continued os rnd sv = Some sv' \<Longrightarrow> fixed sv' = fixed sv \<and> sv_session sv' = sv_session sv"
  by (auto simp: kv_cache_maybe_store_continued_def kv_cache_note_store_def Let_def fixed_def dest!: store_fixed split: if_splits)

lemma cold_store_fixed:
  "cold_store os rnd p n sv = Some sv' \<Longrightarrow> fixed sv' = fixed sv \<and> sv_session sv' = sv_session sv"
  by (auto simp: cold_store_def kv_cache_note_store_def fixed_def dest!: store_fixed split: if_splits)

lemma progress_calls_fixed: "progress_calls oss rnd c k cs sv = Some sv' \<Longrightarrow> fixed sv' = fixed sv"
proof (induction cs arbitrary: k sv)
  case (Cons x cs)
  then obtain sv1 where "server_progress_cb (oss k) rnd c (int (fst x)) (sv\<lparr>sv_session := snd x\<rparr>) = Some sv1"
    "progress_calls oss rnd c (k + 1) cs sv1 = Some sv'" by (auto split: bind_splits)
  then show ?case using Cons.IH by (auto simp: server_progress_cb_def dest!: maybe_store_fixed split: if_splits)
qed simp

lemma sync_server_sync:
  assumes "sync_server F env oss rnd c p sv = Some (r, sv')"
  shows "\<exists>calls. ds4_session_sync F env p (sv_session sv) = (r, sv_session sv', calls)" "fixed sv' = fixed sv"
  using assms by (auto simp: sync_server_def dest: progress_calls_fixed split: prod.splits)

section \<open>What a load gives\<close>

lemma loaded_valid: "ds4_session_load_payload k s file n = Loaded s2 rest \<Longrightarrow> se_checkpoint_valid s2"
  by (auto simp: ds4_session_load_payload_def load_payload_cpu_def load_payload_gpu_def Let_def split: option.splits if_splits prod.splits)

lemma header_has_tokens: "kv_read_header s = Some (e, n, rest) \<Longrightarrow> sint (kve_tokens e) \<noteq> 0"
  by (auto simp: kv_read_header_def Let_def signed_eq_0_iff split: if_splits)

lemma cached_text_front:
  assumes "read_cached_text os s sha prompt_text = Some (Some (hdr, t, rest))"
  shows "byte_prefix_match prompt_text t" "sint (kve_tokens hdr) \<noteq> 0"
    "\<exists>text_bytes body. kv_read_header s = Some (hdr, text_bytes, body) \<and> t = take (unat text_bytes) body \<and> rest = drop (unat text_bytes) body"
  using assms by (auto simp: read_cached_text_def Let_def dest: header_has_tokens split: option.splits if_splits)

lemma find_text_prefix_fixed:
  "kv_cache_find_text_prefix os fs tx q c kc = Some (i, kc') \<Longrightarrow> kc_enabled kc' = kc_enabled kc \<and> kc_opt kc' = kc_opt kc"
  by (auto simp: kv_cache_find_text_prefix_def Let_def)

text \<open>The prompt continues the loaded tokens with a tokenization of what follows the text of the file.\<close>

definition continues_text :: "vocab \<Rightarrow> byte list \<Rightarrow> tokens \<Rightarrow> tokens \<Rightarrow> bool" where
  "continues_text v prompt_text live p \<longleftrightarrow>
     (\<exists>t. byte_prefix_match prompt_text t \<and> build_prompt_from_exact_prefix_and_text_suffix v live (drop (length t) prompt_text) = Some p)"

lemma try_load_result:
  assumes res: "kv_cache_try_load_text os prompt_text sv = Some (n, p, path, sv')"
  shows "fixed sv' = fixed sv \<and>
    (if n > 0 then int (length (live_tokens sv')) = n \<and> se_checkpoint_valid (sv_session sv') \<and> continues_text (sv_vocab sv) prompt_text (live_tokens sv') p
       \<and> (lossless_vocab (sv_vocab sv) \<longrightarrow> honest_files sv \<longrightarrow> render_tokens_text (sv_vocab sv) p = prompt_text)
     else n = 0 \<and> (sv_session sv' = sv_session sv \<or> \<not> se_checkpoint_valid (sv_session sv')))"
proof (cases "n = 0 \<and> sv' = sv")
  case False
  have q: "kc_enabled (sv_kv sv)" "\<not> (sv_quant_bits sv \<noteq> 2 \<and> sv_quant_bits sv \<noteq> 4)"
    using res False by (auto simp: kv_cache_try_load_text_def split: if_splits)
  note eq = res [unfolded kv_cache_try_load_text_def Let_def, simplified q if_False if_True not_True_eq_False]
  from eq obtain idx kc where found: "kv_cache_find_text_prefix os (sv_files sv) prompt_text (sv_quant_bits sv) (session_ctx sv) (sv_kv sv) = Some (idx, kc)"
    by (cases "kv_cache_find_text_prefix os (sv_files sv) prompt_text (sv_quant_bits sv) (session_ctx sv) (sv_kv sv)") auto
  define sv1 where "sv1 = sv\<lparr>sv_kv := kc\<rparr>"
  have sv1: "fixed sv1 = fixed sv" "sv_session sv1 = sv_session sv" "sv_vocab sv1 = sv_vocab sv" "sv_files sv1 = sv_files sv"
    "sv_kernels sv1 = sv_kernels sv"
    using find_text_prefix_fixed [OF found] by (simp_all add: fixed_def sv1_def)
  note eq = eq [unfolded found bind.bind_lunit prod.case, folded sv1_def]
  show ?thesis
  proof (cases "n = 0 \<and> sv' = sv1")
    case True
    then show ?thesis using sv1 by simp
  next
    case ne: False
    from eq ne obtain i where i: "idx = Some i" by (cases idx) auto
    define e where "e = kc_entry kc ! i"
    have kv1: "sv_kv sv1 = kc" by (simp add: sv1_def)
    note eq = eq [unfolded i option.case kv1, folded e_def]
    from eq ne obtain s where s: "read_file os (sv_files sv1) (kve_path e) = Some s"
      by (cases "read_file os (sv_files sv1) (kve_path e)") auto
    note eq = eq [unfolded s option.case]
    from eq obtain header where hd: "read_cached_text os s (kve_sha e) prompt_text = Some header"
      by (cases "read_cached_text os s (kve_sha e) prompt_text") auto
    note eq = eq [unfolded hd bind.bind_lunit]
    from eq ne obtain hdr t rest where header: "header = Some (hdr, t, rest)" by (cases header) auto
    note front = cached_text_front [OF hd [unfolded header]]
    note eq = eq [unfolded header option.case prod.case]
    show ?thesis
    proof (cases "ds4_session_load_payload (sv_kernels sv1) (ds4_session.truncate (sv_session sv1)) rest (kve_payload_bytes hdr)")
      case Overflow
      then show ?thesis using eq by simp
    next
      case (Failed s2 rest2)
      then show ?thesis using eq sv1 by (auto simp: invalidate_def ds4_session_invalidate_def)
    next
      case (Loaded s2 rest2)
      define sv2 where "sv2 = set_session s2 sv1"
      have sv2: "fixed sv2 = fixed sv" "se_checkpoint_valid (sv_session sv2)" "sv_vocab sv2 = sv_vocab sv"
        using sv1 loaded_valid [OF Loaded] by (simp_all add: sv2_def set_session_def)
      note eq = eq [unfolded Loaded load_outcome.case, folded sv2_def]
      show ?thesis
      proof (cases "int (length (live_tokens sv2)) = sint (kve_tokens hdr)")
        case False
        then show ?thesis using eq sv2 by (auto simp: invalidate_def ds4_session_invalidate_def fixed_def)
      next
        case True
        with front(2) have pos: "0 < sint (kve_tokens hdr)" by linarith
        note eq = eq [unfolded sv2(3), simplified True pos if_True if_False not_True_eq_False simp_thms]
        from eq obtain p' where p': "build_prompt_from_exact_prefix_and_text_suffix (sv_vocab sv) (live_tokens sv2) (drop (length t) prompt_text) = Some p'"
          by (cases "build_prompt_from_exact_prefix_and_text_suffix (sv_vocab sv) (live_tokens sv2) (drop (length t) prompt_text)") auto
        have "n = sint (kve_tokens hdr)" "p = p'" "sv_session sv' = sv_session sv2" "fixed sv' = fixed sv2"
          using eq pos by (auto simp: p' fixed_def split: bind_splits option.splits if_splits)
        moreover have "continues_text (sv_vocab sv) prompt_text (live_tokens sv2) p'"
          using front(1) p' by (auto simp: continues_text_def)
        moreover have "render_tokens_text (sv_vocab sv) p' = prompt_text" if v: "lossless_vocab (sv_vocab sv)" and h: "honest_files sv"
        proof -
          have "honest_file (sv_kernels sv) (sv_vocab sv) s"
            using h s sv1(4) by (auto simp: honest_files_def read_file_def split: if_splits)
          then have "render_tokens_text (sv_vocab sv) (live_tokens sv2) = t"
            using front(3) Loaded unfolding honest_file_def sv1(5) sv2_def truncate_set_session by blast
          then show ?thesis using suffix_prompt [OF v] p' byte_prefix_rest [OF front(1)] by (metis option.inject render_append)
        qed
        ultimately show ?thesis using sv2 True pos by (simp add: live_tokens_def)
      qed
    qed
  qed
qed simp

lemma try_load_evicted_result:
  assumes res: "kv_cache_try_load_evicted os prompt sv = Some (n, sv')"
  shows "fixed sv' = fixed sv \<and> n \<ge> 0
    \<and> (if n > 0 then int (length (live_tokens sv')) = n \<and> se_checkpoint_valid (sv_session sv')
       else sv_session sv' = sv_session sv \<or> \<not> se_checkpoint_valid (sv_session sv'))"
proof (cases "n = 0 \<and> sv' = sv")
  case ne: False
  define tx where "tx = render_tokens_text (sv_vocab sv) (sv_last_evicted sv)"
  have c: "\<not> length (sv_last_evicted sv) = 0" "\<not> (length prompt < length (sv_last_evicted sv) \<or> take (length (sv_last_evicted sv)) prompt \<noteq> sv_last_evicted sv)"
    "\<not> tx = []"
    using res ne by (auto simp: kv_cache_try_load_evicted_def tx_def Let_def split: if_splits)
  note eq = res [unfolded kv_cache_try_load_evicted_def Let_def, folded tx_def, unfolded if_not_P [OF c(1)] if_not_P [OF c(2)] if_not_P [OF c(3)]]
  from eq obtain sha where sha: "sha1_bytes_hex (os_junk os) tx = Some sha" by (cases "sha1_bytes_hex (os_junk os) tx") auto
  note eq = eq [unfolded sha bind.bind_lunit]
  from eq ne obtain s where s: "read_file os (sv_files sv) (kv_path_for_sha (kc_dir (sv_kv sv)) sha) = Some s"
    by (cases "read_file os (sv_files sv) (kv_path_for_sha (kc_dir (sv_kv sv)) sha)") auto
  note eq = eq [unfolded s option.case]
  from eq ne obtain hdr text_bytes rest where hd: "kv_read_header s = Some (hdr, text_bytes, rest)" by (cases "kv_read_header s") auto
  note eq = eq [unfolded hd option.case prod.case]
  have m: "\<not> (kve_quant_bits hdr \<noteq> word_of_int (sv_quant_bits sv) \<or> kve_tokens hdr \<noteq> of_nat (length (sv_last_evicted sv)))"
    using eq ne by (auto split: if_splits)
  note eq = eq [unfolded if_not_P [OF m]]
  show ?thesis
  proof (cases "ds4_session_load_payload (sv_kernels sv) (ds4_session.truncate (sv_session sv)) (drop (unat text_bytes) rest) (kve_payload_bytes hdr)")
    case Overflow
    then show ?thesis using eq by simp
  next
    case (Failed s2 rest2)
    then show ?thesis using eq by (auto simp: invalidate_def ds4_session_invalidate_def fixed_def set_session_def)
  next
    case (Loaded s2 rest2)
    define sv2 where "sv2 = set_session s2 sv"
    have sv2: "fixed sv2 = fixed sv" "se_checkpoint_valid (sv_session sv2)"
      using loaded_valid [OF Loaded] by (simp_all add: sv2_def set_session_def fixed_def)
    note eq = eq [unfolded Loaded load_outcome.case, folded sv2_def]
    show ?thesis
    proof (cases "int (length (live_tokens sv2)) = sint (kve_tokens hdr)")
      case False
      then show ?thesis using eq sv2 by (auto simp: invalidate_def ds4_session_invalidate_def fixed_def)
    next
      case True
      with header_has_tokens [OF hd] have "0 < sint (kve_tokens hdr)" by linarith
      then show ?thesis using eq sv2 True by auto
    qed
  qed
qed simp

lemma live_text_result:
  assumes "live_text_prefix_prompt prompt_text sv = Some (n, p)"
  shows "n \<ge> 0 \<and> (n > 0 \<longrightarrow> n = int (length (live_tokens sv))
    \<and> byte_prefix_match prompt_text (render_tokens_text (sv_vocab sv) (live_tokens sv))
    \<and> build_prompt_from_exact_prefix_and_text_suffix (sv_vocab sv) (live_tokens sv)
         (drop (length (render_tokens_text (sv_vocab sv) (live_tokens sv))) prompt_text) = Some p)"
  using assms by (auto simp: live_text_prefix_prompt_def Let_def split: if_splits)

lemma common_whole:
  assumes "ds4_session_common_prefix s p = length (se_checkpoint s)" "se_checkpoint s \<noteq> []"
  shows "se_checkpoint_valid s" "take (length (se_checkpoint s)) p = se_checkpoint s"
  using assms common_from_take [of "se_checkpoint s" p] by (auto simp: ds4_session_common_prefix_def split: if_splits)

text \<open>What the choice promises about the prompt for the session, by source.\<close>

definition chosen :: "tokens \<Rightarrow> byte list \<Rightarrow> 'w server \<Rightarrow> int \<Rightarrow> cache_source \<Rightarrow> tokens \<Rightarrow> 'w server \<Rightarrow> bool" where
  "chosen prompt prompt_text sv cached source p sv' \<longleftrightarrow>
     (case source of
        NoCache \<Rightarrow> cached = 0 \<and> p = prompt
      | MemoryToken \<Rightarrow> p = prompt \<and> cached = int (length (live_tokens sv)) \<and> extends (sv_session sv) p
      | MemoryText \<Rightarrow> cached = int (length (live_tokens sv)) \<and> take (nat cached) p = live_tokens sv \<and> render_tokens_text (sv_vocab sv) p = prompt_text
      | DiskText \<Rightarrow> extends (sv_session sv') p \<and> cached = int (length (live_tokens sv'))
          \<and> (\<exists>t. byte_prefix_match prompt_text t \<and> render_tokens_text (sv_vocab sv) (drop (nat cached) p) = drop (length t) prompt_text)
      | DiskEvicted \<Rightarrow> p = prompt \<and> cached = int (length (live_tokens sv')) \<and> se_checkpoint_valid (sv_session sv'))"

lemma find_cached_result:
  assumes res: "find_cached oss rnd prompt prompt_text sv = Some (n, source, p, sv')" and v: "lossless_vocab (sv_vocab sv)"
  shows "fixed sv' = fixed sv \<and> chosen prompt prompt_text sv n source p sv'
    \<and> (source \<notin> {DiskText, DiskEvicted} \<longrightarrow> sv_session sv' = sv_session sv \<or> \<not> se_checkpoint_valid (sv_session sv'))"
proof -
  let ?live = "live_tokens sv"
  define common where "common = ds4_session_common_prefix (sv_session sv) prompt"
  show ?thesis
  proof (cases "common = length ?live \<and> length prompt \<ge> length ?live \<and> common > 0")
    case True
    then have "n = int common" "source = MemoryToken" "p = prompt" "sv' = sv"
      using res by (auto simp: find_cached_def Let_def common_def [symmetric])
    moreover have "extends (sv_session sv) prompt"
      using True common_whole [of "sv_session sv" prompt] by (auto simp: extends_def live_tokens_def common_def)
    ultimately show ?thesis using True by (simp add: chosen_def)
  next
    case False
    then have c: "\<not> (if common = length ?live \<and> length prompt \<ge> length ?live then common else 0) > 0" by auto
    note eq = res [unfolded find_cached_def Let_def, folded common_def, unfolded if_not_P [OF c]]
    from eq obtain tn q where live: "live_text_prefix_prompt prompt_text sv = Some (tn, q)"
      by (cases "live_text_prefix_prompt prompt_text sv") auto
    note eq = eq [unfolded live bind.bind_lunit prod.case]
    note lt = live_text_result [OF live]
    show ?thesis
    proof (cases "tn > 0")
      case True
      then have r: "n = tn" "source = MemoryText" "p = q" "sv' = sv" using eq by simp_all
      obtain sfx where "p = ?live @ sfx" "render_tokens_text (sv_vocab sv) sfx = drop (length (render_tokens_text (sv_vocab sv) ?live)) prompt_text"
        using suffix_prompt [OF v, of ?live "drop (length (render_tokens_text (sv_vocab sv) ?live)) prompt_text"] lt True r by auto
      then show ?thesis using lt True r byte_prefix_rest [of prompt_text "render_tokens_text (sv_vocab sv) ?live"] by (simp add: chosen_def)
    next
      case False
      define sv0 where "sv0 = sv\<lparr>sv_kv := (sv_kv sv)\<lparr>kc_continued_last_store_tokens := 0\<rparr>\<rparr>"
      have sv0: "fixed sv0 = fixed sv" "sv_session sv0 = sv_session sv" by (simp_all add: sv0_def fixed_def)
      note eq = eq [unfolded if_not_P [OF False], folded sv0_def]
      from eq obtain sv1 where st: "(if kc_enabled (sv_kv sv0) \<and> int (length ?live) \<ge> ko_min_tokens (kc_opt (sv_kv sv0))
          then kv_cache_store_current (oss 0) rnd (ascii ''evict'') sv0 else Some sv0) = Some sv1"
        by (cases "if kc_enabled (sv_kv sv0) \<and> int (length ?live) \<ge> ko_min_tokens (kc_opt (sv_kv sv0))
          then kv_cache_store_current (oss 0) rnd (ascii ''evict'') sv0 else Some sv0") auto
      note eq = eq [unfolded st bind.bind_lunit]
      have sv1: "fixed sv1 = fixed sv" "sv_session sv1 = sv_session sv"
        using st sv0 by (auto dest: store_current_fixed split: if_splits)
      have voc: "sv_vocab sv1 = sv_vocab sv" using sv1(1) by (simp add: fixed_def)
      from eq obtain dn dq path sv2 where ld: "kv_cache_try_load_text (oss 1) prompt_text sv1 = Some (dn, dq, path, sv2)"
        by (cases "kv_cache_try_load_text (oss 1) prompt_text sv1") auto
      note eq = eq [unfolded ld bind.bind_lunit prod.case]
      note l = try_load_result [OF ld, unfolded voc]
      show ?thesis
      proof (cases "dn > 0")
        case True
        then have r: "n = dn" "source = DiskText" "p = dq" "sv' = sv2" using eq by simp_all
        obtain t where t: "byte_prefix_match prompt_text t"
          "build_prompt_from_exact_prefix_and_text_suffix (sv_vocab sv) (live_tokens sv2) (drop (length t) prompt_text) = Some dq"
          using l True by (auto simp: continues_text_def)
        obtain sfx where "dq = live_tokens sv2 @ sfx" "render_tokens_text (sv_vocab sv) sfx = drop (length t) prompt_text"
          using suffix_prompt [OF v, of "live_tokens sv2" "drop (length t) prompt_text"] t(2) by auto
        moreover have "nat n = length (live_tokens sv2)" using l r True by (simp add: nat_eq_iff)
        ultimately show ?thesis using l True r t(1) sv1 by (auto simp: chosen_def extends_def live_tokens_def)
      next
        case no_text: False
        have s2: "fixed sv2 = fixed sv" "sv_session sv2 = sv_session sv \<or> \<not> se_checkpoint_valid (sv_session sv2)"
          using l no_text sv1 by auto
        note eq = eq [unfolded if_not_P [OF no_text]]
        from eq obtain en sv3 where ev: "(if length (sv_last_evicted sv2) > 0 then kv_cache_try_load_evicted (oss 2) prompt sv2 else Some (0, sv2)) = Some (en, sv3)"
          by (cases "if length (sv_last_evicted sv2) > 0 then kv_cache_try_load_evicted (oss 2) prompt sv2 else Some (0, sv2)") auto
        note eq = eq [unfolded ev bind.bind_lunit prod.case]
        have e: "fixed sv3 = fixed sv" "if en > 0 then int (length (live_tokens sv3)) = en \<and> se_checkpoint_valid (sv_session sv3)
            else sv_session sv3 = sv_session sv2 \<or> \<not> se_checkpoint_valid (sv_session sv3)"
          using ev try_load_evicted_result [of "oss 2" prompt sv2 en sv3] s2 by (auto split: if_splits)
        then show ?thesis using eq s2 by (cases "en > 0") (auto simp: chosen_def)
      qed
    qed
  qed
qed

section \<open>The served prompt\<close>

lemma set_progress_simps [simp]:
  "live_tokens (set_progress b sv) = live_tokens sv" "se_checkpoint_valid (sv_session (set_progress b sv)) = se_checkpoint_valid (sv_session sv)"
  "extends (sv_session (set_progress b sv)) p = extends (sv_session sv) p"
  "backed M (sv_session (set_progress b sv)) = backed M (sv_session sv)" "described_by M (sv_session (set_progress b sv)) = described_by M (sv_session sv)"
  by (simp_all add: set_progress_def live_tokens_def extends_def backed_def described_by_def device_def host_def)

text \<open>What a sync of the server leaves, as a predicate on its outcome.\<close>

definition synced :: "'w meaning \<Rightarrow> tokens \<Rightarrow> sync_error option \<Rightarrow> 'w server \<Rightarrow> bool" where
  "synced M p r sv \<longleftrightarrow>
     (case r of
        None \<Rightarrow> se_checkpoint_valid (sv_session sv) \<and> live_tokens sv = p \<and> described_by M (sv_session sv)
      | Some e \<Rightarrow> e = ExceedsContext \<or> \<not> se_checkpoint_valid (sv_session sv))"

lemma sync_server_synced:
  assumes F: "forward_sound F M" and bk: "backed M (sv_session sv)" and res: "sync_server F env oss rnd c p sv = Some (r, sv')"
  shows "synced M p r sv'" "r = None \<Longrightarrow> backed M (sv_session sv')" "fixed sv' = fixed sv"
proof -
  obtain calls where s: "ds4_session_sync F env p (sv_session sv) = (r, sv_session sv', calls)" and f: "fixed sv' = fixed sv"
    using sync_server_sync [OF res] by blast
  from session_sync_result [OF F bk s]
  show "synced M p r sv'" "r = None \<Longrightarrow> backed M (sv_session sv')" "fixed sv' = fixed sv"
    using f by (auto simp: synced_def live_tokens_def backed_def split: option.splits if_splits)
qed

lemma serve_prompt_result:
  assumes F: "forward_sound F M" and res: "serve_prompt F env oss rnd prompt prompt_text sv = Some d"
    and found: "find_cached oss rnd prompt prompt_text sv = Some (n, source, p, sv1)" and bk: "backed M (sv_session sv1)"
  shows "sd_cached d = n \<and> sd_source d = source \<and> sd_prompt d = p \<and> fixed (sd_server d) = fixed sv1 \<and>
    (sd_error d = None \<longrightarrow> synced M p None (sd_server d)) \<and>
    (sd_error d \<noteq> None \<longrightarrow> sd_error d = Some ExceedsContext \<or> \<not> se_checkpoint_valid (sv_session (sd_server d)))"
proof -
  define sv2 where "sv2 = set_progress True sv1"
  have sv2: "fixed sv2 = fixed sv1" "backed M (sv_session sv2)" using bk by (simp_all add: sv2_def)
  define cold where "cold = cold_length n (int (length p)) (sv_kv sv2)"
  define first where "first = (if kc_enabled (sv_kv sv2) \<and> cold \<ge> ko_min_tokens (kc_opt (sv_kv sv2)) \<and> cold < int (length p)
        then do {
          (r, sv) \<leftarrow> sync_server F env (\<lambda>k. oss (4 + 2 * k)) rnd n (tokens_copy_prefix p cold) sv2;
          if r \<noteq> None then Some (r, sv) else map_option (\<lambda>sv. (None, sv)) (cold_store (oss 3) rnd p cold sv)
        }
        else Some (None, sv2))"
  note eq = res [unfolded serve_prompt_def Let_def found bind.bind_lunit prod.case, folded sv2_def, folded cold_def, folded first_def]
  from eq obtain r sv3 where fst: "first = Some (r, sv3)" by (cases first) auto
  note eq = eq [unfolded fst bind.bind_lunit prod.case]
  have sv3: "fixed sv3 = fixed sv1" "r = None \<Longrightarrow> backed M (sv_session sv3)"
    "r \<noteq> None \<Longrightarrow> r = Some ExceedsContext \<or> \<not> se_checkpoint_valid (sv_session sv3)"
  proof -
    have "fixed sv3 = fixed sv1 \<and> (r = None \<longrightarrow> backed M (sv_session sv3)) \<and> (r \<noteq> None \<longrightarrow> r = Some ExceedsContext \<or> \<not> se_checkpoint_valid (sv_session sv3))"
    proof (cases "kc_enabled (sv_kv sv2) \<and> cold \<ge> ko_min_tokens (kc_opt (sv_kv sv2)) \<and> cold < int (length p)")
      case False
      then show ?thesis using fst sv2 by (auto simp: first_def)
    next
      case True
      note f = fst [unfolded first_def if_P [OF True]]
      from f obtain r0 sv0 where s: "sync_server F env (\<lambda>k. oss (4 + 2 * k)) rnd n (tokens_copy_prefix p cold) sv2 = Some (r0, sv0)"
        by (cases "sync_server F env (\<lambda>k. oss (4 + 2 * k)) rnd n (tokens_copy_prefix p cold) sv2") auto
      note f = f [unfolded s bind.bind_lunit prod.case]
      note sy = sync_server_synced [OF F sv2(2) s]
      show ?thesis
      proof (cases "r0 = None")
        case True
        then show ?thesis using f sy sv2 cold_store_fixed [of "oss 3" rnd p cold sv0 sv3] by auto
      next
        case False
        then show ?thesis using f sy sv2 by (auto simp: synced_def)
      qed
    qed
    then show "fixed sv3 = fixed sv1" "r = None \<Longrightarrow> backed M (sv_session sv3)"
      "r \<noteq> None \<Longrightarrow> r = Some ExceedsContext \<or> \<not> se_checkpoint_valid (sv_session sv3)" by blast+
  qed
  show ?thesis
  proof (cases "r = None")
    case False
    then have "d = \<lparr>sd_error = r, sd_cached = n, sd_source = source, sd_prompt = p, sd_server = set_progress False sv3\<rparr>" using eq by simp
    then show ?thesis using sv3 False by auto
  next
    case True
    then have f: "\<not> r \<noteq> None" by simp
    note eq = eq [unfolded if_not_P [OF f]]
    from eq obtain r4 sv4 where s: "sync_server F env (\<lambda>k. oss (5 + 2 * k)) rnd n p sv3 = Some (r4, sv4)"
      by (cases "sync_server F env (\<lambda>k. oss (5 + 2 * k)) rnd n p sv3") auto
    note eq = eq [unfolded s bind.bind_lunit prod.case]
    note sy = sync_server_synced [OF F sv3(2) [OF True] s]
    define sv5 where "sv5 = set_progress False sv4"
    note eq = eq [folded sv5_def]
    from eq obtain sv6 where c: "(if r4 = None \<and> cold = int (length p) then cold_store (oss 3) rnd p cold sv5 else Some sv5) = Some sv6"
      by (cases "if r4 = None \<and> cold = int (length p) then cold_store (oss 3) rnd p cold sv5 else Some sv5") auto
    have d: "d = \<lparr>sd_error = r4, sd_cached = n, sd_source = source, sd_prompt = p, sd_server = sv6\<rparr>" using eq c by simp
    have sv6: "fixed sv6 = fixed sv4" "sv_session sv6 = sv_session sv5"
      using c cold_store_fixed [of "oss 3" rnd p cold sv5 sv6] by (auto simp: sv5_def split: if_splits)
    then have "live_tokens sv6 = live_tokens sv5" by (simp add: live_tokens_def)
    then have "synced M p r4 sv6" using sy(1) sv6(2) by (simp add: synced_def sv5_def split: option.splits)
    then show ?thesis using sy sv6 sv3(1) by (auto simp: d synced_def split: option.splits)
  qed
qed

text \<open>Claim C38. The prompt the worker serves.  On success the checkpoint is valid and is exactly the session's prompt; that is the request's own
  tokens, or it spells the request's text from the live tokens on, or continues a cached text that is the front of the request's.  What is
  reported as cached was live in the session or in the file.  If no file was used, a described session stays described.  After a
  failure other than a prompt that is too long no checkpoint is left.\<close>

theorem served_prompt_ready:
  assumes res: "serve_prompt F env oss rnd prompt prompt_text sv = Some d" and v: "lossless_vocab (sv_vocab sv)"
    and F: "forward_sound F M" and bk: "backed M (sv_session sv)"
  shows "(case sd_error d of
       None \<Rightarrow> se_checkpoint_valid (sv_session (sd_server d)) \<and> live_tokens (sd_server d) = sd_prompt d
         \<and> (sd_source d \<in> {NoCache, MemoryToken, MemoryText} \<longrightarrow> described_by M (sv_session (sd_server d)))
     | Some e \<Rightarrow> e = ExceedsContext \<or> \<not> se_checkpoint_valid (sv_session (sd_server d)))
   \<and> (case sd_source d of
       NoCache \<Rightarrow> sd_cached d = 0 \<and> sd_prompt d = prompt
     | MemoryToken \<Rightarrow> sd_prompt d = prompt \<and> take (nat (sd_cached d)) prompt = live_tokens sv
     | MemoryText \<Rightarrow> take (nat (sd_cached d)) (sd_prompt d) = live_tokens sv \<and> render_tokens_text (sv_vocab sv) (sd_prompt d) = prompt_text
     | DiskText \<Rightarrow> (\<exists>t. byte_prefix_match prompt_text t \<and> render_tokens_text (sv_vocab sv) (drop (nat (sd_cached d)) (sd_prompt d)) = drop (length t) prompt_text)
     | DiskEvicted \<Rightarrow> sd_prompt d = prompt)"
proof -
  obtain n source p sv1 where found: "find_cached oss rnd prompt prompt_text sv = Some (n, source, p, sv1)"
    using res by (cases "find_cached oss rnd prompt prompt_text sv") (auto simp: serve_prompt_def)
  note fc = find_cached_result [OF found v]
  note any = serve_prompt_result [OF any_meaning_sound res found any_meaning_backed(1)]
  have own: "source \<notin> {DiskText, DiskEvicted} \<Longrightarrow> sd_error d = None \<Longrightarrow> described_by M (sv_session (sd_server d))"
    using serve_prompt_result [OF F res found] fc bk by (auto simp: synced_def backed_def)
  show ?thesis
    using any fc own by (cases source) (auto simp: chosen_def synced_def extends_def live_tokens_def split: option.splits)
qed

section \<open>The rewritten turn\<close>

lemma tokenize_spells:
  assumes "lossless_vocab v" "tokenize_rendered_chat_vocab v (Some s) [] = Some ts"
  shows "render_tokens_text v ts = s"
  using suffix_prompt [OF assms(1), of "[]" s] assms(2) by (auto simp: build_prompt_from_exact_prefix_and_text_suffix_def)

lemma rewrite_live_result:
  assumes res: "rewrite_live F env os canonical common rendered sv = Some (c, sv')"
    and v: "lossless_vocab (sv_vocab sv)" and honest: "honest_files sv" and canonical: "render_tokens_text (sv_vocab sv) canonical = rendered"
  shows "sv_vocab sv' = sv_vocab sv \<and> c \<noteq> AlreadySame \<and> c \<noteq> Skipped
    \<and> (c \<noteq> CanonFailed \<longrightarrow> se_checkpoint_valid (sv_session sv') \<and> render_tokens_text (sv_vocab sv) (live_tokens sv') = rendered)"
proof -
  obtain rr s calls where rw: "ds4_session_rewrite_from_common F env canonical (int common) (sv_session sv) = (rr, s, calls)" by (metis surj_pair)
  define sv1 where "sv1 = sv\<lparr>sv_session := s\<rparr>"
  have voc: "sv_vocab sv1 = sv_vocab sv" by (simp add: sv1_def)
  note eq = res [unfolded rewrite_live_def Let_def rw prod.case, folded sv1_def]
  show ?thesis
  proof (cases rr)
    case RewriteOk
    then have "se_checkpoint_valid s \<and> se_checkpoint s = canonical"
      using rw sync_tokens [of F env canonical "sv_session sv" None s calls]
      by (auto simp: ds4_session_rewrite_from_common_def split: if_splits prod.splits option.splits)
    then show ?thesis using eq RewriteOk canonical by (auto simp: sv1_def live_tokens_def)
  next
    case (RewriteError e)
    then show ?thesis using eq voc by auto
  next
    case RewriteRebuildNeeded
    note eq = eq [unfolded RewriteRebuildNeeded rewrite_result.case]
    from eq obtain n p path sv2 where ld: "kv_cache_try_load_text os rendered sv1 = Some (n, p, path, sv2)"
      by (cases "kv_cache_try_load_text os rendered sv1") auto
    define sv3 where "sv3 = (if n = 0 then invalidate sv2 else sv2)"
    note eq = eq [unfolded ld bind.bind_lunit prod.case, folded sv3_def]
    have "sv_vocab sv3 = sv_vocab sv" using try_load_result [OF ld] voc by (auto simp: sv3_def fixed_def invalidate_def)
    moreover have "n > 0 \<Longrightarrow> render_tokens_text (sv_vocab sv) p = rendered"
      using try_load_result [OF ld] v honest by (simp add: sv1_def honest_files_def)
    moreover obtain r s3 calls3 where sy: "ds4_session_sync F env (if n > 0 then p else canonical) (sv_session sv3) = (r, s3, calls3)" by (metis surj_pair)
    ultimately show ?thesis using eq sync_tokens [OF sy] canonical by (auto simp: live_tokens_def split: if_splits)
  qed
qed

lemma render_user_pending:
  assumes "ms \<noteq> []" "role_is_user_like (List.last ms)"
  shows "rs_pending_assistant (render_messages th tc u i ms st)"
  using assms
proof (induction ms arbitrary: i st)
  case (Cons m ms)
  show ?case
  proof (cases "ms = []")
    case True
    then have "role_is_user_like m" using Cons.prems by simp
    moreover have "\<not> role_is_system m" using calculation by (auto simp: role_is_user_like_def role_is_system_def role_is_def ascii_inj)
    ultimately show ?thesis using True by (auto simp: role_is_user_like_def render_user_def render_tool_def)
  next
    case False
    then show ?thesis using Cons by simp
  qed
qed simp

lemma byte_prefix_append: "byte_prefix_match (a @ b) a"
  by (simp add: byte_prefix_match_def)

lemma live_front_found:
  assumes v: "lossless_vocab (sv_vocab sv)" and live: "live_tokens sv \<noteq> []"
    and front: "byte_prefix_match prompt_text (render_tokens_text (sv_vocab sv) (live_tokens sv))"
  shows "\<exists>source p. find_cached oss rnd prompt prompt_text sv = Some (int (length (live_tokens sv)), source, p, sv) \<and> source \<in> {MemoryToken, MemoryText}"
proof -
  define common where "common = ds4_session_common_prefix (sv_session sv) prompt"
  obtain sfx where b: "build_prompt_from_exact_prefix_and_text_suffix (sv_vocab sv) (live_tokens sv)
      (drop (length (render_tokens_text (sv_vocab sv) (live_tokens sv))) prompt_text) = Some (live_tokens sv @ sfx)"
    using suffix_prompt [OF v] by metis
  have "live_text_prefix_prompt prompt_text sv = Some (int (length (live_tokens sv)), live_tokens sv @ sfx)"
    using live front b by (simp add: live_text_prefix_prompt_def)
  then show ?thesis using live unfolding find_cached_def Let_def common_def [symmetric]
    by (cases "common = length (live_tokens sv) \<and> length prompt \<ge> length (live_tokens sv)") auto
qed

text \<open>The reply appended to the prompt is the prompt of the conversation with the reply, as far as it goes.\<close>

lemma tool_turn_rendered:
  assumes ctx: "chat_history_uses_tool_context ms schemas" and user: "ms \<noteq> []" "role_is_user_like (List.last ms)"
    and m: "role_is ''assistant'' m" and more: "\<forall>x \<in> set ms'. \<not> role_is_system x"
  shows "byte_prefix_match (render_chat_prompt_text (ms @ m # ms') schemas mode)
    (render_chat_prompt_text ms schemas mode
     @ (if ds4_think_mode_enabled mode then or_empty (msg_reasoning m) @ tok_think_end else [])
     @ or_empty (msg_content m) @ append_dsml_tool_calls_text (msg_calls m) @ tok_eos)"
proof -
  let ?think = "ds4_think_mode_enabled mode"
  define out where "out = tok_bos @ (if mode = DS4_THINK_MAX then DS4_REASONING_EFFORT_MAX_PREFIX else []) @ system_text ms schemas"
  define st where "st = render_messages ?think True 0 0 ms \<lparr>rs_out = out, rs_pending_assistant = False, rs_pending_tool_result = False\<rparr>"
  have sys: "\<not> role_is_system m" using role_exclusive [OF m] by (simp add: role_is_system_def)
  have sysm: "system_text (ms @ m # ms') schemas = system_text ms schemas"
    using more sys by (simp add: system_text_def join_systems_append)
  have ctx': "chat_history_uses_tool_context (ms @ m # ms') schemas" using ctx by (auto simp: chat_history_uses_tool_context_def)
  have any_user: "render_messages th True u i l st = render_messages th True w i l st" for th u w i l st
    by (induction l arbitrary: i st) simp_all
  have pend: "rs_pending_assistant st" using render_user_pending [OF user] by (simp add: st_def)
  define st1 where "st1 = render_assistant ?think True m st"
  define st2 where "st2 = render_messages ?think True 0 (int (length ms) + 1) ms' st1"
  have R1: "render_chat_prompt_text ms schemas mode = rs_out st @ tok_assistant @ (if ?think then tok_think_start else tok_think_end)"
    unfolding render_chat_prompt_text_def Let_def
    by (simp only: ctx any_user [of ?think "last_user_index (- 1) 0 ms" 0 ms _ 0] out_def [symmetric] st_def [symmetric] pend if_True)
  have "render_messages ?think True 0 0 (ms @ m # ms') \<lparr>rs_out = out, rs_pending_assistant = False, rs_pending_tool_result = False\<rparr> = st2"
    using role_exclusive [OF m] sys m
    by (simp add: render_messages_append [where u' = 0 and u'' = 0] st_def [symmetric] st1_def st2_def)
  then have R2: "render_chat_prompt_text (ms @ m # ms') schemas mode
      = rs_out st2 @ (if rs_pending_assistant st2 then tok_assistant @ (if ?think then tok_think_start else tok_think_end) else [])"
    unfolding render_chat_prompt_text_def Let_def
    by (simp only: ctx' sysm out_def [symmetric] any_user [of ?think "last_user_index (- 1) 0 (ms @ m # ms')" 0 "ms @ m # ms'" _ 0])
  have "rs_out st1 = rs_out st @ tok_assistant @ (if ?think then tok_think_start else tok_think_end)
     @ (if ?think then or_empty (msg_reasoning m) @ tok_think_end else []) @ or_empty (msg_content m) @ append_dsml_tool_calls_text (msg_calls m) @ tok_eos"
    by (simp add: st1_def render_assistant_def pend)
  moreover obtain zs where "rs_out st2 = rs_out st1 @ zs" using render_messages_prefix by (metis prefixE st2_def)
  ultimately show ?thesis unfolding R1 R2 by (simp add: byte_prefix_match_def)
qed

lemma render_messages_early:
  "i + int (length ms) \<le> u + 1 \<Longrightarrow> i + int (length ms) \<le> w + 1 \<Longrightarrow> render_messages th False u i ms st = render_messages th False w i ms st"
  by (induction ms arbitrary: i st) simp_all

lemma render_messages_split:
  "render_messages th tc u i (ms @ ms') st = render_messages th tc u (i + int (length ms)) ms' (render_messages th tc u i ms st)"
  by (induction ms arbitrary: i st) (simp_all add: ac_simps)

lemma last_user_append: "last_user_index b i (ms @ ms') = last_user_index (last_user_index b i ms) (i + int (length ms)) ms'"
  by (induction ms arbitrary: b i) (simp_all add: ac_simps)

lemma last_user_bound: "b < i \<Longrightarrow> b \<le> last_user_index b i ms \<and> (list_ex role_is_user_like ms \<longrightarrow> i \<le> last_user_index b i ms)"
proof (induction ms arbitrary: b i)
  case (Cons m ms)
  show ?case
  proof (cases "role_is_user_like m")
    case True
    then show ?thesis using Cons.IH [of i "i + 1"] Cons.prems by simp
  next
    case False
    then show ?thesis using Cons.IH [of b "i + 1"] Cons.prems by auto
  qed
qed simp

lemma last_user_snoc: "role_is_user_like m \<Longrightarrow> last_user_index b i (ms @ [m]) = i + int (length ms)"
  by (simp add: last_user_append)

text \<open>Without tools the reasoning of an answered turn is not rendered again.\<close>

lemma plain_turn_rendered:
  assumes ctx: "\<not> chat_history_uses_tool_context (ms @ m # ms') schemas" and user: "ms \<noteq> []" "role_is_user_like (List.last ms)"
    and m: "role_is ''assistant'' m" and more: "\<forall>x \<in> set ms'. \<not> role_is_system x" "list_ex role_is_user_like ms'"
    and think: "ds4_think_mode_enabled mode"
  shows "\<exists>front. render_chat_prompt_text ms schemas mode = front @ tok_think_start
    \<and> byte_prefix_match (render_chat_prompt_text (ms @ m # ms') schemas mode) (front @ tok_think_end @ or_empty (msg_content m) @ tok_eos)"
proof -
  define out where "out = tok_bos @ (if mode = DS4_THINK_MAX then DS4_REASONING_EFFORT_MAX_PREFIX else []) @ system_text ms schemas"
  define st0 where "st0 = \<lparr>rs_out = out, rs_pending_assistant = False, rs_pending_tool_result = False\<rparr>"
  define n where "n = int (length ms)"
  define u where "u = last_user_index (- 1) 0 ms"
  define u' where "u' = last_user_index (- 1) 0 (ms @ m # ms')"
  have "u = int (length ms - 1)" using last_user_snoc [OF user(2), of "- 1" 0 "butlast ms"] user(1) by (simp add: u_def)
  moreover have "1 \<le> length ms" using user(1) by (simp add: Suc_le_eq)
  ultimately have u: "u = n - 1" by (simp add: n_def of_nat_diff)
  have u': "n + 1 \<le> u'"
  proof -
    have "\<not> role_is_user_like m" using role_exclusive [OF m] by (simp add: role_is_user_like_def)
    then have "u' = last_user_index u (n + 1) ms'" by (simp add: u'_def u_def n_def last_user_append)
    then show ?thesis using last_user_bound [of u "n + 1" ms'] more(2) u by simp
  qed
  define st where "st = render_messages True False u 0 ms st0"
  have sys: "\<not> role_is_system m" using role_exclusive [OF m] by (simp add: role_is_system_def)
  have sysm: "system_text (ms @ m # ms') schemas = system_text ms schemas"
    using more sys by (simp add: system_text_def join_systems_append)
  have ctx0: "\<not> chat_history_uses_tool_context ms schemas" and nocalls: "calls_v (msg_calls m) = []"
    using ctx m by (auto simp: chat_history_uses_tool_context_def)
  have pend: "rs_pending_assistant st" using render_user_pending [OF user] by (simp add: st_def)
  define st1 where "st1 = render_assistant True False m st"
  define st2 where "st2 = render_messages True False u' (n + 1) ms' st1"
  have R1: "render_chat_prompt_text ms schemas mode = (rs_out st @ tok_assistant) @ tok_think_start"
    using ctx0 think pend by (simp add: render_chat_prompt_text_def Let_def out_def [symmetric] st0_def [symmetric] st_def [symmetric] u_def [symmetric])
  have "render_messages True False u' 0 ms st0 = st"
    unfolding st_def by (rule render_messages_early) (use u u' in \<open>simp_all add: n_def\<close>)
  then have "render_messages True False u' 0 (ms @ m # ms') st0 = st2"
    using role_exclusive [OF m] sys m u' by (simp add: render_messages_split n_def [symmetric] st1_def st2_def)
  then have R2: "render_chat_prompt_text (ms @ m # ms') schemas mode
      = rs_out st2 @ (if rs_pending_assistant st2 then tok_assistant @ tok_think_start else [])"
    using ctx think by (simp add: render_chat_prompt_text_def Let_def sysm out_def [symmetric] st0_def [symmetric] u'_def [symmetric])
  have "rs_out st1 = (rs_out st @ tok_assistant) @ tok_think_end @ or_empty (msg_content m) @ tok_eos"
    by (simp add: st1_def render_assistant_def pend append_dsml_tool_calls_text_def nocalls)
  moreover obtain zs where "rs_out st2 = rs_out st1 @ zs" using render_messages_prefix by (metis prefixE st2_def)
  ultimately show ?thesis unfolding R1 R2 by (intro exI [of _ "rs_out st @ tok_assistant"]) (simp add: byte_prefix_match_def)
qed

definition settled :: "canon_result \<Rightarrow> bool" where
  "settled c \<longleftrightarrow> c \<noteq> Skipped \<and> c \<noteq> CanonFailed"

lemma tool_checkpoint_spells:
  assumes res: "canonicalize_tool_checkpoint F env os r prompt visible reasoning calls sv = Some (c, sv')"
    and v: "lossless_vocab (sv_vocab sv)" and honest: "honest_files sv" and c: "settled c"
  shows "sv_vocab sv' = sv_vocab sv" "render_tokens_text (sv_vocab sv) (live_tokens sv') = r_prompt_text r @ build_tool_checkpoint_suffix r visible reasoning calls"
proof -
  define rendered where "rendered = r_prompt_text r @ build_tool_checkpoint_suffix r visible reasoning calls"
  have calls: "\<not> calls_v calls = []" using res c by (auto simp: canonicalize_tool_checkpoint_def settled_def)
  note eq = res [unfolded canonicalize_tool_checkpoint_def if_not_P [OF calls] Let_def, folded rendered_def]
  from eq obtain canonical where can: "tokenize_rendered_chat_vocab (sv_vocab sv) (Some rendered) [] = Some canonical"
    by (cases "tokenize_rendered_chat_vocab (sv_vocab sv) (Some rendered) []") auto
  note eq = eq [unfolded can bind.bind_lunit]
  have sp: "render_tokens_text (sv_vocab sv) canonical = rendered" by (rule tokenize_spells [OF v can])
  have same: "live_tokens sv = canonical" if "ds4_session_common_prefix (sv_session sv) canonical = length (live_tokens sv) \<and> length canonical = length (live_tokens sv)"
    using that common_whole [of "sv_session sv" canonical] by (cases "live_tokens sv = []") (auto simp: live_tokens_def)
  have "sv_vocab sv' = sv_vocab sv \<and> render_tokens_text (sv_vocab sv) (live_tokens sv') = rendered"
  proof (cases "(ds4_session_common_prefix (sv_session sv) canonical = length (live_tokens sv) \<and> length canonical = length (live_tokens sv))
      \<or> render_tokens_text (sv_vocab sv) (live_tokens sv) = rendered")
    case True
    then have "sv' = sv" using eq by (auto split: if_splits)
    then show ?thesis using True same sp by auto
  next
    case False
    then have "rewrite_live F env os canonical (ds4_session_common_prefix (sv_session sv) canonical) rendered sv = Some (c, sv')"
      using eq c by (auto simp: settled_def split: if_splits)
    from rewrite_live_result [OF this v honest sp] c show ?thesis by (auto simp: settled_def)
  qed
  then show "sv_vocab sv' = sv_vocab sv" "render_tokens_text (sv_vocab sv) (live_tokens sv') = r_prompt_text r @ build_tool_checkpoint_suffix r visible reasoning calls"
    by (simp_all add: rendered_def)
qed

lemma thinking_checkpoint_spells:
  assumes res: "canonicalize_thinking_checkpoint F env os r visible sv = Some (c, sv')"
    and v: "lossless_vocab (sv_vocab sv)" and honest: "honest_files sv" and c: "settled c" and front: "r_prompt_text r = front @ tok_think_start"
  shows "sv_vocab sv' = sv_vocab sv" "render_tokens_text (sv_vocab sv) (live_tokens sv') = front @ tok_think_end @ or_empty visible @ tok_eos"
proof -
  define rendered where "rendered = front @ tok_think_end @ or_empty visible @ tok_eos"
  have th: "\<not> \<not> ds4_think_mode_enabled (r_think_mode r)" using res c unfolding canonicalize_thinking_checkpoint_def settled_def
    by (cases "ds4_think_mode_enabled (r_think_mode r)") auto
  note eq = res [unfolded canonicalize_thinking_checkpoint_def if_not_P [OF th] Let_def front, simplified, folded rendered_def]
  from eq obtain stable where st: "tokenize_rendered_chat_vocab (sv_vocab sv) (Some front) [] = Some stable"
    by (cases "tokenize_rendered_chat_vocab (sv_vocab sv) (Some front) []") auto
  note eq = eq [unfolded st bind.bind_lunit]
  from eq obtain canonical where can: "tokenize_rendered_chat_vocab (sv_vocab sv) (Some rendered) [] = Some canonical"
    by (cases "tokenize_rendered_chat_vocab (sv_vocab sv) (Some rendered) []") auto
  note eq = eq [unfolded can bind.bind_lunit]
  have sp: "render_tokens_text (sv_vocab sv) canonical = rendered" by (rule tokenize_spells [OF v can])
  have "sv_vocab sv' = sv_vocab sv \<and> render_tokens_text (sv_vocab sv) (live_tokens sv') = rendered"
  proof (cases "ds4_session_common_prefix (sv_session sv) canonical = length (live_tokens sv) \<and> length canonical = length (live_tokens sv)")
    case True
    then have "sv' = sv" using eq by auto
    moreover have "live_tokens sv = canonical"
      using True common_whole [of "sv_session sv" canonical] by (cases "live_tokens sv = []") (auto simp: live_tokens_def)
    ultimately show ?thesis using sp by simp
  next
    case False
    then have "rewrite_live F env os canonical (ds4_session_common_prefix (sv_session sv) canonical) rendered sv = Some (c, sv')"
      using eq c by (auto simp: settled_def rendered_def split: if_splits)
    from rewrite_live_result [OF this v honest sp] c show ?thesis by (auto simp: settled_def)
  qed
  then show "sv_vocab sv' = sv_vocab sv" "render_tokens_text (sv_vocab sv) (live_tokens sv') = front @ tok_think_end @ or_empty visible @ tok_eos"
    by (simp_all add: rendered_def)
qed

text \<open>Claim C39. A turn with tool calls is a cache hit for the conversation.  After the turn the worker checks the live session against the
  transcript; unless it skips the check (the sampled tokens already differ inside the prompt) or a rewrite fails, the session is then as it
  was, was rewritten in place, or was rebuilt, from a checkpoint file or from the start.  In each of these cases, when the client sends the same
  messages, tool schemas and thinking mode with the assistant's turn and any further turns back, the rendered request starts with the text of
  the live session, so the worker continues all of its tokens from memory.  Two conditions: the returned turn has the content, the
  reasoning and calls that render to the bytes of the turn's calls (they do when the remembered markup is attached, claim C21; calls
  without it are printed anew and need not), and the checkpoint files are honest, that is the tokens in a file that loads spell the file's text
  (\<open>stored_file_honest\<close>: so does every file that a completed store has written).\<close>

theorem tool_turn_continues:
  assumes res: "canonicalize_tool_checkpoint F env os r prompt visible reasoning calls sv = Some (c, sv')" and c: "settled c"
    and v: "lossless_vocab (sv_vocab sv)" and honest: "honest_files sv"
    and prompt: "r_prompt_text r = render_chat_prompt_text ms schemas (r_think_mode r)"
    and ctx: "chat_history_uses_tool_context ms schemas" and user: "ms \<noteq> []" "role_is_user_like (List.last ms)"
    and m: "role_is ''assistant'' m" "or_empty (msg_content m) = or_empty visible" "or_empty (msg_reasoning m) = or_empty reasoning"
      "append_dsml_tool_calls_text (msg_calls m) = append_dsml_tool_calls_text calls"
    and more: "\<forall>x \<in> set ms'. \<not> role_is_system x"
  shows "\<exists>source p. find_cached oss rnd prompt' (render_chat_prompt_text (ms @ m # ms') schemas (r_think_mode r)) sv'
      = Some (int (length (live_tokens sv')), source, p, sv') \<and> source \<in> {MemoryToken, MemoryText} \<and> live_tokens sv' \<noteq> []"
proof -
  note t = tool_checkpoint_spells [OF res v honest c]
  have "byte_prefix_match (render_chat_prompt_text (ms @ m # ms') schemas (r_think_mode r)) (render_tokens_text (sv_vocab sv') (live_tokens sv'))"
    using tool_turn_rendered [OF ctx user m(1) more, of "r_think_mode r"]
    by (cases "ds4_think_mode_enabled (r_think_mode r)") (simp_all add: t prompt build_tool_checkpoint_suffix_def m)
  moreover have "live_tokens sv' \<noteq> []" using t(2) by (auto simp: build_tool_checkpoint_suffix_def render_tokens_text_def tok_eos_def ascii_def)
  ultimately show ?thesis using live_front_found [of sv'] v t(1) by metis
qed

text \<open>Claim C40. The same for a turn with thinking and without tools: its reasoning is dropped from the live session, because later requests render the
  turn without it.  Whenever the check is not skipped and does not fail (so the session is as it was, was rewritten in place, or was rebuilt from
  a checkpoint file or from the start), a following request that has the same messages and thinking mode, the turn with its content and at
  least one new user turn continues the whole live session from memory.  The checkpoint files are honest, as in claim C39.\<close>

theorem thinking_turn_continues:
  assumes res: "canonicalize_thinking_checkpoint F env os r visible sv = Some (c, sv')" and c: "settled c"
    and v: "lossless_vocab (sv_vocab sv)" and honest: "honest_files sv"
    and prompt: "r_prompt_text r = render_chat_prompt_text ms schemas (r_think_mode r)"
    and ctx: "\<not> chat_history_uses_tool_context (ms @ m # ms') schemas" and user: "ms \<noteq> []" "role_is_user_like (List.last ms)"
    and m: "role_is ''assistant'' m" "or_empty (msg_content m) = or_empty visible"
    and more: "\<forall>x \<in> set ms'. \<not> role_is_system x" "list_ex role_is_user_like ms'"
  shows "\<exists>source p. find_cached oss rnd prompt' (render_chat_prompt_text (ms @ m # ms') schemas (r_think_mode r)) sv'
      = Some (int (length (live_tokens sv')), source, p, sv') \<and> source \<in> {MemoryToken, MemoryText} \<and> live_tokens sv' \<noteq> []"
proof -
  have think: "ds4_think_mode_enabled (r_think_mode r)" using res c unfolding canonicalize_thinking_checkpoint_def settled_def
    by (cases "ds4_think_mode_enabled (r_think_mode r)") auto
  obtain front where front: "r_prompt_text r = front @ tok_think_start"
    "byte_prefix_match (render_chat_prompt_text (ms @ m # ms') schemas (r_think_mode r)) (front @ tok_think_end @ or_empty visible @ tok_eos)"
    using plain_turn_rendered [OF ctx user m(1) more think] by (auto simp: prompt m(2))
  note t = thinking_checkpoint_spells [OF res v honest c front(1)]
  have "live_tokens sv' \<noteq> []" using t(2) by (auto simp: render_tokens_text_def tok_eos_def ascii_def)
  then show ?thesis using live_front_found [of sv'] v t front(2) by metis
qed

section \<open>What the tail of eight bytes sees\<close>

text \<open>Thinking is open when an opening tag ends somewhere in the text and no closing tag ends after it.\<close>

definition thinking_open :: "byte list \<Rightarrow> bool" where
  "thinking_open s \<longleftrightarrow>
     (\<exists>k \<le> length s. suffix tok_think_start (take k s) \<and> (\<forall>j. k < j \<and> j \<le> length s \<longrightarrow> \<not> suffix tok_think_end (take j s)))"

lemma tail_ends_with:
  assumes "ts_tail st = drop (length s - 8) s" "length t \<le> 8"
  shows "thinking_tail_ends_with st t \<longleftrightarrow> suffix t s"
proof
  assume "thinking_tail_ends_with st t"
  then have "drop (length (ts_tail st) - length t) (ts_tail st) = t" by (simp add: thinking_tail_ends_with_def)
  then show "suffix t s" using assms(1) by (metis drop_drop suffix_drop)
next
  assume "suffix t s"
  then obtain zs where s: "s = zs @ t" by (auto simp: suffix_def)
  then have "ts_tail st = drop (length s - 8) zs @ t" using assms by (simp add: drop_append)
  then show "thinking_tail_ends_with st t" by (simp add: thinking_tail_ends_with_def)
qed

lemma think_tags: "length tok_think_start = 7" "length tok_think_end = 8" "\<not> (suffix tok_think_start s \<and> suffix tok_think_end s)"
proof -
  show "length tok_think_start = 7" "length tok_think_end = 8" by (simp_all add: tok_think_start_def tok_think_end_def ascii_def)
  then have "suffix tok_think_start tok_think_end" if "suffix tok_think_start s" "suffix tok_think_end s"
    using that suffix_length_suffix [of tok_think_start s tok_think_end] by simp
  moreover have "\<not> suffix tok_think_start tok_think_end"
    by (simp add: suffix_def tok_think_start_def tok_think_end_def ascii_def)
  ultimately show "\<not> (suffix tok_think_start s \<and> suffix tok_think_end s)" by blast
qed

lemma thinking_open_snoc:
  "thinking_open (s @ [c]) \<longleftrightarrow> suffix tok_think_start (s @ [c]) \<or> thinking_open s \<and> \<not> suffix tok_think_end (s @ [c])"
proof
  assume "thinking_open (s @ [c])"
  then obtain k where k: "k \<le> length (s @ [c])" "suffix tok_think_start (take k (s @ [c]))"
    "\<And>j. k < j \<Longrightarrow> j \<le> length (s @ [c]) \<Longrightarrow> \<not> suffix tok_think_end (take j (s @ [c]))" by (auto simp: thinking_open_def)
  show "suffix tok_think_start (s @ [c]) \<or> thinking_open s \<and> \<not> suffix tok_think_end (s @ [c])"
  proof (cases "k = length (s @ [c])")
    case True
    then show ?thesis using k(2) by simp
  next
    case False
    then have le: "k \<le> length s" using k(1) by simp
    have "\<not> suffix tok_think_end (take j s)" if "k < j" "j \<le> length s" for j using k(3) [of j] that by simp
    then have "thinking_open s" using k(2) le by (auto simp: thinking_open_def)
    then show ?thesis using k(3) [of "length (s @ [c])"] le by simp
  qed
next
  assume "suffix tok_think_start (s @ [c]) \<or> thinking_open s \<and> \<not> suffix tok_think_end (s @ [c])"
  then show "thinking_open (s @ [c])"
  proof
    assume "suffix tok_think_start (s @ [c])"
    then show ?thesis unfolding thinking_open_def by (intro exI [of _ "length (s @ [c])"]) auto
  next
    assume a: "thinking_open s \<and> \<not> suffix tok_think_end (s @ [c])"
    then obtain k where k: "k \<le> length s" "suffix tok_think_start (take k s)" "\<And>j. k < j \<Longrightarrow> j \<le> length s \<Longrightarrow> \<not> suffix tok_think_end (take j s)"
      by (auto simp: thinking_open_def)
    have "\<not> suffix tok_think_end (take j (s @ [c]))" if "k < j" "j \<le> length (s @ [c])" for j
      using that a k(3) [of j] by (cases "j = length (s @ [c])") auto
    then show ?thesis using k unfolding thinking_open_def by (intro exI [of _ k]) simp
  qed
qed

lemma thinking_state_spec: "thinking_state_feed s thinking_state_zero = \<lparr>ts_inside = thinking_open s, ts_tail = drop (length s - 8) s\<rparr>"
proof (induction s rule: rev_induct)
  case Nil
  have "\<not> thinking_open []" using think_tags(1) by (auto simp: thinking_open_def)
  then show ?case by (simp add: thinking_state_feed_def thinking_state_zero_def)
next
  case (snoc c s)
  define st where "st = \<lparr>ts_inside = thinking_open s, ts_tail = drop (length (s @ [c]) - 8) (s @ [c])\<rparr>"
  have "thinking_state_feed (s @ [c]) thinking_state_zero = thinking_byte c \<lparr>ts_inside = thinking_open s, ts_tail = drop (length s - 8) s\<rparr>"
    using snoc by (simp add: thinking_state_feed_def)
  also have "\<dots> = (if thinking_tail_ends_with st tok_think_start then st\<lparr>ts_inside := True\<rparr>
      else if thinking_tail_ends_with st tok_think_end then st\<lparr>ts_inside := False\<rparr> else st)"
  proof (cases "8 \<le> length s")
    case True
    then obtain n where "length s = n + 8" by (metis le_add_diff_inverse2)
    then have "tl (drop (length s - 8) s) @ [c] = drop (length (s @ [c]) - 8) (s @ [c])" by (simp add: drop_Suc tl_drop)
    then show ?thesis using True by (simp add: thinking_byte_def st_def Let_def)
  next
    case False
    then show ?thesis by (simp add: thinking_byte_def st_def Let_def)
  qed
  also have "\<dots> = (if suffix tok_think_start (s @ [c]) then st\<lparr>ts_inside := True\<rparr>
      else if suffix tok_think_end (s @ [c]) then st\<lparr>ts_inside := False\<rparr> else st)"
    using tail_ends_with [of st "s @ [c]"] think_tags(1,2) by (simp add: st_def del: suffix_snoc)
  finally show ?case using think_tags(3) [of "s @ [c]"] by (simp add: st_def thinking_open_snoc del: suffix_snoc)
qed

text \<open>The server's eight-byte window follows the thinking tags exactly: after any text it is inside thinking just when some
  opening tag ends in the text and no closing tag ends after it, however the text was cut into pieces.\<close>

theorem thinking_state_exact:
  "ts_inside (fold thinking_state_feed pieces thinking_state_zero) \<longleftrightarrow> thinking_open (concat pieces)"
proof -
  have "fold thinking_state_feed pieces st = thinking_state_feed (concat pieces) st" for st
    by (induction pieces arbitrary: st) (simp_all add: thinking_state_feed_def)
  then show ?thesis by (simp add: thinking_state_spec)
qed

section \<open>Samples\<close>

lemma progress_calls_disabled:
  "\<not> kc_enabled (sv_kv sv) \<Longrightarrow> progress_calls oss rnd c k cs sv \<noteq> None"
  by (induction cs arbitrary: k sv)
    (simp_all add: server_progress_cb_def kv_cache_maybe_store_continued_def kv_cache_continued_store_target_def kv_cache_continued_step_def)

definition worker_server :: "'w live_session \<Rightarrow> 'w server" where
  "worker_server s =
     \<lparr>sv_kv = kv_cache_zero, sv_session = s, sv_mem = memory_start 0 0, sv_disable_replay = True, sv_quant_bits = 2, sv_vocab = byte_vocab,
      sv_kernels = no_kernels, sv_last_evicted = [], sv_files = (\<lambda>_. None)\<rparr>"

lemma worker_server_honest: "honest_files (worker_server s)"
  by (simp add: honest_files_def worker_server_def)

theorem served_prompt_ready_witness:
  "\<exists>d. serve_prompt echo_forward None (\<lambda>_. plain_os [] 0) id [7, 9, 3] [] (worker_server (echo_session [7, 9])) = Some d
     \<and> sd_error d = None \<and> sd_source d = MemoryToken \<and> live_tokens (sd_server d) = [7, 9, 3] \<and> described_by echo_meaning (sv_session (sd_server d))"
proof -
  let ?sv = "worker_server (echo_session [7, 9])"
  have f: "find_cached (\<lambda>_. plain_os [] 0) id [7, 9, 3] [] ?sv = Some (2, MemoryToken, [7, 9, 3], ?sv)"
    by (simp add: find_cached_def worker_server_def live_tokens_def ds4_session_common_prefix_def echo_session_def)
  have off: "\<not> kc_enabled (sv_kv ?sv)" "set_progress True ?sv = ?sv" "sv_session ?sv = echo_session [7, 9]"
    by (simp_all add: worker_server_def kv_cache_zero_def set_progress_def echo_session_def)
  obtain r s calls where y: "ds4_session_sync echo_forward None [7, 9, 3] (echo_session [7, 9]) = (r, s, calls)" by (metis prod_cases3)
  have "fst (ds4_session_sync echo_forward None [7, 9, 3] (echo_session [7, 9])) = None" by code_simp
  then have r: "r = None" using y by simp
  obtain sv1 where "progress_calls (\<lambda>k. plain_os [] 0) id 2 0 calls ?sv = Some sv1"
    using progress_calls_disabled [OF off(1)] by (metis option.exhaust)
  then have "sync_server echo_forward None (\<lambda>k. plain_os [] 0) id 2 [7, 9, 3] ?sv = Some (None, sv1\<lparr>sv_session := s\<rparr>)"
    by (simp add: sync_server_def off(3) y r)
  then have "\<exists>d. serve_prompt echo_forward None (\<lambda>_. plain_os [] 0) id [7, 9, 3] [] ?sv = Some d \<and> sd_error d = None \<and> sd_source d = MemoryToken"
    using off by (simp add: serve_prompt_def f cold_length_def)
  then obtain d where d: "serve_prompt echo_forward None (\<lambda>_. plain_os [] 0) id [7, 9, 3] [] ?sv = Some d" "sd_error d = None" "sd_source d = MemoryToken"
    by blast
  have "lossless_vocab (sv_vocab ?sv)" "backed echo_meaning (sv_session ?sv)" by (simp_all add: worker_server_def byte_vocab_lossless echo_backed)
  from served_prompt_ready [OF d(1) this(1) echo_sound this(2)] d show ?thesis by auto
qed

lemma canonicalized_already:
  assumes "tokenize_rendered_chat_vocab v (Some (r_prompt_text r @ build_tool_checkpoint_suffix r visible reasoning calls)) [] = Some ids" "calls_v calls \<noteq> []"
    "sv_vocab sv = v" "live_tokens sv = ids" "se_checkpoint_valid (sv_session sv)"
  shows "canonicalize_tool_checkpoint F env os r prompt visible reasoning calls sv = Some (AlreadySame, sv)"
proof -
  have "common_from ids ids = length ids" by (induction ids) simp_all
  then show ?thesis using assms
    by (simp add: canonicalize_tool_checkpoint_def ds4_session_common_prefix_def live_tokens_def)
qed

theorem tool_turn_continues_witness:
  "\<exists>ids source p. live_tokens (worker_server (echo_session ids)) \<noteq> []
     \<and> find_cached (\<lambda>_. plain_os [] 0) id []
         (render_chat_prompt_text ([plain_message (ascii ''user'', ascii ''hi'')] @
            no_msg\<lparr>msg_role := Some (ascii ''assistant''), msg_content := Some (ascii ''ok''), msg_calls := \<lparr>calls_v = [sample_call], calls_raw_dsml = None\<rparr>\<rparr> #
            [plain_message (ascii ''tool'', ascii ''done'')]) (Some (ascii ''{}'')) DS4_THINK_HIGH)
         (worker_server (echo_session ids)) = Some (int (length ids), source, p, worker_server (echo_session ids))"
proof -
  let ?u = "plain_message (ascii ''user'', ascii ''hi'')" and ?c = "\<lparr>calls_v = [sample_call], calls_raw_dsml = None\<rparr>"
  let ?m = "no_msg\<lparr>msg_role := Some (ascii ''assistant''), msg_content := Some (ascii ''ok''), msg_calls := ?c\<rparr>"
  define r where "r = (request_init REQ_CHAT)\<lparr>r_prompt_text := render_chat_prompt_text [?u] (Some (ascii ''{}'')) DS4_THINK_HIGH\<rparr>"
  have mode: "r_think_mode r = DS4_THINK_HIGH" by (simp add: r_def request_init_def)
  obtain ids where ids: "tokenize_rendered_chat_vocab byte_vocab (Some (r_prompt_text r @ build_tool_checkpoint_suffix r (Some (ascii ''ok'')) None ?c)) [] = Some ids"
    using suffix_prompt [OF byte_vocab_lossless, of "[]"] by (auto simp: build_prompt_from_exact_prefix_and_text_suffix_def)
  have can: "canonicalize_tool_checkpoint echo_forward None (plain_os [] 0) r [] (Some (ascii ''ok'')) None ?c (worker_server (echo_session ids))
      = Some (AlreadySame, worker_server (echo_session ids))"
    by (rule canonicalized_already [OF ids]) (simp_all add: worker_server_def live_tokens_def echo_backed)
  have v: "lossless_vocab (sv_vocab (worker_server (echo_session ids)))" by (simp add: worker_server_def byte_vocab_lossless)
  have roles: "role_is_user_like ?u" "role_is ''assistant'' ?m" "\<not> role_is_system (plain_message (ascii ''tool'', ascii ''done''))"
    "chat_history_uses_tool_context [?u] (Some (ascii ''{}''))"
    by (simp_all add: role_is_user_like_def role_is_system_def role_is_def plain_message_def no_msg_def ascii_inj chat_history_uses_tool_context_def
        or_empty_def ascii_def [of "''{}''"])
  have n: "length (live_tokens (worker_server (echo_session ids))) = length ids" by (simp add: worker_server_def live_tokens_def echo_backed)
  from tool_turn_continues [OF can _ v worker_server_honest, of "[?u]" "Some (ascii ''{}'')" ?m "[plain_message (ascii ''tool'', ascii ''done'')]" "\<lambda>_. plain_os [] 0" id "[]"]
  show ?thesis using roles mode n
    by (auto simp: settled_def r_def or_empty_def no_msg_def intro!: exI [of _ ids])
qed

theorem thinking_turn_continues_witness:
  "\<exists>ids source p. live_tokens (worker_server (echo_session ids)) \<noteq> []
     \<and> find_cached (\<lambda>_. plain_os [] 0) id []
         (render_chat_prompt_text ([plain_message (ascii ''user'', ascii ''hi'')] @ plain_message (ascii ''assistant'', ascii ''ok'') #
            [plain_message (ascii ''user'', ascii ''and?'')]) None DS4_THINK_HIGH)
         (worker_server (echo_session ids)) = Some (int (length ids), source, p, worker_server (echo_session ids))"
proof -
  let ?u = "plain_message (ascii ''user'', ascii ''hi'')" and ?m = "plain_message (ascii ''assistant'', ascii ''ok'')"
    and ?w = "plain_message (ascii ''user'', ascii ''and?'')"
  define r where "r = (request_init REQ_CHAT)\<lparr>r_prompt_text := render_chat_prompt_text [?u] None DS4_THINK_HIGH\<rparr>"
  have mode: "r_think_mode r = DS4_THINK_HIGH" by (simp add: r_def request_init_def)
  have think: "ds4_think_mode_enabled DS4_THINK_HIGH" by (simp add: ds4_think_mode_enabled_def)
  have roles: "role_is_user_like ?u" "role_is ''assistant'' ?m" "\<not> role_is_system ?w" "role_is_user_like ?w"
    "\<not> chat_history_uses_tool_context ([?u] @ ?m # [?w]) None"
    by (simp_all add: role_is_user_like_def role_is_system_def role_is_def plain_message_def no_msg_def no_calls_def ascii_inj chat_history_uses_tool_context_def or_empty_def)
  obtain front where front: "r_prompt_text r = front @ tok_think_start"
    using plain_turn_rendered [OF roles(5) _ _ roles(2), of DS4_THINK_HIGH] roles think by (auto simp: r_def)
  obtain stable where st: "tokenize_rendered_chat_vocab byte_vocab (Some front) [] = Some stable"
    using suffix_prompt [OF byte_vocab_lossless, of "[]"] by (auto simp: build_prompt_from_exact_prefix_and_text_suffix_def)
  obtain ids where ids: "tokenize_rendered_chat_vocab byte_vocab (Some (front @ tok_think_end @ or_empty (Some (ascii ''ok'')) @ tok_eos)) [] = Some ids"
    using suffix_prompt [OF byte_vocab_lossless, of "[]"] by (auto simp: build_prompt_from_exact_prefix_and_text_suffix_def)
  have same: "common_from ids ids = length ids" by (induction ids) simp_all
  have n: "live_tokens (worker_server (echo_session ids)) = ids" by (simp add: worker_server_def live_tokens_def echo_backed)
  have can: "canonicalize_thinking_checkpoint echo_forward None (plain_os [] 0) r (Some (ascii ''ok'')) (worker_server (echo_session ids))
      = Some (AlreadySame, worker_server (echo_session ids))"
    using st ids same n
    by (simp add: canonicalize_thinking_checkpoint_def mode think front worker_server_def ds4_session_common_prefix_def echo_backed)
  have v: "lossless_vocab (sv_vocab (worker_server (echo_session ids)))" by (simp add: worker_server_def byte_vocab_lossless)
  from thinking_turn_continues [OF can _ v worker_server_honest, of "[?u]" None ?m "[?w]" "\<lambda>_. plain_os [] 0" id "[]"]
  show ?thesis using roles mode n
    by (auto simp: settled_def r_def or_empty_def plain_message_def no_msg_def intro!: exI [of _ ids])
qed

end
