(* ===== verification/Spec2Isabelle.thy ===== *)
theory Spec2Isabelle
  imports Ds4_Gguf Ds4_Strtable Ds4_Tokenizer Ds4_Weights Ds4_Json Ds4_Stops Ds4_Escape Ds4_Requests Ds4_Dsml Ds4_Track
    Ds4_ToolMem Ds4_Sha1 Ds4_KvFile Ds4_Payload Ds4_Sched Ds4_Session Ds4_KvCache Ds4_Worker
begin

text \<open>
  \<^bold>\<open>ds4-nvfp4-spark: a verification library for the host side of the inference server\<close>

  The program loads one model file (GGUF), tokenizes chats for it, runs it on a GPU and serves
  it over HTTP with the OpenAI and Anthropic request formats.  This library models the host
  code that decides what bytes mean: the loader of the model file, the tokenizer, the weight
  binder, and in the server the JSON reader, the request parsers, the prompt renderer, the
  parsers of what the model sampled, and the memory that makes a conversation replay the sampled
  bytes.  Paths below are under \<^verbatim>\<open>src/src/\<close> of the repository.

  \<^bold>\<open>How the parts fit together.\<close>  \<^verbatim>\<open>model_open\<close> maps the file and parses its directories; the
  tokenizer loads its vocabulary from the metadata into two hash tables; the binder looks up every
  tensor by name and checks type, shape and place in the file.  A request body goes through
  \<^verbatim>\<open>parse_chat_request\<close>, \<^verbatim>\<open>parse_anthropic_request\<close> or \<^verbatim>\<open>parse_completion_request\<close>, which read it with
  the JSON reader, attach remembered tool-call text to the messages, and render the prompt;
  \<^verbatim>\<open>generate_job\<close> samples, follows the reply with the tracker and the stop list, and parses the whole
  reply back into content, reasoning and tool calls, which it remembers for the next request.  Before it
  samples, the prompt is matched with the live session or with a checkpoint file of the disk cache, and
  \<^verbatim>\<open>ds4_session_sync\<close> evaluates only what is new.  Each connection has a thread that parses; one worker takes the
  parsed jobs in order and owns the session.

  \<^bold>\<open>Theories.\<close>
  \<^item> \<open>Ds4_Prelude\<close>: bytes, words, little-endian integers, decimal printing, text literals.
  \<^item> \<open>Ds4_Gguf\<close> (\<^verbatim>\<open>model/ds4_gguf.c\<close>): the cursor, the type table, the metadata and tensor directories,
    \<^verbatim>\<open>model_open\<close>, the typed accessors.  The lemmas give the cursor's invariant, the bounds of the
    directory loops, the place and size of every tensor of a file that opens, and where the checks of
    the source have gaps (a wrapping round-up, types outside the table).
  \<^item> \<open>Ds4_Strtable\<close> (\<^verbatim>\<open>tokenizer/ds4_tokenizer.c\<close>, \<^verbatim>\<open>util/ds4_util.c\<close>): the open-addressing hash table; it
    refines a finite map and every probe ends.
  \<^item> \<open>Ds4_Tokenizer\<close> (same file): byte alphabet, BPE merges, pre-tokenizer, vocabulary load, chat encoding,
    special tokens, detokenizer.  Tokenizing is lossless.
  \<^item> \<open>Ds4_Weights\<close> (\<^verbatim>\<open>model/ds4_weights.c\<close>): tensor lookup, binding and validation of the main and MTP
    tables, REAP metadata.  After binding, every tensor is the directory entry of its name with the
    compiled-in type and shape, inside the file.
  \<^item> \<open>Ds4_Json\<close> (\<^verbatim>\<open>server/ds4_server.c\<close>, as all that follow): the JSON reader and the escapes it prints, with
    the interfaces \<open>consumer\<close> and \<open>field_reader\<close> that every object and array loop of the server meets.
  \<^item> \<open>Ds4_Stops\<close>: stop sequences, and the limits that hold back the tail of a stream.
  \<^item> \<open>Ds4_Escape\<close>: the markers of the tool-call markup (DSML), its escapes, tag attributes.
  \<^item> \<open>Ds4_Requests\<close>: message, tool, schema and control parsers and the member loops of the three bodies.
  \<^item> \<open>Ds4_Dsml\<close>: rendering of tool calls and prompts, and the parser of sampled replies; a rendered block parses back to the calls it was
    made from (ids apart) as long as no string value contains an entity, which the decoder would change.
  \<^item> \<open>Ds4_Track\<close>: the recognizer that decides after each token whether protocol or payload is sampled.
  \<^item> \<open>Ds4_ToolMem\<close>: the memory of sampled tool calls over an explicit heap of linked entries; it refines a
    list in order of use.
  \<^item> \<open>Ds4_Sha1\<close>: the incremental hash behind the names of cache files; it is the standard's function.
  \<^item> \<open>Ds4_KvFile\<close>: the format of a cache file: header, text, tool map, and the reader of a directory entry.
  \<^item> \<open>Ds4_Payload\<close> (\<^verbatim>\<open>core/ds4_session.inc\<close>): saving and loading the checkpoint of a session.  A save has the
    announced size and is restored into every session of the same layout with room.  Compressed rows may be plain or packed
    (\<^verbatim>\<open>DS4_KV_TURBO\<close>) on either side; packing is lossy, so a packed target must have kernels that reproduce the rows they
    are handed (\<open>keeps_rows\<close>), as they do for rows that came out of packed ones.
  \<^item> \<open>Ds4_Session\<close> (\<^verbatim>\<open>core/ds4_session.inc\<close>, \<^verbatim>\<open>core/ds4_gpu.inc\<close>): the live session: sync with chunked prefill, evaluation,
    rewriting, rewinding.  The transformer calls are a parameter with their promises; the lemmas show
    that a valid checkpoint always describes the backend, also in the middle of a prefill.
  \<^item> \<open>Ds4_KvCache\<close> (\<^verbatim>\<open>server/ds4_server.c\<close>): the directory of checkpoint files: scanning, eviction, storing,
    lookup by text, loading.  A stored checkpoint that is found again continues where it was, and
    eviction ends within the budget when files can be removed.
  \<^item> \<open>Ds4_Worker\<close> (\<^verbatim>\<open>server/ds4_server.c\<close>): what the worker does to the session around a request: the choice of a checkpoint, the
    prefill with its progress stores, the rewriting of the finished turn.  The served prompt is the request's own or spells it,
    and a turn whose session was right, rewritten in place, or rebuilt from a checkpoint file or from the start is a memory
    hit for the next request of the conversation.  The tokens of a checkpoint file must spell its text (\<open>honest_files\<close>); files that a
    completed store writes do.
  \<^item> \<open>Ds4_Sched\<close> (\<^verbatim>\<open>server/ds4_server.c\<close>): accept loop, client threads, worker and shutdown as interleaved steps over
    the queue, its mutex and condition variables.  Requests are served in order and none is left behind.

  \<^bold>\<open>Conventions.\<close>  A buffer is a \<open>byte list\<close>; a C string is one without a zero byte (\<open>cstr\<close> cuts at the
  first).  Integers whose wrap-around matters are words of their width; counters of live memory and
  list lengths are \<open>nat\<close>.  A parser returns \<open>None\<close> for \<^verbatim>\<open>false\<close>; \<^verbatim>\<open>exit\<close> and \<^verbatim>\<open>die\<close> are \<open>Inl\<close> with the
  message or \<open>None\<close>.  Deallocation is modelled where lifetime is the point (\<open>Ds4_ToolMem\<close>) and has no
  counterpart elsewhere.

  \<^bold>\<open>Fuel.\<close>  Loops that are not structural take fuel, and a lemma shows that it is enough: the JSON
  skipper \<open>3 * length + 3\<close> (three calls per byte; running out is an outcome of its own, apart from refusing), member loops \<open>length + 1\<close> (every member eats a byte), the
  loops over invokes and parameters \<open>length + 1\<close>, the tracker \<open>length + 1\<close> (every round moves forward),
  hash probes the capacity of the table (a free slot exists), BPE merging the number of symbols.
  A chunked prefill takes one round more than it has tokens (every chunk has at least one) and eviction one
  per directory entry.  The pruning and block loops of the tool memory are partial functions proved to return.

  \<^bold>\<open>Not modelled.\<close>  Floating point: the values of JSON numbers (the text \<^verbatim>\<open>strtod\<close> matches is kept), the
  SwiGLU and RoPE checks of the metadata, sampling, the CPU and CUDA kernels, quantization.  The
  GPU graph and the engine's forward passes (a parameter of \<open>Ds4_Session\<close>), speculative decoding, checkpoints kept in memory.  Pure input and output: sockets, event-stream
  writers, logging, tracing, the terminal.  The vendored \<^verbatim>\<open>linenoise\<close> and \<^verbatim>\<open>rax\<close> (a finite map here), and
  the offline quantizer and scripts.
\<close>

end
